(* ===== verification/Prelude.thy ===== *)
theory Prelude
  imports Main "HOL-Library.Word" "HOL-Library.Sublist" "HOL-Library.Multiset"
    "HOL-Library.Product_Lexorder" "HOL-Library.List_Lexorder"
begin

text \<open>
  Shared ground of the development: the machine integers and standard-library containers the
  crates use, and the generic lemmas the component theories rest on.

  \<^item> \<open>u64\<close> is a 64-bit word; \<open>sat_add\<close>, \<open>checked_add\<close> are Rust's saturating and checked
    addition. Plain \<open>+\<close> on a word wraps, which is what Rust's \<open>+\<close> does in a release build.
  \<^item> A \<open>HashMap\<close> that is never iterated is a HOL map. A \<open>BTreeMap\<close> is an association list in
    ascending key order (\<open>btm_insert\<close>, \<open>btm_remove\<close>, \<open>map_of\<close>), a \<open>BTreeSet\<close> an ascending list
    (\<open>bts_insert\<close>, \<open>bts_remove\<close>), so that their iteration order is the source's.
  \<^item> \<open>starts_with\<close> is the slice method; it is the component-wise ancestor test everywhere.

  The collection \<open>container_simps\<close> holds the equations of the containers.
\<close>

named_theorems container_simps \<open>lookup and membership laws of the standard containers\<close>

unbundle bit_operations_syntax

section \<open>Machine integers\<close>

type_synonym u64 = "64 word"

definition u64_max :: u64 where
  "u64_max = - 1"

definition sat_add :: "u64 \<Rightarrow> u64 \<Rightarrow> u64" where
  "sat_add a b = (if unat a + unat b < 2 ^ 64 then a + b else u64_max)"

definition checked_add :: "u64 \<Rightarrow> u64 \<Rightarrow> u64 option" where
  "checked_add a b = (if unat a + unat b < 2 ^ 64 then Some (a + b) else None)"

lemma le_u64_max [simp]: "a \<le> u64_max"
  by (simp add: u64_max_def unsigned_minus_1_eq_mask mask_eq_exp_minus_1)

lemma unat_u64_lt: "unat (a :: u64) < 2 ^ 64"
  using unsigned_less [where w = a and ?'a = nat] by simp

lemma unat_u64_max: "unat u64_max = 2 ^ 64 - 1"
  by (simp add: u64_max_def unsigned_minus_1_eq_mask mask_eq_exp_minus_1)

lemma unat_plus_u64: "unat (a :: u64) + unat b < 2 ^ 64 \<Longrightarrow> unat (a + b) = unat a + unat b"
  by (simp add: unat_word_ariths)

lemma unat_sat_add: "unat (sat_add a b) = min (unat a + unat b) (2 ^ 64 - 1)"
  by (auto simp: sat_add_def unat_plus_u64 unat_u64_max)

lemma sat_add_ge1: "a \<le> sat_add a b"
  using unat_u64_lt [of a] by (simp add: word_le_nat_alt unat_sat_add)

lemma sat_add_0_right [simp]: "sat_add a 0 = a"
  using unat_u64_lt [of a] by (simp add: sat_add_def)

lemma sat_add_mono: "b \<le> c \<Longrightarrow> sat_add a b \<le> sat_add a c"
  by (simp add: word_le_nat_alt unat_sat_add)

lemma less_u64_max_iff: "a < u64_max \<longleftrightarrow> a \<noteq> u64_max"
  by (metis le_u64_max order.not_eq_order_implies_strict order_less_irrefl)

lemma sat_add_1_gt: "a \<noteq> u64_max \<Longrightarrow> a < sat_add a 1"
  unfolding less_u64_max_iff [symmetric] word_less_nat_alt unat_sat_add unat_u64_max
  by simp

lemma sat_add_1_le: "a < b \<Longrightarrow> sat_add a 1 \<le> b"
  using unat_u64_lt [of b] by (simp add: word_less_nat_alt word_le_nat_alt unat_sat_add)

lemma checked_add_Some: "checked_add a b = Some c \<Longrightarrow> unat c = unat a + unat b"
  by (auto simp: checked_add_def unat_plus_u64 split: if_splits)

lemma checked_add_1_None_iff: "checked_add a 1 = None \<longleftrightarrow> a = u64_max"
proof -
  have "unat a + 1 < 2 ^ 64 \<longleftrightarrow> unat a \<noteq> unat u64_max"
    using unat_u64_lt [of a] by (simp add: unat_u64_max) linarith
  then show ?thesis by (simp add: checked_add_def word_unat_eq_iff)
qed

section \<open>Slices\<close>

definition starts_with :: "'a list \<Rightarrow> 'a list \<Rightarrow> bool" where
  "starts_with xs p \<longleftrightarrow> take (length p) xs = p"

lemma starts_with_iff [simp]: "starts_with xs p \<longleftrightarrow> prefix p xs"
proof
  assume "starts_with xs p"
  then show "prefix p xs" unfolding starts_with_def by (metis take_is_prefix)
next
  assume "prefix p xs"
  then show "starts_with xs p" by (auto simp: starts_with_def prefix_def)
qed

lemma prefix_comparable:
  "prefix p xs \<Longrightarrow> prefix q xs \<Longrightarrow> prefix p q \<or> prefix q p"
  by (rule prefix_same_cases)

section \<open>Ordered maps and sets\<close>

fun btm_insert :: "'k::linorder \<Rightarrow> 'v \<Rightarrow> ('k \<times> 'v) list \<Rightarrow> ('k \<times> 'v) list" where
  "btm_insert k v [] = [(k, v)]"
| "btm_insert k v ((k', v') # m) =
     (if k < k' then (k, v) # (k', v') # m
      else if k = k' then (k, v) # m
      else (k', v') # btm_insert k v m)"

definition btm_remove :: "'k \<Rightarrow> ('k \<times> 'v) list \<Rightarrow> ('k \<times> 'v) list" where
  "btm_remove k m = filter (\<lambda>e. fst e \<noteq> k) m"

abbreviation btm_ok :: "('k::linorder \<times> 'v) list \<Rightarrow> bool" where
  "btm_ok m \<equiv> sorted_wrt (<) (map fst m)"

fun bts_insert :: "'k::linorder \<Rightarrow> 'k list \<Rightarrow> 'k list" where
  "bts_insert k [] = [k]"
| "bts_insert k (k' # s) =
     (if k < k' then k # k' # s else if k = k' then k' # s else k' # bts_insert k s)"

definition bts_remove :: "'k \<Rightarrow> 'k list \<Rightarrow> 'k list" where
  "bts_remove k s = filter (\<lambda>x. x \<noteq> k) s"

lemma map_of_btm_insert [simp, container_simps]:
  "map_of (btm_insert k v m) = (map_of m)(k \<mapsto> v)"
  by (induction k v m rule: btm_insert.induct) (auto simp: fun_eq_iff)

lemma map_of_btm_remove [simp, container_simps]:
  "map_of (btm_remove k m) = (map_of m)(k := None)"
  by (induction m) (auto simp: btm_remove_def fun_eq_iff)

lemma set_fst_btm_insert: "fst ` set (btm_insert k v m) = insert k (fst ` set m)"
  by (induction k v m rule: btm_insert.induct) auto

lemma btm_ok_insert: "btm_ok m \<Longrightarrow> btm_ok (btm_insert k v m)"
  by (induction k v m rule: btm_insert.induct) (auto simp: set_fst_btm_insert)

lemma btm_ok_remove: "btm_ok m \<Longrightarrow> btm_ok (btm_remove k m)"
  unfolding btm_remove_def
  by (induction m) auto

lemma btm_ok_distinct: "btm_ok m \<Longrightarrow> distinct (map fst m)"
  by (induction m) auto

lemma set_btm_remove: "set (btm_remove k m) = {e \<in> set m. fst e \<noteq> k}"
  by (simp add: btm_remove_def)

lemma set_bts_insert [simp, container_simps]: "set (bts_insert k s) = insert k (set s)"
  by (induction k s rule: bts_insert.induct) auto

lemma set_bts_remove [simp, container_simps]: "set (bts_remove k s) = set s - {k}"
  by (auto simp: bts_remove_def)

lemma bts_ok_insert: "sorted_wrt (<) s \<Longrightarrow> sorted_wrt (<) (bts_insert k s)"
  by (induction k s rule: bts_insert.induct) auto

lemma bts_ok_remove: "sorted_wrt (<) s \<Longrightarrow> sorted_wrt (<) (bts_remove k s)"
  by (simp add: bts_remove_def sorted_wrt_filter)

lemma map_of_in_set: "map_of m k = Some v \<Longrightarrow> (k, v) \<in> set m"
  by (rule map_of_SomeD)

lemma map_of_btm: "btm_ok m \<Longrightarrow> (k, v) \<in> set m \<longleftrightarrow> map_of m k = Some v"
  using btm_ok_distinct [of m] by auto

lemma mset_btm_insert:
  "btm_ok m \<Longrightarrow> mset (btm_insert k v m) = add_mset (k, v) (mset (btm_remove k m))"
proof (induction k v m rule: btm_insert.induct)
  case (2 k v k' v' m)
  have "btm_remove k m = m" if "k \<le> k'"
    unfolding btm_remove_def using 2(2) that by (intro filter_True) force
  with 2 show ?case
    by (cases "k < k'"; cases "k = k'") (simp_all add: btm_remove_def flip: mset_filter)
qed (simp add: btm_remove_def)

lemma mset_btm_take:
  "btm_ok m \<Longrightarrow> map_of m k = Some v \<Longrightarrow> mset m = add_mset (k, v) (mset (btm_remove k m))"
proof (induction m)
  case (Cons e m)
  show ?case
  proof (cases "fst e = k")
    case True
    then have "btm_remove k m = m"
      unfolding btm_remove_def using Cons.prems(1) by (intro filter_True) force
    then show ?thesis using True Cons.prems by (cases e) (simp add: btm_remove_def)
  next
    case False
    then show ?thesis using Cons by (cases e) (auto simp: btm_remove_def)
  qed
qed simp

lemma set_btm_insert:
  "btm_ok m \<Longrightarrow> set (btm_insert k v m) = insert (k, v) {e \<in> set m. fst e \<noteq> k}"
  using arg_cong [OF mset_btm_insert, of m set_mset k v] by (auto simp: btm_remove_def)

lemma length_btm_insert_new:
  "btm_ok m \<Longrightarrow> map_of m k = None \<Longrightarrow> length (btm_insert k v m) = Suc (length m)"
proof -
  assume ok: "btm_ok m" and n: "map_of m k = None"
  have "btm_remove k m = m"
    unfolding btm_remove_def using n by (intro filter_True) (force simp: map_of_eq_None_iff)
  then show ?thesis using arg_cong [OF mset_btm_insert [OF ok], of size k v] by simp
qed

text \<open>A range query on an ordered map: skip what sorts below, take while in range.\<close>

lemma takeWhile_sorted_filter:
  "sorted (map f xs) \<Longrightarrow> takeWhile (\<lambda>x. f x \<le> t) xs = filter (\<lambda>x. f x \<le> t) xs"
  by (induction xs) (fastforce simp: filter_empty_conv intro!: sym [OF filter_False])+

lemma takeWhile_dropWhile_sorted:
  "sorted (map f xs) \<Longrightarrow>
     takeWhile (\<lambda>x. f x = s) (dropWhile (\<lambda>x. f x < s) xs) = filter (\<lambda>x. f x = s) xs"
proof (induction xs)
  case (Cons x xs)
  show ?case
  proof (cases "f x < s")
    case False
    have "takeWhile (\<lambda>x. f x = s) xs = takeWhile (\<lambda>x. f x \<le> s) xs"
      using Cons.prems False by (intro takeWhile_cong) auto
    also have "\<dots> = filter (\<lambda>x. f x \<le> s) xs" using Cons.prems by (simp add: takeWhile_sorted_filter)
    also have "\<dots> = filter (\<lambda>x. f x = s) xs"
      using Cons.prems False by (intro filter_cong) auto
    finally have eq: "takeWhile (\<lambda>x. f x = s) xs = filter (\<lambda>x. f x = s) xs" .
    have "filter (\<lambda>x. f x = s) xs = []" if "f x \<noteq> s"
      using Cons.prems False that by (fastforce simp: filter_empty_conv)
    with eq False show ?thesis by simp
  qed (use Cons in auto)
qed simp

section \<open>Runs\<close>

text \<open>A loop over a list whose body may panic.\<close>

primrec fold_opt :: "('a \<Rightarrow> 's \<Rightarrow> 's option) \<Rightarrow> 'a list \<Rightarrow> 's \<Rightarrow> 's option" where
  "fold_opt f [] s = Some s"
| "fold_opt f (x # xs) s = (case f x s of None \<Rightarrow> None | Some s1 \<Rightarrow> fold_opt f xs s1)"

lemma fold_opt_append: "fold_opt f (xs @ ys) s = (case fold_opt f xs s of None \<Rightarrow> None | Some s1 \<Rightarrow> fold_opt f ys s1)"
  by (induction xs arbitrary: s) (simp_all split: option.split)

text \<open>An invariant that each step keeps, from step to step, is kept by the run; \<open>n\<close> counts the steps.\<close>

lemma fold_opt_counted:
  assumes "\<And>n x s s'. P n s \<Longrightarrow> n < m \<Longrightarrow> f x s = Some s' \<Longrightarrow> P (Suc n) s'"
  shows "P n s \<Longrightarrow> n + length xs \<le> m \<Longrightarrow> fold_opt f xs s = Some s' \<Longrightarrow> P (n + length xs) s'"
proof (induction xs arbitrary: n s)
  case (Cons x xs)
  from Cons.prems(3) obtain s1 where s1: "f x s = Some s1" "fold_opt f xs s1 = Some s'" by (auto split: option.splits)
  have "P (Suc n) s1" using assms [OF Cons.prems(1) _ s1(1)] Cons.prems(2) by simp
  from Cons.IH [OF this _ s1(2)] Cons.prems(2) show ?case by simp
qed simp

end
