(* ===== verification/Vocabulary.thy ===== *)
theory Vocabulary
  imports Prelude
begin

text \<open>
  The vocabulary of \<open>tributary-proto\<close>: canonical path segments and locations (\<open>path/mod.rs\<close>),
  the monotone handle minter and the reconciliation epoch (\<open>id/mod.rs\<close>), the clock-agnostic instant
  (\<open>time/mod.rs\<close>), the overflow scope (\<open>scope/mod.rs\<close>), the subscription mask (\<open>interest/mod.rs\<close>),
  the capability profile (\<open>capabilities/mod.rs\<close>), the watch-installation outcome (\<open>error/mod.rs\<close>)
  and the change the core emits (\<open>change/mod.rs\<close>).

  Handles are \<open>NonZeroU64\<close> newtypes in the source. They are 64-bit words here; that a minted one is
  never zero is a theorem about the minter, not a type.
\<close>

section \<open>Paths\<close>

datatype segment = Segment (segment_str: string)

type_synonym location = "segment list"

definition segment_is_empty :: "segment \<Rightarrow> bool" where
  "segment_is_empty s \<longleftrightarrow> segment_str s = []"

definition location_new :: location where
  "location_new = []"

definition location_name :: "location \<Rightarrow> segment option" where
  "location_name l = (if l = [] then None else Some (last l))"

definition location_child :: "location \<Rightarrow> segment \<Rightarrow> location" where
  "location_child l s = l @ [s]"

definition location_join :: "location \<Rightarrow> location \<Rightarrow> location" where
  "location_join l sfx = l @ sfx"

definition location_starts_with :: "location \<Rightarrow> location \<Rightarrow> bool" where
  "location_starts_with l p \<longleftrightarrow> length p \<le> length l \<and> take (length p) l = p"

lemma location_starts_with_iff [simp]: "location_starts_with l p \<longleftrightarrow> prefix p l"
proof
  assume "location_starts_with l p"
  then show "prefix p l" unfolding location_starts_with_def by (metis take_is_prefix)
next
  assume "prefix p l"
  then show "location_starts_with l p" by (auto simp: location_starts_with_def prefix_def)
qed

lemma location_join_starts_with: "location_starts_with (location_join l s) l"
  by (simp add: location_join_def)

lemma location_name_child: "location_name (location_child l s) = Some s"
  by (simp add: location_name_def location_child_def)

section \<open>Handles and epochs\<close>

type_synonym watch_id = u64
type_synonym req_id = u64
type_synonym arm_attempt = u64
type_synonym change_id = u64
type_synonym scope_id = u64
type_synonym move_cookie = u64
type_synonym identity = u64
type_synonym epoch = u64

definition epoch_start :: epoch where
  "epoch_start = 0"

definition epoch_next :: "epoch \<Rightarrow> epoch" where
  "epoch_next e = sat_add e 1"

lemma epoch_next_ge: "e \<le> epoch_next e"
  by (simp add: epoch_next_def sat_add_ge1)

lemma epoch_next_gt: "e \<noteq> u64_max \<Longrightarrow> e < epoch_next e"
  by (simp add: epoch_next_def sat_add_1_gt)

lemma epoch_next_saturates: "epoch_next u64_max = u64_max"
  by (simp add: epoch_next_def sat_add_def unat_u64_max)

lemma epoch_start_le [simp]: "epoch_start \<le> e"
  by (simp add: epoch_start_def)

record sequence =
  seq_next :: u64

definition sequence_new :: sequence where
  "sequence_new = \<lparr>seq_next = 1\<rparr>"

text \<open>\<open>mint\<close> panics when the handle space is exhausted; the panic is \<open>None\<close>.\<close>

definition mint :: "sequence \<Rightarrow> (u64 \<times> sequence) option" where
  "mint s =
     (case checked_add (seq_next s) 1 of
        None \<Rightarrow> None
      | Some n \<Rightarrow> Some (seq_next s, s\<lparr>seq_next := n\<rparr>))"

fun mint_n :: "nat \<Rightarrow> sequence \<Rightarrow> (u64 list \<times> sequence) option" where
  "mint_n 0 s = Some ([], s)"
| "mint_n (Suc n) s =
     (case mint s of
        None \<Rightarrow> None
      | Some (v, s') \<Rightarrow>
          (case mint_n n s' of None \<Rightarrow> None | Some (vs, s'') \<Rightarrow> Some (v # vs, s'')))"

lemma mint_Some:
  "mint s = Some (v, s') \<Longrightarrow> v = seq_next s \<and> unat (seq_next s') = Suc (unat (seq_next s))"
  by (auto simp: mint_def dest: checked_add_Some split: option.splits)

lemma mint_None_iff: "mint s = None \<longleftrightarrow> seq_next s = u64_max"
  using checked_add_1_None_iff [of "seq_next s"] by (auto simp: mint_def split: option.splits)

lemma mint_n_values:
  "mint_n n s = Some (vs, s') \<Longrightarrow>
     map unat vs = [unat (seq_next s) ..< unat (seq_next s) + n] \<and>
     unat (seq_next s') = unat (seq_next s) + n"
proof (induction n arbitrary: s vs s')
  case 0
  then show ?case by simp
next
  case (Suc n)
  from Suc.prems obtain v s1 ws where
    m: "mint s = Some (v, s1)" and r: "mint_n n s1 = Some (ws, s')" and vs: "vs = v # ws"
    by (auto split: option.splits)
  note mv = mint_Some [OF m]
  note wv = Suc.IH [OF r]
  have "map unat vs = unat (seq_next s) # [Suc (unat (seq_next s)) ..< unat (seq_next s) + Suc n]"
    using mv wv vs by simp
  also have "\<dots> = [unat (seq_next s) ..< unat (seq_next s) + Suc n]"
    by (simp add: upt_rec)
  finally show ?case using mv wv by simp
qed

lemma mint_n_total:
  "unat (seq_next s) + n < 2 ^ 64 \<Longrightarrow> \<exists>vs s'. mint_n n s = Some (vs, s')"
proof (induction n arbitrary: s)
  case 0
  then show ?case by simp
next
  case (Suc n)
  have "unat (seq_next s) \<noteq> unat u64_max" using Suc.prems by (simp add: unat_u64_max)
  then have "mint s \<noteq> None" by (auto simp: mint_None_iff)
  then obtain v s1 where m: "mint s = Some (v, s1)" by auto
  have "unat (seq_next s1) + n < 2 ^ 64" using mint_Some [OF m] Suc.prems by simp
  from Suc.IH [OF this] obtain vs s' where "mint_n n s1 = Some (vs, s')" by blast
  with m show ?case by simp
qed

text \<open>
  Functional. A new minter hands out any number of handles below the size of the handle
  space without panicking, all of them distinct and none of them zero: a handle is never reused.
\<close>

theorem handles_never_reused:
  assumes "n < 2 ^ 64 - 1"
  shows "\<exists>vs s. mint_n n sequence_new = Some (vs, s) \<and> length vs = n \<and> distinct vs \<and> 0 \<notin> set vs"
proof -
  have "unat (seq_next sequence_new) = 1" by (simp add: sequence_new_def)
  with assms mint_n_total [of sequence_new n] obtain vs s where r: "mint_n n sequence_new = Some (vs, s)"
    by auto
  have v: "map unat vs = [1 ..< 1 + n]"
    using mint_n_values [OF r] \<open>unat (seq_next sequence_new) = 1\<close> by simp
  then have "distinct (map unat vs)" by simp
  then have "distinct vs" by (simp add: distinct_map)
  moreover have "length vs = n" using arg_cong [OF v, of length] by simp
  moreover have "0 \<notin> set (map unat vs)" unfolding v by simp
  then have "0 \<notin> set vs" by force
  ultimately show ?thesis using r by blast
qed

theorem handles_never_reused_witness:
  "\<exists>vs s. mint_n 3 sequence_new = Some (vs, s) \<and> length vs = 3 \<and> distinct vs \<and> 0 \<notin> set vs"
  using handles_never_reused [of 3] by simp

section \<open>Instants\<close>

text \<open>A \<open>Duration\<close> is a count of nanoseconds, bounded by \<open>Duration::MAX\<close>.\<close>

type_synonym duration = nat
type_synonym instant = nat

definition duration_max :: duration where
  "duration_max = (2 ^ 64 - 1) * 10 ^ 9 + 999999999"

definition instant_origin :: instant where
  "instant_origin = 0"

definition instant_add :: "instant \<Rightarrow> duration \<Rightarrow> instant" where
  "instant_add t d = min (t + d) duration_max"

definition duration_since :: "instant \<Rightarrow> instant \<Rightarrow> duration" where
  "duration_since t earlier = t - earlier"

definition reached :: "instant \<Rightarrow> instant \<Rightarrow> bool" where
  "reached t deadline \<longleftrightarrow> deadline \<le> t"

section \<open>Scopes, masks, capabilities, outcomes\<close>

record subtree_scope =
  sub_watch :: watch_id
  sub_descent :: location

datatype scope = AllScope | RootScope scope_id | SubtreeScope subtree_scope

definition subtree_of :: "watch_id \<Rightarrow> scope" where
  "subtree_of w = SubtreeScope \<lparr>sub_watch = w, sub_descent = location_new\<rparr>"

record interest =
  created :: bool
  removed :: bool
  modified :: bool
  moved :: bool
  attrib :: bool
  ondir :: bool

definition interest_new :: interest where
  "interest_new = \<lparr>created = False, removed = False, modified = False, moved = False,
     attrib = False, ondir = False\<rparr>"

definition interest_all :: interest where
  "interest_all = \<lparr>created = True, removed = True, modified = True, moved = True,
     attrib = True, ondir = True\<rparr>"

definition interest_is_empty :: "interest \<Rightarrow> bool" where
  "interest_is_empty i \<longleftrightarrow> \<not> (created i \<or> removed i \<or> modified i \<or> moved i \<or> attrib i)"

record capabilities =
  supports_push :: bool
  atomic_create :: bool
  native_move :: bool
  versioned :: bool
  needs_poll :: bool
  kernel_recursive :: bool
  lossy_watch_teardown :: bool

definition capabilities_new :: capabilities where
  "capabilities_new = \<lparr>supports_push = False, atomic_create = False, native_move = False,
     versioned = False, needs_poll = False, kernel_recursive = False,
     lossy_watch_teardown = False\<rparr>"

datatype watch_error = NoSpace | Permission | NotFound | Gone | Io

section \<open>Changes\<close>

datatype change_kind = Created | Modified | Removed | Moved location | Rescan

record change =
  ch_id :: change_id
  ch_scope :: scope_id
  ch_location :: location
  ch_kind :: change_kind
  ch_epoch :: epoch
  ch_is_dir :: "bool option"

definition moved_from :: "change_kind \<Rightarrow> location option" where
  "moved_from k = (case k of Moved l \<Rightarrow> Some l | _ \<Rightarrow> None)"

end
