(* ===== verification/Umbrella_Event.thy ===== *)
theory Umbrella_Event
  imports Vocabulary
begin

text \<open>
  The data the umbrella crate \<open>tributaries\<close> routes: the branded subscription handle
  (\<open>subscription.rs\<close>), the delivered event and its kind (\<open>event/mod.rs\<close>), the raw source event
  (\<open>source/mod.rs\<close>) and the per-subscription delivery mask (\<open>interest/mod.rs\<close>).

  Constructors and projections of an event mint exactly the fields the source writes; \<open>'c\<close> is the key
  component, \<open>'v\<close> the caller value, \<open>'h\<close> the armed-root handle.
\<close>

section \<open>Subscriptions\<close>

datatype subscription = Subscription (sub_instance: u64) (sub_scope: scope_id)

text \<open>The derived \<open>Ord\<close> of the source: lexicographic, the instance brand first.\<close>

instantiation subscription :: linorder
begin

definition less_eq_subscription :: "subscription \<Rightarrow> subscription \<Rightarrow> bool" where
  "less_eq_subscription a b \<longleftrightarrow>
     sub_instance a < sub_instance b \<or>
     sub_instance a = sub_instance b \<and> sub_scope a \<le> sub_scope b"

definition less_subscription :: "subscription \<Rightarrow> subscription \<Rightarrow> bool" where
  "less_subscription a b \<longleftrightarrow>
     sub_instance a < sub_instance b \<or>
     sub_instance a = sub_instance b \<and> sub_scope a < sub_scope b"

instance
  by standard
    (auto simp: less_eq_subscription_def less_subscription_def subscription.expand)

end

lemma less_subscription_simp [simp]:
  "Subscription i s < Subscription j t \<longleftrightarrow> i < j \<or> i = j \<and> s < t"
  by (simp add: less_subscription_def)

lemma less_eq_subscription_simp [simp]:
  "Subscription i s \<le> Subscription j t \<longleftrightarrow> i < j \<or> i = j \<and> s \<le> t"
  by (simp add: less_eq_subscription_def)

section \<open>Events\<close>

datatype 'c event_kind = ECreated | EModified | ERemoved | EMoved "'c list" | ERescan

definition kind_moved_from :: "'c event_kind \<Rightarrow> 'c list option" where
  "kind_moved_from k = (case k of EMoved f \<Rightarrow> Some f | _ \<Rightarrow> None)"

definition kind_is_rescan :: "'c event_kind \<Rightarrow> bool" where
  "kind_is_rescan k = (case k of ERescan \<Rightarrow> True | _ \<Rightarrow> False)"

lemma kind_is_rescan_iff [simp]: "kind_is_rescan k \<longleftrightarrow> k = ERescan"
  by (cases k) (auto simp: kind_is_rescan_def)

lemma kind_moved_from_Some [simp]: "kind_moved_from k = Some f \<longleftrightarrow> k = EMoved f"
  by (cases k) (auto simp: kind_moved_from_def)

lemma kind_moved_from_None [simp]: "kind_moved_from k = None \<longleftrightarrow> (\<forall>f. k \<noteq> EMoved f)"
  by (cases k) (auto simp: kind_moved_from_def)

lemma kind_moved_from_simps [simp]:
  "kind_moved_from (EMoved f) = Some f" "kind_moved_from ECreated = None"
  "kind_moved_from EModified = None" "kind_moved_from ERemoved = None"
  "kind_moved_from ERescan = None"
  by (simp_all add: kind_moved_from_def)

record ('c, 'v) event =
  ev_subscription :: subscription
  ev_epoch :: epoch
  ev_key :: "'c list"
  ev_kind :: "'c event_kind"
  ev_location :: location
  ev_change_id :: "change_id option"
  ev_value :: "'v option"
  ev_is_dir :: "bool option"

record ('c, 'h) source_event =
  se_handle :: 'h
  se_key :: "'c list"
  se_kind :: "'c event_kind"
  se_location :: location
  se_move_from_location :: "location option"
  se_epoch :: epoch
  se_change_id :: "change_id option"
  se_is_dir :: "bool option"

definition source_event_new ::
  "'h \<Rightarrow> 'c list \<Rightarrow> 'c event_kind \<Rightarrow> location \<Rightarrow> epoch \<Rightarrow> change_id option
     \<Rightarrow> ('c, 'h) source_event" where
  "source_event_new h k kd l e c =
     \<lparr>se_handle = h, se_key = k, se_kind = kd, se_location = l, se_move_from_location = None,
      se_epoch = e, se_change_id = c, se_is_dir = None\<rparr>"

definition rekeyed_at_root :: "('c, 'h) source_event \<Rightarrow> 'c list \<Rightarrow> ('c, 'h) source_event" where
  "rekeyed_at_root ev root_key =
     ev\<lparr>se_key := root_key, se_location := location_new, se_move_from_location := None\<rparr>"

definition synthetic ::
  "subscription \<Rightarrow> 'c list \<Rightarrow> location \<Rightarrow> 'c event_kind \<Rightarrow> epoch \<Rightarrow> ('c, 'v) event" where
  "synthetic sub k l kd e =
     \<lparr>ev_subscription = sub, ev_epoch = e, ev_key = k, ev_kind = kd, ev_location = l,
      ev_change_id = None, ev_value = None, ev_is_dir = None\<rparr>"

definition event_rescan :: "subscription \<Rightarrow> 'c list \<Rightarrow> epoch \<Rightarrow> ('c, 'v) event" where
  "event_rescan sub k e =
     \<lparr>ev_subscription = sub, ev_epoch = e, ev_key = k, ev_kind = ERescan,
      ev_location = location_new, ev_change_id = None, ev_value = None, ev_is_dir = None\<rparr>"

definition from_source :: "subscription \<Rightarrow> ('c, 'h) source_event \<Rightarrow> ('c, 'v) event" where
  "from_source sub ev =
     \<lparr>ev_subscription = sub, ev_epoch = se_epoch ev, ev_key = se_key ev, ev_kind = se_kind ev,
      ev_location = se_location ev, ev_change_id = se_change_id ev, ev_value = None,
      ev_is_dir = se_is_dir ev\<rparr>"

text \<open>
  \<open>source_move_out\<close> panics on an event that is not a move (\<open>expect\<close>); the panic is \<open>None\<close>.
\<close>

definition source_move_out ::
  "subscription \<Rightarrow> ('c, 'h) source_event \<Rightarrow> ('c, 'v) event option" where
  "source_move_out sub ev =
     (case kind_moved_from (se_kind ev) of
        None \<Rightarrow> None
      | Some f \<Rightarrow> Some
          \<lparr>ev_subscription = sub, ev_epoch = se_epoch ev, ev_key = f, ev_kind = ERemoved,
           ev_location = (case se_move_from_location ev of None \<Rightarrow> location_new | Some l \<Rightarrow> l),
           ev_change_id = None, ev_value = None, ev_is_dir = se_is_dir ev\<rparr>)"

definition source_move_in :: "subscription \<Rightarrow> ('c, 'h) source_event \<Rightarrow> ('c, 'v) event" where
  "source_move_in sub ev =
     \<lparr>ev_subscription = sub, ev_epoch = se_epoch ev, ev_key = se_key ev, ev_kind = ECreated,
      ev_location = se_location ev, ev_change_id = None, ev_value = None,
      ev_is_dir = se_is_dir ev\<rparr>"

definition source_rescan_clamped ::
  "subscription \<Rightarrow> ('c, 'h) source_event \<Rightarrow> 'c list \<Rightarrow> ('c, 'v) event" where
  "source_rescan_clamped sub ev k =
     \<lparr>ev_subscription = sub, ev_epoch = se_epoch ev, ev_key = k, ev_kind = ERescan,
      ev_location = location_new, ev_change_id = se_change_id ev, ev_value = None,
      ev_is_dir = None\<rparr>"

definition rebase_location :: "nat \<Rightarrow> ('c, 'v) event \<Rightarrow> ('c, 'v) event" where
  "rebase_location strip ev =
     (if strip = 0 \<or> ev_location ev = [] then ev
      else ev\<lparr>ev_location := drop strip (ev_location ev)\<rparr>)"

definition anchor_location_at_root :: "('c, 'v) event \<Rightarrow> ('c, 'v) event" where
  "anchor_location_at_root ev = ev\<lparr>ev_location := location_new\<rparr>"

lemma rebase_location_eq: "rebase_location n ev = ev\<lparr>ev_location := drop n (ev_location ev)\<rparr>"
  by (cases ev) (simp add: rebase_location_def)

definition event_is_rescan :: "('c, 'v) event \<Rightarrow> bool" where
  "event_is_rescan ev = kind_is_rescan (ev_kind ev)"

definition event_move_from :: "('c, 'v) event \<Rightarrow> 'c list option" where
  "event_move_from ev = kind_moved_from (ev_kind ev)"

definition reaches :: "('c, 'v) event \<Rightarrow> 'c list \<Rightarrow> bool" where
  "reaches ev k \<longleftrightarrow>
     ev_key ev = k \<or> event_move_from ev = Some k \<or>
     event_is_rescan ev \<and> starts_with k (ev_key ev)"

section \<open>The delivery mask\<close>

record delivery_interest =
  di_created :: bool
  di_modified :: bool
  di_removed :: bool
  di_moved :: bool

definition delivery_all :: delivery_interest where
  "delivery_all = \<lparr>di_created = True, di_modified = True, di_removed = True, di_moved = True\<rparr>"

definition delivery_none :: delivery_interest where
  "delivery_none =
     \<lparr>di_created = False, di_modified = False, di_removed = False, di_moved = False\<rparr>"

fun interest_admits :: "delivery_interest \<Rightarrow> 'c event_kind \<Rightarrow> bool" where
  "interest_admits i ECreated = di_created i"
| "interest_admits i EModified = di_modified i"
| "interest_admits i ERemoved = di_removed i"
| "interest_admits i (EMoved _) = di_moved i"
| "interest_admits i ERescan = True"

end
