(* ===== verification/Coalescer.thy ===== *)
theory Coalescer
  imports Umbrella_Event
begin

text \<open>
  The settle/debounce coalescer (\<open>coalesce/mod.rs\<close>): buffered events keyed by (subscription, key), a
  deadline index in lockstep with the buffer, per-subscription entry counts and a FIFO of events that
  are due at once.

  \<^item> The buffer is a \<open>BTreeMap\<close> and the deadline index a \<open>BTreeSet\<close> (see \<open>Prelude\<close>); the policy and count
    tables are hash maps that the code never iterates.
  \<^item> The admission counter is a 64-bit word and \<open>bump_seq\<close> adds one with wrap-around.
  \<^item> An \<open>Instant\<close> is a number; \<open>clock\<close> carries what the platform decides: the largest representable
    instant, past which \<open>checked_add\<close> answers \<open>None\<close>, and the value \<open>far_future()\<close> would read.
  \<^item> An \<open>expect\<close> that fails is a panic, the value \<open>None\<close> of the operation. Debug assertions are not
    operations; what they assert is the invariant \<open>co_inv\<close>.
  \<^item> The \<open>Salvage\<close> bundle, which only carries removed caller values to the place where their
    destructors may run, is not modelled.
\<close>

section \<open>State\<close>

record debounce_config =
  quiet_window :: duration
  max_hold :: duration
  max_buffered :: nat

definition default_max_buffered :: nat where
  "default_max_buffered = 1024"

datatype debounce = Inherit | Off | Custom debounce_config

type_synonym 'c ckey = "subscription \<times> 'c list"

record ('c, 'v) buffered =
  bf_first_seen :: instant
  bf_emit_at :: instant
  bf_seq :: u64
  bf_event :: "('c, 'v) event"

datatype collapse = KeepBuffered | ReplaceWithIncoming | BecomeModified | Annihilate

record ('c, 'v) coalescer =
  co_default :: "debounce_config option"
  co_policies :: "subscription \<rightharpoonup> debounce_config option"
  co_per_sub_len :: "subscription \<rightharpoonup> nat"
  co_buffer :: "('c ckey \<times> ('c, 'v) buffered) list"
  co_deadlines :: "(instant \<times> 'c ckey) list"
  co_ready :: "(instant \<times> ('c, 'v) event) list"
  co_next_seq :: u64

record clock =
  clk_max :: instant
  clk_far :: instant

section \<open>Operations\<close>

definition coalescer_new :: "debounce_config option \<Rightarrow> ('c, 'v) coalescer" where
  "coalescer_new d = \<lparr>co_default = d, co_policies = Map.empty, co_per_sub_len = Map.empty,
     co_buffer = [], co_deadlines = [], co_ready = [], co_next_seq = 0\<rparr>"

fun set_policy :: "subscription \<Rightarrow> debounce \<Rightarrow> ('c, 'v) coalescer \<Rightarrow> ('c, 'v) coalescer" where
  "set_policy sub Inherit st = st\<lparr>co_policies := (co_policies st)(sub := None)\<rparr>"
| "set_policy sub Off st = st\<lparr>co_policies := (co_policies st)(sub \<mapsto> None)\<rparr>"
| "set_policy sub (Custom cfg) st = st\<lparr>co_policies := (co_policies st)(sub \<mapsto> Some cfg)\<rparr>"

definition effective_policy :: "('c, 'v) coalescer \<Rightarrow> subscription \<Rightarrow> debounce_config option" where
  "effective_policy st sub =
     (case co_policies st sub of Some policy \<Rightarrow> policy | None \<Rightarrow> co_default st)"

definition structural_cap :: "('c, 'v) coalescer \<Rightarrow> nat" where
  "structural_cap st =
     (case co_default st of None \<Rightarrow> default_max_buffered | Some cfg \<Rightarrow> max_buffered cfg)"

definition bump_seq :: "('c, 'v) coalescer \<Rightarrow> u64 \<times> ('c, 'v) coalescer" where
  "bump_seq st = (co_next_seq st, st\<lparr>co_next_seq := co_next_seq st + 1\<rparr>)"

definition instant_checked_add :: "clock \<Rightarrow> instant \<Rightarrow> duration \<Rightarrow> instant option" where
  "instant_checked_add clk t d = (if t + d \<le> clk_max clk then Some (t + d) else None)"

definition deadline :: "clock \<Rightarrow> instant \<Rightarrow> instant \<Rightarrow> duration \<Rightarrow> duration \<Rightarrow> instant" where
  "deadline clk first_seen now quiet hold =
     (let settle = (case instant_checked_add clk now quiet of None \<Rightarrow> clk_far clk | Some t \<Rightarrow> t);
          cap = (case instant_checked_add clk first_seen hold of None \<Rightarrow> clk_far clk | Some t \<Rightarrow> t)
      in min settle cap)"

fun collapse_kinds :: "'c event_kind \<Rightarrow> 'c event_kind \<Rightarrow> collapse" where
  "collapse_kinds ECreated ERemoved = Annihilate"
| "collapse_kinds ERemoved ECreated = BecomeModified"
| "collapse_kinds EModified ERemoved = ReplaceWithIncoming"
| "collapse_kinds ERemoved ERemoved = ReplaceWithIncoming"
| "collapse_kinds ERemoved EModified = ReplaceWithIncoming"
| "collapse_kinds _ _ = KeepBuffered"

definition dec_per_sub :: "subscription \<Rightarrow> ('c, 'v) coalescer \<Rightarrow> ('c, 'v) coalescer" where
  "dec_per_sub sub st =
     (case co_per_sub_len st sub of
        Some n \<Rightarrow> st\<lparr>co_per_sub_len := (co_per_sub_len st)
          (sub := (if n - 1 = 0 then None else Some (n - 1)))\<rparr>
      | None \<Rightarrow> st)"

text \<open>\<open>buffer.remove(&key).expect(..)\<close> followed by the removal of its index entry.\<close>

definition take_entry ::
  "'c::linorder ckey \<Rightarrow> ('c, 'v) coalescer \<Rightarrow> (('c, 'v) buffered \<times> ('c, 'v) coalescer) option" where
  "take_entry key st =
     (case map_of (co_buffer st) key of
        None \<Rightarrow> None
      | Some entry \<Rightarrow> Some (entry,
          st\<lparr>co_buffer := btm_remove key (co_buffer st),
             co_deadlines := bts_remove (bf_emit_at entry, key) (co_deadlines st)\<rparr>))"

definition subscription_entries ::
  "('c::linorder, 'v) coalescer \<Rightarrow> subscription \<Rightarrow> (u64 \<times> 'c ckey) list" where
  "subscription_entries st sub =
     map (\<lambda>(k, b). (bf_seq b, k))
       (takeWhile (\<lambda>e. fst (fst e) = sub)
         (dropWhile (\<lambda>e. fst e < (sub, [])) (co_buffer st)))"

fun flush_entries ::
  "instant \<Rightarrow> 'c::linorder ckey list \<Rightarrow> ('c, 'v) coalescer \<Rightarrow> ('c, 'v) coalescer option" where
  "flush_entries now [] st = Some st"
| "flush_entries now (key # keys) st =
     (case take_entry key st of
        None \<Rightarrow> None
      | Some (entry, st1) \<Rightarrow>
          flush_entries now keys (st1\<lparr>co_ready := co_ready st1 @ [(now, bf_event entry)]\<rparr>))"

definition flush_subscription ::
  "subscription \<Rightarrow> instant \<Rightarrow> ('c::linorder, 'v) coalescer \<Rightarrow> ('c, 'v) coalescer option" where
  "flush_subscription sub now st =
     map_option (\<lambda>st1. st1\<lparr>co_per_sub_len := (co_per_sub_len st1)(sub := None)\<rparr>)
       (flush_entries now (map snd (sort_key fst (subscription_entries st sub))) st)"

fun drop_entries :: "'c::linorder ckey list \<Rightarrow> ('c, 'v) coalescer \<Rightarrow> ('c, 'v) coalescer" where
  "drop_entries [] st = st"
| "drop_entries (key # keys) st =
     (case take_entry key st of
        None \<Rightarrow> drop_entries keys st
      | Some (entry, st1) \<Rightarrow> drop_entries keys st1)"

definition drop_subscription ::
  "subscription \<Rightarrow> ('c::linorder, 'v) coalescer \<Rightarrow> ('c, 'v) coalescer" where
  "drop_subscription sub st =
     (let st1 = drop_entries (map snd (subscription_entries st sub)) st;
          st2 = st1\<lparr>co_per_sub_len := (co_per_sub_len st1)(sub := None)\<rparr>
      in st2\<lparr>co_ready := filter (\<lambda>(at, ev). ev_subscription ev \<noteq> sub) (co_ready st2)\<rparr>)"

definition forget_subscription ::
  "subscription \<Rightarrow> ('c::linorder, 'v) coalescer \<Rightarrow> ('c, 'v) coalescer" where
  "forget_subscription sub st =
     (let st1 = drop_subscription sub st in st1\<lparr>co_policies := (co_policies st1)(sub := None)\<rparr>)"

text \<open>
  \<open>coalesce\<close> returns the subscription that overflowed a cap, if any. The three surviving arms of the
  collapse differ in the event they leave; the deadline, the sequence and the index are treated alike.
\<close>

definition refile ::
  "'c::linorder ckey \<Rightarrow> instant \<Rightarrow> ('c, 'v) coalescer \<Rightarrow> (subscription option \<times> ('c, 'v) coalescer) option"
  where
  "refile key was_due_at st =
     (case map_of (co_buffer st) key of
        None \<Rightarrow> None
      | Some b \<Rightarrow> Some (None,
          if bf_emit_at b \<noteq> was_due_at
          then st\<lparr>co_deadlines := bts_insert (bf_emit_at b, key)
                    (bts_remove (was_due_at, key) (co_deadlines st))\<rparr>
          else st))"

definition collapsed_event ::
  "collapse \<Rightarrow> ('c, 'v) event \<Rightarrow> ('c, 'v) event \<Rightarrow> ('c, 'v) event" where
  "collapsed_event c old ev =
     (case c of
        ReplaceWithIncoming \<Rightarrow> ev
      | BecomeModified \<Rightarrow>
          (synthetic (ev_subscription ev) (ev_key ev) (ev_location ev) EModified (ev_epoch ev))
            \<lparr>ev_value := ev_value ev\<rparr>
      | _ \<Rightarrow> old\<lparr>ev_epoch := ev_epoch ev\<rparr>)"

definition coalesce ::
  "clock \<Rightarrow> ('c::linorder, 'v) event \<Rightarrow> instant \<Rightarrow> debounce_config \<Rightarrow> ('c, 'v) coalescer
     \<Rightarrow> (subscription option \<times> ('c, 'v) coalescer) option" where
  "coalesce clk ev now cfg st0 =
     (let sub = ev_subscription ev;
          key = (sub, ev_key ev);
          (seq, st) = bump_seq st0
      in case map_of (co_buffer st) key of
           None \<Rightarrow>
             if length (co_buffer st) \<ge> structural_cap st then Some (Some sub, st)
             else if (case co_per_sub_len st sub of None \<Rightarrow> 0 | Some n \<Rightarrow> n) \<ge> max_buffered cfg
             then Some (Some sub, st)
             else
               (let entry = \<lparr>bf_first_seen = now,
                      bf_emit_at = deadline clk now now (quiet_window cfg) (max_hold cfg),
                      bf_seq = seq, bf_event = ev\<rparr>
                in Some (None,
                     st\<lparr>co_deadlines := bts_insert (bf_emit_at entry, key) (co_deadlines st),
                        co_buffer := btm_insert key entry (co_buffer st),
                        co_per_sub_len := (co_per_sub_len st)
                          (sub \<mapsto> (case co_per_sub_len st sub of None \<Rightarrow> 0 | Some n \<Rightarrow> n) + 1)\<rparr>))
         | Some b \<Rightarrow>
             (case collapse_kinds (ev_kind (bf_event b)) (ev_kind ev) of
                Annihilate \<Rightarrow> Some (None, dec_per_sub sub
                  (st\<lparr>co_buffer := btm_remove key (co_buffer st),
                      co_deadlines := bts_remove (bf_emit_at b, key) (co_deadlines st)\<rparr>))
              | c \<Rightarrow>
                  refile key (bf_emit_at b)
                    (st\<lparr>co_buffer := btm_insert key
                       \<lparr>bf_first_seen = bf_first_seen b,
                        bf_emit_at = deadline clk (bf_first_seen b) now (quiet_window cfg)
                          (max_hold cfg),
                        bf_seq = seq, bf_event = collapsed_event c (bf_event b) ev\<rparr>
                       (co_buffer st)\<rparr>)))"

definition is_lifecycle :: "'c event_kind \<Rightarrow> bool" where
  "is_lifecycle k = (case k of ECreated \<Rightarrow> True | EModified \<Rightarrow> True | ERemoved \<Rightarrow> True | _ \<Rightarrow> False)"

definition admit ::
  "clock \<Rightarrow> ('c::linorder, 'v) event \<Rightarrow> instant \<Rightarrow> ('c, 'v) coalescer
     \<Rightarrow> (subscription option \<times> ('c, 'v) coalescer) option" where
  "admit clk ev now st =
     (if event_is_rescan ev then
        map_option (\<lambda>st1. (None, st1\<lparr>co_ready := co_ready st1 @ [(now, ev)]\<rparr>))
          (flush_subscription (ev_subscription ev) now st)
      else if event_move_from ev \<noteq> None then
        map_option (\<lambda>st1. (None, st1\<lparr>co_ready := co_ready st1 @ [(now, ev)]\<rparr>))
          (flush_subscription (ev_subscription ev) now st)
      else if is_lifecycle (ev_kind ev) then
        (case effective_policy st (ev_subscription ev) of
           None \<Rightarrow> Some (None, st\<lparr>co_ready := co_ready st @ [(now, ev)]\<rparr>)
         | Some cfg \<Rightarrow> coalesce clk ev now cfg st)
      else
        map_option (\<lambda>st1. (None, st1\<lparr>co_ready := co_ready st1 @ [(now, ev)]\<rparr>))
          (flush_subscription (ev_subscription ev) now st))"

definition next_deadline :: "('c, 'v) coalescer \<Rightarrow> instant option" where
  "next_deadline st =
     (let buffered = (case co_deadlines st of [] \<Rightarrow> None | (at, _) # _ \<Rightarrow> Some at);
          ready = (case co_ready st of [] \<Rightarrow> None | (at, _) # _ \<Rightarrow> Some at)
      in case (buffered, ready) of
           (Some a, Some b) \<Rightarrow> Some (min a b)
         | (Some a, None) \<Rightarrow> Some a
         | (None, r) \<Rightarrow> r)"

fun collect_due ::
  "('c ckey \<times> ('c, 'v) buffered) list \<Rightarrow> (instant \<times> 'c ckey) list
     \<Rightarrow> (subscription \<times> u64 \<times> 'c ckey) list option" where
  "collect_due buf [] = Some []"
| "collect_due buf ((at, key) # rest) =
     (case map_of buf key of
        None \<Rightarrow> None
      | Some b \<Rightarrow> map_option ((#) (fst key, bf_seq b, key)) (collect_due buf rest))"

fun drain_entries ::
  "'c::linorder ckey list \<Rightarrow> ('c, 'v) coalescer \<Rightarrow> (('c, 'v) event list \<times> ('c, 'v) coalescer) option"
  where
  "drain_entries [] st = Some ([], st)"
| "drain_entries (key # keys) st =
     (case take_entry key st of
        None \<Rightarrow> None
      | Some (entry, st1) \<Rightarrow>
          map_option (\<lambda>(evs, st2). (bf_event entry # evs, st2))
            (drain_entries keys (dec_per_sub (fst key) st1)))"

text \<open>\<open>drain_ready\<close> returns the events it appends to \<open>out\<close>.\<close>

definition drain_ready ::
  "instant \<Rightarrow> ('c::linorder, 'v) coalescer \<Rightarrow> (('c, 'v) event list \<times> ('c, 'v) coalescer) option" where
  "drain_ready now st =
     (let out = map snd (takeWhile (\<lambda>(at, _). at \<le> now) (co_ready st));
          st1 = st\<lparr>co_ready := dropWhile (\<lambda>(at, _). at \<le> now) (co_ready st)\<rparr>
      in case collect_due (co_buffer st1) (takeWhile (\<lambda>(at, _). at \<le> now) (co_deadlines st1)) of
           None \<Rightarrow> None
         | Some due \<Rightarrow>
             map_option (\<lambda>(evs, st2). (out @ evs, st2))
               (drain_entries
                 (map (\<lambda>(_, _, k). k) (sort_key (\<lambda>(sub, seq, _). (sub, seq)) due)) st1))"

definition flush_all ::
  "('c::linorder, 'v) coalescer \<Rightarrow> ('c, 'v) event list \<times> ('c, 'v) coalescer" where
  "flush_all st =
     (map snd (co_ready st) @
        map (\<lambda>(_, _, ev). ev) (sort_key (\<lambda>(sub, seq, _). (sub, seq))
          (map (\<lambda>(k, b). (fst k, bf_seq b, bf_event b)) (co_buffer st))),
      st\<lparr>co_ready := [], co_deadlines := [], co_buffer := [], co_per_sub_len := Map.empty\<rparr>)"

end
