(* ===== verification/Coalescer_Correct.thy ===== *)
theory Coalescer_Correct
  imports Coalescer
begin

text \<open>
  What the coalescer keeps and what it promises. \<open>co_inv\<close> is the conjunction of the debug assertions
  and field comments of \<open>coalesce/mod.rs\<close>: the deadline index in lockstep with the buffer, the counts
  exact and absent at zero, every slot filed under its own event's key. \<open>co_seq\<close> bounds the admission
  sequence numbers. The removal loops (\<open>flush_subscription\<close>, \<open>drop_subscription\<close>, \<open>drain_ready\<close>) have
  a closed form, \<open>keep_out\<close>, from which the properties follow.
\<close>

section \<open>Invariants\<close>

definition sub_count :: "subscription \<Rightarrow> ('c ckey \<times> ('c, 'v) buffered) list \<Rightarrow> nat" where
  "sub_count s buf = length (filter (\<lambda>e. fst (fst e) = s) buf)"

definition counts_of :: "('c ckey \<times> ('c, 'v) buffered) list \<Rightarrow> subscription \<rightharpoonup> nat" where
  "counts_of buf s = (if sub_count s buf = 0 then None else Some (sub_count s buf))"

definition counts_ok :: "('c, 'v) coalescer \<Rightarrow> bool" where
  "counts_ok st \<longleftrightarrow> co_per_sub_len st = counts_of (co_buffer st)"

definition index_ok :: "('c::linorder, 'v) coalescer \<Rightarrow> bool" where
  "index_ok st \<longleftrightarrow> btm_ok (co_buffer st) \<and> sorted_wrt (<) (co_deadlines st) \<and>
     set (co_deadlines st) = (\<lambda>(k, b). (bf_emit_at b, k)) ` set (co_buffer st)"

definition filed_ok :: "('c, 'v) coalescer \<Rightarrow> bool" where
  "filed_ok st \<longleftrightarrow> (\<forall>(k, b) \<in> set (co_buffer st).
     k = (ev_subscription (bf_event b), ev_key (bf_event b)) \<and> is_lifecycle (ev_kind (bf_event b)))"

definition co_inv :: "('c::linorder, 'v) coalescer \<Rightarrow> bool" where
  "co_inv st \<longleftrightarrow> index_ok st \<and> counts_ok st \<and> filed_ok st"

definition co_seq :: "nat \<Rightarrow> ('c, 'v) coalescer \<Rightarrow> bool" where
  "co_seq n st \<longleftrightarrow> unat (co_next_seq st) \<le> n \<and>
     distinct (map (\<lambda>e. bf_seq (snd e)) (co_buffer st)) \<and>
     (\<forall>e \<in> set (co_buffer st). bf_seq (snd e) < co_next_seq st)"

lemma sub_count_mset: "sub_count s buf = size (filter_mset (\<lambda>e. fst (fst e) = s) (mset buf))"
  unfolding sub_count_def by (metis mset_filter size_mset)

section \<open>Closed form of the removal loops\<close>

definition keep_out :: "'c ckey set \<Rightarrow> ('c, 'v) coalescer \<Rightarrow> ('c, 'v) coalescer" where
  "keep_out K st = st\<lparr>co_buffer := filter (\<lambda>e. fst e \<notin> K) (co_buffer st),
     co_deadlines := filter (\<lambda>d. snd d \<notin> K) (co_deadlines st)\<rparr>"

lemma keep_out_simps [simp]:
  "co_default (keep_out K st) = co_default st"
  "co_policies (keep_out K st) = co_policies st"
  "co_per_sub_len (keep_out K st) = co_per_sub_len st"
  "co_buffer (keep_out K st) = filter (\<lambda>e. fst e \<notin> K) (co_buffer st)"
  "co_deadlines (keep_out K st) = filter (\<lambda>d. snd d \<notin> K) (co_deadlines st)"
  "co_ready (keep_out K st) = co_ready st"
  "co_next_seq (keep_out K st) = co_next_seq st"
  by (simp_all add: keep_out_def)

lemma keep_out_empty [simp]: "keep_out {} st = st"
  by (simp add: keep_out_def)

lemma keep_out_keep_out: "keep_out K (keep_out L st) = keep_out (K \<union> L) st"
  by (simp add: keep_out_def conj_commute)

lemma keep_out_update [simp]:
  "keep_out K (st\<lparr>co_ready := r\<rparr>) = keep_out K st\<lparr>co_ready := r\<rparr>"
  "keep_out K (st\<lparr>co_per_sub_len := l\<rparr>) = keep_out K st\<lparr>co_per_sub_len := l\<rparr>"
  by (simp_all add: keep_out_def)

lemma index_ok_update [simp]:
  "index_ok (st\<lparr>co_ready := r\<rparr>) = index_ok st"
  "index_ok (st\<lparr>co_per_sub_len := l\<rparr>) = index_ok st"
  "index_ok (st\<lparr>co_next_seq := q\<rparr>) = index_ok st"
  "index_ok (st\<lparr>co_policies := p\<rparr>) = index_ok st"
  by (simp_all add: index_ok_def)

lemma index_mem:
  assumes "index_ok st"
  shows "d \<in> set (co_deadlines st) \<longleftrightarrow> (\<exists>b. (snd d, b) \<in> set (co_buffer st) \<and> fst d = bf_emit_at b)"
proof -
  have "d \<in> set (co_deadlines st) \<longleftrightarrow> d \<in> (\<lambda>(k, b). (bf_emit_at b, k)) ` set (co_buffer st)"
    using assms by (simp add: index_ok_def)
  then show ?thesis by (cases d) auto
qed

lemma index_ok_keep_out: "index_ok st \<Longrightarrow> index_ok (keep_out K st)"
proof -
  assume ok: "index_ok st"
  then have "btm_ok (filter (\<lambda>e. fst e \<notin> K) (co_buffer st))"
    unfolding index_ok_def by (auto simp: sorted_wrt_map intro: sorted_wrt_filter)
  with ok show ?thesis by (auto simp: index_ok_def sorted_wrt_filter)
qed

lemma take_entry_closed:
  assumes "index_ok st" and "map_of (co_buffer st) key = Some b"
  shows "take_entry key st = Some (b, keep_out {key} st)"
proof -
  have ok: "btm_ok (co_buffer st)" using assms(1) by (simp add: index_ok_def)
  have due: "d = (bf_emit_at b, key)" if d: "d \<in> set (co_deadlines st)" "snd d = key" for d
  proof -
    have "d \<in> (\<lambda>(k, b). (bf_emit_at b, k)) ` set (co_buffer st)"
      using assms(1) d(1) by (simp add: index_ok_def)
    then obtain b' where b': "(key, b') \<in> set (co_buffer st)" and de: "d = (bf_emit_at b', key)"
      using d(2) by auto
    have "map_of (co_buffer st) key = Some b'" using map_of_btm [OF ok] b' by blast
    with assms(2) de show ?thesis by simp
  qed
  have "bts_remove (bf_emit_at b, key) (co_deadlines st) =
      filter (\<lambda>d. snd d \<notin> {key}) (co_deadlines st)"
    unfolding bts_remove_def
  proof (rule filter_cong [OF refl])
    fix d assume "d \<in> set (co_deadlines st)"
    then show "d \<noteq> (bf_emit_at b, key) \<longleftrightarrow> snd d \<notin> {key}" using due [of d] by auto
  qed
  with assms(2) show ?thesis by (simp add: take_entry_def btm_remove_def keep_out_def)
qed

lemma map_of_filter_key: "map_of (filter (\<lambda>e. fst e \<notin> K) m) k = (if k \<in> K then None else map_of m k)"
  by (induction m) auto

lemma flush_entries_closed:
  "index_ok st \<Longrightarrow> distinct keys \<Longrightarrow> set keys \<subseteq> fst ` set (co_buffer st) \<Longrightarrow>
     flush_entries now keys st = Some (keep_out (set keys) st
       \<lparr>co_ready := co_ready st @ map (\<lambda>k. (now, bf_event (the (map_of (co_buffer st) k)))) keys\<rparr>)"
proof (induction keys arbitrary: st)
  case (Cons k ks)
  obtain b where b: "map_of (co_buffer st) k = Some b"
    using Cons.prems(3) by (metis insert_subset list.simps(15) map_of_eq_None_iff not_None_eq)
  let ?st = "keep_out {k} st\<lparr>co_ready := co_ready st @ [(now, bf_event b)]\<rparr>"
  have same: "map (\<lambda>k'. (now, bf_event (the (map_of (co_buffer ?st) k')))) ks =
      map (\<lambda>k'. (now, bf_event (the (map_of (co_buffer st) k')))) ks"
    using Cons.prems(2) map_of_filter_key [of "{k}" "co_buffer st"] by (auto simp: map_eq_conv)
  have "set ks \<subseteq> fst ` set (co_buffer ?st)"
    using Cons.prems(2,3) by (force simp: image_iff)
  then have "flush_entries now ks ?st = Some (keep_out (set ks) ?st
       \<lparr>co_ready := co_ready ?st @ map (\<lambda>k. (now, bf_event (the (map_of (co_buffer ?st) k)))) ks\<rparr>)"
    using Cons.prems by (intro Cons.IH) (auto simp: index_ok_keep_out)
  then show ?case
    using take_entry_closed [OF Cons.prems(1) b] b
    by (simp only: same) (simp add: keep_out_keep_out Un_commute)
qed simp

lemma drop_entries_closed:
  "index_ok st \<Longrightarrow> distinct keys \<Longrightarrow> set keys \<subseteq> fst ` set (co_buffer st) \<Longrightarrow>
     drop_entries keys st = keep_out (set keys) st"
proof (induction keys arbitrary: st)
  case (Cons k ks)
  obtain b where b: "map_of (co_buffer st) k = Some b"
    using Cons.prems(3) by (metis insert_subset list.simps(15) map_of_eq_None_iff not_None_eq)
  have "set ks \<subseteq> fst ` set (co_buffer (keep_out {k} st))"
    using Cons.prems(2,3) by (force simp: image_iff)
  then show ?case
    using take_entry_closed [OF Cons.prems(1) b] Cons
    by (simp add: index_ok_keep_out keep_out_keep_out)
qed simp

section \<open>One subscription's entries\<close>

lemma pair_less_bottom: "(a, k) < (s, []) \<longleftrightarrow> a < (s :: 'a::linorder)"
  for k :: "'c::linorder list"
  by (auto simp: less_prod_def')

lemma subscription_entries_filter:
  assumes "index_ok st"
  shows "subscription_entries st sub =
    map (\<lambda>(k, b). (bf_seq b, k)) (filter (\<lambda>e. fst (fst e) = sub) (co_buffer st))"
proof -
  have "sorted (map (\<lambda>e. fst (fst e)) (co_buffer st))"
    using assms unfolding index_ok_def
    by (auto simp: sorted_wrt_map less_prod_def' elim!: sorted_wrt_mono_rel [rotated])
  from takeWhile_dropWhile_sorted [OF this, of sub] show ?thesis
    unfolding subscription_entries_def
    by (metis (mono_tags, lifting) pair_less_bottom dropWhile_cong prod.collapse)
qed

definition sub_keys :: "subscription \<Rightarrow> ('c, 'v) coalescer \<Rightarrow> 'c ckey set" where
  "sub_keys sub st = {k \<in> fst ` set (co_buffer st). fst k = sub}"

lemma subscription_entries_keys:
  assumes "index_ok st"
  shows "distinct (map snd (subscription_entries st sub))"
    and "set (map snd (subscription_entries st sub)) = sub_keys sub st"
proof -
  have eq: "map snd (subscription_entries st sub) =
      map fst (filter (\<lambda>e. fst (fst e) = sub) (co_buffer st))"
    using assms by (auto simp: subscription_entries_filter)
  have "distinct (map fst (co_buffer st))"
    using assms btm_ok_distinct unfolding index_ok_def by blast
  then show "distinct (map snd (subscription_entries st sub))"
    unfolding eq by (rule distinct_map_filter)
  show "set (map snd (subscription_entries st sub)) = sub_keys sub st"
    unfolding eq by (force simp: sub_keys_def)
qed

definition flushed_keys :: "subscription \<Rightarrow> ('c::linorder, 'v) coalescer \<Rightarrow> 'c ckey list" where
  "flushed_keys sub st = map snd (sort_key fst (subscription_entries st sub))"

lemma flushed_keys_props:
  assumes "index_ok st"
  shows "distinct (flushed_keys sub st)" and "set (flushed_keys sub st) = sub_keys sub st"
proof -
  have m: "mset (flushed_keys sub st) = mset (map snd (subscription_entries st sub))"
    by (simp add: flushed_keys_def)
  show "distinct (flushed_keys sub st)"
    using m subscription_entries_keys(1) [OF assms] by (metis mset_eq_imp_distinct_iff)
  show "set (flushed_keys sub st) = sub_keys sub st"
    using m subscription_entries_keys(2) [OF assms] by (metis mset_eq_setD)
qed

definition flushed_events :: "subscription \<Rightarrow> ('c::linorder, 'v) coalescer \<Rightarrow> ('c, 'v) event list" where
  "flushed_events sub st =
     map (\<lambda>k. bf_event (the (map_of (co_buffer st) k))) (flushed_keys sub st)"

lemma flush_subscription_closed:
  assumes "index_ok st"
  shows "flush_subscription sub now st = Some (keep_out (sub_keys sub st) st
    \<lparr>co_ready := co_ready st @ map (Pair now) (flushed_events sub st),
     co_per_sub_len := (co_per_sub_len st)(sub := None)\<rparr>)"
proof -
  have "set (flushed_keys sub st) \<subseteq> fst ` set (co_buffer st)"
    using flushed_keys_props(2) [OF assms] by (auto simp: sub_keys_def)
  from flush_entries_closed [OF assms flushed_keys_props(1) [OF assms] this]
  show ?thesis
    using flushed_keys_props(2) [OF assms, of sub]
    by (simp add: flush_subscription_def flushed_events_def flushed_keys_def comp_def)
qed

lemma drop_subscription_closed:
  assumes "index_ok st"
  shows "drop_subscription sub st = keep_out (sub_keys sub st) st
    \<lparr>co_ready := filter (\<lambda>(at, ev). ev_subscription ev \<noteq> sub) (co_ready st),
     co_per_sub_len := (co_per_sub_len st)(sub := None)\<rparr>"
proof -
  have "set (map snd (subscription_entries st sub)) \<subseteq> fst ` set (co_buffer st)"
    using subscription_entries_keys(2) [OF assms] by (auto simp: sub_keys_def)
  from drop_entries_closed [OF assms subscription_entries_keys(1) [OF assms] this]
  show ?thesis
    unfolding drop_subscription_def subscription_entries_keys(2) [OF assms] by (simp add: Let_def)
qed

section \<open>Draining\<close>

lemma sub_count_take:
  assumes "btm_ok buf" and "map_of buf key = Some b"
  shows "sub_count s buf = sub_count s (btm_remove key buf) + (if s = fst key then 1 else 0)"
  using mset_btm_take [OF assms] by (simp add: sub_count_mset)

lemma dec_per_sub_closed:
  assumes "index_ok st" and "counts_ok st" and "map_of (co_buffer st) key = Some b"
  shows "dec_per_sub (fst key) (keep_out {key} st) =
    keep_out {key} st\<lparr>co_per_sub_len := counts_of (co_buffer (keep_out {key} st))\<rparr>"
proof -
  have rem: "filter (\<lambda>e. fst e \<noteq> key) (co_buffer st) = btm_remove key (co_buffer st)"
    by (simp add: btm_remove_def)
  have cnt: "sub_count s (co_buffer st) =
      sub_count s (btm_remove key (co_buffer st)) + (if s = fst key then 1 else 0)" for s
    using assms by (intro sub_count_take) (auto simp: index_ok_def)
  have "counts_of (btm_remove key (co_buffer st)) = (co_per_sub_len st)
      (fst key := (let n = sub_count (fst key) (co_buffer st)
        in if n - 1 = 0 then None else Some (n - 1)))"
    using assms(2) cnt by (auto simp: fun_eq_iff counts_ok_def counts_of_def Let_def)
  then show ?thesis
    using assms(2) cnt [of "fst key"]
    by (simp add: dec_per_sub_def rem counts_ok_def counts_of_def Let_def)
qed

lemma drain_entries_closed:
  "index_ok st \<Longrightarrow> counts_ok st \<Longrightarrow> distinct keys \<Longrightarrow> set keys \<subseteq> fst ` set (co_buffer st) \<Longrightarrow>
     drain_entries keys st = Some (map (\<lambda>k. bf_event (the (map_of (co_buffer st) k))) keys,
       keep_out (set keys) st\<lparr>co_per_sub_len := counts_of (co_buffer (keep_out (set keys) st))\<rparr>)"
proof (induction keys arbitrary: st)
  case Nil
  then show ?case by (simp add: counts_ok_def)
next
  case (Cons k ks)
  obtain b where b: "map_of (co_buffer st) k = Some b"
    using Cons.prems(4) by (metis insert_subset list.simps(15) map_of_eq_None_iff not_None_eq)
  let ?st = "keep_out {k} st\<lparr>co_per_sub_len := counts_of (co_buffer (keep_out {k} st))\<rparr>"
  have same: "map (\<lambda>k'. bf_event (the (map_of (co_buffer ?st) k'))) ks =
      map (\<lambda>k'. bf_event (the (map_of (co_buffer st) k'))) ks"
    using Cons.prems(3) map_of_filter_key [of "{k}" "co_buffer st"] by (auto simp: map_eq_conv)
  have "set ks \<subseteq> fst ` set (co_buffer ?st)"
    using Cons.prems(3,4) by (force simp: image_iff)
  then have "drain_entries ks ?st = Some (map (\<lambda>k. bf_event (the (map_of (co_buffer ?st) k))) ks,
      keep_out (set ks) ?st\<lparr>co_per_sub_len := counts_of (co_buffer (keep_out (set ks) ?st))\<rparr>)"
    using Cons.prems by (intro Cons.IH) (auto simp: index_ok_keep_out counts_ok_def)
  then show ?case
    using take_entry_closed [OF Cons.prems(1) b] b dec_per_sub_closed [OF Cons.prems(1,2) b]
    by (simp only: same) (simp add: keep_out_keep_out Un_commute conj_commute)
qed

definition slot :: "('c, 'v) coalescer \<Rightarrow> 'c ckey \<Rightarrow> ('c, 'v) buffered" where
  "slot st k = the (map_of (co_buffer st) k)"

lemma slot_eq: "index_ok st \<Longrightarrow> (k, b) \<in> set (co_buffer st) \<Longrightarrow> slot st k = b"
  unfolding slot_def index_ok_def using map_of_btm by (metis option.sel)

lemma collect_due_closed:
  "snd ` set ds \<subseteq> fst ` set (co_buffer st) \<Longrightarrow>
     collect_due (co_buffer st) ds = Some (map (\<lambda>(at, k). (fst k, bf_seq (slot st k), k)) ds)"
proof (induction ds)
  case (Cons d ds)
  obtain at k where d: "d = (at, k)" by (cases d)
  have "k \<in> fst ` set (co_buffer st)" using Cons.prems d by simp
  then obtain b where "map_of (co_buffer st) k = Some b"
    by (metis map_of_eq_None_iff not_None_eq)
  then show ?case using Cons d by (simp add: slot_def)
qed simp

definition due_order :: "instant \<Rightarrow> ('c::linorder, 'v) coalescer \<Rightarrow> (subscription \<times> u64 \<times> 'c ckey) list" where
  "due_order now st = sort_key (\<lambda>(sub, seq, _). (sub, seq))
     (map (\<lambda>(at, k). (fst k, bf_seq (slot st k), k))
       (filter (\<lambda>d. fst d \<le> now) (co_deadlines st)))"

definition due_keys :: "instant \<Rightarrow> ('c::linorder, 'v) coalescer \<Rightarrow> 'c ckey list" where
  "due_keys now st = map (\<lambda>(_, _, k). k) (due_order now st)"

lemma mset_due_keys:
  "mset (due_keys now st) = mset (map snd (filter (\<lambda>d. fst d \<le> now) (co_deadlines st)))"
  by (simp add: due_keys_def due_order_def image_mset.compositionality comp_def case_prod_unfold)

lemma deadlines_distinct_keys: "index_ok st \<Longrightarrow> distinct (map snd (co_deadlines st))"
proof -
  assume ok: "index_ok st"
  have "fst d = bf_emit_at (slot st (snd d))" if "d \<in> set (co_deadlines st)" for d
    using ok that slot_eq [OF ok] by (auto simp: index_ok_def)
  then have "inj_on snd (set (co_deadlines st))" by (metis inj_onI prod.expand)
  moreover have "distinct (co_deadlines st)"
    using ok unfolding index_ok_def by (simp add: strict_sorted_iff)
  ultimately show ?thesis by (simp add: distinct_map)
qed

lemma due_keys_props:
  assumes "index_ok st"
  shows "distinct (due_keys now st)"
    and "set (due_keys now st) = {k. \<exists>b. (k, b) \<in> set (co_buffer st) \<and> bf_emit_at b \<le> now}"
proof -
  show "distinct (due_keys now st)"
    using deadlines_distinct_keys [OF assms] distinct_map_filter mset_due_keys
    by (metis mset_eq_imp_distinct_iff)
  have "set (due_keys now st) = set (map snd (filter (\<lambda>d. fst d \<le> now) (co_deadlines st)))"
    by (rule mset_eq_setD [OF mset_due_keys])
  also have "\<dots> = snd ` {d \<in> set (co_deadlines st). fst d \<le> now}" by simp
  also have "\<dots> = {k. \<exists>b. (k, b) \<in> set (co_buffer st) \<and> bf_emit_at b \<le> now}"
  proof (intro set_eqI iffI)
    fix k assume "k \<in> snd ` {d \<in> set (co_deadlines st). fst d \<le> now}"
    then show "k \<in> {k. \<exists>b. (k, b) \<in> set (co_buffer st) \<and> bf_emit_at b \<le> now}"
      using index_mem [OF assms] by auto
  next
    fix k assume "k \<in> {k. \<exists>b. (k, b) \<in> set (co_buffer st) \<and> bf_emit_at b \<le> now}"
    then obtain b where "(k, b) \<in> set (co_buffer st)" "bf_emit_at b \<le> now" by blast
    then have "(bf_emit_at b, k) \<in> {d \<in> set (co_deadlines st). fst d \<le> now}"
      using index_mem [OF assms, of "(bf_emit_at b, k)"] by auto
    then show "k \<in> snd ` {d \<in> set (co_deadlines st). fst d \<le> now}"
      by (rule image_eqI [rotated]) simp
  qed
  finally show "set (due_keys now st) = \<dots>" .
qed

lemma drain_ready_closed:
  assumes "index_ok st" and "counts_ok st"
  shows "drain_ready now st = Some
    (map snd (takeWhile (\<lambda>(at, _). at \<le> now) (co_ready st)) @
       map (\<lambda>k. bf_event (slot st k)) (due_keys now st),
     keep_out (set (due_keys now st)) st
       \<lparr>co_ready := dropWhile (\<lambda>(at, _). at \<le> now) (co_ready st),
        co_per_sub_len := counts_of (co_buffer (keep_out (set (due_keys now st)) st))\<rparr>)"
proof -
  let ?st = "st\<lparr>co_ready := dropWhile (\<lambda>(at, _). at \<le> now) (co_ready st)\<rparr>"
  have ok: "index_ok ?st" "counts_ok ?st" using assms by (simp_all add: counts_ok_def)
  have "sorted (map fst (co_deadlines st))"
    using assms(1) unfolding index_ok_def
    by (auto simp: sorted_wrt_map less_prod_def' elim!: sorted_wrt_mono_rel [rotated])
  then have tw: "takeWhile (\<lambda>(at, _). at \<le> now) (co_deadlines st) =
      filter (\<lambda>d. fst d \<le> now) (co_deadlines st)"
    using takeWhile_sorted_filter [of fst "co_deadlines st" now] by (simp add: case_prod_unfold)
  have col: "collect_due (co_buffer st) (filter (\<lambda>d. fst d \<le> now) (co_deadlines st)) =
      Some (map (\<lambda>(at, k). (fst k, bf_seq (slot st k), k))
        (filter (\<lambda>d. fst d \<le> now) (co_deadlines st)))"
  proof (rule collect_due_closed)
    show "snd ` set (filter (\<lambda>d. fst d \<le> now) (co_deadlines st)) \<subseteq> fst ` set (co_buffer st)"
      using index_mem [OF assms(1)] by (metis (no_types, lifting) filter_is_subset image_eqI
          image_subsetI fst_conv subsetD)
  qed
  have "set (due_keys now st) \<subseteq> fst ` set (co_buffer ?st)"
    using due_keys_props(2) [OF assms(1)] by (force simp: image_iff)
  from drain_entries_closed [OF ok due_keys_props(1) [OF assms(1)] this]
  have "drain_entries (due_keys now st) ?st = Some (map (\<lambda>k. bf_event (slot st k)) (due_keys now st),
      keep_out (set (due_keys now st)) st
        \<lparr>co_ready := dropWhile (\<lambda>(at, _). at \<le> now) (co_ready st),
         co_per_sub_len := counts_of (co_buffer (keep_out (set (due_keys now st)) st))\<rparr>)"
    by (simp add: slot_def)
  then show ?thesis
    by (simp add: drain_ready_def tw col Let_def flip: due_order_def due_keys_def)
qed

section \<open>Admission\<close>

definition put_slot ::
  "'c::linorder ckey \<Rightarrow> ('c, 'v) buffered \<Rightarrow> ('c, 'v) coalescer \<Rightarrow> ('c, 'v) coalescer" where
  "put_slot key b st = st\<lparr>co_buffer := btm_insert key b (co_buffer st),
     co_deadlines := bts_insert (bf_emit_at b, key) (filter (\<lambda>d. snd d \<noteq> key) (co_deadlines st)),
     co_per_sub_len := counts_of (btm_insert key b (co_buffer st))\<rparr>"

lemma bts_insert_remove: "sorted_wrt (<) s \<Longrightarrow> x \<in> set s \<Longrightarrow> bts_insert x (bts_remove x s) = s"
  by (rule strict_sorted_equal)
    (auto simp: bts_ok_insert bts_ok_remove)

lemma sub_count_insert:
  assumes "btm_ok buf"
  shows "sub_count s (btm_insert key b buf) =
    sub_count s (btm_remove key buf) + (if s = fst key then 1 else 0)"
  using mset_btm_insert [OF assms] by (simp add: sub_count_mset)

lemma index_key_deadline:
  assumes "index_ok st" and "map_of (co_buffer st) key = Some b"
  shows "(bf_emit_at b, key) \<in> set (co_deadlines st)"
    and "filter (\<lambda>d. snd d \<noteq> key) (co_deadlines st) = bts_remove (bf_emit_at b, key) (co_deadlines st)"
proof -
  show "(bf_emit_at b, key) \<in> set (co_deadlines st)"
    using index_mem [OF assms(1), of "(bf_emit_at b, key)"] map_of_SomeD [OF assms(2)] by auto
  show "filter (\<lambda>d. snd d \<noteq> key) (co_deadlines st) = bts_remove (bf_emit_at b, key) (co_deadlines st)"
    using take_entry_closed [OF assms] assms(2) by (simp add: take_entry_def keep_out_def)
      (metis (mono_tags, lifting) coalescer.select_convs(5) coalescer.surjective
        coalescer.update_convs(4,5))
qed

lemma put_slot_replace:
  assumes "index_ok st" and "counts_ok st" and "map_of (co_buffer st) key = Some b"
  shows "put_slot key b' st = st\<lparr>co_buffer := btm_insert key b' (co_buffer st),
    co_deadlines := bts_insert (bf_emit_at b', key) (bts_remove (bf_emit_at b, key) (co_deadlines st))\<rparr>"
proof -
  have ok: "btm_ok (co_buffer st)" using assms(1) by (simp add: index_ok_def)
  have "counts_of (btm_insert key b' (co_buffer st)) = counts_of (co_buffer st)"
    using sub_count_insert [OF ok] sub_count_take [OF ok assms(3)]
    by (simp add: fun_eq_iff counts_of_def)
  then show ?thesis
    using assms(2) index_key_deadline(2) [OF assms(1,3)] by (simp add: put_slot_def counts_ok_def)
qed

lemma refile_put_slot:
  assumes "index_ok st" and "counts_ok st" and "map_of (co_buffer st) key = Some b"
  shows "refile key (bf_emit_at b) (st\<lparr>co_buffer := btm_insert key b' (co_buffer st)\<rparr>) =
    Some (None, put_slot key b' st)"
proof -
  have "sorted_wrt (<) (co_deadlines st)" using assms(1) by (simp add: index_ok_def)
  from bts_insert_remove [OF this index_key_deadline(1) [OF assms(1,3)]] show ?thesis
    by (simp add: refile_def put_slot_replace [OF assms])
qed

lemma index_ok_put_slot:
  assumes "index_ok st"
  shows "index_ok (put_slot key b st)"
proof -
  have ok: "btm_ok (co_buffer st)" using assms by (simp add: index_ok_def)
  have "d \<in> insert (bf_emit_at b, key) {d \<in> set (co_deadlines st). snd d \<noteq> key} \<longleftrightarrow>
      d \<in> (\<lambda>(k, b). (bf_emit_at b, k)) ` insert (key, b) {e \<in> set (co_buffer st). fst e \<noteq> key}" for d
    using index_mem [OF assms, of d] by (cases d) (auto simp: image_iff)
  with assms ok show ?thesis
    unfolding index_ok_def put_slot_def
    by (simp add: btm_ok_insert bts_ok_insert sorted_wrt_filter set_btm_insert [OF ok] set_eq_iff
        del: insert_iff image_insert)
qed

lemma put_slot_fresh:
  assumes "index_ok st" and "counts_ok st" and "map_of (co_buffer st) key = None"
  shows "st\<lparr>co_deadlines := bts_insert (bf_emit_at b, key) (co_deadlines st),
      co_buffer := btm_insert key b (co_buffer st),
      co_per_sub_len := (co_per_sub_len st)
        (fst key \<mapsto> (case co_per_sub_len st (fst key) of None \<Rightarrow> 0 | Some n \<Rightarrow> n) + 1)\<rparr> =
    put_slot key b st"
proof -
  have ok: "btm_ok (co_buffer st)" using assms(1) by (simp add: index_ok_def)
  have none: "btm_remove key (co_buffer st) = co_buffer st"
    unfolding btm_remove_def using assms(3) by (intro filter_True) (force simp: map_of_eq_None_iff)
  have "snd d \<noteq> key" if "d \<in> set (co_deadlines st)" for d
    using that assms(3) index_mem [OF assms(1), of d] by (auto simp: map_of_eq_None_iff image_iff)
  then have "filter (\<lambda>d. snd d \<noteq> key) (co_deadlines st) = co_deadlines st" by simp
  moreover have "counts_of (btm_insert key b (co_buffer st)) = (counts_of (co_buffer st))
      (fst key \<mapsto> (case counts_of (co_buffer st) (fst key) of None \<Rightarrow> 0 | Some n \<Rightarrow> n) + 1)"
    using sub_count_insert [OF ok, of _ key b] none
    by (auto simp: fun_eq_iff counts_of_def)
  ultimately show ?thesis using assms(2) by (simp add: put_slot_def counts_ok_def)
qed

definition sub_len :: "('c, 'v) coalescer \<Rightarrow> subscription \<Rightarrow> nat" where
  "sub_len st sub = (case co_per_sub_len st sub of None \<Rightarrow> 0 | Some n \<Rightarrow> n)"

definition fresh_slot :: "clock \<Rightarrow> ('c, 'v) event \<Rightarrow> instant \<Rightarrow> debounce_config \<Rightarrow> u64 \<Rightarrow> ('c, 'v) buffered" where
  "fresh_slot clk ev now cfg seq =
     \<lparr>bf_first_seen = now, bf_emit_at = deadline clk now now (quiet_window cfg) (max_hold cfg),
      bf_seq = seq, bf_event = ev\<rparr>"

definition merged_slot ::
  "clock \<Rightarrow> ('c, 'v) buffered \<Rightarrow> ('c, 'v) event \<Rightarrow> instant \<Rightarrow> debounce_config \<Rightarrow> u64 \<Rightarrow> ('c, 'v) buffered" where
  "merged_slot clk b ev now cfg seq =
     \<lparr>bf_first_seen = bf_first_seen b,
      bf_emit_at = deadline clk (bf_first_seen b) now (quiet_window cfg) (max_hold cfg),
      bf_seq = seq,
      bf_event = collapsed_event (collapse_kinds (ev_kind (bf_event b)) (ev_kind ev)) (bf_event b) ev\<rparr>"

lemma coalesce_closed:
  fixes ev :: "('c::linorder, 'v) event"
  assumes "index_ok st" and "counts_ok st"
  defines "key \<equiv> (ev_subscription ev, ev_key ev)"
    and "st1 \<equiv> st\<lparr>co_next_seq := co_next_seq st + 1\<rparr>"
  shows "coalesce clk ev now cfg st = Some
    (case map_of (co_buffer st) key of
       None \<Rightarrow>
         if structural_cap st \<le> length (co_buffer st) \<or> max_buffered cfg \<le> sub_len st (ev_subscription ev)
         then (Some (ev_subscription ev), st1)
         else (None, put_slot key (fresh_slot clk ev now cfg (co_next_seq st)) st1)
     | Some b \<Rightarrow>
         if collapse_kinds (ev_kind (bf_event b)) (ev_kind ev) = Annihilate
         then (None, keep_out {key} st1\<lparr>co_per_sub_len := counts_of (co_buffer (keep_out {key} st1))\<rparr>)
         else (None, put_slot key (merged_slot clk b ev now cfg (co_next_seq st)) st1))"
proof (cases "map_of (co_buffer st) key")
  case None
  have ok: "index_ok st1" "counts_ok st1" "map_of (co_buffer st1) key = None"
    using assms None by (simp_all add: counts_ok_def)
  have "structural_cap st1 = structural_cap st" by (simp add: st1_def structural_cap_def)
  then show ?thesis
    using None put_slot_fresh [OF ok, of "fresh_slot clk ev now cfg (co_next_seq st)"]
    by (auto simp: coalesce_def bump_seq_def Let_def sub_len_def fresh_slot_def key_def st1_def)
next
  case (Some b)
  have ok: "index_ok st1" "counts_ok st1" "map_of (co_buffer st1) key = Some b"
    using assms Some by (simp_all add: counts_ok_def)
  show ?thesis
  proof (cases "collapse_kinds (ev_kind (bf_event b)) (ev_kind ev) = Annihilate")
    case True
    then show ?thesis
      using Some take_entry_closed [OF ok(1,3)] dec_per_sub_closed [OF ok]
      by (simp add: coalesce_def bump_seq_def Let_def key_def st1_def take_entry_def)
  next
    case False
    then show ?thesis
      using Some refile_put_slot [OF ok, of "merged_slot clk b ev now cfg (co_next_seq st)"]
      by (auto simp: coalesce_def bump_seq_def Let_def key_def st1_def merged_slot_def
          split: collapse.splits)
  qed
qed

section \<open>Histories\<close>

datatype ('c, 'v) co_op =
    OpPolicy subscription debounce
  | OpAdmit "('c, 'v) event" instant
  | OpDrain instant
  | OpFlushSub subscription instant
  | OpFlushAll
  | OpDrop subscription
  | OpForget subscription

fun co_step ::
  "clock \<Rightarrow> ('c::linorder, 'v) co_op \<Rightarrow> ('c, 'v) coalescer \<Rightarrow> (('c, 'v) event list \<times> ('c, 'v) coalescer) option"
  where
  "co_step clk (OpPolicy s d) st = Some ([], set_policy s d st)"
| "co_step clk (OpAdmit ev now) st = map_option (\<lambda>(_, st1). ([], st1)) (admit clk ev now st)"
| "co_step clk (OpDrain now) st = drain_ready now st"
| "co_step clk (OpFlushSub s now) st = map_option (Pair []) (flush_subscription s now st)"
| "co_step clk OpFlushAll st = Some (flush_all st)"
| "co_step clk (OpDrop s) st = Some ([], drop_subscription s st)"
| "co_step clk (OpForget s) st = Some ([], forget_subscription s st)"

fun co_run ::
  "clock \<Rightarrow> ('c::linorder, 'v) co_op list \<Rightarrow> ('c, 'v) coalescer
     \<Rightarrow> (('c, 'v) event list list \<times> ('c, 'v) coalescer) option" where
  "co_run clk [] st = Some ([], st)"
| "co_run clk (x # xs) st =
     (case co_step clk x st of
        None \<Rightarrow> None
      | Some (out, st1) \<Rightarrow> map_option (\<lambda>(outs, st2). (out # outs, st2)) (co_run clk xs st1))"

definition sub_gone :: "subscription \<Rightarrow> ('c::linorder, 'v) coalescer \<Rightarrow> ('c, 'v) coalescer" where
  "sub_gone sub st = keep_out (sub_keys sub st) st
     \<lparr>co_per_sub_len := (co_per_sub_len st)(sub := None)\<rparr>"

lemma buffer_without_sub:
  "filter (\<lambda>e. fst e \<notin> sub_keys sub st) (co_buffer st) = filter (\<lambda>e. fst (fst e) \<noteq> sub) (co_buffer st)"
  by (intro filter_cong) (auto simp: sub_keys_def)

lemma co_inv_update [simp]:
  "co_inv (st\<lparr>co_ready := r\<rparr>) = co_inv st"
  "co_inv (st\<lparr>co_next_seq := q\<rparr>) = co_inv st"
  "co_inv (st\<lparr>co_policies := p\<rparr>) = co_inv st"
  by (simp_all add: co_inv_def counts_ok_def filed_ok_def)

lemma co_inv_sub_gone: "co_inv st \<Longrightarrow> co_inv (sub_gone sub st)"
  unfolding co_inv_def sub_gone_def
  by (auto simp: index_ok_keep_out counts_ok_def buffer_without_sub filed_ok_def fun_eq_iff
      counts_of_def sub_count_def conj_ac cong: conj_cong)

lemma co_inv_keep_out:
  "co_inv st \<Longrightarrow> co_inv (keep_out K st\<lparr>co_per_sub_len := counts_of (co_buffer (keep_out K st))\<rparr>)"
  by (auto simp: co_inv_def index_ok_keep_out counts_ok_def filed_ok_def)

lemma co_inv_put_slot:
  assumes "co_inv st" and "key = (ev_subscription (bf_event b), ev_key (bf_event b))"
    and "is_lifecycle (ev_kind (bf_event b))"
  shows "co_inv (put_slot key b st)"
proof -
  have "set (btm_insert key b (co_buffer st)) =
      insert (key, b) {e \<in> set (co_buffer st). fst e \<noteq> key}"
    using assms(1) by (intro set_btm_insert) (simp add: co_inv_def index_ok_def)
  then show ?thesis
    using assms index_ok_put_slot
    by (auto simp: co_inv_def counts_ok_def filed_ok_def put_slot_def)
qed

lemma merged_slot_filed:
  assumes "key = (ev_subscription (bf_event b), ev_key (bf_event b))"
    and "key = (ev_subscription ev, ev_key ev)" and "is_lifecycle (ev_kind ev)"
    and "is_lifecycle (ev_kind (bf_event b))"
  shows "key = (ev_subscription (bf_event (merged_slot clk b ev now cfg q)),
      ev_key (bf_event (merged_slot clk b ev now cfg q)))"
    and "is_lifecycle (ev_kind (bf_event (merged_slot clk b ev now cfg q)))"
  using assms
  by (auto simp: merged_slot_def collapsed_event_def synthetic_def is_lifecycle_def
      split: collapse.splits event_kind.splits)

lemma co_inv_coalesce:
  assumes "co_inv st" and "is_lifecycle (ev_kind ev)"
  shows "\<exists>r st'. coalesce clk ev now cfg st = Some (r, st') \<and> co_inv st'"
proof -
  let ?key = "(ev_subscription ev, ev_key ev)" and ?st = "st\<lparr>co_next_seq := co_next_seq st + 1\<rparr>"
  have ok: "index_ok st" "counts_ok st" and inv: "co_inv ?st"
    using assms(1) by (simp_all add: co_inv_def counts_ok_def filed_ok_def)
  have fresh: "co_inv (put_slot ?key (fresh_slot clk ev now cfg (co_next_seq st)) ?st)"
    using assms(2) inv by (intro co_inv_put_slot) (simp_all add: fresh_slot_def)
  have merged: "co_inv (put_slot ?key (merged_slot clk b ev now cfg (co_next_seq st)) ?st)"
    if "map_of (co_buffer st) ?key = Some b" for b
  proof -
    have "(?key, b) \<in> set (co_buffer st)" using that by (rule map_of_SomeD)
    then have "?key = (ev_subscription (bf_event b), ev_key (bf_event b))"
        "is_lifecycle (ev_kind (bf_event b))"
      using assms(1) by (auto simp: co_inv_def filed_ok_def)
    with merged_slot_filed [OF this(1) refl assms(2) this(2)] show ?thesis
      by (intro co_inv_put_slot [OF inv]) auto
  qed
  show ?thesis
    using fresh merged inv co_inv_keep_out [OF inv, of "{?key}"] unfolding coalesce_closed [OF ok]
    by (auto split: option.split)
qed

lemma flush_subscription_eq:
  "co_inv st \<Longrightarrow> flush_subscription sub now st = Some (sub_gone sub st
     \<lparr>co_ready := co_ready st @ map (Pair now) (flushed_events sub st)\<rparr>)"
  by (simp add: co_inv_def flush_subscription_closed sub_gone_def)

lemma drop_subscription_eq:
  "co_inv st \<Longrightarrow> drop_subscription sub st = sub_gone sub st
     \<lparr>co_ready := filter (\<lambda>(at, ev). ev_subscription ev \<noteq> sub) (co_ready st)\<rparr>"
  by (simp add: co_inv_def drop_subscription_closed sub_gone_def)

text \<open>\<open>admit\<close> has three outcomes: flush and signal, pass through, coalesce.\<close>

lemma not_lifecycle_iff: "\<not> is_lifecycle k \<longleftrightarrow> (k = ERescan \<or> (\<exists>f. k = EMoved f))"
  by (cases k) (auto simp: is_lifecycle_def)

lemma admit_closed:
  assumes "co_inv st"
  shows "admit clk ev now st =
    (if \<not> is_lifecycle (ev_kind ev)
     then Some (None, sub_gone (ev_subscription ev) st
       \<lparr>co_ready := co_ready st @ map (Pair now) (flushed_events (ev_subscription ev) st) @ [(now, ev)]\<rparr>)
     else case effective_policy st (ev_subscription ev) of
         None \<Rightarrow> Some (None, st\<lparr>co_ready := co_ready st @ [(now, ev)]\<rparr>)
       | Some cfg \<Rightarrow> coalesce clk ev now cfg st)"
  using flush_subscription_eq [OF assms]
  by (cases "ev_kind ev")
    (auto simp: admit_def is_lifecycle_def event_is_rescan_def event_move_from_def split: option.splits)

lemma co_inv_admit:
  assumes "co_inv st"
  shows "\<exists>r st'. admit clk ev now st = Some (r, st') \<and> co_inv st'"
  using assms co_inv_sub_gone [OF assms] co_inv_coalesce [OF assms]
  by (auto simp: admit_closed split: option.splits)

lemma co_inv_step: "co_inv st \<Longrightarrow> \<exists>out st'. co_step clk x st = Some (out, st') \<and> co_inv st'"
proof (cases x)
  case (OpPolicy s d)
  assume "co_inv st"
  with OpPolicy show ?thesis by (cases d) auto
next
  case (OpAdmit ev now)
  assume "co_inv st"
  from co_inv_admit [OF this, of clk ev now] OpAdmit show ?thesis by auto
next
  case (OpDrain now)
  assume inv: "co_inv st"
  then have "index_ok st" "counts_ok st" by (simp_all add: co_inv_def)
  moreover have "co_inv (st\<lparr>co_ready := dropWhile (\<lambda>(at, _). at \<le> now) (co_ready st)\<rparr>)"
    using inv by simp
  note co_inv_keep_out [OF this, of "set (due_keys now st)"]
  ultimately show ?thesis using OpDrain by (simp add: drain_ready_closed)
next
  case (OpFlushSub s now)
  assume "co_inv st"
  with OpFlushSub co_inv_sub_gone show ?thesis by (simp add: flush_subscription_eq)
next
  case OpFlushAll
  then show ?thesis
    by (simp add: flush_all_def co_inv_def index_ok_def counts_ok_def filed_ok_def counts_of_def
        sub_count_def fun_eq_iff)
next
  case (OpDrop s)
  assume "co_inv st"
  with OpDrop co_inv_sub_gone show ?thesis by (simp add: drop_subscription_eq)
next
  case (OpForget s)
  assume "co_inv st"
  with OpForget co_inv_sub_gone show ?thesis
    by (simp add: forget_subscription_def Let_def drop_subscription_eq)
qed

section \<open>Admission sequence numbers\<close>

lemma co_seq_update [simp]:
  "co_seq n (st\<lparr>co_ready := r\<rparr>) = co_seq n st"
  "co_seq n (st\<lparr>co_per_sub_len := l\<rparr>) = co_seq n st"
  "co_seq n (st\<lparr>co_policies := p\<rparr>) = co_seq n st"
  by (simp_all add: co_seq_def)

lemma co_seq_mono: "co_seq n st \<Longrightarrow> n \<le> m \<Longrightarrow> co_seq m st"
  by (auto simp: co_seq_def)

lemma co_seq_keep_out: "co_seq n st \<Longrightarrow> co_seq n (keep_out K st)"
  by (auto simp: co_seq_def distinct_map_filter)

lemma co_seq_sub_gone: "co_seq n st \<Longrightarrow> co_seq n (sub_gone s st)"
  by (simp add: sub_gone_def co_seq_keep_out)

lemma next_seq_gt:
  assumes "co_seq n st" and "n < 2 ^ 64 - 1"
  shows "co_next_seq st < co_next_seq st + 1" and "unat (co_next_seq st + 1) \<le> Suc n"
proof -
  have "unat (co_next_seq st) < 2 ^ 64 - 1" using assms by (simp add: co_seq_def)
  then have "unat (co_next_seq st + 1) = unat (co_next_seq st) + 1" by (simp add: unat_plus_u64)
  then show "co_next_seq st < co_next_seq st + 1" "unat (co_next_seq st + 1) \<le> Suc n"
    using assms(1) by (simp_all add: word_less_nat_alt co_seq_def)
qed

lemma co_seq_bump: "co_seq n st \<Longrightarrow> n < 2 ^ 64 - 1 \<Longrightarrow> co_seq (Suc n) (st\<lparr>co_next_seq := co_next_seq st + 1\<rparr>)"
  using next_seq_gt [of n st] by (fastforce simp: co_seq_def)

lemma co_seq_put_slot:
  assumes "co_seq n st" and "n < 2 ^ 64 - 1" and "btm_ok (co_buffer st)" and "bf_seq b = co_next_seq st"
  shows "co_seq (Suc n) (put_slot key b (st\<lparr>co_next_seq := co_next_seq st + 1\<rparr>))"
proof -
  note gt = next_seq_gt [OF assms(1,2)]
  let ?q = "\<lambda>e. bf_seq (snd e)"
  have "mset (map ?q (btm_insert key b (co_buffer st))) =
      mset (co_next_seq st # map ?q (btm_remove key (co_buffer st)))"
    using mset_btm_insert [OF assms(3)] assms(4) by simp
  moreover have "distinct (co_next_seq st # map ?q (btm_remove key (co_buffer st)))"
    using assms(1) by (auto simp: co_seq_def btm_remove_def distinct_map_filter)
  ultimately have "distinct (map ?q (btm_insert key b (co_buffer st)))"
    by (metis mset_eq_imp_distinct_iff)
  then show ?thesis
    using assms gt by (fastforce simp: co_seq_def put_slot_def set_btm_insert)
qed

lemma co_seq_admit:
  assumes "co_inv st" and "co_seq n st" and "n < 2 ^ 64 - 1" and "admit clk ev now st = Some (r, st')"
  shows "co_seq (Suc n) st'"
proof (cases "is_lifecycle (ev_kind ev) \<and> effective_policy st (ev_subscription ev) \<noteq> None")
  case False
  then have "co_seq n st'"
    using assms co_seq_sub_gone [OF assms(2)] by (auto simp: admit_closed split: if_splits)
  then show ?thesis by (rule co_seq_mono) simp
next
  case True
  then obtain cfg where c: "coalesce clk ev now cfg st = Some (r, st')"
    using assms(1,4) by (auto simp: admit_closed)
  have ok: "index_ok st" "counts_ok st" "btm_ok (co_buffer st)"
    using assms(1) by (simp_all add: co_inv_def index_ok_def)
  note put = co_seq_put_slot [OF assms(2,3) ok(3)] and bump = co_seq_bump [OF assms(2,3)]
  show ?thesis
    using c bump put co_seq_keep_out [OF bump] unfolding coalesce_closed [OF ok(1,2)]
    by (auto simp: fresh_slot_def merged_slot_def split: option.splits if_splits)
qed

lemma co_seq_step:
  assumes "co_inv st" and "co_seq n st" and "n < 2 ^ 64 - 1" and "co_step clk x st = Some (out, st')"
  shows "co_seq (Suc n) st'"
proof (cases x)
  case (OpAdmit ev now)
  with assms co_seq_admit [OF assms(1-3)] show ?thesis by auto
next
  case (OpPolicy s d)
  with assms co_seq_mono [OF assms(2), of "Suc n"] show ?thesis by (cases d) auto
next
  case (OpDrain now)
  have "index_ok st" "counts_ok st" using assms(1) by (simp_all add: co_inv_def)
  with OpDrain assms(4) co_seq_keep_out [OF co_seq_mono [OF assms(2), of "Suc n"]] show ?thesis
    by (auto simp: drain_ready_closed)
next
  case (OpFlushSub s now)
  with assms co_seq_mono [OF co_seq_sub_gone [OF assms(2)]] show ?thesis
    by (auto simp: flush_subscription_eq)
next
  case OpFlushAll
  with assms(2,4) show ?thesis by (auto simp: flush_all_def co_seq_def)
next
  case (OpDrop s)
  with assms co_seq_mono [OF co_seq_sub_gone [OF assms(2)]] show ?thesis
    by (auto simp: drop_subscription_eq)
next
  case (OpForget s)
  with assms co_seq_mono [OF co_seq_sub_gone [OF assms(2)]] show ?thesis
    by (auto simp: drop_subscription_eq forget_subscription_def Let_def)
qed

lemma co_run_inv:
  assumes "co_inv st" and "co_seq n st" and "n + length ops < 2 ^ 64"
  shows "\<exists>outs st'. co_run clk ops st = Some (outs, st') \<and> co_inv st' \<and> co_seq (n + length ops) st'"
  using assms
proof (induction ops arbitrary: st n)
  case (Cons x xs)
  obtain out st1 where s: "co_step clk x st = Some (out, st1)" "co_inv st1"
    using co_inv_step [OF Cons.prems(1)] by blast
  have "co_seq (Suc n) st1"
    by (rule co_seq_step [OF Cons.prems(1,2) _ s(1)]) (use Cons.prems(3) in simp)
  with Cons.IH [OF s(2), of "Suc n"] Cons.prems(3) s(1) show ?case by auto
qed auto

definition coalescer_idle ::
  "debounce_config option \<Rightarrow> (subscription \<rightharpoonup> debounce_config option) \<Rightarrow> ('c, 'v) coalescer" where
  "coalescer_idle d p = (coalescer_new d)\<lparr>co_policies := p\<rparr>"

lemma co_inv_idle: "co_inv (coalescer_idle d p)" "co_seq 0 (coalescer_idle d p)"
  by (simp_all add: co_inv_def index_ok_def counts_ok_def filed_ok_def counts_of_def sub_count_def
      fun_eq_iff coalescer_new_def coalescer_idle_def co_seq_def)

section \<open>Epoch order\<close>

text \<open>
  \<open>epoch_ok hw st\<close>: per subscription, the queued events carry ascending epochs, every slot's epoch is
  at least theirs, slots are ordered by epoch as by admission sequence, nothing exceeds the last
  admitted epoch \<open>hw\<close>, and only a subscription with a settle policy has slots.
\<close>

definition epoch_ok :: "(subscription \<Rightarrow> epoch) \<Rightarrow> ('c, 'v) coalescer \<Rightarrow> bool" where
  "epoch_ok hw st \<longleftrightarrow>
     (\<forall>s. sorted (map (\<lambda>r. ev_epoch (snd r)) (filter (\<lambda>r. ev_subscription (snd r) = s) (co_ready st)))) \<and>
     (\<forall>r \<in> set (co_ready st). \<forall>e \<in> set (co_buffer st).
        fst (fst e) = ev_subscription (snd r) \<longrightarrow> ev_epoch (snd r) \<le> ev_epoch (bf_event (snd e))) \<and>
     (\<forall>e \<in> set (co_buffer st). \<forall>e' \<in> set (co_buffer st).
        fst (fst e) = fst (fst e') \<longrightarrow> bf_seq (snd e) \<le> bf_seq (snd e') \<longrightarrow>
        ev_epoch (bf_event (snd e)) \<le> ev_epoch (bf_event (snd e'))) \<and>
     (\<forall>r \<in> set (co_ready st). ev_epoch (snd r) \<le> hw (ev_subscription (snd r))) \<and>
     (\<forall>e \<in> set (co_buffer st). ev_epoch (bf_event (snd e)) \<le> hw (fst (fst e)) \<and>
        effective_policy st (fst (fst e)) \<noteq> None)"

lemma effective_policy_cong:
  "co_policies st' = co_policies st \<Longrightarrow> co_default st' = co_default st \<Longrightarrow>
     effective_policy st' s = effective_policy st s"
  by (simp add: effective_policy_def split: option.split)

lemma epoch_ok_slots:
  "epoch_ok hw st \<Longrightarrow> e \<in> set (co_buffer st) \<Longrightarrow> e' \<in> set (co_buffer st) \<Longrightarrow>
     fst (fst e) = fst (fst e') \<Longrightarrow> bf_seq (snd e) \<le> bf_seq (snd e') \<Longrightarrow>
     ev_epoch (bf_event (snd e)) \<le> ev_epoch (bf_event (snd e'))"
  unfolding epoch_ok_def by blast

lemma epoch_ok_ready_slot:
  "epoch_ok hw st \<Longrightarrow> r \<in> set (co_ready st) \<Longrightarrow> e \<in> set (co_buffer st) \<Longrightarrow>
     fst (fst e) = ev_subscription (snd r) \<Longrightarrow> ev_epoch (snd r) \<le> ev_epoch (bf_event (snd e))"
  unfolding epoch_ok_def by blast

lemma epoch_ok_bounds:
  "epoch_ok hw st \<Longrightarrow> r \<in> set (co_ready st) \<Longrightarrow> ev_epoch (snd r) \<le> hw (ev_subscription (snd r))"
  "epoch_ok hw st \<Longrightarrow> e \<in> set (co_buffer st) \<Longrightarrow> ev_epoch (bf_event (snd e)) \<le> hw (fst (fst e))"
  "epoch_ok hw st \<Longrightarrow> e \<in> set (co_buffer st) \<Longrightarrow> effective_policy st (fst (fst e)) \<noteq> None"
  unfolding epoch_ok_def by blast+

lemma filed_sub:
  "filed_ok st \<Longrightarrow> (k, b) \<in> set (co_buffer st) \<Longrightarrow> ev_subscription (bf_event b) = fst k"
  unfolding filed_ok_def by (drule (1) bspec) simp

lemma sorted_filter_sorted_key:
  fixes e :: "'x \<Rightarrow> epoch" and q :: "'x \<Rightarrow> u64"
  assumes "sorted (map (\<lambda>x. (u x, q x)) xs)"
    and "\<And>x y. x \<in> set xs \<Longrightarrow> y \<in> set xs \<Longrightarrow> u x = u y \<Longrightarrow> q x \<le> q y \<Longrightarrow> e x \<le> e y"
  shows "sorted (map e (filter (\<lambda>x. u x = s) xs))"
  using assms
proof (induction xs)
  case (Cons x xs)
  have "e x \<le> e y" if "u x = s" "y \<in> set xs" "u y = s" for y
    using Cons.prems(1) Cons.prems(2) [of x y] that by (force simp: less_eq_prod_def)
  with Cons show ?case by auto
qed simp

definition epochs_sorted :: "('c, 'v) event list \<Rightarrow> bool" where
  "epochs_sorted evs \<longleftrightarrow> (\<forall>s. sorted (map ev_epoch (filter (\<lambda>ev. ev_subscription ev = s) evs)))"

lemma epochs_sorted_append:
  "epochs_sorted (xs @ ys) \<longleftrightarrow> epochs_sorted xs \<and> epochs_sorted ys \<and>
     (\<forall>x \<in> set xs. \<forall>y \<in> set ys. ev_subscription x = ev_subscription y \<longrightarrow> ev_epoch x \<le> ev_epoch y)"
  by (auto simp: epochs_sorted_def sorted_append)

lemma epochs_sorted_snoc:
  "epochs_sorted (xs @ [ev]) \<longleftrightarrow> epochs_sorted xs \<and>
     (\<forall>x \<in> set xs. ev_subscription x = ev_subscription ev \<longrightarrow> ev_epoch x \<le> ev_epoch ev)"
  by (auto simp: epochs_sorted_append) (auto simp: epochs_sorted_def)

lemma epochs_sorted_prefix: "epochs_sorted (xs @ ys) \<Longrightarrow> epochs_sorted xs"
  by (simp add: epochs_sorted_append)

lemma epochs_sorted_suffix: "epochs_sorted (xs @ ys) \<Longrightarrow> epochs_sorted ys"
  by (simp add: epochs_sorted_append)

lemma epochs_sorted_takeWhile: "epochs_sorted (map snd rs) \<Longrightarrow> epochs_sorted (map snd (takeWhile P rs))"
  by (metis epochs_sorted_prefix map_append takeWhile_dropWhile_id)

lemma epochs_sorted_dropWhile: "epochs_sorted (map snd rs) \<Longrightarrow> epochs_sorted (map snd (dropWhile P rs))"
  by (metis epochs_sorted_suffix map_append takeWhile_dropWhile_id)

lemma epochs_sorted_filter:
  assumes "epochs_sorted xs" shows "epochs_sorted (filter P xs)"
  unfolding epochs_sorted_def
proof
  fix s
  have "filter (\<lambda>ev. ev_subscription ev = s) (filter P xs) =
      filter P (filter (\<lambda>ev. ev_subscription ev = s) xs)"
    by (simp add: conj_commute)
  then show "sorted (map ev_epoch (filter (\<lambda>ev. ev_subscription ev = s) (filter P xs)))"
    using assms by (simp only: epochs_sorted_def sorted_filter)
qed

lemma epoch_ok_ready: "epoch_ok hw st \<Longrightarrow> epochs_sorted (map snd (co_ready st))"
  by (simp add: epoch_ok_def epochs_sorted_def filter_map comp_def)

lemma epoch_ok_readyI:
  "epochs_sorted (map snd (co_ready st)) \<Longrightarrow>
    sorted (map (\<lambda>r. ev_epoch (snd r)) (filter (\<lambda>r. ev_subscription (snd r) = s) (co_ready st)))"
  by (simp add: epochs_sorted_def filter_map comp_def)

text \<open>A batch taken from the buffer in (subscription, sequence) order.\<close>

lemma slot_in: "k \<in> fst ` set (co_buffer st) \<Longrightarrow> (k, slot st k) \<in> set (co_buffer st)"
  unfolding slot_def by (metis map_of_SomeD map_of_eq_None_iff option.collapse)

lemma slots_epochs_sorted:
  assumes "filed_ok st" and "epoch_ok hw st" and "set ks \<subseteq> fst ` set (co_buffer st)"
    and "sorted (map (\<lambda>k. (fst k, bf_seq (slot st k))) ks)"
  shows "epochs_sorted (map (\<lambda>k. bf_event (slot st k)) ks)"
proof -
  have sub: "ev_subscription (bf_event (slot st k)) = fst k" if "k \<in> set ks" for k
    using assms(3) that slot_in [of k st] filed_sub [OF assms(1)] by blast
  have "sorted (map (\<lambda>k. ev_epoch (bf_event (slot st k))) (filter (\<lambda>k. fst k = s) ks))" for s
    using assms(4)
  proof (rule sorted_filter_sorted_key)
    fix k k' assume "k \<in> set ks" "k' \<in> set ks" "fst k = fst k'" "bf_seq (slot st k) \<le> bf_seq (slot st k')"
    then show "ev_epoch (bf_event (slot st k)) \<le> ev_epoch (bf_event (slot st k'))"
      using epoch_ok_slots [OF assms(2), of "(k, slot st k)" "(k', slot st k')"] assms(3)
        slot_in [of k st] slot_in [of k' st] by auto
  qed
  moreover have "filter (\<lambda>k. ev_subscription (bf_event (slot st k)) = s) ks =
      filter (\<lambda>k. fst k = s) ks" for s
    using sub by (intro filter_cong) auto
  ultimately show ?thesis by (simp add: epochs_sorted_def filter_map comp_def)
qed

lemma batch_epochs_sorted:
  assumes "filed_ok st" and "epoch_ok hw st" and "set ks \<subseteq> fst ` set (co_buffer st)"
    and "sorted (map (\<lambda>k. (fst k, bf_seq (slot st k))) ks)"
    and "set rs \<subseteq> set (co_ready st)" and "epochs_sorted (map snd rs)"
  shows "epochs_sorted (map snd rs @ map (\<lambda>k. bf_event (slot st k)) ks)"
proof -
  have "ev_epoch (snd r) \<le> ev_epoch (bf_event (slot st k))"
    if "r \<in> set rs" "k \<in> set ks" "ev_subscription (snd r) = ev_subscription (bf_event (slot st k))" for r k
  proof -
    have m: "(k, slot st k) \<in> set (co_buffer st)" using assms(3) that(2) slot_in by blast
    then have "fst k = ev_subscription (snd r)"
      using filed_sub [OF assms(1)] that(3) by metis
    then show ?thesis
      using epoch_ok_ready_slot [OF assms(2), of r "(k, slot st k)"] assms(5) that(1) m by auto
  qed
  with slots_epochs_sorted [OF assms(1-4)] assms(6) show ?thesis
    by (auto simp: epochs_sorted_append)
qed

lemma due_keys_sorted: "sorted (map (\<lambda>k. (fst k, bf_seq (slot st k))) (due_keys now st))"
proof -
  have "(fst (snd (snd x)), bf_seq (slot st (snd (snd x)))) = (fst x, fst (snd x))"
    if "x \<in> set (due_order now st)" for x
    using that by (auto simp: due_order_def)
  then have "map (\<lambda>k. (fst k, bf_seq (slot st k))) (due_keys now st) =
      map (\<lambda>(sub, seq, _). (sub, seq)) (due_order now st)"
    unfolding due_keys_def map_map comp_def case_prod_unfold by (intro map_cong refl) simp
  then show ?thesis by (simp add: due_order_def)
qed

lemma flushed_keys_sorted:
  assumes "index_ok st"
  shows "sorted (map (\<lambda>k. (fst k, bf_seq (slot st k))) (flushed_keys sub st))"
proof -
  let ?es = "sort_key fst (subscription_entries st sub)"
  have "(fst (snd x), bf_seq (slot st (snd x))) = (sub, fst x)" if "x \<in> set ?es" for x
    using that slot_eq [OF assms] by (auto simp: subscription_entries_filter [OF assms])
  then have "map (\<lambda>k. (fst k, bf_seq (slot st k))) (flushed_keys sub st) = map (\<lambda>x. (sub, fst x)) ?es"
    unfolding flushed_keys_def map_map by (intro map_cong) auto
  moreover have "sorted (map fst ?es)" by simp
  ultimately show ?thesis by (auto simp: sorted_wrt_map less_eq_prod_def)
qed

lemma epoch_okI:
  assumes "epochs_sorted (map snd (co_ready st))"
    and "\<And>r e. r \<in> set (co_ready st) \<Longrightarrow> e \<in> set (co_buffer st) \<Longrightarrow>
      fst (fst e) = ev_subscription (snd r) \<Longrightarrow> ev_epoch (snd r) \<le> ev_epoch (bf_event (snd e))"
    and "\<And>e e'. e \<in> set (co_buffer st) \<Longrightarrow> e' \<in> set (co_buffer st) \<Longrightarrow>
      fst (fst e) = fst (fst e') \<Longrightarrow> bf_seq (snd e) \<le> bf_seq (snd e') \<Longrightarrow>
      ev_epoch (bf_event (snd e)) \<le> ev_epoch (bf_event (snd e'))"
    and "\<And>r. r \<in> set (co_ready st) \<Longrightarrow> ev_epoch (snd r) \<le> hw (ev_subscription (snd r))"
    and "\<And>e. e \<in> set (co_buffer st) \<Longrightarrow> ev_epoch (bf_event (snd e)) \<le> hw (fst (fst e))"
    and "\<And>e. e \<in> set (co_buffer st) \<Longrightarrow> effective_policy st (fst (fst e)) \<noteq> None"
  shows "epoch_ok hw st"
  unfolding epoch_ok_def using assms epoch_ok_readyI [OF assms(1)] by blast

lemma epoch_ok_shrink:
  assumes "epoch_ok hw st" and "epochs_sorted (map snd (co_ready st'))"
    and "set (co_ready st') \<subseteq> set (co_ready st)" and "set (co_buffer st') \<subseteq> set (co_buffer st)"
    and "co_policies st' = co_policies st" and "co_default st' = co_default st"
  shows "epoch_ok hw st'"
proof (rule epoch_okI [OF assms(2)])
  fix r e e'
  note pol = effective_policy_cong [OF assms(5,6)]
  assume e: "e \<in> set (co_buffer st')"
  then have e1: "e \<in> set (co_buffer st)" using assms(4) by blast
  note epoch_ok_bounds(2,3) [OF assms(1) e1] pol
  then show "ev_epoch (bf_event (snd e)) \<le> hw (fst (fst e))"
      "effective_policy st' (fst (fst e)) \<noteq> None" by simp_all
  show "ev_epoch (snd r) \<le> ev_epoch (bf_event (snd e))"
    if "r \<in> set (co_ready st')" "fst (fst e) = ev_subscription (snd r)"
    using epoch_ok_ready_slot [OF assms(1) _ e1, of r] that assms(3) by blast
  show "ev_epoch (bf_event (snd e)) \<le> ev_epoch (bf_event (snd e'))"
    if "e' \<in> set (co_buffer st')" "fst (fst e) = fst (fst e')" "bf_seq (snd e) \<le> bf_seq (snd e')"
    using epoch_ok_slots [OF assms(1) e1, of e'] that assms(4) by blast
next
  fix r assume "r \<in> set (co_ready st')"
  then show "ev_epoch (snd r) \<le> hw (ev_subscription (snd r))"
    using epoch_ok_bounds(1) [OF assms(1), of r] assms(3) by blast
qed

lemma epoch_ok_raise: "epoch_ok hw st \<Longrightarrow> hw s \<le> e \<Longrightarrow> epoch_ok (hw(s := e)) st"
  unfolding epoch_ok_def by (auto intro: order_trans)

lemma epoch_ok_push:
  assumes "epoch_ok hw st" and "epochs_sorted (map snd (co_ready st) @ evs)"
    and "\<And>e ev. e \<in> set (co_buffer st) \<Longrightarrow> ev \<in> set evs \<Longrightarrow> fst (fst e) \<noteq> ev_subscription ev"
    and "\<And>ev. ev \<in> set evs \<Longrightarrow> ev_epoch ev \<le> hw (ev_subscription ev)"
  shows "epoch_ok hw (st\<lparr>co_ready := co_ready st @ map (Pair now) evs\<rparr>)"
proof (rule epoch_okI)
  show "epochs_sorted (map snd (co_ready (st\<lparr>co_ready := co_ready st @ map (Pair now) evs\<rparr>)))"
    using assms(2) by (simp add: comp_def)
next
  fix r e assume "r \<in> set (co_ready (st\<lparr>co_ready := co_ready st @ map (Pair now) evs\<rparr>))"
    "e \<in> set (co_buffer (st\<lparr>co_ready := co_ready st @ map (Pair now) evs\<rparr>))"
    "fst (fst e) = ev_subscription (snd r)"
  then show "ev_epoch (snd r) \<le> ev_epoch (bf_event (snd e))"
    using epoch_ok_ready_slot [OF assms(1), of r e] assms(3) [of e "snd r"] by auto
next
  fix r assume "r \<in> set (co_ready (st\<lparr>co_ready := co_ready st @ map (Pair now) evs\<rparr>))"
  then show "ev_epoch (snd r) \<le> hw (ev_subscription (snd r))"
    using epoch_ok_bounds(1) [OF assms(1), of r] assms(4) [of "snd r"] by auto
next
  fix e assume "e \<in> set (co_buffer (st\<lparr>co_ready := co_ready st @ map (Pair now) evs\<rparr>))"
  then have e: "e \<in> set (co_buffer st)" by simp
  show "ev_epoch (bf_event (snd e)) \<le> hw (fst (fst e))"
      "effective_policy (st\<lparr>co_ready := co_ready st @ map (Pair now) evs\<rparr>) (fst (fst e)) \<noteq> None"
    using epoch_ok_bounds(2,3) [OF assms(1) e]
      effective_policy_cong [of "st\<lparr>co_ready := co_ready st @ map (Pair now) evs\<rparr>" st]
    by simp_all
next
  fix e e' assume "e \<in> set (co_buffer (st\<lparr>co_ready := co_ready st @ map (Pair now) evs\<rparr>))"
    "e' \<in> set (co_buffer (st\<lparr>co_ready := co_ready st @ map (Pair now) evs\<rparr>))"
    "fst (fst e) = fst (fst e')" "bf_seq (snd e) \<le> bf_seq (snd e')"
  then show "ev_epoch (bf_event (snd e)) \<le> ev_epoch (bf_event (snd e'))"
    using epoch_ok_slots [OF assms(1), of e e'] by simp
qed

lemma epoch_ok_put:
  assumes "epoch_ok hw st" and "btm_ok (co_buffer st)" and "hw (fst key) \<le> ev_epoch (bf_event b)"
    and "bf_seq b = co_next_seq st" and "co_seq n st" and "effective_policy st (fst key) \<noteq> None"
  shows "epoch_ok (hw(fst key := ev_epoch (bf_event b)))
    (put_slot key b (st\<lparr>co_next_seq := co_next_seq st + 1\<rparr>))"
proof -
  let ?st = "put_slot key b (st\<lparr>co_next_seq := co_next_seq st + 1\<rparr>)"
  have buf: "set (co_buffer ?st) = insert (key, b) {e \<in> set (co_buffer st). fst e \<noteq> key}"
    using assms(2) by (simp add: put_slot_def set_btm_insert)
  have rdy: "co_ready ?st = co_ready st" by (simp add: put_slot_def)
  have pol: "effective_policy ?st s = effective_policy st s" for s
    by (rule effective_policy_cong) (simp_all add: put_slot_def)
  have low: "ev_epoch (bf_event (snd e)) \<le> ev_epoch (bf_event b)"
    if "e \<in> set (co_buffer st)" "fst (fst e) = fst key" for e
    using epoch_ok_bounds(2) [OF assms(1) that(1)] assms(3) that(2) by simp
  have old: "\<not> bf_seq b \<le> bf_seq (snd e)" if "e \<in> set (co_buffer st)" for e
    using assms(4,5) that by (auto simp: co_seq_def)
  show ?thesis
  proof (rule epoch_okI)
    show "epochs_sorted (map snd (co_ready ?st))"
      unfolding rdy by (rule epoch_ok_ready [OF assms(1)])
  next
    fix r e assume "r \<in> set (co_ready ?st)" "e \<in> set (co_buffer ?st)"
      "fst (fst e) = ev_subscription (snd r)"
    then show "ev_epoch (snd r) \<le> ev_epoch (bf_event (snd e))"
      using epoch_ok_ready_slot [OF assms(1), of r e] epoch_ok_bounds(1) [OF assms(1), of r] assms(3)
      unfolding buf rdy by auto
  next
    fix e e' assume "e \<in> set (co_buffer ?st)" "e' \<in> set (co_buffer ?st)"
      "fst (fst e) = fst (fst e')" "bf_seq (snd e) \<le> bf_seq (snd e')"
    then show "ev_epoch (bf_event (snd e)) \<le> ev_epoch (bf_event (snd e'))"
      using epoch_ok_slots [OF assms(1), of e e'] low [of e] old [of e'] unfolding buf by auto
  next
    fix r assume "r \<in> set (co_ready ?st)"
    then show "ev_epoch (snd r) \<le> (hw(fst key := ev_epoch (bf_event b))) (ev_subscription (snd r))"
      using epoch_ok_bounds(1) [OF assms(1), of r] assms(3) unfolding rdy by auto
  next
    fix e assume e: "e \<in> set (co_buffer ?st)"
    show "ev_epoch (bf_event (snd e)) \<le> (hw(fst key := ev_epoch (bf_event b))) (fst (fst e))"
      using e epoch_ok_bounds(2) [OF assms(1), of e] assms(3) unfolding buf by auto
    show "effective_policy ?st (fst (fst e)) \<noteq> None"
      using e epoch_ok_bounds(3) [OF assms(1), of e] assms(6) unfolding buf pol by auto
  qed
qed

lemma sub_gone_buffer: "e \<in> set (co_buffer (sub_gone s st)) \<longleftrightarrow> e \<in> set (co_buffer st) \<and> fst (fst e) \<noteq> s"
  by (auto simp: sub_gone_def buffer_without_sub)

lemma sub_gone_simps [simp]:
  "co_ready (sub_gone s st) = co_ready st"
  "co_policies (sub_gone s st) = co_policies st"
  "co_default (sub_gone s st) = co_default st"
  "co_next_seq (sub_gone s st) = co_next_seq st"
  by (simp_all add: sub_gone_def)

lemma epoch_ok_sub_gone: "epoch_ok hw st \<Longrightarrow> epoch_ok hw (sub_gone s st)"
  by (rule epoch_ok_shrink [of hw st]) (auto simp: sub_gone_buffer epoch_ok_ready)

lemma merged_slot_seq [simp]: "bf_seq (merged_slot clk b ev now cfg q) = q"
  by (simp add: merged_slot_def)

lemma merged_slot_epoch:
  "ev_epoch (bf_event (merged_slot clk b ev now cfg q)) = ev_epoch ev"
  by (simp add: merged_slot_def collapsed_event_def synthetic_def split: collapse.split)

lemma flushed_batch:
  assumes "co_inv st" and "epoch_ok hw st"
  shows "epochs_sorted (map snd (co_ready st) @ flushed_events sub st)"
    and "ev \<in> set (flushed_events sub st) \<Longrightarrow> ev_subscription ev = sub \<and> ev_epoch ev \<le> hw sub"
proof -
  have ok: "index_ok st" "filed_ok st" using assms(1) by (simp_all add: co_inv_def)
  have ks: "set (flushed_keys sub st) = sub_keys sub st" using flushed_keys_props(2) [OF ok(1)] .
  have eq: "flushed_events sub st = map (\<lambda>k. bf_event (slot st k)) (flushed_keys sub st)"
    by (simp add: flushed_events_def slot_def)
  show "epochs_sorted (map snd (co_ready st) @ flushed_events sub st)"
    unfolding eq using ks flushed_keys_sorted [OF ok(1)]
    by (intro batch_epochs_sorted [OF ok(2) assms(2)] epoch_ok_ready [OF assms(2)])
      (auto simp: sub_keys_def)
  assume "ev \<in> set (flushed_events sub st)"
  then obtain k where k: "k \<in> sub_keys sub st" "ev = bf_event (slot st k)" unfolding eq using ks by auto
  then have "(k, slot st k) \<in> set (co_buffer st)" "fst k = sub"
    using slot_in [of k st] by (simp_all add: sub_keys_def)
  then show "ev_subscription ev = sub \<and> ev_epoch ev \<le> hw sub"
    using filed_sub [OF ok(2)] epoch_ok_bounds(2) [OF assms(2), of "(k, slot st k)"] k(2) by auto
qed

lemma epoch_ok_coalesce:
  assumes "co_inv st" and "epoch_ok hw st" and "co_seq n st" and "hw (ev_subscription ev) \<le> ev_epoch ev"
    and "coalesce clk ev now cfg st = Some (r, st')" and "effective_policy st (ev_subscription ev) \<noteq> None"
  shows "epoch_ok (hw(ev_subscription ev := ev_epoch ev)) st'"
proof -
  have ok: "index_ok st" "counts_ok st" "btm_ok (co_buffer st)"
    using assms(1) by (simp_all add: co_inv_def index_ok_def)
  let ?st = "st\<lparr>co_next_seq := co_next_seq st + 1\<rparr>" and ?key = "(ev_subscription ev, ev_key ev)"
  let ?hw = "hw(ev_subscription ev := ev_epoch ev)"
  have put: "epoch_ok ?hw (put_slot ?key b ?st)"
    if "bf_seq b = co_next_seq st" "ev_epoch (bf_event b) = ev_epoch ev" for b
    using epoch_ok_put [OF assms(2) ok(3), of ?key b n] assms that by simp
  have shrink: "epoch_ok ?hw st1" if "co_ready st1 = co_ready st" "set (co_buffer st1) \<subseteq> set (co_buffer st)"
    "co_policies st1 = co_policies st" "co_default st1 = co_default st" for st1
    by (rule epoch_ok_raise [OF epoch_ok_shrink [OF assms(2)] assms(4)])
      (use that epoch_ok_ready [OF assms(2)] in simp_all)
  have gone: "epoch_ok ?hw (keep_out K ?st\<lparr>co_per_sub_len := l\<rparr>)" "epoch_ok ?hw ?st" for K l
    by (rule shrink; auto)+
  show ?thesis
    using assms(5) put gone unfolding coalesce_closed [OF ok(1,2)]
    by (auto simp: fresh_slot_def merged_slot_epoch split: option.splits if_splits)
qed

lemma epoch_ok_admit:
  assumes "co_inv st" and "epoch_ok hw st" and "co_seq n st" and "hw (ev_subscription ev) \<le> ev_epoch ev"
    and "admit clk ev now st = Some (r, st')"
  shows "epoch_ok (hw(ev_subscription ev := ev_epoch ev)) st'"
proof -
  let ?s = "ev_subscription ev" and ?hw = "hw(ev_subscription ev := ev_epoch ev)"
  note raise = epoch_ok_raise [OF assms(2,4)]
  have top: "ev_epoch x \<le> ev_epoch ev" if "x \<in> snd ` set (co_ready st)" "ev_subscription x = ?s" for x
    using that epoch_ok_bounds(1) [OF raise] by force
  consider (signal) "\<not> is_lifecycle (ev_kind ev)"
    | (pass) "is_lifecycle (ev_kind ev)" "effective_policy st ?s = None"
    | (settle) cfg where "is_lifecycle (ev_kind ev)" "effective_policy st ?s = Some cfg"
    by blast
  then show ?thesis
  proof cases
    case signal
    have st': "st' = sub_gone ?s st\<lparr>co_ready := co_ready (sub_gone ?s st) @
        map (Pair now) (flushed_events ?s st @ [ev])\<rparr>"
      using assms(1,5) signal by (simp add: admit_closed)
    have "epoch_ok ?hw st'"
      unfolding st'
    proof (rule epoch_ok_push [OF epoch_ok_sub_gone [OF raise]])
      show "epochs_sorted (map snd (co_ready (sub_gone ?s st)) @ flushed_events ?s st @ [ev])"
        using flushed_batch(1) [OF assms(1,2), of ?s] flushed_batch(2) [OF assms(1) raise, where sub = ?s]
          top epochs_sorted_snoc [of "map snd (co_ready st) @ flushed_events ?s st" ev]
        by auto
    qed (use flushed_batch(2) [OF assms(1) raise, where sub = ?s] in \<open>auto simp: sub_gone_buffer\<close>)
    then show ?thesis .
  next
    case pass
    have st': "st' = st\<lparr>co_ready := co_ready st @ map (Pair now) [ev]\<rparr>"
      using assms(1,5) pass by (simp add: admit_closed)
    show ?thesis
      unfolding st'
    proof (rule epoch_ok_push [OF raise])
      show "epochs_sorted (map snd (co_ready st) @ [ev])"
        using epoch_ok_ready [OF raise] top epochs_sorted_snoc [of "map snd (co_ready st)" ev] by simp
    next
      fix e x assume "e \<in> set (co_buffer st)" "x \<in> set [ev]"
      then show "fst (fst e) \<noteq> ev_subscription x"
        using epoch_ok_bounds(3) [OF assms(2), of e] pass(2) by auto
    qed simp
  next
    case settle
    then show ?thesis
      using epoch_ok_coalesce [OF assms(1-4), of clk now cfg r st'] assms(1,5) by (simp add: admit_closed)
  qed
qed

lemma list_in_image: "set xs \<subseteq> f ` A \<Longrightarrow> \<exists>ks. set ks \<subseteq> A \<and> xs = map f ks"
proof (induction xs)
  case (Cons x xs)
  then obtain ks a where "set ks \<subseteq> A" "xs = map f ks" "a \<in> A" "x = f a" by auto
  then show ?case by (intro exI [of _ "a # ks"]) simp
qed simp

lemma flush_all_sorted:
  assumes "co_inv st" and "epoch_ok hw st"
  shows "epochs_sorted (fst (flush_all st))"
proof -
  have ok: "index_ok st" "filed_ok st" using assms(1) by (simp_all add: co_inv_def)
  let ?g = "\<lambda>k. (fst k, bf_seq (slot st k), bf_event (slot st k))"
  let ?xs = "sort_key (\<lambda>(sub, seq, _). (sub, seq))
    (map (\<lambda>(k, b). (fst k, bf_seq b, bf_event b)) (co_buffer st))"
  have "set ?xs \<subseteq> ?g ` (fst ` set (co_buffer st))"
    using slot_eq [OF ok(1)] by (auto simp: image_iff) (metis fst_conv)
  from list_in_image [OF this] obtain ks where ks: "set ks \<subseteq> fst ` set (co_buffer st)" "?xs = map ?g ks"
    by blast
  have "sorted (map (\<lambda>(sub, seq, _). (sub, seq)) ?xs)" by (rule sorted_sort_key)
  then have "sorted (map (\<lambda>k. (fst k, bf_seq (slot st k))) ks)" unfolding ks(2) by (simp add: comp_def)
  from batch_epochs_sorted [OF ok(2) assms(2) ks(1) this subset_refl epoch_ok_ready [OF assms(2)]]
  show ?thesis unfolding flush_all_def ks(2) by (simp add: comp_def)
qed

lemma drain_sorted:
  assumes "co_inv st" and "epoch_ok hw st" and "drain_ready now st = Some (out, st')"
  shows "epochs_sorted out" and "epoch_ok hw st'"
proof -
  have ok: "index_ok st" "counts_ok st" "filed_ok st" using assms(1) by (simp_all add: co_inv_def)
  note eq = assms(3) [unfolded drain_ready_closed [OF ok(1,2)], simplified]
  have ks: "set (due_keys now st) \<subseteq> fst ` set (co_buffer st)"
    using due_keys_props(2) [OF ok(1), of now] by (force simp: image_iff)
  show "epochs_sorted out"
    unfolding conjunct1 [OF eq, symmetric]
    by (intro batch_epochs_sorted [OF ok(3) assms(2) ks due_keys_sorted]
        epochs_sorted_takeWhile epoch_ok_ready [OF assms(2)]) (auto dest: set_takeWhileD)
  show "epoch_ok hw st'"
    unfolding conjunct2 [OF eq, symmetric]
    by (rule epoch_ok_shrink [OF assms(2)])
      (auto simp: epochs_sorted_dropWhile epoch_ok_ready [OF assms(2)] dest: set_dropWhileD)
qed

fun op_admits :: "('c, 'v) co_op \<Rightarrow> ('c, 'v) event list" where
  "op_admits (OpAdmit ev _) = [ev]"
| "op_admits _ = []"

fun keeps_policy :: "('c, 'v) co_op \<Rightarrow> bool" where
  "keeps_policy (OpPolicy _ _) = False"
| "keeps_policy (OpForget _) = False"
| "keeps_policy _ = True"

definition hw_after :: "('c, 'v) co_op \<Rightarrow> (subscription \<Rightarrow> epoch) \<Rightarrow> subscription \<Rightarrow> epoch" where
  "hw_after x hw = (case x of OpAdmit ev _ \<Rightarrow> hw(ev_subscription ev := ev_epoch ev) | _ \<Rightarrow> hw)"

lemma epoch_ok_step:
  assumes "co_inv st" and "epoch_ok hw st" and "co_seq n st" and "keeps_policy x"
    and "\<And>ev. ev \<in> set (op_admits x) \<Longrightarrow> hw (ev_subscription ev) \<le> ev_epoch ev"
    and "co_step clk x st = Some (out, st')"
  shows "epochs_sorted out \<and> epoch_ok (hw_after x hw) st'"
proof (cases x)
  case (OpAdmit ev now)
  with assms(6) obtain r where "admit clk ev now st = Some (r, st')" "out = []" by auto
  with OpAdmit epoch_ok_admit [OF assms(1-3), of ev clk now r st'] assms(5) show ?thesis
    by (simp add: hw_after_def epochs_sorted_def)
next
  case (OpDrain now)
  with drain_sorted [OF assms(1,2)] assms(6) show ?thesis by (simp add: hw_after_def)
next
  case (OpFlushSub s now)
  have st': "st' = sub_gone s st\<lparr>co_ready := co_ready (sub_gone s st) @ map (Pair now) (flushed_events s st)\<rparr>"
    "out = []"
    using OpFlushSub assms(1,6) by (auto simp: flush_subscription_eq sub_gone_def)
  have "epoch_ok hw st'"
    unfolding st'
  proof (rule epoch_ok_push [OF epoch_ok_sub_gone [OF assms(2)]])
    show "epochs_sorted (map snd (co_ready (sub_gone s st)) @ flushed_events s st)"
      using flushed_batch(1) [OF assms(1,2), of s] by (simp add: sub_gone_def)
  qed (use flushed_batch(2) [OF assms(1,2), where sub = s] in \<open>auto simp: sub_gone_buffer\<close>)
  then show ?thesis using OpFlushSub st'(2) by (simp add: hw_after_def epochs_sorted_def)
next
  case OpFlushAll
  have "epoch_ok hw (snd (flush_all st))"
    by (rule epoch_ok_shrink [OF assms(2)]) (simp_all add: flush_all_def epochs_sorted_def)
  with OpFlushAll flush_all_sorted [OF assms(1,2)] assms(6) show ?thesis
    by (simp add: hw_after_def)
next
  case (OpDrop s)
  have "epoch_ok hw (drop_subscription s st)"
    using epochs_sorted_filter [OF epoch_ok_ready [OF assms(2)], of "\<lambda>ev. ev_subscription ev \<noteq> s"]
    by (intro epoch_ok_shrink [OF assms(2)])
      (auto simp: drop_subscription_eq [OF assms(1)] sub_gone_def filter_map comp_def case_prod_unfold)
  with OpDrop assms(6) show ?thesis by (auto simp: hw_after_def epochs_sorted_def)
qed (use assms(4) in simp_all)

lemma run_epochs_sorted:
  assumes "co_inv st" and "epoch_ok hw st" and "co_seq n st" and "n + length ops < 2 ^ 64"
    and "\<And>x. x \<in> set ops \<Longrightarrow> keeps_policy x"
    and "epochs_sorted (concat (map op_admits ops))"
    and "\<And>ev. ev \<in> set (concat (map op_admits ops)) \<Longrightarrow> hw (ev_subscription ev) \<le> ev_epoch ev"
    and "co_run clk ops st = Some (outs, st')" and "out \<in> set outs"
  shows "epochs_sorted out"
  using assms
proof (induction ops arbitrary: st hw n outs)
  case (Cons x xs)
  obtain o1 st1 os where s: "co_step clk x st = Some (o1, st1)"
    and r: "co_run clk xs st1 = Some (os, st')" and outs: "outs = o1 # os"
    using Cons.prems(8) by (auto split: option.splits)
  have inv: "co_inv st1" using co_inv_step [OF Cons.prems(1), of clk x] s by auto
  have sq: "co_seq (Suc n) st1" by (rule co_seq_step [OF Cons.prems(1,3) _ s]) (use Cons.prems(4) in simp)
  have st: "epochs_sorted o1 \<and> epoch_ok (hw_after x hw) st1"
    by (rule epoch_ok_step [OF Cons.prems(1-3) _ _ s]) (use Cons.prems(5,7) in auto)
  have up: "hw_after x hw (ev_subscription ev) \<le> ev_epoch ev"
    if "ev \<in> set (concat (map op_admits xs))" for ev
  proof (cases x)
    case (OpAdmit e now)
    then have "\<forall>y \<in> set (concat (map op_admits xs)).
        ev_subscription e = ev_subscription y \<longrightarrow> ev_epoch e \<le> ev_epoch y"
      using Cons.prems(6) epochs_sorted_append [of "[e]" "concat (map op_admits xs)"] by simp
    then show ?thesis using OpAdmit that Cons.prems(7) [of ev] by (auto simp: hw_after_def)
  qed (use that Cons.prems(7) [of ev] in \<open>auto simp: hw_after_def\<close>)
  have "epochs_sorted (concat (map op_admits xs))"
    using Cons.prems(6) by (simp add: epochs_sorted_append)
  with Cons.IH [OF inv conjunct2 [OF st] sq _ _ _ up r] Cons.prems(4,5)
  have "epochs_sorted out" if "out \<in> set os" using that by simp
  then show ?case using Cons.prems(9) outs st by auto
qed simp

end
