(* ===== verification/Coalescer_Settle.thy ===== *)
theory Coalescer_Settle
  imports Coalescer_Correct
begin

text \<open>
  The coalescer's properties, over histories of its operations (\<open>co_run\<close>): no panic and the invariant,
  epoch order of one batch (and the two-batch history where it fails), draining, the net effect of a
  burst, the bounded hold, the caps, and the flush before a signal.
\<close>

section \<open>Histories\<close>

definition ex_cfg :: debounce_config where
  "ex_cfg = \<lparr>quiet_window = 10, max_hold = 12, max_buffered = 4\<rparr>"

definition ex_clock :: clock where
  "ex_clock = \<lparr>clk_max = 1000, clk_far = 900\<rparr>"

definition ex_ev :: "nat list \<Rightarrow> nat event_kind \<Rightarrow> epoch \<Rightarrow> (nat, nat) event" where
  "ex_ev key kind e = synthetic (Subscription 1 1) key [] kind e"

text \<open>
  Property C23. Safety. From a new coalescer, any history of fewer than \<open>2\<^sup>64\<close> operations (policy
  registration, admission, drain, flush of one subscription or of all, drop, forget, at any instants) runs to its end: none of the
  \<open>expect\<close>s on the lockstep of buffer and deadline index fails. The state reached has an exact index,
  exact counts and slots filed under their own key, and its admission sequence numbers are distinct
  and below the counter.
\<close>

theorem coalescer_never_panics:
  "length ops < 2 ^ 64 \<Longrightarrow>
     \<exists>outs st. co_run clk ops (coalescer_new d) = Some (outs, st) \<and> co_inv st \<and> co_seq (length ops) st"
  using co_run_inv [OF co_inv_idle [of d Map.empty], of ops clk]
  by (simp add: coalescer_idle_def coalescer_new_def)

theorem coalescer_never_panics_witness:
  "\<exists>outs st. co_run ex_clock [OpAdmit (ex_ev [1] ECreated 1) 0, OpFlushSub (Subscription 1 1) 5, OpDrain 10]
     (coalescer_new (Some ex_cfg)) = Some (outs, st) \<and> co_inv st \<and> co_seq (Suc (Suc (Suc 0))) st"
  using coalescer_never_panics [of "[OpAdmit (ex_ev [1] ECreated 1) 0, OpFlushSub (Subscription 1 1) 5, OpDrain 10]"
      ex_clock "Some ex_cfg"]
  by (simp del: co_run.simps)

section \<open>Emission order\<close>

text \<open>
  Invariant. Fix every subscription's policy and admit events whose epochs never decrease
  within a subscription, interleaved with drains, drops and flushes at any instants. Then every single
  batch handed out (a drain or a flush) carries, within each subscription, ascending epochs: entries
  leave in admission order, signals after what they flushed, queued events before settled ones.
\<close>

theorem batch_epochs_ascend:
  assumes "length ops < 2 ^ 64" and "list_all keeps_policy ops"
    and "epochs_sorted (concat (map op_admits ops))"
    and "co_run clk ops (coalescer_idle d p) = Some (outs, st)" and "out \<in> set outs"
  shows "sorted (map ev_epoch (filter (\<lambda>ev. ev_subscription ev = s) out))"
proof -
  have "epoch_ok (\<lambda>_. 0) (coalescer_idle d p)"
    by (simp add: epoch_ok_def coalescer_idle_def coalescer_new_def)
  from run_epochs_sorted [OF co_inv_idle(1) this co_inv_idle(2) _ _ assms(3) _ assms(4,5)] assms(1,2)
  have "epochs_sorted out" by (simp add: list_all_iff)
  then show ?thesis by (simp add: epochs_sorted_def)
qed

definition ex_backwards :: "(nat, nat) co_op list" where
  "ex_backwards =
     [OpAdmit (ex_ev [2] EModified 1) 0, OpAdmit (ex_ev [1] EModified 1) 5,
      OpAdmit (ex_ev [2] EModified 2) 9, OpDrain 12, OpDrain 15]"

lemmas co_exec = coalescer_idle_def coalescer_new_def admit_def event_is_rescan_def event_move_from_def
  effective_policy_def is_lifecycle_def coalesce_def bump_seq_def Let_def structural_cap_def
  deadline_def instant_checked_add_def refile_def collapsed_event_def drain_ready_def take_entry_def
  dec_per_sub_def btm_remove_def bts_remove_def ex_ev_def ex_cfg_def ex_clock_def synthetic_def

lemma ex_backwards_runs:
  "\<exists>st. co_run ex_clock ex_backwards (coalescer_idle (Some ex_cfg) Map.empty) =
     Some ([[], [], [], [ex_ev [2] EModified 2], [ex_ev [1] EModified 1]], st)"
  by (simp add: ex_backwards_def co_exec min_def less_prod_def')

lemma ex_backwards_ok:
  "length ex_backwards < 2 ^ 64" "list_all keeps_policy ex_backwards"
  "epochs_sorted (concat (map op_admits ex_backwards))"
  by (simp_all add: ex_backwards_def epochs_sorted_def ex_ev_def synthetic_def)

theorem batch_epochs_ascend_witness:
  "sorted (map ev_epoch (filter (\<lambda>ev. ev_subscription ev = Subscription 1 1) [ex_ev [2] EModified 2]))"
proof -
  obtain st where "co_run ex_clock ex_backwards (coalescer_idle (Some ex_cfg) Map.empty) =
      Some ([[], [], [], [ex_ev [2] EModified 2], [ex_ev [1] EModified 1]], st)"
    using ex_backwards_runs by blast
  from batch_epochs_ascend [OF ex_backwards_ok this, of "[ex_ev [2] EModified 2]"] show ?thesis by simp
qed

text \<open>
  Property C29. Error. The order holds within a batch and not across batches, although the module
  documentation says that a consumer never sees a subscription's epochs go backwards. Key \<open>[2]\<close> is
  first touched at 0 and again, with epoch 2, at 9; key \<open>[1]\<close> is touched once, with epoch 1, at 5. The
  hold cap makes \<open>[2]\<close> due at 12, the quiet window makes \<open>[1]\<close> due at 15: the drain at 12 delivers epoch
  2 and the drain at 15 delivers epoch 1. All epochs were admitted in ascending order.
\<close>

theorem epochs_can_go_backwards_across_drains:
  "epochs_sorted (concat (map op_admits ex_backwards)) \<and>
   (\<exists>st. co_run ex_clock ex_backwards (coalescer_idle (Some ex_cfg) Map.empty) =
      Some ([[], [], [], [ex_ev [2] EModified 2], [ex_ev [1] EModified 1]], st)) \<and>
   \<not> epochs_sorted (concat [[], [], [], [ex_ev [2] EModified 2], [ex_ev [1] EModified 1]])"
  using ex_backwards_ok(3) ex_backwards_runs
  by (auto simp: epochs_sorted_def ex_ev_def synthetic_def word_le_nat_alt)

section \<open>Draining\<close>

lemma mset_slots_split:
  "mset (map f (filter P xs)) + mset (map f (filter (\<lambda>x. \<not> P x) xs)) = mset (map f xs)"
  by (induction xs) auto

lemma mset_slots_of_keys:
  assumes "index_ok st" and "distinct ks" and "set ks \<subseteq> fst ` set (co_buffer st)"
  shows "mset (map (slot st) ks) = mset (map snd (filter (\<lambda>e. fst e \<in> set ks) (co_buffer st)))"
proof -
  have "distinct (map fst (co_buffer st))" using assms(1) btm_ok_distinct by (auto simp: index_ok_def)
  then have "distinct (map fst (filter (\<lambda>e. fst e \<in> set ks) (co_buffer st)))"
    by (rule distinct_map_filter)
  moreover have "set (map fst (filter (\<lambda>e. fst e \<in> set ks) (co_buffer st))) = set ks"
  proof -
    have "fst ` {e \<in> set (co_buffer st). fst e \<in> set ks} = fst ` set (co_buffer st) \<inter> set ks" by blast
    with assms(3) show ?thesis by (simp add: Int_absorb1)
  qed
  ultimately have m: "mset ks = mset (map fst (filter (\<lambda>e. fst e \<in> set ks) (co_buffer st)))"
    using set_eq_iff_mset_eq_distinct [OF assms(2)] by blast
  have "mset (map (slot st) ks) = image_mset (slot st) (mset ks)" by simp
  also have "\<dots> = mset (map (\<lambda>e. slot st (fst e)) (filter (\<lambda>e. fst e \<in> set ks) (co_buffer st)))"
    unfolding m by (simp add: image_mset.compositionality comp_def)
  also have "map (\<lambda>e. slot st (fst e)) (filter (\<lambda>e. fst e \<in> set ks) (co_buffer st)) =
      map snd (filter (\<lambda>e. fst e \<in> set ks) (co_buffer st))"
    using slot_eq [OF assms(1)] by (intro map_cong) auto
  finally show ?thesis .
qed

lemma next_deadline_gt:
  "\<forall>d \<in> set (co_deadlines st). now < fst d \<Longrightarrow>
   (\<And>r rs. co_ready st = r # rs \<Longrightarrow> now < fst r) \<Longrightarrow> next_deadline st = Some t \<Longrightarrow> now < t"
  by (cases "co_deadlines st"; cases "co_ready st") (auto simp: next_deadline_def)

definition held :: "('c, 'v) coalescer \<Rightarrow> ('c, 'v) event multiset" where
  "held st = mset (map snd (co_ready st)) + mset (map (\<lambda>e. bf_event (snd e)) (co_buffer st))"

lemma drain_ready_account:
  assumes "co_inv st"
  shows "\<exists>out st'. drain_ready now st = Some (out, st') \<and> held st = mset out + held st' \<and>
    co_buffer st' = filter (\<lambda>e. now < bf_emit_at (snd e)) (co_buffer st) \<and>
    (\<forall>t. next_deadline st' = Some t \<longrightarrow> now < t)"
proof -
  have ok: "index_ok st" "counts_ok st" using assms by (simp_all add: co_inv_def)
  let ?K = "set (due_keys now st)"
  let ?out = "map snd (takeWhile (\<lambda>(at, _). at \<le> now) (co_ready st)) @
       map (\<lambda>k. bf_event (slot st k)) (due_keys now st)"
  let ?st = "keep_out ?K st\<lparr>co_ready := dropWhile (\<lambda>(at, _). at \<le> now) (co_ready st),
        co_per_sub_len := counts_of (co_buffer (keep_out ?K st))\<rparr>"
  note dk = due_keys_props [OF ok(1), of now]
  have sub: "?K \<subseteq> fst ` set (co_buffer st)" unfolding dk(2) by force
  have "image_mset bf_event (mset (map (slot st) (due_keys now st))) =
      mset (map (\<lambda>e. bf_event (snd e)) (filter (\<lambda>e. fst e \<in> ?K) (co_buffer st)))"
    unfolding mset_slots_of_keys [OF ok(1) dk(1) sub] by (simp add: image_mset.compositionality comp_def)
  then have ev: "mset (map (\<lambda>k. bf_event (slot st k)) (due_keys now st)) =
      mset (map (\<lambda>e. bf_event (snd e)) (filter (\<lambda>e. fst e \<in> ?K) (co_buffer st)))"
    by (simp add: image_mset.compositionality comp_def)
  have rdy: "mset (map snd (takeWhile P rs)) + mset (map snd (dropWhile P rs)) = mset (map snd rs)" for P rs
    by (metis map_append mset_append takeWhile_dropWhile_id)
  have flds: "co_ready ?st = dropWhile (\<lambda>(at, _). at \<le> now) (co_ready st)"
      "co_buffer ?st = filter (\<lambda>e. fst e \<notin> ?K) (co_buffer st)"
    by simp_all
  have h: "held st = mset ?out + held ?st"
    unfolding held_def flds rdy [of "\<lambda>(at, _). at \<le> now" "co_ready st", symmetric]
      mset_slots_split [of "\<lambda>e. bf_event (snd e)" "\<lambda>e. fst e \<in> ?K" "co_buffer st", symmetric]
      mset_append ev
    by (simp only: ac_simps)
  have mem: "fst e \<in> ?K \<longleftrightarrow> bf_emit_at (snd e) \<le> now" if "e \<in> set (co_buffer st)" for e
  proof -
    have "\<And>b. (fst e, b) \<in> set (co_buffer st) \<Longrightarrow> b = snd e"
      using slot_eq [OF ok(1), of "fst e"] that by (metis prod.collapse)
    moreover have "(fst e, snd e) \<in> set (co_buffer st)" using that by simp
    ultimately show ?thesis unfolding dk(2) mem_Collect_eq by blast
  qed
  have b: "co_buffer ?st = filter (\<lambda>e. now < bf_emit_at (snd e)) (co_buffer st)"
  proof -
    have "filter (\<lambda>e. fst e \<notin> ?K) (co_buffer st) = filter (\<lambda>e. now < bf_emit_at (snd e)) (co_buffer st)"
      by (rule filter_cong [OF refl]) (simp add: mem not_le)
    then show ?thesis by simp
  qed
  have late: "now < fst d" if "d \<in> set (co_deadlines ?st)" for d
  proof -
    have d: "d \<in> set (co_deadlines st)" "snd d \<notin> ?K" using that by simp_all
    then obtain e where "(snd d, e) \<in> set (co_buffer st)" "fst d = bf_emit_at e"
      using index_mem [OF ok(1), of d] by blast
    then show ?thesis using mem [of "(snd d, e)"] d(2) by simp
  qed
  have "now < fst r" if "dropWhile (\<lambda>(at, _). at \<le> now) (co_ready st) = r # rs" for r rs
    using that by (simp add: dropWhile_eq_Cons_conv case_prod_unfold not_le)
  then have n: "now < t" if "next_deadline ?st = Some t" for t
    using next_deadline_gt [OF ballI [OF late] _ that] by simp
  show ?thesis using drain_ready_closed [OF ok, of now] h b n by blast
qed

text \<open>
  Property C21. Functional. A drain at \<open>now\<close> always succeeds, hands out exactly what leaves the
  coalescer (nothing lost, nothing duplicated), and leaves nothing due: the next deadline, when there
  is one, is after \<open>now\<close>, so the driver's sleep makes progress, and every slot due by \<open>now\<close> is gone.
\<close>

theorem drain_ready_conserves:
  assumes "co_inv st"
  shows "\<exists>out st'. drain_ready now st = Some (out, st') \<and> held st = mset out + held st' \<and>
    co_buffer st' = filter (\<lambda>e. now < bf_emit_at (snd e)) (co_buffer st) \<and>
    (\<forall>t. next_deadline st' = Some t \<longrightarrow> now < t)"
  using assms by (rule drain_ready_account)

lemma ex_held_inv: "co_inv (put_slot (Subscription 1 1, [1]) (fresh_slot ex_clock (ex_ev [1] ECreated 1) 0 ex_cfg 0)
     (coalescer_idle (Some ex_cfg) Map.empty))"
  by (rule co_inv_put_slot [OF co_inv_idle(1)])
    (simp_all add: fresh_slot_def ex_ev_def synthetic_def is_lifecycle_def)

theorem drain_ready_conserves_witness:
  "\<exists>out st'. drain_ready 10 (put_slot (Subscription 1 1, [1])
       (fresh_slot ex_clock (ex_ev [1] ECreated 1) 0 ex_cfg 0) (coalescer_idle (Some ex_cfg) Map.empty)) =
     Some (out, st') \<and> co_buffer st' = []"
proof -
  let ?st = "put_slot (Subscription 1 1, [1])
       (fresh_slot ex_clock (ex_ev [1] ECreated 1) 0 ex_cfg 0) (coalescer_idle (Some ex_cfg) Map.empty)"
  obtain out st' where d: "drain_ready 10 ?st = Some (out, st')"
      "co_buffer st' = filter (\<lambda>e. 10 < bf_emit_at (snd e)) (co_buffer ?st)"
    using drain_ready_conserves [OF ex_held_inv, of 10] by blast
  have "filter (\<lambda>e. 10 < bf_emit_at (snd e)) (co_buffer ?st) = []"
    by (simp add: put_slot_def fresh_slot_def co_exec)
  with d show ?thesis by metis
qed

section \<open>The net effect of a burst\<close>

text \<open>
  The specification: a burst of changes to one path leaves what happened between its two ends. The
  path was absent before exactly when the first change is a creation, and is absent after exactly
  when the last one is a removal.
\<close>

definition net_effect :: "'c event_kind list \<Rightarrow> 'c event_kind option" where
  "net_effect ks =
     (if hd ks = ECreated
      then (if last ks = ERemoved then None else Some ECreated)
      else (if last ks = ERemoved then Some ERemoved else Some EModified))"

text \<open>A removed path can only be created next.\<close>

fun coherent :: "'c event_kind list \<Rightarrow> bool" where
  "coherent (k # k' # ks) \<longleftrightarrow> (k = ERemoved \<longrightarrow> k' = ECreated) \<and> coherent (k' # ks)"
| "coherent _ \<longleftrightarrow> True"

lemma coherent_snoc:
  "coherent (ks @ [k]) \<longleftrightarrow> coherent ks \<and> (ks = [] \<or> (last ks = ERemoved \<longrightarrow> k = ECreated))"
  by (induction ks rule: coherent.induct) auto

fun fold_kind :: "'c event_kind option \<Rightarrow> 'c event_kind \<Rightarrow> 'c event_kind option" where
  "fold_kind None k = Some k"
| "fold_kind (Some b) k =
     (case collapse_kinds b k of
        Annihilate \<Rightarrow> None | KeepBuffered \<Rightarrow> Some b | ReplaceWithIncoming \<Rightarrow> Some k
      | BecomeModified \<Rightarrow> Some EModified)"

lemma fold_kind_net_effect:
  "ks \<noteq> [] \<Longrightarrow> list_all is_lifecycle ks \<Longrightarrow> coherent ks \<Longrightarrow> foldl fold_kind None ks = net_effect ks"
proof (induction ks rule: rev_induct)
  case (snoc k ks)
  have k: "k = ECreated \<or> k = EModified \<or> k = ERemoved"
    using snoc.prems(2) not_lifecycle_iff [of k] by (cases k) auto
  show ?case
  proof (cases "ks = []")
    case True
    then show ?thesis using k by (auto simp: net_effect_def)
  next
    case False
    then have "foldl fold_kind None ks = net_effect ks" "last ks = ERemoved \<longrightarrow> k = ECreated"
      using snoc by (auto simp: coherent_snoc)
    with False k show ?thesis by (auto simp: net_effect_def)
  qed
qed simp

lemma btm_remove_insert [simp]: "btm_remove k (btm_insert k v m) = btm_remove k m"
  by (induction k v m rule: btm_insert.induct) (auto simp: btm_remove_def)

lemma btm_remove_idem [simp]: "btm_remove k (btm_remove k m) = btm_remove k m"
  by (simp add: btm_remove_def)

lemma btm_remove_none: "map_of m k = None \<Longrightarrow> btm_remove k m = m"
  unfolding btm_remove_def by (intro filter_True) (force simp: map_of_eq_None_iff)

text \<open>One admission into a slot with room: the slot's kind folds, everything else stays.\<close>

definition room :: "debounce_config \<Rightarrow> 'c ckey \<Rightarrow> ('c::linorder, 'v) coalescer \<Rightarrow> bool" where
  "room cfg key st \<longleftrightarrow> effective_policy st (fst key) = Some cfg \<and>
     length (btm_remove key (co_buffer st)) < structural_cap st \<and>
     sub_count (fst key) (btm_remove key (co_buffer st)) < max_buffered cfg"

definition slot_kind :: "'c ckey \<Rightarrow> ('c, 'v) coalescer \<Rightarrow> 'c event_kind option" where
  "slot_kind key st = map_option (\<lambda>b. ev_kind (bf_event b)) (map_of (co_buffer st) key)"

lemma structural_cap_cong: "co_default st' = co_default st \<Longrightarrow> structural_cap st' = structural_cap st"
  by (simp add: structural_cap_def)

lemma sub_len_count: "counts_ok st \<Longrightarrow> sub_len st s = sub_count s (co_buffer st)"
  by (simp add: sub_len_def counts_ok_def counts_of_def)

lemma merged_slot_kind:
  "collapse_kinds (ev_kind (bf_event b)) (ev_kind ev) \<noteq> Annihilate \<Longrightarrow>
     Some (ev_kind (bf_event (merged_slot clk b ev now cfg q))) = fold_kind (Some (ev_kind (bf_event b))) (ev_kind ev)"
  by (simp add: merged_slot_def collapsed_event_def synthetic_def split: collapse.split)

lemma admit_into_slot:
  assumes "co_inv st" and "room cfg key st" and "key = (ev_subscription ev, ev_key ev)"
    and "is_lifecycle (ev_kind ev)"
  shows "\<exists>st'. admit clk ev now st = Some (None, st') \<and> co_inv st' \<and> room cfg key st' \<and>
    slot_kind key st' = fold_kind (slot_kind key st) (ev_kind ev) \<and>
    (\<forall>b. map_of (co_buffer st') key = Some b \<longrightarrow> ev_epoch (bf_event b) = ev_epoch ev) \<and>
    btm_remove key (co_buffer st') = btm_remove key (co_buffer st) \<and> co_ready st' = co_ready st"
proof -
  have ok: "index_ok st" "counts_ok st" using assms(1) by (simp_all add: co_inv_def)
  have pol: "effective_policy st (ev_subscription ev) = Some cfg" using assms(2,3) by (simp add: room_def)
  have adm: "admit clk ev now st = coalesce clk ev now cfg st"
    using assms(1,4) pol by (simp add: admit_closed)
  obtain r st' where c: "coalesce clk ev now cfg st = Some (r, st')" and inv: "co_inv st'"
    using co_inv_coalesce [OF assms(1,4)] by blast
  have frame: "co_policies st' = co_policies st \<and> co_default st' = co_default st \<and> co_ready st' = co_ready st \<and>
      btm_remove key (co_buffer st') = btm_remove key (co_buffer st)"
    using c unfolding coalesce_closed [OF ok] assms(3) [symmetric]
    by (auto simp: put_slot_def btm_remove_def split: option.splits if_splits
        simp flip: btm_remove_def)
  have slot: "r = None \<and> slot_kind key st' = fold_kind (slot_kind key st) (ev_kind ev) \<and>
      (\<forall>b. map_of (co_buffer st') key = Some b \<longrightarrow> ev_epoch (bf_event b) = ev_epoch ev)"
  proof (cases "map_of (co_buffer st) key")
    case None
    then have "\<not> structural_cap st \<le> length (co_buffer st)" "\<not> max_buffered cfg \<le> sub_len st (ev_subscription ev)"
      using assms(2,3) by (auto simp: room_def btm_remove_none sub_len_count [OF ok(2)])
    with None c show ?thesis
      unfolding coalesce_closed [OF ok] assms(3) [symmetric]
      by (auto simp: slot_kind_def put_slot_def fresh_slot_def)
  next
    case (Some b)
    show ?thesis
    proof (cases "collapse_kinds (ev_kind (bf_event b)) (ev_kind ev) = Annihilate")
      case True
      with Some c show ?thesis
        unfolding coalesce_closed [OF ok] assms(3) [symmetric]
        using map_of_filter_key [of "{key}" "co_buffer st" key]
        by (auto simp: slot_kind_def)
    next
      case False
      with Some c merged_slot_kind [OF False, of clk now cfg "co_next_seq st"] show ?thesis
        unfolding coalesce_closed [OF ok] assms(3) [symmetric]
        by (auto simp: slot_kind_def put_slot_def merged_slot_epoch simp del: fold_kind.simps)
    qed
  qed
  have "room cfg key st'"
    using assms(2) frame effective_policy_cong [of st' st] structural_cap_cong [of st' st]
    by (simp add: room_def)
  with adm c inv frame slot show ?thesis by auto
qed

lemma burst_folds:
  assumes "co_inv st" and "room cfg key st"
    and "\<And>ev t. (ev, t) \<in> set burst \<Longrightarrow> key = (ev_subscription ev, ev_key ev) \<and> is_lifecycle (ev_kind ev)"
  shows "\<exists>outs st'. co_run clk (map (\<lambda>(ev, t). OpAdmit ev t) burst) st = Some (outs, st') \<and> co_inv st' \<and>
    slot_kind key st' = foldl fold_kind (slot_kind key st) (map (\<lambda>(ev, _). ev_kind ev) burst) \<and>
    (\<forall>b. burst \<noteq> [] \<longrightarrow> map_of (co_buffer st') key = Some b \<longrightarrow>
       ev_epoch (bf_event b) = ev_epoch (fst (last burst))) \<and>
    btm_remove key (co_buffer st') = btm_remove key (co_buffer st) \<and> co_ready st' = co_ready st"
  using assms
proof (induction burst arbitrary: st)
  case (Cons x burst)
  obtain ev t where x: "x = (ev, t)" by (cases x)
  have "key = (ev_subscription ev, ev_key ev)" "is_lifecycle (ev_kind ev)"
    using Cons.prems(3) [of ev t] x by auto
  from admit_into_slot [OF Cons.prems(1,2) this, of clk t]
  obtain st1 where a: "admit clk ev t st = Some (None, st1)" "co_inv st1" "room cfg key st1"
    "slot_kind key st1 = fold_kind (slot_kind key st) (ev_kind ev)"
    "\<forall>b. map_of (co_buffer st1) key = Some b \<longrightarrow> ev_epoch (bf_event b) = ev_epoch ev"
    "btm_remove key (co_buffer st1) = btm_remove key (co_buffer st)" "co_ready st1 = co_ready st" by blast
  have "key = (ev_subscription ev, ev_key ev) \<and> is_lifecycle (ev_kind ev)"
    if "(ev, t) \<in> set burst" for ev t using Cons.prems(3) [of ev t] that by simp
  with Cons.IH [OF a(2,3)] obtain outs st2 where r:
      "co_run clk (map (\<lambda>(ev, t). OpAdmit ev t) burst) st1 = Some (outs, st2)" "co_inv st2"
      "slot_kind key st2 = foldl fold_kind (slot_kind key st1) (map (\<lambda>(ev, _). ev_kind ev) burst)"
      "\<forall>b. burst \<noteq> [] \<longrightarrow> map_of (co_buffer st2) key = Some b \<longrightarrow>
         ev_epoch (bf_event b) = ev_epoch (fst (last burst))"
      "btm_remove key (co_buffer st2) = btm_remove key (co_buffer st1)" "co_ready st2 = co_ready st1" by blast
  have "co_run clk (map (\<lambda>(ev, t). OpAdmit ev t) (x # burst)) st = Some ([] # outs, st2)"
    using a(1) r(1) x by simp
  moreover have "\<forall>b. map_of (co_buffer st2) key = Some b \<longrightarrow>
       ev_epoch (bf_event b) = ev_epoch (fst (last (x # burst)))"
    using a(5) r(1,4) x by (cases "burst = []") auto
  ultimately show ?case using a(4,6,7) r(2,3,5,6) x by (intro exI [of _ "[] # outs"] exI [of _ st2]) simp
qed simp

text \<open>
  Property C22. Refinement. A burst of changes to one path of a subscription with a settle policy, with
  room under both caps and no slot open, admitted before anything is drained, leaves exactly its net
  effect: nothing for a path that appeared and vanished inside the window, otherwise one slot of kind
  Created, Modified or Removed according to whether the path existed before and exists after, stamped
  with the last event's epoch. No other slot changes and nothing is queued. The burst is one a file
  system can produce: what follows a removal is a creation.
\<close>

theorem burst_collapses_to_net_effect:
  fixes burst :: "(('c::linorder, 'v) event \<times> instant) list"
  assumes "co_inv st" and "room cfg (s, k) st" and "map_of (co_buffer st) (s, k) = None"
    and "burst \<noteq> []" and "coherent (map (\<lambda>(ev, _). ev_kind ev) burst)"
    and "list_all (\<lambda>(ev, _). ev_subscription ev = s \<and> ev_key ev = k \<and> is_lifecycle (ev_kind ev)) burst"
  shows "\<exists>outs st'. co_run clk (map (\<lambda>(ev, t). OpAdmit ev t) burst) st = Some (outs, st') \<and>
    slot_kind (s, k) st' = net_effect (map (\<lambda>(ev, _). ev_kind ev) burst) \<and>
    (\<forall>b. map_of (co_buffer st') (s, k) = Some b \<longrightarrow> ev_epoch (bf_event b) = ev_epoch (fst (last burst))) \<and>
    (\<forall>k'. k' \<noteq> (s, k) \<longrightarrow> map_of (co_buffer st') k' = map_of (co_buffer st) k') \<and>
    co_ready st' = co_ready st"
proof -
  have mem: "(s, k) = (ev_subscription ev, ev_key ev) \<and> is_lifecycle (ev_kind ev)"
    if "(ev, t) \<in> set burst" for ev t
    using assms(6) that by (auto simp: list_all_iff)
  from burst_folds [OF assms(1,2), of burst clk] mem obtain outs st' where r:
      "co_run clk (map (\<lambda>(ev, t). OpAdmit ev t) burst) st = Some (outs, st')"
      "slot_kind (s, k) st' = foldl fold_kind (slot_kind (s, k) st) (map (\<lambda>(ev, _). ev_kind ev) burst)"
      "\<forall>b. map_of (co_buffer st') (s, k) = Some b \<longrightarrow> ev_epoch (bf_event b) = ev_epoch (fst (last burst))"
      "btm_remove (s, k) (co_buffer st') = btm_remove (s, k) (co_buffer st)" "co_ready st' = co_ready st"
    using assms(4) by blast
  have "list_all is_lifecycle (map (\<lambda>(ev, _). ev_kind ev) burst)"
    using mem by (auto simp: list_all_iff)
  then have "slot_kind (s, k) st' = net_effect (map (\<lambda>(ev, _). ev_kind ev) burst)"
    unfolding r(2) using fold_kind_net_effect [of "map (\<lambda>(ev, _). ev_kind ev) burst"] assms(3-5)
    by (simp add: slot_kind_def)
  moreover have "map_of (co_buffer st') k' = map_of (co_buffer st) k'" if "k' \<noteq> (s, k)" for k'
    using arg_cong [OF r(4), of "\<lambda>m. map_of m k'"] that by simp
  ultimately show ?thesis using r(1,3,5) by blast
qed

definition ex_burst :: "((nat, nat) event \<times> instant) list" where
  "ex_burst = [(ex_ev [1] ERemoved 1, 0), (ex_ev [1] ECreated 1, 3), (ex_ev [1] EModified 4, 5)]"

theorem burst_collapses_to_net_effect_witness:
  "\<exists>outs st'. co_run ex_clock (map (\<lambda>(ev, t). OpAdmit ev t) ex_burst)
       (coalescer_idle (Some ex_cfg) Map.empty) = Some (outs, st') \<and>
     slot_kind (Subscription 1 1, [1]) st' = Some EModified"
proof -
  let ?st = "coalescer_idle (Some ex_cfg) Map.empty :: (nat, nat) coalescer"
  have "room ex_cfg (Subscription 1 1, [1]) ?st" "map_of (co_buffer ?st) (Subscription 1 1, [1]) = None"
    by (simp_all add: room_def co_exec sub_count_def)
  note h = this
  have "ex_burst \<noteq> []" "coherent (map (\<lambda>(ev, _). ev_kind ev) ex_burst)"
    "list_all (\<lambda>(ev, _). ev_subscription ev = Subscription 1 1 \<and> ev_key ev = [1] \<and> is_lifecycle (ev_kind ev)) ex_burst"
    by (simp_all add: ex_burst_def ex_ev_def synthetic_def is_lifecycle_def)
  note burst_collapses_to_net_effect [OF co_inv_idle(1) h this, of ex_clock]
  moreover have "net_effect (map (\<lambda>(ev, _). ev_kind ev) ex_burst) = Some EModified"
    by (simp add: net_effect_def ex_burst_def ex_ev_def synthetic_def)
  ultimately show ?thesis by (elim exE conjE) (intro exI conjI, assumption, simp)
qed

section \<open>Bounded hold and caps\<close>

lemma co_run_invariant:
  assumes "\<And>st x out st'. co_inv st \<Longrightarrow> I st \<Longrightarrow> x \<in> set ops \<Longrightarrow> co_step clk x st = Some (out, st') \<Longrightarrow> I st'"
    and "co_inv st" and "I st" and "co_run clk ops st = Some (outs, st')"
  shows "I st'"
  using assms
proof (induction ops arbitrary: st outs)
  case (Cons x xs)
  obtain o1 st1 os where s: "co_step clk x st = Some (o1, st1)" "co_run clk xs st1 = Some (os, st')"
    using Cons.prems(4) by (auto split: option.splits)
  have "co_inv st1" using co_inv_step [OF Cons.prems(2), of clk x] s(1) by auto
  moreover have "I st1" using Cons.prems(1) [OF Cons.prems(2,3) _ s(1)] by simp
  ultimately show ?case using Cons.IH [OF _ _ _ s(2)] Cons.prems(1) by (metis list.set_intros(2))
qed simp

lemma filter_whole [simp]: "\<exists>P. xs = filter P xs"
  by (rule exI [of _ "\<lambda>_. True"]) simp

lemma filter_nothing [simp]: "\<exists>P. filter P xs = []"
  by (rule exI [of _ "\<lambda>_. False"]) simp

text \<open>Every step but an admission only removes slots.\<close>

lemma step_slots:
  assumes "co_inv st" and "co_step clk x st = Some (out, st')" and "op_admits x = []"
  shows "\<exists>P. co_buffer st' = filter P (co_buffer st)"
proof -
  have ok: "index_ok st" "counts_ok st" using assms(1) by (simp_all add: co_inv_def)
  show ?thesis
  proof (cases x)
    case (OpPolicy s d)
    then show ?thesis using assms(2) by (cases d) auto
  next
    case (OpDrain now)
    then show ?thesis using assms(2) by (auto simp: drain_ready_closed [OF ok])
  next
    case OpFlushAll
    then show ?thesis using assms(2) by (auto simp: flush_all_def eq_commute [of "[]"])
  qed (use assms in \<open>auto simp: flush_subscription_eq drop_subscription_eq forget_subscription_def Let_def sub_gone_def\<close>)
qed

lemma admit_slots:
  assumes "co_inv st" and "admit clk ev now st = Some (r, st')"
  obtains (shrunk) P where "co_buffer st' = filter P (co_buffer st)"
  | (fresh) cfg where "effective_policy st (ev_subscription ev) = Some cfg"
      "map_of (co_buffer st) (ev_subscription ev, ev_key ev) = None"
      "length (co_buffer st) < structural_cap st"
      "sub_count (ev_subscription ev) (co_buffer st) < max_buffered cfg"
      "co_buffer st' = btm_insert (ev_subscription ev, ev_key ev)
         (fresh_slot clk ev now cfg (co_next_seq st)) (co_buffer st)"
  | (merged) cfg b where "effective_policy st (ev_subscription ev) = Some cfg"
      "map_of (co_buffer st) (ev_subscription ev, ev_key ev) = Some b"
      "co_buffer st' = btm_insert (ev_subscription ev, ev_key ev)
         (merged_slot clk b ev now cfg (co_next_seq st)) (co_buffer st)"
proof (cases "is_lifecycle (ev_kind ev) \<and> effective_policy st (ev_subscription ev) \<noteq> None")
  case False
  from False have "\<exists>P. co_buffer st' = filter P (co_buffer st)"
    using assms by (auto simp: admit_closed sub_gone_def split: if_splits)
  then show ?thesis using shrunk by blast
next
  case True
  then obtain cfg where p: "effective_policy st (ev_subscription ev) = Some cfg"
    and c: "coalesce clk ev now cfg st = Some (r, st')"
    using assms by (auto simp: admit_closed)
  have ok: "index_ok st" "counts_ok st" using assms(1) by (simp_all add: co_inv_def)
  show ?thesis
  proof (cases "map_of (co_buffer st) (ev_subscription ev, ev_key ev)")
    case None
    then show ?thesis
      using c fresh [OF p None] shrunk [of "\<lambda>_. True"] unfolding coalesce_closed [OF ok]
      by (auto simp: sub_len_count [OF ok(2)] put_slot_def split: if_splits)
  next
    case (Some b)
    then show ?thesis
      using c merged [OF p Some] shrunk unfolding coalesce_closed [OF ok]
      by (auto simp: put_slot_def split: if_splits)
  qed
qed

fun keeps_policy_of :: "subscription \<Rightarrow> ('c, 'v) co_op \<Rightarrow> bool" where
  "keeps_policy_of s (OpPolicy s' _) \<longleftrightarrow> s' \<noteq> s"
| "keeps_policy_of s (OpForget s') \<longleftrightarrow> s' \<noteq> s"
| "keeps_policy_of s _ \<longleftrightarrow> True"

lemma step_policy:
  assumes "co_inv st" and "co_step clk x st = Some (out, st')" and "keeps_policy_of s x"
  shows "effective_policy st' s = effective_policy st s \<and> co_default st' = co_default st"
proof (cases x)
  case (OpPolicy s' d)
  then show ?thesis using assms(2,3) by (cases d) (auto simp: effective_policy_def split: option.split)
next
  case (OpAdmit ev now)
  have ok: "index_ok st" "counts_ok st" using assms(1) by (simp_all add: co_inv_def)
  obtain r where "admit clk ev now st = Some (r, st')" using OpAdmit assms(2) by auto
  then have "co_policies st' = co_policies st \<and> co_default st' = co_default st"
    by (auto simp: admit_closed [OF assms(1)] coalesce_closed [OF ok] put_slot_def
        split: if_splits option.splits)
  then show ?thesis using effective_policy_cong by blast
next
  case (OpDrain now)
  have ok: "index_ok st" "counts_ok st" using assms(1) by (simp_all add: co_inv_def)
  have "co_policies st' = co_policies st \<and> co_default st' = co_default st"
    using OpDrain assms(2) by (auto simp: drain_ready_closed [OF ok])
  then show ?thesis using effective_policy_cong by blast
next
  case (OpFlushSub s' now)
  then show ?thesis using assms(1,2) by (auto simp: flush_subscription_eq sub_gone_def intro: effective_policy_cong)
next
  case OpFlushAll
  then show ?thesis using assms(2) by (auto simp: flush_all_def intro: effective_policy_cong)
next
  case (OpDrop s')
  then show ?thesis using assms(1,2) by (auto simp: drop_subscription_eq intro: effective_policy_cong)
next
  case (OpForget s')
  then show ?thesis using assms
    by (auto simp: drop_subscription_eq forget_subscription_def Let_def effective_policy_def
        split: option.split)
qed

definition hold_cap :: "clock \<Rightarrow> debounce_config \<Rightarrow> instant \<Rightarrow> instant" where
  "hold_cap clk cfg first =
     (case instant_checked_add clk first (max_hold cfg) of None \<Rightarrow> clk_far clk | Some t \<Rightarrow> t)"

lemma deadline_le_hold_cap: "deadline clk first now (quiet_window cfg) (max_hold cfg) \<le> hold_cap clk cfg first"
  by (simp add: deadline_def hold_cap_def)

definition hold_ok ::
  "clock \<Rightarrow> debounce_config \<Rightarrow> subscription \<Rightarrow> ('c, 'v) co_op set \<Rightarrow> ('c, 'v) coalescer \<Rightarrow> bool" where
  "hold_ok clk cfg s A st \<longleftrightarrow> effective_policy st s = Some cfg \<and>
     (\<forall>e \<in> set (co_buffer st). fst (fst e) = s \<longrightarrow>
        bf_emit_at (snd e) \<le> hold_cap clk cfg (bf_first_seen (snd e)) \<and>
        (\<exists>ev. OpAdmit ev (bf_first_seen (snd e)) \<in> A \<and> (ev_subscription ev, ev_key ev) = fst e))"

lemma hold_okD:
  assumes "hold_ok clk cfg s A st" and "((s, k), b) \<in> set (co_buffer st)"
  shows "bf_emit_at b \<le> hold_cap clk cfg (bf_first_seen b)"
    and "\<exists>ev. OpAdmit ev (bf_first_seen b) \<in> A \<and> ev_subscription ev = s \<and> ev_key ev = k"
  using bspec [OF conjunct2 [OF assms(1) [unfolded hold_ok_def]] assms(2)] by auto

lemma hold_ok_step:
  assumes "co_inv st" and "hold_ok clk cfg s A st" and "x \<in> A" and "keeps_policy_of s x"
    and "co_step clk x st = Some (out, st')"
  shows "hold_ok clk cfg s A st'"
proof -
  have pol: "effective_policy st' s = Some cfg"
    using step_policy [OF assms(1,5,4)] assms(2) by (simp add: hold_ok_def)
  have ok: "btm_ok (co_buffer st)" using assms(1) by (simp add: co_inv_def index_ok_def)
  have shrunk: ?thesis if "co_buffer st' = filter P (co_buffer st)" for P
    using assms(2) pol that by (simp add: hold_ok_def)
  show ?thesis
  proof (cases "op_admits x = []")
    case True
    then show ?thesis using step_slots [OF assms(1,5)] shrunk by blast
  next
    case False
    then obtain ev now where x: "x = OpAdmit ev now" by (cases x) auto
    let ?key = "(ev_subscription ev, ev_key ev)"
    obtain r where "admit clk ev now st = Some (r, st')" using assms(5) x by auto
    with assms(1) show ?thesis
    proof (cases rule: admit_slots)
      case (shrunk P)
      then show ?thesis using assms(2) pol by (simp add: hold_ok_def)
    next
      case (fresh cfg')
      then show ?thesis
        using assms(2,3) pol x deadline_le_hold_cap [of clk now now cfg]
        by (auto simp: hold_ok_def set_btm_insert [OF ok] fresh_slot_def)
    next
      case (merged cfg' b)
      have "(?key, b) \<in> set (co_buffer st)" using merged(2) by (rule map_of_SomeD)
      then have "\<exists>e. OpAdmit e (bf_first_seen b) \<in> A \<and> ev_subscription e = s \<and> ev_key e = ev_key ev"
        if "ev_subscription ev = s"
        using hold_okD(2) [OF assms(2)] that by blast
      with merged show ?thesis
        using assms(2,3) pol x deadline_le_hold_cap [of clk "bf_first_seen b" now cfg]
        by (auto simp: hold_ok_def set_btm_insert [OF ok] merged_slot_def)
    qed
  qed
qed

definition caps_ok :: "debounce_config \<Rightarrow> subscription \<Rightarrow> ('c, 'v) coalescer \<Rightarrow> bool" where
  "caps_ok cfg s st \<longleftrightarrow> effective_policy st s = Some cfg \<and> length (co_buffer st) \<le> structural_cap st \<and>
     sub_count s (co_buffer st) \<le> max_buffered cfg"

lemma sub_count_filter: "sub_count s (filter P buf) \<le> sub_count s buf"
proof -
  have "filter (\<lambda>e. fst (fst e) = s) (filter P buf) = filter P (filter (\<lambda>e. fst (fst e) = s) buf)"
    by (simp add: conj_commute)
  then show ?thesis unfolding sub_count_def by (simp only: length_filter_le)
qed

lemma caps_ok_step:
  assumes "co_inv st" and "caps_ok cfg s st" and "keeps_policy_of s x" and "co_step clk x st = Some (out, st')"
  shows "caps_ok cfg s st'"
proof -
  note pol = step_policy [OF assms(1,4,3)]
  have cap: "structural_cap st' = structural_cap st" by (rule structural_cap_cong [OF conjunct2 [OF pol]])
  have ok: "btm_ok (co_buffer st)" using assms(1) by (simp add: co_inv_def index_ok_def)
  have le: "length (co_buffer st') \<le> structural_cap st \<and> sub_count s (co_buffer st') \<le> max_buffered cfg"
    if "co_buffer st' = filter P (co_buffer st)" for P
  proof
    note caps = assms(2) [unfolded caps_ok_def]
    show "length (co_buffer st') \<le> structural_cap st"
      unfolding that by (rule order_trans [OF length_filter_le]) (use caps in blast)
    show "sub_count s (co_buffer st') \<le> max_buffered cfg"
      unfolding that by (rule order_trans [OF sub_count_filter]) (use caps in blast)
  qed
  have "length (co_buffer st') \<le> structural_cap st \<and> sub_count s (co_buffer st') \<le> max_buffered cfg"
  proof (cases "op_admits x = []")
    case True
    then show ?thesis using step_slots [OF assms(1,4)] le by blast
  next
    case False
    then obtain ev now where x: "x = OpAdmit ev now" by (cases x) auto
    obtain r where "admit clk ev now st = Some (r, st')" using assms(4) x by auto
    with assms(1) show ?thesis
    proof (cases rule: admit_slots)
      case (shrunk P)
      then show ?thesis by (rule le)
    next
      case (fresh cfg')
      then show ?thesis
        using assms(2) sub_count_insert [OF ok] length_btm_insert_new [OF ok fresh(2)]
        by (auto simp: caps_ok_def btm_remove_none)
    next
      case (merged cfg' b)
      have "mset (co_buffer st') = add_mset
          ((ev_subscription ev, ev_key ev), merged_slot clk b ev now cfg' (co_next_seq st))
          (mset (btm_remove (ev_subscription ev, ev_key ev) (co_buffer st)))"
        unfolding merged(3) by (rule mset_btm_insert [OF ok])
      with mset_btm_take [OF ok merged(2)] have "size (mset (co_buffer st')) = size (mset (co_buffer st))"
        by simp
      then show ?thesis
        using assms(2) sub_count_insert [OF ok] sub_count_take [OF ok merged(2), of s] merged(3)
        by (simp add: caps_ok_def)
    qed
  qed
  with pol cap assms(2) show ?thesis by (simp add: caps_ok_def)
qed

text \<open>
  Bounds. In every history that leaves subscription \<open>s\<close> on the settle policy \<open>cfg\<close>, each slot
  of \<open>s\<close> is due no later than \<open>max_hold\<close> after the admission that opened it (or at the clock's far-future
  stand-in when that instant is not representable), however often it was touched since; never more
  than \<open>max_buffered\<close> slots of \<open>s\<close>, nor more than the structural cap in all, are open.
\<close>

theorem hold_and_buffer_bounded:
  fixes ops :: "('c::linorder, 'v) co_op list"
  assumes "effective_policy (coalescer_idle d p :: ('c, 'v) coalescer) s = Some cfg" and "list_all (keeps_policy_of s) ops"
    and "co_run clk ops (coalescer_idle d p) = Some (outs, st)"
  shows "(\<forall>k b. map_of (co_buffer st) (s, k) = Some b \<longrightarrow>
      bf_emit_at b \<le> hold_cap clk cfg (bf_first_seen b) \<and>
      (\<exists>ev. OpAdmit ev (bf_first_seen b) \<in> set ops \<and> ev_subscription ev = s \<and> ev_key ev = k)) \<and>
    length (co_buffer st) \<le> structural_cap st \<and> sub_count s (co_buffer st) \<le> max_buffered cfg"
proof -
  have start: "hold_ok clk cfg s (set ops) (coalescer_idle d p)"
      "caps_ok cfg s (coalescer_idle d p :: ('c, 'v) coalescer)"
    using assms(1) by (simp_all add: hold_ok_def caps_ok_def coalescer_idle_def coalescer_new_def sub_count_def)
  have keep: "keeps_policy_of s x" if "x \<in> set ops" for x using assms(2) that by (simp add: list_all_iff)
  have h: "hold_ok clk cfg s (set ops) st"
    using _ co_inv_idle(1) start(1) assms(3)
    by (rule co_run_invariant) (erule (1) hold_ok_step, assumption, erule keep, assumption)
  have c: "caps_ok cfg s st"
    using _ co_inv_idle(1) start(2) assms(3)
    by (rule co_run_invariant) (erule (1) caps_ok_step, erule keep, assumption)
  have "bf_emit_at b \<le> hold_cap clk cfg (bf_first_seen b) \<and>
      (\<exists>ev. OpAdmit ev (bf_first_seen b) \<in> set ops \<and> ev_subscription ev = s \<and> ev_key ev = k)"
    if "map_of (co_buffer st) (s, k) = Some b" for k b
    using hold_okD [OF h map_of_SomeD [OF that]] by blast
  with c show ?thesis by (auto simp: caps_ok_def)
qed

theorem hold_and_buffer_bounded_witness:
  "sub_count (Subscription 1 1) (co_buffer (snd (the (co_run ex_clock
     [OpAdmit (ex_ev [1] ECreated 1) 0, OpAdmit (ex_ev [1] EModified 1) 9]
     (coalescer_idle (Some ex_cfg) Map.empty))))) \<le> 4"
proof -
  let ?ops = "[OpAdmit (ex_ev [1] ECreated 1) 0, OpAdmit (ex_ev [1] EModified 1) 9] :: (nat, nat) co_op list"
  let ?st = "coalescer_idle (Some ex_cfg) Map.empty :: (nat, nat) coalescer"
  have "effective_policy ?st (Subscription 1 1) = Some ex_cfg"
    by (simp add: effective_policy_def coalescer_idle_def coalescer_new_def)
  moreover have "list_all (keeps_policy_of (Subscription 1 1)) ?ops" by simp
  moreover obtain outs st where r: "co_run ex_clock ?ops ?st = Some (outs, st)"
    using co_run_inv [OF co_inv_idle, of ?ops ex_clock "Some ex_cfg" Map.empty] by auto
  ultimately show ?thesis
    using hold_and_buffer_bounded [of "Some ex_cfg" Map.empty "Subscription 1 1" ex_cfg ?ops ex_clock outs st]
    by (simp add: ex_cfg_def r del: co_run.simps)
qed

section \<open>Signals\<close>

lemma map_of_sub_gone:
  "map_of (co_buffer (sub_gone s st)) k = (if fst k = s then None else map_of (co_buffer st) k)"
proof -
  have "k \<in> sub_keys s st \<longleftrightarrow> fst k = s \<and> map_of (co_buffer st) k \<noteq> None"
    by (auto simp: sub_keys_def map_of_eq_None_iff)
  then show ?thesis by (simp add: sub_gone_def map_of_filter_key)
qed

text \<open>
  Functional. A coverage-loss signal or a move is never delayed, merged or overtaken: its
  admission appends to the queue first every buffered event of its subscription, in admission order
  and exactly once, then the event itself unchanged; no slot of that subscription stays open, and the
  slots of the others are untouched.
\<close>

theorem signal_flushes_subscription:
  assumes "co_inv st" and "\<not> is_lifecycle (ev_kind ev)"
  shows "\<exists>st' bs. admit clk ev now st = Some (None, st') \<and>
    co_ready st' = co_ready st @ map (Pair now) (map bf_event bs @ [ev]) \<and>
    sorted (map bf_seq bs) \<and>
    mset bs = mset (map snd (filter (\<lambda>e. fst (fst e) = ev_subscription ev) (co_buffer st))) \<and>
    (\<forall>k. map_of (co_buffer st') k =
       (if fst k = ev_subscription ev then None else map_of (co_buffer st) k))"
proof -
  let ?s = "ev_subscription ev"
  let ?bs = "map (slot st) (flushed_keys ?s st)"
  have ok: "index_ok st" using assms(1) by (simp add: co_inv_def)
  have fe: "flushed_events ?s st = map bf_event ?bs" by (simp add: flushed_events_def slot_def)
  have k: "fst x = ?s" if "x \<in> set (flushed_keys ?s st)" for x
    using that flushed_keys_props(2) [OF ok] by (auto simp: sub_keys_def)
  have "sorted (map (\<lambda>k. (?s, bf_seq (slot st k))) (flushed_keys ?s st))"
    using flushed_keys_sorted [OF ok, of ?s] k by (metis (no_types, lifting) map_eq_conv)
  then have srt: "sorted (map bf_seq ?bs)" by (simp add: sorted_wrt_map comp_def)
  have "filter (\<lambda>e. fst e \<in> sub_keys ?s st) (co_buffer st) = filter (\<lambda>e. fst (fst e) = ?s) (co_buffer st)"
    by (intro filter_cong) (auto simp: sub_keys_def)
  then have m: "mset ?bs = mset (map snd (filter (\<lambda>e. fst (fst e) = ?s) (co_buffer st)))"
    using mset_slots_of_keys [OF ok flushed_keys_props(1) [OF ok], of ?s] flushed_keys_props(2) [OF ok, of ?s]
    by (auto simp: sub_keys_def)
  have "admit clk ev now st = Some (None, sub_gone ?s st
      \<lparr>co_ready := co_ready st @ map (Pair now) (map bf_event ?bs @ [ev])\<rparr>)"
    using assms by (simp add: admit_closed fe)
  then show ?thesis
    using srt m map_of_sub_gone [of ?s st] by (intro exI [of _ ?bs] exI conjI) (assumption | simp)+
qed

theorem signal_flushes_subscription_witness:
  "\<exists>st' (bs :: (nat, nat) buffered list). admit ex_clock (ex_ev [] ERescan 7) 3 (put_slot (Subscription 1 1, [1])
       (fresh_slot ex_clock (ex_ev [1] ECreated 1) 0 ex_cfg 0) (coalescer_idle (Some ex_cfg) Map.empty)) =
     Some (None, st') \<and> co_ready st' = map (Pair 3) (map bf_event bs @ [ex_ev [] ERescan 7]) \<and>
     length bs = 1"
proof -
  let ?st = "put_slot (Subscription 1 1, [1])
       (fresh_slot ex_clock (ex_ev [1] ECreated 1) 0 ex_cfg 0) (coalescer_idle (Some ex_cfg) Map.empty)"
  have nl: "\<not> is_lifecycle (ev_kind (ex_ev [] ERescan 7))"
    by (simp add: is_lifecycle_def ex_ev_def synthetic_def)
  have r: "co_ready ?st = []" "ev_subscription (ex_ev [] ERescan 7) = Subscription 1 1"
      "length (filter (\<lambda>e. fst (fst e) = Subscription 1 1) (co_buffer ?st)) = 1"
    by (simp_all add: put_slot_def co_exec)
  obtain st' bs where a: "admit ex_clock (ex_ev [] ERescan 7) 3 ?st = Some (None, st')"
      and q: "co_ready st' = co_ready ?st @ map (Pair 3) (map bf_event bs @ [ex_ev [] ERescan 7])"
      and m: "mset bs = mset (map snd (filter (\<lambda>e. fst (fst e) = ev_subscription (ex_ev [] ERescan 7)) (co_buffer ?st)))"
    using signal_flushes_subscription [OF ex_held_inv nl, of ex_clock 3] by blast
  have "length bs = 1" using mset_eq_length [OF m] r(3) by (simp only: r(2) length_map)
  moreover have "co_ready st' = map (Pair 3) (map bf_event bs @ [ex_ev [] ERescan 7])"
    using q by (simp only: r(1) append_Nil)
  ultimately show ?thesis using a by blast
qed

end
