(* ===== verification/Radix.thy ===== *)
theory Radix
  imports Prelude
begin

text \<open>
  The interface of the \<open>iradix\<close> crate, the third-party immutable radix tree the subsumption engine and
  the read plane are built on. The tree is a parameter: a record of the operations the source calls,
  and the locale \<open>radix\<close> with the documented behaviour of each, all stated over the lookup \<open>rx_get\<close>. A
  transaction that is opened, edited and committed in one go is the composition of its edits.

  \<open>assoc_ops\<close> is an instance (an ordered association list); its interpretation shows that the laws hold
  together, and witnesses are evaluated on it.
\<close>

record ('t, 'c, 'x) radix_ops =
  rx_new :: 't
  rx_get :: "'t \<Rightarrow> 'c list \<Rightarrow> 'x option"
  rx_insert :: "'c list \<Rightarrow> 'x \<Rightarrow> 't \<Rightarrow> 't"
  rx_remove :: "'c list \<Rightarrow> 't \<Rightarrow> 't"
  rx_get_ancestor :: "'t \<Rightarrow> 'c list \<Rightarrow> 'x option"
  rx_descendants :: "'t \<Rightarrow> 'c list \<Rightarrow> 'x list"
  rx_remove_descendants :: "'c list \<Rightarrow> 't \<Rightarrow> 't"
  rx_values_rev :: "'t \<Rightarrow> 'x list"
  rx_is_empty :: "'t \<Rightarrow> bool"
  rx_len :: "'t \<Rightarrow> nat"

text \<open>The entry of the longest stored key that is a prefix of the queried one.\<close>

function longest_match :: "('c list \<Rightarrow> 'x option) \<Rightarrow> 'c list \<Rightarrow> 'x option" where
  "longest_match m k =
     (case m k of Some x \<Rightarrow> Some x | None \<Rightarrow> if k = [] then None else longest_match m (butlast k))"
  by pat_completeness auto
termination
  by (relation "measure (\<lambda>(m, k). length k)") auto

declare longest_match.simps [simp del]

lemma longest_match_Some:
  "longest_match m k = Some x \<Longrightarrow>
     \<exists>p. prefix p k \<and> m p = Some x \<and> (\<forall>q. prefix q k \<longrightarrow> m q \<noteq> None \<longrightarrow> prefix q p)"
proof (induction m k rule: longest_match.induct)
  case (1 m k)
  show ?case
  proof (cases "m k")
    case None
    with 1(2) have ne: "k \<noteq> []" and r: "longest_match m (butlast k) = Some x"
      by (auto simp: longest_match.simps [of m k] split: if_splits)
    from 1(1) [OF None ne r] obtain p where p: "prefix p (butlast k)" "m p = Some x"
      "\<forall>q. prefix q (butlast k) \<longrightarrow> m q \<noteq> None \<longrightarrow> prefix q p" by blast
    have "prefix q (butlast k)" if "prefix q k" "m q \<noteq> None" for q
      using that None ne by (metis append_butlast_last_id prefix_snoc)
    moreover have "prefix p k" using p(1) by (meson prefix_order.trans prefixeq_butlast)
    ultimately show ?thesis using p by blast
  next
    case (Some y)
    then show ?thesis using 1(2) by (auto simp: longest_match.simps [of m k])
  qed
qed

lemma longest_match_None_iff: "longest_match m k = None \<longleftrightarrow> (\<forall>p. prefix p k \<longrightarrow> m p = None)"
proof (induction m k rule: longest_match.induct)
  case (1 m k)
  show ?case
  proof (cases "m k")
    case None
    show ?thesis
    proof (cases "k = []")
      case True
      then show ?thesis using None by (simp add: longest_match.simps [of m "[]"])
    next
      case False
      have "prefix p k \<longleftrightarrow> p = k \<or> prefix p (butlast k)" for p
        using False by (metis append_butlast_last_id prefix_snoc)
      with 1 [OF None False] None False show ?thesis
        by (auto simp: longest_match.simps [of m k])
    qed
  qed (auto simp: longest_match.simps [of m k])
qed

locale radix =
  fixes ops :: "('t, 'c::linorder, 'x) radix_ops"
  assumes get_new: "rx_get ops (rx_new ops) = Map.empty"
    and get_insert: "rx_get ops (rx_insert ops k x t) = (rx_get ops t)(k \<mapsto> x)"
    and get_remove: "rx_get ops (rx_remove ops k t) = (rx_get ops t)(k := None)"
    and get_ancestor: "rx_get_ancestor ops t k = longest_match (rx_get ops t) k"
    and descendants:
      "\<exists>ks. sorted_wrt (<) ks \<and> set ks = {k'. strict_prefix k k' \<and> rx_get ops t k' \<noteq> None} \<and>
         rx_descendants ops t k = map (\<lambda>k'. the (rx_get ops t k')) ks"
    and get_remove_descendants:
      "rx_get ops (rx_remove_descendants ops k t) k' = (if strict_prefix k k' then None else rx_get ops t k')"
    and values_rev:
      "\<exists>ks. sorted_wrt (>) ks \<and> set ks = dom (rx_get ops t) \<and>
         rx_values_rev ops t = map (\<lambda>k'. the (rx_get ops t k')) ks"
    and is_empty: "rx_is_empty ops t \<longleftrightarrow> rx_get ops t = Map.empty"
    and len: "rx_len ops t = card (dom (rx_get ops t))"
begin

lemma ancestor_Some:
  assumes "rx_get_ancestor ops t k = Some x"
  obtains p where "prefix p k" "rx_get ops t p = Some x"
    "\<And>q. prefix q k \<Longrightarrow> rx_get ops t q \<noteq> None \<Longrightarrow> prefix q p"
  using longest_match_Some [of "rx_get ops t" k x] assms by (auto simp: get_ancestor)

lemma ancestor_None_iff: "rx_get_ancestor ops t k = None \<longleftrightarrow> (\<forall>p. prefix p k \<longrightarrow> rx_get ops t p = None)"
  by (simp add: get_ancestor longest_match_None_iff)

lemma set_descendants:
  "set (rx_descendants ops t k) = {x. \<exists>k'. strict_prefix k k' \<and> rx_get ops t k' = Some x}"
proof -
  obtain ks where ks: "set ks = {k'. strict_prefix k k' \<and> rx_get ops t k' \<noteq> None}"
      "rx_descendants ops t k = map (\<lambda>k'. the (rx_get ops t k')) ks"
    using descendants by blast
  show ?thesis unfolding ks(2) by (auto simp: ks(1) image_iff) (metis option.sel option.distinct(1))
qed

lemma values_rev_first:
  assumes "rx_values_rev ops t = x # xs"
  obtains k where "rx_get ops t k = Some x" "\<And>k'. rx_get ops t k' \<noteq> None \<Longrightarrow> k' \<le> k"
proof -
  obtain ks where ks: "sorted_wrt (>) ks" "set ks = dom (rx_get ops t)"
      "rx_values_rev ops t = map (\<lambda>k'. the (rx_get ops t k')) ks" using values_rev by blast
  with assms obtain k ks' where k: "ks = k # ks'" "x = the (rx_get ops t k)" by auto
  have "rx_get ops t k \<noteq> None" using ks(2) k(1) by auto
  then have "rx_get ops t k = Some x" using k(2) by auto
  moreover have "k' \<le> k" if "rx_get ops t k' \<noteq> None" for k'
  proof -
    have "k' \<in> set ks" using that ks(2) by auto
    then show ?thesis using ks(1) k(1) by auto
  qed
  ultimately show thesis by (rule that)
qed

lemma values_rev_Nil_iff: "rx_values_rev ops t = [] \<longleftrightarrow> rx_get ops t = Map.empty"
  using values_rev [of t] by (metis dom_eq_empty_conv list.map_disc_iff set_empty)

end

section \<open>An instance\<close>

definition assoc_ops :: "(('c::linorder list \<times> 'x) list, 'c, 'x) radix_ops" where
  "assoc_ops = \<lparr>
     rx_new = [],
     rx_get = map_of,
     rx_insert = btm_insert,
     rx_remove = btm_remove,
     rx_get_ancestor = (\<lambda>t. longest_match (map_of t)),
     rx_descendants = (\<lambda>t k. map (\<lambda>k'. the (map_of t k'))
       (sort (remdups (filter (strict_prefix k) (map fst t))))),
     rx_remove_descendants = (\<lambda>k t. filter (\<lambda>e. \<not> strict_prefix k (fst e)) t),
     rx_values_rev = (\<lambda>t. map (\<lambda>k'. the (map_of t k')) (rev (sort (remdups (map fst t))))),
     rx_is_empty = (\<lambda>t. t = []),
     rx_len = (\<lambda>t. length (remdups (map fst t)))\<rparr>"

lemma map_of_filter_not: "map_of (filter (\<lambda>e. \<not> P (fst e)) t) k = (if P k then None else map_of t k)"
  by (induction t) auto

interpretation assoc: radix "assoc_ops :: (('c::linorder list \<times> 'x) list, 'c, 'x) radix_ops"
proof unfold_locales
  fix t :: "('c list \<times> 'x) list" and k
  show "\<exists>ks. sorted_wrt (<) ks \<and> set ks = {k'. strict_prefix k k' \<and> rx_get assoc_ops t k' \<noteq> None} \<and>
      rx_descendants assoc_ops t k = map (\<lambda>k'. the (rx_get assoc_ops t k')) ks"
    by (intro exI [of _ "sort (remdups (filter (strict_prefix k) (map fst t)))"])
      (auto simp: assoc_ops_def map_of_eq_None_iff strict_sorted_iff)
  show "\<exists>ks. sorted_wrt (>) ks \<and> set ks = dom (rx_get assoc_ops t) \<and>
      rx_values_rev assoc_ops t = map (\<lambda>k'. the (rx_get assoc_ops t k')) ks"
    by (intro exI [of _ "rev (sort (remdups (map fst t)))"])
      (auto simp: assoc_ops_def dom_map_of_conv_image_fst sorted_wrt_rev strict_sorted_iff)
  show "rx_len assoc_ops t = card (dom (rx_get assoc_ops t))"
    by (simp add: assoc_ops_def dom_map_of_conv_image_fst length_remdups_card_conv)
qed (auto simp: assoc_ops_def map_of_filter_not)

end
