(* ===== verification/Subsumer.thy ===== *)
theory Subsumer
  imports Umbrella_Event Radix
begin

text \<open>
  The overlap-subsumption engine (\<open>subsume/mod.rs\<close>): overlapping caller subscriptions folded onto
  pairwise-disjoint roots.

  \<^item> The two immutable trees and the per-key cohort tree are \<open>iradix\<close> trees; their operations are the
    record \<open>radices\<close> every operation takes. The cohort is keyed by the subscription id, whose byte
    decomposition orders as the number does, so its key is the one-element list of the id.
  \<^item> The shared \<open>arc_swap\<close> slot is the field \<open>sm_shared\<close>; a publication is an assignment to it.
  \<^item> An \<open>expect\<close> that fails is the value \<open>None\<close> of the operation.
  \<^item> The \<open>Salvage\<close> bundles, which only place the destructors of caller values, are not modelled, so an
    operation returns what the code returns beside its bundle.
\<close>

section \<open>State\<close>

datatype glob = Glob (glob_str: string)

record root_globs =
  rg_prune :: "glob list"
  rg_include :: "glob list option"

definition root_globs_new :: root_globs where
  "root_globs_new = \<lparr>rg_prune = [], rg_include = None\<rparr>"

record ('c, 'h) root_record =
  rr_key :: "'c list"
  rr_handle :: 'h
  rr_globs :: root_globs
  rr_retained_cover :: "'c list list option"

record ('c, 'h) sub_record =
  sr_root :: 'h
  sr_key :: "'c list"
  sr_interest :: delivery_interest

record ('c, 'v) pending_watch =
  pw_key :: "'c list"
  pw_value :: 'v
  pw_interest :: delivery_interest

record ('t, 'u) published =
  pb_roots :: 't
  pb_covers :: 'u

record ('t, 'u, 'c, 'v, 'h) subsumer =
  sm_index :: 't
  sm_covers :: 'u
  sm_by_handle :: "'h \<rightharpoonup> 'c list"
  sm_root_subs :: "'h \<rightharpoonup> subscription list"
  sm_subs :: "subscription \<rightharpoonup> ('c, 'h) sub_record"
  sm_pending :: "subscription \<rightharpoonup> ('c, 'v) pending_watch"
  sm_instance :: u64
  sm_next_sub :: u64
  sm_shared :: "('t, 'u) published"

record ('t, 'u, 'w, 'c, 'v, 'h) radices =
  rd_index :: "('t, 'c, ('c, 'h) root_record) radix_ops"
  rd_covers :: "('u, 'c, 'w) radix_ops"
  rd_cohort :: "('w, u64, 'v) radix_ops"

datatype 'h watch_outcome =
    Covered (wo_root: 'h) (wo_sub: subscription) (wo_outside: bool)
  | Widen (wo_repointed: "subscription list") (wo_unwatch: "'h list") (wo_sub: subscription)
  | Disjoint (wo_sub: subscription)

datatype words_conflict = Differ | Anchored

record ('v, 'h) words_refusal =
  wr_root :: 'h
  wr_reason :: words_conflict
  wr_root_depth :: nat
  wr_armed :: root_globs
  wr_value :: 'v

datatype ('c, 'h) unwatch_outcome =
    Dropped "('h \<times> 'c list list) option"
  | RootEmptied 'h

definition refusal_against ::
  "('c, 'h) root_record \<Rightarrow> 'v \<Rightarrow> words_conflict \<Rightarrow> ('v, 'h) words_refusal" where
  "refusal_against record v reason =
     \<lparr>wr_root = rr_handle record, wr_reason = reason, wr_root_depth = length (rr_key record),
      wr_armed = rr_globs record, wr_value = v\<rparr>"

definition covered_outside :: "('c, 'h) root_record \<Rightarrow> 'c list \<Rightarrow> bool" where
  "covered_outside record key =
     (case rr_retained_cover record of
        None \<Rightarrow> False
      | Some cover \<Rightarrow> \<not> list_ex (\<lambda>p. starts_with key p) cover)"

section \<open>The coverage plane\<close>

definition cover_value :: "('w, u64, 'v) radix_ops \<Rightarrow> 'w \<Rightarrow> 'v option" where
  "cover_value co e = (case rx_values_rev co e of [] \<Rightarrow> None | v # _ \<Rightarrow> Some v)"

definition cover_value_of :: "('w, u64, 'v) radix_ops \<Rightarrow> 'w \<Rightarrow> subscription \<Rightarrow> 'v option" where
  "cover_value_of co e s = rx_get co e [sub_scope s]"

definition cover_push :: "('w, u64, 'v) radix_ops \<Rightarrow> subscription \<Rightarrow> 'v \<Rightarrow> 'w \<Rightarrow> 'w" where
  "cover_push co s v e = rx_insert co [sub_scope s] v e"

definition cover_take :: "('w, u64, 'v) radix_ops \<Rightarrow> subscription \<Rightarrow> 'w \<Rightarrow> 'w" where
  "cover_take co s e = rx_remove co [sub_scope s] e"

definition cover_take_all :: "('w, u64, 'v) radix_ops \<Rightarrow> subscription list \<Rightarrow> 'w \<Rightarrow> 'w" where
  "cover_take_all co ss e = foldl (\<lambda>e s. cover_take co s e) e ss"

definition cover_add ::
  "('t, 'u, 'w, 'c, 'v, 'h) radices \<Rightarrow> subscription \<Rightarrow> 'c list \<Rightarrow> 'v
     \<Rightarrow> ('t, 'u, 'c, 'v, 'h) subsumer \<Rightarrow> ('t, 'u, 'c, 'v, 'h) subsumer" where
  "cover_add rd s key v st =
     (let entry = (case rx_get (rd_covers rd) (sm_covers st) key of
                     None \<Rightarrow> rx_new (rd_cohort rd) | Some e \<Rightarrow> e)
      in st\<lparr>sm_covers := rx_insert (rd_covers rd) key (cover_push (rd_cohort rd) s v entry) (sm_covers st)\<rparr>)"

definition cover_remove ::
  "('t, 'u, 'w, 'c, 'v, 'h) radices \<Rightarrow> subscription \<Rightarrow> 'c list
     \<Rightarrow> ('t, 'u, 'c, 'v, 'h) subsumer \<Rightarrow> ('t, 'u, 'c, 'v, 'h) subsumer" where
  "cover_remove rd s key st =
     (case rx_get (rd_covers rd) (sm_covers st) key of
        None \<Rightarrow> st
      | Some e \<Rightarrow>
          (let e' = cover_take (rd_cohort rd) s e
           in if rx_is_empty (rd_cohort rd) e'
              then st\<lparr>sm_covers := rx_remove (rd_covers rd) key (sm_covers st)\<rparr>
              else st\<lparr>sm_covers := rx_insert (rd_covers rd) key e' (sm_covers st)\<rparr>))"

definition publish :: "('t, 'u, 'c, 'v, 'h) subsumer \<Rightarrow> ('t, 'u, 'c, 'v, 'h) subsumer" where
  "publish st = st\<lparr>sm_shared := \<lparr>pb_roots = sm_index st, pb_covers = sm_covers st\<rparr>\<rparr>"

definition swap_in_empty ::
  "('t, 'u, 'w, 'c, 'v, 'h) radices \<Rightarrow> ('t, 'u, 'c, 'v, 'h) subsumer \<Rightarrow> ('t, 'u, 'c, 'v, 'h) subsumer"
  where
  "swap_in_empty rd st =
     st\<lparr>sm_shared := \<lparr>pb_roots = rx_new (rd_index rd), pb_covers = rx_new (rd_covers rd)\<rparr>\<rparr>"

text \<open>The brand is minted from a process-wide counter, the argument \<open>inst\<close> here.\<close>

definition subsumer_new ::
  "('t, 'u, 'w, 'c, 'v, 'h) radices \<Rightarrow> u64 \<Rightarrow> ('t, 'u, 'c, 'v, 'h) subsumer" where
  "subsumer_new rd inst =
     \<lparr>sm_index = rx_new (rd_index rd), sm_covers = rx_new (rd_covers rd), sm_by_handle = Map.empty,
      sm_root_subs = Map.empty, sm_subs = Map.empty, sm_pending = Map.empty, sm_instance = inst,
      sm_next_sub = 1,
      sm_shared = \<lparr>pb_roots = rx_new (rd_index rd), pb_covers = rx_new (rd_covers rd)\<rparr>\<rparr>"

section \<open>Watch\<close>

definition mint_subscription ::
  "('t, 'u, 'c, 'v, 'h) subsumer \<Rightarrow> (subscription \<times> ('t, 'u, 'c, 'v, 'h) subsumer) option" where
  "mint_subscription st =
     (case checked_add (sm_next_sub st) 1 of
        None \<Rightarrow> None
      | Some n \<Rightarrow> Some (Subscription (sm_instance st) (sm_next_sub st), st\<lparr>sm_next_sub := n\<rparr>))"

definition reserve ::
  "'c list \<Rightarrow> 'v \<Rightarrow> delivery_interest \<Rightarrow> ('t, 'u, 'c, 'v, 'h) subsumer
     \<Rightarrow> (subscription \<times> ('t, 'u, 'c, 'v, 'h) subsumer) option" where
  "reserve key v i st =
     (case mint_subscription st of
        None \<Rightarrow> None
      | Some (s, st1) \<Rightarrow> Some (s, st1\<lparr>sm_pending := (sm_pending st1)
          (s \<mapsto> \<lparr>pw_key = key, pw_value = v, pw_interest = i\<rparr>)\<rparr>))"

text \<open>The loop over the subsumed roots: the first conflict refuses the widen.\<close>

fun widen_loop ::
  "root_globs \<Rightarrow> ('h \<rightharpoonup> subscription list) \<Rightarrow> ('c, 'h) root_record list
     \<Rightarrow> (('c, 'h) root_record \<times> words_conflict) + (subscription list \<times> 'h list)" where
  "widen_loop globs cohorts [] = Inr ([], [])"
| "widen_loop globs cohorts (record # records) =
     (if rr_globs record \<noteq> globs then Inl (record, Differ)
      else if rg_prune globs \<noteq> [] \<or> rg_prune (rr_globs record) \<noteq> [] then Inl (record, Anchored)
      else case widen_loop globs cohorts records of
          Inl e \<Rightarrow> Inl e
        | Inr (repointed, unwatch) \<Rightarrow>
            Inr ((case cohorts (rr_handle record) of None \<Rightarrow> [] | Some c \<Rightarrow> c) @ repointed,
                 rr_handle record # unwatch))"

definition plan_watch ::
  "('t, 'u, 'w, 'c, 'v, 'h) radices \<Rightarrow> 'c list \<Rightarrow> 'v \<Rightarrow> delivery_interest \<Rightarrow> root_globs
     \<Rightarrow> ('t, 'u, 'c, 'v, 'h) subsumer
     \<Rightarrow> ((('v, 'h) words_refusal + 'h watch_outcome) \<times> ('t, 'u, 'c, 'v, 'h) subsumer) option" where
  "plan_watch rd key v i globs st =
     (case rx_get_ancestor (rd_index rd) (sm_index st) key of
        Some record \<Rightarrow>
          if rr_globs record \<noteq> globs then Some (Inl (refusal_against record v Differ), st)
          else if length (rr_key record) \<noteq> length key \<and> rg_prune globs \<noteq> []
          then Some (Inl (refusal_against record v Anchored), st)
          else map_option (\<lambda>(s, st1). (Inr (Covered (rr_handle record) s (covered_outside record key)), st1))
                 (reserve key v i st)
      | None \<Rightarrow>
          (case widen_loop globs (sm_root_subs st) (rx_descendants (rd_index rd) (sm_index st) key) of
             Inl (record, reason) \<Rightarrow> Some (Inl (refusal_against record v reason), st)
           | Inr (repointed, unwatch) \<Rightarrow>
               if unwatch \<noteq> []
               then map_option (\<lambda>(s, st1). (Inr (Widen repointed unwatch s), st1)) (reserve key v i st)
               else map_option (\<lambda>(s, st1). (Inr (Disjoint s), st1)) (reserve key v i st)))"

definition take_pending ::
  "subscription \<Rightarrow> ('t, 'u, 'c, 'v, 'h) subsumer
     \<Rightarrow> (('c, 'v) pending_watch \<times> ('t, 'u, 'c, 'v, 'h) subsumer) option" where
  "take_pending s st =
     (case sm_pending st s of
        None \<Rightarrow> None
      | Some p \<Rightarrow> Some (p, st\<lparr>sm_pending := (sm_pending st)(s := None)\<rparr>))"

text \<open>Re-pointing panics on a subscription that is not live.\<close>

fun repoint_subs ::
  "'h \<Rightarrow> subscription list \<Rightarrow> (subscription \<rightharpoonup> ('c, 'h) sub_record) \<Rightarrow> (subscription \<rightharpoonup> ('c, 'h) sub_record) option"
  where
  "repoint_subs h [] m = Some m"
| "repoint_subs h (s # ss) m =
     (case m s of None \<Rightarrow> None | Some r \<Rightarrow> repoint_subs h ss (m(s \<mapsto> r\<lparr>sr_root := h\<rparr>)))"

definition drop_handles :: "'h list \<Rightarrow> ('h \<rightharpoonup> 'x) \<Rightarrow> ('h \<rightharpoonup> 'x)" where
  "drop_handles hs m = foldl (\<lambda>m h. m(h := None)) m hs"

definition install_sub ::
  "('t, 'u, 'w, 'c, 'v, 'h) radices \<Rightarrow> subscription \<Rightarrow> 'h \<Rightarrow> 'c list \<Rightarrow> 'v \<Rightarrow> delivery_interest
     \<Rightarrow> ('t, 'u, 'c, 'v, 'h) subsumer \<Rightarrow> ('t, 'u, 'c, 'v, 'h) subsumer" where
  "install_sub rd s h key v i st =
     (let st1 = cover_add rd s key v st
      in publish (st1\<lparr>sm_subs := (sm_subs st1)(s \<mapsto> \<lparr>sr_root = h, sr_key = key, sr_interest = i\<rparr>)\<rparr>))"

definition fresh_root :: "'c list \<Rightarrow> 'h \<Rightarrow> root_globs \<Rightarrow> ('c, 'h) root_record" where
  "fresh_root key h globs =
     \<lparr>rr_key = key, rr_handle = h, rr_globs = globs, rr_retained_cover = None\<rparr>"

fun commit_watch ::
  "('t, 'u, 'w, 'c, 'v, 'h) radices \<Rightarrow> 'h watch_outcome \<Rightarrow> 'h \<Rightarrow> 'c list \<Rightarrow> root_globs
     \<Rightarrow> ('t, 'u, 'c, 'v, 'h) subsumer \<Rightarrow> ('t, 'u, 'c, 'v, 'h) subsumer option" where
  "commit_watch rd (Covered _ s _) fs_root fs_root_key globs st =
     (case take_pending s st of
        None \<Rightarrow> None
      | Some (p, st1) \<Rightarrow>
          (case sm_root_subs st1 fs_root of
             None \<Rightarrow> None
           | Some cohort \<Rightarrow>
               Some (install_sub rd s fs_root (pw_key p) (pw_value p) (pw_interest p)
                 (st1\<lparr>sm_root_subs := (sm_root_subs st1)(fs_root \<mapsto> cohort @ [s])\<rparr>))))"
| "commit_watch rd (Disjoint s) fs_root fs_root_key globs st =
     (case take_pending s st of
        None \<Rightarrow> None
      | Some (p, st1) \<Rightarrow>
          Some (install_sub rd s fs_root fs_root_key (pw_value p) (pw_interest p)
            (st1\<lparr>sm_index := rx_insert (rd_index rd) fs_root_key (fresh_root fs_root_key fs_root globs)
                    (sm_index st1),
                 sm_by_handle := (sm_by_handle st1)(fs_root \<mapsto> fs_root_key),
                 sm_root_subs := (sm_root_subs st1)(fs_root \<mapsto> [s])\<rparr>)))"
| "commit_watch rd (Widen repointed unwatch s) fs_root fs_root_key globs st =
     (case take_pending s st of
        None \<Rightarrow> None
      | Some (p, st1) \<Rightarrow>
          (case repoint_subs fs_root repointed (sm_subs st1) of
             None \<Rightarrow> None
           | Some subs \<Rightarrow>
               Some (install_sub rd s fs_root fs_root_key (pw_value p) (pw_interest p)
                 (st1\<lparr>sm_index := rx_insert (rd_index rd) fs_root_key (fresh_root fs_root_key fs_root globs)
                         (rx_remove_descendants (rd_index rd) fs_root_key (sm_index st1)),
                      sm_by_handle := (drop_handles unwatch (sm_by_handle st1))(fs_root \<mapsto> fs_root_key),
                      sm_root_subs := (drop_handles unwatch (sm_root_subs st1))
                        (fs_root \<mapsto> repointed @ [s]),
                      sm_subs := subs\<rparr>))))"

definition abort_watch ::
  "'h watch_outcome \<Rightarrow> ('t, 'u, 'c, 'v, 'h) subsumer \<Rightarrow> ('t, 'u, 'c, 'v, 'h) subsumer" where
  "abort_watch outcome st = st\<lparr>sm_pending := (sm_pending st)(wo_sub outcome := None)\<rparr>"

definition fs_path_preserves_plan ::
  "('t, 'u, 'w, 'c, 'v, 'h) radices \<Rightarrow> 'c list \<Rightarrow> 'h list \<Rightarrow> ('t, 'u, 'c, 'v, 'h) subsumer \<Rightarrow> bool" where
  "fs_path_preserves_plan rd fs_root_key planned_unwatch st \<longleftrightarrow>
     rx_get_ancestor (rd_index rd) (sm_index st) fs_root_key = None \<and>
     set (map rr_handle (rx_descendants (rd_index rd) (sm_index st) fs_root_key)) = set planned_unwatch"

section \<open>Unwatch and coverage\<close>

fun dedup_sorted :: "'a list \<Rightarrow> 'a list" where
  "dedup_sorted [] = []"
| "dedup_sorted (x # xs) =
     (case dedup_sorted xs of [] \<Rightarrow> [x] | y # ys \<Rightarrow> if x = y then y # ys else x # y # ys)"

definition antichain :: "'c::linorder list list \<Rightarrow> 'c list list" where
  "antichain keys =
     (let deduped = dedup_sorted (sort keys)
      in filter (\<lambda>key. \<not> list_ex (\<lambda>other. length other < length key \<and> starts_with key other) deduped) deduped)"

fun keys_of ::
  "(subscription \<rightharpoonup> ('c, 'h) sub_record) \<Rightarrow> subscription list \<Rightarrow> 'c list list option" where
  "keys_of m [] = Some []"
| "keys_of m (s # ss) =
     (case m s of None \<Rightarrow> None | Some r \<Rightarrow> map_option ((#) (sr_key r)) (keys_of m ss))"

definition detect_shrink ::
  "('t, 'u, 'w, 'c::linorder, 'v, 'h) radices \<Rightarrow> 'c list \<Rightarrow> 'h \<Rightarrow> subscription list
     \<Rightarrow> ('t, 'u, 'c, 'v, 'h) subsumer \<Rightarrow> ('h \<times> 'c list list) option option" where
  "detect_shrink rd root_key root_handle survivors st =
     (case keys_of (sm_subs st) survivors of
        None \<Rightarrow> None
      | Some survivor_keys \<Rightarrow> Some
          (case Option.bind (rx_get (rd_index rd) (sm_index st) root_key) rr_retained_cover of
             None \<Rightarrow>
               if list_ex (\<lambda>k. k = root_key) survivor_keys then None
               else Some (root_handle, antichain survivor_keys)
           | Some cover \<Rightarrow>
               (let a = antichain survivor_keys;
                    contained = list_all (\<lambda>k. list_ex (\<lambda>c. starts_with k c) cover) a
                in if contained \<and> a \<noteq> cover then Some (root_handle, a) else None)))"

definition plan_unwatch ::
  "('t, 'u, 'w, 'c::linorder, 'v, 'h) radices \<Rightarrow> subscription \<Rightarrow> ('t, 'u, 'c, 'v, 'h) subsumer
     \<Rightarrow> (('c, 'h) unwatch_outcome option \<times> ('t, 'u, 'c, 'v, 'h) subsumer) option" where
  "plan_unwatch rd s st =
     (case sm_subs st s of
        None \<Rightarrow> Some (None, st)
      | Some record \<Rightarrow>
          (let st1 = st\<lparr>sm_subs := (sm_subs st)(s := None)\<rparr>; h = sr_root record
           in case sm_by_handle st1 h of
                None \<Rightarrow> None
              | Some root_key \<Rightarrow>
                  (case sm_root_subs st1 h of
                     None \<Rightarrow> None
                   | Some cohort \<Rightarrow>
                       (let survivors = filter (\<lambda>x. x \<noteq> s) cohort;
                            st2 = st1\<lparr>sm_root_subs := (sm_root_subs st1)(h \<mapsto> survivors)\<rparr>
                        in if survivors = []
                           then
                             (let st3 = cover_remove rd s (sr_key record)
                                    (st2\<lparr>sm_index := rx_remove (rd_index rd) root_key (sm_index st2)\<rparr>)
                              in Some (Some (RootEmptied h),
                                   publish (st3\<lparr>sm_by_handle := (sm_by_handle st3)(h := None),
                                                sm_root_subs := (sm_root_subs st3)(h := None)\<rparr>)))
                           else
                             (let st3 = cover_remove rd s (sr_key record) st2
                              in case detect_shrink rd root_key h survivors st3 of
                                   None \<Rightarrow> None
                                 | Some shrink \<Rightarrow> Some (Some (Dropped shrink), publish st3))))))"

definition retained_cover_for ::
  "('t, 'u, 'w, 'c::linorder, 'v, 'h) radices \<Rightarrow> 'h \<Rightarrow> 'c list option \<Rightarrow> ('t, 'u, 'c, 'v, 'h) subsumer
     \<Rightarrow> 'c list list option option" where
  "retained_cover_for rd h newcomer st =
     (case sm_by_handle st h of
        None \<Rightarrow> Some None
      | Some root_key \<Rightarrow>
          (case rx_get (rd_index rd) (sm_index st) root_key of
             None \<Rightarrow> Some None
           | Some _ \<Rightarrow>
               (case keys_of (sm_subs st) (case sm_root_subs st h of None \<Rightarrow> [] | Some c \<Rightarrow> c) of
                  None \<Rightarrow> None
                | Some ks \<Rightarrow>
                    (let keys = ks @ (case newcomer of None \<Rightarrow> [] | Some extra \<Rightarrow> [extra])
                     in Some (if list_ex (\<lambda>k. k = root_key) keys then None else Some (antichain keys))))))"

definition set_retained_cover ::
  "('t, 'u, 'w, 'c, 'v, 'h) radices \<Rightarrow> 'h \<Rightarrow> 'c list list option \<Rightarrow> ('t, 'u, 'c, 'v, 'h) subsumer
     \<Rightarrow> ('t, 'u, 'c, 'v, 'h) subsumer" where
  "set_retained_cover rd h cover st =
     (case sm_by_handle st h of
        None \<Rightarrow> st
      | Some root_key \<Rightarrow>
          (case rx_get (rd_index rd) (sm_index st) root_key of
             None \<Rightarrow> st
           | Some record \<Rightarrow>
               publish (st\<lparr>sm_index := rx_insert (rd_index rd) root_key
                  (record\<lparr>rr_retained_cover := cover\<rparr>) (sm_index st)\<rparr>)))"

definition degrade_retained_cover ::
  "('t, 'u, 'w, 'c, 'v, 'h) radices \<Rightarrow> 'h \<Rightarrow> ('t, 'u, 'c, 'v, 'h) subsumer \<Rightarrow> ('t, 'u, 'c, 'v, 'h) subsumer"
  where
  "degrade_retained_cover rd h st =
     (case sm_by_handle st h of
        None \<Rightarrow> st
      | Some root_key \<Rightarrow>
          (case rx_get (rd_index rd) (sm_index st) root_key of
             None \<Rightarrow> st
           | Some record \<Rightarrow>
               if rr_retained_cover record = None \<or> rr_retained_cover record = Some [] then st
               else publish (st\<lparr>sm_index := rx_insert (rd_index rd) root_key
                  (record\<lparr>rr_retained_cover := Some []\<rparr>) (sm_index st)\<rparr>)))"

section \<open>Roots\<close>

definition entry ::
  "('t, 'u, 'w, 'c, 'v, 'h) radices \<Rightarrow> 'h \<Rightarrow> ('t, 'u, 'c, 'v, 'h) subsumer \<Rightarrow> ('c, 'h) root_record option"
  where
  "entry rd h st = Option.bind (sm_by_handle st h) (rx_get (rd_index rd) (sm_index st))"

definition root_view ::
  "('t, 'u, 'w, 'c, 'v, 'h) radices \<Rightarrow> 'h \<Rightarrow> ('t, 'u, 'c, 'v, 'h) subsumer
     \<Rightarrow> ('c list \<times> subscription list) option" where
  "root_view rd h st =
     map_option (\<lambda>record. (rr_key record, case sm_root_subs st h of None \<Rightarrow> [] | Some c \<Rightarrow> c))
       (entry rd h st)"

definition root_globs_of ::
  "('t, 'u, 'w, 'c, 'v, 'h) radices \<Rightarrow> 'h \<Rightarrow> ('t, 'u, 'c, 'v, 'h) subsumer \<Rightarrow> root_globs option" where
  "root_globs_of rd h st = map_option rr_globs (entry rd h st)"

text \<open>
  \<open>force_remove_root\<close>: the departing subscriptions that are live, with their keys; then, key by key in
  ascending order, each entry loses its departing members under one edit.
\<close>

fun departing_subs ::
  "subscription list \<Rightarrow> (subscription \<rightharpoonup> ('c, 'h) sub_record)
     \<Rightarrow> (subscription \<times> 'c list) list \<times> (subscription \<rightharpoonup> ('c, 'h) sub_record)" where
  "departing_subs [] m = ([], m)"
| "departing_subs (s # ss) m =
     (case m s of
        None \<Rightarrow> departing_subs ss m
      | Some r \<Rightarrow> (let (ds, m') = departing_subs ss (m(s := None)) in ((s, sr_key r) # ds, m')))"

definition cover_remove_group ::
  "('t, 'u, 'w, 'c, 'v, 'h) radices \<Rightarrow> (subscription \<times> 'c list) list \<Rightarrow> 'c list \<Rightarrow> 'u \<Rightarrow> 'u" where
  "cover_remove_group rd departing key t =
     (case rx_get (rd_covers rd) t key of
        None \<Rightarrow> t
      | Some e \<Rightarrow>
          (let e' = cover_take_all (rd_cohort rd) (map fst (filter (\<lambda>d. snd d = key) departing)) e
           in if rx_is_empty (rd_cohort rd) e' then rx_remove (rd_covers rd) key t
              else rx_insert (rd_covers rd) key e' t))"

definition force_remove_root ::
  "('t, 'u, 'w, 'c::linorder, 'v, 'h) radices \<Rightarrow> 'h \<Rightarrow> ('t, 'u, 'c, 'v, 'h) subsumer
     \<Rightarrow> (subscription list \<times> ('t, 'u, 'c, 'v, 'h) subsumer) option" where
  "force_remove_root rd h st =
     (case sm_by_handle st h of
        None \<Rightarrow> Some ([], st)
      | Some root_key \<Rightarrow>
          (case rx_get (rd_index rd) (sm_index st) root_key of
             None \<Rightarrow> None
           | Some _ \<Rightarrow>
               (let subscribers = (case sm_root_subs st h of None \<Rightarrow> [] | Some c \<Rightarrow> c);
                    (departing, subs) = departing_subs subscribers (sm_subs st);
                    keys = dedup_sorted (sort (map snd departing))
                in Some (subscribers, publish (st\<lparr>
                     sm_by_handle := (sm_by_handle st)(h := None),
                     sm_index := rx_remove (rd_index rd) root_key (sm_index st),
                     sm_root_subs := (sm_root_subs st)(h := None),
                     sm_subs := subs,
                     sm_covers := foldl (\<lambda>t k. cover_remove_group rd departing k t) (sm_covers st) keys\<rparr>)))))"

text \<open>A re-armed root's subscribers move to the new handle; one that is not live is skipped.\<close>

definition move_subs ::
  "'h \<Rightarrow> subscription list \<Rightarrow> (subscription \<rightharpoonup> ('c, 'h) sub_record) \<Rightarrow> (subscription \<rightharpoonup> ('c, 'h) sub_record)"
  where
  "move_subs h ss m =
     (\<lambda>s. if s \<in> set ss then map_option (\<lambda>r. r\<lparr>sr_root := h\<rparr>) (m s) else m s)"

definition rebind_root ::
  "('t, 'u, 'w, 'c, 'v, 'h) radices \<Rightarrow> 'h \<Rightarrow> 'h \<Rightarrow> ('t, 'u, 'c, 'v, 'h) subsumer
     \<Rightarrow> ('t, 'u, 'c, 'v, 'h) subsumer" where
  "rebind_root rd old new st =
     (case sm_by_handle st old of
        None \<Rightarrow> st
      | Some root_key \<Rightarrow>
          (case rx_get (rd_index rd) (sm_index st) root_key of
             None \<Rightarrow> st
           | Some record \<Rightarrow>
               (let subscribers = (case sm_root_subs st old of None \<Rightarrow> [] | Some c \<Rightarrow> c)
                in publish (st\<lparr>
                     sm_index := rx_insert (rd_index rd) root_key (record\<lparr>rr_handle := new\<rparr>) (sm_index st),
                     sm_by_handle := (sm_by_handle st)(old := None, new \<mapsto> root_key),
                     sm_subs := move_subs new subscribers (sm_subs st),
                     sm_root_subs := (sm_root_subs st)(old := None, new \<mapsto> subscribers)\<rparr>))))"

definition subscription_value ::
  "('t, 'u, 'w, 'c, 'v, 'h) radices \<Rightarrow> subscription \<Rightarrow> ('t, 'u, 'c, 'v, 'h) subsumer \<Rightarrow> 'v option" where
  "subscription_value rd s st =
     Option.bind (sm_subs st s) (\<lambda>r.
       Option.bind (rx_get (rd_covers rd) (sm_covers st) (sr_key r)) (\<lambda>e. cover_value_of (rd_cohort rd) e s))"

definition subscription_key :: "subscription \<Rightarrow> ('t, 'u, 'c, 'v, 'h) subsumer \<Rightarrow> 'c list option" where
  "subscription_key s st = map_option sr_key (sm_subs st s)"

definition subscription_root :: "subscription \<Rightarrow> ('t, 'u, 'c, 'v, 'h) subsumer \<Rightarrow> 'h option" where
  "subscription_root s st = map_option sr_root (sm_subs st s)"

definition subscription_interest ::
  "subscription \<Rightarrow> ('t, 'u, 'c, 'v, 'h) subsumer \<Rightarrow> delivery_interest option" where
  "subscription_interest s st = map_option sr_interest (sm_subs st s)"

section \<open>The read plane\<close>

definition is_watched ::
  "('t, 'u, 'w, 'c, 'v, 'h) radices \<Rightarrow> ('t, 'u) published \<Rightarrow> 'c list \<Rightarrow> bool" where
  "is_watched rd pb key \<longleftrightarrow> rx_get_ancestor (rd_covers rd) (pb_covers pb) key \<noteq> None"

definition contains ::
  "('t, 'u, 'w, 'c, 'v, 'h) radices \<Rightarrow> ('t, 'u) published \<Rightarrow> 'c list \<Rightarrow> bool" where
  "contains rd pb key \<longleftrightarrow> rx_get (rd_index rd) (pb_roots pb) key \<noteq> None"

text \<open>The outer option is \<open>covering\<close>'s; \<open>CoverEntry::value\<close> panics on an empty entry.\<close>

definition covering ::
  "('t, 'u, 'w, 'c, 'v, 'h) radices \<Rightarrow> ('t, 'u) published \<Rightarrow> 'c list \<Rightarrow> 'v option option" where
  "covering rd pb key =
     (case rx_get_ancestor (rd_covers rd) (pb_covers pb) key of
        None \<Rightarrow> Some None
      | Some e \<Rightarrow> map_option Some (cover_value (rd_cohort rd) e))"

definition view_len ::
  "('t, 'u, 'w, 'c, 'v, 'h) radices \<Rightarrow> ('t, 'u) published \<Rightarrow> nat" where
  "view_len rd pb = rx_len (rd_index rd) (pb_roots pb)"

definition view_is_empty ::
  "('t, 'u, 'w, 'c, 'v, 'h) radices \<Rightarrow> ('t, 'u) published \<Rightarrow> bool" where
  "view_is_empty rd pb \<longleftrightarrow> rx_is_empty (rd_index rd) (pb_roots pb)"

end
