(* ===== verification/Subsumer_Correct.thy ===== *)
theory Subsumer_Correct
  imports Subsumer
begin

text \<open>
  What the subsumption engine keeps. Everything is stated over three readings of the state: the roots
  (\<open>roots\<close>), the value held for a subscription id at a key (\<open>cov\<close>) and the side tables. The locale
  \<open>subsumption\<close> puts the laws of the three radix trees together; the step lemmas are proved once in it
  and the engine's histories are the reachable states of \<open>sm_reach\<close>.
\<close>

section \<open>Readings and invariant\<close>

definition roots ::
  "('t, 'u, 'w, 'c, 'v, 'h) radices \<Rightarrow> ('t, 'u, 'c, 'v, 'h) subsumer \<Rightarrow> 'c list \<rightharpoonup> ('c, 'h) root_record" where
  "roots rd st = rx_get (rd_index rd) (sm_index st)"

definition cov ::
  "('t, 'u, 'w, 'c, 'v, 'h) radices \<Rightarrow> 'u \<Rightarrow> 'c list \<Rightarrow> u64 \<rightharpoonup> 'v" where
  "cov rd t k i = Option.bind (rx_get (rd_covers rd) t k) (\<lambda>e. rx_get (rd_cohort rd) e [i])"

definition cov_ok :: "('t, 'u, 'w, 'c, 'v, 'h) radices \<Rightarrow> 'u \<Rightarrow> bool" where
  "cov_ok rd t \<longleftrightarrow> (\<forall>k e. rx_get (rd_covers rd) t k = Some e \<longrightarrow>
     rx_get (rd_cohort rd) e \<noteq> Map.empty \<and> (\<forall>x. rx_get (rd_cohort rd) e x \<noteq> None \<longrightarrow> length x = 1))"

definition roots_ok :: "('c list \<rightharpoonup> ('c, 'h) root_record) \<Rightarrow> ('h \<rightharpoonup> 'c list) \<Rightarrow> bool" where
  "roots_ok rs bh \<longleftrightarrow>
     (\<forall>k r. rs k = Some r \<longrightarrow> rr_key r = k \<and> bh (rr_handle r) = Some k) \<and>
     (\<forall>h k. bh h = Some k \<longrightarrow> (\<exists>r. rs k = Some r \<and> rr_handle r = h)) \<and>
     (\<forall>k k'. rs k \<noteq> None \<longrightarrow> rs k' \<noteq> None \<longrightarrow> prefix k k' \<longrightarrow> k = k')"

definition cohorts_ok ::
  "('h \<rightharpoonup> 'c list) \<Rightarrow> ('h \<rightharpoonup> subscription list) \<Rightarrow> (subscription \<rightharpoonup> ('c, 'h) sub_record) \<Rightarrow> bool" where
  "cohorts_ok bh rs subs \<longleftrightarrow> dom rs = dom bh \<and>
     (\<forall>h c. rs h = Some c \<longrightarrow> c \<noteq> [] \<and> distinct c \<and>
        (\<forall>s. s \<in> set c \<longleftrightarrow> (\<exists>r. subs s = Some r \<and> sr_root r = h))) \<and>
     (\<forall>s r. subs s = Some r \<longrightarrow> (\<exists>k. bh (sr_root r) = Some k \<and> prefix k (sr_key r)))"

definition attribution_ok ::
  "('t, 'u, 'w, 'c, 'v, 'h) radices \<Rightarrow> u64 \<Rightarrow> 'u \<Rightarrow> (subscription \<rightharpoonup> ('c, 'h) sub_record) \<Rightarrow> bool" where
  "attribution_ok rd inst t subs \<longleftrightarrow> cov_ok rd t \<and>
     (\<forall>k i. cov rd t k i \<noteq> None \<longleftrightarrow> (\<exists>r. subs (Subscription inst i) = Some r \<and> sr_key r = k))"

definition ids_ok ::
  "u64 \<Rightarrow> u64 \<Rightarrow> (subscription \<rightharpoonup> ('c, 'h) sub_record) \<Rightarrow> (subscription \<rightharpoonup> ('c, 'v) pending_watch) \<Rightarrow> bool" where
  "ids_ok inst next subs pending \<longleftrightarrow>
     (\<forall>s. subs s \<noteq> None \<or> pending s \<noteq> None \<longrightarrow> sub_instance s = inst \<and> sub_scope s < next) \<and>
     (\<forall>s. subs s = None \<or> pending s = None)"

definition sm_inv ::
  "('t, 'u, 'w, 'c, 'v, 'h) radices \<Rightarrow> ('t, 'u, 'c, 'v, 'h) subsumer \<Rightarrow> bool" where
  "sm_inv rd st \<longleftrightarrow>
     roots_ok (roots rd st) (sm_by_handle st) \<and>
     cohorts_ok (sm_by_handle st) (sm_root_subs st) (sm_subs st) \<and>
     attribution_ok rd (sm_instance st) (sm_covers st) (sm_subs st) \<and>
     ids_ok (sm_instance st) (sm_next_sub st) (sm_subs st) (sm_pending st) \<and>
     sm_shared st = \<lparr>pb_roots = sm_index st, pb_covers = sm_covers st\<rparr>"

lemma publish_simps [simp]:
  "sm_index (publish st) = sm_index st" "sm_covers (publish st) = sm_covers st"
  "sm_by_handle (publish st) = sm_by_handle st" "sm_root_subs (publish st) = sm_root_subs st"
  "sm_subs (publish st) = sm_subs st" "sm_pending (publish st) = sm_pending st"
  "sm_instance (publish st) = sm_instance st" "sm_next_sub (publish st) = sm_next_sub st"
  "sm_shared (publish st) = \<lparr>pb_roots = sm_index st, pb_covers = sm_covers st\<rparr>"
  "roots rd (publish st) = roots rd st"
  by (simp_all add: publish_def roots_def)

lemma sub_eta: "Subscription (sub_instance s) (sub_scope s) = s"
  by (cases s) simp

section \<open>The coverage plane\<close>

locale subsumption =
  index: radix "rd_index rd" + covers: radix "rd_covers rd" + cohort: radix "rd_cohort rd"
  for rd :: "('t, 'u, 'w, 'c::linorder, 'v, 'h) radices"
begin

definition covers_after_add where
  "covers_after_add s key v t =
     rx_insert (rd_covers rd) key
       (cover_push (rd_cohort rd) s v (case rx_get (rd_covers rd) t key of None \<Rightarrow> rx_new (rd_cohort rd) | Some e \<Rightarrow> e)) t"

lemma cover_add_eq: "cover_add rd s key v st = st\<lparr>sm_covers := covers_after_add s key v (sm_covers st)\<rparr>"
  by (simp add: cover_add_def covers_after_add_def Let_def)

lemma cov_new: "cov rd (rx_new (rd_covers rd)) k i = None"
  by (simp add: cov_def covers.get_new)

lemma cov_add:
  "cov rd (covers_after_add s key v t) k i = (if k = key \<and> i = sub_scope s then Some v else cov rd t k i)"
  by (auto simp: covers_after_add_def cov_def covers.get_insert cover_push_def cohort.get_insert cohort.get_new
      split: option.splits)

lemma cov_ok_add: "cov_ok rd t \<Longrightarrow> cov_ok rd (covers_after_add s key v t)"
  by (auto simp: covers_after_add_def cov_ok_def covers.get_insert cover_push_def cohort.get_insert cohort.get_new
      split: option.splits if_splits)

definition covers_after_remove where
  "covers_after_remove ids key t =
     (case rx_get (rd_covers rd) t key of
        None \<Rightarrow> t
      | Some e \<Rightarrow>
          (let e' = cover_take_all (rd_cohort rd) ids e
           in if rx_is_empty (rd_cohort rd) e' then rx_remove (rd_covers rd) key t
              else rx_insert (rd_covers rd) key e' t))"

lemma cover_remove_eq:
  "cover_remove rd s key st = st\<lparr>sm_covers := covers_after_remove [s] key (sm_covers st)\<rparr>"
  by (simp add: cover_remove_def covers_after_remove_def cover_take_all_def Let_def split: option.splits)

lemma get_take_all:
  "rx_get (rd_cohort rd) (cover_take_all (rd_cohort rd) ss e) x =
     (if \<exists>s \<in> set ss. x = [sub_scope s] then None else rx_get (rd_cohort rd) e x)"
  unfolding cover_take_all_def
  by (induction ss arbitrary: e) (auto simp: cover_take_def cohort.get_remove)

lemma cov_remove:
  "cov rd (covers_after_remove ss key t) k i =
     (if k = key \<and> i \<in> sub_scope ` set ss then None else cov rd t k i)"
proof (cases "rx_get (rd_covers rd) t key")
  case None
  then show ?thesis by (auto simp: covers_after_remove_def cov_def)
next
  case (Some e)
  let ?e = "cover_take_all (rd_cohort rd) ss e"
  have "rx_get (rd_cohort rd) ?e [i] = (if i \<in> sub_scope ` set ss then None else rx_get (rd_cohort rd) e [i])"
    by (auto simp: get_take_all)
  moreover have "rx_get (rd_cohort rd) ?e [i] = None" if "rx_is_empty (rd_cohort rd) ?e"
    using that by (simp add: cohort.is_empty)
  ultimately show ?thesis using Some
    by (auto simp: covers_after_remove_def cov_def Let_def covers.get_insert covers.get_remove)
qed

lemma cov_ok_remove:
  assumes "cov_ok rd t"
  shows "cov_ok rd (covers_after_remove ss key t)"
proof (cases "rx_get (rd_covers rd) t key")
  case None
  then show ?thesis using assms by (simp add: covers_after_remove_def)
next
  case (Some e)
  have "length x = 1" if "rx_get (rd_cohort rd) (cover_take_all (rd_cohort rd) ss e) x \<noteq> None" for x
    using assms Some that by (auto simp: cov_ok_def get_take_all split: if_splits)
  then show ?thesis using assms Some
    by (auto simp: covers_after_remove_def cov_ok_def Let_def covers.get_insert covers.get_remove
        cohort.is_empty split: if_splits)
qed

lemma covers_present_iff:
  assumes "cov_ok rd t"
  shows "rx_get (rd_covers rd) t k \<noteq> None \<longleftrightarrow> (\<exists>i. cov rd t k i \<noteq> None)"
proof
  assume "rx_get (rd_covers rd) t k \<noteq> None"
  then obtain e where e: "rx_get (rd_covers rd) t k = Some e" by auto
  then obtain x where x: "rx_get (rd_cohort rd) e x \<noteq> None" "length x = 1"
    using assms unfolding cov_ok_def by (metis ext)
  then obtain i where "x = [i]" by (cases x) auto
  with e x show "\<exists>i. cov rd t k i \<noteq> None" by (auto simp: cov_def)
qed (auto simp: cov_def bind_eq_Some_conv)

lemma attribution_add:
  assumes "attribution_ok rd inst t subs" and "subs s = None" and "sub_instance s = inst" and "sr_key r = key"
  shows "attribution_ok rd inst (covers_after_add s key v t) (subs(s \<mapsto> r))"
proof -
  have "Subscription inst i = s \<longleftrightarrow> i = sub_scope s" for i using assms(3) by (cases s) auto
  moreover have "subs (Subscription inst (sub_scope s)) = subs s" using assms(3) sub_eta by metis
  moreover have "cov rd t k (sub_scope s) = None" for k
    using assms(1,2) sub_eta [of s] assms(3) unfolding attribution_ok_def by (metis option.distinct(1))
  ultimately show ?thesis using assms(1,2,4)
    by (auto simp: attribution_ok_def cov_ok_add cov_add)
qed

lemma attribution_remove:
  assumes "attribution_ok rd inst t subs" and "subs s = Some r" and "sub_instance s = inst"
  shows "attribution_ok rd inst (covers_after_remove [s] (sr_key r) t) (subs(s := None))"
proof -
  have "Subscription inst i = s \<longleftrightarrow> i = sub_scope s" for i using assms(3) by (cases s) auto
  moreover have "subs (Subscription inst (sub_scope s)) = subs s" using assms(3) sub_eta by metis
  ultimately show ?thesis using assms(1,2) by (auto simp: attribution_ok_def cov_ok_remove cov_remove)
qed

end

lemma attribution_cong:
  assumes "attribution_ok rd inst t subs" and "\<And>s. map_option sr_key (subs' s) = map_option sr_key (subs s)"
  shows "attribution_ok rd inst t subs'"
proof -
  have "(\<exists>r. subs' s = Some r \<and> sr_key r = k) \<longleftrightarrow> (\<exists>r. subs s = Some r \<and> sr_key r = k)" for s k
    using assms(2) [of s] by (cases "subs s"; cases "subs' s") auto
  with assms(1) show ?thesis by (simp add: attribution_ok_def)
qed

section \<open>Roots\<close>

lemma roots_okD:
  assumes "roots_ok rs bh"
  shows "rs k = Some r \<Longrightarrow> rr_key r = k" and "rs k = Some r \<Longrightarrow> bh (rr_handle r) = Some k"
    and "bh h = Some k \<Longrightarrow> \<exists>r. rs k = Some r \<and> rr_handle r = h"
    and "rs k = Some r \<Longrightarrow> rs k' = Some r' \<Longrightarrow> prefix k k' \<Longrightarrow> k = k'"
  using assms unfolding roots_ok_def by (blast, blast, blast, metis option.distinct(1))

lemma roots_ok_insert:
  assumes "roots_ok rs bh" and "\<And>p. prefix p key \<Longrightarrow> rs p = None" and "\<And>k. strict_prefix key k \<Longrightarrow> rs k = None"
    and "bh h = None" and "rr_key r = key" and "rr_handle r = h"
  shows "roots_ok (rs(key \<mapsto> r)) (bh(h \<mapsto> key))"
proof -
  have below: "rs k = None" if "prefix key k" for k
    using assms(2,3) that by (cases "k = key") (auto simp: strict_prefix_def)
  have other: "rr_handle r' \<noteq> h" if "rs k = Some r'" for k r'
    using roots_okD(2) [OF assms(1) that] assms(4) by auto
  show ?thesis
    unfolding roots_ok_def
  proof (intro conjI allI impI)
    fix k r' assume "(rs(key \<mapsto> r)) k = Some r'"
    then show "rr_key r' = k" "(bh(h \<mapsto> key)) (rr_handle r') = Some k"
      using assms(5,6) roots_okD(1,2) [OF assms(1), of k r'] other [of k r'] by (auto split: if_splits)
  next
    fix h' k assume "(bh(h \<mapsto> key)) h' = Some k"
    then show "\<exists>r'. (rs(key \<mapsto> r)) k = Some r' \<and> rr_handle r' = h'"
      using roots_okD(3) [OF assms(1), of h' k] below [of key] assms(6) by (auto split: if_splits)
  next
    fix k k' assume "(rs(key \<mapsto> r)) k \<noteq> None" "(rs(key \<mapsto> r)) k' \<noteq> None" "prefix k k'"
    then show "k = k'"
      using roots_okD(4) [OF assms(1), of k _ k'] below [of k'] assms(2) [of k] by (auto split: if_splits)
  qed
qed

lemma roots_ok_restrict:
  assumes "roots_ok rs bh"
  shows "roots_ok (\<lambda>k. if P k then None else rs k)
    (\<lambda>h. case bh h of None \<Rightarrow> None | Some k \<Rightarrow> if P k then None else Some k)"
  using assms unfolding roots_ok_def by (fastforce split: option.splits if_splits)

lemma drop_handles_apply: "drop_handles hs m h = (if h \<in> set hs then None else m h)"
  unfolding drop_handles_def by (induction hs arbitrary: m) auto

lemma roots_ok_remove:
  assumes "roots_ok rs bh" and "bh h = Some key"
  shows "roots_ok (rs(key := None)) (bh(h := None))"
proof -
  have "rs(key := None) = (\<lambda>k. if k = key then None else rs k)" by auto
  moreover have "bh(h := None) = (\<lambda>h. case bh h of None \<Rightarrow> None | Some k \<Rightarrow> if k = key then None else Some k)"
  proof
    fix h'
    show "(bh(h := None)) h' = (case bh h' of None \<Rightarrow> None | Some k \<Rightarrow> if k = key then None else Some k)"
      using roots_okD(3) [OF assms(1), of h'] roots_okD(3) [OF assms(1,2)] assms(2)
      by (auto split: option.split)
  qed
  ultimately show ?thesis using roots_ok_restrict [OF assms(1), of "\<lambda>k. k = key"] by simp
qed

lemma roots_ok_update:
  assumes "roots_ok rs bh" and "rs key = Some r" and "rr_key r' = key" and "rr_handle r' = rr_handle r"
  shows "roots_ok (rs(key \<mapsto> r')) bh"
  using assms unfolding roots_ok_def by (auto split: if_splits) (metis option.inject)+

section \<open>Cohorts\<close>

lemma cohorts_okD:
  assumes "cohorts_ok bh rs subs"
  shows "dom rs = dom bh" and "rs h = Some c \<Longrightarrow> c \<noteq> []" and "rs h = Some c \<Longrightarrow> distinct c"
    and "rs h = Some c \<Longrightarrow> s \<in> set c \<longleftrightarrow> (\<exists>r. subs s = Some r \<and> sr_root r = h)"
    and "subs s = Some r \<Longrightarrow> \<exists>k. bh (sr_root r) = Some k \<and> prefix k (sr_key r)"
  using assms unfolding cohorts_ok_def by blast+

lemma cohorts_live:
  assumes "cohorts_ok bh rs subs" and "subs s = Some r"
  obtains k c where "bh (sr_root r) = Some k" "prefix k (sr_key r)" "rs (sr_root r) = Some c" "s \<in> set c"
proof -
  obtain k where k: "bh (sr_root r) = Some k" "prefix k (sr_key r)" using cohorts_okD(5) [OF assms] by blast
  then obtain c where c: "rs (sr_root r) = Some c" using cohorts_okD(1) [OF assms(1)] by blast
  with cohorts_okD(4) [OF assms(1) c, of s] assms(2) k that show thesis by blast
qed

lemma cohorts_ok_covered:
  assumes "cohorts_ok bh rs subs" and "rs h = Some c" and "bh h = Some k0" and "prefix k0 (sr_key r)"
    and "sr_root r = h" and "subs s = None"
  shows "cohorts_ok bh (rs(h \<mapsto> c @ [s])) (subs(s \<mapsto> r))"
proof -
  have "s \<notin> set c" using cohorts_okD(4) [OF assms(1,2), of s] assms(6) by simp
  then show ?thesis using assms unfolding cohorts_ok_def by auto
qed

lemma cohorts_ok_fresh:
  assumes "cohorts_ok bh rs subs" and "bh h = None" and "prefix key (sr_key r)"
    and "sr_root r = h" and "subs s = None"
  shows "cohorts_ok (bh(h \<mapsto> key)) (rs(h \<mapsto> [s])) (subs(s \<mapsto> r))"
proof -
  have "sr_root r' \<noteq> h" if "subs s' = Some r'" for s' r'
    using cohorts_okD(5) [OF assms(1) that] assms(2) by auto
  then show ?thesis using assms unfolding cohorts_ok_def by (auto split: if_splits)
qed

lemma repoint_subs_move:
  "(\<And>s. s \<in> set ss \<Longrightarrow> m s \<noteq> None) \<Longrightarrow> repoint_subs h ss m = Some (move_subs h ss m)"
proof (induction ss arbitrary: m)
  case Nil
  then show ?case by (simp add: move_subs_def)
next
  case (Cons s ss)
  obtain r where r: "m s = Some r" using Cons.prems [of s] by auto
  have "repoint_subs h ss (m(s \<mapsto> r\<lparr>sr_root := h\<rparr>)) = Some (move_subs h ss (m(s \<mapsto> r\<lparr>sr_root := h\<rparr>)))"
    using Cons.prems by (intro Cons.IH) auto
  moreover have "move_subs h ss (m(s \<mapsto> r\<lparr>sr_root := h\<rparr>)) = move_subs h (s # ss) m"
    using r by (auto simp: move_subs_def fun_eq_iff)
  ultimately show ?case using r by simp
qed

lemma move_subs_Some_iff:
  "move_subs h ss m s = Some r' \<longleftrightarrow>
     (\<exists>r. m s = Some r \<and> r' = (if s \<in> set ss then r\<lparr>sr_root := h\<rparr> else r))"
  by (auto simp: move_subs_def)

lemma move_subs_key: "map_option sr_key (move_subs h ss m s) = map_option sr_key (m s)"
  by (cases "m s") (auto simp: move_subs_def)

lemma move_subs_None [simp]: "move_subs h ss m s = None \<longleftrightarrow> m s = None"
  by (simp add: move_subs_def)

text \<open>A set of roots replaced by one above them, which inherits their subscribers.\<close>

lemma cohorts_ok_merge:
  assumes "cohorts_ok bh rs subs" and "\<And>h' k. bh h' = Some k \<Longrightarrow> h' \<in> H \<longleftrightarrow> P k"
    and "\<And>k k'. P k \<Longrightarrow> prefix k k' \<Longrightarrow> prefix key k'"
    and "bh h \<noteq> None \<Longrightarrow> h \<in> H" and "distinct ss" and "s \<notin> set ss"
    and "\<And>x. x \<in> set ss \<longleftrightarrow> (\<exists>r. subs x = Some r \<and> sr_root r \<in> H)"
    and "prefix key (sr_key r)" and "sr_root r = h" and "subs s = None"
  shows "cohorts_ok ((\<lambda>h'. if h' \<in> H then None else bh h')(h \<mapsto> key))
    ((\<lambda>h'. if h' \<in> H then None else rs h')(h \<mapsto> ss @ [s])) ((move_subs h ss subs)(s \<mapsto> r))"
proof -
  have live: "\<exists>k. bh (sr_root q) = Some k \<and> prefix k (sr_key q)" if "subs x = Some q" for x q
    using cohorts_okD(5) [OF assms(1) that] .
  have in_h: "sr_root q = h \<Longrightarrow> x \<in> set ss" if "subs x = Some q" for x q
    using live [OF that] assms(4) assms(7) [of x] that by fastforce
  have out: "x \<notin> set ss \<Longrightarrow> sr_root q \<notin> H" if "subs x = Some q" for x q
    using assms(7) [of x] that by auto
  show ?thesis
    unfolding cohorts_ok_def
  proof (intro conjI allI impI)
    show "dom ((\<lambda>h'. if h' \<in> H then None else rs h')(h \<mapsto> ss @ [s])) =
        dom ((\<lambda>h'. if h' \<in> H then None else bh h')(h \<mapsto> key))"
      using cohorts_okD(1) [OF assms(1)] by (auto simp: dom_def set_eq_iff)
  next
    fix h' c assume c: "((\<lambda>h'. if h' \<in> H then None else rs h')(h \<mapsto> ss @ [s])) h' = Some c"
    show "c \<noteq> []" "distinct c"
      using c cohorts_okD(2,3) [OF assms(1), of h' c] assms(5,6) by (auto split: if_splits)
    show "x \<in> set c \<longleftrightarrow> (\<exists>r'. ((move_subs h ss subs)(s \<mapsto> r)) x = Some r' \<and> sr_root r' = h')" for x
    proof (cases "h' = h")
      case True
      then show ?thesis using c assms(7) [of x] assms(9) in_h [of x]
        by (auto simp: move_subs_Some_iff)
    next
      case False
      then have rs: "rs h' = Some c" "h' \<notin> H" using c by (auto split: if_splits)
      then show ?thesis
        using False cohorts_okD(4) [OF assms(1) rs(1), of x] assms(7) [of x] assms(9,10) out [of x]
        by (auto simp: move_subs_Some_iff)
    qed
  next
    fix x q assume q: "((move_subs h ss subs)(s \<mapsto> r)) x = Some q"
    show "\<exists>k. ((\<lambda>h'. if h' \<in> H then None else bh h')(h \<mapsto> key)) (sr_root q) = Some k \<and> prefix k (sr_key q)"
    proof (cases "x = s")
      case True
      then show ?thesis using q assms(8,9) by auto
    next
      case False
      then obtain q0 where q0: "subs x = Some q0" "q = (if x \<in> set ss then q0\<lparr>sr_root := h\<rparr> else q0)"
        using q by (auto simp: move_subs_Some_iff)
      obtain k where k: "bh (sr_root q0) = Some k" "prefix k (sr_key q0)" using live [OF q0(1)] by blast
      show ?thesis
      proof (cases "x \<in> set ss")
        case True
        then have "P k" using assms(2) [OF k(1)] assms(7) [of x] q0(1) by auto
        then show ?thesis using assms(3) [of k "sr_key q0"] k(2) q0(2) True by auto
      next
        case nin: False
        then have "sr_root q0 \<notin> H" "sr_root q0 \<noteq> h" using out [OF q0(1)] in_h [OF q0(1)] by auto
        then show ?thesis using k q0(2) nin by auto
      qed
    qed
  qed
qed

section \<open>Planning\<close>

lemma reserve_Some:
  assumes "reserve key v i st = Some (s, st1)"
  shows "s = Subscription (sm_instance st) (sm_next_sub st)"
    and "unat (sm_next_sub st1) = Suc (unat (sm_next_sub st))"
    and "st1 = st\<lparr>sm_next_sub := sm_next_sub st1,
      sm_pending := (sm_pending st)(s \<mapsto> \<lparr>pw_key = key, pw_value = v, pw_interest = i\<rparr>)\<rparr>"
  using assms
  by (auto simp: reserve_def mint_subscription_def dest: checked_add_Some split: option.splits)

lemma reserve_None_iff: "reserve key v i st = None \<longleftrightarrow> sm_next_sub st = u64_max"
  using checked_add_1_None_iff [of "sm_next_sub st"]
  by (auto simp: reserve_def mint_subscription_def split: option.splits)

lemma sm_inv_reserve:
  assumes "sm_inv rd st" and "reserve key v i st = Some (s, st1)"
  shows "sm_inv rd st1" and "sm_subs st1 s = None" and "sm_subs st1 = sm_subs st"
    and "sm_index st1 = sm_index st" and "sm_by_handle st1 = sm_by_handle st"
    and "sm_root_subs st1 = sm_root_subs st" and "sm_covers st1 = sm_covers st"
    and "sm_pending st1 s = Some \<lparr>pw_key = key, pw_value = v, pw_interest = i\<rparr>"
    and "sm_instance st1 = sm_instance st" and "sub_instance s = sm_instance st"
    and "sm_shared st1 = sm_shared st"
proof -
  note r = reserve_Some [OF assms(2)]
  have up: "sm_next_sub st < sm_next_sub st1" using r(2) by (simp add: word_less_nat_alt)
  have ids: "ids_ok (sm_instance st) (sm_next_sub st) (sm_subs st) (sm_pending st)"
    using assms(1) by (simp add: sm_inv_def)
  have fresh: "sm_subs st s = None" using ids r(1) by (auto simp: ids_ok_def)
  have "ids_ok (sm_instance st) (sm_next_sub st1) (sm_subs st)
      ((sm_pending st)(s \<mapsto> \<lparr>pw_key = key, pw_value = v, pw_interest = i\<rparr>))"
    using ids up fresh r(1) unfolding ids_ok_def
    by (auto split: if_splits)
  then show "sm_inv rd st1"
    using assms(1) by (subst r(3)) (simp add: sm_inv_def roots_def)
  show "sm_subs st1 s = None" "sm_subs st1 = sm_subs st"
      "sm_index st1 = sm_index st" "sm_by_handle st1 = sm_by_handle st"
      "sm_root_subs st1 = sm_root_subs st" "sm_covers st1 = sm_covers st"
      "sm_pending st1 s = Some \<lparr>pw_key = key, pw_value = v, pw_interest = i\<rparr>"
      "sm_instance st1 = sm_instance st" "sm_shared st1 = sm_shared st"
    using fresh by (subst r(3), simp)+
  show "sub_instance s = sm_instance st" using r(1) by simp
qed

definition handles_below ::
  "('t, 'u, 'w, 'c, 'v, 'h) radices \<Rightarrow> 'c list \<Rightarrow> ('t, 'u, 'c, 'v, 'h) subsumer \<Rightarrow> 'h set" where
  "handles_below rd key st = {h. \<exists>k. sm_by_handle st h = Some k \<and> strict_prefix key k}"

definition cohort_of :: "('t, 'u, 'c, 'v, 'h) subsumer \<Rightarrow> 'h \<Rightarrow> subscription list" where
  "cohort_of st h = (case sm_root_subs st h of None \<Rightarrow> [] | Some c \<Rightarrow> c)"

lemma widen_loop_Inr:
  "widen_loop globs rs recs = Inr (rep, unw) \<Longrightarrow>
     unw = map rr_handle recs \<and>
     rep = concat (map (\<lambda>r. case rs (rr_handle r) of None \<Rightarrow> [] | Some c \<Rightarrow> c) recs) \<and>
     (\<forall>r \<in> set recs. rr_globs r = globs \<and> rg_prune globs = [])"
  by (induction recs arbitrary: rep unw) (auto split: if_splits sum.splits)

lemma widen_loop_Inl:
  "widen_loop globs rs recs = Inl (r, reason) \<Longrightarrow> r \<in> set recs \<and>
     (reason = Differ \<and> rr_globs r \<noteq> globs \<or> reason = Anchored \<and> rr_globs r = globs \<and> rg_prune globs \<noteq> [])"
  by (induction recs) (auto split: if_splits sum.splits)

context subsumption
begin

lemma handles_of_descendants:
  assumes "roots_ok (roots rd st) (sm_by_handle st)"
  shows "set (map rr_handle (rx_descendants (rd_index rd) (sm_index st) key)) = handles_below rd key st"
    and "distinct (map rr_handle (rx_descendants (rd_index rd) (sm_index st) key))"
proof -
  obtain ks where ks: "sorted_wrt (<) ks" "set ks = {k. strict_prefix key k \<and> roots rd st k \<noteq> None}"
      "rx_descendants (rd_index rd) (sm_index st) key = map (\<lambda>k. the (roots rd st k)) ks"
    using index.descendants unfolding roots_def by blast
  have h: "sm_by_handle st (rr_handle (the (roots rd st k))) = Some k" if "k \<in> set ks" for k
    using that ks(2) roots_okD(2) [OF assms, of k] by auto
  show "set (map rr_handle (rx_descendants (rd_index rd) (sm_index st) key)) = handles_below rd key st"
  proof (intro set_eqI iffI)
    fix x assume "x \<in> set (map rr_handle (rx_descendants (rd_index rd) (sm_index st) key))"
    then obtain k where "k \<in> set ks" "x = rr_handle (the (roots rd st k))" unfolding ks(3) by auto
    then show "x \<in> handles_below rd key st" using h ks(2) by (auto simp: handles_below_def)
  next
    fix x assume "x \<in> handles_below rd key st"
    then obtain k r where k: "strict_prefix key k" "roots rd st k = Some r" "rr_handle r = x"
      using roots_okD(3) [OF assms] unfolding handles_below_def by blast
    then have "k \<in> set ks" using ks(2) by simp
    then have "rr_handle (the (roots rd st k)) \<in> set (map (\<lambda>k. rr_handle (the (roots rd st k))) ks)" by simp
    then show "x \<in> set (map rr_handle (rx_descendants (rd_index rd) (sm_index st) key))"
      unfolding ks(3) using k by (simp add: comp_def)
  qed
  have "inj_on (\<lambda>k. rr_handle (the (roots rd st k))) (set ks)"
  proof (rule inj_onI)
    fix k k' assume k: "k \<in> set ks" "k' \<in> set ks"
      and eq: "rr_handle (the (roots rd st k)) = rr_handle (the (roots rd st k'))"
    have "sm_by_handle st (rr_handle (the (roots rd st k))) = Some k'" unfolding eq by (rule h [OF k(2)])
    with h [OF k(1)] show "k = k'" by simp
  qed
  moreover have "distinct ks" using ks(1) by (simp add: strict_sorted_iff)
  ultimately show "distinct (map rr_handle (rx_descendants (rd_index rd) (sm_index st) key))"
    unfolding ks(3) by (simp add: distinct_map comp_def)
qed

end

text \<open>The subscribers of a list of distinct live roots, in order, are distinct and exactly theirs.\<close>

lemma concat_cohorts:
  assumes "cohorts_ok (sm_by_handle st) (sm_root_subs st) (sm_subs st)" and "distinct hs"
    and "\<And>h. h \<in> set hs \<Longrightarrow> sm_by_handle st h \<noteq> None"
  shows "distinct (concat (map (cohort_of st) hs))"
    and "x \<in> set (concat (map (cohort_of st) hs)) \<longleftrightarrow> (\<exists>r. sm_subs st x = Some r \<and> sr_root r \<in> set hs)"
proof -
  have mem: "x \<in> set (cohort_of st h) \<longleftrightarrow> (\<exists>r. sm_subs st x = Some r \<and> sr_root r = h)" if h: "h \<in> set hs" for x h
  proof -
    obtain c where "sm_root_subs st h = Some c"
      using cohorts_okD(1) [OF assms(1)] assms(3) [OF h] by blast
    then show ?thesis using cohorts_okD(4) [OF assms(1)] by (simp add: cohort_of_def)
  qed
  then show "x \<in> set (concat (map (cohort_of st) hs)) \<longleftrightarrow> (\<exists>r. sm_subs st x = Some r \<and> sr_root r \<in> set hs)"
    by auto
  have dis: "distinct (cohort_of st h)" for h
    using cohorts_okD(3) [OF assms(1)] by (simp add: cohort_of_def split: option.split)
  show "distinct (concat (map (cohort_of st) hs))"
    using assms(2) mem
  proof (induction hs)
    case (Cons h hs)
    have "set (cohort_of st h) \<inter> set (concat (map (cohort_of st) hs)) = {}"
      using Cons.prems by fastforce
    then show ?case using Cons dis by auto
  qed simp
qed

end
