(* ===== verification/Subsumer_Steps.thy ===== *)
theory Subsumer_Steps
  imports Subsumer_Correct
begin

text \<open>
  Every operation of the engine keeps \<open>sm_inv\<close> and does not panic, one lemma per operation, and the
  engine as a state machine: \<open>sm_step\<close> composes plan, guard, commit and abort the way the driver's
  reconcile does, \<open>sm_reach\<close> are the states its histories reach.
\<close>

section \<open>Committing a watch\<close>

definition commit_base ::
  "subscription \<Rightarrow> ('t, 'u, 'c, 'v, 'h) subsumer \<Rightarrow> ('t, 'u, 'c, 'v, 'h) subsumer" where
  "commit_base s st = st\<lparr>sm_pending := (sm_pending st)(s := None)\<rparr>"

lemma take_pending_Some: "sm_pending st s = Some p \<Longrightarrow> take_pending s st = Some (p, commit_base s st)"
  by (simp add: take_pending_def commit_base_def)

lemma ids_ok_commit:
  assumes "ids_ok inst n subs pending" and "pending s = Some p"
    and "\<And>x. subs' x \<noteq> None \<Longrightarrow> subs x \<noteq> None \<or> x = s"
  shows "ids_ok inst n subs' (pending(s := None))"
proof -
  have b: "sub_instance x = inst \<and> sub_scope x < n" if "subs x \<noteq> None \<or> pending x \<noteq> None" for x
    using assms(1) that unfolding ids_ok_def by blast
  have d: "subs x = None \<or> pending x = None" for x using assms(1) by (simp add: ids_ok_def)
  show ?thesis
    unfolding ids_ok_def
  proof (intro conjI allI impI)
    fix x assume "subs' x \<noteq> None \<or> (pending(s := None)) x \<noteq> None"
    then have "subs x \<noteq> None \<or> pending x \<noteq> None" using assms(2) assms(3) [of x] by (auto split: if_splits)
    then show "sub_instance x = inst" "sub_scope x < n" using b by auto
  next
    fix x
    show "subs' x = None \<or> (pending(s := None)) x = None" using assms(3) [of x] d [of x] by (cases "subs' x") auto
  qed
qed

context subsumption
begin

lemma install_sub_fields:
  "sm_index (install_sub rd s h key v i st) = sm_index st"
  "sm_covers (install_sub rd s h key v i st) = covers_after_add s key v (sm_covers st)"
  "sm_by_handle (install_sub rd s h key v i st) = sm_by_handle st"
  "sm_root_subs (install_sub rd s h key v i st) = sm_root_subs st"
  "sm_subs (install_sub rd s h key v i st) = (sm_subs st)(s \<mapsto> \<lparr>sr_root = h, sr_key = key, sr_interest = i\<rparr>)"
  "sm_pending (install_sub rd s h key v i st) = sm_pending st"
  "sm_instance (install_sub rd s h key v i st) = sm_instance st"
  "sm_next_sub (install_sub rd s h key v i st) = sm_next_sub st"
  "sm_shared (install_sub rd s h key v i st) =
     \<lparr>pb_roots = sm_index st, pb_covers = covers_after_add s key v (sm_covers st)\<rparr>"
  by (simp_all add: install_sub_def cover_add_eq Let_def)

lemma commit_inv:
  assumes "sm_inv rd st" and "sm_pending st s = Some p" and "sm_subs st s = None"
    and "roots_ok (rx_get (rd_index rd) index') bh'"
    and "cohorts_ok bh' rs' (subs'(s \<mapsto> \<lparr>sr_root = h, sr_key = key, sr_interest = i\<rparr>))"
    and "\<And>x. map_option sr_key (subs' x) = map_option sr_key (sm_subs st x)"
  shows "sm_inv rd (install_sub rd s h key v i (commit_base s st
    \<lparr>sm_index := index', sm_by_handle := bh', sm_root_subs := rs', sm_subs := subs'\<rparr>))"
proof -
  have ids: "ids_ok (sm_instance st) (sm_next_sub st) (sm_subs st) (sm_pending st)"
    and at: "attribution_ok rd (sm_instance st) (sm_covers st) (sm_subs st)"
    using assms(1) by (simp_all add: sm_inv_def)
  have dom: "subs' x = None \<longleftrightarrow> sm_subs st x = None" for x
    using assms(6) [of x] by (metis option.map_disc_iff)
  have "ids_ok (sm_instance st) (sm_next_sub st)
      (subs'(s \<mapsto> \<lparr>sr_root = h, sr_key = key, sr_interest = i\<rparr>)) ((sm_pending st)(s := None))"
    by (rule ids_ok_commit [OF ids assms(2)]) (metis dom fun_upd_other)
  moreover have "sub_instance s = sm_instance st" using ids assms(2) by (auto simp: ids_ok_def)
  then have "attribution_ok rd (sm_instance st) (covers_after_add s key v (sm_covers st))
      (subs'(s \<mapsto> \<lparr>sr_root = h, sr_key = key, sr_interest = i\<rparr>))"
    using attribution_cong [OF at assms(6)] dom [of s] assms(3) by (intro attribution_add) auto
  ultimately show ?thesis
    using assms(4,5) by (simp add: sm_inv_def roots_def install_sub_fields commit_base_def)
qed

lemma commit_covered:
  assumes "sm_inv rd st" and "sm_pending st s = Some p" and "sm_subs st s = None"
    and "sm_by_handle st h = Some k0" and "prefix k0 (pw_key p)"
  shows "\<exists>st'. commit_watch rd (Covered h0 s out) h key g st = Some st' \<and> sm_inv rd st'"
proof -
  have co: "cohorts_ok (sm_by_handle st) (sm_root_subs st) (sm_subs st)"
    and ro: "roots_ok (rx_get (rd_index rd) (sm_index st)) (sm_by_handle st)"
    using assms(1) by (simp_all add: sm_inv_def roots_def)
  obtain c where c: "sm_root_subs st h = Some c" using cohorts_okD(1) [OF co] assms(4) by blast
  have "cohorts_ok (sm_by_handle st) ((sm_root_subs st)(h \<mapsto> c @ [s])) ((sm_subs st)
      (s \<mapsto> \<lparr>sr_root = h, sr_key = pw_key p, sr_interest = pw_interest p\<rparr>))"
    by (rule cohorts_ok_covered [OF co c assms(4)]) (use assms(3,5) in simp_all)
  from commit_inv [OF assms(1-3) ro this, of "pw_value p"] have "sm_inv rd
      (install_sub rd s h (pw_key p) (pw_value p) (pw_interest p) (commit_base s st
        \<lparr>sm_index := sm_index st, sm_by_handle := sm_by_handle st,
         sm_root_subs := (sm_root_subs st)(h \<mapsto> c @ [s]), sm_subs := sm_subs st\<rparr>))" by simp
  then show ?thesis
    using c by (simp add: take_pending_Some [OF assms(2)] commit_base_def)
qed

lemma commit_disjoint:
  assumes "sm_inv rd st" and "sm_pending st s = Some p" and "sm_subs st s = None"
    and "\<And>q. prefix q key \<Longrightarrow> roots rd st q = None" and "\<And>q. strict_prefix key q \<Longrightarrow> roots rd st q = None"
    and "sm_by_handle st h = None"
  shows "\<exists>st'. commit_watch rd (Disjoint s) h key g st = Some st' \<and> sm_inv rd st'"
proof -
  have co: "cohorts_ok (sm_by_handle st) (sm_root_subs st) (sm_subs st)"
    and ro: "roots_ok (roots rd st) (sm_by_handle st)"
    using assms(1) by (simp_all add: sm_inv_def)
  have "roots_ok (rx_get (rd_index rd) (rx_insert (rd_index rd) key (fresh_root key h g) (sm_index st)))
      ((sm_by_handle st)(h \<mapsto> key))"
    using roots_ok_insert [OF ro assms(4-6), where r = "fresh_root key h g"]
    by (simp add: index.get_insert fresh_root_def roots_def)
  moreover have "cohorts_ok ((sm_by_handle st)(h \<mapsto> key)) ((sm_root_subs st)(h \<mapsto> [s])) ((sm_subs st)
      (s \<mapsto> \<lparr>sr_root = h, sr_key = key, sr_interest = pw_interest p\<rparr>))"
    by (rule cohorts_ok_fresh [OF co assms(6)]) (use assms(3) in simp_all)
  ultimately have "sm_inv rd (install_sub rd s h key (pw_value p) (pw_interest p) (commit_base s st
      \<lparr>sm_index := rx_insert (rd_index rd) key (fresh_root key h g) (sm_index st),
       sm_by_handle := (sm_by_handle st)(h \<mapsto> key), sm_root_subs := (sm_root_subs st)(h \<mapsto> [s]),
       sm_subs := sm_subs st\<rparr>))"
    by (intro commit_inv [OF assms(1-3)]) simp_all
  then show ?thesis by (simp add: take_pending_Some [OF assms(2)] commit_base_def)
qed

lemma commit_widen:
  assumes "sm_inv rd st" and "sm_pending st s = Some p" and "sm_subs st s = None"
    and "\<And>q. prefix q key \<Longrightarrow> roots rd st q = None" and "set unw = handles_below rd key st"
    and "sm_by_handle st h \<noteq> None \<Longrightarrow> h \<in> set unw" and "distinct rep"
    and "\<And>x. x \<in> set rep \<longleftrightarrow> (\<exists>r. sm_subs st x = Some r \<and> sr_root r \<in> set unw)"
  shows "\<exists>st'. commit_watch rd (Widen rep unw s) h key g st = Some st' \<and> sm_inv rd st'"
proof -
  have co: "cohorts_ok (sm_by_handle st) (sm_root_subs st) (sm_subs st)"
    and ro: "roots_ok (roots rd st) (sm_by_handle st)"
    using assms(1) by (simp_all add: sm_inv_def)
  have dh: "drop_handles unw m = (\<lambda>h'. if h' \<in> set unw then None else m h')" for m :: "'h \<Rightarrow> 'x option"
    by (simp add: fun_eq_iff drop_handles_apply)
  let ?bh = "drop_handles unw (sm_by_handle st)"
  have bh: "?bh = (\<lambda>h. case sm_by_handle st h of None \<Rightarrow> None | Some k \<Rightarrow> if strict_prefix key k then None else Some k)"
    by (auto simp: fun_eq_iff drop_handles_apply assms(5) handles_below_def split: option.split)
  let ?rs = "\<lambda>k. if strict_prefix key k then None else roots rd st k"
  have "roots_ok (?rs(key \<mapsto> fresh_root key h g)) (?bh(h \<mapsto> key))"
  proof (rule roots_ok_insert)
    show "roots_ok ?rs ?bh" unfolding bh by (rule roots_ok_restrict [OF ro])
    show "?bh h = None" using assms(6) by (cases "sm_by_handle st h") (simp_all add: drop_handles_apply)
  qed (use assms(4) in \<open>auto simp: fresh_root_def\<close>)
  moreover have "rx_get (rd_index rd) (rx_remove_descendants (rd_index rd) key (sm_index st)) = ?rs"
    by (auto simp: index.get_remove_descendants roots_def)
  ultimately have "roots_ok (rx_get (rd_index rd) (rx_insert (rd_index rd) key (fresh_root key h g)
      (rx_remove_descendants (rd_index rd) key (sm_index st)))) (?bh(h \<mapsto> key))"
    by (simp add: index.get_insert)
  moreover have "cohorts_ok (?bh(h \<mapsto> key)) ((drop_handles unw (sm_root_subs st))(h \<mapsto> rep @ [s]))
      ((move_subs h rep (sm_subs st))(s \<mapsto> \<lparr>sr_root = h, sr_key = key, sr_interest = pw_interest p\<rparr>))"
    unfolding dh
  proof (rule cohorts_ok_merge [OF co, where P = "\<lambda>k. strict_prefix key k"])
    show "h' \<in> set unw \<longleftrightarrow> strict_prefix key k" if "sm_by_handle st h' = Some k" for h' k
      using that by (auto simp: assms(5) handles_below_def)
    show "prefix key k'" if "strict_prefix key k" "prefix k k'" for k k'
      using that by (meson prefix_order.trans strict_prefix_def)
    show "s \<notin> set rep" using assms(3,8) by auto
  qed (use assms(3,6,7,8) in auto)
  ultimately have "sm_inv rd (install_sub rd s h key (pw_value p) (pw_interest p) (commit_base s st
      \<lparr>sm_index := rx_insert (rd_index rd) key (fresh_root key h g)
         (rx_remove_descendants (rd_index rd) key (sm_index st)),
       sm_by_handle := ?bh(h \<mapsto> key),
       sm_root_subs := (drop_handles unw (sm_root_subs st))(h \<mapsto> rep @ [s]),
       sm_subs := move_subs h rep (sm_subs st)\<rparr>))"
    by (intro commit_inv [OF assms(1-3)]) (auto simp: move_subs_key)
  moreover have "repoint_subs h rep (sm_subs st) = Some (move_subs h rep (sm_subs st))"
    using assms(8) by (intro repoint_subs_move) auto
  ultimately show ?thesis by (simp add: take_pending_Some [OF assms(2)] commit_base_def)
qed

end

section \<open>Dropping a subscription\<close>

lemma keys_of_Some: "(\<And>s. s \<in> set ss \<Longrightarrow> m s \<noteq> None) \<Longrightarrow> keys_of m ss = Some (map (\<lambda>s. sr_key (the (m s))) ss)"
proof (induction ss)
  case (Cons s ss)
  then obtain r where "m s = Some r" by (metis list.set_intros(1) not_None_eq)
  with Cons show ?case by simp
qed simp

lemma detect_shrink_cong:
  "sm_subs st' = sm_subs st \<Longrightarrow> sm_index st' = sm_index st \<Longrightarrow>
     detect_shrink rd k h ss st' = detect_shrink rd k h ss st"
  by (simp add: detect_shrink_def split: option.split)

lemma ids_ok_shrink:
  assumes "ids_ok inst n subs pending" and "\<And>x. subs' x \<noteq> None \<Longrightarrow> subs x \<noteq> None"
  shows "ids_ok inst n subs' pending"
  using assms unfolding ids_ok_def by metis

lemma cohorts_ok_drop:
  assumes "cohorts_ok bh rs subs" and "subs s = Some r" and "rs (sr_root r) = Some c"
    and "filter (\<lambda>x. x \<noteq> s) c \<noteq> []"
  shows "cohorts_ok bh (rs(sr_root r \<mapsto> filter (\<lambda>x. x \<noteq> s) c)) (subs(s := None))"
  unfolding cohorts_ok_def
proof (intro conjI allI impI)
  show "dom (rs(sr_root r \<mapsto> filter (\<lambda>x. x \<noteq> s) c)) = dom bh"
    using cohorts_okD(1) [OF assms(1)] assms(3) by auto
next
  fix h d assume d: "(rs(sr_root r \<mapsto> filter (\<lambda>x. x \<noteq> s) c)) h = Some d"
  show "d \<noteq> []" "distinct d"
    using d assms(4) cohorts_okD(2,3) [OF assms(1), of h d] cohorts_okD(3) [OF assms(1,3)]
    by (auto split: if_splits)
  show "x \<in> set d \<longleftrightarrow> (\<exists>q. (subs(s := None)) x = Some q \<and> sr_root q = h)" for x
    using d cohorts_okD(4) [OF assms(1), of h d x] cohorts_okD(4) [OF assms(1,3), of x] assms(2)
    by (auto split: if_splits)
next
  fix x q assume "(subs(s := None)) x = Some q"
  then show "\<exists>k. bh (sr_root q) = Some k \<and> prefix k (sr_key q)"
    using cohorts_okD(5) [OF assms(1), of x q] by (auto split: if_splits)
qed

text \<open>A root whose subscribers all leave, leaves with them.\<close>

lemma cohorts_ok_gone:
  assumes "cohorts_ok bh rs subs"
    and "\<And>x q. subs' x = Some q \<longleftrightarrow> subs x = Some q \<and> sr_root q \<noteq> h"
  shows "cohorts_ok (bh(h := None)) (rs(h := None)) subs'"
  unfolding cohorts_ok_def
proof (intro conjI allI impI)
  show "dom (rs(h := None)) = dom (bh(h := None))" using cohorts_okD(1) [OF assms(1)] by auto
next
  fix h' d assume d: "(rs(h := None)) h' = Some d"
  show "d \<noteq> []" "distinct d" using d cohorts_okD(2,3) [OF assms(1), of h' d] by (auto split: if_splits)
  show "x \<in> set d \<longleftrightarrow> (\<exists>q. subs' x = Some q \<and> sr_root q = h')" for x
    using d cohorts_okD(4) [OF assms(1), of h' d x] assms(2) [of x] by (auto split: if_splits)
next
  fix x q assume "subs' x = Some q"
  then show "\<exists>k. (bh(h := None)) (sr_root q) = Some k \<and> prefix k (sr_key q)"
    using cohorts_okD(5) [OF assms(1), of x q] assms(2) [of x q] by auto
qed

context subsumption
begin

lemma unwatch_inv:
  assumes "sm_inv rd st" and "sm_subs st s = Some r"
  shows "\<exists>o1 st' c. plan_unwatch rd s st = Some (Some o1, st') \<and> sm_inv rd st' \<and>
    sm_subs st' = (sm_subs st)(s := None) \<and> sm_root_subs st (sr_root r) = Some c \<and>
    (filter (\<lambda>x. x \<noteq> s) c = [] \<longrightarrow> o1 = RootEmptied (sr_root r)) \<and>
    (filter (\<lambda>x. x \<noteq> s) c \<noteq> [] \<longrightarrow> (\<exists>k. sm_by_handle st (sr_root r) = Some k \<and>
       Some o1 = map_option Dropped (detect_shrink rd k (sr_root r) (filter (\<lambda>x. x \<noteq> s) c)
         (st\<lparr>sm_subs := (sm_subs st)(s := None)\<rparr>))))"
proof -
  have co: "cohorts_ok (sm_by_handle st) (sm_root_subs st) (sm_subs st)"
    and ro: "roots_ok (roots rd st) (sm_by_handle st)"
    and ids: "ids_ok (sm_instance st) (sm_next_sub st) (sm_subs st) (sm_pending st)"
    and at: "attribution_ok rd (sm_instance st) (sm_covers st) (sm_subs st)"
    using assms(1) by (simp_all add: sm_inv_def)
  obtain k c where k: "sm_by_handle st (sr_root r) = Some k" and c: "sm_root_subs st (sr_root r) = Some c"
    using cohorts_live [OF co assms(2)] by blast
  let ?t = "covers_after_remove [s] (sr_key r) (sm_covers st)" and ?subs = "(sm_subs st)(s := None)"
  let ?c = "filter (\<lambda>x. x \<noteq> s) c"
  have inst: "sub_instance s = sm_instance st" using ids assms(2) by (auto simp: ids_ok_def)
  have at': "attribution_ok rd (sm_instance st) ?t ?subs" by (rule attribution_remove [OF at assms(2) inst])
  have ids': "ids_ok (sm_instance st) (sm_next_sub st) ?subs (sm_pending st)"
    by (rule ids_ok_shrink [OF ids]) (auto split: if_splits)
  show ?thesis
  proof (cases "?c = []")
    case True
    have only: "x = s" if "sm_subs st x = Some q" "sr_root q = sr_root r" for x q
      using cohorts_okD(4) [OF co c, of x] that True by (auto simp: filter_empty_conv)
    have "cohorts_ok ((sm_by_handle st)(sr_root r := None)) ((sm_root_subs st)(sr_root r := None)) ?subs"
    proof (rule cohorts_ok_gone [OF co])
      fix x q
      show "?subs x = Some q \<longleftrightarrow> sm_subs st x = Some q \<and> sr_root q \<noteq> sr_root r"
        using assms(2) only [of x q] by (cases "x = s") auto
    qed
    moreover have "roots_ok ((roots rd st)(k := None)) ((sm_by_handle st)(sr_root r := None))"
      by (rule roots_ok_remove [OF ro k])
    ultimately have "sm_inv rd (publish (st\<lparr>sm_subs := ?subs,
        sm_index := rx_remove (rd_index rd) k (sm_index st), sm_covers := ?t,
        sm_by_handle := (sm_by_handle st)(sr_root r := None),
        sm_root_subs := (sm_root_subs st)(sr_root r := None)\<rparr>))"
      using at' ids' by (simp add: sm_inv_def roots_def index.get_remove)
    then show ?thesis
      using assms(2) k c True by (simp add: plan_unwatch_def Let_def cover_remove_eq)
  next
    case False
    have "cohorts_ok (sm_by_handle st) ((sm_root_subs st)(sr_root r \<mapsto> ?c)) ?subs"
      by (rule cohorts_ok_drop [OF co assms(2) c False])
    then have inv: "sm_inv rd (publish (st\<lparr>sm_subs := ?subs, sm_root_subs := (sm_root_subs st)(sr_root r \<mapsto> ?c),
        sm_covers := ?t\<rparr>))"
      using at' ids' ro by (simp add: sm_inv_def roots_def)
    have "keys_of ?subs ?c = Some (map (\<lambda>s. sr_key (the (?subs s))) ?c)"
      using cohorts_okD(4) [OF co c] by (intro keys_of_Some) auto
    then obtain sh where sh: "detect_shrink rd k (sr_root r) ?c (st\<lparr>sm_subs := ?subs\<rparr>) = Some sh"
      by (simp add: detect_shrink_def)
    have same: "detect_shrink rd k (sr_root r) ?c (st\<lparr>sm_subs := ?subs,
        sm_root_subs := (sm_root_subs st)(sr_root r \<mapsto> ?c), sm_covers := ?t\<rparr>) = Some sh"
      unfolding sh [symmetric] by (rule detect_shrink_cong) simp_all
    show ?thesis
      using assms(2) k c False sh same inv by (simp add: plan_unwatch_def Let_def cover_remove_eq)
  qed
qed

end

section \<open>Retiring and rebinding roots\<close>

lemma departing_subs_closed:
  assumes "distinct ss" and "\<And>s. s \<in> set ss \<Longrightarrow> m s \<noteq> None"
  shows "departing_subs ss m =
    (map (\<lambda>s. (s, sr_key (the (m s)))) ss, \<lambda>x. if x \<in> set ss then None else m x)"
  using assms
proof (induction ss arbitrary: m)
  case (Cons s ss)
  obtain r where r: "m s = Some r" using Cons.prems(2) [of s] by auto
  have "departing_subs ss (m(s := None)) = (map (\<lambda>x. (x, sr_key (the ((m(s := None)) x)))) ss,
      \<lambda>x. if x \<in> set ss then None else (m(s := None)) x)"
    using Cons.prems by (intro Cons.IH) auto
  moreover have "map (\<lambda>x. (x, sr_key (the ((m(s := None)) x)))) ss = map (\<lambda>x. (x, sr_key (the (m x)))) ss"
    using Cons.prems(1) by auto
  ultimately show ?case using r by (auto simp: fun_eq_iff)
qed (simp add: fun_eq_iff)

lemma set_dedup_sorted [simp]: "set (dedup_sorted xs) = set xs"
  by (induction xs) (auto split: list.splits)

context subsumption
begin

lemma cov_remove_groups:
  "cov rd (foldl (\<lambda>t k. cover_remove_group rd ds k t) t keys) k i =
     (if k \<in> set keys \<and> (\<exists>s. (s, k) \<in> set ds \<and> sub_scope s = i) then None else cov rd t k i)"
proof (induction keys arbitrary: t)
  case (Cons key keys)
  have g: "cover_remove_group rd ds key t = covers_after_remove (map fst (filter (\<lambda>d. snd d = key) ds)) key t"
    by (simp add: cover_remove_group_def covers_after_remove_def)
  have "i \<in> sub_scope ` set (map fst (filter (\<lambda>d. snd d = key) ds)) \<longleftrightarrow> (\<exists>s. (s, key) \<in> set ds \<and> sub_scope s = i)"
    by force
  then show ?case using Cons.IH [of "cover_remove_group rd ds key t"]
    by (auto simp: g cov_remove)
qed simp

lemma cov_ok_groups: "cov_ok rd t \<Longrightarrow> cov_ok rd (foldl (\<lambda>t k. cover_remove_group rd ds k t) t keys)"
proof (induction keys arbitrary: t)
  case (Cons key keys)
  have "cover_remove_group rd ds key t = covers_after_remove (map fst (filter (\<lambda>d. snd d = key) ds)) key t"
    by (simp add: cover_remove_group_def covers_after_remove_def)
  then show ?case using Cons cov_ok_remove by simp
qed simp

lemma force_remove_inv:
  assumes "sm_inv rd st"
  shows "\<exists>st'. force_remove_root rd h st = Some (cohort_of st h, st') \<and> sm_inv rd st' \<and>
    sm_subs st' = (\<lambda>x. if x \<in> set (cohort_of st h) then None else sm_subs st x) \<and> sm_by_handle st' h = None"
proof (cases "sm_by_handle st h")
  case None
  have "sm_root_subs st h = None"
    using assms None cohorts_okD(1) unfolding sm_inv_def by (metis domIff)
  then show ?thesis using None assms by (simp add: force_remove_root_def cohort_of_def)
next
  case (Some k)
  have co: "cohorts_ok (sm_by_handle st) (sm_root_subs st) (sm_subs st)"
    and ro: "roots_ok (roots rd st) (sm_by_handle st)"
    and ids: "ids_ok (sm_instance st) (sm_next_sub st) (sm_subs st) (sm_pending st)"
    and at: "attribution_ok rd (sm_instance st) (sm_covers st) (sm_subs st)"
    using assms by (simp_all add: sm_inv_def)
  obtain c where c: "sm_root_subs st h = Some c" using cohorts_okD(1) [OF co] Some by blast
  note mem = cohorts_okD(4) [OF co c]
  obtain r where r: "rx_get (rd_index rd) (sm_index st) k = Some r"
    using roots_okD(3) [OF ro Some] by (auto simp: roots_def)
  let ?subs = "\<lambda>x. if x \<in> set c then None else sm_subs st x"
  let ?ds = "map (\<lambda>s. (s, sr_key (the (sm_subs st s)))) c"
  let ?t = "foldl (\<lambda>t k. cover_remove_group rd ?ds k t) (sm_covers st) (dedup_sorted (sort (map snd ?ds)))"
  have dep: "departing_subs c (sm_subs st) = (?ds, ?subs)"
    using mem cohorts_okD(3) [OF co c] by (intro departing_subs_closed) auto
  have "cov rd ?t k i \<noteq> None \<longleftrightarrow> (\<exists>q. ?subs (Subscription (sm_instance st) i) = Some q \<and> sr_key q = k)" for k i
  proof -
    have "(\<exists>s. (s, k) \<in> set ?ds \<and> sub_scope s = i) \<longleftrightarrow>
        Subscription (sm_instance st) i \<in> set c \<and> sr_key (the (sm_subs st (Subscription (sm_instance st) i))) = k"
    proof
      assume "\<exists>s. (s, k) \<in> set ?ds \<and> sub_scope s = i"
      then obtain s where s: "s \<in> set c" "sr_key (the (sm_subs st s)) = k" "sub_scope s = i" by auto
      moreover have "sub_instance s = sm_instance st" using ids mem [of s] s(1) by (auto simp: ids_ok_def)
      ultimately show "Subscription (sm_instance st) i \<in> set c \<and>
          sr_key (the (sm_subs st (Subscription (sm_instance st) i))) = k" using sub_eta [of s] by metis
    qed force
    moreover have "k \<in> set (dedup_sorted (sort (map snd ?ds)))" if "(s, k) \<in> set ?ds" for s
      using that by force
    ultimately show ?thesis using at mem [of "Subscription (sm_instance st) i"]
      unfolding cov_remove_groups attribution_ok_def by auto
  qed
  then have "attribution_ok rd (sm_instance st) ?t ?subs"
    using at cov_ok_groups by (simp add: attribution_ok_def)
  moreover have "cohorts_ok ((sm_by_handle st)(h := None)) ((sm_root_subs st)(h := None)) ?subs"
    by (rule cohorts_ok_gone [OF co]) (use mem in auto)
  moreover have "roots_ok ((roots rd st)(k := None)) ((sm_by_handle st)(h := None))"
    by (rule roots_ok_remove [OF ro Some])
  moreover have "ids_ok (sm_instance st) (sm_next_sub st) ?subs (sm_pending st)"
    by (rule ids_ok_shrink [OF ids]) (auto split: if_splits)
  ultimately have "sm_inv rd (publish (st\<lparr>sm_by_handle := (sm_by_handle st)(h := None),
      sm_index := rx_remove (rd_index rd) k (sm_index st), sm_root_subs := (sm_root_subs st)(h := None),
      sm_subs := ?subs, sm_covers := ?t\<rparr>))"
    by (simp add: sm_inv_def roots_def index.get_remove)
  then show ?thesis using Some r c dep by (simp add: force_remove_root_def Let_def cohort_of_def)
qed

end

lemma roots_ok_rebind:
  assumes "roots_ok rs bh" and "bh old = Some k" and "rs k = Some r" and "bh new = None \<or> new = old"
  shows "roots_ok (rs(k \<mapsto> r\<lparr>rr_handle := new\<rparr>)) (bh(old := None, new \<mapsto> k))"
proof -
  have "roots_ok ((rs(k := None))(k \<mapsto> r\<lparr>rr_handle := new\<rparr>)) ((bh(old := None))(new \<mapsto> k))"
  proof (rule roots_ok_insert [OF roots_ok_remove [OF assms(1,2)]])
    show "(rs(k := None)) p = None" if "prefix p k" for p
      using that roots_okD(4) [OF assms(1) _ assms(3), of p] by (cases "rs p") auto
    show "(rs(k := None)) p = None" if "strict_prefix k p" for p
      using that roots_okD(4) [OF assms(1,3), of p] by (cases "rs p") (auto simp: strict_prefix_def)
    show "rr_key (r\<lparr>rr_handle := new\<rparr>) = k" using roots_okD(1) [OF assms(1,3)] by simp
  qed (use assms(4) in auto)
  then show ?thesis by simp
qed

lemma cohorts_ok_rebind:
  assumes "cohorts_ok bh rs subs" and "bh old = Some k" and "rs old = Some c" and "bh new = None \<or> new = old"
  shows "cohorts_ok (bh(old := None, new \<mapsto> k)) (rs(old := None, new \<mapsto> c)) (move_subs new c subs)"
proof -
  note mem = cohorts_okD(4) [OF assms(1,3)]
  have other: "sr_root q \<noteq> new" if "subs x = Some q" "x \<notin> set c" for x q
    using cohorts_okD(5) [OF assms(1) that(1)] assms(4) mem [of x] that by auto
  show ?thesis
    unfolding cohorts_ok_def
  proof (intro conjI allI impI)
    show "dom (rs(old := None, new \<mapsto> c)) = dom (bh(old := None, new \<mapsto> k))"
      using cohorts_okD(1) [OF assms(1)] by auto
  next
    fix h d assume d: "(rs(old := None, new \<mapsto> c)) h = Some d"
    show "d \<noteq> []" "distinct d"
      using d cohorts_okD(2,3) [OF assms(1), of h d] cohorts_okD(2,3) [OF assms(1,3)] by (auto split: if_splits)
    show "x \<in> set d \<longleftrightarrow> (\<exists>q. move_subs new c subs x = Some q \<and> sr_root q = h)" for x
    proof (cases "h = new")
      case True
      then show ?thesis using d mem [of x] other [of x] by (auto simp: move_subs_Some_iff)
    next
      case False
      then have h: "rs h = Some d" "h \<noteq> old" using d by (auto split: if_splits)
      then show ?thesis using False cohorts_okD(4) [OF assms(1) h(1), of x] mem [of x]
        by (auto simp: move_subs_Some_iff)
    qed
  next
    fix x q assume "move_subs new c subs x = Some q"
    then obtain q0 where q0: "subs x = Some q0" "q = (if x \<in> set c then q0\<lparr>sr_root := new\<rparr> else q0)"
      by (auto simp: move_subs_Some_iff)
    then show "\<exists>k'. (bh(old := None, new \<mapsto> k)) (sr_root q) = Some k' \<and> prefix k' (sr_key q)"
      using cohorts_okD(5) [OF assms(1) q0(1)] mem [of x] assms(2) other [OF q0(1)] by (auto split: if_splits)
  qed
qed

context subsumption
begin

lemma rebind_inv:
  assumes "sm_inv rd st" and "sm_by_handle st new = None \<or> new = old"
  shows "sm_inv rd (rebind_root rd old new st)"
proof (cases "sm_by_handle st old")
  case None
  then show ?thesis using assms(1) by (simp add: rebind_root_def)
next
  case (Some k)
  have co: "cohorts_ok (sm_by_handle st) (sm_root_subs st) (sm_subs st)"
    and ro: "roots_ok (roots rd st) (sm_by_handle st)"
    and ids: "ids_ok (sm_instance st) (sm_next_sub st) (sm_subs st) (sm_pending st)"
    and at: "attribution_ok rd (sm_instance st) (sm_covers st) (sm_subs st)"
    using assms by (simp_all add: sm_inv_def)
  obtain c where c: "sm_root_subs st old = Some c" using cohorts_okD(1) [OF co] Some by blast
  obtain r where r: "roots rd st k = Some r" using roots_okD(3) [OF ro Some] by blast
  have "attribution_ok rd (sm_instance st) (sm_covers st) (move_subs new c (sm_subs st))"
    by (rule attribution_cong [OF at]) (rule move_subs_key)
  moreover have "ids_ok (sm_instance st) (sm_next_sub st) (move_subs new c (sm_subs st)) (sm_pending st)"
    by (rule ids_ok_shrink [OF ids]) (simp only: move_subs_None not_False_eq_True simp_thms)
  ultimately show ?thesis
    using Some c r roots_ok_rebind [OF ro Some r assms(2)] cohorts_ok_rebind [OF co Some c assms(2)]
    by (simp add: rebind_root_def Let_def sm_inv_def roots_def index.get_insert)
qed

lemma record_update_inv:
  assumes "sm_inv rd st" and "sm_by_handle st h = Some k" and "rx_get (rd_index rd) (sm_index st) k = Some r"
  shows "sm_inv rd (publish (st\<lparr>sm_index := rx_insert (rd_index rd) k (r\<lparr>rr_retained_cover := c\<rparr>) (sm_index st)\<rparr>))"
proof -
  have ro: "roots_ok (roots rd st) (sm_by_handle st)" using assms(1) by (simp add: sm_inv_def)
  have "rr_key r = k" using roots_okD(1) [OF ro] assms(3) by (simp add: roots_def)
  with roots_ok_update [OF ro, of k r "r\<lparr>rr_retained_cover := c\<rparr>"] assms(3)
  have "roots_ok ((roots rd st)(k \<mapsto> r\<lparr>rr_retained_cover := c\<rparr>)) (sm_by_handle st)"
    by (simp add: roots_def)
  with assms(1) show ?thesis by (simp add: sm_inv_def roots_def index.get_insert)
qed

lemma set_cover_inv: "sm_inv rd st \<Longrightarrow> sm_inv rd (set_retained_cover rd h c st)"
  by (auto simp: set_retained_cover_def record_update_inv split: option.split)

lemma degrade_inv: "sm_inv rd st \<Longrightarrow> sm_inv rd (degrade_retained_cover rd h st)"
  by (auto simp: degrade_retained_cover_def record_update_inv split: option.split)

section \<open>Planning a watch\<close>

lemma sm_inv_new: "sm_inv rd (subsumer_new rd inst)"
  by (simp add: sm_inv_def subsumer_new_def roots_ok_def cohorts_ok_def attribution_ok_def ids_ok_def
      cov_ok_def covers.get_new cov_new roots_def index.get_new)

lemma sm_inv_abort: "sm_inv rd st \<Longrightarrow> sm_inv rd (abort_watch out st)"
  by (auto simp: sm_inv_def abort_watch_def roots_def ids_ok_def)

lemma ancestor_root:
  assumes "sm_inv rd st" and "rx_get_ancestor (rd_index rd) (sm_index st) key = Some r"
  shows "prefix (rr_key r) key" and "roots rd st (rr_key r) = Some r"
    and "sm_by_handle st (rr_handle r) = Some (rr_key r)"
proof -
  have ro: "roots_ok (roots rd st) (sm_by_handle st)" using assms(1) by (simp add: sm_inv_def)
  obtain p where p: "prefix p key" "roots rd st p = Some r"
    using index.ancestor_Some [OF assms(2)] unfolding roots_def by blast
  then have "rr_key r = p" using roots_okD(1) [OF ro] by blast
  with p roots_okD(2) [OF ro] show "prefix (rr_key r) key" "roots rd st (rr_key r) = Some r"
      "sm_by_handle st (rr_handle r) = Some (rr_key r)" by auto
qed

lemma no_ancestor:
  "rx_get_ancestor (rd_index rd) (sm_index st) key = None \<longleftrightarrow> (\<forall>p. prefix p key \<longrightarrow> roots rd st p = None)"
  by (simp add: index.ancestor_None_iff roots_def)

text \<open>The handles and subscribers a widen names.\<close>

lemma widen_names:
  assumes "sm_inv rd st"
    and "widen_loop globs (sm_root_subs st) (rx_descendants (rd_index rd) (sm_index st) key) = Inr (rep, unw)"
  shows "set unw = handles_below rd key st" and "distinct unw" and "distinct rep"
    and "x \<in> set rep \<longleftrightarrow> (\<exists>r. sm_subs st x = Some r \<and> sr_root r \<in> set unw)"
    and "unw = [] \<longleftrightarrow> (\<forall>k. strict_prefix key k \<longrightarrow> roots rd st k = None)"
proof -
  have co: "cohorts_ok (sm_by_handle st) (sm_root_subs st) (sm_subs st)"
    and ro: "roots_ok (roots rd st) (sm_by_handle st)" using assms(1) by (simp_all add: sm_inv_def)
  note w = widen_loop_Inr [OF assms(2)]
  show unw: "set unw = handles_below rd key st" "distinct unw"
    using handles_of_descendants [OF ro, of key] w by simp_all
  have rep: "rep = concat (map (cohort_of st) unw)"
    using w by (simp add: cohort_of_def comp_def)
  have live: "\<And>h. h \<in> set unw \<Longrightarrow> sm_by_handle st h \<noteq> None"
    using unw(1) by (auto simp: handles_below_def)
  show "distinct rep" "x \<in> set rep \<longleftrightarrow> (\<exists>r. sm_subs st x = Some r \<and> sr_root r \<in> set unw)"
    unfolding rep using concat_cohorts [OF co unw(2) live] by blast+
  have "handles_below rd key st = {} \<longleftrightarrow> (\<forall>k. strict_prefix key k \<longrightarrow> roots rd st k = None)"
  proof
    assume none: "handles_below rd key st = {}"
    have "roots rd st k \<noteq> Some r" if "strict_prefix key k" for k r
    proof
      assume "roots rd st k = Some r"
      then have "rr_handle r \<in> handles_below rd key st"
        using roots_okD(2) [OF ro] that unfolding handles_below_def by blast
      with none show False by simp
    qed
    then show "\<forall>k. strict_prefix key k \<longrightarrow> roots rd st k = None" by (metis not_None_eq)
  next
    assume "\<forall>k. strict_prefix key k \<longrightarrow> roots rd st k = None"
    then show "handles_below rd key st = {}"
      using roots_okD(3) [OF ro] unfolding handles_below_def by force
  qed
  then show "unw = [] \<longleftrightarrow> (\<forall>k. strict_prefix key k \<longrightarrow> roots rd st k = None)" using unw(1) by auto
qed

end

end
