(* ===== verification/Subsumer_History.thy ===== *)
theory Subsumer_History
  imports Subsumer_Steps
begin

text \<open>
  The engine as a state machine and its properties. A watch is planned, the source arms (answering a
  handle and the canonical key it armed), the guard \<open>fs_path_preserves_plan\<close> is consulted and the plan
  is committed or aborted, as in the driver's reconcile. The one thing the engine relies on is the
  documented handle contract of a source: a freshly armed handle names no live root (a widen may also
  retarget a subsumed root in place and keep its handle).
\<close>

datatype ('c, 'v, 'h) sm_op =
    SWatch "'c list" 'v delivery_interest root_globs 'h "'c list"
  | SWatchFailed "'c list" 'v delivery_interest root_globs
  | SUnwatch subscription
  | SRetire 'h
  | SRebind 'h 'h
  | SSetCover 'h "'c list list option"
  | SDegrade 'h

definition planned_unwatch :: "'h watch_outcome \<Rightarrow> 'h list" where
  "planned_unwatch out = (case out of Widen _ unwatch _ \<Rightarrow> unwatch | _ \<Rightarrow> [])"

fun sm_step ::
  "('t, 'u, 'w, 'c::linorder, 'v, 'h) radices \<Rightarrow> ('c, 'v, 'h) sm_op \<Rightarrow> ('t, 'u, 'c, 'v, 'h) subsumer
     \<Rightarrow> ('t, 'u, 'c, 'v, 'h) subsumer option" where
  "sm_step rd (SWatch key v i globs h fs_key) st =
     (case plan_watch rd key v i globs st of
        None \<Rightarrow> None
      | Some (Inl _, st1) \<Rightarrow> Some st1
      | Some (Inr (Covered root s outside), st1) \<Rightarrow> commit_watch rd (Covered root s outside) root key globs st1
      | Some (Inr out, st1) \<Rightarrow>
          if fs_path_preserves_plan rd fs_key (planned_unwatch out) st1
          then commit_watch rd out h fs_key globs st1
          else Some (abort_watch out st1))"
| "sm_step rd (SWatchFailed key v i globs) st =
     (case plan_watch rd key v i globs st of
        None \<Rightarrow> None
      | Some (Inl _, st1) \<Rightarrow> Some st1
      | Some (Inr out, st1) \<Rightarrow> Some (abort_watch out st1))"
| "sm_step rd (SUnwatch s) st = map_option snd (plan_unwatch rd s st)"
| "sm_step rd (SRetire h) st = map_option snd (force_remove_root rd h st)"
| "sm_step rd (SRebind old new) st = Some (rebind_root rd old new st)"
| "sm_step rd (SSetCover h cover) st = Some (set_retained_cover rd h cover st)"
| "sm_step rd (SDegrade h) st = Some (degrade_retained_cover rd h st)"

fun handle_ok ::
  "('t, 'u, 'w, 'c, 'v, 'h) radices \<Rightarrow> ('c, 'v, 'h) sm_op \<Rightarrow> ('t, 'u, 'c, 'v, 'h) subsumer \<Rightarrow> bool" where
  "handle_ok rd (SWatch key v i globs h fs_key) st \<longleftrightarrow>
     sm_by_handle st h = None \<or> h \<in> set (map rr_handle (rx_descendants (rd_index rd) (sm_index st) fs_key))"
| "handle_ok rd (SRebind old new) st \<longleftrightarrow> sm_by_handle st new = None \<or> new = old"
| "handle_ok rd _ st \<longleftrightarrow> True"

inductive sm_reach ::
  "('t, 'u, 'w, 'c::linorder, 'v, 'h) radices \<Rightarrow> u64 \<Rightarrow> ('t, 'u, 'c, 'v, 'h) subsumer \<Rightarrow> bool"
  for rd :: "('t, 'u, 'w, 'c::linorder, 'v, 'h) radices" and inst :: u64 where
  start: "sm_reach rd inst (subsumer_new rd inst)"
| step: "sm_reach rd inst st \<Longrightarrow> handle_ok rd x st \<Longrightarrow> sm_step rd x st = Some st' \<Longrightarrow> sm_reach rd inst st'"

context subsumption
begin

lemma plan_cases:
  assumes "sm_inv rd st" and "plan_watch rd key v i globs st = Some (res, st1)"
  obtains (refused) r reason where "res = Inl (refusal_against r v reason)" "st1 = st"
      "roots rd st (rr_key r) = Some r" "prefix (rr_key r) key \<or> prefix key (rr_key r)"
      "reason = Differ \<and> rr_globs r \<noteq> globs \<or>
       reason = Anchored \<and> rr_globs r = globs \<and> rg_prune globs \<noteq> [] \<and> rr_key r \<noteq> key"
  | (covered) r s where "res = Inr (Covered (rr_handle r) s (covered_outside r key))"
      "reserve key v i st = Some (s, st1)" "roots rd st (rr_key r) = Some r" "prefix (rr_key r) key"
      "sm_by_handle st (rr_handle r) = Some (rr_key r)" "rr_globs r = globs"
      "length (rr_key r) = length key \<or> rg_prune globs = []"
  | (widen) rep unw s where "res = Inr (Widen rep unw s)" "reserve key v i st = Some (s, st1)"
      "\<forall>p. prefix p key \<longrightarrow> roots rd st p = None" "unw \<noteq> []"
      "widen_loop globs (sm_root_subs st) (rx_descendants (rd_index rd) (sm_index st) key) = Inr (rep, unw)"
  | (disjoint) s where "res = Inr (Disjoint s)" "reserve key v i st = Some (s, st1)"
      "\<forall>p. prefix p key \<longrightarrow> roots rd st p = None" "\<forall>k. strict_prefix key k \<longrightarrow> roots rd st k = None"
proof (cases "rx_get_ancestor (rd_index rd) (sm_index st) key")
  case (Some r)
  note a = ancestor_root [OF assms(1) Some]
  have ref: "res = Inl (refusal_against r v reason) \<Longrightarrow> st1 = st \<Longrightarrow>
      reason = Differ \<and> rr_globs r \<noteq> globs \<or>
      reason = Anchored \<and> rr_globs r = globs \<and> rg_prune globs \<noteq> [] \<and> rr_key r \<noteq> key \<Longrightarrow> thesis" for reason
    using refused [of r reason] a(1,2) by blast
  show thesis
    using assms(2) Some a covered [of r] ref [of Differ] ref [of Anchored]
    by (auto simp: plan_watch_def split: if_splits)
next
  case None
  then have free: "\<forall>p. prefix p key \<longrightarrow> roots rd st p = None" by (simp add: no_ancestor)
  show thesis
  proof (cases "widen_loop globs (sm_root_subs st) (rx_descendants (rd_index rd) (sm_index st) key)")
    case (Inl e)
    obtain r reason where e: "e = (r, reason)" by (cases e)
    have ro: "roots_ok (roots rd st) (sm_by_handle st)" using assms(1) by (simp add: sm_inv_def)
    note w = widen_loop_Inl [OF Inl [unfolded e]]
    then obtain k where k: "strict_prefix key k" "roots rd st k = Some r"
      using index.set_descendants unfolding roots_def by blast
    then have "rr_key r = k" using roots_okD(1) [OF ro] by blast
    then show thesis
      using assms(2) None Inl e refused [of r reason] w k by (auto simp: plan_watch_def strict_prefix_def)
  next
    case (Inr e)
    obtain rep unw where e: "e = (rep, unw)" by (cases e)
    note w = widen_names(5) [OF assms(1) Inr [unfolded e]]
    show thesis
      using assms(2) None Inr e widen [OF _ _ free] disjoint [OF _ _ free] w
      by (auto simp: plan_watch_def split: if_splits)
  qed
qed

lemma plan_None_iff:
  assumes "plan_watch rd key v i globs st = None"
  shows "sm_next_sub st = u64_max"
  using assms reserve_None_iff [of key v i st]
  by (auto simp: plan_watch_def split: option.splits if_splits sum.splits prod.splits)

lemma preserves_planD:
  assumes "sm_inv rd st" and "fs_path_preserves_plan rd key unw st"
  shows "\<And>q. prefix q key \<Longrightarrow> roots rd st q = None" and "set unw = handles_below rd key st"
proof -
  have ro: "roots_ok (roots rd st) (sm_by_handle st)" using assms(1) by (simp add: sm_inv_def)
  show "\<And>q. prefix q key \<Longrightarrow> roots rd st q = None"
    using assms(2) no_ancestor by (simp add: fs_path_preserves_plan_def)
  show "set unw = handles_below rd key st"
    using assms(2) handles_of_descendants(1) [OF ro] by (simp add: fs_path_preserves_plan_def)
qed

lemma no_handles_below:
  assumes "sm_inv rd st" and "handles_below rd key st = {}" and "strict_prefix key k"
  shows "roots rd st k = None"
proof (rule ccontr)
  assume "roots rd st k \<noteq> None"
  then obtain r where "roots rd st k = Some r" by auto
  then have "sm_by_handle st (rr_handle r) = Some k"
    using roots_okD(2) assms(1) unfolding sm_inv_def by blast
  with assms(2,3) show False by (auto simp: handles_below_def)
qed

lemma watch_inv:
  assumes "sm_inv rd st" and "handle_ok rd (SWatch key v i globs h fs_key) st"
    and p: "plan_watch rd key v i globs st = Some (res, st1)"
  shows "\<exists>st'. sm_step rd (SWatch key v i globs h fs_key) st = Some st' \<and> sm_inv rd st'"
proof -
  have ro: "roots_ok (roots rd st) (sm_by_handle st)" using assms(1) by (simp add: sm_inv_def)
  from assms(1) p show ?thesis
  proof (cases rule: plan_cases)
    case (refused r reason)
    then show ?thesis using p assms(1) by simp
  next
    case (covered r s)
    note rv = sm_inv_reserve [OF assms(1) covered(2)]
    have "\<exists>st'. commit_watch rd (Covered (rr_handle r) s (covered_outside r key)) (rr_handle r) key globs st1 = Some st' \<and>
        sm_inv rd st'"
      by (rule commit_covered [OF rv(1) rv(8) rv(2)]) (use rv(5) covered(4,5) in simp_all)
    then show ?thesis using p covered(1) by simp
  next
    case (widen rep unw s)
    note rv = sm_inv_reserve [OF assms(1) widen(2)]
    have same: "handles_below rd fs_key st1 = handles_below rd fs_key st" by (simp add: handles_below_def rv(5))
    have "\<exists>st'. commit_watch rd (Widen rep unw s) h fs_key globs st1 = Some st' \<and> sm_inv rd st'"
      if ok: "fs_path_preserves_plan rd fs_key unw st1"
    proof (rule commit_widen [OF rv(1) rv(8) rv(2)])
      note d = preserves_planD [OF rv(1) ok]
      show "prefix q fs_key \<Longrightarrow> roots rd st1 q = None" for q by (rule d(1))
      show "set unw = handles_below rd fs_key st1" by (rule d(2))
      show "h \<in> set unw" if "sm_by_handle st1 h \<noteq> None"
        using that assms(2) rv(5) d(2) same handles_of_descendants(1) [OF ro, of fs_key] by auto
      show "distinct rep" by (rule widen_names(3) [OF assms(1) widen(5)])
      show "x \<in> set rep \<longleftrightarrow> (\<exists>r. sm_subs st1 x = Some r \<and> sr_root r \<in> set unw)" for x
        using widen_names(4) [OF assms(1) widen(5)] rv(3) by simp
    qed
    then show ?thesis using p widen(1) sm_inv_abort [OF rv(1)] by (simp add: planned_unwatch_def)
  next
    case (disjoint s)
    note rv = sm_inv_reserve [OF assms(1) disjoint(2)]
    have "\<exists>st'. commit_watch rd (Disjoint s) h fs_key globs st1 = Some st' \<and> sm_inv rd st'"
      if ok: "fs_path_preserves_plan rd fs_key [] st1"
    proof (rule commit_disjoint [OF rv(1) rv(8) rv(2)])
      note d = preserves_planD [OF rv(1) ok]
      show "prefix q fs_key \<Longrightarrow> roots rd st1 q = None" for q by (rule d(1))
      show "strict_prefix fs_key q \<Longrightarrow> roots rd st1 q = None" for q
        using no_handles_below [OF rv(1), of fs_key q] d(2) by simp
      have "rx_descendants (rd_index rd) (sm_index st) fs_key = []"
      proof -
        have "handles_below rd fs_key st = handles_below rd fs_key st1" by (simp add: handles_below_def rv(5))
        then have "set (map rr_handle (rx_descendants (rd_index rd) (sm_index st) fs_key)) = {}"
          using handles_of_descendants(1) [OF ro, of fs_key] d(2) by simp
        then show ?thesis by simp
      qed
      then show "sm_by_handle st1 h = None" using assms(2) rv(5) by simp
    qed
    then show ?thesis using p disjoint(1) sm_inv_abort [OF rv(1)] by (simp add: planned_unwatch_def)
  qed
qed

lemma step_inv:
  assumes "sm_inv rd st" and "handle_ok rd x st" and "sm_next_sub st \<noteq> u64_max \<or> sm_step rd x st \<noteq> None"
  shows "\<exists>st'. sm_step rd x st = Some st' \<and> sm_inv rd st'"
proof (cases x)
  case (SWatch key v i globs h fs_key)
  then have "plan_watch rd key v i globs st = None \<Longrightarrow> sm_step rd x st = None" by simp
  then have "plan_watch rd key v i globs st \<noteq> None" using assms(3) plan_None_iff by blast
  then obtain res st1 where "plan_watch rd key v i globs st = Some (res, st1)" by auto
  from watch_inv [OF assms(1) assms(2) [unfolded SWatch] this] show ?thesis using SWatch by simp
next
  case (SWatchFailed key v i globs)
  then have "plan_watch rd key v i globs st = None \<Longrightarrow> sm_step rd x st = None" by simp
  then have "plan_watch rd key v i globs st \<noteq> None" using assms(3) plan_None_iff by blast
  then obtain res st1 where p: "plan_watch rd key v i globs st = Some (res, st1)" by auto
  have "sm_inv rd st1 \<and> (\<forall>e. res = Inl e \<longrightarrow> st1 = st)"
    using assms(1) p by (cases rule: plan_cases) (auto dest: sm_inv_reserve(1) [OF assms(1)] simp: assms(1))
  then show ?thesis using SWatchFailed p sm_inv_abort by (cases res) auto
next
  case (SUnwatch s)
  show ?thesis
  proof (cases "sm_subs st s")
    case None
    then show ?thesis using SUnwatch assms(1) by (simp add: plan_unwatch_def)
  next
    case (Some r)
    then show ?thesis using unwatch_inv [OF assms(1) Some] SUnwatch by auto
  qed
next
  case (SRetire h)
  then show ?thesis using force_remove_inv [OF assms(1), of h] by auto
qed (use assms rebind_inv set_cover_inv degrade_inv in auto)

end

context subsumption
begin

lemma reach_inv: "sm_reach rd inst st \<Longrightarrow> sm_inv rd st"
proof (induction rule: sm_reach.induct)
  case start
  show ?case by (rule sm_inv_new)
next
  case (step st x st')
  then show ?case using step_inv [of st x] by auto
qed

end

section \<open>A concrete engine\<close>

type_synonym ('c, 'v, 'h) assoc_subsumer =
  "(('c list \<times> ('c, 'h) root_record) list, ('c list \<times> (u64 list \<times> 'v) list) list, 'c, 'v, 'h) subsumer"

definition assoc_radices ::
  "(('c::linorder list \<times> ('c, 'h) root_record) list, ('c list \<times> (u64 list \<times> 'v) list) list,
    (u64 list \<times> 'v) list, 'c, 'v, 'h) radices" where
  "assoc_radices = \<lparr>rd_index = assoc_ops, rd_covers = assoc_ops, rd_cohort = assoc_ops\<rparr>"

lemma assoc_radices_simps [simp]:
  "rd_index assoc_radices = assoc_ops" "rd_covers assoc_radices = assoc_ops" "rd_cohort assoc_radices = assoc_ops"
  by (simp_all add: assoc_radices_def)

interpretation engine: subsumption assoc_radices
  by (rule subsumption.intro) (simp_all add: assoc.radix_axioms)

section \<open>Properties\<close>

text \<open>
  Property C18. Invariant. In every state the engine reaches, the live roots are pairwise disjoint (no
  root at or above another), every handle and every subscription is recorded once and consistently in
  all the tables, each live subscription rides a live root at or above its own key, and the published
  snapshot is the current one; and from such a state no operation panics as long as the subscription
  id space is not exhausted. The trees are any implementation of the radix laws.
\<close>

theorem subsumer_histories_ok:
  fixes st :: "('t, 'u, 'c::linorder, 'v, 'h) subsumer"
  assumes "subsumption rd" and "sm_reach rd inst st" and "handle_ok rd x st" and "sm_next_sub st \<noteq> u64_max"
  shows "sm_inv rd st \<and> sm_step rd x st \<noteq> None \<and>
    (\<forall>k k'. roots rd st k \<noteq> None \<and> roots rd st k' \<noteq> None \<and> k \<noteq> k' \<longrightarrow> \<not> prefix k k')"
proof -
  have inv: "sm_inv rd st" using subsumption.reach_inv [OF assms(1,2)] .
  then have "\<forall>k k'. roots rd st k \<noteq> None \<and> roots rd st k' \<noteq> None \<and> k \<noteq> k' \<longrightarrow> \<not> prefix k k'"
    unfolding sm_inv_def roots_ok_def by blast
  with inv subsumption.step_inv [OF assms(1) inv assms(3)] assms(4) show ?thesis by auto
qed

definition ex_sm :: "(nat, nat, nat) assoc_subsumer" where
  "ex_sm = subsumer_new assoc_radices 1"

definition ex_ops :: "(nat, nat, nat) sm_op list" where
  "ex_ops = [SWatch [1, 2] 10 delivery_all root_globs_new 7 [1, 2], SWatch [1, 3] 20 delivery_all root_globs_new 8 [1, 3],
     SWatch [1] 30 delivery_all root_globs_new 9 [1]]"

theorem subsumer_histories_ok_witness:
  "sm_step assoc_radices (hd ex_ops) ex_sm \<noteq> None"
proof -
  have "sm_next_sub ex_sm \<noteq> u64_max" by (simp add: ex_sm_def subsumer_new_def u64_max_def)
  moreover have "handle_ok assoc_radices (hd ex_ops) ex_sm"
    by (simp add: ex_ops_def ex_sm_def subsumer_new_def)
  moreover have "sm_reach assoc_radices 1 ex_sm" unfolding ex_sm_def by (rule sm_reach.start)
  ultimately show ?thesis
    using subsumer_histories_ok [OF engine.subsumption_axioms, of 1 ex_sm "hd ex_ops"] by blast
qed

text \<open>
  Property C19. Functional. What a plan says of the roots. A covered newcomer names the live root at or
  above its key; a widen is planned exactly when no root is at or above the key and some are strictly
  below it, names each of them once and all their subscribers once; a disjoint newcomer is comparable
  with no root. In each case every root whose coverage is shared is armed with the newcomer's own
  words, and with no prune pattern unless the root key is the newcomer's. A refusal names a live root,
  comparable with the key, whose words differ or whose equal words would be re-anchored, and changes
  nothing.
\<close>

theorem plan_watch_classifies:
  fixes st :: "('t, 'u, 'c::linorder, 'v, 'h) subsumer"
  assumes "subsumption rd" and "sm_inv rd st" and "plan_watch rd key v i globs st = Some (res, st1)"
  shows "case res of
      Inl refusal \<Rightarrow> st1 = st \<and> (\<exists>k r. roots rd st k = Some r \<and> (prefix k key \<or> prefix key k) \<and>
        wr_root refusal = rr_handle r \<and> wr_armed refusal = rr_globs r \<and>
        (wr_reason refusal = Differ \<and> rr_globs r \<noteq> globs \<or>
         wr_reason refusal = Anchored \<and> rr_globs r = globs \<and> rg_prune globs \<noteq> [] \<and> k \<noteq> key))
    | Inr (Covered h s outside) \<Rightarrow> (\<exists>k r. roots rd st k = Some r \<and> rr_handle r = h \<and> prefix k key \<and>
        rr_globs r = globs \<and> (k = key \<or> rg_prune globs = []) \<and> outside = covered_outside r key)
    | Inr (Widen rep unw s) \<Rightarrow> (\<forall>k. prefix k key \<longrightarrow> roots rd st k = None) \<and> unw \<noteq> [] \<and> distinct unw \<and>
        set unw = {h. \<exists>k r. strict_prefix key k \<and> roots rd st k = Some r \<and> rr_handle r = h \<and> rr_globs r = globs} \<and>
        (\<forall>k. strict_prefix key k \<longrightarrow> roots rd st k \<noteq> None \<longrightarrow> rg_prune globs = []) \<and>
        distinct rep \<and> set rep = {x. \<exists>r. sm_subs st x = Some r \<and> sr_root r \<in> set unw}
    | Inr (Disjoint s) \<Rightarrow> (\<forall>k. prefix k key \<or> prefix key k \<longrightarrow> roots rd st k = None)"
proof -
  have ro: "roots_ok (roots rd st) (sm_by_handle st)" using assms(2) by (simp add: sm_inv_def)
  show ?thesis
  proof (cases rule: subsumption.plan_cases [OF assms, case_names refused covered widen disjoint])
    case (refused r reason)
    then show ?thesis by (auto simp: refusal_against_def)
  next
    case (covered r s)
    then have "rr_key r = key \<or> rg_prune globs = []" by (auto simp: prefix_def)
    with covered show ?thesis by auto
  next
    case (widen rep unw s)
    note w = subsumption.widen_names [OF assms(1,2) widen(5)]
    have globs: "rr_globs r = globs \<and> rg_prune globs = []" if "strict_prefix key k" "roots rd st k = Some r" for k r
      using widen_loop_Inr [OF widen(5)] that radix.set_descendants [of "rd_index rd" "sm_index st" key] assms(1)
      unfolding subsumption_def roots_def by blast
    have "h \<in> handles_below rd key st \<longleftrightarrow>
        (\<exists>k r. strict_prefix key k \<and> roots rd st k = Some r \<and> rr_handle r = h \<and> rr_globs r = globs)" for h
      using roots_okD(2,3) [OF ro] globs unfolding handles_below_def by blast
    with w widen globs show ?thesis by (auto simp: set_eq_iff)
  next
    case (disjoint s)
    then show ?thesis by (auto simp: strict_prefix_def)
  qed
qed

text \<open>The watches of \<open>ex_ops\<close>: two siblings, then their parent, which subsumes both.\<close>

fun run_ops ::
  "('c::linorder, 'v, 'h) sm_op list \<Rightarrow> ('c, 'v, 'h) assoc_subsumer \<Rightarrow> ('c, 'v, 'h) assoc_subsumer option" where
  "run_ops [] st = Some st"
| "run_ops (x # xs) st =
     (if handle_ok assoc_radices x st then Option.bind (sm_step assoc_radices x st) (run_ops xs) else None)"

lemma run_ops_reach: "run_ops xs st = Some st' \<Longrightarrow> sm_reach assoc_radices i st \<Longrightarrow> sm_reach assoc_radices i st'"
proof (induction xs arbitrary: st)
  case (Cons x xs)
  then obtain st1 where "handle_ok assoc_radices x st" "sm_step assoc_radices x st = Some st1"
      "run_ops xs st1 = Some st'" by (auto simp: bind_eq_Some_conv split: if_splits)
  with Cons sm_reach.step [of assoc_radices i st x st1] show ?case by blast
qed simp

lemmas sm_exec = ex_ops_def ex_sm_def subsumer_new_def assoc_ops_def plan_watch_def reserve_def
  mint_subscription_def checked_add_def fs_path_preserves_plan_def planned_unwatch_def take_pending_def
  install_sub_def cover_add_def cover_push_def publish_def fresh_root_def Let_def longest_match.simps
  root_globs_new_def delivery_all_def covered_outside_def

lemma ex_siblings: "run_ops (take 2 ex_ops) ex_sm \<noteq> None"
  by (simp add: sm_exec)

definition ex_sm2 :: "(nat, nat, nat) assoc_subsumer" where
  "ex_sm2 = the (run_ops (take 2 ex_ops) ex_sm)"

lemma ex_sm2_reach: "sm_reach assoc_radices 1 ex_sm2"
proof -
  obtain st where "run_ops (take 2 ex_ops) ex_sm = Some st" using ex_siblings by auto
  then show ?thesis
    using run_ops_reach [of "take 2 ex_ops" ex_sm st 1] sm_reach.start [of assoc_radices 1]
    by (simp add: ex_sm2_def ex_sm_def)
qed

lemma ex_parent_plan:
  "map_option fst (plan_watch assoc_radices [1] 30 delivery_all root_globs_new ex_sm2) =
     Some (Inr (Widen [Subscription 1 1, Subscription 1 2] [7, 8] (Subscription 1 3)))"
  by (simp add: ex_sm2_def sm_exec)

theorem plan_watch_classifies_witness:
  "set [7, 8] = {h. \<exists>k r. strict_prefix [1] k \<and> roots assoc_radices ex_sm2 k = Some r \<and> rr_handle r = h \<and>
     rr_globs r = root_globs_new}"
proof -
  obtain st1 where "plan_watch assoc_radices [1] 30 delivery_all root_globs_new ex_sm2 =
      Some (Inr (Widen [Subscription 1 1, Subscription 1 2] [7, 8] (Subscription 1 3)), st1)"
    using ex_parent_plan by auto
  from plan_watch_classifies [OF engine.subsumption_axioms engine.reach_inv [OF ex_sm2_reach] this]
  show ?thesis unfolding sum.case watch_outcome.case by blast
qed

end
