(* ===== verification/Subsumer_Coverage.thy ===== *)
theory Subsumer_Coverage
  imports Subsumer_History
begin

text \<open>
  What the engine tells others: the retained cover a source may shrink to (\<open>antichain\<close>,
  \<open>plan_unwatch\<close>), the truth of the read plane (\<open>view/mod.rs\<close>) and the stability of attribution.
\<close>

section \<open>Antichains\<close>

lemma sorted_dedup: "sorted xs \<Longrightarrow> sorted_wrt (<) (dedup_sorted xs)"
proof (induction xs)
  case (Cons x xs)
  have le: "\<forall>y \<in> set (dedup_sorted xs). x \<le> y" using Cons.prems by simp
  have ih: "sorted_wrt (<) (dedup_sorted xs)" using Cons by simp
  show ?case
  proof (cases "dedup_sorted xs")
    case (Cons y ys)
    have "x < z" if "x \<noteq> y" "z \<in> set (y # ys)" for z
      using that le ih Cons by (cases "z = y") (auto intro: order_le_less_trans)
    with ih Cons show ?thesis by auto
  qed simp
qed simp

lemma set_antichain: "set (antichain keys) = {k \<in> set keys. \<not> (\<exists>o1 \<in> set keys. strict_prefix o1 k)}"
proof -
  have "(length o1 < length k \<and> prefix o1 k) \<longleftrightarrow> strict_prefix o1 k" for o1 k :: "'a list"
    by (auto simp: strict_prefix_def prefix_def)
  then show ?thesis by (auto simp: antichain_def Let_def list_ex_iff)
qed

lemma antichain_covers: "k \<in> set keys \<Longrightarrow> \<exists>a \<in> set (antichain keys). prefix a k"
proof (induction "length k" arbitrary: k rule: less_induct)
  case less
  show ?case
  proof (cases "\<exists>o1 \<in> set keys. strict_prefix o1 k")
    case True
    then obtain o1 where o1: "o1 \<in> set keys" "strict_prefix o1 k" by blast
    with less(1) [of o1] obtain a where "a \<in> set (antichain keys)" "prefix a o1"
      using prefix_length_less by blast
    then show ?thesis using o1(2) by (meson prefix_order.trans strict_prefix_def)
  next
    case False
    then show ?thesis using less(2) by (auto simp: set_antichain)
  qed
qed

lemma antichain_free:
  "a \<in> set (antichain keys) \<Longrightarrow> b \<in> set (antichain keys) \<Longrightarrow> prefix a b \<Longrightarrow> a = b"
  by (auto simp: set_antichain strict_prefix_def)

text \<open>
  \<open>antichain\<close> returns the least prefix-free cover of its input: its members
  are input keys in strictly ascending order, none is a prefix of another, every input key lies under
  exactly one of them, and any other set of keys under which all inputs lie covers each member.
\<close>

theorem antichain_is_least_cover:
  "sorted_wrt (<) (antichain keys) \<and> set (antichain keys) \<subseteq> set keys \<and>
   (\<forall>k. k \<in> set keys \<longrightarrow> (\<exists>!a. a \<in> set (antichain keys) \<and> prefix a k)) \<and>
   (\<forall>a b. a \<in> set (antichain keys) \<and> b \<in> set (antichain keys) \<and> prefix a b \<longrightarrow> a = b) \<and>
   (\<forall>C. (\<forall>k. k \<in> set keys \<longrightarrow> (\<exists>c. c \<in> C \<and> prefix c k)) \<longrightarrow>
      (\<forall>a. a \<in> set (antichain keys) \<longrightarrow> (\<exists>c. c \<in> C \<and> prefix c a)))"
proof (intro conjI allI impI)
  show "sorted_wrt (<) (antichain keys)"
    unfolding antichain_def Let_def by (intro sorted_wrt_filter sorted_dedup) simp
  show "set (antichain keys) \<subseteq> set keys" by (auto simp: set_antichain)
next
  fix k assume "k \<in> set keys"
  then obtain a where a: "a \<in> set (antichain keys)" "prefix a k" using antichain_covers by blast
  have "b = a" if "b \<in> set (antichain keys)" "prefix b k" for b
    using prefix_comparable [OF that(2) a(2)] antichain_free that a by metis
  with a show "\<exists>!a. a \<in> set (antichain keys) \<and> prefix a k" by blast
next
  fix a b assume "a \<in> set (antichain keys) \<and> b \<in> set (antichain keys) \<and> prefix a b"
  then show "a = b" using antichain_free by blast
next
  fix C a assume "\<forall>k. k \<in> set keys \<longrightarrow> (\<exists>c. c \<in> C \<and> prefix c k)" "a \<in> set (antichain keys)"
  then show "\<exists>c. c \<in> C \<and> prefix c a" by (auto simp: set_antichain)
qed

theorem antichain_is_least_cover_witness:
  "\<exists>!a. a \<in> set (antichain [[1, 2], [1, 2, 3], [1, 4 :: nat]]) \<and> prefix a [1, 2, 3]"
  using conjunct1 [OF conjunct2 [OF conjunct2 [OF antichain_is_least_cover [of "[[1, 2], [1, 2, 3], [1, 4 :: nat]]"]]]]
  by simp

section \<open>Shrinking\<close>

context subsumption
begin

lemma dropped_cover:
  assumes "sm_inv rd st" and "plan_unwatch rd s st = Some (Some (Dropped (Some (h, cover))), st')"
  shows "\<exists>r. sm_subs st s = Some r \<and> sr_root r = h \<and>
    (\<exists>ks. set ks = {sr_key q | x q. sm_subs st' x = Some q \<and> sr_root q = h} \<and> cover = antichain ks) \<and>
    (\<forall>x q. sm_subs st' x = Some q \<longrightarrow> sr_root q = h \<longrightarrow> sm_by_handle st h \<noteq> Some (sr_key q) \<or>
       entry rd h st \<noteq> None \<and> rr_retained_cover (the (entry rd h st)) \<noteq> None)"
proof -
  obtain r where r: "sm_subs st s = Some r"
    using assms(2) by (auto simp: plan_unwatch_def split: option.splits)
  have co: "cohorts_ok (sm_by_handle st) (sm_root_subs st) (sm_subs st)"
    and ro: "roots_ok (roots rd st) (sm_by_handle st)" using assms(1) by (simp_all add: sm_inv_def)
  obtain c where u: "sm_subs st' = (sm_subs st)(s := None)" "sm_root_subs st (sr_root r) = Some c"
      "filter (\<lambda>x. x \<noteq> s) c = [] \<longrightarrow> Dropped (Some (h, cover)) = RootEmptied (sr_root r)"
      "filter (\<lambda>x. x \<noteq> s) c \<noteq> [] \<longrightarrow> (\<exists>k. sm_by_handle st (sr_root r) = Some k \<and>
         Some (Dropped (Some (h, cover))) = map_option Dropped (detect_shrink rd k (sr_root r)
           (filter (\<lambda>x. x \<noteq> s) c) (st\<lparr>sm_subs := (sm_subs st)(s := None)\<rparr>)))"
    using unwatch_inv [OF assms(1) r] assms(2) by auto
  let ?c = "filter (\<lambda>x. x \<noteq> s) c" and ?st = "st\<lparr>sm_subs := (sm_subs st)(s := None)\<rparr>"
  obtain k where k: "sm_by_handle st (sr_root r) = Some k"
    and d: "detect_shrink rd k (sr_root r) ?c ?st = Some (Some (h, cover))"
  proof -
    have "?c \<noteq> []" using u(3) by auto
    with u(4) obtain k where k: "sm_by_handle st (sr_root r) = Some k"
      "map_option Dropped (detect_shrink rd k (sr_root r) ?c ?st) = Some (Dropped (Some (h, cover)))" by metis
    then show thesis using that [OF k(1)] by (auto simp: map_option_eq_Some)
  qed
  have mem: "x \<in> set ?c \<longleftrightarrow> (\<exists>q. sm_subs st' x = Some q \<and> sr_root q = sr_root r)" for x
    using cohorts_okD(4) [OF co u(2), of x] u(1) by auto
  let ?ks = "map (\<lambda>x. sr_key (the (sm_subs ?st x))) ?c"
  have keys: "keys_of (sm_subs ?st) ?c = Some ?ks"
    using mem u(1) by (intro keys_of_Some) auto
  have ks: "set ?ks = {sr_key q | x q. sm_subs st' x = Some q \<and> sr_root q = sr_root r}"
  proof (intro set_eqI iffI)
    fix y assume "y \<in> set ?ks"
    then obtain x where "x \<in> set ?c" "y = sr_key (the (sm_subs st' x))" using u(1) by auto
    then show "y \<in> {sr_key q | x q. sm_subs st' x = Some q \<and> sr_root q = sr_root r}"
      using mem [of x] by fastforce
  next
    fix y assume "y \<in> {sr_key q | x q. sm_subs st' x = Some q \<and> sr_root q = sr_root r}"
    then obtain x q where x: "sm_subs st' x = Some q" "sr_root q = sr_root r" "y = sr_key q" by blast
    then have "x \<in> set ?c" using mem by blast
    moreover have "sr_key (the (sm_subs ?st x)) = y" using x u(1) by simp
    ultimately show "y \<in> set ?ks" by (metis (no_types, lifting) image_eqI list.set_map)
  qed
  have ent: "entry rd (sr_root r) st = rx_get (rd_index rd) (sm_index st) k" by (simp add: entry_def k)
  have hc: "h = sr_root r \<and> cover = antichain ?ks \<and>
      (k \<notin> set ?ks \<or> entry rd (sr_root r) st \<noteq> None \<and> rr_retained_cover (the (entry rd (sr_root r) st)) \<noteq> None)"
    using d unfolding detect_shrink_def keys ent
    by (auto simp: Let_def list_ex_iff bind_eq_Some_conv split: option.splits if_splits bind_splits)
  then have "\<forall>x q. sm_subs st' x = Some q \<longrightarrow> sr_root q = h \<longrightarrow> sm_by_handle st h \<noteq> Some (sr_key q) \<or>
       entry rd h st \<noteq> None \<and> rr_retained_cover (the (entry rd h st)) \<noteq> None"
    using k ks by auto
  with r hc ks show ?thesis by blast
qed

end

text \<open>
  Property C28. Safety. When dropping a subscription reports that its root may shrink to a cover, that
  cover loses nobody: every subscription still riding the root has its key at or below a member of
  the cover, every member is the key of such a subscription, and the members are pairwise disjoint.
\<close>

theorem shrink_cover_is_safe:
  fixes st :: "('t, 'u, 'c::linorder, 'v, 'h) subsumer"
  assumes "subsumption rd" and "sm_inv rd st"
    and "plan_unwatch rd s st = Some (Some (Dropped (Some (h, cover))), st')"
  shows "(\<forall>x q. sm_subs st' x = Some q \<and> sr_root q = h \<longrightarrow> (\<exists>c. c \<in> set cover \<and> prefix c (sr_key q))) \<and>
    (\<forall>c. c \<in> set cover \<longrightarrow> (\<exists>x q. sm_subs st' x = Some q \<and> sr_root q = h \<and> sr_key q = c)) \<and>
    (\<forall>a b. a \<in> set cover \<and> b \<in> set cover \<and> prefix a b \<longrightarrow> a = b)"
proof -
  obtain ks where ks: "set ks = {sr_key q | x q. sm_subs st' x = Some q \<and> sr_root q = h}"
      "cover = antichain ks"
    using subsumption.dropped_cover [OF assms] by blast
  have "\<exists>c. c \<in> set cover \<and> prefix c (sr_key q)" if "sm_subs st' x = Some q" "sr_root q = h" for x q
  proof -
    have "sr_key q \<in> set ks" using that ks(1) by blast
    then show ?thesis using antichain_covers ks(2) by blast
  qed
  moreover have "\<exists>x q. sm_subs st' x = Some q \<and> sr_root q = h \<and> sr_key q = c" if "c \<in> set cover" for c
    using that ks by (auto simp: set_antichain)
  ultimately show ?thesis using antichain_free ks(2) by blast
qed

definition ex_covered :: "(nat, nat, nat) sm_op list" where
  "ex_covered = [SWatch [1] 30 delivery_all root_globs_new 9 [1], SWatch [1, 2] 10 delivery_all root_globs_new 0 []]"

lemma ex_covered_runs: "run_ops ex_covered ex_sm \<noteq> None"
  by (simp add: ex_covered_def sm_exec)

definition ex_sm3 :: "(nat, nat, nat) assoc_subsumer" where
  "ex_sm3 = the (run_ops ex_covered ex_sm)"

lemma ex_sm3_reach: "sm_reach assoc_radices 1 ex_sm3"
proof -
  obtain st where "run_ops ex_covered ex_sm = Some st" using ex_covered_runs by auto
  then show ?thesis
    using run_ops_reach [of ex_covered ex_sm st 1] sm_reach.start [of assoc_radices 1]
    by (simp add: ex_sm3_def ex_sm_def)
qed

lemma ex_shrink:
  "map_option fst (plan_unwatch assoc_radices (Subscription 1 1) ex_sm3) = Some (Some (Dropped (Some (9, [[1, 2]]))))"
  by (simp add: ex_sm3_def ex_covered_def sm_exec plan_unwatch_def cover_remove_def cover_take_def btm_remove_def
      detect_shrink_def antichain_def)

theorem shrink_cover_is_safe_witness:
  "\<exists>st'. plan_unwatch assoc_radices (Subscription 1 1) ex_sm3 = Some (Some (Dropped (Some (9, [[1, 2]]))), st') \<and>
     (\<exists>x q. sm_subs st' x = Some q \<and> sr_root q = 9 \<and> sr_key q = [1, 2])"
proof -
  obtain st' where u: "plan_unwatch assoc_radices (Subscription 1 1) ex_sm3 =
      Some (Some (Dropped (Some (9, [[1, 2]]))), st')" using ex_shrink by auto
  from shrink_cover_is_safe [OF engine.subsumption_axioms engine.reach_inv [OF ex_sm3_reach] this] u
  show ?thesis by (metis list.set_intros(1))
qed

section \<open>The read plane\<close>

context subsumption
begin

lemma live_at_key:
  assumes "sm_inv rd st"
  shows "rx_get (rd_covers rd) (sm_covers st) k \<noteq> None \<longleftrightarrow> (\<exists>x q. sm_subs st x = Some q \<and> sr_key q = k)"
proof -
  have at: "attribution_ok rd (sm_instance st) (sm_covers st) (sm_subs st)"
    and ids: "ids_ok (sm_instance st) (sm_next_sub st) (sm_subs st) (sm_pending st)"
    using assms by (simp_all add: sm_inv_def)
  have "(\<exists>i. cov rd (sm_covers st) k i \<noteq> None) \<longleftrightarrow> (\<exists>x q. sm_subs st x = Some q \<and> sr_key q = k)"
  proof
    assume "\<exists>x q. sm_subs st x = Some q \<and> sr_key q = k"
    then obtain x q where x: "sm_subs st x = Some q" "sr_key q = k" by blast
    moreover have "sub_instance x = sm_instance st" using ids x(1) by (auto simp: ids_ok_def)
    ultimately have "\<exists>q. sm_subs st (Subscription (sm_instance st) (sub_scope x)) = Some q \<and> sr_key q = k"
      using sub_eta [of x] by metis
    then show "\<exists>i. cov rd (sm_covers st) k i \<noteq> None" using at unfolding attribution_ok_def by blast
  qed (use at in \<open>auto simp: attribution_ok_def\<close>)
  with covers_present_iff [of "sm_covers st" k] at show ?thesis by (simp add: attribution_ok_def)
qed

lemma is_watched_iff:
  assumes "sm_inv rd st"
  shows "is_watched rd (sm_shared st) key \<longleftrightarrow> (\<exists>x q. sm_subs st x = Some q \<and> prefix (sr_key q) key)"
proof -
  have "pb_covers (sm_shared st) = sm_covers st" using assms by (simp add: sm_inv_def)
  then have "is_watched rd (sm_shared st) key \<longleftrightarrow>
      (\<exists>p. prefix p key \<and> rx_get (rd_covers rd) (sm_covers st) p \<noteq> None)"
    using covers.ancestor_None_iff [of "sm_covers st" key] by (simp add: is_watched_def)
  then show ?thesis unfolding live_at_key [OF assms] by blast
qed

lemma value_at:
  assumes "sm_inv rd st" and "rx_get (rd_covers rd) (sm_covers st) p = Some e" and "rx_get (rd_cohort rd) e [i] = Some v"
  shows "\<exists>q. sm_subs st (Subscription (sm_instance st) i) = Some q \<and> sr_key q = p \<and>
    subscription_value rd (Subscription (sm_instance st) i) st = Some v"
proof -
  have "cov rd (sm_covers st) p i \<noteq> None" using assms(2,3) by (simp add: cov_def)
  then obtain q where "sm_subs st (Subscription (sm_instance st) i) = Some q" "sr_key q = p"
    using assms(1) by (auto simp: sm_inv_def attribution_ok_def)
  then show ?thesis using assms(2,3) by (simp add: subscription_value_def cover_value_of_def)
qed

lemma covering_owner:
  assumes "sm_inv rd st" and "is_watched rd (sm_shared st) key"
  shows "\<exists>v x q. covering rd (sm_shared st) key = Some (Some v) \<and> sm_subs st x = Some q \<and> prefix (sr_key q) key \<and>
    subscription_value rd x st = Some v \<and>
    (\<forall>y p. sm_subs st y = Some p \<and> prefix (sr_key p) key \<longrightarrow>
       prefix (sr_key p) (sr_key q) \<and> (sr_key p = sr_key q \<longrightarrow> sub_scope y \<le> sub_scope x))"
proof -
  have at: "attribution_ok rd (sm_instance st) (sm_covers st) (sm_subs st)"
    and ids: "ids_ok (sm_instance st) (sm_next_sub st) (sm_subs st) (sm_pending st)"
    and sh: "pb_covers (sm_shared st) = sm_covers st"
    using assms by (simp_all add: sm_inv_def)
  obtain e where e: "rx_get_ancestor (rd_covers rd) (sm_covers st) key = Some e"
    using assms(2) sh by (auto simp: is_watched_def)
  obtain p where p: "prefix p key" "rx_get (rd_covers rd) (sm_covers st) p = Some e"
      "\<And>q. prefix q key \<Longrightarrow> rx_get (rd_covers rd) (sm_covers st) q \<noteq> None \<Longrightarrow> prefix q p"
    using covers.ancestor_Some [OF e] by blast
  have ne: "rx_get (rd_cohort rd) e \<noteq> Map.empty"
    and one: "\<And>x. rx_get (rd_cohort rd) e x \<noteq> None \<Longrightarrow> length x = 1"
    using at p(2) unfolding attribution_ok_def cov_ok_def by blast+
  obtain v vs where vs: "rx_values_rev (rd_cohort rd) e = v # vs"
    using ne cohort.values_rev_Nil_iff by (metis list.exhaust)
  obtain k where k: "rx_get (rd_cohort rd) e k = Some v" "\<And>k'. rx_get (rd_cohort rd) e k' \<noteq> None \<Longrightarrow> k' \<le> k"
    using cohort.values_rev_first [OF vs] by blast
  obtain i where i: "k = [i]" using one [of k] k(1) by (cases k) auto
  let ?x = "Subscription (sm_instance st) i"
  obtain q where q: "sm_subs st ?x = Some q" "sr_key q = p" "subscription_value rd ?x st = Some v"
    using value_at [OF assms(1) p(2), of i v] k(1) i by blast
  have "prefix (sr_key p') (sr_key q) \<and> (sr_key p' = sr_key q \<longrightarrow> sub_scope y \<le> i)"
    if y: "sm_subs st y = Some p'" "prefix (sr_key p') key" for y p'
  proof
    show "prefix (sr_key p') (sr_key q)" using p(3) [OF y(2)] live_at_key [OF assms(1)] y(1) q(2) by blast
    show "sr_key p' = sr_key q \<longrightarrow> sub_scope y \<le> i"
    proof
      assume "sr_key p' = sr_key q"
      moreover have "sub_instance y = sm_instance st" using ids y(1) by (auto simp: ids_ok_def)
      ultimately have "cov rd (sm_covers st) p (sub_scope y) \<noteq> None"
        using at y(1) q(2) sub_eta [of y] unfolding attribution_ok_def by metis
      then have "rx_get (rd_cohort rd) e [sub_scope y] \<noteq> None" using p(2) by (simp add: cov_def)
      then have "[sub_scope y] \<le> [i]" using k(2) i by blast
      then show "sub_scope y \<le> i" by (auto simp: list_le_def list_less_def)
    qed
  qed
  moreover have "covering rd (sm_shared st) key = Some (Some v)"
    using e sh vs by (simp add: covering_def cover_value_def)
  ultimately show ?thesis using q p(1) by (intro exI [of _ v] exI [of _ ?x] exI [of _ q]) auto
qed

end

text \<open>
  Property C20. Functional. The read plane is truthful in every reachable state: a key is reported
  watched exactly when some live subscription's own key is at or above it, whatever roots are armed;
  and the value attributed to a watched key is that of a live subscription whose key is the longest
  one covering it and whose id is the highest among those sharing that key. The lookup never panics.
\<close>

theorem view_is_truthful:
  fixes st :: "('t, 'u, 'c::linorder, 'v, 'h) subsumer"
  assumes "subsumption rd" and "sm_reach rd inst st"
  shows "(is_watched rd (sm_shared st) key \<longleftrightarrow> (\<exists>x q. sm_subs st x = Some q \<and> prefix (sr_key q) key)) \<and>
    (if is_watched rd (sm_shared st) key
     then \<exists>v x q. covering rd (sm_shared st) key = Some (Some v) \<and> sm_subs st x = Some q \<and>
       prefix (sr_key q) key \<and> subscription_value rd x st = Some v \<and>
       (\<forall>y p. sm_subs st y = Some p \<and> prefix (sr_key p) key \<longrightarrow>
          prefix (sr_key p) (sr_key q) \<and> (sr_key p = sr_key q \<longrightarrow> sub_scope y \<le> sub_scope x))
     else covering rd (sm_shared st) key = Some None)"
proof -
  have inv: "sm_inv rd st" using subsumption.reach_inv [OF assms] .
  have "covering rd (sm_shared st) key = Some None" if "\<not> is_watched rd (sm_shared st) key"
    using that by (simp add: is_watched_def covering_def)
  with subsumption.is_watched_iff [OF assms(1) inv, of key] subsumption.covering_owner [OF assms(1) inv, of key]
  show ?thesis by (cases "is_watched rd (sm_shared st) key") simp_all
qed

theorem view_is_truthful_witness:
  "is_watched assoc_radices (sm_shared ex_sm3) [1, 2, 5] \<and>
   (\<exists>x q. sm_subs ex_sm3 x = Some q \<and> prefix (sr_key q) [1, 2, 5])"
proof -
  have "is_watched assoc_radices (sm_shared ex_sm3) [1, 2, 5]"
    by (simp add: ex_sm3_def ex_covered_def sm_exec is_watched_def)
  with view_is_truthful [OF engine.subsumption_axioms ex_sm3_reach, of "[1, 2, 5]"] show ?thesis by blast
qed

section \<open>Attribution\<close>

definition same_side ::
  "(subscription \<rightharpoonup> ('c, 'h) sub_record) \<Rightarrow> (subscription \<rightharpoonup> ('c, 'h) sub_record) \<Rightarrow> subscription \<Rightarrow> bool" where
  "same_side m m' s \<longleftrightarrow> map_option (\<lambda>r. (sr_key r, sr_interest r)) (m' s) = map_option (\<lambda>r. (sr_key r, sr_interest r)) (m s)"

lemma same_side_repoint: "repoint_subs h ss m = Some m' \<Longrightarrow> same_side m m' s"
proof (induction ss arbitrary: m)
  case (Cons x ss)
  then obtain r where r: "m x = Some r" "repoint_subs h ss (m(x \<mapsto> r\<lparr>sr_root := h\<rparr>)) = Some m'"
    by (auto split: option.splits)
  from Cons.IH [OF r(2)] r(1) show ?case by (auto simp: same_side_def)
qed (simp add: same_side_def)

context subsumption
begin

lemma commit_frame:
  assumes "commit_watch rd out h key g st = Some st'"
  shows "\<exists>k v. sm_covers st' = covers_after_add (wo_sub out) k v (sm_covers st)"
    and "x \<noteq> wo_sub out \<Longrightarrow> same_side (sm_subs st) (sm_subs st') x"
  using assms
  by (cases out; auto simp: take_pending_def install_sub_fields same_side_repoint
        dest!: same_side_repoint [where s = x] split: option.splits;
      auto simp: same_side_def)+

lemma subscription_value_cov:
  "sm_subs st s = Some q \<Longrightarrow> subscription_value rd s st = cov rd (sm_covers st) (sr_key q) (sub_scope s)"
  by (simp add: subscription_value_def cov_def cover_value_of_def)

definition keeps :: "('t, 'u, 'c, 'v, 'h) subsumer \<Rightarrow> ('t, 'u, 'c, 'v, 'h) subsumer \<Rightarrow> subscription \<Rightarrow> bool" where
  "keeps st st' s \<longleftrightarrow> (\<forall>q q'. sm_subs st s = Some q \<longrightarrow> sm_subs st' s = Some q' \<longrightarrow>
     sr_key q' = sr_key q \<and> sr_interest q' = sr_interest q \<and>
     subscription_value rd s st' = subscription_value rd s st)"

lemma keepsI:
  assumes "\<And>q. sm_subs st s = Some q \<Longrightarrow> sm_subs st' s \<noteq> None \<Longrightarrow> same_side (sm_subs st) (sm_subs st') s"
    and "\<And>q. sm_subs st s = Some q \<Longrightarrow> sm_subs st' s \<noteq> None \<Longrightarrow>
      cov rd (sm_covers st') (sr_key q) (sub_scope s) = cov rd (sm_covers st) (sr_key q) (sub_scope s)"
  shows "keeps st st' s"
  using assms by (auto simp: keeps_def same_side_def subscription_value_cov)

lemma keeps_watch:
  assumes "sm_inv rd st" and "sm_step rd (SWatch key v i globs h fs_key) st = Some st'" and "sm_subs st s \<noteq> None"
  shows "keeps st st' s"
proof -
  obtain res st1 where p: "plan_watch rd key v i globs st = Some (res, st1)"
    using assms(2) by (auto split: option.splits)
  show ?thesis
  proof (cases res)
    case (Inl e)
    then have "st' = st1" using assms(2) p by simp
    moreover have "st1 = st" using assms(1) p Inl by (cases rule: plan_cases) auto
    ultimately show ?thesis by (simp add: keeps_def)
  next
    case (Inr out)
    have rv: "reserve key v i st = Some (wo_sub out, st1)"
      using assms(1) p Inr by (cases rule: plan_cases) auto
    note r = sm_inv_reserve [OF assms(1) rv]
    have ne: "s \<noteq> wo_sub out" using assms(3) r(2,3) by auto
    have inst: "sub_instance s = sm_instance st" using assms(1,3) by (auto simp: sm_inv_def ids_ok_def)
    have sc: "sub_scope s \<noteq> sub_scope (wo_sub out)" using ne inst r(10) by (metis sub_eta)
    have com: "keeps st st' s" if c: "commit_watch rd out h' k' globs st1 = Some st'" for h' k'
    proof (rule keepsI)
      show "same_side (sm_subs st) (sm_subs st') s"
        using commit_frame(2) [OF c ne] r(3) by simp
      obtain k v where "sm_covers st' = covers_after_add (wo_sub out) k v (sm_covers st1)"
        using commit_frame(1) [OF c] by blast
      then show "cov rd (sm_covers st') (sr_key q) (sub_scope s) = cov rd (sm_covers st) (sr_key q) (sub_scope s)" for q
        using sc r(7) by (simp add: cov_add)
    qed
    have "keeps st (abort_watch out st1) s"
      by (rule keepsI) (simp_all add: abort_watch_def r(3,7) same_side_def)
    then show ?thesis using assms(2) p Inr com by (cases out) (auto split: if_splits)
  qed
qed

lemma keeps_step:
  assumes "sm_inv rd st" and "handle_ok rd x st" and "sm_step rd x st = Some st'" and "sm_subs st s \<noteq> None"
  shows "keeps st st' s"
proof (cases x)
  case (SWatch key v i globs h fs_key)
  then show ?thesis using keeps_watch assms by blast
next
  case (SWatchFailed key v i globs)
  obtain res st1 where p: "plan_watch rd key v i globs st = Some (res, st1)"
    using assms(3) SWatchFailed by (auto split: option.splits)
  have "sm_subs st1 = sm_subs st \<and> sm_covers st1 = sm_covers st"
    using assms(1) p by (cases rule: plan_cases) (auto dest: sm_inv_reserve(3,7) [OF assms(1)])
  then show ?thesis
    using assms(3) SWatchFailed p by (intro keepsI) (auto simp: abort_watch_def same_side_def split: sum.splits)
next
  case (SUnwatch s')
  show ?thesis
  proof (cases "sm_subs st s'")
    case None
    then show ?thesis using assms(3) SUnwatch by (simp add: plan_unwatch_def keeps_def)
  next
    case (Some r)
    obtain o1 st2 where u2: "plan_unwatch rd s' st = Some (Some o1, st2)" "sm_subs st2 = (sm_subs st)(s' := None)"
      using unwatch_inv [OF assms(1) Some] by blast
    then have u: "plan_unwatch rd s' st = Some (Some o1, st')" "sm_subs st' = (sm_subs st)(s' := None)"
      using assms(3) SUnwatch by simp_all
    have cv: "sm_covers st' = covers_after_remove [s'] (sr_key r) (sm_covers st)"
      using u(1) Some
      by (auto simp: plan_unwatch_def Let_def cover_remove_eq split: option.splits if_splits)
    have "sub_instance y = sm_instance st" if "sm_subs st y \<noteq> None" for y
      using assms(1) that by (auto simp: sm_inv_def ids_ok_def)
    then have "sub_scope s \<noteq> sub_scope s'" if "s \<noteq> s'" using that assms(4) Some by (metis option.distinct(1) sub_eta)
    then show ?thesis using u(2) by (intro keepsI) (auto simp: same_side_def cv cov_remove split: if_splits)
  qed
next
  case (SRetire h)
  show ?thesis
  proof (cases "sm_by_handle st h")
    case None
    then show ?thesis using assms(3) SRetire by (simp add: force_remove_root_def keeps_def)
  next
    case (Some k)
    have co: "cohorts_ok (sm_by_handle st) (sm_root_subs st) (sm_subs st)" using assms(1) by (simp add: sm_inv_def)
    obtain c where c: "sm_root_subs st h = Some c" using cohorts_okD(1) [OF co] Some by blast
    note mem = cohorts_okD(4) [OF co c]
    let ?ds = "map (\<lambda>s. (s, sr_key (the (sm_subs st s)))) c"
    have dep: "departing_subs c (sm_subs st) = (?ds, \<lambda>x. if x \<in> set c then None else sm_subs st x)"
      using mem cohorts_okD(3) [OF co c] by (intro departing_subs_closed) auto
    have st': "sm_subs st' = (\<lambda>x. if x \<in> set c then None else sm_subs st x)"
        "sm_covers st' = foldl (\<lambda>t k. cover_remove_group rd ?ds k t) (sm_covers st) (dedup_sorted (sort (map snd ?ds)))"
      using assms(3) SRetire Some c dep by (auto simp: force_remove_root_def Let_def split: option.splits)
    have inst: "sub_instance y = sm_instance st" if "sm_subs st y \<noteq> None" for y
      using assms(1) that by (auto simp: sm_inv_def ids_ok_def)
    have "sub_scope y \<noteq> sub_scope s" if "y \<in> set c" "s \<notin> set c" for y
      using inst [of y] inst [OF assms(4)] mem [of y] that by (metis option.distinct(1) sub_eta)
    then have "cov rd (sm_covers st') kk (sub_scope s) = cov rd (sm_covers st) kk (sub_scope s)" if "s \<notin> set c" for kk
      using that unfolding st'(2) cov_remove_groups by auto
    then show ?thesis using st'(1) by (intro keepsI) (auto simp: same_side_def split: if_splits)
  qed
next
  case (SRebind old new)
  have "same_side (sm_subs st) (sm_subs (rebind_root rd old new st)) s"
    by (cases "sm_subs st s") (auto simp: rebind_root_def same_side_def move_subs_def Let_def split: option.split)
  moreover have "sm_covers (rebind_root rd old new st) = sm_covers st"
    by (simp add: rebind_root_def Let_def split: option.split)
  ultimately show ?thesis using SRebind assms(3) by (intro keepsI) auto
next
  case (SSetCover h c)
  then show ?thesis using assms(3)
    by (intro keepsI) (auto simp: set_retained_cover_def same_side_def split: option.splits)
next
  case (SDegrade h)
  then show ?thesis using assms(3)
    by (intro keepsI) (auto simp: degrade_retained_cover_def same_side_def split: option.splits if_splits)
qed

end

text \<open>
  Invariant. A live subscription's key, interest and caller value never change: through
  any operation of the engine that leaves it live (others watching, widening over it, leaving, dying,
  its own root being rebound or shrunk), events stay attributed to the same value.
\<close>

theorem attribution_is_stable:
  fixes st :: "('t, 'u, 'c::linorder, 'v, 'h) subsumer"
  assumes "subsumption rd" and "sm_reach rd inst st" and "handle_ok rd x st" and "sm_step rd x st = Some st'"
    and "sm_subs st s = Some q" and "sm_subs st' s = Some q'"
  shows "sr_key q' = sr_key q \<and> sr_interest q' = sr_interest q \<and>
    subscription_value rd s st' = subscription_value rd s st \<and> subscription_value rd s st \<noteq> None"
proof -
  have inv: "sm_inv rd st" using subsumption.reach_inv [OF assms(1,2)] .
  have "subscription_value rd s st = cov rd (sm_covers st) (sr_key q) (sub_scope s)"
    using subsumption.subscription_value_cov [OF assms(1,5)] .
  moreover have "sub_instance s = sm_instance st" using inv assms(5) by (auto simp: sm_inv_def ids_ok_def)
  then have "cov rd (sm_covers st) (sr_key q) (sub_scope s) \<noteq> None"
    using inv assms(5) sub_eta [of s] unfolding sm_inv_def attribution_ok_def by metis
  ultimately show ?thesis
    using subsumption.keeps_step [OF assms(1) inv assms(3,4)] assms(5,6)
    unfolding subsumption.keeps_def [OF assms(1)] by auto
qed

theorem attribution_is_stable_witness:
  "\<exists>st'. sm_step assoc_radices (SUnwatch (Subscription 1 1)) ex_sm3 = Some st' \<and>
     subscription_value assoc_radices (Subscription 1 2) st' = subscription_value assoc_radices (Subscription 1 2) ex_sm3"
proof -
  obtain o1 st' where u: "plan_unwatch assoc_radices (Subscription 1 1) ex_sm3 = Some (o1, st')"
    using ex_shrink by auto
  have l: "sm_subs ex_sm3 (Subscription 1 1) \<noteq> None" "sm_subs ex_sm3 (Subscription 1 2) \<noteq> None"
    by (simp_all add: ex_sm3_def ex_covered_def sm_exec)
  then obtain r q where q: "sm_subs ex_sm3 (Subscription 1 1) = Some r" "sm_subs ex_sm3 (Subscription 1 2) = Some q" by auto
  have "sm_subs st' = (sm_subs ex_sm3)(Subscription 1 1 := None)"
    using engine.unwatch_inv [OF engine.reach_inv [OF ex_sm3_reach] q(1)] u by auto
  then have "sm_subs st' (Subscription 1 2) = Some q" using q(2) by simp
  moreover have "sm_step assoc_radices (SUnwatch (Subscription 1 1)) ex_sm3 = Some st'" using u by simp
  moreover have "handle_ok assoc_radices (SUnwatch (Subscription 1 1)) ex_sm3" by simp
  ultimately show ?thesis
    using attribution_is_stable [OF engine.subsumption_axioms ex_sm3_reach, of "SUnwatch (Subscription 1 1)" st' "Subscription 1 2" q q] q(2)
    by blast
qed

end
