(* ===== verification/Route.thy ===== *)
theory Route
  imports Umbrella_Event
begin

text \<open>
  Attribution and fan-out (\<open>route/mod.rs\<close>): one raw event is routed to every subscriber of its armed
  root whose key covers it. The trait \<open>RoutableEvent\<close> is the record \<open>routable\<close> of its methods, the
  functions \<open>fan_out\<close>, \<open>project\<close> and \<open>project_rescan\<close> take it as an argument, and the production
  adapter \<open>SourceRoutable\<close> of \<open>driver/mod.rs\<close> is \<open>source_routable_ops\<close>.

  A method that panics returns \<open>None\<close>; \<open>fan_out\<close> propagates it. The locale \<open>routable_event\<close> states
  what a trait implementation promises, its lemmas are what every client of \<open>fan_out\<close> gets, and the
  interpretation \<open>prod\<close> discharges the promise for the production adapter.
\<close>

section \<open>Reserved endpoints\<close>

datatype reserved_endpoints = NoEndpoint | SourceEndpoint | DestinationEndpoint | AllEndpoints

fun masks_source :: "reserved_endpoints \<Rightarrow> bool" where
  "masks_source SourceEndpoint = True"
| "masks_source AllEndpoints = True"
| "masks_source _ = False"

fun masks_destination :: "reserved_endpoints \<Rightarrow> bool" where
  "masks_destination DestinationEndpoint = True"
| "masks_destination AllEndpoints = True"
| "masks_destination _ = False"

definition reserved_any :: "reserved_endpoints \<Rightarrow> bool" where
  "reserved_any r \<longleftrightarrow> r \<noteq> NoEndpoint"

definition reserved_is_total :: "reserved_endpoints \<Rightarrow> bool" where
  "reserved_is_total r \<longleftrightarrow> r = AllEndpoints"

section \<open>The routing decision\<close>

record ('e, 'c, 'd) routable =
  rt_key :: "'e \<Rightarrow> 'c list"
  rt_move_from :: "'e \<Rightarrow> 'c list option"
  rt_is_rescan :: "'e \<Rightarrow> bool"
  rt_reserved :: "'e \<Rightarrow> reserved_endpoints"
  rt_deliver :: "'e \<Rightarrow> subscription \<Rightarrow> 'd"
  rt_deliver_move_out :: "'e \<Rightarrow> subscription \<Rightarrow> 'd option"
  rt_deliver_move_in :: "'e \<Rightarrow> subscription \<Rightarrow> 'd"
  rt_deliver_rescan_clamped :: "'e \<Rightarrow> subscription \<Rightarrow> 'c list \<Rightarrow> 'd"
  rt_captured_root_depth :: "'e \<Rightarrow> nat"
  rt_rebase :: "'d \<Rightarrow> nat \<Rightarrow> 'd"
  rt_anchor_at_root :: "'d \<Rightarrow> 'd"

text \<open>The outer \<open>None\<close> is a panic, the inner one is "nothing of this subscriber is affected".\<close>

definition project ::
  "('e, 'c, 'd) routable \<Rightarrow> 'e \<Rightarrow> subscription \<Rightarrow> 'c list \<Rightarrow> 'c list \<Rightarrow> 'c list option
     \<Rightarrow> reserved_endpoints \<Rightarrow> 'd option option" where
  "project rt ev sub canonical to move_from reserved =
     (let covers_to = starts_with to canonical \<and> \<not> masks_destination reserved in
      case move_from of
        None \<Rightarrow> Some (if covers_to then Some (rt_deliver rt ev sub) else None)
      | Some from \<Rightarrow>
          (let covers_from = starts_with from canonical \<and> \<not> masks_source reserved in
           case (covers_from, covers_to) of
             (True, True) \<Rightarrow> Some (Some (rt_deliver rt ev sub))
           | (True, False) \<Rightarrow> map_option Some (rt_deliver_move_out rt ev sub)
           | (False, True) \<Rightarrow> Some (Some (rt_deliver_move_in rt ev sub))
           | (False, False) \<Rightarrow> Some None))"

definition project_rescan ::
  "('e, 'c, 'd) routable \<Rightarrow> 'e \<Rightarrow> subscription \<Rightarrow> 'c list \<Rightarrow> 'c list \<Rightarrow> 'd option" where
  "project_rescan rt ev sub canonical at =
     (if starts_with at canonical then Some (rt_deliver rt ev sub)
      else if starts_with canonical at then Some (rt_deliver_rescan_clamped rt ev sub canonical)
      else None)"

text \<open>One iteration of the loop over the subscribers.\<close>

definition fan_out_one ::
  "('e, 'c, 'd) routable \<Rightarrow> 'e \<Rightarrow> (subscription \<Rightarrow> 'c list option)
     \<Rightarrow> (subscription \<Rightarrow> 'd \<Rightarrow> bool) \<Rightarrow> subscription \<Rightarrow> 'd option option" where
  "fan_out_one rt ev canonical_of admits sub =
     (case canonical_of sub of
        None \<Rightarrow> Some None
      | Some canonical \<Rightarrow>
          (case (if rt_is_rescan rt ev
                 then Some (project_rescan rt ev sub canonical (rt_key rt ev))
                 else project rt ev sub canonical (rt_key rt ev) (rt_move_from rt ev)
                        (rt_reserved rt ev)) of
             None \<Rightarrow> None
           | Some None \<Rightarrow> Some None
           | Some (Some projected) \<Rightarrow>
               (let d = (if rt_captured_root_depth rt ev \<le> length canonical
                         then rt_rebase rt projected
                                (length canonical - rt_captured_root_depth rt ev)
                         else rt_anchor_at_root rt projected)
                in Some (if rt_is_rescan rt ev \<or> admits sub d then Some d else None))))"

fun fan_out ::
  "('e, 'c, 'd) routable \<Rightarrow> 'e \<Rightarrow> subscription list \<Rightarrow> (subscription \<Rightarrow> 'c list option)
     \<Rightarrow> (subscription \<Rightarrow> 'd \<Rightarrow> bool) \<Rightarrow> 'd list option" where
  "fan_out rt ev [] canonical_of admits = Some []"
| "fan_out rt ev (sub # subs) canonical_of admits =
     (case fan_out_one rt ev canonical_of admits sub of
        None \<Rightarrow> None
      | Some r \<Rightarrow>
          map_option (\<lambda>ds. (case r of None \<Rightarrow> ds | Some d \<Rightarrow> d # ds))
            (fan_out rt ev subs canonical_of admits))"

section \<open>The production adapter\<close>

record ('c, 'h) source_routable =
  sr_event :: "('c, 'h) source_event"
  sr_reserved :: reserved_endpoints

definition source_routable_ops ::
  "(('c, 'h) source_routable, 'c, ('c, 'v) event) routable" where
  "source_routable_ops =
     \<lparr>rt_key = (\<lambda>e. se_key (sr_event e)),
      rt_move_from = (\<lambda>e. kind_moved_from (se_kind (sr_event e))),
      rt_is_rescan = (\<lambda>e. kind_is_rescan (se_kind (sr_event e))),
      rt_reserved = sr_reserved,
      rt_deliver = (\<lambda>e sub. from_source sub (sr_event e)),
      rt_deliver_move_out = (\<lambda>e sub. source_move_out sub (sr_event e)),
      rt_deliver_move_in = (\<lambda>e sub. source_move_in sub (sr_event e)),
      rt_deliver_rescan_clamped = (\<lambda>e sub k. source_rescan_clamped sub (sr_event e) k),
      rt_captured_root_depth =
        (\<lambda>e. length (se_key (sr_event e)) - length (se_location (sr_event e))),
      rt_rebase = (\<lambda>d strip. rebase_location strip d),
      rt_anchor_at_root = anchor_location_at_root\<rparr>"

section \<open>The contract of the trait\<close>

locale routable_event =
  fixes rt :: "('e, 'c, 'd) routable"
    and sub_of :: "'d \<Rightarrow> subscription"
    and key_of :: "'d \<Rightarrow> 'c list"
    and from_of :: "'d \<Rightarrow> 'c list option"
  assumes move_out_total:
      "rt_move_from rt ev \<noteq> None \<Longrightarrow> rt_deliver_move_out rt ev s \<noteq> None"
    and rescan_no_move: "rt_is_rescan rt ev \<Longrightarrow> rt_move_from rt ev = None"
    and sub_deliver [simp]: "sub_of (rt_deliver rt ev s) = s"
    and sub_move_out: "rt_deliver_move_out rt ev s = Some d \<Longrightarrow> sub_of d = s"
    and sub_move_in [simp]: "sub_of (rt_deliver_move_in rt ev s) = s"
    and sub_clamped [simp]: "sub_of (rt_deliver_rescan_clamped rt ev s k) = s"
    and sub_rebase [simp]: "sub_of (rt_rebase rt d n) = sub_of d"
    and sub_anchor [simp]: "sub_of (rt_anchor_at_root rt d) = sub_of d"
    and key_deliver [simp]: "key_of (rt_deliver rt ev s) = rt_key rt ev"
    and from_deliver [simp]: "from_of (rt_deliver rt ev s) = rt_move_from rt ev"
    and key_move_out:
      "rt_deliver_move_out rt ev s = Some d \<Longrightarrow> rt_move_from rt ev = Some (key_of d)"
    and from_move_out: "rt_deliver_move_out rt ev s = Some d \<Longrightarrow> from_of d = None"
    and key_move_in [simp]: "key_of (rt_deliver_move_in rt ev s) = rt_key rt ev"
    and from_move_in [simp]: "from_of (rt_deliver_move_in rt ev s) = None"
    and key_clamped [simp]: "key_of (rt_deliver_rescan_clamped rt ev s k) = k"
    and from_clamped [simp]: "from_of (rt_deliver_rescan_clamped rt ev s k) = None"
    and key_rebase [simp]: "key_of (rt_rebase rt d n) = key_of d"
    and from_rebase [simp]: "from_of (rt_rebase rt d n) = from_of d"
    and key_anchor [simp]: "key_of (rt_anchor_at_root rt d) = key_of d"
    and from_anchor [simp]: "from_of (rt_anchor_at_root rt d) = from_of d"
begin

lemma project_total: "project rt ev s c (rt_key rt ev) (rt_move_from rt ev) r \<noteq> None"
  using move_out_total [of ev s]
  by (auto simp: project_def Let_def split: option.splits bool.splits)

lemma fan_out_one_total: "\<exists>r. fan_out_one rt ev canon adm s = Some r"
  by (auto simp: fan_out_one_def Let_def project_total split: option.splits)

lemma fan_out_total: "\<exists>ds. fan_out rt ev subs canon adm = Some ds"
proof (induction subs)
  case Nil
  then show ?case by simp
next
  case (Cons s subs)
  with fan_out_one_total [of ev canon adm s] show ?case by auto
qed

lemma fan_out_one_sub: "fan_out_one rt ev canon adm s = Some (Some d) \<Longrightarrow> sub_of d = s"
  by (auto simp: fan_out_one_def project_def project_rescan_def Let_def dest: sub_move_out
      split: option.splits if_splits bool.splits)

lemma fan_out_mem_iff:
  "fan_out rt ev subs canon adm = Some ds \<Longrightarrow>
     d \<in> set ds \<longleftrightarrow> (\<exists>s \<in> set subs. fan_out_one rt ev canon adm s = Some (Some d))"
  by (induction subs arbitrary: ds) (auto split: option.splits)

lemma fan_out_subs:
  "fan_out rt ev subs canon adm = Some ds \<Longrightarrow>
     map sub_of ds =
       filter (\<lambda>s. \<exists>d. fan_out_one rt ev canon adm s = Some (Some d)) subs"
proof (induction subs arbitrary: ds)
  case Nil
  then show ?case by simp
next
  case (Cons s subs)
  from Cons.prems obtain r es where
    r: "fan_out_one rt ev canon adm s = Some r" and
    es: "fan_out rt ev subs canon adm = Some es" and
    ds: "ds = (case r of None \<Rightarrow> es | Some d \<Rightarrow> d # es)"
    by (auto split: option.splits)
  show ?case using Cons.IH [OF es] r ds
    by (cases r) (auto dest: fan_out_one_sub)
qed

lemma fan_out_one_inside:
  "fan_out_one rt ev canon adm s = Some (Some d) \<Longrightarrow>
     \<exists>c. canon s = Some c \<and> prefix c (key_of d) \<and> (\<forall>f. from_of d = Some f \<longrightarrow> prefix c f)"
  by (auto simp: fan_out_one_def project_def project_rescan_def Let_def rescan_no_move
      dest: key_move_out from_move_out split: option.splits if_splits bool.splits)

lemma fan_out_one_rescan:
  "rt_is_rescan rt ev \<Longrightarrow> canon s = Some c \<Longrightarrow>
     (\<exists>d. fan_out_one rt ev canon adm s = Some (Some d)) \<longleftrightarrow>
       prefix c (rt_key rt ev) \<or> prefix (rt_key rt ev) c"
  by (auto simp: fan_out_one_def project_rescan_def)

lemma fan_out_one_unreserved:
  "fan_out_one rt ev canon adm s = Some (Some d) \<Longrightarrow> \<not> rt_is_rescan rt ev \<Longrightarrow>
     (masks_destination (rt_reserved rt ev) \<longrightarrow>
        rt_move_from rt ev = Some (key_of d) \<and> \<not> masks_source (rt_reserved rt ev)) \<and>
     (masks_source (rt_reserved rt ev) \<longrightarrow> rt_move_from rt ev = None \<or> from_of d = None)"
  by (auto simp: fan_out_one_def project_def Let_def dest: key_move_out from_move_out
      split: option.splits if_splits bool.splits)

end

interpretation prod: routable_event
  "source_routable_ops :: (('c, 'h) source_routable, 'c, ('c, 'v) event) routable"
  ev_subscription ev_key event_move_from
  by unfold_locales
    (auto simp: source_routable_ops_def from_source_def source_move_out_def source_move_in_def
      source_rescan_clamped_def rebase_location_def anchor_location_at_root_def
      event_move_from_def kind_moved_from_def split: option.splits event_kind.splits if_splits)

lemmas source_routable_simps =
  source_routable_ops_def from_source_def source_move_out_def source_move_in_def
  source_rescan_clamped_def rebase_location_eq anchor_location_at_root_def event_move_from_def

section \<open>What the production router delivers\<close>

text \<open>
  Property C26. A delivery never leaves its subscriber's subtree: routing one source event over any
  subscriber list always returns (no panic of the move-out projection is reachable), and every event
  handed to a subscriber is keyed at or below that subscriber's own key, both endpoints of a whole
  \<open>Moved\<close> included, and goes to a subscriber of the list whose key resolves.
\<close>

theorem fan_out_stays_inside:
  "\<exists>ds. fan_out source_routable_ops e subs canonical_of admits = Some ds \<and>
     (\<forall>d \<in> set ds. \<exists>c. canonical_of (ev_subscription d) = Some c \<and>
        ev_subscription d \<in> set subs \<and> prefix c (ev_key d) \<and>
        (\<forall>f. ev_kind d = EMoved f \<longrightarrow> prefix c f))"
proof -
  obtain ds where ds: "fan_out source_routable_ops e subs canonical_of admits = Some ds"
    using prod.fan_out_total by blast
  have "\<exists>c. canonical_of (ev_subscription d) = Some c \<and> ev_subscription d \<in> set subs \<and>
      prefix c (ev_key d) \<and> (\<forall>f. ev_kind d = EMoved f \<longrightarrow> prefix c f)" if d: "d \<in> set ds" for d
  proof -
    from d prod.fan_out_mem_iff [OF ds] obtain s where s: "s \<in> set subs"
      and one: "fan_out_one source_routable_ops e canonical_of admits s = Some (Some d)"
      by blast
    from prod.fan_out_one_sub [OF one] prod.fan_out_one_inside [OF one] s show ?thesis
      by (auto simp: event_move_from_def)
  qed
  with ds show ?thesis by blast
qed

text \<open>
  A rescan is routed by geometry alone and never by content: the subscribers that
  receive a source \<open>Rescan\<close> are exactly those, in order and once each, whose key is comparable with the
  rescan's key, whatever the filters and interests in \<open>admits\<close> say.
\<close>

theorem fan_out_rescan_unfiltered:
  assumes "se_kind (sr_event e) = ERescan"
  shows "map_option (map ev_subscription)
       (fan_out source_routable_ops e subs canonical_of admits) =
     Some (filter (\<lambda>s. \<exists>c. canonical_of s = Some c \<and>
        (prefix c (se_key (sr_event e)) \<or> prefix (se_key (sr_event e)) c)) subs)"
proof -
  let ?rt = "source_routable_ops :: (('a, 'b) source_routable, 'a, ('a, 'c) event) routable"
  obtain ds where ds: "fan_out ?rt e subs canonical_of admits = Some ds"
    using prod.fan_out_total by blast
  have "(\<exists>d. fan_out_one ?rt e canonical_of admits s = Some (Some d)) \<longleftrightarrow>
      (\<exists>c. canonical_of s = Some c \<and>
        (prefix c (se_key (sr_event e)) \<or> prefix (se_key (sr_event e)) c))" for s
  proof (cases "canonical_of s")
    case None
    then show ?thesis by (simp add: fan_out_one_def)
  next
    case (Some c)
    then show ?thesis
      using prod.fan_out_one_rescan [of e canonical_of s c admits] assms
      by (simp add: source_routable_ops_def)
  qed
  then have "map ev_subscription ds = filter (\<lambda>s. \<exists>c. canonical_of s = Some c \<and>
        (prefix c (se_key (sr_event e)) \<or> prefix (se_key (sr_event e)) c)) subs"
    using prod.fan_out_subs [OF ds] by simp
  with ds show ?thesis by simp
qed

text \<open>The routed triple (subscriber, key, kind) of each delivery, as a reference list.\<close>

definition move_case ::
  "reserved_endpoints \<Rightarrow> 'c list \<Rightarrow> 'c list \<Rightarrow> 'c list \<Rightarrow> ('c list \<times> 'c event_kind) option" where
  "move_case r f t c =
     (if prefix c f \<and> \<not> masks_source r
      then if prefix c t \<and> \<not> masks_destination r then Some (t, EMoved f) else Some (f, ERemoved)
      else if prefix c t \<and> \<not> masks_destination r then Some (t, ECreated) else None)"

definition move_delivery ::
  "reserved_endpoints \<Rightarrow> 'c list \<Rightarrow> 'c list \<Rightarrow> (subscription \<Rightarrow> 'c list option) \<Rightarrow> subscription
     \<Rightarrow> (subscription \<times> 'c list \<times> 'c event_kind) option" where
  "move_delivery r f t canonical_of s =
     (case canonical_of s of
        None \<Rightarrow> None
      | Some c \<Rightarrow> map_option (\<lambda>(k, kd). (s, k, kd)) (move_case r f t c))"

lemma fan_out_one_move:
  assumes "se_kind (sr_event e) = EMoved f" and "admits = (\<lambda>_ _. True)"
  shows "map_option (map_option (\<lambda>d. (ev_subscription d, ev_key d, ev_kind d)))
       (fan_out_one source_routable_ops e canonical_of admits s) =
     Some (move_delivery (sr_reserved e) f (se_key (sr_event e)) canonical_of s)"
  using assms
  by (auto simp: fan_out_one_def project_def move_case_def move_delivery_def Let_def source_routable_simps
      split: option.splits if_splits bool.splits)

text \<open>What is not a rescan is offered to the admission in the form it would be delivered in, and only dropped by it.\<close>

lemma fan_out_one_admits:
  assumes "se_kind (sr_event e) \<noteq> ERescan"
  shows "fan_out_one source_routable_ops e canonical_of admits s =
    map_option (\<lambda>r. case r of None \<Rightarrow> None | Some d \<Rightarrow> if admits s d then Some d else None)
      (fan_out_one source_routable_ops e canonical_of (\<lambda>_ _. True) s)"
  using assms by (auto simp: fan_out_one_def source_routable_ops_def Let_def split: option.splits)

lemma fan_out_admits:
  fixes e :: "('c, 'h) source_routable" and admits :: "subscription \<Rightarrow> ('c, 'v) event \<Rightarrow> bool"
  assumes "se_kind (sr_event e) \<noteq> ERescan"
  shows "fan_out source_routable_ops e subs canonical_of admits =
    map_option (filter (\<lambda>d. admits (ev_subscription d) d)) (fan_out source_routable_ops e subs canonical_of (\<lambda>_ _. True))"
proof (induction subs)
  case (Cons s subs)
  let ?rt = "source_routable_ops :: (('c, 'h) source_routable, 'c, ('c, 'v) event) routable"
  obtain r where r: "fan_out_one ?rt e canonical_of (\<lambda>_ _. True) s = Some r" using prod.fan_out_one_total by blast
  obtain ds where ds: "fan_out ?rt e subs canonical_of (\<lambda>_ _. True) = Some ds" using prod.fan_out_total by blast
  have "ev_subscription d = s" if "r = Some d" for d using prod.fan_out_one_sub r that by blast
  then show ?case
    using Cons.IH fan_out_one_admits [OF assms, of canonical_of admits s] by (cases r) (simp_all add: r ds)
qed simp

lemma fan_out_moves:
  fixes e :: "('c, 'h) source_routable"
  assumes "se_kind (sr_event e) = EMoved f"
  shows "map_option (map (\<lambda>d. (ev_subscription d, ev_key d, ev_kind d)))
       (fan_out (source_routable_ops :: (('c, 'h) source_routable, 'c, ('c, 'v) event) routable) e subs canonical_of
          (\<lambda>_ _. True)) =
     Some (List.map_filter
        (move_delivery (sr_reserved e) f (se_key (sr_event e)) canonical_of) subs)"
proof (induction subs)
  case Nil
  then show ?case by (simp add: List.map_filter_def)
next
  case (Cons s subs)
  let ?rt = "source_routable_ops :: (('c, 'h) source_routable, 'c, ('c, 'v) event) routable"
  obtain r where r: "fan_out_one ?rt e canonical_of (\<lambda>_ _. True) s = Some r"
    using prod.fan_out_one_total by blast
  have one: "map_option (map_option (\<lambda>d. (ev_subscription d, ev_key d, ev_kind d)))
       (fan_out_one ?rt e canonical_of (\<lambda>_ _. True) s) =
     Some (move_delivery (sr_reserved e) f (se_key (sr_event e)) canonical_of s)"
    by (rule fan_out_one_move [OF assms refl])
  obtain ds where ds: "fan_out ?rt e subs canonical_of (\<lambda>_ _. True) = Some ds"
    using prod.fan_out_total by blast
  show ?case
    using Cons.IH one [symmetric]
    by (cases r) (simp_all add: r ds List.map_filter_simps)
qed

text \<open>
  Property C27. A move is decomposed per subscriber into at most one projection: the whole \<open>Moved\<close> for a
  subscriber covering both unreserved endpoints, a \<open>Removed\<close> at the source for one covering only the
  source, a \<open>Created\<close> at the destination for one covering only the destination, and nothing otherwise;
  an endpoint in the reserved namespace counts as covered by nobody. The projections the subscribers'
  interests and filters (\<open>admits\<close>) accept, each judged in the form it would be delivered in, are what is
  delivered, in the subscribers' order; no other is.
\<close>

theorem fan_out_move_decomposition:
  fixes e :: "('c, 'h) source_routable" and admits :: "subscription \<Rightarrow> ('c, 'v) event \<Rightarrow> bool"
  assumes "se_kind (sr_event e) = EMoved f"
  shows "\<exists>projections. map (\<lambda>d. (ev_subscription d, ev_key d, ev_kind d)) projections =
      List.map_filter (move_delivery (sr_reserved e) f (se_key (sr_event e)) canonical_of) subs \<and>
    fan_out source_routable_ops e subs canonical_of (\<lambda>_ _. True) = Some projections \<and>
    fan_out source_routable_ops e subs canonical_of admits =
      Some (filter (\<lambda>d. admits (ev_subscription d) d) projections)"
proof -
  let ?rt = "source_routable_ops :: (('c, 'h) source_routable, 'c, ('c, 'v) event) routable"
  obtain ds where ds: "fan_out ?rt e subs canonical_of (\<lambda>_ _. True) = Some ds" using prod.fan_out_total by blast
  have "fan_out ?rt e subs canonical_of admits = Some (filter (\<lambda>d. admits (ev_subscription d) d) ds)"
    using fan_out_admits [of e subs canonical_of admits] assms ds by simp
  moreover have "map (\<lambda>d. (ev_subscription d, ev_key d, ev_kind d)) ds =
      List.map_filter (move_delivery (sr_reserved e) f (se_key (sr_event e)) canonical_of) subs"
    using fan_out_moves [OF assms, of subs canonical_of, where 'v = 'v] ds by simp
  ultimately show ?thesis using ds by blast
qed

text \<open>Every delivery is one of the four projections, moved into the subscriber's coordinate.\<close>

definition relocated :: "('c, 'h) source_event \<Rightarrow> 'c list \<Rightarrow> ('c, 'v) event \<Rightarrow> ('c, 'v) event" where
  "relocated ev c d =
     (if length (se_key ev) - length (se_location ev) \<le> length c
      then d\<lparr>ev_location :=
        drop (length c - (length (se_key ev) - length (se_location ev))) (ev_location d)\<rparr>
      else d\<lparr>ev_location := []\<rparr>)"

lemma fan_out_one_cases:
  assumes "fan_out_one source_routable_ops e canonical_of admits s = Some (Some d)"
  obtains c p where "canonical_of s = Some c" and "d = relocated (sr_event e) c p"
    and "p = from_source s (sr_event e) \<and> prefix c (se_key (sr_event e)) \<or>
      p = source_move_in s (sr_event e) \<and> prefix c (se_key (sr_event e)) \<or>
      source_move_out s (sr_event e) = Some p \<or> p = source_rescan_clamped s (sr_event e) c"
proof -
  from assms obtain c p where c: "canonical_of s = Some c"
    and p: "(if kind_is_rescan (se_kind (sr_event e))
        then Some (project_rescan source_routable_ops e s c (se_key (sr_event e)))
        else project source_routable_ops e s c (se_key (sr_event e))
          (kind_moved_from (se_kind (sr_event e))) (sr_reserved e)) = Some (Some p)"
    and d: "d = relocated (sr_event e) c p"
    by (auto simp: fan_out_one_def source_routable_ops_def relocated_def rebase_location_eq
        anchor_location_at_root_def location_new_def Let_def split: option.splits if_splits)
  from p have "p = from_source s (sr_event e) \<and> prefix c (se_key (sr_event e)) \<or>
      p = source_move_in s (sr_event e) \<and> prefix c (se_key (sr_event e)) \<or>
      source_move_out s (sr_event e) = Some p \<or> p = source_rescan_clamped s (sr_event e) c"
    by (auto simp: project_def project_rescan_def source_routable_ops_def Let_def
        split: option.splits if_splits bool.splits)
  with c d that show ?thesis by blast
qed

text \<open>
  The delivered coordinate is the subscriber's own: for a change whose location names the
  trailing components of its key, a delivery that is not a move-out projection carries a location
  exactly as long as its key is deep below the subscriber's key, unless the subscriber sits above the
  root the change was captured against, in which case the location is the empty, root-anchored one.
\<close>

theorem fan_out_location_depth:
  assumes "length (se_location (sr_event e)) \<le> length (se_key (sr_event e))"
    and "fan_out source_routable_ops e subs canonical_of admits = Some ds"
    and "d \<in> set ds"
    and "ev_key d = se_key (sr_event e)" and "\<forall>f. se_kind (sr_event e) = EMoved f \<longrightarrow> f \<noteq> ev_key d"
  shows "\<exists>c. canonical_of (ev_subscription d) = Some c \<and>
     (if length (se_key (sr_event e)) - length (se_location (sr_event e)) \<le> length c
      then length (ev_location d) = length (ev_key d) - length c
      else ev_location d = [])"
proof -
  from assms(3) prod.fan_out_mem_iff [OF assms(2)] obtain s where s: "s \<in> set subs"
    and one: "fan_out_one source_routable_ops e canonical_of admits s = Some (Some d)"
    by blast
  from one obtain c p where c: "canonical_of s = Some c"
    and d: "d = relocated (sr_event e) c p"
    and p: "p = from_source s (sr_event e) \<and> prefix c (se_key (sr_event e)) \<or>
      p = source_move_in s (sr_event e) \<and> prefix c (se_key (sr_event e)) \<or>
      source_move_out s (sr_event e) = Some p \<or> p = source_rescan_clamped s (sr_event e) c"
    by (rule fan_out_one_cases)
  have k: "ev_key p = se_key (sr_event e)" using assms(4) d by (simp add: relocated_def split: if_splits)
  have "source_move_out s (sr_event e) \<noteq> Some p"
    using assms(4,5) k by (auto simp: source_move_out_def d relocated_def split: option.splits)
  with p k have "ev_location p = se_location (sr_event e) \<and> prefix c (se_key (sr_event e)) \<or>
      ev_location p = [] \<and> c = se_key (sr_event e)"
    by (auto simp: from_source_def source_move_in_def source_rescan_clamped_def location_new_def)
  then have "if length (se_key (sr_event e)) - length (se_location (sr_event e)) \<le> length c
      then length (ev_location d) = length (ev_key d) - length c else ev_location d = []"
    using assms(1,4) k by (auto simp: d relocated_def dest: prefix_length_le)
  with c prod.fan_out_one_sub [OF one] show ?thesis by auto
qed

section \<open>Witnesses\<close>

text \<open>
  One armed root at \<open>[1]\<close> with subscribers at \<open>[1]\<close>, \<open>[1, 2]\<close> and \<open>[1, 3]\<close>; a rename from \<open>[1, 2, 7]\<close>
  to \<open>[1, 3, 8]\<close> and a rescan at \<open>[1, 2]\<close>.
\<close>

definition ex_canon :: "subscription \<Rightarrow> nat list option" where
  "ex_canon s = (if s = Subscription 1 1 then Some [1]
     else if s = Subscription 1 2 then Some [1, 2]
     else if s = Subscription 1 3 then Some [1, 3] else None)"

definition ex_subs :: "subscription list" where
  "ex_subs = [Subscription 1 1, Subscription 1 2, Subscription 1 3]"

definition ex_move :: "(nat, nat) source_routable" where
  "ex_move = \<lparr>sr_event = (source_event_new 9 [1, 3, 8] (EMoved [1, 2, 7])
      [Segment ''c'', Segment ''h''] 0 None)
        \<lparr>se_move_from_location := Some [Segment ''b'', Segment ''g'']\<rparr>,
     sr_reserved = NoEndpoint\<rparr>"

definition ex_rescan :: "(nat, nat) source_routable" where
  "ex_rescan = \<lparr>sr_event = source_event_new 9 [1, 2] ERescan [Segment ''b''] 1 None,
     sr_reserved = NoEndpoint\<rparr>"

lemmas ex_route_simps = ex_canon_def ex_subs_def ex_move_def ex_rescan_def source_event_new_def

abbreviation ex_ops :: "((nat, nat) source_routable, nat, (nat, nat) event) routable" where
  "ex_ops \<equiv> source_routable_ops"

lemma ex_move_fan_out:
  "fan_out ex_ops ex_move ex_subs ex_canon (\<lambda>_ _. True) = Some
     [\<lparr>ev_subscription = Subscription 1 1, ev_epoch = 0, ev_key = [1, 3, 8],
       ev_kind = EMoved [1, 2, 7], ev_location = [Segment ''c'', Segment ''h''],
       ev_change_id = None, ev_value = None, ev_is_dir = None\<rparr>,
      \<lparr>ev_subscription = Subscription 1 2, ev_epoch = 0, ev_key = [1, 2, 7],
       ev_kind = ERemoved, ev_location = [Segment ''g''],
       ev_change_id = None, ev_value = None, ev_is_dir = None\<rparr>,
      \<lparr>ev_subscription = Subscription 1 3, ev_epoch = 0, ev_key = [1, 3, 8],
       ev_kind = ECreated, ev_location = [Segment ''h''],
       ev_change_id = None, ev_value = None, ev_is_dir = None\<rparr>]"
  by (simp add: ex_route_simps fan_out_one_def project_def source_routable_simps
      kind_moved_from_def)

theorem fan_out_stays_inside_witness:
  "\<exists>ds. fan_out ex_ops
       ex_move ex_subs ex_canon (\<lambda>_ _. True) = Some ds \<and> length ds = 3 \<and>
     (\<exists>c. ex_canon (ev_subscription (ds ! 1)) = Some c \<and> prefix c (ev_key (ds ! 1)))"
proof -
  obtain ds where ds: "fan_out ex_ops ex_move ex_subs ex_canon (\<lambda>_ _. True) = Some ds"
    and l: "length (ds :: (nat, nat) event list) = 3"
    using ex_move_fan_out by auto
  have "ds ! 1 \<in> set ds" using l by simp
  with fan_out_stays_inside [of ex_move ex_subs ex_canon "\<lambda>_ _. True"] ds l show ?thesis by auto
qed

theorem fan_out_rescan_unfiltered_witness:
  "map_option (map ev_subscription)
     (fan_out ex_ops
        ex_rescan ex_subs ex_canon (\<lambda>_ _. False)) = Some [Subscription 1 1, Subscription 1 2]"
  by (subst fan_out_rescan_unfiltered) (simp_all add: ex_route_simps)

theorem fan_out_move_decomposition_witness:
  "map_option (map (\<lambda>d. (ev_subscription d, ev_key d, ev_kind d)))
     (fan_out ex_ops ex_move ex_subs ex_canon (\<lambda>s d. ev_kind d \<noteq> ERemoved)) =
     Some [(Subscription 1 1, [1, 3, 8], EMoved [1, 2, 7]), (Subscription 1 3, [1, 3, 8], ECreated)]"
proof -
  have "se_kind (sr_event ex_move) = EMoved [1, 2, 7]" by (simp add: ex_route_simps)
  from fan_out_move_decomposition [OF this, of ex_canon ex_subs "\<lambda>s (d :: (nat, nat) event). ev_kind d \<noteq> ERemoved"]
  show ?thesis using ex_move_fan_out by auto
qed

theorem fan_out_location_depth_witness:
  "\<exists>ds. fan_out ex_ops
       ex_move ex_subs ex_canon (\<lambda>_ _. True) = Some ds \<and> length (ev_location (ds ! 2)) = 1"
proof -
  obtain ds where ds: "fan_out ex_ops ex_move ex_subs ex_canon (\<lambda>_ _. True) = Some ds"
    and l: "length (ds :: (nat, nat) event list) = 3" and k: "ev_key (ds ! 2) = [1, 3, 8]"
    and s: "ev_subscription (ds ! 2) = Subscription 1 3"
    using ex_move_fan_out by auto
  have "ds ! 2 \<in> set ds" using l by simp
  from fan_out_location_depth [OF _ ds this] k s ds show ?thesis
    by (simp add: ex_route_simps)
qed

end
