(* ===== verification/Epoch_Ledger.thy ===== *)
theory Epoch_Ledger
  imports Route
begin

text \<open>
  The umbrella's per-subscription monotone-epoch ledger (\<open>driver/epoch/mod.rs\<close>). The two hash maps
  are HOL maps with \<open>Epoch::START\<close> as the absent-entry default; every addition saturates at
  \<open>u64::MAX\<close>.

  The locale \<open>dominance\<close> is the contract the driver relies on, over any stamping function that
  advances a per-subscription high-water mark: stamps never sort below the high water and a signal
  stamp sorts strictly above it. The four minting operations of the ledger interpret it, and the
  dominance of a whole delivery history is proved once there.
\<close>

record epoch_ledger =
  lg_base :: "subscription \<rightharpoonup> epoch"
  lg_high_water :: "subscription \<rightharpoonup> epoch"

definition ledger_new :: epoch_ledger where
  "ledger_new = \<lparr>lg_base = Map.empty, lg_high_water = Map.empty\<rparr>"

definition base_of :: "epoch_ledger \<Rightarrow> subscription \<Rightarrow> epoch" where
  "base_of l s = (case lg_base l s of None \<Rightarrow> epoch_start | Some e \<Rightarrow> e)"

definition hw_of :: "epoch_ledger \<Rightarrow> subscription \<Rightarrow> epoch" where
  "hw_of l s = (case lg_high_water l s of None \<Rightarrow> epoch_start | Some e \<Rightarrow> e)"

definition bump :: "subscription \<Rightarrow> epoch \<Rightarrow> epoch_ledger \<Rightarrow> epoch_ledger" where
  "bump s e l = l\<lparr>lg_high_water := (lg_high_water l)
     (s \<mapsto> (case lg_high_water l s of None \<Rightarrow> e | Some c \<Rightarrow> max c e))\<rparr>"

definition stamp :: "subscription \<Rightarrow> epoch \<Rightarrow> epoch_ledger \<Rightarrow> epoch \<times> epoch_ledger" where
  "stamp s raw l =
     (let natural = sat_add (base_of l s) raw; st = max natural (hw_of l s)
      in (st, bump s st l))"

definition stamp_rescan :: "subscription \<Rightarrow> epoch \<Rightarrow> epoch_ledger \<Rightarrow> epoch \<times> epoch_ledger" where
  "stamp_rescan s raw l =
     (let natural = sat_add (base_of l s) raw; st = max natural (epoch_next (hw_of l s))
      in (st, bump s st l))"

definition repoint :: "subscription \<Rightarrow> epoch_ledger \<Rightarrow> epoch \<times> epoch_ledger" where
  "repoint s l =
     (let rescan = epoch_next (hw_of l s)
      in (rescan, bump s rescan (l\<lparr>lg_base := (lg_base l)(s \<mapsto> rescan)\<rparr>)))"

definition shed_rescan :: "subscription \<Rightarrow> epoch_ledger \<Rightarrow> epoch \<times> epoch_ledger" where
  "shed_rescan s l = (let rescan = epoch_next (hw_of l s) in (rescan, bump s rescan l))"

definition ledger_remove :: "subscription \<Rightarrow> epoch_ledger \<Rightarrow> epoch_ledger" where
  "ledger_remove s l =
     l\<lparr>lg_base := (lg_base l)(s := None), lg_high_water := (lg_high_water l)(s := None)\<rparr>"

text \<open>The map over the fanned-out deliveries of \<open>stamp_and_fan_out\<close>, threading the ledger.\<close>

fun stamp_all ::
  "bool \<Rightarrow> epoch \<Rightarrow> ('d \<Rightarrow> subscription) \<Rightarrow> ('d \<Rightarrow> epoch \<Rightarrow> 'x) \<Rightarrow> 'd list \<Rightarrow> epoch_ledger
     \<Rightarrow> 'x list \<times> epoch_ledger" where
  "stamp_all rescan raw sub_of stamp_into [] l = ([], l)"
| "stamp_all rescan raw sub_of stamp_into (d # ds) l =
     (let (e, l1) = (if rescan then stamp_rescan (sub_of d) raw l else stamp (sub_of d) raw l);
          (xs, l2) = stamp_all rescan raw sub_of stamp_into ds l1
      in (stamp_into d e # xs, l2))"

definition stamp_and_fan_out ::
  "('e, 'c, 'd) routable \<Rightarrow> 'e \<Rightarrow> epoch \<Rightarrow> subscription list \<Rightarrow> (subscription \<Rightarrow> 'c list option)
     \<Rightarrow> (subscription \<Rightarrow> 'd \<Rightarrow> bool) \<Rightarrow> ('d \<Rightarrow> subscription) \<Rightarrow> ('d \<Rightarrow> epoch \<Rightarrow> 'x) \<Rightarrow> epoch_ledger
     \<Rightarrow> ('x list \<times> epoch_ledger) option" where
  "stamp_and_fan_out rt ev raw subs canonical_of admits sub_of stamp_into l =
     map_option (\<lambda>ds. stamp_all (rt_is_rescan rt ev) raw sub_of stamp_into ds l)
       (fan_out rt ev subs canonical_of admits)"

section \<open>One step\<close>

lemma hw_of_bump [simp]: "hw_of (bump s e l) t = (if t = s then max (hw_of l s) e else hw_of l t)"
  by (auto simp: hw_of_def bump_def epoch_start_def max_def split: option.splits)

lemma base_of_bump [simp]: "base_of (bump s e l) t = base_of l t"
  by (simp add: base_of_def bump_def)

lemma base_of_set_base [simp]:
  "base_of (l\<lparr>lg_base := (lg_base l)(s \<mapsto> e)\<rparr>) t = (if t = s then e else base_of l t)"
  by (simp add: base_of_def)

lemma hw_of_set_base [simp]: "hw_of (l\<lparr>lg_base := b\<rparr>) t = hw_of l t"
  by (simp add: hw_of_def)

lemmas ledger_op_defs = stamp_def stamp_rescan_def repoint_def shed_rescan_def Let_def

lemma hw_next_le [simp]: "max e (epoch_next e) = epoch_next e"
  by (simp add: max_absorb2 epoch_next_ge)

datatype ledger_op =
    Stamp subscription epoch
  | StampRescan subscription epoch
  | Repoint subscription
  | ShedRescan subscription

fun op_sub :: "ledger_op \<Rightarrow> subscription" where
  "op_sub (Stamp s _) = s"
| "op_sub (StampRescan s _) = s"
| "op_sub (Repoint s) = s"
| "op_sub (ShedRescan s) = s"

fun op_signal :: "ledger_op \<Rightarrow> bool" where
  "op_signal (Stamp _ _) = False"
| "op_signal _ = True"

fun ledger_step :: "ledger_op \<Rightarrow> epoch_ledger \<Rightarrow> epoch \<times> epoch_ledger" where
  "ledger_step (Stamp s raw) l = stamp s raw l"
| "ledger_step (StampRescan s raw) l = stamp_rescan s raw l"
| "ledger_step (Repoint s) l = repoint s l"
| "ledger_step (ShedRescan s) l = shed_rescan s l"

fun ledger_run :: "ledger_op list \<Rightarrow> epoch_ledger \<Rightarrow> (ledger_op \<times> epoch) list \<times> epoch_ledger" where
  "ledger_run [] l = ([], l)"
| "ledger_run (x # xs) l =
     (let (e, l1) = ledger_step x l; (ys, l2) = ledger_run xs l1 in ((x, e) # ys, l2))"

section \<open>Dominance\<close>

locale dominance =
  fixes step :: "'o \<Rightarrow> 's \<Rightarrow> epoch \<times> 's"
    and sub :: "'o \<Rightarrow> 'k"
    and signal :: "'o \<Rightarrow> bool"
    and hw :: "'s \<Rightarrow> 'k \<Rightarrow> epoch"
  assumes step_hw: "step x l = (e, l') \<Longrightarrow> hw l' (sub x) = e"
    and step_other: "step x l = (e, l') \<Longrightarrow> k \<noteq> sub x \<Longrightarrow> hw l' k = hw l k"
    and step_ge: "step x l = (e, l') \<Longrightarrow> hw l (sub x) \<le> e"
    and step_signal:
      "step x l = (e, l') \<Longrightarrow> signal x \<Longrightarrow> hw l (sub x) \<noteq> u64_max \<Longrightarrow> hw l (sub x) < e"
begin

fun run :: "'o list \<Rightarrow> 's \<Rightarrow> ('o \<times> epoch) list \<times> 's" where
  "run [] l = ([], l)"
| "run (x # xs) l = (let (e, l1) = step x l; (ys, l2) = run xs l1 in ((x, e) # ys, l2))"

lemma run_ge:
  "run xs l = (ys, l') \<Longrightarrow> (x, e) \<in> set ys \<Longrightarrow>
     hw l (sub x) \<le> e \<and> (signal x \<longrightarrow> hw l (sub x) \<noteq> u64_max \<longrightarrow> hw l (sub x) < e)"
proof (induction xs arbitrary: l ys)
  case Nil
  then show ?case by simp
next
  case (Cons z zs)
  obtain e1 l1 where s: "step z l = (e1, l1)" by fastforce
  obtain ws where r: "run zs l1 = (ws, l')" and ys: "ys = (z, e1) # ws"
    using Cons.prems(1) s by (auto split: prod.splits)
  show ?case
  proof (cases "(x, e) = (z, e1)")
    case True
    then show ?thesis using step_ge [OF s] step_signal [OF s] by simp
  next
    case False
    then have mem: "(x, e) \<in> set ws" using Cons.prems(2) ys by auto
    note ih = Cons.IH [OF r mem]
    have mono: "hw l (sub x) \<le> hw l1 (sub x)"
      using step_hw [OF s] step_other [OF s, of "sub x"] step_ge [OF s]
      by (cases "sub x = sub z") auto
    have top: "hw l (sub x) < e" if "signal x" "hw l (sub x) \<noteq> u64_max"
    proof (cases "hw l1 (sub x) = u64_max")
      case True
      then have "e = u64_max" using ih by (simp add: order_antisym)
      then show ?thesis using that by (simp add: less_u64_max_iff)
    next
      case False
      then show ?thesis using ih mono that by auto
    qed
    from ih mono have "hw l (sub x) \<le> e" by (auto intro: order_trans)
    with top show ?thesis by blast
  qed
qed

lemma run_dominates:
  "run xs l = (ys, l') \<Longrightarrow> i < j \<Longrightarrow> j < length ys \<Longrightarrow> ys ! i = (x, e) \<Longrightarrow> ys ! j = (y, f) \<Longrightarrow>
     sub x = sub y \<Longrightarrow> e \<le> f \<and> (signal y \<longrightarrow> e \<noteq> u64_max \<longrightarrow> e < f)"
proof (induction xs arbitrary: l ys i j)
  case Nil
  then show ?case by simp
next
  case (Cons z zs)
  obtain e1 l1 where s: "step z l = (e1, l1)" by fastforce
  obtain ws where r: "run zs l1 = (ws, l')" and ys: "ys = (z, e1) # ws"
    using Cons.prems(1) s by (auto split: prod.splits)
  obtain j' where j: "j = Suc j'" using Cons.prems(2) by (cases j) auto
  have yj: "ws ! j' = (y, f)" and j': "j' < length ws" using Cons.prems ys j by auto
  show ?case
  proof (cases i)
    case 0
    then have "x = z" and e: "e = e1" using Cons.prems ys by auto
    moreover have "(y, f) \<in> set ws" using yj j' nth_mem by metis
    ultimately show ?thesis
      using run_ge [OF r, of y f] step_hw [OF s] Cons.prems(6) by simp
  next
    case (Suc i')
    then show ?thesis
      using Cons.IH [OF r, of i' j'] Cons.prems ys j yj j' by simp
  qed
qed

end

interpretation ledger: dominance ledger_step op_sub op_signal hw_of
proof
  fix x l e l'
  assume s: "ledger_step x l = (e, l')"
  show ge: "hw_of l (op_sub x) \<le> e"
    using s by (cases x) (auto simp: ledger_op_defs epoch_next_ge le_max_iff_disj)
  have "hw_of l' (op_sub x) = max (hw_of l (op_sub x)) e"
    using s by (cases x) (auto simp: ledger_op_defs)
  with ge show "hw_of l' (op_sub x) = e" by simp
  show "k \<noteq> op_sub x \<Longrightarrow> hw_of l' k = hw_of l k" for k
    using s by (cases x) (auto simp: ledger_op_defs)
  show "op_signal x \<Longrightarrow> hw_of l (op_sub x) \<noteq> u64_max \<Longrightarrow> hw_of l (op_sub x) < e"
    using s by (cases x) (auto simp: ledger_op_defs epoch_next_gt less_max_iff_disj)
qed

lemma ledger_run_eq: "ledger.run xs l = ledger_run xs l"
  by (induction xs arbitrary: l) (auto simp: Let_def split: prod.splits)

section \<open>What the ledger guarantees\<close>

text \<open>
  Property C24. Over any history of deliveries, source rescans, widen re-points and overflow sheds, the
  stamps of one subscription never decrease, and every rescan, re-point and shed stamp is strictly
  greater than every earlier stamp of its subscription (short of the saturated \<open>u64::MAX\<close>), however
  the operations of different subscriptions interleave.
\<close>

theorem ledger_history_dominates:
  assumes "ledger_run ops l = (ys, l')" and "i < j" and "j < length ys"
    and "ys ! i = (x, e)" and "ys ! j = (y, f)" and "op_sub x = op_sub y"
  shows "e \<le> f \<and> (op_signal y \<longrightarrow> e \<noteq> u64_max \<longrightarrow> e < f)"
  using ledger.run_dominates [unfolded ledger_run_eq, OF assms] .

theorem ledger_history_dominates_witness:
  "\<exists>ys l'. ledger_run [Stamp (Subscription 1 1) 3, Stamp (Subscription 1 2) 9,
       ShedRescan (Subscription 1 1), Stamp (Subscription 1 1) 3] ledger_new = (ys, l') \<and>
     map snd ys = [3, 9, 4, 4] \<and> snd (ys ! 0) < snd (ys ! 2)"
proof -
  let ?ops = "[Stamp (Subscription 1 1) 3, Stamp (Subscription 1 2) 9,
       ShedRescan (Subscription 1 1), Stamp (Subscription 1 1) 3]"
  obtain ys l' where r: "ledger_run ?ops ledger_new = (ys, l')" by fastforce
  then have ys: "ys = zip ?ops [3, 9, 4, 4]"
    by (auto simp: ledger_op_defs ledger_new_def base_of_def hw_of_def bump_def epoch_start_def
        epoch_next_def sat_add_def max_def)
  have "(3 :: epoch) \<noteq> u64_max" by (simp add: u64_max_def)
  with ledger_history_dominates [OF r, of 0 2 "?ops ! 0" 3 "?ops ! 2" 4]
  have "(3 :: epoch) < 4" using ys by simp
  with r ys show ?thesis by simp
qed

text \<open>
  After a widen re-point the new root's own generations are stamped exactly above the
  synthetic rescan: with the re-point's stamp \<open>r\<close> as the new base, a delivery of raw generation \<open>g\<close> is
  stamped \<open>r + g\<close> (saturating), so it ties or exceeds the rescan that re-pointed it, while the other
  subscriptions keep their base and high water.
\<close>

theorem repoint_rebases:
  assumes "repoint s l = (r, l1)" and "stamp s g l1 = (e, l2)"
  shows "e = sat_add r g \<and> r \<le> e \<and> base_of l1 s = r \<and> hw_of l1 s = r \<and>
    (\<forall>t. t \<noteq> s \<longrightarrow> base_of l1 t = base_of l t \<and> hw_of l1 t = hw_of l t)"
proof -
  have b: "base_of l1 s = r" and h: "hw_of l1 s = r"
    using assms(1) by (auto simp: ledger_op_defs)
  moreover have "e = sat_add r g"
    using assms(2) b h by (auto simp: ledger_op_defs max_absorb1 sat_add_ge1)
  ultimately show ?thesis
    using assms(1) by (auto simp: ledger_op_defs sat_add_ge1)
qed

theorem repoint_rebases_witness:
  "\<exists>r l1 e l2. repoint (Subscription 1 1) ledger_new = (r, l1) \<and>
     stamp (Subscription 1 1) 5 l1 = (e, l2) \<and> r = 1 \<and> e = 6"
proof -
  let ?s = "Subscription 1 1"
  obtain r l1 where r: "repoint ?s ledger_new = (r, l1)" by fastforce
  obtain e l2 where e: "stamp ?s 5 l1 = (e, l2)" by fastforce
  have "r = 1"
    using r by (auto simp: ledger_op_defs ledger_new_def hw_of_def epoch_next_def epoch_start_def
        sat_add_def)
  with repoint_rebases [OF r e] have "e = 6" by (simp add: sat_add_def)
  with r e \<open>r = 1\<close> show ?thesis by blast
qed

definition delivery_op :: "bool \<Rightarrow> epoch \<Rightarrow> subscription \<Rightarrow> ledger_op" where
  "delivery_op rescan raw s = (if rescan then StampRescan s raw else Stamp s raw)"

lemma stamp_all_eq:
  "stamp_all rescan raw sub_of into ds l =
     (map2 (\<lambda>d y. into d (snd y)) ds
        (fst (ledger_run (map (\<lambda>d. delivery_op rescan raw (sub_of d)) ds) l)),
      snd (ledger_run (map (\<lambda>d. delivery_op rescan raw (sub_of d)) ds) l))"
  by (induction ds arbitrary: l) (auto simp: delivery_op_def Let_def split: prod.splits)

lemma ledger_run_ops: "map fst (fst (ledger_run xs l)) = xs"
  by (induction xs arbitrary: l) (simp_all add: Let_def case_prod_beta)

lemma stamp_all_run:
  assumes "stamp_all rescan raw sub_of into ds l = (xs, l')" and "x \<in> set xs"
  shows "\<exists>d e. d \<in> set ds \<and> x = into d e \<and> (delivery_op rescan raw (sub_of d), e)
    \<in> set (fst (ledger_run (map (\<lambda>d. delivery_op rescan raw (sub_of d)) ds) l))"
proof -
  let ?ops = "map (\<lambda>d. delivery_op rescan raw (sub_of d)) ds"
  let ?ys = "fst (ledger_run ?ops l)"
  from assms obtain n where n: "n < length ds" "n < length ?ys" "x = into (ds ! n) (snd (?ys ! n))"
    by (fastforce simp: stamp_all_eq set_zip)
  have "fst (?ys ! n) = ?ops ! n" using n ledger_run_ops [of ?ops l] by (metis nth_map)
  then have "?ys ! n = (delivery_op rescan raw (sub_of (ds ! n)), snd (?ys ! n))"
    using n(1) by (metis nth_map prod.collapse)
  then show ?thesis using n nth_mem by metis
qed

text \<open>
  Property C25. Routing and stamping one source event always returns, and every delivery it mints carries
  an epoch at or above its subscriber's high water before the call; when the event is a rescan the epoch
  is strictly above it, so the coverage-loss signal dominates everything that subscriber was sent.
\<close>

theorem stamp_and_fan_out_dominates:
  fixes e :: "('c, 'h) source_routable"
  shows "\<exists>xs l'. stamp_and_fan_out
        (source_routable_ops :: (('c, 'h) source_routable, 'c, ('c, 'v) event) routable)
        e raw subs canonical_of admits ev_subscription (\<lambda>d st. d\<lparr>ev_epoch := st\<rparr>) l = Some (xs, l') \<and>
     (\<forall>d \<in> set xs. hw_of l (ev_subscription d) \<le> ev_epoch d \<and>
        (se_kind (sr_event e) = ERescan \<longrightarrow> hw_of l (ev_subscription d) \<noteq> u64_max \<longrightarrow>
           hw_of l (ev_subscription d) < ev_epoch d))"
proof -
  let ?rt = "source_routable_ops :: (('c, 'h) source_routable, 'c, ('c, 'v) event) routable"
  let ?resc = "rt_is_rescan ?rt e"
  let ?into = "\<lambda>d st. d\<lparr>ev_epoch := st\<rparr>"
  obtain ds where ds: "fan_out ?rt e subs canonical_of admits = Some ds"
    using prod.fan_out_total by blast
  obtain xs l' where st: "stamp_all ?resc raw ev_subscription ?into ds l = (xs, l')" by fastforce
  have "hw_of l (ev_subscription x) \<le> ev_epoch x \<and>
      (se_kind (sr_event e) = ERescan \<longrightarrow> hw_of l (ev_subscription x) \<noteq> u64_max \<longrightarrow>
         hw_of l (ev_subscription x) < ev_epoch x)" if "x \<in> set xs" for x
  proof -
    from stamp_all_run [OF st that] obtain d st' where x: "x = ?into d st'"
      and mem: "(delivery_op ?resc raw (ev_subscription d), st') \<in> set (fst (ledger_run
          (map (\<lambda>d. delivery_op ?resc raw (ev_subscription d)) ds) l))"
      by blast
    from ledger.run_ge [unfolded ledger_run_eq, OF surjective_pairing mem] x show ?thesis
      by (fastforce simp: source_routable_ops_def delivery_op_def split: if_splits)
  qed
  with ds st show ?thesis by (simp add: stamp_and_fan_out_def)
qed

theorem stamp_and_fan_out_dominates_witness:
  "\<exists>xs l'. stamp_and_fan_out ex_ops ex_rescan 0 ex_subs ex_canon (\<lambda>_ _. False) ev_subscription
       (\<lambda>d st. d\<lparr>ev_epoch := st\<rparr>) (snd (stamp (Subscription 1 2) 7 ledger_new)) = Some (xs, l') \<and>
     map ev_epoch xs = [1, 8] \<and> 7 < ev_epoch (xs ! 1)"
proof -
  let ?l = "snd (stamp (Subscription 1 2) 7 ledger_new)"
  let ?f = "stamp_and_fan_out ex_ops ex_rescan 0 ex_subs ex_canon (\<lambda>_ _. False) ev_subscription
       (\<lambda>d st. d\<lparr>ev_epoch := st\<rparr>) ?l"
  obtain xs l' where f: "?f = Some (xs, l')" and e: "map ev_epoch xs = [1, 8]"
    and s: "map ev_subscription xs = [Subscription 1 1, Subscription 1 2]"
    by (simp add: stamp_and_fan_out_def ex_route_simps fan_out_one_def project_rescan_def
        source_routable_simps ledger_op_defs ledger_new_def base_of_def hw_of_def bump_def
        epoch_start_def epoch_next_def sat_add_def max_def)
  have hw: "hw_of ?l (Subscription 1 2) = 7"
    by (simp add: ledger_op_defs ledger_new_def base_of_def hw_of_def bump_def epoch_start_def
        sat_add_def max_def)
  have l: "length xs = 2" using arg_cong [OF e, of length] by simp
  then have m: "xs ! 1 \<in> set xs" by simp
  have s1: "ev_subscription (xs ! 1) = Subscription 1 2"
    using s l by (metis One_nat_def lessI nth_Cons_0 nth_Cons_Suc nth_map numeral_2_eq_2)
  have "(7 :: epoch) \<noteq> u64_max" by (simp add: u64_max_def)
  with stamp_and_fan_out_dominates [where ?'v = nat, of ex_rescan 0 ex_subs ex_canon "\<lambda>_ _. False" ?l] f m hw s1
  have "7 < ev_epoch (xs ! 1)" by (auto simp: ex_rescan_def source_event_new_def)
  with f e show ?thesis by (intro exI conjI)
qed

end
