(* ===== verification/World.thy ===== *)
theory World
  imports Subsumer Coalescer
begin

text \<open>
  What the driver's owner task is surrounded by: the event channel (\<open>async_channel\<close>), the clock of the
  runtime, the armed \<open>Source\<close> and the one-shot reply channels. None of it is code of the umbrella's
  core, so it is one opaque state with a record of the calls the owner makes on it, \<open>world_ops\<close>; the
  state may hide any schedule of the consumer, of the source and of the callers.

  The locale \<open>world\<close> states what the owner relies on, with two observations of the channel: \<open>wd_sent\<close>,
  the events it accepted so far, in order, and \<open>wd_closed\<close>, whether it has been closed. An accepted
  event is appended, nothing is ever taken back, a closed channel stays closed, and a call of anything
  else changes neither. \<open>script_ops\<close> is a world that answers from lists; it interprets the locale.
\<close>

section \<open>Errors and answers\<close>

datatype fault_kind = FkNotFound | FkNotADirectory | FkPermissionDenied | FkCapacity | FkConflict
  | FkUnsupported | FkOther

datatype source_fault = SourceFault (fault_kind: fault_kind)

datatype uwatch_error =
    UwCanonicalize source_fault
  | UwSource source_fault
  | UwDeadOnArrival
  | UwCanonicalRace
  | UwRescanBacklog
  | UwClosed
  | UwCoverageIncomplete
  | UwRootWordsConflict nat root_globs root_globs words_conflict
  | UwFilterRetired
  | UwSourceRetired
  | UwInvalidOptions

fun error_fault :: "uwatch_error \<Rightarrow> source_fault option" where
  "error_fault (UwCanonicalize f) = Some f"
| "error_fault (UwSource f) = Some f"
| "error_fault _ = None"

definition is_capacity_refusal :: "uwatch_error \<Rightarrow> bool" where
  "is_capacity_refusal e = (case error_fault e of None \<Rightarrow> False | Some f \<Rightarrow> fault_kind f = FkCapacity)"

datatype unwatch_error = UnUnknownSubscription | UnClosed

datatype sync_error = SeUnknownSubscription | SeUnsupported | SeCookieWrite source_fault
  | SeCookieDirUncovered | SeRetired | SeEntropy | SeTimeout | SeBusy | SeSourceRetired | SeClosed

datatype sync_outcome = Delivered | Dominated

record sync_token =
  tk_instance :: u64
  tk_pid :: u64
  tk_seq :: u64
  tk_nonce :: u64

datatype 'c begun = Installed "'c list" | BegunDominated

record ('c, 'h) armed =
  ar_handle :: 'h
  ar_key :: "'c list"

datatype send_result = SendOk | SendFull | SendClosed

text \<open>A source call raced against the close signal: settled, or a close reply consumed, or the signal gone.\<close>

datatype 'a race = Settled 'a | CloseWon | HandlesGone

datatype 'c sync_step = Began "sync_error + 'c begun" | SyncClose | SyncCanceled

text \<open>The synchronous calls into the source: the requests, the close seam, and dropping an abandoned future.\<close>

datatype ('c, 'h) source_call =
    Disarm 'h
  | SetCover 'h "'c list list"
  | EndSync 'h "'c list"
  | CancelSync 'h sync_token
  | BeginClose
  | DropRaced

text \<open>How a contained panic's payload was retired (\<open>unwind/mod.rs\<close>).\<close>

datatype payload_disposal = PayloadDropped | PayloadForgotten

fun is_forgotten :: "payload_disposal \<Rightarrow> bool" where
  "is_forgotten PayloadForgotten = True"
| "is_forgotten PayloadDropped = False"

type_synonym reply_id = nat

section \<open>The interface\<close>

record ('e, 'c, 'v, 'h) world_ops =
  wd_now :: "'e \<Rightarrow> instant \<times> 'e"
  wd_try_send :: "('c, 'v) event \<Rightarrow> 'e \<Rightarrow> send_result \<times> 'e"
  wd_is_full :: "'e \<Rightarrow> bool"
  wd_root_key :: "'e \<Rightarrow> 'h \<Rightarrow> 'c list option"
  wd_is_artifact :: "'e \<Rightarrow> 'c list \<Rightarrow> bool"
  wd_canonicalize :: "'e \<Rightarrow> 'c list \<Rightarrow> uwatch_error + 'c list"
  wd_call :: "('c, 'h) source_call \<Rightarrow> 'e \<Rightarrow> payload_disposal option \<times> 'e"
  wd_arm :: "'c list \<Rightarrow> root_globs \<Rightarrow> 'e \<Rightarrow> (uwatch_error + ('c, 'h) armed) race \<times> 'e"
  wd_replace :: "'h \<Rightarrow> 'c list \<Rightarrow> 'e \<Rightarrow> (uwatch_error + ('c, 'h) armed) race \<times> 'e"
  wd_grow :: "'h \<Rightarrow> 'c list list \<Rightarrow> 'e \<Rightarrow> (uwatch_error + unit) race \<times> 'e"
  wd_probe :: "'e \<Rightarrow> unit race \<times> 'e"
  wd_pace :: "instant \<Rightarrow> 'e \<Rightarrow> unit race \<times> 'e"
  wd_begin_sync :: "'h \<Rightarrow> 'c list \<Rightarrow> sync_token \<Rightarrow> 'e \<Rightarrow> 'c sync_step \<times> 'e"
  wd_nonce :: "'e \<Rightarrow> u64 option \<times> 'e"
  wd_pid :: u64
  wd_canceled :: "'e \<Rightarrow> reply_id \<Rightarrow> bool"
  wd_sent :: "'e \<Rightarrow> ('c, 'v) event list"
  wd_closed :: "'e \<Rightarrow> bool"

definition advances :: "('e, 'c, 'v, 'h) world_ops \<Rightarrow> 'e \<Rightarrow> 'e \<Rightarrow> bool" where
  "advances wd e e' \<longleftrightarrow> wd_sent wd e' = wd_sent wd e \<and> (wd_closed wd e \<longrightarrow> wd_closed wd e')"

locale world =
  fixes wd :: "('e, 'c, 'v, 'h) world_ops"
  assumes now: "advances wd e (snd (wd_now wd e))"
    and call: "advances wd e (snd (wd_call wd c e))"
    and arm: "advances wd e (snd (wd_arm wd k g e))"
    and replace: "advances wd e (snd (wd_replace wd h k e))"
    and replace_handle: "wd_replace wd h k e = (Settled (Inr a), e') \<Longrightarrow> ar_handle a = h"
    and grow: "advances wd e (snd (wd_grow wd h ks e))"
    and probe: "advances wd e (snd (wd_probe wd e))"
    and pace: "advances wd e (snd (wd_pace wd wake e))"
    and begin_sync: "advances wd e (snd (wd_begin_sync wd h k t e))"
    and nonce: "advances wd e (snd (wd_nonce wd e))"
    and send_ok: "wd_try_send wd ev e = (SendOk, e') \<Longrightarrow>
      wd_sent wd e' = wd_sent wd e @ [ev] \<and> (wd_closed wd e \<longrightarrow> wd_closed wd e')"
    and send_full: "wd_try_send wd ev e = (SendFull, e') \<Longrightarrow> advances wd e e'"
    and send_closed: "wd_try_send wd ev e = (SendClosed, e') \<Longrightarrow> advances wd e e' \<and> wd_closed wd e'"
begin

lemma send_cases:
  obtains (ok) e' where "wd_try_send wd ev e = (SendOk, e')" "wd_sent wd e' = wd_sent wd e @ [ev]"
      "wd_closed wd e \<longrightarrow> wd_closed wd e'"
  | (full) e' where "wd_try_send wd ev e = (SendFull, e')" "advances wd e e'"
  | (closed) e' where "wd_try_send wd ev e = (SendClosed, e')" "advances wd e e'" "wd_closed wd e'"
proof (cases "wd_try_send wd ev e")
  case (Pair r e')
  then show thesis
    using ok full closed send_ok send_full send_closed by (cases r) auto
qed

end

text \<open>
  A world whose clock runs backwards under none of the calls a restoration makes and whose sleep does not
  wake early: what the bounded retries need in order to end within their budget.
\<close>

locale paced_world = world wd for wd :: "('e, 'c, 'v, 'h) world_ops" +
  assumes now_mono: "fst (wd_now wd e) \<le> fst (wd_now wd (snd (wd_now wd e)))"
    and call_mono: "fst (wd_now wd e) \<le> fst (wd_now wd (snd (wd_call wd c e)))"
    and arm_mono: "fst (wd_now wd e) \<le> fst (wd_now wd (snd (wd_arm wd k g e)))"
    and send_mono: "fst (wd_now wd e) \<le> fst (wd_now wd (snd (wd_try_send wd ev e)))"
    and probe_mono: "fst (wd_now wd e) \<le> fst (wd_now wd (snd (wd_probe wd e)))"
    and pace_wakes: "wd_pace wd t e = (Settled u, e') \<Longrightarrow> t \<le> fst (wd_now wd e')"

section \<open>A scripted world\<close>

record ('c, 'v, 'h) script =
  sc_time :: instant
  sc_ticks :: "duration list"
  sc_sends :: "send_result list"
  sc_full :: bool
  sc_closed :: bool
  sc_sent :: "('c, 'v) event list"
  sc_root_keys :: "('h \<times> 'c list) list"
  sc_artifacts :: "'c list list"
  sc_calls :: "payload_disposal option list"
  sc_arms :: "(uwatch_error + ('c, 'h) armed) race list"
  sc_grows :: "(uwatch_error + unit) race list"
  sc_closes :: "unit race list"
  sc_syncs :: "'c sync_step list"
  sc_canceled :: "reply_id list"

definition next_answer :: "'a \<Rightarrow> 'a list \<Rightarrow> 'a \<times> 'a list" where
  "next_answer d xs = (case xs of [] \<Rightarrow> (d, []) | x # xs' \<Rightarrow> (x, xs'))"

definition script_ops :: "(('c, 'v, 'h) script, 'c, 'v, 'h) world_ops" where
  "script_ops = \<lparr>
     wd_now = (\<lambda>e. let (d, ds) = next_answer 0 (sc_ticks e)
       in (sc_time e, e\<lparr>sc_time := sc_time e + d, sc_ticks := ds\<rparr>)),
     wd_try_send = (\<lambda>ev e.
       if sc_closed e then (SendClosed, e)
       else (let (r, rs) = next_answer SendOk (sc_sends e); e1 = e\<lparr>sc_sends := rs\<rparr>
             in case r of
                  SendOk \<Rightarrow> (SendOk, e1\<lparr>sc_sent := sc_sent e1 @ [ev]\<rparr>)
                | SendFull \<Rightarrow> (SendFull, e1)
                | SendClosed \<Rightarrow> (SendClosed, e1\<lparr>sc_closed := True\<rparr>))),
     wd_is_full = sc_full,
     wd_root_key = (\<lambda>e. map_of (sc_root_keys e)),
     wd_is_artifact = (\<lambda>e k. k \<in> set (sc_artifacts e)),
     wd_canonicalize = (\<lambda>e k. Inr k),
     wd_call = (\<lambda>c e. let (r, rs) = next_answer None (sc_calls e) in (r, e\<lparr>sc_calls := rs\<rparr>)),
     wd_arm = (\<lambda>k g e. let (r, rs) = next_answer HandlesGone (sc_arms e) in (r, e\<lparr>sc_arms := rs\<rparr>)),
     wd_replace = (\<lambda>h k e. let (r, rs) = next_answer HandlesGone (sc_arms e)
       in (case r of Settled (Inr a) \<Rightarrow> Settled (Inr (a\<lparr>ar_handle := h\<rparr>)) | _ \<Rightarrow> r, e\<lparr>sc_arms := rs\<rparr>)),
     wd_grow = (\<lambda>h ks e. let (r, rs) = next_answer HandlesGone (sc_grows e) in (r, e\<lparr>sc_grows := rs\<rparr>)),
     wd_probe = (\<lambda>e. let (r, rs) = next_answer (Settled ()) (sc_closes e) in (r, e\<lparr>sc_closes := rs\<rparr>)),
     wd_pace = (\<lambda>t e. let (r, rs) = next_answer (Settled ()) (sc_closes e)
       in (r, e\<lparr>sc_closes := rs, sc_time := max (sc_time e) t\<rparr>)),
     wd_begin_sync = (\<lambda>h k t e. let (r, rs) = next_answer SyncCanceled (sc_syncs e) in (r, e\<lparr>sc_syncs := rs\<rparr>)),
     wd_nonce = (\<lambda>e. (Some 7, e)),
     wd_pid = 1,
     wd_canceled = (\<lambda>e r. r \<in> set (sc_canceled e)),
     wd_sent = sc_sent,
     wd_closed = sc_closed\<rparr>"

interpretation script: world "script_ops :: (('c, 'v, 'h) script, 'c, 'v, 'h) world_ops"
  by unfold_locales
    (auto simp: script_ops_def advances_def Let_def
      split: prod.splits if_splits send_result.splits race.splits sum.splits)

interpretation script: paced_world "script_ops :: (('c, 'v, 'h) script, 'c, 'v, 'h) world_ops"
  by unfold_locales (auto simp: script_ops_def Let_def split: prod.splits send_result.splits)

end
