(* ===== verification/Admission.thy ===== *)
theory Admission
  imports Epoch_Ledger World
begin

text \<open>
  Admission: the swappable filters (\<open>filter/mod.rs\<close>), the driver's gate per subscription
  (\<open>SubscriptionFilter\<close> and module \<open>planes\<close> of \<open>driver/mod.rs\<close>), and the fan-out whose admission
  closure records which predicates unwound.

  A \<open>Filter\<close> is a reference to a shared slot; the slots are a store, so that a swap through one clone
  is seen through all. A predicate is caller code: it answers a verdict or unwinds, with a payload
  whose own destructor returns or not.
\<close>

section \<open>Filters\<close>

record 'c filter_input =
  fi_key :: "'c list"
  fi_kind :: "'c event_kind"
  fi_location :: location

datatype verdict = Verdict bool | Unwound payload_disposal

type_synonym 'c predicate = "'c filter_input \<Rightarrow> verdict"

record 'c filter_slot =
  fl_predicate :: "'c predicate"
  fl_custom :: bool

type_synonym slot_id = nat

type_synonym 'c filter_store = "slot_id \<Rightarrow> 'c filter_slot"

definition filter_all :: "slot_id \<Rightarrow> 'c filter_store \<Rightarrow> 'c filter_store" where
  "filter_all i fs = fs(i := \<lparr>fl_predicate = (\<lambda>_. Verdict True), fl_custom = False\<rparr>)"

definition filter_new :: "slot_id \<Rightarrow> 'c predicate \<Rightarrow> 'c filter_store \<Rightarrow> 'c filter_store" where
  "filter_new i p fs = fs(i := \<lparr>fl_predicate = p, fl_custom = True\<rparr>)"

definition is_custom :: "'c filter_store \<Rightarrow> slot_id \<Rightarrow> bool" where
  "is_custom fs i = fl_custom (fs i)"

definition filter_swap :: "slot_id \<Rightarrow> 'c predicate \<Rightarrow> 'c filter_store \<Rightarrow> 'c filter_store" where
  "filter_swap i p fs = fs(i := (fs i)\<lparr>fl_custom := True, fl_predicate := p\<rparr>)"

definition filter_admits :: "'c filter_store \<Rightarrow> slot_id \<Rightarrow> 'c filter_input \<Rightarrow> verdict" where
  "filter_admits fs i inp = fl_predicate (fs i) inp"

section \<open>Gates\<close>

record gate =
  gt_slot :: slot_id
  gt_quarantined :: bool

type_synonym gates = "subscription \<rightharpoonup> gate"

definition gates_quarantine :: "subscription \<Rightarrow> gates \<Rightarrow> bool \<times> gates" where
  "gates_quarantine sub g =
     (case g sub of Some x \<Rightarrow> (True, g(sub \<mapsto> x\<lparr>gt_quarantined := True\<rparr>)) | None \<Rightarrow> (False, g))"

definition gates_install :: "subscription \<Rightarrow> slot_id \<Rightarrow> gates \<Rightarrow> gates" where
  "gates_install sub i g = g(sub \<mapsto> \<lparr>gt_slot = i, gt_quarantined = False\<rparr>)"

definition gates_take :: "subscription \<Rightarrow> gates \<Rightarrow> gates" where
  "gates_take sub g = g(sub := None)"

text \<open>
  The admission closure of \<open>fan_out_raw\<close>: the interest mask, then the gate. The threaded state is the
  owner's latch (a payload was forgotten) and the subscriptions whose predicate unwound.
\<close>

definition gate_admits ::
  "(subscription \<Rightarrow> delivery_interest option) \<Rightarrow> gates \<Rightarrow> 'c filter_store \<Rightarrow> subscription \<Rightarrow> ('c, 'v) event
     \<Rightarrow> bool \<times> subscription list \<Rightarrow> bool \<times> bool \<times> subscription list" where
  "gate_admits interest_of gates fs sub ev s =
     (case interest_of sub of
        None \<Rightarrow> (False, s)
      | Some i \<Rightarrow>
          if \<not> interest_admits i (ev_kind ev) then (False, s)
          else (case gates sub of
                  None \<Rightarrow> (False, s)
                | Some g \<Rightarrow>
                    if gt_quarantined g then (True, s)
                    else if fst s then (True, fst s, snd s @ [sub])
                    else (case filter_admits fs (gt_slot g)
                              \<lparr>fi_key = ev_key ev, fi_kind = ev_kind ev, fi_location = ev_location ev\<rparr> of
                            Verdict b \<Rightarrow> (b, s)
                          | Unwound p \<Rightarrow> (True, fst s \<or> is_forgotten p, snd s @ [sub]))))"

section \<open>The gated fan-out\<close>

text \<open>\<open>route::fan_out\<close> with an admission closure that has a state.\<close>

fun fan_out_with ::
  "('e, 'c, 'd) routable \<Rightarrow> 'e \<Rightarrow> subscription list \<Rightarrow> (subscription \<Rightarrow> 'c list option)
     \<Rightarrow> (subscription \<Rightarrow> 'd \<Rightarrow> 's \<Rightarrow> bool \<times> 's) \<Rightarrow> 's \<Rightarrow> ('d list \<times> 's) option" where
  "fan_out_with rt ev [] canonical_of gate s = Some ([], s)"
| "fan_out_with rt ev (sub # subs) canonical_of gate s =
     (case fan_out_one rt ev canonical_of (\<lambda>_ _. True) sub of
        None \<Rightarrow> None
      | Some None \<Rightarrow> fan_out_with rt ev subs canonical_of gate s
      | Some (Some d) \<Rightarrow>
          (let (ok, s1) = (if rt_is_rescan rt ev then (True, s) else gate sub d s)
           in map_option (\<lambda>(ds, s2). (if ok then d # ds else ds, s2))
                (fan_out_with rt ev subs canonical_of gate s1)))"

definition stamp_and_fan_out_with ::
  "('e, 'c, 'd) routable \<Rightarrow> 'e \<Rightarrow> epoch \<Rightarrow> subscription list \<Rightarrow> (subscription \<Rightarrow> 'c list option)
     \<Rightarrow> (subscription \<Rightarrow> 'd \<Rightarrow> 's \<Rightarrow> bool \<times> 's) \<Rightarrow> ('d \<Rightarrow> subscription) \<Rightarrow> ('d \<Rightarrow> epoch \<Rightarrow> 'x) \<Rightarrow> 's
     \<Rightarrow> epoch_ledger \<Rightarrow> ('x list \<times> 's \<times> epoch_ledger) option" where
  "stamp_and_fan_out_with rt ev raw subs canonical_of gate sub_of stamp_into s l =
     map_option (\<lambda>(ds, s1).
         let (xs, l1) = stamp_all (rt_is_rescan rt ev) raw sub_of stamp_into ds l in (xs, s1, l1))
       (fan_out_with rt ev subs canonical_of gate s)"

text \<open>With a pure closure it is the fan-out of \<open>Route\<close>.\<close>

lemma fan_out_one_gate:
  "fan_out_one rt ev canon adm sub =
     (case fan_out_one rt ev canon (\<lambda>_ _. True) sub of
        None \<Rightarrow> None
      | Some None \<Rightarrow> Some None
      | Some (Some d) \<Rightarrow> Some (if rt_is_rescan rt ev \<or> adm sub d then Some d else None))"
  by (auto simp: fan_out_one_def Let_def split: option.splits if_splits)

lemma fan_out_with_pure:
  "map_option fst (fan_out_with rt ev subs canon (\<lambda>sub d s. (adm sub d, s)) s) = fan_out rt ev subs canon adm"
proof (induction subs arbitrary: s)
  case (Cons sub subs)
  show ?case
    using Cons [of s]
    by (cases "fan_out_one rt ev canon (\<lambda>_ _. True) sub")
      (auto simp: fan_out_one_gate [of rt ev canon adm sub] map_option_case split: option.splits)
qed simp

text \<open>Whatever the closure does, what is delivered is part of what the ungated fan-out mints, in order.\<close>

lemma fan_out_with_subseq:
  assumes "fan_out_with rt ev subs canon gate s = Some (ds, s')"
  shows "\<exists>all. fan_out rt ev subs canon (\<lambda>_ _. True) = Some all \<and> subseq ds all \<and>
    (rt_is_rescan rt ev \<longrightarrow> ds = all)"
  using assms
proof (induction subs arbitrary: s ds s')
  case (Cons sub subs)
  obtain r where r: "fan_out_one rt ev canon (\<lambda>_ _. True) sub = Some r"
    using Cons.prems by (auto split: option.splits)
  show ?case
  proof (cases r)
    case None
    then show ?thesis using Cons r by auto
  next
    case (Some d)
    obtain ok s1 where g: "(if rt_is_rescan rt ev then (True, s) else gate sub d s) = (ok, s1)"
      by (metis surj_pair)
    obtain es s2 where es: "fan_out_with rt ev subs canon gate s1 = Some (es, s2)"
        "ds = (if ok then d # es else es)"
      using Cons.prems r Some g by (auto split: option.splits)
    obtain all where all: "fan_out rt ev subs canon (\<lambda>_ _. True) = Some all" "subseq es all"
        "rt_is_rescan rt ev \<longrightarrow> es = all"
      using Cons.IH [OF es(1)] by blast
    moreover have "ok" if "rt_is_rescan rt ev" using g that by simp
    ultimately show ?thesis using r Some es(2) by auto
  qed
qed simp

lemma fan_out_with_total:
  assumes "fan_out rt ev subs canon (\<lambda>_ _. True) \<noteq> None"
  shows "\<exists>ds s'. fan_out_with rt ev subs canon gate s = Some (ds, s')"
  using assms
proof (induction subs arbitrary: s)
  case (Cons sub subs)
  obtain r where r: "fan_out_one rt ev canon (\<lambda>_ _. True) sub = Some r"
    using Cons.prems by (auto split: option.splits)
  have more: "fan_out rt ev subs canon (\<lambda>_ _. True) \<noteq> None" using Cons.prems r by auto
  show ?case
  proof (cases r)
    case None
    then show ?thesis using r Cons.IH [OF more, of s] by simp
  next
    case (Some d)
    obtain ok s1 where g: "(if rt_is_rescan rt ev then (True, s) else gate sub d s) = (ok, s1)"
      by (metis surj_pair)
    then show ?thesis using r Some Cons.IH [OF more, of s1] by auto
  qed
qed simp

end
