(* ===== verification/Parked.thy ===== *)
theory Parked
  imports Umbrella_Event
begin

text \<open>
  The driver's parked re-enumeration plane (\<open>driver/mod.rs\<close>, module \<open>planes\<close>): the dominating rescan
  each subscription is owed, held until it can be delivered. \<open>ParkedRescans\<close> is a \<open>BTreeMap\<close>, an
  association list in ascending order of subscription. The \<open>Salvage\<close> bundles are not modelled.
\<close>

record ('c, 'v) parked_rescan =
  pr_key :: "'c list"
  pr_epoch :: epoch
  pr_value :: "'v option"

type_synonym ('c, 'v) parked_plane = "(subscription \<times> ('c, 'v) parked_rescan) list"

section \<open>Operations\<close>

text \<open>The longest common prefix, as \<open>zip\<close>, \<open>take_while\<close> and \<open>count\<close> compute its length.\<close>

definition widen_to_cover :: "'c list \<Rightarrow> 'c list \<Rightarrow> 'c list" where
  "widen_to_cover parked key =
     (let common = length (takeWhile (\<lambda>(a, b). a = b) (zip key parked))
      in if common < length parked then take common parked else parked)"

definition parked_contains :: "subscription \<Rightarrow> ('c, 'v) parked_plane \<Rightarrow> bool" where
  "parked_contains sub m \<longleftrightarrow> map_of m sub \<noteq> None"

text \<open>
  The bound of the round-robin probe: \<open>None\<close> is unbounded, otherwise the position and whether it is
  excluded. Past the greatest key the probe wraps to the least.
\<close>

definition first_from :: "subscription option \<Rightarrow> bool \<Rightarrow> ('c, 'v) parked_plane \<Rightarrow> subscription option" where
  "first_from resume exclusive m =
     (case filter (\<lambda>k. case resume of None \<Rightarrow> True | Some p \<Rightarrow> if exclusive then p < k else p \<le> k) (map fst m) of
        k # _ \<Rightarrow> Some k
      | [] \<Rightarrow> (case m of [] \<Rightarrow> None | e # _ \<Rightarrow> Some (fst e)))"

definition parked_take :: "subscription \<Rightarrow> ('c, 'v) parked_plane \<Rightarrow> ('c, 'v) parked_plane" where
  "parked_take sub m = btm_remove sub m"

definition merge_max ::
  "subscription \<Rightarrow> 'c list \<Rightarrow> epoch \<Rightarrow> 'v option \<Rightarrow> ('c, 'v) parked_plane \<Rightarrow> ('c, 'v) parked_plane" where
  "merge_max sub key e v m =
     (case map_of m sub of
        Some p \<Rightarrow> btm_insert sub
          \<lparr>pr_key = widen_to_cover (pr_key p) key, pr_epoch = max (pr_epoch p) e, pr_value = v\<rparr> m
      | None \<Rightarrow> btm_insert sub \<lparr>pr_key = key, pr_epoch = e, pr_value = v\<rparr> m)"

definition promote ::
  "subscription \<Rightarrow> ('c, 'v) parked_plane \<Rightarrow> ('c, 'v) parked_plane
     \<Rightarrow> ('c, 'v) parked_plane \<times> ('c, 'v) parked_plane" where
  "promote sub from_plane to_plane =
     (case map_of from_plane sub of
        Some p \<Rightarrow> (btm_remove sub from_plane, merge_max sub (pr_key p) (pr_epoch p) (pr_value p) to_plane)
      | None \<Rightarrow> (from_plane, to_plane))"

definition widen_debt ::
  "subscription \<Rightarrow> 'c list list \<Rightarrow> epoch \<Rightarrow> ('c, 'v) parked_plane \<Rightarrow> ('c, 'v) parked_plane" where
  "widen_debt sub keys e m =
     (case map_of m sub of
        None \<Rightarrow> m
      | Some p \<Rightarrow> btm_insert sub
          (p\<lparr>pr_key := foldl widen_to_cover (pr_key p) keys, pr_epoch := max (pr_epoch p) e\<rparr>) m)"

section \<open>Widening\<close>

lemma widen_to_cover_eq: "widen_to_cover parked key = longest_common_prefix parked key"
proof (induction parked arbitrary: key)
  case Nil
  then show ?case by (simp add: widen_to_cover_def)
next
  case (Cons a parked)
  show ?case
  proof (cases key)
    case Nil
    then show ?thesis by (simp add: widen_to_cover_def)
  next
    case (Cons b ks)
    then show ?thesis using Cons.IH [of ks] by (auto simp: widen_to_cover_def Let_def)
  qed
qed

lemma widen_covers: "prefix (widen_to_cover p k) p" "prefix (widen_to_cover p k) k"
  by (simp_all add: widen_to_cover_eq longest_common_prefix_prefix1 longest_common_prefix_prefix2)

lemma widen_least: "prefix q p \<Longrightarrow> prefix q k \<Longrightarrow> prefix q (widen_to_cover p k)"
  by (simp add: widen_to_cover_eq longest_common_prefix_max_prefix)

lemma widen_all_covers:
  "prefix (foldl widen_to_cover p ks) p \<and> (\<forall>k \<in> set ks. prefix (foldl widen_to_cover p ks) k)"
proof (induction ks arbitrary: p)
  case (Cons k ks)
  then show ?case using widen_covers [of p k] Cons [of "widen_to_cover p k"]
    by (auto intro: prefix_order.trans)
qed simp

lemma widen_all_least:
  "prefix q p \<Longrightarrow> \<forall>k \<in> set ks. prefix q k \<Longrightarrow> prefix q (foldl widen_to_cover p ks)"
  by (induction ks arbitrary: p) (auto simp: widen_least)

section \<open>Lookup\<close>

lemma map_of_merge_max:
  "map_of (merge_max sub key e v m) =
     (map_of m)(sub \<mapsto> (case map_of m sub of
        Some p \<Rightarrow> \<lparr>pr_key = widen_to_cover (pr_key p) key, pr_epoch = max (pr_epoch p) e, pr_value = v\<rparr>
      | None \<Rightarrow> \<lparr>pr_key = key, pr_epoch = e, pr_value = v\<rparr>))"
  by (simp add: merge_max_def split: option.splits)

lemma map_of_widen_debt:
  "map_of (widen_debt sub ks e m) x =
     (if x = sub then map_option (\<lambda>p. p\<lparr>pr_key := foldl widen_to_cover (pr_key p) ks, pr_epoch := max (pr_epoch p) e\<rparr>)
        (map_of m sub)
      else map_of m x)"
  by (auto simp: widen_debt_def split: option.splits)

lemma map_of_parked_take [simp]: "map_of (parked_take sub m) = (map_of m)(sub := None)"
  by (simp add: parked_take_def)

lemma btm_ok_merge_max: "btm_ok m \<Longrightarrow> btm_ok (merge_max sub key e v m)"
  by (simp add: merge_max_def btm_ok_insert split: option.splits)

lemma btm_ok_widen_debt: "btm_ok m \<Longrightarrow> btm_ok (widen_debt sub ks e m)"
  by (simp add: widen_debt_def btm_ok_insert split: option.splits)

lemma btm_ok_parked_take: "btm_ok m \<Longrightarrow> btm_ok (parked_take sub m)"
  by (simp add: parked_take_def btm_ok_remove)

lemma promote_snd:
  "map_of (snd (promote sub from_plane to_plane)) x =
     (if x = sub \<and> map_of from_plane sub \<noteq> None
      then (let p = the (map_of from_plane sub) in map_of (merge_max sub (pr_key p) (pr_epoch p) (pr_value p) to_plane) x)
      else map_of to_plane x)"
  by (auto simp: promote_def map_of_merge_max split: option.splits)

lemma promote_fst: "map_of (fst (promote sub from_plane to_plane)) = (map_of from_plane)(sub := None)"
  by (auto simp: promote_def split: option.splits)

lemma first_from_in: "first_from r x m = Some k \<Longrightarrow> k \<in> fst ` set m"
proof -
  assume a: "first_from r x m = Some k"
  let ?P = "\<lambda>k. case r of None \<Rightarrow> True | Some p \<Rightarrow> if x then p < k else p \<le> k"
  show ?thesis
  proof (cases "filter ?P (map fst m)")
    case Nil
    then show ?thesis using a by (cases m) (auto simp: first_from_def)
  next
    case (Cons j js)
    have "j \<in> set (filter ?P (map fst m))" unfolding Cons by simp
    then have "j \<in> set (map fst m)" by (simp only: set_filter mem_Collect_eq)
    moreover have "k = j" using a Cons by (simp add: first_from_def)
    ultimately show ?thesis by simp
  qed
qed

lemma first_from_None_iff: "first_from r x m = None \<longleftrightarrow> m = []"
  by (auto simp: first_from_def split: list.splits)

end
