(* ===== verification/Owner.thy ===== *)
theory Owner
  imports Admission Parked "HOL-Library.Monad_Syntax"
begin

text \<open>
  The owner task of the umbrella driver (\<open>driver/mod.rs\<close>): its state and its synchronous operations,
  from a raw source event to the event channel. Delivery never waits: an event the channel refuses
  becomes a parked rescan, and a subscription with a parked rescan gets nothing else until it is
  delivered. The asynchronous watch path is in \<open>Reconcile\<close>.

  \<^item> The surroundings (channel, clock, source, replies) are the \<open>world\<close>; the radix trees and the clock's
    limits come in the record \<open>site\<close>.
  \<^item> An operation that can reach a failing \<open>expect\<close> returns an option, \<open>None\<close> being the panic.
  \<^item> \<open>ow_answers\<close> logs the replies to sync barriers, in the order they are sent.
  \<^item> The feature \<open>sync\<close> is on. The \<open>Salvage\<close> bundles and their placement are not modelled.
\<close>

section \<open>State\<close>

record ('c, 'h) pending_sync =
  ps_cookie_key :: "'c list"
  ps_sub :: subscription
  ps_root :: 'h
  ps_serial :: u64
  ps_dominated :: bool
  ps_reply :: reply_id

record source_disposals =
  sd_unwound :: bool
  sd_forgotten :: bool

text \<open>The tripwire's window: the handles of the most recent arms, in order, with a set for lookup.\<close>

record 'h observed_handles =
  ob_seen :: "'h set"
  ob_order :: "'h list"

record ('e, 't, 'u, 'c, 'v, 'h) owner =
  ow_world :: 'e
  ow_disposals :: source_disposals
  ow_subsumer :: "('t, 'u, 'c, 'v, 'h) subsumer"
  ow_epochs :: epoch_ledger
  ow_slots :: "'c filter_store"
  ow_filters :: gates
  ow_payload_forgotten :: bool
  ow_needs :: "('c, 'v) parked_plane"
  ow_suppressed :: "('c, 'v) parked_plane"
  ow_unclaimed :: "subscription set"
  ow_cursor :: "subscription option"
  ow_debounce :: "debounce_config option"
  ow_coalescer :: "('c, 'v) coalescer option"
  ow_pending :: "('c, 'h) pending_sync list"
  ow_seq :: u64
  ow_serial :: "subscription \<rightharpoonup> u64"
  ow_gen :: u64
  ow_closing :: bool
  ow_observed :: "'h observed_handles"
  ow_answers :: "(reply_id \<times> (sync_error + sync_outcome)) list"

record ('e, 't, 'u, 'w, 'c, 'v, 'h) site =
  st_world :: "('e, 'c, 'v, 'h) world_ops"
  st_radices :: "('t, 'u, 'w, 'c, 'v, 'h) radices"
  st_clock :: clock

section \<open>Calls of the source\<close>

datatype source_offer = Ran | Skipped | OfferUnwound

text \<open>
  A request is contained: an unwind is noted, and once a payload had to be forgotten no optional
  request is issued any more.
\<close>

definition offer_source ::
  "('e, 't, 'u, 'w, 'c, 'v, 'h) site \<Rightarrow> ('c, 'h) source_call \<Rightarrow> ('e, 't, 'u, 'c, 'v, 'h) owner
     \<Rightarrow> source_offer \<times> ('e, 't, 'u, 'c, 'v, 'h) owner" where
  "offer_source cx c st =
     (if sd_forgotten (ow_disposals st) then (Skipped, st)
      else case wd_call (st_world cx) c (ow_world st) of
          (None, e) \<Rightarrow> (Ran, st\<lparr>ow_world := e\<rparr>)
        | (Some p, e) \<Rightarrow> (OfferUnwound, st\<lparr>ow_world := e,
            ow_disposals := \<lparr>sd_unwound = True, sd_forgotten = is_forgotten p\<rparr>\<rparr>))"

section \<open>Loss accounting and parking\<close>

definition note_loss :: "subscription \<Rightarrow> ('e, 't, 'u, 'c, 'v, 'h) owner \<Rightarrow> ('e, 't, 'u, 'c, 'v, 'h) owner" where
  "note_loss sub st =
     st\<lparr>ow_serial := (ow_serial st)(sub \<mapsto> (case ow_serial st sub of None \<Rightarrow> 0 | Some n \<Rightarrow> n) + 1),
        ow_gen := ow_gen st + 1\<rparr>"

definition note_domination :: "('e, 't, 'u, 'c, 'v, 'h) owner \<Rightarrow> ('e, 't, 'u, 'c, 'v, 'h) owner" where
  "note_domination st = st\<lparr>ow_gen := ow_gen st + 1\<rparr>"

definition has_debt :: "subscription \<Rightarrow> ('e, 't, 'u, 'c, 'v, 'h) owner \<Rightarrow> bool" where
  "has_debt sub st \<longleftrightarrow> parked_contains sub (ow_needs st) \<or> parked_contains sub (ow_suppressed st)"

text \<open>The plane a park goes to is decided by the subscription's claim.\<close>

definition park_in ::
  "subscription \<Rightarrow> 'c list \<Rightarrow> epoch \<Rightarrow> 'v option \<Rightarrow> ('e, 't, 'u, 'c, 'v, 'h) owner
     \<Rightarrow> ('e, 't, 'u, 'c, 'v, 'h) owner" where
  "park_in sub key e v st =
     (if sub \<in> ow_unclaimed st then st\<lparr>ow_suppressed := merge_max sub key e v (ow_suppressed st)\<rparr>
      else st\<lparr>ow_needs := merge_max sub key e v (ow_needs st)\<rparr>)"

definition on_shed :: "subscription \<Rightarrow> ('e, 't, 'u, 'c, 'v, 'h) owner \<Rightarrow> epoch \<times> ('e, 't, 'u, 'c, 'v, 'h) owner" where
  "on_shed sub st = (let (e, l) = shed_rescan sub (ow_epochs st) in (e, st\<lparr>ow_epochs := l\<rparr>))"

definition drop_buffered :: "subscription \<Rightarrow> ('e, 't, 'u, 'c::linorder, 'v, 'h) owner \<Rightarrow> ('e, 't, 'u, 'c, 'v, 'h) owner" where
  "drop_buffered sub st = st\<lparr>ow_coalescer := map_option (drop_subscription sub) (ow_coalescer st)\<rparr>"

definition forget_buffered :: "subscription \<Rightarrow> ('e, 't, 'u, 'c::linorder, 'v, 'h) owner \<Rightarrow> ('e, 't, 'u, 'c, 'v, 'h) owner" where
  "forget_buffered sub st = st\<lparr>ow_coalescer := map_option (forget_subscription sub) (ow_coalescer st)\<rparr>"

definition park_rescan ::
  "('e, 't, 'u, 'w, 'c::linorder, 'v, 'h) site \<Rightarrow> subscription \<Rightarrow> ('e, 't, 'u, 'c, 'v, 'h) owner
     \<Rightarrow> ('e, 't, 'u, 'c, 'v, 'h) owner" where
  "park_rescan cx sub st0 =
     (let st = note_loss sub st0
      in case subscription_key sub (ow_subsumer st) of
           None \<Rightarrow> st
         | Some key \<Rightarrow>
             (let v = subscription_value (st_radices cx) sub (ow_subsumer st);
                  (e, st1) = on_shed sub st
              in drop_buffered sub (park_in sub key e v st1)))"

definition rescan_key_for :: "subscription \<Rightarrow> 'c list \<Rightarrow> ('e, 't, 'u, 'c, 'v, 'h) owner \<Rightarrow> 'c list" where
  "rescan_key_for sub root_key st =
     (case subscription_key sub (ow_subsumer st) of None \<Rightarrow> root_key | Some key \<Rightarrow> key)"

definition widen_parked_debt ::
  "('c, 'v) event \<Rightarrow> ('e, 't, 'u, 'c, 'v, 'h) owner \<Rightarrow> ('e, 't, 'u, 'c, 'v, 'h) owner" where
  "widen_parked_debt ev st0 =
     (let sub = ev_subscription ev;
          (e, st) = on_shed sub (note_loss sub st0);
          keys = ev_key ev # (case event_move_from ev of None \<Rightarrow> [] | Some f \<Rightarrow> [f])
      in st\<lparr>ow_needs := widen_debt sub keys e (ow_needs st),
            ow_suppressed := widen_debt sub keys e (ow_suppressed st)\<rparr>)"

definition park_rescan_event ::
  "('c, 'v) event \<Rightarrow> ('e, 't, 'u, 'c, 'v, 'h) owner \<Rightarrow> ('e, 't, 'u, 'c, 'v, 'h) owner" where
  "park_rescan_event ev st =
     park_in (ev_subscription ev) (ev_key ev) (ev_epoch ev) (ev_value ev) (note_loss (ev_subscription ev) st)"

section \<open>Emission\<close>

definition try_emit ::
  "('e, 't, 'u, 'w, 'c::linorder, 'v, 'h) site \<Rightarrow> ('c, 'v) event \<Rightarrow> ('e, 't, 'u, 'c, 'v, 'h) owner
     \<Rightarrow> ('e, 't, 'u, 'c, 'v, 'h) owner" where
  "try_emit cx ev st =
     (let sub = ev_subscription ev
      in if has_debt sub st then
           (if event_is_rescan ev then park_rescan_event ev st else widen_parked_debt ev st)
         else case wd_try_send (st_world cx) ev (ow_world st) of
             (SendOk, e) \<Rightarrow> st\<lparr>ow_world := e\<rparr>
           | (SendFull, e) \<Rightarrow>
               (if event_is_rescan ev then park_rescan_event ev (st\<lparr>ow_world := e\<rparr>)
                else park_rescan cx sub (st\<lparr>ow_world := e\<rparr>))
           | (SendClosed, e) \<Rightarrow> st\<lparr>ow_world := e\<rparr>)"

definition emit_all ::
  "('e, 't, 'u, 'w, 'c::linorder, 'v, 'h) site \<Rightarrow> ('c, 'v) event list \<Rightarrow> ('e, 't, 'u, 'c, 'v, 'h) owner
     \<Rightarrow> ('e, 't, 'u, 'c, 'v, 'h) owner" where
  "emit_all cx evs st = foldl (\<lambda>st ev. try_emit cx ev st) st evs"

definition read_clock ::
  "('e, 't, 'u, 'w, 'c, 'v, 'h) site \<Rightarrow> ('e, 't, 'u, 'c, 'v, 'h) owner
     \<Rightarrow> instant \<times> ('e, 't, 'u, 'c, 'v, 'h) owner" where
  "read_clock cx st = (let (t, e) = wd_now (st_world cx) (ow_world st) in (t, st\<lparr>ow_world := e\<rparr>))"

text \<open>The admission loop of \<open>push_all\<close>: the subscriptions shed at a cap, in order.\<close>

fun admit_all ::
  "clock \<Rightarrow> instant \<Rightarrow> ('c::linorder, 'v) event list \<Rightarrow> ('c, 'v) coalescer
     \<Rightarrow> (subscription list \<times> ('c, 'v) coalescer) option" where
  "admit_all clk now [] co = Some ([], co)"
| "admit_all clk now (ev # evs) co =
     do { (shed, co1) \<leftarrow> admit clk ev now co;
          (sheds, co2) \<leftarrow> admit_all clk now evs co1;
          Some ((case shed of None \<Rightarrow> sheds | Some s \<Rightarrow> s # sheds), co2) }"

definition park_all ::
  "('e, 't, 'u, 'w, 'c::linorder, 'v, 'h) site \<Rightarrow> subscription list \<Rightarrow> ('e, 't, 'u, 'c, 'v, 'h) owner
     \<Rightarrow> ('e, 't, 'u, 'c, 'v, 'h) owner" where
  "park_all cx subs st = foldl (\<lambda>st sub. park_rescan cx sub st) st subs"

definition push_all ::
  "('e, 't, 'u, 'w, 'c::linorder, 'v, 'h) site \<Rightarrow> ('c, 'v) event list \<Rightarrow> ('e, 't, 'u, 'c, 'v, 'h) owner
     \<Rightarrow> ('e, 't, 'u, 'c, 'v, 'h) owner option" where
  "push_all cx evs st0 =
     (case ow_coalescer st0 of
        None \<Rightarrow> Some (emit_all cx evs st0)
      | Some co \<Rightarrow>
          (let (now, st) = read_clock cx st0
           in do { (sheds, co1) \<leftarrow> admit_all (st_clock cx) now evs co;
                   (ready, co2) \<leftarrow> drain_ready now co1;
                   Some (emit_all cx ready (park_all cx sheds (st\<lparr>ow_coalescer := Some co2\<rparr>))) }))"

definition drain_coalescer_due ::
  "('e, 't, 'u, 'w, 'c::linorder, 'v, 'h) site \<Rightarrow> ('e, 't, 'u, 'c, 'v, 'h) owner
     \<Rightarrow> ('e, 't, 'u, 'c, 'v, 'h) owner option" where
  "drain_coalescer_due cx st0 =
     (case ow_coalescer st0 of
        None \<Rightarrow> Some st0
      | Some co \<Rightarrow>
          (let (now, st) = read_clock cx st0
           in do { (ready, co1) \<leftarrow> drain_ready now co;
                   Some (emit_all cx ready (st\<lparr>ow_coalescer := Some co1\<rparr>)) }))"

section \<open>Offering the parked rescans\<close>

definition parked_event :: "subscription \<Rightarrow> ('c, 'v) parked_rescan \<Rightarrow> ('c, 'v) event" where
  "parked_event sub p = (event_rescan sub (pr_key p) (pr_epoch p))\<lparr>ev_value := pr_value p\<rparr>"

fun flush_loop ::
  "('e, 't, 'u, 'w, 'c::linorder, 'v, 'h) site \<Rightarrow> nat \<Rightarrow> subscription option \<Rightarrow> bool
     \<Rightarrow> ('e, 't, 'u, 'c, 'v, 'h) owner \<Rightarrow> ('e, 't, 'u, 'c, 'v, 'h) owner" where
  "flush_loop cx 0 resume exclusive st = st\<lparr>ow_cursor := None\<rparr>"
| "flush_loop cx (Suc n) resume exclusive st =
     (case first_from resume exclusive (ow_needs st) of
        None \<Rightarrow> st\<lparr>ow_cursor := None\<rparr>
      | Some sub \<Rightarrow>
          (case map_of (ow_needs st) sub of
             None \<Rightarrow> flush_loop cx n (Some sub) True st
           | Some parked \<Rightarrow>
               (case wd_try_send (st_world cx) (parked_event sub parked) (ow_world st) of
                  (SendOk, e) \<Rightarrow>
                    flush_loop cx n (Some sub) True
                      ((note_domination (st\<lparr>ow_world := e\<rparr>))\<lparr>ow_needs := parked_take sub (ow_needs st)\<rparr>)
                | (SendClosed, e) \<Rightarrow>
                    flush_loop cx n (Some sub) True
                      (st\<lparr>ow_world := e, ow_needs := parked_take sub (ow_needs st)\<rparr>)
                | (SendFull, e) \<Rightarrow> st\<lparr>ow_world := e, ow_cursor := Some sub\<rparr>)))"

definition flush_pending_rescans ::
  "('e, 't, 'u, 'w, 'c::linorder, 'v, 'h) site \<Rightarrow> ('e, 't, 'u, 'c, 'v, 'h) owner
     \<Rightarrow> ('e, 't, 'u, 'c, 'v, 'h) owner" where
  "flush_pending_rescans cx st =
     (if wd_is_full (st_world cx) (ow_world st) then st
      else if ow_needs st = [] then st
      else flush_loop cx (length (ow_needs st)) (ow_cursor st) False (st\<lparr>ow_cursor := None\<rparr>))"

definition drain_owed_once ::
  "('e, 't, 'u, 'w, 'c::linorder, 'v, 'h) site \<Rightarrow> ('e, 't, 'u, 'c, 'v, 'h) owner
     \<Rightarrow> ('e, 't, 'u, 'c, 'v, 'h) owner" where
  "drain_owed_once cx st =
     (let (tail, st1) = (case ow_coalescer st of
            None \<Rightarrow> ([], st)
          | Some co \<Rightarrow> (let (evs, co1) = flush_all co in (evs, st\<lparr>ow_coalescer := Some co1\<rparr>)));
          kept = filter (\<lambda>ev. \<not> has_debt (ev_subscription ev) st1) tail
      in emit_all cx kept (flush_pending_rescans cx st1))"

section \<open>Sync barriers\<close>

definition answer ::
  "reply_id \<Rightarrow> sync_error + sync_outcome \<Rightarrow> ('e, 't, 'u, 'c, 'v, 'h) owner \<Rightarrow> ('e, 't, 'u, 'c, 'v, 'h) owner" where
  "answer r a st = st\<lparr>ow_answers := ow_answers st @ [(r, a)]\<rparr>"

text \<open>
  The \<open>swap_remove\<close> scans: the last entry moves into the vacated place and is examined next. The
  entries taken, in the order they are taken, and the rest.
\<close>

function swap_drain :: "('a \<Rightarrow> bool) \<Rightarrow> 'a list \<Rightarrow> 'a list \<times> 'a list" where
  "swap_drain P [] = ([], [])"
| "swap_drain P (x # xs) =
     (if P x then (let (taken, kept) = swap_drain P (if xs = [] then [] else last xs # butlast xs)
                   in (x # taken, kept))
      else (let (taken, kept) = swap_drain P xs in (taken, x # kept)))"
  by pat_completeness auto
termination
  by (relation "measure (\<lambda>(P, xs). length xs)") auto

definition names :: "('c, 'h) pending_sync \<Rightarrow> 'c list \<Rightarrow> bool" where
  "names p loc \<longleftrightarrow> ps_cookie_key p \<noteq> [] \<and> loc \<noteq> [] \<and> last (ps_cookie_key p) = last loc"

definition reap_cookie ::
  "('e, 't, 'u, 'w, 'c, 'v, 'h) site \<Rightarrow> 'h \<Rightarrow> 'c list \<Rightarrow> ('e, 't, 'u, 'c, 'v, 'h) owner
     \<Rightarrow> ('e, 't, 'u, 'c, 'v, 'h) owner" where
  "reap_cookie cx root key st = snd (offer_source cx (EndSync root key) st)"

text \<open>Taking every matching barrier out and finishing each: the loops share this shape.\<close>

definition finish_syncs ::
  "(('c, 'h) pending_sync \<Rightarrow> bool)
     \<Rightarrow> (('c, 'h) pending_sync \<Rightarrow> ('e, 't, 'u, 'c, 'v, 'h) owner \<Rightarrow> ('e, 't, 'u, 'c, 'v, 'h) owner)
     \<Rightarrow> ('e, 't, 'u, 'c, 'v, 'h) owner \<Rightarrow> ('e, 't, 'u, 'c, 'v, 'h) owner" where
  "finish_syncs P f st =
     (let (taken, kept) = swap_drain P (ow_pending st)
      in foldl (\<lambda>st p. f p st) (st\<lparr>ow_pending := kept\<rparr>) taken)"

definition dominate_syncs_of_root ::
  "('e, 't, 'u, 'w, 'c, 'v, 'h) site \<Rightarrow> 'h \<Rightarrow> ('e, 't, 'u, 'c, 'v, 'h) owner
     \<Rightarrow> ('e, 't, 'u, 'c, 'v, 'h) owner" where
  "dominate_syncs_of_root cx root st =
     finish_syncs (\<lambda>p. ps_root p = root)
       (\<lambda>p st. reap_cookie cx (ps_root p) (ps_cookie_key p) (answer (ps_reply p) (Inr Dominated) st))
       (note_domination st)"

definition dominate_syncs_of_subscription ::
  "('e, 't, 'u, 'w, 'c, 'v, 'h) site \<Rightarrow> subscription \<Rightarrow> ('e, 't, 'u, 'c, 'v, 'h) owner
     \<Rightarrow> ('e, 't, 'u, 'c, 'v, 'h) owner" where
  "dominate_syncs_of_subscription cx sub st =
     finish_syncs (\<lambda>p. ps_sub p = sub)
       (\<lambda>p st. reap_cookie cx (ps_root p) (ps_cookie_key p) (answer (ps_reply p) (Inr Dominated) st))
       (note_domination st)"

definition retire_syncs_of_subscription ::
  "('e, 't, 'u, 'w, 'c, 'v, 'h) site \<Rightarrow> subscription \<Rightarrow> ('e, 't, 'u, 'c, 'v, 'h) owner
     \<Rightarrow> ('e, 't, 'u, 'c, 'v, 'h) owner" where
  "retire_syncs_of_subscription cx sub st =
     finish_syncs (\<lambda>p. ps_sub p = sub)
       (\<lambda>p st. reap_cookie cx (ps_root p) (ps_cookie_key p) (answer (ps_reply p) (Inl SeRetired) st)) st"

text \<open>Whether a caller has gone is asked anew at each entry, after the reaps before it.\<close>

function prune_loop ::
  "('e, 't, 'u, 'w, 'c, 'v, 'h) site \<Rightarrow> ('c, 'h) pending_sync list \<Rightarrow> ('e, 't, 'u, 'c, 'v, 'h) owner
     \<Rightarrow> ('c, 'h) pending_sync list \<times> ('e, 't, 'u, 'c, 'v, 'h) owner" where
  "prune_loop cx [] st = ([], st)"
| "prune_loop cx (p # ps) st =
     (if wd_canceled (st_world cx) (ow_world st) (ps_reply p)
      then prune_loop cx (if ps = [] then [] else last ps # butlast ps)
             (reap_cookie cx (ps_root p) (ps_cookie_key p) st)
      else (let (kept, st1) = prune_loop cx ps st in (p # kept, st1)))"
  by pat_completeness auto
termination
  by (relation "measure (\<lambda>(cx, ps, st). length ps)") auto

definition prune_abandoned_syncs ::
  "('e, 't, 'u, 'w, 'c, 'v, 'h) site \<Rightarrow> ('e, 't, 'u, 'c, 'v, 'h) owner \<Rightarrow> ('e, 't, 'u, 'c, 'v, 'h) owner" where
  "prune_abandoned_syncs cx st =
     (let (kept, st1) = prune_loop cx (ow_pending st) st in st1\<lparr>ow_pending := kept\<rparr>)"

definition reap_all_pending_syncs ::
  "('e, 't, 'u, 'w, 'c, 'v, 'h) site \<Rightarrow> ('e, 't, 'u, 'c, 'v, 'h) owner \<Rightarrow> ('e, 't, 'u, 'c, 'v, 'h) owner" where
  "reap_all_pending_syncs cx st =
     foldl (\<lambda>st p. reap_cookie cx (ps_root p) (ps_cookie_key p) st) (st\<lparr>ow_pending := []\<rparr>) (ow_pending st)"

text \<open>\<open>flush_subscription_now\<close> answers whether the delivery was clean.\<close>

definition flush_subscription_now ::
  "('e, 't, 'u, 'w, 'c::linorder, 'v, 'h) site \<Rightarrow> subscription \<Rightarrow> ('e, 't, 'u, 'c, 'v, 'h) owner
     \<Rightarrow> (bool \<times> ('e, 't, 'u, 'c, 'v, 'h) owner) option" where
  "flush_subscription_now cx sub st0 =
     (let (now, st) = read_clock cx st0
      in do { st1 \<leftarrow> (case ow_coalescer st of
                None \<Rightarrow> Some st
              | Some co \<Rightarrow>
                  do { co1 \<leftarrow> flush_subscription sub now co;
                       (due, co2) \<leftarrow> drain_ready now co1;
                       Some (emit_all cx due (st\<lparr>ow_coalescer := Some co2\<rparr>)) });
              Some (\<not> parked_contains sub (ow_needs st1), st1) })"

definition serial_of :: "subscription \<Rightarrow> ('e, 't, 'u, 'c, 'v, 'h) owner \<Rightarrow> u64" where
  "serial_of sub st = (case ow_serial st sub of None \<Rightarrow> 0 | Some n \<Rightarrow> n)"

definition admit_begun_cookie ::
  "('e, 't, 'u, 'w, 'c, 'v, 'h) site \<Rightarrow> 'c list \<Rightarrow> subscription \<Rightarrow> 'h \<Rightarrow> u64 \<Rightarrow> reply_id
     \<Rightarrow> ('e, 't, 'u, 'c, 'v, 'h) owner \<Rightarrow> ('e, 't, 'u, 'c, 'v, 'h) owner" where
  "admit_begun_cookie cx cookie_key sub root gen_at_call r st =
     (if wd_canceled (st_world cx) (ow_world st) r then reap_cookie cx root cookie_key st
      else st\<lparr>ow_pending := ow_pending st @
        [\<lparr>ps_cookie_key = cookie_key, ps_sub = sub, ps_root = root, ps_serial = serial_of sub st,
          ps_dominated = (has_debt sub st \<or> ow_gen st \<noteq> gen_at_call), ps_reply = r\<rparr>]\<rparr>)"

text \<open>One matched barrier: the cookie is reaped before the flush, the outcome read after it.\<close>

definition resolve_one ::
  "('e, 't, 'u, 'w, 'c::linorder, 'v, 'h) site \<Rightarrow> ('c, 'h) pending_sync \<Rightarrow> ('e, 't, 'u, 'c, 'v, 'h) owner
     \<Rightarrow> ('e, 't, 'u, 'c, 'v, 'h) owner option" where
  "resolve_one cx p st =
     (let lost = serial_of (ps_sub p) st \<noteq> ps_serial p
      in do { (clean, st1) \<leftarrow> flush_subscription_now cx (ps_sub p) (reap_cookie cx (ps_root p) (ps_cookie_key p) st);
              Some (answer (ps_reply p)
                (Inr (if clean \<and> \<not> lost \<and> \<not> ps_dominated p then Delivered else Dominated)) st1) })"

fun resolve_each ::
  "('e, 't, 'u, 'w, 'c::linorder, 'v, 'h) site \<Rightarrow> ('c, 'h) pending_sync list \<Rightarrow> ('e, 't, 'u, 'c, 'v, 'h) owner
     \<Rightarrow> ('e, 't, 'u, 'c, 'v, 'h) owner option" where
  "resolve_each cx [] st = Some st"
| "resolve_each cx (p # ps) st = do { st1 \<leftarrow> resolve_one cx p st; resolve_each cx ps st1 }"

definition resolve_matching_pending_sync ::
  "('e, 't, 'u, 'w, 'c::linorder, 'v, 'h) site \<Rightarrow> ('c, 'h) source_event \<Rightarrow> reserved_endpoints
     \<Rightarrow> ('e, 't, 'u, 'c, 'v, 'h) owner \<Rightarrow> ('e, 't, 'u, 'c, 'v, 'h) owner option" where
  "resolve_matching_pending_sync cx ev reserved st =
     (let matched = (\<lambda>p. ps_root p = se_handle ev \<and>
            (masks_destination reserved \<and> names p (se_key ev) \<or>
             masks_source reserved \<and>
               (case kind_moved_from (se_kind ev) of None \<Rightarrow> False | Some f \<Rightarrow> names p f)));
          (taken, kept) = swap_drain matched (ow_pending st)
      in resolve_each cx taken (st\<lparr>ow_pending := kept\<rparr>))"

definition rescan_affects :: "subscription \<Rightarrow> 'c list \<Rightarrow> ('e, 't, 'u, 'c, 'v, 'h) owner \<Rightarrow> bool" where
  "rescan_affects sub at st =
     (case subscription_key sub (ow_subsumer st) of
        None \<Rightarrow> True | Some key \<Rightarrow> starts_with at key \<or> starts_with key at)"

definition dominate_one ::
  "('e, 't, 'u, 'w, 'c::linorder, 'v, 'h) site \<Rightarrow> ('c, 'h) pending_sync \<Rightarrow> ('e, 't, 'u, 'c, 'v, 'h) owner
     \<Rightarrow> ('e, 't, 'u, 'c, 'v, 'h) owner option" where
  "dominate_one cx p st =
     do { (_, st1) \<leftarrow> flush_subscription_now cx (ps_sub p) (reap_cookie cx (ps_root p) (ps_cookie_key p) st);
          Some (answer (ps_reply p) (Inr Dominated) st1) }"

fun dominate_each ::
  "('e, 't, 'u, 'w, 'c::linorder, 'v, 'h) site \<Rightarrow> ('c, 'h) pending_sync list \<Rightarrow> ('e, 't, 'u, 'c, 'v, 'h) owner
     \<Rightarrow> ('e, 't, 'u, 'c, 'v, 'h) owner option" where
  "dominate_each cx [] st = Some st"
| "dominate_each cx (p # ps) st = do { st1 \<leftarrow> dominate_one cx p st; dominate_each cx ps st1 }"

definition dominate_pending_syncs ::
  "('e, 't, 'u, 'w, 'c::linorder, 'v, 'h) site \<Rightarrow> ('c, 'h) source_event \<Rightarrow> ('e, 't, 'u, 'c, 'v, 'h) owner
     \<Rightarrow> ('e, 't, 'u, 'c, 'v, 'h) owner option" where
  "dominate_pending_syncs cx ev st0 =
     (let st = note_domination st0;
          (taken, kept) = swap_drain
            (\<lambda>p. ps_root p = se_handle ev \<and> rescan_affects (ps_sub p) (se_key ev) st) (ow_pending st)
      in dominate_each cx taken (st\<lparr>ow_pending := kept\<rparr>))"

section \<open>Roots and subscriptions that end\<close>

definition rescan_sub ::
  "('e, 't, 'u, 'w, 'c::linorder, 'v, 'h) site \<Rightarrow> 'c list \<Rightarrow> subscription \<Rightarrow> ('e, 't, 'u, 'c, 'v, 'h) owner
     \<Rightarrow> ('e, 't, 'u, 'c, 'v, 'h) owner" where
  "rescan_sub cx root_key sub st0 =
     (let st = note_loss sub st0;
          v = subscription_value (st_radices cx) sub (ow_subsumer st);
          (e, st1) = on_shed sub st
      in drop_buffered sub (park_in sub (rescan_key_for sub root_key st1) e v st1))"

definition rescan_live_root ::
  "('e, 't, 'u, 'w, 'c::linorder, 'v, 'h) site \<Rightarrow> 'h \<Rightarrow> ('e, 't, 'u, 'c, 'v, 'h) owner
     \<Rightarrow> ('e, 't, 'u, 'c, 'v, 'h) owner" where
  "rescan_live_root cx root st =
     (case root_view (st_radices cx) root (ow_subsumer st) of
        None \<Rightarrow> st
      | Some (root_key, subscribers) \<Rightarrow>
          dominate_syncs_of_root cx root (foldl (\<lambda>st sub. rescan_sub cx root_key sub st) st subscribers))"

definition retire_sub_state ::
  "subscription \<Rightarrow> ('e, 't, 'u, 'c, 'v, 'h) owner \<Rightarrow> ('e, 't, 'u, 'c, 'v, 'h) owner" where
  "retire_sub_state sub st =
     st\<lparr>ow_filters := gates_take sub (ow_filters st), ow_epochs := ledger_remove sub (ow_epochs st),
        ow_serial := (ow_serial st)(sub := None)\<rparr>"

definition retire_root_with_terminal_rescan ::
  "('e, 't, 'u, 'w, 'c::linorder, 'v, 'h) site \<Rightarrow> 'h \<Rightarrow> ('e, 't, 'u, 'c, 'v, 'h) owner
     \<Rightarrow> ('e, 't, 'u, 'c, 'v, 'h) owner option" where
  "retire_root_with_terminal_rescan cx h st0 =
     (let st = rescan_live_root cx h st0
      in do { (subscribers, sm) \<leftarrow> force_remove_root (st_radices cx) h (ow_subsumer st);
              Some (foldl (\<lambda>st sub. retire_sub_state sub (forget_buffered sub st))
                (st\<lparr>ow_subsumer := sm\<rparr>) subscribers) })"

text \<open>The release primitive behind \<open>unwatch\<close>, a bounced grant and a dropped one.\<close>

definition release_subscription ::
  "('e, 't, 'u, 'w, 'c::linorder, 'v, 'h) site \<Rightarrow> subscription \<Rightarrow> ('e, 't, 'u, 'c, 'v, 'h) owner
     \<Rightarrow> ((unwatch_error + unit) \<times> ('e, 't, 'u, 'c, 'v, 'h) owner) option" where
  "release_subscription cx sub st0 =
     (let st1 = retire_syncs_of_subscription cx sub st0
      in if sub_instance sub \<noteq> sm_instance (ow_subsumer st1) then Some (Inl UnUnknownSubscription, st1)
         else
           (let st2 = retire_sub_state sub st1;
                st3 = forget_buffered sub (st2\<lparr>
                  ow_needs := parked_take sub (ow_needs st2),
                  ow_suppressed := parked_take sub (ow_suppressed st2),
                  ow_unclaimed := ow_unclaimed st2 - {sub}\<rparr>)
            in do { (outcome, sm) \<leftarrow> plan_unwatch (st_radices cx) sub (ow_subsumer st3);
                    let st4 = st3\<lparr>ow_subsumer := sm\<rparr>;
                    Some (case outcome of
                        None \<Rightarrow> (Inl UnUnknownSubscription, st4)
                      | Some (RootEmptied h) \<Rightarrow> (Inr (), snd (offer_source cx (Disarm h) st4))
                      | Some (Dropped (Some (h, retained))) \<Rightarrow>
                          (let (offer, st5) = offer_source cx (SetCover h retained) st4;
                               recorded = (case offer of Ran \<Rightarrow> retained | _ \<Rightarrow> [])
                           in (Inr (), st5\<lparr>ow_subsumer :=
                                set_retained_cover (st_radices cx) h (Some recorded) (ow_subsumer st5)\<rparr>))
                      | Some (Dropped None) \<Rightarrow> (Inr (), st4)) }))"

datatype cleanup = Claim subscription | DropOrphan subscription

fun apply_cleanup ::
  "('e, 't, 'u, 'w, 'c::linorder, 'v, 'h) site \<Rightarrow> cleanup \<Rightarrow> ('e, 't, 'u, 'c, 'v, 'h) owner
     \<Rightarrow> ('e, 't, 'u, 'c, 'v, 'h) owner option" where
  "apply_cleanup cx (Claim sub) st =
     (let (s, n) = promote sub (ow_suppressed st) (ow_needs st)
      in Some (st\<lparr>ow_unclaimed := ow_unclaimed st - {sub}, ow_suppressed := s, ow_needs := n\<rparr>))"
| "apply_cleanup cx (DropOrphan sub) st = map_option snd (release_subscription cx sub st)"

fun drain_pending_cleanup ::
  "('e, 't, 'u, 'w, 'c::linorder, 'v, 'h) site \<Rightarrow> cleanup list \<Rightarrow> ('e, 't, 'u, 'c, 'v, 'h) owner
     \<Rightarrow> ('e, 't, 'u, 'c, 'v, 'h) owner option" where
  "drain_pending_cleanup cx [] st = Some st"
| "drain_pending_cleanup cx (c # cs) st =
     do { st1 \<leftarrow> apply_cleanup cx c st; drain_pending_cleanup cx cs st1 }"

section \<open>Consuming a source event\<close>

definition reserved_endpoints_of ::
  "('e, 't, 'u, 'w, 'c, 'v, 'h) site \<Rightarrow> ('c, 'h) source_event \<Rightarrow> ('e, 't, 'u, 'c, 'v, 'h) owner
     \<Rightarrow> reserved_endpoints" where
  "reserved_endpoints_of cx raw st =
     (if kind_is_rescan (se_kind raw) then NoEndpoint
      else
        (let destination = wd_is_artifact (st_world cx) (ow_world st) (se_key raw)
         in case kind_moved_from (se_kind raw) of
              None \<Rightarrow> (if destination then AllEndpoints else NoEndpoint)
            | Some f \<Rightarrow>
                (case (wd_is_artifact (st_world cx) (ow_world st) f, destination) of
                   (True, True) \<Rightarrow> AllEndpoints
                 | (True, False) \<Rightarrow> SourceEndpoint
                 | (False, True) \<Rightarrow> DestinationEndpoint
                 | (False, False) \<Rightarrow> NoEndpoint)))"

definition fan_out_raw ::
  "('e, 't, 'u, 'w, 'c, 'v, 'h) site \<Rightarrow> ('c, 'h) source_event \<Rightarrow> reserved_endpoints
     \<Rightarrow> ('e, 't, 'u, 'c, 'v, 'h) owner
     \<Rightarrow> (('c, 'v) event list \<times> subscription list \<times> ('e, 't, 'u, 'c, 'v, 'h) owner) option" where
  "fan_out_raw cx raw reserved st =
     (let sm = ow_subsumer st
      in case root_view (st_radices cx) (se_handle raw) sm of
           None \<Rightarrow> Some ([], [], st)
         | Some (_, subscribers) \<Rightarrow>
             do { (events, (forgotten, poisoned), l) \<leftarrow>
                    stamp_and_fan_out_with source_routable_ops \<lparr>sr_event = raw, sr_reserved = reserved\<rparr>
                      (se_epoch raw) subscribers (\<lambda>s. subscription_key s sm)
                      (gate_admits (\<lambda>s. subscription_interest s sm) (ow_filters st) (ow_slots st))
                      ev_subscription
                      (\<lambda>ev e. ev\<lparr>ev_epoch := e,
                         ev_value := subscription_value (st_radices cx) (ev_subscription ev) sm\<rparr>)
                      (ow_payload_forgotten st, []) (ow_epochs st);
                  Some (events, poisoned, st\<lparr>ow_epochs := l, ow_payload_forgotten := forgotten\<rparr>) })"

fun quarantine_filters ::
  "('e, 't, 'u, 'w, 'c::linorder, 'v, 'h) site \<Rightarrow> subscription list \<Rightarrow> ('e, 't, 'u, 'c, 'v, 'h) owner
     \<Rightarrow> ('e, 't, 'u, 'c, 'v, 'h) owner" where
  "quarantine_filters cx [] st = st"
| "quarantine_filters cx (sub # subs) st =
     (let (gated, g) = gates_quarantine sub (ow_filters st); st1 = st\<lparr>ow_filters := g\<rparr>
      in if \<not> gated then quarantine_filters cx subs st1
         else case subscription_key sub (ow_subsumer st1) of
             None \<Rightarrow> quarantine_filters cx subs st1
           | Some key \<Rightarrow>
               (let st2 = note_loss sub (drop_buffered sub st1);
                    v = subscription_value (st_radices cx) sub (ow_subsumer st2);
                    (e, st3) = on_shed sub st2
                in quarantine_filters cx subs
                     (dominate_syncs_of_subscription cx sub (park_in sub key e v st3))))"

definition fan_out_and_push ::
  "('e, 't, 'u, 'w, 'c::linorder, 'v, 'h) site \<Rightarrow> ('c, 'h) source_event \<Rightarrow> ('e, 't, 'u, 'c, 'v, 'h) owner
     \<Rightarrow> (reserved_endpoints \<times> ('e, 't, 'u, 'c, 'v, 'h) owner) option" where
  "fan_out_and_push cx raw st =
     (let reserved = reserved_endpoints_of cx raw st
      in if reserved_is_total reserved then Some (reserved, st)
         else do { (fanned, poisoned, st1) \<leftarrow> fan_out_raw cx raw reserved st;
                   if poisoned = [] then map_option (Pair reserved) (push_all cx fanned st1)
                   else
                     (let st2 = quarantine_filters cx poisoned st1;
                          behind = filter (\<lambda>ev. ev_subscription ev \<in> set poisoned) fanned;
                          rest = filter (\<lambda>ev. ev_subscription ev \<notin> set poisoned) fanned
                      in map_option (Pair reserved) (push_all cx rest (emit_all cx behind st2))) })"

definition degrade_retained_cover_on_rescan ::
  "('e, 't, 'u, 'w, 'c, 'v, 'h) site \<Rightarrow> ('c, 'h) source_event \<Rightarrow> ('e, 't, 'u, 'c, 'v, 'h) owner
     \<Rightarrow> ('e, 't, 'u, 'c, 'v, 'h) owner" where
  "degrade_retained_cover_on_rescan cx raw st =
     (if kind_is_rescan (se_kind raw)
      then st\<lparr>ow_subsumer := degrade_retained_cover (st_radices cx) (se_handle raw) (ow_subsumer st)\<rparr>
      else st)"

definition clamp_disjoint_live_root_rescan ::
  "('e, 't, 'u, 'w, 'c, 'v, 'h) site \<Rightarrow> ('c, 'h) source_event \<Rightarrow> ('e, 't, 'u, 'c, 'v, 'h) owner
     \<Rightarrow> ('c, 'h) source_event option" where
  "clamp_disjoint_live_root_rescan cx ev st =
     (if \<not> kind_is_rescan (se_kind ev) then None
      else case wd_root_key (st_world cx) (ow_world st) (se_handle ev) of
          None \<Rightarrow> None
        | Some root_key \<Rightarrow>
            if starts_with (se_key ev) root_key \<or> starts_with root_key (se_key ev) then None
            else Some (rekeyed_at_root ev root_key))"

definition retire_if_dead ::
  "('e, 't, 'u, 'w, 'c::linorder, 'v, 'h) site \<Rightarrow> ('c, 'h) source_event \<Rightarrow> ('e, 't, 'u, 'c, 'v, 'h) owner
     \<Rightarrow> (bool \<times> ('e, 't, 'u, 'c, 'v, 'h) owner) option" where
  "retire_if_dead cx raw st =
     (if wd_root_key (st_world cx) (ow_world st) (se_handle raw) \<noteq> None then Some (False, st)
      else map_option (Pair True) (retire_root_with_terminal_rescan cx (se_handle raw) st))"

definition consume_source_event ::
  "('e, 't, 'u, 'w, 'c::linorder, 'v, 'h) site \<Rightarrow> ('c, 'h) source_event \<Rightarrow> ('e, 't, 'u, 'c, 'v, 'h) owner
     \<Rightarrow> ('e, 't, 'u, 'c, 'v, 'h) owner option" where
  "consume_source_event cx event0 st =
     do { (dead, st1) \<leftarrow> retire_if_dead cx event0 st;
          if dead then drain_coalescer_due cx st1
          else
            (let event = (case clamp_disjoint_live_root_rescan cx event0 st1 of None \<Rightarrow> event0 | Some e \<Rightarrow> e);
                 st2 = degrade_retained_cover_on_rescan cx event st1
             in do { (reserved, st3) \<leftarrow> fan_out_and_push cx event st2;
                     st4 \<leftarrow> drain_coalescer_due cx st3;
                     if kind_is_rescan (se_kind event) then dominate_pending_syncs cx event st4
                     else if reserved_any reserved
                     then resolve_matching_pending_sync cx event reserved st4
                     else Some st4 }) }"

end
