(* ===== verification/Coalescer_Flow.thy ===== *)
theory Coalescer_Flow
  imports Coalescer_Settle
begin

text \<open>
  The coalescer as its client, the driver, sees it: what each call does to the multiset of events held
  and to the queue of events that leave at once. The driver keeps that queue empty between its own
  operations (\<open>at_rest\<close>): whatever it admits or flushes at an instant it drains at the same instant.
\<close>

definition slots :: "('c, 'v) coalescer \<Rightarrow> ('c, 'v) event multiset" where
  "slots co = mset (map (\<lambda>e. bf_event (snd e)) (co_buffer co))"

definition at_rest :: "('c::linorder, 'v) coalescer \<Rightarrow> bool" where
  "at_rest co \<longleftrightarrow> co_inv co \<and> co_ready co = []"

definition queued_by :: "instant \<Rightarrow> ('c, 'v) coalescer \<Rightarrow> bool" where
  "queued_by now co \<longleftrightarrow> (\<forall>r \<in> set (co_ready co). fst r \<le> now)"

definition same_path :: "('c, 'v) event \<Rightarrow> ('c, 'v) event \<Rightarrow> bool" where
  "same_path x y \<longleftrightarrow> ev_subscription x = ev_subscription y \<and> ev_key x = ev_key y \<and>
     is_lifecycle (ev_kind x) \<and> is_lifecycle (ev_kind y)"

text \<open>What is left of a buffered event and a later one of the same path.\<close>

definition collapsed :: "('c, 'v) event \<Rightarrow> ('c, 'v) event \<Rightarrow> ('c, 'v) event option" where
  "collapsed x y =
     (if collapse_kinds (ev_kind x) (ev_kind y) = Annihilate then None
      else Some (collapsed_event (collapse_kinds (ev_kind x) (ev_kind y)) x y))"

lemma held_slots: "held co = mset (map snd (co_ready co)) + slots co"
  by (simp add: held_def slots_def)

lemma slots_lifecycle: "co_inv co \<Longrightarrow> x \<in># slots co \<Longrightarrow> is_lifecycle (ev_kind x)"
  by (auto simp: slots_def co_inv_def filed_ok_def)

lemma collapsed_props:
  assumes "collapsed x y = Some z" and "same_path x y"
  shows "same_path x z" and "ev_epoch z = ev_epoch y"
  using assms
  by (auto simp: collapsed_def same_path_def collapsed_event_def synthetic_def is_lifecycle_def
      split: collapse.splits if_splits event_kind.splits)

section \<open>Removal\<close>

lemma mset_map_filter: "mset (map f (filter (\<lambda>e. Q (f e)) xs)) = filter_mset Q (mset (map f xs))"
  by (induction xs) auto

lemma slots_filter: "co_buffer co' = filter (\<lambda>e. P (fst e)) (co_buffer co) \<Longrightarrow>
    (\<And>k b. (k, b) \<in> set (co_buffer co) \<Longrightarrow> P k \<longleftrightarrow> Q (bf_event b)) \<Longrightarrow>
    slots co' = filter_mset Q (slots co)"
proof -
  assume a: "co_buffer co' = filter (\<lambda>e. P (fst e)) (co_buffer co)"
    and q: "\<And>k b. (k, b) \<in> set (co_buffer co) \<Longrightarrow> P k \<longleftrightarrow> Q (bf_event b)"
  have "filter (\<lambda>e. P (fst e)) (co_buffer co) = filter (\<lambda>e. Q (bf_event (snd e))) (co_buffer co)"
    by (rule filter_cong [OF refl]) (metis prod.collapse q)
  then show ?thesis
    unfolding slots_def a using mset_map_filter [of "\<lambda>e. bf_event (snd e)" Q "co_buffer co"] by simp
qed

lemma filed_subscription: "co_inv co \<Longrightarrow> (k, b) \<in> set (co_buffer co) \<Longrightarrow>
    k = (ev_subscription (bf_event b), ev_key (bf_event b))"
  by (auto simp: co_inv_def filed_ok_def)

lemma slots_sub_gone:
  assumes "co_inv co"
  shows "slots (sub_gone s co) = filter_mset (\<lambda>x. ev_subscription x \<noteq> s) (slots co)"
proof (rule slots_filter)
  show "co_buffer (sub_gone s co) = filter (\<lambda>e. fst (fst e) \<noteq> s) (co_buffer co)"
    by (simp add: sub_gone_def buffer_without_sub)
next
  fix k b assume "(k, b) \<in> set (co_buffer co)"
  from filed_subscription [OF assms this] show "fst k \<noteq> s \<longleftrightarrow> ev_subscription (bf_event b) \<noteq> s" by simp
qed

lemma mset_flushed:
  assumes "co_inv co"
  shows "mset (flushed_events s co) = filter_mset (\<lambda>x. ev_subscription x = s) (slots co)"
proof -
  have ok: "index_ok co" using assms by (simp add: co_inv_def)
  note fk = flushed_keys_props [OF ok, of s]
  have sub: "set (flushed_keys s co) \<subseteq> fst ` set (co_buffer co)"
    unfolding fk(2) by (auto simp: sub_keys_def)
  have "mset (flushed_events s co) = image_mset bf_event (mset (map (slot co) (flushed_keys s co)))"
    by (simp add: flushed_events_def slot_def image_mset.compositionality comp_def)
  also have "\<dots> = image_mset bf_event (mset (map snd (filter (\<lambda>e. fst e \<in> sub_keys s co) (co_buffer co))))"
    unfolding mset_slots_of_keys [OF ok fk(1) sub] fk(2) ..
  also have "filter (\<lambda>e. fst e \<in> sub_keys s co) (co_buffer co) =
      filter (\<lambda>e. ev_subscription (bf_event (snd e)) = s) (co_buffer co)"
  proof (rule filter_cong [OF refl])
    fix e assume e: "e \<in> set (co_buffer co)"
    then have "fst (fst e) = ev_subscription (bf_event (snd e))"
      using filed_subscription [OF assms, of "fst e" "snd e"] by (simp add: prod_eq_iff)
    moreover have "fst e \<in> fst ` set (co_buffer co)" using e by simp
    ultimately show "fst e \<in> sub_keys s co \<longleftrightarrow> ev_subscription (bf_event (snd e)) = s"
      by (simp add: sub_keys_def)
  qed
  also have "image_mset bf_event (mset (map snd (filter (\<lambda>e. ev_subscription (bf_event (snd e)) = s) (co_buffer co)))) =
      mset (map (\<lambda>e. bf_event (snd e)) (filter (\<lambda>e. ev_subscription (bf_event (snd e)) = s) (co_buffer co)))"
    by (simp add: image_mset.compositionality comp_def)
  finally show ?thesis unfolding slots_def mset_map_filter [of "\<lambda>e. bf_event (snd e)" "\<lambda>x. ev_subscription x = s"] .
qed

lemma drop_flow:
  assumes "at_rest co"
  shows "at_rest (drop_subscription s co)"
    and "slots (drop_subscription s co) = filter_mset (\<lambda>x. ev_subscription x \<noteq> s) (slots co)"
proof -
  have inv: "co_inv co" and r: "co_ready co = []" using assms by (simp_all add: at_rest_def)
  have eq: "drop_subscription s co = sub_gone s co\<lparr>co_ready := []\<rparr>"
    by (simp add: drop_subscription_eq [OF inv] r)
  show "at_rest (drop_subscription s co)"
    using co_inv_sub_gone [OF inv] by (simp add: eq at_rest_def)
  have "slots (drop_subscription s co) = slots (sub_gone s co)" by (simp add: eq slots_def)
  then show "slots (drop_subscription s co) = filter_mset (\<lambda>x. ev_subscription x \<noteq> s) (slots co)"
    by (simp add: slots_sub_gone [OF inv])
qed

lemma forget_flow:
  assumes "at_rest co"
  shows "at_rest (forget_subscription s co)"
    and "slots (forget_subscription s co) = filter_mset (\<lambda>x. ev_subscription x \<noteq> s) (slots co)"
proof -
  have eq: "forget_subscription s co =
      drop_subscription s co\<lparr>co_policies := (co_policies (drop_subscription s co))(s := None)\<rparr>"
    by (simp add: forget_subscription_def Let_def)
  show "at_rest (forget_subscription s co)"
    using drop_flow(1) [OF assms] by (simp add: eq at_rest_def)
  show "slots (forget_subscription s co) = filter_mset (\<lambda>x. ev_subscription x \<noteq> s) (slots co)"
    using drop_flow(2) [OF assms, of s] by (simp add: eq slots_def)
qed

lemma flush_flow:
  assumes "co_inv co"
  obtains co' fl where "flush_subscription s now co = Some co'" "co_inv co'"
    "co_ready co' = co_ready co @ map (Pair now) fl"
    "slots co' = filter_mset (\<lambda>x. ev_subscription x \<noteq> s) (slots co)"
    "mset fl = filter_mset (\<lambda>x. ev_subscription x = s) (slots co)"
proof -
  let ?co = "sub_gone s co\<lparr>co_ready := co_ready co @ map (Pair now) (flushed_events s co)\<rparr>"
  have "slots ?co = slots (sub_gone s co)" by (simp add: slots_def)
  then show thesis
    using that [of ?co "flushed_events s co"] co_inv_sub_gone [OF assms, of s]
    by (simp add: flush_subscription_eq [OF assms] slots_sub_gone [OF assms] mset_flushed [OF assms])
qed

section \<open>Draining\<close>

lemma drain_flow:
  assumes "co_inv co" and "queued_by now co"
  obtains co' due where "drain_ready now co = Some (map snd (co_ready co) @ due, co')" "at_rest co'"
    "slots co = mset due + slots co'"
proof -
  have ok: "index_ok co" "counts_ok co" using assms(1) by (simp_all add: co_inv_def)
  have all: "takeWhile (\<lambda>(at, _). at \<le> now) (co_ready co) = co_ready co"
      "dropWhile (\<lambda>(at, _). at \<le> now) (co_ready co) = []"
    using assms(2) by (auto simp: queued_by_def takeWhile_eq_all_conv dropWhile_eq_Nil_conv)
  let ?due = "map (\<lambda>k. bf_event (slot co k)) (due_keys now co)"
  obtain out co' where d: "drain_ready now co = Some (out, co')" "held co = mset out + held co'"
    using drain_ready_account [OF assms(1), of now] by blast
  have o1: "out = map snd (co_ready co) @ ?due" and r: "co_ready co' = []"
    using d(1) unfolding drain_ready_closed [OF ok] all by auto
  have inv: "co_inv co'"
    using co_inv_step [OF assms(1), of _ "OpDrain now"] d(1) by auto
  have "slots co = mset ?due + slots co'"
    using d(2) unfolding held_slots o1 r by simp
  with that [of ?due co'] d(1) inv r show thesis by (simp add: o1 at_rest_def)
qed

section \<open>Admission\<close>

lemma slots_insert_fresh:
  assumes "co_inv co" and "map_of (co_buffer co) k = None" and "co_buffer co' = btm_insert k b (co_buffer co)"
  shows "slots co' = slots co + {#bf_event b#}"
proof -
  have ok: "btm_ok (co_buffer co)" using assms(1) by (simp add: co_inv_def index_ok_def)
  have "mset (co_buffer co') = add_mset (k, b) (mset (co_buffer co))"
    unfolding assms(3) mset_btm_insert [OF ok] btm_remove_none [OF assms(2)] ..
  then show ?thesis unfolding slots_def mset_map by simp
qed

lemma slots_take:
  assumes "co_inv co" and "map_of (co_buffer co) k = Some b" and "co_buffer co' = btm_remove k (co_buffer co)"
  shows "slots co = slots co' + {#bf_event b#}"
proof -
  have ok: "btm_ok (co_buffer co)" using assms(1) by (simp add: co_inv_def index_ok_def)
  have "mset (co_buffer co) = add_mset (k, b) (mset (co_buffer co'))"
    unfolding assms(3) by (rule mset_btm_take [OF ok assms(2)])
  then show ?thesis unfolding slots_def mset_map by simp
qed

lemma slots_insert_over:
  assumes "co_inv co" and "map_of (co_buffer co) k = Some b" and "co_buffer co' = btm_insert k b' (co_buffer co)"
  shows "slots co' + {#bf_event b#} = slots co + {#bf_event b'#}"
proof -
  have ok: "btm_ok (co_buffer co)" using assms(1) by (simp add: co_inv_def index_ok_def)
  have "mset (co_buffer co') + {#(k, b)#} = mset (co_buffer co) + {#(k, b')#}"
    unfolding assms(3) mset_btm_insert [OF ok] mset_btm_take [OF ok assms(2)] by simp
  then have "image_mset (\<lambda>e. bf_event (snd e)) (mset (co_buffer co') + {#(k, b)#}) =
      image_mset (\<lambda>e. bf_event (snd e)) (mset (co_buffer co) + {#(k, b')#})" by (rule arg_cong)
  then show ?thesis by (simp only: slots_def mset_map image_mset_union image_mset_single snd_conv)
qed

text \<open>
  The four things an admission does: queue the event behind its subscription's flushed slots, open a
  slot, merge with the slot of its path, or shed.
\<close>

lemma admit_flow:
  assumes "co_inv co" and "admit clk ev now co = Some (shed, co')"
  obtains (queued) fl where "shed = None" "co_ready co' = co_ready co @ map (Pair now) (fl @ [ev])"
      "slots co = mset fl + slots co'" "\<forall>x \<in> set fl. ev_subscription x = ev_subscription ev"
  | (opened) "shed = None" "co_ready co' = co_ready co" "slots co' = slots co + {#ev#}" "is_lifecycle (ev_kind ev)"
  | (merged) x where "shed = None" "co_ready co' = co_ready co" "x \<in># slots co" "same_path x ev"
      "slots co' + {#x#} = slots co + (case collapsed x ev of None \<Rightarrow> {#} | Some y \<Rightarrow> {#y#})"
  | (shed) "shed = Some (ev_subscription ev)" "co_ready co' = co_ready co" "slots co' = slots co"
      "is_lifecycle (ev_kind ev)"
proof (cases "is_lifecycle (ev_kind ev)")
  case False
  have "mset (flushed_events (ev_subscription ev) co) = filter_mset (\<lambda>x. ev_subscription x = ev_subscription ev) (slots co)"
      "slots (sub_gone (ev_subscription ev) co) = filter_mset (\<lambda>x. ev_subscription x \<noteq> ev_subscription ev) (slots co)"
    by (rule mset_flushed [OF assms(1)], rule slots_sub_gone [OF assms(1)])
  moreover have "slots co' = slots (sub_gone (ev_subscription ev) co)"
      "co_ready co' = co_ready co @ map (Pair now) (flushed_events (ev_subscription ev) co @ [ev])" "shed = None"
    using assms(2) False unfolding admit_closed [OF assms(1)] by (auto simp: slots_def)
  moreover have "\<forall>x \<in> set (flushed_events (ev_subscription ev) co). ev_subscription x = ev_subscription ev"
    using calculation(1) by (metis (mono_tags, lifting) mem_Collect_eq set_mset_filter set_mset_mset)
  ultimately show thesis using queued by simp
next
  case True
  show thesis
  proof (cases "effective_policy co (ev_subscription ev)")
    case None
    then show thesis
      using queued [of "[]"] assms(2) True unfolding admit_closed [OF assms(1)] by (auto simp: slots_def)
  next
    case (Some cfg)
    let ?k = "(ev_subscription ev, ev_key ev)" and ?co = "co\<lparr>co_next_seq := co_next_seq co + 1\<rparr>"
    have ok: "index_ok co" "counts_ok co" using assms(1) by (simp_all add: co_inv_def)
    have c: "coalesce clk ev now cfg co = Some (shed, co')"
      using assms(2) True Some unfolding admit_closed [OF assms(1)] by simp
    show thesis
    proof (cases "map_of (co_buffer co) ?k")
      case None
      have "shed = Some (ev_subscription ev) \<and> co' = ?co \<or>
          shed = None \<and> co' = put_slot ?k (fresh_slot clk ev now cfg (co_next_seq co)) ?co"
        using c None unfolding coalesce_closed [OF ok] by (auto split: if_splits)
      moreover have "slots co' = slots co + {#ev#}"
        if "co' = put_slot ?k (fresh_slot clk ev now cfg (co_next_seq co)) ?co"
        using slots_insert_fresh [OF assms(1) None, of co' "fresh_slot clk ev now cfg (co_next_seq co)"] that
        by (simp add: put_slot_def fresh_slot_def)
      ultimately show thesis using shed opened True by (auto simp: slots_def put_slot_def)
    next
      case (Some b)
      have "(?k, b) \<in> set (co_buffer co)" using Some by (rule map_of_SomeD)
      then have f: "?k = (ev_subscription (bf_event b), ev_key (bf_event b))" "is_lifecycle (ev_kind (bf_event b))"
          and m: "bf_event b \<in># slots co"
        using assms(1) by (force simp: co_inv_def filed_ok_def slots_def)+
      have sp: "same_path (bf_event b) ev" using f True by (simp add: same_path_def)
      show thesis
      proof (cases "collapse_kinds (ev_kind (bf_event b)) (ev_kind ev) = Annihilate")
        case True
        then have e: "shed = None" "co_buffer co' = btm_remove ?k (co_buffer co)" "co_ready co' = co_ready co"
          using c Some unfolding coalesce_closed [OF ok] by (auto simp: btm_remove_def)
        then show thesis
          using merged [OF e(1,3) m sp] slots_take [OF assms(1) Some e(2)] True by (simp add: collapsed_def)
      next
        case False
        let ?b = "merged_slot clk b ev now cfg (co_next_seq co)"
        have e: "shed = None" "co_buffer co' = btm_insert ?k ?b (co_buffer co)" "co_ready co' = co_ready co"
          using c Some False unfolding coalesce_closed [OF ok] by (auto simp: put_slot_def)
        have "collapsed (bf_event b) ev = Some (bf_event ?b)"
          using False by (simp add: collapsed_def merged_slot_def)
        then show thesis
          using merged [OF e(1,3) m sp] slots_insert_over [OF assms(1) Some e(2)] by simp
      qed
    qed
  qed
qed

end
