(* ===== verification/Owner_Inv.thy ===== *)
theory Owner_Inv
  imports Owner Coalescer_Flow Subsumer_Steps
begin

text \<open>
  The invariant of the owner task and the accounting of events.

  \<^item> \<open>sent\<close> is what the event channel has accepted, \<open>debt\<close> the rescan a subscription is owed in either
    plane, \<open>buffered\<close> what the coalescer holds.
  \<^item> \<open>settled\<close>: the consumer has the event, or has a rescan that stands for it, or is owed one, or the
    event is still held, or the consumer is gone. No operation may lose this.
  \<^item> \<open>ow_inv\<close>: the engine's invariant; the planes partitioned by claim; every debt of a live
    subscription inside its key and above everything sent to it; every rescan sent above all that was
    sent to its subscription before.
\<close>

section \<open>Readings\<close>

definition sent ::
  "('e, 't, 'u, 'w, 'c, 'v, 'h) site \<Rightarrow> ('e, 't, 'u, 'c, 'v, 'h) owner \<Rightarrow> ('c, 'v) event list" where
  "sent cx st = wd_sent (st_world cx) (ow_world st)"

definition shut ::
  "('e, 't, 'u, 'w, 'c, 'v, 'h) site \<Rightarrow> ('e, 't, 'u, 'c, 'v, 'h) owner \<Rightarrow> bool" where
  "shut cx st = wd_closed (st_world cx) (ow_world st)"

definition debt :: "('e, 't, 'u, 'c, 'v, 'h) owner \<Rightarrow> subscription \<rightharpoonup> ('c, 'v) parked_rescan" where
  "debt st = map_of (ow_suppressed st) ++ map_of (ow_needs st)"

definition buffered :: "('e, 't, 'u, 'c, 'v, 'h) owner \<Rightarrow> ('c, 'v) event multiset" where
  "buffered st = (case ow_coalescer st of None \<Rightarrow> {#} | Some co \<Rightarrow> slots co)"

text \<open>Strictly above, or at the end of the number range, where nothing is above.\<close>

definition below :: "epoch \<Rightarrow> epoch \<Rightarrow> bool" where
  "below e d \<longleftrightarrow> e < d \<or> d = u64_max"

definition dominates :: "'c list \<Rightarrow> epoch \<Rightarrow> ('c, 'v) event \<Rightarrow> bool" where
  "dominates k e ev \<longleftrightarrow> prefix k (ev_key ev) \<and> (\<forall>f. ev_kind ev = EMoved f \<longrightarrow> prefix k f) \<and>
     (if event_is_rescan ev then ev_epoch ev \<le> e else below (ev_epoch ev) e)"

definition owed :: "('e, 't, 'u, 'c, 'v, 'h) owner \<Rightarrow> ('c, 'v) event \<Rightarrow> bool" where
  "owed st ev \<longleftrightarrow> (\<exists>p. debt st (ev_subscription ev) = Some p \<and> dominates (pr_key p) (pr_epoch p) ev)"

definition rescanned ::
  "('e, 't, 'u, 'w, 'c, 'v, 'h) site \<Rightarrow> ('e, 't, 'u, 'c, 'v, 'h) owner \<Rightarrow> ('c, 'v) event \<Rightarrow> bool" where
  "rescanned cx st ev \<longleftrightarrow> (\<exists>r \<in> set (sent cx st). event_is_rescan r \<and>
     ev_subscription r = ev_subscription ev \<and> dominates (ev_key r) (ev_epoch r) ev)"

definition settled ::
  "('e, 't, 'u, 'w, 'c, 'v, 'h) site \<Rightarrow> ('e, 't, 'u, 'c, 'v, 'h) owner \<Rightarrow> ('c, 'v) event \<Rightarrow> bool" where
  "settled cx st ev \<longleftrightarrow> shut cx st \<or> ev \<in> set (sent cx st) \<or> rescanned cx st ev \<or> owed st ev \<or>
     ev \<in># buffered st"

definition keeps_settled ::
  "('e, 't, 'u, 'w, 'c, 'v, 'h) site \<Rightarrow> ('e, 't, 'u, 'c, 'v, 'h) owner \<Rightarrow> ('e, 't, 'u, 'c, 'v, 'h) owner \<Rightarrow> bool"
  where "keeps_settled cx st st' \<longleftrightarrow> (\<forall>ev. settled cx st ev \<longrightarrow> settled cx st' ev)"

section \<open>Invariant\<close>

definition minted :: "('e, 't, 'u, 'c, 'v, 'h) owner \<Rightarrow> subscription \<Rightarrow> bool" where
  "minted st s \<longleftrightarrow> sub_instance s = sm_instance (ow_subsumer st) \<and> sub_scope s < sm_next_sub (ow_subsumer st)"

definition ev_ok :: "('e, 't, 'u, 'c, 'v, 'h) owner \<Rightarrow> ('c, 'v) event \<Rightarrow> bool" where
  "ev_ok st ev \<longleftrightarrow> (\<exists>r. sm_subs (ow_subsumer st) (ev_subscription ev) = Some r \<and>
       prefix (sr_key r) (ev_key ev) \<and> (\<forall>f. ev_kind ev = EMoved f \<longrightarrow> prefix (sr_key r) f)) \<and>
     ev_epoch ev \<le> hw_of (ow_epochs st) (ev_subscription ev)"

definition planes_ok :: "('e, 't, 'u, 'c, 'v, 'h) owner \<Rightarrow> bool" where
  "planes_ok st \<longleftrightarrow> btm_ok (ow_needs st) \<and> btm_ok (ow_suppressed st) \<and>
     (\<forall>s. map_of (ow_needs st) s \<noteq> None \<longrightarrow> s \<notin> ow_unclaimed st) \<and>
     (\<forall>s. map_of (ow_suppressed st) s \<noteq> None \<longrightarrow> s \<in> ow_unclaimed st)"

definition debt_ok ::
  "('e, 't, 'u, 'w, 'c, 'v, 'h) site \<Rightarrow> ('e, 't, 'u, 'c, 'v, 'h) owner \<Rightarrow> subscription
     \<Rightarrow> 'c list \<Rightarrow> epoch \<Rightarrow> bool" where
  "debt_ok cx st s k e \<longleftrightarrow> minted st s \<and>
     (\<forall>r. sm_subs (ow_subsumer st) s = Some r \<longrightarrow> prefix (sr_key r) k \<and> e \<le> hw_of (ow_epochs st) s) \<and>
     (\<forall>ev \<in> set (sent cx st). ev_subscription ev = s \<longrightarrow> below (ev_epoch ev) e)"

definition after_rescan :: "('c, 'v) event \<Rightarrow> ('c, 'v) event \<Rightarrow> bool" where
  "after_rescan x y \<longleftrightarrow> (ev_subscription x = ev_subscription y \<and> event_is_rescan y \<longrightarrow> below (ev_epoch x) (ev_epoch y))"

definition stream_ok ::
  "('e, 't, 'u, 'w, 'c, 'v, 'h) site \<Rightarrow> ('e, 't, 'u, 'c, 'v, 'h) owner \<Rightarrow> bool" where
  "stream_ok cx st \<longleftrightarrow> sorted_wrt after_rescan (sent cx st) \<and>
     (\<forall>ev \<in> set (sent cx st). minted st (ev_subscription ev) \<and>
        (sm_subs (ow_subsumer st) (ev_subscription ev) \<noteq> None \<longrightarrow>
           ev_epoch ev \<le> hw_of (ow_epochs st) (ev_subscription ev)))"

definition buffer_ok :: "('e, 't, 'u, 'c::linorder, 'v, 'h) owner \<Rightarrow> bool" where
  "buffer_ok st \<longleftrightarrow> (\<forall>co. ow_coalescer st = Some co \<longrightarrow> at_rest co) \<and> (\<forall>ev. ev \<in># buffered st \<longrightarrow> ev_ok st ev)"

definition ow_inv ::
  "('e, 't, 'u, 'w, 'c::linorder, 'v, 'h) site \<Rightarrow> ('e, 't, 'u, 'c, 'v, 'h) owner \<Rightarrow> bool" where
  "ow_inv cx st \<longleftrightarrow> sm_inv (st_radices cx) (ow_subsumer st) \<and> planes_ok st \<and>
     (\<forall>s p. debt st s = Some p \<longrightarrow> debt_ok cx st s (pr_key p) (pr_epoch p)) \<and>
     stream_ok cx st \<and> buffer_ok st \<and> (\<forall>s \<in> ow_unclaimed st. minted st s)"

text \<open>What an operation on the delivery side leaves alone.\<close>

definition emission_frame ::
  "('e, 't, 'u, 'c, 'v, 'h) owner \<Rightarrow> ('e, 't, 'u, 'c, 'v, 'h) owner \<Rightarrow> bool" where
  "emission_frame st st' \<longleftrightarrow> ow_subsumer st' = ow_subsumer st \<and> ow_unclaimed st' = ow_unclaimed st \<and>
     ow_slots st' = ow_slots st \<and> ow_debounce st' = ow_debounce st \<and>
     (ow_coalescer st' = None \<longleftrightarrow> ow_coalescer st = None) \<and>
     (\<forall>s. hw_of (ow_epochs st) s \<le> hw_of (ow_epochs st') s)"

section \<open>Elementary facts\<close>

lemma below_mono: "below e d \<Longrightarrow> d \<le> d' \<Longrightarrow> below e d'"
  using le_u64_max [of d'] by (auto simp: below_def dest: order_antisym)

lemma below_le: "e \<le> e' \<Longrightarrow> below e' d \<Longrightarrow> below e d"
  by (auto simp: below_def)

lemma below_next: "e \<le> h \<Longrightarrow> below e (epoch_next h)"
proof (cases "h = u64_max")
  case True
  then have "epoch_next h = u64_max" using sat_add_ge1 [of h 1] by (simp add: epoch_next_def order_antisym)
  then show ?thesis by (simp add: below_def)
next
  case False
  assume "e \<le> h"
  with sat_add_1_gt [OF False] show ?thesis by (auto simp: below_def epoch_next_def)
qed

lemma below_imp_le: "below e d \<Longrightarrow> e \<le> d"
  by (auto simp: below_def)

lemma dominates_mono: "dominates k e ev \<Longrightarrow> prefix k' k \<Longrightarrow> e \<le> e' \<Longrightarrow> dominates k' e' ev"
  by (auto simp: dominates_def split: if_splits intro: below_mono prefix_order.trans order_trans)

lemma keeps_refl [simp]: "keeps_settled cx st st"
  by (simp add: keeps_settled_def)

lemma keeps_trans: "keeps_settled cx st st1 \<Longrightarrow> keeps_settled cx st1 st2 \<Longrightarrow> keeps_settled cx st st2"
  by (simp add: keeps_settled_def)

lemma keepsD: "keeps_settled cx st st' \<Longrightarrow> settled cx st ev \<Longrightarrow> settled cx st' ev"
  by (simp add: keeps_settled_def)

lemma frame_refl [simp]: "emission_frame st st"
  by (simp add: emission_frame_def)

lemma frame_trans: "emission_frame st st1 \<Longrightarrow> emission_frame st1 st2 \<Longrightarrow> emission_frame st st2"
  by (auto simp: emission_frame_def intro: order_trans)

lemma has_debt_iff: "has_debt s st \<longleftrightarrow> debt st s \<noteq> None"
  by (auto simp: has_debt_def parked_contains_def debt_def map_add_None)

lemma live_minted: "sm_inv rd (ow_subsumer st) \<Longrightarrow> sm_subs (ow_subsumer st) s \<noteq> None \<Longrightarrow> minted st s"
  by (auto simp: sm_inv_def ids_ok_def minted_def)

lemma ev_ok_frame: "emission_frame st st' \<Longrightarrow> ev_ok st ev \<Longrightarrow> ev_ok st' ev"
  by (auto simp: emission_frame_def ev_ok_def intro: order_trans)

lemma minted_frame: "emission_frame st st' \<Longrightarrow> minted st' s = minted st s"
  by (simp add: emission_frame_def minted_def)

text \<open>
  The fields the invariant reads. Two states that agree on them are interchangeable, which discharges
  every step that only moves clocks, logs or barriers.
\<close>

definition core_same ::
  "('e, 't, 'u, 'w, 'c, 'v, 'h) site \<Rightarrow> ('e, 't, 'u, 'c, 'v, 'h) owner \<Rightarrow> ('e, 't, 'u, 'c, 'v, 'h) owner \<Rightarrow> bool" where
  "core_same cx st st' \<longleftrightarrow> ow_subsumer st' = ow_subsumer st \<and> ow_epochs st' = ow_epochs st \<and>
     ow_needs st' = ow_needs st \<and> ow_suppressed st' = ow_suppressed st \<and>
     ow_unclaimed st' = ow_unclaimed st \<and> ow_coalescer st' = ow_coalescer st \<and>
     sent cx st' = sent cx st \<and> (shut cx st \<longrightarrow> shut cx st')"

lemma core_same_refl [simp]: "core_same cx st st"
  by (simp add: core_same_def)

lemma core_same_trans: "core_same cx st st1 \<Longrightarrow> core_same cx st1 st2 \<Longrightarrow> core_same cx st st2"
  by (simp add: core_same_def)

lemma core_same_inv: "core_same cx st st' \<Longrightarrow> ow_inv cx st' = ow_inv cx st"
  by (simp add: core_same_def ow_inv_def planes_ok_def debt_def debt_ok_def stream_ok_def buffer_ok_def
      buffered_def minted_def ev_ok_def)

lemma core_same_keeps: "core_same cx st st' \<Longrightarrow> keeps_settled cx st st'"
  by (auto simp: core_same_def keeps_settled_def settled_def rescanned_def owed_def debt_def buffered_def)

lemma core_same_readings:
  assumes "core_same cx st st'"
  shows "debt st' = debt st" and "ev_ok st' = ev_ok st" and "buffered st' = buffered st" and "minted st' = minted st"
  using assms by (auto simp: core_same_def debt_def ev_ok_def buffered_def minted_def fun_eq_iff)

section \<open>Parking\<close>

text \<open>The debt after a park, whatever plane it went to.\<close>

lemma debt_park_in:
  assumes "planes_ok st"
  shows "debt (park_in sub key e v st) = (debt st)(sub \<mapsto> (case debt st sub of
      Some p \<Rightarrow> \<lparr>pr_key = widen_to_cover (pr_key p) key, pr_epoch = max (pr_epoch p) e, pr_value = v\<rparr>
    | None \<Rightarrow> \<lparr>pr_key = key, pr_epoch = e, pr_value = v\<rparr>))"
proof (cases "sub \<in> ow_unclaimed st")
  case True
  then have "map_of (ow_needs st) sub = None" using assms by (auto simp: planes_ok_def)
  with True show ?thesis
    by (auto simp: park_in_def debt_def map_of_merge_max fun_eq_iff map_add_def split: option.splits)
next
  case False
  then have "map_of (ow_suppressed st) sub = None" using assms by (auto simp: planes_ok_def)
  with False show ?thesis
    by (auto simp: park_in_def debt_def map_of_merge_max fun_eq_iff map_add_def split: option.splits)
qed

lemma park_in_fields [simp]:
  "ow_subsumer (park_in sub key e v st) = ow_subsumer st" "ow_epochs (park_in sub key e v st) = ow_epochs st"
  "ow_unclaimed (park_in sub key e v st) = ow_unclaimed st" "ow_coalescer (park_in sub key e v st) = ow_coalescer st"
  "ow_world (park_in sub key e v st) = ow_world st" "ow_filters (park_in sub key e v st) = ow_filters st"
  "ow_slots (park_in sub key e v st) = ow_slots st" "ow_debounce (park_in sub key e v st) = ow_debounce st"
  "ow_payload_forgotten (park_in sub key e v st) = ow_payload_forgotten st"
  "ow_pending (park_in sub key e v st) = ow_pending st" "ow_answers (park_in sub key e v st) = ow_answers st"
  "ow_serial (park_in sub key e v st) = ow_serial st" "ow_gen (park_in sub key e v st) = ow_gen st"
  "ow_disposals (park_in sub key e v st) = ow_disposals st"
  by (simp_all add: park_in_def)

lemma park_in_readings [simp]:
  "sent cx (park_in sub key e v st) = sent cx st" "shut cx (park_in sub key e v st) = shut cx st"
  "buffered (park_in sub key e v st) = buffered st" "minted (park_in sub key e v st) = minted st"
  "ev_ok (park_in sub key e v st) = ev_ok st"
  by (simp_all add: sent_def shut_def buffered_def minted_def ev_ok_def fun_eq_iff)

lemma planes_ok_park_in: "planes_ok st \<Longrightarrow> planes_ok (park_in sub key e v st)"
  by (auto simp: planes_ok_def park_in_def btm_ok_merge_max map_of_merge_max split: if_splits)

lemma inv_park_in:
  assumes "ow_inv cx st" and "debt_ok cx st sub key e"
  shows "ow_inv cx (park_in sub key e v st)"
proof -
  have pl: "planes_ok st" using assms(1) by (simp add: ow_inv_def)
  have d: "debt_ok cx (park_in sub key e v st) = debt_ok cx st"
    by (simp add: debt_ok_def fun_eq_iff)
  have "debt_ok cx st s (pr_key p) (pr_epoch p)" if "debt (park_in sub key e v st) s = Some p" for s p
  proof (cases "s = sub")
    case True
    show ?thesis
    proof (cases "debt st sub")
      case None
      then show ?thesis using that assms(2) True by (auto simp: debt_park_in [OF pl])
    next
      case (Some q)
      have "debt_ok cx st sub (pr_key q) (pr_epoch q)" using assms(1) Some by (simp add: ow_inv_def)
      then show ?thesis using that assms(2) True Some
        by (auto simp: debt_park_in [OF pl] debt_ok_def intro: widen_least below_mono)
    qed
  next
    case False
    then show ?thesis using that assms(1) by (simp add: debt_park_in [OF pl] ow_inv_def)
  qed
  with assms(1) show ?thesis
    by (simp add: ow_inv_def planes_ok_park_in d stream_ok_def buffer_ok_def)
qed

lemma owed_park_in:
  assumes "planes_ok st" and "owed st ev \<or> ev_subscription ev = sub \<and> dominates key e ev"
  shows "owed (park_in sub key e v st) ev"
  using assms(2) widen_covers
  by (fastforce simp: owed_def debt_park_in [OF assms(1)] split: option.splits
      intro: dominates_mono)

lemma keeps_park_in: "planes_ok st \<Longrightarrow> keeps_settled cx st (park_in sub key e v st)"
  by (auto simp: keeps_settled_def settled_def rescanned_def owed_park_in)

end
