(* ===== verification/Owner_Emit.thy ===== *)
theory Owner_Emit
  imports Owner_Inv
begin

text \<open>
  The delivery side of the owner: parking, emission, pushing a batch through the coalescer and draining
  it. Each operation is shown to keep \<open>ow_inv\<close>, to leave nothing unsettled and to settle the events it
  is given. The locale \<open>delivery\<close> collects what the surroundings promise, the channel's contract \<open>world\<close>
  and the radix trees' contract behind \<open>subsumption\<close>.
\<close>

locale delivery =
  wd: world "st_world cx" + eng: subsumption "st_radices cx"
  for cx :: "('e, 't, 'u, 'w, 'c::linorder, 'v, 'h) site"

text \<open>What an operation that only emits or parks does.\<close>

definition emission ::
  "('e, 't, 'u, 'w, 'c::linorder, 'v, 'h) site \<Rightarrow> ('e, 't, 'u, 'c, 'v, 'h) owner \<Rightarrow> ('e, 't, 'u, 'c, 'v, 'h) owner \<Rightarrow> bool"
  where
  "emission cx st st' \<longleftrightarrow> ow_inv cx st' \<and> emission_frame st st' \<and> keeps_settled cx st st' \<and>
     (\<forall>ev. owed st ev \<longrightarrow> owed st' ev) \<and> (shut cx st \<longrightarrow> shut cx st') \<and>
     (\<forall>s. debt st s \<noteq> None \<longrightarrow> debt st' s \<noteq> None) \<and>
     (\<forall>x. x \<in># buffered st' \<longrightarrow> x \<in># buffered st) \<and> prefix (sent cx st) (sent cx st')"

lemma emission_refl: "ow_inv cx st \<Longrightarrow> emission cx st st"
  by (simp add: emission_def)

lemma emission_trans: "emission cx st st1 \<Longrightarrow> emission cx st1 st2 \<Longrightarrow> emission cx st st2"
  by (auto simp: emission_def intro: frame_trans keeps_trans prefix_order.trans)

lemma emission_frameD: "emission cx st st' \<Longrightarrow> emission_frame st st'"
  by (simp add: emission_def)

lemma emission_inv: "emission cx st st' \<Longrightarrow> ow_inv cx st'"
  by (simp add: emission_def)

lemma emission_keeps: "emission cx st st' \<Longrightarrow> keeps_settled cx st st'"
  by (simp add: emission_def)

lemma emission_ev_ok: "emission cx st st' \<Longrightarrow> ev_ok st ev \<Longrightarrow> ev_ok st' ev"
  by (rule ev_ok_frame [OF emission_frameD])

section \<open>Steps\<close>

lemma note_loss_core [simp]: "core_same cx st (note_loss sub st)"
  by (simp add: core_same_def note_loss_def sent_def shut_def)

lemma note_domination_core [simp]: "core_same cx st (note_domination st)"
  by (simp add: core_same_def note_domination_def sent_def shut_def)

lemma core_same_emission:
  assumes "core_same cx st st'" and "ow_inv cx st" and "emission_frame st st'"
  shows "emission cx st st'"
proof -
  have "owed st' = owed st"
    using core_same_readings(1) [OF assms(1)] by (simp add: owed_def fun_eq_iff)
  with assms core_same_inv [OF assms(1)] core_same_keeps [OF assms(1)] core_same_readings [OF assms(1)]
  show ?thesis by (simp add: emission_def core_same_def)
qed

lemma note_loss_frame [simp]: "emission_frame st (note_loss sub st)"
  by (simp add: emission_frame_def note_loss_def)

lemma on_shed_eq:
  "on_shed sub st = (epoch_next (hw_of (ow_epochs st) sub),
     st\<lparr>ow_epochs := bump sub (epoch_next (hw_of (ow_epochs st) sub)) (ow_epochs st)\<rparr>)"
  by (simp add: on_shed_def shed_rescan_def Let_def)

lemma raise_readings [simp]:
  "sent cx (st\<lparr>ow_epochs := l\<rparr>) = sent cx st" "shut cx (st\<lparr>ow_epochs := l\<rparr>) = shut cx st"
  "debt (st\<lparr>ow_epochs := l\<rparr>) = debt st" "buffered (st\<lparr>ow_epochs := l\<rparr>) = buffered st"
  "minted (st\<lparr>ow_epochs := l\<rparr>) = minted st" "planes_ok (st\<lparr>ow_epochs := l\<rparr>) = planes_ok st"
  by (simp_all add: sent_def shut_def debt_def buffered_def minted_def planes_ok_def fun_eq_iff)

lemma ev_ok_raise: "(\<And>s. hw_of (ow_epochs st) s \<le> hw_of l s) \<Longrightarrow> ev_ok st ev \<Longrightarrow> ev_ok (st\<lparr>ow_epochs := l\<rparr>) ev"
  by (auto simp: ev_ok_def intro: order_trans)

lemma debt_ok_raise:
  "(\<And>s. hw_of (ow_epochs st) s \<le> hw_of l s) \<Longrightarrow> debt_ok cx st s k e \<Longrightarrow> debt_ok cx (st\<lparr>ow_epochs := l\<rparr>) s k e"
  by (auto simp: debt_ok_def intro: order_trans)

lemma inv_raise:
  assumes "\<And>s. hw_of (ow_epochs st) s \<le> hw_of l s" and "ow_inv cx st"
  shows "ow_inv cx (st\<lparr>ow_epochs := l\<rparr>)"
proof -
  have "stream_ok cx (st\<lparr>ow_epochs := l\<rparr>)"
    using assms(2) order_trans [OF _ assms(1)] by (simp add: ow_inv_def stream_ok_def)
  moreover have "buffer_ok (st\<lparr>ow_epochs := l\<rparr>)"
    using assms(2) ev_ok_raise [OF assms(1)] by (simp add: ow_inv_def buffer_ok_def)
  ultimately show ?thesis
    using assms(2) debt_ok_raise [OF assms(1), where cx = cx] by (simp add: ow_inv_def)
qed

lemma raise_frame: "(\<And>s. hw_of (ow_epochs st) s \<le> hw_of l s) \<Longrightarrow> emission_frame st (st\<lparr>ow_epochs := l\<rparr>)"
  by (simp add: emission_frame_def)

lemma drop_buffered_fields [simp]:
  "ow_subsumer (drop_buffered sub st) = ow_subsumer st" "ow_epochs (drop_buffered sub st) = ow_epochs st"
  "ow_unclaimed (drop_buffered sub st) = ow_unclaimed st" "ow_needs (drop_buffered sub st) = ow_needs st"
  "ow_suppressed (drop_buffered sub st) = ow_suppressed st"
  "ow_world (drop_buffered sub st) = ow_world st" "ow_filters (drop_buffered sub st) = ow_filters st"
  "ow_slots (drop_buffered sub st) = ow_slots st" "ow_debounce (drop_buffered sub st) = ow_debounce st"
  "ow_payload_forgotten (drop_buffered sub st) = ow_payload_forgotten st"
  "ow_pending (drop_buffered sub st) = ow_pending st" "ow_answers (drop_buffered sub st) = ow_answers st"
  "ow_serial (drop_buffered sub st) = ow_serial st" "ow_gen (drop_buffered sub st) = ow_gen st"
  by (simp_all add: drop_buffered_def)

lemma drop_buffered_readings [simp]:
  "sent cx (drop_buffered sub st) = sent cx st" "shut cx (drop_buffered sub st) = shut cx st"
  "debt (drop_buffered sub st) = debt st" "minted (drop_buffered sub st) = minted st"
  "ev_ok (drop_buffered sub st) = ev_ok st" "planes_ok (drop_buffered sub st) = planes_ok st"
  by (simp_all add: sent_def shut_def debt_def minted_def ev_ok_def planes_ok_def fun_eq_iff)

lemma buffered_drop:
  assumes "buffer_ok st"
  shows "buffered (drop_buffered sub st) = filter_mset (\<lambda>x. ev_subscription x \<noteq> sub) (buffered st)"
proof (cases "ow_coalescer st")
  case None
  then show ?thesis by (simp add: buffered_def drop_buffered_def)
next
  case (Some co)
  then have "at_rest co" using assms by (simp add: buffer_ok_def)
  then show ?thesis using Some drop_flow(2) by (simp add: buffered_def drop_buffered_def)
qed

lemma inv_drop_buffered: "ow_inv cx st \<Longrightarrow> ow_inv cx (drop_buffered sub st)"
proof -
  assume inv: "ow_inv cx st"
  then have b: "buffer_ok st" by (simp add: ow_inv_def)
  then have "\<forall>co. ow_coalescer (drop_buffered sub st) = Some co \<longrightarrow> at_rest co"
    using drop_flow(1) by (auto simp: buffer_ok_def drop_buffered_def)
  with b have "buffer_ok (drop_buffered sub st)"
    using buffered_drop [OF b, of sub] by (simp add: buffer_ok_def)
  with inv show ?thesis by (simp add: ow_inv_def debt_ok_def stream_ok_def)
qed

lemma drop_frame: "emission_frame st (drop_buffered sub st)"
  by (simp add: emission_frame_def drop_buffered_def)

lemma park_in_frame: "emission_frame st (park_in sub key e v st)"
  by (simp add: emission_frame_def)

section \<open>A fresh park\<close>

text \<open>
  A park with a freshly shed epoch, at the key of a live subscription: the debt stands for everything
  the subscription could have been sent, so the subscription's buffered events may go.
\<close>

definition fresh_park ::
  "subscription \<Rightarrow> 'c list \<Rightarrow> 'v option \<Rightarrow> ('e, 't, 'u, 'c::linorder, 'v, 'h) owner \<Rightarrow> ('e, 't, 'u, 'c, 'v, 'h) owner" where
  "fresh_park sub key v st = (let (e, st1) = on_shed sub st in drop_buffered sub (park_in sub key e v st1))"

lemma hw_le_bump: "hw_of l s \<le> hw_of (bump sub e l) s"
  by simp

lemma fresh_debt_ok:
  assumes "ow_inv cx st" and "sm_subs (ow_subsumer st) sub = Some r" and "prefix (sr_key r) key"
  defines "e \<equiv> epoch_next (hw_of (ow_epochs st) sub)"
  shows "debt_ok cx (st\<lparr>ow_epochs := bump sub e (ow_epochs st)\<rparr>) sub key e"
proof -
  have "below (ev_epoch ev) e" if "ev \<in> set (sent cx st)" "ev_subscription ev = sub" for ev
    using assms(1,2) that below_next unfolding e_def by (fastforce simp: ow_inv_def stream_ok_def)
  moreover have "minted st sub" using live_minted assms(1,2) by (fastforce simp: ow_inv_def)
  ultimately show ?thesis using assms(2,3) by (auto simp: debt_ok_def)
qed

lemma fresh_park_emission:
  fixes v :: "'v option"
  assumes inv: "ow_inv cx st" and r: "sm_subs (ow_subsumer st) sub = Some r"
  defines "st' \<equiv> fresh_park sub (sr_key r) v st"
  shows "emission cx st st'" and "\<forall>ev. ev_ok st ev \<and> ev_subscription ev = sub \<longrightarrow> owed st' ev"
    and "sent cx st' = sent cx st" and "debt st' sub \<noteq> None"
    and "buffered st' = filter_mset (\<lambda>x. ev_subscription x \<noteq> sub) (buffered st)"
proof -
  let ?e = "epoch_next (hw_of (ow_epochs st) sub)"
  let ?st1 = "st\<lparr>ow_epochs := bump sub ?e (ow_epochs st)\<rparr>"
  let ?st2 = "park_in sub (sr_key r) ?e v ?st1"
  have st': "st' = drop_buffered sub ?st2" by (simp add: st'_def fresh_park_def on_shed_eq)
  have i1: "ow_inv cx ?st1" by (rule inv_raise [OF hw_le_bump inv])
  then have i2: "ow_inv cx ?st2" by (rule inv_park_in [OF _ fresh_debt_ok [OF inv r prefix_order.refl]])
  have pl: "planes_ok ?st1" and b2: "buffer_ok ?st2" using i1 i2 by (simp_all add: ow_inv_def)
  have ok: "owed ?st2 ev" if "ev_ok st ev" "ev_subscription ev = sub" for ev
  proof (rule owed_park_in [OF pl])
    have "ev_epoch ev \<le> hw_of (ow_epochs st) sub" using that by (simp add: ev_ok_def)
    then show "owed ?st1 ev \<or> ev_subscription ev = sub \<and> dominates (sr_key r) ?e ev"
      using that r below_next order_trans [OF _ epoch_next_ge] by (auto simp: ev_ok_def dominates_def)
  qed
  have o1: "owed st' ev \<longleftrightarrow> owed ?st2 ev" for ev by (simp add: st' owed_def)
  have o2: "owed ?st2 ev" if "owed st ev" for ev
    using that by (intro owed_park_in [OF pl] disjI1) (simp add: owed_def)
  show all: "\<forall>ev. ev_ok st ev \<and> ev_subscription ev = sub \<longrightarrow> owed st' ev" using ok o1 by blast
  show s: "sent cx st' = sent cx st" by (simp add: st')
  show b: "buffered st' = filter_mset (\<lambda>x. ev_subscription x \<noteq> sub) (buffered st)"
    unfolding st' buffered_drop [OF b2] by simp
  have d: "debt st' = (debt st)(sub \<mapsto> the (debt st' sub))" and ds: "debt st' sub \<noteq> None"
    by (simp_all add: st' debt_park_in [OF pl] fun_eq_iff)
  show "debt st' sub \<noteq> None" by (rule ds)
  have "settled cx st' ev" if "settled cx st ev" for ev
  proof (cases "ev \<in># buffered st \<and> ev_subscription ev = sub")
    case True
    then have "ev_ok st ev" using inv by (simp add: ow_inv_def buffer_ok_def)
    then show ?thesis using True all by (simp add: settled_def)
  next
    case False
    then show ?thesis
      using that o1 o2 b s by (auto simp: settled_def rescanned_def st')
  qed
  moreover have "emission_frame st st'"
    unfolding st' using frame_trans [OF raise_frame [OF hw_le_bump] frame_trans [OF park_in_frame drop_frame]] .
  moreover have "ow_inv cx st'" unfolding st' by (rule inv_drop_buffered [OF i2])
  ultimately show "emission cx st st'"
    using o1 o2 s b d by (auto simp: emission_def keeps_settled_def st' debt_park_in [OF pl])
qed

lemma park_rescan_eq:
  "sm_subs (ow_subsumer st) sub = Some r \<Longrightarrow> park_rescan cx sub st =
     fresh_park sub (sr_key r) (subscription_value (st_radices cx) sub (ow_subsumer st)) (note_loss sub st)"
  by (simp add: park_rescan_def Let_def subscription_key_def fresh_park_def note_loss_def)

lemma park_rescan_emission:
  assumes "ow_inv cx st"
  shows "emission cx st (park_rescan cx sub st)"
    and "\<forall>ev. ev_ok st ev \<and> ev_subscription ev = sub \<longrightarrow> owed (park_rescan cx sub st) ev"
    and "sent cx (park_rescan cx sub st) = sent cx st"
proof -
  let ?st = "note_loss sub st"
  have inv: "ow_inv cx ?st" using assms core_same_inv [OF note_loss_core] by blast
  have e: "emission cx st ?st" by (rule core_same_emission [OF note_loss_core assms note_loss_frame])
  have same: "ev_ok ?st = ev_ok st" by (rule core_same_readings(2) [OF note_loss_core])
  have sent: "sent cx ?st = sent cx st" by (simp add: sent_def note_loss_def)
  have "emission cx st (park_rescan cx sub st) \<and>
    (\<forall>ev. ev_ok st ev \<and> ev_subscription ev = sub \<longrightarrow> owed (park_rescan cx sub st) ev) \<and>
    sent cx (park_rescan cx sub st) = sent cx st"
  proof (cases "sm_subs (ow_subsumer st) sub")
    case None
    then have "park_rescan cx sub st = ?st"
      by (simp add: park_rescan_def Let_def subscription_key_def note_loss_def)
    then show ?thesis using None e sent by (auto simp: ev_ok_def)
  next
    case (Some r)
    then have "sm_subs (ow_subsumer ?st) sub = Some r" by (simp add: note_loss_def)
    from fresh_park_emission(1-3) [OF inv this,
        where v = "subscription_value (st_radices cx) sub (ow_subsumer st)"] sent
    show ?thesis unfolding park_rescan_eq [OF Some] same using emission_trans [OF e] by simp
  qed
  then show "emission cx st (park_rescan cx sub st)"
    and "\<forall>ev. ev_ok st ev \<and> ev_subscription ev = sub \<longrightarrow> owed (park_rescan cx sub st) ev"
    and "sent cx (park_rescan cx sub st) = sent cx st" by blast+
qed

section \<open>Emission\<close>

lemma note_loss_fields [simp]:
  "ow_subsumer (note_loss sub st) = ow_subsumer st" "ow_epochs (note_loss sub st) = ow_epochs st"
  "ow_needs (note_loss sub st) = ow_needs st" "ow_suppressed (note_loss sub st) = ow_suppressed st"
  "ow_unclaimed (note_loss sub st) = ow_unclaimed st" "ow_world (note_loss sub st) = ow_world st"
  "ow_coalescer (note_loss sub st) = ow_coalescer st" "ow_filters (note_loss sub st) = ow_filters st"
  by (simp_all add: note_loss_def)

lemma owed_iff: "debt st (ev_subscription ev) = Some p \<Longrightarrow> owed st ev \<longleftrightarrow> dominates (pr_key p) (pr_epoch p) ev"
  by (simp add: owed_def)

definition widened :: "('c, 'v) event \<Rightarrow> epoch \<Rightarrow> ('c, 'v) parked_rescan \<Rightarrow> ('c, 'v) parked_rescan" where
  "widened ev e p = p\<lparr>pr_key := foldl widen_to_cover (pr_key p)
       (ev_key ev # (case event_move_from ev of None \<Rightarrow> [] | Some f \<Rightarrow> [f])), pr_epoch := max (pr_epoch p) e\<rparr>"

lemma debt_widen_parked:
  "debt (widen_parked_debt ev st) s =
     (if s = ev_subscription ev
      then map_option (widened ev (epoch_next (hw_of (ow_epochs st) s))) (debt st s) else debt st s)"
  by (auto simp: widen_parked_debt_def on_shed_eq Let_def debt_def map_add_def map_of_widen_debt widened_def [abs_def]
      note_loss_def split: option.splits)

lemma widen_parked_fields [simp]:
  "ow_subsumer (widen_parked_debt ev st) = ow_subsumer st"
  "ow_epochs (widen_parked_debt ev st) = bump (ev_subscription ev)
     (epoch_next (hw_of (ow_epochs st) (ev_subscription ev))) (ow_epochs st)"
  "ow_unclaimed (widen_parked_debt ev st) = ow_unclaimed st"
  "ow_coalescer (widen_parked_debt ev st) = ow_coalescer st"
  "ow_world (widen_parked_debt ev st) = ow_world st" "ow_filters (widen_parked_debt ev st) = ow_filters st"
  "ow_slots (widen_parked_debt ev st) = ow_slots st" "ow_debounce (widen_parked_debt ev st) = ow_debounce st"
  "ow_payload_forgotten (widen_parked_debt ev st) = ow_payload_forgotten st"
  by (simp_all add: widen_parked_debt_def on_shed_eq Let_def note_loss_def)

lemma widen_parked_readings [simp]:
  "sent cx (widen_parked_debt ev st) = sent cx st" "shut cx (widen_parked_debt ev st) = shut cx st"
  "buffered (widen_parked_debt ev st) = buffered st" "minted (widen_parked_debt ev st) = minted st"
  by (simp_all add: sent_def shut_def buffered_def minted_def fun_eq_iff)

lemma planes_ok_widen: "planes_ok st \<Longrightarrow> planes_ok (widen_parked_debt ev st)"
  by (auto simp: planes_ok_def widen_parked_debt_def on_shed_eq Let_def note_loss_def btm_ok_widen_debt map_of_widen_debt
      split: if_splits)

lemma widened_props:
  "prefix (pr_key (widened ev e p)) (pr_key p)" "prefix (pr_key (widened ev e p)) (ev_key ev)"
  "ev_kind ev = EMoved f \<Longrightarrow> prefix (pr_key (widened ev e p)) f"
  "pr_epoch (widened ev e p) = max (pr_epoch p) e"
  "prefix k (pr_key p) \<Longrightarrow> prefix k (ev_key ev) \<Longrightarrow> (\<And>f. ev_kind ev = EMoved f \<Longrightarrow> prefix k f) \<Longrightarrow>
     prefix k (pr_key (widened ev e p))"
  using widen_all_covers [of "pr_key p" "ev_key ev # (case event_move_from ev of None \<Rightarrow> [] | Some f \<Rightarrow> [f])"]
    widen_all_least [of k "pr_key p" "ev_key ev # (case event_move_from ev of None \<Rightarrow> [] | Some f \<Rightarrow> [f])"]
  by (auto simp: widened_def event_move_from_def split: option.splits)

lemma ev_ok_inside:
  assumes "ev_ok st ev" and "sm_subs (ow_subsumer st) (ev_subscription ev) = Some r"
  shows "prefix (sr_key r) (ev_key ev)" and "ev_kind ev = EMoved f \<Longrightarrow> prefix (sr_key r) f"
    and "ev_epoch ev \<le> hw_of (ow_epochs st) (ev_subscription ev)"
  using assms by (auto simp: ev_ok_def)

lemma widen_emission:
  assumes inv: "ow_inv cx st" and ok: "ev_ok st ev" and d: "debt st (ev_subscription ev) \<noteq> None"
    and nr: "\<not> event_is_rescan ev"
  defines "st' \<equiv> widen_parked_debt ev st"
  shows "emission cx st st'" and "owed st' ev"
proof -
  let ?s = "ev_subscription ev" and ?e = "epoch_next (hw_of (ow_epochs st) (ev_subscription ev))"
  have pl: "planes_ok st'" using inv by (simp add: ow_inv_def st'_def planes_ok_widen)
  note deb = debt_widen_parked [of ev st, folded st'_def]
  have le: "hw_of (ow_epochs st) s \<le> hw_of (ow_epochs st') s" for s
    by (simp add: st'_def epoch_next_ge)
  obtain q where q: "debt st ?s = Some q" using d by blast
  have o1: "owed st' x" if "owed st x" for x
  proof (cases "ev_subscription x = ?s")
    case True
    have "dominates (pr_key (widened ev ?e q)) (pr_epoch (widened ev ?e q)) x"
      using that True q by (intro dominates_mono [OF _ widened_props(1)]) (auto simp: owed_def widened_props(4))
    then show ?thesis using True q by (simp add: owed_def deb)
  next
    case False
    then show ?thesis using that by (simp add: owed_def deb)
  qed
  show o2: "owed st' ev"
  proof -
    have "below (ev_epoch ev) ?e" using ok below_next by (simp add: ev_ok_def)
    then have "dominates (pr_key (widened ev ?e q)) (pr_epoch (widened ev ?e q)) ev"
      using nr below_mono [of "ev_epoch ev" ?e "max (pr_epoch q) ?e"]
      by (simp add: dominates_def widened_props(2,3,4))
    then show ?thesis using q by (simp add: owed_def deb)
  qed
  have "debt_ok cx st' s (pr_key p) (pr_epoch p)" if p: "debt st' s = Some p" for s p
  proof (cases "s = ?s")
    case True
    have old: "debt_ok cx st ?s (pr_key q) (pr_epoch q)" using inv q by (simp add: ow_inv_def)
    have p': "p = widened ev ?e q" using p q True by (simp add: deb)
    have "prefix (sr_key r) (pr_key p)" if "sm_subs (ow_subsumer st) ?s = Some r" for r
      unfolding p' using old ev_ok_inside [OF ok that] that by (intro widened_props(5)) (auto simp: debt_ok_def)
    moreover have "pr_epoch p \<le> hw_of (ow_epochs st') ?s" if "sm_subs (ow_subsumer st) ?s = Some r" for r
      using old that order_trans [OF _ epoch_next_ge, of "pr_epoch q"]
      by (auto simp: p' widened_props(4) debt_ok_def st'_def)
    ultimately show ?thesis
      using old True below_mono [of _ "pr_epoch q" "pr_epoch p"]
      by (auto simp: debt_ok_def st'_def p' widened_props(4))
  next
    case False
    then have "debt_ok cx st s (pr_key p) (pr_epoch p)" using p inv by (simp add: deb ow_inv_def)
    then show ?thesis using order_trans [OF _ le] by (auto simp: debt_ok_def st'_def)
  qed
  moreover have "stream_ok cx st'"
    using inv order_trans [OF _ le] by (simp add: ow_inv_def stream_ok_def st'_def)
  moreover have "emission_frame st st'" by (simp add: emission_frame_def st'_def epoch_next_ge)
  moreover have "buffer_ok st'"
    using inv ev_ok_frame [OF \<open>emission_frame st st'\<close>] by (simp add: ow_inv_def buffer_ok_def st'_def)
  ultimately have "ow_inv cx st'" and fr: "emission_frame st st'"
    using inv pl by (simp_all add: ow_inv_def st'_def)
  moreover have "keeps_settled cx st st'"
    using o1 by (auto simp: keeps_settled_def settled_def rescanned_def st'_def)
  ultimately show "emission cx st st'"
    using o1 by (auto simp: emission_def st'_def deb [unfolded st'_def])
qed

lemma rescan_park_emission:
  assumes inv: "ow_inv cx st" and ok: "ev_ok st ev" and rs: "event_is_rescan ev"
    and fresh: "\<forall>x \<in> set (sent cx st). ev_subscription x = ev_subscription ev \<longrightarrow> below (ev_epoch x) (ev_epoch ev)"
  defines "st' \<equiv> park_rescan_event ev st"
  shows "emission cx st st'" and "owed st' ev" and "sent cx st' = sent cx st"
proof -
  let ?s = "ev_subscription ev" and ?st = "note_loss (ev_subscription ev) st"
  have st': "st' = park_in ?s (ev_key ev) (ev_epoch ev) (ev_value ev) ?st"
    by (simp add: st'_def park_rescan_event_def)
  have c: "core_same cx st ?st" by simp
  have i: "ow_inv cx ?st" using core_same_inv [OF c] inv by simp
  have e: "emission cx st ?st" by (rule core_same_emission [OF c inv note_loss_frame])
  have pl: "planes_ok ?st" using i by (simp add: ow_inv_def)
  have s0: "sent cx ?st = sent cx st" by (simp add: sent_def note_loss_def)
  obtain r where r: "sm_subs (ow_subsumer st) ?s = Some r" using ok by (auto simp: ev_ok_def)
  have "minted st ?s" using live_minted r inv by (fastforce simp: ow_inv_def)
  then have "debt_ok cx ?st ?s (ev_key ev) (ev_epoch ev)"
    using ok fresh core_same_readings(4) [OF c] by (auto simp: debt_ok_def s0 ev_ok_def)
  then have i': "ow_inv cx st'" unfolding st' by (rule inv_park_in [OF i])
  have o1: "owed st' x" if "owed ?st x" for x unfolding st' by (rule owed_park_in [OF pl disjI1 [OF that]])
  have "dominates (ev_key ev) (ev_epoch ev) ev"
    using rs by (simp add: dominates_def event_is_rescan_def)
  then show "owed st' ev" unfolding st' by (intro owed_park_in [OF pl]) simp
  show "sent cx st' = sent cx st" by (simp add: st' s0)
  have "emission cx ?st st'"
    using i' o1 keeps_park_in [OF pl] park_in_frame by (auto simp: emission_def st' debt_park_in [OF pl])
  then show "emission cx st st'" by (rule emission_trans [OF e])
qed

lemma world_fields [simp]:
  "debt (st\<lparr>ow_world := e\<rparr>) = debt st" "buffered (st\<lparr>ow_world := e\<rparr>) = buffered st"
  "minted (st\<lparr>ow_world := e\<rparr>) = minted st" "ev_ok (st\<lparr>ow_world := e\<rparr>) = ev_ok st"
  "planes_ok (st\<lparr>ow_world := e\<rparr>) = planes_ok st" "buffer_ok (st\<lparr>ow_world := e\<rparr>) = buffer_ok st"
  "owed (st\<lparr>ow_world := e\<rparr>) = owed st" "emission_frame st (st\<lparr>ow_world := e\<rparr>)"
  by (simp_all add: debt_def buffered_def minted_def ev_ok_def planes_ok_def buffer_ok_def owed_def fun_eq_iff
      emission_frame_def)

lemma advance_core:
  "advances (st_world cx) (ow_world st) e \<Longrightarrow> core_same cx st (st\<lparr>ow_world := e\<rparr>)"
  by (simp add: core_same_def advances_def sent_def shut_def)

lemma advance_emission:
  assumes "advances (st_world cx) (ow_world st) e" and "ow_inv cx st"
  shows "emission cx st (st\<lparr>ow_world := e\<rparr>)"
  by (rule core_same_emission [OF advance_core [OF assms(1)] assms(2)]) simp

lemma sent_grows_settled:
  assumes "sent cx st' = sent cx st @ xs" and "shut cx st \<longrightarrow> shut cx st'"
    and "\<forall>x. owed st x \<longrightarrow> owed st' x" and "\<forall>x. x \<in># buffered st \<longrightarrow> x \<in># buffered st'"
  shows "keeps_settled cx st st'"
  using assms by (auto simp: keeps_settled_def settled_def rescanned_def)

text \<open>An event the channel accepts.\<close>

lemma accept_emission:
  assumes inv: "ow_inv cx st" and ok: "ev_ok st ev" and d: "debt st (ev_subscription ev) = None"
    and fresh: "event_is_rescan ev \<longrightarrow>
      (\<forall>x \<in> set (sent cx st). ev_subscription x = ev_subscription ev \<longrightarrow> below (ev_epoch x) (ev_epoch ev))"
    and s: "sent cx (st\<lparr>ow_world := e\<rparr>) = sent cx st @ [ev]" "shut cx st \<longrightarrow> shut cx (st\<lparr>ow_world := e\<rparr>)"
  shows "emission cx st (st\<lparr>ow_world := e\<rparr>)"
proof -
  have m: "minted st (ev_subscription ev)"
    using live_minted [of "st_radices cx" st "ev_subscription ev"] ok inv by (auto simp: ow_inv_def ev_ok_def)
  have "stream_ok cx (st\<lparr>ow_world := e\<rparr>)"
    using inv fresh m ok by (auto simp: ow_inv_def stream_ok_def s(1) sorted_wrt_append after_rescan_def ev_ok_def)
  moreover have "debt_ok cx (st\<lparr>ow_world := e\<rparr>) s (pr_key p) (pr_epoch p)" if "debt st s = Some p" for s p
  proof -
    have "debt_ok cx st s (pr_key p) (pr_epoch p)" "s \<noteq> ev_subscription ev"
      using inv that d by (auto simp: ow_inv_def)
    then show ?thesis by (auto simp: debt_ok_def s(1))
  qed
  ultimately have "ow_inv cx (st\<lparr>ow_world := e\<rparr>)" using inv by (simp add: ow_inv_def)
  then show ?thesis
    using sent_grows_settled [OF s] by (auto simp: emission_def s)
qed

context delivery
begin

lemma try_emit_emission:
  assumes inv: "ow_inv cx st" and ok: "ev_ok st ev"
    and fresh: "event_is_rescan ev \<longrightarrow>
      (\<forall>x \<in> set (sent cx st). ev_subscription x = ev_subscription ev \<longrightarrow> below (ev_epoch x) (ev_epoch ev))"
  obtains (sent) "emission cx st (try_emit cx ev st)" "sent cx (try_emit cx ev st) = sent cx st @ [ev]"
      "debt st (ev_subscription ev) = None"
  | (kept) "emission cx st (try_emit cx ev st)" "sent cx (try_emit cx ev st) = sent cx st"
      "owed (try_emit cx ev st) ev \<or> shut cx (try_emit cx ev st)"
proof (cases "has_debt (ev_subscription ev) st")
  case True
  then have d: "debt st (ev_subscription ev) \<noteq> None" by (simp add: has_debt_iff)
  show thesis
  proof (cases "event_is_rescan ev")
    case True
    then have "try_emit cx ev st = park_rescan_event ev st"
      using \<open>has_debt (ev_subscription ev) st\<close> by (simp add: try_emit_def Let_def)
    then show thesis using kept rescan_park_emission [OF inv ok True mp [OF fresh True]] by simp
  next
    case False
    then have "try_emit cx ev st = widen_parked_debt ev st"
      using \<open>has_debt (ev_subscription ev) st\<close> by (simp add: try_emit_def Let_def)
    then show thesis using kept widen_emission [OF inv ok d False] by simp
  qed
next
  case False
  then have d: "debt st (ev_subscription ev) = None" by (simp add: has_debt_iff)
  show thesis
  proof (cases rule: wd.send_cases [of ev "ow_world st", case_names ok full closed])
    case (ok e)
    have "emission cx st (st\<lparr>ow_world := e\<rparr>)"
      by (rule accept_emission [OF inv assms(2) d fresh]) (use ok in \<open>simp_all add: sent_def shut_def\<close>)
    then show thesis using sent False ok d by (simp add: try_emit_def sent_def)
  next
    case (full e)
    let ?st = "st\<lparr>ow_world := e\<rparr>"
    have c: "core_same cx st ?st" by (rule advance_core [OF full(2)])
    have a: "emission cx st ?st" by (rule advance_emission [OF full(2) inv])
    have i: "ow_inv cx ?st" by (rule emission_inv [OF a])
    have k: "ev_ok ?st ev" using assms(2) by simp
    have s0: "sent cx ?st = sent cx st" using c by (simp add: core_same_def)
    show thesis
    proof (cases "event_is_rescan ev")
      case True
      then have t: "try_emit cx ev st = park_rescan_event ev ?st"
        using False full(1) by (simp add: try_emit_def Let_def)
      have "\<forall>x \<in> set (sent cx ?st). ev_subscription x = ev_subscription ev \<longrightarrow> below (ev_epoch x) (ev_epoch ev)"
        using fresh True s0 by simp
      note p = rescan_park_emission [OF i k True this]
      show thesis by (rule kept) (use emission_trans [OF a p(1)] p s0 in \<open>simp_all add: t\<close>)
    next
      case nr: False
      then have t: "try_emit cx ev st = park_rescan cx (ev_subscription ev) ?st"
        using False full(1) by (simp add: try_emit_def Let_def)
      note p = park_rescan_emission [OF i, of "ev_subscription ev"]
      show thesis by (rule kept) (use emission_trans [OF a p(1)] p k s0 in \<open>simp_all add: t\<close>)
    qed
  next
    case (closed e)
    have "emission cx st (st\<lparr>ow_world := e\<rparr>)" by (rule advance_emission [OF closed(2) inv])
    then show thesis using kept False closed by (simp add: try_emit_def sent_def shut_def advances_def)
  qed
qed

text \<open>A batch: each of its events is sent, in order, or owed, unless the channel is closed.\<close>

lemma emit_all_emission:
  assumes "ow_inv cx st" and "\<forall>ev \<in> set evs. ev_ok st ev" and "sorted_wrt after_rescan (sent cx st @ evs)"
  obtains new where "emission cx st (emit_all cx evs st)" "sent cx (emit_all cx evs st) = sent cx st @ new"
    "subseq new evs" "\<forall>ev \<in> set evs. ev \<in> set new \<or> owed (emit_all cx evs st) ev \<or> shut cx (emit_all cx evs st)"
    "\<forall>ev \<in> set new. debt st (ev_subscription ev) = None"
  using assms
proof (induction evs arbitrary: st thesis)
  case Nil
  then show ?case using Nil(1) [of "[]"] by (simp add: emit_all_def emission_refl)
next
  case (Cons ev evs)
  let ?st = "try_emit cx ev st"
  have all: "emit_all cx (ev # evs) st = emit_all cx evs ?st" by (simp add: emit_all_def)
  have ok: "ev_ok st ev" using Cons.prems(3) by simp
  have fresh: "event_is_rescan ev \<longrightarrow>
      (\<forall>x \<in> set (sent cx st). ev_subscription x = ev_subscription ev \<longrightarrow> below (ev_epoch x) (ev_epoch ev))"
    using Cons.prems(4) by (auto simp: sorted_wrt_append after_rescan_def)
  obtain xs where e: "emission cx st ?st" and xs: "sent cx ?st = sent cx st @ xs" "xs = [] \<or> xs = [ev]"
      "ev \<in> set xs \<or> owed ?st ev \<or> shut cx ?st" "\<forall>x \<in> set xs. debt st (ev_subscription x) = None"
  proof (rule try_emit_emission [OF Cons.prems(2) ok fresh])
    assume a: "emission cx st ?st" "sent cx ?st = sent cx st @ [ev]" "debt st (ev_subscription ev) = None"
    show thesis using that [of "[ev]"] a by simp
  next
    assume a: "emission cx st ?st" "sent cx ?st = sent cx st" "owed ?st ev \<or> shut cx ?st"
    show thesis using that [of "[]"] a by simp
  qed
  have i: "ow_inv cx ?st" by (rule emission_inv [OF e])
  have k: "\<forall>ev \<in> set evs. ev_ok ?st ev" using Cons.prems(3) emission_ev_ok [OF e] by simp
  have srt: "sorted_wrt after_rescan (sent cx ?st @ evs)"
    using Cons.prems(4) xs(1,2) by (auto simp: sorted_wrt_append)
  obtain new where n: "emission cx ?st (emit_all cx evs ?st)" "sent cx (emit_all cx evs ?st) = sent cx ?st @ new"
      "subseq new evs" "\<forall>ev \<in> set evs. ev \<in> set new \<or> owed (emit_all cx evs ?st) ev \<or> shut cx (emit_all cx evs ?st)"
      "\<forall>ev \<in> set new. debt ?st (ev_subscription ev) = None"
    using Cons.IH [OF _ i k srt] by blast
  have "ev \<in> set (xs @ new) \<or> owed (emit_all cx evs ?st) ev \<or> shut cx (emit_all cx evs ?st)"
    using xs(3) n(1) by (auto simp: emission_def)
  moreover have "\<forall>x \<in> set new. debt st (ev_subscription x) = None"
    using n(5) e by (metis emission_def)
  moreover have "subseq (xs @ new) (ev # evs)"
    using xs(2) n(3) by auto
  ultimately show ?case
    using Cons.prems(1) [of "xs @ new"] emission_trans [OF e n(1)] n xs unfolding all by auto
qed

end

end
