(* ===== verification/Owner_Push.thy ===== *)
theory Owner_Push
  imports Owner_Emit
begin

text \<open>
  Batches through the coalescer: \<open>push_all\<close>, \<open>drain_coalescer_due\<close>, \<open>flush_subscription_now\<close> and the
  shutdown drain. An event that leaves the buffer is sent or owed, one shed at a cap is owed, one that
  meets an earlier change of its path is collapsed with it, and everything else is still held.
\<close>

text \<open>Of two changes of one path, a buffered one and a later one, the collapse is what must be settled.\<close>

definition absorbed ::
  "(('c, 'v) event \<Rightarrow> bool) \<Rightarrow> ('c, 'v) event multiset \<Rightarrow> ('c, 'v) event list \<Rightarrow> ('c, 'v) event \<Rightarrow> bool" where
  "absorbed safe buf evs x \<longleftrightarrow> (\<exists>a b. a \<in># buf \<and> b \<in> set evs \<and> same_path a b \<and> (x = a \<or> x = b) \<and>
     (\<forall>z. collapsed a b = Some z \<longrightarrow> safe z))"

lemma absorbed_mono: "absorbed P buf evs x \<Longrightarrow> (\<And>z. P z \<Longrightarrow> Q z) \<Longrightarrow> absorbed Q buf evs x"
  unfolding absorbed_def by blast

definition progress ::
  "('e, 't, 'u, 'w, 'c::linorder, 'v, 'h) site \<Rightarrow> ('e, 't, 'u, 'c, 'v, 'h) owner \<Rightarrow> ('e, 't, 'u, 'c, 'v, 'h) owner \<Rightarrow> bool"
  where
  "progress cx st st' \<longleftrightarrow> ow_inv cx st' \<and> emission_frame st st' \<and>
     (\<forall>ev. owed st ev \<longrightarrow> owed st' ev) \<and> (shut cx st \<longrightarrow> shut cx st') \<and>
     (\<forall>s. debt st s \<noteq> None \<longrightarrow> debt st' s \<noteq> None) \<and> prefix (sent cx st) (sent cx st')"

lemma emission_progress: "emission cx st st' \<Longrightarrow> progress cx st st'"
  by (simp add: emission_def progress_def)

lemma progress_trans: "progress cx st st1 \<Longrightarrow> progress cx st1 st2 \<Longrightarrow> progress cx st st2"
  by (auto simp: progress_def intro: frame_trans prefix_order.trans)

lemma prefix_sent_rescanned: "prefix (sent cx st) (sent cx st') \<Longrightarrow> rescanned cx st ev \<Longrightarrow> rescanned cx st' ev"
  by (auto simp: rescanned_def prefix_def)

lemma progress_settled: "progress cx st st' \<Longrightarrow> settled cx st ev \<Longrightarrow> settled cx st' ev \<or> ev \<in># buffered st"
  using prefix_sent_rescanned [of cx st st' ev] set_mono_prefix [of "sent cx st" "sent cx st'"]
  by (auto simp: progress_def settled_def)

section \<open>Admitting a batch\<close>

lemma admit_all_flow:
  assumes "co_inv co" and "queued_by now co" and "distinct (map ev_subscription evs)"
    and "sorted_wrt after_rescan (S @ map snd (co_ready co))"
    and "\<forall>r \<in> set evs. event_is_rescan r \<longrightarrow>
      (\<forall>x. (x \<in> set S \<or> x \<in># held co) \<and> ev_subscription x = ev_subscription r \<longrightarrow> below (ev_epoch x) (ev_epoch r))"
  obtains sheds co1 where "admit_all clk now evs co = Some (sheds, co1)" "co_inv co1" "queued_by now co1"
    "set sheds \<subseteq> ev_subscription ` set evs"
    "\<forall>x. x \<in># held co1 \<longrightarrow> x \<in># held co \<or> x \<in> set evs \<or>
       (\<exists>a b. a \<in># slots co \<and> b \<in> set evs \<and> same_path a b \<and> collapsed a b = Some x)"
    "\<forall>x. x \<in># held co \<or> x \<in> set evs \<longrightarrow> x \<in># held co1 \<or> ev_subscription x \<in> set sheds \<or>
       absorbed (\<lambda>z. z \<in># held co1) (slots co) evs x"
    "sorted_wrt after_rescan (S @ map snd (co_ready co1))"
  using assms
proof (induction evs arbitrary: co thesis)
  case Nil
  then show ?case by simp
next
  case (Cons ev evs)
  let ?s = "ev_subscription ev"
  obtain shed co2 where a: "admit clk ev now co = Some (shed, co2)" and i2: "co_inv co2"
    using co_inv_admit [OF Cons.prems(2)] by blast
  obtain fl where r2: "co_ready co2 = co_ready co @ map (Pair now) fl"
      and fl: "fl = [] \<or> (\<exists>gs. fl = gs @ [ev] \<and> (\<forall>x \<in> set gs. x \<in># slots co))"
      and sh: "shed = None \<or> shed = Some ?s"
      and bk: "\<forall>x. x \<in># held co2 \<longrightarrow> x \<in># held co \<or> x = ev \<or>
        (\<exists>y. y \<in># slots co \<and> same_path y ev \<and> collapsed y ev = Some x)"
      and slot_back: "\<forall>x. x \<in># slots co2 \<and> ev_subscription x \<noteq> ?s \<longrightarrow> x \<in># slots co"
      and forth: "\<forall>x. x \<in># held co \<or> x = ev \<longrightarrow> x \<in># held co2 \<or> shed = Some (ev_subscription x) \<or>
        absorbed (\<lambda>z. z \<in># held co2) (slots co) [ev] x"
  proof (cases rule: admit_flow [OF Cons.prems(2) a, case_names queued opened merged shed])
    case (queued fl)
    have "x \<in># slots co" if "x \<in> set fl" for x using queued(3) that by simp
    then show thesis using queued that [of "fl @ [ev]"] by (auto simp: held_slots)
  next
    case opened
    then show thesis using that [of "[]"] by (auto simp: held_slots)
  next
    case (merged x)
    have m: "y \<in># slots co2 + {#x#} \<longleftrightarrow> y \<in># slots co \<or> collapsed x ev = Some y" for y
      unfolding merged(5) by (auto split: option.splits)
    have out: "y \<in># slots co2 \<Longrightarrow> y \<in># slots co \<or> collapsed x ev = Some y" for y using m [of y] by auto
    have into: "y \<in># slots co \<or> collapsed x ev = Some y \<Longrightarrow> y \<in># slots co2 \<or> y = x" for y using m [of y] by auto
    have z: "z \<in># slots co2" if c: "collapsed x ev = Some z" for z
    proof (cases "z = x")
      case True
      have "slots co2 + {#x#} = slots co + {#x#}" using merged(5) c True by simp
      then show ?thesis using merged(3) True by simp
    next
      case False
      then show ?thesis using into [of z] c by blast
    qed
    have ab: "absorbed (\<lambda>z. z \<in># held co2) (slots co) [ev] y" if "y = x \<or> y = ev" for y
      unfolding absorbed_def using merged(3,4) that z by (intro exI [of _ x] exI [of _ ev]) (auto simp: held_slots)
    have sub: "ev_subscription y = ?s" if "collapsed x ev = Some y" for y
      using collapsed_props(1) [OF that merged(4)] merged(4) by (simp add: same_path_def)
    show thesis
    proof (rule that [of "[]"])
      show "\<forall>y. y \<in># held co2 \<longrightarrow> y \<in># held co \<or> y = ev \<or> (\<exists>w. w \<in># slots co \<and> same_path w ev \<and> collapsed w ev = Some y)"
        using out merged(2,3,4) by (auto simp: held_slots)
      show "\<forall>y. y \<in># slots co2 \<and> ev_subscription y \<noteq> ?s \<longrightarrow> y \<in># slots co" using out sub by blast
      show "\<forall>y. y \<in># held co \<or> y = ev \<longrightarrow> y \<in># held co2 \<or> shed = Some (ev_subscription y) \<or>
          absorbed (\<lambda>z. z \<in># held co2) (slots co) [ev] y"
        using into ab merged(2) by (auto simp: held_slots)
    qed (use merged in simp_all)
  next
    case shed
    then show thesis using that [of "[]"] by (auto simp: held_slots)
  qed
  have lc: "\<not> event_is_rescan x" if "x \<in># slots co" for x
    using slots_lifecycle [OF Cons.prems(2) that] by (auto simp: event_is_rescan_def is_lifecycle_def)
  have q2: "queued_by now co2" using Cons.prems(3) r2 by (auto simp: queued_by_def)
  have d2: "distinct (map ev_subscription evs)" and new: "\<forall>y \<in> set evs. ev_subscription y \<noteq> ?s"
    using Cons.prems(4) by (auto simp: image_iff)
  have srt: "sorted_wrt after_rescan (S @ map snd (co_ready co2))"
  proof (cases "fl = []")
    case True
    then show ?thesis using Cons.prems(5) by (simp add: r2)
  next
    case False
    then obtain gs where gs: "fl = gs @ [ev]" "\<forall>x \<in> set gs. x \<in># slots co" using fl by blast
    have ar: "after_rescan x ev" if "x \<in> set S \<or> x \<in># held co" for x
      using Cons.prems(6) that by (auto simp: after_rescan_def)
    have "after_rescan x y" if "y \<in> set gs" for x y using lc gs(2) that by (simp add: after_rescan_def)
    moreover from this have "sorted_wrt after_rescan gs" by (induction gs) auto
    ultimately show ?thesis
      using Cons.prems(5) ar gs(2) by (auto simp: r2 gs(1) sorted_wrt_append held_slots comp_def)
  qed
  have below2: "\<forall>r \<in> set evs. event_is_rescan r \<longrightarrow> (\<forall>x. (x \<in> set S \<or> x \<in># held co2) \<and>
      ev_subscription x = ev_subscription r \<longrightarrow> below (ev_epoch x) (ev_epoch r))"
  proof (intro ballI impI allI)
    fix r x assume r: "r \<in> set evs" "event_is_rescan r"
      and x: "(x \<in> set S \<or> x \<in># held co2) \<and> ev_subscription x = ev_subscription r"
    have ne: "ev_subscription x \<noteq> ?s" using r x new by auto
    have "x \<in> set S \<or> x \<in># held co"
    proof (cases "x \<in> set S")
      case False
      then have "x \<in># held co2" using x by blast
      then consider "x \<in># held co" | "x = ev" | y where "same_path y ev" "collapsed y ev = Some x"
        using bk by blast
      then show ?thesis
      proof cases
        case (3 y)
        then show ?thesis using ne collapsed_props(1) [OF 3(2,1)] by (simp add: same_path_def)
      qed (use ne in auto)
    qed simp
    then show "below (ev_epoch x) (ev_epoch r)" using Cons.prems(6) r x by (meson list.set_intros(2))
  qed
  obtain sheds co1 where n: "admit_all clk now evs co2 = Some (sheds, co1)" "co_inv co1" "queued_by now co1"
      "set sheds \<subseteq> ev_subscription ` set evs"
      "\<forall>x. x \<in># held co1 \<longrightarrow> x \<in># held co2 \<or> x \<in> set evs \<or>
         (\<exists>a b. a \<in># slots co2 \<and> b \<in> set evs \<and> same_path a b \<and> collapsed a b = Some x)"
      "\<forall>x. x \<in># held co2 \<or> x \<in> set evs \<longrightarrow> x \<in># held co1 \<or> ev_subscription x \<in> set sheds \<or>
         absorbed (\<lambda>z. z \<in># held co1) (slots co2) evs x"
      "sorted_wrt after_rescan (S @ map snd (co_ready co1))"
    using Cons.IH [OF _ i2 q2 d2 srt below2] by blast
  let ?sheds = "case shed of None \<Rightarrow> sheds | Some s \<Rightarrow> s # sheds"
  have mine: "x \<in># held co1" if "x \<in># held co2" "ev_subscription x = ?s" for x
  proof -
    have "ev_subscription x \<notin> set sheds" using n(4) Cons.prems(4) that(2) by auto
    moreover have "\<not> absorbed P (slots co2) evs x" for P
      using new that(2) by (auto simp: absorbed_def same_path_def)
    ultimately show ?thesis using n(6) that(1) by blast
  qed
  have old: "a \<in># slots co" if "a \<in># slots co2" "b \<in> set evs" "same_path a b" for a b
    using that slot_back new by (auto simp: same_path_def)
  have lift: "absorbed P (slots co) (ev # evs) x" if "absorbed P (slots co2) evs x" for P x
    using that old unfolding absorbed_def by (metis list.set_intros(2))
  have fwd: "x \<in># held co1 \<or> ev_subscription x \<in> set ?sheds \<or> absorbed (\<lambda>z. z \<in># held co1) (slots co) (ev # evs) x"
    if x: "x \<in># held co \<or> x \<in> set (ev # evs)" for x
  proof -
    consider "x \<in># held co2 \<or> x \<in> set evs" | "shed = Some (ev_subscription x)" |
        "absorbed (\<lambda>z. z \<in># held co2) (slots co) [ev] x"
      using forth x by auto
    then show ?thesis
    proof cases
      case 1
      then have "x \<in># held co1 \<or> ev_subscription x \<in> set sheds \<or> absorbed (\<lambda>z. z \<in># held co1) (slots co2) evs x"
        using n(6) by blast
      then show ?thesis using lift by (auto split: option.splits)
    next
      case 2
      then show ?thesis by simp
    next
      case 3
      then obtain a where a: "a \<in># slots co" "same_path a ev" "x = a \<or> x = ev"
          "\<forall>z. collapsed a ev = Some z \<longrightarrow> z \<in># held co2" by (auto simp: absorbed_def)
      have "z \<in># held co1" if z: "collapsed a ev = Some z" for z
        using mine [of z] a(4) z collapsed_props(1) [OF z a(2)] a(2) by (auto simp: same_path_def)
      then show ?thesis using a by (auto simp: absorbed_def)
    qed
  qed
  have bwd: "x \<in># held co \<or> x \<in> set (ev # evs) \<or>
      (\<exists>a b. a \<in># slots co \<and> b \<in> set (ev # evs) \<and> same_path a b \<and> collapsed a b = Some x)"
    if x: "x \<in># held co1" for x
  proof -
    consider "x \<in># held co2" | "x \<in> set evs" |
        a b where "a \<in># slots co2" "b \<in> set evs" "same_path a b" "collapsed a b = Some x"
      using n(5) x by blast
    then show ?thesis
    proof cases
      case 1
      then show ?thesis using bk by auto
    next
      case 2
      then show ?thesis by simp
    next
      case 3
      then have "a \<in># slots co" using slot_back new by (auto simp: same_path_def)
      then show ?thesis using 3 by auto
    qed
  qed
  have sub: "set ?sheds \<subseteq> ev_subscription ` set (ev # evs)" using n(4) sh by auto
  have all: "admit_all clk now (ev # evs) co = Some (?sheds, co1)" using a n(1) by simp
  show ?case by (rule Cons.prems(1) [OF all n(2,3) sub _ _ n(7)]) (use bwd fwd in blast)+
qed

section \<open>Pushing a batch\<close>

lemma coalescer_fields [simp]:
  "debt (st\<lparr>ow_coalescer := c\<rparr>) = debt st" "minted (st\<lparr>ow_coalescer := c\<rparr>) = minted st"
  "ev_ok (st\<lparr>ow_coalescer := c\<rparr>) = ev_ok st" "planes_ok (st\<lparr>ow_coalescer := c\<rparr>) = planes_ok st"
  "owed (st\<lparr>ow_coalescer := c\<rparr>) = owed st" "sent cx (st\<lparr>ow_coalescer := c\<rparr>) = sent cx st"
  "shut cx (st\<lparr>ow_coalescer := c\<rparr>) = shut cx st" "stream_ok cx (st\<lparr>ow_coalescer := c\<rparr>) = stream_ok cx st"
  "debt_ok cx (st\<lparr>ow_coalescer := c\<rparr>) = debt_ok cx st"
  by (simp_all add: debt_def minted_def ev_ok_def planes_ok_def owed_def sent_def shut_def stream_ok_def
      debt_ok_def fun_eq_iff)

lemma coalescer_swap:
  assumes "ow_inv cx st" and "ow_coalescer st = Some co" and "at_rest co2" and "\<forall>x. x \<in># slots co2 \<longrightarrow> ev_ok st x"
  shows "progress cx st (st\<lparr>ow_coalescer := Some co2\<rparr>)"
  using assms by (simp add: progress_def ow_inv_def buffer_ok_def buffered_def emission_frame_def)

lemma ev_ok_collapsed:
  assumes "ev_ok st a" and "ev_ok st b" and "same_path a b" and "collapsed a b = Some z"
  shows "ev_ok st z"
  using assms collapsed_props [OF assms(4,3)]
  by (auto simp: ev_ok_def same_path_def is_lifecycle_def split: event_kind.splits)

lemma ordered_batch:
  assumes "stream_ok cx st" and "distinct (map ev_subscription evs)"
    and "\<forall>r \<in> set evs. event_is_rescan r \<longrightarrow>
      (\<forall>x \<in> set (sent cx st). ev_subscription x = ev_subscription r \<longrightarrow> below (ev_epoch x) (ev_epoch r))"
  shows "sorted_wrt after_rescan (sent cx st @ evs)"
proof -
  have "sorted_wrt after_rescan evs"
    using assms(2) by (induction evs) (auto simp: after_rescan_def image_iff)
  then show ?thesis using assms(1,3) by (auto simp: sorted_wrt_append stream_ok_def after_rescan_def)
qed

definition landed :: "('e, 't, 'u, 'w, 'c, 'v, 'h) site \<Rightarrow> ('e, 't, 'u, 'c, 'v, 'h) owner \<Rightarrow> ('c, 'v) event \<Rightarrow> bool" where
  "landed cx st x \<longleftrightarrow> x \<in> set (sent cx st) \<or> owed st x \<or> shut cx st"

lemma landed_settled: "landed cx st x \<Longrightarrow> settled cx st x"
  by (auto simp: landed_def settled_def)

context delivery
begin

lemma read_clock_cases:
  obtains now e where "read_clock cx st = (now, st\<lparr>ow_world := e\<rparr>)" "advances (st_world cx) (ow_world st) e"
proof -
  obtain now e where "wd_now (st_world cx) (ow_world st) = (now, e)" by fastforce
  with wd.now [of "ow_world st"] that show thesis by (simp add: read_clock_def)
qed

lemma park_all_emission:
  assumes "ow_inv cx st"
  shows "emission cx st (park_all cx subs st) \<and> sent cx (park_all cx subs st) = sent cx st \<and>
    (\<forall>ev. ev_ok st ev \<and> ev_subscription ev \<in> set subs \<longrightarrow> owed (park_all cx subs st) ev)"
  using assms
proof (induction subs arbitrary: st)
  case Nil
  then show ?case by (simp add: park_all_def emission_refl)
next
  case (Cons s subs)
  let ?st = "park_rescan cx s st"
  have eq: "park_all cx (s # subs) st = park_all cx subs ?st" by (simp add: park_all_def)
  note p = park_rescan_emission [OF Cons.prems, of s]
  note ih = Cons.IH [OF emission_inv [OF p(1)]]
  have "owed (park_all cx subs ?st) ev" if "ev_ok st ev" "ev_subscription ev \<in> set (s # subs)" for ev
  proof (cases "ev_subscription ev = s")
    case True
    then show ?thesis using p(2) that(1) ih by (auto simp: emission_def)
  next
    case False
    then show ?thesis using ih that emission_ev_ok [OF p(1) that(1)] by simp
  qed
  then show ?case using ih p emission_trans unfolding eq by (metis (no_types, lifting))
qed

lemma emit_batch:
  assumes "ow_inv cx st" and "\<forall>ev \<in> set evs. ev_ok st ev" and "sorted_wrt after_rescan (sent cx st @ evs)"
  shows "emission cx st (emit_all cx evs st)" and "\<forall>x \<in> set evs. landed cx (emit_all cx evs st) x"
proof -
  obtain new where e: "emission cx st (emit_all cx evs st)" "sent cx (emit_all cx evs st) = sent cx st @ new"
      "\<forall>ev \<in> set evs. ev \<in> set new \<or> owed (emit_all cx evs st) ev \<or> shut cx (emit_all cx evs st)"
    using emit_all_emission [OF assms] by metis
  show "emission cx st (emit_all cx evs st)" by (rule e(1))
  show "\<forall>x \<in> set evs. landed cx (emit_all cx evs st) x" using e(2,3) by (auto simp: landed_def)
qed

text \<open>The common tail: drain at the instant of the queueing, park what was shed, emit what came out.\<close>

lemma drain_emit:
  assumes inv: "ow_inv cx st" and co: "ow_coalescer st = Some co"
    and ok: "co_inv co1" "queued_by now co1" "\<forall>x. x \<in># held co1 \<longrightarrow> ev_ok st x"
    and srt: "sorted_wrt after_rescan (sent cx st @ map snd (co_ready co1))"
  obtains ready co2 st' where "drain_ready now co1 = Some (ready, co2)"
    "st' = emit_all cx ready (park_all cx sheds (st\<lparr>ow_coalescer := Some co2\<rparr>))"
    "progress cx st st'" "\<forall>z. z \<in># held co1 \<longrightarrow> settled cx st' z"
    "\<forall>x. ev_ok st x \<and> ev_subscription x \<in> set sheds \<longrightarrow> settled cx st' x"
    "\<forall>z \<in> snd ` set (co_ready co1). landed cx st' z" "\<forall>x. x \<in># buffered st' \<longrightarrow> x \<in># slots co1"
proof -
  obtain co2 due where d: "drain_ready now co1 = Some (map snd (co_ready co1) @ due, co2)" "at_rest co2"
      "slots co1 = mset due + slots co2"
    using drain_flow [OF ok(1,2)] by blast
  let ?ready = "map snd (co_ready co1) @ due"
  let ?st2 = "st\<lparr>ow_coalescer := Some co2\<rparr>"
  let ?st3 = "park_all cx sheds ?st2"
  let ?st4 = "emit_all cx ?ready ?st3"
  have parts: "x \<in># held co1 \<longleftrightarrow> x \<in> set ?ready \<or> x \<in># slots co2" for x
    by (auto simp: held_slots d(3))
  have p2: "progress cx st ?st2"
    by (rule coalescer_swap [OF inv co d(2)]) (use ok(3) parts in blast)
  then have i2: "ow_inv cx ?st2" by (simp add: progress_def)
  note p3 = park_all_emission [OF i2, of sheds]
  have e3: "emission cx ?st2 ?st3" and i3: "ow_inv cx ?st3" using p3 emission_inv by blast+
  have ok3: "\<forall>x \<in> set ?ready. ev_ok ?st3 x"
  proof
    fix x assume "x \<in> set ?ready"
    then have "x \<in># held co1" using parts by blast
    with ok(3) have "ev_ok ?st2 x" by simp
    then show "ev_ok ?st3 x" by (rule emission_ev_ok [OF e3])
  qed
  have "\<not> event_is_rescan y" if "y \<in> set due" for y
    using slots_lifecycle [OF ok(1), of y] that d(3) by (auto simp: event_is_rescan_def is_lifecycle_def)
  then have ar: "after_rescan x y" if "y \<in> set due" for x y using that by (simp add: after_rescan_def)
  then have "sorted_wrt after_rescan due" by (induction due) auto
  with ar srt have "sorted_wrt after_rescan ((sent cx st @ map snd (co_ready co1)) @ due)"
    unfolding sorted_wrt_append [of _ "sent cx st @ map snd (co_ready co1)"] by blast
  moreover have "sent cx ?st3 = sent cx st" using p3 by simp
  ultimately have srt: "sorted_wrt after_rescan (sent cx ?st3 @ ?ready)" by simp
  note e4 = emit_batch [OF i3 ok3 srt]
  have e24: "emission cx ?st2 ?st4" by (rule emission_trans [OF e3 e4(1)])
  have "settled cx ?st4 z" if "z \<in># held co1" for z
  proof (cases "z \<in> set ?ready")
    case True
    then show ?thesis using e4(2) landed_settled by blast
  next
    case False
    then have "z \<in># slots co2" using that parts by blast
    then have "settled cx ?st2 z" by (simp add: settled_def buffered_def)
    then show ?thesis by (rule keepsD [OF emission_keeps [OF e24]])
  qed
  moreover have "settled cx ?st4 x" if "ev_ok st x" "ev_subscription x \<in> set sheds" for x
    using p3 that e4(1) by (auto simp: settled_def emission_def)
  moreover have "x \<in># slots co1" if "x \<in># buffered ?st4" for x
  proof -
    have "x \<in># buffered ?st2" using e24 that by (simp add: emission_def)
    then show ?thesis by (simp add: buffered_def d(3))
  qed
  moreover have "progress cx st ?st4" by (rule progress_trans [OF p2 emission_progress [OF e24]])
  ultimately show thesis using that [OF d(1) refl] e4(2) by auto
qed

lemma push_all_progress:
  assumes inv: "ow_inv cx st" and ok: "\<forall>ev \<in> set evs. ev_ok st ev" and dis: "distinct (map ev_subscription evs)"
    and fresh: "\<forall>r \<in> set evs. event_is_rescan r \<longrightarrow> (\<forall>x. (x \<in> set (sent cx st) \<or> x \<in># buffered st) \<and>
      ev_subscription x = ev_subscription r \<longrightarrow> below (ev_epoch x) (ev_epoch r))"
  obtains st' where "push_all cx evs st = Some st'" "progress cx st st'"
    "\<forall>x. settled cx st x \<or> x \<in> set evs \<longrightarrow> settled cx st' x \<or> absorbed (settled cx st') (buffered st) evs x"
proof (cases "ow_coalescer st")
  case None
  have str: "stream_ok cx st" using inv by (simp add: ow_inv_def)
  have "sorted_wrt after_rescan (sent cx st @ evs)"
    by (rule ordered_batch [OF str dis]) (use fresh in blast)
  note e = emit_batch [OF inv ok this]
  have "push_all cx evs st = Some (emit_all cx evs st)" using None by (simp add: push_all_def)
  then show thesis
    using that e emission_progress [OF e(1)] keepsD [OF emission_keeps [OF e(1)]] landed_settled by blast
next
  case (Some co)
  obtain now e where rc: "read_clock cx st = (now, st\<lparr>ow_world := e\<rparr>)"
      and adv: "advances (st_world cx) (ow_world st) e" using read_clock_cases .
  let ?st1 = "st\<lparr>ow_world := e\<rparr>"
  have e1: "emission cx st ?st1" by (rule advance_emission [OF adv inv])
  have i1: "ow_inv cx ?st1" by (rule emission_inv [OF e1])
  have sent1: "sent cx ?st1 = sent cx st" using advance_core [OF adv] by (simp add: core_same_def)
  have rest: "co_inv co" "co_ready co = []" and buf: "buffered st = slots co"
    using inv Some by (auto simp: ow_inv_def buffer_ok_def at_rest_def buffered_def)
  have held: "x \<in># held co \<longleftrightarrow> x \<in># buffered st" for x by (simp add: held_slots rest(2) buf)
  have bok: "ev_ok st x" if "x \<in># buffered st" for x using inv that by (simp add: ow_inv_def buffer_ok_def)
  have q0: "queued_by now co" by (simp add: queued_by_def rest(2))
  have s0: "sorted_wrt after_rescan (sent cx st @ map snd (co_ready co))"
    using inv by (simp add: rest(2) ow_inv_def stream_ok_def)
  have f0: "\<forall>r \<in> set evs. event_is_rescan r \<longrightarrow> (\<forall>x. (x \<in> set (sent cx st) \<or> x \<in># held co) \<and>
      ev_subscription x = ev_subscription r \<longrightarrow> below (ev_epoch x) (ev_epoch r))"
    using fresh held by simp
  obtain sheds co1 where a: "admit_all (st_clock cx) now evs co = Some (sheds, co1)" "co_inv co1" "queued_by now co1"
      "set sheds \<subseteq> ev_subscription ` set evs"
      "\<forall>x. x \<in># held co1 \<longrightarrow> x \<in># held co \<or> x \<in> set evs \<or>
         (\<exists>a b. a \<in># slots co \<and> b \<in> set evs \<and> same_path a b \<and> collapsed a b = Some x)"
      "\<forall>x. x \<in># held co \<or> x \<in> set evs \<longrightarrow> x \<in># held co1 \<or> ev_subscription x \<in> set sheds \<or>
         absorbed (\<lambda>z. z \<in># held co1) (slots co) evs x"
      "sorted_wrt after_rescan (sent cx st @ map snd (co_ready co1))"
    using admit_all_flow [OF rest(1) q0 dis s0 f0] by blast
  have ok1: "\<forall>x. x \<in># held co1 \<longrightarrow> ev_ok ?st1 x"
    using a(5) ok bok held ev_ok_collapsed buf unfolding world_fields(4) by metis
  have srt: "sorted_wrt after_rescan (sent cx ?st1 @ map snd (co_ready co1))" using a(7) sent1 by simp
  have c1: "ow_coalescer ?st1 = Some co" using Some by simp
  obtain ready co2 st4 where d: "drain_ready now co1 = Some (ready, co2)"
      "st4 = emit_all cx ready (park_all cx sheds (?st1\<lparr>ow_coalescer := Some co2\<rparr>))"
      "progress cx ?st1 st4" "\<forall>z. z \<in># held co1 \<longrightarrow> settled cx st4 z"
      "\<forall>x. ev_ok ?st1 x \<and> ev_subscription x \<in> set sheds \<longrightarrow> settled cx st4 x"
    by (rule drain_emit [OF i1 c1 a(2,3) ok1 srt, of sheds]) blast
  have push: "push_all cx evs st = Some st4"
    using Some rc a(1) d(1,2) by (simp add: push_all_def)
  have prog: "progress cx st st4" by (rule progress_trans [OF emission_progress [OF e1] d(3)])
  have S: "settled cx st4 z" if "z \<in># held co1" for z using d(4) that by blast
  have shed: "settled cx st4 x" if "ev_ok st x" "ev_subscription x \<in> set sheds" for x
    using d(5) that by simp
  have "settled cx st4 x \<or> absorbed (settled cx st4) (buffered st) evs x"
    if x: "settled cx st x \<or> x \<in> set evs" for x
  proof (cases "x \<in># held co \<or> x \<in> set evs")
    case True
    then consider "x \<in># held co1" | "ev_subscription x \<in> set sheds" |
        "absorbed (\<lambda>z. z \<in># held co1) (slots co) evs x" using a(6) by blast
    then show ?thesis
    proof cases
      case 2
      then show ?thesis using shed [of x] True ok bok held by blast
    next
      case 3
      then show ?thesis using absorbed_mono [OF 3, of "settled cx st4"] S by (simp add: buf)
    qed (use S in blast)
  next
    case False
    then show ?thesis using x progress_settled [OF prog] held by blast
  qed
  with that [OF push prog] show thesis by blast
qed

lemma drain_is_push: "drain_coalescer_due cx st = push_all cx [] st"
  by (simp add: drain_coalescer_due_def push_all_def emit_all_def park_all_def Let_def split: option.splits prod.splits)

lemma drain_due_progress:
  assumes "ow_inv cx st"
  obtains st' where "drain_coalescer_due cx st = Some st'" "progress cx st st'" "keeps_settled cx st st'"
proof -
  obtain st' where "push_all cx [] st = Some st'" "progress cx st st'"
      "\<forall>x. settled cx st x \<or> x \<in> set [] \<longrightarrow> settled cx st' x \<or> absorbed (settled cx st') (buffered st) [] x"
    using push_all_progress [OF assms, of "[]"] by auto
  then show thesis using that by (auto simp: drain_is_push keeps_settled_def absorbed_def)
qed

text \<open>
  Flushing one subscription: everything it had buffered is sent or owed, unless the channel is closed,
  and nothing of it stays behind.
\<close>

lemma flush_now_progress:
  assumes inv: "ow_inv cx st"
  obtains clean st' where "flush_subscription_now cx sub st = Some (clean, st')" "progress cx st st'"
    "keeps_settled cx st st'" "clean \<longleftrightarrow> \<not> parked_contains sub (ow_needs st')"
    "\<forall>x. x \<in># buffered st \<and> ev_subscription x = sub \<longrightarrow> landed cx st' x"
    "\<forall>x. x \<in># buffered st' \<longrightarrow> ev_subscription x \<noteq> sub"
proof -
  obtain now e where rc: "read_clock cx st = (now, st\<lparr>ow_world := e\<rparr>)"
      and adv: "advances (st_world cx) (ow_world st) e" using read_clock_cases .
  let ?st1 = "st\<lparr>ow_world := e\<rparr>"
  have e1: "emission cx st ?st1" by (rule advance_emission [OF adv inv])
  have i1: "ow_inv cx ?st1" by (rule emission_inv [OF e1])
  show thesis
  proof (cases "ow_coalescer st")
    case None
    then have "flush_subscription_now cx sub st = Some (\<not> parked_contains sub (ow_needs ?st1), ?st1)"
      using rc by (simp add: flush_subscription_now_def)
    then show thesis
      using that e1 emission_progress [OF e1] emission_keeps [OF e1] None by (auto simp: buffered_def)
  next
    case (Some co)
    have rest: "co_inv co" "co_ready co = []" and buf: "buffered st = slots co"
      using inv Some by (auto simp: ow_inv_def buffer_ok_def at_rest_def buffered_def)
    obtain co1 fl where f: "flush_subscription sub now co = Some co1" "co_inv co1"
        "co_ready co1 = co_ready co @ map (Pair now) fl"
        "slots co1 = filter_mset (\<lambda>x. ev_subscription x \<noteq> sub) (slots co)"
        "mset fl = filter_mset (\<lambda>x. ev_subscription x = sub) (slots co)"
      using flush_flow [OF rest(1)] by blast
    have fl: "x \<in> set fl \<longleftrightarrow> x \<in># slots co \<and> ev_subscription x = sub" for x
      using arg_cong [OF f(5), of set_mset] by auto
    have h: "x \<in># held co1 \<longleftrightarrow> x \<in># buffered st" for x
      by (auto simp: held_slots f(3,4) rest(2) image_image fl buf)
    have q: "queued_by now co1" by (auto simp: queued_by_def f(3) rest(2))
    have ok1: "\<forall>x. x \<in># held co1 \<longrightarrow> ev_ok ?st1 x" using inv h by (simp add: ow_inv_def buffer_ok_def)
    have "\<not> event_is_rescan y" if "y \<in> set fl" for y
      using slots_lifecycle [OF rest(1), of y] that fl by (auto simp: event_is_rescan_def is_lifecycle_def)
    then have ar: "after_rescan x y" if "y \<in> set fl" for x y using that by (simp add: after_rescan_def)
    then have "sorted_wrt after_rescan fl" by (induction fl) auto
    with ar i1 have srt: "sorted_wrt after_rescan (sent cx ?st1 @ map snd (co_ready co1))"
      by (simp add: f(3) rest(2) sorted_wrt_append ow_inv_def stream_ok_def comp_def)
    have c1: "ow_coalescer ?st1 = Some co" using Some by simp
    obtain ready co2 st4 where d: "drain_ready now co1 = Some (ready, co2)"
        "st4 = emit_all cx ready (park_all cx [] (?st1\<lparr>ow_coalescer := Some co2\<rparr>))"
        "progress cx ?st1 st4" "\<forall>z. z \<in># held co1 \<longrightarrow> settled cx st4 z"
        "\<forall>z \<in> snd ` set (co_ready co1). landed cx st4 z" "\<forall>x. x \<in># buffered st4 \<longrightarrow> x \<in># slots co1"
      by (rule drain_emit [OF i1 c1 f(2) q ok1 srt, of "[]"]) blast
    have prog: "progress cx st st4" by (rule progress_trans [OF emission_progress [OF e1] d(3)])
    have "flush_subscription_now cx sub st = Some (\<not> parked_contains sub (ow_needs st4), st4)"
      using Some rc f(1) d(1,2) by (simp add: flush_subscription_now_def park_all_def)
    moreover have "keeps_settled cx st st4"
      using progress_settled [OF prog] d(4) h by (auto simp: keeps_settled_def)
    moreover have "\<forall>x. x \<in># buffered st \<and> ev_subscription x = sub \<longrightarrow> landed cx st4 x"
      using d(5) fl by (auto simp: f(3) rest(2) image_image buf)
    moreover have "\<forall>x. x \<in># buffered st4 \<longrightarrow> ev_subscription x \<noteq> sub" using d(6) by (auto simp: f(4))
    ultimately show thesis using that [OF _ prog] by blast
  qed
qed

end

end
