(* ===== verification/Owner_Flush.thy ===== *)
theory Owner_Flush
  imports Owner_Push
begin

text \<open>
  Offering the parked rescans: what a pass delivers, in which order, and where the next one resumes;
  a delivered rescan settles everything its debt stood for. Then the shutdown drain.
\<close>

section \<open>Operations that serve the consumer\<close>

definition serves ::
  "('e, 't, 'u, 'w, 'c::linorder, 'v, 'h) site \<Rightarrow> ('e, 't, 'u, 'c, 'v, 'h) owner \<Rightarrow> ('e, 't, 'u, 'c, 'v, 'h) owner \<Rightarrow> bool"
  where
  "serves cx st st' \<longleftrightarrow> ow_inv cx st' \<and> emission_frame st st' \<and> keeps_settled cx st st' \<and>
     (shut cx st \<longrightarrow> shut cx st') \<and> prefix (sent cx st) (sent cx st')"

lemma serves_refl: "ow_inv cx st \<Longrightarrow> serves cx st st"
  by (simp add: serves_def)

lemma serves_trans: "serves cx st st1 \<Longrightarrow> serves cx st1 st2 \<Longrightarrow> serves cx st st2"
  by (auto simp: serves_def intro: frame_trans keeps_trans prefix_order.trans)

lemma emission_serves: "emission cx st st' \<Longrightarrow> serves cx st st'"
  by (simp add: emission_def serves_def)

lemma progress_serves: "progress cx st st' \<Longrightarrow> keeps_settled cx st st' \<Longrightarrow> serves cx st st'"
  by (simp add: progress_def serves_def)

lemma core_same_serves: "core_same cx st st' \<Longrightarrow> ow_inv cx st \<Longrightarrow> emission_frame st st' \<Longrightarrow> serves cx st st'"
  by (rule emission_serves [OF core_same_emission])

lemma serves_inv: "serves cx st st' \<Longrightarrow> ow_inv cx st'"
  by (simp add: serves_def)

lemma serves_ev_ok: "serves cx st st' \<Longrightarrow> ev_ok st ev \<Longrightarrow> ev_ok st' ev"
  unfolding serves_def using ev_ok_frame by blast

section \<open>The order of a pass\<close>

definition turn_order :: "subscription option \<Rightarrow> bool \<Rightarrow> ('c, 'v) parked_plane \<Rightarrow> subscription list" where
  "turn_order resume exclusive m =
     (let ahead = (\<lambda>k. case resume of None \<Rightarrow> True | Some p \<Rightarrow> if exclusive then p < k else p \<le> k)
      in filter ahead (map fst m) @ filter (\<lambda>k. \<not> ahead k) (map fst m))"

lemma first_from_turn: "first_from r x m = (case turn_order r x m of [] \<Rightarrow> None | k # _ \<Rightarrow> Some k)"
proof -
  let ?P = "\<lambda>k. case r of None \<Rightarrow> True | Some p \<Rightarrow> if x then p < k else p \<le> k"
  show ?thesis
  proof (cases "filter ?P (map fst m)")
    case Nil
    then have "filter (\<lambda>k. \<not> ?P k) (map fst m) = map fst m" by (simp add: filter_empty_conv filter_id_conv)
    with Nil show ?thesis by (cases m) (auto simp: first_from_def turn_order_def Let_def)
  next
    case (Cons k ks)
    then show ?thesis by (simp add: first_from_def turn_order_def Let_def)
  qed
qed

lemma set_turn_order: "set (turn_order r x m) = fst ` set m"
  by (auto simp: turn_order_def Let_def)

lemma length_turn_order: "length (turn_order r x m) = length m"
  using sum_length_filter_compl [of "\<lambda>k. case r of None \<Rightarrow> True | Some p \<Rightarrow> if x then p < k else p \<le> k" "map fst m"]
  by (simp add: turn_order_def Let_def)

lemma turn_order_distinct: "btm_ok m \<Longrightarrow> distinct (turn_order r x m)"
  using btm_ok_distinct [of m] by (auto simp: turn_order_def Let_def)

lemma map_fst_btm_remove: "map fst (btm_remove k m) = filter (\<lambda>j. j \<noteq> k) (map fst m)"
  by (induction m) (auto simp: btm_remove_def)

text \<open>Serving the first key and probing on past it continues with the rest of the order.\<close>

lemma turn_order_step:
  assumes "btm_ok m" and "turn_order r x m = k # ks"
  shows "turn_order (Some k) True (btm_remove k m) = ks"
proof -
  let ?P = "\<lambda>k. case r of None \<Rightarrow> True | Some p \<Rightarrow> if x then p < k else p \<le> k"
  let ?l = "map fst m"
  have srt: "sorted_wrt (<) ?l" using assms(1) by simp
  have up: "?P b" if "?P a" "a < b" for a b
    using that by (auto split: option.splits if_splits)
  have eq: "turn_order (Some k) True (btm_remove k m) =
      filter (\<lambda>j. k < j) ?l @ filter (\<lambda>j. j < k) ?l"
  proof -
    have "filter (\<lambda>j. \<not> k < j) (filter (\<lambda>j. j \<noteq> k) ?l) = filter (\<lambda>j. j < k) ?l"
      unfolding filter_filter by (rule filter_cong [OF refl]) auto
    moreover have "filter (\<lambda>j. k < j) (filter (\<lambda>j. j \<noteq> k) ?l) = filter (\<lambda>j. k < j) ?l"
      unfolding filter_filter by (rule filter_cong [OF refl]) auto
    ultimately show ?thesis by (simp add: turn_order_def map_fst_btm_remove)
  qed
  have head: "zs = filter (\<lambda>j. k < j) (k # zs)" if "sorted_wrt (<) (k # zs)" for zs
    using that by simp
  show ?thesis
  proof (cases "filter ?P ?l")
    case Nil
    then have "filter (\<lambda>k. \<not> ?P k) ?l = ?l" by (simp add: filter_empty_conv filter_id_conv)
    then have l: "?l = k # ks" using assms(2) Nil by (simp add: turn_order_def)
    then have "filter (\<lambda>j. k < j) ?l = ks" using srt by simp
    moreover have "filter (\<lambda>j. j < k) ?l = []" using srt unfolding l by (auto simp: filter_empty_conv)
    ultimately show ?thesis unfolding eq by simp
  next
    case (Cons j js)
    then have jk: "j = k" and ks: "ks = js @ filter (\<lambda>k. \<not> ?P k) ?l"
      using assms(2) by (simp_all add: turn_order_def)
    have mem: "i \<in> set (k # js) \<longleftrightarrow> i \<in> set ?l \<and> ?P i" for i
      using arg_cong [OF Cons, of set] unfolding jk set_filter by blast
    have Pk: "?P k" using mem [of k] by simp
    have srtP: "sorted_wrt (<) (k # js)" using sorted_wrt_filter [OF srt, of ?P] Cons jk by simp
    have "k < i \<longleftrightarrow> ?P i \<and> i \<noteq> k" if "i \<in> set ?l" for i
    proof
      assume "k < i"
      then show "?P i \<and> i \<noteq> k" using up [OF Pk] by auto
    next
      assume "?P i \<and> i \<noteq> k"
      then have "i \<in> set js" using mem [of i] that by simp
      then show "k < i" using srtP by simp
    qed
    then have "filter (\<lambda>i. k < i) ?l = filter (\<lambda>i. i \<noteq> k) (filter ?P ?l)"
      unfolding filter_filter by (intro filter_cong) auto
    also have "\<dots> = js" unfolding Cons jk using srtP by (auto simp: filter_id_conv)
    finally have up_part: "filter (\<lambda>i. k < i) ?l = js" .
    have "i < k \<longleftrightarrow> \<not> ?P i" if "i \<in> set ?l" for i
    proof
      assume "i < k"
      show "\<not> ?P i"
      proof
        assume "?P i"
        then have "i \<in> set (k # js)" using mem [of i] that by blast
        then show False using srtP \<open>i < k\<close> by auto
      qed
    next
      assume "\<not> ?P i"
      then show "i < k" using up [OF Pk, of i] Pk linorder_less_linear [of i k] by blast
    qed
    then have "filter (\<lambda>i. i < k) ?l = filter (\<lambda>i. \<not> ?P i) ?l" by (intro filter_cong) auto
    then show ?thesis unfolding eq up_part ks by simp
  qed
qed

section \<open>One offer\<close>

lemma take_needs_debt:
  assumes "planes_ok st" and "map_of (ow_needs st) sub = Some p"
  shows "debt (st\<lparr>ow_needs := parked_take sub (ow_needs st)\<rparr>) = (debt st)(sub := None)"
    and "debt st sub = Some p"
proof -
  have "map_of (ow_suppressed st) sub = None" using assms by (auto simp: planes_ok_def)
  then show "debt (st\<lparr>ow_needs := parked_take sub (ow_needs st)\<rparr>) = (debt st)(sub := None)"
    by (auto simp: debt_def map_add_def fun_eq_iff)
  show "debt st sub = Some p" using assms(2) by (simp add: debt_def)
qed

lemma needs_readings [simp]:
  "sent cx (st\<lparr>ow_needs := m\<rparr>) = sent cx st" "shut cx (st\<lparr>ow_needs := m\<rparr>) = shut cx st"
  "buffered (st\<lparr>ow_needs := m\<rparr>) = buffered st" "minted (st\<lparr>ow_needs := m\<rparr>) = minted st"
  "ev_ok (st\<lparr>ow_needs := m\<rparr>) = ev_ok st" "stream_ok cx (st\<lparr>ow_needs := m\<rparr>) = stream_ok cx st"
  "buffer_ok (st\<lparr>ow_needs := m\<rparr>) = buffer_ok st" "debt_ok cx (st\<lparr>ow_needs := m\<rparr>) = debt_ok cx st"
  by (simp_all add: sent_def shut_def buffered_def minted_def ev_ok_def stream_ok_def buffer_ok_def debt_ok_def
      fun_eq_iff)

lemma planes_ok_take: "planes_ok st \<Longrightarrow> planes_ok (st\<lparr>ow_needs := parked_take sub (ow_needs st)\<rparr>)"
  by (auto simp: planes_ok_def btm_ok_parked_take)

text \<open>A delivered debt: the rescan stands above everything sent before it, and for all the debt stood for.\<close>

lemma deliver_debt:
  assumes inv: "ow_inv cx st" and p: "map_of (ow_needs st) sub = Some p"
    and s: "sent cx (st\<lparr>ow_world := e\<rparr>) = sent cx st @ [parked_event sub p]"
      "shut cx st \<longrightarrow> shut cx (st\<lparr>ow_world := e\<rparr>)"
  shows "serves cx st (st\<lparr>ow_world := e, ow_needs := parked_take sub (ow_needs st)\<rparr>)"
proof -
  let ?st = "st\<lparr>ow_world := e\<rparr>" and ?r = "parked_event sub p"
  let ?st' = "?st\<lparr>ow_needs := parked_take sub (ow_needs st)\<rparr>"
  have pl: "planes_ok st" "planes_ok ?st" using inv by (simp_all add: ow_inv_def)
  have need: "map_of (ow_needs ?st) sub = Some p" using p by simp
  have d: "debt ?st' = (debt st)(sub := None)" "debt st sub = Some p"
    using take_needs_debt [OF pl(2) need] take_needs_debt(2) [OF pl(1) p] by simp_all
  have dk: "debt_ok cx st sub (pr_key p) (pr_epoch p)" using inv d(2) by (simp add: ow_inv_def)
  have r: "ev_subscription ?r = sub" "ev_key ?r = pr_key p" "ev_epoch ?r = pr_epoch p" "event_is_rescan ?r"
    by (simp_all add: parked_event_def event_rescan_def synthetic_def event_is_rescan_def)
  have "stream_ok cx ?st"
    using inv dk r by (auto simp: ow_inv_def stream_ok_def s(1) sorted_wrt_append after_rescan_def debt_ok_def)
  moreover have "debt_ok cx ?st t (pr_key q) (pr_epoch q)" if "debt ?st' t = Some q" for t q
  proof -
    have "t \<noteq> sub" "debt_ok cx st t (pr_key q) (pr_epoch q)"
      using that inv by (auto simp: d(1) ow_inv_def split: if_splits)
    then show ?thesis using r(1) by (auto simp: debt_ok_def s(1))
  qed
  ultimately have "ow_inv cx ?st'"
    using inv planes_ok_take [OF pl(2)] by (simp add: ow_inv_def)
  moreover have "settled cx ?st' x" if "settled cx st x" for x
  proof (cases "owed st x \<and> ev_subscription x = sub")
    case True
    then have "dominates (pr_key p) (pr_epoch p) x" using d(2) by (auto simp: owed_def)
    then have "rescanned cx ?st' x" using True r by (auto simp: rescanned_def s(1))
    then show ?thesis by (simp add: settled_def)
  next
    case False
    have "owed ?st' x" if "owed st x" using that False by (auto simp: owed_def d(1))
    then show ?thesis
      using \<open>settled cx st x\<close> s by (auto simp: settled_def rescanned_def)
  qed
  ultimately show ?thesis
    using s by (simp add: serves_def keeps_settled_def emission_frame_def)
qed

lemma discard_debt:
  assumes inv: "ow_inv cx st" and p: "map_of (ow_needs st) sub = Some p"
    and a: "advances (st_world cx) (ow_world st) e" "wd_closed (st_world cx) e"
  shows "serves cx st (st\<lparr>ow_world := e, ow_needs := parked_take sub (ow_needs st)\<rparr>)"
proof -
  let ?st = "st\<lparr>ow_world := e\<rparr>"
  let ?st' = "?st\<lparr>ow_needs := parked_take sub (ow_needs st)\<rparr>"
  have i: "ow_inv cx ?st" using core_same_inv [OF advance_core [OF a(1)]] inv by simp
  then have pl: "planes_ok ?st" by (simp add: ow_inv_def)
  have "map_of (ow_needs ?st) sub = Some p" using p by simp
  note d = take_needs_debt(1) [OF pl this]
  have "debt_ok cx ?st t (pr_key q) (pr_epoch q)" if "debt ?st' t = Some q" for t q
    using that i d by (auto simp: ow_inv_def split: if_splits)
  then have "ow_inv cx ?st'" using i planes_ok_take [OF pl] by (simp add: ow_inv_def)
  moreover have "shut cx ?st'" using a(2) by (simp add: shut_def)
  ultimately show ?thesis
    using a(1) by (simp add: serves_def keeps_settled_def settled_def emission_frame_def sent_def shut_def advances_def)
qed

section \<open>A pass\<close>

lemma note_domination_serves: "ow_inv cx st \<Longrightarrow> serves cx st (note_domination st)"
  by (rule core_same_serves [OF note_domination_core]) (simp_all add: emission_frame_def note_domination_def)

lemma cursor_serves: "ow_inv cx st \<Longrightarrow> serves cx st (st\<lparr>ow_cursor := c\<rparr>)"
  by (rule core_same_serves) (simp_all add: core_same_def emission_frame_def sent_def shut_def)

context delivery
begin

lemma flush_loop_pass:
  assumes "ow_inv cx st" and "length (ow_needs st) \<le> n"
    and "order = turn_order resume exclusive (ow_needs st)"
  shows "serves cx st (flush_loop cx n resume exclusive st) \<and>
    ow_suppressed (flush_loop cx n resume exclusive st) = ow_suppressed st \<and>
    (\<not> shut cx (flush_loop cx n resume exclusive st) \<longrightarrow>
      (\<exists>m \<le> length order.
         sent cx (flush_loop cx n resume exclusive st) = sent cx st @
           map (\<lambda>s. parked_event s (the (map_of (ow_needs st) s))) (take m order) \<and>
         (\<forall>s. map_of (ow_needs (flush_loop cx n resume exclusive st)) s =
           (if s \<in> set (take m order) then None else map_of (ow_needs st) s)) \<and>
         ow_cursor (flush_loop cx n resume exclusive st) = (if m < length order then Some (order ! m) else None)))"
  using assms
proof (induction n arbitrary: st resume exclusive order)
  case 0
  then have "ow_needs st = []" by simp
  then show ?case using cursor_serves [OF 0(1)] 0(3) by (simp add: turn_order_def sent_def)
next
  case (Suc n)
  let ?o = "turn_order resume exclusive (ow_needs st)"
  have o1: "order = ?o" by (rule Suc.prems(3))
  show ?case
  proof (cases order)
    case Nil
    then have "flush_loop cx (Suc n) resume exclusive st = st\<lparr>ow_cursor := None\<rparr>"
      using o1 by (simp add: first_from_turn)
    then show ?thesis using cursor_serves [OF Suc.prems(1)] Nil by (simp add: sent_def)
  next
    case (Cons sub ks)
    then have C: "?o = sub # ks" using o1 by simp
    have "sub \<in> fst ` set (ow_needs st)" using C set_turn_order [of resume exclusive "ow_needs st"] by auto
    then obtain p where p: "map_of (ow_needs st) sub = Some p" by (metis map_of_eq_None_iff not_None_eq)
    have pl: "planes_ok st" using Suc.prems(1) by (simp add: ow_inv_def)
    then have ok: "btm_ok (ow_needs st)" by (simp add: planes_ok_def)
    have dist: "sub \<notin> set ks" using turn_order_distinct [OF ok, of resume exclusive] C by simp
    have len: "length (parked_take sub (ow_needs st)) \<le> n"
      using Suc.prems(2) length_turn_order [of resume exclusive "ow_needs st"]
        length_turn_order [of "Some sub" True "btm_remove sub (ow_needs st)"] turn_order_step [OF ok C] C
      by (simp add: parked_take_def)
    have ord: "turn_order (Some sub) True (parked_take sub (ow_needs st)) = ks"
      using turn_order_step [OF ok C] by (simp add: parked_take_def)
    let ?ev = "parked_event sub p"
    have go: "flush_loop cx (Suc n) resume exclusive st =
      (case wd_try_send (st_world cx) ?ev (ow_world st) of
         (SendOk, e) \<Rightarrow> flush_loop cx n (Some sub) True
           ((note_domination (st\<lparr>ow_world := e\<rparr>))\<lparr>ow_needs := parked_take sub (ow_needs st)\<rparr>)
       | (SendClosed, e) \<Rightarrow> flush_loop cx n (Some sub) True
           (st\<lparr>ow_world := e, ow_needs := parked_take sub (ow_needs st)\<rparr>)
       | (SendFull, e) \<Rightarrow> st\<lparr>ow_world := e, ow_cursor := Some sub\<rparr>)"
      using C p by (simp add: first_from_turn)
    show ?thesis
    proof (cases rule: wd.send_cases [of ?ev "ow_world st", case_names ok full closed])
      case (ok e)
      let ?st1 = "st\<lparr>ow_world := e, ow_needs := parked_take sub (ow_needs st)\<rparr>"
      have "sent cx (st\<lparr>ow_world := e\<rparr>) = sent cx st @ [?ev]" "shut cx st \<longrightarrow> shut cx (st\<lparr>ow_world := e\<rparr>)"
        using ok by (simp_all add: sent_def shut_def)
      note s1 = deliver_debt [OF Suc.prems(1) p this]
      let ?st2 = "(note_domination (st\<lparr>ow_world := e\<rparr>))\<lparr>ow_needs := parked_take sub (ow_needs st)\<rparr>"
      have eq: "?st2 = note_domination ?st1" by (simp add: note_domination_def)
      have s2: "serves cx st ?st2"
        unfolding eq by (rule serves_trans [OF s1 note_domination_serves [OF serves_inv [OF s1]]])
      have f: "flush_loop cx (Suc n) resume exclusive st = flush_loop cx n (Some sub) True ?st2"
        using go ok(1) by simp
      have i2: "ow_inv cx ?st2" and n2: "ow_needs ?st2 = parked_take sub (ow_needs st)"
          and sup: "ow_suppressed ?st2 = ow_suppressed st" and se: "sent cx ?st2 = sent cx st @ [?ev]"
        using serves_inv [OF s2] ok(2) by (simp_all add: note_domination_def sent_def)
      have ih: "serves cx ?st2 (flush_loop cx n (Some sub) True ?st2)"
          "ow_suppressed (flush_loop cx n (Some sub) True ?st2) = ow_suppressed st"
          "\<not> shut cx (flush_loop cx n (Some sub) True ?st2) \<Longrightarrow> \<exists>m \<le> length ks.
             sent cx (flush_loop cx n (Some sub) True ?st2) = sent cx ?st2 @
               map (\<lambda>s. parked_event s (the (map_of (ow_needs ?st2) s))) (take m ks) \<and>
             (\<forall>s. map_of (ow_needs (flush_loop cx n (Some sub) True ?st2)) s =
               (if s \<in> set (take m ks) then None else map_of (ow_needs ?st2) s)) \<and>
             ow_cursor (flush_loop cx n (Some sub) True ?st2) = (if m < length ks then Some (ks ! m) else None)"
        using Suc.IH [OF i2 _ refl, of "Some sub" True] len unfolding n2 ord sup by simp_all
      have same: "map (\<lambda>s. parked_event s (the (map_of (ow_needs ?st2) s))) (take m ks) =
          map (\<lambda>s. parked_event s (the (map_of (ow_needs st) s))) (take m ks)" for m
        using dist by (intro map_cong [OF refl]) (auto simp: n2 dest: in_set_takeD)
      show ?thesis
      proof (intro conjI impI)
        show "serves cx st (flush_loop cx (Suc n) resume exclusive st)"
          unfolding f by (rule serves_trans [OF s2 ih(1)])
        show "ow_suppressed (flush_loop cx (Suc n) resume exclusive st) = ow_suppressed st"
          unfolding f by (rule ih(2))
        assume "\<not> shut cx (flush_loop cx (Suc n) resume exclusive st)"
        then obtain m where m: "m \<le> length ks" "sent cx (flush_loop cx n (Some sub) True ?st2) = sent cx ?st2 @
               map (\<lambda>s. parked_event s (the (map_of (ow_needs ?st2) s))) (take m ks)"
             "\<forall>s. map_of (ow_needs (flush_loop cx n (Some sub) True ?st2)) s =
               (if s \<in> set (take m ks) then None else map_of (ow_needs ?st2) s)"
             "ow_cursor (flush_loop cx n (Some sub) True ?st2) = (if m < length ks then Some (ks ! m) else None)"
          using ih(3) unfolding f by blast
        show "\<exists>m \<le> length order. sent cx (flush_loop cx (Suc n) resume exclusive st) = sent cx st @
             map (\<lambda>s. parked_event s (the (map_of (ow_needs st) s))) (take m order) \<and>
           (\<forall>s. map_of (ow_needs (flush_loop cx (Suc n) resume exclusive st)) s =
             (if s \<in> set (take m order) then None else map_of (ow_needs st) s)) \<and>
           ow_cursor (flush_loop cx (Suc n) resume exclusive st) = (if m < length order then Some (order ! m) else None)"
        proof (intro exI [of _ "Suc m"] conjI)
          show "sent cx (flush_loop cx (Suc n) resume exclusive st) = sent cx st @
              map (\<lambda>s. parked_event s (the (map_of (ow_needs st) s))) (take (Suc m) order)"
            unfolding f m(2) same se Cons by (simp add: p)
          show "Suc m \<le> length order" using m(1) Cons by simp
          show "\<forall>s. map_of (ow_needs (flush_loop cx (Suc n) resume exclusive st)) s =
              (if s \<in> set (take (Suc m) order) then None else map_of (ow_needs st) s)"
            unfolding f Cons take_Suc_Cons using m(3) unfolding n2 by simp
          show "ow_cursor (flush_loop cx (Suc n) resume exclusive st) =
              (if Suc m < length order then Some (order ! Suc m) else None)"
            unfolding f Cons using m(4) by simp
        qed
      qed
    next
      case (full e)
      let ?st1 = "st\<lparr>ow_world := e, ow_cursor := Some sub\<rparr>"
      have a: "emission cx st (st\<lparr>ow_world := e\<rparr>)" by (rule advance_emission [OF full(2) Suc.prems(1)])
      have "serves cx st ?st1"
        using serves_trans [OF emission_serves [OF a] cursor_serves [OF emission_inv [OF a], of "Some sub"]] by simp
      moreover have f: "flush_loop cx (Suc n) resume exclusive st = ?st1" using go full(1) by simp
      moreover have "sent cx ?st1 = sent cx st" using full(2) by (simp add: sent_def advances_def)
      ultimately show ?thesis using Cons by (intro conjI impI exI [of _ 0]) simp_all
    next
      case (closed e)
      let ?st1 = "st\<lparr>ow_world := e, ow_needs := parked_take sub (ow_needs st)\<rparr>"
      note s1 = discard_debt [OF Suc.prems(1) p closed(2,3)]
      have f: "flush_loop cx (Suc n) resume exclusive st = flush_loop cx n (Some sub) True ?st1"
        using go closed(1) by simp
      have ih: "serves cx ?st1 (flush_loop cx n (Some sub) True ?st1)"
          "ow_suppressed (flush_loop cx n (Some sub) True ?st1) = ow_suppressed st"
        using Suc.IH [OF serves_inv [OF s1] _ refl, of "Some sub" True] len by simp_all
      have "shut cx ?st1" using closed(3) by (simp add: shut_def)
      then have "shut cx (flush_loop cx n (Some sub) True ?st1)" using ih(1) by (simp add: serves_def)
      then show ?thesis using serves_trans [OF s1 ih(1)] ih(2) unfolding f by simp
    qed
  qed
qed

lemma flush_pending_serves:
  assumes "ow_inv cx st"
  shows "serves cx st (flush_pending_rescans cx st)"
proof -
  let ?st = "st\<lparr>ow_cursor := None\<rparr>"
  have s: "serves cx st ?st" by (rule cursor_serves [OF assms])
  have "serves cx ?st (flush_loop cx (length (ow_needs st)) (ow_cursor st) False ?st)"
    using flush_loop_pass [OF serves_inv [OF s] _ refl, of "length (ow_needs st)" "ow_cursor st" False] by simp
  then show ?thesis
    using serves_trans [OF s] serves_refl [OF assms] by (simp add: flush_pending_rescans_def)
qed

end

end
