(* ===== verification/Owner_Steps.thy ===== *)
theory Owner_Steps
  imports Owner_Flush
begin

text \<open>
  The remaining operations of the owner: sync barriers, roots that are rescanned or retired, released
  subscriptions, quarantined filters and the consumption of a source event. Each keeps \<open>ow_inv\<close>;
  all but a release keep every settled event settled.
\<close>

section \<open>Steps that only touch barriers and the source\<close>

definition quiet ::
  "('e, 't, 'u, 'w, 'c::linorder, 'v, 'h) site \<Rightarrow> ('e, 't, 'u, 'c, 'v, 'h) owner \<Rightarrow> ('e, 't, 'u, 'c, 'v, 'h) owner \<Rightarrow> bool"
  where "quiet cx st st' \<longleftrightarrow> core_same cx st st' \<and> emission_frame st st'"

lemma quiet_refl [simp]: "quiet cx st st"
  by (simp add: quiet_def)

lemma quiet_trans: "quiet cx st st1 \<Longrightarrow> quiet cx st1 st2 \<Longrightarrow> quiet cx st st2"
  unfolding quiet_def using core_same_trans frame_trans by blast

lemma quiet_serves: "quiet cx st st' \<Longrightarrow> ow_inv cx st \<Longrightarrow> serves cx st st'"
  by (simp add: quiet_def core_same_serves)

lemma quiet_foldl: "(\<And>x st. x \<in> set xs \<Longrightarrow> quiet cx st (f st x)) \<Longrightarrow> quiet cx st (foldl f st xs)"
proof (induction xs arbitrary: st)
  case (Cons x xs)
  have "quiet cx st (f st x)" using Cons.prems by simp
  moreover have "quiet cx (f st x) (foldl f (f st x) xs)" using Cons by simp
  ultimately show ?case using quiet_trans by fastforce
qed simp

lemma quiet_answer [simp]: "quiet cx st (answer r a st)"
  by (simp add: quiet_def core_same_def emission_frame_def answer_def sent_def shut_def)

lemma quiet_pending [simp]: "quiet cx st (st\<lparr>ow_pending := ps\<rparr>)"
  by (simp add: quiet_def core_same_def emission_frame_def sent_def shut_def)

lemma quiet_note_domination [simp]: "quiet cx st (note_domination st)"
  by (simp add: quiet_def emission_frame_def) (simp add: note_domination_def)

lemma quiet_note_loss [simp]: "quiet cx st (note_loss sub st)"
  by (simp add: quiet_def)

context delivery
begin

lemma quiet_offer: "quiet cx st (snd (offer_source cx c st))"
proof (cases "sd_forgotten (ow_disposals st)")
  case True
  then show ?thesis by (simp add: offer_source_def)
next
  case False
  obtain p e where c: "wd_call (st_world cx) c (ow_world st) = (p, e)" by fastforce
  have a: "advances (st_world cx) (ow_world st) e" using wd.call [of "ow_world st" c] c by simp
  from c False show ?thesis
    using a by (cases p)
      (simp_all add: offer_source_def quiet_def core_same_def emission_frame_def sent_def shut_def advances_def)
qed

lemma quiet_reap [simp]: "quiet cx st (reap_cookie cx h k st)"
  by (simp add: reap_cookie_def quiet_offer)

lemma quiet_finish:
  assumes "\<And>p st. quiet cx st (f p st)"
  shows "quiet cx st (finish_syncs P f st)"
proof -
  obtain taken kept where "swap_drain P (ow_pending st) = (taken, kept)" by fastforce
  moreover have "quiet cx (st\<lparr>ow_pending := kept\<rparr>) (foldl (\<lambda>st p. f p st) (st\<lparr>ow_pending := kept\<rparr>) taken)"
    by (rule quiet_foldl [OF assms])
  ultimately show ?thesis using quiet_trans [OF quiet_pending] by (simp add: finish_syncs_def)
qed

lemma quiet_answer_reap: "quiet cx st (reap_cookie cx h k (answer r a st))"
  by (rule quiet_trans [OF quiet_answer quiet_reap])

lemma quiet_dominate_root [simp]: "quiet cx st (dominate_syncs_of_root cx h st)"
  unfolding dominate_syncs_of_root_def
  by (rule quiet_trans [OF quiet_note_domination quiet_finish]) (rule quiet_answer_reap)

lemma quiet_dominate_sub [simp]: "quiet cx st (dominate_syncs_of_subscription cx s st)"
  unfolding dominate_syncs_of_subscription_def
  by (rule quiet_trans [OF quiet_note_domination quiet_finish]) (rule quiet_answer_reap)

lemma quiet_retire_syncs [simp]: "quiet cx st (retire_syncs_of_subscription cx s st)"
  unfolding retire_syncs_of_subscription_def by (rule quiet_finish) (rule quiet_answer_reap)

lemma quiet_prune_loop: "quiet cx st (snd (prune_loop cx ps st))"
proof (induction "length ps" arbitrary: ps st rule: less_induct)
  case less
  show ?case
  proof (cases ps)
    case (Cons p qs)
    let ?qs = "if qs = [] then [] else last qs # butlast qs"
    let ?st = "reap_cookie cx (ps_root p) (ps_cookie_key p) st"
    show ?thesis
    proof (cases "wd_canceled (st_world cx) (ow_world st) (ps_reply p)")
      case True
      then have eq: "prune_loop cx ps st = prune_loop cx ?qs ?st" unfolding Cons
        using prune_loop.simps(2) [of cx p qs st] by (simp only: if_True)
      have "length ?qs = length qs" by (cases qs) simp_all
      then have "length ?qs < length ps" unfolding Cons by (simp only: list.size(4))
      then have "quiet cx ?st (snd (prune_loop cx ?qs ?st))" by (rule less)
      then show ?thesis unfolding eq by (rule quiet_trans [OF quiet_reap])
    next
      case False
      then have "snd (prune_loop cx ps st) = snd (prune_loop cx qs st)"
        unfolding Cons
        using prune_loop.simps(2) [of cx p qs st] by (simp only: if_False case_prod_unfold Let_def snd_conv)
      moreover have "quiet cx st (snd (prune_loop cx qs st))" by (rule less) (simp add: Cons)
      ultimately show ?thesis by simp
    qed
  qed simp
qed

lemma quiet_prune [simp]: "quiet cx st (prune_abandoned_syncs cx st)"
proof -
  obtain kept st1 where k: "prune_loop cx (ow_pending st) st = (kept, st1)" by fastforce
  have "quiet cx st st1" using quiet_prune_loop [of st "ow_pending st"] k by simp
  then show ?thesis using quiet_trans [OF _ quiet_pending] k by (simp add: prune_abandoned_syncs_def)
qed

lemma quiet_reap_all [simp]: "quiet cx st (reap_all_pending_syncs cx st)"
proof -
  have "quiet cx (st\<lparr>ow_pending := []\<rparr>)
      (foldl (\<lambda>st p. reap_cookie cx (ps_root p) (ps_cookie_key p) st) (st\<lparr>ow_pending := []\<rparr>) (ow_pending st))"
    by (rule quiet_foldl [OF quiet_reap])
  then show ?thesis using quiet_trans [OF quiet_pending] by (simp add: reap_all_pending_syncs_def)
qed

lemma quiet_admit_cookie [simp]: "quiet cx st (admit_begun_cookie cx ck sub root g r st)"
  using quiet_reap quiet_pending by (simp add: admit_begun_cookie_def)

section \<open>Resolving barriers\<close>

lemma resolve_one_serves:
  assumes "ow_inv cx st"
  obtains st' where "resolve_one cx p st = Some st'" "serves cx st st'"
proof -
  let ?st = "reap_cookie cx (ps_root p) (ps_cookie_key p) st"
  have s1: "serves cx st ?st" by (rule quiet_serves [OF quiet_reap assms])
  obtain clean st2 where f: "flush_subscription_now cx (ps_sub p) ?st = Some (clean, st2)"
      and p2: "progress cx ?st st2" "keeps_settled cx ?st st2"
    using flush_now_progress [OF serves_inv [OF s1]] by metis
  note s2 = serves_trans [OF s1 progress_serves [OF p2]]
  from f that serves_trans [OF s2 quiet_serves [OF quiet_answer serves_inv [OF s2]]]
  show thesis by (simp add: resolve_one_def)
qed

lemma resolve_each_serves:
  assumes "ow_inv cx st"
  obtains st' where "resolve_each cx ps st = Some st'" "serves cx st st'"
  using assms
proof (induction ps arbitrary: st thesis)
  case Nil
  then show ?case using Nil(1) [of st] serves_refl [OF Nil(2)] by simp
next
  case (Cons p ps)
  obtain st1 where a: "resolve_one cx p st = Some st1" "serves cx st st1"
    using resolve_one_serves [OF Cons.prems(2)] by metis
  obtain st2 where b: "resolve_each cx ps st1 = Some st2" "serves cx st1 st2"
    using Cons.IH [OF _ serves_inv [OF a(2)]] by metis
  then show ?case using Cons.prems(1) [of st2] a serves_trans [OF a(2) b(2)] by simp
qed

lemma resolve_matching_serves:
  assumes "ow_inv cx st"
  obtains st' where "resolve_matching_pending_sync cx ev rs st = Some st'" "serves cx st st'"
proof -
  let ?m = "\<lambda>p. ps_root p = se_handle ev \<and>
            (masks_destination rs \<and> names p (se_key ev) \<or>
             masks_source rs \<and>
               (case kind_moved_from (se_kind ev) of None \<Rightarrow> False | Some f \<Rightarrow> names p f))"
  obtain taken kept where k: "swap_drain ?m (ow_pending st) = (taken, kept)" by fastforce
  have s: "serves cx st (st\<lparr>ow_pending := kept\<rparr>)" by (rule quiet_serves [OF quiet_pending assms])
  obtain st' where "resolve_each cx taken (st\<lparr>ow_pending := kept\<rparr>) = Some st'"
      "serves cx (st\<lparr>ow_pending := kept\<rparr>) st'"
    using resolve_each_serves [OF serves_inv [OF s]] by metis
  then show thesis
    using that serves_trans [OF s] k by (simp add: resolve_matching_pending_sync_def)
qed

lemma dominate_one_serves:
  assumes "ow_inv cx st"
  obtains st' where "dominate_one cx p st = Some st'" "serves cx st st'"
proof -
  let ?st = "reap_cookie cx (ps_root p) (ps_cookie_key p) st"
  have s1: "serves cx st ?st" by (rule quiet_serves [OF quiet_reap assms])
  obtain clean st2 where f: "flush_subscription_now cx (ps_sub p) ?st = Some (clean, st2)"
      and p2: "progress cx ?st st2" "keeps_settled cx ?st st2"
    using flush_now_progress [OF serves_inv [OF s1]] by metis
  note s2 = serves_trans [OF s1 progress_serves [OF p2]]
  from f that serves_trans [OF s2 quiet_serves [OF quiet_answer serves_inv [OF s2]]]
  show thesis by (simp add: dominate_one_def)
qed

lemma dominate_each_serves:
  assumes "ow_inv cx st"
  obtains st' where "dominate_each cx ps st = Some st'" "serves cx st st'"
  using assms
proof (induction ps arbitrary: st thesis)
  case Nil
  then show ?case using Nil(1) [of st] serves_refl [OF Nil(2)] by simp
next
  case (Cons p ps)
  obtain st1 where a: "dominate_one cx p st = Some st1" "serves cx st st1"
    using dominate_one_serves [OF Cons.prems(2)] by metis
  obtain st2 where b: "dominate_each cx ps st1 = Some st2" "serves cx st1 st2"
    using Cons.IH [OF _ serves_inv [OF a(2)]] by metis
  then show ?case using Cons.prems(1) [of st2] a serves_trans [OF a(2) b(2)] by simp
qed

lemma dominate_pending_serves:
  assumes "ow_inv cx st"
  obtains st' where "dominate_pending_syncs cx ev st = Some st'" "serves cx st st'"
proof -
  let ?st = "note_domination st"
  let ?m = "\<lambda>p. ps_root p = se_handle ev \<and> rescan_affects (ps_sub p) (se_key ev) ?st"
  obtain taken kept where k: "swap_drain ?m (ow_pending ?st) = (taken, kept)" by fastforce
  have s: "serves cx st (?st\<lparr>ow_pending := kept\<rparr>)"
    by (rule quiet_serves [OF quiet_trans [OF quiet_note_domination quiet_pending] assms])
  obtain st' where "dominate_each cx taken (?st\<lparr>ow_pending := kept\<rparr>) = Some st'"
      "serves cx (?st\<lparr>ow_pending := kept\<rparr>) st'"
    using dominate_each_serves [OF serves_inv [OF s]] by metis
  then show thesis
    using that serves_trans [OF s] k by (simp add: dominate_pending_syncs_def Let_def)
qed

end

section \<open>Rescanning and retiring roots\<close>

lemma rescan_sub_eq:
  assumes "sm_subs (ow_subsumer st) sub = Some r"
  shows "rescan_sub cx k sub st =
     fresh_park sub (sr_key r) (subscription_value (st_radices cx) sub (ow_subsumer st)) (note_loss sub st)"
proof -
  have "rescan_key_for sub k (st\<lparr>ow_epochs := l\<rparr>) = sr_key r" for l
    using assms by (simp add: rescan_key_for_def subscription_key_def)
  moreover have "rescan_key_for sub k ((note_loss sub st)\<lparr>ow_epochs := l\<rparr>) = sr_key r" for l
    using assms by (simp add: rescan_key_for_def subscription_key_def)
  ultimately show ?thesis by (simp add: rescan_sub_def fresh_park_def on_shed_eq Let_def)
qed

lemma rescan_sub_emission:
  fixes k :: "'c::linorder list" and st :: "('e, 't, 'u, 'c, 'v, 'h) owner"
  assumes inv: "ow_inv cx st" and r: "sm_subs (ow_subsumer st) sub = Some r"
  defines "st' \<equiv> rescan_sub cx k sub st"
  shows "emission cx st st'" and "\<forall>ev. ev_ok st ev \<and> ev_subscription ev = sub \<longrightarrow> owed st' ev"
    and "debt st' sub \<noteq> None" and "\<forall>x. x \<in># buffered st' \<longrightarrow> ev_subscription x \<noteq> sub"
proof -
  let ?st = "note_loss sub st" and ?v = "subscription_value (st_radices cx) sub (ow_subsumer st)"
  have i: "ow_inv cx ?st" using core_same_inv [OF note_loss_core [of cx st sub]] inv by simp
  have e: "emission cx st ?st" by (rule core_same_emission [OF note_loss_core inv note_loss_frame])
  have "sm_subs (ow_subsumer ?st) sub = Some r" using r by simp
  note f = fresh_park_emission [OF i this, where v = ?v]
  have st': "st' = fresh_park sub (sr_key r) ?v ?st" by (simp add: st'_def rescan_sub_eq [OF r])
  show "emission cx st st'" unfolding st' by (rule emission_trans [OF e f(1)])
  show "\<forall>ev. ev_ok st ev \<and> ev_subscription ev = sub \<longrightarrow> owed st' ev"
    using f(2) core_same_readings(2) [OF note_loss_core, of sub st] unfolding st' by metis
  show "debt st' sub \<noteq> None" unfolding st' by (rule f(4))
  show "\<forall>x. x \<in># buffered st' \<longrightarrow> ev_subscription x \<noteq> sub" unfolding st' f(5) by simp
qed

lemma rescan_subs_emission:
  fixes k :: "'c::linorder list" and st :: "('e, 't, 'u, 'c, 'v, 'h) owner"
  assumes "ow_inv cx st" and "\<forall>s \<in> set subs. sm_subs (ow_subsumer st) s \<noteq> None"
  defines "st' \<equiv> foldl (\<lambda>st sub. rescan_sub cx k sub st) st subs"
  shows "emission cx st st' \<and> (\<forall>ev. ev_ok st ev \<and> ev_subscription ev \<in> set subs \<longrightarrow> owed st' ev) \<and>
    (\<forall>s \<in> set subs. debt st' s \<noteq> None) \<and> (\<forall>x. x \<in># buffered st' \<longrightarrow> ev_subscription x \<notin> set subs)"
  using assms(1,2) unfolding st'_def
proof (induction subs arbitrary: st)
  case Nil
  then show ?case by (simp add: emission_refl)
next
  case (Cons s subs)
  let ?st = "rescan_sub cx k s st"
  obtain r where "sm_subs (ow_subsumer st) s = Some r" using Cons.prems(2) by auto
  note e = rescan_sub_emission [OF Cons.prems(1) this, of k]
  have sm: "ow_subsumer ?st = ow_subsumer st" using e(1) by (simp add: emission_def emission_frame_def)
  have l: "\<forall>x \<in> set subs. sm_subs (ow_subsumer ?st) x \<noteq> None" using Cons.prems(2) sm by simp
  note ih = Cons.IH [OF emission_inv [OF e(1)] l]
  let ?st' = "foldl (\<lambda>st sub. rescan_sub cx k sub st) ?st subs"
  have "owed ?st' ev" if "ev_ok st ev" "ev_subscription ev \<in> set (s # subs)" for ev
  proof (cases "ev_subscription ev = s")
    case True
    then show ?thesis using e(2) that(1) ih by (simp add: emission_def)
  next
    case False
    then show ?thesis using ih that emission_ev_ok [OF e(1) that(1)] by simp
  qed
  moreover have "\<forall>x. x \<in># buffered ?st' \<longrightarrow> ev_subscription x \<notin> set (s # subs)"
    using ih e(4) by (auto simp: emission_def)
  moreover have "\<forall>t \<in> set (s # subs). debt ?st' t \<noteq> None"
    using ih e(3) by (auto simp: emission_def)
  ultimately show ?case using emission_trans [OF e(1)] ih by simp
qed

end
