(* ===== verification/Owner_Retire.thy ===== *)
theory Owner_Retire
  imports Owner_Steps
begin

text \<open>
  What routing a raw event hands to the owner, and the steps that change registrations: a root retired
  with a terminal rescan and a subscription released.
\<close>

lemma subseq_set_subset: "subseq xs ys \<Longrightarrow> x \<in> set xs \<Longrightarrow> x \<in> set ys"
  by (auto simp: subseq_conv_nths dest: in_set_nthsD)

lemma subseq_distinct: "subseq xs ys \<Longrightarrow> distinct ys \<Longrightarrow> distinct xs"
  by (auto simp: subseq_conv_nths distinct_nthsI)

section \<open>Routing and stamping into the owner's state\<close>

lemma stamp_all_bounds:
  assumes "stamp_all rescan raw sub_of into ds l = (xs, l')"
  shows "(\<forall>s. hw_of l s \<le> hw_of l' s) \<and> length xs = length ds \<and>
    (\<forall>i < length ds. \<exists>e. xs ! i = into (ds ! i) e \<and> e \<le> hw_of l' (sub_of (ds ! i)) \<and>
       (rescan \<longrightarrow> below (hw_of l (sub_of (ds ! i))) e))"
  using assms
proof (induction ds arbitrary: l xs)
  case Nil
  then show ?case by simp
next
  case (Cons d ds)
  obtain e l1 where s: "(if rescan then stamp_rescan (sub_of d) raw l else stamp (sub_of d) raw l) = (e, l1)"
    by fastforce
  obtain ys where ys: "stamp_all rescan raw sub_of into ds l1 = (ys, l')" "xs = into d e # ys"
    using Cons.prems s by (auto simp: Let_def split: prod.splits)
  have l1: "l1 = bump (sub_of d) e l" using s by (auto simp: stamp_def stamp_rescan_def Let_def split: if_splits)
  have top: "below (hw_of l (sub_of d)) e" if rescan
    using s that below_mono [OF below_next [OF order.refl, of "hw_of l (sub_of d)"], of e]
    by (auto simp: stamp_rescan_def Let_def)
  note ih = Cons.IH [OF ys(1)]
  have up: "hw_of l s \<le> hw_of l' s" for s
    using ih l1 order_trans [of "hw_of l s" "hw_of l1 s" "hw_of l' s"] by simp
  have first: "e \<le> hw_of l' (sub_of d)"
  proof -
    have "hw_of l1 (sub_of d) \<le> hw_of l' (sub_of d)" using ih by blast
    then show ?thesis by (simp add: l1)
  qed
  have "\<exists>e'. xs ! i = into ((d # ds) ! i) e' \<and> e' \<le> hw_of l' (sub_of ((d # ds) ! i)) \<and>
       (rescan \<longrightarrow> below (hw_of l (sub_of ((d # ds) ! i))) e')" if "i < length (d # ds)" for i
  proof (cases i)
    case 0
    then show ?thesis using first top ys(2) by auto
  next
    case (Suc j)
    then obtain e' where e': "ys ! j = into (ds ! j) e'" "e' \<le> hw_of l' (sub_of (ds ! j))"
        "rescan \<longrightarrow> below (hw_of l1 (sub_of (ds ! j))) e'"
      using ih \<open>i < length (d # ds)\<close> by auto
    moreover have "hw_of l (sub_of (ds ! j)) \<le> hw_of l1 (sub_of (ds ! j))" using l1 by simp
    ultimately show ?thesis using Suc ys(2) below_le by auto
  qed
  then show ?case using up ih ys(2) by simp
qed

lemma fan_out_rescan_kind:
  fixes d :: "('c, 'v) event"
  assumes "fan_out_one source_routable_ops e canon adm s = Some (Some d)"
  shows "event_is_rescan d \<longleftrightarrow> kind_is_rescan (se_kind (sr_event e))"
  using assms
  by (auto simp: fan_out_one_def source_routable_simps project_def project_rescan_def event_is_rescan_def Let_def
      from_source_def source_move_out_def source_move_in_def source_rescan_clamped_def synthetic_def
      rebase_location_def anchor_location_at_root_def
      split: option.splits if_splits bool.splits event_kind.splits)

text \<open>The stamped deliveries of one raw event over live subscribers.\<close>

lemma source_rescan_iff: "rt_is_rescan source_routable_ops e = kind_is_rescan (se_kind (sr_event e))"
  by (simp add: source_routable_ops_def)

lemma fanned_facts:
  fixes xs :: "('c, 'v) event list"
  assumes "stamp_and_fan_out_with source_routable_ops e raw subs canon gate ev_subscription
      (\<lambda>ev ep. ev\<lparr>ev_epoch := ep, ev_value := val ev\<rparr>) g l = Some (xs, g', l')"
    and "distinct subs"
  shows "\<forall>s. hw_of l s \<le> hw_of l' s" and "distinct (map ev_subscription xs)"
    and "\<forall>x \<in> set xs. ev_subscription x \<in> set subs \<and> ev_epoch x \<le> hw_of l' (ev_subscription x) \<and>
      (event_is_rescan x \<longrightarrow> below (hw_of l (ev_subscription x)) (ev_epoch x)) \<and>
      (\<exists>c. canon (ev_subscription x) = Some c \<and> prefix c (ev_key x) \<and> (\<forall>f. ev_kind x = EMoved f \<longrightarrow> prefix c f))"
proof -
  let ?into = "\<lambda>(ev :: ('c, 'v) event) ep. ev\<lparr>ev_epoch := ep, ev_value := val ev\<rparr>"
  obtain ds where ds: "fan_out_with source_routable_ops e subs canon gate g = Some (ds, g')"
      "stamp_all (kind_is_rescan (se_kind (sr_event e))) raw ev_subscription ?into ds l = (xs, l')"
  proof -
    obtain ds g1 where f: "fan_out_with source_routable_ops e subs canon gate g = Some (ds, g1)"
      using assms(1) by (cases "fan_out_with source_routable_ops e subs canon gate g")
        (auto simp: stamp_and_fan_out_with_def)
    obtain ys l1 where y: "stamp_all (kind_is_rescan (se_kind (sr_event e))) raw ev_subscription ?into ds l = (ys, l1)"
      by fastforce
    show thesis by (rule that [of ds]) (use assms(1) f y in \<open>simp_all add: stamp_and_fan_out_with_def source_rescan_iff\<close>)
  qed
  obtain all where all: "fan_out source_routable_ops e subs canon (\<lambda>_ _. True) = Some all" "subseq ds all"
    using fan_out_with_subseq [OF ds(1)] by blast
  note st = stamp_all_bounds [OF ds(2)]
  show "\<forall>s. hw_of l s \<le> hw_of l' s" using st by blast
  have subs: "map ev_subscription xs = map ev_subscription ds"
    using st by (auto simp: list_eq_iff_nth_eq)
  have "distinct (map ev_subscription all)" using prod.fan_out_subs [OF all(1)] assms(2) by simp
  moreover have "subseq (map ev_subscription ds) (map ev_subscription all)" using all(2) by (rule subseq_map)
  ultimately show "distinct (map ev_subscription xs)" unfolding subs using subseq_distinct by blast
  show "\<forall>x \<in> set xs. ev_subscription x \<in> set subs \<and> ev_epoch x \<le> hw_of l' (ev_subscription x) \<and>
      (event_is_rescan x \<longrightarrow> below (hw_of l (ev_subscription x)) (ev_epoch x)) \<and>
      (\<exists>c. canon (ev_subscription x) = Some c \<and> prefix c (ev_key x) \<and> (\<forall>f. ev_kind x = EMoved f \<longrightarrow> prefix c f))"
  proof
    fix x assume "x \<in> set xs"
    then obtain i where i: "i < length ds" "x = xs ! i" using st by (metis in_set_conv_nth)
    then obtain ep where ep: "x = ?into (ds ! i) ep" "ep \<le> hw_of l' (ev_subscription (ds ! i))"
        "kind_is_rescan (se_kind (sr_event e)) \<longrightarrow> below (hw_of l (ev_subscription (ds ! i))) ep"
      using st by blast
    have "ds ! i \<in> set all" using subseq_set_subset [OF all(2)] nth_mem [OF i(1)] by blast
    then obtain s where s: "s \<in> set subs" "fan_out_one source_routable_ops e canon (\<lambda>_ _. True) s = Some (Some (ds ! i))"
      using prod.fan_out_mem_iff [OF all(1)] by blast
    have rs: "event_is_rescan (ds ! i) \<longleftrightarrow> kind_is_rescan (se_kind (sr_event e))"
      by (rule fan_out_rescan_kind [OF s(2)])
    from s prod.fan_out_one_sub [OF s(2)] prod.fan_out_one_inside [OF s(2)] ep rs
    show "ev_subscription x \<in> set subs \<and> ev_epoch x \<le> hw_of l' (ev_subscription x) \<and>
      (event_is_rescan x \<longrightarrow> below (hw_of l (ev_subscription x)) (ev_epoch x)) \<and>
      (\<exists>c. canon (ev_subscription x) = Some c \<and> prefix c (ev_key x) \<and> (\<forall>f. ev_kind x = EMoved f \<longrightarrow> prefix c f))"
      by (auto simp: event_move_from_def event_is_rescan_def)
  qed
qed

lemma fan_out_with_defined:
  "\<exists>ds g'. fan_out_with source_routable_ops e subs canon gate g = Some (ds, g')"
  using fan_out_with_total prod.fan_out_total by (metis option.distinct(1))

lemma root_view_Some:
  assumes "sm_inv rd sm" and "root_view rd h sm = Some (k, subs)"
  shows "subs = cohort_of sm h" and "distinct subs" and "\<forall>s \<in> set subs. sm_subs sm s \<noteq> None"
proof -
  show eq: "subs = cohort_of sm h" using assms(2) by (auto simp: root_view_def cohort_of_def)
  have co: "cohorts_ok (sm_by_handle sm) (sm_root_subs sm) (sm_subs sm)" using assms(1) by (simp add: sm_inv_def)
  show "distinct subs"
    using cohorts_okD(3) [OF co, of h] by (auto simp: eq cohort_of_def split: option.split)
  show "\<forall>s \<in> set subs. sm_subs sm s \<noteq> None"
    using cohorts_okD(4) [OF co, of h] by (auto simp: eq cohort_of_def split: option.splits)
qed

lemma root_view_None:
  assumes "sm_inv rd sm" and "root_view rd h sm = None"
  shows "sm_by_handle sm h = None" and "cohort_of sm h = []"
proof -
  have ro: "roots_ok (roots rd sm) (sm_by_handle sm)"
    and co: "cohorts_ok (sm_by_handle sm) (sm_root_subs sm) (sm_subs sm)" using assms(1) by (simp_all add: sm_inv_def)
  have e: "entry rd h sm = None" using assms(2) by (simp add: root_view_def)
  show n: "sm_by_handle sm h = None"
  proof (rule ccontr)
    assume "sm_by_handle sm h \<noteq> None"
    then obtain k where k: "sm_by_handle sm h = Some k" by blast
    from roots_okD(3) [OF ro k] obtain r where "roots rd sm k = Some r" by blast
    then show False using e k by (simp add: entry_def roots_def)
  qed
  have "sm_root_subs sm h = None" using cohorts_okD(1) [OF co] n by (metis domIff)
  then show "cohort_of sm h = []" by (simp add: cohort_of_def)
qed

section \<open>Shrinking the engine\<close>

lemma force_remove_frame:
  "force_remove_root rd h sm = Some (ss, sm') \<Longrightarrow> sm_instance sm' = sm_instance sm \<and> sm_next_sub sm' = sm_next_sub sm"
  by (auto simp: force_remove_root_def Let_def split: option.splits prod.splits)

lemma cover_remove_frame [simp]:
  "sm_instance (cover_remove rd s k sm) = sm_instance sm" "sm_next_sub (cover_remove rd s k sm) = sm_next_sub sm"
  by (auto simp: cover_remove_def Let_def split: option.split)

lemma plan_unwatch_frame:
  "plan_unwatch rd s sm = Some (o1, sm') \<Longrightarrow> sm_instance sm' = sm_instance sm \<and> sm_next_sub sm' = sm_next_sub sm"
  by (auto simp: plan_unwatch_def Let_def split: option.splits if_splits)

lemma degrade_frame [simp]:
  "sm_subs (degrade_retained_cover rd h sm) = sm_subs sm"
  "sm_instance (degrade_retained_cover rd h sm) = sm_instance sm"
  "sm_next_sub (degrade_retained_cover rd h sm) = sm_next_sub sm"
  by (auto simp: degrade_retained_cover_def split: option.split)

lemma set_cover_frame [simp]:
  "sm_subs (set_retained_cover rd h c sm) = sm_subs sm"
  "sm_instance (set_retained_cover rd h c sm) = sm_instance sm"
  "sm_next_sub (set_retained_cover rd h c sm) = sm_next_sub sm"
  by (auto simp: set_retained_cover_def split: option.split)

text \<open>Subscriptions of \<open>S\<close> leave; nobody else is affected.\<close>

lemma inv_shrink:
  assumes inv: "ow_inv cx st" and sm: "sm_inv (st_radices cx) (ow_subsumer st')"
    and subs: "\<And>s. sm_subs (ow_subsumer st') s = (if s \<in> S then None else sm_subs (ow_subsumer st) s)"
    and ids: "sm_instance (ow_subsumer st') = sm_instance (ow_subsumer st)"
      "sm_next_sub (ow_subsumer st') = sm_next_sub (ow_subsumer st)"
    and hw: "\<And>s. s \<notin> S \<Longrightarrow> hw_of (ow_epochs st') s = hw_of (ow_epochs st) s"
    and debts: "\<And>s p. debt st' s = Some p \<Longrightarrow> debt st s = Some p"
    and planes: "planes_ok st'" "ow_unclaimed st' \<subseteq> ow_unclaimed st"
    and sent: "sent cx st' = sent cx st"
    and co: "\<And>co. ow_coalescer st' = Some co \<Longrightarrow> at_rest co"
    and buf: "\<And>x. x \<in># buffered st' \<Longrightarrow> x \<in># buffered st \<and> ev_subscription x \<notin> S"
  shows "ow_inv cx st'"
proof -
  have m: "minted st' = minted st" by (simp add: minted_def ids fun_eq_iff)
  have ev: "ev_ok st' x" if "ev_ok st x" "ev_subscription x \<notin> S" for x
    using that by (simp add: ev_ok_def subs hw)
  have "debt_ok cx st' s (pr_key p) (pr_epoch p)" if "debt st' s = Some p" for s p
  proof -
    have "debt_ok cx st s (pr_key p) (pr_epoch p)" using inv debts [OF that] by (simp add: ow_inv_def)
    then show ?thesis using hw by (auto simp: debt_ok_def m sent subs)
  qed
  moreover have "stream_ok cx st'"
    using inv hw by (auto simp: ow_inv_def stream_ok_def m sent subs)
  moreover have "buffer_ok st'"
    using inv co buf ev by (auto simp: ow_inv_def buffer_ok_def)
  ultimately show ?thesis
    using sm planes inv by (auto simp: ow_inv_def m)
qed

text \<open>Changing only the engine's tables of roots.\<close>

lemma subsumer_fields [simp]:
  "debt (st\<lparr>ow_subsumer := sm\<rparr>) = debt st" "planes_ok (st\<lparr>ow_subsumer := sm\<rparr>) = planes_ok st"
  "sent cx (st\<lparr>ow_subsumer := sm\<rparr>) = sent cx st" "shut cx (st\<lparr>ow_subsumer := sm\<rparr>) = shut cx st"
  "buffered (st\<lparr>ow_subsumer := sm\<rparr>) = buffered st" "owed (st\<lparr>ow_subsumer := sm\<rparr>) = owed st"
  by (simp_all add: debt_def planes_ok_def sent_def shut_def buffered_def owed_def fun_eq_iff)

lemma inv_roots_only:
  assumes "ow_inv cx st" and "sm_inv (st_radices cx) sm" and "sm_subs sm = sm_subs (ow_subsumer st)"
    and "sm_instance sm = sm_instance (ow_subsumer st)" and "sm_next_sub sm = sm_next_sub (ow_subsumer st)"
  shows "ow_inv cx (st\<lparr>ow_subsumer := sm\<rparr>)"
  using assms
  by (intro inv_shrink [OF assms(1), where S = "{}"]) (auto simp: ow_inv_def buffer_ok_def)

section \<open>Steps that may change registrations\<close>

definition upholds ::
  "('e, 't, 'u, 'w, 'c::linorder, 'v, 'h) site \<Rightarrow> ('e, 't, 'u, 'c, 'v, 'h) owner \<Rightarrow> ('e, 't, 'u, 'c, 'v, 'h) owner \<Rightarrow> bool"
  where
  "upholds cx st st' \<longleftrightarrow> ow_inv cx st' \<and> keeps_settled cx st st' \<and> (shut cx st \<longrightarrow> shut cx st') \<and>
     prefix (sent cx st) (sent cx st')"

lemma serves_upholds: "serves cx st st' \<Longrightarrow> upholds cx st st'"
  by (simp add: serves_def upholds_def)

lemma upholds_trans: "upholds cx st st1 \<Longrightarrow> upholds cx st1 st2 \<Longrightarrow> upholds cx st st2"
  by (auto simp: upholds_def intro: keeps_trans prefix_order.trans)

lemma upholds_inv: "upholds cx st st' \<Longrightarrow> ow_inv cx st'"
  by (simp add: upholds_def)

text \<open>Forgetting a subscription's buffered events and its per-subscription state.\<close>

definition forget_sub :: "subscription \<Rightarrow> ('e, 't, 'u, 'c::linorder, 'v, 'h) owner \<Rightarrow> ('e, 't, 'u, 'c, 'v, 'h) owner" where
  "forget_sub sub st = retire_sub_state sub (forget_buffered sub st)"

lemma forget_sub_fields [simp]:
  "ow_subsumer (forget_sub s st) = ow_subsumer st" "ow_needs (forget_sub s st) = ow_needs st"
  "ow_suppressed (forget_sub s st) = ow_suppressed st" "ow_unclaimed (forget_sub s st) = ow_unclaimed st"
  "ow_world (forget_sub s st) = ow_world st"
  "ow_coalescer (forget_sub s st) = map_option (forget_subscription s) (ow_coalescer st)"
  "ow_epochs (forget_sub s st) = ledger_remove s (ow_epochs st)"
  "ow_filters (forget_sub s st) = (ow_filters st)(s := None)"
  "ow_serial (forget_sub s st) = (ow_serial st)(s := None)"
  by (simp_all add: forget_sub_def retire_sub_state_def forget_buffered_def gates_take_def)

definition forget_subs :: "subscription list \<Rightarrow> ('e, 't, 'u, 'c::linorder, 'v, 'h) owner \<Rightarrow> ('e, 't, 'u, 'c, 'v, 'h) owner" where
  "forget_subs subs st = foldl (\<lambda>st s. forget_sub s st) st subs"

lemma forget_subs_Cons [simp]:
  "forget_subs [] st = st" "forget_subs (s # subs) st = forget_subs subs (forget_sub s st)"
  by (simp_all add: forget_subs_def)

lemma forget_subs_fields [simp]:
  "ow_subsumer (forget_subs subs st) = ow_subsumer st" "ow_needs (forget_subs subs st) = ow_needs st"
  "ow_suppressed (forget_subs subs st) = ow_suppressed st" "ow_unclaimed (forget_subs subs st) = ow_unclaimed st"
  "ow_world (forget_subs subs st) = ow_world st"
  "hw_of (ow_epochs (forget_subs subs st)) s = (if s \<in> set subs then epoch_start else hw_of (ow_epochs st) s)"
  "ow_filters (forget_subs subs st) s = (if s \<in> set subs then None else ow_filters st s)"
  "ow_serial (forget_subs subs st) s = (if s \<in> set subs then None else ow_serial st s)"
  by (induction subs arbitrary: st) (auto simp: hw_of_def ledger_remove_def)

lemma forget_sub_rest: "\<forall>co. ow_coalescer st = Some co \<longrightarrow> at_rest co \<Longrightarrow>
    (\<forall>co. ow_coalescer (forget_sub s st) = Some co \<longrightarrow> at_rest co) \<and>
    buffered (forget_sub s st) = filter_mset (\<lambda>x. ev_subscription x \<noteq> s) (buffered st)"
  using forget_flow by (cases "ow_coalescer st") (auto simp: buffered_def)

lemma forget_subs_rest: "\<forall>co. ow_coalescer st = Some co \<longrightarrow> at_rest co \<Longrightarrow>
    (\<forall>co. ow_coalescer (forget_subs subs st) = Some co \<longrightarrow> at_rest co) \<and>
    buffered (forget_subs subs st) = filter_mset (\<lambda>x. ev_subscription x \<notin> set subs) (buffered st)"
proof (induction subs arbitrary: st)
  case (Cons s subs)
  have r: "\<forall>co. ow_coalescer (forget_sub s st) = Some co \<longrightarrow> at_rest co"
      "buffered (forget_sub s st) = filter_mset (\<lambda>x. ev_subscription x \<noteq> s) (buffered st)"
    using forget_sub_rest [OF Cons.prems] by blast+
  show ?case using Cons.IH [OF r(1)] r(2) by (simp add: filter_filter_mset conj_commute)
qed simp

section \<open>Retiring a root\<close>

context delivery
begin

lemma rescan_live_root_serves:
  fixes h :: 'h
  assumes inv: "ow_inv cx st"
  defines "st' \<equiv> rescan_live_root cx h st" and "S \<equiv> set (cohort_of (ow_subsumer st) h)"
  shows "serves cx st st'" and "\<forall>ev. ev_ok st ev \<and> ev_subscription ev \<in> S \<longrightarrow> owed st' ev"
    and "\<forall>x. x \<in># buffered st' \<longrightarrow> x \<in># buffered st \<and> ev_subscription x \<notin> S"
    and "ow_subsumer st' = ow_subsumer st" and "\<forall>s \<in> S. debt st' s \<noteq> None"
proof -
  have sm: "sm_inv (st_radices cx) (ow_subsumer st)" using inv by (simp add: ow_inv_def)
  have "serves cx st st' \<and> (\<forall>ev. ev_ok st ev \<and> ev_subscription ev \<in> S \<longrightarrow> owed st' ev) \<and>
    (\<forall>x. x \<in># buffered st' \<longrightarrow> x \<in># buffered st \<and> ev_subscription x \<notin> S) \<and>
    ow_subsumer st' = ow_subsumer st \<and> (\<forall>s \<in> S. debt st' s \<noteq> None)"
  proof (cases "root_view (st_radices cx) h (ow_subsumer st)")
    case None
    then show ?thesis
      using root_view_None [OF sm None] serves_refl [OF inv] by (simp add: st'_def S_def rescan_live_root_def)
  next
    case (Some v)
    obtain k subs where v: "v = (k, subs)" by (cases v)
    note rv = root_view_Some [OF sm Some [unfolded v]]
    let ?st = "foldl (\<lambda>st sub. rescan_sub cx k sub st) st subs"
    note e = rescan_subs_emission [OF inv rv(3), of k]
    have st': "st' = dominate_syncs_of_root cx h ?st" by (simp add: st'_def rescan_live_root_def Some v)
    have S: "S = set subs" by (simp add: S_def rv(1))
    have em: "emission cx st ?st" using e by blast
    have q: "quiet cx ?st st'" unfolding st' by simp
    then have c: "core_same cx ?st st'" by (simp add: quiet_def)
    have d: "debt st' = debt ?st" "buffered st' = buffered ?st" "ow_subsumer st' = ow_subsumer ?st"
      using core_same_readings [OF c] c by (simp_all add: core_same_def)
    have "serves cx st st'"
      by (rule serves_trans [OF emission_serves [OF em] quiet_serves [OF q emission_inv [OF em]]])
    moreover have "owed st' ev = owed ?st ev" for ev by (simp add: owed_def d)
    ultimately show ?thesis using e d S by (auto simp: emission_def emission_frame_def)
  qed
  then show "serves cx st st'" and "\<forall>ev. ev_ok st ev \<and> ev_subscription ev \<in> S \<longrightarrow> owed st' ev"
    and "\<forall>x. x \<in># buffered st' \<longrightarrow> x \<in># buffered st \<and> ev_subscription x \<notin> S"
    and "ow_subsumer st' = ow_subsumer st" and "\<forall>s \<in> S. debt st' s \<noteq> None" by blast+
qed

lemma retire_root_upholds:
  fixes h :: 'h
  assumes inv: "ow_inv cx st"
  defines "S \<equiv> set (cohort_of (ow_subsumer st) h)"
  obtains st' where "retire_root_with_terminal_rescan cx h st = Some st'" "upholds cx st st'"
    "\<forall>s. sm_subs (ow_subsumer st') s = (if s \<in> S then None else sm_subs (ow_subsumer st) s)"
    "sm_by_handle (ow_subsumer st') h = None"
    "\<forall>ev. ev_ok st ev \<and> ev_subscription ev \<in> S \<longrightarrow> owed st' ev" "\<forall>s \<in> S. debt st' s \<noteq> None"
    "\<forall>x. x \<in># buffered st' \<longrightarrow> x \<in># buffered st \<and> ev_subscription x \<notin> S"
    "\<forall>s. s \<in> S \<longrightarrow> ow_filters st' s = None \<and> ow_serial st' s = None"
proof -
  let ?st = "rescan_live_root cx h st"
  note r = rescan_live_root_serves [OF inv, of h]
  have i: "ow_inv cx ?st" by (rule serves_inv [OF r(1)])
  have sm: "sm_inv (st_radices cx) (ow_subsumer st)" using inv by (simp add: ow_inv_def)
  obtain sm' where f: "force_remove_root (st_radices cx) h (ow_subsumer st) = Some (cohort_of (ow_subsumer st) h, sm')"
      "sm_inv (st_radices cx) sm'" "sm_by_handle sm' h = None"
      "sm_subs sm' = (\<lambda>x. if x \<in> S then None else sm_subs (ow_subsumer st) x)"
    using eng.force_remove_inv [OF sm, of h] unfolding S_def by blast
  let ?c = "cohort_of (ow_subsumer st) h"
  let ?st1 = "?st\<lparr>ow_subsumer := sm'\<rparr>"
  let ?st' = "forget_subs ?c ?st1"
  have fold: "foldl (\<lambda>st sub. retire_sub_state sub (forget_buffered sub st)) s c = forget_subs c s" for s c
    by (simp add: forget_subs_def forget_sub_def)
  have ret: "retire_root_with_terminal_rescan cx h st = Some ?st'"
    by (simp add: retire_root_with_terminal_rescan_def r(4) f(1) fold)
  have rest0: "\<forall>co. ow_coalescer ?st1 = Some co \<longrightarrow> at_rest co" using i by (simp add: ow_inv_def buffer_ok_def)
  note rest = forget_subs_rest [OF rest0, of ?c]
  have ids: "sm_instance sm' = sm_instance (ow_subsumer ?st)" "sm_next_sub sm' = sm_next_sub (ow_subsumer ?st)"
    using force_remove_frame [OF f(1)] r(4) by simp_all
  have d: "debt ?st' = debt ?st" by (simp add: debt_def)
  have se: "sent cx ?st' = sent cx ?st" "shut cx ?st' = shut cx ?st" by (simp_all add: sent_def shut_def)
  have pl: "planes_ok ?st'" using i by (simp add: ow_inv_def planes_ok_def)
  have bf: "x \<in># buffered ?st' \<longleftrightarrow> x \<in># buffered ?st" for x using rest r(3) by auto
  have i': "ow_inv cx ?st'"
  proof (rule inv_shrink [OF i, where S = S])
    show "sm_inv (st_radices cx) (ow_subsumer ?st')" using f(2) by simp
    show "sm_subs (ow_subsumer ?st') s = (if s \<in> S then None else sm_subs (ow_subsumer ?st) s)" for s
      by (simp add: f(4) r(4))
    show "hw_of (ow_epochs ?st') s = hw_of (ow_epochs ?st) s" if "s \<notin> S" for s using that by (simp add: S_def)
    show "\<And>s p. debt ?st' s = Some p \<Longrightarrow> debt ?st s = Some p" by (simp add: d)
    show "at_rest co" if "ow_coalescer ?st' = Some co" for co using rest that by blast
    show "x \<in># buffered ?st \<and> ev_subscription x \<notin> S" if "x \<in># buffered ?st'" for x
      using that rest by (simp add: S_def)
  qed (use ids pl se in simp_all)
  have o1: "owed ?st' ev = owed ?st ev" for ev by (simp add: owed_def d)
  have "settled cx ?st' x" if "settled cx ?st x" for x
    using that bf by (simp add: settled_def rescanned_def se o1)
  with i' have "upholds cx ?st ?st'" by (simp add: upholds_def keeps_settled_def se)
  then have u: "upholds cx st ?st'" by (rule upholds_trans [OF serves_upholds [OF r(1)]])
  show thesis
    by (rule that [OF ret u]) (use f(3,4) r(2,3,5) o1 d bf in \<open>auto simp: S_def\<close>)
qed

section \<open>Releasing a subscription\<close>

lemma offer_fields [simp]:
  "ow_filters (snd (offer_source cx c st)) = ow_filters st" "ow_serial (snd (offer_source cx c st)) = ow_serial st"
  by (auto simp: offer_source_def split: prod.splits option.splits)

lemma release_inv:
  assumes inv: "ow_inv cx st"
  obtains res st' where "release_subscription cx sub st = Some (res, st')" "ow_inv cx st'"
    "\<forall>x. ev_subscription x \<noteq> sub \<and> settled cx st x \<longrightarrow> settled cx st' x" "sent cx st' = sent cx st"
    "shut cx st \<longrightarrow> shut cx st'"
    "sub_instance sub = sm_instance (ow_subsumer st) \<longrightarrow>
       sm_subs (ow_subsumer st') sub = None \<and> debt st' sub = None \<and> ow_filters st' sub = None \<and>
       ow_serial st' sub = None \<and> sub \<notin> ow_unclaimed st' \<and> (\<forall>x. x \<in># buffered st' \<longrightarrow> ev_subscription x \<noteq> sub)"
    "res = (if sm_subs (ow_subsumer st) sub = None then Inl UnUnknownSubscription else Inr ())"
    "\<forall>s. s \<noteq> sub \<longrightarrow> sm_subs (ow_subsumer st') s = sm_subs (ow_subsumer st) s \<and> debt st' s = debt st s"
proof -
  note give = that
  let ?st1 = "retire_syncs_of_subscription cx sub st"
  have q1: "quiet cx st ?st1" by simp
  then have c1: "core_same cx st ?st1" by (simp add: quiet_def)
  have i1: "ow_inv cx ?st1" using core_same_inv [OF c1] inv by simp
  have sm1: "ow_subsumer ?st1 = ow_subsumer st" "sent cx ?st1 = sent cx st" "debt ?st1 = debt st"
      "buffered ?st1 = buffered st" "shut cx st \<longrightarrow> shut cx ?st1"
    using c1 core_same_readings [OF c1] by (simp_all add: core_same_def)
  have k1: "settled cx ?st1 x" if "settled cx st x" for x
    using keepsD [OF core_same_keeps [OF c1] that] .
  have sm: "sm_inv (st_radices cx) (ow_subsumer st)" using inv by (simp add: ow_inv_def)
  show thesis
  proof (cases "sub_instance sub = sm_instance (ow_subsumer st)")
    case False
    then have "sm_subs (ow_subsumer st) sub = None" using sm by (auto simp: sm_inv_def ids_ok_def)
    moreover have "release_subscription cx sub st = Some (Inl UnUnknownSubscription, ?st1)"
      using False by (simp add: release_subscription_def Let_def sm1)
    ultimately show thesis using that i1 k1 False by (simp add: sm1)
  next
    case True
    let ?base = "?st1\<lparr>ow_needs := parked_take sub (ow_needs ?st1), ow_suppressed := parked_take sub (ow_suppressed ?st1),
      ow_unclaimed := ow_unclaimed ?st1 - {sub}\<rparr>"
    let ?st3 = "forget_sub sub ?base"
    have st3: "forget_buffered sub ((retire_sub_state sub ?st1)\<lparr>
        ow_needs := parked_take sub (ow_needs (retire_sub_state sub ?st1)),
        ow_suppressed := parked_take sub (ow_suppressed (retire_sub_state sub ?st1)),
        ow_unclaimed := ow_unclaimed (retire_sub_state sub ?st1) - {sub}\<rparr>) = ?st3"
      by (simp add: forget_sub_def forget_buffered_def retire_sub_state_def)
    have rest0: "\<forall>co. ow_coalescer ?base = Some co \<longrightarrow> at_rest co" using i1 by (simp add: ow_inv_def buffer_ok_def)
    note rest = forget_sub_rest [OF rest0, of sub]
    have bb: "buffered ?base = buffered ?st1" by (simp add: buffered_def)
    have deb: "debt ?st3 = (debt st)(sub := None)"
      using c1 by (auto simp: core_same_def debt_def map_add_def fun_eq_iff split: option.split)
    have se: "sent cx ?st3 = sent cx st" "shut cx ?st3 = shut cx ?st1"
      using sm1(2) by (simp_all add: sent_def shut_def)
    have pl: "planes_ok ?st3"
      using i1 by (auto simp: ow_inv_def planes_ok_def btm_ok_parked_take)
    have step: "ow_inv cx (?st3\<lparr>ow_subsumer := sm'\<rparr>)"
      if "sm_inv (st_radices cx) sm'" "sm_subs sm' = (sm_subs (ow_subsumer st))(sub := None)"
        "sm_instance sm' = sm_instance (ow_subsumer st)" "sm_next_sub sm' = sm_next_sub (ow_subsumer st)" for sm'
    proof (rule inv_shrink [OF i1, where S = "{sub}"])
      show "hw_of (ow_epochs (?st3\<lparr>ow_subsumer := sm'\<rparr>)) s = hw_of (ow_epochs ?st1) s" if "s \<notin> {sub}" for s
        using that by (simp add: hw_of_def ledger_remove_def)
      show "debt ?st1 s = Some p" if "debt (?st3\<lparr>ow_subsumer := sm'\<rparr>) s = Some p" for s p
        using that by (auto simp: deb sm1 split: if_splits)
      show "at_rest co" if "ow_coalescer (?st3\<lparr>ow_subsumer := sm'\<rparr>) = Some co" for co
        using that rest by (simp del: forget_sub_fields)
      show "x \<in># buffered ?st1 \<and> ev_subscription x \<notin> {sub}" if "x \<in># buffered (?st3\<lparr>ow_subsumer := sm'\<rparr>)" for x
        using that rest bb by simp
      show "ow_unclaimed (?st3\<lparr>ow_subsumer := sm'\<rparr>) \<subseteq> ow_unclaimed ?st1" by auto
    qed (use that pl se sm1 in \<open>simp_all\<close>)
    have k3: "settled cx (?st3\<lparr>ow_subsumer := sm'\<rparr>) x" if "ev_subscription x \<noteq> sub" "settled cx st x" for sm' x
    proof -
      have "settled cx ?st1 x" by (rule k1 [OF that(2)])
      then show ?thesis
        using that(1) rest bb by (auto simp: settled_def rescanned_def se sm1 owed_def deb)
    qed
    have post: "sm_subs (ow_subsumer (?st3\<lparr>ow_subsumer := sm'\<rparr>)) = sm_subs sm'" for sm' by simp
    have fin: thesis
      if rel: "release_subscription cx sub st = Some (res, st')"
        and res: "res = (if sm_subs (ow_subsumer st) sub = None then Inl UnUnknownSubscription else Inr ())"
        and sm': "sm_inv (st_radices cx) sm'" "sm_subs sm' = (sm_subs (ow_subsumer st))(sub := None)"
          "sm_instance sm' = sm_instance (ow_subsumer st)" "sm_next_sub sm' = sm_next_sub (ow_subsumer st)"
        and q: "quiet cx (?st3\<lparr>ow_subsumer := sm'\<rparr>) st5" "ow_filters st5 = ow_filters ?st3" "ow_serial st5 = ow_serial ?st3"
        and st': "st' = st5\<lparr>ow_subsumer := sm5\<rparr>" "sm_inv (st_radices cx) sm5" "sm_subs sm5 = sm_subs sm'"
          "sm_instance sm5 = sm_instance sm'" "sm_next_sub sm5 = sm_next_sub sm'"
      for res st' sm' st5 sm5
    proof -
      let ?st4 = "?st3\<lparr>ow_subsumer := sm'\<rparr>"
      have i4: "ow_inv cx ?st4" by (rule step [OF sm'])
      have c: "core_same cx ?st4 st5" using q(1) by (simp add: quiet_def)
      have i5: "ow_inv cx st5" using core_same_inv [OF c] i4 by simp
      have s5: "ow_subsumer st5 = sm'" using c by (simp add: core_same_def)
      have i': "ow_inv cx st'"
        unfolding st'(1) by (rule inv_roots_only [OF i5 st'(2)]) (use st' s5 in simp_all)
      have k': "settled cx st' x" if "ev_subscription x \<noteq> sub" "settled cx st x" for x
        using keepsD [OF core_same_keeps [OF c] k3 [OF that]] by (simp add: st'(1) settled_def rescanned_def)
      have d': "debt st' = (debt st)(sub := None)" "buffered st' = buffered ?st3" "sent cx st' = sent cx st"
          "ow_unclaimed st' = ow_unclaimed ?st3" "shut cx ?st3 \<longrightarrow> shut cx st'"
        using core_same_readings [OF c] c by (simp_all add: st'(1) deb core_same_def se)
      show thesis
        by (rule give [OF rel i'])
          (use k' d' st' sm' q sm1 se res rest bb in \<open>auto simp: deb split: if_splits\<close>)
    qed
    show thesis
    proof (cases "sm_subs (ow_subsumer st) sub")
      case None
      have "release_subscription cx sub st =
          Some (Inl UnUnknownSubscription, ?st3\<lparr>ow_subsumer := ow_subsumer st\<rparr>)"
        using None True st3 by (simp add: release_subscription_def Let_def sm1 plan_unwatch_def)
      then show thesis
        by (rule fin [where sm' = "ow_subsumer st" and ?st5.0 = "?st3\<lparr>ow_subsumer := ow_subsumer st\<rparr>"
            and ?sm5.0 = "ow_subsumer st"])
          (use None sm sm1 in \<open>simp_all add: fun_eq_iff\<close>)
    next
      case (Some r)
      obtain o1 sm' c where u: "plan_unwatch (st_radices cx) sub (ow_subsumer st) = Some (Some o1, sm')"
          "sm_inv (st_radices cx) sm'" "sm_subs sm' = (sm_subs (ow_subsumer st))(sub := None)"
        using eng.unwatch_inv [OF sm Some] by blast
      note ids = plan_unwatch_frame [OF u(1)]
      let ?st4 = "?st3\<lparr>ow_subsumer := sm'\<rparr>"
      have su: "ow_subsumer ?st3 = ow_subsumer st" by (simp add: sm1)
      show thesis
      proof (cases o1)
        case (RootEmptied h)
        have "release_subscription cx sub st = Some (Inr (), snd (offer_source cx (Disarm h) ?st4))"
          using True st3 u(1) RootEmptied by (simp add: release_subscription_def Let_def sm1 su)
        then show thesis
          by (rule fin [where sm' = sm' and ?st5.0 = "snd (offer_source cx (Disarm h) ?st4)" and ?sm5.0 = sm'])
            (use Some u ids quiet_offer [of ?st4 "Disarm h"] in \<open>simp_all add: quiet_def core_same_def\<close>)
      next
        case (Dropped sh)
        show thesis
        proof (cases sh)
          case None
          have "release_subscription cx sub st = Some (Inr (), ?st4)"
            using True st3 u(1) Dropped None by (simp add: release_subscription_def Let_def sm1 su)
          then show thesis
            by (rule fin [where sm' = sm' and ?st5.0 = ?st4 and ?sm5.0 = sm']) (use Some u ids in simp_all)
        next
          case (Some hk)
          obtain h retained where hk: "hk = (h, retained)" by (cases hk)
          obtain offer st5 where of: "offer_source cx (SetCover h retained) ?st4 = (offer, st5)" by fastforce
          let ?rec = "case offer of Ran \<Rightarrow> retained | _ \<Rightarrow> []"
          have q: "quiet cx ?st4 st5" "ow_filters st5 = ow_filters ?st3" "ow_serial st5 = ow_serial ?st3"
            using quiet_offer [of ?st4 "SetCover h retained"] offer_fields [of "SetCover h retained" ?st4] of by simp_all
          have s5: "ow_subsumer st5 = sm'" using q(1) by (simp add: quiet_def core_same_def)
          have "release_subscription cx sub st = Some (Inr (), st5\<lparr>ow_subsumer :=
              set_retained_cover (st_radices cx) h (Some ?rec) (ow_subsumer st5)\<rparr>)"
            using True st3 u(1) Dropped Some hk of by (simp add: release_subscription_def Let_def sm1 su)
          then show thesis
            by (rule fin [where sm' = sm' and ?st5.0 = st5
                and ?sm5.0 = "set_retained_cover (st_radices cx) h (Some ?rec) sm'"])
              (use \<open>sm_subs (ow_subsumer st) sub = Some r\<close> u ids q s5 eng.set_cover_inv [OF u(2)] in simp_all)
        qed
      qed
    qed
  qed
qed

end

end
