(* ===== verification/Owner_Consume.thy ===== *)
theory Owner_Consume
  imports Owner_Retire
begin

text \<open>
  Consuming a source event, whole: routing, the quarantine of filters that unwound, the push of the
  batch, the drain and the barriers the event resolves or dominates.
\<close>

section \<open>Routing\<close>

definition fan_events ::
  "('e, 't, 'u, 'w, 'c, 'v, 'h) site \<Rightarrow> ('c, 'h) source_event \<Rightarrow> ('e, 't, 'u, 'c, 'v, 'h) owner \<Rightarrow> ('c, 'v) event list"
  where
  "fan_events cx raw st =
     (let reserved = reserved_endpoints_of cx raw st
      in if reserved_is_total reserved then []
         else case fan_out_raw cx raw reserved st of None \<Rightarrow> [] | Some (evs, _, _) \<Rightarrow> evs)"

lemma fan_out_raw_facts:
  fixes st :: "('e, 't, 'u, 'c::linorder, 'v, 'h) owner"
  assumes inv: "ow_inv cx st"
  obtains evs poisoned st1 where "fan_out_raw cx raw rs st = Some (evs, poisoned, st1)" "emission cx st st1"
    "sent cx st1 = sent cx st" "buffered st1 = buffered st" "\<forall>x \<in> set evs. ev_ok st1 x"
    "distinct (map ev_subscription evs)"
    "\<forall>r \<in> set evs. event_is_rescan r \<longrightarrow> (\<forall>x. (x \<in> set (sent cx st) \<or> x \<in># buffered st) \<and>
       ev_subscription x = ev_subscription r \<longrightarrow> below (ev_epoch x) (ev_epoch r))"
proof (cases "root_view (st_radices cx) (se_handle raw) (ow_subsumer st)")
  case None
  then show thesis using that [of "[]" "[]" st] emission_refl [OF inv] by (simp add: fan_out_raw_def Let_def)
next
  case (Some v)
  obtain k subs where v: "v = (k, subs)" by (cases v)
  let ?sm = "ow_subsumer st"
  have sm: "sm_inv (st_radices cx) ?sm" using inv by (simp add: ow_inv_def)
  note rv = root_view_Some [OF sm Some [unfolded v]]
  let ?e = "\<lparr>sr_event = raw, sr_reserved = rs\<rparr>" and ?canon = "\<lambda>s. subscription_key s ?sm"
  let ?gate = "gate_admits (\<lambda>s. subscription_interest s ?sm) (ow_filters st) (ow_slots st) ::
      subscription \<Rightarrow> ('c, 'v) event \<Rightarrow> bool \<times> subscription list \<Rightarrow> bool \<times> bool \<times> subscription list"
  let ?val = "\<lambda>ev. subscription_value (st_radices cx) (ev_subscription ev) ?sm"
  let ?into = "\<lambda>ev e. ev\<lparr>ev_epoch := e, ev_value := ?val ev\<rparr>"
  obtain ds :: "('c, 'v) event list" and g where f: "fan_out_with source_routable_ops ?e subs ?canon ?gate (ow_payload_forgotten st, []) = Some (ds, g)"
    using fan_out_with_defined [of ?e subs ?canon ?gate "(ow_payload_forgotten st, [])"] by blast
  obtain evs l where sa: "stamp_all (kind_is_rescan (se_kind raw)) (se_epoch raw) ev_subscription ?into ds (ow_epochs st) = (evs, l)"
    by fastforce
  obtain fg poisoned where g: "g = (fg, poisoned)" by (cases g)
  have all: "stamp_and_fan_out_with source_routable_ops ?e (se_epoch raw) subs ?canon ?gate ev_subscription ?into
      (ow_payload_forgotten st, []) (ow_epochs st) = Some (evs, g, l)"
    using f sa by (simp add: stamp_and_fan_out_with_def source_rescan_iff)
  note ff = fanned_facts [OF all rv(2)]
  let ?st1 = "st\<lparr>ow_epochs := l, ow_payload_forgotten := fg\<rparr>"
  have fan: "fan_out_raw cx raw rs st = Some (evs, poisoned, ?st1)"
    using Some v all g by (simp add: fan_out_raw_def Let_def)
  have le: "\<And>s. hw_of (ow_epochs st) s \<le> hw_of l s" using ff(1) by blast
  have i1: "ow_inv cx (st\<lparr>ow_epochs := l\<rparr>)" by (rule inv_raise [OF le inv])
  have "core_same cx (st\<lparr>ow_epochs := l\<rparr>) ?st1" by (simp add: core_same_def sent_def shut_def)
  moreover have "emission_frame (st\<lparr>ow_epochs := l\<rparr>) ?st1" by (simp add: emission_frame_def)
  ultimately have e2: "emission cx (st\<lparr>ow_epochs := l\<rparr>) ?st1" using i1 core_same_emission by blast
  have e1: "emission cx st (st\<lparr>ow_epochs := l\<rparr>)"
    using i1 raise_frame [OF le] by (simp add: emission_def keeps_settled_def settled_def rescanned_def owed_def)
  have em: "emission cx st ?st1" by (rule emission_trans [OF e1 e2])
  have ok: "ev_ok ?st1 x" if "x \<in> set evs" for x
  proof -
    note f = bspec [OF ff(3) that]
    obtain c where c: "?canon (ev_subscription x) = Some c" "prefix c (ev_key x)"
        "\<forall>f. ev_kind x = EMoved f \<longrightarrow> prefix c f"
      using f by (elim conjE exE)
    obtain r where "sm_subs ?sm (ev_subscription x) = Some r" "sr_key r = c"
      using c(1) by (auto simp: subscription_key_def)
    then show ?thesis using c f by (simp add: ev_ok_def)
  qed
  have fresh: "below (ev_epoch x) (ev_epoch r)"
    if r: "r \<in> set evs" "event_is_rescan r" and x: "x \<in> set (sent cx st) \<or> x \<in># buffered st"
      and same: "ev_subscription x = ev_subscription r" for r x
  proof -
    note f = bspec [OF ff(3) r(1)]
    have "sm_subs ?sm (ev_subscription r) \<noteq> None" using f rv(3) by simp
    then have "ev_epoch x \<le> hw_of (ow_epochs st) (ev_subscription r)"
      using x same inv by (auto simp: ow_inv_def stream_ok_def buffer_ok_def ev_ok_def)
    moreover have "below (hw_of (ow_epochs st) (ev_subscription r)) (ev_epoch r)" using f r(2) by simp
    ultimately show ?thesis by (rule below_le)
  qed
  show thesis
  proof (rule that [OF fan em])
    show "\<forall>r \<in> set evs. event_is_rescan r \<longrightarrow> (\<forall>x. (x \<in> set (sent cx st) \<or> x \<in># buffered st) \<and>
        ev_subscription x = ev_subscription r \<longrightarrow> below (ev_epoch x) (ev_epoch r))"
      using fresh by blast
  qed (use ok ff(2) in \<open>simp_all add: sent_def buffered_def\<close>)
qed

section \<open>Quarantine\<close>

text \<open>
  A filter that unwound is retired open, and its subscription is owed a rescan that stands for whatever
  the filter would have decided.
\<close>

lemma quarantine_eq:
  assumes "sm_subs (ow_subsumer st) sub = Some r" and "gates_quarantine sub (ow_filters st) = (True, g)"
  shows "quarantine_filters cx (sub # subs) st =
    quarantine_filters cx subs (dominate_syncs_of_subscription cx sub
      (fresh_park sub (sr_key r) (subscription_value (st_radices cx) sub (ow_subsumer st))
        (note_loss sub (st\<lparr>ow_filters := g\<rparr>))))"
proof -
  let ?v = "subscription_value (st_radices cx) sub (ow_subsumer st)" and ?e = "epoch_next (hw_of (ow_epochs st) sub)"
  have "park_in sub (sr_key r) ?e ?v ((note_loss sub (drop_buffered sub (st\<lparr>ow_filters := g\<rparr>)))
        \<lparr>ow_epochs := bump sub ?e (ow_epochs st)\<rparr>) =
      fresh_park sub (sr_key r) ?v (note_loss sub (st\<lparr>ow_filters := g\<rparr>))"
    by (rule owner.equality)
      (simp_all add: fresh_park_def on_shed_eq note_loss_def park_in_def drop_buffered_def)
  then show ?thesis
    using assms by (simp add: subscription_key_def on_shed_eq Let_def)
qed

context delivery
begin

lemma quarantine_emission:
  assumes "ow_inv cx st"
  shows "emission cx st (quarantine_filters cx subs st) \<and> sent cx (quarantine_filters cx subs st) = sent cx st"
  using assms
proof (induction subs arbitrary: st)
  case Nil
  then show ?case by (simp add: emission_refl)
next
  case (Cons sub subs)
  obtain gated g where g: "gates_quarantine sub (ow_filters st) = (gated, g)" by fastforce
  let ?st1 = "st\<lparr>ow_filters := g\<rparr>"
  have c1: "core_same cx st ?st1" by (simp add: core_same_def sent_def shut_def)
  have e1: "emission cx st ?st1" by (rule core_same_emission [OF c1 Cons.prems]) (simp add: emission_frame_def)
  have i1: "ow_inv cx ?st1" by (rule emission_inv [OF e1])
  have s1: "sent cx ?st1 = sent cx st" using c1 by (simp add: core_same_def)
  show ?case
  proof (cases "gated \<and> sm_subs (ow_subsumer st) sub \<noteq> None")
    case False
    then have "quarantine_filters cx (sub # subs) st = quarantine_filters cx subs ?st1"
      using g by (auto simp: subscription_key_def Let_def)
    then show ?thesis using Cons.IH [OF i1] emission_trans [OF e1] s1 by simp
  next
    case True
    then obtain r where r: "sm_subs (ow_subsumer st) sub = Some r" by blast
    let ?st2 = "note_loss sub ?st1"
    let ?st3 = "fresh_park sub (sr_key r) (subscription_value (st_radices cx) sub (ow_subsumer st)) ?st2"
    let ?st4 = "dominate_syncs_of_subscription cx sub ?st3"
    have e2: "emission cx ?st1 ?st2" by (rule core_same_emission [OF note_loss_core i1 note_loss_frame])
    have "sm_subs (ow_subsumer ?st2) sub = Some r" using r by simp
    note p = fresh_park_emission [OF emission_inv [OF e2] this]
    have e3: "emission cx ?st2 ?st3" by (rule p(1))
    have q: "quiet cx ?st3 ?st4" by simp
    then have e4: "emission cx ?st3 ?st4"
      using core_same_emission [OF _ emission_inv [OF e3]] by (simp add: quiet_def)
    have e: "emission cx st ?st4"
      by (rule emission_trans [OF e1 emission_trans [OF e2 emission_trans [OF e3 e4]]])
    have s: "sent cx ?st4 = sent cx st"
      using q p(3) s1 note_loss_core [of cx ?st1 sub] by (simp add: quiet_def core_same_def)
    have "quarantine_filters cx (sub # subs) st = quarantine_filters cx subs ?st4"
      using g True by (intro quarantine_eq [OF r]) simp
    then show ?thesis using Cons.IH [OF emission_inv [OF e]] emission_trans [OF e] s by simp
  qed
qed

section \<open>Pushing what was routed\<close>

lemma fan_out_and_push_progress:
  assumes inv: "ow_inv cx st"
  obtains rs st' where "fan_out_and_push cx raw st = Some (rs, st')" "progress cx st st'"
    "\<forall>x. settled cx st x \<or> x \<in> set (fan_events cx raw st) \<longrightarrow>
       settled cx st' x \<or> absorbed (settled cx st') (buffered st) (fan_events cx raw st) x"
proof -
  let ?rs = "reserved_endpoints_of cx raw st"
  show thesis
  proof (cases "reserved_is_total ?rs")
    case True
    then have "fan_out_and_push cx raw st = Some (?rs, st)" "fan_events cx raw st = []"
      by (simp_all add: fan_out_and_push_def fan_events_def Let_def)
    then show thesis using that emission_progress [OF emission_refl [OF inv]] by simp
  next
    case False
    obtain evs poisoned st1 where f: "fan_out_raw cx raw ?rs st = Some (evs, poisoned, st1)" "emission cx st st1"
        "sent cx st1 = sent cx st" "buffered st1 = buffered st" "\<forall>x \<in> set evs. ev_ok st1 x"
        "distinct (map ev_subscription evs)"
        "\<forall>r \<in> set evs. event_is_rescan r \<longrightarrow> (\<forall>x. (x \<in> set (sent cx st) \<or> x \<in># buffered st) \<and>
          ev_subscription x = ev_subscription r \<longrightarrow> below (ev_epoch x) (ev_epoch r))"
      using fan_out_raw_facts [OF inv] by metis
    have fe: "fan_events cx raw st = evs" using False f(1) by (simp add: fan_events_def Let_def)
    let ?st2 = "quarantine_filters cx poisoned st1"
    let ?behind = "filter (\<lambda>ev. ev_subscription ev \<in> set poisoned) evs"
    let ?rest = "filter (\<lambda>ev. ev_subscription ev \<notin> set poisoned) evs"
    let ?st3 = "emit_all cx ?behind ?st2"
    note q = quarantine_emission [OF emission_inv [OF f(2)], of poisoned]
    have e2: "emission cx st ?st2" by (rule emission_trans [OF f(2)]) (use q in blast)
    have i2: "ow_inv cx ?st2" by (rule emission_inv [OF e2])
    have s2: "sent cx ?st2 = sent cx st" using q f(3) by simp
    have ok2: "\<forall>x \<in> set evs. ev_ok ?st2 x" using f(5) q emission_ev_ok by blast
    have srt: "sorted_wrt after_rescan (sent cx ?st2 @ ?behind)"
    proof (rule ordered_batch)
      show "stream_ok cx ?st2" using i2 by (simp add: ow_inv_def)
      show "distinct (map ev_subscription ?behind)" using f(6) by (rule distinct_map_filter)
      show "\<forall>r \<in> set ?behind. event_is_rescan r \<longrightarrow> (\<forall>x \<in> set (sent cx ?st2).
          ev_subscription x = ev_subscription r \<longrightarrow> below (ev_epoch x) (ev_epoch r))"
        using f(7) s2 by auto
    qed
    have okb: "\<forall>x \<in> set ?behind. ev_ok ?st2 x" using ok2 by simp
    obtain new where n: "emission cx ?st2 ?st3" "sent cx ?st3 = sent cx ?st2 @ new" "subseq new ?behind"
      using emit_all_emission [OF i2 okb srt] by metis
    note eb = emit_batch [OF i2 okb srt]
    have e3: "emission cx st ?st3" by (rule emission_trans [OF e2 n(1)])
    have i3: "ow_inv cx ?st3" by (rule emission_inv [OF e3])
    have ok3: "\<forall>x \<in> set ?rest. ev_ok ?st3 x" using ok2 emission_ev_ok [OF n(1)] by simp
    have d3: "distinct (map ev_subscription ?rest)" using f(6) by (rule distinct_map_filter)
    have new: "ev_subscription x \<in> set poisoned" if "x \<in> set new" for x
      using subseq_set_subset [OF n(3) that] by simp
    have fr3: "\<forall>r \<in> set ?rest. event_is_rescan r \<longrightarrow> (\<forall>x. (x \<in> set (sent cx ?st3) \<or> x \<in># buffered ?st3) \<and>
        ev_subscription x = ev_subscription r \<longrightarrow> below (ev_epoch x) (ev_epoch r))"
    proof (intro ballI impI allI)
      fix r x assume r: "r \<in> set ?rest" "event_is_rescan r"
        and x: "(x \<in> set (sent cx ?st3) \<or> x \<in># buffered ?st3) \<and> ev_subscription x = ev_subscription r"
      have "x \<notin> set new" using new [of x] r(1) x by auto
      then have "x \<in> set (sent cx st) \<or> x \<in># buffered st"
        using x n(2) s2 e3 by (auto simp: emission_def)
      then show "below (ev_epoch x) (ev_epoch r)" using f(7) r x by auto
    qed
    obtain st' where p: "push_all cx ?rest ?st3 = Some st'" "progress cx ?st3 st'"
        "\<forall>x. settled cx ?st3 x \<or> x \<in> set ?rest \<longrightarrow> settled cx st' x \<or> absorbed (settled cx st') (buffered ?st3) ?rest x"
      using push_all_progress [OF i3 ok3 d3 fr3] by metis
    have run: "fan_out_and_push cx raw st = Some (?rs, st')"
    proof (cases "poisoned = []")
      case True
      then have "?rest = evs" "?st3 = st1" by (simp_all add: emit_all_def)
      then show ?thesis using False f(1) p(1) True by (simp add: fan_out_and_push_def Let_def)
    next
      case nonempty: False
      then show ?thesis using False f(1) p(1) by (simp add: fan_out_and_push_def Let_def)
    qed
    have prog: "progress cx st st'" by (rule progress_trans [OF emission_progress [OF e3] p(2)])
    have ab: "absorbed P (buffered st) evs x" if "absorbed P (buffered ?st3) ?rest x" for P x
      using that e3 unfolding absorbed_def emission_def by auto
    have "settled cx st' x \<or> absorbed (settled cx st') (buffered st) evs x"
      if x: "settled cx st x \<or> x \<in> set evs" for x
    proof -
      have "settled cx ?st3 x \<or> x \<in> set ?rest"
      proof (cases "x \<in> set ?behind")
        case True
        then show ?thesis using eb(2) landed_settled by blast
      next
        case False
        then show ?thesis using x keepsD [OF emission_keeps [OF e3]] by auto
      qed
      then show ?thesis using p(3) ab by blast
    qed
    then show thesis using that [OF run prog] unfolding fe by blast
  qed
qed

end

section \<open>Consuming\<close>

text \<open>The event as routed, and what it is delivered as, on the path of a live root.\<close>

definition routed_event ::
  "('e, 't, 'u, 'w, 'c, 'v, 'h) site \<Rightarrow> ('c, 'h) source_event \<Rightarrow> ('e, 't, 'u, 'c, 'v, 'h) owner \<Rightarrow> ('c, 'h) source_event"
  where
  "routed_event cx ev st = (case clamp_disjoint_live_root_rescan cx ev st of None \<Rightarrow> ev | Some e \<Rightarrow> e)"

definition deliveries ::
  "('e, 't, 'u, 'w, 'c, 'v, 'h) site \<Rightarrow> ('c, 'h) source_event \<Rightarrow> ('e, 't, 'u, 'c, 'v, 'h) owner \<Rightarrow> ('c, 'v) event list"
  where
  "deliveries cx ev st =
     (if wd_root_key (st_world cx) (ow_world st) (se_handle ev) = None then []
      else fan_events cx (routed_event cx ev st)
        (degrade_retained_cover_on_rescan cx (routed_event cx ev st) st))"

context delivery
begin

lemma degrade_step:
  fixes raw :: "('c, 'h) source_event"
  assumes "ow_inv cx st"
  defines "st' \<equiv> degrade_retained_cover_on_rescan cx raw st"
  shows "ow_inv cx st'" and "settled cx st' = settled cx st" and "buffered st' = buffered st"
    and "sent cx st' = sent cx st" and "shut cx st' = shut cx st"
proof -
  have "sm_inv (st_radices cx) (ow_subsumer st)" using assms(1) by (simp add: ow_inv_def)
  from eng.degrade_inv [OF this] assms(1) show "ow_inv cx st'"
    by (simp add: st'_def degrade_retained_cover_on_rescan_def inv_roots_only)
  show "settled cx st' = settled cx st" and "buffered st' = buffered st" and "sent cx st' = sent cx st"
    and "shut cx st' = shut cx st"
    by (simp_all add: st'_def degrade_retained_cover_on_rescan_def settled_def rescanned_def fun_eq_iff)
qed

lemma consume_upholds:
  assumes inv: "ow_inv cx st"
  obtains st' where "consume_source_event cx ev st = Some st'" "ow_inv cx st'"
    "prefix (sent cx st) (sent cx st')" "shut cx st \<longrightarrow> shut cx st'"
    "\<forall>x. settled cx st x \<or> x \<in> set (deliveries cx ev st) \<longrightarrow>
       settled cx st' x \<or> absorbed (settled cx st') (buffered st) (deliveries cx ev st) x"
proof (cases "wd_root_key (st_world cx) (ow_world st) (se_handle ev)")
  case None
  obtain st1 where r: "retire_root_with_terminal_rescan cx (se_handle ev) st = Some st1" "upholds cx st st1"
    using retire_root_upholds [OF inv, of "se_handle ev"] by metis
  obtain st2 where d: "drain_coalescer_due cx st1 = Some st2" "progress cx st1 st2" "keeps_settled cx st1 st2"
    using drain_due_progress [OF upholds_inv [OF r(2)]] by metis
  have "consume_source_event cx ev st = Some st2"
    using None r(1) d(1) by (simp add: consume_source_event_def retire_if_dead_def)
  moreover have "upholds cx st st2"
    by (rule upholds_trans [OF r(2) serves_upholds [OF progress_serves [OF d(2,3)]]])
  moreover have "deliveries cx ev st = []" using None by (simp add: deliveries_def)
  ultimately show thesis using that by (auto simp: upholds_def keeps_settled_def)
next
  case (Some k)
  let ?ev = "routed_event cx ev st"
  let ?st2 = "degrade_retained_cover_on_rescan cx ?ev st"
  note g = degrade_step [OF inv, of ?ev]
  have del: "deliveries cx ev st = fan_events cx ?ev ?st2" using Some by (simp add: deliveries_def)
  obtain rs st3 where p: "fan_out_and_push cx ?ev ?st2 = Some (rs, st3)" "progress cx ?st2 st3"
      "\<forall>x. settled cx ?st2 x \<or> x \<in> set (fan_events cx ?ev ?st2) \<longrightarrow>
         settled cx st3 x \<or> absorbed (settled cx st3) (buffered ?st2) (fan_events cx ?ev ?st2) x"
    using fan_out_and_push_progress [OF g(1)] by metis
  have i3: "ow_inv cx st3" using p(2) by (simp add: progress_def)
  obtain st4 where d: "drain_coalescer_due cx st3 = Some st4" "progress cx st3 st4" "keeps_settled cx st3 st4"
    using drain_due_progress [OF i3] by metis
  have s4: "serves cx st3 st4" by (rule progress_serves [OF d(2,3)])
  have i4: "ow_inv cx st4" by (rule serves_inv [OF s4])
  obtain st5 where b: "(if kind_is_rescan (se_kind ?ev) then dominate_pending_syncs cx ?ev st4
        else if reserved_any rs then resolve_matching_pending_sync cx ?ev rs st4 else Some st4) = Some st5"
      "serves cx st4 st5"
  proof (cases "kind_is_rescan (se_kind ?ev)")
    case True
    then show thesis using that dominate_pending_serves [OF i4] by metis
  next
    case False
    then show thesis using that resolve_matching_serves [OF i4] serves_refl [OF i4] by (cases "reserved_any rs") metis+
  qed
  have run: "consume_source_event cx ev st = Some st5"
    using Some p(1) d(1) b(1)
    by (simp add: consume_source_event_def retire_if_dead_def Let_def flip: routed_event_def)
  have s35: "serves cx st3 st5" by (rule serves_trans [OF s4 b(2)])
  have "settled cx st5 x \<or> absorbed (settled cx st5) (buffered st) (deliveries cx ev st) x"
    if "settled cx st x \<or> x \<in> set (deliveries cx ev st)" for x
  proof -
    have k: "settled cx st3 z \<Longrightarrow> settled cx st5 z" for z using s35 by (simp add: serves_def keeps_settled_def)
    have "settled cx st3 x \<or> absorbed (settled cx st3) (buffered st) (deliveries cx ev st) x"
      using p(3) that unfolding g(2,3) del by blast
    then show ?thesis using k absorbed_mono [of "settled cx st3"] by blast
  qed
  moreover have "prefix (sent cx st) (sent cx st5)" "shut cx st \<longrightarrow> shut cx st5"
    using p(2) s35 g(4,5) by (auto simp: progress_def serves_def intro: prefix_order.trans)
  ultimately show thesis using that [OF run serves_inv [OF s35]] by blast
qed

end

end
