(* ===== verification/Reconcile.thy ===== *)
theory Reconcile
  imports Owner
begin

text \<open>
  The asynchronous half of the owner task (\<open>driver/mod.rs\<close>): \<open>watch\<close> and its reconciliation toward
  pairwise-disjoint armed roots, and the admission of a sync barrier. Every awaited call of the source is
  raced against the close signal; the world answers the race, and what follows is sequential, since the
  owner runs one command at a time.

  \<^item> \<open>reconcile_stop\<close> is \<open>ReconcileStop\<close> with one constructor more: \<open>Unwinds\<close>, the task's own unwinding
    from the debug tripwire of \<open>adopt_armed\<close> or from a source call made outside the containment.
  \<^item> An operation returns what the code returns beside the state; the outer option is a failing \<open>expect\<close>
    or a loop that does not end (\<open>partial_function\<close>).
\<close>

section \<open>Types\<close>

datatype reconcile_stop = Failed uwatch_error | CloseRequested | StopHandlesGone | Unwinds

datatype teardown = TearClose | TearHandlesGone

record ('c, 'v) watch_request =
  wq_key :: "'c list"
  wq_value :: 'v
  wq_interest :: delivery_interest
  wq_filter :: slot_id
  wq_debounce :: debounce
  wq_globs :: root_globs

datatype watch_reply = WatchGranted subscription | WatchBounced | WatchRefused uwatch_error | WatchDropped

datatype sync_admit = SyncDone | SyncCloseRequested

datatype ('c, 'h) rearm_step = RearmArmed 'h "'c list" | RearmRefused | RearmTerminal reconcile_stop

datatype ('c, 'h) rearm_attempt = AttemptArmed 'h "'c list" | AttemptRefused uwatch_error
  | AttemptTerminal reconcile_stop

definition restore_retry_budget :: duration where
  "restore_retry_budget = 2000000000"

definition restore_retry_pace :: duration where
  "restore_retry_pace = 100000000"

definition retired_rescan_debt_limit :: nat where
  "retired_rescan_debt_limit = 1024"

definition max_pending_syncs :: nat where
  "max_pending_syncs = 256"

definition observed_handle_history :: nat where
  "observed_handle_history = 4096"

definition canonical_race :: uwatch_error where
  "canonical_race = UwCanonicalRace"

section \<open>The source\<close>

text \<open>A contained call: an unwind is noted in the latches and travels no further.\<close>

definition call_source ::
  "('e, 't, 'u, 'w, 'c, 'v, 'h) site \<Rightarrow> ('c, 'h) source_call \<Rightarrow> ('e, 't, 'u, 'c, 'v, 'h) owner
     \<Rightarrow> ('e, 't, 'u, 'c, 'v, 'h) owner" where
  "call_source cx c st =
     (case wd_call (st_world cx) c (ow_world st) of
        (None, e) \<Rightarrow> st\<lparr>ow_world := e\<rparr>
      | (Some p, e) \<Rightarrow> st\<lparr>ow_world := e, ow_disposals :=
          \<lparr>sd_unwound = True, sd_forgotten = sd_forgotten (ow_disposals st) \<or> is_forgotten p\<rparr>\<rparr>)"

text \<open>A release requested outside the containment: whether it returned.\<close>

definition disarm_bare ::
  "('e, 't, 'u, 'w, 'c, 'v, 'h) site \<Rightarrow> 'h \<Rightarrow> ('e, 't, 'u, 'c, 'v, 'h) owner
     \<Rightarrow> bool \<times> ('e, 't, 'u, 'c, 'v, 'h) owner" where
  "disarm_bare cx h st =
     (let (p, e) = wd_call (st_world cx) (Disarm h) (ow_world st) in (p = None, st\<lparr>ow_world := e\<rparr>))"

definition begin_source_close ::
  "('e, 't, 'u, 'w, 'c, 'v, 'h) site \<Rightarrow> ('e, 't, 'u, 'c, 'v, 'h) owner \<Rightarrow> ('e, 't, 'u, 'c, 'v, 'h) owner" where
  "begin_source_close cx st =
     (if ow_closing st then st else call_source cx BeginClose (st\<lparr>ow_closing := True\<rparr>))"

text \<open>The end of a race: on a close reading the abandoned future is dropped under containment.\<close>

definition settle_race ::
  "('e, 't, 'u, 'w, 'c, 'v, 'h) site \<Rightarrow> 'x race \<Rightarrow> ('e, 't, 'u, 'c, 'v, 'h) owner
     \<Rightarrow> (reconcile_stop + 'x) \<times> ('e, 't, 'u, 'c, 'v, 'h) owner" where
  "settle_race cx r st =
     (case r of
        Settled x \<Rightarrow> (Inr x, st)
      | CloseWon \<Rightarrow> (Inl CloseRequested, call_source cx DropRaced st)
      | HandlesGone \<Rightarrow> (Inl StopHandlesGone, call_source cx DropRaced st))"

text \<open>A close reading of the caller's own acquisition enters the close seam at once.\<close>

definition settle_and_seam ::
  "('e, 't, 'u, 'w, 'c, 'v, 'h) site \<Rightarrow> 'x race \<Rightarrow> ('e, 't, 'u, 'c, 'v, 'h) owner
     \<Rightarrow> (reconcile_stop + 'x) \<times> ('e, 't, 'u, 'c, 'v, 'h) owner" where
  "settle_and_seam cx r st =
     (case settle_race cx r st of (Inl s, st1) \<Rightarrow> (Inl s, begin_source_close cx st1) | ok \<Rightarrow> ok)"

definition observe :: "'h \<Rightarrow> 'h observed_handles \<Rightarrow> bool \<times> 'h observed_handles" where
  "observe h ob =
     (if h \<in> ob_seen ob then (False, ob)
      else (let seen = insert h (ob_seen ob); order = ob_order ob @ [h]
            in if length order > observed_handle_history
               then (True, \<lparr>ob_seen = seen - {hd order}, ob_order = tl order\<rparr>)
               else (True, \<lparr>ob_seen = seen, ob_order = order\<rparr>)))"

definition adopt_armed ::
  "('e, 't, 'u, 'w, 'c, 'v, 'h) site \<Rightarrow> ('c, 'h) armed \<Rightarrow> ('e, 't, 'u, 'c, 'v, 'h) owner
     \<Rightarrow> (reconcile_stop + 'h \<times> 'c list) \<times> ('e, 't, 'u, 'c, 'v, 'h) owner" where
  "adopt_armed cx a st =
     (let h = ar_handle a
      in if wd_root_key (st_world cx) (ow_world st) h = None
         then (let (ok, st1) = disarm_bare cx h st in (Inl (if ok then Failed UwDeadOnArrival else Unwinds), st1))
         else (let aliases = (entry (st_radices cx) h (ow_subsumer st) \<noteq> None);
                   (unseen, ob) = observe h (ow_observed st);
                   st1 = st\<lparr>ow_observed := ob\<rparr>
               in if \<not> aliases \<and> unseen then (Inr (h, ar_key a), st1) else (Inl Unwinds, st1)))"

definition arm ::
  "('e, 't, 'u, 'w, 'c, 'v, 'h) site \<Rightarrow> 'c list \<Rightarrow> root_globs \<Rightarrow> ('e, 't, 'u, 'c, 'v, 'h) owner
     \<Rightarrow> (reconcile_stop + 'h \<times> 'c list) \<times> ('e, 't, 'u, 'c, 'v, 'h) owner" where
  "arm cx key globs st =
     (if sd_forgotten (ow_disposals st) then (Inl (Failed UwSourceRetired), st)
      else (let (r, e) = wd_arm (st_world cx) key globs (ow_world st)
            in case settle_and_seam cx r (st\<lparr>ow_world := e\<rparr>) of
                 (Inl s, st1) \<Rightarrow> (Inl s, st1)
               | (Inr (Inl err), st1) \<Rightarrow> (Inl (Failed err), st1)
               | (Inr (Inr a), st1) \<Rightarrow> adopt_armed cx a st1))"

definition grow ::
  "('e, 't, 'u, 'w, 'c, 'v, 'h) site \<Rightarrow> 'h \<Rightarrow> 'c list list \<Rightarrow> ('e, 't, 'u, 'c, 'v, 'h) owner
     \<Rightarrow> (reconcile_stop + unit) \<times> ('e, 't, 'u, 'c, 'v, 'h) owner" where
  "grow cx root cover st =
     (if sd_forgotten (ow_disposals st) then (Inl (Failed UwSourceRetired), st)
      else (let (r, e) = wd_grow (st_world cx) root cover (ow_world st)
            in case settle_and_seam cx r (st\<lparr>ow_world := e\<rparr>) of
                 (Inl s, st1) \<Rightarrow> (Inl s, st1)
               | (Inr (Inl err), st1) \<Rightarrow> (Inl (Failed err), st1)
               | (Inr (Inr u), st1) \<Rightarrow> (Inr (), st1)))"

definition replace_racing_close ::
  "('e, 't, 'u, 'w, 'c, 'v, 'h) site \<Rightarrow> 'h \<Rightarrow> 'c list \<Rightarrow> ('e, 't, 'u, 'c, 'v, 'h) owner
     \<Rightarrow> (reconcile_stop + (uwatch_error + ('c, 'h) armed)) \<times> ('e, 't, 'u, 'c, 'v, 'h) owner" where
  "replace_racing_close cx h key st =
     (let (r, e) = wd_replace (st_world cx) h key (ow_world st) in settle_and_seam cx r (st\<lparr>ow_world := e\<rparr>))"

section \<open>Committing\<close>

definition register_debounce ::
  "subscription \<Rightarrow> debounce \<Rightarrow> ('e, 't, 'u, 'c, 'v, 'h) owner \<Rightarrow> ('e, 't, 'u, 'c, 'v, 'h) owner" where
  "register_debounce sub d st =
     (case d of
        Inherit \<Rightarrow> st
      | Off \<Rightarrow> st\<lparr>ow_coalescer := map_option (set_policy sub d) (ow_coalescer st)\<rparr>
      | Custom _ \<Rightarrow> st\<lparr>ow_coalescer := Some (set_policy sub d
          (case ow_coalescer st of None \<Rightarrow> coalescer_new (ow_debounce st) | Some co \<Rightarrow> co))\<rparr>)"

definition install_state ::
  "subscription \<Rightarrow> slot_id \<Rightarrow> debounce \<Rightarrow> ('e, 't, 'u, 'c, 'v, 'h) owner \<Rightarrow> ('e, 't, 'u, 'c, 'v, 'h) owner" where
  "install_state sub slot d st = register_debounce sub d (st\<lparr>ow_filters := gates_install sub slot (ow_filters st)\<rparr>)"

text \<open>The dominating rescans of subscriptions whose root changed, each rebased in the ledger.\<close>

fun repoint_rescans ::
  "('e, 't, 'u, 'w, 'c::linorder, 'v, 'h) site \<Rightarrow> 'c list \<Rightarrow> subscription list \<Rightarrow> ('e, 't, 'u, 'c, 'v, 'h) owner
     \<Rightarrow> ('c, 'v) event list \<times> ('e, 't, 'u, 'c, 'v, 'h) owner" where
  "repoint_rescans cx root_key [] st = ([], st)"
| "repoint_rescans cx root_key (sub # subs) st0 =
     (let st = drop_buffered sub st0;
          (e, l) = repoint sub (ow_epochs st);
          key = rescan_key_for sub root_key st;
          ev = (event_rescan sub key e)\<lparr>ev_value := subscription_value (st_radices cx) sub (ow_subsumer st)\<rparr>;
          (evs, st1) = repoint_rescans cx root_key subs (st\<lparr>ow_epochs := l\<rparr>)
      in (ev # evs, st1))"

definition rebase_subs ::
  "('e, 't, 'u, 'w, 'c::linorder, 'v, 'h) site \<Rightarrow> 'c list \<Rightarrow> subscription list \<Rightarrow> ('e, 't, 'u, 'c, 'v, 'h) owner
     \<Rightarrow> ('e, 't, 'u, 'c, 'v, 'h) owner option" where
  "rebase_subs cx root_key subs st =
     (let (evs, st1) = repoint_rescans cx root_key subs st
      in map_option (\<lambda>st2. foldl (\<lambda>st s. dominate_syncs_of_subscription cx s st) st2 subs) (push_all cx evs st1))"

definition commit_widen ::
  "('e, 't, 'u, 'w, 'c::linorder, 'v, 'h) site \<Rightarrow> 'h watch_outcome \<Rightarrow> 'h \<Rightarrow> 'c list \<Rightarrow> subscription
     \<Rightarrow> slot_id \<Rightarrow> debounce \<Rightarrow> subscription list \<Rightarrow> root_globs
     \<Rightarrow> ('e, 't, 'u, 'c, 'v, 'h) owner \<Rightarrow> ('e, 't, 'u, 'c, 'v, 'h) owner option" where
  "commit_widen cx outcome h fs_key sub slot d repointed globs st =
     do { sm \<leftarrow> commit_watch (st_radices cx) outcome h fs_key globs (ow_subsumer st);
          rebase_subs cx fs_key repointed (install_state sub slot d (st\<lparr>ow_subsumer := sm\<rparr>)) }"

definition abort_plan ::
  "'h watch_outcome \<Rightarrow> ('e, 't, 'u, 'c, 'v, 'h) owner \<Rightarrow> ('e, 't, 'u, 'c, 'v, 'h) owner" where
  "abort_plan outcome st = st\<lparr>ow_subsumer := abort_watch outcome (ow_subsumer st)\<rparr>"

section \<open>Restoring released roots\<close>

fun retire_roots ::
  "('e, 't, 'u, 'w, 'c::linorder, 'v, 'h) site \<Rightarrow> 'h list \<Rightarrow> ('e, 't, 'u, 'c, 'v, 'h) owner
     \<Rightarrow> ('e, 't, 'u, 'c, 'v, 'h) owner option" where
  "retire_roots cx [] st = Some st"
| "retire_roots cx (h # hs) st = do { st1 \<leftarrow> retire_root_with_terminal_rescan cx h st; retire_roots cx hs st1 }"

definition begin_close_then_retire_disarmed_roots ::
  "('e, 't, 'u, 'w, 'c::linorder, 'v, 'h) site \<Rightarrow> 'h list \<Rightarrow> ('e, 't, 'u, 'c, 'v, 'h) owner
     \<Rightarrow> ('e, 't, 'u, 'c, 'v, 'h) owner option" where
  "begin_close_then_retire_disarmed_roots cx unwatch st = retire_roots cx unwatch (begin_source_close cx st)"

definition race_terminal :: "'x race \<Rightarrow> reconcile_stop option" where
  "race_terminal r = (case r of Settled _ \<Rightarrow> None | CloseWon \<Rightarrow> Some CloseRequested | HandlesGone \<Rightarrow> Some StopHandlesGone)"

definition probe_close_signal ::
  "('e, 't, 'u, 'w, 'c, 'v, 'h) site \<Rightarrow> ('e, 't, 'u, 'c, 'v, 'h) owner
     \<Rightarrow> reconcile_stop option \<times> ('e, 't, 'u, 'c, 'v, 'h) owner" where
  "probe_close_signal cx st =
     (let (r, e) = wd_probe (st_world cx) (ow_world st) in (race_terminal r, st\<lparr>ow_world := e\<rparr>))"

definition pace_restore_retry ::
  "('e, 't, 'u, 'w, 'c, 'v, 'h) site \<Rightarrow> instant \<Rightarrow> ('e, 't, 'u, 'c, 'v, 'h) owner
     \<Rightarrow> reconcile_stop option \<times> ('e, 't, 'u, 'c, 'v, 'h) owner" where
  "pace_restore_retry cx wake_at st =
     (let (r, e) = wd_pace (st_world cx) wake_at (ow_world st) in (race_terminal r, st\<lparr>ow_world := e\<rparr>))"

text \<open>One attempt; unlike \<open>arm\<close> it is not fenced by the quarantine and leaves the close seam to the restore.\<close>

definition rearm_racing_close ::
  "('e, 't, 'u, 'w, 'c, 'v, 'h) site \<Rightarrow> 'c list \<Rightarrow> root_globs \<Rightarrow> ('e, 't, 'u, 'c, 'v, 'h) owner
     \<Rightarrow> ('c, 'h) rearm_attempt \<times> ('e, 't, 'u, 'c, 'v, 'h) owner" where
  "rearm_racing_close cx key globs st =
     (let (r, e) = wd_arm (st_world cx) key globs (ow_world st)
      in case settle_race cx r (st\<lparr>ow_world := e\<rparr>) of
           (Inl s, st1) \<Rightarrow> (AttemptTerminal s, st1)
         | (Inr (Inl err), st1) \<Rightarrow> (AttemptRefused err, st1)
         | (Inr (Inr a), st1) \<Rightarrow>
             (case adopt_armed cx a st1 of
                (Inr (h, k), st2) \<Rightarrow> (AttemptArmed h k, st2)
              | (Inl (Failed err), st2) \<Rightarrow> (AttemptRefused err, st2)
              | (Inl s, st2) \<Rightarrow> (AttemptTerminal s, st2)))"

text \<open>
  The attempts go on until one is not refused for capacity or the budget is spent. Whether they end is
  the clock's and the sleep's matter, so the loop is partial.
\<close>

partial_function (option) rearm_disarmed_root ::
  "('e, 't, 'u, 'w, 'c, 'v, 'h) site \<Rightarrow> 'c list \<Rightarrow> root_globs \<Rightarrow> instant \<Rightarrow> ('e, 't, 'u, 'c, 'v, 'h) owner
     \<Rightarrow> (('c, 'h) rearm_step \<times> ('e, 't, 'u, 'c, 'v, 'h) owner) option" where
  "rearm_disarmed_root cx key globs retry_until st =
     (case rearm_racing_close cx key globs st of
        (AttemptArmed h k, st1) \<Rightarrow> Some (RearmArmed h k, st1)
      | (AttemptTerminal s, st1) \<Rightarrow> Some (RearmTerminal s, st1)
      | (AttemptRefused err, st1) \<Rightarrow>
          if \<not> is_capacity_refusal err then Some (RearmRefused, st1)
          else (case read_clock cx st1 of (now, st2) \<Rightarrow>
            if retry_until \<le> now then Some (RearmRefused, st2)
            else (case instant_checked_add (st_clock cx) now restore_retry_pace of
                    None \<Rightarrow> None
                  | Some t \<Rightarrow>
                      (case pace_restore_retry cx (min t retry_until) st2 of
                         (None, st3) \<Rightarrow> rearm_disarmed_root cx key globs retry_until st3
                       | (Some s, st3) \<Rightarrow> Some (RearmTerminal s, st3)))))"

text \<open>What one root's re-arm leads to, and the loop over the roots; \<open>all\<close> is the list the retirement takes.\<close>

definition restore_one ::
  "('e, 't, 'u, 'w, 'c::linorder, 'v, 'h) site \<Rightarrow> 'h list \<Rightarrow> 'h \<Rightarrow> 'c list \<Rightarrow> subscription list
     \<Rightarrow> ('c, 'h) rearm_step \<Rightarrow> ('e, 't, 'u, 'c, 'v, 'h) owner
     \<Rightarrow> (reconcile_stop option \<times> ('e, 't, 'u, 'c, 'v, 'h) owner) option" where
  "restore_one cx all old root_key subscribers step st =
     (case step of
        RearmArmed h fs_key \<Rightarrow>
          if fs_key = root_key
          then map_option (Pair None)
                 (rebase_subs cx root_key subscribers
                   (st\<lparr>ow_subsumer := rebind_root (st_radices cx) old h (ow_subsumer st)\<rparr>))
          else (let (ok, st1) = disarm_bare cx h st
                in if ok then map_option (Pair None) (retire_root_with_terminal_rescan cx old st1)
                   else Some (Some Unwinds, st1))
      | RearmRefused \<Rightarrow> map_option (Pair None) (retire_root_with_terminal_rescan cx old st)
      | RearmTerminal s \<Rightarrow>
          if s = Unwinds then Some (Some Unwinds, st)
          else map_option (Pair (Some s)) (begin_close_then_retire_disarmed_roots cx all st))"

fun restore_loop ::
  "('e, 't, 'u, 'w, 'c::linorder, 'v, 'h) site \<Rightarrow> 'h list \<Rightarrow> instant \<Rightarrow> 'h list \<Rightarrow> ('e, 't, 'u, 'c, 'v, 'h) owner
     \<Rightarrow> (reconcile_stop option \<times> ('e, 't, 'u, 'c, 'v, 'h) owner) option" where
  "restore_loop cx all retry_until [] st = Some (None, st)"
| "restore_loop cx all retry_until (old # rest) st0 =
     (case probe_close_signal cx st0 of
        (Some s, st) \<Rightarrow> map_option (Pair (Some s)) (begin_close_then_retire_disarmed_roots cx all st)
      | (None, st) \<Rightarrow>
          (case root_view (st_radices cx) old (ow_subsumer st) of
             None \<Rightarrow> restore_loop cx all retry_until rest st
           | Some (root_key, subscribers) \<Rightarrow>
               (let globs = (case root_globs_of (st_radices cx) old (ow_subsumer st) of
                               None \<Rightarrow> root_globs_new | Some g \<Rightarrow> g)
                in do { (step, st1) \<leftarrow> rearm_disarmed_root cx root_key globs retry_until st;
                        (stop, st2) \<leftarrow> restore_one cx all old root_key subscribers step st1;
                        case stop of Some s \<Rightarrow> Some (Some s, st2)
                        | None \<Rightarrow> restore_loop cx all retry_until rest st2 })))"

definition restore_disarmed_roots ::
  "('e, 't, 'u, 'w, 'c::linorder, 'v, 'h) site \<Rightarrow> 'h list \<Rightarrow> ('e, 't, 'u, 'c, 'v, 'h) owner
     \<Rightarrow> (reconcile_stop option \<times> ('e, 't, 'u, 'c, 'v, 'h) owner) option" where
  "restore_disarmed_roots cx unwatch st =
     (case read_clock cx st of (now, st1) \<Rightarrow>
        (case instant_checked_add (st_clock cx) now restore_retry_budget of
           None \<Rightarrow> None
         | Some retry_until \<Rightarrow> restore_loop cx unwatch retry_until unwatch st1))"

section \<open>Reconciling a watch\<close>

text \<open>
  Planning, with every covering root that the source has forgotten retired on the way. Each round
  removes a root from the index.
\<close>

partial_function (option) plan_live ::
  "('e, 't, 'u, 'w, 'c::linorder, 'v, 'h) site \<Rightarrow> 'c list \<Rightarrow> 'v \<Rightarrow> delivery_interest \<Rightarrow> root_globs
     \<Rightarrow> ('e, 't, 'u, 'c, 'v, 'h) owner
     \<Rightarrow> ((reconcile_stop + 'h watch_outcome) \<times> ('e, 't, 'u, 'c, 'v, 'h) owner) option" where
  "plan_live cx key v i globs st0 =
     (case plan_watch (st_radices cx) key v i globs (ow_subsumer st0) of
        None \<Rightarrow> None
      | Some (Inl conflict, sm) \<Rightarrow>
          if wd_root_key (st_world cx) (ow_world st0) (wr_root conflict) = None
          then (case retire_root_with_terminal_rescan cx (wr_root conflict) (st0\<lparr>ow_subsumer := sm\<rparr>) of
                  None \<Rightarrow> None | Some st1 \<Rightarrow> plan_live cx key v i globs st1)
          else Some (Inl (Failed (UwRootWordsConflict (wr_root_depth conflict) (wr_armed conflict) globs
                 (wr_reason conflict))), st0\<lparr>ow_subsumer := sm\<rparr>)
      | Some (Inr outcome, sm) \<Rightarrow>
          (case outcome of
             Covered h _ _ \<Rightarrow>
               if wd_root_key (st_world cx) (ow_world st0) h = None
               then (case retire_root_with_terminal_rescan cx h (abort_plan outcome (st0\<lparr>ow_subsumer := sm\<rparr>)) of
                       None \<Rightarrow> None | Some st1 \<Rightarrow> plan_live cx key v i globs st1)
               else Some (Inr outcome, st0\<lparr>ow_subsumer := sm\<rparr>)
           | _ \<Rightarrow> Some (Inr outcome, st0\<lparr>ow_subsumer := sm\<rparr>)))"

text \<open>The grow of a covered newcomer outside the retained cover: what to record after the commit.\<close>

definition grow_for ::
  "('e, 't, 'u, 'w, 'c::linorder, 'v, 'h) site \<Rightarrow> 'h \<Rightarrow> bool \<Rightarrow> 'c list \<Rightarrow> ('e, 't, 'u, 'c, 'v, 'h) owner
     \<Rightarrow> ((reconcile_stop + 'c list list option option) \<times> ('e, 't, 'u, 'c, 'v, 'h) owner) option" where
  "grow_for cx root outside key st =
     (if \<not> outside then Some (Inr None, st)
      else do { recomputed \<leftarrow> retained_cover_for (st_radices cx) root (Some key) (ow_subsumer st);
                case recomputed of
                  Some cover \<Rightarrow> (case grow cx root cover st of
                      (Inl s, st1) \<Rightarrow> Some (Inl s, st1)
                    | (Inr _, st1) \<Rightarrow> Some (Inr (Some (Some cover)), st1))
                | None \<Rightarrow> (case entry (st_radices cx) root (ow_subsumer st) of
                      None \<Rightarrow> Some (Inr None, st)
                    | Some record \<Rightarrow> (case grow cx root [rr_key record] st of
                          (Inl s, st1) \<Rightarrow> Some (Inl s, st1)
                        | (Inr _, st1) \<Rightarrow> Some (Inr (Some None), st1))) })"

definition reconcile_covered ::
  "('e, 't, 'u, 'w, 'c::linorder, 'v, 'h) site \<Rightarrow> 'h watch_outcome \<Rightarrow> 'h \<Rightarrow> subscription \<Rightarrow> bool \<Rightarrow> 'c list
     \<Rightarrow> ('c, 'v) watch_request \<Rightarrow> ('e, 't, 'u, 'c, 'v, 'h) owner
     \<Rightarrow> ((reconcile_stop + subscription) \<times> ('e, 't, 'u, 'c, 'v, 'h) owner) option" where
  "reconcile_covered cx outcome root sub outside key rq st =
     do { (grown, st1) \<leftarrow> grow_for cx root outside key st;
          case grown of
            Inl s \<Rightarrow> Some (Inl s, abort_plan outcome st1)
          | Inr record_cover \<Rightarrow>
              do { sm \<leftarrow> commit_watch (st_radices cx) outcome root key (wq_globs rq) (ow_subsumer st1);
                   let st2 = install_state sub (wq_filter rq) (wq_debounce rq) (st1\<lparr>ow_subsumer := sm\<rparr>);
                   Some (Inr sub, case record_cover of
                       None \<Rightarrow> st2
                     | Some cover \<Rightarrow> st2\<lparr>ow_subsumer :=
                         set_retained_cover (st_radices cx) root cover (ow_subsumer st2)\<rparr>) } }"

text \<open>A committed key that changes what the plan classified is a race: release the root, abort.\<close>

definition reconcile_disjoint ::
  "('e, 't, 'u, 'w, 'c::linorder, 'v, 'h) site \<Rightarrow> 'h watch_outcome \<Rightarrow> subscription \<Rightarrow> 'c list
     \<Rightarrow> ('c, 'v) watch_request \<Rightarrow> ('e, 't, 'u, 'c, 'v, 'h) owner
     \<Rightarrow> ((reconcile_stop + subscription) \<times> ('e, 't, 'u, 'c, 'v, 'h) owner) option" where
  "reconcile_disjoint cx outcome sub key rq st =
     (case arm cx key (wq_globs rq) st of
        (Inl s, st1) \<Rightarrow> Some (Inl s, if s = Unwinds then st1 else abort_plan outcome st1)
      | (Inr (h, fs_key), st1) \<Rightarrow>
          if \<not> fs_path_preserves_plan (st_radices cx) fs_key [] (ow_subsumer st1)
          then (let (ok, st2) = disarm_bare cx h st1
                in Some (if ok then (Inl (Failed canonical_race), abort_plan outcome st2) else (Inl Unwinds, st2)))
          else map_option (\<lambda>sm. (Inr sub, install_state sub (wq_filter rq) (wq_debounce rq)
                   (st1\<lparr>ow_subsumer := sm\<rparr>)))
                 (commit_watch (st_radices cx) outcome h fs_key (wq_globs rq) (ow_subsumer st1)))"

text \<open>A sole subsumed root is offered a retarget in place first; a capacity refusal ends the watch there.\<close>

definition retarget ::
  "('e, 't, 'u, 'w, 'c, 'v, 'h) site \<Rightarrow> 'h list \<Rightarrow> 'c list \<Rightarrow> ('e, 't, 'u, 'c, 'v, 'h) owner
     \<Rightarrow> (reconcile_stop + (('c, 'h) armed \<times> 'c list) option) \<times> ('e, 't, 'u, 'c, 'v, 'h) owner" where
  "retarget cx unwatch key st =
     (case (case unwatch of
              [only] \<Rightarrow> map_option (Pair only) (wd_root_key (st_world cx) (ow_world st) only)
            | _ \<Rightarrow> None) of
        None \<Rightarrow> (Inr None, st)
      | Some (only, only_key) \<Rightarrow>
          (case replace_racing_close cx only key st of
             (Inl s, st1) \<Rightarrow> (Inl s, st1)
           | (Inr (Inl err), st1) \<Rightarrow>
               (if is_capacity_refusal err then Inl (Failed err) else Inr None, st1)
           | (Inr (Inr a), st1) \<Rightarrow> (Inr (Some (a, only_key)), st1)))"

text \<open>The retarget committed: adopt it, or roll it back when the committed key changed the plan.\<close>

definition widen_in_place ::
  "('e, 't, 'u, 'w, 'c::linorder, 'v, 'h) site \<Rightarrow> 'h watch_outcome \<Rightarrow> subscription list \<Rightarrow> 'h list
     \<Rightarrow> subscription \<Rightarrow> ('c, 'v) watch_request \<Rightarrow> ('c, 'h) armed \<Rightarrow> 'c list
     \<Rightarrow> ('e, 't, 'u, 'c, 'v, 'h) owner
     \<Rightarrow> ((reconcile_stop + subscription) \<times> ('e, 't, 'u, 'c, 'v, 'h) owner) option" where
  "widen_in_place cx outcome repointed unwatch sub rq a only_key st =
     (let h = ar_handle a; fs_key = ar_key a
      in if fs_path_preserves_plan (st_radices cx) fs_key unwatch (ow_subsumer st)
         then (let globs = (case root_globs_of (st_radices cx) h (ow_subsumer st) of
                              None \<Rightarrow> root_globs_new | Some g \<Rightarrow> g)
               in map_option (Pair (Inr sub))
                    (commit_widen cx outcome h fs_key sub (wq_filter rq) (wq_debounce rq) repointed globs st))
         else (case replace_racing_close cx h only_key st of
             (Inl s, st1) \<Rightarrow> Some (Inl s, abort_plan outcome st1)
           | (Inr res, st1) \<Rightarrow>
               (if (case res of Inr b \<Rightarrow> ar_key b = only_key | Inl _ \<Rightarrow> False)
                then Some (Inl (Failed canonical_race), abort_plan outcome (rescan_live_root cx h st1))
                else do { st2 \<leftarrow> retire_root_with_terminal_rescan cx h st1;
                          let (ok, st3) = disarm_bare cx h st2;
                          Some (if ok then (Inl (Failed canonical_race), abort_plan outcome st3)
                                else (Inl Unwinds, st3)) })))"

fun disarm_all ::
  "('e, 't, 'u, 'w, 'c, 'v, 'h) site \<Rightarrow> 'h list \<Rightarrow> ('e, 't, 'u, 'c, 'v, 'h) owner
     \<Rightarrow> bool \<times> ('e, 't, 'u, 'c, 'v, 'h) owner" where
  "disarm_all cx [] st = (True, st)"
| "disarm_all cx (h # hs) st =
     (case disarm_bare cx h st of (True, st1) \<Rightarrow> disarm_all cx hs st1 | (False, st1) \<Rightarrow> (False, st1))"

text \<open>After a failed widen: restore the released roots, then abort; a terminal restore outranks the failure.\<close>

definition restore_and_abort ::
  "('e, 't, 'u, 'w, 'c::linorder, 'v, 'h) site \<Rightarrow> 'h watch_outcome \<Rightarrow> 'h list \<Rightarrow> uwatch_error
     \<Rightarrow> ('e, 't, 'u, 'c, 'v, 'h) owner
     \<Rightarrow> ((reconcile_stop + subscription) \<times> ('e, 't, 'u, 'c, 'v, 'h) owner) option" where
  "restore_and_abort cx outcome unwatch failed st =
     do { (terminal, st1) \<leftarrow> restore_disarmed_roots cx unwatch st;
          Some (case terminal of
              None \<Rightarrow> (Inl (Failed failed), abort_plan outcome st1)
            | Some s \<Rightarrow> (Inl s, if s = Unwinds then st1 else abort_plan outcome st1)) }"

definition widen_by_rearm ::
  "('e, 't, 'u, 'w, 'c::linorder, 'v, 'h) site \<Rightarrow> 'h watch_outcome \<Rightarrow> subscription list \<Rightarrow> 'h list
     \<Rightarrow> subscription \<Rightarrow> 'c list \<Rightarrow> ('c, 'v) watch_request \<Rightarrow> ('e, 't, 'u, 'c, 'v, 'h) owner
     \<Rightarrow> ((reconcile_stop + subscription) \<times> ('e, 't, 'u, 'c, 'v, 'h) owner) option" where
  "widen_by_rearm cx outcome repointed unwatch sub key rq st =
     (case disarm_all cx unwatch st of
        (False, st1) \<Rightarrow> Some (Inl Unwinds, st1)
      | (True, st1) \<Rightarrow>
          (case arm cx key (wq_globs rq) st1 of
             (Inl Unwinds, st2) \<Rightarrow> Some (Inl Unwinds, st2)
           | (Inl (Failed failed), st2) \<Rightarrow> restore_and_abort cx outcome unwatch failed st2
           | (Inl s, st2) \<Rightarrow> map_option (\<lambda>st3. (Inl s, abort_plan outcome st3))
                               (begin_close_then_retire_disarmed_roots cx unwatch st2)
           | (Inr (h, fs_key), st2) \<Rightarrow>
               if \<not> fs_path_preserves_plan (st_radices cx) fs_key unwatch (ow_subsumer st2)
               then (case disarm_bare cx h st2 of
                       (False, st3) \<Rightarrow> Some (Inl Unwinds, st3)
                     | (True, st3) \<Rightarrow> restore_and_abort cx outcome unwatch canonical_race st3)
               else map_option (Pair (Inr sub))
                      (commit_widen cx outcome h fs_key sub (wq_filter rq) (wq_debounce rq) repointed
                        (wq_globs rq) st2)))"

definition reconcile_widen ::
  "('e, 't, 'u, 'w, 'c::linorder, 'v, 'h) site \<Rightarrow> 'h watch_outcome \<Rightarrow> subscription list \<Rightarrow> 'h list
     \<Rightarrow> subscription \<Rightarrow> 'c list \<Rightarrow> ('c, 'v) watch_request \<Rightarrow> ('e, 't, 'u, 'c, 'v, 'h) owner
     \<Rightarrow> ((reconcile_stop + subscription) \<times> ('e, 't, 'u, 'c, 'v, 'h) owner) option" where
  "reconcile_widen cx outcome repointed unwatch sub key rq st =
     (case retarget cx unwatch key st of
        (Inl s, st1) \<Rightarrow> Some (Inl s, abort_plan outcome st1)
      | (Inr (Some (a, only_key)), st1) \<Rightarrow> widen_in_place cx outcome repointed unwatch sub rq a only_key st1
      | (Inr None, st1) \<Rightarrow> widen_by_rearm cx outcome repointed unwatch sub key rq st1)"

definition reconcile_canonical_watch ::
  "('e, 't, 'u, 'w, 'c::linorder, 'v, 'h) site \<Rightarrow> 'c list \<Rightarrow> ('c, 'v) watch_request
     \<Rightarrow> ('e, 't, 'u, 'c, 'v, 'h) owner
     \<Rightarrow> ((reconcile_stop + subscription) \<times> ('e, 't, 'u, 'c, 'v, 'h) owner) option" where
  "reconcile_canonical_watch cx key rq st =
     do { (planned, st1) \<leftarrow> plan_live cx key (wq_value rq) (wq_interest rq) (wq_globs rq) st;
          case planned of
            Inl s \<Rightarrow> Some (Inl s, st1)
          | Inr outcome \<Rightarrow>
              (case outcome of
                 Covered root sub outside \<Rightarrow> reconcile_covered cx outcome root sub outside key rq st1
               | Disjoint sub \<Rightarrow> reconcile_disjoint cx outcome sub key rq st1
               | Widen repointed unwatch sub \<Rightarrow> reconcile_widen cx outcome repointed unwatch sub key rq st1) }"

definition retired_debt :: "('e, 't, 'u, 'c, 'v, 'h) owner \<Rightarrow> nat" where
  "retired_debt st =
     length (filter (\<lambda>s. subscription_key s (ow_subsumer st) = None)
       (map fst (ow_needs st) @ map fst (ow_suppressed st)))"

definition reconcile_watch ::
  "('e, 't, 'u, 'w, 'c::linorder, 'v, 'h) site \<Rightarrow> ('c, 'v) watch_request \<Rightarrow> ('e, 't, 'u, 'c, 'v, 'h) owner
     \<Rightarrow> ((reconcile_stop + subscription) \<times> ('e, 't, 'u, 'c, 'v, 'h) owner) option" where
  "reconcile_watch cx rq st =
     (if sd_forgotten (ow_disposals st) then Some (Inl (Failed UwSourceRetired), st)
      else if is_custom (ow_slots st) (wq_filter rq) \<and> ow_payload_forgotten st
      then Some (Inl (Failed UwFilterRetired), st)
      else if retired_rescan_debt_limit \<le> retired_debt st then Some (Inl (Failed UwRescanBacklog), st)
      else case wd_canonicalize (st_world cx) (ow_world st) (wq_key rq) of
          Inl err \<Rightarrow> Some (Inl (Failed err), st)
        | Inr key \<Rightarrow> reconcile_canonical_watch cx key rq st)"

section \<open>Commands\<close>

text \<open>A reply fails to send exactly when its receiver is gone; the grant then bounces and is released.\<close>

definition on_watch ::
  "('e, 't, 'u, 'w, 'c::linorder, 'v, 'h) site \<Rightarrow> ('c, 'v) watch_request \<Rightarrow> reply_id
     \<Rightarrow> ('e, 't, 'u, 'c, 'v, 'h) owner
     \<Rightarrow> (((watch_reply \<times> teardown option) option) \<times> ('e, 't, 'u, 'c, 'v, 'h) owner) option" where
  "on_watch cx rq reply st =
     do { (settled, st1) \<leftarrow> reconcile_watch cx rq st;
          case settled of
            Inr sub \<Rightarrow>
              if wd_canceled (st_world cx) (ow_world st1) reply
              then map_option (\<lambda>(_, st2). (Some (WatchBounced, None), st2)) (release_subscription cx sub st1)
              else Some (Some (WatchGranted sub, None), st1\<lparr>ow_unclaimed := insert sub (ow_unclaimed st1)\<rparr>)
          | Inl (Failed err) \<Rightarrow> Some (Some (WatchRefused err, None), st1)
          | Inl CloseRequested \<Rightarrow> Some (Some (WatchDropped, Some TearClose), st1)
          | Inl StopHandlesGone \<Rightarrow> Some (Some (WatchDropped, Some TearHandlesGone), st1)
          | Inl Unwinds \<Rightarrow> Some (None, st1) }"

definition on_unwatch ::
  "('e, 't, 'u, 'w, 'c::linorder, 'v, 'h) site \<Rightarrow> subscription \<Rightarrow> ('e, 't, 'u, 'c, 'v, 'h) owner
     \<Rightarrow> ((unwatch_error + unit) \<times> ('e, 't, 'u, 'c, 'v, 'h) owner) option" where
  "on_unwatch cx sub st = release_subscription cx sub st"

section \<open>Admitting a sync barrier\<close>

definition abandon_sync ::
  "('e, 't, 'u, 'w, 'c, 'v, 'h) site \<Rightarrow> 'h \<Rightarrow> sync_token \<Rightarrow> ('e, 't, 'u, 'c, 'v, 'h) owner
     \<Rightarrow> ('e, 't, 'u, 'c, 'v, 'h) owner" where
  "abandon_sync cx root token st = snd (offer_source cx (CancelSync root token) st)"

definition begin_cookie ::
  "('e, 't, 'u, 'w, 'c::linorder, 'v, 'h) site \<Rightarrow> subscription \<Rightarrow> 'h \<Rightarrow> 'c list \<Rightarrow> sync_token \<Rightarrow> u64 \<Rightarrow> reply_id
     \<Rightarrow> ('e, 't, 'u, 'c, 'v, 'h) owner \<Rightarrow> sync_admit \<times> ('e, 't, 'u, 'c, 'v, 'h) owner" where
  "begin_cookie cx sub root dir_key token gen_at_call r st0 =
     (let (step, e) = wd_begin_sync (st_world cx) root dir_key token (ow_world st0); st = st0\<lparr>ow_world := e\<rparr>
      in case step of
           SyncClose \<Rightarrow> (SyncCloseRequested,
             abandon_sync cx root token (begin_source_close cx (call_source cx DropRaced st)))
         | SyncCanceled \<Rightarrow> (SyncDone, abandon_sync cx root token st)
         | Began (Inr (Installed cookie_key)) \<Rightarrow>
             (SyncDone, admit_begun_cookie cx cookie_key sub root gen_at_call r st)
         | Began (Inr BegunDominated) \<Rightarrow> (SyncDone, answer r (Inr Dominated) st)
         | Began (Inl err) \<Rightarrow> (SyncDone, answer r (Inl err) st))"

text \<open>The sequence number is 64-bit; its overflow is a panic of the debug build.\<close>

definition on_sync ::
  "('e, 't, 'u, 'w, 'c::linorder, 'v, 'h) site \<Rightarrow> subscription \<Rightarrow> u64 \<Rightarrow> reply_id
     \<Rightarrow> ('e, 't, 'u, 'c, 'v, 'h) owner \<Rightarrow> (sync_admit \<times> ('e, 't, 'u, 'c, 'v, 'h) owner) option" where
  "on_sync cx sub gen_at_call r st0 =
     (if wd_canceled (st_world cx) (ow_world st0) r then Some (SyncDone, st0)
      else if sd_forgotten (ow_disposals st0) then Some (SyncDone, answer r (Inl SeSourceRetired) st0)
      else (let st = prune_abandoned_syncs cx st0
            in if max_pending_syncs \<le> length (ow_pending st) then Some (SyncDone, answer r (Inl SeBusy) st)
               else case (subscription_root sub (ow_subsumer st), subscription_key sub (ow_subsumer st)) of
                   (Some root, Some dir_key) \<Rightarrow>
                     (case checked_add (ow_seq st) 1 of
                        None \<Rightarrow> None
                      | Some seq \<Rightarrow>
                          (let st1 = st\<lparr>ow_seq := seq\<rparr>; (nonce, e) = wd_nonce (st_world cx) (ow_world st1);
                               st2 = st1\<lparr>ow_world := e\<rparr>
                           in case nonce of
                                None \<Rightarrow> Some (SyncDone, answer r (Inl SeEntropy) st2)
                              | Some n \<Rightarrow> Some (begin_cookie cx sub root dir_key
                                  \<lparr>tk_instance = sub_instance sub, tk_pid = wd_pid (st_world cx), tk_seq = seq,
                                   tk_nonce = n\<rparr> gen_at_call r st2)))
                 | _ \<Rightarrow> Some (SyncDone, answer r (Inl SeUnknownSubscription) st)))"

end
