(* ===== verification/Owner_Rebase.thy ===== *)
theory Owner_Rebase
  imports Owner_Consume Reconcile Subsumer_History
begin

text \<open>
  Roots that change hands: the raced calls of the source change only the surroundings; every subscriber
  of a root that is rebound is owed a rescan above all that was sent to it; a root that cannot be
  restored is retired.
\<close>

section \<open>Calls of the source are quiet\<close>

lemma quiet_world: "advances (st_world cx) (ow_world st) e \<Longrightarrow> quiet cx st (st\<lparr>ow_world := e\<rparr>)"
  by (simp add: quiet_def core_same_def emission_frame_def sent_def shut_def advances_def)

lemma quiet_fields [simp]:
  "quiet cx st (st\<lparr>ow_closing := b\<rparr>)" "quiet cx st (st\<lparr>ow_observed := ob\<rparr>)" "quiet cx st (st\<lparr>ow_seq := n\<rparr>)"
  "quiet cx st (st\<lparr>ow_disposals := d\<rparr>)"
  by (simp_all add: quiet_def core_same_def emission_frame_def sent_def shut_def)

lemma quiet_subsumer: "quiet cx st st' \<Longrightarrow> ow_subsumer st' = ow_subsumer st"
  by (simp add: quiet_def core_same_def)

lemma quiet_inv: "quiet cx st st' \<Longrightarrow> ow_inv cx st \<Longrightarrow> ow_inv cx st'"
  using core_same_inv by (auto simp: quiet_def)

lemma quiet_upholds: "quiet cx st st' \<Longrightarrow> ow_inv cx st \<Longrightarrow> upholds cx st st'"
  by (rule serves_upholds [OF quiet_serves])

lemma upholds_refl: "ow_inv cx st \<Longrightarrow> upholds cx st st"
  by (simp add: upholds_def)

context delivery
begin

lemma quiet_call [simp]: "quiet cx st (call_source cx c st)"
proof -
  obtain p e where c: "wd_call (st_world cx) c (ow_world st) = (p, e)" by fastforce
  have q: "quiet cx st (st\<lparr>ow_world := e\<rparr>)" using wd.call [of "ow_world st" c] c by (simp add: quiet_world)
  have "quiet cx st (st\<lparr>ow_world := e, ow_disposals := d\<rparr>)" for d by (rule quiet_trans [OF q]) simp
  then show ?thesis using c q by (cases p) (simp_all add: call_source_def)
qed

lemma quiet_disarm: "disarm_bare cx h st = (ok, st') \<Longrightarrow> quiet cx st st'"
  using wd.call [of "ow_world st" "Disarm h"] by (auto simp: disarm_bare_def quiet_world split: prod.splits)

lemma quiet_begin_close [simp]: "quiet cx st (begin_source_close cx st)"
  unfolding begin_source_close_def using quiet_trans [OF quiet_fields(1) quiet_call] by simp

lemma quiet_settle: "settle_race cx r st = (x, st') \<Longrightarrow> quiet cx st st'"
  by (auto simp: settle_race_def split: race.splits)

lemma quiet_settle_seam: "settle_and_seam cx r st = (x, st') \<Longrightarrow> quiet cx st st'"
  using quiet_settle [of r st] quiet_trans [OF _ quiet_begin_close]
  by (auto simp: settle_and_seam_def split: prod.splits sum.splits)

lemma quiet_adopt:
  assumes "adopt_armed cx a st = (r, st')"
  shows "quiet cx st st'" and "r = Inr (h, k) \<Longrightarrow> entry (st_radices cx) h (ow_subsumer st) = None"
    and "r \<noteq> Inl CloseRequested" "r \<noteq> Inl StopHandlesGone"
proof -
  show "quiet cx st st'"
    using assms quiet_disarm by (auto simp: adopt_armed_def Let_def split: if_splits prod.splits)
  show "r = Inr (h, k) \<Longrightarrow> entry (st_radices cx) h (ow_subsumer st) = None"
    and "r \<noteq> Inl CloseRequested" "r \<noteq> Inl StopHandlesGone"
    using assms by (auto simp: adopt_armed_def Let_def split: if_splits prod.splits)
qed

lemma quiet_arm:
  assumes "arm cx key globs st = (r, st')"
  shows "quiet cx st st'" and "r = Inr (h, k) \<Longrightarrow> entry (st_radices cx) h (ow_subsumer st') = None"
proof -
  obtain x e where a: "wd_arm (st_world cx) key globs (ow_world st) = (x, e)" by fastforce
  have q0: "quiet cx st (st\<lparr>ow_world := e\<rparr>)" using wd.arm [of "ow_world st" key globs] a by (simp add: quiet_world)
  obtain y st1 where s: "settle_and_seam cx x (st\<lparr>ow_world := e\<rparr>) = (y, st1)" by fastforce
  note q1 = quiet_trans [OF q0 quiet_settle_seam [OF s]]
  have "quiet cx st st' \<and> (r = Inr (h, k) \<longrightarrow> entry (st_radices cx) h (ow_subsumer st') = None)"
  proof (cases "sd_forgotten (ow_disposals st)")
    case True
    then show ?thesis using assms by (auto simp: arm_def)
  next
    case False
    show ?thesis
    proof (cases "\<exists>a. y = Inr (Inr a)")
      case True
      then obtain a where "y = Inr (Inr a)" by blast
      then have ad: "adopt_armed cx a st1 = (r, st')" using assms False \<open>wd_arm _ _ _ _ = _\<close> s by (simp add: arm_def)
      have "ow_subsumer st' = ow_subsumer st1" by (rule quiet_subsumer [OF quiet_adopt(1) [OF ad]])
      then show ?thesis using quiet_adopt(1,2) [OF ad] quiet_trans [OF q1] by simp
    next
      case no: False
      then show ?thesis using assms False a s q1 by (cases y) (auto simp: arm_def split: sum.splits)
    qed
  qed
  then show "quiet cx st st'" and "r = Inr (h, k) \<Longrightarrow> entry (st_radices cx) h (ow_subsumer st') = None" by blast+
qed

lemma quiet_grow: "grow cx h ks st = (r, st') \<Longrightarrow> quiet cx st st'"
proof -
  assume g: "grow cx h ks st = (r, st')"
  obtain x e where a: "wd_grow (st_world cx) h ks (ow_world st) = (x, e)" by fastforce
  have q0: "quiet cx st (st\<lparr>ow_world := e\<rparr>)" using wd.grow [of "ow_world st" h ks] a by (simp add: quiet_world)
  obtain y st1 where s: "settle_and_seam cx x (st\<lparr>ow_world := e\<rparr>) = (y, st1)" by fastforce
  from g a s quiet_trans [OF q0 quiet_settle_seam [OF s]] show ?thesis
    by (auto simp: grow_def split: if_splits sum.splits)
qed

lemma quiet_replace:
  assumes "replace_racing_close cx h key st = (r, st')"
  shows "quiet cx st st'" and "r = Inr (Inr a) \<Longrightarrow> ar_handle a = h"
proof -
  obtain x e where w: "wd_replace (st_world cx) h key (ow_world st) = (x, e)" by fastforce
  have q0: "quiet cx st (st\<lparr>ow_world := e\<rparr>)" using wd.replace [of "ow_world st" h key] w by (simp add: quiet_world)
  have s: "settle_and_seam cx x (st\<lparr>ow_world := e\<rparr>) = (r, st')"
    using assms w by (simp add: replace_racing_close_def)
  show "quiet cx st st'" by (rule quiet_trans [OF q0 quiet_settle_seam [OF s]])
  show "ar_handle a = h" if "r = Inr (Inr a)"
  proof -
    have "x = Settled (Inr a)"
      using s that by (auto simp: settle_and_seam_def settle_race_def split: race.splits)
    with w wd.replace_handle show ?thesis by blast
  qed
qed

lemma quiet_probe: "probe_close_signal cx st = (r, st') \<Longrightarrow> quiet cx st st'"
  using wd.probe [of "ow_world st"] by (auto simp: probe_close_signal_def quiet_world split: prod.splits)

lemma quiet_pace: "pace_restore_retry cx t st = (r, st') \<Longrightarrow> quiet cx st st'"
  using wd.pace [of "ow_world st" t] by (auto simp: pace_restore_retry_def quiet_world split: prod.splits)

lemma quiet_clock: "read_clock cx st = (t, st') \<Longrightarrow> quiet cx st st'"
  using wd.now [of "ow_world st"] by (auto simp: read_clock_def quiet_world split: prod.splits)

lemma quiet_disarm_all: "disarm_all cx hs st = (ok, st') \<Longrightarrow> quiet cx st st'"
proof (induction hs arbitrary: st)
  case (Cons h hs)
  obtain b st1 where d: "disarm_bare cx h st = (b, st1)" by fastforce
  then show ?case using Cons quiet_disarm [OF d] quiet_trans [of cx st st1 st'] by (cases b) auto
qed simp

lemma quiet_rearm_attempt:
  assumes "rearm_racing_close cx key globs st = (r, st')"
  shows "quiet cx st st'" and "r = AttemptArmed h k \<Longrightarrow> entry (st_radices cx) h (ow_subsumer st') = None"
proof -
  obtain x e where a: "wd_arm (st_world cx) key globs (ow_world st) = (x, e)" by fastforce
  have q0: "quiet cx st (st\<lparr>ow_world := e\<rparr>)" using wd.arm [of "ow_world st" key globs] a by (simp add: quiet_world)
  obtain y st1 where s: "settle_race cx x (st\<lparr>ow_world := e\<rparr>) = (y, st1)" by fastforce
  note q1 = quiet_trans [OF q0 quiet_settle [OF s]]
  have "quiet cx st st' \<and> (r = AttemptArmed h k \<longrightarrow> entry (st_radices cx) h (ow_subsumer st') = None)"
  proof (cases "\<exists>a. y = Inr (Inr a)")
    case True
    then obtain b where y: "y = Inr (Inr b)" by blast
    obtain z st2 where ad: "adopt_armed cx b st1 = (z, st2)" by fastforce
    have "st' = st2" and z: "r = AttemptArmed h k \<Longrightarrow> z = Inr (h, k)"
      using assms a s y ad by (auto simp: rearm_racing_close_def split: sum.splits reconcile_stop.splits)
    moreover have "ow_subsumer st2 = ow_subsumer st1" by (rule quiet_subsumer [OF quiet_adopt(1) [OF ad]])
    ultimately show ?thesis using quiet_adopt(1,2) [OF ad] quiet_trans [OF q1] by simp
  next
    case False
    then show ?thesis using assms a s q1 by (cases y) (auto simp: rearm_racing_close_def split: sum.splits)
  qed
  then show "quiet cx st st'" and "r = AttemptArmed h k \<Longrightarrow> entry (st_radices cx) h (ow_subsumer st') = None"
    by blast+
qed

lemma quiet_rearm:
  assumes "rearm_disarmed_root cx key globs until st = Some (r, st')"
  shows "quiet cx st st'" and "r = RearmArmed h k \<Longrightarrow> entry (st_radices cx) h (ow_subsumer st') = None"
proof -
  let ?P = "\<lambda>cx' st y. cx' = cx \<longrightarrow> quiet cx st (snd y) \<and>
     (\<forall>h k. fst y = RearmArmed h k \<longrightarrow> entry (st_radices cx) h (ow_subsumer (snd y)) = None)"
  have "?P cx st (r, st')"
  proof (rule rearm_disarmed_root.raw_induct [where P = "\<lambda>cx' key globs until st y. ?P cx' st y", OF _ assms], intro impI)
    fix rec cx' key globs until st y
    assume ih: "\<And>key globs until st b y. rec key globs until st b = Some y \<Longrightarrow> ?P key b y" and cx: "cx' = cx"
      and b: "(case rearm_racing_close cx' key globs st of
        (AttemptArmed h k, st1) \<Rightarrow> Some (RearmArmed h k, st1)
      | (AttemptRefused err, st1) \<Rightarrow>
          if \<not> is_capacity_refusal err then Some (RearmRefused, st1)
          else (case read_clock cx' st1 of (now, st2) \<Rightarrow>
            if until \<le> now then Some (RearmRefused, st2)
            else (case instant_checked_add (st_clock cx') now restore_retry_pace of
                    None \<Rightarrow> None
                  | Some t \<Rightarrow>
                      (case pace_restore_retry cx' (min t until) st2 of
                         (None, st3) \<Rightarrow> rec cx' key globs until st3
                       | (Some s, st3) \<Rightarrow> Some (RearmTerminal s, st3))))
      | (AttemptTerminal s, st1) \<Rightarrow> Some (RearmTerminal s, st1)) = Some y"
    obtain att st1 where att: "rearm_racing_close cx key globs st = (att, st1)" by fastforce
    note q1 = quiet_rearm_attempt [OF att]
    obtain now st2 where cl: "read_clock cx st1 = (now, st2)" by fastforce
    note q2 = quiet_trans [OF q1(1) quiet_clock [OF cl]]
    show "quiet cx st (snd y) \<and> (\<forall>h k. fst y = RearmArmed h k \<longrightarrow> entry (st_radices cx) h (ow_subsumer (snd y)) = None)"
    proof (cases att)
      case (AttemptArmed h k)
      then show ?thesis using b att q1 cx by auto
    next
      case (AttemptTerminal s)
      then show ?thesis using b att q1 cx by auto
    next
      case (AttemptRefused err)
      show ?thesis
      proof (cases "is_capacity_refusal err \<and> now < until")
        case False
        then show ?thesis using b att cx cl AttemptRefused q1 q2 by (auto split: if_splits)
      next
        case True
        then obtain t where t: "instant_checked_add (st_clock cx) now restore_retry_pace = Some t"
          using b att cx cl AttemptRefused by (auto split: option.splits)
        obtain p st3 where p: "pace_restore_retry cx (min t until) st2 = (p, st3)" by fastforce
        note q3 = quiet_trans [OF q2 quiet_pace [OF p]]
        show ?thesis
        proof (cases p)
          case None
          then have "rec cx key globs until st3 = Some y" using b att cx cl AttemptRefused True t p by simp
          from ih [OF this] q3 quiet_trans show ?thesis by blast
        next
          case (Some s)
          then show ?thesis using b att cx cl AttemptRefused True t p q3 by auto
        qed
      qed
    qed
  qed
  then show "quiet cx st st'" and "r = RearmArmed h k \<Longrightarrow> entry (st_radices cx) h (ow_subsumer st') = None" by auto
qed

end

section \<open>Re-keying the engine\<close>

text \<open>A change of the engine that keeps every live subscription's key, and may add one nobody knows.\<close>

definition unheard :: "('e, 't, 'u, 'w, 'c, 'v, 'h) site \<Rightarrow> ('e, 't, 'u, 'c, 'v, 'h) owner \<Rightarrow> subscription \<Rightarrow> bool" where
  "unheard cx st s \<longleftrightarrow> debt st s = None \<and> (\<forall>ev \<in> set (sent cx st). ev_subscription ev \<noteq> s)"

lemma inv_rekey:
  assumes inv: "ow_inv cx st" and sm: "sm_inv (st_radices cx) sm"
    and keys: "\<And>x. x \<in> S \<or> map_option sr_key (sm_subs sm x) = map_option sr_key (sm_subs (ow_subsumer st) x)"
    and new: "\<And>x. x \<in> S \<Longrightarrow> sm_subs (ow_subsumer st) x = None \<and> unheard cx st x"
    and ids: "sm_instance sm = sm_instance (ow_subsumer st)" "sm_next_sub (ow_subsumer st) \<le> sm_next_sub sm"
  shows "ow_inv cx (st\<lparr>ow_subsumer := sm\<rparr>)"
proof -
  let ?st = "st\<lparr>ow_subsumer := sm\<rparr>"
  have m: "minted ?st s" if "minted st s" for s using that ids by (auto simp: minted_def)
  have r: "\<exists>q. sm_subs (ow_subsumer st) x = Some q \<and> sr_key q = sr_key p"
    if "sm_subs sm x = Some p" "x \<notin> S" for x p
    using keys [of x] that by (cases "sm_subs (ow_subsumer st) x") auto
  have r': "\<exists>q. sm_subs sm x = Some q \<and> sr_key q = sr_key p" if "sm_subs (ow_subsumer st) x = Some p" for x p
    using keys [of x] new [of x] that by (cases "sm_subs sm x") auto
  have ev: "ev_ok ?st x" if evx: "ev_ok st x" for x
  proof -
    obtain p where p: "sm_subs (ow_subsumer st) (ev_subscription x) = Some p" "prefix (sr_key p) (ev_key x)"
        "\<forall>f. ev_kind x = EMoved f \<longrightarrow> prefix (sr_key p) f" "ev_epoch x \<le> hw_of (ow_epochs st) (ev_subscription x)"
      using evx unfolding ev_ok_def by (elim conjE exE) iprover
    obtain q where "sm_subs sm (ev_subscription x) = Some q" "sr_key q = sr_key p" using r' [OF p(1)] by blast
    then show ?thesis using p by (simp add: ev_ok_def)
  qed
  have "debt_ok cx ?st s (pr_key p) (pr_epoch p)" if "debt st s = Some p" for s p
  proof -
    have d: "debt_ok cx st s (pr_key p) (pr_epoch p)" using inv that by (simp add: ow_inv_def)
    have "s \<notin> S" using new that by (auto simp: unheard_def)
    then show ?thesis using d m r [of s] by (auto simp: debt_ok_def)
  qed
  moreover have "stream_ok cx ?st"
  proof -
    have "ev_epoch x \<le> hw_of (ow_epochs st) (ev_subscription x)"
      if "x \<in> set (sent cx st)" "sm_subs sm (ev_subscription x) \<noteq> None" for x
    proof -
      have "ev_subscription x \<notin> S" using new that(1) by (auto simp: unheard_def)
      then have "sm_subs (ow_subsumer st) (ev_subscription x) \<noteq> None" using r that(2) by blast
      then show ?thesis using inv that(1) by (simp add: ow_inv_def stream_ok_def)
    qed
    then show ?thesis using inv m by (auto simp: ow_inv_def stream_ok_def)
  qed
  moreover have "buffer_ok ?st" using inv ev by (auto simp: ow_inv_def buffer_ok_def)
  ultimately show ?thesis using sm m inv by (simp add: ow_inv_def)
qed

lemma upholds_subsumer: "ow_inv cx (st\<lparr>ow_subsumer := sm\<rparr>) \<Longrightarrow> upholds cx st (st\<lparr>ow_subsumer := sm\<rparr>)"
  by (simp add: upholds_def keeps_settled_def settled_def rescanned_def)

section \<open>Rebasing subscriptions onto another root\<close>

lemma dominates_via_rescan:
  "dominates k e r \<Longrightarrow> event_is_rescan r \<Longrightarrow> dominates (ev_key r) (ev_epoch r) x \<Longrightarrow> dominates k e x"
  by (auto simp: dominates_def split: if_splits intro: below_mono prefix_order.trans order_trans)

lemma rescan_not_buffered: "buffer_ok st \<Longrightarrow> event_is_rescan r \<Longrightarrow> \<not> r \<in># buffered st"
  by (cases "ow_coalescer st")
    (auto simp: buffer_ok_def buffered_def at_rest_def event_is_rescan_def is_lifecycle_def dest!: slots_lifecycle)

text \<open>A settled rescan settles what it stands for.\<close>

lemma rescan_settles:
  assumes "ow_inv cx st" and "settled cx st r" and "event_is_rescan r"
    and "ev_subscription x = ev_subscription r" and "dominates (ev_key r) (ev_epoch r) x"
  shows "settled cx st x"
proof -
  have "\<not> r \<in># buffered st" using assms(1,3) rescan_not_buffered by (auto simp: ow_inv_def)
  then consider "shut cx st" | "r \<in> set (sent cx st)" | "rescanned cx st r" | "owed st r"
    using assms(2) by (auto simp: settled_def)
  then show ?thesis
  proof cases
    case 1
    then show ?thesis by (simp add: settled_def)
  next
    case 2
    then have "rescanned cx st x" using assms(3-5) unfolding rescanned_def by (intro bexI [of _ r]) auto
    then show ?thesis by (simp add: settled_def)
  next
    case 3
    then obtain q where "q \<in> set (sent cx st)" "event_is_rescan q" "ev_subscription q = ev_subscription r"
        "dominates (ev_key q) (ev_epoch q) r" by (auto simp: rescanned_def)
    with dominates_via_rescan [OF _ assms(3,5)] assms(4) have "rescanned cx st x"
      unfolding rescanned_def by (intro bexI [of _ q]) auto
    then show ?thesis by (simp add: settled_def)
  next
    case 4
    then obtain p where "debt st (ev_subscription r) = Some p" "dominates (pr_key p) (pr_epoch p) r"
      by (auto simp: owed_def)
    with dominates_via_rescan [OF _ assms(3,5)] assms(4) have "owed st x" by (auto simp: owed_def)
    then show ?thesis by (simp add: settled_def)
  qed
qed

lemma repoint_eq: "repoint s l =
    (epoch_next (hw_of l s), bump s (epoch_next (hw_of l s)) (l\<lparr>lg_base := (lg_base l)(s \<mapsto> epoch_next (hw_of l s))\<rparr>))"
  by (simp add: repoint_def Let_def)

lemma repoint_rescans_facts:
  assumes "ow_inv cx st" and "distinct subs" and "\<forall>s \<in> set subs. sm_subs (ow_subsumer st) s \<noteq> None"
    and "repoint_rescans cx k subs st = (evs, st1)"
  shows "ow_inv cx st1 \<and> emission_frame st st1 \<and> sent cx st1 = sent cx st \<and> shut cx st1 = shut cx st \<and>
    debt st1 = debt st \<and> buffered st1 = filter_mset (\<lambda>x. ev_subscription x \<notin> set subs) (buffered st) \<and>
    map ev_subscription evs = subs \<and> (\<forall>r \<in> set evs. event_is_rescan r \<and> ev_ok st1 r \<and>
      (\<forall>x. ev_ok st x \<and> ev_subscription x = ev_subscription r \<longrightarrow> dominates (ev_key r) (ev_epoch r) x) \<and>
      (\<forall>x \<in> set (sent cx st). ev_subscription x = ev_subscription r \<longrightarrow> below (ev_epoch x) (ev_epoch r)))"
  using assms
proof (induction subs arbitrary: st evs)
  case Nil
  then show ?case by simp
next
  case (Cons s subs)
  let ?st1 = "drop_buffered s st" and ?e = "epoch_next (hw_of (ow_epochs st) s)"
  obtain q where q: "sm_subs (ow_subsumer st) s = Some q" using Cons.prems(3) by auto
  let ?l = "bump s ?e ((ow_epochs st)\<lparr>lg_base := (lg_base (ow_epochs st))(s \<mapsto> ?e)\<rparr>)"
  let ?st2 = "?st1\<lparr>ow_epochs := ?l\<rparr>"
  let ?v = "subscription_value (st_radices cx) s (ow_subsumer st)"
  let ?r = "(event_rescan s (sr_key q) ?e)\<lparr>ev_value := ?v\<rparr>"
  obtain rest where rest: "repoint_rescans cx k subs ?st2 = (rest, st1)" "evs = ?r # rest"
    using Cons.prems(4) q
    by (auto simp: Let_def repoint_eq rescan_key_for_def subscription_key_def split: prod.splits)
  have hw: "hw_of (ow_epochs ?st1) x \<le> hw_of ?l x" for x by (simp add: epoch_next_ge)
  have i1: "ow_inv cx ?st1" by (rule inv_drop_buffered [OF Cons.prems(1)])
  have i2: "ow_inv cx ?st2" by (rule inv_raise [OF hw i1])
  have f2: "emission_frame st ?st2" by (rule frame_trans [OF drop_frame raise_frame [OF hw]])
  have bok: "buffer_ok st" using Cons.prems(1) by (simp add: ow_inv_def)
  have ok: "ev_ok ?st2 x" if "ev_ok st x" for x by (rule ev_ok_frame [OF f2 that])
  have live: "\<forall>x \<in> set subs. sm_subs (ow_subsumer ?st2) x \<noteq> None" using Cons.prems(3) by simp
  note ih = Cons.IH [OF i2 _ live rest(1)]
  have r: "event_is_rescan ?r" "ev_subscription ?r = s" "ev_key ?r = sr_key q" "ev_epoch ?r = ?e"
    by (simp_all add: event_rescan_def event_is_rescan_def)
  have rok: "ev_ok ?st2 ?r"
    using q by (simp add: ev_ok_def event_rescan_def)
  have dom: "dominates (ev_key ?r) (ev_epoch ?r) x" if x: "ev_ok st x" "ev_subscription x = s" for x
  proof -
    have "ev_epoch x \<le> hw_of (ow_epochs st) s" using x by (simp add: ev_ok_def)
    then have "below (ev_epoch x) ?e" by (rule below_next)
    moreover have "prefix (sr_key q) (ev_key x) \<and> (\<forall>f. ev_kind x = EMoved f \<longrightarrow> prefix (sr_key q) f)"
      using x q by (simp add: ev_ok_def)
    ultimately show ?thesis unfolding dominates_def r by (simp add: below_imp_le)
  qed
  have low: "below (ev_epoch x) ?e" if "x \<in> set (sent cx st)" "ev_subscription x = s" for x
  proof -
    have "ev_epoch x \<le> hw_of (ow_epochs st) s"
      using Cons.prems(1) that q by (auto simp: ow_inv_def stream_ok_def)
    then show ?thesis by (rule below_next)
  qed
  have d: "distinct subs" "s \<notin> set subs" using Cons.prems(2) by simp_all
  note I = ih [OF d(1)]
  have f: "emission_frame st st1" using I frame_trans [OF f2] by blast
  have "buffered st1 = filter_mset (\<lambda>x. ev_subscription x \<notin> set (s # subs)) (buffered st)"
    using I buffered_drop [OF bok, of s] by (simp add: filter_filter_mset conj_commute)
  moreover have "\<forall>r \<in> set evs. event_is_rescan r \<and> ev_ok st1 r \<and>
      (\<forall>x. ev_ok st x \<and> ev_subscription x = ev_subscription r \<longrightarrow> dominates (ev_key r) (ev_epoch r) x) \<and>
      (\<forall>x \<in> set (sent cx st). ev_subscription x = ev_subscription r \<longrightarrow> below (ev_epoch x) (ev_epoch r))"
  proof
    fix r' assume "r' \<in> set evs"
    then consider "r' = ?r" | "r' \<in> set rest" using rest(2) by auto
    then show "event_is_rescan r' \<and> ev_ok st1 r' \<and>
      (\<forall>x. ev_ok st x \<and> ev_subscription x = ev_subscription r' \<longrightarrow> dominates (ev_key r') (ev_epoch r') x) \<and>
      (\<forall>x \<in> set (sent cx st). ev_subscription x = ev_subscription r' \<longrightarrow> below (ev_epoch x) (ev_epoch r'))"
    proof cases
      case 1
      have "ev_ok st1 ?r" using I ev_ok_frame [OF _ rok] by blast
      then show ?thesis unfolding 1 using dom low r by auto
    next
      case 2
      note J = bspec [OF conjunct2 [OF conjunct2 [OF conjunct2 [OF conjunct2 [OF conjunct2
          [OF conjunct2 [OF conjunct2 [OF I]]]]]]] 2]
      then show ?thesis using ok by simp
    qed
  qed
  ultimately show ?case using I f rest(2) r(2) by simp
qed

text \<open>Debts of subscriptions that have nothing in flight do not change.\<close>

lemma debt_park_other: "s \<noteq> sub \<Longrightarrow> debt (park_in sub key e v st) s = debt st s"
  by (auto simp: park_in_def debt_def map_of_merge_max map_add_def split: option.splits)

lemma debt_try_emit:
  fixes st :: "('e, 't, 'u, 'c::linorder, 'v, 'h) owner" and ev :: "('c, 'v) event"
  assumes s: "s \<noteq> ev_subscription ev"
  shows "debt (try_emit cx ev st) s = debt st s"
proof -
  have w: "debt (st\<lparr>ow_world := e\<rparr>) = debt st" for e and st :: "('e, 't, 'u, 'c, 'v, 'h) owner"
    by (simp add: debt_def)
  have n: "debt (note_loss (ev_subscription ev) st) = debt st" for st :: "('e, 't, 'u, 'c, 'v, 'h) owner"
    by (simp add: debt_def)
  have p: "debt (park_rescan_event ev st) s = debt st s" for st :: "('e, 't, 'u, 'c, 'v, 'h) owner"
    using s by (simp add: park_rescan_event_def debt_park_other n)
  have q: "debt (park_rescan cx (ev_subscription ev) st) s = debt st s" for st :: "('e, 't, 'u, 'c, 'v, 'h) owner"
    using s by (simp add: park_rescan_def Let_def on_shed_eq debt_park_other n split: option.split)
  have wd: "debt (widen_parked_debt ev st) s = debt st s"
    using s by (simp add: widen_parked_debt_def on_shed_eq Let_def debt_def map_add_def map_of_widen_debt split: option.split)
  show ?thesis
    using s p q w wd by (auto simp: try_emit_def Let_def split: prod.splits send_result.splits)
qed

lemma debt_emit_all: "s \<notin> ev_subscription ` set evs \<Longrightarrow> debt (emit_all cx evs st) s = debt st s"
  unfolding emit_all_def by (induction evs arbitrary: st) (simp_all add: debt_try_emit)

lemma debt_park_all: "s \<notin> set subs \<Longrightarrow> debt (park_all cx subs st) s = debt st s"
proof (induction subs arbitrary: st)
  case (Cons x subs)
  have "debt (park_rescan cx x st) s = debt st s"
    using Cons.prems by (simp add: park_rescan_def Let_def on_shed_eq debt_park_other debt_def [of "note_loss x st"]
        split: option.split) (simp add: debt_def)
  then show ?case using Cons by (simp add: park_all_def)
qed (simp add: park_all_def)

lemma push_all_debt:
  assumes inv: "ow_inv cx st" and dis: "distinct (map ev_subscription evs)"
    and fresh: "\<forall>r \<in> set evs. event_is_rescan r \<longrightarrow> (\<forall>x. (x \<in> set (sent cx st) \<or> x \<in># buffered st) \<and>
      ev_subscription x = ev_subscription r \<longrightarrow> below (ev_epoch x) (ev_epoch r))"
    and run: "push_all cx evs st = Some st'"
    and s: "s \<notin> ev_subscription ` set evs" "\<forall>x. x \<in># buffered st \<longrightarrow> ev_subscription x \<noteq> s"
  shows "debt st' s = debt st s"
proof (cases "ow_coalescer st")
  case None
  then show ?thesis using run s(1) debt_emit_all by (auto simp: push_all_def)
next
  case (Some co)
  have rest: "co_inv co" "co_ready co = []" and buf: "buffered st = slots co"
    using inv Some by (auto simp: ow_inv_def buffer_ok_def at_rest_def buffered_def)
  have held: "x \<in># held co \<longleftrightarrow> x \<in># buffered st" for x by (simp add: held_slots rest(2) buf)
  obtain now st1 where c: "read_clock cx st = (now, st1)" by fastforce
  have q0: "queued_by now co" by (simp add: queued_by_def rest(2))
  have s0: "sorted_wrt after_rescan (sent cx st @ map snd (co_ready co))"
    using inv by (simp add: rest(2) ow_inv_def stream_ok_def)
  have f0: "\<forall>r \<in> set evs. event_is_rescan r \<longrightarrow> (\<forall>x. (x \<in> set (sent cx st) \<or> x \<in># held co) \<and>
      ev_subscription x = ev_subscription r \<longrightarrow> below (ev_epoch x) (ev_epoch r))"
    using fresh held by simp
  obtain sheds co1 where a: "admit_all (st_clock cx) now evs co = Some (sheds, co1)" "co_inv co1" "queued_by now co1"
      "set sheds \<subseteq> ev_subscription ` set evs"
      "\<forall>x. x \<in># held co1 \<longrightarrow> x \<in># held co \<or> x \<in> set evs \<or>
         (\<exists>a b. a \<in># slots co \<and> b \<in> set evs \<and> same_path a b \<and> collapsed a b = Some x)"
    by (rule admit_all_flow [OF rest(1) q0 dis s0 f0]) blast
  obtain co2 due where d: "drain_ready now co1 = Some (map snd (co_ready co1) @ due, co2)" "slots co1 = mset due + slots co2"
    using drain_flow [OF a(2,3)] by metis
  have no: "ev_subscription x \<noteq> s" if x: "x \<in># held co1" for x
  proof -
    consider "x \<in># held co" | "x \<in> set evs"
      | b where "b \<in> set evs" "ev_subscription b = ev_subscription x"
      using bspec [OF _ x] a(5) x collapsed_props(1) unfolding same_path_def by metis
    then show ?thesis
    proof cases
      case 3
      then have "ev_subscription x \<in> ev_subscription ` set evs" by (metis image_eqI)
      then show ?thesis using s(1) by blast
    qed (use s held in auto)
  qed
  have "s \<notin> ev_subscription ` set (map snd (co_ready co1) @ due)"
    using no by (auto simp: held_slots d(2))
  moreover have "st' = emit_all cx (map snd (co_ready co1) @ due) (park_all cx sheds (st1\<lparr>ow_coalescer := Some co2\<rparr>))"
    using run Some c a(1) d(1) by (simp add: push_all_def)
  moreover have "debt (st1\<lparr>ow_coalescer := Some co2\<rparr>) = debt st"
    using c by (auto simp: read_clock_def debt_def split: prod.splits)
  moreover have "s \<notin> set sheds" using a(4) s(1) by blast
  ultimately show ?thesis by (simp add: debt_emit_all debt_park_all)
qed

context delivery
begin

lemma rebase_upholds:
  assumes inv: "ow_inv cx st" and "distinct subs" and "\<forall>s \<in> set subs. sm_subs (ow_subsumer st) s \<noteq> None"
  obtains st' where "rebase_subs cx k subs st = Some st'" "upholds cx st st'" "emission_frame st st'"
    "\<forall>s \<in> set subs. \<exists>r. event_is_rescan r \<and> ev_subscription r = s \<and> settled cx st' r \<and>
       (\<forall>x. ev_ok st x \<and> ev_subscription x = s \<longrightarrow> dominates (ev_key r) (ev_epoch r) x)"
    "\<forall>s. s \<notin> set subs \<and> (\<forall>x. x \<in># buffered st \<longrightarrow> ev_subscription x \<noteq> s) \<longrightarrow> debt st' s = debt st s"
proof -
  obtain evs st1 where rp: "repoint_rescans cx k subs st = (evs, st1)" by fastforce
  note F = repoint_rescans_facts [OF assms rp]
  have i1: "ow_inv cx st1" and f1: "emission_frame st st1" and se: "sent cx st1 = sent cx st" "shut cx st1 = shut cx st"
    and d1: "debt st1 = debt st" and b1: "buffered st1 = filter_mset (\<lambda>x. ev_subscription x \<notin> set subs) (buffered st)"
    and subs: "map ev_subscription evs = subs" using F by blast+
  have R: "event_is_rescan r" "ev_ok st1 r"
      "\<And>x. ev_ok st x \<Longrightarrow> ev_subscription x = ev_subscription r \<Longrightarrow> dominates (ev_key r) (ev_epoch r) x"
      "\<And>x. x \<in> set (sent cx st) \<Longrightarrow> ev_subscription x = ev_subscription r \<Longrightarrow> below (ev_epoch x) (ev_epoch r)"
    if "r \<in> set evs" for r using F that by blast+
  have fresh: "\<forall>r \<in> set evs. event_is_rescan r \<longrightarrow> (\<forall>x. (x \<in> set (sent cx st1) \<or> x \<in># buffered st1) \<and>
      ev_subscription x = ev_subscription r \<longrightarrow> below (ev_epoch x) (ev_epoch r))"
  proof (intro ballI impI allI)
    fix r x assume r: "r \<in> set evs" and x: "(x \<in> set (sent cx st1) \<or> x \<in># buffered st1) \<and> ev_subscription x = ev_subscription r"
    have "ev_subscription r \<in> set subs" using r subs by auto
    then have "x \<in> set (sent cx st)" using x se(1) b1 by auto
    then show "below (ev_epoch x) (ev_epoch r)" using R(4) [OF r] x by blast
  qed
  have ok: "\<forall>ev \<in> set evs. ev_ok st1 ev" using R(2) by blast
  have dis: "distinct (map ev_subscription evs)" using subs assms(2) by simp
  obtain st2 where p: "push_all cx evs st1 = Some st2" "progress cx st1 st2"
      "\<forall>x. settled cx st1 x \<or> x \<in> set evs \<longrightarrow> settled cx st2 x \<or> absorbed (settled cx st2) (buffered st1) evs x"
    using push_all_progress [OF i1 ok dis fresh] by metis
  have noabs: "\<not> absorbed P (buffered st1) evs x" for P x
    using R(1) by (auto simp: absorbed_def same_path_def event_is_rescan_def is_lifecycle_def)
  let ?st3 = "foldl (\<lambda>st s. dominate_syncs_of_subscription cx s st) st2 subs"
  have q3: "quiet cx st2 ?st3" by (rule quiet_foldl) simp
  have i2: "ow_inv cx st2" using p(2) by (simp add: progress_def)
  have set2: "settled cx st2 x" if "settled cx st1 x \<or> x \<in> set evs" for x using p(3) noabs that by blast
  have keep: "settled cx st2 x" if x: "settled cx st x" for x
  proof (cases "x \<in># buffered st \<and> ev_subscription x \<in> set subs")
    case True
    then obtain r where r: "r \<in> set evs" "ev_subscription r = ev_subscription x" using subs by (metis in_set_conv_nth length_map nth_map)
    have "ev_ok st x" using True inv by (simp add: ow_inv_def buffer_ok_def)
    then have "dominates (ev_key r) (ev_epoch r) x" using R(3) [OF r(1)] r(2) by simp
    with rescan_settles [OF i2 set2 R(1) [OF r(1)]] r show ?thesis by simp
  next
    case False
    then have "settled cx st1 x" using x b1 se d1 by (auto simp: settled_def rescanned_def owed_def)
    then show ?thesis using set2 by blast
  qed
  have "upholds cx st st2" using i2 keep p(2) se by (auto simp: upholds_def keeps_settled_def progress_def)
  then have u: "upholds cx st ?st3" by (rule upholds_trans [OF _ quiet_upholds [OF q3 i2]])
  have "emission_frame st1 st2" using p(2) by (simp add: progress_def)
  then have f: "emission_frame st ?st3" using frame_trans [OF f1 frame_trans] q3 by (simp add: quiet_def)
  have run: "rebase_subs cx k subs st = Some ?st3" using rp p(1) by (simp add: rebase_subs_def)
  have k3: "keeps_settled cx st2 ?st3" using quiet_upholds [OF q3 i2] by (simp add: upholds_def)
  have "\<exists>r. event_is_rescan r \<and> ev_subscription r = s \<and> settled cx ?st3 r \<and>
      (\<forall>x. ev_ok st x \<and> ev_subscription x = s \<longrightarrow> dominates (ev_key r) (ev_epoch r) x)" if ssub: "s \<in> set subs" for s
  proof -
    obtain r where r: "r \<in> set evs" "ev_subscription r = s" using subs ssub by auto
    then show ?thesis using R(1,3) [OF r(1)] keepsD [OF k3 set2] by blast
  qed
  moreover have "debt ?st3 s = debt st s"
    if "s \<notin> set subs" "\<forall>x. x \<in># buffered st \<longrightarrow> ev_subscription x \<noteq> s" for s
  proof -
    have "debt st2 s = debt st1 s"
      by (rule push_all_debt [OF i1 dis fresh p(1)]) (use that subs b1 in auto)
    then show ?thesis using q3 d1 core_same_readings(1) [of cx st2 ?st3] by (simp add: quiet_def)
  qed
  ultimately show thesis using that [OF run u f] by blast
qed

section \<open>Retiring and restoring roots\<close>

lemma retire_upholds: "ow_inv cx st \<Longrightarrow> \<exists>st'. retire_root_with_terminal_rescan cx h st = Some st' \<and> upholds cx st st'"
  using retire_root_upholds by metis

lemma retire_roots_upholds: "ow_inv cx st \<Longrightarrow> \<exists>st'. retire_roots cx hs st = Some st' \<and> upholds cx st st'"
proof (induction hs arbitrary: st)
  case (Cons h hs)
  obtain st1 where r: "retire_root_with_terminal_rescan cx h st = Some st1" "upholds cx st st1"
    using retire_upholds [OF Cons.prems] by blast
  obtain st2 where "retire_roots cx hs st1 = Some st2" "upholds cx st1 st2"
    using Cons.IH [OF upholds_inv [OF r(2)]] by blast
  then show ?case using r upholds_trans by auto
qed (simp add: upholds_refl)

lemma close_retire_upholds:
  assumes "ow_inv cx st"
  shows "\<exists>st'. begin_close_then_retire_disarmed_roots cx hs st = Some st' \<and> upholds cx st st'"
proof -
  have q: "quiet cx st (begin_source_close cx st)" by simp
  note u = quiet_upholds [OF q assms]
  from retire_roots_upholds [OF upholds_inv [OF u]] upholds_trans [OF u] show ?thesis
    unfolding begin_close_then_retire_disarmed_roots_def by blast
qed

lemma root_view_cohort:
  assumes "ow_inv cx st" and "root_view (st_radices cx) h (ow_subsumer st) = Some (k, subs)"
  shows "distinct subs" and "\<forall>s \<in> set subs. sm_subs (ow_subsumer st) s \<noteq> None" and "subs = cohort_of (ow_subsumer st) h"
proof -
  have co: "cohorts_ok (sm_by_handle (ow_subsumer st)) (sm_root_subs (ow_subsumer st)) (sm_subs (ow_subsumer st))"
    using assms(1) by (simp add: ow_inv_def sm_inv_def)
  show c: "subs = cohort_of (ow_subsumer st) h" using assms(2) by (auto simp: root_view_def cohort_of_def)
  show "distinct subs" "\<forall>s \<in> set subs. sm_subs (ow_subsumer st) s \<noteq> None"
    using cohorts_okD(3,4) [OF co] unfolding c cohort_of_def by (auto split: option.splits)
qed

lemma entry_None:
  assumes "sm_inv rd sm" and "entry rd h sm = None"
  shows "sm_by_handle sm h = None"
proof (rule ccontr)
  assume "sm_by_handle sm h \<noteq> None"
  then obtain k where k: "sm_by_handle sm h = Some k" by blast
  have "roots_ok (roots rd sm) (sm_by_handle sm)" using assms(1) by (simp add: sm_inv_def)
  from roots_okD(3) [OF this k] obtain r where "roots rd sm k = Some r" by blast
  with assms(2) k show False by (simp add: entry_def roots_def)
qed

lemma rebind_step:
  fixes old :: 'h
  assumes inv: "ow_inv cx st" and "entry (st_radices cx) h (ow_subsumer st) = None"
  defines "sm \<equiv> rebind_root (st_radices cx) old h (ow_subsumer st)"
  shows "upholds cx st (st\<lparr>ow_subsumer := sm\<rparr>)"
    and "sm_subs sm x \<noteq> None \<longleftrightarrow> sm_subs (ow_subsumer st) x \<noteq> None"
proof -
  have sm: "sm_inv (st_radices cx) (ow_subsumer st)" using inv by (simp add: ow_inv_def)
  then have "sm_by_handle (ow_subsumer st) h = None" using assms(2) by (rule entry_None)
  then have i: "sm_inv (st_radices cx) sm" unfolding sm_def by (intro eng.rebind_inv [OF sm] disjI1)
  have keys: "map_option sr_key (sm_subs sm x) = map_option sr_key (sm_subs (ow_subsumer st) x)" for x
    by (auto simp: sm_def rebind_root_def Let_def move_subs_def option.map_comp comp_def split: option.split)
  show "sm_subs sm x \<noteq> None \<longleftrightarrow> sm_subs (ow_subsumer st) x \<noteq> None"
    using keys [of x] by (cases "sm_subs sm x"; cases "sm_subs (ow_subsumer st) x") auto
  have ids: "sm_instance sm = sm_instance (ow_subsumer st)" "sm_next_sub sm = sm_next_sub (ow_subsumer st)"
    by (auto simp: sm_def rebind_root_def Let_def split: option.split)
  have "ow_inv cx (st\<lparr>ow_subsumer := sm\<rparr>)"
    by (rule inv_rekey [OF inv i, where S = "{}"]) (use keys ids in simp_all)
  then show "upholds cx st (st\<lparr>ow_subsumer := sm\<rparr>)" by (rule upholds_subsumer)
qed

lemma restore_one_upholds:
  assumes inv: "ow_inv cx st" and v: "distinct subs" "\<forall>s \<in> set subs. sm_subs (ow_subsumer st) s \<noteq> None"
    and fresh: "\<forall>h k'. step = RearmArmed h k' \<longrightarrow> entry (st_radices cx) h (ow_subsumer st) = None"
  shows "\<exists>stop st'. restore_one cx all old k subs step st = Some (stop, st') \<and> upholds cx st st'"
proof (cases step)
  case (RearmArmed h k')
  show ?thesis
  proof (cases "k' = k")
    case True
    have e: "entry (st_radices cx) h (ow_subsumer st) = None" using fresh RearmArmed by blast
    note b = rebind_step [OF inv e, of old]
    let ?st = "st\<lparr>ow_subsumer := rebind_root (st_radices cx) old h (ow_subsumer st)\<rparr>"
    have "\<forall>s \<in> set subs. sm_subs (ow_subsumer ?st) s \<noteq> None" using v(2) b(2) by simp
    then obtain st' where "rebase_subs cx k subs ?st = Some st'" "upholds cx ?st st'"
      using rebase_upholds [OF upholds_inv [OF b(1)] v(1), of k] by metis
    then show ?thesis using RearmArmed True upholds_trans [OF b(1)] by (auto simp: restore_one_def)
  next
    case False
    obtain ok st1 where d: "disarm_bare cx h st = (ok, st1)" by fastforce
    note u = quiet_upholds [OF quiet_disarm [OF d] inv]
    obtain st2 where "retire_root_with_terminal_rescan cx old st1 = Some st2" "upholds cx st1 st2"
      using retire_upholds [OF upholds_inv [OF u]] by blast
    then show ?thesis using RearmArmed False d u upholds_trans [OF u] by (cases ok) (auto simp: restore_one_def)
  qed
next
  case RearmRefused
  then show ?thesis using retire_upholds [OF inv, of old] by (auto simp: restore_one_def)
next
  case (RearmTerminal s)
  then show ?thesis using close_retire_upholds [OF inv, of all] upholds_refl [OF inv]
    by (cases "s = Unwinds") (auto simp: restore_one_def)
qed

lemma restore_loop_upholds:
  assumes "ow_inv cx st" and "restore_loop cx all until hs st = Some (stop, st')"
  shows "upholds cx st st'"
  using assms
proof (induction hs arbitrary: st)
  case Nil
  then show ?case by (simp add: upholds_refl)
next
  case (Cons h hs)
  obtain p st1 where p: "probe_close_signal cx st = (p, st1)" by fastforce
  note u1 = quiet_upholds [OF quiet_probe [OF p] Cons.prems(1)]
  note i1 = upholds_inv [OF u1]
  show ?case
  proof (cases p)
    case (Some s)
    then show ?thesis using Cons.prems(2) p close_retire_upholds [OF i1, of all] upholds_trans [OF u1] by auto
  next
    case None
    show ?thesis
    proof (cases "root_view (st_radices cx) h (ow_subsumer st1)")
      case no: None
      then show ?thesis using Cons None p upholds_trans [OF u1] i1 by simp
    next
      case (Some kv)
      obtain k subs where kv: "kv = (k, subs)" by (cases kv)
      let ?g = "case root_globs_of (st_radices cx) h (ow_subsumer st1) of None \<Rightarrow> root_globs_new | Some g \<Rightarrow> g"
      obtain step st2 where r: "rearm_disarmed_root cx k ?g until st1 = Some (step, st2)"
        using Cons.prems(2) None p Some kv by (auto simp: bind_eq_Some_conv)
      note q = quiet_rearm [OF r]
      note u2 = quiet_upholds [OF q(1) i1]
      note i2 = upholds_inv [OF u2]
      note c = root_view_cohort [OF i1 Some [unfolded kv]]
      have "\<forall>s \<in> set subs. sm_subs (ow_subsumer st2) s \<noteq> None" using c(2) quiet_subsumer [OF q(1)] by simp
      then obtain stop1 st3 where o: "restore_one cx all h k subs step st2 = Some (stop1, st3)" "upholds cx st2 st3"
        using restore_one_upholds [OF i2 c(1), of step] q(2) by metis
      note u3 = upholds_trans [OF u1 upholds_trans [OF u2 o(2)]]
      have "(case stop1 of Some s \<Rightarrow> Some (Some s, st3) | None \<Rightarrow> restore_loop cx all until hs st3) = Some (stop, st')"
        using Cons.prems(2) None p Some kv r o(1) by simp
      then show ?thesis
        using Cons.IH [OF upholds_inv [OF u3]] upholds_trans [OF u3] u3 by (cases stop1) auto
    qed
  qed
qed

lemma restore_upholds:
  assumes "ow_inv cx st" and "restore_disarmed_roots cx hs st = Some (stop, st')"
  shows "upholds cx st st'"
proof -
  obtain now st1 where c: "read_clock cx st = (now, st1)" by fastforce
  note u = quiet_upholds [OF quiet_clock [OF c] assms(1)]
  obtain t where "restore_loop cx hs t hs st1 = Some (stop, st')"
    using assms(2) c by (auto simp: restore_disarmed_roots_def split: option.splits)
  from upholds_trans [OF u restore_loop_upholds [OF upholds_inv [OF u] this]] show ?thesis .
qed

end

end
