(* ===== verification/Owner_Watch.thy ===== *)
theory Owner_Watch
  imports Owner_Rebase
begin

text \<open>
  The watch path keeps the owner's invariant and loses nothing: planning reserves a subscription nobody
  has heard of, a commit makes it live with no debt, a widen rebases the subscriptions it takes over,
  and every failure leaves the engine as it was or retires roots with terminal rescans.
\<close>

section \<open>Planning\<close>

text \<open>What a plan that was settled leaves: the reservation of a subscription nobody has heard of.\<close>

definition planned ::
  "('e, 't, 'u, 'w, 'c, 'v, 'h) site \<Rightarrow> 'c list \<Rightarrow> 'h watch_outcome \<Rightarrow> ('e, 't, 'u, 'c, 'v, 'h) owner \<Rightarrow> bool" where
  "planned cx key o1 st \<longleftrightarrow>
     (\<exists>p. sm_pending (ow_subsumer st) (wo_sub o1) = Some p \<and> pw_key p = key) \<and>
     sm_subs (ow_subsumer st) (wo_sub o1) = None \<and> minted st (wo_sub o1) \<and>
     unheard cx st (wo_sub o1) \<and>
     (case o1 of
        Covered h s out \<Rightarrow> (\<exists>k0. sm_by_handle (ow_subsumer st) h = Some k0 \<and> prefix k0 key)
      | Widen rep unw s \<Rightarrow> distinct rep \<and>
          (\<forall>x. x \<in> set rep \<longleftrightarrow> (\<exists>r. sm_subs (ow_subsumer st) x = Some r \<and> sr_root r \<in> set unw))
      | Disjoint s \<Rightarrow> True)"

lemma planned_quiet: "quiet cx st st' \<Longrightarrow> planned cx key o1 st \<Longrightarrow> planned cx key o1 st'"
  by (auto simp: quiet_def core_same_def planned_def minted_def unheard_def debt_def split: watch_outcome.splits)

context delivery
begin

lemma reserve_step:
  assumes inv: "ow_inv cx st" and r: "reserve key v i (ow_subsumer st) = Some (s, sm)"
  defines "st' \<equiv> st\<lparr>ow_subsumer := sm\<rparr>"
  shows "upholds cx st st'" and "unheard cx st' s" and "minted st' s" and "sm_subs sm = sm_subs (ow_subsumer st)"
    and "\<exists>p. sm_pending sm s = Some p \<and> pw_key p = key" and "sm_subs sm s = None"
    and "sm_by_handle sm = sm_by_handle (ow_subsumer st)"
proof -
  have sm: "sm_inv (st_radices cx) (ow_subsumer st)" using inv by (simp add: ow_inv_def)
  note rv = sm_inv_reserve [OF sm r] and rs = reserve_Some [OF r]
  have up: "sm_next_sub (ow_subsumer st) < sm_next_sub sm" using rs(2) by (simp add: word_less_nat_alt)
  have not: "\<not> minted st s" using rs(1) by (simp add: minted_def)
  have i: "ow_inv cx st'" unfolding st'_def
    by (rule inv_rekey [OF inv rv(1), where S = "{}"]) (use rv(3,9) up in simp_all)
  then show "upholds cx st st'" unfolding st'_def by (rule upholds_subsumer)
  have "debt st s = None"
  proof (cases "debt st s")
    case (Some p)
    then have "minted st s" using inv by (simp add: ow_inv_def debt_ok_def)
    with not show ?thesis by blast
  qed
  moreover have "ev_subscription x \<noteq> s" if "x \<in> set (sent cx st)" for x
    using inv that not by (auto simp: ow_inv_def stream_ok_def)
  ultimately show "unheard cx st' s" by (simp add: unheard_def st'_def)
  show "minted st' s" using rs(1) rv(9) up by (simp add: minted_def st'_def)
  show "sm_subs sm = sm_subs (ow_subsumer st)" "sm_subs sm s = None" "sm_by_handle sm = sm_by_handle (ow_subsumer st)"
    using rv by simp_all
  show "\<exists>p. sm_pending sm s = Some p \<and> pw_key p = key" using rv(8) by simp
qed

lemma plan_step:
  assumes inv: "ow_inv cx st" and p: "plan_watch (st_radices cx) key v i globs (ow_subsumer st) = Some (res, sm)"
  defines "st' \<equiv> st\<lparr>ow_subsumer := sm\<rparr>"
  shows "upholds cx st st'" and "\<forall>o1. res = Inr o1 \<longrightarrow> planned cx key o1 st'"
    and "\<forall>c. res = Inl c \<longrightarrow> sm = ow_subsumer st \<and> sm_by_handle sm (wr_root c) \<noteq> None"
    and "\<forall>h s out. res = Inr (Covered h s out) \<longrightarrow> sm_by_handle sm h \<noteq> None"
proof -
  have sm: "sm_inv (st_radices cx) (ow_subsumer st)" using inv by (simp add: ow_inv_def)
  have ro: "roots_ok (roots (st_radices cx) (ow_subsumer st)) (sm_by_handle (ow_subsumer st))"
    using sm by (simp add: sm_inv_def)
  have "upholds cx st st' \<and> (\<forall>o1. res = Inr o1 \<longrightarrow> planned cx key o1 st') \<and>
      (\<forall>c. res = Inl c \<longrightarrow> sm = ow_subsumer st \<and> sm_by_handle sm (wr_root c) \<noteq> None) \<and>
      (\<forall>h s out. res = Inr (Covered h s out) \<longrightarrow> sm_by_handle sm h \<noteq> None)"
    using sm p
  proof (cases rule: eng.plan_cases)
    case (refused r reason)
    then have "sm_by_handle sm (rr_handle r) \<noteq> None" using roots_okD(2) [OF ro] by auto
    then show ?thesis using refused inv by (simp add: st'_def upholds_refl refusal_against_def)
  next
    case (covered r s)
    note R = reserve_step [OF inv covered(2)]
    show ?thesis using covered R by (auto simp: planned_def st'_def)
  next
    case (widen rep unw s)
    note R = reserve_step [OF inv widen(2)]
    have "distinct rep" "\<And>x. x \<in> set rep \<longleftrightarrow> (\<exists>r. sm_subs (ow_subsumer st) x = Some r \<and> sr_root r \<in> set unw)"
      using eng.widen_names(3,4) [OF sm widen(5)] by blast+
    then show ?thesis using widen R by (simp add: planned_def st'_def)
  next
    case (disjoint s)
    note R = reserve_step [OF inv disjoint(2)]
    show ?thesis using disjoint R by (simp add: planned_def st'_def)
  qed
  then show "upholds cx st st'" and "\<forall>o1. res = Inr o1 \<longrightarrow> planned cx key o1 st'"
    and "\<forall>c. res = Inl c \<longrightarrow> sm = ow_subsumer st \<and> sm_by_handle sm (wr_root c) \<noteq> None"
    and "\<forall>h s out. res = Inr (Covered h s out) \<longrightarrow> sm_by_handle sm h \<noteq> None" by blast+
qed

lemma abort_upholds: "ow_inv cx st \<Longrightarrow> upholds cx st (abort_plan o1 st)"
proof -
  assume inv: "ow_inv cx st"
  then have "sm_inv (st_radices cx) (abort_watch o1 (ow_subsumer st))" by (simp add: ow_inv_def eng.sm_inv_abort)
  then have "ow_inv cx (st\<lparr>ow_subsumer := abort_watch o1 (ow_subsumer st)\<rparr>)"
    by (rule inv_rekey [OF inv, where S = "{}"]) (simp_all add: abort_watch_def)
  then show ?thesis unfolding abort_plan_def by (rule upholds_subsumer)
qed

lemma plan_live_upholds:
  assumes "ow_inv cx st" and "plan_live cx key v i globs st = Some (res, st')"
  shows "upholds cx st st'" and "\<forall>o1. res = Inr o1 \<longrightarrow> planned cx key o1 st'"
    and "\<forall>h s out. res = Inr (Covered h s out) \<longrightarrow> wd_root_key (st_world cx) (ow_world st') h \<noteq> None"
proof -
  let ?Q = "\<lambda>key st y. upholds cx st (snd y) \<and> (\<forall>o1. fst y = Inr o1 \<longrightarrow> planned cx key o1 (snd y)) \<and>
    (\<forall>h s out. fst y = Inr (Covered h s out) \<longrightarrow> wd_root_key (st_world cx) (ow_world (snd y)) h \<noteq> None)"
  let ?P = "\<lambda>cx' key st y. cx' = cx \<longrightarrow> ow_inv cx st \<longrightarrow> ?Q key st y"
  have "?P cx key st (res, st')"
  proof (rule plan_live.raw_induct [where P = "\<lambda>cx' key v i globs st y. ?P cx' key st y", OF _ assms(2)], intro impI)
    fix rec cx' key v i globs st y
    assume ih: "\<And>key v i globs st b y. rec key v i globs st b = Some y \<Longrightarrow> ?P key v b y"
      and cx: "cx' = cx" and inv: "ow_inv cx st"
      and b: "(case plan_watch (st_radices cx') key v i globs (ow_subsumer st) of
        None \<Rightarrow> None
      | Some (Inl conflict, sm) \<Rightarrow>
          if wd_root_key (st_world cx') (ow_world st) (wr_root conflict) = None
          then (case retire_root_with_terminal_rescan cx' (wr_root conflict) (st\<lparr>ow_subsumer := sm\<rparr>) of
                  None \<Rightarrow> None | Some st1 \<Rightarrow> rec cx' key v i globs st1)
          else Some (Inl (Failed (UwRootWordsConflict (wr_root_depth conflict) (wr_armed conflict) globs
                 (wr_reason conflict))), st\<lparr>ow_subsumer := sm\<rparr>)
      | Some (Inr outcome, sm) \<Rightarrow>
          (case outcome of
             Covered h _ _ \<Rightarrow>
               if wd_root_key (st_world cx') (ow_world st) h = None
               then (case retire_root_with_terminal_rescan cx' h (abort_plan outcome (st\<lparr>ow_subsumer := sm\<rparr>)) of
                       None \<Rightarrow> None | Some st1 \<Rightarrow> rec cx' key v i globs st1)
               else Some (Inr outcome, st\<lparr>ow_subsumer := sm\<rparr>)
           | _ \<Rightarrow> Some (Inr outcome, st\<lparr>ow_subsumer := sm\<rparr>))) = Some y"
    note b = b [unfolded cx]
    have again: "?Q key st y" if u: "upholds cx st st0"
      and r: "(case retire_root_with_terminal_rescan cx h st0 of None \<Rightarrow> None | Some st1 \<Rightarrow> rec cx key v i globs st1) = Some y"
      for h st0
    proof -
      obtain st1 where s: "retire_root_with_terminal_rescan cx h st0 = Some st1" "upholds cx st0 st1"
        using retire_upholds [OF upholds_inv [OF u]] by blast
      note u1 = upholds_trans [OF u s(2)]
      have "rec cx key v i globs st1 = Some y" using r s(1) by simp
      from ih [OF this] have "?Q key st1 y" using upholds_inv [OF u1] by blast
      then show ?thesis using upholds_trans [OF u1] by blast
    qed
    obtain rs sm where p: "plan_watch (st_radices cx) key v i globs (ow_subsumer st) = Some (rs, sm)"
      using b cx by (auto split: option.splits)
    let ?st = "st\<lparr>ow_subsumer := sm\<rparr>"
    note S = plan_step [OF inv p]
    show "?Q key st y"
    proof (cases rs)
      case (Inl c)
      show ?thesis
      proof (cases "wd_root_key (st_world cx) (ow_world st) (wr_root c) = None")
        case True
        then show ?thesis using again [OF S(1)] b p cx Inl by simp
      next
        case False
        then show ?thesis using b p cx Inl S(1) by auto
      qed
    next
      case (Inr o1)
      show ?thesis
      proof (cases "\<exists>h s out. o1 = Covered h s out \<and> wd_root_key (st_world cx) (ow_world st) h = None")
        case True
        then show ?thesis using again [OF upholds_trans [OF S(1) abort_upholds [OF upholds_inv [OF S(1)]]]] b p cx Inr by auto
      next
        case False
        then have y: "y = (Inr o1, ?st)" using b p cx Inr by (cases o1) auto
        show ?thesis unfolding y using S(1,2) Inr False by auto
      qed
    qed
  qed
  then show "upholds cx st st'" and "\<forall>o1. res = Inr o1 \<longrightarrow> planned cx key o1 st'"
    and "\<forall>h s out. res = Inr (Covered h s out) \<longrightarrow> wd_root_key (st_world cx) (ow_world st') h \<noteq> None"
    using assms(1) by auto
qed

end

section \<open>Committing\<close>

lemma repoint_subs_keys: "repoint_subs h ss m = Some m' \<Longrightarrow> map_option sr_key (m' x) = map_option sr_key (m x)"
proof (induction ss arbitrary: m)
  case (Cons s ss)
  then obtain r where r: "m s = Some r" "repoint_subs h ss (m(s \<mapsto> r\<lparr>sr_root := h\<rparr>)) = Some m'"
    by (auto split: option.splits)
  show ?case using Cons.IH [OF r(2)] r(1) by auto
qed simp

lemma install_keys:
  "x \<noteq> s \<Longrightarrow> sm_subs (install_sub rd s h k v i st) x = sm_subs st x"
  "sm_subs (install_sub rd s h k v i st) s = Some \<lparr>sr_root = h, sr_key = k, sr_interest = i\<rparr>" "sm_instance (install_sub rd s h k v i st) = sm_instance st"
  "sm_next_sub (install_sub rd s h k v i st) = sm_next_sub st"
  by (simp_all add: install_sub_def Let_def publish_def cover_add_def)

lemma commit_keys:
  assumes "commit_watch rd o1 h k g sm = Some sm'"
  shows "(\<forall>x. x \<noteq> wo_sub o1 \<longrightarrow> map_option sr_key (sm_subs sm' x) = map_option sr_key (sm_subs sm x)) \<and>
    sm_instance sm' = sm_instance sm \<and> sm_next_sub sm' = sm_next_sub sm \<and> sm_subs sm' (wo_sub o1) \<noteq> None"
proof (cases o1)
  case (Covered r s out)
  then show ?thesis using assms by (auto simp: take_pending_def install_keys split: option.splits)
next
  case (Disjoint s)
  then show ?thesis using assms by (auto simp: take_pending_def install_keys split: option.splits)
next
  case (Widen rep unw s)
  then show ?thesis using assms repoint_subs_keys
    by (auto simp: take_pending_def install_keys split: option.splits)
qed

lemma install_coalescer:
  "ow_coalescer (install_state sub flt d st) = ow_coalescer st \<or>
   (\<exists>co co'. ow_coalescer (install_state sub flt d st) = Some co' \<and>
      (ow_coalescer st = Some co \<or> ow_coalescer st = None \<and> co = coalescer_new (ow_debounce st)) \<and> co' = set_policy sub d co)"
  by (cases d; cases "ow_coalescer st") (auto simp: install_state_def register_debounce_def)

lemma set_policy_rest [simp]: "at_rest (set_policy sub d co) = at_rest co"
  by (cases d) (simp_all add: at_rest_def co_inv_def index_ok_def counts_ok_def filed_ok_def)

lemma set_policy_slots [simp]: "slots (set_policy sub d co) = slots co"
  by (cases d) (simp_all add: slots_def)

lemma coalescer_new_rest [simp]: "at_rest (coalescer_new d)"
  by (simp add: at_rest_def co_inv_def index_ok_def counts_ok_def filed_ok_def counts_of_def sub_count_def
      fun_eq_iff coalescer_new_def)

lemma coalescer_new_slots [simp]: "slots (coalescer_new d) = {#}"
  by (simp add: coalescer_new_def slots_def)

lemma install_fields [simp]:
  "ow_subsumer (install_state sub flt d st) = ow_subsumer st" "ow_epochs (install_state sub flt d st) = ow_epochs st"
  "ow_needs (install_state sub flt d st) = ow_needs st" "ow_suppressed (install_state sub flt d st) = ow_suppressed st"
  "ow_unclaimed (install_state sub flt d st) = ow_unclaimed st" "ow_world (install_state sub flt d st) = ow_world st"
  by (cases d; simp add: install_state_def register_debounce_def)+

lemma install_readings [simp]:
  "sent cx (install_state sub flt d st) = sent cx st" "shut cx (install_state sub flt d st) = shut cx st"
  "debt (install_state sub flt d st) = debt st" "minted (install_state sub flt d st) = minted st"
  "ev_ok (install_state sub flt d st) = ev_ok st" "planes_ok (install_state sub flt d st) = planes_ok st"
  "buffered (install_state sub flt d st) = buffered st"
  using install_coalescer [of sub flt d st]
  by (auto simp: sent_def shut_def debt_def minted_def ev_ok_def planes_ok_def fun_eq_iff buffered_def)

text \<open>What a watch that granted \<open>sub\<close> leaves: it is live and owed nothing.\<close>

definition granted :: "('e, 't, 'u, 'c, 'v, 'h) owner \<Rightarrow> subscription \<Rightarrow> bool" where
  "granted st sub \<longleftrightarrow> sm_subs (ow_subsumer st) sub \<noteq> None \<and> debt st sub = None"

lemma install_upholds:
  assumes inv: "ow_inv cx st"
  shows "upholds cx st (install_state sub flt d st)"
proof -
  have b: "\<forall>co. ow_coalescer st = Some co \<longrightarrow> at_rest co" using inv by (simp add: ow_inv_def buffer_ok_def)
  have "at_rest co" if "ow_coalescer (install_state sub flt d st) = Some co" for co
    using that b install_coalescer [of sub flt d st] by auto
  then have "buffer_ok (install_state sub flt d st)" using inv by (auto simp: ow_inv_def buffer_ok_def)
  then have "ow_inv cx (install_state sub flt d st)"
    using inv by (simp add: ow_inv_def debt_ok_def stream_ok_def)
  then show ?thesis by (simp add: upholds_def keeps_settled_def settled_def rescanned_def owed_def)
qed

context delivery
begin

text \<open>A commit into the engine, for a plan still standing and an engine found correct after it.\<close>

lemma commit_upholds:
  assumes inv: "ow_inv cx st" and pl: "planned cx key o1 st"
    and c: "commit_watch (st_radices cx) o1 h k g (ow_subsumer st) = Some sm" and i: "sm_inv (st_radices cx) sm"
  shows "upholds cx st (st\<lparr>ow_subsumer := sm\<rparr>)" and "sm_subs sm (wo_sub o1) \<noteq> None"
    and "sm_subs (ow_subsumer st) x \<noteq> None \<Longrightarrow> sm_subs sm x \<noteq> None"
proof -
  note K = commit_keys [OF c]
  have keys: "x \<in> {wo_sub o1} \<or> map_option sr_key (sm_subs sm x) = map_option sr_key (sm_subs (ow_subsumer st) x)" for x
    using K by blast
  have "ow_inv cx (st\<lparr>ow_subsumer := sm\<rparr>)"
    by (rule inv_rekey [OF inv i keys]) (use K pl in \<open>simp_all add: planned_def\<close>)
  then show "upholds cx st (st\<lparr>ow_subsumer := sm\<rparr>)" by (rule upholds_subsumer)
  show "sm_subs sm (wo_sub o1) \<noteq> None" using K by blast
  show "sm_subs sm x \<noteq> None" if "sm_subs (ow_subsumer st) x \<noteq> None"
    using that K by (cases "x = wo_sub o1"; cases "sm_subs sm x") auto
qed

lemma commit_sm_inv:
  assumes inv: "ow_inv cx st" and pl: "planned cx key o1 st"
    and ok: "case o1 of Covered r s out \<Rightarrow> True
      | Widen rep unw s \<Rightarrow> fs_path_preserves_plan (st_radices cx) k unw (ow_subsumer st) \<and>
          (sm_by_handle (ow_subsumer st) h \<noteq> None \<longrightarrow> h \<in> set unw)
      | Disjoint s \<Rightarrow> fs_path_preserves_plan (st_radices cx) k [] (ow_subsumer st) \<and>
          sm_by_handle (ow_subsumer st) h = None"
    and cov: "\<And>r s out. o1 = Covered r s out \<Longrightarrow> h = r"
  shows "\<exists>sm. commit_watch (st_radices cx) o1 h k g (ow_subsumer st) = Some sm \<and> sm_inv (st_radices cx) sm"
proof -
  have sm: "sm_inv (st_radices cx) (ow_subsumer st)" using inv by (simp add: ow_inv_def)
  obtain p where p: "sm_pending (ow_subsumer st) (wo_sub o1) = Some p" "pw_key p = key"
      and none: "sm_subs (ow_subsumer st) (wo_sub o1) = None"
    using pl by (auto simp: planned_def)
  show ?thesis
  proof (cases o1)
    case (Covered r s out)
    then obtain k0 where "sm_by_handle (ow_subsumer st) r = Some k0" "prefix k0 key"
      using pl by (auto simp: planned_def)
    then show ?thesis using eng.commit_covered [OF sm, of s p r k0] p none Covered cov by simp
  next
    case (Widen rep unw s)
    have pp: "fs_path_preserves_plan (st_radices cx) k unw (ow_subsumer st)" using ok Widen by simp
    note d = eng.preserves_planD [OF sm pp]
    show ?thesis unfolding Widen
      by (rule eng.commit_widen [OF sm _ _ d]) (use p none pl ok Widen in \<open>simp_all add: planned_def\<close>)
  next
    case (Disjoint s)
    have pp: "fs_path_preserves_plan (st_radices cx) k [] (ow_subsumer st)" using ok Disjoint by simp
    note d = eng.preserves_planD [OF sm pp]
    have nb: "roots (st_radices cx) (ow_subsumer st) q = None" if "strict_prefix k q" for q
      by (rule eng.no_handles_below [OF sm _ that]) (use d(2) in simp)
    show ?thesis unfolding Disjoint
      by (rule eng.commit_disjoint [OF sm _ _ d(1) nb]) (use p none ok Disjoint in simp_all)
  qed
qed

section \<open>The branches of a reconcile\<close>

text \<open>A commit followed by the subscription's gate and debounce.\<close>

lemma commit_install:
  fixes flt :: slot_id and d :: debounce
  assumes inv: "ow_inv cx st" and pl: "planned cx key o1 st" and "sub = wo_sub o1"
    and c: "commit_watch (st_radices cx) o1 h k g (ow_subsumer st) = Some sm" and i: "sm_inv (st_radices cx) sm"
  defines "st' \<equiv> install_state sub flt d (st\<lparr>ow_subsumer := sm\<rparr>)"
  shows "upholds cx st st'" and "granted st' sub" and "ow_subsumer st' = sm"
    and "\<And>x. x \<in># buffered st' \<Longrightarrow> ev_subscription x \<noteq> sub"
proof -
  note C = commit_upholds [OF inv pl c i]
  show "upholds cx st st'" unfolding st'_def
    by (rule upholds_trans [OF C(1) install_upholds [OF upholds_inv [OF C(1)]]])
  show "granted st' sub" using C(2) pl assms(3) by (simp add: granted_def st'_def planned_def unheard_def)
  show "ow_subsumer st' = sm" by (simp add: st'_def)
  show "ev_subscription x \<noteq> sub" if "x \<in># buffered st'" for x
  proof -
    have "ev_ok st x" using inv that by (simp add: st'_def ow_inv_def buffer_ok_def)
    then have "sm_subs (ow_subsumer st) (ev_subscription x) \<noteq> None" by (auto simp: ev_ok_def)
    then show ?thesis using pl assms(3) by (auto simp: planned_def)
  qed
qed

lemma grow_for_quiet:
  assumes "grow_for cx r out key st = Some (g, st')"
  shows "quiet cx st st'"
proof (cases out)
  case True
  then obtain rc where rc: "retained_cover_for (st_radices cx) r (Some key) (ow_subsumer st) = Some rc"
    using assms by (auto simp: grow_for_def bind_eq_Some_conv)
  show ?thesis
  proof (cases rc)
    case (Some cover)
    obtain a st1 where "grow cx r cover st = (a, st1)" by fastforce
    then show ?thesis using assms True rc Some quiet_grow by (cases a) (auto simp: grow_for_def)
  next
    case None
    show ?thesis
    proof (cases "entry (st_radices cx) r (ow_subsumer st)")
      case no: None
      then show ?thesis using assms True rc None by (simp add: grow_for_def)
    next
      case (Some rcd)
      obtain a st1 where "grow cx r [rr_key rcd] st = (a, st1)" by fastforce
      then show ?thesis using assms True rc None Some quiet_grow by (cases a) (auto simp: grow_for_def)
    qed
  qed
qed (use assms in \<open>simp add: grow_for_def\<close>)

lemma covered_upholds:
  assumes inv: "ow_inv cx st" and pl: "planned cx key o1 st" and o1: "o1 = Covered r sub out"
    and run: "reconcile_covered cx o1 r sub out key rq st = Some (res, st')"
  shows "upholds cx st st'" and "res = Inr s \<Longrightarrow> granted st' s"
proof -
  obtain g st1 where g: "grow_for cx r out key st = Some (g, st1)"
    using run by (auto simp: reconcile_covered_def bind_eq_Some_conv)
  note q = grow_for_quiet [OF g]
  note u = quiet_upholds [OF q inv] and pl1 = planned_quiet [OF q pl]
  note i1 = upholds_inv [OF u]
  have "upholds cx st st' \<and> (res = Inr s \<longrightarrow> granted st' s)"
  proof (cases g)
    case (Inl stop)
    then have "res = Inl stop" "st' = abort_plan o1 st1" using run g by (simp_all add: reconcile_covered_def)
    then show ?thesis using upholds_trans [OF u abort_upholds [OF i1, of o1]] by simp
  next
    case (Inr rc)
    have "\<exists>sm. commit_watch (st_radices cx) o1 r key (wq_globs rq) (ow_subsumer st1) = Some sm \<and> sm_inv (st_radices cx) sm"
      by (rule commit_sm_inv [OF i1 pl1]) (simp_all add: o1)
    then obtain sm where sm: "commit_watch (st_radices cx) o1 r key (wq_globs rq) (ow_subsumer st1) = Some sm"
        "sm_inv (st_radices cx) sm" by blast
    let ?st2 = "install_state sub (wq_filter rq) (wq_debounce rq) (st1\<lparr>ow_subsumer := sm\<rparr>)"
    note C = commit_install [OF i1 pl1 _ sm, where sub = sub and flt = "wq_filter rq" and d = "wq_debounce rq"]
    have c1: "upholds cx st1 ?st2" and c2: "granted ?st2 sub" using C(1,2) o1 by simp_all
    note u2 = upholds_trans [OF u c1]
    have res: "res = Inr sub" "st' = (case rc of None \<Rightarrow> ?st2
        | Some cover \<Rightarrow> ?st2\<lparr>ow_subsumer := set_retained_cover (st_radices cx) r cover sm\<rparr>)"
      using run g Inr sm(1) by (auto simp: reconcile_covered_def Let_def split: option.splits)
    show ?thesis
    proof (cases rc)
      case None
      then show ?thesis using res u2 c2 by auto
    next
      case (Some cover)
      have "ow_inv cx (?st2\<lparr>ow_subsumer := set_retained_cover (st_radices cx) r cover sm\<rparr>)"
        by (rule inv_roots_only [OF upholds_inv [OF u2] eng.set_cover_inv [OF sm(2)]]) simp_all
      then have "upholds cx ?st2 (?st2\<lparr>ow_subsumer := set_retained_cover (st_radices cx) r cover sm\<rparr>)"
        by (rule upholds_subsumer)
      from upholds_trans [OF u2 this] show ?thesis using res Some c2 by (auto simp: granted_def)
    qed
  qed
  then show "upholds cx st st'" and "res = Inr s \<Longrightarrow> granted st' s" by blast+
qed

lemma disjoint_upholds:
  assumes inv: "ow_inv cx st" and pl: "planned cx key o1 st" and o1: "o1 = Disjoint sub"
    and run: "reconcile_disjoint cx o1 sub key rq st = Some (res, st')"
  shows "upholds cx st st'" and "res = Inr s \<Longrightarrow> granted st' s"
proof -
  obtain a st1 where a: "arm cx key (wq_globs rq) st = (a, st1)" by fastforce
  note q = quiet_arm [OF a]
  note u = quiet_upholds [OF q(1) inv] and pl1 = planned_quiet [OF q(1) pl]
  note i1 = upholds_inv [OF u]
  have "upholds cx st st' \<and> (res = Inr s \<longrightarrow> granted st' s)"
  proof (cases a)
    case (Inl stop)
    then have "res = Inl stop" "st' = (if stop = Unwinds then st1 else abort_plan o1 st1)"
      using run a by (simp_all add: reconcile_disjoint_def)
    then show ?thesis using upholds_trans [OF u abort_upholds [OF i1, of o1]] u by simp
  next
    case (Inr hk)
    obtain h k where hk: "hk = (h, k)" by (cases hk)
    show ?thesis
    proof (cases "fs_path_preserves_plan (st_radices cx) k [] (ow_subsumer st1)")
      case False
      obtain ok st2 where d: "disarm_bare cx h st1 = (ok, st2)" by fastforce
      note u2 = upholds_trans [OF u quiet_upholds [OF quiet_disarm [OF d] i1]]
      have "res = Inl (if ok then Failed canonical_race else Unwinds)" "st' = (if ok then abort_plan o1 st2 else st2)"
        using run a Inr hk False d by (simp_all add: reconcile_disjoint_def split: if_splits)
      then show ?thesis using u2 upholds_trans [OF u2 abort_upholds [OF upholds_inv [OF u2], of o1]] by simp
    next
      case True
      have sm1: "sm_inv (st_radices cx) (ow_subsumer st1)" using i1 by (simp add: ow_inv_def)
      have "sm_by_handle (ow_subsumer st1) h = None" by (rule entry_None [OF sm1 q(2)]) (simp add: Inr hk)
      then have "\<exists>sm. commit_watch (st_radices cx) o1 h k (wq_globs rq) (ow_subsumer st1) = Some sm \<and>
          sm_inv (st_radices cx) sm"
        by (intro commit_sm_inv [OF i1 pl1]) (simp_all add: o1 True)
      then obtain sm where sm: "commit_watch (st_radices cx) o1 h k (wq_globs rq) (ow_subsumer st1) = Some sm"
          "sm_inv (st_radices cx) sm" by blast
      note C = commit_install [OF i1 pl1 _ sm, where sub = sub and flt = "wq_filter rq" and d = "wq_debounce rq"]
      have "res = Inr sub" "st' = install_state sub (wq_filter rq) (wq_debounce rq) (st1\<lparr>ow_subsumer := sm\<rparr>)"
        using run a Inr hk True sm(1) by (simp_all add: reconcile_disjoint_def)
      moreover have "granted (install_state sub (wq_filter rq) (wq_debounce rq) (st1\<lparr>ow_subsumer := sm\<rparr>)) sub"
        by (rule C(2)) (simp add: o1)
      moreover have "upholds cx st (install_state sub (wq_filter rq) (wq_debounce rq) (st1\<lparr>ow_subsumer := sm\<rparr>))"
        by (rule upholds_trans [OF u C(1)]) (simp add: o1)
      ultimately show ?thesis by auto
    qed
  qed
  then show "upholds cx st st'" and "res = Inr s \<Longrightarrow> granted st' s" by blast+
qed

lemma widen_commit_upholds:
  assumes inv: "ow_inv cx st" and pl: "planned cx key o1 st" and o1: "o1 = Widen rep unw sub"
    and pp: "fs_path_preserves_plan (st_radices cx) k unw (ow_subsumer st)"
    and h: "sm_by_handle (ow_subsumer st) h \<noteq> None \<Longrightarrow> h \<in> set unw"
  obtains st' where "commit_widen cx o1 h k sub flt d rep g st = Some st'" "upholds cx st st'" "granted st' sub"
    "\<forall>s \<in> set rep. \<exists>r. event_is_rescan r \<and> ev_subscription r = s \<and> settled cx st' r \<and>
       (\<forall>x. ev_ok st x \<and> ev_subscription x = s \<longrightarrow> dominates (ev_key r) (ev_epoch r) x)"
proof -
  have "\<exists>sm. commit_watch (st_radices cx) o1 h k g (ow_subsumer st) = Some sm \<and> sm_inv (st_radices cx) sm"
    by (rule commit_sm_inv [OF inv pl]) (use pp h in \<open>simp_all add: o1\<close>)
  then obtain sm where sm: "commit_watch (st_radices cx) o1 h k g (ow_subsumer st) = Some sm"
      "sm_inv (st_radices cx) sm" by blast
  let ?st1 = "install_state sub flt d (st\<lparr>ow_subsumer := sm\<rparr>)"
  have w: "sub = wo_sub o1" using o1 by simp
  note C = commit_install [OF inv pl w sm, where flt = flt and d = d]
  have rep: "distinct rep" "\<And>x. x \<in> set rep \<Longrightarrow> sm_subs (ow_subsumer st) x \<noteq> None" "sub \<notin> set rep"
    using pl o1 by (auto simp: planned_def)
  then have live: "\<forall>s \<in> set rep. sm_subs (ow_subsumer ?st1) s \<noteq> None"
    using commit_upholds(3) [OF inv pl sm] by simp
  obtain st' where r: "rebase_subs cx k rep ?st1 = Some st'" "upholds cx ?st1 st'" "emission_frame ?st1 st'"
      "\<forall>s \<in> set rep. \<exists>r. event_is_rescan r \<and> ev_subscription r = s \<and> settled cx st' r \<and>
         (\<forall>x. ev_ok ?st1 x \<and> ev_subscription x = s \<longrightarrow> dominates (ev_key r) (ev_epoch r) x)"
      "\<forall>s. s \<notin> set rep \<and> (\<forall>x. x \<in># buffered ?st1 \<longrightarrow> ev_subscription x \<noteq> s) \<longrightarrow> debt st' s = debt ?st1 s"
    using rebase_upholds [OF upholds_inv [OF C(1)] rep(1) live] by metis
  have ok: "ev_ok ?st1 x" if x: "ev_ok st x" "ev_subscription x \<in> set rep" for x
  proof -
    have "ev_subscription x \<noteq> wo_sub o1" using x(2) rep(3) w by auto
    then have "map_option sr_key (sm_subs sm (ev_subscription x)) = map_option sr_key (sm_subs (ow_subsumer st) (ev_subscription x))"
      using commit_keys [OF sm(1)] by blast
    then show ?thesis using x(1) by (cases "sm_subs sm (ev_subscription x)") (auto simp: ev_ok_def)
  qed
  have "\<forall>s \<in> set rep. \<exists>r. event_is_rescan r \<and> ev_subscription r = s \<and> settled cx st' r \<and>
       (\<forall>x. ev_ok st x \<and> ev_subscription x = s \<longrightarrow> dominates (ev_key r) (ev_epoch r) x)"
  proof
    fix s assume s: "s \<in> set rep"
    obtain r where "event_is_rescan r" "ev_subscription r = s" "settled cx st' r"
        "\<forall>x. ev_ok ?st1 x \<and> ev_subscription x = s \<longrightarrow> dominates (ev_key r) (ev_epoch r) x"
      using bspec [OF r(4) s] by (elim exE conjE) iprover
    then show "\<exists>r. event_is_rescan r \<and> ev_subscription r = s \<and> settled cx st' r \<and>
       (\<forall>x. ev_ok st x \<and> ev_subscription x = s \<longrightarrow> dominates (ev_key r) (ev_epoch r) x)"
      using ok s by (intro exI [of _ r]) simp
  qed
  moreover have "debt st' sub = None"
    using r(5) rep(3) C(2,4) by (simp add: granted_def)
  then have "granted st' sub" using C(2) r(3) by (simp add: granted_def emission_frame_def)
  moreover have "commit_widen cx o1 h k sub flt d rep g st = Some st'"
    using sm(1) r(1) by (simp add: commit_widen_def)
  ultimately show thesis using that upholds_trans [OF C(1) r(2)] by blast
qed

lemma restore_abort_upholds:
  assumes inv: "ow_inv cx st" and run: "restore_and_abort cx o1 unw failed st = Some (res, st')"
  shows "upholds cx st st'" and "res \<noteq> Inr s"
proof -
  obtain stop st1 where r: "restore_disarmed_roots cx unw st = Some (stop, st1)"
    using run by (auto simp: restore_and_abort_def bind_eq_Some_conv)
  note u = restore_upholds [OF inv r]
  note a = upholds_trans [OF u abort_upholds [OF upholds_inv [OF u], of o1]]
  have st': "(res, st') = (case stop of None \<Rightarrow> (Inl (Failed failed), abort_plan o1 st1)
      | Some s \<Rightarrow> (Inl s, if s = Unwinds then st1 else abort_plan o1 st1))"
    using run r by (simp add: restore_and_abort_def split: option.splits)
  show "upholds cx st st'" using st' u a by (simp split: option.splits if_splits)
  show "res \<noteq> Inr s" using st' by (auto split: option.splits)
qed

lemma in_place_upholds:
  assumes inv: "ow_inv cx st" and pl: "planned cx key o1 st" and o1: "o1 = Widen rep unw sub"
    and h: "ar_handle a \<in> set unw"
    and run: "widen_in_place cx o1 rep unw sub rq a only_key st = Some (res, st')"
  shows "upholds cx st st' \<and> (\<forall>s. res = Inr s \<longrightarrow> granted st' s)"
proof (cases "fs_path_preserves_plan (st_radices cx) (ar_key a) unw (ow_subsumer st)")
  case True
  let ?g = "case root_globs_of (st_radices cx) (ar_handle a) (ow_subsumer st) of None \<Rightarrow> root_globs_new | Some g \<Rightarrow> g"
  obtain st1 where c: "commit_widen cx o1 (ar_handle a) (ar_key a) sub (wq_filter rq) (wq_debounce rq) rep ?g st = Some st1"
      "upholds cx st st1" "granted st1 sub"
    using widen_commit_upholds [OF inv pl o1 True h] by metis
  have "res = Inr sub" "st' = st1" using run c(1) True by (simp_all add: widen_in_place_def Let_def)
  then show ?thesis using c(2,3) by auto
next
  case False
  obtain r st1 where rr: "replace_racing_close cx (ar_handle a) only_key st = (r, st1)" by fastforce
  note u = quiet_upholds [OF quiet_replace(1) [OF rr] inv]
  note i1 = upholds_inv [OF u]
  show ?thesis
  proof (cases r)
    case (Inl s)
    then have "res = Inl s" "st' = abort_plan o1 st1" using run False rr by (simp_all add: widen_in_place_def Let_def)
    then show ?thesis using upholds_trans [OF u abort_upholds [OF i1, of o1]] by simp
  next
    case (Inr b)
    show ?thesis
    proof (cases "case b of Inr b \<Rightarrow> ar_key b = only_key | Inl _ \<Rightarrow> False")
      case True
      let ?st2 = "rescan_live_root cx (ar_handle a) st1"
      note u2 = upholds_trans [OF u serves_upholds [OF rescan_live_root_serves(1) [OF i1, of "ar_handle a"]]]
      have "res = Inl (Failed canonical_race)" "st' = abort_plan o1 ?st2"
        using run False rr Inr True by (simp_all add: widen_in_place_def Let_def)
      then show ?thesis using upholds_trans [OF u2 abort_upholds [OF upholds_inv [OF u2], of o1]] by simp
    next
      case bad: False
      obtain st2 where t: "retire_root_with_terminal_rescan cx (ar_handle a) st1 = Some st2" "upholds cx st1 st2"
        using retire_upholds [OF i1] by blast
      note u2 = upholds_trans [OF u t(2)]
      obtain ok st3 where d: "disarm_bare cx (ar_handle a) st2 = (ok, st3)" by fastforce
      note u3 = upholds_trans [OF u2 quiet_upholds [OF quiet_disarm [OF d] upholds_inv [OF u2]]]
      have "(res, st') = (if ok then (Inl (Failed canonical_race), abort_plan o1 st3) else (Inl Unwinds, st3))"
        using run False rr Inr bad t(1) d by (simp add: widen_in_place_def Let_def)
      then show ?thesis using u3 upholds_trans [OF u3 abort_upholds [OF upholds_inv [OF u3], of o1]]
        by (simp split: if_splits)
    qed
  qed
qed

lemma rearm_widen_upholds:
  assumes inv: "ow_inv cx st" and pl: "planned cx key o1 st" and o1: "o1 = Widen rep unw sub"
    and run: "widen_by_rearm cx o1 rep unw sub key rq st = Some (res, st')"
  shows "upholds cx st st' \<and> (\<forall>s. res = Inr s \<longrightarrow> granted st' s)"
proof -
  obtain ok st1 where d: "disarm_all cx unw st = (ok, st1)" by fastforce
  note q1 = quiet_disarm_all [OF d]
  obtain a st2 where a: "arm cx key (wq_globs rq) st1 = (a, st2)" by fastforce
  note q2 = quiet_trans [OF q1 quiet_arm(1) [OF a]]
  note u1 = quiet_upholds [OF q1 inv] and u2 = quiet_upholds [OF q2 inv] and pl2 = planned_quiet [OF q2 pl]
  note i2 = upholds_inv [OF u2]
  show ?thesis
  proof (cases ok)
    case False
    then have "res = Inl Unwinds" "st' = st1" using run d by (simp_all add: widen_by_rearm_def)
    then show ?thesis using u1 by simp
  next
    case True
    show ?thesis
    proof (cases a)
      case (Inl s)
      show ?thesis
      proof (cases s)
        case (Failed f)
        then have "restore_and_abort cx o1 unw f st2 = Some (res, st')" using run d True a Inl by (simp add: widen_by_rearm_def)
        from restore_abort_upholds [OF i2 this] upholds_trans [OF u2] show ?thesis by blast
      next
        case Unwinds
        then have "res = Inl Unwinds" "st' = st2" using run d True a Inl by (simp_all add: widen_by_rearm_def)
        then show ?thesis using u2 by simp
      next
        case CloseRequested
        obtain st3 where c: "begin_close_then_retire_disarmed_roots cx unw st2 = Some st3" "upholds cx st2 st3"
          using close_retire_upholds [OF i2] by blast
        note u3 = upholds_trans [OF u2 c(2)]
        have "res = Inl s" "st' = abort_plan o1 st3"
          using run d True a Inl CloseRequested c(1) by (simp_all add: widen_by_rearm_def)
        then show ?thesis using upholds_trans [OF u3 abort_upholds [OF upholds_inv [OF u3], of o1]] by simp
      next
        case StopHandlesGone
        obtain st3 where c: "begin_close_then_retire_disarmed_roots cx unw st2 = Some st3" "upholds cx st2 st3"
          using close_retire_upholds [OF i2] by blast
        note u3 = upholds_trans [OF u2 c(2)]
        have "res = Inl s" "st' = abort_plan o1 st3"
          using run d True a Inl StopHandlesGone c(1) by (simp_all add: widen_by_rearm_def)
        then show ?thesis using upholds_trans [OF u3 abort_upholds [OF upholds_inv [OF u3], of o1]] by simp
      qed
    next
      case (Inr hk)
      obtain h k where hk: "hk = (h, k)" by (cases hk)
      show ?thesis
      proof (cases "fs_path_preserves_plan (st_radices cx) k unw (ow_subsumer st2)")
        case False
        obtain b st3 where b: "disarm_bare cx h st2 = (b, st3)" by fastforce
        note u3 = upholds_trans [OF u2 quiet_upholds [OF quiet_disarm [OF b] i2]]
        show ?thesis
        proof (cases b)
          case no: False
          then have "res = Inl Unwinds" "st' = st3" using run d True a Inr hk False b by (simp_all add: widen_by_rearm_def)
          then show ?thesis using u3 by simp
        next
          case yes: True
          then have "restore_and_abort cx o1 unw canonical_race st3 = Some (res, st')"
            using run d True a Inr hk False b by (simp add: widen_by_rearm_def)
          from restore_abort_upholds [OF upholds_inv [OF u3] this] upholds_trans [OF u3] show ?thesis by blast
        qed
      next
        case pp: True
        have sm2: "sm_inv (st_radices cx) (ow_subsumer st2)" using i2 by (simp add: ow_inv_def)
        have "sm_by_handle (ow_subsumer st2) h = None" by (rule entry_None [OF sm2 quiet_arm(2) [OF a]]) (simp add: Inr hk)
        then have fresh: "sm_by_handle (ow_subsumer st2) h \<noteq> None \<Longrightarrow> h \<in> set unw" by simp
        obtain st3 where c: "commit_widen cx o1 h k sub (wq_filter rq) (wq_debounce rq) rep (wq_globs rq) st2 = Some st3"
            "upholds cx st2 st3" "granted st3 sub"
          using widen_commit_upholds [OF i2 pl2 o1 pp fresh] by metis
        have "res = Inr sub" "st' = st3" using run d True a Inr hk pp c(1) by (simp_all add: widen_by_rearm_def)
        then show ?thesis using upholds_trans [OF u2 c(2)] c(3) by auto
      qed
    qed
  qed
qed

lemma widen_upholds:
  assumes inv: "ow_inv cx st" and pl: "planned cx key o1 st" and o1: "o1 = Widen rep unw sub"
    and run: "reconcile_widen cx o1 rep unw sub key rq st = Some (res, st')"
  shows "upholds cx st st' \<and> (\<forall>s. res = Inr s \<longrightarrow> granted st' s)"
proof -
  obtain t st1 where t: "retarget cx unw key st = (t, st1)" by fastforce
  have "quiet cx st st1 \<and> (\<forall>a k. t = Inr (Some (a, k)) \<longrightarrow> ar_handle a \<in> set unw)"
  proof (cases "case unw of [only] \<Rightarrow> map_option (Pair only) (wd_root_key (st_world cx) (ow_world st) only) | _ \<Rightarrow> None")
    case None
    then show ?thesis using t by (auto simp: retarget_def)
  next
    case (Some ok)
    obtain only k where ok: "ok = (only, k)" by (cases ok)
    have unw: "unw = [only]" using Some ok by (auto split: list.splits)
    obtain r st2 where r: "replace_racing_close cx only key st = (r, st2)" by fastforce
    have "st1 = st2" using t Some ok r by (auto simp: retarget_def split: sum.splits)
    moreover have "ar_handle a = only" if "t = Inr (Some (a, k'))" for a k'
    proof -
      have "r = Inr (Inr a)" using t Some ok r that by (auto simp: retarget_def split: sum.splits if_splits)
      then show ?thesis by (rule quiet_replace(2) [OF r])
    qed
    ultimately show ?thesis using quiet_replace(1) [OF r] unw by simp
  qed
  then have q: "quiet cx st st1" and h: "\<And>a k. t = Inr (Some (a, k)) \<Longrightarrow> ar_handle a \<in> set unw" by blast+
  note u = quiet_upholds [OF q inv] and pl1 = planned_quiet [OF q pl]
  note i1 = upholds_inv [OF u]
  show ?thesis
  proof (cases t)
    case (Inl s)
    then have "res = Inl s" "st' = abort_plan o1 st1" using run t by (simp_all add: reconcile_widen_def)
    then show ?thesis using upholds_trans [OF u abort_upholds [OF i1, of o1]] by simp
  next
    case (Inr x)
    show ?thesis
    proof (cases x)
      case None
      then have "widen_by_rearm cx o1 rep unw sub key rq st1 = Some (res, st')"
        using run t Inr by (simp add: reconcile_widen_def)
      from rearm_widen_upholds [OF i1 pl1 o1 this] upholds_trans [OF u] show ?thesis by blast
    next
      case (Some ak)
      obtain a k where ak: "ak = (a, k)" by (cases ak)
      have "widen_in_place cx o1 rep unw sub rq a k st1 = Some (res, st')"
        using run t Inr Some ak by (simp add: reconcile_widen_def)
      from in_place_upholds [OF i1 pl1 o1 h this] upholds_trans [OF u] Inr Some ak show ?thesis by blast
    qed
  qed
qed

lemma reconcile_upholds:
  assumes inv: "ow_inv cx st" and run: "reconcile_watch cx rq st = Some (res, st')"
  shows "upholds cx st st' \<and> (\<forall>s. res = Inr s \<longrightarrow> granted st' s)"
proof (cases "\<exists>key. reconcile_canonical_watch cx key rq st = Some (res, st')")
  case False
  then have "\<exists>err. res = Inl (Failed err) \<and> st' = st"
    using run unfolding reconcile_watch_def by (simp split: if_splits sum.splits) blast+
  then show ?thesis using upholds_refl [OF inv] by auto
next
  case True
  then obtain key where canon: "reconcile_canonical_watch cx key rq st = Some (res, st')" by blast
  obtain y where y: "plan_live cx key (wq_value rq) (wq_interest rq) (wq_globs rq) st = Some y"
    using canon by (cases "plan_live cx key (wq_value rq) (wq_interest rq) (wq_globs rq) st")
      (simp_all add: reconcile_canonical_watch_def)
  obtain p st1 where p: "plan_live cx key (wq_value rq) (wq_interest rq) (wq_globs rq) st = Some (p, st1)"
      and c: "(case p of Inl s \<Rightarrow> Some (Inl s, st1)
        | Inr o1 \<Rightarrow> (case o1 of
            Covered root sub outside \<Rightarrow> reconcile_covered cx o1 root sub outside key rq st1
          | Disjoint sub \<Rightarrow> reconcile_disjoint cx o1 sub key rq st1
          | Widen repointed unwatch sub \<Rightarrow> reconcile_widen cx o1 repointed unwatch sub key rq st1)) = Some (res, st')"
    using canon y by (cases y) (simp add: reconcile_canonical_watch_def)
  note P = plan_live_upholds [OF inv p]
  note i1 = upholds_inv [OF P(1)]
  show ?thesis
  proof (cases p)
    case (Inl s)
    then show ?thesis using c P(1) by auto
  next
    case (Inr o1)
    then have pl: "planned cx key o1 st1" using P(2) by blast
    have "upholds cx st1 st' \<and> (\<forall>s. res = Inr s \<longrightarrow> granted st' s)"
    proof (cases o1)
      case (Covered r s out)
      then have "reconcile_covered cx o1 r s out key rq st1 = Some (res, st')" using c Inr by simp
      from covered_upholds [OF i1 pl Covered this] show ?thesis by blast
    next
      case (Widen rep unw s)
      then have "reconcile_widen cx o1 rep unw s key rq st1 = Some (res, st')" using c Inr by simp
      from widen_upholds [OF i1 pl Widen this] show ?thesis .
    next
      case (Disjoint s)
      then have "reconcile_disjoint cx o1 s key rq st1 = Some (res, st')" using c Inr by simp
      from disjoint_upholds [OF i1 pl Disjoint this] show ?thesis by blast
    qed
    then show ?thesis using upholds_trans [OF P(1)] by blast
  qed
qed

end

end
