(* ===== verification/Run.thy ===== *)
theory Run
  imports Reconcile
begin

text \<open>
  The owner's loop (\<open>run\<close> in \<open>driver/mod.rs\<close>) and its teardown. What the channels hold when a turn looks
  at them is the turn's input: a \<open>turn\<close> carries the grant resolutions queued, a sync request found at the
  top, what polling the source at the fairness point answers, and the arm the biased select takes.
  The close signal is the world's \<open>wd_probe\<close>, as in the reconciliation. The yield to the executor every
  64 turns has no effect on the state and is left out, as is the acknowledgement of a close.
\<close>

section \<open>The loop\<close>

definition retry_delay :: duration where
  "retry_delay = 25000000"

definition command_fairness_budget :: nat where
  "command_fairness_budget = 32"

record sync_request =
  sq_sub :: subscription
  sq_gen :: u64
  sq_reply :: reply_id

datatype ('c, 'h) source_poll = PollEvent "('c, 'h) source_event" | PollEnded | PollPending

datatype ('c, 'v, 'h) arm_taken =
    TakeClose
  | TakeCloseGone
  | TakeCleanup cleanup
  | TakeWatch "('c, 'v) watch_request" reply_id
  | TakeUnwatch subscription
  | TakeCommandsGone
  | TakeSync sync_request
  | TakeSyncGone
  | TakeSource "('c, 'h) source_event"
  | TakeSourceEnded
  | TakeTimer

record ('c, 'v, 'h) turn =
  tn_sync :: "sync_request option"
  tn_cleanups :: "cleanup list"
  tn_poll :: "('c, 'h) source_poll"
  tn_arm :: "('c, 'v, 'h) arm_taken"

text \<open>A break: whether a close is to be acknowledged, and whether owed rescans are drained first.\<close>

datatype flow = FlowContinue | FlowBreak bool bool | FlowUnwound

record loop_state =
  lp_streak :: nat
  lp_close_open :: bool
  lp_sync_open :: bool

definition loop_start :: loop_state where
  "loop_start = \<lparr>lp_streak = 0, lp_close_open = True, lp_sync_open = True\<rparr>"

definition min_deadline :: "instant option \<Rightarrow> instant option \<Rightarrow> instant option" where
  "min_deadline a b = (case (a, b) of (Some a, Some b) \<Rightarrow> Some (min a b) | (None, b) \<Rightarrow> b | (a, None) \<Rightarrow> a)"

text \<open>The timer's deadline; the outer option is the overflow of an instant.\<close>

definition loop_deadline ::
  "('e, 't, 'u, 'w, 'c, 'v, 'h) site \<Rightarrow> ('e, 't, 'u, 'c, 'v, 'h) owner
     \<Rightarrow> (instant option \<times> ('e, 't, 'u, 'c, 'v, 'h) owner) option" where
  "loop_deadline cx st =
     (let settle = Option.bind (ow_coalescer st) next_deadline
      in if ow_needs st = [] then Some (settle, st)
         else (case read_clock cx st of (now, st1) \<Rightarrow>
           map_option (\<lambda>t. (min_deadline settle (Some t), st1)) (instant_checked_add (st_clock cx) now retry_delay)))"

definition admit_sync ::
  "('e, 't, 'u, 'w, 'c::linorder, 'v, 'h) site \<Rightarrow> sync_request \<Rightarrow> loop_state \<Rightarrow> ('e, 't, 'u, 'c, 'v, 'h) owner
     \<Rightarrow> (flow \<times> loop_state \<times> ('e, 't, 'u, 'c, 'v, 'h) owner) option" where
  "admit_sync cx req lp st =
     map_option (\<lambda>(a, st1). (case a of SyncDone \<Rightarrow> FlowContinue | SyncCloseRequested \<Rightarrow> FlowBreak True False,
         lp\<lparr>lp_streak := Suc (lp_streak lp)\<rparr>, st1))
       (on_sync cx (sq_sub req) (sq_gen req) (sq_reply req) st)"

text \<open>The head of a turn: the close signal, one sync request, the grants, the owed rescans.\<close>

definition turn_head ::
  "('e, 't, 'u, 'w, 'c::linorder, 'v, 'h) site \<Rightarrow> ('c, 'v, 'h) turn \<Rightarrow> loop_state
     \<Rightarrow> ('e, 't, 'u, 'c, 'v, 'h) owner \<Rightarrow> (flow \<times> loop_state \<times> ('e, 't, 'u, 'c, 'v, 'h) owner) option" where
  "turn_head cx t lp st0 =
     (let st1 = prune_abandoned_syncs cx st0;
          (close, st2) = (if lp_close_open lp then probe_close_signal cx st1 else (None, st1));
          lp1 = (if close = Some StopHandlesGone then lp\<lparr>lp_close_open := False\<rparr> else lp)
      in if close = Some CloseRequested then Some (FlowBreak True False, lp1, st2)
         else do { (fl, lp2, st3) \<leftarrow> (case tn_sync t of
                       None \<Rightarrow> Some (FlowContinue, lp1, st2) | Some req \<Rightarrow> admit_sync cx req lp1 st2);
                   if fl \<noteq> FlowContinue then Some (fl, lp2, st3)
                   else do { st4 \<leftarrow> drain_pending_cleanup cx (tn_cleanups t) st3;
                             Some (FlowContinue, lp2, flush_pending_rescans cx st4) } })"

text \<open>The fairness point: after a run of commands the source and the debounce get their turn.\<close>

definition turn_fairness ::
  "('e, 't, 'u, 'w, 'c::linorder, 'v, 'h) site \<Rightarrow> ('c, 'v, 'h) turn \<Rightarrow> loop_state
     \<Rightarrow> ('e, 't, 'u, 'c, 'v, 'h) owner \<Rightarrow> (flow \<times> loop_state \<times> ('e, 't, 'u, 'c, 'v, 'h) owner) option" where
  "turn_fairness cx t lp st =
     (if lp_streak lp < command_fairness_budget then Some (FlowContinue, lp, st)
      else (let lp1 = lp\<lparr>lp_streak := 0\<rparr>
            in case tn_poll t of
                 PollEnded \<Rightarrow> Some (FlowBreak False True, lp1, st)
               | PollPending \<Rightarrow> map_option (\<lambda>st1. (FlowContinue, lp1, st1)) (drain_coalescer_due cx st)
               | PollEvent ev \<Rightarrow> do { st1 \<leftarrow> consume_source_event cx ev st;
                     st2 \<leftarrow> drain_coalescer_due cx st1;
                     Some (FlowContinue, lp1, st2) }))"

fun turn_select ::
  "('e, 't, 'u, 'w, 'c::linorder, 'v, 'h) site \<Rightarrow> ('c, 'v, 'h) arm_taken \<Rightarrow> loop_state
     \<Rightarrow> ('e, 't, 'u, 'c, 'v, 'h) owner \<Rightarrow> (flow \<times> loop_state \<times> ('e, 't, 'u, 'c, 'v, 'h) owner) option" where
  "turn_select cx TakeClose lp st = Some (FlowBreak True False, lp, st)"
| "turn_select cx TakeCloseGone lp st = Some (FlowContinue, lp\<lparr>lp_close_open := False\<rparr>, st)"
| "turn_select cx (TakeCleanup c) lp st = map_option (\<lambda>st1. (FlowContinue, lp, st1)) (apply_cleanup cx c st)"
| "turn_select cx (TakeWatch rq r) lp st =
     map_option (\<lambda>(res, st1). (case res of
           None \<Rightarrow> FlowUnwound
         | Some (_, None) \<Rightarrow> FlowContinue
         | Some (_, Some TearClose) \<Rightarrow> FlowBreak True False
         | Some (_, Some TearHandlesGone) \<Rightarrow> FlowBreak False False, lp\<lparr>lp_streak := Suc (lp_streak lp)\<rparr>, st1))
       (on_watch cx rq r st)"
| "turn_select cx (TakeUnwatch sub) lp st =
     map_option (\<lambda>(_, st1). (FlowContinue, lp\<lparr>lp_streak := Suc (lp_streak lp)\<rparr>, st1)) (on_unwatch cx sub st)"
| "turn_select cx TakeCommandsGone lp st = Some (FlowBreak False False, lp\<lparr>lp_streak := Suc (lp_streak lp)\<rparr>, st)"
| "turn_select cx (TakeSync req) lp st = admit_sync cx req lp st"
| "turn_select cx TakeSyncGone lp st = Some (FlowContinue, lp\<lparr>lp_sync_open := False\<rparr>, st)"
| "turn_select cx (TakeSource ev) lp st =
     map_option (\<lambda>st1. (FlowContinue, lp\<lparr>lp_streak := 0\<rparr>, st1)) (consume_source_event cx ev st)"
| "turn_select cx TakeSourceEnded lp st = Some (FlowBreak False True, lp\<lparr>lp_streak := 0\<rparr>, st)"
| "turn_select cx TakeTimer lp st =
     map_option (\<lambda>st1. (FlowContinue, lp\<lparr>lp_streak := 0\<rparr>, st1)) (drain_coalescer_due cx st)"

definition run_turn ::
  "('e, 't, 'u, 'w, 'c::linorder, 'v, 'h) site \<Rightarrow> ('c, 'v, 'h) turn \<Rightarrow> loop_state
     \<Rightarrow> ('e, 't, 'u, 'c, 'v, 'h) owner \<Rightarrow> (flow \<times> loop_state \<times> ('e, 't, 'u, 'c, 'v, 'h) owner) option" where
  "run_turn cx t lp st =
     do { (fl1, lp1, st1) \<leftarrow> turn_head cx t lp st;
          if fl1 \<noteq> FlowContinue then Some (fl1, lp1, st1)
          else do { (fl2, lp2, st2) \<leftarrow> turn_fairness cx t lp1 st1;
                    if fl2 \<noteq> FlowContinue then Some (fl2, lp2, st2)
                    else do { (deadline, st3) \<leftarrow> loop_deadline cx st2;
                              turn_select cx (tn_arm t) lp2 st3 } } }"

text \<open>The loop: turns until one breaks.\<close>

fun run_loop ::
  "('e, 't, 'u, 'w, 'c::linorder, 'v, 'h) site \<Rightarrow> ('c, 'v, 'h) turn list \<Rightarrow> loop_state
     \<Rightarrow> ('e, 't, 'u, 'c, 'v, 'h) owner \<Rightarrow> (flow \<times> loop_state \<times> ('e, 't, 'u, 'c, 'v, 'h) owner) option" where
  "run_loop cx [] lp st = Some (FlowContinue, lp, st)"
| "run_loop cx (t # ts) lp st =
     do { (fl, lp1, st1) \<leftarrow> run_turn cx t lp st;
          if fl = FlowContinue then run_loop cx ts lp1 st1 else Some (fl, lp1, st1) }"

section \<open>Teardown\<close>

text \<open>
  A round of the drain: the grants queued at its top, whether a grant arrives before the exit test, those
  that slip in before the cut, and what ends the round's wait (\<open>WakeSleep\<close>: the retry sleep). Once the
  cleanup channel is cut (\<open>cleanup_open\<close> false) no grant arrives any more.
\<close>

datatype round_wake = WakeClose | WakeCleanup cleanup | WakeSleep

record drain_round =
  dr_cleanups :: "cleanup list"
  dr_pending :: bool
  dr_raced :: "cleanup list"
  dr_wake :: round_wake

datatype drain_end = DrainInterrupted | DrainDone | DrainUnfinished

fun drain_owed_before_shutdown ::
  "('e, 't, 'u, 'w, 'c::linorder, 'v, 'h) site \<Rightarrow> drain_round list \<Rightarrow> bool \<Rightarrow> bool
     \<Rightarrow> ('e, 't, 'u, 'c, 'v, 'h) owner \<Rightarrow> (drain_end \<times> ('e, 't, 'u, 'c, 'v, 'h) owner) option" where
  "drain_owed_before_shutdown cx [] close_open cleanup_open st = Some (DrainUnfinished, st)"
| "drain_owed_before_shutdown cx (r # rs) close_open cleanup_open st =
     (case (if close_open then probe_close_signal cx st else (None, st)) of
        (close, st1) \<Rightarrow>
          if close = Some CloseRequested then Some (DrainInterrupted, st1)
          else do { st2 \<leftarrow> drain_pending_cleanup cx (if cleanup_open then dr_cleanups r else []) st1;
                    let st3 = drain_owed_once cx st2;
                    let open = (close_open \<and> close = None);
                    if (ow_needs st3 = [] \<and> \<not> (cleanup_open \<and> dr_pending r)) \<or>
                       wd_closed (st_world cx) (ow_world st3)
                    then do { st4 \<leftarrow> drain_pending_cleanup cx (if cleanup_open then dr_raced r else []) st3;
                              let st5 = drain_owed_once cx st4;
                              if ow_needs st5 = [] \<or> wd_closed (st_world cx) (ow_world st5) then Some (DrainDone, st5)
                              else drain_owed_before_shutdown cx rs open False st5 }
                    else (case dr_wake r of
                            WakeClose \<Rightarrow> if open then Some (DrainInterrupted, st3)
                                         else drain_owed_before_shutdown cx rs open cleanup_open st3
                          | WakeCleanup c \<Rightarrow>
                              if cleanup_open
                              then do { st4 \<leftarrow> apply_cleanup cx c st3;
                                        drain_owed_before_shutdown cx rs open cleanup_open st4 }
                              else drain_owed_before_shutdown cx rs open cleanup_open st3
                          | WakeSleep \<Rightarrow> drain_owed_before_shutdown cx rs open cleanup_open st3) })"

text \<open>The tail: refuse what is queued, deliver what is owed, unpublish. \<open>cs\<close> are the grants left at the cut.\<close>

definition run_tail ::
  "('e, 't, 'u, 'w, 'c::linorder, 'v, 'h) site \<Rightarrow> bool \<Rightarrow> sync_request list \<Rightarrow> drain_round list \<Rightarrow> cleanup list
     \<Rightarrow> ('e, 't, 'u, 'c, 'v, 'h) owner \<Rightarrow> (drain_end \<times> ('e, 't, 'u, 'c, 'v, 'h) owner) option" where
  "run_tail cx drain_owed reqs rounds cs st0 =
     (let st1 = reap_all_pending_syncs cx (begin_source_close cx st0);
          st2 = foldl (\<lambda>st req. answer (sq_reply req) (Inl SeClosed) st) st1 reqs
      in do { (ended, st3) \<leftarrow> (if drain_owed then drain_owed_before_shutdown cx rounds True True st2
                                else Some (DrainDone, st2));
              st4 \<leftarrow> drain_pending_cleanup cx cs st3;
              let st5 = drain_owed_once cx st4;
              Some (ended, st5\<lparr>ow_subsumer := swap_in_empty (st_radices cx) (ow_subsumer st5)\<rparr>) })"

end
