(* ===== verification/Owner_Run.thy ===== *)
theory Owner_Run
  imports Owner_Watch Run
begin

text \<open>
  The owner over time. \<open>owner_new\<close> is the owner as it is assembled; \<open>owner_step\<close> is one operation of the
  loop with a label that says what entered (\<open>Fanned\<close>) or left (\<open>Released\<close>) the books. A turn of the loop
  is a sequence of such steps whose labels its inputs determine (\<open>turn_traces\<close>), each step keeps the invariant, and an event once fanned out
  is accounted for as long as its subscription is not released: it was sent, a rescan that stands for it
  was sent or is owed, it is still held, or the coalescer merged it with another event of its path.
\<close>

section \<open>The initial owner\<close>

definition owner_new ::
  "('e, 't, 'u, 'w, 'c, 'v, 'h) site \<Rightarrow> 'e \<Rightarrow> u64 \<Rightarrow> 'c filter_store \<Rightarrow> debounce_config option
     \<Rightarrow> ('e, 't, 'u, 'c, 'v, 'h) owner" where
  "owner_new cx e inst slot_store debounce =
     \<lparr>ow_world = e, ow_disposals = \<lparr>sd_unwound = False, sd_forgotten = False\<rparr>,
      ow_subsumer = subsumer_new (st_radices cx) inst, ow_epochs = ledger_new, ow_slots = slot_store,
      ow_filters = Map.empty, ow_payload_forgotten = False, ow_needs = [], ow_suppressed = [],
      ow_unclaimed = {}, ow_cursor = None, ow_debounce = debounce,
      ow_coalescer = map_option (\<lambda>d. coalescer_new (Some d)) debounce, ow_pending = [], ow_seq = 0,
      ow_serial = Map.empty, ow_gen = 0, ow_closing = False,
      ow_observed = \<lparr>ob_seen = {}, ob_order = []\<rparr>, ow_answers = []\<rparr>"

context delivery
begin

lemma owner_new_inv:
  assumes "wd_sent (st_world cx) e = []"
  shows "ow_inv cx (owner_new cx e inst slot_store debounce)"
proof -
  have "sm_inv (st_radices cx) (subsumer_new (st_radices cx) inst)" by (rule eng.sm_inv_new)
  then show ?thesis using assms
    by (auto simp: ow_inv_def owner_new_def planes_ok_def debt_def stream_ok_def sent_def buffer_ok_def
        buffered_def split: option.splits)
qed

end

section \<open>Claims and grants\<close>

lemma claim_debt:
  assumes "planes_ok st" and "apply_cleanup cx (Claim s) st = Some st'"
  shows "debt st' = debt st" and "planes_ok st'"
proof -
  obtain sup nds where p: "promote s (ow_suppressed st) (ow_needs st) = (sup, nds)" by fastforce
  have st': "st' = st\<lparr>ow_unclaimed := ow_unclaimed st - {s}, ow_suppressed := sup, ow_needs := nds\<rparr>"
    using assms(2) p by simp
  have sup: "map_of sup = (map_of (ow_suppressed st))(s := None)" using promote_fst [of s] p by (metis fst_conv)
  have nds: "map_of nds x = (if x = s \<and> map_of (ow_suppressed st) s \<noteq> None
      then map_of (ow_suppressed st) s else map_of (ow_needs st) x)" for x
  proof (cases "map_of (ow_suppressed st) s")
    case None
    then show ?thesis using promote_snd [of s "ow_suppressed st" "ow_needs st" x] p by simp
  next
    case (Some q)
    then have "map_of (ow_needs st) s = None" using assms(1) by (auto simp: planes_ok_def)
    then show ?thesis using promote_snd [of s "ow_suppressed st" "ow_needs st" x] p Some
      by (simp add: map_of_merge_max)
  qed
  show "debt st' = debt st"
    unfolding st' debt_def using sup nds assms(1)
    by (auto simp: fun_eq_iff map_add_def planes_ok_def split: option.splits)
  have "btm_ok sup \<and> btm_ok nds"
    using p assms(1) by (auto simp: promote_def planes_ok_def btm_ok_remove btm_ok_merge_max split: option.splits)
  then show "planes_ok st'" using assms(1) nds
    by (auto simp: st' planes_ok_def sup split: if_splits)
qed

lemma claim_upholds:
  assumes inv: "ow_inv cx st" and run: "apply_cleanup cx (Claim s) st = Some st'"
  shows "upholds cx st st'"
proof -
  have pl: "planes_ok st" using inv by (simp add: ow_inv_def)
  note d = claim_debt [OF pl run]
  obtain sup nds where "promote s (ow_suppressed st) (ow_needs st) = (sup, nds)" by fastforce
  then have st': "st' = st\<lparr>ow_unclaimed := ow_unclaimed st - {s}, ow_suppressed := sup, ow_needs := nds\<rparr>"
    using run by simp
  have f: "ow_subsumer st' = ow_subsumer st" "ow_epochs st' = ow_epochs st" "ow_coalescer st' = ow_coalescer st"
    "ow_unclaimed st' \<subseteq> ow_unclaimed st" "ow_world st' = ow_world st" by (auto simp: st')
  have r: "sent cx st' = sent cx st" "shut cx st' = shut cx st" "buffered st' = buffered st"
    "minted st' = minted st" "ev_ok st' = ev_ok st"
    using f by (auto simp: sent_def shut_def buffered_def minted_def ev_ok_def fun_eq_iff)
  have "ow_inv cx st'" using inv d f r
    by (auto simp: ow_inv_def debt_ok_def stream_ok_def buffer_ok_def)
  moreover have "settled cx st' = settled cx st"
    using d r by (auto simp: settled_def rescanned_def owed_def fun_eq_iff)
  ultimately show ?thesis using r by (simp add: upholds_def keeps_settled_def)
qed

lemma grant_inv:
  assumes inv: "ow_inv cx st" and g: "granted st sub"
  defines "st' \<equiv> st\<lparr>ow_unclaimed := insert sub (ow_unclaimed st)\<rparr>"
  shows "upholds cx st st'"
proof -
  have m: "minted st sub" using inv g live_minted by (auto simp: ow_inv_def granted_def)
  have "map_of (ow_needs st) sub = None" using g by (auto simp: granted_def debt_def map_add_None)
  then have pl: "planes_ok st'" using inv by (auto simp: ow_inv_def planes_ok_def st'_def)
  have r: "sent cx st' = sent cx st" "shut cx st' = shut cx st" "buffered st' = buffered st"
    "minted st' = minted st" "ev_ok st' = ev_ok st" "debt st' = debt st" "ow_subsumer st' = ow_subsumer st"
    "ow_epochs st' = ow_epochs st" "ow_coalescer st' = ow_coalescer st"
    "ow_unclaimed st' = insert sub (ow_unclaimed st)"
    by (auto simp: st'_def sent_def shut_def buffered_def minted_def ev_ok_def debt_def fun_eq_iff)
  have "ow_inv cx st'" using inv pl r m
    by (auto simp: ow_inv_def debt_ok_def stream_ok_def buffer_ok_def)
  moreover have "settled cx st' = settled cx st"
    using r by (auto simp: settled_def rescanned_def owed_def fun_eq_iff)
  ultimately show ?thesis using r by (simp add: upholds_def keeps_settled_def)
qed

lemma loop_deadline_cases:
  assumes "loop_deadline cx st = Some (d, st')"
  shows "st' = st \<or> (\<exists>now. read_clock cx st = (now, st'))"
  using assms by (auto simp: loop_deadline_def Let_def split: if_splits prod.splits)

context delivery
begin

lemma quiet_deadline: "loop_deadline cx st = Some (d, st') \<Longrightarrow> quiet cx st st'"
  using loop_deadline_cases [of cx st d st'] quiet_clock by fastforce

lemma quiet_cookie: "begin_cookie cx sub root dir tok g r st = (a, st') \<Longrightarrow> quiet cx st st'"
proof -
  assume b: "begin_cookie cx sub root dir tok g r st = (a, st')"
  obtain step e where w: "wd_begin_sync (st_world cx) root dir tok (ow_world st) = (step, e)" by fastforce
  let ?st = "st\<lparr>ow_world := e\<rparr>"
  have q: "quiet cx st ?st" using wd.begin_sync [of "ow_world st" root dir tok] w by (simp add: quiet_world)
  have ab: "quiet cx s (abandon_sync cx root tok s)" for s by (simp add: abandon_sync_def quiet_offer)
  have cl: "quiet cx ?st (abandon_sync cx root tok (begin_source_close cx (call_source cx DropRaced ?st)))"
    by (rule quiet_trans [OF quiet_trans [OF quiet_call quiet_begin_close] ab])
  have an: "quiet cx ?st (answer r x ?st)" for x by simp
  have "st' = abandon_sync cx root tok (begin_source_close cx (call_source cx DropRaced ?st)) \<or>
      st' = abandon_sync cx root tok ?st \<or> (\<exists>ck. st' = admit_begun_cookie cx ck sub root g r ?st) \<or>
      (\<exists>x. st' = answer r x ?st)"
    using b w by (auto simp: begin_cookie_def Let_def split: sync_step.splits sum.splits begun.splits)
  then show "quiet cx st st'"
  proof (elim disjE exE)
    assume "st' = abandon_sync cx root tok (begin_source_close cx (call_source cx DropRaced ?st))"
    then show ?thesis using quiet_trans [OF q cl] by simp
  next
    assume "st' = abandon_sync cx root tok ?st"
    then show ?thesis using quiet_trans [OF q ab] by simp
  next
    fix ck assume "st' = admit_begun_cookie cx ck sub root g r ?st"
    then show ?thesis using quiet_trans [OF q quiet_admit_cookie] by simp
  next
    fix x assume "st' = answer r x ?st"
    then show ?thesis using quiet_trans [OF q an] by simp
  qed
qed

lemma quiet_sync:
  assumes "on_sync cx sub g r st = Some (a, st')"
  shows "quiet cx st st'"
proof -
  let ?p = "prune_abandoned_syncs cx st"
  let ?s = "?p\<lparr>ow_seq := the (checked_add (ow_seq ?p) 1)\<rparr>"
  have an: "quiet cx s (answer r x s)" for x s by simp
  obtain nonce e where n: "wd_nonce (st_world cx) (ow_world ?s) = (nonce, e)" by fastforce
  let ?n = "?s\<lparr>ow_world := e\<rparr>"
  have qn: "quiet cx st ?n"
  proof -
    have "quiet cx ?s ?n" using wd.nonce [of "ow_world ?s"] n by (simp add: quiet_world)
    then show ?thesis by (rule quiet_trans [OF quiet_trans [OF quiet_prune quiet_fields(3)]])
  qed
  have "st' = st \<or> (\<exists>x. st' = answer r x st) \<or> (\<exists>x. st' = answer r x ?p) \<or> (\<exists>x. st' = answer r x ?n) \<or>
      (\<exists>root dir tok b. begin_cookie cx sub root dir tok g r ?n = (b, st'))"
    using assms n
    by (auto simp: on_sync_def Let_def split: if_splits option.splits prod.splits)
  then show ?thesis
  proof (elim disjE exE)
    assume "st' = st" then show ?thesis by simp
  next
    fix x assume "st' = answer r x st" then show ?thesis using an by simp
  next
    fix x assume "st' = answer r x ?p" then show ?thesis using quiet_trans [OF quiet_prune an] by simp
  next
    fix x assume "st' = answer r x ?n" then show ?thesis using quiet_trans [OF qn an] by simp
  next
    fix root dir tok b assume "begin_cookie cx sub root dir tok g r ?n = (b, st')"
    then show ?thesis using quiet_trans [OF qn quiet_cookie] by blast
  qed
qed

lemma apply_cleanup_inv:
  assumes inv: "ow_inv cx st"
  obtains st' where "apply_cleanup cx c st = Some st'" "ow_inv cx st'" "prefix (sent cx st) (sent cx st')"
    "shut cx st \<longrightarrow> shut cx st'"
    "\<forall>x. settled cx st x \<and> c \<noteq> DropOrphan (ev_subscription x) \<longrightarrow> settled cx st' x"
proof (cases c)
  case (Claim s)
  obtain st' where r: "apply_cleanup cx (Claim s) st = Some st'" by (cases "promote s (ow_suppressed st) (ow_needs st)") simp
  show thesis using that [of st'] claim_upholds [OF inv r] r Claim
    by (simp add: upholds_def keeps_settled_def)
next
  case (DropOrphan s)
  obtain res st' where "release_subscription cx s st = Some (res, st')" "ow_inv cx st'"
    "\<forall>x. ev_subscription x \<noteq> s \<and> settled cx st x \<longrightarrow> settled cx st' x" "sent cx st' = sent cx st"
    "shut cx st \<longrightarrow> shut cx st'"
    using release_inv [OF inv, of s] by metis
  then show thesis by (intro that [of st']) (auto simp: DropOrphan)
qed

lemma drain_cleanup_inv:
  assumes "ow_inv cx st"
  obtains st' where "drain_pending_cleanup cx cs st = Some st'" "ow_inv cx st'"
    "prefix (sent cx st) (sent cx st')" "shut cx st \<longrightarrow> shut cx st'"
  using assms
proof (induction cs arbitrary: st thesis)
  case (Cons c cs)
  obtain st1 where c: "apply_cleanup cx c st = Some st1" "ow_inv cx st1" "prefix (sent cx st) (sent cx st1)"
    "shut cx st \<longrightarrow> shut cx st1" by (rule apply_cleanup_inv [OF Cons.prems(2)])
  obtain st2 where "drain_pending_cleanup cx cs st1 = Some st2" "ow_inv cx st2"
    "prefix (sent cx st1) (sent cx st2)" "shut cx st1 \<longrightarrow> shut cx st2" using Cons.IH [OF _ c(2)] by blast
  then show ?case using Cons.prems(1) [of st2] c by (auto intro: prefix_order.trans)
qed simp

end

section \<open>Steps\<close>

datatype ('c, 'v) label =
    Idle
  | Fanned "('c, 'v) event set" "('c, 'v) event set"
  | Released subscription

text \<open>\<open>Fanned\<close> names what a source event was fanned out to and what it found buffered.\<close>

inductive owner_step ::
  "('e, 't, 'u, 'w, 'c::linorder, 'v, 'h) site \<Rightarrow> ('e, 't, 'u, 'c, 'v, 'h) owner \<Rightarrow> ('c, 'v) label
     \<Rightarrow> ('e, 't, 'u, 'c, 'v, 'h) owner \<Rightarrow> bool" for cx where
  step_prune: "owner_step cx st Idle (prune_abandoned_syncs cx st)"
| step_probe: "probe_close_signal cx st = (r, st') \<Longrightarrow> owner_step cx st Idle st'"
| step_sync: "on_sync cx sub g rid st = Some (a, st') \<Longrightarrow> owner_step cx st Idle st'"
| step_claim: "apply_cleanup cx (Claim sub) st = Some st' \<Longrightarrow> owner_step cx st Idle st'"
| step_orphan: "apply_cleanup cx (DropOrphan sub) st = Some st' \<Longrightarrow> owner_step cx st (Released sub) st'"
| step_flush: "owner_step cx st Idle (flush_pending_rescans cx st)"
| step_due: "drain_coalescer_due cx st = Some st' \<Longrightarrow> owner_step cx st Idle st'"
| step_deadline: "loop_deadline cx st = Some (d, st') \<Longrightarrow> owner_step cx st Idle st'"
| step_consume: "consume_source_event cx ev st = Some st' \<Longrightarrow>
    owner_step cx st (Fanned (set (deliveries cx ev st)) (set_mset (buffered st))) st'"
| step_refuse: "reconcile_watch cx rq st = Some (Inl stop, st') \<Longrightarrow> owner_step cx st Idle st'"
| step_grant: "reconcile_watch cx rq st = Some (Inr sub, st') \<Longrightarrow>
    owner_step cx st Idle (st'\<lparr>ow_unclaimed := insert sub (ow_unclaimed st')\<rparr>)"
| step_bounce: "reconcile_watch cx rq st = Some (Inr sub, st1) \<Longrightarrow>
    release_subscription cx sub st1 = Some (res, st') \<Longrightarrow> owner_step cx st (Released sub) st'"
| step_unwatch: "on_unwatch cx sub st = Some (res, st') \<Longrightarrow> owner_step cx st (Released sub) st'"

inductive owner_run ::
  "('e, 't, 'u, 'w, 'c::linorder, 'v, 'h) site \<Rightarrow> ('e, 't, 'u, 'c, 'v, 'h) owner \<Rightarrow> ('c, 'v) label list
     \<Rightarrow> ('e, 't, 'u, 'c, 'v, 'h) owner \<Rightarrow> bool" for cx st where
  run_start: "owner_run cx st [] st"
| run_step: "owner_run cx st ls st1 \<Longrightarrow> owner_step cx st1 l st2 \<Longrightarrow> owner_run cx st (ls @ [l]) st2"

fun fanned_of :: "('c, 'v) label \<Rightarrow> ('c, 'v) event set" where
  "fanned_of (Fanned evs buf) = evs"
| "fanned_of _ = {}"

text \<open>The pairs the coalescer could merge: a buffered event and one that was fanned out on top of it.\<close>

fun met_of :: "('c, 'v) label \<Rightarrow> (('c, 'v) event \<times> ('c, 'v) event) set" where
  "met_of (Fanned evs buf) = buf \<times> evs"
| "met_of _ = {}"

definition met :: "('c, 'v) label list \<Rightarrow> (('c, 'v) event \<times> ('c, 'v) event) set" where
  "met ls = \<Union> (met_of ` set ls)"

text \<open>
  The books of a run: an event enters them when it is fanned out, and a release strikes out what its
  subscription had in them at that point. \<open>due\<close> is what a run leaves in them.
\<close>

definition books :: "('c, 'v) event set \<Rightarrow> ('c, 'v) label \<Rightarrow> ('c, 'v) event set" where
  "books D l = {x \<in> D. l \<noteq> Released (ev_subscription x)} \<union> fanned_of l"

definition due :: "('c, 'v) label list \<Rightarrow> ('c, 'v) event set" where
  "due ls = foldl books {} ls"

definition loud :: "('c, 'v) label list \<Rightarrow> ('c, 'v) label list" where
  "loud ls = filter (\<lambda>l. l \<noteq> Idle) ls"

lemma loud_append [simp]: "loud (ls @ ms) = loud ls @ loud ms"
  by (simp add: loud_def)

lemma loud_simps [simp]: "loud [] = []" "loud [Idle] = []" "loud (Idle # ls) = loud ls"
    "loud (Released s # ls) = Released s # loud ls" "loud (Fanned evs buf # ls) = Fanned evs buf # loud ls"
  by (simp_all add: loud_def)

lemma met_loud: "met (loud ls) = met ls"
  by (auto simp: met_def loud_def)

lemma books_idle: "books D Idle = D"
  by (simp add: books_def)

lemma books_loud: "foldl books D (loud ls) = foldl books D ls"
  by (induction ls arbitrary: D) (simp_all add: loud_def books_idle)

lemma books_mono: "D \<subseteq> E \<Longrightarrow> foldl books D ls \<subseteq> foldl books E ls"
proof (induction ls arbitrary: D E)
  case (Cons l ls)
  have "books D l \<subseteq> books E l" using Cons.prems by (auto simp: books_def)
  then show ?case using Cons.IH by simp
qed simp

text \<open>
  An event is accounted for when it is settled, or the coalescer merged it with an event it met on the
  same path, and the merge either cancels both or is accounted for itself.
\<close>

inductive accounted ::
  "('e, 't, 'u, 'w, 'c, 'v, 'h) site \<Rightarrow> ('e, 't, 'u, 'c, 'v, 'h) owner
     \<Rightarrow> (('c, 'v) event \<times> ('c, 'v) event) set \<Rightarrow> ('c, 'v) event \<Rightarrow> bool" for cx st M where
  acc_settled: "settled cx st x \<Longrightarrow> accounted cx st M x"
| acc_merged: "(a, b) \<in> M \<Longrightarrow> same_path a b \<Longrightarrow> x = a \<or> x = b \<Longrightarrow>
    (\<forall>z. collapsed a b = Some z \<longrightarrow> accounted cx st M z) \<Longrightarrow> accounted cx st M x"

lemma collapsed_sub: "same_path a b \<Longrightarrow> collapsed a b = Some z \<Longrightarrow> ev_subscription z = ev_subscription a"
  by (auto simp: collapsed_def collapsed_event_def same_path_def synthetic_def split: if_splits collapse.splits)

text \<open>What one step may do to the books.\<close>

definition step_ok ::
  "('e, 't, 'u, 'w, 'c::linorder, 'v, 'h) site \<Rightarrow> ('e, 't, 'u, 'c, 'v, 'h) owner \<Rightarrow> ('c, 'v) label
     \<Rightarrow> ('e, 't, 'u, 'c, 'v, 'h) owner \<Rightarrow> bool" where
  "step_ok cx st l st' \<longleftrightarrow> ow_inv cx st' \<and> prefix (sent cx st) (sent cx st') \<and> (shut cx st \<longrightarrow> shut cx st') \<and>
     (\<forall>x. (settled cx st x \<or> x \<in> fanned_of l) \<and> l \<noteq> Released (ev_subscription x) \<longrightarrow> accounted cx st' (met_of l) x)"

lemma upholds_ok: "upholds cx st st' \<Longrightarrow> fanned_of l = {} \<Longrightarrow> step_ok cx st l st'"
  by (auto simp: upholds_def step_ok_def keeps_settled_def intro: acc_settled)

context delivery
begin

lemma release_ok:
  assumes inv: "ow_inv cx st" and run: "release_subscription cx sub st = Some (res, st')"
  shows "step_ok cx st (Released sub) st'"
proof -
  obtain res1 st1 where r: "release_subscription cx sub st = Some (res1, st1)" "ow_inv cx st1"
    "\<forall>x. ev_subscription x \<noteq> sub \<and> settled cx st x \<longrightarrow> settled cx st1 x" "sent cx st1 = sent cx st"
    "shut cx st \<longrightarrow> shut cx st1"
    using release_inv [OF inv, of sub] by metis
  have "st1 = st'" using r(1) run by simp
  with r show ?thesis by (auto simp: step_ok_def intro: acc_settled)
qed

lemma consume_ok:
  assumes inv: "ow_inv cx st" and run: "consume_source_event cx ev st = Some st'"
  shows "step_ok cx st (Fanned (set (deliveries cx ev st)) (set_mset (buffered st))) st'"
proof -
  obtain st1 where c: "consume_source_event cx ev st = Some st1" "ow_inv cx st1"
    "prefix (sent cx st) (sent cx st1)" "shut cx st \<longrightarrow> shut cx st1"
    "\<forall>x. settled cx st x \<or> x \<in> set (deliveries cx ev st) \<longrightarrow>
       settled cx st1 x \<or> absorbed (settled cx st1) (buffered st) (deliveries cx ev st) x"
    using consume_upholds [OF inv, of ev] by metis
  have s: "st1 = st'" using c(1) run by simp
  let ?M = "met_of (Fanned (set (deliveries cx ev st)) (set_mset (buffered st)))"
  have "accounted cx st' ?M x" if "settled cx st x \<or> x \<in> set (deliveries cx ev st)" for x
  proof -
    from that c(5) s consider "settled cx st' x"
      | "absorbed (settled cx st') (buffered st) (deliveries cx ev st) x" by blast
    then show ?thesis
    proof cases
      case 1
      then show ?thesis by (rule acc_settled)
    next
      case 2
      then obtain a b where ab: "a \<in># buffered st" "b \<in> set (deliveries cx ev st)" "same_path a b"
          "x = a \<or> x = b" "\<forall>z. collapsed a b = Some z \<longrightarrow> settled cx st' z"
        unfolding absorbed_def by blast
      have "(a, b) \<in> ?M" using ab(1,2) by simp
      then show ?thesis using ab(3,4,5) by (blast intro: acc_merged acc_settled)
    qed
  qed
  then show ?thesis using c s by (simp add: step_ok_def)
qed

lemma step_ok:
  assumes "owner_step cx st l st'" and "ow_inv cx st"
  shows "step_ok cx st l st'"
  using assms
proof cases
  case step_prune
  then show ?thesis using quiet_upholds [OF quiet_prune assms(2)] by (simp add: upholds_ok)
next
  case (step_probe r)
  then show ?thesis using quiet_upholds [OF quiet_probe assms(2)] by (simp add: upholds_ok)
next
  case (step_sync sub g rid a)
  then show ?thesis using quiet_upholds [OF quiet_sync assms(2)] by (simp add: upholds_ok)
next
  case (step_claim sub)
  then show ?thesis using claim_upholds [OF assms(2)] by (simp add: upholds_ok)
next
  case (step_orphan sub)
  then show ?thesis using release_ok [OF assms(2), of sub] by auto
next
  case step_flush
  then show ?thesis using serves_upholds [OF flush_pending_serves [OF assms(2)]] by (simp add: upholds_ok)
next
  case step_due
  obtain st1 where "drain_coalescer_due cx st = Some st1" "progress cx st st1" "keeps_settled cx st st1"
    by (rule drain_due_progress [OF assms(2)])
  then have "upholds cx st st'" using step_due serves_upholds [OF progress_serves] by simp
  then show ?thesis using step_due by (simp add: upholds_ok)
next
  case (step_deadline d)
  then show ?thesis using quiet_upholds [OF quiet_deadline assms(2)] by (simp add: upholds_ok)
next
  case (step_consume ev)
  then show ?thesis using consume_ok [OF assms(2)] by simp
next
  case (step_refuse rq stop)
  then show ?thesis using reconcile_upholds [OF assms(2)] by (simp add: upholds_ok)
next
  case (step_grant rq sub st1)
  then have "upholds cx st st1" "granted st1 sub" using reconcile_upholds [OF assms(2)] by auto
  then have "upholds cx st st'" using grant_inv upholds_trans upholds_inv step_grant(2) by blast
  then show ?thesis using step_grant by (simp add: upholds_ok)
next
  case (step_bounce rq sub st1 res)
  then have u: "upholds cx st st1" using reconcile_upholds [OF assms(2)] by auto
  have "step_ok cx st1 (Released sub) st'" using release_ok [OF upholds_inv [OF u] step_bounce(3)] .
  then show ?thesis using u step_bounce(1)
    by (auto simp: step_ok_def upholds_def keeps_settled_def intro: prefix_order.trans)
next
  case (step_unwatch sub res)
  then show ?thesis using release_ok [OF assms(2), of sub] by (simp add: on_unwatch_def)
qed

lemma run_ok:
  assumes "owner_run cx st ls st'" and "ow_inv cx st"
  shows "ow_inv cx st' \<and> prefix (sent cx st) (sent cx st') \<and> (shut cx st \<longrightarrow> shut cx st') \<and>
    (\<forall>x \<in> foldl books {x. settled cx st x} ls. accounted cx st' (met ls) x)"
  using assms(1)
proof (induction rule: owner_run.induct)
  case run_start
  then show ?case using assms(2) by (auto intro: acc_settled)
next
  case (run_step ls st1 l st2)
  let ?D = "foldl books {x. settled cx st x} ls"
  have ok: "step_ok cx st1 l st2" using step_ok [OF run_step(2)] run_step.IH by simp
  have M: "met ls \<subseteq> met (ls @ [l])" "met_of l \<subseteq> met (ls @ [l])" by (auto simp: met_def)
  have grow: "accounted cx st2 (met (ls @ [l])) x" if "accounted cx st2 (met_of l) x" for x
    using that by (induction rule: accounted.induct) (use M in \<open>blast intro: accounted.intros\<close>)+
  have keep: "accounted cx st2 (met (ls @ [l])) x"
    if "accounted cx st1 (met ls) x" and "l \<noteq> Released (ev_subscription x)" for x
    using that
  proof (induction rule: accounted.induct)
    case (acc_settled x)
    then show ?case using ok grow by (simp add: step_ok_def)
  next
    case (acc_merged a b x)
    have "accounted cx st2 (met (ls @ [l])) z" if z: "collapsed a b = Some z" for z
    proof -
      have "ev_subscription z = ev_subscription x"
        using collapsed_sub [OF acc_merged(2) z] acc_merged(2,3) by (auto simp: same_path_def)
      then show ?thesis using acc_merged(4,5) z by auto
    qed
    then show ?case using acc_merged(1,2,3) M by (blast intro: accounted.acc_merged)
  qed
  have "accounted cx st2 (met (ls @ [l])) x" if "x \<in> foldl books {x. settled cx st x} (ls @ [l])" for x
  proof (cases "x \<in> fanned_of l")
    case True
    then have "l \<noteq> Released (ev_subscription x)" by (cases l) simp_all
    then show ?thesis using True ok grow by (simp add: step_ok_def)
  next
    case False
    then have "x \<in> ?D" "l \<noteq> Released (ev_subscription x)" using that by (simp_all add: books_def)
    then show ?thesis using keep run_step.IH by blast
  qed
  then show ?case using ok run_step.IH by (auto simp: step_ok_def intro: prefix_order.trans)
qed

end

section \<open>A turn is a run\<close>

lemma run_trans:
  assumes "owner_run cx st1 ms st2" and "owner_run cx st ls st1"
  shows "owner_run cx st (ls @ ms) st2"
  using assms(1)
proof (induction rule: owner_run.induct)
  case run_start
  then show ?case using assms(2) by simp
next
  case (run_step ms st1 l st2)
  then show ?case using owner_run.run_step [of cx st "ls @ ms" st1 l st2] by simp
qed

text \<open>
  What the turns of the loop enter in the books: the grants that were dropped, the events taken from the
  source with what they were fanned out to, the subscriptions unwatched, and a watch whose requester
  had gone.
\<close>

fun cleanup_label :: "cleanup \<Rightarrow> ('c, 'v) label" where
  "cleanup_label (Claim sub) = Idle"
| "cleanup_label (DropOrphan sub) = Released sub"

definition taken_label ::
  "('e, 't, 'u, 'w, 'c::linorder, 'v, 'h) site \<Rightarrow> ('c, 'h) source_event \<Rightarrow> ('e, 't, 'u, 'c, 'v, 'h) owner
     \<Rightarrow> ('c, 'v) label" where
  "taken_label cx ev st = Fanned (set (deliveries cx ev st)) (set_mset (buffered st))"

definition fairness_labels ::
  "('e, 't, 'u, 'w, 'c::linorder, 'v, 'h) site \<Rightarrow> ('c, 'v, 'h) turn \<Rightarrow> loop_state
     \<Rightarrow> ('e, 't, 'u, 'c, 'v, 'h) owner \<Rightarrow> ('c, 'v) label list" where
  "fairness_labels cx t lp st =
     (if lp_streak lp < command_fairness_budget then []
      else case tn_poll t of PollEvent ev \<Rightarrow> [taken_label cx ev st] | _ \<Rightarrow> [])"

fun select_labels ::
  "('e, 't, 'u, 'w, 'c::linorder, 'v, 'h) site \<Rightarrow> ('c, 'v, 'h) arm_taken \<Rightarrow> ('e, 't, 'u, 'c, 'v, 'h) owner
     \<Rightarrow> ('c, 'v) label list" where
  "select_labels cx (TakeCleanup c) st = [cleanup_label c]"
| "select_labels cx (TakeWatch rq r) st = (case reconcile_watch cx rq st of
     Some (Inr sub, st1) \<Rightarrow> if wd_canceled (st_world cx) (ow_world st1) r then [Released sub] else []
   | _ \<Rightarrow> [])"
| "select_labels cx (TakeUnwatch sub) st = [Released sub]"
| "select_labels cx (TakeSource ev) st = [taken_label cx ev st]"
| "select_labels cx _ st = []"

definition turn_labels ::
  "('e, 't, 'u, 'w, 'c::linorder, 'v, 'h) site \<Rightarrow> ('c, 'v, 'h) turn \<Rightarrow> loop_state
     \<Rightarrow> ('e, 't, 'u, 'c, 'v, 'h) owner \<Rightarrow> ('c, 'v) label list" where
  "turn_labels cx t lp st =
     (case turn_head cx t lp st of None \<Rightarrow> [] | Some (fl1, lp1, st1) \<Rightarrow>
        if fl1 \<noteq> FlowContinue then []
        else map cleanup_label (tn_cleanups t) @ fairness_labels cx t lp1 st1 @
          (case turn_fairness cx t lp1 st1 of None \<Rightarrow> [] | Some (fl2, lp2, st2) \<Rightarrow>
             if fl2 \<noteq> FlowContinue then []
             else case loop_deadline cx st2 of None \<Rightarrow> []
                  | Some (d, st3) \<Rightarrow> select_labels cx (tn_arm t) st3))"

fun loop_labels ::
  "('e, 't, 'u, 'w, 'c::linorder, 'v, 'h) site \<Rightarrow> ('c, 'v, 'h) turn list \<Rightarrow> loop_state
     \<Rightarrow> ('e, 't, 'u, 'c, 'v, 'h) owner \<Rightarrow> ('c, 'v) label list" where
  "loop_labels cx [] lp st = []"
| "loop_labels cx (t # ts) lp st = turn_labels cx t lp st @
     (case run_turn cx t lp st of None \<Rightarrow> [] | Some (fl, lp1, st1) \<Rightarrow>
        if fl = FlowContinue then loop_labels cx ts lp1 st1 else [])"

text \<open>A run leads from one state to the other and enters the given labels, in that order and no other.\<close>

definition traces ::
  "('e, 't, 'u, 'w, 'c::linorder, 'v, 'h) site \<Rightarrow> ('e, 't, 'u, 'c, 'v, 'h) owner \<Rightarrow> ('c, 'v) label list
     \<Rightarrow> ('e, 't, 'u, 'c, 'v, 'h) owner \<Rightarrow> bool" where
  "traces cx st ms st' \<longleftrightarrow> (\<exists>ls. owner_run cx st ls st' \<and> loud ls = loud ms)"

lemma traces_refl [simp]: "traces cx st [] st"
  using run_start by (fastforce simp: traces_def)

lemma traces_trans: "traces cx st ms st1 \<Longrightarrow> traces cx st1 ns st2 \<Longrightarrow> traces cx st (ms @ ns) st2"
  unfolding traces_def by (metis loud_append run_trans)

lemma traces_step: "owner_step cx st l st' \<Longrightarrow> traces cx st [l] st'"
proof -
  assume "owner_step cx st l st'"
  then have "owner_run cx st ([] @ [l]) st'" by (rule run_step [OF run_start])
  then show ?thesis unfolding traces_def by (intro exI [of _ "[l]"]) simp
qed

lemma traces_idle: "owner_step cx st Idle st' \<Longrightarrow> traces cx st [] st'"
  using traces_step by (fastforce simp: traces_def)

lemma traces_loud: "traces cx st ls st' \<Longrightarrow> loud ms = loud ls \<Longrightarrow> traces cx st ms st'"
  by (simp add: traces_def)

lemmas idle_traces = step_prune [THEN traces_idle] step_probe [THEN traces_idle] step_sync [THEN traces_idle]
  step_claim [THEN traces_idle] step_flush [THEN traces_idle] step_due [THEN traces_idle]
  step_deadline [THEN traces_idle] step_refuse [THEN traces_idle] step_grant [THEN traces_idle]

lemmas loud_traces = step_orphan [THEN traces_step] step_bounce [THEN traces_step]
  step_unwatch [THEN traces_step] step_consume [THEN traces_step]

lemma cleanup_traces: "apply_cleanup cx c st = Some st' \<Longrightarrow> traces cx st [cleanup_label c] st'"
  by (cases c) (auto intro: loud_traces(1) traces_loud [OF idle_traces(4)])

lemma drain_cleanup_traces:
  "drain_pending_cleanup cx cs st = Some st' \<Longrightarrow> traces cx st (map cleanup_label cs) st'"
proof (induction cs arbitrary: st)
  case (Cons c cs)
  then obtain st1 where a: "apply_cleanup cx c st = Some st1" and d: "drain_pending_cleanup cx cs st1 = Some st'"
    by (auto split: Option.bind_splits)
  show ?case using traces_trans [OF cleanup_traces [OF a] Cons.IH [OF d]] by simp
qed simp

lemma admit_sync_traces: "admit_sync cx req lp st = Some (fl, lp', st') \<Longrightarrow> traces cx st [] st'"
  by (auto simp: admit_sync_def intro: idle_traces(3))

lemma watch_traces:
  assumes w: "on_watch cx rq r st = Some (res, st')"
  shows "traces cx st (select_labels cx (TakeWatch rq r) st) st'"
proof -
  obtain settled st1 where r: "reconcile_watch cx rq st = Some (settled, st1)"
    using w by (auto simp: on_watch_def split: Option.bind_splits)
  show ?thesis
  proof (cases settled)
    case (Inl stop)
    then have "st' = st1" using w r by (cases stop) (auto simp: on_watch_def)
    then show ?thesis using idle_traces(8) r Inl by simp
  next
    case (Inr sub)
    show ?thesis
    proof (cases "wd_canceled (st_world cx) (ow_world st1) r")
      case True
      then obtain res where "release_subscription cx sub st1 = Some (res, st')"
        using w r Inr by (auto simp: on_watch_def)
      then show ?thesis using loud_traces(2) r Inr True by simp
    next
      case False
      then have "st' = st1\<lparr>ow_unclaimed := insert sub (ow_unclaimed st1)\<rparr>" using w r Inr by (auto simp: on_watch_def)
      then show ?thesis using idle_traces(9) r Inr False by simp
    qed
  qed
qed

lemma head_traces:
  assumes "turn_head cx t lp st = Some (fl, lp', st')"
  shows "traces cx st (if fl = FlowContinue then map cleanup_label (tn_cleanups t) else []) st'"
proof -
  let ?st1 = "prune_abandoned_syncs cx st"
  obtain close st2 where p: "(if lp_close_open lp then probe_close_signal cx ?st1 else (None, ?st1)) = (close, st2)"
    by fastforce
  have "traces cx ?st1 [] st2" using p by (auto split: if_splits intro: idle_traces(2))
  then have r2: "traces cx st [] st2" using traces_trans [OF idle_traces(1)] by fastforce
  show ?thesis
  proof (cases "close = Some CloseRequested")
    case True
    then have "fl = FlowBreak True False" "st' = st2" using assms p by (simp_all add: turn_head_def Let_def)
    then show ?thesis using r2 by simp
  next
    case False
    let ?lp = "if close = Some StopHandlesGone then lp\<lparr>lp_close_open := False\<rparr> else lp"
    obtain fl2 lp2 st3 where q: "(case tn_sync t of None \<Rightarrow> Some (FlowContinue, ?lp, st2)
        | Some req \<Rightarrow> admit_sync cx req ?lp st2) = Some (fl2, lp2, st3)"
      and rest: "(if fl2 \<noteq> FlowContinue then Some (fl2, lp2, st3)
        else do { st4 \<leftarrow> drain_pending_cleanup cx (tn_cleanups t) st3;
                  Some (FlowContinue, lp2, flush_pending_rescans cx st4) }) = Some (fl, lp', st')"
      using assms p False by (auto simp: turn_head_def Let_def split: Option.bind_splits)
    have r3: "traces cx st [] st3"
    proof (cases "tn_sync t")
      case None
      then show ?thesis using q r2 by simp
    next
      case (Some req)
      then have "traces cx st2 [] st3" using q admit_sync_traces by fastforce
      then show ?thesis using traces_trans [OF r2] by fastforce
    qed
    show ?thesis
    proof (cases "fl2 = FlowContinue")
      case True
      then obtain st4 where d: "drain_pending_cleanup cx (tn_cleanups t) st3 = Some st4"
          "st' = flush_pending_rescans cx st4" "fl = FlowContinue"
        using rest by (auto split: Option.bind_splits)
      have "traces cx st3 (map cleanup_label (tn_cleanups t) @ []) st'" unfolding d(2)
        by (rule traces_trans [OF drain_cleanup_traces [OF d(1)] idle_traces(5)])
      then show ?thesis using traces_trans [OF r3] d(3) by fastforce
    next
      case False
      then show ?thesis using rest r3 by simp
    qed
  qed
qed

lemma fairness_traces:
  assumes "turn_fairness cx t lp st = Some (fl, lp', st')"
  shows "traces cx st (fairness_labels cx t lp st) st'"
proof (cases "lp_streak lp < command_fairness_budget \<or> tn_poll t = PollEnded")
  case True
  then have "st' = st" "fairness_labels cx t lp st = []"
    using assms by (auto simp: turn_fairness_def fairness_labels_def Let_def split: if_splits)
  then show ?thesis by simp
next
  case False
  then consider ev where "tn_poll t = PollEvent ev" | "tn_poll t = PollPending" by (cases "tn_poll t") auto
  then show ?thesis
  proof cases
    case (1 ev)
    then obtain st1 where c: "consume_source_event cx ev st = Some st1" "drain_coalescer_due cx st1 = Some st'"
      using assms False by (auto simp: turn_fairness_def Let_def split: Option.bind_splits)
    from traces_trans [OF loud_traces(4) [OF c(1)] idle_traces(6) [OF c(2)]] False 1
    show ?thesis by (simp add: fairness_labels_def taken_label_def)
  next
    case 2
    then have "drain_coalescer_due cx st = Some st'"
      using assms False by (auto simp: turn_fairness_def Let_def split: Option.bind_splits)
    then show ?thesis using idle_traces(6) False 2 by (simp add: fairness_labels_def)
  qed
qed

lemma select_traces:
  assumes "turn_select cx a lp st = Some (fl, lp', st')"
  shows "traces cx st (select_labels cx a st) st'"
proof (cases a)
  case (TakeWatch rq r)
  then obtain res where "on_watch cx rq r st = Some (res, st')" using assms by auto
  then show ?thesis unfolding TakeWatch by (rule watch_traces)
qed (use assms in \<open>auto simp: taken_label_def intro: idle_traces loud_traces cleanup_traces admit_sync_traces\<close>)

lemma turn_traces:
  assumes "run_turn cx t lp st = Some (fl, lp', st')"
  shows "traces cx st (turn_labels cx t lp st) st'"
proof -
  obtain fl1 lp1 st1 where h: "turn_head cx t lp st = Some (fl1, lp1, st1)"
    using assms by (auto simp: run_turn_def split: Option.bind_splits)
  note r1 = head_traces [OF h]
  show ?thesis
  proof (cases "fl1 = FlowContinue")
    case True
    then obtain fl2 lp2 st2 where f: "turn_fairness cx t lp1 st1 = Some (fl2, lp2, st2)"
      using assms h by (auto simp: run_turn_def split: Option.bind_splits)
    note r2 = traces_trans [OF r1 fairness_traces [OF f]]
    show ?thesis
    proof (cases "fl2 = FlowContinue")
      case True
      then obtain d st3 where d: "loop_deadline cx st2 = Some (d, st3)"
          "turn_select cx (tn_arm t) lp2 st3 = Some (fl, lp', st')"
        using assms h f \<open>fl1 = FlowContinue\<close> by (auto simp: run_turn_def split: Option.bind_splits)
      from traces_trans [OF traces_trans [OF r2 idle_traces(7) [OF d(1)]] select_traces [OF d(2)]]
      show ?thesis using h f d(1) True \<open>fl1 = FlowContinue\<close> by (simp add: turn_labels_def)
    next
      case False
      then show ?thesis using assms h f \<open>fl1 = FlowContinue\<close> r2 by (simp add: run_turn_def turn_labels_def)
    qed
  next
    case False
    then show ?thesis using assms h r1 by (simp add: run_turn_def turn_labels_def)
  qed
qed

lemma loop_traces: "run_loop cx ts lp st = Some (fl, lp', st') \<Longrightarrow> traces cx st (loop_labels cx ts lp st) st'"
proof (induction ts arbitrary: lp st)
  case (Cons t ts)
  then obtain fl1 lp1 st1 where t: "run_turn cx t lp st = Some (fl1, lp1, st1)"
    and r: "(if fl1 = FlowContinue then run_loop cx ts lp1 st1 else Some (fl1, lp1, st1)) = Some (fl, lp', st')"
    by (auto split: Option.bind_splits)
  note a = turn_traces [OF t]
  show ?case
  proof (cases "fl1 = FlowContinue")
    case True
    then show ?thesis using traces_trans [OF a Cons.IH] r t by simp
  next
    case False
    then show ?thesis using a r t by simp
  qed
qed simp

lemma loop_reaches: "run_loop cx ts lp st = Some (fl, lp', st') \<Longrightarrow> \<exists>ls. owner_run cx st ls st'"
  using loop_traces by (fastforce simp: traces_def)

text \<open>What the turns leave in the books is accounted for.\<close>

context delivery
begin

lemma loop_accounted:
  assumes "run_loop cx ts lp st = Some (fl, lp', st')" and "ow_inv cx st" and "x \<in> due (loop_labels cx ts lp st)"
  shows "accounted cx st' (met (loop_labels cx ts lp st)) x"
proof -
  let ?ms = "loop_labels cx ts lp st"
  obtain ls where r: "owner_run cx st ls st'" and l: "loud ls = loud ?ms"
    using loop_traces [OF assms(1)] by (auto simp: traces_def)
  have "foldl books {} ?ms = foldl books {} ls" by (metis books_loud l)
  then have "x \<in> foldl books {x. settled cx st x} ls"
    using assms(3) books_mono [of "{}" "{x. settled cx st x}" ls] by (auto simp: due_def)
  moreover have "met ?ms = met ls" by (metis met_loud l)
  ultimately show ?thesis using run_ok [OF r assms(2)] by simp
qed

end

end
