(* ===== verification/Owner_Drain.thy ===== *)
theory Owner_Drain
  imports Owner_Run
begin

text \<open>
  The teardown (\<open>drain_owed_once\<close>, \<open>drain_owed_before_shutdown\<close>, the tail of \<open>run\<close>): what the last
  passes deliver. A pass empties the coalescer; the one thing it can lose is a buffered event of a
  subscription whose parked rescan does not stand for it (\<open>uncovered\<close>).
\<close>

section \<open>One pass\<close>

lemma flush_all_flow:
  assumes "at_rest co" and "flush_all co = (evs, co1)"
  shows "at_rest co1" and "slots co1 = {#}" and "mset evs = slots co"
proof -
  have co1: "co1 = co\<lparr>co_ready := [], co_deadlines := [], co_buffer := [], co_per_sub_len := Map.empty\<rparr>"
    using assms(2) by (simp add: flush_all_def)
  have "co_inv co1" using assms(1)
    by (simp add: co1 at_rest_def co_inv_def index_ok_def counts_ok_def filed_ok_def counts_of_def
        sub_count_def fun_eq_iff)
  then show "at_rest co1" by (simp add: at_rest_def co1)
  show "slots co1 = {#}" by (simp add: slots_def co1)
  have evs: "evs = map (\<lambda>(_, _, ev). ev) (sort_key (\<lambda>(sub, seq, _). (sub, seq))
          (map (\<lambda>(k, b). (fst k, bf_seq b, bf_event b)) (co_buffer co)))"
    using assms by (simp add: flush_all_def at_rest_def)
  have "mset evs = image_mset (\<lambda>(_, _, ev). ev) (mset (map (\<lambda>(k, b). (fst k, bf_seq b, bf_event b)) (co_buffer co)))"
    unfolding evs mset_map mset_sort ..
  also have "\<dots> = slots co"
    by (simp add: slots_def image_mset.compositionality comp_def case_prod_beta)
  finally show "mset evs = slots co" .
qed

lemma flush_loop_coalescer [simp]: "ow_coalescer (flush_loop cx n r b st) = ow_coalescer st"
  by (induction n arbitrary: r b st)
    (auto simp: note_domination_def split: option.splits prod.splits send_result.splits)

lemma flush_pending_coalescer [simp]: "ow_coalescer (flush_pending_rescans cx st) = ow_coalescer st"
  by (simp add: flush_pending_rescans_def)

text \<open>A buffered event the pass drops although the parked rescan of its subscription does not stand for it.\<close>

definition uncovered :: "('e, 't, 'u, 'c, 'v, 'h) owner \<Rightarrow> ('c, 'v) event \<Rightarrow> bool" where
  "uncovered st x \<longleftrightarrow> x \<in># buffered st \<and> debt st (ev_subscription x) \<noteq> None \<and> \<not> owed st x"

definition swept :: "('e, 't, 'u, 'c::linorder, 'v, 'h) owner \<Rightarrow> ('c, 'v) event list \<times> ('e, 't, 'u, 'c, 'v, 'h) owner" where
  "swept st = (case ow_coalescer st of
            None \<Rightarrow> ([], st)
          | Some co \<Rightarrow> (let (evs, co1) = flush_all co in (evs, st\<lparr>ow_coalescer := Some co1\<rparr>)))"

lemma drain_owed_once_eq:
  "drain_owed_once cx st = (let (tail, st1) = swept st
     in emit_all cx (filter (\<lambda>ev. \<not> has_debt (ev_subscription ev) st1) tail) (flush_pending_rescans cx st1))"
  by (simp add: drain_owed_once_def swept_def)

lemma swept_facts:
  assumes inv: "ow_inv cx st" and s: "swept st = (tail, st1)"
  shows "progress cx st st1" and "buffered st1 = {#}" and "mset tail = buffered st"
    and "debt st1 = debt st" and "sent cx st1 = sent cx st" and "shut cx st1 = shut cx st"
proof -
  have "progress cx st st1 \<and> buffered st1 = {#} \<and> mset tail = buffered st \<and> debt st1 = debt st \<and>
      sent cx st1 = sent cx st \<and> shut cx st1 = shut cx st"
  proof (cases "ow_coalescer st")
    case None
    then have "tail = []" "st1 = st" using s by (simp_all add: swept_def)
    then show ?thesis using None emission_progress [OF emission_refl [OF inv]] by (simp add: buffered_def)
  next
    case (Some co)
    have r: "at_rest co" using inv Some by (simp add: ow_inv_def buffer_ok_def)
    obtain co1 where f: "flush_all co = (tail, co1)" and st1: "st1 = st\<lparr>ow_coalescer := Some co1\<rparr>"
      using s Some by (auto simp: swept_def split: prod.splits)
    note flow = flush_all_flow [OF r f]
    have "progress cx st st1" unfolding st1 by (rule coalescer_swap [OF inv Some flow(1)]) (simp add: flow(2))
    then show ?thesis using flow Some by (simp add: st1 buffered_def)
  qed
  then show "progress cx st st1" "buffered st1 = {#}" "mset tail = buffered st" "debt st1 = debt st"
    "sent cx st1 = sent cx st" "shut cx st1 = shut cx st" by auto
qed

lemma plain_batch:
  assumes "stream_ok cx st" and "\<forall>x \<in> set evs. \<not> event_is_rescan x"
  shows "sorted_wrt after_rescan (sent cx st @ evs)"
proof -
  have "sorted_wrt after_rescan evs" using assms(2) by (induction evs) (auto simp: after_rescan_def)
  then show ?thesis using assms by (auto simp: sorted_wrt_append stream_ok_def after_rescan_def)
qed

context delivery
begin

lemma drain_once_facts:
  assumes inv: "ow_inv cx st"
  defines "st' \<equiv> drain_owed_once cx st"
  shows "ow_inv cx st'" and "prefix (sent cx st) (sent cx st')" and "shut cx st \<longrightarrow> shut cx st'"
    and "buffered st' = {#}"
    and "\<forall>x. settled cx st x \<and> (uncovered st x \<longrightarrow> x \<in> set (sent cx st) \<or> rescanned cx st x) \<longrightarrow> settled cx st' x"
    and "ow_unclaimed st' = ow_unclaimed st"
proof -
  obtain tail st1 where s: "swept st = (tail, st1)" by fastforce
  note sw = swept_facts [OF inv s]
  let ?kept = "filter (\<lambda>ev. \<not> has_debt (ev_subscription ev) st1) tail"
  let ?st2 = "flush_pending_rescans cx st1"
  have st': "st' = emit_all cx ?kept ?st2" unfolding st'_def drain_owed_once_eq s by simp
  have inv1: "ow_inv cx st1" using sw(1) by (simp add: progress_def)
  have s2: "serves cx st1 ?st2" by (rule flush_pending_serves [OF inv1])
  have inv2: "ow_inv cx ?st2" using s2 by (rule serves_inv)
  have fr: "emission_frame st ?st2"
    using sw(1) s2 frame_trans by (auto simp: progress_def serves_def)
  have tl: "x \<in> set tail \<longleftrightarrow> x \<in># buffered st" for x using sw(3) by (metis set_mset_mset)
  have ok: "\<forall>x \<in> set ?kept. ev_ok ?st2 x"
    using inv tl ev_ok_frame [OF fr] by (auto simp: ow_inv_def buffer_ok_def)
  have "\<forall>x \<in> set ?kept. \<not> event_is_rescan x"
    using rescan_not_buffered [of st] inv tl by (auto simp: ow_inv_def)
  moreover have "stream_ok cx ?st2" using inv2 by (simp add: ow_inv_def)
  ultimately have srt: "sorted_wrt after_rescan (sent cx ?st2 @ ?kept)" using plain_batch by blast
  note em = emit_batch [OF inv2 ok srt, folded st']
  have up: "upholds cx st1 st'"
    using serves_upholds [OF s2] serves_upholds [OF emission_serves [OF em(1)]] upholds_trans by blast
  show "ow_inv cx st'" using up by (rule upholds_inv)
  show "prefix (sent cx st) (sent cx st')" "shut cx st \<longrightarrow> shut cx st'" using up sw(5,6) by (auto simp: upholds_def)
  have "buffered ?st2 = {#}" using sw(2) by (simp add: buffered_def)
  then have "x \<notin># buffered st'" for x using em(1) by (auto simp: emission_def)
  then show "buffered st' = {#}" by (meson multiset_nonemptyE)
  show "ow_unclaimed st' = ow_unclaimed st"
    using fr em(1) by (auto simp: emission_def emission_frame_def)
  have "settled cx st' x" if "settled cx st x" "uncovered st x \<longrightarrow> x \<in> set (sent cx st) \<or> rescanned cx st x" for x
  proof (cases "x \<in># buffered st \<and> debt st (ev_subscription x) = None")
    case True
    then have "x \<in> set ?kept" using tl sw(4) by (simp add: has_debt_iff)
    then show ?thesis using em(2) landed_settled by blast
  next
    case False
    then have "shut cx st \<or> x \<in> set (sent cx st) \<or> rescanned cx st x \<or> owed st x"
      using that by (auto simp: settled_def uncovered_def)
    then have "settled cx st1 x"
      using sw by (auto simp: settled_def rescanned_def owed_def)
    then show ?thesis using up by (simp add: upholds_def keeps_settled_def)
  qed
  then show "\<forall>x. settled cx st x \<and> (uncovered st x \<longrightarrow> x \<in> set (sent cx st) \<or> rescanned cx st x) \<longrightarrow> settled cx st' x"
    by blast
qed

end

section \<open>The drain loop and the tail\<close>

text \<open>
  An event that is settled otherwise than behind a debt that does not stand for it. The teardown keeps
  these, for every subscription it does not release (\<open>tears\<close>).
\<close>

definition safe ::
  "('e, 't, 'u, 'w, 'c, 'v, 'h) site \<Rightarrow> ('e, 't, 'u, 'c, 'v, 'h) owner \<Rightarrow> ('c, 'v) event \<Rightarrow> bool" where
  "safe cx st x \<longleftrightarrow> shut cx st \<or> x \<in> set (sent cx st) \<or> rescanned cx st x \<or> owed st x \<or>
     x \<in># buffered st \<and> debt st (ev_subscription x) = None"

lemma safe_settled: "safe cx st x \<Longrightarrow> settled cx st x"
  by (auto simp: safe_def settled_def)

lemma settled_safe: "settled cx st x \<Longrightarrow> \<not> uncovered st x \<Longrightarrow> safe cx st x"
  by (auto simp: safe_def settled_def uncovered_def)

definition tears ::
  "('e, 't, 'u, 'w, 'c::linorder, 'v, 'h) site \<Rightarrow> subscription set \<Rightarrow> ('e, 't, 'u, 'c, 'v, 'h) owner
     \<Rightarrow> ('e, 't, 'u, 'c, 'v, 'h) owner \<Rightarrow> bool" where
  "tears cx R st st' \<longleftrightarrow> ow_inv cx st' \<and> prefix (sent cx st) (sent cx st') \<and> (shut cx st \<longrightarrow> shut cx st') \<and>
     (\<forall>x. safe cx st x \<and> ev_subscription x \<notin> R \<longrightarrow> safe cx st' x)"

lemma tears_refl: "ow_inv cx st \<Longrightarrow> tears cx R st st"
  by (simp add: tears_def)

lemma tears_trans: "tears cx R st st1 \<Longrightarrow> tears cx S st1 st2 \<Longrightarrow> R \<union> S \<subseteq> T \<Longrightarrow> tears cx T st st2"
  unfolding tears_def by (auto intro: prefix_order.trans)

lemma tears_inv: "tears cx R st st' \<Longrightarrow> ow_inv cx st'"
  by (simp add: tears_def)

lemma quiet_tears:
  assumes "quiet cx st st'" and "ow_inv cx st"
  shows "tears cx R st st'"
proof -
  have c: "core_same cx st st'" using assms(1) by (simp add: quiet_def)
  have "safe cx st x \<longrightarrow> safe cx st' x" for x
    using c core_same_readings [OF c] by (auto simp: safe_def rescanned_def owed_def core_same_def)
  then show ?thesis using quiet_upholds [OF assms] by (simp add: tears_def upholds_def)
qed

fun orphan_of :: "cleanup \<Rightarrow> subscription set" where
  "orphan_of (Claim s) = {}"
| "orphan_of (DropOrphan s) = {s}"

definition orphans :: "cleanup list \<Rightarrow> subscription set" where
  "orphans cs = \<Union> (orphan_of ` set cs)"

context delivery
begin

lemma cleanup_tears:
  assumes inv: "ow_inv cx st" and run: "apply_cleanup cx c st = Some st'"
  shows "tears cx (orphan_of c) st st'"
proof (cases c)
  case (Claim s)
  have pl: "planes_ok st" using inv by (simp add: ow_inv_def)
  have d: "debt st' = debt st" using claim_debt [OF pl] run Claim by blast
  obtain sup nds where "promote s (ow_suppressed st) (ow_needs st) = (sup, nds)" by fastforce
  then have st': "st' = st\<lparr>ow_unclaimed := ow_unclaimed st - {s}, ow_suppressed := sup, ow_needs := nds\<rparr>"
    using run Claim by simp
  have "safe cx st' = safe cx st"
    using d by (simp add: st' fun_eq_iff safe_def rescanned_def owed_def sent_def shut_def buffered_def)
  then show ?thesis using claim_upholds [OF inv] run Claim by (simp add: tears_def upholds_def)
next
  case (DropOrphan s)
  obtain res st1 where r: "release_subscription cx s st = Some (res, st1)" "ow_inv cx st1"
    "\<forall>x. ev_subscription x \<noteq> s \<and> settled cx st x \<longrightarrow> settled cx st1 x" "sent cx st1 = sent cx st"
    "shut cx st \<longrightarrow> shut cx st1" "\<forall>x. x \<noteq> s \<longrightarrow> debt st1 x = debt st x"
    using release_inv [OF inv, of s] by metis
  have st1: "st1 = st'" using r(1) run DropOrphan by simp
  have "safe cx st1 x" if x: "safe cx st x" "ev_subscription x \<noteq> s" for x
  proof (cases "owed st x")
    case True
    then show ?thesis using r(6) x(2) by (simp add: safe_def owed_def)
  next
    case False
    have "settled cx st1 x" using r(3) safe_settled [OF x(1)] x(2) by blast
    moreover have "owed st1 x = owed st x" using r(6) x(2) by (simp add: owed_def)
    moreover have "x \<in> set (sent cx st) \<or> rescanned cx st x \<Longrightarrow> safe cx st1 x"
      using r(4) by (auto simp: safe_def rescanned_def)
    moreover have "shut cx st \<Longrightarrow> safe cx st1 x" using r(5) by (simp add: safe_def)
    ultimately show ?thesis using x False r(6) by (auto simp: safe_def settled_def)
  qed
  then show ?thesis using r st1 DropOrphan by (auto simp: tears_def)
qed

lemma drain_cleanup_tears:
  "ow_inv cx st \<Longrightarrow> drain_pending_cleanup cx cs st = Some st' \<Longrightarrow> tears cx (orphans cs) st st'"
proof (induction cs arbitrary: st)
  case Nil
  then show ?case by (simp add: tears_refl)
next
  case (Cons c cs)
  then obtain st1 where c: "apply_cleanup cx c st = Some st1" "drain_pending_cleanup cx cs st1 = Some st'"
    by (auto split: Option.bind_splits)
  have t: "tears cx (orphan_of c) st st1" by (rule cleanup_tears [OF Cons.prems(1) c(1)])
  show ?case by (rule tears_trans [OF t Cons.IH [OF tears_inv [OF t] c(2)]]) (simp add: orphans_def)
qed

lemma drain_once_tears:
  assumes "ow_inv cx st"
  shows "tears cx R st (drain_owed_once cx st)"
proof -
  note d = drain_once_facts [OF assms]
  have "safe cx (drain_owed_once cx st) x" if x: "safe cx st x" for x
  proof -
    have "uncovered st x \<longrightarrow> x \<in> set (sent cx st) \<or> rescanned cx st x \<or> shut cx st"
      using x by (auto simp: safe_def uncovered_def)
    then have "settled cx (drain_owed_once cx st) x \<or> shut cx st"
      using d(5) safe_settled [OF x] by blast
    then show ?thesis using d(3,4) by (auto simp: settled_def safe_def)
  qed
  then show ?thesis using d by (simp add: tears_def)
qed

end

fun round_orphans :: "drain_round \<Rightarrow> subscription set" where
  "round_orphans r = orphans (dr_cleanups r) \<union> orphans (dr_raced r) \<union>
     (case dr_wake r of WakeCleanup c \<Rightarrow> orphan_of c | _ \<Rightarrow> {})"

context delivery
begin

lemma drain_loop_tears:
  assumes "ow_inv cx st" and "drain_owed_before_shutdown cx rs co cu st = Some (ended, st')"
  shows "tears cx (\<Union> (round_orphans ` set rs)) st st' \<and>
    (ended = DrainDone \<longrightarrow> buffered st' = {#} \<and> (ow_needs st' = [] \<or> shut cx st'))"
  using assms
proof (induction rs arbitrary: co cu st)
  case Nil
  then show ?case by (simp add: tears_refl)
next
  case (Cons r rs)
  let ?T = "\<Union> (round_orphans ` set (r # rs))"
  obtain close st1 where p: "(if co then probe_close_signal cx st else (None, st)) = (close, st1)" by fastforce
  have q: "quiet cx st st1" using p quiet_probe by (auto split: if_splits)
  have t1: "tears cx {} st st1" by (rule quiet_tears [OF q Cons.prems(1)])
  show ?case
  proof (cases "close = Some CloseRequested")
    case True
    then have "st' = st1" "ended = DrainInterrupted" using Cons.prems(2) p by auto
    then show ?thesis using t1 by (auto simp: tears_def)
  next
    case False
    let ?cs = "if cu then dr_cleanups r else []"
    obtain st2 where c: "drain_pending_cleanup cx ?cs st1 = Some st2"
      using Cons.prems(2) p False by (auto split: Option.bind_splits)
    have t2: "tears cx (orphans ?cs) st1 st2" by (rule drain_cleanup_tears [OF tears_inv [OF t1] c])
    let ?st3 = "drain_owed_once cx st2"
    have t3: "tears cx {} st2 ?st3" by (rule drain_once_tears [OF tears_inv [OF t2]])
    have t: "tears cx (round_orphans r) st ?st3"
      by (rule tears_trans [OF t1 tears_trans [OF t2 t3 subset_refl]]) (auto simp: orphans_def)
    note inv3 = tears_inv [OF t]
    have next_round: "tears cx ?T st st' \<and> (ended = DrainDone \<longrightarrow> buffered st' = {#} \<and> (ow_needs st' = [] \<or> shut cx st'))"
      if "tears cx (round_orphans r) st s" "drain_owed_before_shutdown cx rs o1 o2 s = Some (ended, st')" for s o1 o2
    proof -
      note ih = Cons.IH [OF tears_inv [OF that(1)] that(2)]
      have "tears cx ?T st st'" by (rule tears_trans [OF that(1) conjunct1 [OF ih]]) simp
      then show ?thesis using ih by blast
    qed
    let ?open = "co \<and> close = None"
    show ?thesis
    proof (cases "(ow_needs ?st3 = [] \<and> \<not> (cu \<and> dr_pending r)) \<or> wd_closed (st_world cx) (ow_world ?st3)")
      case True
      let ?rc = "if cu then dr_raced r else []"
      obtain st4 where c4: "drain_pending_cleanup cx ?rc ?st3 = Some st4"
        using Cons.prems(2) p False c True by (auto simp: Let_def split: Option.bind_splits)
      have t4: "tears cx (orphans ?rc) ?st3 st4" by (rule drain_cleanup_tears [OF inv3 c4])
      let ?st5 = "drain_owed_once cx st4"
      have t5: "tears cx {} st4 ?st5" by (rule drain_once_tears [OF tears_inv [OF t4]])
      have tt: "tears cx (round_orphans r) st ?st5"
        by (rule tears_trans [OF t tears_trans [OF t4 t5 subset_refl]]) (auto simp: orphans_def)
      show ?thesis
      proof (cases "ow_needs ?st5 = [] \<or> wd_closed (st_world cx) (ow_world ?st5)")
        case True
        then have "st' = ?st5"
          using Cons.prems(2) p False c c4 \<open>_ \<or> wd_closed (st_world cx) (ow_world ?st3)\<close> by (simp add: Let_def)
        moreover have "tears cx ?T st ?st5" by (rule tears_trans [OF tt tears_refl [where R = "{}", OF tears_inv [OF tt]]]) simp
        ultimately show ?thesis using True drain_once_facts(4) [OF tears_inv [OF t4]] by (simp add: shut_def)
      next
        case no: False
        then have "drain_owed_before_shutdown cx rs ?open False ?st5 = Some (ended, st')"
          using Cons.prems(2) p False c c4 True by (simp add: Let_def)
        then show ?thesis by (rule next_round [OF tt])
      qed
    next
      case no: False
      show ?thesis
      proof (cases "dr_wake r")
        case WakeClose
        show ?thesis
        proof (cases ?open)
          case True
          then have "st' = ?st3" "ended = DrainInterrupted" using Cons.prems(2) p False c no WakeClose by (auto simp: Let_def)
          moreover have "tears cx ?T st ?st3" by (rule tears_trans [OF t tears_refl [where R = "{}", OF inv3]]) simp
          ultimately show ?thesis by simp
        next
          case False
          then have "drain_owed_before_shutdown cx rs ?open cu ?st3 = Some (ended, st')"
            using Cons.prems(2) p \<open>close \<noteq> Some CloseRequested\<close> c no WakeClose by (auto simp: Let_def)
          then show ?thesis by (rule next_round [OF t])
        qed
      next
        case (WakeCleanup cl)
        show ?thesis
        proof (cases cu)
          case True
          then obtain st4 where c4: "apply_cleanup cx cl ?st3 = Some st4"
              "drain_owed_before_shutdown cx rs ?open cu st4 = Some (ended, st')"
            using Cons.prems(2) p False c no WakeCleanup by (auto simp: Let_def split: Option.bind_splits)
          have t4: "tears cx (orphan_of cl) ?st3 st4" by (rule cleanup_tears [OF inv3 c4(1)])
          have "tears cx (round_orphans r) st st4" by (rule tears_trans [OF t t4]) (simp add: WakeCleanup)
          then show ?thesis by (rule next_round [OF _ c4(2)])
        next
          case no_cu: False
          then have "drain_owed_before_shutdown cx rs ?open cu ?st3 = Some (ended, st')"
            using Cons.prems(2) p False c no WakeCleanup by (simp add: Let_def)
          then show ?thesis by (rule next_round [OF t])
        qed
      next
        case WakeSleep
        then have "drain_owed_before_shutdown cx rs ?open cu ?st3 = Some (ended, st')"
          using Cons.prems(2) p False c no by (auto simp: Let_def split: if_splits)
        then show ?thesis by (rule next_round [OF t])
      qed
    qed
  qed
qed

text \<open>The whole tail: at its end nothing is buffered and the read plane is empty.\<close>

lemma tail_tears:
  assumes inv: "ow_inv cx st" and run: "run_tail cx owed_first reqs rounds cs st = Some (ended, st')"
  obtains st1 where "tears cx (\<Union> (round_orphans ` set rounds) \<union> orphans cs) st st1" "buffered st1 = {#}"
    "st' = st1\<lparr>ow_subsumer := swap_in_empty (st_radices cx) (ow_subsumer st1)\<rparr>"
proof -
  let ?st1 = "reap_all_pending_syncs cx (begin_source_close cx st)"
  let ?st2 = "foldl (\<lambda>st req. answer (sq_reply req) (Inl SeClosed) st) ?st1 reqs"
  let ?R = "\<Union> (round_orphans ` set rounds)"
  have q: "quiet cx st ?st2"
    by (rule quiet_trans [OF quiet_trans [OF quiet_begin_close quiet_reap_all] quiet_foldl]) simp
  have t2: "tears cx {} st ?st2" by (rule quiet_tears [OF q inv])
  obtain st3 where d: "(if owed_first then drain_owed_before_shutdown cx rounds True True ?st2
      else Some (DrainDone, ?st2)) = Some (ended, st3)"
    and rest: "do { st4 \<leftarrow> drain_pending_cleanup cx cs st3;
              let st5 = drain_owed_once cx st4;
              Some (ended, st5\<lparr>ow_subsumer := swap_in_empty (st_radices cx) (ow_subsumer st5)\<rparr>) } = Some (ended, st')"
    using run by (auto simp: run_tail_def Let_def split: Option.bind_splits)
  have t3: "tears cx ?R ?st2 st3"
  proof (cases owed_first)
    case True
    then show ?thesis using drain_loop_tears [OF tears_inv [OF t2]] d by simp
  next
    case False
    then show ?thesis using tears_refl [OF tears_inv [OF t2]] d by simp
  qed
  obtain st4 where c: "drain_pending_cleanup cx cs st3 = Some st4"
    and st': "st' = (drain_owed_once cx st4)\<lparr>ow_subsumer := swap_in_empty (st_radices cx) (ow_subsumer (drain_owed_once cx st4))\<rparr>"
    using rest by (auto simp: Let_def split: Option.bind_splits)
  have t4: "tears cx (orphans cs) st3 st4" by (rule drain_cleanup_tears [OF tears_inv [OF t3] c])
  have t5: "tears cx {} st4 (drain_owed_once cx st4)" by (rule drain_once_tears [OF tears_inv [OF t4]])
  have "tears cx (?R \<union> orphans cs) st (drain_owed_once cx st4)"
    by (rule tears_trans [OF t2 tears_trans [OF t3 tears_trans [OF t4 t5 subset_refl] subset_refl]]) auto
  then show thesis using that [OF _ _ st'] drain_once_facts(4) [OF tears_inv [OF t4]] by blast
qed

end

end
