(* ===== verification/Owner_Ends.thy ===== *)
theory Owner_Ends
  imports Owner_Watch
begin

text \<open>
  The loops of the watch path end. Planning retires a root per round, so it needs no more rounds than
  there are roots, and no more ids than the counter has left. Restoring a released root sleeps between
  attempts, so with a clock that moves on it spends its budget.
\<close>

section \<open>Planning\<close>

lemma force_remove_handles:
  assumes "force_remove_root rd h sm = Some (subs, sm')"
  shows "sm_by_handle sm' = (sm_by_handle sm)(h := None)" and "sm_next_sub sm' = sm_next_sub sm"
  using assms
  by (auto simp: force_remove_root_def Let_def fun_eq_iff split: option.splits prod.splits if_splits)

lemma retire_foldl_subsumer:
  "ow_subsumer (foldl (\<lambda>st s. retire_sub_state s (forget_buffered s st)) st subs) = ow_subsumer st"
  by (induction subs arbitrary: st) (auto simp: retire_sub_state_def forget_buffered_def)

lemma handles_finite_card:
  assumes "finite (dom m)" and "m h \<noteq> None"
  shows "card (dom (m(h := None))) < card (dom m)"
proof -
  have "dom (m(h := None)) \<subset> dom m" using assms(2) by auto
  then show ?thesis by (rule psubset_card_mono [OF assms(1)])
qed

text \<open>The room planning needs: an id for every root it may retire, and one for itself.\<close>

definition ids_left :: "('e, 't, 'u, 'c, 'v, 'h) owner \<Rightarrow> bool" where
  "ids_left st \<longleftrightarrow> unat (sm_next_sub (ow_subsumer st)) + card (dom (sm_by_handle (ow_subsumer st))) < unat u64_max"

context delivery
begin

lemma finite_handles:
  assumes "ow_inv cx st"
  shows "finite (dom (sm_by_handle (ow_subsumer st)))"
proof -
  let ?rs = "roots (st_radices cx) (ow_subsumer st)" and ?bh = "sm_by_handle (ow_subsumer st)"
  have ro: "roots_ok ?rs ?bh" using assms by (simp add: ow_inv_def sm_inv_def)
  obtain ks where "set ks = dom ?rs"
    using eng.index.values_rev [of "sm_index (ow_subsumer st)"] unfolding roots_def by blast
  then have f: "finite (dom ?rs)" by (metis List.finite_set)
  have "dom ?bh \<subseteq> (\<lambda>k. rr_handle (the (?rs k))) ` dom ?rs"
  proof
    fix h assume "h \<in> dom ?bh"
    then obtain k where "?bh h = Some k" by auto
    from roots_okD(3) [OF ro this] obtain r where "?rs k = Some r" "rr_handle r = h" by auto
    then show "h \<in> (\<lambda>k. rr_handle (the (?rs k))) ` dom ?rs" by (auto intro!: image_eqI [of _ _ k])
  qed
  then show ?thesis using f by (rule finite_subset [OF _ finite_imageI])
qed

lemma retire_handles:
  assumes "ow_inv cx st" and "retire_root_with_terminal_rescan cx h st = Some st'"
  shows "sm_by_handle (ow_subsumer st') = (sm_by_handle (ow_subsumer st))(h := None)"
    and "sm_next_sub (ow_subsumer st') = sm_next_sub (ow_subsumer st)"
proof -
  obtain subs sm where f: "force_remove_root (st_radices cx) h (ow_subsumer (rescan_live_root cx h st)) = Some (subs, sm)"
    and st': "st' = foldl (\<lambda>st s. retire_sub_state s (forget_buffered s st))
        ((rescan_live_root cx h st)\<lparr>ow_subsumer := sm\<rparr>) subs"
    using assms(2) by (auto simp: retire_root_with_terminal_rescan_def Let_def split: Option.bind_splits)
  have "ow_subsumer st' = sm" unfolding st' retire_foldl_subsumer by simp
  then show "sm_by_handle (ow_subsumer st') = (sm_by_handle (ow_subsumer st))(h := None)"
    and "sm_next_sub (ow_subsumer st') = sm_next_sub (ow_subsumer st)"
    using force_remove_handles [OF f] rescan_live_root_serves(4) [OF assms(1), of h] by simp_all
qed

end

lemma reserve_counts:
  assumes "reserve key v i sm = Some (s, sm')"
  shows "sm_by_handle sm' = sm_by_handle sm" and "unat (sm_next_sub sm') = unat (sm_next_sub sm) + 1"
  using assms checked_add_Some [of "sm_next_sub sm" 1]
  by (auto simp: reserve_def mint_subscription_def split: option.splits)

lemma plan_frame:
  assumes "plan_watch rd key v i globs sm = Some (res, sm')"
  shows "sm_by_handle sm' = sm_by_handle sm" and "\<And>c. res = Inl c \<Longrightarrow> sm' = sm"
    and "\<And>o1. res = Inr o1 \<Longrightarrow> unat (sm_next_sub sm') = unat (sm_next_sub sm) + 1"
  using assms reserve_counts
  by (auto simp: plan_watch_def split: option.splits if_splits sum.splits prod.splits)

context delivery
begin

lemma plan_live_ends:
  assumes "ow_inv cx st" and "ids_left st"
  shows "\<exists>res st'. plan_live cx key v i globs st = Some (res, st')"
  using assms
proof (induction "card (dom (sm_by_handle (ow_subsumer st)))" arbitrary: st rule: less_induct)
  case less
  let ?sm = "ow_subsumer st"
  have "sm_next_sub ?sm \<noteq> u64_max" using less.prems(2) by (auto simp: ids_left_def)
  then obtain res sm where p: "plan_watch (st_radices cx) key v i globs ?sm = Some (res, sm)"
    using eng.plan_None_iff [of key v i globs ?sm] by fastforce
  let ?st = "st\<lparr>ow_subsumer := sm\<rparr>"
  note S = plan_step [OF less.prems(1) p]
  note pf = plan_frame [OF p]
  have again: "\<exists>res st'. (case retire_root_with_terminal_rescan cx h st0 of None \<Rightarrow> None
        | Some st1 \<Rightarrow> plan_live cx key v i globs st1) = Some (res, st')"
    if inv0: "ow_inv cx st0" and bh: "sm_by_handle (ow_subsumer st0) = sm_by_handle ?sm"
      and h: "sm_by_handle ?sm h \<noteq> None"
      and nx: "unat (sm_next_sub (ow_subsumer st0)) \<le> unat (sm_next_sub ?sm) + 1" for st0 h
  proof -
    obtain st1 where r: "retire_root_with_terminal_rescan cx h st0 = Some st1" "upholds cx st0 st1"
      using retire_upholds [OF inv0] by blast
    note R = retire_handles [OF inv0 r(1)]
    have lt: "card (dom (sm_by_handle (ow_subsumer st1))) < card (dom (sm_by_handle ?sm))"
      unfolding R(1) bh by (rule handles_finite_card [OF finite_handles [OF less.prems(1)] h])
    have "ids_left st1" using lt nx less.prems(2) unfolding ids_left_def R(2) by linarith
    from less.hyps [OF lt upholds_inv [OF r(2)] this] show ?thesis using r(1) by simp
  qed
  show ?case
  proof (cases res)
    case (Inl c)
    have "sm = ?sm" "sm_by_handle ?sm (wr_root c) \<noteq> None" using S(3) Inl by auto
    then show ?thesis using again [of st "wr_root c"] p Inl less.prems(1)
      by (subst plan_live.simps) auto
  next
    case (Inr o1)
    show ?thesis
    proof (cases "\<exists>h s out. o1 = Covered h s out \<and> wd_root_key (st_world cx) (ow_world st) h = None")
      case True
      then obtain h s out where o1: "o1 = Covered h s out" "wd_root_key (st_world cx) (ow_world st) h = None" by blast
      let ?st0 = "abort_plan o1 ?st"
      have "ow_inv cx ?st0" by (rule upholds_inv [OF abort_upholds [OF upholds_inv [OF S(1)]]])
      moreover have "sm_by_handle (ow_subsumer ?st0) = sm_by_handle ?sm"
        "sm_next_sub (ow_subsumer ?st0) = sm_next_sub sm" using pf(1) by (simp_all add: abort_plan_def abort_watch_def)
      moreover have "sm_by_handle ?sm h \<noteq> None" using S(4) Inr o1(1) pf(1) by auto
      ultimately show ?thesis using again [of ?st0 h] p Inr o1 pf(3) [OF Inr]
        by (subst plan_live.simps) auto
    next
      case False
      then show ?thesis using p Inr by (subst plan_live.simps) (cases o1; auto)
    qed
  qed
qed

end

section \<open>Restoring\<close>

text \<open>The instant the world's clock shows.\<close>

definition clock_now :: "('e, 't, 'u, 'w, 'c, 'v, 'h) site \<Rightarrow> ('e, 't, 'u, 'c, 'v, 'h) owner \<Rightarrow> instant" where
  "clock_now cx st = fst (wd_now (st_world cx) (ow_world st))"

text \<open>
  The restoration with the instants it asks to be woken at, in order. The equations are those of
  \<open>rearm_disarmed_root\<close>, \<open>restore_loop\<close> and \<open>restore_disarmed_roots\<close>, with the log beside the result.
\<close>

partial_function (option) rearm_log ::
  "('e, 't, 'u, 'w, 'c, 'v, 'h) site \<Rightarrow> 'c list \<Rightarrow> root_globs \<Rightarrow> instant \<Rightarrow> ('e, 't, 'u, 'c, 'v, 'h) owner
     \<Rightarrow> (instant list \<times> ('c, 'h) rearm_step \<times> ('e, 't, 'u, 'c, 'v, 'h) owner) option" where
  "rearm_log cx key globs retry_until st =
     (case rearm_racing_close cx key globs st of
        (AttemptArmed h k, st1) \<Rightarrow> Some ([], RearmArmed h k, st1)
      | (AttemptTerminal s, st1) \<Rightarrow> Some ([], RearmTerminal s, st1)
      | (AttemptRefused err, st1) \<Rightarrow>
          if \<not> is_capacity_refusal err then Some ([], RearmRefused, st1)
          else (case read_clock cx st1 of (now, st2) \<Rightarrow>
            if retry_until \<le> now then Some ([], RearmRefused, st2)
            else (case instant_checked_add (st_clock cx) now restore_retry_pace of
                    None \<Rightarrow> None
                  | Some t \<Rightarrow>
                      (case pace_restore_retry cx (min t retry_until) st2 of
                         (None, st3) \<Rightarrow>
                           Option.bind (rearm_log cx key globs retry_until st3)
                             (\<lambda>q. Some (min t retry_until # fst q, snd q))
                       | (Some s, st3) \<Rightarrow> Some ([min t retry_until], RearmTerminal s, st3)))))"

fun restore_log ::
  "('e, 't, 'u, 'w, 'c::linorder, 'v, 'h) site \<Rightarrow> 'h list \<Rightarrow> instant \<Rightarrow> 'h list \<Rightarrow> ('e, 't, 'u, 'c, 'v, 'h) owner
     \<Rightarrow> (instant list \<times> reconcile_stop option \<times> ('e, 't, 'u, 'c, 'v, 'h) owner) option" where
  "restore_log cx all retry_until [] st = Some ([], None, st)"
| "restore_log cx all retry_until (old # rest) st0 =
     (case probe_close_signal cx st0 of
        (Some s, st) \<Rightarrow> map_option (\<lambda>st1. ([], Some s, st1)) (begin_close_then_retire_disarmed_roots cx all st)
      | (None, st) \<Rightarrow>
          (case root_view (st_radices cx) old (ow_subsumer st) of
             None \<Rightarrow> restore_log cx all retry_until rest st
           | Some (root_key, subscribers) \<Rightarrow>
               (let globs = (case root_globs_of (st_radices cx) old (ow_subsumer st) of
                               None \<Rightarrow> root_globs_new | Some g \<Rightarrow> g)
                in do { (ns, step, st1) \<leftarrow> rearm_log cx root_key globs retry_until st;
                        (stop, st2) \<leftarrow> restore_one cx all old root_key subscribers step st1;
                        case stop of Some s \<Rightarrow> Some (ns, Some s, st2)
                        | None \<Rightarrow> map_option (\<lambda>(ms, r). (ns @ ms, r)) (restore_log cx all retry_until rest st2) })))"

definition restore_naps ::
  "('e, 't, 'u, 'w, 'c::linorder, 'v, 'h) site \<Rightarrow> 'h list \<Rightarrow> ('e, 't, 'u, 'c, 'v, 'h) owner
     \<Rightarrow> (instant list \<times> reconcile_stop option \<times> ('e, 't, 'u, 'c, 'v, 'h) owner) option" where
  "restore_naps cx unwatch st =
     (case read_clock cx st of (now, st1) \<Rightarrow>
        (case instant_checked_add (st_clock cx) now restore_retry_budget of
           None \<Rightarrow> None
         | Some retry_until \<Rightarrow> restore_log cx unwatch retry_until unwatch st1))"

text \<open>The paces between a moment and the deadline, the last one cut short.\<close>

definition paces_left :: "instant \<Rightarrow> instant \<Rightarrow> nat" where
  "paces_left retry_until now = (retry_until - now + (restore_retry_pace - 1)) div restore_retry_pace"

lemma paces_left_mono: "a \<le> b \<Longrightarrow> paces_left t b \<le> paces_left t a"
  unfolding paces_left_def by (intro div_le_mono) simp

lemma paces_left_pos: "a < t \<Longrightarrow> 0 < paces_left t a"
  by (simp add: paces_left_def restore_retry_pace_def)

lemma paces_left_step:
  assumes "a \<le> now" and "now < t" and "min (now + restore_retry_pace) t \<le> b"
  shows "Suc (paces_left t b) \<le> paces_left t a"
proof -
  have "Suc (paces_left t b) \<le> paces_left t now"
    using assms(2,3) by (auto simp: paces_left_def restore_retry_pace_def min_def split: if_splits)
  then show ?thesis using paces_left_mono [OF assms(1), of t] by simp
qed

locale paced_delivery = delivery cx + pw: paced_world "st_world cx"
  for cx :: "('e, 't, 'u, 'w, 'c::linorder, 'v, 'h) site"
begin

lemma call_later: "clock_now cx st \<le> clock_now cx (call_source cx c st)"
proof -
  obtain p e where "wd_call (st_world cx) c (ow_world st) = (p, e)" by fastforce
  then show ?thesis using pw.call_mono [of "ow_world st" c]
    by (auto simp: call_source_def clock_now_def split: option.splits)
qed

lemma disarm_later: "disarm_bare cx h st = (ok, st') \<Longrightarrow> clock_now cx st \<le> clock_now cx st'"
  using pw.call_mono [of "ow_world st" "Disarm h"]
  by (auto simp: disarm_bare_def clock_now_def split: prod.splits)

lemma attempt_later:
  assumes "rearm_racing_close cx key globs st = (r, st')"
  shows "clock_now cx st \<le> clock_now cx st'"
proof -
  obtain ar e where a: "wd_arm (st_world cx) key globs (ow_world st) = (ar, e)" by fastforce
  let ?st = "st\<lparr>ow_world := e\<rparr>"
  have 1: "clock_now cx st \<le> clock_now cx ?st"
    using pw.arm_mono [of "ow_world st" key globs] a by (simp add: clock_now_def)
  obtain s st1 where s: "settle_race cx ar ?st = (s, st1)" by fastforce
  have 2: "clock_now cx ?st \<le> clock_now cx st1"
    using s call_later [of ?st DropRaced] by (auto simp: settle_race_def split: race.splits)
  have 3: "clock_now cx st1 \<le> clock_now cx st2" if ad: "adopt_armed cx x st1 = (y, st2)" for x y st2
  proof (cases "wd_root_key (st_world cx) (ow_world st1) (ar_handle x) = None")
    case True
    obtain ok st3 where d: "disarm_bare cx (ar_handle x) st1 = (ok, st3)" by fastforce
    then have "st2 = st3" using ad True by (simp add: adopt_armed_def Let_def)
    then show ?thesis using disarm_later [OF d] by simp
  next
    case False
    then have "ow_world st2 = ow_world st1"
      using ad by (auto simp: adopt_armed_def Let_def split: if_splits prod.splits)
    then show ?thesis by (simp add: clock_now_def)
  qed
  show ?thesis
  proof (cases s)
    case (Inl stop)
    then have "st' = st1" using assms a s by (simp add: rearm_racing_close_def)
    then show ?thesis using 1 2 by simp
  next
    case (Inr res)
    show ?thesis
    proof (cases res)
      case (Inl err)
      then have "st' = st1" using assms a s Inr by (simp add: rearm_racing_close_def)
      then show ?thesis using 1 2 by simp
    next
      case armed: (Inr x)
      obtain y st2 where ad: "adopt_armed cx x st1 = (y, st2)" by fastforce
      have "st' = st2" using assms a s Inr armed ad
        by (cases y) (auto simp: rearm_racing_close_def split: prod.splits reconcile_stop.splits)
      then show ?thesis using 1 2 3 [OF ad] by simp
    qed
  qed
qed

lemma same_world_later: "ow_world st' = ow_world st \<Longrightarrow> clock_now cx st \<le> clock_now cx st'"
  by (simp add: clock_now_def)

lemma later_foldl:
  "(\<And>x st. x \<in> set xs \<Longrightarrow> clock_now cx st \<le> clock_now cx (f st x)) \<Longrightarrow> clock_now cx st \<le> clock_now cx (foldl f st xs)"
proof (induction xs arbitrary: st)
  case (Cons x xs)
  then have "clock_now cx st \<le> clock_now cx (f st x)" "clock_now cx (f st x) \<le> clock_now cx (foldl f (f st x) xs)"
    by simp_all
  then show ?case by simp
qed simp

lemma clock_later: "read_clock cx st = (now, st') \<Longrightarrow> now = clock_now cx st \<and> now \<le> clock_now cx st'"
  using pw.now_mono [of "ow_world st"] by (auto simp: read_clock_def clock_now_def split: prod.splits)

lemma probe_later: "probe_close_signal cx st = (r, st') \<Longrightarrow> clock_now cx st \<le> clock_now cx st'"
  using pw.probe_mono [of "ow_world st"] by (auto simp: probe_close_signal_def clock_now_def split: prod.splits)

lemma reap_later: "clock_now cx st \<le> clock_now cx (reap_cookie cx h k st)"
  using pw.call_mono [of "ow_world st" "EndSync h k"]
  by (auto simp: reap_cookie_def offer_source_def clock_now_def split: prod.splits option.splits)

lemma park_worlds:
  "ow_world (park_in s k ep v st) = ow_world st" "ow_world (note_loss s st) = ow_world st"
  "ow_world (park_rescan cx s st) = ow_world st" "ow_world (widen_parked_debt ev st) = ow_world st"
  "ow_world (park_rescan_event ev st) = ow_world st" "ow_world (rescan_sub cx k s st) = ow_world st"
  by (simp_all add: park_in_def note_loss_def park_rescan_def widen_parked_debt_def park_rescan_event_def rescan_sub_def
      on_shed_def drop_buffered_def Let_def split: option.splits prod.splits)

lemma emit_later: "clock_now cx st \<le> clock_now cx (try_emit cx ev st)"
  using pw.send_mono [of "ow_world st" ev]
  by (auto simp: try_emit_def clock_now_def park_worlds Let_def split: prod.splits send_result.splits)

lemma emit_all_later: "clock_now cx st \<le> clock_now cx (emit_all cx evs st)"
  unfolding emit_all_def by (rule later_foldl) (rule emit_later)

lemma park_all_world: "ow_world (park_all cx subs st) = ow_world st"
  unfolding park_all_def by (induction subs arbitrary: st) (simp_all add: park_worlds)

lemma push_later:
  assumes "push_all cx evs st = Some st'"
  shows "clock_now cx st \<le> clock_now cx st'"
proof (cases "ow_coalescer st")
  case None
  then have "st' = emit_all cx evs st" using assms by (simp add: push_all_def)
  then show ?thesis using emit_all_later by blast
next
  case (Some co)
  obtain now st1 where c: "read_clock cx st = (now, st1)" by fastforce
  obtain sheds ready co2 where st': "st' = emit_all cx ready (park_all cx sheds (st1\<lparr>ow_coalescer := Some co2\<rparr>))"
    using assms Some c by (auto simp: push_all_def split: Option.bind_splits)
  have "clock_now cx (park_all cx sheds (st1\<lparr>ow_coalescer := Some co2\<rparr>)) = clock_now cx st1"
    by (simp add: clock_now_def park_all_world)
  then show ?thesis unfolding st'
    using clock_later [OF c] emit_all_later [of "park_all cx sheds (st1\<lparr>ow_coalescer := Some co2\<rparr>)" ready] by linarith
qed

lemma finish_later:
  assumes "\<And>p st. clock_now cx st \<le> clock_now cx (f p st)"
  shows "clock_now cx st \<le> clock_now cx (finish_syncs P f st)"
proof -
  obtain taken kept where "swap_drain P (ow_pending st) = (taken, kept)" by fastforce
  then show ?thesis using later_foldl [of taken "\<lambda>st p. f p st" "st\<lparr>ow_pending := kept\<rparr>"] assms
    by (simp add: finish_syncs_def clock_now_def)
qed

lemma dominate_later:
  "clock_now cx st \<le> clock_now cx (dominate_syncs_of_root cx h st)"
  "clock_now cx st \<le> clock_now cx (dominate_syncs_of_subscription cx s st)"
proof -
  have a: "clock_now cx (answer r x st) = clock_now cx st" "clock_now cx (note_domination st) = clock_now cx st"
    for r x and st :: "('e, 't, 'u, 'c, 'v, 'h) owner" by (simp_all add: clock_now_def answer_def note_domination_def)
  have r: "clock_now cx st \<le> clock_now cx (reap_cookie cx h k (answer r x st))"
    for h k r x and st :: "('e, 't, 'u, 'c, 'v, 'h) owner"
    using reap_later [of "answer r x st" h k] a(1) [of r x st] by simp
  show "clock_now cx st \<le> clock_now cx (dominate_syncs_of_root cx h st)"
    using finish_later [OF r, of "note_domination st"] a(2) [of st] unfolding dominate_syncs_of_root_def by simp
  show "clock_now cx st \<le> clock_now cx (dominate_syncs_of_subscription cx s st)"
    using finish_later [OF r, of "note_domination st"] a(2) [of st] unfolding dominate_syncs_of_subscription_def by simp
qed

lemma repoint_world: "ow_world (snd (repoint_rescans cx k subs st)) = ow_world st"
proof (induction subs arbitrary: st)
  case (Cons s subs)
  let ?st = "(drop_buffered s st)\<lparr>ow_epochs := snd (repoint s (ow_epochs (drop_buffered s st)))\<rparr>"
  have "ow_world (snd (repoint_rescans cx k subs ?st)) = ow_world st" using Cons.IH [of ?st] by (simp add: drop_buffered_def)
  then show ?case by (simp add: Let_def split_beta)
qed simp

lemma rebase_later: "rebase_subs cx k subs st = Some st' \<Longrightarrow> clock_now cx st \<le> clock_now cx st'"
proof -
  assume r: "rebase_subs cx k subs st = Some st'"
  obtain evs st1 where p: "repoint_rescans cx k subs st = (evs, st1)" by fastforce
  obtain st2 where q: "push_all cx evs st1 = Some st2"
    "st' = foldl (\<lambda>st s. dominate_syncs_of_subscription cx s st) st2 subs"
    using r p by (auto simp: rebase_subs_def)
  have "clock_now cx st = clock_now cx st1" using repoint_world [of k subs st] p by (simp add: clock_now_def)
  moreover have "clock_now cx st2 \<le> clock_now cx st'" unfolding q(2) by (rule later_foldl) (rule dominate_later)
  ultimately show ?thesis using push_later [OF q(1)] by simp
qed

lemma retire_later:
  assumes "retire_root_with_terminal_rescan cx h st = Some st'"
  shows "clock_now cx st \<le> clock_now cx st'"
proof -
  have r: "ow_world (foldl (\<lambda>st sub. rescan_sub cx k sub st) st subs) = ow_world st"
    for k subs and st :: "('e, 't, 'u, 'c, 'v, 'h) owner"
    by (induction subs arbitrary: st) (simp_all add: park_worlds)
  have "clock_now cx st \<le> clock_now cx (rescan_live_root cx h st)"
  proof (cases "root_view (st_radices cx) h (ow_subsumer st)")
    case (Some v)
    obtain k subs where v: "v = (k, subs)" by fastforce
    let ?st = "foldl (\<lambda>st sub. rescan_sub cx k sub st) st subs"
    have "clock_now cx st = clock_now cx ?st" using r by (simp add: clock_now_def)
    then show ?thesis using dominate_later(1) [of ?st h] Some v by (simp add: rescan_live_root_def)
  qed (simp add: rescan_live_root_def)
  moreover have "ow_world (foldl (\<lambda>st sub. retire_sub_state sub (forget_buffered sub st)) st subs) = ow_world st"
    for subs and st :: "('e, 't, 'u, 'c, 'v, 'h) owner"
    by (induction subs arbitrary: st) (simp_all add: retire_sub_state_def forget_buffered_def)
  then have "ow_world st' = ow_world (rescan_live_root cx h st)"
    using assms by (auto simp: retire_root_with_terminal_rescan_def Let_def split: Option.bind_splits)
  ultimately show ?thesis by (simp add: clock_now_def)
qed

lemma restore_one_later:
  assumes "restore_one cx all old k subs step st = Some (None, st')"
  shows "clock_now cx st \<le> clock_now cx st'" and "\<nexists>s. step = RearmTerminal s"
proof -
  show "\<nexists>s. step = RearmTerminal s" using assms by (auto simp: restore_one_def split: if_splits)
  show "clock_now cx st \<le> clock_now cx st'"
  proof (cases step)
    case (RearmArmed h fk)
    show ?thesis
    proof (cases "fk = k")
      case True
      let ?st = "st\<lparr>ow_subsumer := rebind_root (st_radices cx) old h (ow_subsumer st)\<rparr>"
      have "rebase_subs cx k subs ?st = Some st'" using assms RearmArmed True by (auto simp: restore_one_def)
      from rebase_later [OF this] show ?thesis by (simp add: clock_now_def)
    next
      case False
      obtain ok st1 where d: "disarm_bare cx h st = (ok, st1)" by fastforce
      then have "retire_root_with_terminal_rescan cx old st1 = Some st'"
        using assms RearmArmed False by (auto simp: restore_one_def split: if_splits)
      from retire_later [OF this] disarm_later [OF d] show ?thesis by simp
    qed
  next
    case RearmRefused
    then have "retire_root_with_terminal_rescan cx old st = Some st'" using assms by (auto simp: restore_one_def)
    from retire_later [OF this] show ?thesis .
  next
    case (RearmTerminal s)
    then show ?thesis using assms by (auto simp: restore_one_def split: if_splits)
  qed
qed

text \<open>
  The attempts end, provided the deadline and one pace past it are instants: every sleep takes at least one
  of the paces left.
\<close>

lemma rearm_ends:
  assumes "retry_until + restore_retry_pace \<le> clk_max (st_clock cx)"
  shows "\<exists>ns r st'. rearm_log cx key globs retry_until st = Some (ns, r, st') \<and>
    rearm_disarmed_root cx key globs retry_until st = Some (r, st') \<and> (\<forall>t \<in> set ns. t \<le> retry_until) \<and>
    length ns \<le> paces_left retry_until (clock_now cx st) \<and>
    ((\<nexists>s. r = RearmTerminal s) \<longrightarrow>
       length ns + paces_left retry_until (clock_now cx st') \<le> paces_left retry_until (clock_now cx st))"
proof (induction "retry_until - clock_now cx st" arbitrary: st rule: less_induct)
  case less
  obtain att st1 where a: "rearm_racing_close cx key globs st = (att, st1)" by fastforce
  obtain now st2 where c: "read_clock cx st1 = (now, st2)" by fastforce
  have n: "now = clock_now cx st1" "now \<le> clock_now cx st2" using clock_later [OF c] by simp_all
  have m: "clock_now cx st \<le> now" using attempt_later [OF a] n(1) by simp
  have p: "paces_left retry_until (clock_now cx st1) \<le> paces_left retry_until (clock_now cx st)"
    "paces_left retry_until (clock_now cx st2) \<le> paces_left retry_until (clock_now cx st)"
    using m n by (simp_all add: paces_left_mono)
  show ?case
  proof (cases "\<exists>err. att = AttemptRefused err \<and> is_capacity_refusal err \<and> now < retry_until")
    case False
    then show ?thesis using a c p
      by (subst rearm_disarmed_root.simps, subst rearm_log.simps) (auto split: rearm_attempt.splits)
  next
    case True
    then have t: "instant_checked_add (st_clock cx) now restore_retry_pace = Some (now + restore_retry_pace)"
      using assms by (auto simp: instant_checked_add_def)
    have some: "0 < paces_left retry_until (clock_now cx st)" using True m by (auto intro: paces_left_pos)
    let ?wake = "min (now + restore_retry_pace) retry_until"
    obtain r st3 where pc: "pace_restore_retry cx ?wake st2 = (r, st3)" by fastforce
    show ?thesis
    proof (cases r)
      case (Some s)
      then show ?thesis using a c True t pc some
        by (subst rearm_disarmed_root.simps, subst rearm_log.simps) auto
    next
      case None
      then have w: "?wake \<le> clock_now cx st3"
        using pc pw.pace_wakes
        by (fastforce simp: pace_restore_retry_def clock_now_def race_terminal_def Let_def split: prod.splits race.splits)
      have "now < retry_until" using True by blast
      then have one: "Suc (paces_left retry_until (clock_now cx st3)) \<le> paces_left retry_until (clock_now cx st)"
        using paces_left_step [OF m _ w] by simp
      have "0 < restore_retry_pace" by (simp add: restore_retry_pace_def)
      then have "retry_until - clock_now cx st3 < retry_until - clock_now cx st"
        using True w m by (auto simp: min_def split: if_splits)
      from less.hyps [OF this] obtain ns q st' where
        ih: "rearm_log cx key globs retry_until st3 = Some (ns, q, st')"
          "rearm_disarmed_root cx key globs retry_until st3 = Some (q, st')" "\<forall>t \<in> set ns. t \<le> retry_until"
          "length ns \<le> paces_left retry_until (clock_now cx st3)"
          "(\<nexists>s. q = RearmTerminal s) \<longrightarrow>
            length ns + paces_left retry_until (clock_now cx st') \<le> paces_left retry_until (clock_now cx st3)" by blast
      have "rearm_log cx key globs retry_until st = Some (?wake # ns, q, st')"
        "rearm_disarmed_root cx key globs retry_until st = Some (q, st')"
        using a c True t pc None ih(1,2)
        by (subst rearm_log.simps, auto) (subst rearm_disarmed_root.simps, auto)
      then show ?thesis using ih one by (intro exI [of _ "?wake # ns"] exI [of _ q] exI [of _ st']) auto
    qed
  qed
qed

lemma restore_loop_ends:
  assumes "ow_inv cx st" and t: "retry_until + restore_retry_pace \<le> clk_max (st_clock cx)"
  shows "\<exists>ns stop st'. restore_log cx all retry_until hs st = Some (ns, stop, st') \<and>
    restore_loop cx all retry_until hs st = Some (stop, st') \<and> (\<forall>t \<in> set ns. t \<le> retry_until) \<and>
    length ns \<le> paces_left retry_until (clock_now cx st)"
  using assms(1)
proof (induction hs arbitrary: st)
  case (Cons h hs)
  obtain p st1 where p: "probe_close_signal cx st = (p, st1)" by fastforce
  have i1: "ow_inv cx st1" by (rule quiet_inv [OF quiet_probe [OF p] Cons.prems])
  have l1: "paces_left retry_until (clock_now cx st1) \<le> paces_left retry_until (clock_now cx st)"
    by (rule paces_left_mono [OF probe_later [OF p]])
  show ?case
  proof (cases p)
    case (Some s)
    then show ?thesis using p close_retire_upholds [OF i1, of all] by auto
  next
    case None
    show ?thesis
    proof (cases "root_view (st_radices cx) h (ow_subsumer st1)")
      case no: None
      obtain ns stop st' where "restore_log cx all retry_until hs st1 = Some (ns, stop, st')"
        "restore_loop cx all retry_until hs st1 = Some (stop, st')" "\<forall>t \<in> set ns. t \<le> retry_until"
        "length ns \<le> paces_left retry_until (clock_now cx st1)" using Cons.IH [OF i1] by blast
      then show ?thesis using None no p l1 by auto
    next
      case (Some kv)
      obtain k subs where kv: "kv = (k, subs)" by (cases kv)
      let ?g = "case root_globs_of (st_radices cx) h (ow_subsumer st1) of None \<Rightarrow> root_globs_new | Some g \<Rightarrow> g"
      obtain ns step st2 where g: "rearm_log cx k ?g retry_until st1 = Some (ns, step, st2)"
        and r: "rearm_disarmed_root cx k ?g retry_until st1 = Some (step, st2)"
        and b: "\<forall>t \<in> set ns. t \<le> retry_until" "length ns \<le> paces_left retry_until (clock_now cx st1)"
          "(\<nexists>s. step = RearmTerminal s) \<longrightarrow>
            length ns + paces_left retry_until (clock_now cx st2) \<le> paces_left retry_until (clock_now cx st1)"
        using rearm_ends [OF t] by blast
      note q = quiet_rearm [OF r]
      have i2: "ow_inv cx st2" by (rule quiet_inv [OF q(1) i1])
      note c = root_view_cohort [OF i1 Some [unfolded kv]]
      have "\<forall>s \<in> set subs. sm_subs (ow_subsumer st2) s \<noteq> None" using c(2) quiet_subsumer [OF q(1)] by simp
      then obtain stop1 st3 where o: "restore_one cx all h k subs step st2 = Some (stop1, st3)" "upholds cx st2 st3"
        using restore_one_upholds [OF i2 c(1), of step] q(2) by metis
      show ?thesis
      proof (cases stop1)
        case (Some s)
        then show ?thesis using None p \<open>root_view _ _ _ = Some kv\<close> kv g r o(1) b l1 by auto
      next
        case go: None
        note l = restore_one_later [OF o(1) [unfolded go]]
        have l3: "paces_left retry_until (clock_now cx st3) \<le> paces_left retry_until (clock_now cx st2)"
          by (rule paces_left_mono [OF l(1)])
        obtain ms stop st' where "restore_log cx all retry_until hs st3 = Some (ms, stop, st')"
          "restore_loop cx all retry_until hs st3 = Some (stop, st')" "\<forall>t \<in> set ms. t \<le> retry_until"
          "length ms \<le> paces_left retry_until (clock_now cx st3)" using Cons.IH [OF upholds_inv [OF o(2)]] by blast
        then show ?thesis using None p Some kv g r o(1) go b l(2) l1 l3
          by (intro exI [of _ "ns @ ms"] exI [of _ stop] exI [of _ st']) auto
      qed
    qed
  qed
qed simp

lemma restore_ends:
  assumes "ow_inv cx st" and "clock_now cx st + restore_retry_budget + restore_retry_pace \<le> clk_max (st_clock cx)"
  shows "\<exists>ns stop st'. restore_naps cx hs st = Some (ns, stop, st') \<and> restore_disarmed_roots cx hs st = Some (stop, st') \<and>
    length ns \<le> 20 \<and> (\<forall>t \<in> set ns. t \<le> clock_now cx st + restore_retry_budget)"
proof -
  obtain now st1 where c: "read_clock cx st = (now, st1)" by fastforce
  have n: "now = clock_now cx st" "now \<le> clock_now cx st1" using clock_later [OF c] by simp_all
  have t: "instant_checked_add (st_clock cx) now restore_retry_budget = Some (now + restore_retry_budget)"
    using assms(2) n by (simp add: instant_checked_add_def)
  have "paces_left (now + restore_retry_budget) (clock_now cx st1) \<le> paces_left (now + restore_retry_budget) now"
    by (rule paces_left_mono [OF n(2)])
  also have "\<dots> = 20" by (simp add: paces_left_def restore_retry_budget_def restore_retry_pace_def)
  finally have b: "paces_left (now + restore_retry_budget) (clock_now cx st1) \<le> 20" .
  have "now + restore_retry_budget + restore_retry_pace \<le> clk_max (st_clock cx)" using assms(2) n by simp
  from restore_loop_ends [OF quiet_inv [OF quiet_clock [OF c] assms(1)] this, of hs hs] b show ?thesis
    using c t n by (auto simp: restore_disarmed_roots_def restore_naps_def)
qed

end

end
