(* ===== verification/Owner_Example.thy ===== *)
theory Owner_Example
  imports Owner_Drain Owner_Ends
begin

text \<open>
  A concrete owner: the scripted world, the radix trees as association lists, natural numbers as key
  components, values and handles. The witnesses of the owner's properties run on it.
\<close>

type_synonym ex_world = "(nat, nat, nat) script"

type_synonym ex_owner = "(ex_world, (nat list \<times> (nat, nat) root_record) list,
  (nat list \<times> (u64 list \<times> nat) list) list, nat, nat, nat) owner"

definition script_site ::
  "(('c::linorder, 'v, 'h) script, ('c list \<times> ('c, 'h) root_record) list, ('c list \<times> (u64 list \<times> 'v) list) list,
    (u64 list \<times> 'v) list, 'c, 'v, 'h) site" where
  "script_site = \<lparr>st_world = script_ops, st_radices = assoc_radices,
     st_clock = \<lparr>clk_max = 1000000000000000000, clk_far = 500000000000000000\<rparr>\<rparr>"

interpretation site: paced_delivery script_site
  unfolding paced_delivery_def delivery_def
  by (simp add: script_site_def script.world_axioms script.paced_world_axioms engine.subsumption_axioms)

definition ex_script :: "send_result list \<Rightarrow> ex_world" where
  "ex_script sends = \<lparr>sc_time = 0, sc_ticks = [], sc_sends = sends, sc_full = False, sc_closed = False, sc_sent = [],
     sc_root_keys = [(7, [2])], sc_artifacts = [], sc_calls = [],
     sc_arms = [Settled (Inr \<lparr>ar_handle = 7, ar_key = [2]\<rparr>)], sc_grows = [], sc_closes = [], sc_syncs = [],
     sc_canceled = []\<rparr>"

definition ex_store :: "nat filter_store" where
  "ex_store = (\<lambda>_. \<lparr>fl_predicate = (\<lambda>_. Verdict True), fl_custom = False\<rparr>)"

definition ex_request :: "(nat, nat) watch_request" where
  "ex_request = \<lparr>wq_key = [2], wq_value = 10, wq_interest = delivery_all, wq_filter = 0, wq_debounce = Inherit,
     wq_globs = root_globs_new\<rparr>"

definition ex_start :: "send_result list \<Rightarrow> debounce_config option \<Rightarrow> ex_owner" where
  "ex_start sends d = owner_new script_site (ex_script sends) 1 ex_store d"

abbreviation ex_sub :: subscription where
  "ex_sub \<equiv> Subscription 1 1"

text \<open>The owner after the watch of \<open>ex_request\<close>: one root at \<open>[2]\<close>, one subscription on it.\<close>

definition ex_root :: "(nat, nat) root_record" where
  "ex_root = fresh_root [2] 7 root_globs_new"

definition ex_live :: "send_result list \<Rightarrow> debounce_config option \<Rightarrow> ex_owner" where
  "ex_live sends d = (ex_start sends d)
     \<lparr>ow_world := (ex_script sends)\<lparr>sc_arms := []\<rparr>,
      ow_subsumer := \<lparr>sm_index = [([2], ex_root)], sm_covers = [([2], [([1], 10)])], sm_by_handle = [7 \<mapsto> [2]],
        sm_root_subs = [7 \<mapsto> [ex_sub]],
        sm_subs = [ex_sub \<mapsto> \<lparr>sr_root = 7, sr_key = [2], sr_interest = delivery_all\<rparr>], sm_pending = Map.empty,
        sm_instance = 1, sm_next_sub = 2,
        sm_shared = \<lparr>pb_roots = [([2], ex_root)], pb_covers = [([2], [([1], 10)])]\<rparr>\<rparr>,
      ow_filters := [ex_sub \<mapsto> \<lparr>gt_slot = 0, gt_quarantined = False\<rparr>],
      ow_observed := \<lparr>ob_seen = {7}, ob_order = [7]\<rparr>\<rparr>"

text \<open>A source event of the root.\<close>

definition ex_raw :: "nat list \<Rightarrow> nat event_kind \<Rightarrow> (nat, nat) source_event" where
  "ex_raw key kind = source_event_new 7 key kind [] 1 None"

lemmas watch_exec = script_site_def assoc_radices_def ex_script_def script_ops_def next_answer_def Let_def
  owner_new_def subsumer_new_def assoc_ops_def plan_watch_def reserve_def mint_subscription_def checked_add_def
  fs_path_preserves_plan_def take_pending_def install_sub_def cover_add_def cover_push_def publish_def
  fresh_root_def longest_match.simps root_globs_new_def delivery_all_def covered_outside_def
  reconcile_watch_def reconcile_canonical_watch_def reconcile_disjoint_def arm_def settle_and_seam_def
  settle_race_def adopt_armed_def observe_def install_state_def register_debounce_def retired_debt_def
  retired_rescan_debt_limit_def is_custom_def entry_def gates_install_def observed_handle_history_def
  ledger_new_def subscription_key_def plan_live.simps

lemma ex_watch: "reconcile_watch script_site ex_request (ex_start sends d) = Some (Inr ex_sub, ex_live sends d)"
  by (simp add: watch_exec ex_start_def ex_request_def ex_store_def ex_live_def ex_root_def)

lemma ex_start_inv: "ow_inv script_site (ex_start sends d)"
  unfolding ex_start_def by (rule site.owner_new_inv) (simp add: script_site_def script_ops_def ex_script_def)

lemma ex_live_upholds: "upholds script_site (ex_start sends d) (ex_live sends d)"
  using site.reconcile_upholds [OF ex_start_inv ex_watch] by blast

lemma ex_live_inv: "ow_inv script_site (ex_live sends d)"
  by (rule upholds_inv [OF ex_live_upholds])

text \<open>What the site's operations answer.\<close>

lemma site_ops:
  "wd_now (st_world script_site) e = (case next_answer 0 (sc_ticks e) of (d, ds) \<Rightarrow>
     (sc_time e, e\<lparr>sc_time := sc_time e + d, sc_ticks := ds\<rparr>))"
  "wd_try_send (st_world script_site) ev e =
     (if sc_closed e then (SendClosed, e)
      else case next_answer SendOk (sc_sends e) of (r, rs) \<Rightarrow>
        (case r of SendOk \<Rightarrow> (SendOk, e\<lparr>sc_sends := rs, sc_sent := sc_sent e @ [ev]\<rparr>)
         | SendFull \<Rightarrow> (SendFull, e\<lparr>sc_sends := rs\<rparr>)
         | SendClosed \<Rightarrow> (SendClosed, e\<lparr>sc_sends := rs, sc_closed := True\<rparr>)))"
  "wd_is_full (st_world script_site) e = sc_full e"
  "wd_root_key (st_world script_site) e h = map_of (sc_root_keys e) h"
  "wd_is_artifact (st_world script_site) e k \<longleftrightarrow> k \<in> set (sc_artifacts e)"
  "wd_call (st_world script_site) c e = (case next_answer None (sc_calls e) of (r, rs) \<Rightarrow> (r, e\<lparr>sc_calls := rs\<rparr>))"
  "wd_sent (st_world script_site) e = sc_sent e" "wd_closed (st_world script_site) e = sc_closed e"
  "wd_canceled (st_world script_site) e r \<longleftrightarrow> r \<in> set (sc_canceled e)"
  "st_radices script_site = assoc_radices"
  "st_clock script_site = \<lparr>clk_max = 1000000000000000000, clk_far = 500000000000000000\<rparr>"
  by (simp_all add: script_site_def script_ops_def Let_def split: prod.splits send_result.splits)

lemma index_ops:
  "rx_get assoc_ops t k = map_of t k" "rx_get_ancestor assoc_ops t k = longest_match (map_of t) k"
  "rx_insert assoc_ops k x t = btm_insert k x t" "rx_remove assoc_ops k t = btm_remove k t"
  by (simp_all add: assoc_ops_def)

lemmas consume_exec = site_ops index_ops ex_script_def next_answer_def Let_def
  owner_new_def longest_match.simps ex_live_def ex_start_def ex_root_def fresh_root_def root_globs_new_def
  ex_raw_def source_event_new_def consume_source_event_def retire_if_dead_def clamp_disjoint_live_root_rescan_def
  starts_with_def degrade_retained_cover_on_rescan_def degrade_retained_cover_def fan_out_and_push_def
  reserved_endpoints_of_def fan_out_raw_def reserved_is_total_def kind_is_rescan_def kind_moved_from_def
  root_view_def entry_def stamp_and_fan_out_with_def fan_out_one_def source_routable_ops_def subscription_key_def
  project_rescan_def project_def gate_admits_def subscription_interest_def subscription_value_def
  cover_value_of_def cover_value_def stamp_def stamp_rescan_def hw_of_def base_of_def bump_def epoch_start_def
  epoch_next_def ledger_new_def push_all_def drain_coalescer_due_def read_clock_def admit_def
  event_is_rescan_def event_move_from_def flush_subscription_def co_exec emit_all_def park_all_def try_emit_def
  has_debt_def parked_contains_def park_rescan_event_def park_in_def note_loss_def merge_max_def
  dominate_pending_syncs_def note_domination_def from_source_def source_rescan_clamped_def
  rebase_location_def anchor_location_at_root_def ex_store_def filter_admits_def delivery_all_def
  reserved_any_def sat_add_def location_new_def subscription_entries_def flush_subscription_def

text \<open>
  A located rescan the full channel refuses is parked at its own key; a creation in a sibling subtree
  is then buffered behind it.
\<close>

definition ex_owing :: ex_owner where
  "ex_owing = (ex_live [] (Some ex_cfg))
     \<lparr>ow_epochs := \<lparr>lg_base = Map.empty, lg_high_water = [ex_sub \<mapsto> 1]\<rparr>,
      ow_needs := [(ex_sub, \<lparr>pr_key = [2, 4], pr_epoch = 1, pr_value = Some 10\<rparr>)],
      ow_serial := [ex_sub \<mapsto> 1], ow_gen := 2\<rparr>"

definition ex_created :: "(nat, nat) event" where
  "ex_created = (synthetic ex_sub [2, 5] [] ECreated 1)\<lparr>ev_value := Some 10\<rparr>"

definition ex_behind :: ex_owner where
  "ex_behind = ex_owing\<lparr>ow_coalescer := Some ((coalescer_new (Some ex_cfg))
     \<lparr>co_per_sub_len := [ex_sub \<mapsto> 1],
      co_buffer := [((ex_sub, [2, 5]), \<lparr>bf_first_seen = 0, bf_emit_at = 10, bf_seq = 0, bf_event = ex_created\<rparr>)],
      co_deadlines := [(10, (ex_sub, [2, 5]))], co_next_seq := 1\<rparr>)\<rparr>"

lemma ex_owing_step:
  "consume_source_event script_site (ex_raw [2, 4] ERescan) (ex_live [SendFull] (Some ex_cfg)) = Some ex_owing"
  by (simp add: consume_exec ex_owing_def)

lemma ex_behind_step: "consume_source_event script_site (ex_raw [2, 5] ECreated) ex_owing = Some ex_behind"
  by (simp add: consume_exec ex_owing_def ex_behind_def ex_created_def)

end
