(* ===== verification/Owner_Props.thy ===== *)
theory Owner_Props
  imports Owner_Example
begin

text \<open>
  What the owner task promises, over its runs and per operation. The properties hold for any world and
  any radix trees that keep the laws (\<open>delivery\<close>); the witnesses run \<open>script_site\<close>.
\<close>

section \<open>Runs\<close>

text \<open>
  Property C2. Invariant. However the loop runs from the moment the owner is assembled, every rescan the
  channel has accepted is strictly above everything it accepted for that subscription before (or at the
  end of the number range), every event names a subscription this engine minted, and every rescan still
  owed is above everything its subscription has been sent and lies in its subtree.
\<close>

theorem rescans_dominate_the_stream:
  fixes e :: 'e and st :: "('e, 't, 'u, 'c::linorder, 'v, 'h) owner"
  assumes "delivery cx" and "wd_sent (st_world cx) e = []"
    and "run_loop cx ts loop_start (owner_new cx e inst slot_store debounce) = Some (fl, lp, st)"
  shows "(\<forall>i j. i < j \<longrightarrow> j < length (sent cx st) \<longrightarrow> event_is_rescan (sent cx st ! j) \<longrightarrow>
      ev_subscription (sent cx st ! i) = ev_subscription (sent cx st ! j) \<longrightarrow>
      below (ev_epoch (sent cx st ! i)) (ev_epoch (sent cx st ! j))) \<and>
    (\<forall>ev \<in> set (sent cx st). minted st (ev_subscription ev)) \<and>
    (\<forall>s p. debt st s = Some p \<longrightarrow>
      (\<forall>ev \<in> set (sent cx st). ev_subscription ev = s \<longrightarrow> below (ev_epoch ev) (pr_epoch p)) \<and>
      (\<forall>r. sm_subs (ow_subsumer st) s = Some r \<longrightarrow> prefix (sr_key r) (pr_key p)))"
proof -
  let ?st0 = "owner_new cx e inst slot_store debounce"
  obtain ls where r: "owner_run cx ?st0 ls st" using loop_reaches [OF assms(3)] by blast
  have "ow_inv cx st" using delivery.run_ok [OF assms(1) r delivery.owner_new_inv [OF assms(1,2)]] by blast
  then have s: "stream_ok cx st" and d: "\<And>s p. debt st s = Some p \<Longrightarrow> debt_ok cx st s (pr_key p) (pr_epoch p)"
    by (simp_all add: ow_inv_def)
  have "sorted_wrt after_rescan (sent cx st)" using s by (simp add: stream_ok_def)
  then have "\<And>i j. i < j \<Longrightarrow> j < length (sent cx st) \<Longrightarrow> after_rescan (sent cx st ! i) (sent cx st ! j)"
    by (rule sorted_wrt_nth_less)
  then show ?thesis using s d by (auto simp: after_rescan_def stream_ok_def debt_ok_def)
qed

text \<open>A run of two turns: a watch is granted, then a source event is taken.\<close>

definition ex_turn :: "(nat, nat, nat) arm_taken \<Rightarrow> (nat, nat, nat) turn" where
  "ex_turn a = \<lparr>tn_sync = None, tn_cleanups = [], tn_poll = PollPending, tn_arm = a\<rparr>"

lemma ex_quiet_turn:
  fixes st :: ex_owner
  assumes "ow_pending st = []" and "ow_needs st = []" and "sc_closes (ow_world st) = []"
    and "lp_streak lp < command_fairness_budget"
  shows "run_turn script_site (ex_turn a) lp st = turn_select script_site a lp st"
    and "turn_labels script_site (ex_turn a) lp st = select_labels script_site a st"
proof -
  have e: "(ow_world st)\<lparr>sc_closes := []\<rparr> = ow_world st" using assms(3) by (cases "ow_world st") simp
  have w: "wd_probe (st_world script_site) (ow_world st) = (Settled (), ow_world st)"
    using assms(3) e by (simp add: script_site_def script_ops_def next_answer_def)
  have p: "prune_abandoned_syncs script_site st = st" using assms(1) by (simp add: prune_abandoned_syncs_def)
  have f: "flush_pending_rescans script_site st = st" using assms(2) by (simp add: flush_pending_rescans_def)
  have h: "turn_head script_site (ex_turn a) lp st = Some (FlowContinue, lp, st)"
    by (simp add: turn_head_def p probe_close_signal_def w race_terminal_def Let_def ex_turn_def f)
  have "run_turn script_site (ex_turn a) lp st = turn_select script_site (tn_arm (ex_turn a)) lp st"
    using assms(2,4) by (simp add: run_turn_def h turn_fairness_def loop_deadline_def)
  then show "run_turn script_site (ex_turn a) lp st = turn_select script_site a lp st" by (simp add: ex_turn_def)
  show "turn_labels script_site (ex_turn a) lp st = select_labels script_site a st"
    using assms(2,4) by (simp add: turn_labels_def fairness_labels_def h turn_fairness_def loop_deadline_def)
      (simp add: ex_turn_def)
qed

definition ex_ran :: ex_owner where
  "ex_ran = (ex_live [] None)\<lparr>ow_unclaimed := {ex_sub},
     ow_world := ((ex_script [])\<lparr>sc_arms := []\<rparr>)\<lparr>sc_sent := [ex_created]\<rparr>,
     ow_epochs := \<lparr>lg_base = Map.empty, lg_high_water = [ex_sub \<mapsto> 1]\<rparr>\<rparr>"

lemma ex_turns: "run_loop script_site [ex_turn (TakeWatch ex_request 3), ex_turn (TakeSource (ex_raw [2, 5] ECreated))]
    loop_start (owner_new script_site (ex_script []) 1 ex_store None) =
    Some (FlowContinue, loop_start, ex_ran)"
    and ex_labels: "loop_labels script_site [ex_turn (TakeWatch ex_request 3), ex_turn (TakeSource (ex_raw [2, 5] ECreated))]
      loop_start (owner_new script_site (ex_script []) 1 ex_store None) = [Fanned {ex_created} {}]"
proof -
  let ?lp = "loop_start\<lparr>lp_streak := 1\<rparr>"
  let ?st = "(ex_live [] None)\<lparr>ow_unclaimed := {ex_sub}\<rparr>"
  have l: "lp_streak loop_start < command_fairness_budget" "lp_streak ?lp < command_fairness_budget"
    "lp_streak loop_start = 0" "?lp\<lparr>lp_streak := 0\<rparr> = loop_start"
    by (simp_all add: loop_start_def command_fairness_budget_def)
  have s: "ow_pending (ex_start [] None) = []" "ow_needs (ex_start [] None) = []"
    "sc_closes (ow_world (ex_start [] None)) = []"
    by (simp_all add: ex_start_def owner_new_def ex_script_def)
  have s1: "ow_pending ?st = []" "ow_needs ?st = []" "sc_closes (ow_world ?st) = []"
    by (simp_all add: ex_live_def ex_start_def owner_new_def ex_script_def)
  have live: "\<not> wd_canceled (st_world script_site) (ow_world (ex_live [] None)) 3" "ow_unclaimed (ex_live [] None) = {}"
    by (simp_all add: ex_live_def site_ops ex_script_def ex_start_def owner_new_def)
  have w: "on_watch script_site ex_request 3 (ex_start [] None) = Some (Some (WatchGranted ex_sub, None), ?st)"
    using live by (simp add: on_watch_def ex_watch)
  have c: "consume_source_event script_site (ex_raw [2, 5] ECreated) ?st = Some ex_ran"
    by (simp add: consume_exec ex_ran_def ex_created_def)
  have t1: "run_turn script_site (ex_turn (TakeWatch ex_request 3)) loop_start (ex_start [] None) =
      Some (FlowContinue, ?lp, ?st)"
    using ex_quiet_turn [OF s l(1)] w l(3) by simp
  have t2: "run_turn script_site (ex_turn (TakeSource (ex_raw [2, 5] ECreated))) ?lp ?st =
      Some (FlowContinue, loop_start, ex_ran)"
    using ex_quiet_turn [OF s1 l(2)] c l(4) by simp
  show "run_loop script_site [ex_turn (TakeWatch ex_request 3), ex_turn (TakeSource (ex_raw [2, 5] ECreated))]
      loop_start (owner_new script_site (ex_script []) 1 ex_store None) = Some (FlowContinue, loop_start, ex_ran)"
    using t1 t2 unfolding ex_start_def by simp
  have b1: "turn_labels script_site (ex_turn (TakeWatch ex_request 3)) loop_start (ex_start [] None) = []"
    using ex_quiet_turn(2) [OF s l(1)] live by (simp add: ex_watch)
  have b2: "turn_labels script_site (ex_turn (TakeSource (ex_raw [2, 5] ECreated))) ?lp ?st = [Fanned {ex_created} {}]"
    using ex_quiet_turn(2) [OF s1 l(2)]
    by (simp add: taken_label_def deliveries_def routed_event_def fan_events_def buffered_def consume_exec ex_created_def)
  show "loop_labels script_site [ex_turn (TakeWatch ex_request 3), ex_turn (TakeSource (ex_raw [2, 5] ECreated))]
      loop_start (owner_new script_site (ex_script []) 1 ex_store None) = [Fanned {ex_created} {}]"
    using t1 t2 b1 b2 unfolding ex_start_def by simp
qed

lemma ex_ran_sent: "sent script_site ex_ran = [ex_created]"
  by (simp add: ex_ran_def sent_def site_ops)

theorem rescans_dominate_the_stream_witness:
  "ex_created \<in> set (sent script_site ex_ran) \<and> minted ex_ran (ev_subscription ex_created)"
proof -
  have "wd_sent (st_world script_site) (ex_script []) = []" by (simp add: site_ops ex_script_def)
  from rescans_dominate_the_stream [OF site.delivery_axioms this ex_turns] show ?thesis
    by (simp add: ex_ran_sent)
qed

text \<open>
  Property C1. Safety. No event is lost while the loop runs. The turns determine what they enter in the
  books and in which order (\<open>loop_labels\<close>): every event they took from the source with its deliveries, and
  every release, which strikes out what its subscription had in the books by then. Whatever the run leaves
  in the books is accounted for. It was accepted by the channel, a rescan that stands for it was accepted
  or is owed, it is buffered, the consumer is gone, or the coalescer merged it with an event buffered on
  the same path when a delivery met it there, by the collapse rules, and the result is accounted for.
\<close>

theorem no_event_is_lost:
  fixes e :: 'e and st :: "('e, 't, 'u, 'c::linorder, 'v, 'h) owner"
  assumes "delivery cx" and "wd_sent (st_world cx) e = []"
    and "run_loop cx ts loop_start (owner_new cx e inst slot_store debounce) = Some (fl, lp, st)"
    and "x \<in> due (loop_labels cx ts loop_start (owner_new cx e inst slot_store debounce))"
  shows "accounted cx st (met (loop_labels cx ts loop_start (owner_new cx e inst slot_store debounce))) x"
  using assms by (intro delivery.loop_accounted delivery.owner_new_inv)

theorem no_event_is_lost_witness:
  "ex_created \<in> due (loop_labels script_site [ex_turn (TakeWatch ex_request 3), ex_turn (TakeSource (ex_raw [2, 5] ECreated))]
      loop_start (owner_new script_site (ex_script []) 1 ex_store None)) \<and>
    accounted script_site ex_ran (met [Fanned {ex_created} {}]) ex_created"
proof -
  have w: "wd_sent (st_world script_site) (ex_script []) = []" by (simp add: site_ops ex_script_def)
  have d: "ex_created \<in> due [Fanned {ex_created} {}]" by (simp add: due_def books_def)
  from no_event_is_lost [OF site.delivery_axioms w ex_turns, of ex_created] d
  show ?thesis unfolding ex_labels by blast
qed

end
