(* ===== verification/Owner_Promises.thy ===== *)
theory Owner_Promises
  imports Owner_Props
begin

text \<open>
  What single operations of the owner promise: consuming an event, granting a watch, the offering pass,
  retiring a root, releasing a subscription, claiming a grant, answering a sync barrier, the timer and
  the drain at shutdown.
\<close>

section \<open>Events\<close>

lemma ex_owing_inv: "ow_inv script_site ex_owing"
  using site.consume_ok [OF ex_live_inv ex_owing_step] by (simp add: step_ok_def)

lemma ex_behind_inv: "ow_inv script_site ex_behind"
  using site.consume_ok [OF ex_owing_inv ex_behind_step] by (simp add: step_ok_def)

text \<open>
  Property C3. Safety. Consuming a source event never panics, whether the channel is full or closed, a
  cap is hit, a predicate unwinds or the root is dead; it takes nothing back from the channel; and every
  event settled before, and every event it fans out, is settled afterwards unless the coalescer merged
  it with the event buffered on its path, whose outcome is then settled.
\<close>

theorem consume_keeps_every_event:
  fixes st :: "('e, 't, 'u, 'c::linorder, 'v, 'h) owner"
  assumes "delivery cx" and "ow_inv cx st"
  shows "\<exists>st'. consume_source_event cx ev st = Some st' \<and> ow_inv cx st' \<and> prefix (sent cx st) (sent cx st') \<and>
    (\<forall>x. settled cx st x \<or> x \<in> set (deliveries cx ev st) \<longrightarrow>
       settled cx st' x \<or> absorbed (settled cx st') (buffered st) (deliveries cx ev st) x)"
  using delivery.consume_upholds [OF assms, of ev] by metis

theorem consume_keeps_every_event_witness:
  "\<exists>st'. consume_source_event script_site (ex_raw [2, 5] ECreated) ex_owing = Some st' \<and> ow_inv script_site st' \<and>
     ex_created \<in> set (deliveries script_site (ex_raw [2, 5] ECreated) ex_owing) \<and> settled script_site st' ex_created"
proof -
  have d: "ex_created \<in> set (deliveries script_site (ex_raw [2, 5] ECreated) ex_owing)"
    by (simp add: deliveries_def routed_event_def fan_events_def consume_exec ex_owing_def ex_created_def)
  have "buffered ex_owing = {#}" by (simp add: ex_owing_def ex_live_def ex_start_def owner_new_def buffered_def slots_def
        coalescer_new_def)
  then have "\<not> absorbed Q (buffered ex_owing) ds x" for Q ds x by (simp add: absorbed_def)
  then show ?thesis
    using d consume_keeps_every_event [OF site.delivery_axioms ex_owing_inv, of "ex_raw [2, 5] ECreated"] by blast
qed

text \<open>
  Property C4. Functional. A watch that is granted yields a live subscription that owes nothing and is owed
  nothing; whatever the watch came to (granted, refused, abandoned to a close, unwound), the invariant
  holds and nothing settled for any other subscription is lost, through every retirement, retarget,
  re-arm and rollback of roots on the way.
\<close>

theorem watch_grants_cleanly:
  fixes st :: "('e, 't, 'u, 'c::linorder, 'v, 'h) owner"
  assumes "delivery cx" and "ow_inv cx st" and "reconcile_watch cx rq st = Some (res, st')"
  shows "ow_inv cx st' \<and> keeps_settled cx st st' \<and> prefix (sent cx st) (sent cx st') \<and>
    (\<forall>s. res = Inr s \<longrightarrow> sm_subs (ow_subsumer st') s \<noteq> None \<and> debt st' s = None)"
  using delivery.reconcile_upholds [OF assms] by (simp add: upholds_def granted_def)

theorem watch_grants_cleanly_witness:
  "sm_subs (ow_subsumer (ex_live [] None)) ex_sub \<noteq> None \<and> debt (ex_live [] None) ex_sub = None"
  using watch_grants_cleanly [OF site.delivery_axioms ex_start_inv ex_watch [of "[]" None]] by blast

section \<open>Offering\<close>

text \<open>
  Property C30. Functional. A pass over the parked rescans offers them in turn, from the cursor on and
  around: it delivers a run of that order, each as a rescan at its widened key and its epoch, takes
  exactly the delivered ones off the plane, and leaves the cursor on the first one refused, where the
  next pass begins; the suppressed plane is not touched.
\<close>

theorem flush_serves_in_turn:
  fixes st :: "('e, 't, 'u, 'c::linorder, 'v, 'h) owner"
  assumes "delivery cx" and "ow_inv cx st" and "\<not> wd_is_full (st_world cx) (ow_world st)" and "ow_needs st \<noteq> []"
    and "\<not> shut cx (flush_pending_rescans cx st)"
  shows "let order = turn_order (ow_cursor st) False (ow_needs st); st' = flush_pending_rescans cx st
    in ow_suppressed st' = ow_suppressed st \<and> set order = fst ` set (ow_needs st) \<and> distinct order \<and>
       (\<exists>m \<le> length order.
         sent cx st' = sent cx st @ map (\<lambda>s. parked_event s (the (map_of (ow_needs st) s))) (take m order) \<and>
         (\<forall>s. map_of (ow_needs st') s = (if s \<in> set (take m order) then None else map_of (ow_needs st) s)) \<and>
         ow_cursor st' = (if m < length order then Some (order ! m) else None))"
proof -
  let ?st = "st\<lparr>ow_cursor := None\<rparr>"
  let ?order = "turn_order (ow_cursor st) False (ow_needs st)"
  have i: "ow_inv cx ?st" by (rule serves_inv [OF cursor_serves [OF assms(2)]])
  have f: "flush_pending_rescans cx st = flush_loop cx (length (ow_needs st)) (ow_cursor st) False ?st"
    using assms(3,4) by (simp add: flush_pending_rescans_def)
  have b: "btm_ok (ow_needs st)" using assms(2) by (simp add: ow_inv_def planes_ok_def)
  have s: "sent cx ?st = sent cx st" "ow_needs ?st = ow_needs st" "ow_suppressed ?st = ow_suppressed st"
    by (simp_all add: sent_def)
  note p = delivery.flush_loop_pass [OF assms(1) i, of "length (ow_needs st)" ?order "ow_cursor st" False,
      unfolded s, OF order_refl refl]
  show ?thesis unfolding Let_def f
    using p assms(5) set_turn_order [of "ow_cursor st" False "ow_needs st"]
      turn_order_distinct [OF b, of "ow_cursor st" False]
    unfolding f by blast
qed

theorem flush_serves_in_turn_witness:
  "sent script_site (flush_pending_rescans script_site ex_owing) =
     [(event_rescan ex_sub [2, 4] 1)\<lparr>ev_value := Some 10\<rparr>]"
proof -
  have run: "flush_pending_rescans script_site ex_owing =
      ex_owing\<lparr>ow_world := ((ex_script [])\<lparr>sc_arms := []\<rparr>)
        \<lparr>sc_sent := [(event_rescan ex_sub [2, 4] 1)\<lparr>ev_value := Some 10\<rparr>]\<rparr>, ow_needs := [], ow_gen := 3\<rparr>"
    by (simp add: flush_pending_rescans_def consume_exec ex_owing_def parked_event_def parked_take_def first_from_def)
  have "\<not> wd_is_full (st_world script_site) (ow_world ex_owing)" "ow_needs ex_owing \<noteq> []"
    "\<not> shut script_site (flush_pending_rescans script_site ex_owing)" "sent script_site ex_owing = []"
    "turn_order (ow_cursor ex_owing) False (ow_needs ex_owing) = [ex_sub]"
    "ow_needs (flush_pending_rescans script_site ex_owing) = []"
    "parked_event ex_sub (the (map_of (ow_needs ex_owing) ex_sub)) =
       (event_rescan ex_sub [2, 4] 1)\<lparr>ev_value := Some 10\<rparr>"
    "map_of (ow_needs ex_owing) ex_sub \<noteq> None"
    unfolding run
    by (simp_all add: ex_owing_def ex_live_def ex_start_def owner_new_def site_ops ex_script_def shut_def sent_def
        turn_order_def parked_event_def)
  note f = this
  from flush_serves_in_turn [OF site.delivery_axioms ex_owing_inv f(1,2,3)] f(4,5,6,7,8)
  show ?thesis by (auto simp: Let_def le_Suc_eq)
qed

section \<open>Endings\<close>

text \<open>
  Property C8. Safety. A root that dies takes its subscriptions with it without a panic, and each of them
  is left with a terminal rescan that stands for everything ever stamped for it; its filter, its loss
  counter and its buffered events are gone, the root is off the index, and no other subscription is
  touched.
\<close>

theorem retired_root_owes_terminal_rescans:
  fixes st :: "('e, 't, 'u, 'c::linorder, 'v, 'h) owner"
  assumes "delivery cx" and "ow_inv cx st"
  shows "\<exists>st'. retire_root_with_terminal_rescan cx h st = Some st' \<and> ow_inv cx st' \<and> keeps_settled cx st st' \<and>
    sm_by_handle (ow_subsumer st') h = None \<and>
    (\<forall>s. s \<in> set (cohort_of (ow_subsumer st) h) \<longrightarrow>
       sm_subs (ow_subsumer st') s = None \<and> ow_filters st' s = None \<and> ow_serial st' s = None \<and> debt st' s \<noteq> None \<and>
       (\<forall>ev. ev_ok st ev \<and> ev_subscription ev = s \<longrightarrow> owed st' ev) \<and>
       (\<forall>x. x \<in># buffered st' \<longrightarrow> ev_subscription x \<noteq> s)) \<and>
    (\<forall>s. s \<notin> set (cohort_of (ow_subsumer st) h) \<longrightarrow> sm_subs (ow_subsumer st') s = sm_subs (ow_subsumer st) s)"
proof -
  obtain st' where "retire_root_with_terminal_rescan cx h st = Some st'" "upholds cx st st'"
    "\<forall>s. sm_subs (ow_subsumer st') s = (if s \<in> set (cohort_of (ow_subsumer st) h) then None else sm_subs (ow_subsumer st) s)"
    "sm_by_handle (ow_subsumer st') h = None"
    "\<forall>ev. ev_ok st ev \<and> ev_subscription ev \<in> set (cohort_of (ow_subsumer st) h) \<longrightarrow> owed st' ev"
    "\<forall>s \<in> set (cohort_of (ow_subsumer st) h). debt st' s \<noteq> None"
    "\<forall>x. x \<in># buffered st' \<longrightarrow> x \<in># buffered st \<and> ev_subscription x \<notin> set (cohort_of (ow_subsumer st) h)"
    "\<forall>s. s \<in> set (cohort_of (ow_subsumer st) h) \<longrightarrow> ow_filters st' s = None \<and> ow_serial st' s = None"
    by (rule delivery.retire_root_upholds [OF assms, of h])
  then show ?thesis by (intro exI [of _ st']) (auto simp: upholds_def)
qed

theorem retired_root_owes_terminal_rescans_witness:
  "\<exists>st'. retire_root_with_terminal_rescan script_site 7 ex_behind = Some st' \<and> owed st' ex_created"
proof -
  have "cohort_of (ow_subsumer ex_behind) 7 = [ex_sub]"
    by (simp add: cohort_of_def ex_behind_def ex_owing_def ex_live_def)
  moreover have "ev_ok ex_behind ex_created"
    by (simp add: ev_ok_def ex_behind_def ex_owing_def ex_live_def ex_created_def synthetic_def hw_of_def)
  moreover have "ev_subscription ex_created = ex_sub" by (simp add: ex_created_def synthetic_def)
  ultimately show ?thesis
    using retired_root_owes_terminal_rescans [OF site.delivery_axioms ex_behind_inv, of 7] by auto
qed

text \<open>
  Releasing a subscription never panics and answers whether it was live. When
  the engine minted it nothing of it is left (no record, debt, gate, loss counter, claim mark or
  buffered event), nothing is sent, and no other subscription loses anything or changes.
\<close>

theorem release_leaves_nothing:
  fixes st :: "('e, 't, 'u, 'c::linorder, 'v, 'h) owner"
  assumes "delivery cx" and "ow_inv cx st"
  shows "\<exists>res st'. release_subscription cx sub st = Some (res, st') \<and> ow_inv cx st' \<and> sent cx st' = sent cx st \<and>
    res = (if sm_subs (ow_subsumer st) sub = None then Inl UnUnknownSubscription else Inr ()) \<and>
    (sub_instance sub = sm_instance (ow_subsumer st) \<longrightarrow>
       sm_subs (ow_subsumer st') sub = None \<and> debt st' sub = None \<and> ow_filters st' sub = None \<and>
       ow_serial st' sub = None \<and> sub \<notin> ow_unclaimed st' \<and> (\<forall>x. x \<in># buffered st' \<longrightarrow> ev_subscription x \<noteq> sub)) \<and>
    (\<forall>x. ev_subscription x \<noteq> sub \<and> settled cx st x \<longrightarrow> settled cx st' x) \<and>
    (\<forall>s. s \<noteq> sub \<longrightarrow> sm_subs (ow_subsumer st') s = sm_subs (ow_subsumer st) s \<and> debt st' s = debt st s)"
  by (rule delivery.release_inv [OF assms, of sub]) (intro exI conjI; assumption)

theorem release_leaves_nothing_witness:
  "\<exists>st'. release_subscription script_site ex_sub ex_behind = Some (Inr (), st') \<and> debt st' ex_sub = None"
proof -
  have "sm_subs (ow_subsumer ex_behind) ex_sub \<noteq> None" "sub_instance ex_sub = sm_instance (ow_subsumer ex_behind)"
    by (simp_all add: ex_behind_def ex_owing_def ex_live_def)
  then show ?thesis using release_leaves_nothing [OF site.delivery_axioms ex_behind_inv, of ex_sub] by auto
qed

text \<open>
  Claiming a grant changes nothing but who is offered: the rescan a
  subscription is owed is the same before and after, on the offered plane instead of the suppressed one,
  and the planes stay separated by claim.
\<close>

theorem claim_moves_the_debt:
  fixes st :: "('e, 't, 'u, 'c::linorder, 'v, 'h) owner"
  assumes "ow_inv cx st" and "apply_cleanup cx (Claim sub) st = Some st'"
  shows "ow_inv cx st' \<and> debt st' = debt st \<and> map_of (ow_needs st') sub = debt st sub \<and>
    map_of (ow_suppressed st') sub = None \<and> ow_unclaimed st' = ow_unclaimed st - {sub} \<and>
    (\<forall>x. settled cx st' x = settled cx st x)"
proof -
  have pl: "planes_ok st" using assms(1) by (simp add: ow_inv_def)
  note d = claim_debt [OF pl assms(2)]
  note u = claim_upholds [OF assms]
  obtain sup nds where "promote sub (ow_suppressed st) (ow_needs st) = (sup, nds)" by fastforce
  then have st': "st' = st\<lparr>ow_unclaimed := ow_unclaimed st - {sub}, ow_suppressed := sup, ow_needs := nds\<rparr>"
    using assms(2) by simp
  have un: "ow_unclaimed st' = ow_unclaimed st - {sub}" by (simp add: st')
  then have sup: "map_of (ow_suppressed st') sub = None" using d(2) by (auto simp: planes_ok_def)
  then have "debt st' sub = map_of (ow_needs st') sub" by (simp add: debt_def map_add_def split: option.splits)
  moreover have "settled cx st' x = settled cx st x" for x
    using d(1) by (simp add: st' settled_def rescanned_def owed_def sent_def shut_def buffered_def)
  ultimately show ?thesis using upholds_inv [OF u] d(1) un sup by simp
qed

theorem claim_moves_the_debt_witness:
  "\<exists>st'. apply_cleanup script_site (Claim ex_sub) ex_ran = Some st' \<and> ow_unclaimed st' = {}"
proof -
  have "wd_sent (st_world script_site) (ex_script []) = []" by (simp add: site_ops ex_script_def)
  obtain ls where r: "owner_run script_site (ex_start [] None) ls ex_ran"
    using loop_reaches [OF ex_turns] by (auto simp: ex_start_def)
  have i: "ow_inv script_site ex_ran" using site.run_ok [OF r ex_start_inv] by blast
  obtain st' where a: "apply_cleanup script_site (Claim ex_sub) ex_ran = Some st'"
    by (cases "promote ex_sub (ow_suppressed ex_ran) (ow_needs ex_ran)") simp
  have "ow_unclaimed ex_ran = {ex_sub}" by (simp add: ex_ran_def)
  then show ?thesis using claim_moves_the_debt [OF i a] a by auto
qed

section \<open>The timer and the drain\<close>

lemma next_deadline_armed:
  assumes "co_inv co" and "slots co \<noteq> {#}"
  shows "next_deadline co \<noteq> None"
proof -
  have "co_buffer co \<noteq> []" using assms(2) by (auto simp: slots_def)
  then have "co_deadlines co \<noteq> []" using assms(1) by (auto simp: co_inv_def index_ok_def)
  then show ?thesis by (cases "co_deadlines co"; cases "co_ready co") (auto simp: next_deadline_def)
qed

text \<open>
  Property C31. Liveness. The loop never sleeps on what it owes: as long as a claimed subscription is owed
  a rescan or an event is buffered, the timer of the turn is armed, no later than one retry delay from
  now for an owed rescan and no later than the first settle deadline for a buffered event.
\<close>

theorem timer_is_armed:
  fixes st :: "('e, 't, 'u, 'c::linorder, 'v, 'h) owner"
  assumes "ow_inv cx st" and "loop_deadline cx st = Some (d, st')" and "ow_needs st \<noteq> [] \<or> buffered st \<noteq> {#}"
  shows "\<exists>t. d = Some t \<and> (ow_needs st \<noteq> [] \<longrightarrow> t \<le> clock_now cx st + retry_delay) \<and>
    (\<forall>co a. ow_coalescer st = Some co \<and> next_deadline co = Some a \<longrightarrow> t \<le> a)"
proof (cases "ow_needs st = []")
  case True
  then have d: "d = Option.bind (ow_coalescer st) next_deadline" using assms(2) by (auto simp: loop_deadline_def)
  have "buffered st \<noteq> {#}" using assms(3) True by simp
  then obtain co where co: "ow_coalescer st = Some co" "slots co \<noteq> {#}" by (auto simp: buffered_def split: option.splits)
  then have "co_inv co" using assms(1) by (simp add: ow_inv_def buffer_ok_def at_rest_def)
  then obtain a where "next_deadline co = Some a" using next_deadline_armed co(2) by blast
  then show ?thesis using d co True by auto
next
  case False
  obtain now st1 where c: "read_clock cx st = (now, st1)" by fastforce
  have n: "now = clock_now cx st" using c by (auto simp: read_clock_def clock_now_def split: prod.splits)
  obtain t where t: "instant_checked_add (st_clock cx) now retry_delay = Some t"
      "d = min_deadline (Option.bind (ow_coalescer st) next_deadline) (Some t)"
    using assms(2) False c by (auto simp: loop_deadline_def Let_def)
  have "t = now + retry_delay" using t(1) by (auto simp: instant_checked_add_def split: if_splits)
  then show ?thesis using t(2) n
    by (auto simp: min_deadline_def split: option.splits)
qed

theorem timer_is_armed_witness:
  "\<exists>t. fst (the (loop_deadline script_site ex_behind)) = Some t \<and> t \<le> 10"
proof -
  have run: "\<exists>d st'. loop_deadline script_site ex_behind = Some (d, st')"
    by (simp add: loop_deadline_def consume_exec ex_behind_def ex_owing_def retry_delay_def)
  have b: "ow_needs ex_behind \<noteq> []" "\<exists>co. ow_coalescer ex_behind = Some co \<and> next_deadline co = Some 10"
    by (simp_all add: ex_behind_def ex_owing_def coalescer_new_def next_deadline_def)
  obtain d st' where l: "loop_deadline script_site ex_behind = Some (d, st')" using run by blast
  show ?thesis using timer_is_armed [OF ex_behind_inv l] b l by auto
qed

end
