(* ===== verification/Owner_Answers.thy ===== *)
theory Owner_Answers
  imports Owner_Promises
begin

text \<open>
  The sync barriers, the end of the loops and the shutdown: what an answer \<open>Delivered\<close> says, that each
  barrier is answered once, that planning and restoring end, what the drain delivers and the one event
  it can drop.
\<close>

section \<open>Barriers\<close>

lemma mset_rotate: "mset (if xs = [] then [] else last xs # butlast xs) = mset xs"
  by (cases xs rule: rev_cases) simp_all

lemma swap_drain_partition:
  "swap_drain P xs = (taken, kept) \<Longrightarrow> mset taken = filter_mset P (mset xs) \<and> mset kept = filter_mset (\<lambda>x. \<not> P x) (mset xs)"
proof (induction P xs arbitrary: taken kept rule: swap_drain.induct)
  case (2 P x xs)
  let ?r = "if xs = [] then [] else last xs # butlast xs"
  show ?case
  proof (cases "P x")
    case True
    obtain t k where r: "swap_drain P ?r = (t, k)" by fastforce
    then have "mset t = filter_mset P (mset ?r) \<and> mset k = filter_mset (\<lambda>x. \<not> P x) (mset ?r)"
      using "2.IH"(1) True by blast
    then show ?thesis using True r "2.prems" mset_rotate [of xs] by (auto simp: Let_def)
  next
    case False
    obtain t k where r: "swap_drain P xs = (t, k)" by fastforce
    then have "mset t = filter_mset P (mset xs) \<and> mset k = filter_mset (\<lambda>x. \<not> P x) (mset xs)"
      using "2.IH"(2) False by blast
    then show ?thesis using False r "2.prems" by (auto simp: Let_def)
  qed
qed simp

lemma reap_answers [simp]:
  "ow_answers (reap_cookie cx h k st) = ow_answers st" "ow_pending (reap_cookie cx h k st) = ow_pending st"
  by (simp_all add: reap_cookie_def offer_source_def split: prod.splits option.splits)

lemma answer_each:
  "ow_answers (foldl (\<lambda>st p. reap_cookie cx (ps_root p) (ps_cookie_key p) (answer (ps_reply p) a st)) st ps) =
     ow_answers st @ map (\<lambda>p. (ps_reply p, a)) ps"
  "ow_pending (foldl (\<lambda>st p. reap_cookie cx (ps_root p) (ps_cookie_key p) (answer (ps_reply p) a st)) st ps) =
     ow_pending st"
  by (induction ps arbitrary: st) (simp_all add: answer_def)

text \<open>
  The in-place scans that move the last entry into each vacated place are a
  filter: dominating the barriers of a root, or retiring those of a subscription, answers each matching
  barrier exactly once and no other, with the one answer the operation gives, and leaves exactly the
  others pending.
\<close>

theorem matching_barriers_answered_once:
  fixes st :: "('e, 't, 'u, 'c, 'v, 'h) owner"
  shows "(\<exists>ps. mset ps = filter_mset (\<lambda>p. ps_root p = h) (mset (ow_pending st)) \<and>
      ow_answers (dominate_syncs_of_root cx h st) = ow_answers st @ map (\<lambda>p. (ps_reply p, Inr Dominated)) ps \<and>
      mset (ow_pending (dominate_syncs_of_root cx h st)) = filter_mset (\<lambda>p. ps_root p \<noteq> h) (mset (ow_pending st))) \<and>
    (\<exists>ps. mset ps = filter_mset (\<lambda>p. ps_sub p = s) (mset (ow_pending st)) \<and>
      ow_answers (retire_syncs_of_subscription cx s st) = ow_answers st @ map (\<lambda>p. (ps_reply p, Inl SeRetired)) ps \<and>
      mset (ow_pending (retire_syncs_of_subscription cx s st)) = filter_mset (\<lambda>p. ps_sub p \<noteq> s) (mset (ow_pending st)))"
proof
  obtain ps kept where r: "swap_drain (\<lambda>p. ps_root p = h) (ow_pending st) = (ps, kept)" by fastforce
  have n: "ow_pending (note_domination st) = ow_pending st" "ow_answers (note_domination st) = ow_answers st"
    by (simp_all add: note_domination_def)
  show "\<exists>ps. mset ps = filter_mset (\<lambda>p. ps_root p = h) (mset (ow_pending st)) \<and>
      ow_answers (dominate_syncs_of_root cx h st) = ow_answers st @ map (\<lambda>p. (ps_reply p, Inr Dominated)) ps \<and>
      mset (ow_pending (dominate_syncs_of_root cx h st)) = filter_mset (\<lambda>p. ps_root p \<noteq> h) (mset (ow_pending st))"
    using swap_drain_partition [OF r] r n
    by (intro exI [of _ ps]) (simp add: dominate_syncs_of_root_def finish_syncs_def answer_each)
next
  obtain ps kept where r: "swap_drain (\<lambda>p. ps_sub p = s) (ow_pending st) = (ps, kept)" by fastforce
  show "\<exists>ps. mset ps = filter_mset (\<lambda>p. ps_sub p = s) (mset (ow_pending st)) \<and>
      ow_answers (retire_syncs_of_subscription cx s st) = ow_answers st @ map (\<lambda>p. (ps_reply p, Inl SeRetired)) ps \<and>
      mset (ow_pending (retire_syncs_of_subscription cx s st)) = filter_mset (\<lambda>p. ps_sub p \<noteq> s) (mset (ow_pending st))"
    using swap_drain_partition [OF r] r
    by (intro exI [of _ ps]) (simp add: retire_syncs_of_subscription_def finish_syncs_def answer_each)
qed

lemma emit_answers [simp]: "ow_answers (try_emit cx ev st) = ow_answers st"
  by (simp add: try_emit_def park_rescan_event_def widen_parked_debt_def park_rescan_def note_loss_def on_shed_def
      Let_def split: send_result.splits prod.splits option.splits)

lemma emit_all_answers [simp]: "ow_answers (emit_all cx evs st) = ow_answers st"
  unfolding emit_all_def by (induction evs arbitrary: st) simp_all

lemma flush_now_answers: "flush_subscription_now cx sub st = Some (c, st') \<Longrightarrow> ow_answers st' = ow_answers st"
  by (auto simp: flush_subscription_now_def read_clock_def split: prod.splits option.splits Option.bind_splits)

text \<open>
  What a barrier reads. A loss of a subscription moves its own serial and the generation every handle
  reads; \<open>metered\<close> is that movement.
\<close>

definition metered ::
  "subscription \<Rightarrow> ('e, 't, 'u, 'c, 'v, 'h) owner \<Rightarrow> ('e, 't, 'u, 'c, 'v, 'h) owner \<Rightarrow> bool" where
  "metered s st st' \<longleftrightarrow> serial_of s st' = serial_of s st + 1 \<and> ow_gen st' = ow_gen st + 1 \<and>
     (\<forall>x. x \<noteq> s \<longrightarrow> serial_of x st' = serial_of x st)"

lemma metered_parts:
  "metered s st (park_in s k e v (note_loss s st))" "metered s st (widen_parked_debt ev st) \<longleftrightarrow> s = ev_subscription ev"
  "metered s st (park_rescan cx s st)" "metered s st (rescan_sub cx k s st)"
proof -
  show "metered s st (park_in s k e v (note_loss s st))"
    by (simp add: metered_def serial_of_def note_loss_def park_in_def)
  show "metered s st (widen_parked_debt ev st) \<longleftrightarrow> s = ev_subscription ev"
    by (auto simp: metered_def serial_of_def note_loss_def widen_parked_debt_def on_shed_def Let_def split: prod.splits)
  show "metered s st (park_rescan cx s st)"
    by (simp add: metered_def serial_of_def note_loss_def park_rescan_def on_shed_def park_in_def drop_buffered_def Let_def
        split: prod.splits option.splits)
  show "metered s st (rescan_sub cx k s st)"
    by (simp add: metered_def serial_of_def note_loss_def rescan_sub_def on_shed_def park_in_def drop_buffered_def Let_def
        split: prod.splits option.splits)
qed

lemma metered_world: "metered s (st\<lparr>ow_world := e\<rparr>) st' = metered s st st'"
  by (simp add: metered_def serial_of_def)

context delivery
begin

lemma emit_meter:
  shows "metered (ev_subscription ev) st (try_emit cx ev st) \<or>
    (sent cx (try_emit cx ev st) = sent cx st @ [ev] \<or> shut cx (try_emit cx ev st)) \<and>
    debt (try_emit cx ev st) = debt st"
proof (cases "has_debt (ev_subscription ev) st")
  case True
  then show ?thesis by (simp add: try_emit_def park_rescan_event_def metered_parts)
next
  case False
  show ?thesis
  proof (cases rule: wd.send_cases [of ev "ow_world st"])
    case (ok e)
    then show ?thesis using False by (simp add: try_emit_def sent_def)
  next
    case (full e)
    note m = metered_parts [of "ev_subscription ev" "st\<lparr>ow_world := e\<rparr>"]
    show ?thesis using full False m(1) m(3) [of cx] by (simp add: try_emit_def park_rescan_event_def metered_world)
  next
    case (closed e)
    then show ?thesis using False by (simp add: try_emit_def shut_def)
  qed
qed

end

text \<open>
  Property C7. Functional. What \<open>Delivered\<close> says. A barrier on a live, claimed subscription that
  \<open>admit_begun_cookie\<close> installed is answered exactly once, and it is answered \<open>Delivered\<close> if and only if at
  its admission the subscription was owed nothing and the generation was still the one the caller read at
  the call, its serial has not moved since, and after the flush the answer rides on it owes nothing. Then
  every event held for it has been accepted by the channel (or the consumer is gone) and none is held any
  more. What the two counters count: every event the channel did not take, every shed and every rescan of
  a root moves the serial of its subscription and the generation.
\<close>

theorem delivered_means_delivered:
  fixes st :: "('e, 't, 'u, 'c::linorder, 'v, 'h) owner"
  assumes "delivery cx" and "ow_inv cx st" and "sub \<notin> ow_unclaimed st"
    and "ow_pending (admit_begun_cookie cx ck sub root g r st0) = ow_pending st0 @ [p]"
    and "resolve_one cx p st = Some st'"
  shows "(\<exists>a. ow_answers st' = ow_answers st @ [(r, Inr a)] \<and>
      (a = Delivered \<longleftrightarrow> debt st0 sub = None \<and> ow_gen st0 = g \<and> serial_of sub st = serial_of sub st0 \<and>
         debt st' sub = None) \<and>
      (a = Delivered \<longrightarrow> (shut cx st' \<or>
         (\<forall>x. x \<in># buffered st \<and> ev_subscription x = sub \<longrightarrow> x \<in> set (sent cx st'))))) \<and>
    (\<forall>x. x \<in># buffered st' \<longrightarrow> ev_subscription x \<noteq> sub) \<and>
    (\<forall>ev st1. metered (ev_subscription ev) st1 (try_emit cx ev st1) \<or>
      (sent cx (try_emit cx ev st1) = sent cx st1 @ [ev] \<or> shut cx (try_emit cx ev st1)) \<and>
      debt (try_emit cx ev st1) = debt st1) \<and>
    (\<forall>s k st1. metered s st1 (park_rescan cx s st1) \<and> metered s st1 (rescan_sub cx k s st1))"
proof -
  let ?r = "reap_cookie cx (ps_root p) (ps_cookie_key p) st"
  have p: "ps_sub p = sub" "ps_reply p = r" "ps_serial p = serial_of sub st0"
    "ps_dominated p \<longleftrightarrow> has_debt sub st0 \<or> ow_gen st0 \<noteq> g"
    using assms(4) by (auto simp: admit_begun_cookie_def split: if_splits)
  have q: "quiet cx st ?r" by (rule delivery.quiet_reap [OF assms(1)])
  have i: "ow_inv cx ?r" by (rule quiet_inv [OF q assms(2)])
  obtain clean st1 where f: "flush_subscription_now cx sub ?r = Some (clean, st1)" "progress cx ?r st1"
    "clean \<longleftrightarrow> \<not> parked_contains sub (ow_needs st1)"
    "\<forall>x. x \<in># buffered ?r \<and> ev_subscription x = sub \<longrightarrow> landed cx st1 x"
    "\<forall>x. x \<in># buffered st1 \<longrightarrow> ev_subscription x \<noteq> sub"
    using delivery.flush_now_progress [OF assms(1) i, of sub] by metis
  define a where "a = (if clean \<and> serial_of sub st = ps_serial p \<and> \<not> ps_dominated p then Delivered else Dominated)"
  have st': "st' = answer r (Inr a) st1" using assms(5) f(1) p by (simp add: resolve_one_def a_def)
  have same: "buffered ?r = buffered st" "sent cx st' = sent cx st1" "shut cx st' = shut cx st1"
    "debt st' = debt st1" "buffered st' = buffered st1"
    using core_same_readings [of cx st ?r] q
    by (simp_all add: quiet_def st' answer_def sent_def shut_def debt_def buffered_def)
  have once: "ow_answers st' = ow_answers st @ [(r, Inr a)]"
    using flush_now_answers [OF f(1)] by (simp add: st' answer_def)
  have "ow_unclaimed st1 = ow_unclaimed st"
    using f(2) q by (auto simp: progress_def emission_frame_def quiet_def core_same_def)
  moreover have "planes_ok st1" using f(2) by (simp add: progress_def ow_inv_def)
  ultimately have "map_of (ow_suppressed st1) sub = None" using assms(3) by (auto simp: planes_ok_def)
  then have clean: "clean \<longleftrightarrow> debt st' sub = None"
    using f(3) same(4) by (auto simp: debt_def parked_contains_def map_add_None)
  have "has_debt sub st0 \<longleftrightarrow> debt st0 sub \<noteq> None"
    by (auto simp: has_debt_def parked_contains_def debt_def map_add_None)
  then have out: "a = Delivered \<longleftrightarrow> debt st0 sub = None \<and> ow_gen st0 = g \<and> serial_of sub st = serial_of sub st0 \<and>
      debt st' sub = None"
    using clean p by (auto simp: a_def)
  have "shut cx st' \<or> (\<forall>x. x \<in># buffered st \<and> ev_subscription x = sub \<longrightarrow> x \<in> set (sent cx st'))" if "a = Delivered"
    using that out f(4) same by (auto simp: landed_def owed_def)
  then have "\<exists>a. ow_answers st' = ow_answers st @ [(r, Inr a)] \<and>
      (a = Delivered \<longleftrightarrow> debt st0 sub = None \<and> ow_gen st0 = g \<and> serial_of sub st = serial_of sub st0 \<and>
         debt st' sub = None) \<and>
      (a = Delivered \<longrightarrow> (shut cx st' \<or>
         (\<forall>x. x \<in># buffered st \<and> ev_subscription x = sub \<longrightarrow> x \<in> set (sent cx st'))))"
    using once out by blast
  then show ?thesis using f(5) same(5) delivery.emit_meter [OF assms(1)] metered_parts(3,4) [where cx = cx]
    by (intro conjI allI) simp_all
qed

text \<open>A barrier admitted on the live owner, answered while an event is buffered.\<close>

definition ex_barrier :: "(nat, nat) pending_sync" where
  "ex_barrier = \<lparr>ps_cookie_key = [2, 9], ps_sub = ex_sub, ps_root = 7, ps_serial = 0, ps_dominated = False, ps_reply = 4\<rparr>"

definition ex_held :: ex_owner where
  "ex_held = (ex_live [] (Some ex_cfg))\<lparr>ow_epochs := ow_epochs ex_owing, ow_coalescer := ow_coalescer ex_behind\<rparr>"

lemma ex_held_step:
  "consume_source_event script_site (ex_raw [2, 5] ECreated) (ex_live [] (Some ex_cfg)) = Some ex_held"
  by (simp add: consume_exec ex_held_def ex_owing_def ex_behind_def ex_created_def)

lemma ex_brimming_inv: "ow_inv script_site ex_held"
  using site.consume_ok [OF ex_live_inv ex_held_step] by (simp add: step_ok_def)

lemmas resolve_exec = resolve_one_def reap_cookie_def offer_source_def flush_subscription_now_def answer_def
  serial_of_def flush_subscription_def subscription_entries_def

lemma ex_admitted: "ow_pending (admit_begun_cookie script_site [2, 9] ex_sub 7 0 4 (ex_live [] (Some ex_cfg))) =
    ow_pending (ex_live [] (Some ex_cfg)) @ [ex_barrier]"
  by (simp add: admit_begun_cookie_def ex_barrier_def site_ops ex_live_def ex_start_def owner_new_def ex_script_def
      serial_of_def has_debt_def parked_contains_def)

lemma ex_resolved: "\<exists>st'. resolve_one script_site ex_barrier ex_held = Some st' \<and>
    ow_answers st' = [(4, Inr Delivered)] \<and> \<not> shut script_site st'"
  by (simp add: consume_exec resolve_exec ex_barrier_def ex_held_def ex_owing_def ex_behind_def ex_created_def
      shut_def)

theorem delivered_means_delivered_witness:
  "\<exists>st'. resolve_one script_site ex_barrier ex_held = Some st' \<and> ow_answers st' = [(4, Inr Delivered)] \<and>
     ex_created \<in> set (sent script_site st')"
proof -
  obtain st' where r: "resolve_one script_site ex_barrier ex_held = Some st'" "ow_answers st' = [(4, Inr Delivered)]"
      "\<not> shut script_site st'" using ex_resolved by blast
  have c: "ex_sub \<notin> ow_unclaimed ex_held" "ow_answers ex_held = []"
    by (simp_all add: ex_held_def ex_live_def ex_start_def owner_new_def)
  have x: "ex_created \<in># buffered ex_held" "ev_subscription ex_created = ex_sub"
    by (simp_all add: ex_held_def ex_behind_def buffered_def slots_def coalescer_new_def ex_created_def synthetic_def)
  from delivered_means_delivered [OF site.delivery_axioms ex_brimming_inv c(1) ex_admitted r(1)] r c(2) x
  show ?thesis by auto
qed

lemma reserve_subs: "plan_watch rd key v i globs sm = Some (res, sm') \<Longrightarrow> sm_subs sm' = sm_subs sm"
  by (auto simp: plan_watch_def reserve_def mint_subscription_def
      split: option.splits if_splits sum.splits prod.splits)

section \<open>The watch path\<close>

text \<open>
  Property C10. Termination. Planning a watch always returns: each round but the last retires a root the
  source has forgotten, so there are at most as many rounds as roots. It needs one subscription id per
  round.
\<close>

theorem planning_ends:
  fixes st :: "('e, 't, 'u, 'c::linorder, 'v, 'h) owner"
  assumes "delivery cx" and "ow_inv cx st"
    and "unat (sm_next_sub (ow_subsumer st)) + card (dom (sm_by_handle (ow_subsumer st))) < unat u64_max"
  shows "\<exists>res st'. plan_live cx key v i globs st = Some (res, st') \<and> ow_inv cx st' \<and> keeps_settled cx st st'"
proof -
  have "ids_left st" using assms(3) by (simp add: ids_left_def)
  then obtain res st' where p: "plan_live cx key v i globs st = Some (res, st')"
    using delivery.plan_live_ends [OF assms(1,2)] by metis
  then show ?thesis using delivery.plan_live_upholds(1) [OF assms(1,2) p] by (auto simp: upholds_def)
qed

theorem planning_ends_witness:
  "\<exists>res st'. plan_live script_site [2, 5] 20 delivery_all root_globs_new ex_behind = Some (res, st')"
proof -
  have "sm_next_sub (ow_subsumer ex_behind) = 2" "dom (sm_by_handle (ow_subsumer ex_behind)) = {7}"
    by (auto simp: ex_behind_def ex_owing_def ex_live_def)
  then have "unat (sm_next_sub (ow_subsumer ex_behind)) + card (dom (sm_by_handle (ow_subsumer ex_behind))) < unat u64_max"
    by (simp add: u64_max_def unsigned_minus_1_eq_mask mask_eq_exp_minus_1)
  from planning_ends [OF site.delivery_axioms ex_behind_inv this] show ?thesis by blast
qed

text \<open>
  Property C9. Termination. Restoring the roots a failed widen released always returns, within its budget:
  over all the roots together it asks to sleep at most twenty times, and never past the budget's end,
  counted from the instant it began (\<open>restore_naps\<close> is the restoration with its sleeps logged). The clock
  does not run backwards under the calls it makes, the sleep does not wake early, and the budget's end and
  one pace past it are instants.
\<close>

theorem restoring_ends:
  fixes st :: "('e, 't, 'u, 'c::linorder, 'v, 'h) owner"
  assumes "paced_delivery cx" and "ow_inv cx st"
    and "clock_now cx st + restore_retry_budget + restore_retry_pace \<le> clk_max (st_clock cx)"
  shows "\<exists>naps stop st'. restore_naps cx hs st = Some (naps, stop, st') \<and>
    restore_disarmed_roots cx hs st = Some (stop, st') \<and> ow_inv cx st' \<and> keeps_settled cx st st' \<and>
    length naps \<le> 20 \<and> (\<forall>t \<in> set naps. t \<le> clock_now cx st + restore_retry_budget)"
proof -
  obtain naps stop st' where r: "restore_naps cx hs st = Some (naps, stop, st')"
    "restore_disarmed_roots cx hs st = Some (stop, st')" "length naps \<le> 20"
    "\<forall>t \<in> set naps. t \<le> clock_now cx st + restore_retry_budget"
    using paced_delivery.restore_ends [OF assms, of hs] by blast
  have d: "delivery cx" using assms(1) by (simp add: paced_delivery_def)
  show ?thesis using r delivery.restore_upholds [OF d assms(2) r(2)] by (auto simp: upholds_def)
qed

text \<open>A root whose re-arm is refused for capacity twice, and then committed.\<close>

definition ex_refused :: ex_owner where
  "ex_refused = ex_behind\<lparr>ow_world := (ow_world ex_behind)\<lparr>sc_arms :=
     [Settled (Inl (UwSource (SourceFault FkCapacity))), Settled (Inl (UwSource (SourceFault FkCapacity))),
      Settled (Inr \<lparr>ar_handle = 8, ar_key = [2]\<rparr>)], sc_root_keys := [(7, [2]), (8, [2])]\<rparr>\<rparr>"

lemma ex_refused_inv: "ow_inv script_site ex_refused"
proof -
  have "quiet script_site ex_behind ex_refused" unfolding ex_refused_def
    by (rule quiet_world) (simp add: advances_def site_ops)
  then show ?thesis using quiet_inv ex_behind_inv by blast
qed

lemmas rearm_exec = rearm_racing_close_def settle_race_def adopt_armed_def observe_def read_clock_def
  pace_restore_retry_def race_terminal_def instant_checked_add_def is_capacity_refusal_def restore_retry_pace_def
  script_site_def script_ops_def next_answer_def Let_def entry_def

lemma ex_refused_world: "(ow_world ex_refused)\<lparr>sc_ticks := []\<rparr> = ow_world ex_refused"
    "(ow_world ex_refused)\<lparr>sc_closes := []\<rparr> = ow_world ex_refused" "ex_refused\<lparr>ow_world := ow_world ex_refused\<rparr> = ex_refused"
    "sc_ticks (ow_world ex_refused) = []" "sc_closes (ow_world ex_refused) = []" "sc_time (ow_world ex_refused) = 0"
    "ow_subsumer ex_refused = ow_subsumer (ex_live [] (Some ex_cfg))"
  by (simp_all add: ex_refused_def ex_behind_def ex_owing_def ex_live_def ex_script_def)

lemma ex_refused_calls:
  "read_clock script_site ex_refused = (0, ex_refused)" "probe_close_signal script_site ex_refused = (None, ex_refused)"
  "root_view (st_radices script_site) 7 (ow_subsumer ex_refused) = Some ([2], [ex_sub])"
  "root_globs_of (st_radices script_site) 7 (ow_subsumer ex_refused) = Some root_globs_new"
  by (simp_all add: read_clock_def probe_close_signal_def ex_refused_world site_ops next_answer_def race_terminal_def
      script_site_def script_ops_def)
    (simp_all add: ex_live_def root_view_def root_globs_of_def entry_def ex_root_def fresh_root_def assoc_radices_def assoc_ops_def)

lemma ex_rearm_log: "\<exists>st'. rearm_log script_site [2] root_globs_new 2000000000 ex_refused = Some ([100000000, 200000000], RearmArmed 8 [2], st')"
  unfolding ex_refused_def
  by (subst rearm_log.simps, simp add: rearm_exec ex_behind_def ex_owing_def ex_live_def ex_script_def,
      subst rearm_log.simps, simp add: rearm_exec,
      subst rearm_log.simps, simp add: rearm_exec)

theorem restoring_ends_witness:
  "\<exists>stop st'. restore_naps script_site [7] ex_refused = Some ([100000000, 200000000], stop, st') \<and>
     restore_disarmed_roots script_site [7] ex_refused = Some (stop, st')"
proof -
  have c: "clock_now script_site ex_refused + restore_retry_budget + restore_retry_pace \<le> clk_max (st_clock script_site)"
    by (simp add: clock_now_def site_ops ex_refused_def ex_behind_def ex_owing_def ex_live_def ex_script_def
        next_answer_def restore_retry_budget_def restore_retry_pace_def)
  obtain st1 where l: "rearm_log script_site [2] root_globs_new 2000000000 ex_refused =
      Some ([100000000, 200000000], RearmArmed 8 [2], st1)" using ex_rearm_log by auto
  obtain naps stop st' where r: "restore_naps script_site [7] ex_refused = Some (naps, stop, st')"
    "restore_disarmed_roots script_site [7] ex_refused = Some (stop, st')"
    using restoring_ends [OF site.paced_delivery_axioms ex_refused_inv c, of "[7]"] by blast
  have "naps = [100000000, 200000000]"
    using r(1) l
    by (auto simp: restore_naps_def ex_refused_calls instant_checked_add_def restore_retry_budget_def site_ops(11)
        split: Option.bind_splits option.splits if_splits)
  then show ?thesis using r by blast
qed

text \<open>
  Property C5. Safety. A widen moves subscriptions to a new root without a gap: when the new root is
  committed the newcomer is live and owes nothing, and each subscription that was re-pointed has a rescan
  that was sent, is owed or is in the channel's way, and stands for every event its old root can have
  stamped for it; nothing settled is lost.
\<close>

theorem widen_rebases_subscribers:
  fixes st :: "('e, 't, 'u, 'c::linorder, 'v, 'h) owner"
  assumes "delivery cx" and "ow_inv cx st"
    and "plan_watch (st_radices cx) key v i globs (ow_subsumer st) = Some (Inr (Widen rep unw sub), sm)"
    and "fs_path_preserves_plan (st_radices cx) k unw sm"
    and "sm_by_handle sm h \<noteq> None \<Longrightarrow> h \<in> set unw"
  shows "\<exists>st'. commit_widen cx (Widen rep unw sub) h k sub flt d rep globs (st\<lparr>ow_subsumer := sm\<rparr>) = Some st' \<and>
    ow_inv cx st' \<and> keeps_settled cx st st' \<and> sm_subs (ow_subsumer st') sub \<noteq> None \<and> debt st' sub = None \<and>
    (\<forall>s \<in> set rep. \<exists>r. event_is_rescan r \<and> ev_subscription r = s \<and> settled cx st' r \<and>
       (\<forall>x. ev_ok st x \<and> ev_subscription x = s \<longrightarrow> dominates (ev_key r) (ev_epoch r) x))"
proof -
  let ?st = "st\<lparr>ow_subsumer := sm\<rparr>"
  note P = delivery.plan_step [OF assms(1,2,3)]
  have u: "upholds cx st ?st" by (rule P(1))
  have pl: "planned cx key (Widen rep unw sub) ?st" using P(2) by blast
  have pp: "fs_path_preserves_plan (st_radices cx) k unw (ow_subsumer ?st)" using assms(4) by simp
  have h: "sm_by_handle (ow_subsumer ?st) h \<noteq> None \<Longrightarrow> h \<in> set unw" using assms(5) by simp
  obtain st' where c: "commit_widen cx (Widen rep unw sub) h k sub flt d rep globs ?st = Some st'"
      "upholds cx ?st st'" "granted st' sub"
      "\<forall>s \<in> set rep. \<exists>r. event_is_rescan r \<and> ev_subscription r = s \<and> settled cx st' r \<and>
       (\<forall>x. ev_ok ?st x \<and> ev_subscription x = s \<longrightarrow> dominates (ev_key r) (ev_epoch r) x)"
    by (rule delivery.widen_commit_upholds [OF assms(1) upholds_inv [OF u] pl refl pp h])
  have "ev_ok ?st x = ev_ok st x" for x
    using reserve_subs [OF assms(3)] by (simp add: ev_ok_def)
  then show ?thesis using c upholds_trans [OF u c(2)] by (auto simp: upholds_def granted_def)
qed

theorem widen_rebases_subscribers_witness:
  "\<exists>sm st' r. commit_widen script_site (Widen [ex_sub] [7] (Subscription 1 2)) 8 [] (Subscription 1 2) 0 Inherit
       [ex_sub] root_globs_new (ex_held\<lparr>ow_subsumer := sm\<rparr>) = Some st' \<and>
     event_is_rescan r \<and> settled script_site st' r \<and> dominates (ev_key r) (ev_epoch r) ex_created"
proof -
  let ?o = "Widen [ex_sub] [7] (Subscription 1 2)"
  have "{x. x = [2] \<and> strict_prefix [] x} = {[2::nat]}" by auto
  then obtain sm where p: "plan_watch (st_radices script_site) [] 20 delivery_all root_globs_new (ow_subsumer ex_held) =
      Some (Inr ?o, sm)" "fs_path_preserves_plan (st_radices script_site) [] [7] sm" "sm_by_handle sm 8 = None"
    by (simp add: ex_held_def ex_live_def ex_root_def site_ops watch_exec)
  have "ev_ok ex_held ex_created" "ev_subscription ex_created = ex_sub"
    by (simp_all add: ev_ok_def ex_held_def ex_owing_def ex_live_def ex_created_def synthetic_def hw_of_def)
  moreover have "sm_by_handle sm 8 \<noteq> None \<Longrightarrow> 8 \<in> set [7]" using p(3) by simp
  ultimately show ?thesis
    using widen_rebases_subscribers [OF site.delivery_axioms ex_brimming_inv p(1,2), of 8 0 Inherit] by fastforce
qed

section \<open>Shutdown\<close>

text \<open>
  Property C6. Liveness. When the drain of a source that ended reports that it is done, nothing is held
  and, unless the consumer is gone, nothing is owed to a claimed subscription: every event that was
  safely settled when the drain began (sent, stood for by a rescan sent or owed, or buffered with no debt
  in front of it) has been accepted by the channel, or a rescan that stands for it has, unless its
  subscription was released on the way or its grant was never claimed.
\<close>

theorem drain_delivers_what_is_owed:
  fixes st :: "('e, 't, 'u, 'c::linorder, 'v, 'h) owner"
  assumes "delivery cx" and "ow_inv cx st"
    and "drain_owed_before_shutdown cx rounds True True st = Some (DrainDone, st')"
  shows "buffered st' = {#} \<and> (shut cx st' \<or> ow_needs st' = [] \<and>
    (\<forall>x. safe cx st x \<and> ev_subscription x \<notin> \<Union> (round_orphans ` set rounds) \<longrightarrow>
       x \<in> set (sent cx st') \<or> rescanned cx st' x \<or> owed st' x \<and> ev_subscription x \<in> ow_unclaimed st'))"
proof -
  note t = delivery.drain_loop_tears [OF assms]
  have pl: "planes_ok st'" using t by (simp add: tears_def ow_inv_def)
  have un: "s \<in> ow_unclaimed st'" if "debt st' s \<noteq> None" "ow_needs st' = []" for s
    using that pl by (auto simp: debt_def planes_ok_def)
  show ?thesis using t un by (auto simp: tears_def safe_def owed_def)
qed

definition ex_round :: drain_round where
  "ex_round = \<lparr>dr_cleanups = [], dr_pending = False, dr_raced = [], dr_wake = WakeSleep\<rparr>"

lemma ex_drain_held: "\<exists>st'. drain_owed_before_shutdown script_site [ex_round] True True ex_held = Some (DrainDone, st') \<and>
    \<not> shut script_site st' \<and> ow_unclaimed st' = {}"
  by (simp add: consume_exec ex_round_def ex_held_def ex_owing_def ex_behind_def ex_created_def probe_close_signal_def
      script_site_def script_ops_def race_terminal_def drain_owed_once_def flush_pending_rescans_def shut_def flush_all_def)

theorem drain_delivers_what_is_owed_witness:
  "\<exists>st'. drain_owed_before_shutdown script_site [ex_round] True True ex_held = Some (DrainDone, st') \<and>
     (ex_created \<in> set (sent script_site st') \<or> rescanned script_site st' ex_created)"
proof -
  obtain st' where r: "drain_owed_before_shutdown script_site [ex_round] True True ex_held = Some (DrainDone, st')"
    "\<not> shut script_site st'" "ow_unclaimed st' = {}" using ex_drain_held by blast
  have "safe script_site ex_held ex_created"
    by (simp add: safe_def ex_held_def ex_behind_def buffered_def slots_def coalescer_new_def debt_def
        ex_live_def ex_start_def owner_new_def)
  moreover have "\<Union> (round_orphans ` set [ex_round]) = {}" by (simp add: ex_round_def orphans_def)
  ultimately show ?thesis
    using drain_delivers_what_is_owed [OF site.delivery_axioms ex_brimming_inv r(1)] r by auto
qed

text \<open>
  Property C32. Error. The drain can lose an event silently. A located rescan is refused by the full
  channel and parked; a creation in a sibling subtree, which that rescan does not cover, is buffered
  behind it; the source ends. The last pass drops every buffered event of a subscription that has a
  debt, on the ground that the debt stands for it, delivers the located rescan and is done: the creation
  was settled before and is lost after, although the channel took everything it was offered.
\<close>

theorem drain_loses_behind_a_located_rescan:
  "consume_source_event script_site (ex_raw [2, 4] ERescan) (ex_live [SendFull] (Some ex_cfg)) = Some ex_owing \<and>
   consume_source_event script_site (ex_raw [2, 5] ECreated) ex_owing = Some ex_behind \<and>
   settled script_site ex_behind ex_created \<and>
   (\<exists>st'. drain_owed_before_shutdown script_site [ex_round] True True ex_behind = Some (DrainDone, st') \<and>
     sent script_site st' = [(event_rescan ex_sub [2, 4] 1)\<lparr>ev_value := Some 10\<rparr>] \<and>
     \<not> settled script_site st' ex_created)"
proof -
  have "settled script_site ex_behind ex_created"
    by (simp add: settled_def ex_behind_def buffered_def slots_def coalescer_new_def)
  moreover have "\<exists>st'. drain_owed_before_shutdown script_site [ex_round] True True ex_behind = Some (DrainDone, st') \<and>
     sent script_site st' = [(event_rescan ex_sub [2, 4] 1)\<lparr>ev_value := Some 10\<rparr>] \<and>
     \<not> settled script_site st' ex_created"
    by (simp add: consume_exec ex_round_def ex_owing_def ex_behind_def ex_created_def probe_close_signal_def
        script_site_def script_ops_def race_terminal_def drain_owed_once_def flush_pending_rescans_def shut_def
        flush_all_def parked_event_def parked_take_def first_from_def sent_def settled_def rescanned_def owed_def debt_def
        buffered_def slots_def dominates_def event_rescan_def synthetic_def)
  ultimately show ?thesis using ex_owing_step ex_behind_step by blast
qed

end
