(* ===== verification/Demux.thy ===== *)
theory Demux
  imports Umbrella_Event "HOL-Library.Sublist"
begin

text \<open>
  The demultiplexer (\<open>demux/mod.rs\<close>): a routing task outside the owner that drains the shared event
  stream and sends each event into the lane registered for its subscription, or into the rest lane.

  The channels are \<open>async_channel\<close>'s. What the task does with them is \<open>lane_ops\<close>, a record of calls on an
  opaque state: the biased select over the control queue and the stream, the awaited send (it answers
  whether the event was accepted; a send that is refused hands the event back), whether a receiver is
  gone, the count and the poll of the shutdown barrier. \<open>ln_taken\<close> and \<open>ln_accepted\<close> observe the events
  pulled off the stream and the deliveries accepted, in order. The locale \<open>lanes\<close> holds the laws.
\<close>

section \<open>Messages\<close>

datatype 'l control =
    Register subscription u64 'l
  | Shutdown
  | Release subscription u64

datatype ('c, 'v, 'l) selected =
    SelControl "'l control"
  | SelControlClosed
  | SelNext "('c, 'v) event option"

record ('e, 'c, 'v, 'l) lane_ops =
  ln_select :: "bool \<Rightarrow> 'e \<Rightarrow> ('c, 'v, 'l) selected \<times> 'e"
  ln_queued :: "'e \<Rightarrow> nat"
  ln_poll :: "'e \<Rightarrow> ('c, 'v) event option option \<times> 'e"
  ln_send :: "'l \<Rightarrow> ('c, 'v) event \<Rightarrow> 'e \<Rightarrow> bool \<times> 'e"
  ln_is_closed :: "'e \<Rightarrow> 'l \<Rightarrow> bool"
  ln_taken :: "'e \<Rightarrow> ('c, 'v) event list"
  ln_accepted :: "'e \<Rightarrow> ('l \<times> ('c, 'v) event) list"

section \<open>The control handle\<close>

text \<open>\<open>Demux::lane\<close> brands the registration it sends; a dropped \<open>Lane\<close> owes the release of its brand.\<close>

record owed_release =
  or_sub :: subscription
  or_generation :: u64

definition demux_lane :: "subscription \<Rightarrow> 'l \<Rightarrow> u64 \<Rightarrow> ('l control \<times> owed_release) \<times> u64" where
  "demux_lane sub l next_gen =
     ((Register sub next_gen l, \<lparr>or_sub = sub, or_generation = next_gen\<rparr>), next_gen + 1)"

definition lane_dropped :: "owed_release option \<Rightarrow> 'l control option" where
  "lane_dropped release = map_option (\<lambda>r. Release (or_sub r) (or_generation r)) release"

section \<open>The routing task\<close>

record ('e, 'l) router =
  rt_lanes :: "subscription \<rightharpoonup> u64 \<times> 'l"
  rt_rest :: "'l option"
  rt_control_open :: bool
  rt_tracked :: nat
  rt_env :: 'e

definition lane_count :: "('e, 'l) router \<Rightarrow> nat" where
  "lane_count st = card (dom (rt_lanes st))"

definition router_new :: "'l \<Rightarrow> 'e \<Rightarrow> ('e, 'l) router" where
  "router_new rest e = \<lparr>rt_lanes = Map.empty, rt_rest = Some rest, rt_control_open = True, rt_tracked = 0, rt_env = e\<rparr>"

text \<open>One delivery: to the lane of the subscription, else (or when its receiver is gone) to the rest lane.\<close>

definition deliver_rest :: "('e, 'c, 'v, 'l) lane_ops \<Rightarrow> ('c, 'v) event \<Rightarrow> ('e, 'l) router \<Rightarrow> ('e, 'l) router" where
  "deliver_rest ops ev st =
     (case rt_rest st of
        None \<Rightarrow> st
      | Some l \<Rightarrow> (case ln_send ops l ev (rt_env st) of
            (True, e) \<Rightarrow> st\<lparr>rt_env := e\<rparr>
          | (False, e) \<Rightarrow> st\<lparr>rt_env := e, rt_rest := None\<rparr>))"

definition deliver :: "('e, 'c, 'v, 'l) lane_ops \<Rightarrow> ('c, 'v) event \<Rightarrow> ('e, 'l) router \<Rightarrow> ('e, 'l) router" where
  "deliver ops ev st =
     (let sub = ev_subscription ev
      in case rt_lanes st sub of
           None \<Rightarrow> deliver_rest ops ev st
         | Some (_, l) \<Rightarrow> (case ln_send ops l ev (rt_env st) of
               (True, e) \<Rightarrow> st\<lparr>rt_env := e\<rparr>
             | (False, e) \<Rightarrow>
                 (let st1 = st\<lparr>rt_env := e, rt_lanes := (rt_lanes st)(sub := None)\<rparr>
                  in deliver_rest ops ev (st1\<lparr>rt_tracked := lane_count st1\<rparr>))))"

definition sweep :: "('e, 'c, 'v, 'l) lane_ops \<Rightarrow> ('e, 'l) router \<Rightarrow> (subscription \<rightharpoonup> u64 \<times> 'l)" where
  "sweep ops st = (\<lambda>s. case rt_lanes st s of
     Some (g, l) \<Rightarrow> if ln_is_closed ops (rt_env st) l then None else Some (g, l)
   | None \<Rightarrow> None)"

definition register_lane ::
  "('e, 'c, 'v, 'l) lane_ops \<Rightarrow> subscription \<Rightarrow> u64 \<Rightarrow> 'l \<Rightarrow> ('e, 'l) router \<Rightarrow> ('e, 'l) router" where
  "register_lane ops sub gen l st =
     (let swept = (sweep ops st)(sub := None)
      in st\<lparr>rt_lanes := if ln_is_closed ops (rt_env st) l then swept else swept(sub \<mapsto> (gen, l))\<rparr>)"

definition release_lane :: "subscription \<Rightarrow> u64 \<Rightarrow> ('e, 'l) router \<Rightarrow> ('e, 'l) router" where
  "release_lane sub gen st =
     (case rt_lanes st sub of
        Some (live, _) \<Rightarrow> if live = gen then st\<lparr>rt_lanes := (rt_lanes st)(sub := None)\<rparr> else st
      | None \<Rightarrow> st)"

text \<open>The barrier of an orderly stop routes at most the events counted when it was processed.\<close>

fun drain_barrier :: "('e, 'c, 'v, 'l) lane_ops \<Rightarrow> nat \<Rightarrow> ('e, 'l) router \<Rightarrow> ('e, 'l) router" where
  "drain_barrier ops 0 st = st"
| "drain_barrier ops (Suc owed) st =
     (case ln_poll ops (rt_env st) of
        (Some (Some ev), e) \<Rightarrow> drain_barrier ops owed (deliver ops ev (st\<lparr>rt_env := e\<rparr>))
      | (_, e) \<Rightarrow> st\<lparr>rt_env := e\<rparr>)"

definition gauge :: "('e, 'l) router \<Rightarrow> ('e, 'l) router" where
  "gauge st = st\<lparr>rt_tracked := lane_count st\<rparr>"

lemma gauge_simps [simp]:
  "rt_lanes (gauge st) = rt_lanes st" "rt_rest (gauge st) = rt_rest st"
  "rt_env (gauge st) = rt_env st" "rt_control_open (gauge st) = rt_control_open st"
  by (simp_all add: gauge_def)

text \<open>One iteration; \<open>Inl\<close> is an exit of the loop, which drops every sender and zeroes the gauge.\<close>

definition router_exit :: "('e, 'l) router \<Rightarrow> ('e, 'l) router" where
  "router_exit st = st\<lparr>rt_lanes := Map.empty, rt_rest := None, rt_tracked := 0\<rparr>"

definition router_turn ::
  "('e, 'c, 'v, 'l) lane_ops \<Rightarrow> ('e, 'l) router \<Rightarrow> ('e, 'l) router + ('e, 'l) router" where
  "router_turn ops st0 =
     (case ln_select ops (rt_control_open st0) (rt_env st0) of (sel, e) \<Rightarrow>
       (let st = st0\<lparr>rt_env := e\<rparr>
        in case sel of
             SelControl (Register sub gen l) \<Rightarrow> Inr (gauge (register_lane ops sub gen l st))
           | SelControl Shutdown \<Rightarrow> Inl (drain_barrier ops (ln_queued ops e) st)
           | SelControl (Release sub gen) \<Rightarrow> Inr (gauge (release_lane sub gen st))
           | SelControlClosed \<Rightarrow> Inr (gauge (st\<lparr>rt_control_open := False\<rparr>))
           | SelNext (Some ev) \<Rightarrow> Inr (deliver ops ev st)
           | SelNext None \<Rightarrow> Inl st))"

text \<open>The loop, to its end or for the first \<open>n\<close> iterations.\<close>

fun router_turns :: "('e, 'c, 'v, 'l) lane_ops \<Rightarrow> nat \<Rightarrow> ('e, 'l) router \<Rightarrow> ('e, 'l) router + ('e, 'l) router" where
  "router_turns ops 0 st = Inr st"
| "router_turns ops (Suc n) st =
     (case router_turn ops st of Inl st1 \<Rightarrow> Inl st1 | Inr st1 \<Rightarrow> router_turns ops n st1)"

partial_function (option) demux_run :: "('e, 'c, 'v, 'l) lane_ops \<Rightarrow> ('e, 'l) router \<Rightarrow> ('e, 'l) router option" where
  "demux_run ops st =
     (case router_turn ops st of Inl st1 \<Rightarrow> Some (router_exit st1) | Inr st1 \<Rightarrow> demux_run ops st1)"


text \<open>The laws of the channels.\<close>

locale lanes =
  fixes ops :: "('e, 'c, 'v, 'l) lane_ops"
  assumes select_frame: "ln_select ops b e = (sel, e') \<Longrightarrow> ln_accepted ops e' = ln_accepted ops e \<and>
      ln_taken ops e' = ln_taken ops e @ (case sel of SelNext (Some ev) \<Rightarrow> [ev] | _ \<Rightarrow> [])"
    and poll_frame: "ln_poll ops e = (r, e') \<Longrightarrow> ln_accepted ops e' = ln_accepted ops e \<and>
      ln_taken ops e' = ln_taken ops e @ (case r of Some (Some ev) \<Rightarrow> [ev] | _ \<Rightarrow> [])"
    and send_frame: "ln_send ops l ev e = (ok, e') \<Longrightarrow> ln_taken ops e' = ln_taken ops e \<and>
      ln_accepted ops e' = ln_accepted ops e @ (if ok then [(l, ev)] else [])"
    and send_refused: "ln_send ops l ev e = (False, e') \<Longrightarrow> ln_is_closed ops e' l"
    and select_closed: "ln_is_closed ops e l \<Longrightarrow> ln_is_closed ops (snd (ln_select ops b e)) l"
    and poll_closed: "ln_is_closed ops e l \<Longrightarrow> ln_is_closed ops (snd (ln_poll ops e)) l"
    and send_closed: "ln_is_closed ops e l \<Longrightarrow> ln_is_closed ops (snd (ln_send ops l' ev e)) l"

section \<open>Nothing is lost\<close>

text \<open>
  While the rest receiver is alive the deliveries accepted are the events routed, in the order of the
  stream; once it is gone (\<open>post\<close>) only events no lane took are missing.
\<close>

definition conserves :: "('e, 'c, 'v, 'l) lane_ops \<Rightarrow> 'l \<Rightarrow> ('e, 'l) router \<Rightarrow> ('c, 'v) event list \<Rightarrow> bool" where
  "conserves ops rest st routed \<longleftrightarrow>
     (rt_rest st = Some rest \<or> rt_rest st = None \<and> ln_is_closed ops (rt_env st) rest) \<and>
     (\<exists>pre post kept. routed = pre @ post \<and> map snd (ln_accepted ops (rt_env st)) = pre @ kept \<and>
        subseq kept post \<and> (rt_rest st \<noteq> None \<longrightarrow> post = []))"

context lanes
begin

lemma conserves_env:
  assumes "conserves ops rest st ts" and "ln_accepted ops e = ln_accepted ops (rt_env st)"
    and "ln_is_closed ops (rt_env st) rest \<Longrightarrow> ln_is_closed ops e rest"
  shows "conserves ops rest (st\<lparr>rt_env := e\<rparr>) ts"
  using assms by (auto simp: conserves_def)

lemma conserves_cong:
  "conserves ops rest st ts \<Longrightarrow> rt_rest st' = rt_rest st \<Longrightarrow> rt_env st' = rt_env st \<Longrightarrow> conserves ops rest st' ts"
  by (simp add: conserves_def)

lemma conserves_accept:
  assumes "conserves ops rest st ts" and "ln_send ops l ev (rt_env st) = (True, e)"
  shows "conserves ops rest (st\<lparr>rt_env := e\<rparr>) (ts @ [ev])"
proof -
  obtain pre post kept where p: "ts = pre @ post" "map snd (ln_accepted ops (rt_env st)) = pre @ kept"
      "subseq kept post" "rt_rest st \<noteq> None \<longrightarrow> post = []"
    using assms(1) by (auto simp: conserves_def)
  have a: "ln_accepted ops e = ln_accepted ops (rt_env st) @ [(l, ev)]"
    using send_frame [OF assms(2)] by simp
  have c: "ln_is_closed ops (rt_env st) rest \<Longrightarrow> ln_is_closed ops e rest"
    using send_closed [of "rt_env st" rest l ev] assms(2) by simp
  show ?thesis
  proof (cases "post = []")
    case True
    with p(3) have "kept = []" by simp
    with True p a c assms(1) show ?thesis
      unfolding conserves_def by (intro conjI exI [of _ "ts @ [ev]"] exI [of _ "[]"]) auto
  next
    case False
    have "subseq (kept @ [ev]) (post @ [ev])" using p(3) by (simp add: list_emb_append_mono)
    with False p a c assms(1) show ?thesis
      unfolding conserves_def
      by (intro conjI exI [of _ pre] exI [of _ "post @ [ev]"] exI [of _ "kept @ [ev]"]) auto
  qed
qed

lemma conserves_drop:
  assumes "conserves ops rest st ts" and "rt_rest st = None"
  shows "conserves ops rest st (ts @ [ev])"
proof -
  obtain pre post kept where p: "ts = pre @ post" "map snd (ln_accepted ops (rt_env st)) = pre @ kept"
      "subseq kept post"
    using assms(1) by (auto simp: conserves_def)
  have "subseq kept (post @ [ev])" by (rule subseq_rev_drop_many [OF p(3)])
  with p assms show ?thesis
    unfolding conserves_def
    by (intro conjI exI [of _ pre] exI [of _ "post @ [ev]"] exI [of _ kept]) auto
qed

lemma conserves_deliver_rest:
  assumes "conserves ops rest st ts"
  shows "conserves ops rest (deliver_rest ops ev st) (ts @ [ev])"
proof (cases "rt_rest st")
  case None
  then show ?thesis using conserves_drop [OF assms None] by (simp add: deliver_rest_def)
next
  case (Some l)
  then have l: "l = rest" using assms by (auto simp: conserves_def)
  obtain ok e where s: "ln_send ops l ev (rt_env st) = (ok, e)" by fastforce
  show ?thesis
  proof (cases ok)
    case True
    with s Some show ?thesis using conserves_accept [OF assms] by (simp add: deliver_rest_def)
  next
    case False
    have "conserves ops rest (st\<lparr>rt_env := e, rt_rest := None\<rparr>) ts"
      using assms send_frame [OF s] send_refused [of l ev] s False l by (auto simp: conserves_def)
    from conserves_drop [OF this] s Some False show ?thesis by (simp add: deliver_rest_def)
  qed
qed

lemma conserves_deliver:
  assumes "conserves ops rest st ts"
  shows "conserves ops rest (deliver ops ev st) (ts @ [ev])"
proof (cases "rt_lanes st (ev_subscription ev)")
  case None
  then show ?thesis using conserves_deliver_rest [OF assms] by (simp add: deliver_def)
next
  case (Some p)
  obtain ok e where s: "ln_send ops (snd p) ev (rt_env st) = (ok, e)" by fastforce
  show ?thesis
  proof (cases ok)
    case True
    with s Some show ?thesis using conserves_accept [OF assms] by (cases p) (simp add: deliver_def)
  next
    case False
    let ?st = "st\<lparr>rt_env := e, rt_lanes := (rt_lanes st)(ev_subscription ev := None)\<rparr>"
    have "conserves ops rest (?st\<lparr>rt_tracked := lane_count ?st\<rparr>) ts"
      using assms send_frame [OF s] send_closed [of "rt_env st" rest "snd p" ev] s False
      by (auto simp: conserves_def)
    from conserves_deliver_rest [OF this, of ev] s Some False show ?thesis
      by (cases p) (simp add: deliver_def Let_def)
  qed
qed

lemma deliver_rest_taken: "ln_taken ops (rt_env (deliver_rest ops ev st)) = ln_taken ops (rt_env st)"
  using send_frame by (auto simp: deliver_rest_def split: option.splits prod.splits bool.splits)

lemma deliver_taken: "ln_taken ops (rt_env (deliver ops ev st)) = ln_taken ops (rt_env st)"
  using send_frame by (auto simp: deliver_def Let_def deliver_rest_taken split: option.splits prod.splits bool.splits)

lemma conserves_barrier:
  assumes "conserves ops rest st (ln_taken ops (rt_env st))"
  shows "conserves ops rest (drain_barrier ops n st) (ln_taken ops (rt_env (drain_barrier ops n st)))"
  using assms
proof (induction n arbitrary: st)
  case (Suc n)
  obtain r e where p: "ln_poll ops (rt_env st) = (r, e)" by fastforce
  have c: "conserves ops rest (st\<lparr>rt_env := e\<rparr>) (ln_taken ops (rt_env st))"
    by (rule conserves_env [OF Suc.prems]) (use poll_frame [OF p] poll_closed [of _ rest] p in \<open>fastforce+\<close>)
  show ?case
  proof (cases "\<exists>ev. r = Some (Some ev)")
    case True
    then obtain ev where ev: "r = Some (Some ev)" ..
    have "ln_taken ops (rt_env (deliver ops ev (st\<lparr>rt_env := e\<rparr>))) = ln_taken ops (rt_env st) @ [ev]"
      using poll_frame [OF p] ev by (simp add: deliver_taken)
    with Suc.IH [of "deliver ops ev (st\<lparr>rt_env := e\<rparr>)"] conserves_deliver [OF c, of ev] p ev
    show ?thesis by simp
  next
    case False
    then have t: "ln_taken ops e = ln_taken ops (rt_env st)"
      using poll_frame [OF p] by (auto split: option.splits)
    from False have "drain_barrier ops (Suc n) st = st\<lparr>rt_env := e\<rparr>"
      using p by (auto split: option.splits)
    with c t show ?thesis by simp
  qed
qed simp

lemma select_taken:
  "ln_select ops b e = (sel, e') \<Longrightarrow> (\<And>ev. sel \<noteq> SelNext (Some ev)) \<Longrightarrow>
     ln_taken ops e' = ln_taken ops e"
  using select_frame [of b e sel e'] by (auto split: selected.splits option.splits)

lemma conserves_turn:
  assumes "conserves ops rest st (ln_taken ops (rt_env st))"
    and "router_turn ops st = Inl st' \<or> router_turn ops st = Inr st'"
  shows "conserves ops rest st' (ln_taken ops (rt_env st'))"
proof -
  obtain sel e where p: "ln_select ops (rt_control_open st) (rt_env st) = (sel, e)" by fastforce
  have c: "conserves ops rest (st\<lparr>rt_env := e\<rparr>) (ln_taken ops (rt_env st))"
    by (rule conserves_env [OF assms(1)]) (use select_frame [OF p] select_closed [of "rt_env st" rest "rt_control_open st"] p in auto)
  note q = p select_taken [OF p] select_frame [OF p]
  show ?thesis
  proof (cases sel)
    case (SelControl m)
    then have t: "ln_taken ops e = ln_taken ops (rt_env st)" using q(2) by simp
    show ?thesis
    proof (cases m)
      case Shutdown
      with SelControl q assms(2) have "st' = drain_barrier ops (ln_queued ops e) (st\<lparr>rt_env := e\<rparr>)"
        by (simp add: router_turn_def Let_def)
      with conserves_barrier [of rest "st\<lparr>rt_env := e\<rparr>"] c t show ?thesis by simp
    qed (use SelControl q(1) t c assms(2) in \<open>auto simp: router_turn_def Let_def register_lane_def
        release_lane_def split: option.splits elim!: conserves_cong\<close>)
  next
    case SelControlClosed
    with q c assms(2) show ?thesis by (auto simp: router_turn_def Let_def elim!: conserves_cong)
  next
    case (SelNext r)
    then show ?thesis using q c assms(2) conserves_deliver [OF c]
      by (cases r) (auto simp: router_turn_def deliver_taken)
  qed
qed

lemma conserves_turns:
  assumes "conserves ops rest st (ln_taken ops (rt_env st))"
    and "router_turns ops n st = Inl st' \<or> router_turns ops n st = Inr st'"
  shows "conserves ops rest st' (ln_taken ops (rt_env st'))"
  using assms
proof (induction n arbitrary: st)
  case (Suc n)
  from Suc.IH conserves_turn [OF Suc.prems(1)] Suc.prems(2) show ?case
    by (auto split: sum.splits)
qed simp

end

section \<open>A registered lane owns its subscription\<close>

text \<open>
  From \<open>st\<close> to \<open>st'\<close> the lane \<open>l\<close> took every event of \<open>sub\<close> that was pulled off the stream, in order, and
  no other channel took one.
\<close>

definition owns_between ::
  "('e, 'c, 'v, 'l) lane_ops \<Rightarrow> subscription \<Rightarrow> 'l \<Rightarrow> ('e, 'l) router \<Rightarrow> ('e, 'l) router \<Rightarrow> bool" where
  "owns_between ops sub l st st' \<longleftrightarrow> (\<exists>ts as.
     ln_taken ops (rt_env st') = ln_taken ops (rt_env st) @ ts \<and>
     ln_accepted ops (rt_env st') = ln_accepted ops (rt_env st) @ as \<and>
     filter (\<lambda>a. ev_subscription (snd a) = sub) as =
       map (Pair l) (filter (\<lambda>ev. ev_subscription ev = sub) ts))"

text \<open>No message of the next \<open>n\<close> iterations touches the registration.\<close>

definition touches :: "subscription \<Rightarrow> u64 \<Rightarrow> ('c, 'v, 'l) selected \<Rightarrow> bool" where
  "touches sub gen sel \<longleftrightarrow>
     (case sel of SelControl (Register s _ _) \<Rightarrow> s = sub
      | SelControl (Release s g) \<Rightarrow> s = sub \<and> g = gen
      | _ \<Rightarrow> False)"

fun undisturbed :: "('e, 'c, 'v, 'l) lane_ops \<Rightarrow> subscription \<Rightarrow> u64 \<Rightarrow> nat \<Rightarrow> ('e, 'l) router \<Rightarrow> bool" where
  "undisturbed ops sub gen 0 st \<longleftrightarrow> True"
| "undisturbed ops sub gen (Suc n) st \<longleftrightarrow>
     \<not> touches sub gen (fst (ln_select ops (rt_control_open st) (rt_env st))) \<and>
     (case router_turn ops st of Inl _ \<Rightarrow> True | Inr st1 \<Rightarrow> undisturbed ops sub gen n st1)"

lemma owns_refl: "owns_between ops sub l st st"
  by (simp add: owns_between_def)

lemma owns_trans:
  assumes "owns_between ops sub l a b" and "owns_between ops sub l b c"
  shows "owns_between ops sub l a c"
proof -
  obtain ts as ts' as' where
    "ln_taken ops (rt_env b) = ln_taken ops (rt_env a) @ ts" "ln_accepted ops (rt_env b) = ln_accepted ops (rt_env a) @ as"
    "filter (\<lambda>x. ev_subscription (snd x) = sub) as = map (Pair l) (filter (\<lambda>ev. ev_subscription ev = sub) ts)"
    "ln_taken ops (rt_env c) = ln_taken ops (rt_env b) @ ts'" "ln_accepted ops (rt_env c) = ln_accepted ops (rt_env b) @ as'"
    "filter (\<lambda>x. ev_subscription (snd x) = sub) as' = map (Pair l) (filter (\<lambda>ev. ev_subscription ev = sub) ts')"
    using assms unfolding owns_between_def by blast
  then show ?thesis
    unfolding owns_between_def by (intro exI [of _ "ts @ ts'"] exI [of _ "as @ as'"]) simp
qed

context lanes
begin

lemma deliver_other:
  assumes "ev_subscription ev \<noteq> sub"
  shows "\<exists>as. ln_accepted ops (rt_env (deliver ops ev st)) = ln_accepted ops (rt_env st) @ as \<and>
    (\<forall>a \<in> set as. snd a = ev) \<and> rt_lanes (deliver ops ev st) sub = rt_lanes st sub"
  using assms send_frame
  by (fastforce simp: deliver_def deliver_rest_def Let_def split: option.splits prod.splits bool.splits)

lemma deliver_rest_closed:
  "ln_is_closed ops (rt_env st) l \<Longrightarrow> ln_is_closed ops (rt_env (deliver_rest ops ev st)) l"
  using send_closed [of "rt_env st" l "the (rt_rest st)" ev]
  by (auto simp: deliver_rest_def split: option.splits prod.splits bool.splits)

lemma deliver_closed:
  assumes "ln_is_closed ops (rt_env st) l"
  shows "ln_is_closed ops (rt_env (deliver ops ev st)) l"
proof (cases "rt_lanes st (ev_subscription ev)")
  case (Some p)
  obtain ok e where s: "ln_send ops (snd p) ev (rt_env st) = (ok, e)" by fastforce
  then have "ln_is_closed ops e l" using send_closed [OF assms, of "snd p" ev] by simp
  with Some s show ?thesis
    by (cases p) (auto simp: deliver_def Let_def split: bool.splits intro!: deliver_rest_closed)
qed (simp add: deliver_def deliver_rest_closed assms)

lemma barrier_closed:
  "ln_is_closed ops (rt_env st) l \<Longrightarrow> ln_is_closed ops (rt_env (drain_barrier ops n st)) l"
proof (induction n arbitrary: st)
  case (Suc n)
  obtain r e where p: "ln_poll ops (rt_env st) = (r, e)" by fastforce
  then have c: "ln_is_closed ops e l" using poll_closed [OF Suc.prems] by simp
  show ?case
  proof (cases "\<exists>ev. r = Some (Some ev)")
    case True
    then obtain ev where "r = Some (Some ev)" ..
    with p c Suc.IH [OF deliver_closed, of "st\<lparr>rt_env := e\<rparr>" ev] show ?thesis by simp
  next
    case False
    with p have "drain_barrier ops (Suc n) st = st\<lparr>rt_env := e\<rparr>" by (auto split: option.splits)
    with c show ?thesis by simp
  qed
qed simp

lemma turn_closed:
  assumes "ln_is_closed ops (rt_env st) l" and "router_turn ops st = Inl st' \<or> router_turn ops st = Inr st'"
  shows "ln_is_closed ops (rt_env st') l"
proof -
  obtain sel e where p: "ln_select ops (rt_control_open st) (rt_env st) = (sel, e)" by fastforce
  have c: "ln_is_closed ops e l" using select_closed [OF assms(1), of "rt_control_open st"] p by simp
  show ?thesis
  proof (cases sel)
    case (SelControl m)
    with p c assms(2) barrier_closed [of "st\<lparr>rt_env := e\<rparr>" l] show ?thesis
      by (cases m) (auto simp: router_turn_def register_lane_def release_lane_def Let_def
        split: option.splits)
  next
    case (SelNext r)
    with p c assms(2) deliver_closed [of "st\<lparr>rt_env := e\<rparr>" l] show ?thesis
      by (cases r) (auto simp: router_turn_def)
  qed (use p c assms(2) in \<open>auto simp: router_turn_def Let_def\<close>)
qed

lemma turns_closed:
  assumes "ln_is_closed ops (rt_env st) l" and "router_turns ops n st = Inl st' \<or> router_turns ops n st = Inr st'"
  shows "ln_is_closed ops (rt_env st') l"
  using assms
proof (induction n arbitrary: st)
  case (Suc n)
  from Suc.IH turn_closed [OF Suc.prems(1)] Suc.prems(2) show ?case
    by (auto split: sum.splits)
qed simp

text \<open>One event pulled and delivered.\<close>

lemma deliver_owns:
  assumes "rt_lanes st sub = Some (g, l)" and "\<not> ln_is_closed ops (rt_env (deliver ops ev (st\<lparr>rt_env := e\<rparr>))) l"
    and "ln_taken ops e = ln_taken ops (rt_env st) @ [ev]" and "ln_accepted ops e = ln_accepted ops (rt_env st)"
  shows "owns_between ops sub l st (deliver ops ev (st\<lparr>rt_env := e\<rparr>)) \<and>
    rt_lanes (deliver ops ev (st\<lparr>rt_env := e\<rparr>)) sub = Some (g, l)"
proof (cases "ev_subscription ev = sub")
  case False
  from deliver_other [OF this, of "st\<lparr>rt_env := e\<rparr>"] obtain as where
    "ln_accepted ops (rt_env (deliver ops ev (st\<lparr>rt_env := e\<rparr>))) = ln_accepted ops e @ as"
    "\<forall>a \<in> set as. snd a = ev" "rt_lanes (deliver ops ev (st\<lparr>rt_env := e\<rparr>)) sub = rt_lanes st sub"
    by auto
  with False assms show ?thesis
    unfolding owns_between_def by (auto simp: deliver_taken filter_empty_conv)
next
  case True
  obtain ok e' where s: "ln_send ops l ev e = (ok, e')" by fastforce
  have ok
  proof (rule ccontr)
    assume "\<not> ok"
    then have "ln_is_closed ops e' l" using s send_refused by simp
    with \<open>\<not> ok\<close> s assms(1) True have "ln_is_closed ops (rt_env (deliver ops ev (st\<lparr>rt_env := e\<rparr>))) l"
      by (simp add: deliver_def Let_def deliver_rest_closed)
    with assms(2) show False ..
  qed
  with s assms True send_frame [OF s] show ?thesis
    by (auto simp: deliver_def owns_between_def)
qed

lemma barrier_owns:
  assumes "rt_lanes st sub = Some (g, l)" and "\<not> ln_is_closed ops (rt_env (drain_barrier ops n st)) l"
  shows "owns_between ops sub l st (drain_barrier ops n st) \<and> rt_lanes (drain_barrier ops n st) sub = Some (g, l)"
  using assms
proof (induction n arbitrary: st)
  case (Suc n)
  obtain r e where p: "ln_poll ops (rt_env st) = (r, e)" by fastforce
  show ?case
  proof (cases "\<exists>ev. r = Some (Some ev)")
    case True
    then obtain ev where ev: "r = Some (Some ev)" ..
    let ?d = "deliver ops ev (st\<lparr>rt_env := e\<rparr>)"
    have eq: "drain_barrier ops (Suc n) st = drain_barrier ops n ?d" using p ev by simp
    have o: "\<not> ln_is_closed ops (rt_env ?d) l" using Suc.prems(2) barrier_closed eq by metis
    have d: "owns_between ops sub l st ?d \<and> rt_lanes ?d sub = Some (g, l)"
      using deliver_owns [OF Suc.prems(1) o] poll_frame [OF p] ev by simp
    then show ?thesis using Suc.IH [of ?d] Suc.prems(2) owns_trans eq by metis
  next
    case False
    then have "drain_barrier ops (Suc n) st = st\<lparr>rt_env := e\<rparr>" using p by (auto split: option.splits)
    with False poll_frame [OF p] Suc.prems(1) show ?thesis
      by (auto simp: owns_between_def split: option.splits)
  qed
qed (simp add: owns_refl)

lemma turn_owns:
  assumes "router_turn ops st = Inl st' \<or> router_turn ops st = Inr st'" and "rt_lanes st sub = Some (g, l)"
    and "\<not> touches sub g (fst (ln_select ops (rt_control_open st) (rt_env st)))"
    and "\<not> ln_is_closed ops (rt_env st') l"
  shows "owns_between ops sub l st st' \<and> rt_lanes st' sub = Some (g, l)"
proof -
  obtain sel e where p: "ln_select ops (rt_control_open st) (rt_env st) = (sel, e)" by fastforce
  have same: "owns_between ops sub l st st''" if "rt_env st'' = e" "\<And>ev. sel \<noteq> SelNext (Some ev)" for st''
    using select_frame [OF p] select_taken [OF p] that by (simp add: owns_between_def)
  show ?thesis
  proof (cases sel)
    case (SelControl m)
    show ?thesis
    proof (cases m)
      case Shutdown
      with SelControl p assms(1) have st': "st' = drain_barrier ops (ln_queued ops e) (st\<lparr>rt_env := e\<rparr>)"
        by (simp add: router_turn_def Let_def)
      have "owns_between ops sub l (st\<lparr>rt_env := e\<rparr>) st' \<and> rt_lanes st' sub = Some (g, l)"
        using barrier_owns [of "st\<lparr>rt_env := e\<rparr>" sub g l "ln_queued ops e"] assms(2,4) st' by simp
      moreover have "owns_between ops sub l st (st\<lparr>rt_env := e\<rparr>)" using same SelControl by simp
      ultimately show ?thesis using owns_trans [of ops sub l st "st\<lparr>rt_env := e\<rparr>" st'] by simp
    next
      case (Register s' g' l')
      with SelControl p assms have "st' = gauge (register_lane ops s' g' l' (st\<lparr>rt_env := e\<rparr>))" "s' \<noteq> sub"
        by (auto simp: router_turn_def Let_def touches_def)
      with assms(2,4) same SelControl show ?thesis by (auto simp: register_lane_def sweep_def Let_def)
    next
      case (Release s' g')
      with SelControl p assms have "st' = gauge (release_lane s' g' (st\<lparr>rt_env := e\<rparr>))" "s' \<noteq> sub \<or> g' \<noteq> g"
        by (auto simp: router_turn_def Let_def touches_def)
      with assms(2,4) same SelControl show ?thesis by (auto simp: release_lane_def split: option.splits)
    qed
  next
    case SelControlClosed
    with p assms same show ?thesis by (auto simp: router_turn_def Let_def)
  next
    case (SelNext r)
    then show ?thesis
      using p assms same deliver_owns [of st sub g l] select_frame [OF p] by (cases r) (auto simp: router_turn_def)
  qed
qed

lemma turns_own:
  assumes "router_turns ops n st = Inl st' \<or> router_turns ops n st = Inr st'" and "rt_lanes st sub = Some (g, l)"
    and "undisturbed ops sub g n st" and "\<not> ln_is_closed ops (rt_env st') l"
  shows "owns_between ops sub l st st' \<and> rt_lanes st' sub = Some (g, l)"
  using assms
proof (induction n arbitrary: st)
  case (Suc n)
  obtain st1 where t: "router_turn ops st = Inl st1 \<and> st' = st1 \<or>
      router_turn ops st = Inr st1 \<and> (router_turns ops n st1 = Inl st' \<or> router_turns ops n st1 = Inr st')"
    using Suc.prems(1) by (auto split: sum.splits)
  have o: "\<not> ln_is_closed ops (rt_env st1) l"
    using t turns_closed [of st1 l n st'] Suc.prems(4) by auto
  have d: "owns_between ops sub l st st1 \<and> rt_lanes st1 sub = Some (g, l)"
    using turn_owns [of st st1 sub g l] t Suc.prems(2,3) o by auto
  from t show ?case
  proof
    assume a: "router_turn ops st = Inr st1 \<and> (router_turns ops n st1 = Inl st' \<or> router_turns ops n st1 = Inr st')"
    with Suc.prems(3) have "undisturbed ops sub g n st1" by simp
    then have "owns_between ops sub l st1 st' \<and> rt_lanes st' sub = Some (g, l)"
      using Suc.IH [of st1] a d Suc.prems(4) by simp
    with d show ?thesis using owns_trans by metis
  qed (use d in simp)
qed (simp add: owns_refl)

end

section \<open>The loop\<close>

lemma demux_run_turns:
  "router_turns ops n st = Inl st' \<Longrightarrow> demux_run ops st = Some (router_exit st')"
proof (induction n arbitrary: st)
  case (Suc n)
  then show ?case by (subst demux_run.simps) (auto split: sum.splits)
qed simp

section \<open>A concrete demultiplexer\<close>

text \<open>The answers of the select are scripted; the receivers named in \<open>lq_gone\<close> have been dropped.\<close>

record ('c, 'v, 'l) lane_script =
  lq_selects :: "('c, 'v, 'l) selected list"
  lq_gone :: "'l list"
  lq_backlog :: "('c, 'v) event list"
  lq_taken :: "('c, 'v) event list"
  lq_accepted :: "('l \<times> ('c, 'v) event) list"

definition lane_script_ops :: "(('c, 'v, 'l) lane_script, 'c, 'v, 'l) lane_ops" where
  "lane_script_ops = \<lparr>
     ln_select = (\<lambda>open e. case lq_selects e of
         [] \<Rightarrow> (SelNext None, e)
       | sel # rest \<Rightarrow> (sel, e\<lparr>lq_selects := rest,
           lq_taken := lq_taken e @ (case sel of SelNext (Some ev) \<Rightarrow> [ev] | _ \<Rightarrow> [])\<rparr>)),
     ln_queued = (\<lambda>e. length (lq_backlog e)),
     ln_poll = (\<lambda>e. case lq_backlog e of
         [] \<Rightarrow> (None, e)
       | ev # rest \<Rightarrow> (Some (Some ev), e\<lparr>lq_backlog := rest, lq_taken := lq_taken e @ [ev]\<rparr>)),
     ln_send = (\<lambda>l ev e. if l \<in> set (lq_gone e) then (False, e)
       else (True, e\<lparr>lq_accepted := lq_accepted e @ [(l, ev)]\<rparr>)),
     ln_is_closed = (\<lambda>e l. l \<in> set (lq_gone e)),
     ln_taken = lq_taken, ln_accepted = lq_accepted\<rparr>"

interpretation scripted: lanes "lane_script_ops :: (('c, 'v, 'l) lane_script, 'c, 'v, 'l) lane_ops"
  by unfold_locales
    (auto simp: lane_script_ops_def split: list.splits if_splits prod.splits selected.splits option.splits)

section \<open>Properties\<close>

definition ex_lane_event :: "nat \<Rightarrow> nat \<Rightarrow> (nat, nat) event" where
  "ex_lane_event scope k = event_rescan (Subscription 1 (of_nat scope)) [k] 2"

definition ex_lane_script :: "(nat, nat, nat) lane_script" where
  "ex_lane_script = \<lparr>lq_selects = [SelControl (Register (Subscription 1 5) 7 30),
       SelNext (Some (ex_lane_event 5 2)), SelNext (Some (ex_lane_event 6 3)),
       SelControl (Release (Subscription 1 5) 4), SelNext (Some (ex_lane_event 5 4))],
     lq_gone = [], lq_backlog = [], lq_taken = [], lq_accepted = []\<rparr>"

text \<open>
  Property C33. Safety. The demultiplexer loses nothing: as long as the receiver of the rest lane lives, the
  deliveries its channels accepted are exactly the events it pulled off the shared stream, in their
  order. Once that receiver is gone, the deliveries up to then are complete, and later only events that
  no lane accepted are missing; nothing is duplicated, reordered or made up.
\<close>

theorem demux_loses_nothing:
  assumes "lanes ops" and "ln_taken ops e = []" and "ln_accepted ops e = []"
    and "router_turns ops n (router_new rest e) = Inl st \<or> router_turns ops n (router_new rest e) = Inr st"
  shows "(rt_rest st = Some rest \<and> map snd (ln_accepted ops (rt_env st)) = ln_taken ops (rt_env st)) \<or>
    (rt_rest st = None \<and> ln_is_closed ops (rt_env st) rest \<and>
     (\<exists>pre post kept. ln_taken ops (rt_env st) = pre @ post \<and>
       map snd (ln_accepted ops (rt_env st)) = pre @ kept \<and> subseq kept post))"
proof -
  have "conserves ops rest (router_new rest e) (ln_taken ops (rt_env (router_new rest e)))"
    using assms(2,3) by (simp add: conserves_def router_new_def)
  from lanes.conserves_turns [OF assms(1) this assms(4)] show ?thesis
    unfolding conserves_def by auto
qed

definition ex_routed :: "((nat, nat, nat) lane_script, nat) router" where
  "ex_routed = \<lparr>rt_lanes = [Subscription 1 5 \<mapsto> (7, 30)], rt_rest = Some 9, rt_control_open = True, rt_tracked = 1,
     rt_env = ex_lane_script\<lparr>lq_selects := [],
       lq_taken := [ex_lane_event 5 2, ex_lane_event 6 3, ex_lane_event 5 4],
       lq_accepted := [(30, ex_lane_event 5 2), (9, ex_lane_event 6 3), (30, ex_lane_event 5 4)]\<rparr>\<rparr>"

lemmas lane_exec = router_turn_def deliver_def deliver_rest_def register_lane_def release_lane_def sweep_def
  gauge_def lane_count_def Let_def lane_script_ops_def ex_lane_script_def ex_lane_event_def event_rescan_def
  ex_routed_def router_new_def

lemma router_turns_numeral [simp]:
  "router_turns ops (numeral k) st =
     (case router_turn ops st of Inl st1 \<Rightarrow> Inl st1 | Inr st1 \<Rightarrow> router_turns ops (pred_numeral k) st1)"
  by (simp add: numeral_eq_Suc)

lemma undisturbed_numeral [simp]:
  "undisturbed ops sub gen (numeral k) st \<longleftrightarrow>
     \<not> touches sub gen (fst (ln_select ops (rt_control_open st) (rt_env st))) \<and>
     (case router_turn ops st of Inl _ \<Rightarrow> True | Inr st1 \<Rightarrow> undisturbed ops sub gen (pred_numeral k) st1)"
  by (simp add: numeral_eq_Suc)

lemma ex_routing: "router_turns lane_script_ops 6 (router_new 9 ex_lane_script) = Inl ex_routed"
  by (simp add: lane_exec fun_eq_iff)

theorem demux_loses_nothing_witness:
  "map snd (ln_accepted lane_script_ops (rt_env ex_routed)) = ln_taken lane_script_ops (rt_env ex_routed)"
proof -
  have "ln_taken lane_script_ops ex_lane_script = []" "ln_accepted lane_script_ops ex_lane_script = []"
    by (simp_all add: lane_exec)
  from demux_loses_nothing [OF scripted.lanes_axioms this disjI1 [OF ex_routing]] show ?thesis
    by (simp add: ex_routed_def)
qed

text \<open>
  Property C34. Safety. A lane owns its subscription from the moment its registration is applied: as long as
  no other registration and no release of the same brand is processed and its receiver lives, every event
  of the subscription pulled off the stream is delivered into it, in order, and into no other channel.
  The registration leaves no lane in the table whose receiver is gone, and the gauge shows its size.
\<close>

theorem registered_lane_owns:
  assumes "lanes ops" and "fst (ln_select ops (rt_control_open st0) (rt_env st0)) = SelControl (Register sub g l)"
    and "router_turn ops st0 = Inr st1"
    and "router_turns ops n st1 = Inl st2 \<or> router_turns ops n st1 = Inr st2"
    and "undisturbed ops sub g n st1" and "\<not> ln_is_closed ops (rt_env st2) l"
  shows "owns_between ops sub l st1 st2 \<and> rt_lanes st2 sub = Some (g, l) \<and>
    (\<forall>s g' l'. rt_lanes st1 s = Some (g', l') \<longrightarrow> \<not> ln_is_closed ops (rt_env st1) l') \<and>
    rt_tracked st1 = card (dom (rt_lanes st1))"
proof -
  have o: "\<not> ln_is_closed ops (rt_env st1) l"
    using lanes.turns_closed [OF assms(1) _ assms(4)] assms(6) by blast
  obtain e where st1: "st1 = gauge (register_lane ops sub g l (st0\<lparr>rt_env := e\<rparr>))"
    using assms(2,3) by (cases "ln_select ops (rt_control_open st0) (rt_env st0)")
      (auto simp: router_turn_def Let_def)
  then have l: "rt_lanes st1 sub = Some (g, l)" using o by (auto simp: register_lane_def Let_def)
  have "\<forall>s g' l'. rt_lanes st1 s = Some (g', l') \<longrightarrow> \<not> ln_is_closed ops (rt_env st1) l'"
    using st1 o by (auto simp: register_lane_def sweep_def Let_def split: if_splits option.splits)
  moreover have "rt_tracked st1 = card (dom (rt_lanes st1))" using st1 by (simp add: gauge_def lane_count_def)
  ultimately show ?thesis using lanes.turns_own [OF assms(1,4) l assms(5,6)] by blast
qed

definition ex_claimed :: "((nat, nat, nat) lane_script, nat) router" where
  "ex_claimed = ex_routed\<lparr>rt_env := ex_lane_script\<lparr>lq_selects := tl (lq_selects ex_lane_script)\<rparr>\<rparr>"

theorem registered_lane_owns_witness:
  "owns_between lane_script_ops (Subscription 1 5) 30 ex_claimed ex_routed"
proof -
  let ?st0 = "router_new 9 ex_lane_script"
  have a: "fst (ln_select lane_script_ops (rt_control_open ?st0) (rt_env ?st0)) =
      SelControl (Register (Subscription 1 5) 7 30)"
    by (simp add: lane_exec)
  have b: "router_turn lane_script_ops ?st0 = Inr ex_claimed"
    by (simp add: lane_exec ex_claimed_def fun_eq_iff)
  have c: "router_turns lane_script_ops 5 ex_claimed = Inl ex_routed"
    using ex_routing b by simp
  have d: "undisturbed lane_script_ops (Subscription 1 5) 7 5 ex_claimed"
    by (simp add: lane_exec ex_claimed_def touches_def)
  have "\<not> ln_is_closed lane_script_ops (rt_env ex_routed) 30" by (simp add: lane_exec)
  from registered_lane_owns [OF scripted.lanes_axioms a b disjI1 [OF c] d this] show ?thesis
    by simp
qed

end
