(* ===== verification/Monitor_State.thy ===== *)
theory Monitor_State
  imports Vocabulary "HOL-Library.Char_ord"
begin

text \<open>
  The data of the reconciliation engine of \<open>tributary-proto\<close>: the actions it asks of a driver
  (\<open>action/mod.rs\<close>), the records and results a driver feeds it (\<open>record/mod.rs\<close>) and the state of the
  \<open>Monitor\<close> itself (\<open>monitor/mod.rs\<close>) with its elementary readings.

  A \<open>BTreeMap\<close> the engine iterates is a sorted association list, one it only looks up a HOL map; the
  same for sets. A count of entries (\<open>usize\<close>) is a natural number; an entry of a counter is never zero.
  The clocks and generations are 64-bit words. Running out of handles panics in the code, here \<open>None\<close>.
\<close>

section \<open>Actions\<close>

record watch_child =
  wc_parent :: watch_id
  wc_name :: segment

datatype watch_target = RootTarget scope_id | ChildTarget watch_child | RearmRootTarget scope_id

datatype watch_ack = AckInstalled | AckAliased

record watch_command =
  wm_id :: watch_id
  wm_attempt :: arm_attempt
  wm_target :: watch_target
  wm_mask :: interest

datatype stat_target = StatWatch watch_id | StatChild watch_child

datatype action =
    ActWatch watch_command
  | ActUnwatch watch_id
  | ActEnumerate req_id watch_id
  | ActStat req_id stat_target

definition target_child :: "watch_id \<Rightarrow> segment \<Rightarrow> watch_target" where
  "target_child p n = ChildTarget \<lparr>wc_parent = p, wc_name = n\<rparr>"

definition stat_child :: "watch_id \<Rightarrow> segment \<Rightarrow> stat_target" where
  "stat_child p n = StatChild \<lparr>wc_parent = p, wc_name = n\<rparr>"

definition as_watch :: "action \<Rightarrow> watch_command option" where
  "as_watch a = (case a of ActWatch c \<Rightarrow> Some c | _ \<Rightarrow> None)"

section \<open>Records\<close>

datatype file_kind = KindFile | KindDir | KindSymlink | KindOther | KindUnknown

fun proven_dir :: "file_kind \<Rightarrow> bool option" where
  "proven_dir KindDir = Some True"
| "proven_dir KindUnknown = None"
| "proven_dir _ = Some False"

datatype record_kind = RkCreated | RkRemoved | RkModified | RkAttrib | RkMovedFrom | RkMovedTo
  | RkMoveSelf | RkDeleteSelf | RkIgnored

definition is_self_event :: "record_kind \<Rightarrow> bool" where
  "is_self_event k \<longleftrightarrow> k = RkMoveSelf \<or> k = RkDeleteSelf \<or> k = RkIgnored"

record evidence =
  pv_created :: bool
  pv_removed :: bool
  pv_modified :: bool
  pv_attrib :: bool
  pv_moved :: bool

definition evidence_new :: evidence where
  "evidence_new = \<lparr>pv_created = False, pv_removed = False, pv_modified = False, pv_attrib = False, pv_moved = False\<rparr>"

fun evidence_of :: "record_kind \<Rightarrow> evidence" where
  "evidence_of RkCreated = evidence_new\<lparr>pv_created := True\<rparr>"
| "evidence_of RkRemoved = evidence_new\<lparr>pv_removed := True\<rparr>"
| "evidence_of RkDeleteSelf = evidence_new\<lparr>pv_removed := True\<rparr>"
| "evidence_of RkModified = evidence_new\<lparr>pv_modified := True\<rparr>"
| "evidence_of RkAttrib = evidence_new\<lparr>pv_attrib := True\<rparr>"
| "evidence_of RkMovedFrom = evidence_new\<lparr>pv_moved := True\<rparr>"
| "evidence_of RkMovedTo = evidence_new\<lparr>pv_moved := True\<rparr>"
| "evidence_of RkMoveSelf = evidence_new\<lparr>pv_moved := True\<rparr>"
| "evidence_of RkIgnored = evidence_new"

definition evidence_union :: "evidence \<Rightarrow> evidence \<Rightarrow> evidence" where
  "evidence_union a b = \<lparr>pv_created = pv_created a \<or> pv_created b, pv_removed = pv_removed a \<or> pv_removed b,
     pv_modified = pv_modified a \<or> pv_modified b, pv_attrib = pv_attrib a \<or> pv_attrib b,
     pv_moved = pv_moved a \<or> pv_moved b\<rparr>"

definition evidence_admits :: "evidence \<Rightarrow> interest \<Rightarrow> bool" where
  "evidence_admits e i \<longleftrightarrow> pv_created e \<and> created i \<or> pv_removed e \<and> removed i \<or>
     pv_modified e \<and> modified i \<or> pv_attrib e \<and> attrib i \<or> pv_moved e \<and> moved i"

datatype io_class = IoNotFound | IoPermission | IoLoop | IoOutOfDescriptors | IoOther

record dir_entry =
  de_name :: segment
  de_kind :: file_kind
  de_node :: "identity option"
  de_boundary :: bool

definition entry_descends :: "dir_entry \<Rightarrow> bool" where
  "entry_descends e \<longleftrightarrow> de_kind e = KindDir \<and> \<not> de_boundary e"

datatype enumerate_result = EnumOk "dir_entry list" | EnumPartial "dir_entry list" | EnumFailed io_class

fun forces_rescan :: "enumerate_result \<Rightarrow> bool" where
  "forces_rescan (EnumOk _) = False"
| "forces_rescan _ = True"

fun enum_entries :: "enumerate_result \<Rightarrow> dir_entry list" where
  "enum_entries (EnumOk es) = es"
| "enum_entries (EnumPartial es) = es"
| "enum_entries (EnumFailed _) = []"

record stat_entry =
  ste_kind :: file_kind
  ste_node :: "identity option"

datatype stat_result = StatOk stat_entry | StatFailed io_class

record os_record =
  rec_watch :: watch_id
  rec_kind :: record_kind
  rec_evidence :: evidence
  rec_target :: "location option"
  rec_is_dir :: "bool option"
  rec_cookie :: "move_cookie option"
  rec_node :: "identity option"

definition os_record_new :: "watch_id \<Rightarrow> record_kind \<Rightarrow> os_record" where
  "os_record_new w k = \<lparr>rec_watch = w, rec_kind = k, rec_evidence = evidence_of k, rec_target = None,
     rec_is_dir = None, rec_cookie = None, rec_node = None\<rparr>"

definition rec_name :: "os_record \<Rightarrow> segment option" where
  "rec_name r = (case rec_target r of Some t \<Rightarrow> if length t = 1 then location_name t else None | None \<Rightarrow> None)"

definition rec_depth :: "os_record \<Rightarrow> nat" where
  "rec_depth r = (case rec_target r of Some t \<Rightarrow> length t | None \<Rightarrow> 0)"

section \<open>State\<close>

text \<open>Segments in the order of their bytes, for the sets of names the engine walks.\<close>

instantiation segment :: linorder
begin

definition less_eq_segment :: "segment \<Rightarrow> segment \<Rightarrow> bool" where
  "less_eq_segment a b \<longleftrightarrow> segment_str a \<le> segment_str b"

definition less_segment :: "segment \<Rightarrow> segment \<Rightarrow> bool" where
  "less_segment a b \<longleftrightarrow> segment_str a < segment_str b"

instance
  by standard (auto simp: less_eq_segment_def less_segment_def segment.expand)

end

definition default_move_window :: duration where
  "default_move_window = 100000000"

definition rearm_max_retries :: nat where
  "rearm_max_retries = 2"

definition deficit_cap :: nat where
  "deficit_cap = 16"

definition pending_move_cap :: nat where
  "pending_move_cap = 64"

definition never_moved :: u64 where
  "never_moved = 0"

datatype enum_kind = EkCold | EkRearm bool

datatype node_state =
    Arming bool bool
  | Live
  | Enumerating req_id enum_kind nat bool

fun is_rearm :: "node_state \<Rightarrow> bool" where
  "is_rearm (Arming rearm reprove) = rearm"
| "is_rearm Live = False"
| "is_rearm (Enumerating req kind attempts dirty) = (case kind of EkRearm _ \<Rightarrow> True | EkCold \<Rightarrow> False)"

datatype reparent_flavor = FlavorMoved | FlavorRerooted

record lowering =
  lw_held :: "watch_id option"
  lw_moved :: bool

definition locatable :: "lowering \<Rightarrow> bool" where
  "locatable l \<longleftrightarrow> lw_held l = None"

definition is_evidence :: "lowering \<Rightarrow> bool" where
  "is_evidence l \<longleftrightarrow> \<not> lw_moved l \<and> lw_held l = None"

record bridge_flags =
  br_saw_rescan :: bool
  br_fresh_rearm :: bool
  br_bootstrap :: bool

definition bridge_default :: bridge_flags where
  "bridge_default = \<lparr>br_saw_rescan = False, br_fresh_rearm = False, br_bootstrap = False\<rparr>"

record deficit_book =
  db_slots :: "(watch_id \<times> segment list) list"
  db_interiors :: "watch_id list"
  db_collapsed :: bool

definition book_default :: deficit_book where
  "book_default = \<lparr>db_slots = [], db_interiors = [], db_collapsed = False\<rparr>"

definition book_is_clear :: "deficit_book \<Rightarrow> bool" where
  "book_is_clear b \<longleftrightarrow> \<not> db_collapsed b \<and> db_slots b = [] \<and> db_interiors b = []"

definition fine_len :: "deficit_book \<Rightarrow> nat" where
  "fine_len b = sum_list (map (length \<circ> snd) (db_slots b)) + length (db_interiors b)"

datatype deficit_discharge = CoveringRescan | Reanchor | Teardown | UnsubscribedPrune

record adoption_marker =
  am_name :: segment
  am_adopted :: watch_id
  am_identity :: identity

datatype adoption_disposal = Verdict | CountedRetirement | DiesWithTheWalk | ChildAlreadyDropped

datatype node_marker = MkEnumerate | MkStatSlots | MkHeldSource | MkDirtiedHold | MkOwedDescent
  | MkReproveStamp | MkAdoption | MkDeficits | MkDarkInstall

definition node_marker_all :: "node_marker list" where
  "node_marker_all = [MkEnumerate, MkStatSlots, MkHeldSource, MkDirtiedHold, MkOwedDescent,
     MkReproveStamp, MkAdoption, MkDeficits, MkDarkInstall]"

datatype erased_cover = EraseNothing | EraseDischarge | EraseCounted

record erased_covers =
  er_discharge :: bool
  er_counted :: bool

definition erased_none :: erased_covers where
  "erased_none = \<lparr>er_discharge = False, er_counted = False\<rparr>"

fun absorb :: "erased_cover \<Rightarrow> erased_covers \<Rightarrow> erased_covers" where
  "absorb EraseNothing er = er"
| "absorb EraseDischarge er = er\<lparr>er_discharge := True\<rparr>"
| "absorb EraseCounted er = er\<lparr>er_counted := True\<rparr>"

record watch_node =
  wn_parent :: "watch_id option"
  wn_name :: "segment option"
  wn_scope :: scope_id
  wn_is_dir :: bool
  wn_attempt :: arm_attempt
  wn_placement :: u64
  wn_moved_at :: u64
  wn_identity :: "identity option"
  wn_state :: node_state
  wn_children :: "watch_id list"

record pending_move =
  pm_from_parent :: watch_id
  pm_from :: location
  pm_scope :: scope_id
  pm_deadline :: instant
  pm_held :: "watch_id option"
  pm_is_dir :: "bool option"
  pm_evidence :: evidence
  pm_dirty :: bool

definition in_window :: "pending_move \<Rightarrow> instant \<Rightarrow> bool" where
  "in_window p now \<longleftrightarrow> \<not> reached now (pm_deadline p)"

datatype stat_descent = DescentRearm | DescentReprove

record stat_slot =
  ss_parent :: watch_id
  ss_name :: segment
  ss_scope :: scope_id
  ss_placement :: u64
  ss_bootstrap :: bool
  ss_stands_loss :: bool
  ss_dark_uncovered :: bool
  ss_vacancy_covered :: bool

datatype slot_occupant = OccDir | OccFile | OccGone | OccUnknown

datatype rearm_kickoff = Refused | Started | Coalesced

datatype record_outcome = OutNothing | OutRenamed location | OutReparented watch_id location

record monitor =
  mo_capabilities :: capabilities
  mo_move_window :: duration
  mo_watch_ids :: sequence
  mo_req_ids :: sequence
  mo_change_ids :: sequence
  mo_arm_attempts :: sequence
  mo_nodes :: "(watch_id \<times> watch_node) list"
  mo_child_index :: "watch_id \<times> segment \<rightharpoonup> watch_id"
  mo_roots :: "(scope_id \<times> watch_id) list"
  mo_scope_epochs :: "scope_id \<rightharpoonup> epoch"
  mo_scope_interests :: "scope_id \<rightharpoonup> interest"
  mo_scope_profiles :: "scope_id \<rightharpoonup> capabilities"
  mo_rearm_pending :: "scope_id \<rightharpoonup> nat"
  mo_pending_enumerate :: "req_id \<rightharpoonup> watch_id"
  mo_pending_stat :: "(req_id \<times> stat_slot) list"
  mo_stat_slots :: "watch_id \<times> segment \<rightharpoonup> req_id"
  mo_stat_losses :: "scope_id \<rightharpoonup> nat"
  mo_owed_descents :: "watch_id \<rightharpoonup> stat_descent"
  mo_pending_moves :: "((scope_id \<times> move_cookie) \<times> pending_move) list"
  mo_held_sources :: "watch_id list"
  mo_dirtied_holds :: "watch_id set"
  mo_dark_installs :: "watch_id set"
  mo_bridge :: "(scope_id \<times> bridge_flags) list"
  mo_deficits :: "scope_id \<rightharpoonup> deficit_book"
  mo_held_by_scope :: "scope_id \<rightharpoonup> nat"
  mo_latent_cold :: "(req_id \<times> scope_id) list"
  mo_pending_adoptions :: "watch_id \<rightharpoonup> adoption_marker"
  mo_staged_adoptions :: "((scope_id \<times> watch_id) \<times> u64) list"
  mo_adoption_staging_seq :: u64
  mo_adopting_by_scope :: "scope_id \<rightharpoonup> nat"
  mo_coverage_work_epochs :: "scope_id \<rightharpoonup> u64"
  mo_loss_gens :: "scope_id \<rightharpoonup> u64"
  mo_placement_clock :: u64
  mo_reprove_stamps :: "watch_id \<rightharpoonup> u64"
  mo_actions :: "action list"
  mo_events :: "change list"

definition monitor_new :: "capabilities \<Rightarrow> monitor" where
  "monitor_new caps = \<lparr>
     mo_capabilities = caps, mo_move_window = default_move_window,
     mo_watch_ids = sequence_new, mo_req_ids = sequence_new, mo_change_ids = sequence_new,
     mo_arm_attempts = sequence_new,
     mo_nodes = [], mo_child_index = Map.empty, mo_roots = [], mo_scope_epochs = Map.empty,
     mo_scope_interests = Map.empty, mo_scope_profiles = Map.empty, mo_rearm_pending = Map.empty,
     mo_pending_enumerate = Map.empty, mo_pending_stat = [], mo_stat_slots = Map.empty,
     mo_stat_losses = Map.empty, mo_owed_descents = Map.empty, mo_pending_moves = [],
     mo_held_sources = [], mo_dirtied_holds = {}, mo_dark_installs = {}, mo_bridge = [],
     mo_deficits = Map.empty, mo_held_by_scope = Map.empty, mo_latent_cold = [],
     mo_pending_adoptions = Map.empty, mo_staged_adoptions = [], mo_adoption_staging_seq = 0,
     mo_adopting_by_scope = Map.empty, mo_coverage_work_epochs = Map.empty, mo_loss_gens = Map.empty,
     mo_placement_clock = 0, mo_reprove_stamps = Map.empty, mo_actions = [], mo_events = []\<rparr>"

section \<open>Readings\<close>

definition node_of :: "monitor \<Rightarrow> watch_id \<Rightarrow> watch_node option" where
  "node_of st w = map_of (mo_nodes st) w"

definition root_of :: "monitor \<Rightarrow> scope_id \<Rightarrow> watch_id option" where
  "root_of st s = map_of (mo_roots st) s"

definition is_watched_node :: "monitor \<Rightarrow> watch_id \<Rightarrow> bool" where
  "is_watched_node st w \<longleftrightarrow> node_of st w \<noteq> None"

definition scope_of :: "monitor \<Rightarrow> watch_id \<Rightarrow> scope_id option" where
  "scope_of st w = map_option wn_scope (node_of st w)"

definition state_of :: "monitor \<Rightarrow> watch_id \<Rightarrow> node_state option" where
  "state_of st w = map_option wn_state (node_of st w)"

definition children_of :: "monitor \<Rightarrow> watch_id \<Rightarrow> watch_id list" where
  "children_of st w = (case node_of st w of Some n \<Rightarrow> wn_children n | None \<Rightarrow> [])"

text \<open>The \<open>(parent, name)\<close> of a node that has both.\<close>

definition slot_of :: "watch_node \<Rightarrow> (watch_id \<times> segment) option" where
  "slot_of n = (case (wn_parent n, wn_name n) of (Some p, Some nm) \<Rightarrow> Some (p, nm) | _ \<Rightarrow> None)"

definition child_watch :: "monitor \<Rightarrow> watch_id \<Rightarrow> segment \<Rightarrow> watch_id option" where
  "child_watch st p n = mo_child_index st (p, n)"

definition profile_of :: "monitor \<Rightarrow> scope_id \<Rightarrow> capabilities" where
  "profile_of st s = (case mo_scope_profiles st s of Some c \<Rightarrow> c | None \<Rightarrow> mo_capabilities st)"

definition scope_descends :: "monitor \<Rightarrow> scope_id \<Rightarrow> bool" where
  "scope_descends st s \<longleftrightarrow> \<not> kernel_recursive (profile_of st s)"

definition scope_reproves_bindings :: "monitor \<Rightarrow> scope_id \<Rightarrow> bool" where
  "scope_reproves_bindings st s \<longleftrightarrow>
     \<not> kernel_recursive (profile_of st s) \<and> lossy_watch_teardown (profile_of st s)"

definition loss_gen :: "monitor \<Rightarrow> scope_id \<Rightarrow> u64" where
  "loss_gen st s = (case mo_loss_gens st s of Some g \<Rightarrow> g | None \<Rightarrow> 0)"

definition scope_needs_reproof :: "monitor \<Rightarrow> scope_id \<Rightarrow> bool" where
  "scope_needs_reproof st s \<longleftrightarrow> scope_reproves_bindings st s \<and> 0 < loss_gen st s"

definition coverage_mask :: "interest \<Rightarrow> interest" where
  "coverage_mask m = m\<lparr>created := True, removed := True, moved := True, ondir := True\<rparr>"

definition scope_interest :: "monitor \<Rightarrow> scope_id \<Rightarrow> interest" where
  "scope_interest st s = (case mo_scope_interests st s of Some i \<Rightarrow> i | None \<Rightarrow> interest_all)"

definition ondir_allows :: "monitor \<Rightarrow> scope_id \<Rightarrow> bool option \<Rightarrow> bool" where
  "ondir_allows st s d \<longleftrightarrow> d \<noteq> Some True \<or> ondir (scope_interest st s)"

text \<open>The walks toward the root are bounded by the number of nodes, as in the code.\<close>

fun moved_walk :: "nat \<Rightarrow> monitor \<Rightarrow> watch_id option \<Rightarrow> u64 \<Rightarrow> bool" where
  "moved_walk 0 st cur stamp = False"
| "moved_walk (Suc n) st cur stamp =
     (case cur of None \<Rightarrow> False
      | Some w \<Rightarrow> (case node_of st w of None \<Rightarrow> False
          | Some node \<Rightarrow> if stamp < wn_moved_at node then True else moved_walk n st (wn_parent node) stamp))"

definition placement_moved_since :: "monitor \<Rightarrow> watch_id \<Rightarrow> u64 \<Rightarrow> bool" where
  "placement_moved_since st w stamp = moved_walk (length (mo_nodes st)) st (Some w) stamp"

fun held_walk :: "nat \<Rightarrow> monitor \<Rightarrow> watch_id option \<Rightarrow> watch_id option" where
  "held_walk 0 st cur = None"
| "held_walk (Suc n) st cur =
     (case cur of None \<Rightarrow> None
      | Some w \<Rightarrow> if w \<in> set (mo_held_sources st) then Some w
          else held_walk n st (case node_of st w of Some node \<Rightarrow> wn_parent node | None \<Rightarrow> None))"

definition in_held_subtree :: "monitor \<Rightarrow> watch_id \<Rightarrow> watch_id option" where
  "in_held_subtree st w = held_walk (length (mo_nodes st) + 1) st (Some w)"

fun descendant_walk :: "nat \<Rightarrow> monitor \<Rightarrow> watch_id option \<Rightarrow> watch_id \<Rightarrow> bool" where
  "descendant_walk 0 st cur ancestor = False"
| "descendant_walk (Suc n) st cur ancestor =
     (case cur of None \<Rightarrow> False
      | Some w \<Rightarrow> if w = ancestor then True
          else descendant_walk n st (case node_of st w of Some node \<Rightarrow> wn_parent node | None \<Rightarrow> None) ancestor)"

definition is_descendant :: "monitor \<Rightarrow> watch_id \<Rightarrow> watch_id \<Rightarrow> bool" where
  "is_descendant st w ancestor = descendant_walk (length (mo_nodes st) + 1) st (Some w) ancestor"

fun location_walk :: "nat \<Rightarrow> monitor \<Rightarrow> watch_id option \<Rightarrow> location \<Rightarrow> location" where
  "location_walk 0 st cur segs = segs"
| "location_walk (Suc n) st cur segs =
     (case cur of None \<Rightarrow> segs
      | Some w \<Rightarrow> (case node_of st w of None \<Rightarrow> segs
          | Some node \<Rightarrow> location_walk n st (wn_parent node)
              (case wn_name node of Some s \<Rightarrow> s # segs | None \<Rightarrow> segs)))"

definition location_of :: "monitor \<Rightarrow> watch_id \<Rightarrow> location" where
  "location_of st w = location_walk (length (mo_nodes st)) st (Some w) []"

fun checked_walk :: "nat \<Rightarrow> monitor \<Rightarrow> watch_id \<Rightarrow> watch_id \<Rightarrow> location \<Rightarrow> location option" where
  "checked_walk 0 st root cur segs = None"
| "checked_walk (Suc n) st root cur segs =
     (if cur = root then Some segs
      else case node_of st cur of None \<Rightarrow> None
        | Some node \<Rightarrow> (case wn_name node of None \<Rightarrow> None
            | Some s \<Rightarrow> (case wn_parent node of None \<Rightarrow> None
                | Some p \<Rightarrow> checked_walk n st root p (s # segs))))"

definition location_of_checked :: "monitor \<Rightarrow> watch_id \<Rightarrow> location option" where
  "location_of_checked st w =
     (case node_of st w of None \<Rightarrow> None
      | Some node \<Rightarrow> (case root_of st (wn_scope node) of None \<Rightarrow> None
          | Some root \<Rightarrow> checked_walk (length (mo_nodes st)) st root w []))"

definition child_location :: "monitor \<Rightarrow> watch_id \<Rightarrow> segment \<Rightarrow> location" where
  "child_location st p n = location_child (location_of st p) n"

definition record_location :: "monitor \<Rightarrow> os_record \<Rightarrow> location" where
  "record_location st r = (case rec_target r of
     Some t \<Rightarrow> location_join (location_of st (rec_watch r)) t
   | None \<Rightarrow> location_of st (rec_watch r))"

definition is_root_watch :: "monitor \<Rightarrow> watch_id \<Rightarrow> bool" where
  "is_root_watch st w \<longleftrightarrow> (case node_of st w of Some n \<Rightarrow> wn_parent n = None | None \<Rightarrow> False)"

definition is_slot_child :: "monitor \<Rightarrow> watch_id \<Rightarrow> watch_id \<Rightarrow> bool" where
  "is_slot_child st p c \<longleftrightarrow>
     (case node_of st c of None \<Rightarrow> False
      | Some n \<Rightarrow> (case wn_name n of None \<Rightarrow> False | Some nm \<Rightarrow> mo_child_index st (p, nm) = Some c))"

definition has_rearm_obligation :: "monitor \<Rightarrow> watch_id \<Rightarrow> bool" where
  "has_rearm_obligation st w \<longleftrightarrow> (case node_of st w of Some n \<Rightarrow> is_rearm (wn_state n) | None \<Rightarrow> False)"

definition node_identity :: "monitor \<Rightarrow> watch_id \<Rightarrow> identity option" where
  "node_identity st w = (case node_of st w of Some n \<Rightarrow> wn_identity n | None \<Rightarrow> None)"

definition identity_differs :: "monitor \<Rightarrow> watch_id \<Rightarrow> identity option \<Rightarrow> bool" where
  "identity_differs st w i \<longleftrightarrow> (case (node_identity st w, i) of (Some a, Some b) \<Rightarrow> a \<noteq> b | _ \<Rightarrow> False)"

definition identity_matches :: "monitor \<Rightarrow> watch_id \<Rightarrow> identity option \<Rightarrow> bool" where
  "identity_matches st w i \<longleftrightarrow> (case (node_identity st w, i) of (Some a, Some b) \<Rightarrow> a = b | _ \<Rightarrow> False)"

definition can_reparent :: "monitor \<Rightarrow> watch_id \<Rightarrow> watch_id \<Rightarrow> bool" where
  "can_reparent st c p \<longleftrightarrow> is_watched_node st c \<and> is_watched_node st p \<and> p \<noteq> c \<and> \<not> is_descendant st p c"

definition unproven_adoption_of :: "monitor \<Rightarrow> watch_id \<Rightarrow> watch_id option" where
  "unproven_adoption_of st w =
     (case node_of st w of None \<Rightarrow> None
      | Some n \<Rightarrow> (case wn_parent n of None \<Rightarrow> None
          | Some p \<Rightarrow> (case mo_pending_adoptions st p of
                Some m \<Rightarrow> if am_adopted m = w then Some p else None
              | None \<Rightarrow> None)))"

definition reparentable_adoption :: "monitor \<Rightarrow> watch_id \<Rightarrow> bool" where
  "reparentable_adoption st w \<longleftrightarrow> unproven_adoption_of st w = None"

definition pending_from :: "monitor \<Rightarrow> pending_move \<Rightarrow> location" where
  "pending_from st p = location_join (location_of st (pm_from_parent p)) (pm_from p)"

definition live_pending_from :: "monitor \<Rightarrow> pending_move \<Rightarrow> location option" where
  "live_pending_from st p = (if is_watched_node st (pm_from_parent p) then Some (pending_from st p) else None)"

definition scope_moves :: "monitor \<Rightarrow> scope_id \<Rightarrow> ((scope_id \<times> move_cookie) \<times> pending_move) list" where
  "scope_moves st s = filter (\<lambda>e. fst (fst e) = s) (mo_pending_moves st)"

definition pending_move_from :: "monitor \<Rightarrow> scope_id \<Rightarrow> move_cookie \<Rightarrow> location option" where
  "pending_move_from st s c =
     (case map_of (mo_pending_moves st) (s, c) of None \<Rightarrow> None | Some p \<Rightarrow> live_pending_from st p)"

fun entry_occupant :: "file_kind \<Rightarrow> slot_occupant" where
  "entry_occupant KindDir = OccDir"
| "entry_occupant KindUnknown = OccUnknown"
| "entry_occupant _ = OccFile"

definition listed_occupant :: "dir_entry \<Rightarrow> slot_occupant" where
  "listed_occupant e = (if de_boundary e then OccFile else entry_occupant (de_kind e))"

definition class_occupant :: "bool option \<Rightarrow> slot_occupant" where
  "class_occupant d = (if d = Some True then OccDir else OccFile)"

definition record_occupant :: "os_record \<Rightarrow> slot_occupant" where
  "record_occupant r = class_occupant (rec_is_dir r)"

definition stat_slot_dark :: "monitor \<Rightarrow> stat_slot \<Rightarrow> bool" where
  "stat_slot_dark st s \<longleftrightarrow> ss_dark_uncovered s \<or>
     (child_watch st (ss_parent s) (ss_name s) = None \<and> \<not> ss_vacancy_covered s)"

section \<open>What is settled\<close>

definition rearm_settled :: "monitor \<Rightarrow> scope_id \<Rightarrow> bool" where
  "rearm_settled st s \<longleftrightarrow> mo_rearm_pending st s = None"

definition holds_settled :: "monitor \<Rightarrow> scope_id \<Rightarrow> bool" where
  "holds_settled st s \<longleftrightarrow> mo_held_by_scope st s = None"

definition adoptions_settled :: "monitor \<Rightarrow> scope_id \<Rightarrow> bool" where
  "adoptions_settled st s \<longleftrightarrow> mo_adopting_by_scope st s = None"

definition latent_settled :: "monitor \<Rightarrow> scope_id \<Rightarrow> bool" where
  "latent_settled st s \<longleftrightarrow> s \<notin> snd ` set (mo_latent_cold st)"

definition moves_settled :: "monitor \<Rightarrow> scope_id \<Rightarrow> bool" where
  "moves_settled st s \<longleftrightarrow> scope_moves st s = []"

definition coverage_settled :: "monitor \<Rightarrow> scope_id \<Rightarrow> bool" where
  "coverage_settled st s \<longleftrightarrow> rearm_settled st s \<and> holds_settled st s \<and> latent_settled st s \<and>
     adoptions_settled st s \<and> moves_settled st s"

definition stat_loss_outstanding :: "monitor \<Rightarrow> scope_id \<Rightarrow> bool" where
  "stat_loss_outstanding st s \<longleftrightarrow> mo_stat_losses st s \<noteq> None"

definition coverage_work_epoch :: "monitor \<Rightarrow> scope_id \<Rightarrow> u64" where
  "coverage_work_epoch st s = (case mo_coverage_work_epochs st s of Some e \<Rightarrow> e | None \<Rightarrow> 0)"

definition has_coverage_deficit :: "monitor \<Rightarrow> scope_id \<Rightarrow> bool" where
  "has_coverage_deficit st s \<longleftrightarrow> mo_deficits st s \<noteq> None"

definition adoption_staging_high_water :: "monitor \<Rightarrow> scope_id \<Rightarrow> u64 option" where
  "adoption_staging_high_water st s =
     (let at = map snd (filter (\<lambda>e. fst (fst e) = s) (mo_staged_adoptions st))
      in if at = [] then None else Some (fold max at 0))"

definition adoption_staged_through :: "monitor \<Rightarrow> scope_id \<Rightarrow> u64 \<Rightarrow> bool" where
  "adoption_staged_through st s through \<longleftrightarrow>
     list_ex (\<lambda>e. fst (fst e) = s \<and> snd e \<le> through) (mo_staged_adoptions st)"

fun group_staged :: "((scope_id \<times> watch_id) \<times> u64) list \<Rightarrow> (scope_id \<times> u64) list \<Rightarrow> (scope_id \<times> u64) list" where
  "group_staged [] out = out"
| "group_staged (((s, w), at) # rest) out =
     group_staged rest
       (if out \<noteq> [] \<and> fst (last out) = s then butlast out @ [(s, max (snd (last out)) at)] else out @ [(s, at)])"

definition staged_adoption_scopes :: "monitor \<Rightarrow> (scope_id \<times> u64) list" where
  "staged_adoption_scopes st = group_staged (mo_staged_adoptions st) []"

definition poll_timeout :: "monitor \<Rightarrow> instant option" where
  "poll_timeout st = (case map (pm_deadline \<circ> snd) (mo_pending_moves st) of
     [] \<Rightarrow> None | d # ds \<Rightarrow> Some (fold min ds d))"

end
