(* ===== verification/Monitor_Base.thy ===== *)
theory Monitor_Base
  imports Monitor_State "HOL-Library.Monad_Syntax"
begin

text \<open>
  The elementary operations of the \<open>Monitor\<close> (\<open>monitor/mod.rs\<close>): minting, counters, the bridge flags, the
  deficit book, the emission of changes with its coalescing, node and slot bookkeeping, the arms and reads
  it queues, and the drop of a subtree. An operation that may mint a handle answers an option; \<open>None\<close> is the
  panic of an exhausted handle space. Debug assertions are left out, the early returns behind them kept.
\<close>

section \<open>Handles\<close>

definition next_watch_id :: "monitor \<Rightarrow> (watch_id \<times> monitor) option" where
  "next_watch_id st = (case mint (mo_watch_ids st) of None \<Rightarrow> None | Some (v, q) \<Rightarrow> Some (v, st\<lparr>mo_watch_ids := q\<rparr>))"

definition next_req_id :: "monitor \<Rightarrow> (req_id \<times> monitor) option" where
  "next_req_id st = (case mint (mo_req_ids st) of None \<Rightarrow> None | Some (v, q) \<Rightarrow> Some (v, st\<lparr>mo_req_ids := q\<rparr>))"

definition next_change_id :: "monitor \<Rightarrow> (change_id \<times> monitor) option" where
  "next_change_id st = (case mint (mo_change_ids st) of None \<Rightarrow> None | Some (v, q) \<Rightarrow> Some (v, st\<lparr>mo_change_ids := q\<rparr>))"

definition next_arm_attempt :: "monitor \<Rightarrow> (arm_attempt \<times> monitor) option" where
  "next_arm_attempt st = (case mint (mo_arm_attempts st) of None \<Rightarrow> None | Some (v, q) \<Rightarrow> Some (v, st\<lparr>mo_arm_attempts := q\<rparr>))"

section \<open>Counters and nodes\<close>

definition upd_node :: "watch_id \<Rightarrow> (watch_node \<Rightarrow> watch_node) \<Rightarrow> monitor \<Rightarrow> monitor" where
  "upd_node w f st = st\<lparr>mo_nodes := map (\<lambda>(k, n). (k, if k = w then f n else n)) (mo_nodes st)\<rparr>"

definition count_inc :: "scope_id \<Rightarrow> (scope_id \<rightharpoonup> nat) \<Rightarrow> (scope_id \<rightharpoonup> nat)" where
  "count_inc s m = m(s \<mapsto> (case m s of Some c \<Rightarrow> c + 1 | None \<Rightarrow> 1))"

definition count_dec :: "scope_id \<Rightarrow> nat \<Rightarrow> (scope_id \<rightharpoonup> nat) \<Rightarrow> (scope_id \<rightharpoonup> nat)" where
  "count_dec s by m = (case m s of None \<Rightarrow> m | Some c \<Rightarrow> if c - by = 0 then m(s := None) else m(s \<mapsto> c - by))"

definition acquired_coverage_work :: "scope_id \<Rightarrow> monitor \<Rightarrow> monitor" where
  "acquired_coverage_work s st = st\<lparr>mo_coverage_work_epochs :=
     (mo_coverage_work_epochs st)(s \<mapsto> coverage_work_epoch st s + 1)\<rparr>"

definition rearm_pending_inc :: "scope_id \<Rightarrow> monitor \<Rightarrow> monitor" where
  "rearm_pending_inc s st =
     acquired_coverage_work s (st\<lparr>mo_rearm_pending := count_inc s (mo_rearm_pending st)\<rparr>)"

definition rearm_pending_dec :: "scope_id \<Rightarrow> monitor \<Rightarrow> monitor" where
  "rearm_pending_dec s st = st\<lparr>mo_rearm_pending := count_dec s 1 (mo_rearm_pending st)\<rparr>"

definition stat_loss_inc :: "scope_id \<Rightarrow> monitor \<Rightarrow> monitor" where
  "stat_loss_inc s st = st\<lparr>mo_stat_losses := count_inc s (mo_stat_losses st)\<rparr>"

definition stat_loss_dec :: "scope_id \<Rightarrow> nat \<Rightarrow> monitor \<Rightarrow> monitor" where
  "stat_loss_dec s by st = (if by = 0 then st else st\<lparr>mo_stat_losses := count_dec s by (mo_stat_losses st)\<rparr>)"

definition held_by_scope_inc :: "scope_id \<Rightarrow> monitor \<Rightarrow> monitor" where
  "held_by_scope_inc s st =
     acquired_coverage_work s (st\<lparr>mo_held_by_scope := count_inc s (mo_held_by_scope st)\<rparr>)"

definition held_by_scope_dec :: "scope_id \<Rightarrow> monitor \<Rightarrow> monitor" where
  "held_by_scope_dec s st = st\<lparr>mo_held_by_scope := count_dec s 1 (mo_held_by_scope st)\<rparr>"

definition bump_loss_gen :: "scope_id \<Rightarrow> monitor \<Rightarrow> monitor" where
  "bump_loss_gen s st = st\<lparr>mo_loss_gens := (mo_loss_gens st)(s \<mapsto> loss_gen st s + 1)\<rparr>"

definition moved_placement :: "watch_id \<Rightarrow> monitor \<Rightarrow> monitor" where
  "moved_placement w st0 =
     (let now = mo_placement_clock st0 + 1; st = st0\<lparr>mo_placement_clock := now\<rparr>
      in upd_node w (\<lambda>n. n\<lparr>wn_moved_at := now\<rparr>) st)"

definition book_hold :: "watch_id \<Rightarrow> monitor \<Rightarrow> monitor" where
  "book_hold w st = st\<lparr>mo_dirtied_holds := insert w (mo_dirtied_holds st)\<rparr>"

definition fence_lowering :: "watch_id \<Rightarrow> u64 \<Rightarrow> monitor \<Rightarrow> lowering \<times> monitor" where
  "fence_lowering w stamp st0 =
     (let held = in_held_subtree st0 w;
          st = (case held of Some source \<Rightarrow> book_hold source st0 | None \<Rightarrow> st0)
      in (\<lparr>lw_held = held, lw_moved = placement_moved_since st w stamp\<rparr>, st))"

section \<open>The bridge flags\<close>

definition bridge_of :: "monitor \<Rightarrow> scope_id \<Rightarrow> bridge_flags option" where
  "bridge_of st s = map_of (mo_bridge st) s"

definition bridge_set :: "scope_id \<Rightarrow> (bridge_flags \<Rightarrow> bridge_flags) \<Rightarrow> monitor \<Rightarrow> monitor" where
  "bridge_set s f st =
     (if scope_descends st s
      then st\<lparr>mo_bridge := btm_insert s
        (f (case bridge_of st s of Some b \<Rightarrow> b | None \<Rightarrow> bridge_default)) (mo_bridge st)\<rparr>
      else st)"

definition bridge_saw_rescan :: "scope_id \<Rightarrow> monitor \<Rightarrow> monitor" where
  "bridge_saw_rescan s st = bridge_set s (\<lambda>b. b\<lparr>br_saw_rescan := True\<rparr>) st"

definition bridge_fresh_rearm :: "scope_id \<Rightarrow> monitor \<Rightarrow> monitor" where
  "bridge_fresh_rearm s st = bridge_set s (\<lambda>b. b\<lparr>br_fresh_rearm := True\<rparr>) st"

definition bridge_bootstrap :: "scope_id \<Rightarrow> monitor \<Rightarrow> monitor" where
  "bridge_bootstrap s st = bridge_set s (\<lambda>b. b\<lparr>br_bootstrap := True\<rparr>) st"

definition bridge_remove :: "scope_id \<Rightarrow> monitor \<Rightarrow> monitor" where
  "bridge_remove s st = st\<lparr>mo_bridge := btm_remove s (mo_bridge st)\<rparr>"

definition bridge_is_lossy :: "monitor \<Rightarrow> scope_id \<Rightarrow> bool" where
  "bridge_is_lossy st s \<longleftrightarrow> (case bridge_of st s of Some b \<Rightarrow> br_saw_rescan b | None \<Rightarrow> False)"

definition in_bootstrap_window :: "monitor \<Rightarrow> scope_id \<Rightarrow> bool" where
  "in_bootstrap_window st s \<longleftrightarrow> (case bridge_of st s of Some b \<Rightarrow> br_bootstrap b | None \<Rightarrow> False)"

definition mark_bootstrap_loss :: "scope_id \<Rightarrow> monitor \<Rightarrow> monitor" where
  "mark_bootstrap_loss s st = (if in_bootstrap_window st s then bridge_saw_rescan s st else st)"

definition mark_fresh_install :: "scope_id \<Rightarrow> watch_id option \<Rightarrow> monitor \<Rightarrow> monitor" where
  "mark_fresh_install s fresh st0 =
     (let st = mark_bootstrap_loss s st0
      in case fresh of Some w \<Rightarrow> st\<lparr>mo_dark_installs := insert w (mo_dark_installs st)\<rparr> | None \<Rightarrow> st)"

definition settle_dark_install :: "watch_id \<Rightarrow> scope_id \<Rightarrow> dir_entry list \<Rightarrow> monitor \<Rightarrow> monitor" where
  "settle_dark_install d s entries st =
     (if d \<notin> mo_dark_installs st then st
      else (let st1 = st\<lparr>mo_dark_installs := mo_dark_installs st - {d}\<rparr>
            in if entries \<noteq> [] then bridge_saw_rescan s st1 else st1))"

section \<open>Inserting nodes and setting their state\<close>

definition insert_node :: "watch_id \<Rightarrow> watch_node \<Rightarrow> monitor \<Rightarrow> monitor" where
  "insert_node w n st0 =
     (let st1 = (if is_rearm (wn_state n) then rearm_pending_inc (wn_scope n) st0 else st0);
          st2 = (if wn_state n = Arming True False then bridge_fresh_rearm (wn_scope n) st1 else st1)
      in st2\<lparr>mo_nodes := btm_insert w n (mo_nodes st2)\<rparr>)"

fun arming_rearm :: "node_state \<Rightarrow> bool" where
  "arming_rearm (Arming True _) = True"
| "arming_rearm _ = False"

definition set_state :: "watch_id \<Rightarrow> node_state \<Rightarrow> monitor \<Rightarrow> monitor" where
  "set_state w ns st =
     (case node_of st w of
        None \<Rightarrow> st
      | Some n \<Rightarrow>
          (let was = is_rearm (wn_state n); now = is_rearm ns; s = wn_scope n;
               entered_fresh = (ns = Arming True False \<and> \<not> arming_rearm (wn_state n));
               st1 = upd_node w (\<lambda>n. n\<lparr>wn_state := ns\<rparr>) st;
               st2 = (if entered_fresh then bridge_fresh_rearm s st1 else st1)
           in if was = now then st2
              else if now then rearm_pending_inc s st2 else rearm_pending_dec s st2))"

definition mark_enumerate_dirty :: "watch_id \<Rightarrow> monitor \<Rightarrow> monitor" where
  "mark_enumerate_dirty w st = upd_node w (\<lambda>n. n\<lparr>wn_state :=
     (case wn_state n of Enumerating req kind attempts _ \<Rightarrow> Enumerating req kind attempts True | ns \<Rightarrow> ns)\<rparr>) st"

definition latent_remove :: "req_id \<Rightarrow> monitor \<Rightarrow> monitor" where
  "latent_remove r st = st\<lparr>mo_latent_cold := btm_remove r (mo_latent_cold st)\<rparr>"

definition forget_enumerate :: "req_id \<Rightarrow> monitor \<Rightarrow> monitor" where
  "forget_enumerate r st = latent_remove r (st\<lparr>mo_pending_enumerate := (mo_pending_enumerate st)(r := None)\<rparr>)"

definition latent_cold_insert :: "req_id \<Rightarrow> scope_id \<Rightarrow> monitor \<Rightarrow> monitor" where
  "latent_cold_insert r s st =
     (let st1 = st\<lparr>mo_latent_cold := btm_insert r s (mo_latent_cold st)\<rparr>
      in if map_of (mo_latent_cold st) r = None then acquired_coverage_work s st1 else st1)"

section \<open>The deficit book\<close>

definition enforce_deficit_cap :: "deficit_book \<Rightarrow> deficit_book" where
  "enforce_deficit_cap b = (if deficit_cap < fine_len b
     then b\<lparr>db_slots := [], db_interiors := [], db_collapsed := True\<rparr> else b)"

definition book_of :: "monitor \<Rightarrow> scope_id \<Rightarrow> deficit_book" where
  "book_of st s = (case mo_deficits st s of Some b \<Rightarrow> b | None \<Rightarrow> book_default)"

definition put_book :: "scope_id \<Rightarrow> deficit_book \<Rightarrow> monitor \<Rightarrow> monitor" where
  "put_book s b st = st\<lparr>mo_deficits := (mo_deficits st)(s \<mapsto> b)\<rparr>"

definition record_slot_deficit :: "scope_id \<Rightarrow> watch_id \<Rightarrow> segment \<Rightarrow> monitor \<Rightarrow> monitor" where
  "record_slot_deficit s p nm st =
     (if \<not> scope_descends st s then st
      else if \<not> is_watched_node st p then st
      else (let b = book_of st s
            in if db_collapsed b then put_book s b st
               else put_book s (enforce_deficit_cap (b\<lparr>db_slots := btm_insert p
                 (bts_insert nm (case map_of (db_slots b) p of Some ns \<Rightarrow> ns | None \<Rightarrow> [])) (db_slots b)\<rparr>)) st))"

definition record_interior_deficit :: "scope_id \<Rightarrow> watch_id \<Rightarrow> monitor \<Rightarrow> monitor" where
  "record_interior_deficit s d st =
     (if \<not> scope_descends st s then st
      else if \<not> is_watched_node st d then st
      else (let b = book_of st s
            in if db_collapsed b then put_book s b st
               else put_book s (enforce_deficit_cap (b\<lparr>db_interiors := bts_insert d (db_interiors b)\<rparr>)) st))"

definition gc_deficit_book :: "scope_id \<Rightarrow> monitor \<Rightarrow> monitor" where
  "gc_deficit_book s st =
     (case mo_deficits st s of
        Some b \<Rightarrow> if book_is_clear b then st\<lparr>mo_deficits := (mo_deficits st)(s := None)\<rparr> else st
      | None \<Rightarrow> st)"

definition book_drop_name :: "watch_id \<Rightarrow> segment \<Rightarrow> deficit_book \<Rightarrow> deficit_book" where
  "book_drop_name p nm b =
     (case map_of (db_slots b) p of
        None \<Rightarrow> b
      | Some names \<Rightarrow> (let rest = bts_remove nm names
          in b\<lparr>db_slots := if rest = [] then btm_remove p (db_slots b) else btm_insert p rest (db_slots b)\<rparr>))"

definition upd_stat :: "req_id \<Rightarrow> (stat_slot \<Rightarrow> stat_slot) \<Rightarrow> monitor \<Rightarrow> monitor" where
  "upd_stat r f st = st\<lparr>mo_pending_stat := map (\<lambda>(k, s). (k, if k = r then f s else s)) (mo_pending_stat st)\<rparr>"

text \<open>What is done to the outstanding stat of a slot, if there is one.\<close>

definition upd_slot_stat :: "watch_id \<Rightarrow> segment \<Rightarrow> (stat_slot \<Rightarrow> stat_slot) \<Rightarrow> monitor \<Rightarrow> monitor" where
  "upd_slot_stat p nm f st = (case mo_stat_slots st (p, nm) of Some r \<Rightarrow> upd_stat r f st | None \<Rightarrow> st)"

definition remove_slot_deficit :: "scope_id \<Rightarrow> watch_id \<Rightarrow> segment \<Rightarrow> monitor \<Rightarrow> bool \<times> monitor" where
  "remove_slot_deficit s p nm st =
     (case mo_deficits st s of
        None \<Rightarrow> (False, st)
      | Some b \<Rightarrow> (case map_of (db_slots b) p of
            None \<Rightarrow> (False, st)
          | Some names \<Rightarrow>
              (let removed = nm \<in> set names;
                   st1 = gc_deficit_book s (put_book s (book_drop_name p nm b) st)
               in if removed
                  then (True, upd_slot_stat p nm (\<lambda>x. x\<lparr>ss_dark_uncovered := False\<rparr>)
                         (bridge_fresh_rearm s (bridge_saw_rescan s st1)))
                  else (False, st1))))"

definition clear_interior_deficit :: "scope_id \<Rightarrow> watch_id \<Rightarrow> monitor \<Rightarrow> monitor" where
  "clear_interior_deficit s d st =
     (case mo_deficits st s of
        None \<Rightarrow> st
      | Some b \<Rightarrow>
          (let removed = d \<in> set (db_interiors b);
               st1 = gc_deficit_book s (put_book s (b\<lparr>db_interiors := bts_remove d (db_interiors b)\<rparr>) st)
           in if removed then bridge_fresh_rearm s (bridge_saw_rescan s st1) else st1))"

definition drop_node_deficits :: "scope_id \<Rightarrow> watch_id \<Rightarrow> monitor \<Rightarrow> bool \<times> monitor" where
  "drop_node_deficits s w st =
     (case mo_deficits st s of
        None \<Rightarrow> (False, st)
      | Some b \<Rightarrow>
          (w \<in> set (db_interiors b) \<or> map_of (db_slots b) w \<noteq> None,
           gc_deficit_book s (put_book s (b\<lparr>db_interiors := bts_remove w (db_interiors b),
             db_slots := btm_remove w (db_slots b)\<rparr>) st)))"

section \<open>Slots\<close>

definition cover_stat_vacancy :: "watch_id \<Rightarrow> segment \<Rightarrow> monitor \<Rightarrow> monitor" where
  "cover_stat_vacancy p nm st = upd_slot_stat p nm (\<lambda>x. x\<lparr>ss_vacancy_covered := True\<rparr>) st"

definition vacate_child_slot :: "watch_id \<Rightarrow> segment \<Rightarrow> monitor \<Rightarrow> monitor" where
  "vacate_child_slot p nm st =
     (if mo_child_index st (p, nm) = None then st
      else upd_slot_stat p nm (\<lambda>x. x\<lparr>ss_vacancy_covered := False\<rparr>)
        (st\<lparr>mo_child_index := (mo_child_index st)((p, nm) := None)\<rparr>))"

definition raise_stat_darkness :: "req_id \<Rightarrow> monitor \<Rightarrow> monitor" where
  "raise_stat_darkness r st =
     (case map_of (mo_pending_stat st) r of
        None \<Rightarrow> st
      | Some s \<Rightarrow>
          (if ss_stands_loss s then upd_stat r (\<lambda>x. x\<lparr>ss_dark_uncovered := True\<rparr>) st
           else stat_loss_inc (ss_scope s)
             (upd_stat r (\<lambda>x. x\<lparr>ss_dark_uncovered := True, ss_stands_loss := True\<rparr>) st)))"

section \<open>Emission\<close>

definition locations_touch :: "location \<Rightarrow> location \<Rightarrow> bool" where
  "locations_touch a b \<longleftrightarrow> location_starts_with a b \<or> location_starts_with b a"

fun kind_tag :: "change_kind \<Rightarrow> nat" where
  "kind_tag Created = 0"
| "kind_tag Modified = 1"
| "kind_tag Removed = 2"
| "kind_tag (Moved _) = 3"
| "kind_tag Rescan = 4"

type_synonym dedup = "scope_id \<times> location \<times> nat \<times> location option"

definition dedup_key :: "change \<Rightarrow> dedup" where
  "dedup_key c = (ch_scope c, ch_location c, kind_tag (ch_kind c), moved_from (ch_kind c))"

definition touched :: "location \<Rightarrow> change_kind \<Rightarrow> location list" where
  "touched loc kind = loc # (case moved_from kind of Some src \<Rightarrow> [src] | None \<Rightarrow> [])"

definition queued_touches :: "scope_id \<Rightarrow> location list \<Rightarrow> change \<Rightarrow> bool" where
  "queued_touches s locs c \<longleftrightarrow> ch_scope c = s \<and> list_ex (\<lambda>loc.
     locations_touch (ch_location c) loc \<or>
     (case moved_from (ch_kind c) of Some src \<Rightarrow> locations_touch src loc | None \<Rightarrow> False)) locs"

definition would_coalesce :: "monitor \<Rightarrow> scope_id \<Rightarrow> location \<Rightarrow> change_kind \<Rightarrow> bool" where
  "would_coalesce st s loc kind \<longleftrightarrow>
     \<not> list_ex (\<lambda>e. is_watched_node st (pm_from_parent (snd e)) \<and>
         list_ex (locations_touch (pending_from st (snd e))) (touched loc kind)) (scope_moves st s) \<and>
     (case find (queued_touches s (touched loc kind)) (rev (mo_events st)) of
        None \<Rightarrow> False
      | Some c \<Rightarrow> dedup_key c = (s, loc, kind_tag kind, moved_from kind))"

definition epoch_of :: "monitor \<Rightarrow> scope_id \<Rightarrow> epoch" where
  "epoch_of st s = (case mo_scope_epochs st s of Some e \<Rightarrow> e | None \<Rightarrow> epoch_start)"

definition bump_epoch :: "scope_id \<Rightarrow> monitor \<Rightarrow> monitor" where
  "bump_epoch s st = st\<lparr>mo_scope_epochs := (mo_scope_epochs st)(s \<mapsto> epoch_next (epoch_of st s))\<rparr>"

definition kind_wanted :: "interest \<Rightarrow> change_kind \<Rightarrow> bool" where
  "kind_wanted i kind = (case kind of Rescan \<Rightarrow> True | Created \<Rightarrow> created i | Removed \<Rightarrow> removed i
     | Moved _ \<Rightarrow> moved i | Modified \<Rightarrow> modified i \<or> attrib i)"

definition emit ::
  "scope_id \<Rightarrow> location \<Rightarrow> change_kind \<Rightarrow> evidence \<Rightarrow> bool option \<Rightarrow> monitor \<Rightarrow> (change_id option \<times> monitor) option" where
  "emit s loc kind pv d st =
     (if \<not> kind_wanted (scope_interest st s) kind \<and> \<not> evidence_admits pv (scope_interest st s) then Some (None, st)
      else if would_coalesce st s loc kind then Some (None, st)
      else do { (cid, st1) \<leftarrow> next_change_id st;
                Some (Some cid, st1\<lparr>mo_events := mo_events st1 @ [\<lparr>ch_id = cid, ch_scope = s, ch_location = loc,
                  ch_kind = kind, ch_epoch = epoch_of st1 s, ch_is_dir = d\<rparr>]\<rparr>) })"

definition mint_rescan :: "scope_id \<Rightarrow> location \<Rightarrow> monitor \<Rightarrow> (change_id option \<times> monitor) option" where
  "mint_rescan s loc st =
     (if would_coalesce st s loc Rescan then Some (None, st)
      else emit s loc Rescan evidence_new None (bump_epoch s st))"

definition emit_rescan :: "scope_id \<Rightarrow> location \<Rightarrow> monitor \<Rightarrow> (change_id option \<times> monitor) option" where
  "emit_rescan s loc st = mint_rescan s loc (bridge_saw_rescan s st)"

text \<open>The callers that ignore the identifier.\<close>

definition emit_to :: "scope_id \<Rightarrow> location \<Rightarrow> change_kind \<Rightarrow> evidence \<Rightarrow> bool option \<Rightarrow> monitor \<Rightarrow> monitor option" where
  "emit_to s loc kind pv d st = map_option snd (emit s loc kind pv d st)"

definition rescan_to :: "scope_id \<Rightarrow> location \<Rightarrow> monitor \<Rightarrow> monitor option" where
  "rescan_to s loc st = map_option snd (emit_rescan s loc st)"

definition emit_child :: "scope_id \<Rightarrow> os_record \<Rightarrow> change_kind \<Rightarrow> monitor \<Rightarrow> monitor option" where
  "emit_child s r kind st = emit_to s (record_location st r) kind (rec_evidence r) (rec_is_dir r) st"

definition settle_bridge :: "scope_id \<Rightarrow> monitor \<Rightarrow> monitor option" where
  "settle_bridge s st =
     (if \<not> rearm_settled st s then Some st
      else do { st1 \<leftarrow> (if root_of st s \<noteq> None \<and> (case bridge_of st s of
                      Some b \<Rightarrow> br_saw_rescan b \<and> br_fresh_rearm b | None \<Rightarrow> False)
                  then rescan_to s location_new st else Some st);
                Some (bridge_remove s st1) })"

definition settle_bridges :: "monitor \<Rightarrow> monitor option" where
  "settle_bridges st = fold_opt settle_bridge (map fst (mo_bridge st)) st"

section \<open>Arms and reads\<close>

definition arm_node :: "watch_id \<Rightarrow> arm_attempt \<Rightarrow> monitor \<Rightarrow> monitor" where
  "arm_node w a st = upd_node w (\<lambda>n. n\<lparr>wn_attempt := a, wn_placement := mo_placement_clock st\<rparr>) st"

definition queue_watch :: "watch_id \<Rightarrow> watch_target \<Rightarrow> interest \<Rightarrow> monitor \<Rightarrow> monitor option" where
  "queue_watch w target msk st0 =
     do { (a, st1) \<leftarrow> next_arm_attempt st0;
          Some ((arm_node w a st1)\<lparr>mo_actions := mo_actions st1 @
            [ActWatch \<lparr>wm_id = w, wm_attempt = a, wm_target = target, wm_mask = msk\<rparr>]\<rparr>) }"

definition adopt_arm :: "watch_id \<Rightarrow> monitor \<Rightarrow> (arm_attempt \<times> monitor) option" where
  "adopt_arm w st0 = do { (a, st1) \<leftarrow> next_arm_attempt st0; Some (a, arm_node w a st1) }"

definition retire_arm :: "watch_id \<Rightarrow> monitor \<Rightarrow> monitor option" where
  "retire_arm w st = map_option snd (adopt_arm w st)"

definition queue_slot_arm :: "watch_id \<Rightarrow> scope_id \<Rightarrow> monitor \<Rightarrow> (bool \<times> monitor) option" where
  "queue_slot_arm w s st =
     (case node_of st w of
        None \<Rightarrow> Some (False, st)
      | Some n \<Rightarrow>
          map_option (Pair True) (queue_watch w
            (case slot_of n of Some (p, nm) \<Rightarrow> target_child p nm | None \<Rightarrow> RearmRootTarget s)
            (coverage_mask (scope_interest st s)) st))"

definition queue_reinstall :: "watch_id \<Rightarrow> scope_id \<Rightarrow> monitor \<Rightarrow> monitor option" where
  "queue_reinstall w s st =
     do { (queued, st1) \<leftarrow> queue_slot_arm w s st;
          Some (if queued then st1\<lparr>mo_reprove_stamps := (mo_reprove_stamps st1)(w \<mapsto> loss_gen st1 s)\<rparr> else st1) }"

definition readdress_outstanding_arm :: "watch_id \<Rightarrow> monitor \<Rightarrow> monitor option" where
  "readdress_outstanding_arm w st =
     (case node_of st w of
        None \<Rightarrow> Some st
      | Some n \<Rightarrow> (case wn_state n of
            Arming _ reprove \<Rightarrow>
              if reprove then queue_reinstall w (wn_scope n) st
              else map_option snd (queue_slot_arm w (wn_scope n) st)
          | _ \<Rightarrow> Some st))"

definition queue_enumerate :: "watch_id \<Rightarrow> enum_kind \<Rightarrow> nat \<Rightarrow> monitor \<Rightarrow> monitor option" where
  "queue_enumerate d kind attempts st =
     (case state_of st d of
        None \<Rightarrow> Some st
      | Some ns \<Rightarrow>
          do { let st1 = (case ns of Enumerating prior _ _ _ \<Rightarrow> forget_enumerate prior st | _ \<Rightarrow> st);
               (req, st2) \<leftarrow> next_req_id st1;
               let st3 = st2\<lparr>mo_pending_enumerate := (mo_pending_enumerate st2)(req \<mapsto> d)\<rparr>;
               let st4 = upd_node d (\<lambda>n. n\<lparr>wn_placement := mo_placement_clock st3\<rparr>) st3;
               let st5 = set_state d (Enumerating req kind attempts False) st4;
               Some (st5\<lparr>mo_actions := mo_actions st5 @ [ActEnumerate req d]\<rparr>) })"

definition start_rearm :: "watch_id \<Rightarrow> monitor \<Rightarrow> (rearm_kickoff \<times> monitor) option" where
  "start_rearm d st =
     (case node_of st d of
        None \<Rightarrow> Some (Refused, st)
      | Some n \<Rightarrow>
          if \<not> scope_descends st (wn_scope n) then Some (Refused, st)
          else (case wn_state n of
              Live \<Rightarrow> map_option (Pair Started) (queue_enumerate d (EkRearm False) 0 st)
            | Enumerating req kind _ _ \<Rightarrow>
                (let st1 = set_state d (Enumerating req kind 0 True) st
                 in case kind of
                      EkCold \<Rightarrow> Some (Coalesced, latent_cold_insert req (wn_scope n) st1)
                    | EkRearm _ \<Rightarrow> Some (Started, st1))
            | Arming _ _ \<Rightarrow> Some (Refused, st)))"

definition inherit_rearm :: "watch_id \<Rightarrow> monitor \<Rightarrow> (rearm_kickoff \<times> monitor) option" where
  "inherit_rearm w st =
     (case state_of st w of
        None \<Rightarrow> Some (Refused, st)
      | Some (Arming _ reprove) \<Rightarrow> Some (Started, set_state w (Arming True reprove) st)
      | Some _ \<Rightarrow> start_rearm w st)"

definition rearm_to :: "watch_id \<Rightarrow> monitor \<Rightarrow> monitor option" where
  "rearm_to w st = map_option snd (inherit_rearm w st)"

definition start_reinstall :: "watch_id \<Rightarrow> monitor \<Rightarrow> monitor option" where
  "start_reinstall w st =
     (case node_of st w of
        None \<Rightarrow> Some st
      | Some n \<Rightarrow> (case wn_state n of
            Live \<Rightarrow> queue_reinstall w (wn_scope n) (set_state w (Arming True True) st)
          | Enumerating req _ _ _ \<Rightarrow>
              queue_reinstall w (wn_scope n) (set_state w (Arming True True) (forget_enumerate req st))
          | Arming _ _ \<Rightarrow>
              (let st1 = set_state w (Arming True True) st;
                   stale = (if loss_gen st1 (wn_scope n) = 0 then 0 else loss_gen st1 (wn_scope n) - 1)
               in Some (if mo_reprove_stamps st1 w = None
                        then st1\<lparr>mo_reprove_stamps := (mo_reprove_stamps st1)(w \<mapsto> stale)\<rparr> else st1))))"

definition heal_kick :: "scope_id \<Rightarrow> watch_id \<Rightarrow> monitor \<Rightarrow> monitor option" where
  "heal_kick s d st = (if scope_needs_reproof st s then start_reinstall d st else rearm_to d st)"

definition stand_counted_cover :: "scope_id \<Rightarrow> monitor \<Rightarrow> monitor option" where
  "stand_counted_cover s st =
     (if \<not> scope_descends st s then Some st
      else (case root_of st s of
          None \<Rightarrow> Some st
        | Some root \<Rightarrow> do { st1 \<leftarrow> rescan_to s (location_of st root) st; rearm_to root st1 }))"

section \<open>Dropping a subtree\<close>

text \<open>An adoption marker and its books are taken off; what becomes of the adopted child is the caller's.\<close>

definition take_adoption_marker :: "watch_id \<Rightarrow> scope_id \<Rightarrow> monitor \<Rightarrow> adoption_marker option \<times> monitor" where
  "take_adoption_marker p s st =
     (case mo_pending_adoptions st p of
        None \<Rightarrow> (None, st)
      | Some m \<Rightarrow> (Some m, st\<lparr>mo_pending_adoptions := (mo_pending_adoptions st)(p := None),
          mo_staged_adoptions := btm_remove (s, p) (mo_staged_adoptions st),
          mo_adopting_by_scope := count_dec s 1 (mo_adopting_by_scope st)\<rparr>))"

fun reclaim_node_marker :: "node_marker \<Rightarrow> watch_id \<Rightarrow> watch_node \<Rightarrow> monitor \<Rightarrow> erased_cover \<times> monitor" where
  "reclaim_node_marker MkEnumerate w n st =
     (EraseNothing, case wn_state n of Enumerating req _ _ _ \<Rightarrow> forget_enumerate req st | _ \<Rightarrow> st)"
| "reclaim_node_marker MkStatSlots w n st =
     (let mine = filter (\<lambda>e. ss_parent (snd e) = w) (mo_pending_stat st);
          dark = list_ex (\<lambda>e. ss_stands_loss (snd e) \<and> stat_slot_dark st (snd e)) mine;
          standing = length (filter (\<lambda>e. ss_stands_loss (snd e)) mine);
          st1 = stat_loss_dec (wn_scope n) standing
            (st\<lparr>mo_pending_stat := filter (\<lambda>e. ss_parent (snd e) \<noteq> w) (mo_pending_stat st)\<rparr>)
      in (if dark then EraseDischarge else EraseNothing,
          st1\<lparr>mo_stat_slots := (\<lambda>k. if fst k = w then None else mo_stat_slots st1 k)\<rparr>))"
| "reclaim_node_marker MkHeldSource w n st =
     (EraseNothing, if w \<in> set (mo_held_sources st)
        then held_by_scope_dec (wn_scope n) (st\<lparr>mo_held_sources := bts_remove w (mo_held_sources st)\<rparr>) else st)"
| "reclaim_node_marker MkDirtiedHold w n st =
     (if w \<in> mo_dirtied_holds st then (EraseCounted, st\<lparr>mo_dirtied_holds := mo_dirtied_holds st - {w}\<rparr>)
      else (EraseNothing, st))"
| "reclaim_node_marker MkOwedDescent w n st =
     (if mo_owed_descents st w \<noteq> None
      then (EraseCounted, st\<lparr>mo_owed_descents := (mo_owed_descents st)(w := None)\<rparr>) else (EraseNothing, st))"
| "reclaim_node_marker MkReproveStamp w n st =
     (EraseNothing, st\<lparr>mo_reprove_stamps := (mo_reprove_stamps st)(w := None)\<rparr>)"
| "reclaim_node_marker MkAdoption w n st =
     (case take_adoption_marker w (wn_scope n) st of
        (Some _, st1) \<Rightarrow> (EraseDischarge, st1) | (None, st1) \<Rightarrow> (EraseNothing, st1))"
| "reclaim_node_marker MkDeficits w n st =
     (case drop_node_deficits (wn_scope n) w st of
        (True, st1) \<Rightarrow> (EraseDischarge, st1) | (False, st1) \<Rightarrow> (EraseNothing, st1))"
| "reclaim_node_marker MkDarkInstall w n st =
     (EraseNothing, st\<lparr>mo_dark_installs := mo_dark_installs st - {w}\<rparr>)"

fun reclaim_markers ::
  "node_marker list \<Rightarrow> watch_id \<Rightarrow> watch_node \<Rightarrow> erased_covers \<times> monitor \<Rightarrow> erased_covers \<times> monitor" where
  "reclaim_markers [] w n (er, st) = (er, st)"
| "reclaim_markers (m # ms) w n (er, st) =
     (case reclaim_node_marker m w n st of (c, st1) \<Rightarrow> reclaim_markers ms w n (absorb c er, st1))"

text \<open>A node is taken out of the maps that name it.\<close>

definition unlink_node :: "watch_id \<Rightarrow> watch_node \<Rightarrow> monitor \<Rightarrow> monitor" where
  "unlink_node w n st0 =
     (let st1 = st0\<lparr>mo_nodes := btm_remove w (mo_nodes st0)\<rparr>;
          st2 = (if is_rearm (wn_state n) then rearm_pending_dec (wn_scope n) st1 else st1)
      in case wn_parent n of
           None \<Rightarrow> st2\<lparr>mo_roots := btm_remove (wn_scope n) (mo_roots st2)\<rparr>
         | Some p \<Rightarrow>
             (let st3 = upd_node p (\<lambda>x. x\<lparr>wn_children := bts_remove w (wn_children x)\<rparr>) st2
              in case wn_name n of
                   Some nm \<Rightarrow> if mo_child_index st3 (p, nm) = Some w then vacate_child_slot p nm st3 else st3
                 | None \<Rightarrow> st3))"

definition drop_one :: "watch_id \<Rightarrow> watch_node \<Rightarrow> erased_covers \<Rightarrow> monitor \<Rightarrow> erased_covers \<times> monitor" where
  "drop_one w n er st =
     (case reclaim_markers node_marker_all w n (er, unlink_node w n st) of
        (er1, st1) \<Rightarrow> (er1, st1\<lparr>mo_actions := mo_actions st1 @ [ActUnwatch w]\<rparr>))"

text \<open>The markers leave the nodes alone, so every node taken off the stack that is still there shrinks the map.\<close>

lemma upd_slot_stat_nodes [simp]: "mo_nodes (upd_slot_stat p nm f st) = mo_nodes st"
  by (simp add: upd_slot_stat_def upd_stat_def split: option.splits)

lemma vacate_nodes [simp]: "mo_nodes (vacate_child_slot p nm st) = mo_nodes st"
  by (simp add: vacate_child_slot_def)

lemma gc_nodes [simp]: "mo_nodes (gc_deficit_book s st) = mo_nodes st"
  by (simp add: gc_deficit_book_def split: option.splits)

lemma reclaim_node [simp]: "mo_nodes (snd (reclaim_node_marker m w n st)) = mo_nodes st"
  by (cases m) (auto simp: forget_enumerate_def latent_remove_def stat_loss_dec_def held_by_scope_dec_def
      take_adoption_marker_def drop_node_deficits_def put_book_def Let_def
      split: node_state.splits option.splits bool.splits)

lemma reclaim_nodes [simp]: "mo_nodes (snd (reclaim_markers ms w n (er, st))) = mo_nodes st"
proof (induction ms arbitrary: er st)
  case (Cons m ms)
  obtain c st1 where c: "reclaim_node_marker m w n st = (c, st1)" by fastforce
  then have "mo_nodes st1 = mo_nodes st" using reclaim_node [of m w n st] by simp
  with c Cons.IH [of "absorb c er" st1] show ?case by simp
qed simp

lemma unlink_length: "length (mo_nodes (unlink_node w n st)) = length (btm_remove w (mo_nodes st))"
  by (simp add: unlink_node_def Let_def rearm_pending_dec_def upd_node_def split: option.splits)

lemma drop_one_length: "length (mo_nodes (snd (drop_one w n er st))) = length (btm_remove w (mo_nodes st))"
proof -
  obtain er1 st1 where r: "reclaim_markers node_marker_all w n (er, unlink_node w n st) = (er1, st1)" by fastforce
  have "mo_nodes st1 = mo_nodes (unlink_node w n st)" using reclaim_nodes [of _ w n er "unlink_node w n st"] r by (metis snd_conv)
  with r show ?thesis by (simp add: drop_one_def unlink_length)
qed

lemma drop_one_shrinks:
  "drop_one w n er st = (er1, st1) \<Longrightarrow> length (mo_nodes st1) = length (btm_remove w (mo_nodes st))"
  using drop_one_length [of w n er st] by simp

lemma btm_remove_length: "map_of m k = Some v \<Longrightarrow> length (btm_remove k m) < length m"
  using length_filter_less [of "(k, v)" m "\<lambda>e. fst e \<noteq> k"] by (auto simp: btm_remove_def dest: map_of_SomeD)

function drop_walk :: "watch_id list \<Rightarrow> erased_covers \<Rightarrow> monitor \<Rightarrow> erased_covers \<times> monitor" where
  "drop_walk [] er st = (er, st)"
| "drop_walk (w # stack) er st =
     (case node_of st w of
        None \<Rightarrow> drop_walk stack er st
      | Some n \<Rightarrow> (case drop_one w n er st of
          (er1, st1) \<Rightarrow> drop_walk (rev (wn_children n) @ stack) er1 st1))"
  by pat_completeness auto

termination
proof (relation "measures [\<lambda>(stack, er, st). length (mo_nodes st), \<lambda>(stack, er, st). length stack]")
  fix w stack er st n er1 st1
  assume "node_of st w = Some n" and "(er1, st1) = drop_one w n er st"
  then have "length (mo_nodes st1) < length (mo_nodes st)"
    using drop_one_shrinks [of w n er st er1 st1] btm_remove_length [of "mo_nodes st" w n]
    by (simp add: node_of_def)
  then show "((rev (wn_children n) @ stack, er1, st1), w # stack, er, st) \<in>
      measures [\<lambda>(stack, er, st). length (mo_nodes st), \<lambda>(stack, er, st). length stack]"
    by simp
qed auto

definition drop_subtree :: "watch_id \<Rightarrow> deficit_discharge \<Rightarrow> monitor \<Rightarrow> (bool \<times> monitor) option" where
  "drop_subtree root discharge st0 =
     (let root_scope = scope_of st0 root;
          reanchor = (if discharge = Reanchor
            then (case node_of st0 root of None \<Rightarrow> None
              | Some n \<Rightarrow> map_option (Pair (wn_scope n)) (slot_of n)) else None)
      in case drop_walk [root] erased_none st0 of
        (er, st) \<Rightarrow>
          (case (if er_discharge er then
                   (case discharge of
                      CoveringRescan \<Rightarrow> (case root_scope of
                          None \<Rightarrow> (False, st)
                        | Some s \<Rightarrow> (scope_descends st s, bridge_fresh_rearm s (bridge_saw_rescan s st)))
                    | Reanchor \<Rightarrow> (case reanchor of
                          None \<Rightarrow> (False, st)
                        | Some (s, p, nm) \<Rightarrow> (False, record_slot_deficit s p nm st))
                    | _ \<Rightarrow> (False, st))
                 else (False, st)) of
             (stood, st1) \<Rightarrow>
               (if er_counted er \<and> (discharge = CoveringRescan \<or> discharge = Reanchor) then
                  (case root_scope of
                     None \<Rightarrow> Some (stood, st1)
                   | Some s \<Rightarrow> map_option (Pair stood) (stand_counted_cover s st1))
                else Some (stood, st1))))"

definition drop_to :: "watch_id \<Rightarrow> deficit_discharge \<Rightarrow> monitor \<Rightarrow> monitor option" where
  "drop_to w discharge st = map_option snd (drop_subtree w discharge st)"

definition drop_departed_occupant :: "watch_id \<Rightarrow> monitor \<Rightarrow> monitor option" where
  "drop_departed_occupant w st =
     (let vacated = (case node_of st w of None \<Rightarrow> None
            | Some n \<Rightarrow> (case slot_of n of
                Some (p, nm) \<Rightarrow> if mo_child_index st (p, nm) = Some w then Some (p, nm) else None
              | None \<Rightarrow> None))
      in do { (stood, st1) \<leftarrow> drop_subtree w CoveringRescan st;
              Some (case vacated of
                Some (p, nm) \<Rightarrow> if stood then cover_stat_vacancy p nm st1 else st1
              | None \<Rightarrow> st1) })"

definition purge_scope_pending_moves :: "scope_id \<Rightarrow> monitor \<Rightarrow> monitor" where
  "purge_scope_pending_moves s st =
     st\<lparr>mo_pending_moves := filter (\<lambda>e. fst (fst e) \<noteq> s) (mo_pending_moves st)\<rparr>"

section \<open>Adoption markers\<close>

definition record_adoption_marker ::
  "watch_id \<Rightarrow> segment \<Rightarrow> watch_id \<Rightarrow> identity \<Rightarrow> scope_id \<Rightarrow> monitor \<Rightarrow> monitor" where
  "record_adoption_marker p nm adopted i s st =
     acquired_coverage_work s (st\<lparr>
       mo_pending_adoptions := (mo_pending_adoptions st)(p \<mapsto> \<lparr>am_name = nm, am_adopted = adopted, am_identity = i\<rparr>),
       mo_adopting_by_scope := count_inc s (mo_adopting_by_scope st)\<rparr>)"

definition retire_adopted :: "watch_id \<Rightarrow> monitor \<Rightarrow> monitor option" where
  "retire_adopted adopted st = (if is_watched_node st adopted then drop_to adopted CoveringRescan st else Some st)"

definition release_adoption_marker ::
  "watch_id \<Rightarrow> scope_id \<Rightarrow> adoption_disposal \<Rightarrow> monitor \<Rightarrow> (adoption_marker option \<times> monitor) option" where
  "release_adoption_marker p s disposal st0 =
     (case take_adoption_marker p s st0 of
        (None, st) \<Rightarrow> Some (None, st)
      | (Some m, st) \<Rightarrow>
          (case disposal of
             CountedRetirement \<Rightarrow>
               do { st1 \<leftarrow> stand_counted_cover s st;
                    st2 \<leftarrow> retire_adopted (am_adopted m) st1;
                    Some (Some m, st2) }
           | _ \<Rightarrow> Some (Some m, st)))"

definition release_to :: "watch_id \<Rightarrow> scope_id \<Rightarrow> adoption_disposal \<Rightarrow> monitor \<Rightarrow> monitor option" where
  "release_to p s disposal st = map_option snd (release_adoption_marker p s disposal st)"

definition stage_adoption :: "watch_id \<Rightarrow> scope_id \<Rightarrow> monitor \<Rightarrow> monitor" where
  "stage_adoption p s st =
     (if map_of (mo_staged_adoptions st) (s, p) \<noteq> None then st
      else (let q = mo_adoption_staging_seq st + 1
            in st\<lparr>mo_adoption_staging_seq := q,
                 mo_staged_adoptions := btm_insert (s, p) q (mo_staged_adoptions st)\<rparr>))"

text \<open>Sealing: a staged adoption whose child has gone is re-signalled, one still in its slot stands.\<close>

definition seal_one :: "scope_id \<Rightarrow> watch_id \<Rightarrow> monitor \<Rightarrow> monitor option" where
  "seal_one s p st =
     (case mo_pending_adoptions st p of
        None \<Rightarrow> Some (st\<lparr>mo_staged_adoptions := btm_remove (s, p) (mo_staged_adoptions st)\<rparr>)
      | Some m \<Rightarrow>
          if \<not> is_watched_node st (am_adopted m) then
            do { st1 \<leftarrow> release_to p s Verdict st;
                 rescan_to s (location_child (location_of st1 p) (am_name m)) st1 }
          else if child_watch st p (am_name m) = Some (am_adopted m) then release_to p s Verdict st
          else release_to p s CountedRetirement st)"

definition seal_staged_adoptions :: "scope_id \<Rightarrow> u64 \<Rightarrow> monitor \<Rightarrow> monitor option" where
  "seal_staged_adoptions s through st =
     do { st1 \<leftarrow> fold_opt (seal_one s)
            (map (snd \<circ> fst) (filter (\<lambda>e. fst (fst e) = s \<and> snd e \<le> through) (mo_staged_adoptions st))) st;
          settle_bridges st1 }"

end
