(* ===== verification/Monitor_Slots.thy ===== *)
theory Monitor_Slots
  imports Monitor_Base
begin

text \<open>
  The middle layer of the \<open>Monitor\<close> (\<open>monitor/mod.rs\<close>): installing, detaching and reparenting children,
  reconciling a slot with what was observed in it, the stats and enumerations and what their results do,
  the acknowledgements of arms, and the moves waiting for their other half.
\<close>

section \<open>Children\<close>

definition install_child ::
  "watch_id \<Rightarrow> scope_id \<Rightarrow> segment \<Rightarrow> bool \<Rightarrow> identity option \<Rightarrow> monitor \<Rightarrow> (bool \<times> monitor) option" where
  "install_child p s nm d i st =
     (if \<not> is_watched_node st p then Some (False, st)
      else if mo_child_index st (p, nm) \<noteq> None then Some (False, st)
      else (case remove_slot_deficit s p nm st of (healed, st1) \<Rightarrow>
        do { (w, st2) \<leftarrow> next_watch_id st1;
             (a, st3) \<leftarrow> next_arm_attempt st2;
             let st4 = insert_node w \<lparr>wn_parent = Some p, wn_name = Some nm, wn_scope = s, wn_is_dir = d,
               wn_attempt = a, wn_placement = mo_placement_clock st3, wn_moved_at = never_moved,
               wn_identity = i, wn_state = Arming False False, wn_children = []\<rparr> st3;
             let st5 = upd_node p (\<lambda>n. n\<lparr>wn_children := bts_insert w (wn_children n)\<rparr>) st4;
             let st6 = st5\<lparr>mo_child_index := (mo_child_index st5)((p, nm) \<mapsto> w)\<rparr>;
             st7 \<leftarrow> queue_watch w (target_child p nm) (coverage_mask (scope_interest st6 s)) st6;
             Some (healed, st7) }))"

definition install_to ::
  "watch_id \<Rightarrow> scope_id \<Rightarrow> segment \<Rightarrow> bool \<Rightarrow> identity option \<Rightarrow> monitor \<Rightarrow> monitor option" where
  "install_to p s nm d i st = map_option snd (install_child p s nm d i st)"

text \<open>\<open>rearm_child\<close> is the idiom that re-arms whatever the slot holds now.\<close>

definition rearm_child :: "watch_id \<Rightarrow> segment \<Rightarrow> monitor \<Rightarrow> monitor option" where
  "rearm_child p nm st = (case child_watch st p nm of Some fresh \<Rightarrow> rearm_to fresh st | None \<Rightarrow> Some st)"

definition detach_child :: "watch_id \<Rightarrow> monitor \<Rightarrow> monitor option" where
  "detach_child c st =
     (let st1 = (case node_of st c of None \<Rightarrow> st
            | Some n \<Rightarrow> (case slot_of n of Some (p, nm) \<Rightarrow> vacate_child_slot p nm st | None \<Rightarrow> st));
          st2 = moved_placement c st1
      in case state_of st2 c of Some (Arming _ _) \<Rightarrow> retire_arm c st2 | _ \<Rightarrow> Some st2)"

definition relink :: "watch_id \<Rightarrow> watch_id \<Rightarrow> segment \<Rightarrow> monitor \<Rightarrow> monitor" where
  "relink c p nm st =
     (let st1 = (case (case node_of st c of Some n \<Rightarrow> wn_parent n | None \<Rightarrow> None) of
            Some old \<Rightarrow> upd_node old (\<lambda>n. n\<lparr>wn_children := bts_remove c (wn_children n)\<rparr>) st
          | None \<Rightarrow> st);
          st2 = upd_node c (\<lambda>n. n\<lparr>wn_parent := Some p, wn_name := Some nm\<rparr>) st1;
          st3 = upd_node p (\<lambda>n. n\<lparr>wn_children := bts_insert c (wn_children n)\<rparr>) st2
      in st3\<lparr>mo_child_index := (mo_child_index st3)((p, nm) \<mapsto> c)\<rparr>)"

definition reparent ::
  "watch_id \<Rightarrow> watch_id \<Rightarrow> segment \<Rightarrow> reparent_flavor \<Rightarrow> monitor \<Rightarrow> (bool \<times> monitor) option" where
  "reparent c p nm flavor st0 =
     do { (inherit, st) \<leftarrow> (case child_watch st0 p nm of
            Some stale \<Rightarrow> if stale \<noteq> c
              then map_option (Pair (has_rearm_obligation st0 stale)) (drop_to stale CoveringRescan st0)
              else Some (False, st0)
          | None \<Rightarrow> Some (False, st0));
          if \<not> is_watched_node st c \<or> \<not> is_watched_node st p then Some (False, st)
          else do { let st1 = relink c p nm st;
                    let st2 = (if flavor = FlavorMoved then moved_placement c st1 else st1);
                    st3 \<leftarrow> (if inherit then rearm_to c st2 else Some st2);
                    st4 \<leftarrow> readdress_outstanding_arm c st3;
                    Some (True, st4) } }"

section \<open>Stats\<close>

definition queue_stat :: "watch_id \<Rightarrow> scope_id \<Rightarrow> segment \<Rightarrow> monitor \<Rightarrow> monitor option" where
  "queue_stat p s nm st =
     (if \<not> is_watched_node st p then Some st
      else (let uncovered = (child_watch st p nm = None)
            in case mo_stat_slots st (p, nm) of
                 Some outstanding \<Rightarrow> Some (if uncovered then raise_stat_darkness outstanding st else st)
               | None \<Rightarrow>
                   do { (req, st1) \<leftarrow> next_req_id st;
                        let bootstrap = in_bootstrap_window st1 s;
                        let stands = (bootstrap \<or> uncovered);
                        let st2 = (if stands then stat_loss_inc s st1 else st1);
                        Some (st2\<lparr>mo_stat_slots := (mo_stat_slots st2)((p, nm) \<mapsto> req),
                          mo_pending_stat := btm_insert req \<lparr>ss_parent = p, ss_name = nm, ss_scope = s,
                            ss_placement = mo_placement_clock st2, ss_bootstrap = bootstrap,
                            ss_stands_loss = stands, ss_dark_uncovered = uncovered,
                            ss_vacancy_covered = False\<rparr> (mo_pending_stat st2),
                          mo_actions := mo_actions st2 @ [ActStat req (stat_child p nm)]\<rparr>) }))"

fun descent_max :: "stat_descent \<Rightarrow> stat_descent \<Rightarrow> stat_descent" where
  "descent_max DescentRearm DescentRearm = DescentRearm"
| "descent_max _ _ = DescentReprove"

definition defer_stat_descent :: "watch_id \<Rightarrow> segment \<Rightarrow> stat_descent \<Rightarrow> monitor \<Rightarrow> monitor" where
  "defer_stat_descent p nm descent st =
     (if mo_stat_slots st (p, nm) = None then st
      else (case child_watch st p nm of
          None \<Rightarrow> st
        | Some c \<Rightarrow> st\<lparr>mo_owed_descents := (mo_owed_descents st)(c \<mapsto>
            (case mo_owed_descents st c of Some owed \<Rightarrow> descent_max owed descent | None \<Rightarrow> descent))\<rparr>))"

definition apply_descent :: "watch_id \<Rightarrow> stat_descent \<Rightarrow> monitor \<Rightarrow> monitor option" where
  "apply_descent w descent st = (case descent of DescentReprove \<Rightarrow> start_reinstall w st | DescentRearm \<Rightarrow> rearm_to w st)"

section \<open>Reconciling a slot\<close>

definition reconcile_slot ::
  "watch_id \<Rightarrow> scope_id \<Rightarrow> segment \<Rightarrow> slot_occupant \<Rightarrow> bool \<Rightarrow> identity option \<Rightarrow> monitor \<Rightarrow> (bool \<times> monitor) option" where
  "reconcile_slot p s nm occ replaced i st =
     (if \<not> scope_descends st s then Some (False, st)
      else (case occ of
          OccDir \<Rightarrow>
            (let existing = child_watch st p nm;
                 replace = (replaced \<or> (case existing of Some stale \<Rightarrow> identity_differs st stale i | None \<Rightarrow> False))
             in do { (inherit, dark, st1) \<leftarrow> (case (if replace then existing else None) of
                         Some stale \<Rightarrow>
                           (let ob = has_rearm_obligation st stale
                            in map_option (\<lambda>st1. (ob, ob \<and> stale \<in> mo_dark_installs st, st1))
                                 (drop_to stale CoveringRescan st))
                       | None \<Rightarrow> Some (False, False, st));
                     (healed, st2) \<leftarrow> install_child p s nm True i st1;
                     (case (if inherit then child_watch st2 p nm else None) of
                        Some fresh \<Rightarrow> do { st3 \<leftarrow> rearm_to fresh st2;
                          Some (healed, if dark then st3\<lparr>mo_dark_installs := insert fresh (mo_dark_installs st3)\<rparr> else st3) }
                      | None \<Rightarrow> Some (healed, st2)) })
        | OccUnknown \<Rightarrow>
            map_option (Pair False) (queue_stat p s nm
              (if child_watch st p nm = None then record_slot_deficit s p nm st else st))
        | _ \<Rightarrow>
            do { st1 \<leftarrow> (case child_watch st p nm of
                     Some stale \<Rightarrow> drop_departed_occupant stale st | None \<Rightarrow> Some st);
                 case remove_slot_deficit s p nm st1 of
                   (covered, st2) \<Rightarrow> Some (covered, if covered then cover_stat_vacancy p nm st2 else st2) }))"

definition reconcile_to ::
  "watch_id \<Rightarrow> scope_id \<Rightarrow> segment \<Rightarrow> slot_occupant \<Rightarrow> bool \<Rightarrow> identity option \<Rightarrow> monitor \<Rightarrow> monitor option" where
  "reconcile_to p s nm occ replaced i st = map_option snd (reconcile_slot p s nm occ replaced i st)"

definition settle_stat_slot ::
  "scope_id \<Rightarrow> watch_id \<Rightarrow> segment \<Rightarrow> watch_id option \<Rightarrow> stat_descent option \<Rightarrow> bool \<Rightarrow> monitor \<Rightarrow> monitor option" where
  "settle_stat_slot s p nm incumbent descent deliver st =
     (let successor = child_watch st p nm
      in if successor = incumbent then
           (case (incumbent, descent) of (Some kept, Some d) \<Rightarrow> apply_descent kept d st | _ \<Rightarrow> Some st)
         else if incumbent = None then Some st
         else (let cover = child_location st p nm
               in case successor of
                    Some fresh \<Rightarrow>
                      do { st1 \<leftarrow> (if deliver \<and> \<not> bridge_is_lossy st s then rescan_to s cover st else Some st);
                           rearm_to fresh st1 }
                  | None \<Rightarrow> if deliver then rescan_to s cover st else Some st))"

definition stat_verdict ::
  "stat_slot \<Rightarrow> bool \<Rightarrow> watch_id option \<Rightarrow> bool \<Rightarrow> stat_result \<Rightarrow> monitor \<Rightarrow> (bool \<times> monitor) option" where
  "stat_verdict slot dark incumbent stale res st =
     (let p = ss_parent slot; nm = ss_name slot; s = ss_scope slot
      in if (case res of StatOk e \<Rightarrow> \<not> stale \<and> ste_kind e \<noteq> KindUnknown | StatFailed _ \<Rightarrow> False) then
           (case res of StatOk e \<Rightarrow>
              do { (healed, st1) \<leftarrow> reconcile_slot p s nm (entry_occupant (ste_kind e)) False (ste_node e) st;
                   let installed = (if incumbent = None then child_watch st1 p nm else None);
                   st2 \<leftarrow> (case (if ss_bootstrap slot then installed else None) of
                       Some fresh \<Rightarrow> rearm_to fresh (bridge_saw_rescan s st1) | None \<Rightarrow> Some st1);
                   Some (ss_stands_loss slot \<and> dark \<and> \<not> healed \<and> \<not> (ss_bootstrap slot \<and> installed \<noteq> None), st2) }
            | StatFailed _ \<Rightarrow> Some (False, st))
         else if (case res of StatFailed c \<Rightarrow> \<not> stale \<and> c = IoNotFound | StatOk _ \<Rightarrow> False) then
           do { (healed, st1) \<leftarrow> reconcile_slot p s nm OccGone False None st;
                Some (ss_stands_loss slot \<and> dark \<and> \<not> healed, st1) }
         else Some (True, if child_watch st p nm = None then record_slot_deficit s p nm st else st))"

definition take_stat :: "req_id \<Rightarrow> stat_slot \<Rightarrow> monitor \<Rightarrow> monitor" where
  "take_stat req slot st =
     (let st1 = st\<lparr>mo_pending_stat := btm_remove req (mo_pending_stat st),
            mo_stat_slots := (mo_stat_slots st)((ss_parent slot, ss_name slot) := None)\<rparr>
      in if ss_stands_loss slot then stat_loss_dec (ss_scope slot) 1 st1 else st1)"

definition ingest_stat_result :: "req_id \<Rightarrow> stat_result \<Rightarrow> monitor \<Rightarrow> monitor option" where
  "ingest_stat_result req res st0 =
     (case map_of (mo_pending_stat st0) req of
        None \<Rightarrow> Some st0
      | Some slot \<Rightarrow>
          (let p = ss_parent slot; nm = ss_name slot; s = ss_scope slot;
               dark = stat_slot_dark st0 slot;
               st1 = take_stat req slot st0
           in if \<not> is_watched_node st1 p then Some st1
              else (case fence_lowering p (ss_placement slot) st1 of (lw, st2) \<Rightarrow>
                (let stale = (\<not> is_evidence lw);
                     incumbent = child_watch st2 p nm;
                     descent = (case incumbent of Some kept \<Rightarrow> mo_owed_descents st2 kept | None \<Rightarrow> None);
                     st3 = (case incumbent of
                         Some kept \<Rightarrow> st2\<lparr>mo_owed_descents := (mo_owed_descents st2)(kept := None)\<rparr> | None \<Rightarrow> st2)
                 in do { (owes, st4) \<leftarrow> stat_verdict slot dark incumbent stale res st3;
                         st5 \<leftarrow> (if owes \<and> locatable lw then rescan_to s (child_location st4 p nm) st4 else Some st4);
                         settle_stat_slot s p nm incumbent descent (locatable lw) st5 }))))"

definition on_stat_result :: "req_id \<Rightarrow> stat_result \<Rightarrow> monitor \<Rightarrow> monitor option" where
  "on_stat_result req res st = do { st1 \<leftarrow> ingest_stat_result req res st; settle_bridges st1 }"

section \<open>Enumerations\<close>

definition additive_entries :: "watch_id \<Rightarrow> dir_entry list \<Rightarrow> monitor \<Rightarrow> dir_entry list" where
  "additive_entries d es st =
     filter (\<lambda>e. de_kind e = KindUnknown \<or> (entry_descends e \<and> child_watch st d (de_name e) = None)) es"

definition incomplete_entry :: "watch_id \<Rightarrow> scope_id \<Rightarrow> dir_entry \<Rightarrow> monitor \<Rightarrow> monitor option" where
  "incomplete_entry d s e st =
     (let occ = listed_occupant e;
          fresh = (occ = OccDir \<and> child_watch st d (de_name e) = None)
      in do { st1 \<leftarrow> reconcile_to d s (de_name e) occ False (de_node e) st;
              Some (if fresh then mark_fresh_install s (child_watch st1 d (de_name e)) st1 else st1) })"

definition reprove_or_rearm :: "watch_id \<Rightarrow> bool \<Rightarrow> watch_id \<Rightarrow> monitor \<Rightarrow> monitor option" where
  "reprove_or_rearm d reprove c st =
     (if reprove \<and> is_slot_child st d c then start_reinstall c st else rearm_to c st)"

definition handle_incomplete_enumerate ::
  "watch_id \<Rightarrow> scope_id \<Rightarrow> dir_entry list \<Rightarrow> nat \<Rightarrow> bool \<Rightarrow> bool \<Rightarrow> monitor \<Rightarrow> monitor option" where
  "handle_incomplete_enumerate d s es attempts deliver reprove st0 =
     do { st1 \<leftarrow> fold_opt (incomplete_entry d s) es st0;
          st2 \<leftarrow> fold_opt (reprove_or_rearm d reprove) (children_of st1 d) st1;
          st3 \<leftarrow> (if deliver then rescan_to s (location_of st2 d) st2 else Some st2);
          if attempts < rearm_max_retries then queue_enumerate d (EkRearm reprove) (attempts + 1) st3
          else do { st4 \<leftarrow> release_to d s CountedRetirement (st3\<lparr>mo_dark_installs := mo_dark_installs st3 - {d}\<rparr>);
                    Some (if deliver then record_interior_deficit s d st4 else st4) } }"

text \<open>The children a crawl no longer finds are dropped; the flags say whether any was, and all replaced.\<close>

definition crawl_child ::
  "watch_id \<Rightarrow> (segment \<times> identity option) list \<Rightarrow> segment list \<Rightarrow> bool \<Rightarrow> watch_id
     \<Rightarrow> bool \<times> bool \<times> monitor \<Rightarrow> (bool \<times> bool \<times> monitor) option" where
  "crawl_child d present unsettled reprove c acc =
     (case acc of (retired, rebuilt, st) \<Rightarrow>
       if \<not> is_slot_child st d c then Some acc
       else (let name = (case node_of st c of Some n \<Rightarrow> wn_name n | None \<Rightarrow> None)
             in if (case name of Some nm \<Rightarrow> nm \<in> set unsettled | None \<Rightarrow> False) then Some acc
                else if (case name of Some nm \<Rightarrow> (case map_of present nm of
                         Some fresh \<Rightarrow> identity_matches st c fresh | None \<Rightarrow> False) | None \<Rightarrow> False)
                then map_option (\<lambda>st1. (retired, rebuilt, st1))
                       (if reprove then start_reinstall c st else rearm_to c st)
                else map_option (\<lambda>st1. (True, rebuilt \<and> (case name of Some nm \<Rightarrow> map_of present nm \<noteq> None | None \<Rightarrow> False), st1))
                       (drop_to c Reanchor st)))"

definition crawl_install :: "watch_id \<Rightarrow> scope_id \<Rightarrow> dir_entry \<Rightarrow> monitor \<Rightarrow> monitor option" where
  "crawl_install d s e st =
     (if \<not> entry_descends e then Some st
      else if child_watch st d (de_name e) \<noteq> None then Some st
      else do { st1 \<leftarrow> install_to d s (de_name e) True (de_node e) st;
                let fresh = child_watch st1 d (de_name e);
                st2 \<leftarrow> (case fresh of Some w \<Rightarrow> rearm_to w st1 | None \<Rightarrow> Some st1);
                Some (mark_fresh_install s fresh st2) })"

definition crawl_unknown :: "watch_id \<Rightarrow> scope_id \<Rightarrow> bool \<Rightarrow> dir_entry \<Rightarrow> monitor \<Rightarrow> monitor option" where
  "crawl_unknown d s reprove e st =
     (if de_kind e \<noteq> KindUnknown then Some st
      else do { st1 \<leftarrow> reconcile_to d s (de_name e) OccUnknown False (de_node e) st;
                Some (defer_stat_descent d (de_name e) (if reprove then DescentReprove else DescentRearm) st1) })"

definition rearm_enumerate :: "watch_id \<Rightarrow> scope_id \<Rightarrow> enumerate_result \<Rightarrow> bool \<Rightarrow> monitor \<Rightarrow> monitor option" where
  "rearm_enumerate d s res reprove st0 =
     (let present = rev (map (\<lambda>e. (de_name e, de_node e)) (filter entry_descends (enum_entries res)));
          unsettled = map de_name (filter (\<lambda>e. de_kind e = KindUnknown) (enum_entries res))
      in do { (retired, rebuilt, st1) \<leftarrow>
                fold_opt (crawl_child d present unsettled reprove) (children_of st0 d) (False, True, st0);
              st2 \<leftarrow> (if retired \<and> \<not> (rebuilt \<and> bridge_is_lossy st1 s)
                       then rescan_to s (location_of st1 d) st1 else Some st1);
              st3 \<leftarrow> fold_opt (crawl_install d s) (enum_entries res) st2;
              fold_opt (crawl_unknown d s reprove) (enum_entries res) st3 })"

definition resolve_adoption :: "watch_id \<Rightarrow> scope_id \<Rightarrow> bool \<Rightarrow> enumerate_result \<Rightarrow> monitor \<Rightarrow> monitor option" where
  "resolve_adoption d s held res st =
     (if held then release_to d s CountedRetirement st
      else (case mo_pending_adoptions st d of
          None \<Rightarrow> Some st
        | Some m \<Rightarrow>
            if \<not> is_watched_node st (am_adopted m) then
              do { st1 \<leftarrow> release_to d s Verdict st;
                   rescan_to s (location_child (location_of st1 d) (am_name m)) st1 }
            else if child_watch st d (am_name m) = Some (am_adopted m) \<and>
                (case find (\<lambda>e. de_name e = am_name m) (enum_entries res) of
                   Some e \<Rightarrow> entry_descends e \<and> de_node e = Some (am_identity m) | None \<Rightarrow> False)
            then Some (stage_adoption d s st)
            else do { st1 \<leftarrow> release_to d s Verdict st;
                      st2 \<leftarrow> stand_counted_cover s st1;
                      retire_adopted (am_adopted m) st2 }))"

definition cold_entry :: "watch_id \<Rightarrow> scope_id \<Rightarrow> dir_entry \<Rightarrow> monitor \<Rightarrow> monitor option" where
  "cold_entry d s e st =
     (let class = proven_dir (de_kind e)
      in do { st1 \<leftarrow> (if ondir_allows st s class
                then emit_to s (child_location st d (de_name e)) Created (evidence_of RkCreated) class st
                else Some st);
              reconcile_to d s (de_name e) (listed_occupant e) False (de_node e) st1 })"

definition ingest_enumerate :: "req_id \<Rightarrow> enumerate_result \<Rightarrow> monitor \<Rightarrow> monitor option" where
  "ingest_enumerate req res st0 =
     (let st1 = latent_remove req st0
      in case mo_pending_enumerate st1 req of
           None \<Rightarrow> Some st1
         | Some d \<Rightarrow>
             (let st2 = st1\<lparr>mo_pending_enumerate := (mo_pending_enumerate st1)(req := None)\<rparr>
              in case node_of st2 d of
                   None \<Rightarrow> Some st2
                 | Some n \<Rightarrow>
                     (case wn_state n of
                        Enumerating r kind attempts dirty \<Rightarrow>
                          if r \<noteq> req then Some st2
                          else (let s = wn_scope n
                                in case fence_lowering d (wn_placement n) st2 of (lw, st3) \<Rightarrow>
                                 (let st4 = set_state d Live st3
                                  in if forces_rescan res \<or> dirty \<or> \<not> is_evidence lw then
                                       handle_incomplete_enumerate d s
                                         (if is_evidence lw then enum_entries res
                                          else if lw_moved lw then []
                                          else additive_entries d (enum_entries res) st4)
                                         attempts (locatable lw) (kind = EkRearm True) st4
                                     else do {
                                       st5 \<leftarrow> resolve_adoption d s (lw_held lw \<noteq> None) res (clear_interior_deficit s d st4);
                                       st6 \<leftarrow> (case kind of
                                           EkRearm reprove \<Rightarrow> rearm_enumerate d s res reprove st5
                                         | EkCold \<Rightarrow>
                                             if lw_held lw \<noteq> None then rearm_enumerate d s res False st5
                                             else fold_opt (cold_entry d s) (enum_entries res) st5);
                                       Some (settle_dark_install d s (enum_entries res) st6) }))
                      | _ \<Rightarrow> Some st2)))"

definition on_enumerate :: "req_id \<Rightarrow> enumerate_result \<Rightarrow> monitor \<Rightarrow> monitor option" where
  "on_enumerate req res st = do { st1 \<leftarrow> ingest_enumerate req res st; settle_bridges st1 }"

section \<open>Roots that end, slots that are rebuilt\<close>

definition forget_scope :: "scope_id \<Rightarrow> monitor \<Rightarrow> monitor" where
  "forget_scope s st = st\<lparr>mo_deficits := (mo_deficits st)(s := None), mo_loss_gens := (mo_loss_gens st)(s := None),
     mo_coverage_work_epochs := (mo_coverage_work_epochs st)(s := None)\<rparr>"

definition invalidate_root :: "scope_id \<Rightarrow> watch_id \<Rightarrow> monitor \<Rightarrow> monitor option" where
  "invalidate_root s root st =
     do { st1 \<leftarrow> drop_to root Teardown st;
          Some (forget_scope s (bridge_remove s (purge_scope_pending_moves s st1))) }"

definition cover_and_rebuild_slot ::
  "scope_id \<Rightarrow> watch_id \<Rightarrow> segment \<Rightarrow> bool \<Rightarrow> identity option \<Rightarrow> monitor \<Rightarrow> monitor option" where
  "cover_and_rebuild_slot s p nm d i st =
     do { st1 \<leftarrow> rescan_to s (child_location st p nm) st;
          if \<not> scope_descends st1 s then Some st1
          else if child_watch st1 p nm \<noteq> None then Some st1
          else do { st2 \<leftarrow> install_to p s nm d i st1; rearm_child p nm st2 } }"

definition retire_unprovable_binding :: "watch_id \<Rightarrow> scope_id \<Rightarrow> lowering \<Rightarrow> monitor \<Rightarrow> monitor option" where
  "retire_unprovable_binding w s lw st =
     (case (case node_of st w of None \<Rightarrow> None | Some n \<Rightarrow> map_option (Pair n) (slot_of n)) of
        None \<Rightarrow> do { st1 \<leftarrow> rescan_to s (location_of st w) st; invalidate_root s w st1 }
      | Some (n, p, nm) \<Rightarrow>
          do { st1 \<leftarrow> drop_to w CoveringRescan st;
               if \<not> locatable lw then Some st1
               else cover_and_rebuild_slot s p nm (wn_is_dir n) (wn_identity n) st1 })"

section \<open>Acknowledged arms\<close>

definition ack_ok :: "watch_id \<Rightarrow> scope_id \<Rightarrow> bool \<Rightarrow> node_state \<Rightarrow> watch_ack \<Rightarrow> monitor \<Rightarrow> monitor option" where
  "ack_ok w s d ns ack st =
     (case ns of
        Arming rearm reprove \<Rightarrow>
          (let st1 = (if reprove \<and> ack = AckInstalled then bridge_fresh_rearm s st else st)
           in if reprove \<and> mo_reprove_stamps st1 w \<noteq> Some (loss_gen st1 s) then queue_reinstall w s st1
              else (let st2 = (if reprove then st1\<lparr>mo_reprove_stamps := (mo_reprove_stamps st1)(w := None)\<rparr> else st1);
                        st3 = set_state w Live st2
                    in if d \<and> scope_descends st3 s then
                         (if reprove then queue_enumerate w (EkRearm True) 0 st3
                          else if rearm then map_option snd (start_rearm w st3)
                          else queue_enumerate w EkCold 0 st3)
                       else Some st3))
      | _ \<Rightarrow> Some st)"

definition ack_failed :: "watch_id \<Rightarrow> scope_id \<Rightarrow> lowering \<Rightarrow> monitor \<Rightarrow> monitor option" where
  "ack_failed w s lw st =
     (if \<not> locatable lw then drop_to w CoveringRescan st
      else if is_root_watch st w then
        do { st1 \<leftarrow> rescan_to s (location_of st w) st; invalidate_root s w st1 }
      else do { st1 \<leftarrow> rescan_to s (location_of st w) st;
                drop_to w CoveringRescan
                  (case (case node_of st1 w of None \<Rightarrow> None | Some n \<Rightarrow> slot_of n) of
                     Some (p, nm) \<Rightarrow> record_slot_deficit s p nm st1 | None \<Rightarrow> st1) })"

fun is_arming :: "node_state \<Rightarrow> bool" where
  "is_arming (Arming _ _) = True"
| "is_arming _ = False"

definition ingest_watch_result :: "watch_id \<Rightarrow> arm_attempt \<Rightarrow> watch_error + watch_ack \<Rightarrow> monitor \<Rightarrow> monitor option" where
  "ingest_watch_result w attempt res st0 =
     (case node_of st0 w of
        None \<Rightarrow> Some st0
      | Some n \<Rightarrow>
          if wn_attempt n \<noteq> attempt then Some st0
          else (let s = wn_scope n
                in case fence_lowering w (wn_placement n) st0 of (lw, st) \<Rightarrow>
                     if \<not> isl res \<and> \<not> is_evidence lw \<and> is_arming (wn_state n)
                     then retire_unprovable_binding w s lw st
                     else if lw_moved lw then readdress_outstanding_arm w st
                     else (case res of
                         Inr ack \<Rightarrow> ack_ok w s (wn_is_dir n) (wn_state n) ack st
                       | Inl _ \<Rightarrow> ack_failed w s lw st)))"

definition on_watch_result :: "watch_id \<Rightarrow> arm_attempt \<Rightarrow> watch_error + watch_ack \<Rightarrow> monitor \<Rightarrow> monitor option" where
  "on_watch_result w attempt res st = do { st1 \<leftarrow> ingest_watch_result w attempt res st; settle_bridges st1 }"

end
