(* ===== verification/Monitor.thy ===== *)
theory Monitor
  imports Monitor_Slots
begin

text \<open>
  The operations of the \<open>Monitor\<close> a driver calls (\<open>monitor/mod.rs\<close>): registering, rebinding, widening and
  dropping roots, feeding an operating-system record, an overflow, a timeout, and polling the queues.
  \<open>mon_op\<close> lists them all; \<open>mon_run\<close> is a history.
\<close>

section \<open>Roots\<close>

definition new_root_node :: "scope_id \<Rightarrow> arm_attempt \<Rightarrow> bool \<Rightarrow> monitor \<Rightarrow> watch_node" where
  "new_root_node s a rearm st = \<lparr>wn_parent = None, wn_name = None, wn_scope = s, wn_is_dir = True,
     wn_attempt = a, wn_placement = mo_placement_clock st, wn_moved_at = never_moved,
     wn_identity = None, wn_state = Arming rearm False, wn_children = []\<rparr>"

definition register_root_with_profile ::
  "scope_id \<Rightarrow> interest \<Rightarrow> capabilities \<Rightarrow> monitor \<Rightarrow> (watch_id option \<times> monitor) option" where
  "register_root_with_profile s msk caps st =
     (if root_of st s \<noteq> None then Some (None, st)
      else do { (w, st1) \<leftarrow> next_watch_id st;
                (a, st2) \<leftarrow> next_arm_attempt st1;
                let st3 = st2\<lparr>mo_scope_interests := (mo_scope_interests st2)(s \<mapsto> msk),
                  mo_scope_profiles := (mo_scope_profiles st2)(s \<mapsto> caps)\<rparr>;
                let st4 = insert_node w (new_root_node s a True st3) st3;
                let st5 = bridge_bootstrap s (st4\<lparr>mo_roots := btm_insert s w (mo_roots st4)\<rparr>);
                st6 \<leftarrow> queue_watch w (RootTarget s) (coverage_mask msk) st5;
                Some (Some w, st6) })"

definition register_root :: "scope_id \<Rightarrow> interest \<Rightarrow> monitor \<Rightarrow> (watch_id option \<times> monitor) option" where
  "register_root s msk st = register_root_with_profile s msk (mo_capabilities st) st"

definition reprofile_root :: "scope_id \<Rightarrow> capabilities \<Rightarrow> monitor \<Rightarrow> monitor" where
  "reprofile_root s caps st0 =
     (case root_of st0 s of
        None \<Rightarrow> st0
      | Some root \<Rightarrow>
          (let st = st0\<lparr>mo_scope_profiles := (mo_scope_profiles st0)(s \<mapsto> caps)\<rparr>
           in if \<not> scope_descends st s then bridge_remove s st
              else (let st1 = bridge_bootstrap s st
                    in if state_of st1 root = Some (Arming True False) then bridge_fresh_rearm s st1 else st1)))"

definition unregister_root :: "scope_id \<Rightarrow> monitor \<Rightarrow> monitor option" where
  "unregister_root s st =
     do { st1 \<leftarrow> (case root_of st s of
            None \<Rightarrow> Some st
          | Some root \<Rightarrow>
              do { st1 \<leftarrow> drop_to root Teardown (st\<lparr>mo_roots := btm_remove s (mo_roots st)\<rparr>);
                   let st2 = purge_scope_pending_moves s st1;
                   Some (forget_scope s (bridge_remove s (st2\<lparr>
                     mo_scope_interests := (mo_scope_interests st2)(s := None),
                     mo_scope_profiles := (mo_scope_profiles st2)(s := None)\<rparr>))) });
          settle_bridges st1 }"

definition drop_watch_subtree :: "watch_id \<Rightarrow> monitor \<Rightarrow> (bool \<times> monitor) option" where
  "drop_watch_subtree w st =
     do { (dropped, st1) \<leftarrow> (case node_of st w of
            Some n \<Rightarrow> if wn_parent n \<noteq> None then map_option (Pair True) (drop_to w UnsubscribedPrune st)
                      else Some (False, st)
          | None \<Rightarrow> Some (False, st));
          map_option (Pair dropped) (settle_bridges st1) }"

definition rearm_watch_subtree :: "watch_id \<Rightarrow> monitor \<Rightarrow> (rearm_kickoff \<times> monitor) option" where
  "rearm_watch_subtree w st =
     (case node_of st w of
        None \<Rightarrow> Some (Refused, st)
      | Some n \<Rightarrow>
          if \<not> scope_descends st (wn_scope n) then Some (Refused, st)
          else do { st1 \<leftarrow> (case wn_state n of
                        Arming False _ \<Rightarrow> rescan_to (wn_scope n) (location_of st w) st | _ \<Rightarrow> Some st);
                    (kick, st2) \<leftarrow> inherit_rearm w st1;
                    map_option (Pair kick) (settle_bridges st2) })"

definition rebind_monitor_root :: "scope_id \<Rightarrow> monitor \<Rightarrow> ((watch_id \<times> arm_attempt) option \<times> monitor) option" where
  "rebind_monitor_root s st =
     (case root_of st s of
        None \<Rightarrow> Some (None, st)
      | Some root \<Rightarrow>
          if \<not> scope_descends st s then Some (None, st)
          else do { let st1 = moved_placement root st;
                    st2 \<leftarrow> fold_opt (\<lambda>c. drop_to c Teardown) (children_of st1 root) st1;
                    let st3 = purge_scope_pending_moves s st2;
                    let st4 = st3\<lparr>mo_deficits := (mo_deficits st3)(s := None)\<rparr>;
                    let st5 = (case state_of st4 root of
                        Some (Enumerating req _ _ _) \<Rightarrow> forget_enumerate req st4 | _ \<Rightarrow> st4);
                    let st6 = set_state root (Arming True False) st5;
                    let st7 = st6\<lparr>mo_reprove_stamps := (mo_reprove_stamps st6)(root := None)\<rparr>;
                    let st8 = upd_node root (\<lambda>n. n\<lparr>wn_identity := None\<rparr>) st7;
                    st9 \<leftarrow> release_to root s ChildAlreadyDropped st8;
                    st10 \<leftarrow> settle_bridges st9;
                    (a, st11) \<leftarrow> adopt_arm root st10;
                    Some (Some (root, a), st11) })"

definition reserve_watch_id :: "monitor \<Rightarrow> (watch_id \<times> monitor) option" where
  "reserve_watch_id st = next_watch_id st"

text \<open>
  The old root becomes a child of a fresh one. A chain with connectors between the two is refused, so the
  loop that would install them never runs.
\<close>

definition widen_root ::
  "scope_id \<Rightarrow> watch_id \<Rightarrow> segment list \<Rightarrow> identity option \<Rightarrow> monitor
     \<Rightarrow> ((watch_id \<times> arm_attempt) option \<times> monitor) option" where
  "widen_root s reserved chain old_identity st =
     (case root_of st s of
        None \<Rightarrow> Some (None, st)
      | Some old_root \<Rightarrow>
          if \<not> scope_descends st s \<or> length chain \<noteq> 1 \<or> is_watched_node st reserved then Some (None, st)
          else (case old_identity of
              None \<Rightarrow> Some (None, st)
            | Some adopted \<Rightarrow>
                do { (a, st1) \<leftarrow> next_arm_attempt st;
                     let st2 = insert_node reserved (new_root_node s a False st1) st1;
                     (linked, st3) \<leftarrow> reparent old_root reserved (hd chain) FlavorRerooted st2;
                     if \<not> linked then None
                     else do { let st4 = upd_node old_root (\<lambda>n. n\<lparr>wn_identity := Some adopted\<rparr>) st3;
                               let st5 = st4\<lparr>mo_roots := btm_insert s reserved (mo_roots st4)\<rparr>;
                               let st6 = record_adoption_marker reserved (hd chain) old_root adopted s st5;
                               st7 \<leftarrow> settle_bridges st6;
                               Some (Some (reserved, a), st7) } }))"

section \<open>Losses\<close>

definition cover_stat_loss :: "scope_id \<Rightarrow> monitor \<Rightarrow> (bool \<times> monitor) option" where
  "cover_stat_loss s st =
     (if \<not> stat_loss_outstanding st s \<or> root_of st s = None then Some (False, st)
      else do { st1 \<leftarrow> rescan_to s location_new st; map_option (Pair True) (settle_bridges st1) })"

definition resignal_interior :: "scope_id \<Rightarrow> watch_id \<Rightarrow> bool \<times> monitor \<Rightarrow> (bool \<times> monitor) option" where
  "resignal_interior s d acc =
     (case acc of (signaled, st) \<Rightarrow>
       (case in_held_subtree st d of
          Some hold \<Rightarrow> Some (signaled, book_hold hold st)
        | None \<Rightarrow>
            do { st1 \<leftarrow> rescan_to s (location_of st d) st;
                 st2 \<leftarrow> heal_kick s d st1;
                 Some (True, case mo_deficits st2 s of
                   Some b \<Rightarrow> put_book s (b\<lparr>db_interiors := bts_remove d (db_interiors b)\<rparr>) st2 | None \<Rightarrow> st2) }))"

definition resignal_slot :: "scope_id \<Rightarrow> watch_id \<times> segment \<Rightarrow> bool \<times> monitor \<Rightarrow> (bool \<times> monitor) option" where
  "resignal_slot s hole acc =
     (case hole of (p, nm) \<Rightarrow> case acc of (signaled, st) \<Rightarrow>
       (case in_held_subtree st p of
          Some hold \<Rightarrow> Some (signaled, book_hold hold st)
        | None \<Rightarrow>
            do { st1 \<leftarrow> rescan_to s (location_child (location_of st p) nm) st;
                 st2 \<leftarrow> heal_kick s p st1;
                 Some (True, case mo_deficits st2 s of
                   Some b \<Rightarrow> put_book s (book_drop_name p nm b) st2 | None \<Rightarrow> st2) }))"

definition resignal_deficits :: "scope_id \<Rightarrow> monitor \<Rightarrow> (bool \<times> monitor) option" where
  "resignal_deficits s st =
     (case root_of st s of
        None \<Rightarrow> Some (False, st)
      | Some root \<Rightarrow>
          if \<not> scope_descends st s then Some (False, st)
          else (case mo_deficits st s of
              None \<Rightarrow> Some (False, st)
            | Some b \<Rightarrow>
                if db_collapsed b then
                  do { st1 \<leftarrow> rescan_to s location_new st;
                       st2 \<leftarrow> heal_kick s root st1;
                       Some (True, st2\<lparr>mo_deficits := (mo_deficits st2)(s := None)\<rparr>) }
                else
                  do { acc1 \<leftarrow> fold_opt (resignal_interior s) (db_interiors b) (False, st);
                       (signaled, st2) \<leftarrow> fold_opt (resignal_slot s)
                         (concat (map (\<lambda>(p, names). map (Pair p) names) (db_slots b))) acc1;
                       Some (signaled, gc_deficit_book s st2) }))"

definition resignal_coverage_deficits :: "scope_id \<Rightarrow> monitor \<Rightarrow> (bool \<times> monitor) option" where
  "resignal_coverage_deficits s st =
     do { (signaled, st1) \<leftarrow> resignal_deficits s st; map_option (Pair signaled) (settle_bridges st1) }"

definition dirty_held_sources :: "scope_id option \<Rightarrow> monitor \<Rightarrow> monitor" where
  "dirty_held_sources s st = fold book_hold
     (filter (\<lambda>w. case s of None \<Rightarrow> True | Some s \<Rightarrow> scope_of st w = Some s) (mo_held_sources st)) st"

definition upd_moves :: "((scope_id \<times> move_cookie) \<times> pending_move \<Rightarrow> pending_move) \<Rightarrow> monitor \<Rightarrow> monitor" where
  "upd_moves f st = st\<lparr>mo_pending_moves := map (\<lambda>e. (fst e, f e)) (mo_pending_moves st)\<rparr>"

definition dirty_pending_sources_touching ::
  "scope_id \<Rightarrow> location \<Rightarrow> move_cookie option \<Rightarrow> watch_id option \<Rightarrow> monitor \<Rightarrow> monitor" where
  "dirty_pending_sources_touching s loc exclude carried st =
     upd_moves (\<lambda>((s', c), p).
       if s' = s \<and> Some c \<noteq> exclude \<and> \<not> pm_dirty p \<and> is_watched_node st (pm_from_parent p) \<and>
          \<not> (case carried of Some held \<Rightarrow> pm_from_parent p = held \<or> is_descendant st (pm_from_parent p) held | None \<Rightarrow> False) \<and>
          locations_touch (pending_from st p) loc
       then p\<lparr>pm_dirty := True\<rparr> else p) st"

definition reanchor_pending_sources :: "scope_id \<Rightarrow> location \<Rightarrow> location \<Rightarrow> monitor \<Rightarrow> monitor" where
  "reanchor_pending_sources s from to st =
     upd_moves (\<lambda>((s', c), p).
       if s' = s \<and> is_watched_node st (pm_from_parent p) \<and> location_starts_with (pending_from st p) from
       then (let source = pending_from st p; anchor = location_of st (pm_from_parent p)
             in if source \<noteq> from \<and> location_starts_with to anchor
                then p\<lparr>pm_from := drop (length anchor) to @ drop (length from) source, pm_dirty := True\<rparr>
                else p\<lparr>pm_dirty := True\<rparr>)
       else p) st"

definition rescan_and_rearm :: "scope_id \<Rightarrow> watch_id \<Rightarrow> monitor \<Rightarrow> monitor option" where
  "rescan_and_rearm s d st =
     do { st1 \<leftarrow> rescan_to s (location_of st d) st; map_option snd (start_rearm d st1) }"

definition scope_loss_recovery :: "scope_id \<Rightarrow> watch_id \<Rightarrow> monitor \<Rightarrow> monitor option" where
  "scope_loss_recovery s root st =
     (if \<not> scope_reproves_bindings st s then rescan_and_rearm s root st
      else do { let st1 = bump_loss_gen s st;
                st2 \<leftarrow> rescan_to s (location_of st1 root) st1;
                start_reinstall root st2 })"

definition overflow_root :: "scope_id \<times> watch_id \<Rightarrow> monitor \<Rightarrow> monitor option" where
  "overflow_root e st = scope_loss_recovery (fst e) (snd e)
     (dirty_pending_sources_touching (fst e) location_new None None st)"

definition overflow_subtree :: "subtree_scope \<Rightarrow> monitor \<Rightarrow> (bool \<times> monitor) option" where
  "overflow_subtree sub st =
     (let w = sub_watch sub
      in case in_held_subtree st w of
           Some source \<Rightarrow>
             (let covered = (case scope_of st w of None \<Rightarrow> None
                    | Some s \<Rightarrow> map_option (Pair s) (root_of st s));
                  st1 = mark_enumerate_dirty w (book_hold source st)
              in case covered of
                   Some (s, root) \<Rightarrow> map_option (Pair True) (rescan_to s (location_of st1 root) st1)
                 | None \<Rightarrow> Some (False, st1))
         | None \<Rightarrow>
             (case scope_of st w of
                None \<Rightarrow> Some (False, st)
              | Some s \<Rightarrow>
                  (let at = location_join (location_of st w) (sub_descent sub)
                   in do { st1 \<leftarrow> rescan_to s at (dirty_pending_sources_touching s at None None st);
                           (_, st2) \<leftarrow> start_rearm w st1;
                           Some (True, st2) })))"

definition on_overflow :: "scope \<Rightarrow> monitor \<Rightarrow> (bool \<times> monitor) option" where
  "on_overflow sc st =
     do { (stands, st1) \<leftarrow> (case sc of
            AllScope \<Rightarrow>
              do { st1 \<leftarrow> fold_opt overflow_root (mo_roots st) st;
                   Some (mo_roots st \<noteq> [], dirty_held_sources None st1) }
          | RootScope s \<Rightarrow>
              (case root_of st s of
                 Some root \<Rightarrow> do { st1 \<leftarrow> overflow_root (s, root) st; Some (True, dirty_held_sources (Some s) st1) }
               | None \<Rightarrow> Some (False, st))
          | SubtreeScope sub \<Rightarrow> overflow_subtree sub st);
          map_option (Pair stands) (settle_bridges st1) }"

definition report_loss :: "scope_id \<Rightarrow> monitor \<Rightarrow> (change_id option \<times> monitor) option" where
  "report_loss s st =
     (case root_of st s of
        None \<Rightarrow> Some (None, st)
      | Some root \<Rightarrow>
          do { (queued, st1) \<leftarrow> emit_rescan s (location_of st root) st;
               map_option (Pair queued) (settle_bridges st1) })"

definition cover_domination :: "scope \<Rightarrow> monitor \<Rightarrow> (change_id option \<times> monitor) option" where
  "cover_domination sc st =
     (case sc of
        AllScope \<Rightarrow> Some (None, st)
      | RootScope s \<Rightarrow> (case root_of st s of
            None \<Rightarrow> Some (None, st) | Some root \<Rightarrow> mint_rescan s (location_of st root) st)
      | SubtreeScope sub \<Rightarrow>
          (case scope_of st (sub_watch sub) of
             None \<Rightarrow> Some (None, st)
           | Some s \<Rightarrow>
               if in_held_subtree st (sub_watch sub) \<noteq> None then
                 (case root_of st s of
                    None \<Rightarrow> Some (None, st) | Some root \<Rightarrow> mint_rescan s (location_of st root) st)
               else mint_rescan s (location_join (location_of st (sub_watch sub)) (sub_descent sub)) st))"

section \<open>Moves\<close>

definition admits_pending_move :: "monitor \<Rightarrow> scope_id \<Rightarrow> move_cookie \<Rightarrow> bool" where
  "admits_pending_move st s c \<longleftrightarrow>
     map_of (mo_pending_moves st) (s, c) \<noteq> None \<or> length (scope_moves st s) < pending_move_cap"

definition park_pending_move ::
  "scope_id \<Rightarrow> move_cookie \<Rightarrow> pending_move \<Rightarrow> monitor \<Rightarrow> pending_move option \<times> monitor" where
  "park_pending_move s c p st =
     (let displaced = map_of (mo_pending_moves st) (s, c);
          st1 = st\<lparr>mo_pending_moves := btm_insert (s, c) p (mo_pending_moves st)\<rparr>
      in (displaced, if displaced = None then acquired_coverage_work s st1 else st1))"

definition resolve_lost_source ::
  "scope_id \<Rightarrow> location \<Rightarrow> bool option \<Rightarrow> evidence \<Rightarrow> monitor \<Rightarrow> monitor option" where
  "resolve_lost_source s from d pv st =
     (if \<not> ondir_allows st s d then Some st else emit_to s from Removed pv d st)"

definition resolve_stored_half :: "pending_move \<Rightarrow> monitor \<Rightarrow> monitor option" where
  "resolve_stored_half p st0 =
     do { st \<leftarrow> (case pm_held p of Some src \<Rightarrow> drop_to src CoveringRescan st0 | None \<Rightarrow> Some st0);
          (case live_pending_from st p of
             None \<Rightarrow> Some st
           | Some from \<Rightarrow>
               do { st1 \<leftarrow> resolve_lost_source (pm_scope p) from (pm_is_dir p) (pm_evidence p) st;
                    st2 \<leftarrow> (if pm_dirty p then rescan_to (pm_scope p) from st1 else Some st1);
                    Some (dirty_pending_sources_touching (pm_scope p) from None None st2) }) }"

definition take_move :: "scope_id \<times> move_cookie \<Rightarrow> monitor \<Rightarrow> pending_move option \<times> monitor" where
  "take_move k st = (map_of (mo_pending_moves st) k, st\<lparr>mo_pending_moves := btm_remove k (mo_pending_moves st)\<rparr>)"

definition expire_move :: "scope_id \<times> move_cookie \<Rightarrow> monitor \<Rightarrow> monitor option" where
  "expire_move k st = (case take_move k st of (Some p, st1) \<Rightarrow> resolve_stored_half p st1 | (None, st1) \<Rightarrow> Some st1)"

definition handle_timeout :: "instant \<Rightarrow> monitor \<Rightarrow> monitor option" where
  "handle_timeout now st =
     do { st1 \<leftarrow> fold_opt expire_move (map fst (filter (\<lambda>e. \<not> in_window (snd e) now) (mo_pending_moves st))) st;
          settle_bridges st1 }"

definition consume_pending_move :: "scope_id \<Rightarrow> move_cookie \<Rightarrow> monitor \<Rightarrow> monitor option" where
  "consume_pending_move s c st =
     (case take_move (s, c) st of
        (None, st1) \<Rightarrow> Some st1
      | (Some p, st1) \<Rightarrow> do { st2 \<leftarrow> resolve_stored_half p st1; settle_bridges st2 })"

definition hold_source :: "watch_id \<Rightarrow> scope_id \<Rightarrow> monitor \<Rightarrow> monitor" where
  "hold_source w s st =
     (if w \<in> set (mo_held_sources st) then st
      else held_by_scope_inc s (st\<lparr>mo_held_sources := bts_insert w (mo_held_sources st)\<rparr>))"

definition release_source :: "watch_id \<Rightarrow> scope_id \<Rightarrow> monitor \<Rightarrow> monitor" where
  "release_source w s st =
     (if w \<in> set (mo_held_sources st)
      then held_by_scope_dec s (st\<lparr>mo_held_sources := bts_remove w (mo_held_sources st)\<rparr>) else st)"

definition on_moved_from :: "scope_id \<Rightarrow> os_record \<Rightarrow> instant \<Rightarrow> monitor \<Rightarrow> monitor option" where
  "on_moved_from s r now st =
     (let src = (case rec_name r of Some nm \<Rightarrow> child_watch st (rec_watch r) nm | None \<Rightarrow> None);
          d = (if src \<noteq> None then Some True else rec_is_dir r)
      in case (case (rec_cookie r, rec_target r) of
                 (Some c, Some t) \<Rightarrow> if admits_pending_move st s c then Some (c, t) else None
               | _ \<Rightarrow> None) of
           Some (c, t) \<Rightarrow>
             do { st1 \<leftarrow> (case src of
                    None \<Rightarrow> Some st
                  | Some w \<Rightarrow> do { st1 \<leftarrow> detach_child w st;
                      let st2 = hold_source w s st1;
                      Some (if scope_needs_reproof st2 s \<and> \<not> rearm_settled st2 s then book_hold w st2 else st2) });
                  (case park_pending_move s c \<lparr>pm_from_parent = rec_watch r, pm_from = t, pm_scope = s,
                       pm_deadline = instant_add now (mo_move_window st1), pm_held = src, pm_is_dir = d,
                       pm_evidence = rec_evidence r, pm_dirty = False\<rparr> st1 of
                     (Some displaced, st2) \<Rightarrow> resolve_stored_half displaced st2
                   | (None, st2) \<Rightarrow> Some st2) }
         | None \<Rightarrow>
             do { st1 \<leftarrow> (case src of
                    None \<Rightarrow> Some st
                  | Some w \<Rightarrow> do { st1 \<leftarrow> (if rec_cookie r \<noteq> None \<and> rec_target r \<noteq> None
                        then stand_counted_cover s st else Some st);
                      drop_departed_occupant w st1 });
                  resolve_lost_source s (record_location st1 r) d (rec_evidence r) st1 })"

definition emit_pair ::
  "scope_id \<Rightarrow> location \<Rightarrow> pending_move \<Rightarrow> bool option \<Rightarrow> evidence \<Rightarrow> monitor \<Rightarrow> monitor option" where
  "emit_pair s to p class pv st =
     (if \<not> ondir_allows st s class then Some st
      else (case live_pending_from st p of
          Some from \<Rightarrow> emit_to s to (Moved from) pv class st
        | None \<Rightarrow> emit_to s to Created pv class st))"

definition rescan_dirty_pair :: "scope_id \<Rightarrow> pending_move \<Rightarrow> location \<Rightarrow> monitor \<Rightarrow> monitor option" where
  "rescan_dirty_pair s p to st =
     (if \<not> pm_dirty p then Some st
      else do { st1 \<leftarrow> (case live_pending_from st p of Some from \<Rightarrow> rescan_to s from st | None \<Rightarrow> Some st);
                rescan_to s to st1 })"

definition reparenting_source ::
  "monitor \<Rightarrow> pending_move \<Rightarrow> segment option \<Rightarrow> instant \<Rightarrow> (watch_id \<times> location) option" where
  "reparenting_source st p name now =
     (if \<not> in_window p now \<or> name = None \<or> pm_held p = None then None
      else map_option (Pair (pm_from_parent p)) (live_pending_from st p))"

definition reanchor_if :: "scope_id \<Rightarrow> location option \<Rightarrow> location \<Rightarrow> monitor \<Rightarrow> monitor" where
  "reanchor_if s from to st = (case from of Some f \<Rightarrow> reanchor_pending_sources s f to st | None \<Rightarrow> st)"

definition or_nothing :: "location option \<Rightarrow> record_outcome" where
  "or_nothing renamed = (case renamed of Some from \<Rightarrow> OutRenamed from | None \<Rightarrow> OutNothing)"

text \<open>The two halves of a move met inside the window; the watch of the source is carried if it can be.\<close>

definition carry_source ::
  "scope_id \<Rightarrow> os_record \<Rightarrow> segment \<Rightarrow> watch_id \<Rightarrow> pending_move \<Rightarrow> location \<Rightarrow> bool option \<Rightarrow> evidence
     \<Rightarrow> (watch_id \<times> location) option \<Rightarrow> location option \<Rightarrow> monitor \<Rightarrow> (record_outcome \<times> monitor) option" where
  "carry_source s r nm src p to class paired reparenting renamed st0 =
     (let st1 = release_source src s st0;
          dirtied = (src \<in> mo_dirtied_holds st1);
          st = st1\<lparr>mo_dirtied_holds := mo_dirtied_holds st1 - {src}\<rparr>
      in do { (carried, sta) \<leftarrow>
                (if can_reparent st src (rec_watch r) \<and> reparentable_adoption st src
                 then reparent src (rec_watch r) nm FlavorMoved st else Some (False, st));
              if carried then
                do { stb \<leftarrow> emit_pair s to p class paired sta;
                     stc \<leftarrow> rescan_dirty_pair s p to (reanchor_if s (map_option snd reparenting) to stb);
                     std \<leftarrow> (if dirtied then do { x \<leftarrow> rescan_to s to stc;
                                 if scope_needs_reproof x s then start_reinstall src x else rearm_to src x }
                              else Some stc);
                     ste \<leftarrow> (case mo_owed_descents std src of
                         Some descent \<Rightarrow> apply_descent src descent (std\<lparr>mo_owed_descents := (mo_owed_descents std)(src := None)\<rparr>)
                       | None \<Rightarrow> Some std);
                     Some (case reparenting of Some (fp, from) \<Rightarrow> OutReparented fp from | None \<Rightarrow> OutNothing, ste) }
              else
                do { stb \<leftarrow> (if is_watched_node sta src then drop_to src CoveringRescan sta else Some sta);
                     if is_watched_node stb (rec_watch r) then
                       do { stc \<leftarrow> emit_pair s to p class paired stb;
                            std \<leftarrow> rescan_dirty_pair s p to (reanchor_if s (map_option snd reparenting) to stc);
                            ste \<leftarrow> rescan_to s to std;
                            stf \<leftarrow> reconcile_to (rec_watch r) s nm (class_occupant class) True (rec_node r) ste;
                            stg \<leftarrow> rearm_child (rec_watch r) nm stf;
                            Some (or_nothing renamed, stg) }
                     else
                       do { stc \<leftarrow> stand_counted_cover s (dirty_held_sources (Some s)
                              (dirty_pending_sources_touching s location_new None None stb));
                            Some (OutNothing, stc) } } })"

definition pair_in_window ::
  "scope_id \<Rightarrow> os_record \<Rightarrow> instant \<Rightarrow> location \<Rightarrow> pending_move \<Rightarrow> monitor \<Rightarrow> (record_outcome \<times> monitor) option" where
  "pair_in_window s r now to p st =
     (let class = (case rec_is_dir r of Some d \<Rightarrow> Some d | None \<Rightarrow> pm_is_dir p);
          paired = evidence_union (pm_evidence p) (rec_evidence r);
          resolved_from = live_pending_from st p;
          reparenting = reparenting_source st p (rec_name r) now;
          renamed = (if class \<noteq> Some False \<and> 0 < rec_depth r then resolved_from else None)
      in case (rec_name r, pm_held p) of
           (Some nm, Some src) \<Rightarrow> carry_source s r nm src p to class paired reparenting renamed st
         | (Some nm, None) \<Rightarrow>
             do { st1 \<leftarrow> emit_pair s to p class paired st;
                  st2 \<leftarrow> rescan_dirty_pair s p to (reanchor_if s resolved_from to st1);
                  st3 \<leftarrow> reconcile_to (rec_watch r) s nm (class_occupant class) True (rec_node r) st2;
                  Some (or_nothing renamed, st3) }
         | (None, held) \<Rightarrow>
             do { st1 \<leftarrow> (case held of
                    Some src \<Rightarrow> do { st1 \<leftarrow> stand_counted_cover s st; drop_to src CoveringRescan st1 }
                  | None \<Rightarrow> Some st);
                  st2 \<leftarrow> emit_pair s to p class paired st1;
                  st3 \<leftarrow> rescan_dirty_pair s p to (reanchor_if s resolved_from to st2);
                  Some (or_nothing renamed, st3) })"

definition pair_too_late ::
  "scope_id \<Rightarrow> os_record \<Rightarrow> location \<Rightarrow> pending_move \<Rightarrow> monitor \<Rightarrow> monitor option" where
  "pair_too_late s r to p st0 =
     (let class = (case rec_is_dir r of Some d \<Rightarrow> Some d | None \<Rightarrow> pm_is_dir p);
          carried = (case pm_held p of Some src \<Rightarrow> is_watched_node st0 src | None \<Rightarrow> False)
      in do { st \<leftarrow> resolve_stored_half p st0;
              if is_watched_node st (rec_watch r) then
                do { st1 \<leftarrow> (if ondir_allows st s class then emit_to s to Created (rec_evidence r) class st else Some st);
                     (case rec_name r of
                        Some nm \<Rightarrow>
                          do { st2 \<leftarrow> (if carried then rescan_to s to st1 else Some st1);
                               st3 \<leftarrow> reconcile_to (rec_watch r) s nm (class_occupant class) True (rec_node r) st2;
                               if carried then rearm_child (rec_watch r) nm st3 else Some st3 }
                      | None \<Rightarrow> if carried then stand_counted_cover s st1 else Some st1) }
              else stand_counted_cover s (dirty_held_sources (Some s)
                     (dirty_pending_sources_touching s location_new None None st)) })"

definition on_moved_to :: "scope_id \<Rightarrow> os_record \<Rightarrow> instant \<Rightarrow> monitor \<Rightarrow> (record_outcome \<times> monitor) option" where
  "on_moved_to s r now st0 =
     (let to = record_location st0 r
      in case (case rec_cookie r of None \<Rightarrow> (None, st0) | Some c \<Rightarrow> take_move (s, c) st0) of
           (Some p, st) \<Rightarrow>
             if in_window p now then pair_in_window s r now to p st
             else map_option (Pair OutNothing) (pair_too_late s r to p st)
         | (None, st) \<Rightarrow>
             do { st1 \<leftarrow> (if ondir_allows st s (rec_is_dir r)
                    then emit_to s to Created (rec_evidence r) (rec_is_dir r) st else Some st);
                  st2 \<leftarrow> (case rec_name r of
                      Some nm \<Rightarrow> reconcile_to (rec_watch r) s nm (record_occupant r) True (rec_node r) st1
                    | None \<Rightarrow> Some st1);
                  Some (OutNothing, st2) })"

section \<open>Records\<close>

definition on_created :: "scope_id \<Rightarrow> os_record \<Rightarrow> monitor \<Rightarrow> monitor option" where
  "on_created s r st =
     do { st1 \<leftarrow> (if ondir_allows st s (rec_is_dir r) then emit_child s r Created st else Some st);
          (case rec_name r of
             Some nm \<Rightarrow> reconcile_to (rec_watch r) s nm (record_occupant r) False (rec_node r) st1
           | None \<Rightarrow> Some st1) }"

definition on_removed :: "scope_id \<Rightarrow> os_record \<Rightarrow> monitor \<Rightarrow> monitor option" where
  "on_removed s r st =
     do { st1 \<leftarrow> (if ondir_allows st s (rec_is_dir r) then emit_child s r Removed st else Some st);
          (case rec_name r of
             Some nm \<Rightarrow> reconcile_to (rec_watch r) s nm OccGone False (rec_node r) st1
           | None \<Rightarrow> Some st1) }"

definition on_move_self :: "scope_id \<Rightarrow> os_record \<Rightarrow> monitor \<Rightarrow> monitor option" where
  "on_move_self s r st =
     (if is_root_watch st (rec_watch r) then
        do { st1 \<leftarrow> rescan_to s location_new st; invalidate_root s (rec_watch r) st1 }
      else (case unproven_adoption_of st (rec_watch r) of
          Some p \<Rightarrow> release_to p s CountedRetirement st
        | None \<Rightarrow> Some st))"

definition on_delete_self :: "scope_id \<Rightarrow> os_record \<Rightarrow> monitor \<Rightarrow> monitor option" where
  "on_delete_self s r st =
     (if is_root_watch st (rec_watch r) then
        do { st1 \<leftarrow> (if ondir_allows st s (Some True)
               then emit_to s (location_of st (rec_watch r)) Removed (rec_evidence r) (rec_is_dir r) st else Some st);
             st2 \<leftarrow> rescan_to s location_new st1;
             invalidate_root s (rec_watch r) st2 }
      else drop_departed_occupant (rec_watch r) st)"

definition on_ignored :: "scope_id \<Rightarrow> os_record \<Rightarrow> monitor \<Rightarrow> monitor option" where
  "on_ignored s r st =
     (let w = rec_watch r
      in if is_root_watch st w then do { st1 \<leftarrow> rescan_to s location_new st; invalidate_root s w st1 }
         else (case in_held_subtree st w of
             Some source \<Rightarrow> drop_to w CoveringRescan (book_hold source st)
           | None \<Rightarrow>
               (let slot = (case node_of st w of None \<Rightarrow> None | Some n \<Rightarrow> map_option (Pair n) (slot_of n))
                in do { st1 \<leftarrow> drop_to w CoveringRescan st;
                        (case slot of
                           None \<Rightarrow> stand_counted_cover s st1
                         | Some (n, p, nm) \<Rightarrow> cover_and_rebuild_slot s p nm (wn_is_dir n) None st1) })))"

definition fences :: "monitor \<Rightarrow> scope_id \<Rightarrow> watch_id \<Rightarrow> os_record \<Rightarrow> bool" where
  "fences st s source r =
     (case rec_kind r of
        RkMovedTo \<Rightarrow> \<not> (case rec_cookie r of None \<Rightarrow> False
          | Some c \<Rightarrow> (case map_of (mo_pending_moves st) (s, c) of
              Some p \<Rightarrow> pm_held p = Some source | None \<Rightarrow> False))
      | k \<Rightarrow> \<not> is_self_event k)"

definition dispatch_record :: "scope_id \<Rightarrow> os_record \<Rightarrow> instant \<Rightarrow> monitor \<Rightarrow> (record_outcome \<times> monitor) option" where
  "dispatch_record s r now st =
     (case rec_kind r of
        RkMovedTo \<Rightarrow> on_moved_to s r now st
      | RkCreated \<Rightarrow> map_option (Pair OutNothing) (on_created s r st)
      | RkRemoved \<Rightarrow> map_option (Pair OutNothing) (on_removed s r st)
      | RkMovedFrom \<Rightarrow> map_option (Pair OutNothing) (on_moved_from s r now st)
      | RkMoveSelf \<Rightarrow> map_option (Pair OutNothing) (on_move_self s r st)
      | RkDeleteSelf \<Rightarrow> map_option (Pair OutNothing) (on_delete_self s r st)
      | RkIgnored \<Rightarrow> map_option (Pair OutNothing) (on_ignored s r st)
      | _ \<Rightarrow> map_option (Pair OutNothing)
          (if evidence_admits (rec_evidence r) (scope_interest st s) \<and> ondir_allows st s (rec_is_dir r)
           then emit_child s r Modified st else Some st))"

definition ingest_record :: "os_record \<Rightarrow> instant \<Rightarrow> monitor \<Rightarrow> (record_outcome \<times> monitor) option" where
  "ingest_record r now st =
     (let w = rec_watch r; depth = rec_depth r; k = rec_kind r
      in case scope_of st w of
           None \<Rightarrow> Some (OutNothing, st)
         | Some s \<Rightarrow>
             if (1 < depth \<and> scope_descends st s) \<or> (0 < depth \<and> is_self_event k) then
               (case in_held_subtree st w of
                  Some source \<Rightarrow> Some (OutNothing, mark_enumerate_dirty w (book_hold source st))
                | None \<Rightarrow> map_option (Pair OutNothing) (rescan_and_rearm s w st))
             else (case (case in_held_subtree st w of
                       Some source \<Rightarrow> if fences st s source r then Some source else None | None \<Rightarrow> None) of
                 Some source \<Rightarrow> Some (OutNothing, mark_enumerate_dirty w (book_hold source st))
               | None \<Rightarrow>
                   (let st1 = (if is_self_event k then st
                          else dirty_pending_sources_touching s (record_location st r)
                            (if k = RkMovedTo then rec_cookie r else None)
                            (if k = RkMovedFrom \<and>
                                (case rec_cookie r of Some c \<Rightarrow> admits_pending_move st s c | None \<Rightarrow> False)
                             then (case rec_name r of Some nm \<Rightarrow> child_watch st w nm | None \<Rightarrow> None)
                             else None) st);
                        st2 = (if k = RkCreated \<or> k = RkRemoved \<or> k = RkMovedFrom \<or> k = RkMovedTo
                               then mark_enumerate_dirty w st1 else st1)
                    in dispatch_record s r now st2)))"

definition on_os_record :: "os_record \<Rightarrow> instant \<Rightarrow> monitor \<Rightarrow> (record_outcome \<times> monitor) option" where
  "on_os_record r now st =
     do { (outcome, st1) \<leftarrow> ingest_record r now st; map_option (Pair outcome) (settle_bridges st1) }"

section \<open>The queues\<close>

definition is_superseded_arm :: "monitor \<Rightarrow> action \<Rightarrow> bool" where
  "is_superseded_arm st a \<longleftrightarrow>
     (case as_watch a of None \<Rightarrow> False
      | Some c \<Rightarrow> (case node_of st (wm_id c) of None \<Rightarrow> False | Some n \<Rightarrow> wn_attempt n \<noteq> wm_attempt c))"

definition stamp_dispatch :: "action \<Rightarrow> monitor \<Rightarrow> monitor" where
  "stamp_dispatch a st =
     (case as_watch a of None \<Rightarrow> st
      | Some c \<Rightarrow> upd_node (wm_id c) (\<lambda>n. n\<lparr>wn_placement := mo_placement_clock st\<rparr>) st)"

fun pop_action :: "action list \<Rightarrow> monitor \<Rightarrow> action option \<times> monitor" where
  "pop_action [] st = (None, st\<lparr>mo_actions := []\<rparr>)"
| "pop_action (a # rest) st =
     (if is_superseded_arm st a then pop_action rest st
      else (Some a, stamp_dispatch a (st\<lparr>mo_actions := rest\<rparr>)))"

definition poll_action :: "monitor \<Rightarrow> action option \<times> monitor" where
  "poll_action st = pop_action (mo_actions st) st"

definition poll_event :: "monitor \<Rightarrow> change option \<times> monitor" where
  "poll_event st = (case mo_events st of [] \<Rightarrow> (None, st) | c # rest \<Rightarrow> (Some c, st\<lparr>mo_events := rest\<rparr>))"

section \<open>Histories\<close>

datatype mon_op =
    OpRegister scope_id interest capabilities
  | OpReprofile scope_id capabilities
  | OpUnregister scope_id
  | OpDropSubtree watch_id
  | OpRearmSubtree watch_id
  | OpRebind scope_id
  | OpReserve
  | OpWiden scope_id watch_id "segment list" "identity option"
  | OpCoverStatLoss scope_id
  | OpResignal scope_id
  | OpSeal scope_id u64
  | OpRecord os_record instant
  | OpStat req_id stat_result
  | OpEnumerate req_id enumerate_result
  | OpWatchResult watch_id arm_attempt "watch_error + watch_ack"
  | OpOverflow scope
  | OpReportLoss scope_id
  | OpCoverDomination scope
  | OpTimeout instant
  | OpConsumeMove scope_id move_cookie
  | OpPollAction
  | OpPollEvent
  | OpMoveWindow duration

fun mon_step :: "mon_op \<Rightarrow> monitor \<Rightarrow> monitor option" where
  "mon_step (OpRegister s i caps) st = map_option snd (register_root_with_profile s i caps st)"
| "mon_step (OpReprofile s caps) st = Some (reprofile_root s caps st)"
| "mon_step (OpUnregister s) st = unregister_root s st"
| "mon_step (OpDropSubtree w) st = map_option snd (drop_watch_subtree w st)"
| "mon_step (OpRearmSubtree w) st = map_option snd (rearm_watch_subtree w st)"
| "mon_step (OpRebind s) st = map_option snd (rebind_monitor_root s st)"
| "mon_step OpReserve st = map_option snd (reserve_watch_id st)"
| "mon_step (OpWiden s w chain i) st = map_option snd (widen_root s w chain i st)"
| "mon_step (OpCoverStatLoss s) st = map_option snd (cover_stat_loss s st)"
| "mon_step (OpResignal s) st = map_option snd (resignal_coverage_deficits s st)"
| "mon_step (OpSeal s through) st = seal_staged_adoptions s through st"
| "mon_step (OpRecord r now) st = map_option snd (on_os_record r now st)"
| "mon_step (OpStat req res) st = on_stat_result req res st"
| "mon_step (OpEnumerate req res) st = on_enumerate req res st"
| "mon_step (OpWatchResult w a res) st = on_watch_result w a res st"
| "mon_step (OpOverflow sc) st = map_option snd (on_overflow sc st)"
| "mon_step (OpReportLoss s) st = map_option snd (report_loss s st)"
| "mon_step (OpCoverDomination sc) st = map_option snd (cover_domination sc st)"
| "mon_step (OpTimeout now) st = handle_timeout now st"
| "mon_step (OpConsumeMove s c) st = consume_pending_move s c st"
| "mon_step OpPollAction st = Some (snd (poll_action st))"
| "mon_step OpPollEvent st = Some (snd (poll_event st))"
| "mon_step (OpMoveWindow d) st = Some (st\<lparr>mo_move_window := d\<rparr>)"

definition mon_run :: "mon_op list \<Rightarrow> monitor \<Rightarrow> monitor option" where
  "mon_run ops st = fold_opt mon_step ops st"

end
