(* ===== verification/Monitor_Core.thy ===== *)
theory Monitor_Core
  imports Monitor
begin

text \<open>
  What the invariants of the \<open>Monitor\<close> speak of. \<open>core\<close> is the part of the state that matters to them; most
  of the bookkeeping (ledgers, stats, adoptions, bridges) leaves it alone, which is shown here once. The walks
  toward the root are shown to find every ancestor, and dropping a subtree only to take links away.

  \<open>wp m Q\<close> says that the result of \<open>m\<close>, if it does not panic, satisfies \<open>Q\<close>.
\<close>

section \<open>Results\<close>

definition wp :: "'a option \<Rightarrow> ('a \<Rightarrow> bool) \<Rightarrow> bool" where
  "wp m Q \<longleftrightarrow> (case m of None \<Rightarrow> True | Some x \<Rightarrow> Q x)"

lemma wp_simps [simp]: "wp None Q" "wp (Some x) Q \<longleftrightarrow> Q x" "wp (map_option f m) Q \<longleftrightarrow> wp m (\<lambda>x. Q (f x))"
  by (simp_all add: wp_def split: option.splits)

lemma wp_bind: "wp (Option.bind m f) Q \<longleftrightarrow> wp m (\<lambda>x. wp (f x) Q)"
  by (cases m) simp_all

lemma wp_mono: "wp m Q \<Longrightarrow> (\<And>x. Q x \<Longrightarrow> R x) \<Longrightarrow> wp m R"
  by (cases m) simp_all

lemma wpD: "wp m Q \<Longrightarrow> m = Some x \<Longrightarrow> Q x"
  by simp

lemma wpI: "(\<And>x. m = Some x \<Longrightarrow> Q x) \<Longrightarrow> wp m Q"
  by (cases m) simp_all

section \<open>The core\<close>

text \<open>The watch each pending move holds.\<close>

definition held_of :: "monitor \<Rightarrow> scope_id \<times> move_cookie \<Rightarrow> watch_id option" where
  "held_of st = (\<lambda>k. Option.bind (map_of (mo_pending_moves st) k) pm_held)"

definition core where
  "core st = (mo_nodes st, mo_child_index st, mo_roots st, mo_watch_ids st, mo_rearm_pending st,
     mo_pending_enumerate st, mo_req_ids st, mo_events st, mo_change_ids st, mo_scope_epochs st, held_of st)"

lemma held_of_cong: "mo_pending_moves st = mo_pending_moves st' \<Longrightarrow> held_of st = held_of st'"
  by (simp add: held_of_def fun_eq_iff)

lemma held_of_map: "(\<And>e. pm_held (g e) = pm_held (snd e)) \<Longrightarrow>
    Option.bind (map_of (map (\<lambda>e. (fst e, g e)) ms) k) pm_held = Option.bind (map_of ms k) pm_held"
  by (induction ms) auto

definition shape where
  "shape n = (wn_parent n, wn_name n, wn_scope n, wn_state n, wn_children n)"

fun enumerating :: "node_state \<Rightarrow> bool" where
  "enumerating (Enumerating _ _ _ _) = True"
| "enumerating _ = False"

text \<open>The parent of a node, as a relation.\<close>

definition parent_rel :: "monitor \<Rightarrow> (watch_id \<times> watch_id) set" where
  "parent_rel st = {(c, p). \<exists>n. node_of st c = Some n \<and> wn_parent n = Some p}"

definition minted_watch :: "monitor \<Rightarrow> watch_id \<Rightarrow> bool" where
  "minted_watch st w \<longleftrightarrow> w < seq_next (mo_watch_ids st)"

lemmas core_defs = core_def held_of_def

lemma core_acquired [simp]: "core (acquired_coverage_work s st) = core st"
  by (simp add: acquired_coverage_work_def core_defs)

lemma core_stat_loss [simp]: "core (stat_loss_inc s st) = core st" "core (stat_loss_dec s k st) = core st"
  by (simp_all add: stat_loss_inc_def stat_loss_dec_def core_defs)

lemma core_held [simp]: "core (held_by_scope_inc s st) = core st" "core (held_by_scope_dec s st) = core st"
  by (simp_all add: held_by_scope_inc_def held_by_scope_dec_def) (simp_all add: core_defs)

lemma core_bump_loss [simp]: "core (bump_loss_gen s st) = core st"
  by (simp add: bump_loss_gen_def core_defs)

lemma core_book_hold [simp]: "core (book_hold w st) = core st"
  by (simp add: book_hold_def core_defs)

lemma core_bridge [simp]: "core (bridge_set s f st) = core st" "core (bridge_remove s st) = core st"
  by (simp_all add: bridge_set_def bridge_remove_def core_defs)

lemma core_bridges [simp]: "core (bridge_saw_rescan s st) = core st" "core (bridge_fresh_rearm s st) = core st"
    "core (bridge_bootstrap s st) = core st"
  by (simp_all add: bridge_saw_rescan_def bridge_fresh_rearm_def bridge_bootstrap_def)

lemma core_latent [simp]: "core (latent_remove r st) = core st" "core (latent_cold_insert r s st) = core st"
  by (simp_all add: latent_remove_def latent_cold_insert_def Let_def) (simp_all add: core_defs)

lemma core_books [simp]: "core (put_book s b st) = core st" "core (gc_deficit_book s st) = core st"
    "core (record_slot_deficit s p nm st) = core st" "core (record_interior_deficit s d st) = core st"
    "core (clear_interior_deficit s d st) = core st" "core (snd (drop_node_deficits s d st)) = core st"
proof -
  show p: "core (put_book s b st) = core st" for s b st by (simp add: put_book_def core_defs)
  show g: "core (gc_deficit_book s st) = core st" for s st
    by (simp add: gc_deficit_book_def core_defs split: option.splits)
  show "core (record_slot_deficit s p nm st) = core st" "core (record_interior_deficit s d st) = core st"
    by (simp_all add: record_slot_deficit_def record_interior_deficit_def Let_def p)
  show "core (clear_interior_deficit s d st) = core st" "core (snd (drop_node_deficits s d st)) = core st"
    by (simp_all add: clear_interior_deficit_def drop_node_deficits_def Let_def p g split: option.splits)
qed

lemma core_upd_stat [simp]: "core (upd_slot_stat p nm f st) = core st" "core (upd_stat r g st) = core st"
  by (simp_all add: upd_slot_stat_def upd_stat_def core_defs split: option.splits)

lemma core_slots [simp]: "core (cover_stat_vacancy p nm st) = core st" "core (raise_stat_darkness r st) = core st"
    "core (snd (remove_slot_deficit s p nm st)) = core st" "core (take_stat req slot st) = core st"
  by (simp_all add: cover_stat_vacancy_def raise_stat_darkness_def remove_slot_deficit_def Let_def split: option.splits)
    (simp add: take_stat_def Let_def, simp add: core_defs)

lemma core_marks [simp]: "core (mark_bootstrap_loss s st) = core st" "core (mark_fresh_install s w st) = core st"
    "core (settle_dark_install d s es st) = core st"
  by (simp_all add: mark_bootstrap_loss_def mark_fresh_install_def settle_dark_install_def Let_def split: option.splits)
    (simp_all add: core_defs mark_bootstrap_loss_def bridge_saw_rescan_def bridge_set_def)

lemma core_adoption [simp]: "core (snd (take_adoption_marker p s st)) = core st"
    "core (record_adoption_marker p nm a i s st) = core st" "core (stage_adoption p s st) = core st"
  by (simp_all add: take_adoption_marker_def record_adoption_marker_def stage_adoption_def Let_def split: option.splits)
    (simp_all add: core_defs)

lemma core_moves [simp]: "core (dirty_pending_sources_touching s loc x c st) = core st"
    "core (reanchor_pending_sources s from to st) = core st"
proof -
  have u: "core (upd_moves g st) = core st" if "\<And>e. pm_held (g e) = pm_held (snd e)" for g st
    using held_of_map [OF that] by (simp add: upd_moves_def core_defs)
  show "core (dirty_pending_sources_touching s loc x c st) = core st"
    unfolding dirty_pending_sources_touching_def by (rule u) (simp split: prod.splits)
  show "core (reanchor_pending_sources s from to st) = core st"
    unfolding reanchor_pending_sources_def by (rule u) (simp add: Let_def split: prod.splits)
qed

lemma core_reanchor_if [simp]: "core (reanchor_if s from to st) = core st"
  by (simp add: reanchor_if_def split: option.splits)

lemma core_holds [simp]: "core (hold_source w s st) = core st" "core (release_source w s st) = core st"
    "core (dirty_held_sources sc st) = core st"
proof -
  show "core (hold_source w s st) = core st" "core (release_source w s st) = core st"
    by (simp_all add: hold_source_def release_source_def) (simp_all add: core_defs)
  have "core (fold book_hold ws st) = core st" for ws st by (induction ws arbitrary: st) simp_all
  then show "core (dirty_held_sources sc st) = core st" by (simp add: dirty_held_sources_def)
qed

lemma core_forget [simp]: "core (forget_scope s st) = core st"
  by (simp add: forget_scope_def core_defs)

lemma core_defer [simp]: "core (defer_stat_descent p nm d st) = core st"
  by (simp add: defer_stat_descent_def core_defs split: option.splits)

lemma core_fence [simp]: "core (snd (fence_lowering w stamp st)) = core st"
  by (simp add: fence_lowering_def Let_def split: option.splits)

text \<open>Updates of fields outside the core.\<close>

lemma core_fields [simp]:
  "core (st\<lparr>mo_capabilities := a1\<rparr>) = core st" "core (st\<lparr>mo_move_window := a2\<rparr>) = core st"
  "core (st\<lparr>mo_arm_attempts := a3\<rparr>) = core st" "core (st\<lparr>mo_scope_interests := a4\<rparr>) = core st"
  "core (st\<lparr>mo_scope_profiles := a5\<rparr>) = core st" "core (st\<lparr>mo_pending_stat := a6\<rparr>) = core st"
  "core (st\<lparr>mo_stat_slots := a7\<rparr>) = core st" "core (st\<lparr>mo_owed_descents := a8\<rparr>) = core st"
  "core (st\<lparr>mo_held_sources := b1\<rparr>) = core st"
  "core (st\<lparr>mo_dirtied_holds := b2\<rparr>) = core st" "core (st\<lparr>mo_dark_installs := b3\<rparr>) = core st"
  "core (st\<lparr>mo_deficits := b4\<rparr>) = core st" "core (st\<lparr>mo_latent_cold := b5\<rparr>) = core st"
  "core (st\<lparr>mo_staged_adoptions := b6\<rparr>) = core st" "core (st\<lparr>mo_placement_clock := b7\<rparr>) = core st"
  "core (st\<lparr>mo_reprove_stamps := b8\<rparr>) = core st" "core (st\<lparr>mo_actions := b9\<rparr>) = core st"
  by (simp_all add: core_defs)

lemma core_readings: "core st = core st' \<Longrightarrow> node_of st w = node_of st' w \<and> root_of st s = root_of st' s \<and>
    parent_rel st = parent_rel st' \<and> child_watch st p nm = child_watch st' p nm \<and>
    mo_pending_enumerate st = mo_pending_enumerate st' \<and> minted_watch st = minted_watch st' \<and>
    mo_child_index st = mo_child_index st' \<and> held_of st = held_of st'"
  by (simp add: core_defs node_of_def root_of_def parent_rel_def child_watch_def minted_watch_def fun_eq_iff)

lemma state_of_core: "core st = core st' \<Longrightarrow> state_of st w = state_of st' w"
  using core_readings [of st st' w] by (simp add: state_of_def)

section \<open>What a drop leaves\<close>

text \<open>\<open>prunes st st'\<close>: links and index entries are only taken away, and the pending moves stay.\<close>

definition prunes :: "monitor \<Rightarrow> monitor \<Rightarrow> bool" where
  "prunes st st' \<longleftrightarrow>
     (\<forall>c n'. node_of st' c = Some n' \<longrightarrow> (\<exists>n. node_of st c = Some n \<and> wn_parent n = wn_parent n')) \<and>
     (\<forall>k c. mo_child_index st' k = Some c \<longrightarrow> mo_child_index st k = Some c) \<and> held_of st' = held_of st"

lemma prunes_refl [simp]: "prunes st st"
  by (simp add: prunes_def)

lemma prunes_trans: "prunes a b \<Longrightarrow> prunes b c \<Longrightarrow> prunes a c"
  unfolding prunes_def by metis

lemma prunes_parents: "prunes st st' \<Longrightarrow> parent_rel st' \<subseteq> parent_rel st"
  by (fastforce simp: prunes_def parent_rel_def)

lemma prunes_watched: "prunes st st' \<Longrightarrow> is_watched_node st' w \<Longrightarrow> is_watched_node st w"
  unfolding prunes_def is_watched_node_def by (metis not_None_eq)

lemma prunes_core: "core st' = core st \<Longrightarrow> prunes st st'"
  using core_readings [of st' st] by (simp add: prunes_def)

lemma prunes_fields: "mo_nodes st' = mo_nodes st \<Longrightarrow> mo_child_index st' = mo_child_index st \<Longrightarrow>
    mo_pending_moves st' = mo_pending_moves st \<Longrightarrow> prunes st st'"
  by (simp add: prunes_def node_of_def held_of_def)

lemma node_of_upd: "node_of (upd_node w f st) v = map_option (\<lambda>n. if v = w then f n else n) (node_of st v)"
proof -
  have "map_of (map (\<lambda>(k, n). (k, if k = w then f n else n)) xs) v =
      map_option (\<lambda>n. if v = w then f n else n) (map_of xs v)" for xs :: "(watch_id \<times> watch_node) list"
    by (induction xs) auto
  then show ?thesis by (simp add: node_of_def upd_node_def)
qed

lemma upd_node_fields [simp]: "mo_child_index (upd_node w f st) = mo_child_index st"
    "held_of (upd_node w f st) = held_of st" "mo_roots (upd_node w f st) = mo_roots st"
    "mo_pending_moves (upd_node w f st) = mo_pending_moves st"
  by (simp_all add: upd_node_def held_of_def)

lemma parent_rel_upd:
  assumes "\<And>n. wn_parent (f n) = wn_parent n"
  shows "parent_rel (upd_node w f st) = parent_rel st"
proof -
  have "(\<exists>n. map_option (\<lambda>n. if c = w then f n else n) x = Some n \<and> wn_parent n = Some p) \<longleftrightarrow>
      (\<exists>n. x = Some n \<and> wn_parent n = Some p)" for c p x
    using assms by (cases x) auto
  then show ?thesis by (simp add: parent_rel_def node_of_upd)
qed

lemma prunes_upd: "(\<And>n. wn_parent (f n) = wn_parent n) \<Longrightarrow> prunes st (upd_node w f st)"
  by (auto simp: prunes_def node_of_upd)

lemma rearm_pending_fields [simp]: "mo_nodes (rearm_pending_inc s st) = mo_nodes st"
    "mo_nodes (rearm_pending_dec s st) = mo_nodes st"
    "mo_child_index (rearm_pending_inc s st) = mo_child_index st"
    "mo_child_index (rearm_pending_dec s st) = mo_child_index st"
    "mo_pending_moves (rearm_pending_inc s st) = mo_pending_moves st"
    "mo_pending_moves (rearm_pending_dec s st) = mo_pending_moves st"
  by (simp_all add: rearm_pending_inc_def rearm_pending_dec_def acquired_coverage_work_def)

lemma bridge_set_fields [simp]: "mo_nodes (bridge_set s f st) = mo_nodes st"
    "mo_child_index (bridge_set s f st) = mo_child_index st"
    "mo_pending_moves (bridge_set s f st) = mo_pending_moves st"
  by (simp_all add: bridge_set_def)

lemma prunes_set_state: "prunes st (set_state w ns st)"
proof (cases "node_of st w")
  case (Some n)
  define st1 where "st1 = upd_node w (\<lambda>n. n\<lparr>wn_state := ns\<rparr>) st"
  have "prunes st1 (set_state w ns st)"
    by (rule prunes_fields)
      (simp_all add: set_state_def Some st1_def [symmetric] bridge_fresh_rearm_def Let_def)
  moreover have "prunes st st1" unfolding st1_def by (rule prunes_upd) simp
  ultimately show ?thesis by (rule prunes_trans [rotated])
qed (simp add: set_state_def)

lemma prunes_mint_rescan: "wp (mint_rescan s loc st) (\<lambda>z. prunes st (snd z))"
  by (auto simp: mint_rescan_def emit_def wp_bind next_change_id_def bump_epoch_def
      split: option.splits intro!: wpI prunes_fields)

lemma prunes_rescan: "wp (rescan_to s loc st) (prunes st)"
proof -
  have "prunes st (bridge_saw_rescan s st)" by (rule prunes_core) simp
  then have "wp (mint_rescan s loc (bridge_saw_rescan s st)) (\<lambda>z. prunes st (snd z))"
    by (rule wp_mono [OF prunes_mint_rescan prunes_trans])
  then show ?thesis by (simp add: rescan_to_def emit_rescan_def)
qed

lemma prunes_forget_enumerate: "prunes st (forget_enumerate r st)"
  by (rule prunes_fields) (simp_all add: forget_enumerate_def latent_remove_def)

lemma prunes_queue_enumerate: "wp (queue_enumerate d k a st) (prunes st)"
proof (cases "state_of st d")
  case (Some ns)
  define st1 where "st1 = (case ns of Enumerating prior _ _ _ \<Rightarrow> forget_enumerate prior st | _ \<Rightarrow> st)"
  have p1: "prunes st st1" by (simp add: st1_def prunes_forget_enumerate split: node_state.splits)
  show ?thesis
  proof (rule wpI)
    fix st' assume "queue_enumerate d k a st = Some st'"
    then obtain req st2 where r: "next_req_id st1 = Some (req, st2)" and
        st': "st' = (let st3 = st2\<lparr>mo_pending_enumerate := (mo_pending_enumerate st2)(req \<mapsto> d)\<rparr>;
          st4 = upd_node d (\<lambda>n. n\<lparr>wn_placement := mo_placement_clock st3\<rparr>) st3;
          st5 = set_state d (Enumerating req k a False) st4
          in st5\<lparr>mo_actions := mo_actions st5 @ [ActEnumerate req d]\<rparr>)"
      using Some by (auto simp: queue_enumerate_def st1_def Let_def bind_eq_Some_conv)
    define st3 where "st3 = st2\<lparr>mo_pending_enumerate := (mo_pending_enumerate st2)(req \<mapsto> d)\<rparr>"
    define st4 where "st4 = upd_node d (\<lambda>n. n\<lparr>wn_placement := mo_placement_clock st3\<rparr>) st3"
    have p3: "prunes st1 st3"
      using r by (intro prunes_fields) (auto simp: st3_def next_req_id_def split: option.splits)
    have p4: "prunes st3 st4" unfolding st4_def by (rule prunes_upd) simp
    have p5: "prunes st4 (set_state d (Enumerating req k a False) st4)" by (rule prunes_set_state)
    have p6: "prunes x (x\<lparr>mo_actions := as\<rparr>)" for x as by (rule prunes_fields) simp_all
    have e: "st' = (set_state d (Enumerating req k a False) st4)\<lparr>mo_actions :=
        mo_actions (set_state d (Enumerating req k a False) st4) @ [ActEnumerate req d]\<rparr>"
      unfolding st' st4_def st3_def Let_def ..
    show "prunes st st'"
      unfolding e by (rule prunes_trans [OF prunes_trans [OF prunes_trans [OF prunes_trans [OF p1 p3] p4] p5] p6])
  qed
qed (simp add: queue_enumerate_def)

lemma prunes_start_rearm: "wp (start_rearm d st) (\<lambda>z. prunes st (snd z))"
proof -
  have "prunes st (latent_cold_insert r s (set_state d ns st))" for r s ns
    by (rule prunes_trans [OF prunes_set_state prunes_core]) simp
  then show ?thesis
    using prunes_queue_enumerate [of d "EkRearm False" 0 st]
    by (simp add: start_rearm_def Let_def prunes_set_state split: option.split node_state.split enum_kind.split)
qed

lemma prunes_rearm: "wp (rearm_to w st) (prunes st)"
  using prunes_start_rearm [of w st]
  by (simp add: rearm_to_def inherit_rearm_def prunes_set_state split: option.split node_state.split)

lemma prunes_counted_cover: "wp (stand_counted_cover s st) (prunes st)"
proof -
  have "wp (Option.bind (rescan_to s loc st) (rearm_to root)) (prunes st)" for loc root
    unfolding wp_bind by (rule wp_mono [OF prunes_rescan wp_mono [OF prunes_rearm prunes_trans]])
  then show ?thesis by (simp add: stand_counted_cover_def split: option.splits)
qed

lemma vacate_fields [simp]: "mo_roots (vacate_child_slot p nm st) = mo_roots st"
    "mo_pending_moves (vacate_child_slot p nm st) = mo_pending_moves st"
    "mo_child_index (vacate_child_slot p nm st) = (mo_child_index st)((p, nm) := None)"
  by (auto simp: vacate_child_slot_def upd_slot_stat_def upd_stat_def fun_eq_iff split: option.splits)

lemma prunes_vacate: "prunes st (vacate_child_slot p nm st)"
  by (simp add: prunes_def node_of_def held_of_def)

lemma prunes_unlink: "prunes st (unlink_node w n st)"
proof -
  define st2 where "st2 = (let st1 = st\<lparr>mo_nodes := btm_remove w (mo_nodes st)\<rparr>
    in if is_rearm (wn_state n) then rearm_pending_dec (wn_scope n) st1 else st1)"
  have f: "mo_nodes st2 = btm_remove w (mo_nodes st)" "mo_child_index st2 = mo_child_index st"
      "mo_pending_moves st2 = mo_pending_moves st"
    by (simp_all add: st2_def Let_def)
  then have b: "prunes st st2"
    by (auto simp: prunes_def node_of_def held_of_def split: if_splits)
  have c: "prunes st2 (upd_node p (\<lambda>x. x\<lparr>wn_children := g x\<rparr>) st2)" for p g
    by (rule prunes_upd) simp
  have r: "prunes st2 (st2\<lparr>mo_roots := rs\<rparr>)" for rs by (rule prunes_fields) simp_all
  have e: "unlink_node w n st = (case wn_parent n of
      None \<Rightarrow> st2\<lparr>mo_roots := btm_remove (wn_scope n) (mo_roots st2)\<rparr>
    | Some p \<Rightarrow> (let st3 = upd_node p (\<lambda>x. x\<lparr>wn_children := bts_remove w (wn_children x)\<rparr>) st2
        in case wn_name n of
             Some nm \<Rightarrow> if mo_child_index st3 (p, nm) = Some w then vacate_child_slot p nm st3 else st3
           | None \<Rightarrow> st3))"
    unfolding unlink_node_def st2_def Let_def ..
  have "prunes st2 (unlink_node w n st)"
    using c r prunes_trans [OF c prunes_vacate] by (simp add: e Let_def split: option.split)
  with b show ?thesis by (rule prunes_trans)
qed

lemma prunes_forget_pending: "prunes st (st\<lparr>mo_pending_enumerate := m\<rparr>)"
  by (rule prunes_fields) simp_all

text \<open>Of a node's markers only its read belongs to the core.\<close>

lemma core_reclaim: "m \<noteq> MkEnumerate \<Longrightarrow> core (snd (reclaim_node_marker m w n st)) = core st"
proof -
  assume m: "m \<noteq> MkEnumerate"
  obtain a sa where a: "take_adoption_marker w (wn_scope n) st = (a, sa)" by fastforce
  then have ca: "core sa = core st" using core_adoption(1) [of w "wn_scope n" st] by simp
  obtain b sb where b: "drop_node_deficits (wn_scope n) w st = (b, sb)" by fastforce
  then have cb: "core sb = core st" using core_books(6) [of "wn_scope n" w st] by simp
  show ?thesis
    using m ca cb by (cases m) (simp_all add: Let_def a b split: option.split bool.split)
qed

lemma prunes_reclaim: "prunes st (snd (reclaim_node_marker m w n st))"
proof (cases "m = MkEnumerate")
  case True
  then show ?thesis by (simp add: prunes_forget_enumerate split: node_state.split)
qed (simp add: prunes_core core_reclaim)

lemma prunes_reclaims: "prunes st (snd (reclaim_markers ms w n (er, st)))"
proof (induction ms arbitrary: er st)
  case (Cons m ms)
  obtain c st1 where c: "reclaim_node_marker m w n st = (c, st1)" by fastforce
  then have "prunes st st1" using prunes_reclaim [of st m w n] by simp
  from prunes_trans [OF this Cons.IH [of st1 "absorb c er"]] c show ?case by simp
qed simp

lemma prunes_drop_one: "prunes st (snd (drop_one w n er st))"
proof -
  obtain er2 st2 where r: "reclaim_markers node_marker_all w n (er, unlink_node w n st) = (er2, st2)" by fastforce
  then have "prunes (unlink_node w n st) st2"
    using prunes_reclaims [of "unlink_node w n st" node_marker_all w n er] by simp
  moreover have "prunes st2 (st2\<lparr>mo_actions := as\<rparr>)" for as by (rule prunes_fields) simp_all
  ultimately have "prunes (unlink_node w n st) (st2\<lparr>mo_actions := as\<rparr>)" for as by (rule prunes_trans)
  from prunes_trans [OF prunes_unlink this] show ?thesis by (simp add: drop_one_def r)
qed

lemma prunes_drop_walk: "prunes st (snd (drop_walk ws er st))"
proof (induction ws er st rule: drop_walk.induct)
  case (2 w stack er st)
  show ?case
  proof (cases "node_of st w")
    case (Some n)
    obtain er1 st1 where d: "drop_one w n er st = (er1, st1)" by fastforce
    have "prunes st st1" using prunes_drop_one [of st w n er] d by simp
    from prunes_trans [OF this 2(2) [OF Some d [symmetric]]] show ?thesis by (simp add: Some d)
  qed (use 2 in simp)
qed simp

text \<open>After its walk a drop changes only what is outside the core, and may stand a counted cover.\<close>

lemma drop_subtree_wp:
  assumes w: "Q (snd (drop_walk [w] erased_none st))" and "\<And>a b. core a = core b \<Longrightarrow> Q a \<Longrightarrow> Q b"
    and c: "\<And>s x. Q x \<Longrightarrow> wp (stand_counted_cover s x) Q"
  shows "wp (drop_subtree w d st) (\<lambda>z. Q (snd z))"
proof -
  obtain er st1 where e: "drop_walk [w] erased_none st = (er, st1)" by fastforce
  have q: "Q x" if "core x = core st1" for x
    using assms(2) [of st1 x] that w e by simp
  then have qc: "wp (stand_counted_cover s x) Q" if "core x = core st1" for s x
    using c that by blast
  have q1: "Q st1" by (simp add: q)
  show ?thesis
    by (simp add: drop_subtree_def e Let_def q qc q1 del: drop_walk.simps
        split: option.split deficit_discharge.split)
qed

lemma prunes_drop: "wp (drop_to w d st) (prunes st)"
proof -
  have "wp (drop_subtree w d st) (\<lambda>z. prunes st (snd z))"
  proof (rule drop_subtree_wp)
    show "prunes st (snd (drop_walk [w] erased_none st))" by (rule prunes_drop_walk)
    show "prunes st b" if "core a = core b" "prunes st a" for a b
      using prunes_trans [OF that(2) prunes_core] that(1) by simp
    show "wp (stand_counted_cover s x) (prunes st)" if "prunes st x" for s x
      by (rule wp_mono [OF prunes_counted_cover prunes_trans [OF that]])
  qed
  then show ?thesis by (simp add: drop_to_def)
qed

text \<open>The dropped watch itself is gone.\<close>

lemma unlink_gone: "node_of (unlink_node w n st) w = None"
proof -
  have a: "node_of (upd_node p f st) w = None" if "node_of st w = None" for p f st
    using that by (simp add: node_of_upd)
  define st2 where "st2 = (let st1 = st\<lparr>mo_nodes := btm_remove w (mo_nodes st)\<rparr>
    in if is_rearm (wn_state n) then rearm_pending_dec (wn_scope n) st1 else st1)"
  have b: "node_of st2 w = None" by (simp add: st2_def Let_def node_of_def)
  have c: "node_of (vacate_child_slot p nm x) w = node_of x w" "node_of (x\<lparr>mo_roots := rs\<rparr>) w = node_of x w"
    for p nm x rs by (simp_all add: node_of_def)
  have e: "unlink_node w n st = (case wn_parent n of
      None \<Rightarrow> st2\<lparr>mo_roots := btm_remove (wn_scope n) (mo_roots st2)\<rparr>
    | Some p \<Rightarrow> (let st3 = upd_node p (\<lambda>x. x\<lparr>wn_children := bts_remove w (wn_children x)\<rparr>) st2
        in case wn_name n of
             Some nm \<Rightarrow> if mo_child_index st3 (p, nm) = Some w then vacate_child_slot p nm st3 else st3
           | None \<Rightarrow> st3))"
    unfolding unlink_node_def st2_def Let_def ..
  show ?thesis by (simp add: e Let_def a b c split: option.split)
qed

lemma drop_gone: "wp (drop_to w d st) (\<lambda>st'. \<not> is_watched_node st' w)"
proof -
  have n: "node_of (snd (drop_walk [w] erased_none st)) w = None"
  proof (cases "node_of st w")
    case (Some n)
    obtain er1 st1 where d: "drop_one w n erased_none st = (er1, st1)" by fastforce
    obtain er2 st2 where r: "reclaim_markers node_marker_all w n (erased_none, unlink_node w n st) = (er2, st2)"
      by fastforce
    have "mo_nodes st2 = mo_nodes (unlink_node w n st)"
      using reclaim_nodes [of node_marker_all w n erased_none "unlink_node w n st"] r by simp
    then have "node_of st1 w = None"
      using unlink_gone [of w n st] d r by (auto simp: drop_one_def node_of_def)
    then have "\<not> is_watched_node (snd (drop_walk (rev (wn_children n) @ []) er1 st1)) w"
      using prunes_watched [OF prunes_drop_walk [of st1 "rev (wn_children n) @ []" er1], of w]
      unfolding is_watched_node_def by blast
    then show ?thesis by (simp add: Some d is_watched_node_def)
  qed simp
  have "wp (drop_subtree w d st) (\<lambda>z. \<not> is_watched_node (snd z) w)"
  proof (rule drop_subtree_wp)
    show "\<not> is_watched_node (snd (drop_walk [w] erased_none st)) w" using n by (simp add: is_watched_node_def)
    show "\<not> is_watched_node b w" if "core a = core b" "\<not> is_watched_node a w" for a b
      using that core_readings [OF that(1), of w] by (simp add: is_watched_node_def)
    show "wp (stand_counted_cover s x) (\<lambda>st'. \<not> is_watched_node st' w)" if "\<not> is_watched_node x w" for s x
      by (rule wp_mono [OF prunes_counted_cover]) (use that prunes_watched in blast)
  qed
  then show ?thesis by (simp add: drop_to_def)
qed

section \<open>Walks find what is there\<close>

definition parent_of :: "monitor \<Rightarrow> watch_id \<Rightarrow> watch_id option" where
  "parent_of st w = (case node_of st w of Some n \<Rightarrow> wn_parent n | None \<Rightarrow> None)"

fun ancestor :: "monitor \<Rightarrow> nat \<Rightarrow> watch_id \<Rightarrow> watch_id option" where
  "ancestor st 0 w = Some w"
| "ancestor st (Suc k) w = (case parent_of st w of None \<Rightarrow> None | Some p \<Rightarrow> ancestor st k p)"

lemma ancestor_add: "ancestor st (i + j) w = (case ancestor st i w of None \<Rightarrow> None | Some v \<Rightarrow> ancestor st j v)"
  by (induction i arbitrary: w) (auto split: option.splits)

lemma ancestor_rel: "(p, c) \<in> (parent_rel st)\<^sup>* \<Longrightarrow> \<exists>k. ancestor st k p = Some c"
proof (induction rule: converse_rtrancl_induct)
  case base
  show ?case by (rule exI [of _ 0]) simp
next
  case (step y z)
  then obtain k where "ancestor st k z = Some c" by blast
  with step(1) show ?case by (intro exI [of _ "Suc k"]) (auto simp: parent_rel_def parent_of_def)
qed

lemma descendant_walk_finds: "ancestor st k w = Some c \<Longrightarrow> k < n \<Longrightarrow> descendant_walk n st (Some w) c"
proof (induction n arbitrary: k w)
  case (Suc n)
  show ?case
  proof (cases k)
    case 0
    with Suc.prems show ?thesis by simp
  next
    case (Suc j)
    with Suc.prems obtain p where p: "parent_of st w = Some p" "ancestor st j p = Some c"
      by (auto split: option.splits)
    then have "(case node_of st w of Some n \<Rightarrow> wn_parent n | None \<Rightarrow> None) = Some p" by (simp add: parent_of_def)
    with Suc.IH [OF p(2)] Suc Suc.prems(2) show ?thesis by simp
  qed
qed simp

text \<open>A shortest way up visits each node once, so it fits the bound of the walks.\<close>

lemma ancestor_bounded:
  assumes "ancestor st k w = Some c"
  shows "\<exists>j \<le> length (mo_nodes st). ancestor st j w = Some c"
proof -
  define j where "j = (LEAST j. ancestor st j w = Some c)"
  have j: "ancestor st j w = Some c" unfolding j_def using assms by (rule LeastI)
  have min: "ancestor st i w \<noteq> Some c" if "i < j" for i using that not_less_Least j_def by blast
  have ex: "\<exists>v. ancestor st i w = Some v \<and> node_of st v \<noteq> None" if "i < j" for i
  proof -
    have e: "j = i + (j - i)" using that by simp
    have "ancestor st (i + (j - i)) w = Some c" by (subst e [symmetric]) (rule j)
    then obtain v where v: "ancestor st i w = Some v" "ancestor st (j - i) v = Some c"
      unfolding ancestor_add by (auto split: option.splits)
    moreover obtain m where "j - i = Suc m" using \<open>i < j\<close> by (cases "j - i") auto
    ultimately have "parent_of st v \<noteq> None" by (auto split: option.splits)
    with v show ?thesis by (auto simp: parent_of_def split: option.splits)
  qed
  define f where "f i = the (ancestor st i w)" for i
  have f: "ancestor st i w = Some (f i)" "node_of st (f i) \<noteq> None" if "i < j" for i
    using ex [OF that] by (auto simp: f_def)
  have "f x \<noteq> f y" if "x < y" "y < j" for x y
  proof
    assume "f x = f y"
    moreover have "ancestor st x w = Some (f x)" "ancestor st y w = Some (f y)" using f(1) that by simp_all
    ultimately have "ancestor st (x + (j - y)) w = ancestor st (y + (j - y)) w" unfolding ancestor_add by simp
    also have "y + (j - y) = j" using that by simp
    finally have "ancestor st (x + (j - y)) w = Some c" using j by simp
    moreover have "x + (j - y) < j" using that by simp
    ultimately show False using min by blast
  qed
  then have "inj_on f {..<j}" by (intro linorder_inj_onI) auto
  moreover have "f ` {..<j} \<subseteq> fst ` set (mo_nodes st)"
  proof
    fix v assume "v \<in> f ` {..<j}"
    then obtain n where "map_of (mo_nodes st) v = Some n" using f(2) by (auto simp: node_of_def)
    then show "v \<in> fst ` set (mo_nodes st)" by (force dest: map_of_SomeD)
  qed
  ultimately have "card {..<j} \<le> card (fst ` set (mo_nodes st))" by (intro card_inj_on_le) simp_all
  also have "\<dots> \<le> length (mo_nodes st)"
    using card_length [of "map fst (mo_nodes st)"] by simp
  finally show ?thesis using j by auto
qed

lemma not_descendant: "\<not> is_descendant st p c \<Longrightarrow> (p, c) \<notin> (parent_rel st)\<^sup>*"
proof
  assume n: "\<not> is_descendant st p c" and "(p, c) \<in> (parent_rel st)\<^sup>*"
  then obtain k where "ancestor st k p = Some c" using ancestor_rel by blast
  then obtain j where "j \<le> length (mo_nodes st)" "ancestor st j p = Some c" using ancestor_bounded by blast
  then have "descendant_walk (length (mo_nodes st) + 1) st (Some p) c" by (intro descendant_walk_finds) auto
  with n show False by (simp add: is_descendant_def)
qed

section \<open>Watches held by a pending move\<close>

definition unindexed :: "monitor \<Rightarrow> watch_id \<Rightarrow> bool" where
  "unindexed st c \<longleftrightarrow> (\<forall>k. mo_child_index st k \<noteq> Some c)"

text \<open>A watch between two slots: no slot names it, no move waits for it, it is not a root.\<close>

definition loose :: "monitor \<Rightarrow> watch_id \<Rightarrow> bool" where
  "loose st c \<longleftrightarrow> unindexed st c \<and> \<not> is_root_watch st c \<and> c \<notin> ran (held_of st)"

lemma loose_prunes: "prunes st st' \<Longrightarrow> loose st c \<Longrightarrow> loose st' c"
  unfolding loose_def unindexed_def prunes_def is_root_watch_def
  by (metis (no_types, lifting) option.case_eq_if option.collapse option.discI option.sel)

lemma held_of_take: "held_of (snd (take_move k st)) = (held_of st)(k := None)"
  by (simp add: take_move_def held_of_def fun_eq_iff)

lemma held_of_purge:
  "held_of (purge_scope_pending_moves s st) k = (if fst k = s then None else held_of st k)"
proof -
  have "map_of (filter (\<lambda>e. fst (fst e) \<noteq> s) ms) k = (if fst k = s then None else map_of ms k)"
    for ms :: "((scope_id \<times> move_cookie) \<times> pending_move) list"
    by (induction ms) auto
  then show ?thesis by (simp add: purge_scope_pending_moves_def held_of_def)
qed

lemma held_of_insert:
  "held_of (st\<lparr>mo_pending_moves := btm_insert k p (mo_pending_moves st)\<rparr>) = (held_of st)(k := pm_held p)"
  by (simp add: held_of_def fun_eq_iff)

text \<open>Setting a state reads and writes the core only, the bridge flags aside.\<close>

lemma core_set_state_cong:
  assumes "core a = core b"
  shows "core (set_state w ns a) = core (set_state w ns b)"
proof -
  have i: "core (rearm_pending_inc s a) = core (rearm_pending_inc s b)"
      "core (rearm_pending_dec s a) = core (rearm_pending_dec s b)" if "core a = core b" for s a b
    using that by (simp_all add: rearm_pending_inc_def rearm_pending_dec_def) (simp_all add: core_defs)
  have u: "core (upd_node w f a) = core (upd_node w f b)" for f
    using assms by (simp add: upd_node_def core_defs)
  have n: "node_of a w = node_of b w" using core_readings [OF assms] by simp
  show ?thesis
    by (cases "node_of b w") (simp_all add: set_state_def n Let_def assms, auto intro!: i simp: u)
qed

lemma core_forget_enumerate: "core (forget_enumerate r st) =
    core (st\<lparr>mo_pending_enumerate := (mo_pending_enumerate st)(r := None)\<rparr>)"
  by (simp add: forget_enumerate_def)

section \<open>Re-addressing an arm\<close>

lemma relink_roots: "mo_roots (relink c p nm st) = mo_roots st"
  by (simp add: relink_def Let_def split: option.split)

text \<open>Re-addressing an arm neither reads nor writes the roots.\<close>

lemma slot_arm_roots: "queue_slot_arm w s (st\<lparr>mo_roots := rs\<rparr>) =
    map_option (\<lambda>(b, x). (b, x\<lparr>mo_roots := rs\<rparr>)) (queue_slot_arm w s st)"
  by (auto simp: queue_slot_arm_def queue_watch_def next_arm_attempt_def arm_node_def upd_node_def node_of_def
      scope_interest_def cong: if_cong split: option.split)

lemma slot_arm_keeps_roots: "wp (queue_slot_arm w s st) (\<lambda>z. mo_roots (snd z) = mo_roots st)"
  by (auto simp: queue_slot_arm_def queue_watch_def next_arm_attempt_def arm_node_def upd_node_def
      split: option.split)

lemma readdress_roots: "readdress_outstanding_arm w (st\<lparr>mo_roots := rs\<rparr>) =
    map_option (\<lambda>x. x\<lparr>mo_roots := rs\<rparr>) (readdress_outstanding_arm w st)"
proof -
  have q: "queue_reinstall w s (st\<lparr>mo_roots := rs\<rparr>) = map_option (\<lambda>x. x\<lparr>mo_roots := rs\<rparr>) (queue_reinstall w s st)" for s
    by (cases "queue_slot_arm w s st") (auto simp: queue_reinstall_def slot_arm_roots loss_gen_def)
  have m: "map_option snd (map_option (\<lambda>(b, x). (b, x\<lparr>mo_roots := rs\<rparr>)) z) =
      map_option (\<lambda>x. x\<lparr>mo_roots := rs\<rparr>) (map_option snd z)" for z :: "(bool \<times> monitor) option"
    by (cases z) auto
  show ?thesis
    by (auto simp: readdress_outstanding_arm_def q slot_arm_roots m node_of_def split: option.split node_state.split)
qed

lemma readdress_keeps_roots: "wp (readdress_outstanding_arm w st) (\<lambda>x. mo_roots x = mo_roots st)"
proof -
  have q: "wp (queue_reinstall w s st) (\<lambda>x. mo_roots x = mo_roots st)" for s
    using slot_arm_keeps_roots [of w s st] by (cases "queue_slot_arm w s st") (auto simp: queue_reinstall_def)
  show ?thesis
    using q slot_arm_keeps_roots
    by (auto simp: readdress_outstanding_arm_def split: option.split node_state.split)
qed

end
