(* ===== verification/Monitor_Inv.thy ===== *)
theory Monitor_Inv
  imports Monitor_Core
begin

text \<open>
  How an invariant of the \<open>Monitor\<close> is proved once for every operation. The locale \<open>monitor_invariant\<close>
  asks of a predicate that it depends on the core only, that it tells a few facts of the index and of the
  moves waiting for their other half, and that it is kept by the few elementary steps that change the core;
  inside it emission, arms, drops, children and slots are shown to keep it; \<open>Monitor_Keeps\<close> goes on to every
  operation a driver can call.
\<close>

section \<open>The interface\<close>

locale monitor_invariant =
  fixes P :: "monitor \<Rightarrow> bool"
  assumes cong: "core st = core st' \<Longrightarrow> P st \<Longrightarrow> P st'"
    and indexed: "P st \<Longrightarrow> child_watch st p nm = Some c \<Longrightarrow>
      is_watched_node st p \<and> (\<exists>n. node_of st c = Some n \<and> slot_of n = Some (p, nm))"
    and held: "P st \<Longrightarrow> held_of st mv = Some c \<Longrightarrow>
      unindexed st c \<and> \<not> is_root_watch st c \<and> (\<forall>mv'. held_of st mv' = Some c \<longrightarrow> mv' = mv)"
    and rooted: "P st \<Longrightarrow> root_of st s = Some w \<Longrightarrow> is_watched_node st w"
    and watch_id: "P st \<Longrightarrow> next_watch_id st = Some (w, st') \<Longrightarrow> P st'"
    and req_id: "P st \<Longrightarrow> next_req_id st = Some (req, st') \<Longrightarrow> P st'"
    and minted: "P st \<Longrightarrow> mint_rescan s loc st = Some (r, st') \<Longrightarrow> P st'"
    and emitted: "P st \<Longrightarrow> k \<noteq> Rescan \<Longrightarrow> emit s loc k pv d st = Some (r, st') \<Longrightarrow> P st'"
    and upd: "P st \<Longrightarrow> (\<And>n. shape (f n) = shape n) \<Longrightarrow> P (upd_node w f st)"
    and dirtied: "P st \<Longrightarrow> P (mark_enumerate_dirty w st)"
    and rest_state: "P st \<Longrightarrow> state_of st w = Some old \<Longrightarrow> \<not> enumerating old \<Longrightarrow> \<not> enumerating ns \<Longrightarrow>
      P (set_state w ns st)"
    and leave_enum: "P st \<Longrightarrow> state_of st w = Some (Enumerating req ek a b) \<Longrightarrow> \<not> enumerating ns \<Longrightarrow>
      P (set_state w ns (st\<lparr>mo_pending_enumerate := (mo_pending_enumerate st)(req := None)\<rparr>))"
    and stay_enum: "P st \<Longrightarrow> state_of st w = Some (Enumerating req ek a b) \<Longrightarrow>
      P (set_state w (Enumerating req ek a' b') st)"
    and orphan: "P st \<Longrightarrow> mo_pending_enumerate st req = Some w \<Longrightarrow>
      (\<And>ek a b. state_of st w \<noteq> Some (Enumerating req ek a b)) \<Longrightarrow>
      P (st\<lparr>mo_pending_enumerate := (mo_pending_enumerate st)(req := None)\<rparr>)"
    and queued: "P st \<Longrightarrow> queue_enumerate w ek at st = Some st' \<Longrightarrow> P st'"
    and installed: "P st \<Longrightarrow> is_watched_node st p \<Longrightarrow> child_watch st p nm = None \<Longrightarrow>
      next_watch_id st = Some (w, st1) \<Longrightarrow> core st2 = core st1 \<Longrightarrow>
      shape n = (Some p, Some nm, s, Arming False False, []) \<Longrightarrow>
      P ((upd_node p (\<lambda>x. x\<lparr>wn_children := bts_insert w (wn_children x)\<rparr>) (insert_node w n st2))\<lparr>mo_child_index :=
        (mo_child_index st2)((p, nm) \<mapsto> w)\<rparr>)"
    and vacated: "P st \<Longrightarrow> P (st\<lparr>mo_child_index := (mo_child_index st)(slot := None)\<rparr>)"
    and dropped: "P st \<Longrightarrow> P (snd (drop_walk [w] erased_none st))"
    and relinked: "P st \<Longrightarrow> loose st c \<Longrightarrow> is_watched_node st c \<Longrightarrow> is_watched_node st p \<Longrightarrow>
      child_watch st p nm = None \<Longrightarrow> (p, c) \<notin> (parent_rel st)\<^sup>* \<Longrightarrow> P (relink c p nm st)"
    and registered: "P st \<Longrightarrow> root_of st s = None \<Longrightarrow> next_watch_id st = Some (w, st1) \<Longrightarrow>
      core st2 = core st1 \<Longrightarrow> shape n = (None, None, s, Arming True False, []) \<Longrightarrow>
      P ((insert_node w n st2)\<lparr>mo_roots := btm_insert s w (mo_roots st2)\<rparr>)"
    and widened: "P st \<Longrightarrow> root_of st s = Some root \<Longrightarrow> \<not> is_watched_node st w \<Longrightarrow> minted_watch st w \<Longrightarrow>
      w \<notin> ran (held_of st) \<Longrightarrow> shape n = (None, None, s, Arming False False, []) \<Longrightarrow>
      P ((relink root w nm (insert_node w n st))\<lparr>mo_roots := btm_insert s w (mo_roots st)\<rparr>)"
    and unrooted: "P st \<Longrightarrow> root_of st s = Some w \<Longrightarrow>
      P (snd (drop_walk [w] erased_none (st\<lparr>mo_roots := btm_remove s (mo_roots st)\<rparr>)))"
    and released: "P st \<Longrightarrow> (\<And>mv. held_of (st\<lparr>mo_pending_moves := ms\<rparr>) mv \<in> {held_of st mv, None}) \<Longrightarrow>
      P (st\<lparr>mo_pending_moves := ms\<rparr>)"
    and parked: "P st \<Longrightarrow> (\<And>c. pm_held pm = Some c \<Longrightarrow> loose st c \<and> is_watched_node st c) \<Longrightarrow>
      P (st\<lparr>mo_pending_moves := btm_insert mv pm (mo_pending_moves st)\<rparr>)"
begin

lemma core_P: "core st' = core st \<Longrightarrow> P st \<Longrightarrow> P st'"
  using cong by metis

lemma frame [simp]:
  "P (acquired_coverage_work s st) = P st" "P (stat_loss_inc s st) = P st" "P (stat_loss_dec s k st) = P st"
  "P (bump_loss_gen s st) = P st" "P (book_hold w st) = P st" "P (bridge_set s f st) = P st"
  "P (bridge_remove s st) = P st" "P (bridge_saw_rescan s st) = P st" "P (bridge_fresh_rearm s st) = P st"
  "P (bridge_bootstrap s st) = P st" "P (latent_remove r st) = P st" "P (latent_cold_insert r s st) = P st"
  "P (put_book s b st) = P st" "P (gc_deficit_book s st) = P st" "P (record_slot_deficit s p nm st) = P st"
  "P (record_interior_deficit s d st) = P st" "P (clear_interior_deficit s d st) = P st"
  "P (upd_slot_stat p nm g st) = P st" "P (cover_stat_vacancy p nm st) = P st" "P (raise_stat_darkness r st) = P st"
  "P (take_stat req slot st) = P st" "P (mark_fresh_install s x st) = P st" "P (settle_dark_install d s es st) = P st"
  "P (record_adoption_marker p nm a i s st) = P st" "P (stage_adoption p s st) = P st"
  "P (dirty_pending_sources_touching s loc y c st) = P st"
  "P (reanchor_pending_sources s from to st) = P st" "P (reanchor_if s from2 to st) = P st"
  "P (hold_source w s st) = P st" "P (release_source w s st) = P st" "P (dirty_held_sources sc st) = P st"
  "P (forget_scope s st) = P st" "P (defer_stat_descent p nm de st) = P st"
  by (auto intro: core_P elim: core_P [rotated])

lemma frame_snd [simp]:
  "P (snd (remove_slot_deficit s p nm st)) = P st" "P (snd (take_adoption_marker p s st)) = P st"
  "P (snd (fence_lowering w stamp st)) = P st" "P (snd (drop_node_deficits s d st)) = P st"
  by (auto intro: core_P elim: core_P [rotated])

lemma frame_fields [simp]:
  "P (st\<lparr>mo_move_window := a2\<rparr>) = P st" "P (st\<lparr>mo_arm_attempts := a3\<rparr>) = P st"
  "P (st\<lparr>mo_scope_interests := a4\<rparr>) = P st" "P (st\<lparr>mo_scope_profiles := a5\<rparr>) = P st"
  "P (st\<lparr>mo_pending_stat := a6\<rparr>) = P st" "P (st\<lparr>mo_stat_slots := a7\<rparr>) = P st"
  "P (st\<lparr>mo_owed_descents := a8\<rparr>) = P st" "P (st\<lparr>mo_held_sources := b0\<rparr>) = P st"
  "P (st\<lparr>mo_dirtied_holds := b2\<rparr>) = P st" "P (st\<lparr>mo_dark_installs := b3\<rparr>) = P st"
  "P (st\<lparr>mo_deficits := b4\<rparr>) = P st" "P (st\<lparr>mo_staged_adoptions := b6\<rparr>) = P st"
  "P (st\<lparr>mo_placement_clock := b7\<rparr>) = P st" "P (st\<lparr>mo_reprove_stamps := b8\<rparr>) = P st"
  "P (st\<lparr>mo_actions := b9\<rparr>) = P st"
  by (auto intro: core_P elim: core_P [rotated])

section \<open>Combinators\<close>

lemma bind_s: "wp m P \<Longrightarrow> (\<And>st. P st \<Longrightarrow> wp (f st) Q) \<Longrightarrow> wp (Option.bind m f) Q"
  by (cases m) simp_all

lemma bind_p: "wp m (\<lambda>z. P (snd z)) \<Longrightarrow> (\<And>x st. P st \<Longrightarrow> wp (f x st) Q) \<Longrightarrow>
    wp (Option.bind m (\<lambda>(x, st). f x st)) Q"
  by (cases m) auto

lemma bind_t: "wp m (\<lambda>z. P (snd (snd z))) \<Longrightarrow> (\<And>x y st. P st \<Longrightarrow> wp (f x y st) Q) \<Longrightarrow>
    wp (Option.bind m (\<lambda>(x, y, st). f x y st)) Q"
  by (cases m) auto

lemma fold_s:
  assumes "P st" and "\<And>x st. P st \<Longrightarrow> wp (f x st) P"
  shows "wp (fold_opt f xs st) P"
  using assms(1)
proof (induction xs arbitrary: st)
  case (Cons x xs)
  with assms(2) [OF Cons.prems, of x] show ?case by (cases "f x st") simp_all
qed simp

lemma fold_p:
  assumes "P (snd acc)" and "\<And>x acc. P (snd acc) \<Longrightarrow> wp (f x acc) (\<lambda>z. P (snd z))"
  shows "wp (fold_opt f xs acc) (\<lambda>z. P (snd z))"
  using assms(1)
proof (induction xs arbitrary: acc)
  case (Cons x xs)
  with assms(2) [OF Cons.prems, of x] show ?case by (cases "f x acc") simp_all
qed simp

lemma fold_t:
  assumes "P (snd (snd acc))" and "\<And>x acc. P (snd (snd acc)) \<Longrightarrow> wp (f x acc) (\<lambda>z. P (snd (snd z)))"
  shows "wp (fold_opt f xs acc) (\<lambda>z. P (snd (snd z)))"
  using assms(1)
proof (induction xs arbitrary: acc)
  case (Cons x xs)
  with assms(2) [OF Cons.prems, of x] show ?case by (cases "f x acc") simp_all
qed simp

lemmas steps = bind_s bind_p bind_t

section \<open>Emission and arms\<close>

lemma keep_watch_id: "P st \<Longrightarrow> wp (next_watch_id st) (\<lambda>z. P (snd z))"
  using watch_id by (auto intro!: wpI)

lemma keep_req_id: "P st \<Longrightarrow> wp (next_req_id st) (\<lambda>z. P (snd z))"
  using req_id by (auto intro!: wpI)

lemma keep_arm_attempt: "P st \<Longrightarrow> wp (next_arm_attempt st) (\<lambda>z. P (snd z))"
  by (auto simp: next_arm_attempt_def split: option.splits)

lemma keep_mint: "P st \<Longrightarrow> wp (mint_rescan s loc st) (\<lambda>z. P (snd z))"
  using minted by (auto intro!: wpI)

lemma keep_rescan: "P st \<Longrightarrow> wp (emit_rescan s loc st) (\<lambda>z. P (snd z))"
  by (simp add: emit_rescan_def keep_mint)

lemma keep_rescan_to: "P st \<Longrightarrow> wp (rescan_to s loc st) P"
  by (simp add: rescan_to_def keep_rescan)

lemma keep_emit_to: "P st \<Longrightarrow> k \<noteq> Rescan \<Longrightarrow> wp (emit_to s loc k pv d st) P"
  using emitted by (auto simp: emit_to_def intro!: wpI)

lemma keep_settle: "P st \<Longrightarrow> wp (settle_bridges st) P"
  by (auto simp: settle_bridges_def settle_bridge_def intro!: fold_s steps keep_rescan_to)

lemma keep_arm_node: "P st \<Longrightarrow> P (arm_node w a st)"
  by (simp add: arm_node_def upd shape_def)

lemma keep_queue_watch: "P st \<Longrightarrow> wp (queue_watch w t msk st) P"
  by (auto simp: queue_watch_def intro!: steps keep_arm_attempt keep_arm_node)

lemma keep_adopt_arm: "P st \<Longrightarrow> wp (adopt_arm w st) (\<lambda>z. P (snd z))"
  by (auto simp: adopt_arm_def intro!: steps keep_arm_attempt keep_arm_node)

lemma keep_retire_arm: "P st \<Longrightarrow> wp (retire_arm w st) P"
  by (simp add: retire_arm_def keep_adopt_arm)

lemma keep_slot_arm: "P st \<Longrightarrow> wp (queue_slot_arm w s st) (\<lambda>z. P (snd z))"
  by (auto simp: queue_slot_arm_def intro!: keep_queue_watch split: option.splits)

lemma keep_queue_reinstall: "P st \<Longrightarrow> wp (queue_reinstall w s st) P"
  by (auto simp: queue_reinstall_def intro!: steps keep_slot_arm)

lemma keep_readdress: "P st \<Longrightarrow> wp (readdress_outstanding_arm w st) P"
  by (auto simp: readdress_outstanding_arm_def intro!: keep_queue_reinstall keep_slot_arm
      split: option.splits node_state.splits)

lemma keep_moved_placement: "P st \<Longrightarrow> P (moved_placement w st)"
  by (simp add: moved_placement_def Let_def upd shape_def)

lemma keep_queue_enumerate: "P st \<Longrightarrow> wp (queue_enumerate d k a st) P"
  using queued by (auto intro!: wpI)

section \<open>Re-arms and drops\<close>

lemma keep_forgotten_state:
  "P st \<Longrightarrow> state_of st w = Some (Enumerating req ek a b) \<Longrightarrow> \<not> enumerating ns \<Longrightarrow>
    P (set_state w ns (forget_enumerate req st))"
  by (rule core_P [OF core_set_state_cong [OF core_forget_enumerate] leave_enum])

text \<open>The steps of a state, from the node.\<close>

lemma stay_node: "P st \<Longrightarrow> node_of st w = Some n \<Longrightarrow> wn_state n = Enumerating req ek a b \<Longrightarrow>
    P (set_state w (Enumerating req ek a' b') st)"
  by (rule stay_enum) (auto simp: state_of_def)

lemma rest_node: "P st \<Longrightarrow> node_of st w = Some n \<Longrightarrow> \<not> enumerating (wn_state n) \<Longrightarrow> \<not> enumerating ns \<Longrightarrow>
    P (set_state w ns st)"
  by (rule rest_state) (auto simp: state_of_def)

lemma leave_node: "P st \<Longrightarrow> node_of st w = Some n \<Longrightarrow> wn_state n = Enumerating req ek a b \<Longrightarrow>
    \<not> enumerating ns \<Longrightarrow> P (set_state w ns (forget_enumerate req st))"
  by (rule keep_forgotten_state) (auto simp: state_of_def)

lemma keep_start_rearm: "P st \<Longrightarrow> wp (start_rearm d st) (\<lambda>z. P (snd z))"
  by (auto simp: start_rearm_def Let_def intro!: keep_queue_enumerate intro: stay_node
      split: option.splits node_state.splits enum_kind.splits)

lemma keep_inherit_rearm: "P st \<Longrightarrow> wp (inherit_rearm w st) (\<lambda>z. P (snd z))"
  by (auto simp: inherit_rearm_def intro: keep_start_rearm rest_state split: option.splits node_state.splits)

lemma keep_rearm_to: "P st \<Longrightarrow> wp (rearm_to w st) P"
  by (simp add: rearm_to_def keep_inherit_rearm)

lemma keep_start_reinstall: "P st \<Longrightarrow> wp (start_reinstall w st) P"
  by (auto simp: start_reinstall_def Let_def
      intro!: keep_queue_reinstall intro: rest_node leave_node split: option.splits node_state.splits)

lemma keep_heal_kick: "P st \<Longrightarrow> wp (heal_kick s d st) P"
  by (simp add: heal_kick_def keep_start_reinstall keep_rearm_to)

lemma keep_counted_cover: "P st \<Longrightarrow> wp (stand_counted_cover s st) P"
  by (auto simp: stand_counted_cover_def intro!: bind_s keep_rescan_to keep_rearm_to split: option.splits)

lemma keep_drop_subtree: "P st \<Longrightarrow> wp (drop_subtree w d st) (\<lambda>z. P (snd z))"
  by (rule drop_subtree_wp [OF dropped cong keep_counted_cover])

lemma keep_drop_to: "P st \<Longrightarrow> wp (drop_to w d st) P"
  by (simp add: drop_to_def keep_drop_subtree)

lemma keep_drop_root: "P st \<Longrightarrow> root_of st s = Some w \<Longrightarrow>
    wp (drop_to w d (st\<lparr>mo_roots := btm_remove s (mo_roots st)\<rparr>)) P"
  using drop_subtree_wp [OF unrooted cong keep_counted_cover] by (simp add: drop_to_def)

lemma keep_departed: "P st \<Longrightarrow> wp (drop_departed_occupant w st) P"
  by (auto simp: drop_departed_occupant_def Let_def intro!: bind_p keep_drop_subtree split: option.splits)

lemma keep_moves: "P st \<Longrightarrow> P (snd (take_move k st))" "P st \<Longrightarrow> P (purge_scope_pending_moves s st)"
proof -
  show "P (snd (take_move k st))" if "P st"
    using released [OF that, of "btm_remove k (mo_pending_moves st)"] held_of_take [of k st]
    by (simp add: take_move_def)
  show "P (purge_scope_pending_moves s st)" if "P st"
    using released [OF that, of "filter (\<lambda>e. fst (fst e) \<noteq> s) (mo_pending_moves st)"] held_of_purge [of s st]
    by (simp add: purge_scope_pending_moves_def)
qed

section \<open>Adoption markers\<close>

lemma keep_release: "P st \<Longrightarrow> wp (release_adoption_marker p s disposal st) (\<lambda>z. P (snd z))"
proof -
  assume p: "P st"
  obtain m st1 where t: "take_adoption_marker p s st = (m, st1)" by fastforce
  with p have "P st1" using frame_snd(2) [of p s st] by simp
  then show ?thesis
    by (auto simp: release_adoption_marker_def t retire_adopted_def intro!: bind_s keep_counted_cover keep_drop_to
        split: option.splits adoption_disposal.splits)
qed

lemma keep_release_to: "P st \<Longrightarrow> wp (release_to p s disposal st) P"
  by (simp add: release_to_def keep_release)

lemma keep_retire_adopted: "P st \<Longrightarrow> wp (retire_adopted a st) P"
  by (simp add: retire_adopted_def keep_drop_to)

lemma keep_seal_one: "P st \<Longrightarrow> wp (seal_one s p st) P"
  by (auto simp: seal_one_def intro!: bind_s keep_release_to keep_rescan_to split: option.splits)

lemma keep_seal: "P st \<Longrightarrow> wp (seal_staged_adoptions s through st) P"
  by (auto simp: seal_staged_adoptions_def intro!: bind_s fold_s keep_seal_one keep_settle)

section \<open>Children\<close>

lemma keep_vacate: "P st \<Longrightarrow> P (vacate_child_slot p nm st)"
  by (simp add: vacate_child_slot_def vacated)

lemma keep_install: "P st \<Longrightarrow> wp (install_child p s nm d i st) (\<lambda>z. P (snd z))"
proof (rule wpI)
  fix z assume p: "P st" and z: "install_child p s nm d i st = Some z"
  obtain healed st1 where r: "remove_slot_deficit s p nm st = (healed, st1)" by fastforce
  then have c: "core st1 = core st" using core_slots(3) [of s p nm st] by simp
  with p have p1: "P st1" by (intro core_P [OF c])
  have i: "mo_child_index (insert_node w n x) = mo_child_index x" for w n x
    by (simp add: insert_node_def Let_def bridge_fresh_rearm_def)
  show "P (snd z)"
  proof (cases "is_watched_node st p \<and> mo_child_index st (p, nm) = None")
    case True
    then have w: "is_watched_node st1 p" "child_watch st1 p nm = None"
      using core_readings [OF c] by (simp_all add: is_watched_node_def child_watch_def)
    obtain w st2 a st3 n t msk where n2: "next_watch_id st1 = Some (w, st2)" "next_arm_attempt st2 = Some (a, st3)"
      and q: "queue_watch w t msk ((upd_node p (\<lambda>x. x\<lparr>wn_children := bts_insert w (wn_children x)\<rparr>)
        (insert_node w n st3))\<lparr>mo_child_index := (mo_child_index st3)((p, nm) \<mapsto> w)\<rparr>) = Some (snd z)"
      and n: "shape n = (Some p, Some nm, s, Arming False False, [])"
    proof -
      from True z obtain w st2 a st3 where n2: "next_watch_id st1 = Some (w, st2)"
          "next_arm_attempt st2 = Some (a, st3)" and q: "Option.bind (let st4 = insert_node w
            \<lparr>wn_parent = Some p, wn_name = Some nm, wn_scope = s, wn_is_dir = d,
             wn_attempt = a, wn_placement = mo_placement_clock st3, wn_moved_at = never_moved,
             wn_identity = i, wn_state = Arming False False, wn_children = []\<rparr> st3;
           st5 = upd_node p (\<lambda>n. n\<lparr>wn_children := bts_insert w (wn_children n)\<rparr>) st4;
           st6 = st5\<lparr>mo_child_index := (mo_child_index st5)((p, nm) \<mapsto> w)\<rparr>
           in queue_watch w (target_child p nm) (coverage_mask (scope_interest st6 s)) st6) (\<lambda>st7. Some (healed, st7)) = Some z"
        by (auto simp: install_child_def r Let_def split: bind_splits)
      from q show ?thesis
        by (intro that [OF n2]) (auto simp: Let_def i shape_def split: bind_splits)
    qed
    have "core st3 = core st2" using n2(2) by (auto simp: next_arm_attempt_def split: option.splits)
    from wpD [OF keep_queue_watch [OF installed [OF p1 w n2(1) this n]] q] show ?thesis .
  qed (use p z in \<open>auto simp: install_child_def split: if_splits\<close>)
qed

lemma keep_install_to: "P st \<Longrightarrow> wp (install_to p s nm d i st) P"
  by (simp add: install_to_def keep_install)

lemma keep_rearm_child: "P st \<Longrightarrow> wp (rearm_child p nm st) P"
  by (auto simp: rearm_child_def intro!: keep_rearm_to split: option.splits)

text \<open>A watch taken out of its slot is loose.\<close>

lemma keep_retire_loose:
  assumes p: "P st" and l: "loose st c" and w: "is_watched_node st c"
  shows "wp (retire_arm c st) (\<lambda>st'. P st' \<and> loose st' c \<and> is_watched_node st' c)"
proof (rule wpI)
  fix x assume x: "retire_arm c st = Some x"
  then obtain a st3 where a: "next_arm_attempt st = Some (a, st3)" "x = arm_node c a st3"
    by (auto simp: retire_arm_def adopt_arm_def split: bind_splits)
  have c3: "core st3 = core st" using a(1) by (auto simp: next_arm_attempt_def split: option.splits)
  have "prunes st3 x" unfolding a(2) arm_node_def by (rule prunes_upd) simp
  then have "prunes st x" by (rule prunes_trans [OF prunes_core [OF c3]])
  moreover have "is_watched_node x c"
    using w core_readings [OF c3, of c] by (simp add: a(2) arm_node_def is_watched_node_def node_of_upd)
  ultimately show "P x \<and> loose x c \<and> is_watched_node x c"
    using wpD [OF keep_retire_arm [OF p] x] loose_prunes l by blast
qed

lemma vacated_loose:
  assumes p: "P st" and c: "child_watch st par nm = Some c"
  shows "loose (vacate_child_slot par nm st) c"
proof -
  from indexed [OF p c] obtain n where n: "node_of st c = Some n" "slot_of n = Some (par, nm)" by blast
  have "unindexed (vacate_child_slot par nm st) c"
    using indexed [OF p] n by (fastforce simp: unindexed_def child_watch_def)
  moreover have "c \<notin> ran (held_of st)"
    using held [OF p] c by (auto simp: ran_def unindexed_def child_watch_def)
  moreover have "node_of (vacate_child_slot par nm st) c = Some n" using n by (simp add: node_of_def)
  ultimately show ?thesis
    using n by (auto simp: loose_def is_root_watch_def held_of_def slot_of_def split: option.splits)
qed

lemma keep_detach:
  assumes p: "P st" and c: "child_watch st par nm = Some c"
  shows "wp (detach_child c st) (\<lambda>st'. P st' \<and> loose st' c \<and> is_watched_node st' c)"
proof -
  from indexed [OF p c] obtain n where n: "node_of st c = Some n" "slot_of n = Some (par, nm)" by blast
  define st1 where "st1 = vacate_child_slot par nm st"
  have l1: "loose st1 c" unfolding st1_def by (rule vacated_loose [OF p c])
  have n1: "node_of st1 c = Some n" using n by (simp add: st1_def node_of_def)
  define st2 where "st2 = moved_placement c st1"
  have p2: "P st2" by (simp add: st2_def st1_def keep_moved_placement keep_vacate p)
  have pr: "prunes st1 (st1\<lparr>mo_placement_clock := now\<rparr>)" for now by (rule prunes_fields) simp_all
  have "prunes st1 st2"
    unfolding st2_def moved_placement_def Let_def by (rule prunes_trans [OF pr prunes_upd]) simp
  then have l2: "loose st2 c" by (rule loose_prunes [OF _ l1])
  have w2: "is_watched_node st2 c"
    using n1 by (simp add: is_watched_node_def st2_def moved_placement_def Let_def node_of_upd) (simp add: node_of_def)
  show ?thesis
    using p2 l2 w2 keep_retire_loose [OF p2 l2 w2]
    by (simp add: detach_child_def n st1_def [symmetric] st2_def [symmetric] Let_def
        split: option.split node_state.split)
qed

text \<open>A reparented watch is a loose one, or the root that a wider one adopts.\<close>

lemma keep_reparent:
  assumes p: "P st" and l: "loose st c" and d: "can_reparent st c par"
  shows "wp (reparent c par nm flavor st) (\<lambda>z. P (snd z))"
proof -
  have rel: "(par, c) \<notin> (parent_rel st)\<^sup>*"
    using d not_descendant by (simp add: can_reparent_def)
  define body where "body inherit x = (if \<not> is_watched_node x c \<or> \<not> is_watched_node x par then Some (False, x)
      else do { let st1 = relink c par nm x;
                let st2 = (if flavor = FlavorMoved then moved_placement c st1 else st1);
                st3 \<leftarrow> (if inherit then rearm_to c st2 else Some st2);
                st4 \<leftarrow> readdress_outstanding_arm c st3;
                Some (True, st4) })" for inherit x
  have body: "wp (body inherit x) (\<lambda>z. P (snd z))"
    if "P x" "prunes st x" "child_watch x par nm = None" for x inherit
  proof (cases "is_watched_node x c \<and> is_watched_node x par")
    case True
    have "(par, c) \<notin> (parent_rel x)\<^sup>*"
      using rel rtrancl_mono [OF prunes_parents [OF that(2)]] by blast
    from relinked [OF that(1) loose_prunes [OF that(2) l] _ _ that(3) this] True
    show ?thesis
      by (auto simp: body_def Let_def intro!: bind_s keep_rearm_to keep_readdress keep_moved_placement)
  qed (use that in \<open>auto simp: body_def\<close>)
  show ?thesis
  proof (cases "child_watch st par nm")
    case None
    with body [OF p prunes_refl None, of False] show ?thesis by (simp add: reparent_def body_def)
  next
    case (Some stale)
    have ne: "stale \<noteq> c" using Some l by (auto simp: loose_def unindexed_def child_watch_def)
    have "wp (drop_to stale CoveringRescan st) (\<lambda>x. P x \<and> prunes st x \<and> child_watch x par nm = None)"
    proof (rule wpI)
      fix x assume x: "drop_to stale CoveringRescan st = Some x"
      have px: "P x" and pr: "prunes st x" and g: "\<not> is_watched_node x stale"
        using wpD [OF keep_drop_to [OF p] x] wpD [OF prunes_drop x] wpD [OF drop_gone x] by simp_all
      have "child_watch x par nm \<noteq> Some c'" for c'
        using indexed [OF px, of par nm c'] pr g Some
        by (auto simp: prunes_def child_watch_def is_watched_node_def)
      then show "P x \<and> prunes st x \<and> child_watch x par nm = None" using px pr by blast
    qed
    then have "wp (drop_to stale CoveringRescan st) (\<lambda>x. wp (body inherit x) (\<lambda>z. P (snd z)))" for inherit
      by (rule wp_mono) (use body in blast)
    then show ?thesis using ne by (simp add: reparent_def Some wp_bind body_def)
  qed
qed

section \<open>Slots and stats\<close>

lemma keep_queue_stat: "P st \<Longrightarrow> wp (queue_stat p s nm st) P"
  by (auto simp: queue_stat_def Let_def intro!: bind_p keep_req_id split: option.splits)

lemma keep_apply_descent: "P st \<Longrightarrow> wp (apply_descent w d st) P"
  by (auto simp: apply_descent_def intro!: keep_start_reinstall keep_rearm_to split: stat_descent.splits)

lemma case_p: "P (snd z) \<Longrightarrow> (\<And>a st. P st \<Longrightarrow> wp (f a st) Q) \<Longrightarrow> wp (case z of (a, st) \<Rightarrow> f a st) Q"
  by (cases z) simp

lemma keep_reconcile: "P st \<Longrightarrow> wp (reconcile_slot p s nm occ replaced i st) (\<lambda>z. P (snd z))"
  by (auto simp: reconcile_slot_def Let_def
      intro!: bind_t bind_p bind_s case_p keep_drop_to keep_install keep_rearm_to keep_queue_stat keep_departed
      split: slot_occupant.splits option.splits)

lemma keep_reconcile_to: "P st \<Longrightarrow> wp (reconcile_to p s nm occ replaced i st) P"
  by (simp add: reconcile_to_def keep_reconcile)

lemma keep_settle_stat: "P st \<Longrightarrow> wp (settle_stat_slot s p nm incumbent descent deliver st) P"
  by (auto simp: settle_stat_slot_def Let_def intro!: bind_s keep_apply_descent keep_rescan_to keep_rearm_to
      split: option.splits)

lemma keep_stat_verdict: "P st \<Longrightarrow> wp (stat_verdict slot dark incumbent stale res st) (\<lambda>z. P (snd z))"
  by (auto simp: stat_verdict_def Let_def intro!: bind_p bind_s keep_reconcile keep_rearm_to
      split: stat_result.splits option.splits)

lemma keep_stat_result: "P st \<Longrightarrow> wp (on_stat_result req res st) P"
proof -
  assume p: "P st"
  have "wp (ingest_stat_result req res st) P"
    using p by (auto simp: ingest_stat_result_def Let_def 
        intro!: bind_p bind_s case_p keep_stat_verdict keep_rescan_to keep_settle_stat split: option.splits)
  then show ?thesis by (auto simp: on_stat_result_def intro!: bind_s keep_settle)
qed

end

end
