(* ===== verification/Monitor_Keeps.thy ===== *)
theory Monitor_Keeps
  imports Monitor_Inv
begin

text \<open>
  The operations a driver calls keep every invariant that meets the interface of \<open>Monitor_Inv\<close>: results of
  enumerations and arms, roots and their widening, losses, moves and records, and \<open>step_keeps\<close> for all of
  them at once. Taking an event off the queue is the one operation left to the invariant's owner.
\<close>

context monitor_invariant
begin

section \<open>Enumerations\<close>

lemma keep_incomplete: "P st \<Longrightarrow> wp (handle_incomplete_enumerate d s es attempts deliver reprove st) P"
  by (auto simp: handle_incomplete_enumerate_def incomplete_entry_def reprove_or_rearm_def Let_def
      intro!: bind_s fold_s keep_reconcile_to keep_start_reinstall keep_rearm_to keep_rescan_to
        keep_queue_enumerate keep_release_to)

lemma keep_crawl_child: "P (snd (snd acc)) \<Longrightarrow> wp (crawl_child d present unsettled reprove c acc) (\<lambda>z. P (snd (snd z)))"
  by (cases acc) (auto simp: crawl_child_def Let_def intro!: keep_start_reinstall keep_rearm_to keep_drop_to)

lemma keep_crawl_install: "P st \<Longrightarrow> wp (crawl_install d s e st) P"
  by (auto simp: crawl_install_def Let_def intro!: bind_s keep_install_to keep_rearm_to split: option.splits)

lemma keep_crawl_unknown: "P st \<Longrightarrow> wp (crawl_unknown d s reprove e st) P"
  by (auto simp: crawl_unknown_def intro!: bind_s keep_reconcile_to)

lemma keep_rearm_enumerate: "P st \<Longrightarrow> wp (rearm_enumerate d s res reprove st) P"
  by (auto simp: rearm_enumerate_def Let_def
      intro!: bind_t bind_s fold_s fold_t keep_crawl_child keep_crawl_install keep_crawl_unknown keep_rescan_to)

lemma keep_resolve_adoption: "P st \<Longrightarrow> wp (resolve_adoption d s hold res st) P"
  by (auto simp: resolve_adoption_def intro!: bind_s keep_release_to keep_rescan_to keep_counted_cover
      keep_retire_adopted split: option.splits)

lemma keep_cold_entry: "P st \<Longrightarrow> wp (cold_entry d s e st) P"
  by (auto simp: cold_entry_def Let_def intro!: bind_s keep_emit_to keep_reconcile_to)

text \<open>A read that answers takes its directory out of the enumerating state.\<close>

lemma keep_answered:
  assumes "P st" and "node_of st d = Some n" and "wn_state n = Enumerating req ek a b"
  shows "P (set_state d Live (snd (fence_lowering d stamp
    (st\<lparr>mo_pending_enumerate := (mo_pending_enumerate st)(req := None)\<rparr>))))"
  by (rule core_P [OF core_set_state_cong [OF core_fence] leave_enum [OF assms(1)]])
    (auto simp: state_of_def assms)

lemma keep_orphan: "P st \<Longrightarrow> mo_pending_enumerate st req = Some w \<Longrightarrow>
    (\<And>n ek a b. node_of st w = Some n \<Longrightarrow> wn_state n \<noteq> Enumerating req ek a b) \<Longrightarrow>
    P (st\<lparr>mo_pending_enumerate := (mo_pending_enumerate st)(req := None)\<rparr>)"
  by (rule orphan) (auto simp: state_of_def)

lemma keep_enumerate: "P st \<Longrightarrow> wp (on_enumerate req res st) P"
proof -
  assume p: "P st"
  define st1 where "st1 = latent_remove req st"
  have p1: "P st1" using p by (simp add: st1_def)
  define st2 where "st2 = st1\<lparr>mo_pending_enumerate := (mo_pending_enumerate st1)(req := None)\<rparr>"
  have n2: "node_of st2 d = node_of st1 d" for d by (simp add: st2_def node_of_def)
  have "wp (ingest_enumerate req res st) P"
  proof (cases "mo_pending_enumerate st1 req")
    case (Some d)
    note pend = Some
    show ?thesis
    proof (cases "\<exists>n ek a b. node_of st1 d = Some n \<and> wn_state n = Enumerating req ek a b")
      case False
      then have "P st2" unfolding st2_def using keep_orphan [OF p1 pend] by blast
      with False show ?thesis
        by (auto simp: ingest_enumerate_def st1_def [symmetric] st2_def [symmetric] Let_def pend n2
            split: option.splits node_state.splits)
    next
      case True
      then obtain n ek a b where n: "node_of st1 d = Some n" "wn_state n = Enumerating req ek a b" by blast
      obtain lw st3 where f: "fence_lowering d (wn_placement n) st2 = (lw, st3)" by fastforce
      have p4: "P (set_state d Live st3)"
        using keep_answered [OF p1 n, of "wn_placement n"] f by (simp add: st2_def)
      show ?thesis
        using p4 by (auto simp: ingest_enumerate_def st1_def [symmetric] st2_def [symmetric] Let_def pend n2 n f
            intro!: bind_s fold_s keep_incomplete keep_resolve_adoption keep_rearm_enumerate keep_cold_entry
            split: enum_kind.splits)
    qed
  qed (simp add: ingest_enumerate_def st1_def [symmetric] p1 Let_def)
  then show ?thesis by (auto simp: on_enumerate_def intro!: bind_s keep_settle)
qed

section \<open>Roots that end and acknowledged arms\<close>

lemma keep_invalidate: "P st \<Longrightarrow> wp (invalidate_root s w st) P"
  by (auto simp: invalidate_root_def intro!: bind_s keep_drop_to keep_moves)

lemma keep_rebuild_slot: "P st \<Longrightarrow> wp (cover_and_rebuild_slot s p nm d i st) P"
  by (auto simp: cover_and_rebuild_slot_def intro!: bind_s keep_rescan_to keep_install_to keep_rearm_child)

lemma keep_retire_unprovable: "P st \<Longrightarrow> wp (retire_unprovable_binding w s lw st) P"
  by (auto simp: retire_unprovable_binding_def intro!: bind_s keep_rescan_to keep_invalidate keep_drop_to
      keep_rebuild_slot split: option.splits)

lemma keep_ack_failed: "P st \<Longrightarrow> wp (ack_failed w s lw st) P"
  by (auto simp: ack_failed_def intro!: bind_s keep_drop_to keep_rescan_to keep_invalidate split: option.splits)

lemma keep_ack_ok: "P st \<Longrightarrow> node_of st w = Some n \<Longrightarrow> wp (ack_ok w s d (wn_state n) ack st) P"
proof -
  assume p: "P st" and n: "node_of st w = Some n"
  show ?thesis
  proof (cases "wn_state n")
    case (Arming rearm reprove)
    have live: "P (set_state w Live x)" if "core x = core st" for x
    proof (rule rest_node [OF core_P [OF that p]])
      show "node_of x w = Some n" using core_readings [OF that, of w] n by simp
    qed (simp_all add: Arming)
    have e: "P (set_state w Live (x\<lparr>mo_reprove_stamps := m\<rparr>))" if "core x = core st" for x m
      by (rule live) (simp add: that)
    show ?thesis
      using p by (auto simp: ack_ok_def Arming Let_def live e intro!: keep_queue_reinstall keep_queue_enumerate
          keep_start_rearm)
  qed (use p in \<open>simp_all add: ack_ok_def\<close>)
qed

lemma keep_watch_result: "P st \<Longrightarrow> wp (on_watch_result w attempt res st) P"
proof -
  assume p: "P st"
  have "wp (ingest_watch_result w attempt res st) P"
  proof (cases "node_of st w")
    case (Some n)
    obtain lw st1 where f: "fence_lowering w (wn_placement n) st = (lw, st1)" by fastforce
    have "P (snd (fence_lowering w (wn_placement n) st))" using p by simp
    with f have p1: "P st1" by simp
    have n1: "node_of st1 w = Some n"
      using core_readings [OF core_fence [of w "wn_placement n" st], of w] Some f by simp
    show ?thesis
      using p p1 keep_ack_ok [OF p1 n1]
      by (auto simp: ingest_watch_result_def Some f Let_def intro!: keep_retire_unprovable keep_readdress
          keep_ack_failed split: sum.splits)
  qed (simp add: ingest_watch_result_def p)
  then show ?thesis by (auto simp: on_watch_result_def intro!: bind_s keep_settle)
qed

section \<open>Roots\<close>

lemma keep_register: "P st \<Longrightarrow> wp (register_root_with_profile s msk caps st) (\<lambda>z. P (snd z))"
proof (rule wpI)
  fix z assume p: "P st" and z: "register_root_with_profile s msk caps st = Some z"
  show "P (snd z)"
  proof (cases "root_of st s")
    case None
    from z None obtain w st1 a st2 st3 st6 where n: "next_watch_id st = Some (w, st1)"
        "next_arm_attempt st1 = Some (a, st2)" and st3: "st3 = st2\<lparr>mo_scope_interests := (mo_scope_interests st2)(s \<mapsto> msk),
          mo_scope_profiles := (mo_scope_profiles st2)(s \<mapsto> caps)\<rparr>"
        and q: "queue_watch w (RootTarget s) (coverage_mask msk) (bridge_bootstrap s
          ((insert_node w (new_root_node s a True st3) st3)\<lparr>mo_roots := btm_insert s w
            (mo_roots (insert_node w (new_root_node s a True st3) st3))\<rparr>)) = Some st6" and "snd z = st6"
      by (auto simp: register_root_with_profile_def Let_def split: bind_splits)
    have c3: "core st3 = core st1"
      using n(2) by (auto simp: next_arm_attempt_def st3 split: option.splits)
    have r: "mo_roots (insert_node w n st3) = mo_roots st3" for n
      by (simp add: insert_node_def Let_def bridge_fresh_rearm_def bridge_set_def rearm_pending_inc_def
          acquired_coverage_work_def)
    have "P ((insert_node w (new_root_node s a True st3) st3)\<lparr>mo_roots := btm_insert s w (mo_roots st3)\<rparr>)"
      by (rule registered [OF p None n(1) c3]) (simp add: shape_def new_root_node_def)
    then have "P (bridge_bootstrap s ((insert_node w (new_root_node s a True st3) st3)\<lparr>mo_roots := btm_insert s w
            (mo_roots (insert_node w (new_root_node s a True st3) st3))\<rparr>))" by (simp add: r)
    from wpD [OF keep_queue_watch [OF this] q] \<open>snd z = st6\<close> show ?thesis by simp
  qed (use p z in \<open>auto simp: register_root_with_profile_def\<close>)
qed

lemma keep_reprofile: "P st \<Longrightarrow> P (reprofile_root s caps st)"
  by (simp add: reprofile_root_def Let_def split: option.split)

lemma keep_unregister: "P st \<Longrightarrow> wp (unregister_root s st) P"
  by (auto simp: unregister_root_def Let_def intro!: bind_s keep_drop_root keep_settle keep_moves split: option.splits)

lemma keep_drop_watch: "P st \<Longrightarrow> wp (drop_watch_subtree w st) (\<lambda>z. P (snd z))"
  by (auto simp: drop_watch_subtree_def intro!: bind_p keep_drop_to keep_settle split: option.splits)

lemma keep_rearm_watch: "P st \<Longrightarrow> wp (rearm_watch_subtree w st) (\<lambda>z. P (snd z))"
  by (auto simp: rearm_watch_subtree_def intro!: bind_s bind_p keep_rescan_to keep_inherit_rearm keep_settle
      split: option.splits node_state.splits bool.splits)

text \<open>A rebound root is armed anew, whatever it was doing.\<close>

lemma keep_rebound_state: "P st \<Longrightarrow> P (set_state w (Arming True False) (case state_of st w of
    Some (Enumerating req _ _ _) \<Rightarrow> forget_enumerate req st | _ \<Rightarrow> st))"
proof (cases "state_of st w")
  case None
  then have n: "node_of st w = None" by (simp add: state_of_def)
  assume "P st"
  with n None show ?thesis by (simp add: set_state_def)
next
  case (Some ns)
  assume p: "P st"
  show ?thesis
  proof (cases ns)
    case (Enumerating req ek a b)
    then show ?thesis using keep_forgotten_state [OF p] Some by simp
  qed (use Some p rest_state [OF p Some] in simp_all)
qed

lemma keep_rebind: "P st \<Longrightarrow> wp (rebind_monitor_root s st) (\<lambda>z. P (snd z))"
  by (cases "root_of st s")
    (auto simp: rebind_monitor_root_def Let_def shape_def
      intro!: bind_s bind_p fold_s keep_drop_to keep_moves keep_release_to keep_settle keep_adopt_arm
        keep_moved_placement keep_rebound_state upd [of _ "\<lambda>n. n\<lparr>wn_identity := None\<rparr>"])

section \<open>Widening\<close>

lemma keep_widen:
  assumes p: "P st" and m: "minted_watch st w" and fresh: "w \<notin> ran (held_of st)"
  shows "wp (widen_root s w chain ident st) (\<lambda>z. P (snd z))"
proof (rule wpI)
  fix z assume z: "widen_root s w chain ident st = Some z"
  show "P (snd z)"
  proof (cases "root_of st s = None \<or> \<not> scope_descends st s \<or> length chain \<noteq> 1 \<or> is_watched_node st w \<or> ident = None")
    case True
    then show ?thesis using z p by (auto simp: widen_root_def split: option.splits if_splits)
  next
    case False
    then obtain root i where r: "root_of st s = Some root" and nw: "\<not> is_watched_node st w" and
        i: "ident = Some i" and cond: "scope_descends st s" "length chain = 1"
      by auto
    from z obtain a st1 st3 st7 linked where n: "next_arm_attempt st = Some (a, st1)"
      and rp: "reparent root w (hd chain) FlavorRerooted (insert_node w (new_root_node s a False st1) st1) = Some (linked, st3)"
      and sb: "linked" "settle_bridges (record_adoption_marker w (hd chain) root i s
          ((upd_node root (\<lambda>n. n\<lparr>wn_identity := Some i\<rparr>) st3)\<lparr>mo_roots := btm_insert s w (mo_roots st3)\<rparr>)) = Some st7"
        "snd z = st7"
      by (auto simp: widen_root_def r nw i cond Let_def upd_node_fields split: bind_splits if_splits)
    have c1: "core st1 = core st" using n by (auto simp: next_arm_attempt_def split: option.splits)
    note same = core_readings [OF c1]
    define st2 where "st2 = insert_node w (new_root_node s a False st1) st1"
    have f2: "mo_child_index st2 = mo_child_index st1" "mo_roots st2 = mo_roots st1"
        "node_of st2 = (node_of st1)(w \<mapsto> new_root_node s a False st1)"
      by (simp_all add: st2_def insert_node_def new_root_node_def node_of_def fun_eq_iff)
    have none: "child_watch st2 w (hd chain) = None"
    proof (rule ccontr)
      assume "child_watch st2 w (hd chain) \<noteq> None"
      then obtain c where "child_watch st w (hd chain) = Some c" using same by (auto simp: child_watch_def f2)
      from indexed [OF p this] nw show False by simp
    qed
    have "is_watched_node st2 root" "is_watched_node st2 w"
      using rooted [OF p r] same by (auto simp: is_watched_node_def f2)
    with rp none have rd: "readdress_outstanding_arm root (relink root w (hd chain) st2) = Some st3"
      by (auto simp: reparent_def st2_def [symmetric] Let_def split: bind_splits)
    have "P ((relink root w (hd chain) st2)\<lparr>mo_roots := btm_insert s w (mo_roots st1)\<rparr>)"
      unfolding st2_def
    proof (rule widened)
      show "P st1" by (rule core_P [OF c1 p])
      show "root_of st1 s = Some root" "\<not> is_watched_node st1 w" "minted_watch st1 w" "w \<notin> ran (held_of st1)"
        using same r nw m fresh by (simp_all add: is_watched_node_def)
    qed (simp add: shape_def new_root_node_def)
    from keep_readdress [OF this, of root] have "P (st3\<lparr>mo_roots := btm_insert s w (mo_roots st1)\<rparr>)"
      using readdress_roots [of root _ "relink root w (hd chain) st2"] rd by simp
    moreover have "mo_roots st3 = mo_roots st1"
      using wpD [OF readdress_keeps_roots rd] f2 relink_roots [of root w "hd chain" st2] by simp
    moreover have "(upd_node root g st3)\<lparr>mo_roots := rs\<rparr> = upd_node root g (st3\<lparr>mo_roots := rs\<rparr>)" for g rs
      by (simp add: upd_node_def)
    ultimately have "P ((upd_node root (\<lambda>n. n\<lparr>wn_identity := Some i\<rparr>) st3)\<lparr>mo_roots := btm_insert s w (mo_roots st3)\<rparr>)"
      by (simp add: upd shape_def)
    then show ?thesis using wpD [OF keep_settle sb(2)] sb(3) by simp
  qed
qed

section \<open>Losses\<close>

lemma keep_stat_loss: "P st \<Longrightarrow> wp (cover_stat_loss s st) (\<lambda>z. P (snd z))"
  by (auto simp: cover_stat_loss_def intro!: bind_s keep_rescan_to keep_settle)

lemma keep_resignal_interior: "P (snd acc) \<Longrightarrow> wp (resignal_interior s d acc) (\<lambda>z. P (snd z))"
  by (cases acc) (auto simp: resignal_interior_def intro!: bind_s keep_rescan_to keep_heal_kick split: option.splits)

lemma keep_resignal_slot: "P (snd acc) \<Longrightarrow> wp (resignal_slot s hole acc) (\<lambda>z. P (snd z))"
  by (cases acc; cases hole)
    (auto simp: resignal_slot_def intro!: bind_s keep_rescan_to keep_heal_kick split: option.splits)

lemma bind_acc: "wp m (\<lambda>z. P (snd z)) \<Longrightarrow> (\<And>x. P (snd x) \<Longrightarrow> wp (f x) Q) \<Longrightarrow> wp (Option.bind m f) Q"
  by (cases m) simp_all

lemma keep_resignal: "P st \<Longrightarrow> wp (resignal_coverage_deficits s st) (\<lambda>z. P (snd z))"
proof -
  assume p: "P st"
  have i: "wp (fold_opt (resignal_interior s) xs (False, st)) (\<lambda>z. P (snd z))" for xs
    by (rule fold_p) (simp_all add: p keep_resignal_interior)
  have "wp (resignal_deficits s st) (\<lambda>z. P (snd z))"
    using p by (auto simp: resignal_deficits_def
        intro!: bind_s bind_p bind_acc [OF i] fold_p keep_resignal_slot keep_rescan_to keep_heal_kick
        split: option.splits)
  then show ?thesis by (auto simp: resignal_coverage_deficits_def intro!: bind_p keep_settle)
qed

lemma keep_rescan_and_rearm: "P st \<Longrightarrow> wp (rescan_and_rearm s d st) P"
  by (auto simp: rescan_and_rearm_def intro!: bind_s keep_rescan_to keep_start_rearm)

lemma keep_overflow_root: "P st \<Longrightarrow> wp (overflow_root e st) P"
  by (auto simp: overflow_root_def scope_loss_recovery_def Let_def
      intro!: bind_s keep_rescan_to keep_start_reinstall keep_rescan_and_rearm)

lemma keep_overflow_subtree: "P st \<Longrightarrow> wp (overflow_subtree sub st) (\<lambda>z. P (snd z))"
  by (auto simp: overflow_subtree_def Let_def dirtied
      intro!: bind_s bind_p keep_rescan_to keep_start_rearm split: option.splits)

lemma keep_overflow: "P st \<Longrightarrow> wp (on_overflow sc st) (\<lambda>z. P (snd z))"
  by (auto simp: on_overflow_def intro!: bind_p bind_s fold_s keep_overflow_root keep_overflow_subtree keep_settle
      split: scope.splits option.splits)

lemma keep_report_loss: "P st \<Longrightarrow> wp (report_loss s st) (\<lambda>z. P (snd z))"
  by (auto simp: report_loss_def intro!: bind_p keep_rescan keep_settle split: option.splits)

lemma keep_cover_domination: "P st \<Longrightarrow> wp (cover_domination sc st) (\<lambda>z. P (snd z))"
  by (auto simp: cover_domination_def intro!: keep_mint split: scope.splits option.splits)

section \<open>Moves\<close>

lemma keep_lost_source: "P st \<Longrightarrow> wp (resolve_lost_source s from d pv st) P"
  by (simp add: resolve_lost_source_def keep_emit_to)

lemma keep_stored_half: "P st \<Longrightarrow> wp (resolve_stored_half p st) P"
  by (auto simp: resolve_stored_half_def intro!: bind_s keep_drop_to keep_lost_source keep_rescan_to
      split: option.splits)

lemma keep_take: "P st \<Longrightarrow> take_move k st = (r, st') \<Longrightarrow> P st'"
  using keep_moves(1) [of st k] by simp

text \<open>The watch of a move just taken is loose.\<close>

lemma taken_loose:
  assumes p: "P st" and t: "take_move k st = (Some pm, st')" and c: "pm_held pm = Some c"
  shows "loose st' c"
proof -
  have st': "st' = snd (take_move k st)" using t by simp
  have h: "held_of st k = Some c" using t c by (simp add: take_move_def held_of_def)
  from held [OF p h] have "unindexed st c" "\<not> is_root_watch st c" "\<And>k'. held_of st k' = Some c \<Longrightarrow> k' = k" by auto
  then show ?thesis
    by (auto simp: loose_def st' held_of_take ran_def unindexed_def is_root_watch_def split: if_splits)
      (simp_all add: take_move_def node_of_def)
qed

lemma keep_expire: "P st \<Longrightarrow> wp (expire_move k st) P"
  by (cases "take_move k st") (auto simp: expire_move_def intro!: keep_stored_half dest: keep_take split: option.splits)

lemma keep_timeout: "P st \<Longrightarrow> wp (handle_timeout now st) P"
  by (auto simp: handle_timeout_def intro!: bind_s fold_s keep_expire keep_settle)

lemma keep_consume: "P st \<Longrightarrow> wp (consume_pending_move s c st) P"
  by (cases "take_move (s, c) st")
    (auto simp: consume_pending_move_def intro!: bind_s keep_stored_half keep_settle dest: keep_take split: option.splits)

lemma keep_park:
  assumes "P st" and "\<And>c. pm_held pm = Some c \<Longrightarrow> loose st c \<and> is_watched_node st c"
  shows "P (snd (park_pending_move s k pm st))"
  using parked [OF assms, of _ "(s, k)"] by (simp add: park_pending_move_def Let_def)

text \<open>The source of a move leaves its slot and waits.\<close>

definition waits :: "watch_id option \<Rightarrow> monitor \<Rightarrow> bool" where
  "waits src st \<longleftrightarrow> P st \<and> (\<forall>c. src = Some c \<longrightarrow> loose st c \<and> is_watched_node st c)"

lemma waits_core: "core x = core y \<Longrightarrow> waits src y \<Longrightarrow> waits src x"
  using core_P [of x y] core_readings [of x y]
  by (auto simp: waits_def loose_def unindexed_def is_root_watch_def is_watched_node_def)

lemma keep_held_source:
  assumes p: "P st" and src: "\<And>c. src = Some c \<Longrightarrow> \<exists>par nm. child_watch st par nm = Some c"
  shows "wp (case src of None \<Rightarrow> Some st
      | Some w \<Rightarrow> do { st1 \<leftarrow> detach_child w st;
          let st2 = hold_source w s st1;
          Some (if scope_needs_reproof st2 s \<and> \<not> rearm_settled st2 s then book_hold w st2 else st2) }) (waits src)"
proof (cases src)
  case (Some w)
  from src [OF Some] obtain par nm where "child_watch st par nm = Some w" by blast
  from keep_detach [OF p this] have "wp (detach_child w st) (waits src)"
    by (rule wp_mono) (simp add: waits_def Some)
  then have "wp (detach_child w st) (\<lambda>st1. waits src (if scope_needs_reproof (hold_source w s st1) s \<and>
      \<not> rearm_settled (hold_source w s st1) s then book_hold w (hold_source w s st1) else hold_source w s st1))"
    by (rule wp_mono) (auto intro: waits_core [rotated])
  then show ?thesis by (simp add: Some wp_bind Let_def)
qed (simp add: waits_def p)

lemma keep_moved_from: "P st \<Longrightarrow> wp (on_moved_from s r now st) P"
proof -
  assume p: "P st"
  define src where "src = (case rec_name r of Some nm \<Rightarrow> child_watch st (rec_watch r) nm | None \<Rightarrow> None)"
  have fin: "wp (case park_pending_move s c pm x of (Some displaced, y) \<Rightarrow> resolve_stored_half displaced y
      | (None, y) \<Rightarrow> Some y) P"
    if "waits src x" "pm_held pm = src" for c pm x
    using keep_park [of x pm s c] that
    by (cases "park_pending_move s c pm x") (auto simp: waits_def intro!: keep_stored_half split: option.splits)
  have held: "wp (case src of None \<Rightarrow> Some st
      | Some w \<Rightarrow> do { st1 \<leftarrow> detach_child w st;
          let st2 = hold_source w s st1;
          Some (if scope_needs_reproof st2 s \<and> \<not> rearm_settled st2 s then book_hold w st2 else st2) }) (waits src)"
    using p by (rule keep_held_source) (auto simp: src_def split: option.splits)
  define dest where "dest = (case rec_cookie r of None \<Rightarrow> None | Some c \<Rightarrow> (case rec_target r of None \<Rightarrow> None
      | Some t \<Rightarrow> if admits_pending_move st s c then Some (c, t) else None))"
  show ?thesis
  proof (cases dest)
    case None
    show ?thesis
      unfolding on_moved_from_def src_def [symmetric] Let_def prod.case dest_def [symmetric] None option.case
      using p by (auto intro!: bind_s keep_lost_source keep_counted_cover keep_departed split: option.splits)
  next
    case (Some ct)
    obtain c t where ct: "ct = (c, t)" by fastforce
    show ?thesis
      unfolding on_moved_from_def src_def [symmetric] Let_def prod.case dest_def [symmetric] Some ct option.case prod.case wp_bind
      by (rule wp_mono [OF held [unfolded Let_def]]) (rule fin, simp_all)
  qed
qed

text \<open>The other half arrives.\<close>

lemma keep_emit_pair: "P st \<Longrightarrow> wp (emit_pair s to p class pv st) P"
  by (auto simp: emit_pair_def intro!: keep_emit_to split: option.splits)

lemma keep_dirty_pair: "P st \<Longrightarrow> wp (rescan_dirty_pair s p to st) P"
  by (auto simp: rescan_dirty_pair_def intro!: bind_s keep_rescan_to split: option.splits)

lemma keep_carry:
  assumes p: "P st0" and l: "loose st0 src"
  shows "wp (carry_source s r nm src pm to class paired reparenting renamed st0) (\<lambda>z. P (snd z))"
proof -
  define st1 where "st1 = release_source src s st0"
  define st where "st = st1\<lparr>mo_dirtied_holds := mo_dirtied_holds st1 - {src}\<rparr>"
  have c: "core st = core st0" by (simp add: st_def st1_def)
  have pst: "P st" using p by (simp add: st_def st1_def)
  have lst: "loose st src" by (rule loose_prunes [OF prunes_core [OF c] l])
  have rp: "wp (if can_reparent st src (rec_watch r) \<and> reparentable_adoption st src
      then reparent src (rec_watch r) nm FlavorMoved st else Some (False, st)) (\<lambda>z. P (snd z))"
    using keep_reparent [OF pst lst] pst by simp
  show ?thesis
    unfolding carry_source_def st1_def [symmetric] st_def [symmetric] Let_def
    by (rule bind_p [OF rp])
      (auto intro!: bind_s keep_emit_pair keep_dirty_pair keep_rescan_to keep_start_reinstall keep_rearm_to
        keep_apply_descent keep_drop_to keep_reconcile_to keep_rearm_child keep_counted_cover
        simp: Let_def split: option.splits)
qed

lemma keep_pair_in_window:
  assumes "P st" and "\<And>c. pm_held pm = Some c \<Longrightarrow> loose st c"
  shows "wp (pair_in_window s r now to pm st) (\<lambda>z. P (snd z))"
  using assms by (auto simp: pair_in_window_def Let_def intro!: bind_s keep_carry keep_emit_pair keep_dirty_pair
      keep_reconcile_to keep_counted_cover keep_drop_to split: option.splits)

lemma keep_pair_too_late: "P st \<Longrightarrow> wp (pair_too_late s r to p st) P"
  by (auto simp: pair_too_late_def Let_def intro!: bind_s keep_stored_half keep_emit_to keep_rescan_to
      keep_reconcile_to keep_rearm_child keep_counted_cover split: option.splits)

lemma keep_moved_to: "P st \<Longrightarrow> wp (on_moved_to s r now st) (\<lambda>z. P (snd z))"
proof -
  assume p: "P st"
  define taken where "taken = (case rec_cookie r of None \<Rightarrow> (None, st) | Some c \<Rightarrow> take_move (s, c) st)"
  have pt: "P (snd taken)" using p by (simp add: taken_def keep_moves split: option.split)
  have lt: "loose (snd taken) c" if "fst taken = Some pm" "pm_held pm = Some c" for pm c
  proof (cases "rec_cookie r")
    case (Some ck)
    then have "take_move (s, ck) st = (Some pm, snd taken)"
      using that(1) by (simp add: taken_def prod_eq_iff)
    then show ?thesis using that(2) by (rule taken_loose [OF p])
  qed (use that in \<open>simp add: taken_def\<close>)
  obtain pm x where t: "taken = (pm, x)" by fastforce
  have "P x" using pt t by simp
  then show ?thesis
    unfolding on_moved_to_def Let_def taken_def [symmetric] t
    using lt t by (cases pm) (auto intro!: keep_pair_in_window keep_pair_too_late bind_s keep_emit_to
        keep_reconcile_to split: option.splits)
qed

section \<open>Records\<close>

lemma keep_created: "P st \<Longrightarrow> wp (on_created s r st) P"
  by (auto simp: on_created_def emit_child_def intro!: bind_s keep_emit_to keep_reconcile_to split: option.splits)

lemma keep_removed: "P st \<Longrightarrow> wp (on_removed s r st) P"
  by (auto simp: on_removed_def emit_child_def intro!: bind_s keep_emit_to keep_reconcile_to split: option.splits)

lemma keep_move_self: "P st \<Longrightarrow> wp (on_move_self s r st) P"
  by (auto simp: on_move_self_def intro!: bind_s keep_rescan_to keep_invalidate keep_release_to split: option.splits)

lemma keep_delete_self: "P st \<Longrightarrow> wp (on_delete_self s r st) P"
  by (auto simp: on_delete_self_def intro!: bind_s keep_emit_to keep_rescan_to keep_invalidate keep_departed)

lemma keep_ignored: "P st \<Longrightarrow> wp (on_ignored s r st) P"
  by (auto simp: on_ignored_def Let_def intro!: bind_s keep_rescan_to keep_invalidate keep_drop_to
      keep_counted_cover keep_rebuild_slot split: option.splits)

lemma keep_dispatch: "P st \<Longrightarrow> wp (dispatch_record s r now st) (\<lambda>z. P (snd z))"
  by (cases "rec_kind r") (auto simp: dispatch_record_def emit_child_def intro!: keep_moved_to keep_created
      keep_removed keep_moved_from keep_move_self keep_delete_self keep_ignored keep_emit_to)

lemma keep_ingest: "P st \<Longrightarrow> wp (ingest_record r now st) (\<lambda>z. P (snd z))"
proof -
  assume p: "P st"
  have d: "P x \<Longrightarrow> P (mark_enumerate_dirty w x)" for x w by (rule dirtied)
  show ?thesis
    using p by (simp add: ingest_record_def Let_def d keep_dispatch keep_rescan_and_rearm split: option.split)
qed

lemma keep_record: "P st \<Longrightarrow> wp (on_os_record r now st) (\<lambda>z. P (snd z))"
  by (auto simp: on_os_record_def intro!: bind_p keep_ingest keep_settle)

section \<open>Every operation\<close>

lemma keep_pop: "P st \<Longrightarrow> P (snd (pop_action as st))"
proof (induction as st rule: pop_action.induct)
  case (2 a rest st)
  then show ?case
    by (auto simp: stamp_dispatch_def intro!: upd [of _ "\<lambda>n. n\<lparr>wn_placement := _\<rparr>"] simp: shape_def split: option.splits)
qed simp

theorem step_keeps:
  assumes p: "P st" and s: "mon_step op st = Some st'" and "op \<noteq> OpPollEvent"
    and "\<And>s w chain i. op = OpWiden s w chain i \<Longrightarrow> minted_watch st w \<and> w \<notin> ran (held_of st)"
  shows "P st'"
proof -
  have "wp (mon_step op st) P"
  proof (cases op)
    case (OpSeal s through)
    then show ?thesis by (simp add: keep_seal p)
  next
    case OpPollAction
    then show ?thesis by (simp add: poll_action_def keep_pop p)
  qed (use p assms(3,4) in \<open>auto simp: reserve_watch_id_def intro!: keep_register keep_reprofile keep_unregister keep_drop_watch
      keep_rearm_watch keep_rebind keep_watch_id keep_widen keep_stat_loss keep_resignal keep_record
      keep_stat_result keep_enumerate keep_watch_result keep_overflow keep_report_loss keep_cover_domination
      keep_timeout keep_consume\<close>)
  then show ?thesis using s by simp
qed

end

end
