(* ===== verification/Monitor_Tree.thy ===== *)
theory Monitor_Tree
  imports Monitor_Keeps
begin

text \<open>
  The tree of watches. \<open>tree_gen S T st\<close> says that the nodes, their children, the index of slots and the
  roots agree, that no watch lies above itself and that a watch held by a move is in no slot; the watches of
  \<open>S\<close> may hang from a parent that is gone, as they do while a subtree is dropped, and those of \<open>T\<close> may have
  neither a parent nor the rank of a root, as they do until they are linked. With no exception it is \<open>tree_ok\<close>,
  the tree part of the \<open>Monitor\<close>'s invariant.
\<close>

section \<open>The tree\<close>

lemma slot_of_Some: "slot_of n = Some (p, nm) \<longleftrightarrow> wn_parent n = Some p \<and> wn_name n = Some nm"
  by (auto simp: slot_of_def split: option.splits)

definition links where
  "links n = (wn_parent n, wn_name n, wn_scope n, wn_children n)"

definition held_ok :: "monitor \<Rightarrow> bool" where
  "held_ok st \<longleftrightarrow> (\<forall>mv c. held_of st mv = Some c \<longrightarrow> minted_watch st c \<and> unindexed st c \<and>
     \<not> is_root_watch st c \<and> (\<forall>mv'. held_of st mv' = Some c \<longrightarrow> mv' = mv))"

definition names_ok :: "monitor \<Rightarrow> bool" where
  "names_ok st \<longleftrightarrow> (\<forall>p nm c. child_watch st p nm = Some c \<longrightarrow> (\<exists>n. node_of st c = Some n \<and> slot_of n = Some (p, nm)))"

definition root_table_ok :: "watch_id set \<Rightarrow> watch_id set \<Rightarrow> monitor \<Rightarrow> bool" where
  "root_table_ok S T st \<longleftrightarrow>
     (\<forall>s w. root_of st s = Some w \<longrightarrow> (\<exists>n. node_of st w = Some n \<and> wn_parent n = None \<and> wn_scope n = s)) \<and>
     (\<forall>w n. node_of st w = Some n \<and> wn_parent n = None \<longrightarrow>
        root_of st (wn_scope n) = Some w \<or> (w \<in> S \<and> root_of st (wn_scope n) = None) \<or> w \<in> T)"

definition children_ok :: "watch_id set \<Rightarrow> monitor \<Rightarrow> bool" where
  "children_ok S st \<longleftrightarrow>
     (\<forall>c n p. node_of st c = Some n \<and> wn_parent n = Some p \<longrightarrow> wn_name n \<noteq> None \<and> (is_watched_node st p \<or> c \<in> S)) \<and>
     (\<forall>p n. node_of st p = Some n \<longrightarrow>
        sorted_wrt (<) (wn_children n) \<and> set (wn_children n) = {c. (c, p) \<in> parent_rel st})"

definition nodes_ok :: "monitor \<Rightarrow> bool" where
  "nodes_ok st \<longleftrightarrow> btm_ok (mo_nodes st) \<and> (\<forall>w. is_watched_node st w \<longrightarrow> minted_watch st w) \<and> acyclic (parent_rel st) \<and>
     (\<forall>w n. node_of st w = Some n \<and> wn_parent n = None \<longrightarrow> wn_name n = None)"

definition tree_gen :: "watch_id set \<Rightarrow> watch_id set \<Rightarrow> monitor \<Rightarrow> bool" where
  "tree_gen S T st \<longleftrightarrow> nodes_ok st \<and> root_table_ok S T st \<and> children_ok S st \<and> names_ok st \<and> held_ok st"

abbreviation tree_but :: "watch_id set \<Rightarrow> monitor \<Rightarrow> bool" where
  "tree_but S \<equiv> tree_gen S {}"

abbreviation tree_ok :: "monitor \<Rightarrow> bool" where
  "tree_ok \<equiv> tree_but {}"

section \<open>What the tree does not see\<close>

definition same_tree :: "monitor \<Rightarrow> monitor \<Rightarrow> bool" where
  "same_tree a b \<longleftrightarrow> map fst (mo_nodes a) = map fst (mo_nodes b) \<and>
     (\<forall>w. map_option links (node_of a w) = map_option links (node_of b w)) \<and>
     mo_child_index a = mo_child_index b \<and> root_of a = root_of b \<and> mo_watch_ids a = mo_watch_ids b \<and>
     held_of a = held_of b"

lemma same_tree_node: "same_tree a b \<Longrightarrow> map_option links (node_of a w) = map_option links (node_of b w)"
  by (simp add: same_tree_def)

lemma same_tree_Some:
  "same_tree a b \<Longrightarrow> node_of a w = Some n \<Longrightarrow> \<exists>n'. node_of b w = Some n' \<and> wn_parent n' = wn_parent n \<and>
     wn_name n' = wn_name n \<and> wn_scope n' = wn_scope n \<and> wn_children n' = wn_children n"
  using same_tree_node [of a b w] by (cases "node_of b w") (auto simp: links_def)

lemma same_tree_sym: "same_tree a b \<Longrightarrow> same_tree b a"
  by (simp add: same_tree_def)

lemma same_tree_parents: "same_tree a b \<Longrightarrow> parent_rel a = parent_rel b"
  using same_tree_Some [of a b] same_tree_Some [OF same_tree_sym, of a b]
  by (fastforce simp: parent_rel_def)

lemma same_tree_watched: "same_tree a b \<Longrightarrow> is_watched_node a w = is_watched_node b w"
  using same_tree_node [of a b w] by (cases "node_of a w"; cases "node_of b w") (auto simp: is_watched_node_def)

lemma tree_same:
  assumes s: "same_tree a b" and t: "tree_gen S T a"
  shows "tree_gen S T b"
proof -
  note backwards = same_tree_Some [OF same_tree_sym [OF s]]
  have k: "map fst (mo_nodes b) = map fst (mo_nodes a)" using s by (simp add: same_tree_def)
  have m: "minted_watch b = minted_watch a" and c: "child_watch b = child_watch a" and h: "held_of b = held_of a"
      and u: "unindexed b = unindexed a" and r: "root_of b = root_of a"
    using s by (auto simp: same_tree_def minted_watch_def child_watch_def unindexed_def fun_eq_iff)
  have w: "is_watched_node b = is_watched_node a" using same_tree_watched [OF s] by auto
  have i: "is_root_watch b v = is_root_watch a v" for v
    using same_tree_node [OF s, of v] by (auto simp: is_root_watch_def links_def split: option.splits)
  have p: "parent_rel b = parent_rel a" using same_tree_parents [OF s] by simp
  have n: "nodes_ok b"
    unfolding nodes_ok_def k w m p
  proof (intro conjI allI impI)
    show "wn_name n = None" if "node_of b w = Some n \<and> wn_parent n = None" for w n
      using t that backwards unfolding tree_gen_def nodes_ok_def by metis
  qed (use t in \<open>simp_all add: tree_gen_def nodes_ok_def\<close>)
  have ro: "root_table_ok S T b"
    unfolding root_table_ok_def r
  proof (intro conjI allI impI)
    show "\<exists>n. node_of b w = Some n \<and> wn_parent n = None \<and> wn_scope n = s" if "root_of a s = Some w" for s w
      using t that same_tree_Some [OF s] unfolding tree_gen_def root_table_ok_def by metis
    show "root_of a (wn_scope n) = Some w \<or> (w \<in> S \<and> root_of a (wn_scope n) = None) \<or> w \<in> T"
      if "node_of b w = Some n \<and> wn_parent n = None" for w n
      using t that backwards unfolding tree_gen_def root_table_ok_def by metis
  qed
  have ch: "children_ok S b"
    unfolding children_ok_def w p
  proof (intro conjI allI impI)
    show "wn_name n \<noteq> None" "is_watched_node a q \<or> c \<in> S" if "node_of b c = Some n \<and> wn_parent n = Some q" for c n q
      using t that backwards unfolding tree_gen_def children_ok_def by metis+
    show "sorted_wrt (<) (wn_children n)" "set (wn_children n) = {c. (c, q) \<in> parent_rel a}" if "node_of b q = Some n" for q n
      using t that backwards unfolding tree_gen_def children_ok_def by metis+
  qed
  have x: "names_ok b"
    unfolding names_ok_def c
  proof (intro allI impI)
    fix q nm v assume "child_watch a q nm = Some v"
    with t obtain n where n: "node_of a v = Some n" "slot_of n = Some (q, nm)"
      unfolding tree_gen_def names_ok_def by blast
    from same_tree_Some [OF s n(1)] n(2) show "\<exists>n. node_of b v = Some n \<and> slot_of n = Some (q, nm)"
      by (auto simp: slot_of_def split: option.splits)
  qed
  have "held_ok b" using t by (simp add: tree_gen_def held_ok_def h m u i)
  with n ro ch x show ?thesis by (simp add: tree_gen_def)
qed

lemma same_tree_core: "core a = core b \<Longrightarrow> same_tree a b"
  by (auto simp: same_tree_def core_def root_of_def node_of_def fun_eq_iff)

lemma same_tree_upd: "(\<And>n. links (f n) = links n) \<Longrightarrow> same_tree (upd_node w f st) st"
proof -
  assume "\<And>n. links (f n) = links n"
  then have "map_option links (node_of (upd_node w f st) v) = map_option links (node_of st v)" for v
    by (cases "node_of st v") (simp_all add: node_of_upd)
  then show ?thesis
    by (simp add: same_tree_def) (simp add: upd_node_def root_of_def fun_eq_iff comp_def case_prod_beta)
qed

lemma same_tree_trans: "same_tree a b \<Longrightarrow> same_tree b c \<Longrightarrow> same_tree a c"
  by (simp add: same_tree_def)

lemma same_tree_fields: "mo_nodes a = mo_nodes b \<Longrightarrow> mo_child_index a = mo_child_index b \<Longrightarrow> mo_roots a = mo_roots b \<Longrightarrow>
    mo_watch_ids a = mo_watch_ids b \<Longrightarrow> mo_pending_moves a = mo_pending_moves b \<Longrightarrow> same_tree a b"
  by (simp add: same_tree_def held_of_def root_of_def node_of_def fun_eq_iff)

lemma same_tree_set_state: "same_tree (set_state w ns st) st"
proof (cases "node_of st w")
  case (Some n)
  define st1 where "st1 = upd_node w (\<lambda>n. n\<lparr>wn_state := ns\<rparr>) st"
  have f: "mo_roots (bridge_set s g x) = mo_roots x" "mo_watch_ids (bridge_set s g x) = mo_watch_ids x"
      "mo_roots (rearm_pending_inc s x) = mo_roots x" "mo_roots (rearm_pending_dec s x) = mo_roots x"
      "mo_watch_ids (rearm_pending_inc s x) = mo_watch_ids x" "mo_watch_ids (rearm_pending_dec s x) = mo_watch_ids x"
    for s g x
    by (simp_all add: bridge_set_def rearm_pending_inc_def rearm_pending_dec_def acquired_coverage_work_def)
  have "same_tree (set_state w ns st) st1"
    by (rule same_tree_fields) (simp_all add: set_state_def Some st1_def [symmetric] bridge_fresh_rearm_def Let_def f)
  have "same_tree st1 st" unfolding st1_def by (rule same_tree_upd) (simp add: links_def)
  from same_tree_trans [OF \<open>same_tree (set_state w ns st) st1\<close> this] show ?thesis .
qed (simp add: set_state_def same_tree_core)

section \<open>Dropping\<close>

text \<open>What unlinking a node does, read off the maps.\<close>

lemma unlink_reads:
  shows "node_of (unlink_node w n st) v = (if v = w then None else map_option (\<lambda>x. if Some v = wn_parent n
      then x\<lparr>wn_children := bts_remove w (wn_children x)\<rparr> else x) (node_of st v))"
    and "map fst (mo_nodes (unlink_node w n st)) = filter (\<lambda>v. v \<noteq> w) (map fst (mo_nodes st))"
    and "root_of (unlink_node w n st) = (if wn_parent n = None then (root_of st)(wn_scope n := None) else root_of st)"
    and "mo_child_index (unlink_node w n st) = (\<lambda>k. if slot_of n = Some k \<and> mo_child_index st k = Some w then None
      else mo_child_index st k)"
    and "mo_watch_ids (unlink_node w n st) = mo_watch_ids st"
    and "held_of (unlink_node w n st) = held_of st"
proof -
  define st2 where "st2 = (let st1 = st\<lparr>mo_nodes := btm_remove w (mo_nodes st)\<rparr>
    in if is_rearm (wn_state n) then rearm_pending_dec (wn_scope n) st1 else st1)"
  have f: "mo_nodes st2 = btm_remove w (mo_nodes st)" "mo_child_index st2 = mo_child_index st"
      "mo_roots st2 = mo_roots st" "mo_watch_ids st2 = mo_watch_ids st" "mo_pending_moves st2 = mo_pending_moves st"
    by (simp_all add: st2_def Let_def rearm_pending_dec_def)
  have e: "unlink_node w n st = (case wn_parent n of
      None \<Rightarrow> st2\<lparr>mo_roots := btm_remove (wn_scope n) (mo_roots st2)\<rparr>
    | Some p \<Rightarrow> (let st3 = upd_node p (\<lambda>x. x\<lparr>wn_children := bts_remove w (wn_children x)\<rparr>) st2
        in case wn_name n of
             Some nm \<Rightarrow> if mo_child_index st3 (p, nm) = Some w then vacate_child_slot p nm st3 else st3
           | None \<Rightarrow> st3))"
    unfolding unlink_node_def st2_def Let_def ..
  have u: "mo_watch_ids (upd_node p g x) = mo_watch_ids x" "mo_watch_ids (vacate_child_slot p nm x) = mo_watch_ids x"
      "held_of (vacate_child_slot p nm x) = held_of x" for p g x nm
    by (simp_all add: upd_node_def vacate_child_slot_def upd_slot_stat_def upd_stat_def held_of_def split: option.split)
  have n: "node_of (vacate_child_slot p nm x) = node_of x" "node_of (x\<lparr>mo_roots := rs\<rparr>) = node_of x" for p nm x rs
    by (simp_all add: node_of_def fun_eq_iff)
  have n2: "node_of st2 v = (if v = w then None else node_of st v)" for v by (simp add: node_of_def f)
  show "node_of (unlink_node w n st) v = (if v = w then None else map_option (\<lambda>x. if Some v = wn_parent n
      then x\<lparr>wn_children := bts_remove w (wn_children x)\<rparr> else x) (node_of st v))"
    by (auto simp: e n n2 node_of_upd Let_def option.map_ident split: option.split cong: option.map_cong)
  have k: "map fst (mo_nodes (upd_node p g x)) = map fst (mo_nodes x)" for p g x
    by (simp add: upd_node_def comp_def case_prod_beta)
  show "map fst (mo_nodes (unlink_node w n st)) = filter (\<lambda>v. v \<noteq> w) (map fst (mo_nodes st))"
    by (simp add: e k f Let_def btm_remove_def filter_map comp_def split: option.split)
  show "root_of (unlink_node w n st) = (if wn_parent n = None then (root_of st)(wn_scope n := None) else root_of st)"
    by (auto simp: e f Let_def root_of_def fun_eq_iff split: option.split)
  show "mo_child_index (unlink_node w n st) = (\<lambda>k. if slot_of n = Some k \<and> mo_child_index st k = Some w then None
      else mo_child_index st k)"
    by (auto simp: e f Let_def slot_of_def fun_eq_iff split: option.split)
  show "mo_watch_ids (unlink_node w n st) = mo_watch_ids st" by (simp add: e f u Let_def split: option.split)
  show "held_of (unlink_node w n st) = held_of st"
    using u(3) by (simp add: e Let_def split: option.split) (simp add: held_of_def f)
qed

lemma tree_genD:
  assumes "tree_gen S T st"
  shows "btm_ok (mo_nodes st)" "is_watched_node st w \<Longrightarrow> minted_watch st w" "acyclic (parent_rel st)"
    "root_of st s = Some w \<Longrightarrow> \<exists>n. node_of st w = Some n \<and> wn_parent n = None \<and> wn_scope n = s"
    "node_of st w = Some n \<Longrightarrow> wn_parent n = None \<Longrightarrow>
      root_of st (wn_scope n) = Some w \<or> (w \<in> S \<and> root_of st (wn_scope n) = None) \<or> w \<in> T"
    "node_of st w = Some n \<Longrightarrow> wn_parent n = Some p \<Longrightarrow> wn_name n \<noteq> None \<and> (is_watched_node st p \<or> w \<in> S)"
    "node_of st w = Some n \<Longrightarrow> sorted_wrt (<) (wn_children n)"
    "node_of st w = Some n \<Longrightarrow> c \<in> set (wn_children n) \<longleftrightarrow> (c, w) \<in> parent_rel st"
    "child_watch st p nm = Some w \<Longrightarrow> \<exists>n. node_of st w = Some n \<and> slot_of n = Some (p, nm)"
    "held_of st mv = Some w \<Longrightarrow> minted_watch st w" "held_of st mv = Some w \<Longrightarrow> unindexed st w"
    "held_of st mv = Some w \<Longrightarrow> \<not> is_root_watch st w" "held_of st mv = Some w \<Longrightarrow> held_of st mv' = Some w \<Longrightarrow> mv' = mv"
    "node_of st w = Some n \<Longrightarrow> wn_parent n = None \<Longrightarrow> wn_name n = None"
  using assms unfolding tree_gen_def nodes_ok_def root_table_ok_def children_ok_def names_ok_def held_ok_def by blast+

lemma tree_genI:
  assumes "btm_ok (mo_nodes st)" "\<And>w. is_watched_node st w \<Longrightarrow> minted_watch st w" "acyclic (parent_rel st)"
    "\<And>s w. root_of st s = Some w \<Longrightarrow> \<exists>n. node_of st w = Some n \<and> wn_parent n = None \<and> wn_scope n = s"
    "\<And>w n. node_of st w = Some n \<Longrightarrow> wn_parent n = None \<Longrightarrow>
      root_of st (wn_scope n) = Some w \<or> (w \<in> S \<and> root_of st (wn_scope n) = None) \<or> w \<in> T"
    "\<And>w n p. node_of st w = Some n \<Longrightarrow> wn_parent n = Some p \<Longrightarrow> wn_name n \<noteq> None \<and> (is_watched_node st p \<or> w \<in> S)"
    "\<And>w n. node_of st w = Some n \<Longrightarrow> sorted_wrt (<) (wn_children n)"
    "\<And>w n c. node_of st w = Some n \<Longrightarrow> c \<in> set (wn_children n) \<longleftrightarrow> (c, w) \<in> parent_rel st"
    "\<And>p nm w. child_watch st p nm = Some w \<Longrightarrow> \<exists>n. node_of st w = Some n \<and> slot_of n = Some (p, nm)"
    "held_ok st" "\<And>w n. node_of st w = Some n \<Longrightarrow> wn_parent n = None \<Longrightarrow> wn_name n = None"
  shows "tree_gen S T st"
  unfolding tree_gen_def nodes_ok_def root_table_ok_def children_ok_def names_ok_def
  using assms(1-3,11) assms(4-5) assms(6-7) assms(8-10) by blast

lemma parent_rel_iff: "(c, p) \<in> parent_rel st \<longleftrightarrow> map_option wn_parent (node_of st c) = Some (Some p)"
  by (auto simp: parent_rel_def)

lemma tree_unlink:
  assumes t: "tree_but S st" and n: "node_of st w = Some n" and w: "w \<in> S"
  shows "tree_but (S - {w} \<union> set (wn_children n)) (unlink_node w n st)"
proof -
  note r = unlink_reads [of w n st]
  note d = tree_genD [OF t]
  have nd: "\<exists>m. node_of st v = Some m \<and> v \<noteq> w \<and> wn_parent x = wn_parent m \<and> wn_name x = wn_name m \<and>
      wn_scope x = wn_scope m \<and> wn_children x = (if Some v = wn_parent n then bts_remove w (wn_children m) else wn_children m)"
    if "node_of (unlink_node w n st) v = Some x" for v x
  proof (cases "node_of st v")
    case (Some m)
    then show ?thesis using that by (intro exI [of _ m]) (auto simp: r split: if_splits)
  qed (use that in \<open>simp add: r split: if_splits\<close>)
  have fwd: "\<exists>x. node_of (unlink_node w n st) v = Some x \<and> wn_parent x = wn_parent m \<and> wn_name x = wn_name m \<and>
      wn_scope x = wn_scope m" if "node_of st v = Some m" "v \<noteq> w" for v m
    using that by (simp add: r)
  have wd: "is_watched_node (unlink_node w n st) v \<longleftrightarrow> is_watched_node st v \<and> v \<noteq> w" for v
    by (simp add: is_watched_node_def r)
  have pr: "(c, p) \<in> parent_rel (unlink_node w n st) \<longleftrightarrow> (c, p) \<in> parent_rel st \<and> c \<noteq> w" for c p
  proof -
    have "map_option wn_parent (node_of (unlink_node w n st) c) =
        (if c = w then None else map_option wn_parent (node_of st c))"
      by (cases "node_of st c") (simp_all add: r)
    then show ?thesis by (simp add: parent_rel_iff)
  qed
  show ?thesis
  proof (rule tree_genI)
    show "btm_ok (mo_nodes (unlink_node w n st))" using d(1) by (simp add: r sorted_wrt_filter)
    show "minted_watch (unlink_node w n st) v" if "is_watched_node (unlink_node w n st) v" for v
      using d(2) that by (simp add: wd minted_watch_def r)
    show "acyclic (parent_rel (unlink_node w n st))"
      by (rule acyclic_subset [OF d(3)]) (use pr in auto)
    show "\<exists>x. node_of (unlink_node w n st) v = Some x \<and> wn_parent x = None \<and> wn_scope x = s"
      if "root_of (unlink_node w n st) s = Some v" for s v
    proof -
      have "root_of st s = Some v" "\<not> (wn_parent n = None \<and> wn_scope n = s)"
        using that by (auto simp: r split: if_splits)
      with d(4) [OF this(1)] n show ?thesis using fwd by fastforce
    qed
    show "root_of (unlink_node w n st) (wn_scope x) = Some v \<or>
        (v \<in> S - {w} \<union> set (wn_children n) \<and> root_of (unlink_node w n st) (wn_scope x) = None) \<or> v \<in> {}"
      if x: "node_of (unlink_node w n st) v = Some x" "wn_parent x = None" for v x
    proof -
      from nd [OF x(1)] x(2) obtain m where m: "node_of st v = Some m" "v \<noteq> w" "wn_parent m = None" "wn_scope x = wn_scope m"
        by auto
      from d(5) [OF m(1,3)] d(5) [OF n] m(2,4) show ?thesis by (auto simp: r)
    qed
    show "wn_name x \<noteq> None \<and> (is_watched_node (unlink_node w n st) p \<or> v \<in> S - {w} \<union> set (wn_children n))"
      if x: "node_of (unlink_node w n st) v = Some x" "wn_parent x = Some p" for v x p
    proof -
      from nd [OF x(1)] x(2) obtain m where m: "node_of st v = Some m" "v \<noteq> w" "wn_parent m = Some p" "wn_name x = wn_name m"
        by auto
      have "v \<in> set (wn_children n)" if "p = w"
        using d(8) [OF n, of v] m that by (auto simp: parent_rel_def)
      with d(6) [OF m(1,3)] m(2,4) show ?thesis by (auto simp: wd)
    qed
    show "sorted_wrt (<) (wn_children x)" if "node_of (unlink_node w n st) v = Some x" for v x
      using nd [OF that] d(7) by (auto simp: bts_ok_remove)
    show "c \<in> set (wn_children x) \<longleftrightarrow> (c, v) \<in> parent_rel (unlink_node w n st)"
      if x: "node_of (unlink_node w n st) v = Some x" for v x c
    proof -
      from nd [OF x] obtain m where m: "node_of st v = Some m" "v \<noteq> w"
        "wn_children x = (if Some v = wn_parent n then bts_remove w (wn_children m) else wn_children m)" by auto
      have "(w, v) \<in> parent_rel st \<longleftrightarrow> wn_parent n = Some v" using n by (auto simp: parent_rel_def)
      with d(8) [OF m(1), of c] m(3) show ?thesis by (auto simp: pr)
    qed
    show "\<exists>x. node_of (unlink_node w n st) v = Some x \<and> slot_of x = Some (p, nm)"
      if c: "child_watch (unlink_node w n st) p nm = Some v" for p nm v
    proof -
      have i: "child_watch st p nm = Some v" "\<not> (slot_of n = Some (p, nm) \<and> v = w)"
        using c by (auto simp: child_watch_def r split: if_splits)
      from d(9) [OF i(1)] obtain m where m: "node_of st v = Some m" "slot_of m = Some (p, nm)" by blast
      then have "v \<noteq> w" using i(2) n by auto
      from fwd [OF m(1) this] m(2) show ?thesis by (auto simp: slot_of_def split: option.splits)
    qed
    have u: "unindexed (unlink_node w n st) c" if "unindexed st c" for c
      using that by (simp add: unindexed_def r)
    have q: "is_root_watch (unlink_node w n st) c \<Longrightarrow> is_root_watch st c" for c
      by (auto simp: is_root_watch_def r split: option.splits if_splits)
    show "wn_name x = None" if x: "node_of (unlink_node w n st) v = Some x" "wn_parent x = None" for v x
      using nd [OF x(1)] x(2) d(14) [of v] by auto
    have "held_ok st" using t by (simp add: tree_gen_def)
    then show "held_ok (unlink_node w n st)"
      using u q unfolding held_ok_def minted_watch_def r by blast
  qed
qed

lemma same_tree_reclaims: "same_tree (snd (reclaim_markers ms w n (er, st))) st"
proof (induction ms arbitrary: er st)
  case (Cons m ms)
  obtain c st1 where c: "reclaim_node_marker m w n st = (c, st1)" by fastforce
  have "same_tree (snd (reclaim_node_marker m w n st)) st"
  proof (cases "m = MkEnumerate")
    case True
    then show ?thesis
      by (auto simp: forget_enumerate_def latent_remove_def intro!: same_tree_fields split: node_state.split)
  next
    case False
    then show ?thesis by (intro same_tree_core core_reclaim)
  qed
  from same_tree_trans [OF Cons.IH [of "absorb c er" st1] this [unfolded c snd_conv]] c show ?case by simp
qed (simp add: same_tree_core)

lemma tree_drop_one:
  assumes "tree_but S st" "node_of st w = Some n" "w \<in> S"
  shows "tree_but (S - {w} \<union> set (wn_children n)) (snd (drop_one w n er st))"
proof -
  obtain er1 st1 where r: "reclaim_markers node_marker_all w n (er, unlink_node w n st) = (er1, st1)" by fastforce
  have "same_tree (unlink_node w n st) st1"
    using same_tree_sym [OF same_tree_reclaims [of node_marker_all w n er "unlink_node w n st"]] by (simp add: r)
  then have "same_tree (unlink_node w n st) (st1\<lparr>mo_actions := as\<rparr>)" for as
    using same_tree_trans [OF _ same_tree_fields [of st1 "st1\<lparr>mo_actions := as\<rparr>"]] by simp
  from tree_same [OF this tree_unlink [OF assms]] show ?thesis by (simp add: drop_one_def r)
qed

lemma tree_weaken: "tree_gen S T st \<Longrightarrow> (\<And>w. w \<in> S \<Longrightarrow> is_watched_node st w \<Longrightarrow> w \<in> S') \<Longrightarrow> tree_gen S' T st"
proof -
  assume t: "tree_gen S T st" and s: "\<And>w. w \<in> S \<Longrightarrow> is_watched_node st w \<Longrightarrow> w \<in> S'"
  note d = tree_genD [OF t]
  have "is_watched_node st w" if "node_of st w = Some n" for w n using that by (simp add: is_watched_node_def)
  note s = s [OF _ this]
  show ?thesis
  proof (rule tree_genI)
    show "root_of st (wn_scope n) = Some w \<or> (w \<in> S' \<and> root_of st (wn_scope n) = None) \<or> w \<in> T"
      if "node_of st w = Some n" "wn_parent n = None" for w n
      using d(5) [OF that] s [OF _ that(1)] by blast
    show "wn_name n \<noteq> None \<and> (is_watched_node st p \<or> w \<in> S')"
      if "node_of st w = Some n" "wn_parent n = Some p" for w n p
      using d(6) [OF that] s [OF _ that(1)] by blast
    show "held_ok st" using t by (simp add: tree_gen_def)
  qed (fact d)+
qed

lemma tree_drop_walk: "tree_but (set ws) st \<Longrightarrow> tree_ok (snd (drop_walk ws er st))"
proof (induction ws er st rule: drop_walk.induct)
  case (2 w stack er st)
  show ?case
  proof (cases "node_of st w")
    case None
    from 2(3) have "tree_but (set stack) st"
      by (rule tree_weaken) (use None in \<open>auto simp: is_watched_node_def\<close>)
    from 2(1) [OF None this] None show ?thesis by simp
  next
    case (Some n)
    obtain er1 st1 where d: "drop_one w n er st = (er1, st1)" by fastforce
    have "tree_but (set (w # stack) - {w} \<union> set (wn_children n)) st1"
      using tree_drop_one [OF 2(3) Some, of er] by (simp add: d)
    then have "tree_but (set (rev (wn_children n) @ stack)) st1" by (rule tree_weaken) auto
    from 2(2) [OF Some d [symmetric] this] show ?thesis by (simp add: Some d)
  qed
qed simp

lemma tree_mono: "tree_ok st \<Longrightarrow> tree_but S st"
  by (erule tree_weaken) auto

lemma tree_dropped: "tree_ok st \<Longrightarrow> tree_ok (snd (drop_walk [w] erased_none st))"
  by (rule tree_drop_walk [OF tree_mono])

lemma tree_unrooted:
  assumes t: "tree_ok st" and r: "root_of st s = Some w"
  shows "tree_ok (snd (drop_walk [w] erased_none (st\<lparr>mo_roots := btm_remove s (mo_roots st)\<rparr>)))"
proof (rule tree_drop_walk)
  define x where "x = st\<lparr>mo_roots := btm_remove s (mo_roots st)\<rparr>"
  have f: "node_of x = node_of st" "root_of x = (root_of st)(s := None)" "parent_rel x = parent_rel st"
      "child_watch x = child_watch st" "is_watched_node x = is_watched_node st" "minted_watch x = minted_watch st"
      "mo_nodes x = mo_nodes st"
    by (auto simp: x_def node_of_def root_of_def parent_rel_def child_watch_def is_watched_node_def minted_watch_def fun_eq_iff)
  note d = tree_genD [OF t]
  have "held_ok x = held_ok st"
    by (simp add: held_ok_def x_def held_of_def minted_watch_def unindexed_def is_root_watch_def node_of_def)
  then have h: "held_ok x" using t by (simp add: tree_gen_def)
  have "tree_but {w} x"
  proof (rule tree_genI)
    show "root_of x (wn_scope n) = Some v \<or> (v \<in> {w} \<and> root_of x (wn_scope n) = None) \<or> v \<in> {}"
      if "node_of x v = Some n" "wn_parent n = None" for v n
      using d(5) [of v n] that r by (auto simp: f)
    show "\<exists>n. node_of x v = Some n \<and> wn_parent n = None \<and> wn_scope n = s'" if "root_of x s' = Some v" for s' v
      using d(4) [of s' v] that by (auto simp: f split: if_splits)
  qed (use d h in \<open>auto simp: f\<close>)
  then show "tree_but (set [w]) (st\<lparr>mo_roots := btm_remove s (mo_roots st)\<rparr>)" by (simp add: x_def)
qed

section \<open>Linking\<close>

lemma insert_reads:
  "node_of (insert_node w n st) = (node_of st)(w \<mapsto> n)"
  "map fst (mo_nodes (insert_node w n st)) = map fst (btm_insert w n (mo_nodes st))"
  "root_of (insert_node w n st) = root_of st" "mo_child_index (insert_node w n st) = mo_child_index st"
  "mo_watch_ids (insert_node w n st) = mo_watch_ids st" "held_of (insert_node w n st) = held_of st"
  by (simp_all add: insert_node_def Let_def node_of_def bridge_fresh_rearm_def bridge_set_def rearm_pending_inc_def
      acquired_coverage_work_def root_of_def held_of_def fun_eq_iff)

lemma insert_node_roots: "mo_roots (insert_node w n st) = mo_roots st"
  by (simp add: insert_node_def Let_def bridge_fresh_rearm_def bridge_set_def rearm_pending_inc_def
      acquired_coverage_work_def)

lemma relink_with_roots: "relink c p nm (st\<lparr>mo_roots := rs\<rparr>) = (relink c p nm st)\<lparr>mo_roots := rs\<rparr>"
  by (simp add: relink_def Let_def upd_node_def node_of_def cong: if_cong split: option.split)

text \<open>A node without a parent comes in as a stray.\<close>

lemma tree_stray:
  assumes t: "tree_ok st" and w: "\<not> is_watched_node st w" "minted_watch st w" "w \<notin> ran (held_of st)"
    and n: "wn_parent n = None" "wn_children n = []" "wn_name n = None"
  shows "tree_gen {} {w} (insert_node w n st)"
proof -
  note d = tree_genD [OF t] and r = insert_reads [of w n st]
  have w0: "node_of st w = None" using w by (simp add: is_watched_node_def)
  have pr: "parent_rel (insert_node w n st) = parent_rel st"
    using w0 n by (auto simp: parent_rel_def r split: if_splits)
  have above: "(c, w) \<notin> parent_rel st" for c
    using d(6) w(1) by (auto simp: parent_rel_def)
  have ne: "v \<noteq> w" if "node_of st v = Some m" for v m using that w0 by auto
  show ?thesis
  proof (rule tree_genI)
    show "btm_ok (mo_nodes (insert_node w n st))" using d(1) by (simp add: r btm_ok_insert)
    show "minted_watch (insert_node w n st) v" if "is_watched_node (insert_node w n st) v" for v
      using that d(2) [of v] w(2) by (auto simp: minted_watch_def r is_watched_node_def split: if_splits)
    show "acyclic (parent_rel (insert_node w n st))" using d(3) by (simp add: pr)
    show "\<exists>x. node_of (insert_node w n st) v = Some x \<and> wn_parent x = None \<and> wn_scope x = s"
      if "root_of (insert_node w n st) s = Some v" for s v
      using d(4) [of s v] that ne by (fastforce simp: r)
    show "root_of (insert_node w n st) (wn_scope x) = Some v \<or>
        (v \<in> {} \<and> root_of (insert_node w n st) (wn_scope x) = None) \<or> v \<in> {w}"
      if "node_of (insert_node w n st) v = Some x" "wn_parent x = None" for v x
      using d(5) [of v x] that by (auto simp: r split: if_splits)
    show "wn_name x \<noteq> None \<and> (is_watched_node (insert_node w n st) p \<or> v \<in> {})"
      if "node_of (insert_node w n st) v = Some x" "wn_parent x = Some p" for v x p
      using d(6) [of v x p] that n by (auto simp: r is_watched_node_def split: if_splits)
    show "sorted_wrt (<) (wn_children x)" if "node_of (insert_node w n st) v = Some x" for v x
      using d(7) [of v x] that n by (auto simp: r split: if_splits)
    show "c \<in> set (wn_children x) \<longleftrightarrow> (c, v) \<in> parent_rel (insert_node w n st)"
      if "node_of (insert_node w n st) v = Some x" for v x c
      using d(8) [of v x c] that n above by (auto simp: r pr split: if_splits)
    show "\<exists>x. node_of (insert_node w n st) v = Some x \<and> slot_of x = Some (p, nm)"
      if "child_watch (insert_node w n st) p nm = Some v" for p nm v
      using d(9) [of p nm v] that ne by (fastforce simp: r child_watch_def)
    show "wn_name x = None" if "node_of (insert_node w n st) v = Some x" "wn_parent x = None" for v x
      using d(14) [of v x] that n by (auto simp: r split: if_splits)
    have "is_root_watch (insert_node w n st) c = is_root_watch st c" if "c \<noteq> w" for c
      using that by (simp add: is_root_watch_def r)
    moreover have "c \<noteq> w" if "held_of st mv = Some c" for mv c using that w(3) by (metis ranI)
    ultimately show "held_ok (insert_node w n st)"
      using t unfolding tree_gen_def held_ok_def minted_watch_def unindexed_def r by metis
  qed
qed

text \<open>A stray becomes the root of its scope; the root it takes the place of becomes a stray.\<close>

lemma tree_set_root:
  assumes t: "tree_gen {} {w} st" and n: "node_of st w = Some n" "wn_parent n = None" "wn_scope n = s"
  shows "tree_gen {} {v. root_of st s = Some v} (st\<lparr>mo_roots := btm_insert s w (mo_roots st)\<rparr>)"
proof -
  define x where "x = st\<lparr>mo_roots := btm_insert s w (mo_roots st)\<rparr>"
  have f: "node_of x = node_of st" "root_of x = (root_of st)(s \<mapsto> w)" "parent_rel x = parent_rel st"
      "child_watch x = child_watch st" "is_watched_node x = is_watched_node st" "minted_watch x = minted_watch st"
      "mo_nodes x = mo_nodes st"
    by (auto simp: x_def node_of_def root_of_def parent_rel_def child_watch_def is_watched_node_def minted_watch_def fun_eq_iff)
  note d = tree_genD [OF t]
  have "held_ok x = held_ok st"
    by (simp add: held_ok_def x_def held_of_def minted_watch_def unindexed_def is_root_watch_def node_of_def)
  then have h: "held_ok x" using t by (simp add: tree_gen_def)
  have "tree_gen {} {v. root_of st s = Some v} x"
  proof (rule tree_genI)
    show "root_of x (wn_scope m) = Some v \<or> (v \<in> {} \<and> root_of x (wn_scope m) = None) \<or> v \<in> {v. root_of st s = Some v}"
      if "node_of x v = Some m" "wn_parent m = None" for v m
      using d(5) [of v m] that n by (auto simp: f)
    show "\<exists>m. node_of x v = Some m \<and> wn_parent m = None \<and> wn_scope m = s'" if "root_of x s' = Some v" for s' v
      using d(4) [of s' v] that n by (auto simp: f split: if_splits)
  qed (use d h in \<open>auto simp: f\<close>)
  then show ?thesis by (simp add: x_def)
qed

definition relinked_node :: "watch_id \<Rightarrow> watch_id \<Rightarrow> segment \<Rightarrow> watch_id option \<Rightarrow> watch_id \<Rightarrow> watch_node \<Rightarrow> watch_node" where
  "relinked_node c p nm old v x =
     (let y = (if Some v = old then x\<lparr>wn_children := bts_remove c (wn_children x)\<rparr> else x);
          z = (if v = c then y\<lparr>wn_parent := Some p, wn_name := Some nm\<rparr> else y)
      in if v = p then z\<lparr>wn_children := bts_insert c (wn_children z)\<rparr> else z)"

lemma relink_reads:
  assumes "node_of st c = Some n"
  shows "node_of (relink c p nm st) v = map_option (relinked_node c p nm (wn_parent n) v) (node_of st v)"
    and "map fst (mo_nodes (relink c p nm st)) = map fst (mo_nodes st)"
    and "root_of (relink c p nm st) = root_of st" "mo_child_index (relink c p nm st) = (mo_child_index st)((p, nm) \<mapsto> c)"
    and "mo_watch_ids (relink c p nm st) = mo_watch_ids st" "held_of (relink c p nm st) = held_of st"
proof -
  have n: "node_of (x\<lparr>mo_child_index := i\<rparr>) = node_of x" for x i by (simp add: node_of_def fun_eq_iff)
  have k: "map fst (mo_nodes (upd_node q g x)) = map fst (mo_nodes x)" "mo_watch_ids (upd_node q g x) = mo_watch_ids x"
    for q g x by (simp_all add: upd_node_def comp_def case_prod_beta)
  have h: "held_of (x\<lparr>mo_child_index := i\<rparr>) = held_of x" for x i by (simp add: held_of_def)
  have r: "root_of (upd_node q g x) = root_of x" "root_of (x\<lparr>mo_child_index := i\<rparr>) = root_of x" for q g x i
    by (simp_all add: root_of_def upd_node_def fun_eq_iff)
  show "node_of (relink c p nm st) v = map_option (relinked_node c p nm (wn_parent n) v) (node_of st v)"
    by (cases "node_of st v")
      (auto simp: relink_def assms Let_def n node_of_upd relinked_node_def option.map_comp split: option.split)
  show "map fst (mo_nodes (relink c p nm st)) = map fst (mo_nodes st)"
      "mo_watch_ids (relink c p nm st) = mo_watch_ids st" "root_of (relink c p nm st) = root_of st"
    by (simp_all add: relink_def assms Let_def k r split: option.split)
  show "mo_child_index (relink c p nm st) = (mo_child_index st)((p, nm) \<mapsto> c)"
    by (simp add: relink_def assms Let_def split: option.split)
  show "held_of (relink c p nm st) = held_of st"
    by (simp add: relink_def assms Let_def h split: option.split)
qed

lemma relinked_fields:
  "wn_parent (relinked_node c p nm old v x) = (if v = c then Some p else wn_parent x)"
  "wn_name (relinked_node c p nm old v x) = (if v = c then Some nm else wn_name x)"
  "wn_scope (relinked_node c p nm old v x) = wn_scope x"
  "set (wn_children (relinked_node c p nm old v x)) =
     (if v = p then insert c (set (wn_children x)) else if Some v = old then set (wn_children x) - {c} else set (wn_children x))"
  by (auto simp: relinked_node_def Let_def)

text \<open>A watch no slot names is linked under another one.\<close>

lemma tree_adopt:
  assumes t: "tree_gen {} T st" and c: "node_of st c = Some n" "unindexed st c" "c \<notin> ran (held_of st)"
    "\<And>s. root_of st s \<noteq> Some c" and T: "T \<subseteq> {c}"
    and p: "is_watched_node st p" "child_watch st p nm = None" "(p, c) \<notin> (parent_rel st)\<^sup>*"
  shows "tree_ok (relink c p nm st)"
proof -
  note d = tree_genD [OF t] and r = relink_reads [OF c(1), of p nm]
  have pc: "p \<noteq> c" using p(3) by auto
  have old: "\<exists>x. node_of st v = Some x \<and> y = relinked_node c p nm (wn_parent n) v x"
    if "node_of (relink c p nm st) v = Some y" for v y
    using that by (auto simp: r)
  have wd: "is_watched_node (relink c p nm st) v = is_watched_node st v" for v by (simp add: is_watched_node_def r)
  have pr: "(k, q) \<in> parent_rel (relink c p nm st) \<longleftrightarrow> (if k = c then q = p else (k, q) \<in> parent_rel st)" for k q
  proof -
    have "map_option wn_parent (node_of (relink c p nm st) k) =
        (if k = c then Some (Some p) else map_option wn_parent (node_of st k))"
      using c(1) by (cases "node_of st k") (auto simp: r relinked_fields)
    then show ?thesis by (auto simp: parent_rel_iff)
  qed
  show ?thesis
  proof (rule tree_genI)
    show "btm_ok (mo_nodes (relink c p nm st))" using d(1) by (simp add: r)
    show "minted_watch (relink c p nm st) v" if "is_watched_node (relink c p nm st) v" for v
      using that d(2) [of v] by (simp add: wd minted_watch_def r)
    show "acyclic (parent_rel (relink c p nm st))"
    proof (rule acyclic_subset)
      show "acyclic (insert (c, p) (parent_rel st))" using d(3) p(3) by (simp add: acyclic_insert)
    qed (use pr in \<open>auto split: if_splits\<close>)
    show "\<exists>x. node_of (relink c p nm st) v = Some x \<and> wn_parent x = None \<and> wn_scope x = s"
      if "root_of (relink c p nm st) s = Some v" for s v
      using d(4) [of s v] that c(4) [of s] by (auto simp: r relinked_fields)
    show "root_of (relink c p nm st) (wn_scope x) = Some v \<or>
        (v \<in> {} \<and> root_of (relink c p nm st) (wn_scope x) = None) \<or> v \<in> {}"
      if "node_of (relink c p nm st) v = Some x" "wn_parent x = None" for v x
      using old [OF that(1)] that(2) d(5) [of v] T by (auto simp: r relinked_fields split: if_splits)
    show "wn_name x \<noteq> None \<and> (is_watched_node (relink c p nm st) q \<or> v \<in> {})"
      if "node_of (relink c p nm st) v = Some x" "wn_parent x = Some q" for v x q
      using old [OF that(1)] that(2) d(6) [of v _ q] p(1) by (auto simp: wd relinked_fields split: if_splits)
    show "sorted_wrt (<) (wn_children x)" if "node_of (relink c p nm st) v = Some x" for v x
      using old [OF that] d(7) by (auto simp: relinked_node_def Let_def bts_ok_insert bts_ok_remove)
    show "k \<in> set (wn_children x) \<longleftrightarrow> (k, v) \<in> parent_rel (relink c p nm st)"
      if "node_of (relink c p nm st) v = Some x" for v x k
    proof -
      from old [OF that] obtain m where m: "node_of st v = Some m" "x = relinked_node c p nm (wn_parent n) v m" by blast
      have "(c, v) \<in> parent_rel st \<longleftrightarrow> wn_parent n = Some v" using c(1) by (auto simp: parent_rel_def)
      with d(8) [OF m(1), of k] show ?thesis by (auto simp: pr m(2) relinked_fields)
    qed
    show "\<exists>x. node_of (relink c p nm st) v = Some x \<and> slot_of x = Some (q, nm')"
      if v: "child_watch (relink c p nm st) q nm' = Some v" for q nm' v
    proof (cases "(q, nm') = (p, nm)")
      case True
      then have "v = c" using v by (auto simp: child_watch_def r)
      moreover have "node_of (relink c p nm st) c = Some (relinked_node c p nm (wn_parent n) c n)" by (simp add: r c(1))
      ultimately show ?thesis using True by (auto simp: slot_of_def relinked_fields)
    next
      case False
      then have i: "child_watch st q nm' = Some v" using v by (auto simp: child_watch_def r split: if_splits)
      then have "v \<noteq> c" using c(2) by (auto simp: unindexed_def child_watch_def)
      with d(9) [OF i] show ?thesis by (auto simp: r slot_of_Some relinked_fields)
    qed
    show "wn_name x = None" if "node_of (relink c p nm st) v = Some x" "wn_parent x = None" for v x
      using old [OF that(1)] that(2) d(14) [of v] by (auto simp: relinked_fields split: if_splits)
    have "unindexed (relink c p nm st) k" if "unindexed st k" "k \<noteq> c" for k
      using that by (auto simp: unindexed_def r)
    moreover have "is_root_watch st k" if "is_root_watch (relink c p nm st) k" for k
      using that by (auto simp: is_root_watch_def r relinked_fields split: option.splits if_splits)
    moreover have "k \<noteq> c" if "held_of st mv = Some k" for mv k using that c(3) by (metis ranI)
    ultimately show "held_ok (relink c p nm st)"
      using t unfolding tree_gen_def held_ok_def minted_watch_def r by metis
  qed
qed

section \<open>The steps of the interface\<close>

lemma tree_minted:
  assumes t: "tree_ok st" and w: "next_watch_id st = Some (w, st1)"
  shows "tree_ok st1 \<and> \<not> is_watched_node st1 w \<and> minted_watch st1 w \<and> w \<notin> ran (held_of st1)"
proof -
  obtain q where q: "mint (mo_watch_ids st) = Some (w, q)" "st1 = st\<lparr>mo_watch_ids := q\<rparr>"
    using w by (auto simp: next_watch_id_def split: option.splits)
  have v: "w = seq_next (mo_watch_ids st)" "seq_next (mo_watch_ids st) < seq_next q"
    using mint_Some [OF q(1)] by (auto simp: word_less_nat_alt)
  have f: "node_of st1 = node_of st" "root_of st1 = root_of st" "parent_rel st1 = parent_rel st"
      "child_watch st1 = child_watch st" "is_watched_node st1 = is_watched_node st" "mo_nodes st1 = mo_nodes st"
      "held_of st1 = held_of st" "unindexed st1 = unindexed st" "is_root_watch st1 = is_root_watch st"
    by (auto simp: q node_of_def root_of_def parent_rel_def child_watch_def is_watched_node_def held_of_def
        unindexed_def is_root_watch_def fun_eq_iff)
  have m: "minted_watch st1 c" if "minted_watch st c" for c
    using that v(2) by (simp add: minted_watch_def q)
  note d = tree_genD [OF t]
  have "held_ok st1" using t m unfolding tree_gen_def held_ok_def f by blast
  then have "tree_ok st1" by (intro tree_genI) (use d m in \<open>auto simp: f\<close>)
  moreover have "\<not> minted_watch st w" by (simp add: minted_watch_def v(1))
  moreover have "minted_watch st1 w" by (simp add: minted_watch_def q v)
  ultimately show ?thesis using d(2) [of w] d(10) [of _ w] by (auto simp: f ran_def)
qed

lemma tree_installed:
  assumes t: "tree_ok st" and p: "is_watched_node st p" "child_watch st p nm = None"
    and w: "next_watch_id st = Some (w, st1)" and c: "core st2 = core st1"
    and n: "shape n = (Some p, Some nm, s, Arming False False, [])"
  shows "tree_ok ((upd_node p (\<lambda>x. x\<lparr>wn_children := bts_insert w (wn_children x)\<rparr>) (insert_node w n st2))\<lparr>mo_child_index :=
    (mo_child_index st2)((p, nm) \<mapsto> w)\<rparr>)"
proof -
  have t2: "tree_ok st2" by (rule tree_same [OF same_tree_core [OF c [symmetric]] tree_minted [OF t w, THEN conjunct1]])
  note same = core_readings [OF c]
  have w2: "\<not> is_watched_node st2 w" "minted_watch st2 w" "w \<notin> ran (held_of st2)"
    using tree_minted [OF t w] same by (simp_all add: is_watched_node_def)
  have st1: "is_watched_node st1 = is_watched_node st" "child_watch st1 = child_watch st"
    using w by (auto simp: next_watch_id_def is_watched_node_def node_of_def child_watch_def fun_eq_iff split: option.splits)
  have p2: "is_watched_node st2 p" "child_watch st2 p nm = None"
    using p same by (simp_all add: is_watched_node_def st1 [symmetric])
  define m where "m = n\<lparr>wn_parent := None, wn_name := None\<rparr>"
  define x where "x = insert_node w m st2"
  have x: "tree_gen {} {w} x" unfolding x_def
    by (rule tree_stray [OF t2 w2]) (use n in \<open>auto simp: m_def shape_def\<close>)
  have pw: "p \<noteq> w" using p2 w2 by auto
  note r = insert_reads [of w m st2, folded x_def]
  have "tree_ok (relink w p nm x)"
  proof (rule tree_adopt [OF x])
    show "node_of x w = Some m" by (simp add: r)
    show "unindexed x w"
      using tree_genD(9) [OF t2, of _ _ w] w2(1) by (fastforce simp: unindexed_def r child_watch_def is_watched_node_def)
    show "w \<notin> ran (held_of x)" using w2 by (simp add: r)
    show "root_of x s \<noteq> Some w" for s using tree_genD(4) [OF t2, of s w] w2(1) by (auto simp: r is_watched_node_def)
    show "is_watched_node x p" using p2 by (simp add: is_watched_node_def r)
    show "child_watch x p nm = None" using p2 by (simp add: child_watch_def r)
    have "(w, q) \<notin> parent_rel x" "(q, w) \<notin> parent_rel x" for q
      using tree_genD(6) [OF t2, of q _ w] w2(1) by (auto simp: parent_rel_def r m_def split: if_splits)
    then show "(p, w) \<notin> (parent_rel x)\<^sup>*" using pw by (meson rtranclE)
  qed simp
  moreover have "same_tree (relink w p nm x) ((upd_node p (\<lambda>x. x\<lparr>wn_children := bts_insert w (wn_children x)\<rparr>)
      (insert_node w n st2))\<lparr>mo_child_index := (mo_child_index st2)((p, nm) \<mapsto> w)\<rparr>)"
  proof -
    have wp: "wn_parent m = None" by (simp add: m_def)
    have xw: "node_of x w = Some m" by (simp add: r)
    note y = relink_reads [OF xw, of p nm]
    have k: "map fst (mo_nodes (upd_node q g z)) = map fst (mo_nodes z)" "root_of (upd_node q g z) = root_of z"
        "mo_watch_ids (upd_node q g z) = mo_watch_ids z" for q g z
      by (simp_all add: upd_node_def comp_def case_prod_beta root_of_def fun_eq_iff)
    have f: "node_of (z\<lparr>mo_child_index := i\<rparr>) = node_of z" "root_of (z\<lparr>mo_child_index := i\<rparr>) = root_of z"
        "held_of (z\<lparr>mo_child_index := i\<rparr>) = held_of z" for z i
      by (simp_all add: node_of_def root_of_def held_of_def fun_eq_iff)
    have keys: "map fst (btm_insert w m ys) = map fst (btm_insert w n ys)" for ys
      by (induction w m ys rule: btm_insert.induct) auto
    have "map_option links (node_of (relink w p nm x) v) = map_option links (node_of ((upd_node p
        (\<lambda>x. x\<lparr>wn_children := bts_insert w (wn_children x)\<rparr>) (insert_node w n st2))) v)" for v
      using n pw by (cases "node_of st2 v")
        (auto simp: y r wp relinked_node_def node_of_upd insert_reads m_def links_def shape_def Let_def)
    then show ?thesis
      by (simp add: same_tree_def y f k) (simp add: r insert_reads keys)
  qed
  ultimately show ?thesis by (rule tree_same [rotated])
qed

lemma tree_relinked:
  assumes t: "tree_ok st" and l: "loose st c" and w: "is_watched_node st c" "is_watched_node st p"
    and s: "child_watch st p nm = None" "(p, c) \<notin> (parent_rel st)\<^sup>*"
  shows "tree_ok (relink c p nm st)"
proof -
  obtain n where n: "node_of st c = Some n" using w(1) by (auto simp: is_watched_node_def)
  have "root_of st s \<noteq> Some c" for s
    using tree_genD(4) [OF t, of s c] l n by (auto simp: loose_def is_root_watch_def)
  with l show ?thesis by (intro tree_adopt [OF t n _ _ _ _ w(2) s]) (auto simp: loose_def)
qed

lemma tree_registered:
  assumes t: "tree_ok st" and r: "root_of st s = None" and w: "next_watch_id st = Some (w, st1)"
    and c: "core st2 = core st1" and n: "shape n = (None, None, s, Arming True False, [])"
  shows "tree_ok ((insert_node w n st2)\<lparr>mo_roots := btm_insert s w (mo_roots st2)\<rparr>)"
proof -
  have t2: "tree_ok st2" by (rule tree_same [OF same_tree_core [OF c [symmetric]] tree_minted [OF t w, THEN conjunct1]])
  note same = core_readings [OF c]
  have w2: "\<not> is_watched_node st2 w" "minted_watch st2 w" "w \<notin> ran (held_of st2)"
    using tree_minted [OF t w] same by (simp_all add: is_watched_node_def)
  have "root_of st1 = root_of st"
    using w by (auto simp: next_watch_id_def root_of_def fun_eq_iff split: option.splits)
  then have r2: "root_of st2 s = None" using r same by simp
  have "tree_gen {} {w} (insert_node w n st2)"
    by (rule tree_stray [OF t2 w2]) (use n in \<open>auto simp: shape_def\<close>)
  from tree_set_root [OF this, of n s] n r2 show ?thesis
    by (simp add: insert_reads shape_def insert_node_roots)
qed

lemma tree_widened:
  assumes t: "tree_ok st" and r: "root_of st s = Some root" and w: "\<not> is_watched_node st w" "minted_watch st w"
    "w \<notin> ran (held_of st)" and n: "shape n = (None, None, s, Arming False False, [])"
  shows "tree_ok ((relink root w nm (insert_node w n st))\<lparr>mo_roots := btm_insert s w (mo_roots st)\<rparr>)"
proof -
  define x where "x = insert_node w n st"
  note rx = insert_reads [of w n st, folded x_def]
  define y where "y = x\<lparr>mo_roots := btm_insert s w (mo_roots x)\<rparr>"
  have "tree_gen {} {w} x" unfolding x_def by (rule tree_stray [OF t w]) (use n in \<open>auto simp: shape_def\<close>)
  from tree_set_root [OF this, of n s] n r have ty: "tree_gen {} {root} y"
    by (simp add: rx y_def shape_def)
  from tree_genD(4) [OF t r] obtain m where m: "node_of st root = Some m" "wn_parent m = None" "wn_scope m = s" by blast
  have ne: "root \<noteq> w" using m(1) w(1) by (auto simp: is_watched_node_def)
  have f: "node_of y = node_of x" "root_of y = (root_of x)(s \<mapsto> w)" "parent_rel y = parent_rel x"
      "mo_child_index y = mo_child_index x" "held_of y = held_of x"
    by (auto simp: y_def node_of_def root_of_def parent_rel_def held_of_def fun_eq_iff)
  have "tree_ok (relink root w nm y)"
  proof (rule tree_adopt [OF ty])
    show "node_of y root = Some m" using m ne by (simp add: f rx)
    show "unindexed y root"
      using tree_genD(9) [OF t, of _ _ root] m by (fastforce simp: unindexed_def f rx child_watch_def slot_of_def)
    show "root \<notin> ran (held_of y)"
      using tree_genD(12) [OF t, of _ root] m by (auto simp: ran_def f rx is_root_watch_def)
    show "root_of y s' \<noteq> Some root" for s'
      using tree_genD(4) [OF t, of s' root] m ne by (auto simp: f rx)
    show "is_watched_node y w" by (simp add: is_watched_node_def f rx)
    show "child_watch y w nm = None"
    proof (rule ccontr)
      assume "child_watch y w nm \<noteq> None"
      then obtain c where c: "child_watch st w nm = Some c" by (auto simp: child_watch_def f rx)
      from tree_genD(9) [OF t c] tree_genD(6) [OF t, of c _ w] w(1) show False
        by (auto simp: slot_of_def split: option.splits)
    qed
    have "(w, q) \<notin> parent_rel y" for q using n by (auto simp: parent_rel_def f rx shape_def)
    then show "(w, root) \<notin> (parent_rel y)\<^sup>*" using ne by (metis converse_rtranclE)
  qed simp
  moreover have "relink root w nm y = (relink root w nm x)\<lparr>mo_roots := btm_insert s w (mo_roots st)\<rparr>"
    by (simp add: y_def x_def insert_node_roots relink_with_roots)
  ultimately show ?thesis by (simp add: x_def)
qed

lemma tree_vacated: "tree_ok st \<Longrightarrow> tree_ok (st\<lparr>mo_child_index := (mo_child_index st)(slot := None)\<rparr>)"
proof -
  assume t: "tree_ok st"
  define x where "x = st\<lparr>mo_child_index := (mo_child_index st)(slot := None)\<rparr>"
  have f: "node_of x = node_of st" "root_of x = root_of st" "parent_rel x = parent_rel st"
      "is_watched_node x = is_watched_node st" "minted_watch x = minted_watch st" "mo_nodes x = mo_nodes st"
      "held_of x = held_of st" "is_root_watch x = is_root_watch st"
    by (auto simp: x_def node_of_def root_of_def parent_rel_def is_watched_node_def minted_watch_def held_of_def
        is_root_watch_def fun_eq_iff)
  have i: "child_watch st p nm = Some v" if "child_watch x p nm = Some v" for p nm v
    using that by (auto simp: child_watch_def x_def split: if_splits)
  have "unindexed x c" if "unindexed st c" for c using that by (auto simp: unindexed_def x_def)
  then have h: "held_ok x" using t unfolding tree_gen_def held_ok_def f by blast
  note d = tree_genD [OF t]
  have "tree_ok x" by (intro tree_genI) (use d h i in \<open>auto simp: f\<close>)
  then show ?thesis by (simp add: x_def)
qed

lemma tree_moves:
  assumes t: "tree_ok st"
    and h: "\<And>mv c. held_of (st\<lparr>mo_pending_moves := ms\<rparr>) mv = Some c \<Longrightarrow> minted_watch st c \<and> unindexed st c \<and>
      \<not> is_root_watch st c \<and> (\<forall>mv'. held_of (st\<lparr>mo_pending_moves := ms\<rparr>) mv' = Some c \<longrightarrow> mv' = mv)"
  shows "tree_ok (st\<lparr>mo_pending_moves := ms\<rparr>)"
proof -
  define x where "x = st\<lparr>mo_pending_moves := ms\<rparr>"
  have f: "node_of x = node_of st" "root_of x = root_of st" "parent_rel x = parent_rel st"
      "is_watched_node x = is_watched_node st" "minted_watch x = minted_watch st" "mo_nodes x = mo_nodes st"
      "unindexed x = unindexed st" "is_root_watch x = is_root_watch st" "child_watch x = child_watch st"
    by (auto simp: x_def node_of_def root_of_def parent_rel_def is_watched_node_def minted_watch_def unindexed_def
        is_root_watch_def child_watch_def fun_eq_iff)
  have h: "held_ok x" using h unfolding held_ok_def f by (simp add: x_def)
  note d = tree_genD [OF t]
  have "tree_ok x" by (intro tree_genI) (use d h in \<open>auto simp: f\<close>)
  then show ?thesis by (simp add: x_def)
qed

lemma tree_released:
  assumes t: "tree_ok st" and h: "\<And>mv. held_of (st\<lparr>mo_pending_moves := ms\<rparr>) mv \<in> {held_of st mv, None}"
  shows "tree_ok (st\<lparr>mo_pending_moves := ms\<rparr>)"
proof (rule tree_moves [OF t])
  have k: "held_of st mv = Some c" if "held_of (st\<lparr>mo_pending_moves := ms\<rparr>) mv = Some c" for mv c
    using h [of mv] that by auto
  show "minted_watch st c \<and> unindexed st c \<and> \<not> is_root_watch st c \<and>
      (\<forall>mv'. held_of (st\<lparr>mo_pending_moves := ms\<rparr>) mv' = Some c \<longrightarrow> mv' = mv)"
    if "held_of (st\<lparr>mo_pending_moves := ms\<rparr>) mv = Some c" for mv c
    using tree_genD(10-13) [OF t k [OF that]] k by blast
qed

lemma tree_parked:
  assumes t: "tree_ok st" and l: "\<And>c. pm_held pm = Some c \<Longrightarrow> loose st c \<and> is_watched_node st c"
  shows "tree_ok (st\<lparr>mo_pending_moves := btm_insert mv pm (mo_pending_moves st)\<rparr>)"
proof (rule tree_moves [OF t])
  fix mv1 c assume h: "held_of (st\<lparr>mo_pending_moves := btm_insert mv pm (mo_pending_moves st)\<rparr>) mv1 = Some c"
  show "minted_watch st c \<and> unindexed st c \<and> \<not> is_root_watch st c \<and>
      (\<forall>mv'. held_of (st\<lparr>mo_pending_moves := btm_insert mv pm (mo_pending_moves st)\<rparr>) mv' = Some c \<longrightarrow> mv' = mv1)"
  proof (cases "pm_held pm = Some c")
    case True
    then have "loose st c" and "minted_watch st c" using l tree_genD(2) [OF t] by blast+
    moreover have "held_of st mv' \<noteq> Some c" for mv' using \<open>loose st c\<close> unfolding loose_def by (metis ranI)
    ultimately show ?thesis using h by (auto simp: loose_def held_of_insert split: if_splits)
  next
    case False
    then have "held_of st mv1 = Some c" using h by (auto simp: held_of_insert split: if_splits)
    from tree_genD(10-13) [OF t this] False show ?thesis by (auto simp: held_of_insert split: if_splits)
  qed
qed

end
