(* ===== verification/Monitor_Books.thy ===== *)
theory Monitor_Books
  imports Monitor_Tree
begin

text \<open>
  The books of the \<open>Monitor\<close>: the account of nodes that owe a re-arm, which is what a scope waits for before it
  counts as settled, and the register of outstanding reads. Both are kept by hand in the code, next to the
  states of the nodes; \<open>books_ok\<close> says that they agree with the states. With the tree they make the
  invariant \<open>monitor_ok\<close>.
\<close>

section \<open>The books\<close>

definition obliged :: "monitor \<Rightarrow> scope_id \<Rightarrow> watch_id set" where
  "obliged st s = {w. \<exists>n. node_of st w = Some n \<and> wn_scope n = s \<and> is_rearm (wn_state n)}"

definition counted :: "nat \<Rightarrow> nat option" where
  "counted k = (if k = 0 then None else Some k)"

definition account_ok :: "monitor \<Rightarrow> bool" where
  "account_ok st \<longleftrightarrow> (\<forall>s. mo_rearm_pending st s = counted (card (obliged st s)))"

definition reading :: "monitor \<Rightarrow> watch_id \<Rightarrow> req_id option" where
  "reading st w = (case state_of st w of Some (Enumerating req _ _ _) \<Rightarrow> Some req | _ \<Rightarrow> None)"

text \<open>The register agrees with the states, but for the nodes of \<open>W\<close>, whose read is not registered.\<close>

definition reads_but :: "watch_id set \<Rightarrow> monitor \<Rightarrow> bool" where
  "reads_but W st \<longleftrightarrow> (\<forall>req w. mo_pending_enumerate st req = Some w \<longleftrightarrow> w \<notin> W \<and> reading st w = Some req) \<and>
     (\<forall>req w. mo_pending_enumerate st req = Some w \<longrightarrow> req < seq_next (mo_req_ids st))"

abbreviation reads_ok :: "monitor \<Rightarrow> bool" where
  "reads_ok \<equiv> reads_but {}"

definition books_ok :: "monitor \<Rightarrow> bool" where
  "books_ok st \<longleftrightarrow> account_ok st \<and> reads_ok st"

definition posture where
  "posture n = (wn_scope n, is_rearm (wn_state n), case wn_state n of Enumerating req _ _ _ \<Rightarrow> Some req | _ \<Rightarrow> None)"

definition same_books :: "monitor \<Rightarrow> monitor \<Rightarrow> bool" where
  "same_books a b \<longleftrightarrow> (\<forall>w. map_option posture (node_of a w) = map_option posture (node_of b w)) \<and>
     mo_rearm_pending a = mo_rearm_pending b \<and> mo_pending_enumerate a = mo_pending_enumerate b \<and>
     mo_req_ids a = mo_req_ids b"

lemma obliged_posture: "w \<in> obliged st s \<longleftrightarrow>
    (case map_option posture (node_of st w) of Some (s', r, _) \<Rightarrow> s' = s \<and> r | None \<Rightarrow> False)"
  by (auto simp: obliged_def posture_def split: option.split)

lemma reading_posture: "reading st w = Option.bind (map_option posture (node_of st w)) (snd \<circ> snd)"
  by (auto simp: reading_def posture_def state_of_def split: option.split)

lemma books_same: "same_books a b \<Longrightarrow> books_ok a \<Longrightarrow> books_ok b"
proof -
  assume s: "same_books a b" and k: "books_ok a"
  have "obliged b s = obliged a s" for s
    using s by (simp add: set_eq_iff obliged_posture same_books_def)
  moreover have "reading b w = reading a w" for w using s by (simp add: reading_posture same_books_def)
  ultimately show ?thesis using k s by (simp add: books_ok_def account_ok_def reads_but_def same_books_def)
qed

lemma same_books_sym: "same_books a b \<Longrightarrow> same_books b a"
  by (simp add: same_books_def)

lemma same_books_trans: "same_books a b \<Longrightarrow> same_books b c \<Longrightarrow> same_books a c"
  by (simp add: same_books_def)

lemma same_books_core: "core a = core b \<Longrightarrow> same_books a b"
  by (simp add: same_books_def core_def node_of_def)

lemma same_books_refl [simp]: "same_books a a"
  by (simp add: same_books_def)

lemma same_books_fields: "mo_nodes a = mo_nodes b \<Longrightarrow> mo_rearm_pending a = mo_rearm_pending b \<Longrightarrow>
    mo_pending_enumerate a = mo_pending_enumerate b \<Longrightarrow> mo_req_ids a = mo_req_ids b \<Longrightarrow> same_books a b"
  by (simp add: same_books_def node_of_def)

lemma same_books_upd:
  assumes "\<And>n. posture (f n) = posture n"
  shows "same_books (upd_node w f st) st"
proof -
  have "map_option posture (node_of (upd_node w f st) v) = map_option posture (node_of st v)" for v
    using assms by (cases "node_of st v") (simp_all add: node_of_upd)
  then show ?thesis by (simp add: same_books_def) (simp add: upd_node_def)
qed

section \<open>One node changes\<close>

lemma finite_obliged [simp]: "finite (obliged st s)"
proof (rule finite_subset)
  show "obliged st s \<subseteq> dom (map_of (mo_nodes st))" by (auto simp: obliged_def node_of_def)
qed (rule finite_dom_map_of)

lemma counted_inc: "count_inc s m s' = (if s' = s then counted (k + 1) else m s')" if "m s = counted k"
  using that by (auto simp: count_inc_def counted_def)

lemma counted_dec: "count_dec s 1 m s' = (if s' = s then counted (k - 1) else m s')" if "m s = counted k" "0 < k"
  using that by (auto simp: count_dec_def counted_def)

text \<open>An account survives when one node enters or leaves the obligation and the counter follows.\<close>

lemma account_enter:
  assumes "account_ok st" and "\<And>s'. obliged st' s' = (if s' = s then insert w (obliged st s) else obliged st s')"
    and "w \<notin> obliged st s" and "mo_rearm_pending st' = count_inc s (mo_rearm_pending st)"
  shows "account_ok st'"
  using assms by (auto simp: account_ok_def counted_inc [of _ _ "card (obliged st s)"])

lemma account_leave:
  assumes "account_ok st" and "\<And>s'. obliged st' s' = (if s' = s then obliged st s - {w} else obliged st s')"
    and "w \<in> obliged st s" and "mo_rearm_pending st' = count_dec s 1 (mo_rearm_pending st)"
  shows "account_ok st'"
proof -
  have "0 < card (obliged st s)" using assms(3) by (auto simp: card_gt_0_iff)
  with assms show ?thesis by (auto simp: account_ok_def counted_dec [of _ _ "card (obliged st s)"] card_Diff_singleton simp del: One_nat_def)
qed

lemma account_stay: "account_ok st \<Longrightarrow> (\<And>s. obliged st' s = obliged st s) \<Longrightarrow>
    mo_rearm_pending st' = mo_rearm_pending st \<Longrightarrow> account_ok st'"
  by (simp add: account_ok_def)

lemma set_state_reads:
  "node_of (set_state w ns st) v = map_option (\<lambda>n. if v = w then n\<lparr>wn_state := ns\<rparr> else n) (node_of st v)"
  "mo_pending_enumerate (set_state w ns st) = mo_pending_enumerate st"
  "mo_req_ids (set_state w ns st) = mo_req_ids st"
  "mo_rearm_pending (set_state w ns st) = (case node_of st w of None \<Rightarrow> mo_rearm_pending st
     | Some n \<Rightarrow> if is_rearm (wn_state n) = is_rearm ns then mo_rearm_pending st
         else if is_rearm ns then count_inc (wn_scope n) (mo_rearm_pending st)
         else count_dec (wn_scope n) 1 (mo_rearm_pending st))"
proof -
  have f: "node_of (bridge_set s g x) = node_of x" "node_of (rearm_pending_inc s x) = node_of x"
      "node_of (rearm_pending_dec s x) = node_of x" for s g x
    by (simp_all add: node_of_def fun_eq_iff)
  have b: "mo_pending_enumerate (bridge_set s g x) = mo_pending_enumerate x" "mo_req_ids (bridge_set s g x) = mo_req_ids x"
      "mo_rearm_pending (bridge_set s g x) = mo_rearm_pending x" for s g x by (simp_all add: bridge_set_def)
  have i: "mo_pending_enumerate (rearm_pending_inc s x) = mo_pending_enumerate x"
      "mo_req_ids (rearm_pending_inc s x) = mo_req_ids x"
      "mo_rearm_pending (rearm_pending_inc s x) = count_inc s (mo_rearm_pending x)"
      "mo_pending_enumerate (rearm_pending_dec s x) = mo_pending_enumerate x"
      "mo_req_ids (rearm_pending_dec s x) = mo_req_ids x"
      "mo_rearm_pending (rearm_pending_dec s x) = count_dec s 1 (mo_rearm_pending x)" for s x
    by (simp_all add: rearm_pending_inc_def rearm_pending_dec_def acquired_coverage_work_def)
  have u: "mo_pending_enumerate (upd_node q g x) = mo_pending_enumerate x" "mo_req_ids (upd_node q g x) = mo_req_ids x"
      "mo_rearm_pending (upd_node q g x) = mo_rearm_pending x" for q g x by (simp_all add: upd_node_def)
  show "node_of (set_state w ns st) v = map_option (\<lambda>n. if v = w then n\<lparr>wn_state := ns\<rparr> else n) (node_of st v)"
    by (cases "node_of st v") (auto simp: set_state_def Let_def bridge_fresh_rearm_def f node_of_upd split: option.split)
  show "mo_pending_enumerate (set_state w ns st) = mo_pending_enumerate st" "mo_req_ids (set_state w ns st) = mo_req_ids st"
    by (simp_all add: set_state_def Let_def bridge_fresh_rearm_def b i u split: option.split)
  show "mo_rearm_pending (set_state w ns st) = (case node_of st w of None \<Rightarrow> mo_rearm_pending st
     | Some n \<Rightarrow> if is_rearm (wn_state n) = is_rearm ns then mo_rearm_pending st
         else if is_rearm ns then count_inc (wn_scope n) (mo_rearm_pending st)
         else count_dec (wn_scope n) 1 (mo_rearm_pending st))"
    by (simp add: set_state_def Let_def bridge_fresh_rearm_def b i u split: option.split)
qed

lemma account_set_state: "account_ok st \<Longrightarrow> account_ok (set_state w ns st)"
proof -
  assume a: "account_ok st"
  show ?thesis
  proof (cases "node_of st w")
    case None
    then show ?thesis using a by (simp add: set_state_def)
  next
    case (Some n)
    have old: "w \<in> obliged st s \<longleftrightarrow> s = wn_scope n \<and> is_rearm (wn_state n)" for s by (auto simp: obliged_def Some)
    have ob: "obliged (set_state w ns st) s =
        (if s = wn_scope n then if is_rearm ns then insert w (obliged st s) else obliged st s - {w} else obliged st s)" for s
    proof (rule set_eqI)
      fix v
      have "v \<in> obliged (set_state w ns st) s \<longleftrightarrow> (if v = w then s = wn_scope n \<and> is_rearm ns else v \<in> obliged st s)"
        by (auto simp: obliged_def set_state_reads Some)
      then show "v \<in> obliged (set_state w ns st) s \<longleftrightarrow> v \<in> (if s = wn_scope n
          then if is_rearm ns then insert w (obliged st s) else obliged st s - {w} else obliged st s)"
        using old [of s] by (cases "v = w") simp_all
    qed
    note m = set_state_reads(4) [of w ns st, unfolded Some option.case]
    consider "is_rearm (wn_state n) = is_rearm ns" | "is_rearm ns" "\<not> is_rearm (wn_state n)"
      | "\<not> is_rearm ns" "is_rearm (wn_state n)" by blast
    then show ?thesis
    proof cases
      case 1
      show ?thesis by (rule account_stay [OF a]) (use 1 ob old m in \<open>auto simp: insert_absorb\<close>)
    next
      case 2
      show ?thesis by (rule account_enter [OF a, of _ "wn_scope n" w]) (use 2 ob old m in auto)
    next
      case 3
      show ?thesis by (rule account_leave [OF a, of _ "wn_scope n" w]) (use 3 ob old m in auto)
    qed
  qed
qed

lemma reading_set_state: "reading (set_state w ns st) v =
    (if v = w \<and> is_watched_node st w then (case ns of Enumerating req _ _ _ \<Rightarrow> Some req | _ \<Rightarrow> None) else reading st v)"
  by (cases "node_of st v") (auto simp: reading_def state_of_def set_state_reads is_watched_node_def)

section \<open>The steps of the interface\<close>

lemma books_rest_state:
  assumes k: "books_ok st" and s: "state_of st w = Some old" "\<not> enumerating old" "\<not> enumerating ns"
  shows "books_ok (set_state w ns st)"
proof -
  have "reading st w = None" "(case ns of Enumerating req _ _ _ \<Rightarrow> Some req | _ \<Rightarrow> None) = None"
    using s by (auto simp: reading_def split: node_state.split)
  then have "reading (set_state w ns st) = reading st" by (auto simp: reading_set_state fun_eq_iff)
  then show ?thesis using k account_set_state by (simp add: books_ok_def reads_but_def set_state_reads)
qed

lemma books_stay_enum:
  assumes k: "books_ok st" and s: "state_of st w = Some (Enumerating req ek a b)"
  shows "books_ok (set_state w (Enumerating req ek' a' b') st)"
proof -
  have "reading st w = Some req" using s by (simp add: reading_def)
  then have "reading (set_state w (Enumerating req ek' a' b') st) = reading st"
    by (auto simp: reading_set_state fun_eq_iff)
  then show ?thesis using k account_set_state by (simp add: books_ok_def reads_but_def set_state_reads)
qed

text \<open>Forgetting a read, and beginning one.\<close>

lemma register_forget:
  assumes q: "\<And>i v. m i = Some v \<longleftrightarrow> rd v = Some i" and w: "rd w = Some req"
  shows "(m(req := None)) i = Some v \<longleftrightarrow> v \<noteq> w \<and> rd v = Some i"
proof (cases "i = req")
  case True
  have "v = w" if "rd v = Some req" using q [of req v] q [of req w] that w by simp
  with True show ?thesis by auto
next
  case False
  with w have "v \<noteq> w" if "rd v = Some i" using that by auto
  with False q [of i v] show ?thesis by auto
qed

lemma books_forget:
  assumes k: "books_ok st" and w: "reading st w = Some req"
  shows "account_ok (forget_enumerate req st) \<and> reads_but {w} (forget_enumerate req st)"
proof -
  have f: "node_of (forget_enumerate req st) = node_of st" "mo_rearm_pending (forget_enumerate req st) = mo_rearm_pending st"
      "mo_pending_enumerate (forget_enumerate req st) = (mo_pending_enumerate st)(req := None)"
      "mo_req_ids (forget_enumerate req st) = mo_req_ids st"
    by (simp_all add: forget_enumerate_def latent_remove_def node_of_def fun_eq_iff)
  have o: "obliged (forget_enumerate req st) = obliged st" "reading (forget_enumerate req st) = reading st"
    by (simp_all add: obliged_def reading_def state_of_def f fun_eq_iff)
  from k have q: "\<And>i v. mo_pending_enumerate st i = Some v \<longleftrightarrow> reading st v = Some i"
      "\<And>i v. mo_pending_enumerate st i = Some v \<Longrightarrow> i < seq_next (mo_req_ids st)"
    by (auto simp: books_ok_def reads_but_def)
  have "reads_but {w} (forget_enumerate req st)"
    unfolding reads_but_def f o
  proof (intro conjI allI impI)
    show "((mo_pending_enumerate st)(req := None)) i = Some v \<longleftrightarrow> v \<notin> {w} \<and> reading st v = Some i" for i v
      using register_forget [OF q(1) w] by simp
    show "i < seq_next (mo_req_ids st)" if "((mo_pending_enumerate st)(req := None)) i = Some v" for i v
      using that q(2) by (cases "i = req") simp_all
  qed
  moreover have "account_ok (forget_enumerate req st)" using k by (simp add: books_ok_def account_ok_def f o)
  ultimately show ?thesis by blast
qed

lemma books_leave:
  assumes "account_ok st" "reads_but {w} st" "\<not> enumerating ns" "is_watched_node st w"
  shows "books_ok (set_state w ns st)"
proof -
  have "reading (set_state w ns st) v = (if v = w then None else reading st v)" for v
    using assms(3,4) by (auto simp: reading_set_state split: node_state.split)
  then show ?thesis
    using assms(1,2) account_set_state by (auto simp: books_ok_def reads_but_def set_state_reads)
qed

lemma books_leave_enum:
  assumes k: "books_ok st" and s: "state_of st w = Some (Enumerating req ek a b)" and ns: "\<not> enumerating ns"
  shows "books_ok (set_state w ns (st\<lparr>mo_pending_enumerate := (mo_pending_enumerate st)(req := None)\<rparr>))"
proof (rule books_same)
  have "reading st w = Some req" using s by (simp add: reading_def)
  note f = books_forget [OF k this]
  have "is_watched_node (forget_enumerate req st) w"
    using s by (auto simp: is_watched_node_def state_of_def forget_enumerate_def latent_remove_def node_of_def)
  with f show "books_ok (set_state w ns (forget_enumerate req st))" using ns by (blast intro: books_leave)
  show "same_books (set_state w ns (forget_enumerate req st))
      (set_state w ns (st\<lparr>mo_pending_enumerate := (mo_pending_enumerate st)(req := None)\<rparr>))"
    by (rule same_books_core [OF core_set_state_cong [OF core_forget_enumerate]])
qed

lemma books_orphan:
  assumes k: "books_ok st" and p: "mo_pending_enumerate st req = Some w"
    and s: "\<And>ek a b. state_of st w \<noteq> Some (Enumerating req ek a b)"
  shows False
proof -
  have "reading st w = Some req" using k p by (simp add: books_ok_def reads_but_def)
  then show False using s by (auto simp: reading_def split: option.splits node_state.splits)
qed

lemma books_req:
  assumes k: "account_ok st" "reads_but W st" and r: "next_req_id st = Some (req, st')"
  shows "account_ok st'" and "reads_but W st'" and "mo_pending_enumerate st' req = None"
    and "req < seq_next (mo_req_ids st')" and "node_of st' = node_of st"
proof -
  obtain q where q: "mint (mo_req_ids st) = Some (req, q)" "st' = st\<lparr>mo_req_ids := q\<rparr>"
    using r by (auto simp: next_req_id_def split: option.splits)
  have v: "req = seq_next (mo_req_ids st)" "seq_next (mo_req_ids st) < seq_next q"
    using mint_Some [OF q(1)] by (auto simp: word_less_nat_alt)
  show n: "node_of st' = node_of st" by (simp add: q node_of_def fun_eq_iff)
  have o: "obliged st' = obliged st" "reading st' = reading st"
    by (simp_all add: obliged_def reading_def state_of_def n fun_eq_iff)
  have p: "mo_pending_enumerate st' = mo_pending_enumerate st" "mo_rearm_pending st' = mo_rearm_pending st"
      "mo_req_ids st' = q" by (simp_all add: q)
  have lt: "i < seq_next q" if "i < seq_next (mo_req_ids st)" for i using that v(2) by (rule less_trans)
  show "account_ok st'" using k(1) by (simp add: account_ok_def o p)
  show "reads_but W st'" using k(2) lt unfolding reads_but_def o p by blast
  show "mo_pending_enumerate st' req = None"
    using k(2) v(1) unfolding reads_but_def p by (cases "mo_pending_enumerate st req") auto
  show "req < seq_next (mo_req_ids st')" using v by (simp add: p)
qed

lemma books_begin:
  assumes k: "account_ok st" "reads_but {w} st" and w: "is_watched_node st w"
    and r: "mo_pending_enumerate st req = None" "req < seq_next (mo_req_ids st)"
  shows "books_ok (set_state w (Enumerating req ek a b)
    (upd_node w (\<lambda>n. n\<lparr>wn_placement := c\<rparr>) (st\<lparr>mo_pending_enumerate := (mo_pending_enumerate st)(req \<mapsto> w)\<rparr>)))"
proof -
  define x where "x = st\<lparr>mo_pending_enumerate := (mo_pending_enumerate st)(req \<mapsto> w)\<rparr>"
  define y where "y = upd_node w (\<lambda>n. n\<lparr>wn_placement := c\<rparr>) x"
  have n: "map_option posture (node_of y v) = map_option posture (node_of st v)" for v
  proof -
    have "node_of x = node_of st" by (simp add: x_def node_of_def fun_eq_iff)
    then show ?thesis by (cases "node_of st v") (auto simp: y_def node_of_upd posture_def)
  qed
  have o: "obliged y = obliged st" "reading y = reading st"
    by (simp_all add: fun_eq_iff set_eq_iff obliged_posture reading_posture n)
  have f: "mo_rearm_pending y = mo_rearm_pending st" "mo_req_ids y = mo_req_ids st"
      "mo_pending_enumerate y = (mo_pending_enumerate st)(req \<mapsto> w)"
    by (simp_all add: y_def x_def upd_node_def)
  have "is_watched_node y w" using w n [of w] by (auto simp: is_watched_node_def)
  then have rd: "reading (set_state w (Enumerating req ek a b) y) v = (if v = w then Some req else reading st v)" for v
    by (auto simp: reading_set_state o)
  have ay: "account_ok y" using k(1) by (simp add: account_ok_def o f)
  from k(2) have q: "\<And>i v. mo_pending_enumerate st i = Some v \<longleftrightarrow> v \<noteq> w \<and> reading st v = Some i"
      "\<And>i v. mo_pending_enumerate st i = Some v \<Longrightarrow> i < seq_next (mo_req_ids st)"
    by (auto simp: reads_but_def)
  have "reading st v \<noteq> Some req" if "v \<noteq> w" for v using q(1) [of req v] r(1) that by simp
  with q r(2) have "reads_ok (set_state w (Enumerating req ek a b) y)"
    unfolding reads_but_def rd set_state_reads f by auto
  then show ?thesis using account_set_state [OF ay] by (simp add: books_ok_def y_def x_def)
qed

lemma books_queued:
  assumes k: "books_ok st" and q: "queue_enumerate w ek at st = Some st'"
  shows "books_ok st'"
proof (cases "state_of st w")
  case (Some ns)
  define x where "x = (case ns of Enumerating prior _ _ _ \<Rightarrow> forget_enumerate prior st | _ \<Rightarrow> st)"
  have x: "account_ok x \<and> reads_but {w} x"
  proof (cases "reading st w")
    case None
    then have "x = st" using Some by (auto simp: x_def reading_def split: node_state.splits)
    then show ?thesis using k None by (auto simp: books_ok_def reads_but_def)
  next
    case (Some r)
    then have "x = forget_enumerate r st" using \<open>state_of st w = Some ns\<close> by (auto simp: x_def reading_def split: node_state.splits)
    then show ?thesis using books_forget [OF k Some] by simp
  qed
  have nx: "node_of x = node_of st"
    by (simp add: x_def forget_enumerate_def latent_remove_def node_of_def fun_eq_iff split: node_state.split)
  from q Some obtain req st2 where r: "next_req_id x = Some (req, st2)" and
      st': "st' = (let st3 = st2\<lparr>mo_pending_enumerate := (mo_pending_enumerate st2)(req \<mapsto> w)\<rparr>;
        st4 = upd_node w (\<lambda>n. n\<lparr>wn_placement := mo_placement_clock st3\<rparr>) st3;
        st5 = set_state w (Enumerating req ek at False) st4
        in st5\<lparr>mo_actions := mo_actions st5 @ [ActEnumerate req w]\<rparr>)"
    by (auto simp: queue_enumerate_def x_def Let_def bind_eq_Some_conv)
  note b = books_req [OF x [THEN conjunct1] x [THEN conjunct2] r]
  have "is_watched_node st2 w" using Some by (auto simp: is_watched_node_def b(5) nx state_of_def)
  from books_begin [OF b(1,2) this b(3,4), of ek at False "mo_placement_clock st2"] show ?thesis
    unfolding st' Let_def by (rule books_same [rotated]) (simp add: same_books_core)
qed (use assms in \<open>simp add: queue_enumerate_def\<close>)

text \<open>A node comes in, and goes.\<close>

lemma insert_books: "mo_pending_enumerate (insert_node w n st) = mo_pending_enumerate st"
    "mo_req_ids (insert_node w n st) = mo_req_ids st"
    "mo_rearm_pending (insert_node w n st) =
      (if is_rearm (wn_state n) then count_inc (wn_scope n) (mo_rearm_pending st) else mo_rearm_pending st)"
  by (simp_all add: insert_node_def Let_def bridge_fresh_rearm_def bridge_set_def rearm_pending_inc_def
      acquired_coverage_work_def)

lemma books_insert:
  assumes k: "books_ok st" and w: "\<not> is_watched_node st w" and n: "\<not> enumerating (wn_state n)"
  shows "books_ok (insert_node w n st)"
proof -
  have none: "node_of st w = None" using w by (simp add: is_watched_node_def)
  have old: "w \<notin> obliged st s" for s by (simp add: obliged_def none)
  have ob: "obliged (insert_node w n st) s =
      (if s = wn_scope n \<and> is_rearm (wn_state n) then insert w (obliged st s) else obliged st s)" for s
    using none by (auto simp: obliged_def insert_reads)
  have a: "account_ok st" using k by (simp add: books_ok_def)
  have "account_ok (insert_node w n st)"
  proof (cases "is_rearm (wn_state n)")
    case True
    show ?thesis by (rule account_enter [OF a, of _ "wn_scope n" w]) (use True ob old in \<open>auto simp: insert_books\<close>)
  next
    case False
    show ?thesis by (rule account_stay [OF a]) (use False ob in \<open>auto simp: insert_books\<close>)
  qed
  moreover have "reading (insert_node w n st) = reading st"
    using none n by (auto simp: reading_def state_of_def insert_reads fun_eq_iff split: node_state.split)
  ultimately show ?thesis using k by (simp add: books_ok_def reads_but_def insert_books)
qed

lemma unlink_books: "mo_pending_enumerate (unlink_node w n st) = mo_pending_enumerate st"
    "mo_req_ids (unlink_node w n st) = mo_req_ids st"
    "mo_rearm_pending (unlink_node w n st) =
      (if is_rearm (wn_state n) then count_dec (wn_scope n) 1 (mo_rearm_pending st) else mo_rearm_pending st)"
proof -
  have u: "mo_pending_enumerate (upd_node q g x) = mo_pending_enumerate x" "mo_req_ids (upd_node q g x) = mo_req_ids x"
      "mo_rearm_pending (upd_node q g x) = mo_rearm_pending x" for q g x by (simp_all add: upd_node_def)
  have v: "mo_pending_enumerate (vacate_child_slot p nm x) = mo_pending_enumerate x"
      "mo_req_ids (vacate_child_slot p nm x) = mo_req_ids x" "mo_rearm_pending (vacate_child_slot p nm x) = mo_rearm_pending x"
    for p nm x
    by (simp_all add: vacate_child_slot_def upd_slot_stat_def upd_stat_def split: option.split)
  show "mo_pending_enumerate (unlink_node w n st) = mo_pending_enumerate st"
    "mo_req_ids (unlink_node w n st) = mo_req_ids st"
    "mo_rearm_pending (unlink_node w n st) =
      (if is_rearm (wn_state n) then count_dec (wn_scope n) 1 (mo_rearm_pending st) else mo_rearm_pending st)"
    by (simp_all add: unlink_node_def Let_def rearm_pending_dec_def u v split: option.split)
qed

lemma books_unlink:
  assumes k: "books_ok st" and n: "node_of st w = Some n"
  shows "account_ok (unlink_node w n st)"
    and "reading (unlink_node w n st) v = (if v = w then None else reading st v)"
proof -
  have m: "map_option posture (node_of (unlink_node w n st) v) =
      (if v = w then None else map_option posture (node_of st v))" for v
    by (cases "node_of st v") (auto simp: unlink_reads posture_def)
  show "reading (unlink_node w n st) v = (if v = w then None else reading st v)"
    by (simp add: reading_posture m)
  have ob: "obliged (unlink_node w n st) s = obliged st s - {w}" for s
  proof (rule set_eqI)
    show "v \<in> obliged (unlink_node w n st) s \<longleftrightarrow> v \<in> obliged st s - {w}" for v
      by (cases "v = w") (simp_all add: obliged_posture m)
  qed
  have old: "w \<in> obliged st s \<longleftrightarrow> s = wn_scope n \<and> is_rearm (wn_state n)" for s by (auto simp: obliged_def n)
  have a: "account_ok st" using k by (simp add: books_ok_def)
  show "account_ok (unlink_node w n st)"
  proof (cases "is_rearm (wn_state n)")
    case True
    show ?thesis by (rule account_leave [OF a, of _ "wn_scope n" w]) (use True ob old in \<open>auto simp: unlink_books\<close>)
  next
    case False
    show ?thesis by (rule account_stay [OF a]) (use False ob old in \<open>auto simp: unlink_books\<close>)
  qed
qed

text \<open>Of the markers only the read matters to the books.\<close>

lemma same_books_markers: "MkEnumerate \<notin> set ms \<Longrightarrow> same_books (snd (reclaim_markers ms w n (er, st))) st"
proof (induction ms arbitrary: er st)
  case (Cons m ms)
  obtain c st1 where c: "reclaim_node_marker m w n st = (c, st1)" by fastforce
  have "m \<noteq> MkEnumerate" using Cons.prems by auto
  then have "same_books st1 st" using core_reclaim [of m w n st] c by (intro same_books_core) simp
  with Cons c show ?case using same_books_trans [of _ st1 st] by simp
qed (simp add: same_books_core)

lemma books_drop_one:
  assumes k: "books_ok st" and n: "node_of st w = Some n"
  shows "books_ok (snd (drop_one w n er st))"
proof -
  define x where "x = unlink_node w n st"
  define y where "y = snd (reclaim_node_marker MkEnumerate w n x)"
  note b = books_unlink [OF k n, folded x_def]
  have y: "y = (case reading st w of Some req \<Rightarrow> forget_enumerate req x | None \<Rightarrow> x)"
    by (simp add: y_def reading_def state_of_def n split: node_state.split)
  have f: "mo_rearm_pending y = mo_rearm_pending x" "mo_req_ids y = mo_req_ids st" "node_of y = node_of x"
      "mo_pending_enumerate y = (case reading st w of Some req \<Rightarrow> (mo_pending_enumerate st)(req := None)
        | None \<Rightarrow> mo_pending_enumerate st)"
    by (simp_all add: y forget_enumerate_def latent_remove_def node_of_def fun_eq_iff x_def unlink_books split: option.split)
  have o: "obliged y = obliged x" "reading y = reading x"
    by (simp_all add: obliged_def reading_def state_of_def f fun_eq_iff)
  from k have q: "\<And>i v. mo_pending_enumerate st i = Some v \<longleftrightarrow> reading st v = Some i"
      "\<And>i v. mo_pending_enumerate st i = Some v \<Longrightarrow> i < seq_next (mo_req_ids st)"
    by (auto simp: books_ok_def reads_but_def)
  have "reads_ok y"
    unfolding reads_but_def f o b(2)
  proof (intro conjI allI impI)
    show "(case reading st w of None \<Rightarrow> mo_pending_enumerate st | Some req \<Rightarrow> (mo_pending_enumerate st)(req := None)) i =
        Some v \<longleftrightarrow> v \<notin> {} \<and> (if v = w then None else reading st v) = Some i" for i v
      using register_forget [OF q(1)] q(1) [of i v] by (cases "reading st w") auto
    show "i < seq_next (mo_req_ids st)" if "(case reading st w of None \<Rightarrow> mo_pending_enumerate st
        | Some req \<Rightarrow> (mo_pending_enumerate st)(req := None)) i = Some v" for i v
      using that q(2) [of i v] by (auto split: option.splits if_splits)
  qed
  moreover have "account_ok y" using b(1) by (simp add: account_ok_def o f)
  ultimately have "books_ok y" by (simp add: books_ok_def)
  moreover have "same_books y (snd (drop_one w n er st))"
  proof -
    obtain c where c: "reclaim_node_marker MkEnumerate w n x = (c, y)" by (simp add: y_def)
    define rest where "rest = tl node_marker_all"
    have l: "node_marker_all = MkEnumerate # rest" "MkEnumerate \<notin> set rest" by (simp_all add: rest_def node_marker_all_def)
    obtain er1 st1 where r: "reclaim_markers rest w n (absorb c er, y) = (er1, st1)" by fastforce
    have "same_books st1 y" using same_books_markers [OF l(2), of w n "absorb c er" y] r by simp
    moreover have "snd (drop_one w n er st) = st1\<lparr>mo_actions := mo_actions st1 @ [ActUnwatch w]\<rparr>"
      using r c by (simp add: drop_one_def l(1) x_def)
    moreover have "same_books (st1\<lparr>mo_actions := as\<rparr>) st1" for as by (simp add: same_books_core)
    ultimately show ?thesis by (metis same_books_sym same_books_trans)
  qed
  ultimately show ?thesis by (rule books_same [rotated])
qed

lemma books_drop_walk: "books_ok st \<Longrightarrow> books_ok (snd (drop_walk ws er st))"
proof (induction ws er st rule: drop_walk.induct)
  case (2 w stack er st)
  show ?case
  proof (cases "node_of st w")
    case None
    with 2 show ?thesis by simp
  next
    case (Some n)
    obtain er1 st1 where d: "drop_one w n er st = (er1, st1)" by fastforce
    have "books_ok st1" using books_drop_one [OF 2(3) Some, of er] by (simp add: d)
    from 2(2) [OF Some d [symmetric] this] show ?thesis by (simp add: Some d)
  qed
qed simp

section \<open>The invariant\<close>

lemma tree_queued: "tree_ok st \<Longrightarrow> queue_enumerate w ek at st = Some st' \<Longrightarrow> tree_ok st'"
proof (cases "state_of st w")
  case (Some ns)
  assume t: "tree_ok st" and q: "queue_enumerate w ek at st = Some st'"
  define x where "x = (case ns of Enumerating prior _ _ _ \<Rightarrow> forget_enumerate prior st | _ \<Rightarrow> st)"
  have p1: "same_tree st x"
    by (rule same_tree_fields) (simp_all add: x_def forget_enumerate_def latent_remove_def split: node_state.split)
  from q Some obtain req st2 where r: "next_req_id x = Some (req, st2)" and
      st': "st' = (let st3 = st2\<lparr>mo_pending_enumerate := (mo_pending_enumerate st2)(req \<mapsto> w)\<rparr>;
        st4 = upd_node w (\<lambda>n. n\<lparr>wn_placement := mo_placement_clock st3\<rparr>) st3;
        st5 = set_state w (Enumerating req ek at False) st4
        in st5\<lparr>mo_actions := mo_actions st5 @ [ActEnumerate req w]\<rparr>)"
    by (auto simp: queue_enumerate_def x_def Let_def bind_eq_Some_conv)
  have p2: "same_tree x (st2\<lparr>mo_pending_enumerate := m\<rparr>)" for m
    using r by (intro same_tree_fields) (auto simp: next_req_id_def split: option.splits)
  have p3: "same_tree y (upd_node w (\<lambda>n. n\<lparr>wn_placement := c\<rparr>) y)" for y c
    by (rule same_tree_sym [OF same_tree_upd]) (simp add: links_def)
  have p4: "same_tree y (z\<lparr>mo_actions := as\<rparr>)" if "same_tree y z" for y z as
    using that by (rule same_tree_trans) (simp add: same_tree_core)
  have "same_tree st st'"
    unfolding st' Let_def
    by (rule p4 [OF same_tree_trans [OF same_tree_trans [OF same_tree_trans [OF p1 p2] p3] same_tree_sym [OF same_tree_set_state]]])
  then show ?thesis using t by (rule tree_same)
qed (simp add: queue_enumerate_def)

definition monitor_ok :: "monitor \<Rightarrow> bool" where
  "monitor_ok st \<longleftrightarrow> tree_ok st \<and> books_ok st"

lemma ok_same: "same_tree a b \<Longrightarrow> same_books a b \<Longrightarrow> monitor_ok a \<Longrightarrow> monitor_ok b"
  unfolding monitor_ok_def by (blast intro: tree_same books_same)

lemma ok_tree: "same_tree a b \<Longrightarrow> books_ok b \<Longrightarrow> monitor_ok a \<Longrightarrow> monitor_ok b"
  unfolding monitor_ok_def by (blast intro: tree_same)

lemma ok_books: "tree_ok b \<Longrightarrow> same_books a b \<Longrightarrow> monitor_ok a \<Longrightarrow> monitor_ok b"
  unfolding monitor_ok_def by (blast intro: books_same)

lemma ok_fields: "mo_nodes b = mo_nodes a \<Longrightarrow> mo_child_index b = mo_child_index a \<Longrightarrow> mo_roots b = mo_roots a \<Longrightarrow>
    mo_watch_ids b = mo_watch_ids a \<Longrightarrow> mo_pending_moves b = mo_pending_moves a \<Longrightarrow>
    mo_rearm_pending b = mo_rearm_pending a \<Longrightarrow> mo_pending_enumerate b = mo_pending_enumerate a \<Longrightarrow>
    mo_req_ids b = mo_req_ids a \<Longrightarrow> monitor_ok a \<Longrightarrow> monitor_ok b"
  by (rule ok_same [OF same_tree_fields same_books_fields]) simp_all

lemma same_books_relink: "same_books (relink c p nm st) st"
proof -
  have l: "posture (n\<lparr>wn_children := cs\<rparr>) = posture n" "posture (n\<lparr>wn_parent := q, wn_name := nm\<rparr>) = posture n"
    for n cs q nm by (simp_all add: posture_def)
  have f: "same_books (x\<lparr>mo_child_index := i\<rparr>) x" for x i by (rule same_books_fields) simp_all
  have u: "same_books (upd_node v g x) x" if "\<And>n. posture (g n) = posture n" for v g x by (rule same_books_upd [OF that])
  show ?thesis
    unfolding relink_def Let_def
    by (rule same_books_trans [OF f same_books_trans [OF u same_books_trans [OF u]]])
      (auto simp: l intro!: u split: option.split)
qed

lemma books_installed:
  assumes k: "books_ok st2" and w: "\<not> is_watched_node st2 w"
    and n: "shape n = (Some p, Some nm, s, Arming False False, [])"
  shows "books_ok ((upd_node p (\<lambda>x. x\<lparr>wn_children := bts_insert w (wn_children x)\<rparr>) (insert_node w n st2))\<lparr>mo_child_index :=
    (mo_child_index st2)((p, nm) \<mapsto> w)\<rparr>)"
proof (rule books_same)
  show "books_ok (insert_node w n st2)" using n by (intro books_insert [OF k w]) (auto simp: shape_def)
  have "same_books (upd_node p (\<lambda>x. x\<lparr>wn_children := bts_insert w (wn_children x)\<rparr>) (insert_node w n st2)) (insert_node w n st2)"
    by (rule same_books_upd) (simp add: posture_def)
  moreover have "same_books x (x\<lparr>mo_child_index := i\<rparr>)" for x i by (rule same_books_fields) simp_all
  ultimately show "same_books (insert_node w n st2) ((upd_node p (\<lambda>x. x\<lparr>wn_children := bts_insert w (wn_children x)\<rparr>)
      (insert_node w n st2))\<lparr>mo_child_index := (mo_child_index st2)((p, nm) \<mapsto> w)\<rparr>)"
    by (blast intro: same_books_trans same_books_sym)
qed

lemma books_minted: "books_ok st \<Longrightarrow> next_watch_id st = Some (w, st1) \<Longrightarrow> core st2 = core st1 \<Longrightarrow> books_ok st2"
proof -
  assume k: "books_ok st" and w: "next_watch_id st = Some (w, st1)" and c: "core st2 = core st1"
  have "same_books st st1"
    using w by (intro same_books_fields) (auto simp: next_watch_id_def split: option.splits)
  from books_same [OF this k] show "books_ok st2" by (rule books_same [OF same_books_core [OF c [symmetric]]])
qed

lemma fresh_node: "tree_ok st \<Longrightarrow> next_watch_id st = Some (w, st1) \<Longrightarrow> core st2 = core st1 \<Longrightarrow> \<not> is_watched_node st2 w"
  using tree_minted [of st w st1] core_readings [of st2 st1 w] by (simp add: is_watched_node_def)

interpretation wf: monitor_invariant monitor_ok
proof
  show "monitor_ok st'" if "core st = core st'" "monitor_ok st" for st st'
    using that by (blast intro: ok_same same_tree_core same_books_core)
  show "is_watched_node st p \<and> (\<exists>n. node_of st c = Some n \<and> slot_of n = Some (p, nm))"
    if "monitor_ok st" "child_watch st p nm = Some c" for st p nm c
    using that tree_genD(6,9) [of "{}" "{}" st] unfolding monitor_ok_def slot_of_Some by blast
  show "unindexed st c \<and> \<not> is_root_watch st c \<and> (\<forall>mv'. held_of st mv' = Some c \<longrightarrow> mv' = mv)"
    if "monitor_ok st" "held_of st mv = Some c" for st mv c
    using that unfolding monitor_ok_def tree_gen_def held_ok_def by blast
  show "is_watched_node st w" if "monitor_ok st" "root_of st s = Some w" for st s w
    using that tree_genD(4) [of "{}" "{}" st s w] by (auto simp: monitor_ok_def is_watched_node_def)
  show "monitor_ok st'" if "monitor_ok st" "next_watch_id st = Some (w, st')" for st w st'
    using that tree_minted books_minted unfolding monitor_ok_def by blast
  show "monitor_ok st'" if "monitor_ok st" "next_req_id st = Some (req, st')" for st req st'
  proof (rule ok_tree [OF _ _ that(1)])
    show "same_tree st st'" using that by (intro same_tree_fields) (auto simp: next_req_id_def split: option.splits)
    show "books_ok st'" using that books_req [OF _ _ that(2)] by (auto simp: monitor_ok_def books_ok_def)
  qed
  show "monitor_ok st'" if "monitor_ok st" "mint_rescan s loc st = Some (r, st')" for st s loc r st'
    using that by (intro ok_fields [of st' st]) (auto simp: mint_rescan_def emit_def next_change_id_def bump_epoch_def
      split: if_splits option.splits bind_splits)
  show "monitor_ok st'" if "monitor_ok st" "emit s loc k pv d st = Some (r, st')" for st s loc k pv d r st'
    using that by (intro ok_fields [of st' st]) (auto simp: emit_def next_change_id_def
      split: if_splits option.splits bind_splits)
  show "monitor_ok (upd_node w f st)" if "monitor_ok st" "\<And>n. shape (f n) = shape n" for st w f
    using that(2) by (intro ok_same [OF _ _ that(1)] same_tree_sym [OF same_tree_upd] same_books_sym [OF same_books_upd])
      (auto simp: shape_def links_def posture_def)
  show "monitor_ok (mark_enumerate_dirty w st)" if "monitor_ok st" for st w
    unfolding mark_enumerate_dirty_def
    by (intro ok_same [OF _ _ that] same_tree_sym [OF same_tree_upd] same_books_sym [OF same_books_upd])
      (auto simp: links_def posture_def split: node_state.split)
  note sst = same_tree_sym [OF same_tree_set_state]
  show "monitor_ok (set_state w ns st)" if "monitor_ok st" "state_of st w = Some old" "\<not> enumerating old" "\<not> enumerating ns"
    for st w old ns
    using that by (intro ok_tree [OF sst _ that(1)] books_rest_state) (auto simp: monitor_ok_def)
  show "monitor_ok (set_state w ns (st\<lparr>mo_pending_enumerate := (mo_pending_enumerate st)(req := None)\<rparr>))"
    if "monitor_ok st" "state_of st w = Some (Enumerating req ek a b)" "\<not> enumerating ns" for st w req ek a b ns
    using that by (intro ok_tree [OF same_tree_trans [OF _ sst] _ that(1)] books_leave_enum same_tree_fields)
      (auto simp: monitor_ok_def)
  show "monitor_ok (set_state w (Enumerating req ek a' b') st)"
    if "monitor_ok st" "state_of st w = Some (Enumerating req ek a b)" for st w req ek a b a' b'
    using that by (intro ok_tree [OF sst _ that(1)] books_stay_enum) (auto simp: monitor_ok_def)
  show "monitor_ok (st\<lparr>mo_pending_enumerate := (mo_pending_enumerate st)(req := None)\<rparr>)"
    if "monitor_ok st" "mo_pending_enumerate st req = Some w"
      "\<And>ek a b. state_of st w \<noteq> Some (Enumerating req ek a b)" for st req w
    using books_orphan [OF _ that(2,3)] that(1) by (auto simp: monitor_ok_def)
  show "monitor_ok st'" if "monitor_ok st" "queue_enumerate w ek at st = Some st'" for st w ek at st'
    using that books_queued tree_queued unfolding monitor_ok_def by blast
  show "monitor_ok ((upd_node p (\<lambda>x. x\<lparr>wn_children := bts_insert w (wn_children x)\<rparr>) (insert_node w n st2))\<lparr>mo_child_index :=
      (mo_child_index st2)((p, nm) \<mapsto> w)\<rparr>)"
    if "monitor_ok st" "is_watched_node st p" "child_watch st p nm = None" "next_watch_id st = Some (w, st1)"
      "core st2 = core st1" "shape n = (Some p, Some nm, s, Arming False False, [])" for st p nm w st1 st2 n s
    using tree_installed [OF _ that(2-6)] books_installed [OF books_minted [OF _ that(4,5)] fresh_node [OF _ that(4,5)] that(6)]
      that(1) by (simp add: monitor_ok_def)
  show "monitor_ok (st\<lparr>mo_child_index := (mo_child_index st)(slot := None)\<rparr>)" if "monitor_ok st" for st slot
    using that by (intro ok_books [OF tree_vacated same_books_fields that]) (auto simp: monitor_ok_def)
  show "monitor_ok (snd (drop_walk [w] erased_none st))" if "monitor_ok st" for st w
    using that tree_dropped books_drop_walk unfolding monitor_ok_def by blast
  show "monitor_ok (relink c p nm st)"
    if "monitor_ok st" "loose st c" "is_watched_node st c" "is_watched_node st p" "child_watch st p nm = None"
      "(p, c) \<notin> (parent_rel st)\<^sup>*" for st c p nm
    using that tree_relinked [OF _ that(2-6)]
    by (intro ok_books [OF _ same_books_sym [OF same_books_relink] that(1)]) (auto simp: monitor_ok_def)
  show "monitor_ok ((insert_node w n st2)\<lparr>mo_roots := btm_insert s w (mo_roots st2)\<rparr>)"
    if "monitor_ok st" "root_of st s = None" "next_watch_id st = Some (w, st1)" "core st2 = core st1"
      "shape n = (None, None, s, Arming True False, [])" for st s w st1 st2 n
  proof -
    have "books_ok (insert_node w n st2)"
      using that(1,5) books_minted [OF _ that(3,4)] fresh_node [OF _ that(3,4)]
      by (intro books_insert) (auto simp: monitor_ok_def shape_def)
    then have "books_ok ((insert_node w n st2)\<lparr>mo_roots := btm_insert s w (mo_roots st2)\<rparr>)"
      by (rule books_same [rotated]) (simp add: same_books_fields)
    then show ?thesis using tree_registered [OF _ that(2-5)] that(1) by (simp add: monitor_ok_def)
  qed
  show "monitor_ok ((relink root w nm (insert_node w n st))\<lparr>mo_roots := btm_insert s w (mo_roots st)\<rparr>)"
    if "monitor_ok st" "root_of st s = Some root" "\<not> is_watched_node st w" "minted_watch st w" "w \<notin> ran (held_of st)"
      "shape n = (None, None, s, Arming False False, [])" for st s root w n nm
  proof -
    have "books_ok (insert_node w n st)"
      using that(1,6) by (intro books_insert [OF _ that(3)]) (auto simp: monitor_ok_def shape_def)
    then have "books_ok (relink root w nm (insert_node w n st))"
      by (rule books_same [OF same_books_sym [OF same_books_relink]])
    then have "books_ok ((relink root w nm (insert_node w n st))\<lparr>mo_roots := btm_insert s w (mo_roots st)\<rparr>)"
      by (rule books_same [rotated]) (simp add: same_books_fields)
    then show ?thesis using tree_widened [OF _ that(2-6)] that(1) by (simp add: monitor_ok_def)
  qed
  show "monitor_ok (snd (drop_walk [w] erased_none (st\<lparr>mo_roots := btm_remove s (mo_roots st)\<rparr>)))"
    if "monitor_ok st" "root_of st s = Some w" for st s w
  proof -
    have "books_ok (st\<lparr>mo_roots := btm_remove s (mo_roots st)\<rparr>)"
      by (rule books_same [OF same_books_fields [of st]]) (use that(1) in \<open>simp_all add: monitor_ok_def\<close>)
    then show ?thesis using tree_unrooted [OF _ that(2)] books_drop_walk that(1) by (simp add: monitor_ok_def del: drop_walk.simps)
  qed
  show "monitor_ok (st\<lparr>mo_pending_moves := ms\<rparr>)"
    if "monitor_ok st" "\<And>mv. held_of (st\<lparr>mo_pending_moves := ms\<rparr>) mv \<in> {held_of st mv, None}" for st ms
    using that(1) by (intro ok_books [OF tree_released [OF _ that(2)] same_books_fields that(1)]) (auto simp: monitor_ok_def)
  show "monitor_ok (st\<lparr>mo_pending_moves := btm_insert mv pm (mo_pending_moves st)\<rparr>)"
    if "monitor_ok st" "\<And>c. pm_held pm = Some c \<Longrightarrow> loose st c \<and> is_watched_node st c" for st pm mv
    using that(1) by (intro ok_books [OF tree_parked [OF _ that(2)] same_books_fields that(1)]) (auto simp: monitor_ok_def)
qed

end
