(* ===== verification/Monitor_Stream.thy ===== *)
theory Monitor_Stream
  imports Monitor_Books "HOL-Library.Sublist"
begin

text \<open>
  What a \<open>Monitor\<close> emits. Its outbox is the queue of changes with the minter of their identifiers and the
  epochs of the scopes; only emission writes it. The locale \<open>outbox_invariant\<close> asks of a predicate that it
  depends on the outbox alone and is kept by the two emissions, and gives it to every operation through
  \<open>monitor_invariant\<close>. Two predicates meet it: the order of the stream, and that nothing queued is taken back.
\<close>

section \<open>The outbox\<close>

definition outbox where
  "outbox st = (mo_events st, mo_change_ids st, mo_scope_epochs st)"

lemma outbox_core: "core a = core b \<Longrightarrow> outbox a = outbox b"
  by (simp add: outbox_def core_def)

lemma outbox_fields [simp]:
  "outbox (st\<lparr>mo_nodes := a1\<rparr>) = outbox st" "outbox (st\<lparr>mo_child_index := a2\<rparr>) = outbox st"
  "outbox (st\<lparr>mo_roots := a3\<rparr>) = outbox st" "outbox (st\<lparr>mo_watch_ids := a4\<rparr>) = outbox st"
  "outbox (st\<lparr>mo_pending_enumerate := a5\<rparr>) = outbox st" "outbox (st\<lparr>mo_req_ids := a6\<rparr>) = outbox st"
  "outbox (st\<lparr>mo_pending_moves := a7\<rparr>) = outbox st" "outbox (st\<lparr>mo_actions := a8\<rparr>) = outbox st"
  "outbox (st\<lparr>mo_rearm_pending := a9\<rparr>) = outbox st" "outbox (st\<lparr>mo_bridge := b1\<rparr>) = outbox st"
  "outbox (st\<lparr>mo_latent_cold := b2\<rparr>) = outbox st" "outbox (st\<lparr>mo_coverage_work_epochs := b3\<rparr>) = outbox st"
  "outbox (upd_node w f st) = outbox st"
  by (simp_all add: outbox_def upd_node_def)

lemma outbox_counters [simp]: "outbox (bridge_set s f st) = outbox st" "outbox (rearm_pending_inc s st) = outbox st"
    "outbox (rearm_pending_dec s st) = outbox st" "outbox (vacate_child_slot p nm st) = outbox st"
  by (simp_all add: bridge_set_def rearm_pending_inc_def rearm_pending_dec_def acquired_coverage_work_def
      vacate_child_slot_def upd_slot_stat_def upd_stat_def split: option.split)
    (simp_all add: outbox_def)

lemma outbox_steps [simp]: "outbox (set_state w ns st) = outbox st" "outbox (insert_node w n st) = outbox st"
    "outbox (relink c p nm st) = outbox st" "outbox (unlink_node w n st) = outbox st"
    "outbox (mark_enumerate_dirty w st) = outbox st" "outbox (forget_enumerate r st) = outbox st"
  by (simp_all add: set_state_def insert_node_def relink_def unlink_node_def mark_enumerate_dirty_def
      forget_enumerate_def latent_remove_def bridge_fresh_rearm_def Let_def split: option.split)

lemma outbox_reclaims: "outbox (snd (reclaim_markers ms w n (er, st))) = outbox st"
proof (induction ms arbitrary: er st)
  case (Cons m ms)
  obtain c st1 where c: "reclaim_node_marker m w n st = (c, st1)" by fastforce
  have "outbox (snd (reclaim_node_marker m w n st)) = outbox st"
    using outbox_core [OF core_reclaim [of m w n st]]
    by (cases "m = MkEnumerate") (auto split: node_state.split)
  with Cons c show ?case by simp
qed simp

lemma outbox_drop_one: "outbox (snd (drop_one w n er st)) = outbox st"
proof -
  obtain er1 st1 where r: "reclaim_markers node_marker_all w n (er, unlink_node w n st) = (er1, st1)" by fastforce
  then show ?thesis using outbox_reclaims [of node_marker_all w n er "unlink_node w n st"] by (simp add: drop_one_def)
qed

lemma outbox_drop_walk [simp]: "outbox (snd (drop_walk ws er st)) = outbox st"
proof (induction ws er st rule: drop_walk.induct)
  case (2 w stack er st)
  show ?case
  proof (cases "node_of st w")
    case (Some n)
    obtain er1 st1 where d: "drop_one w n er st = (er1, st1)" by fastforce
    from 2(2) [OF Some d [symmetric]] show ?thesis using outbox_drop_one [of w n er st] by (simp add: Some d)
  qed (use 2 in simp)
qed simp

lemma outbox_mints: "next_watch_id st = Some (w, st') \<Longrightarrow> outbox st' = outbox st"
    "next_req_id st = Some (r, st') \<Longrightarrow> outbox st' = outbox st"
  by (auto simp: next_watch_id_def next_req_id_def split: option.splits)

lemma outbox_queued: "queue_enumerate w ek at st = Some st' \<Longrightarrow> outbox st' = outbox st"
proof (cases "state_of st w")
  case (Some ns)
  define x where "x = (case ns of Enumerating prior _ _ _ \<Rightarrow> forget_enumerate prior st | _ \<Rightarrow> st)"
  assume "queue_enumerate w ek at st = Some st'"
  with Some obtain req st2 where r: "next_req_id x = Some (req, st2)" and
      st': "st' = (let st3 = st2\<lparr>mo_pending_enumerate := (mo_pending_enumerate st2)(req \<mapsto> w)\<rparr>;
        st4 = upd_node w (\<lambda>n. n\<lparr>wn_placement := mo_placement_clock st3\<rparr>) st3;
        st5 = set_state w (Enumerating req ek at False) st4
        in st5\<lparr>mo_actions := mo_actions st5 @ [ActEnumerate req w]\<rparr>)"
    by (auto simp: queue_enumerate_def x_def Let_def bind_eq_Some_conv)
  have "outbox x = outbox st" by (simp add: x_def split: node_state.split)
  then show ?thesis using outbox_mints(2) [OF r] by (simp add: st' Let_def)
qed (simp add: queue_enumerate_def)

section \<open>Invariants of the outbox\<close>

locale outbox_invariant =
  fixes Q :: "monitor \<Rightarrow> bool"
  assumes frame: "outbox a = outbox b \<Longrightarrow> Q a \<Longrightarrow> Q b"
    and minted: "Q st \<Longrightarrow> mint_rescan s loc st = Some (r, st') \<Longrightarrow> Q st'"
    and emitted: "Q st \<Longrightarrow> k \<noteq> Rescan \<Longrightarrow> emit s loc k pv d st = Some (r, st') \<Longrightarrow> Q st'"

sublocale outbox_invariant \<subseteq> kept: monitor_invariant "\<lambda>st. monitor_ok st \<and> Q st"
proof
  have q: "outbox b = outbox a \<Longrightarrow> Q a \<Longrightarrow> Q b" for a b using frame by metis
  show "monitor_ok st' \<and> Q st'" if "core st = core st'" "monitor_ok st \<and> Q st" for st st'
    using that wf.cong q [OF outbox_core] by metis
  show "is_watched_node st p \<and> (\<exists>n. node_of st c = Some n \<and> slot_of n = Some (p, nm))"
    if "monitor_ok st \<and> Q st" "child_watch st p nm = Some c" for st p nm c
    using that wf.indexed by blast
  show "unindexed st c \<and> \<not> is_root_watch st c \<and> (\<forall>mv'. held_of st mv' = Some c \<longrightarrow> mv' = mv)"
    if "monitor_ok st \<and> Q st" "held_of st mv = Some c" for st mv c
    using that wf.held by blast
  show "is_watched_node st w" if "monitor_ok st \<and> Q st" "root_of st s = Some w" for st s w
    using that wf.rooted by blast
  show "monitor_ok st' \<and> Q st'" if "monitor_ok st \<and> Q st" "next_watch_id st = Some (w, st')" for st w st'
    using that wf.watch_id q [OF outbox_mints(1)] by blast
  show "monitor_ok st' \<and> Q st'" if "monitor_ok st \<and> Q st" "next_req_id st = Some (req, st')" for st req st'
    using that wf.req_id q [OF outbox_mints(2)] by blast
  show "monitor_ok st' \<and> Q st'" if "monitor_ok st \<and> Q st" "mint_rescan s loc st = Some (r, st')" for st s loc r st'
    using that wf.minted minted by blast
  show "monitor_ok st' \<and> Q st'" if "monitor_ok st \<and> Q st" "k \<noteq> Rescan" "emit s loc k pv d st = Some (r, st')"
    for st k s loc pv d r st'
    using that wf.emitted emitted by blast
  show "monitor_ok (upd_node w f st) \<and> Q (upd_node w f st)" if "monitor_ok st \<and> Q st" "\<And>n. shape (f n) = shape n" for st w f
    using that wf.upd q by (metis outbox_fields(13))
  show "monitor_ok (mark_enumerate_dirty w st) \<and> Q (mark_enumerate_dirty w st)" if "monitor_ok st \<and> Q st" for st w
    using that wf.dirtied q by (metis outbox_steps(5))
  show "monitor_ok (set_state w ns st) \<and> Q (set_state w ns st)"
    if "monitor_ok st \<and> Q st" "state_of st w = Some old" "\<not> enumerating old" "\<not> enumerating ns" for st w old ns
    using that wf.rest_state q by (metis outbox_steps(1))
  show "monitor_ok (set_state w ns (st\<lparr>mo_pending_enumerate := (mo_pending_enumerate st)(req := None)\<rparr>)) \<and>
      Q (set_state w ns (st\<lparr>mo_pending_enumerate := (mo_pending_enumerate st)(req := None)\<rparr>))"
    if "monitor_ok st \<and> Q st" "state_of st w = Some (Enumerating req ek a b)" "\<not> enumerating ns" for st w req ek a b ns
    using that wf.leave_enum q by (metis outbox_steps(1) outbox_fields(5))
  show "monitor_ok (set_state w (Enumerating req ek a' b') st) \<and> Q (set_state w (Enumerating req ek a' b') st)"
    if "monitor_ok st \<and> Q st" "state_of st w = Some (Enumerating req ek a b)" for st w req ek a b a' b'
    using that wf.stay_enum q by (metis outbox_steps(1))
  show "monitor_ok (st\<lparr>mo_pending_enumerate := (mo_pending_enumerate st)(req := None)\<rparr>) \<and>
      Q (st\<lparr>mo_pending_enumerate := (mo_pending_enumerate st)(req := None)\<rparr>)"
    if "monitor_ok st \<and> Q st" "mo_pending_enumerate st req = Some w"
      "\<And>ek a b. state_of st w \<noteq> Some (Enumerating req ek a b)" for st req w
    using wf.orphan [OF _ that(2,3)] that(1) q by (metis outbox_fields(5))
  show "monitor_ok st' \<and> Q st'" if "monitor_ok st \<and> Q st" "queue_enumerate w ek at st = Some st'" for st w ek at st'
    using that wf.queued q [OF outbox_queued] by blast
  show "monitor_ok ((upd_node p (\<lambda>x. x\<lparr>wn_children := bts_insert w (wn_children x)\<rparr>) (insert_node w n st2))\<lparr>mo_child_index :=
      (mo_child_index st2)((p, nm) \<mapsto> w)\<rparr>) \<and> Q ((upd_node p (\<lambda>x. x\<lparr>wn_children := bts_insert w (wn_children x)\<rparr>)
      (insert_node w n st2))\<lparr>mo_child_index := (mo_child_index st2)((p, nm) \<mapsto> w)\<rparr>)"
    if "monitor_ok st \<and> Q st" "is_watched_node st p" "child_watch st p nm = None" "next_watch_id st = Some (w, st1)"
      "core st2 = core st1" "shape n = (Some p, Some nm, s, Arming False False, [])" for st p nm w st1 st2 n s
    using that(1) wf.installed [OF _ that(2-6)] q [of st1 st] q [of st2 st1] outbox_core [OF that(5)] outbox_mints(1) [OF that(4)]
    by (auto intro: q)
  show "monitor_ok (st\<lparr>mo_child_index := (mo_child_index st)(slot := None)\<rparr>) \<and>
      Q (st\<lparr>mo_child_index := (mo_child_index st)(slot := None)\<rparr>)" if "monitor_ok st \<and> Q st" for st slot
    using that wf.vacated by (auto intro: q [rotated])
  show "monitor_ok (snd (drop_walk [w] erased_none st)) \<and> Q (snd (drop_walk [w] erased_none st))"
    if "monitor_ok st \<and> Q st" for st w
    using that wf.dropped q [OF outbox_drop_walk] by blast
  show "monitor_ok (relink c p nm st) \<and> Q (relink c p nm st)"
    if "monitor_ok st \<and> Q st" "loose st c" "is_watched_node st c" "is_watched_node st p" "child_watch st p nm = None"
      "(p, c) \<notin> (parent_rel st)\<^sup>*" for st c p nm
    using that wf.relinked q [OF outbox_steps(3)] by blast
  show "monitor_ok ((insert_node w n st2)\<lparr>mo_roots := btm_insert s w (mo_roots st2)\<rparr>) \<and>
      Q ((insert_node w n st2)\<lparr>mo_roots := btm_insert s w (mo_roots st2)\<rparr>)"
    if "monitor_ok st \<and> Q st" "root_of st s = None" "next_watch_id st = Some (w, st1)" "core st2 = core st1"
      "shape n = (None, None, s, Arming True False, [])" for st s w st1 st2 n
    using that(1) wf.registered [OF _ that(2-5)] outbox_core [OF that(4)] outbox_mints(1) [OF that(3)]
    by (auto intro: q [rotated])
  show "monitor_ok ((relink root w nm (insert_node w n st))\<lparr>mo_roots := btm_insert s w (mo_roots st)\<rparr>) \<and>
      Q ((relink root w nm (insert_node w n st))\<lparr>mo_roots := btm_insert s w (mo_roots st)\<rparr>)"
    if "monitor_ok st \<and> Q st" "root_of st s = Some root" "\<not> is_watched_node st w" "minted_watch st w" "w \<notin> ran (held_of st)"
      "shape n = (None, None, s, Arming False False, [])" for st s root w n nm
    using that(1) wf.widened [OF _ that(2-6)] by (auto intro: q [rotated])
  show "monitor_ok (snd (drop_walk [w] erased_none (st\<lparr>mo_roots := btm_remove s (mo_roots st)\<rparr>))) \<and>
      Q (snd (drop_walk [w] erased_none (st\<lparr>mo_roots := btm_remove s (mo_roots st)\<rparr>)))"
    if "monitor_ok st \<and> Q st" "root_of st s = Some w" for st s w
    using that(1) wf.unrooted [OF _ that(2)] q [OF trans [OF outbox_drop_walk outbox_fields(3)]] by blast
  show "monitor_ok (st\<lparr>mo_pending_moves := ms\<rparr>) \<and> Q (st\<lparr>mo_pending_moves := ms\<rparr>)"
    if "monitor_ok st \<and> Q st" "\<And>mv. held_of (st\<lparr>mo_pending_moves := ms\<rparr>) mv \<in> {held_of st mv, None}" for st ms
    using that(1) wf.released [OF _ that(2)] by (auto intro: q [rotated])
  show "monitor_ok (st\<lparr>mo_pending_moves := btm_insert mv pm (mo_pending_moves st)\<rparr>) \<and>
      Q (st\<lparr>mo_pending_moves := btm_insert mv pm (mo_pending_moves st)\<rparr>)"
    if "monitor_ok st \<and> Q st" "\<And>c. pm_held pm = Some c \<Longrightarrow> loose st c \<and> is_watched_node st c" for st pm mv
    using that(1) wf.parked [OF _ that(2)] by (auto intro: q [rotated])
qed

section \<open>The order of the stream\<close>

text \<open>
  \<open>precedes a b\<close>: \<open>a\<close> may stand before \<open>b\<close>. Identifiers ascend; the epochs of a scope never fall, and a
  rescan stands strictly above what went before it, unless the epoch has reached its end.
\<close>

definition precedes :: "change \<Rightarrow> change \<Rightarrow> bool" where
  "precedes a b \<longleftrightarrow> ch_id a < ch_id b \<and> (ch_scope a = ch_scope b \<longrightarrow> ch_epoch a \<le> ch_epoch b \<and>
     (ch_kind b = Rescan \<longrightarrow> ch_epoch a < ch_epoch b \<or> ch_epoch b = u64_max))"

definition changes_ok :: "change list \<Rightarrow> monitor \<Rightarrow> bool" where
  "changes_ok pre st \<longleftrightarrow> sorted_wrt precedes (pre @ mo_events st) \<and>
     (\<forall>c \<in> set (pre @ mo_events st). ch_id c < seq_next (mo_change_ids st) \<and> ch_epoch c \<le> epoch_of st (ch_scope c))"

text \<open>What an emission appends, if anything.\<close>

lemma emit_appends:
  assumes "emit s loc k pv d st = Some (r, st')"
  shows "(r = None \<and> st' = st) \<or> (\<exists>q c. mint (mo_change_ids st) = Some (ch_id c, q) \<and> r = Some (ch_id c) \<and>
    ch_scope c = s \<and> ch_location c = loc \<and> ch_kind c = k \<and> ch_epoch c = epoch_of st s \<and> ch_is_dir c = d \<and>
    st' = st\<lparr>mo_change_ids := q, mo_events := mo_events st @ [c]\<rparr>)"
proof (cases "\<not> kind_wanted (scope_interest st s) k \<and> \<not> evidence_admits pv (scope_interest st s) \<or> would_coalesce st s loc k")
  case True
  then show ?thesis using assms by (auto simp: emit_def split: if_splits)
next
  case False
  then have e: "emit s loc k pv d st = Option.bind (next_change_id st) (\<lambda>(cid, st1). Some (Some cid, st1\<lparr>mo_events :=
      mo_events st1 @ [\<lparr>ch_id = cid, ch_scope = s, ch_location = loc, ch_kind = k, ch_epoch = epoch_of st1 s, ch_is_dir = d\<rparr>]\<rparr>))"
    unfolding emit_def by (subst if_not_P, blast, subst if_not_P, blast) (rule refl)
  show ?thesis
  proof (cases "mint (mo_change_ids st)")
    case None
    then show ?thesis using assms unfolding e by (simp add: next_change_id_def)
  next
    case (Some z)
    obtain cid q where z: "z = (cid, q)" by fastforce
    define c where "c = \<lparr>ch_id = cid, ch_scope = s, ch_location = loc, ch_kind = k, ch_epoch = epoch_of st s, ch_is_dir = d\<rparr>"
    have "r = Some cid" "st' = st\<lparr>mo_change_ids := q, mo_events := mo_events st @ [c]\<rparr>"
      using assms unfolding e by (simp_all add: next_change_id_def Some z c_def epoch_of_def)
    then show ?thesis by (intro disjI2 exI [of _ q] exI [of _ c]) (simp add: Some z c_def)
  qed
qed

lemma stream_append:
  assumes q: "sorted_wrt precedes (pre @ mo_events st)"
    and old: "\<And>c. c \<in> set (pre @ mo_events st) \<Longrightarrow> ch_id c < seq_next (mo_change_ids st) \<and> ch_epoch c \<le> epoch_of st (ch_scope c) \<and>
      (ch_scope c = s \<longrightarrow> k = Rescan \<longrightarrow> ch_epoch c < epoch_of st s \<or> epoch_of st s = u64_max)"
    and e: "emit s loc k pv d st = Some (r, st')"
  shows "changes_ok pre st'"
  using emit_appends [OF e]
proof (elim disjE exE conjE)
  assume "st' = st"
  with q old show ?thesis by (auto simp: changes_ok_def)
next
  fix q' c
  assume m: "mint (mo_change_ids st) = Some (ch_id c, q')"
    and f: "ch_scope c = s" "ch_kind c = k" "ch_epoch c = epoch_of st s"
    and st': "st' = st\<lparr>mo_change_ids := q', mo_events := mo_events st @ [c]\<rparr>"
  have v: "ch_id c = seq_next (mo_change_ids st)" "seq_next (mo_change_ids st) < seq_next q'"
    using mint_Some [OF m] by (auto simp: word_less_nat_alt)
  have ep: "epoch_of st' = epoch_of st" by (simp add: st' epoch_of_def fun_eq_iff)
  have "precedes x c" if "x \<in> set (pre @ mo_events st)" for x
    using old [OF that] by (auto simp: precedes_def f v(1))
  with q have "sorted_wrt precedes ((pre @ mo_events st) @ [c])" by (simp add: sorted_wrt_append)
  moreover have "ch_id x < seq_next q' \<and> ch_epoch x \<le> epoch_of st (ch_scope x)" if "x \<in> set (pre @ mo_events st @ [c])" for x
    using that old [of x] v by (auto simp: f intro: less_trans)
  ultimately show ?thesis by (simp add: changes_ok_def ep) (simp add: st')
qed

interpretation stream: outbox_invariant "changes_ok pre" for pre
proof
  show "changes_ok pre b" if "outbox a = outbox b" "changes_ok pre a" for a b
    using that by (auto simp: changes_ok_def outbox_def epoch_of_def)
  show "changes_ok pre st'" if q: "changes_ok pre st" and k: "k \<noteq> Rescan" and e: "emit s loc k pv d st = Some (r, st')"
    for st k s loc pv d r st'
    by (rule stream_append [OF _ _ e]) (use q k in \<open>auto simp: changes_ok_def\<close>)
  show "changes_ok pre st'" if q: "changes_ok pre st" and m: "mint_rescan s loc st = Some (r, st')" for st s loc r st'
  proof (cases "would_coalesce st s loc Rescan")
    case True
    then show ?thesis using q m by (simp add: mint_rescan_def)
  next
    case False
    have ep: "epoch_of (bump_epoch s st) v = (if v = s then epoch_next (epoch_of st s) else epoch_of st v)" for v
      by (simp add: bump_epoch_def epoch_of_def)
    have e: "emit s loc Rescan evidence_new None (bump_epoch s st) = Some (r, st')"
      using m False by (simp add: mint_rescan_def)
    show ?thesis
    proof (rule stream_append [OF _ _ e])
      show "sorted_wrt precedes (pre @ mo_events (bump_epoch s st))" using q by (simp add: changes_ok_def bump_epoch_def)
      fix c assume "c \<in> set (pre @ mo_events (bump_epoch s st))"
      then have c: "ch_id c < seq_next (mo_change_ids st)" "ch_epoch c \<le> epoch_of st (ch_scope c)"
        using q by (auto simp: changes_ok_def bump_epoch_def)
      have "ch_epoch c < epoch_next (epoch_of st s) \<or> epoch_next (epoch_of st s) = u64_max" if "ch_scope c = s"
      proof (cases "epoch_of st s = u64_max")
        case False
        from le_less_trans [OF _ epoch_next_gt [OF this]] c(2) that show ?thesis by simp
      qed (simp add: epoch_next_saturates)
      moreover have "ch_epoch c \<le> epoch_of (bump_epoch s st) (ch_scope c)"
        using c(2) order_trans [OF _ epoch_next_ge] by (auto simp: ep)
      ultimately show "ch_id c < seq_next (mo_change_ids (bump_epoch s st)) \<and>
          ch_epoch c \<le> epoch_of (bump_epoch s st) (ch_scope c) \<and>
          (ch_scope c = s \<longrightarrow> Rescan = Rescan \<longrightarrow> ch_epoch c < epoch_of (bump_epoch s st) s \<or> epoch_of (bump_epoch s st) s = u64_max)"
        using c(1) by (simp add: ep) (simp add: bump_epoch_def)
    qed
  qed
qed

text \<open>Nothing queued is taken back or reordered.\<close>

interpretation tail: outbox_invariant "\<lambda>st. prefix sent (pre @ mo_events st)" for sent pre
proof
  show "prefix sent (pre @ mo_events b)" if "outbox a = outbox b" "prefix sent (pre @ mo_events a)" for a b
    using that by (simp add: outbox_def)
  have e: "prefix sent (pre @ mo_events st')" if "prefix sent (pre @ mo_events st)" "emit s loc k pv d st = Some (r, st')"
    for st s loc k pv d r st'
  proof -
    from emit_appends [OF that(2)] obtain cs where "mo_events st' = mo_events st @ cs" by auto
    then show ?thesis using that(1) prefix_prefix [of sent "pre @ mo_events st" cs] by simp
  qed
  show "prefix sent (pre @ mo_events st')" if "prefix sent (pre @ mo_events st)" "emit s loc k pv d st = Some (r, st')"
    for st k s loc pv d r st' using e [OF that] .
  show "prefix sent (pre @ mo_events st')" if "prefix sent (pre @ mo_events st)" "mint_rescan s loc st = Some (r, st')"
    for st s loc r st'
    using that e [of "bump_epoch s st"] by (auto simp: mint_rescan_def bump_epoch_def split: if_splits)
qed

end
