(* ===== verification/Monitor_Run.thy ===== *)
theory Monitor_Run
  imports Monitor_Stream
begin

text \<open>
  Histories of a \<open>Monitor\<close>. A history is legal when every identifier a driver hands to \<open>widen_root\<close> is one it
  was given and no pending move holds; all other operations take anything. What the driver polls leaves the
  queue at its head, so what it has been given and what is queued form one stream: the locale
  \<open>run_invariant\<close> carries an invariant of that stream through a whole history.
\<close>

section \<open>Legal histories\<close>

fun legal_op :: "mon_op \<Rightarrow> monitor \<Rightarrow> bool" where
  "legal_op (OpWiden s w chain i) st \<longleftrightarrow>
     minted_watch st w \<and> list_all (\<lambda>e. pm_held (snd e) \<noteq> Some w) (mo_pending_moves st)"
| "legal_op _ st \<longleftrightarrow> True"

fun mon_legal :: "mon_op list \<Rightarrow> monitor \<Rightarrow> bool" where
  "mon_legal [] st \<longleftrightarrow> True"
| "mon_legal (op # ops) st \<longleftrightarrow>
     legal_op op st \<and> (case mon_step op st of None \<Rightarrow> True | Some st' \<Rightarrow> mon_legal ops st')"

fun handed :: "mon_op \<Rightarrow> monitor \<Rightarrow> change list" where
  "handed OpPollEvent st = (case fst (poll_event st) of None \<Rightarrow> [] | Some c \<Rightarrow> [c])"
| "handed _ st = []"

fun polled :: "mon_op list \<Rightarrow> monitor \<Rightarrow> change list" where
  "polled [] st = []"
| "polled (op # ops) st = handed op st @ (case mon_step op st of None \<Rightarrow> [] | Some st' \<Rightarrow> polled ops st')"

lemma mon_run_simps [simp]: "mon_run [] st = Some st"
    "mon_run (op # ops) st = Option.bind (mon_step op st) (mon_run ops)"
  by (simp_all add: mon_run_def split: option.split)

lemma mon_run_append: "mon_run (ops @ ops') st = Option.bind (mon_run ops st) (mon_run ops')"
  by (induction ops arbitrary: st) (simp_all add: bind_assoc split: bind_split)

lemma polled_append: "mon_run ops st = Some st' \<Longrightarrow> polled (ops @ ops') st = polled ops st @ polled ops' st'"
  by (induction ops arbitrary: st) (auto split: bind_splits)

lemma mon_legal_append: "mon_run ops st = Some st' \<Longrightarrow> mon_legal (ops @ ops') st \<longleftrightarrow> mon_legal ops st \<and> mon_legal ops' st'"
  by (induction ops arbitrary: st) (auto split: bind_splits)

lemma legal_widen: "legal_op (OpWiden s w chain i) st \<Longrightarrow> minted_watch st w \<and> w \<notin> ran (held_of st)"
  by (auto simp: held_of_def ran_def list_all_iff bind_eq_Some_conv dest!: map_of_SomeD)

lemma handed_nil [simp]: "op \<noteq> OpPollEvent \<Longrightarrow> handed op st = []"
  by (cases op) simp_all

lemma poll_splits: "mo_events (snd (poll_event st)) = tl (mo_events st) \<and>
    handed OpPollEvent st = (case mo_events st of [] \<Rightarrow> [] | c # cs \<Rightarrow> [c]) \<and>
    snd (poll_event st) = st\<lparr>mo_events := tl (mo_events st)\<rparr>"
  by (simp add: poll_event_def split: list.split)

section \<open>Invariants of histories\<close>

locale run_invariant =
  fixes Q :: "change list \<Rightarrow> monitor \<Rightarrow> bool"
  assumes out: "outbox_invariant (Q pre)"
    and handed: "Q pre st \<Longrightarrow> mo_events st = c # cs \<Longrightarrow> Q (pre @ [c]) (st\<lparr>mo_events := cs\<rparr>)"

sublocale run_invariant \<subseteq> each: outbox_invariant "Q pre" for pre
  by (rule out)

context run_invariant
begin

lemma poll_keeps:
  assumes "monitor_ok st \<and> Q pre st" and "mon_step OpPollEvent st = Some st'"
  shows "monitor_ok st' \<and> Q (pre @ handed OpPollEvent st) st'"
proof -
  from assms(2) have st': "st' = snd (poll_event st)" by simp
  have "monitor_ok st'" unfolding st' by (rule ok_fields [of _ st]) (use assms(1) poll_splits [of st] in simp_all)
  moreover have "Q (pre @ handed OpPollEvent st) st'"
    using assms(1) run_invariant_axioms handed by (auto simp: st' poll_event_def split: list.split)
  ultimately show ?thesis ..
qed

lemma any_step_keeps:
  assumes "monitor_ok st \<and> Q pre st" and "legal_op op st" and "mon_step op st = Some st'"
  shows "monitor_ok st' \<and> Q (pre @ handed op st) st'"
proof (cases "op = OpPollEvent")
  case False
  with assms each.kept.step_keeps [of st pre op st'] legal_widen show ?thesis by fastforce
qed (use assms poll_keeps in blast)

theorem run_keeps:
  "monitor_ok st \<and> Q pre st \<Longrightarrow> mon_legal ops st \<Longrightarrow> mon_run ops st = Some st' \<Longrightarrow>
     monitor_ok st' \<and> Q (pre @ polled ops st) st'"
proof (induction ops arbitrary: st pre)
  case (Cons op ops)
  from Cons.prems(3) obtain st1 where s: "mon_step op st = Some st1" "mon_run ops st1 = Some st'"
    by (auto simp: bind_eq_Some_conv)
  with Cons.prems(2) have l: "legal_op op st" "mon_legal ops st1" by simp_all
  from Cons.IH [OF any_step_keeps [OF Cons.prems(1) l(1) s(1)] l(2) s(2)] show ?case by (simp add: s(1))
qed simp

end

interpretation ordered: run_invariant changes_ok
proof
  show "changes_ok (pre @ [c]) (st\<lparr>mo_events := cs\<rparr>)" if "changes_ok pre st" "mo_events st = c # cs" for pre st c cs
    using that by (simp add: changes_ok_def epoch_of_def)
qed

interpretation appended: run_invariant "\<lambda>pre st. prefix sent (pre @ mo_events st)" for sent
proof
  show "prefix sent ((pre @ [c]) @ mo_events (st\<lparr>mo_events := cs\<rparr>))"
    if "prefix sent (pre @ mo_events st)" "mo_events st = c # cs" for pre st c cs
    using that by simp
qed

lemma ok_new: "monitor_ok (monitor_new caps)"
proof -
  have n: "node_of (monitor_new caps) w = None" "root_of (monitor_new caps) s = None"
    "child_watch (monitor_new caps) p nm = None" "held_of (monitor_new caps) mv = None"
    "mo_rearm_pending (monitor_new caps) s = None" "mo_pending_enumerate (monitor_new caps) r = None" for w s p nm mv r
    by (simp_all add: monitor_new_def node_of_def root_of_def child_watch_def held_of_def)
  have "parent_rel (monitor_new caps) = {}" by (simp add: parent_rel_def n)
  moreover have "btm_ok (mo_nodes (monitor_new caps))" by (simp add: monitor_new_def)
  ultimately have "tree_ok (monitor_new caps)"
    by (intro tree_genI) (simp_all add: n is_watched_node_def held_ok_def acyclic_def)
  moreover have "books_ok (monitor_new caps)"
    by (simp add: books_ok_def account_ok_def obliged_def counted_def reads_but_def reading_def state_of_def n)
  ultimately show ?thesis by (simp add: monitor_ok_def)
qed

lemma stream_new: "changes_ok [] (monitor_new caps)"
  by (simp add: changes_ok_def monitor_new_def)

lemmas legal_run = ordered.run_keeps [OF conjI [OF ok_new stream_new], simplified]

end
