(* ===== verification/Monitor_Cover.thy ===== *)
theory Monitor_Cover
  imports Monitor_Run
begin

text \<open>
  What a coalesced change and a signalled loss leave in the queue. \<open>covered s loc st\<close>: a rescan of \<open>loc\<close> is
  queued, and whatever touches \<open>loc\<close> after it is a rescan too. Emitting a rescan establishes it, whether the
  rescan is appended or coalesced, and the steps of a loss report only append rescans.
\<close>

section \<open>Coalescing\<close>

lemma find_last:
  assumes "find P (rev xs) = Some c"
  shows "\<exists>before later. xs = before @ c # later \<and> P c \<and> (\<forall>x \<in> set later. \<not> P x)"
  using assms
proof (induction xs rule: rev_induct)
  case (snoc x xs)
  show ?case
  proof (cases "P x")
    case True
    with snoc.prems have "c = x" by simp
    with True show ?thesis by (intro exI [of _ xs] exI [of _ "[]"]) simp
  next
    case False
    with snoc obtain before later where "xs = before @ c # later" "P c" "\<forall>y \<in> set later. \<not> P y" by auto
    with False show ?thesis by (intro exI [of _ before] exI [of _ "later @ [x]"]) simp
  qed
qed simp

lemma coalesced_stands:
  assumes "would_coalesce st s loc k"
  shows "\<exists>before c later. mo_events st = before @ c # later \<and>
    ch_scope c = s \<and> ch_location c = loc \<and> kind_tag (ch_kind c) = kind_tag k \<and> moved_from (ch_kind c) = moved_from k \<and>
    (\<forall>c' \<in> set later. \<not> queued_touches s (touched loc k) c')"
proof -
  from assms obtain c where f: "find (queued_touches s (touched loc k)) (rev (mo_events st)) = Some c"
    and d: "dedup_key c = (s, loc, kind_tag k, moved_from k)"
    by (auto simp: would_coalesce_def split: option.splits)
  from find_last [OF f] d show ?thesis by (auto simp: dedup_key_def)
qed

lemma kind_by_tag: "kind_tag a = kind_tag b \<Longrightarrow> moved_from a = moved_from b \<Longrightarrow> a = b"
  by (cases a; cases b) (simp_all add: moved_from_def)

text \<open>Raising an epoch does not change what coalesces.\<close>

lemma coalesce_bump [simp]: "would_coalesce (bump_epoch v st) s loc k = would_coalesce st s loc k"
proof -
  have n: "node_of (bump_epoch v st) = node_of st" by (simp add: bump_epoch_def node_of_def fun_eq_iff)
  have "location_walk m (bump_epoch v st) cur segs = location_walk m st cur segs" for m cur segs
    by (induction m arbitrary: cur segs) (simp_all add: n split: option.split)
  then have "pending_from (bump_epoch v st) = pending_from st"
    by (simp add: pending_from_def location_of_def fun_eq_iff) (simp add: bump_epoch_def)
  then show ?thesis
    by (simp add: would_coalesce_def is_watched_node_def n scope_moves_def) (simp add: bump_epoch_def)
qed

section \<open>Cover\<close>

definition covered :: "scope_id \<Rightarrow> location \<Rightarrow> monitor \<Rightarrow> bool" where
  "covered s loc st \<longleftrightarrow> (\<exists>before c later. mo_events st = before @ c # later \<and>
     ch_scope c = s \<and> ch_location c = loc \<and> ch_kind c = Rescan \<and>
     (\<forall>c' \<in> set later. queued_touches s [loc] c' \<longrightarrow> ch_kind c' = Rescan))"

text \<open>Steps that append nothing but rescans and leave the roots.\<close>

definition rescans_only :: "monitor \<Rightarrow> monitor \<Rightarrow> bool" where
  "rescans_only a b \<longleftrightarrow> mo_roots b = mo_roots a \<and>
     (\<exists>cs. mo_events b = mo_events a @ cs \<and> list_all (\<lambda>c. ch_kind c = Rescan) cs)"

lemma rescans_only_refl [simp]: "rescans_only a a"
  by (simp add: rescans_only_def)

lemma rescans_only_same: "mo_roots b = mo_roots a \<Longrightarrow> mo_events b = mo_events a \<Longrightarrow> rescans_only a b"
  by (simp add: rescans_only_def)

lemma rescans_only_trans: "rescans_only a b \<Longrightarrow> rescans_only b c \<Longrightarrow> rescans_only a c"
  unfolding rescans_only_def by (metis append.assoc list_all_append)

lemma rescans_only_core: "core b = core a \<Longrightarrow> rescans_only a b"
  by (rule rescans_only_same) (simp_all add: core_def)

lemma covered_more: "covered s loc a \<Longrightarrow> rescans_only a b \<Longrightarrow> covered s loc b"
proof -
  assume "covered s loc a" "rescans_only a b"
  then obtain before c later cs where "mo_events a = before @ c # later" "ch_scope c = s" "ch_location c = loc"
    "ch_kind c = Rescan" "\<forall>c' \<in> set later. queued_touches s [loc] c' \<longrightarrow> ch_kind c' = Rescan"
    "mo_events b = mo_events a @ cs" "\<forall>c \<in> set cs. ch_kind c = Rescan"
    by (auto simp: covered_def rescans_only_def list_all_iff)
  then show ?thesis
    unfolding covered_def by (intro exI [of _ before] exI [of _ c] exI [of _ "later @ cs"]) auto
qed

lemma minted_rescan: "mint_rescan s loc st = Some (r, st') \<Longrightarrow> rescans_only st st' \<and> covered s loc st'"
proof (cases "would_coalesce st s loc Rescan")
  case True
  assume "mint_rescan s loc st = Some (r, st')"
  with True have "st' = st" by (simp add: mint_rescan_def)
  moreover have "touched loc Rescan = [loc]" by (simp add: touched_def moved_from_def)
  moreover note coalesced_stands [OF True]
  ultimately show ?thesis using kind_by_tag [of _ Rescan] unfolding covered_def by fastforce
next
  case False
  assume "mint_rescan s loc st = Some (r, st')"
  with False have e: "emit s loc Rescan evidence_new None (bump_epoch s st) = Some (r, st')" by (simp add: mint_rescan_def)
  have "r \<noteq> None" using e False by (auto simp: emit_def kind_wanted_def split: bind_splits)
  with emit_appends [OF e] obtain q c where c: "ch_scope c = s" "ch_location c = loc" "ch_kind c = Rescan"
    and st': "st' = (bump_epoch s st)\<lparr>mo_change_ids := q, mo_events := mo_events (bump_epoch s st) @ [c]\<rparr>"
    by blast
  have ev: "mo_events st' = mo_events st @ [c]" "mo_roots st' = mo_roots st" by (simp_all add: st' bump_epoch_def)
  then show ?thesis unfolding covered_def rescans_only_def using c by fastforce
qed

lemma rescan_to_covers: "wp (rescan_to s loc st) (\<lambda>st'. rescans_only st st' \<and> covered s loc st')"
proof -
  have "rescans_only st (bridge_saw_rescan s st)" by (rule rescans_only_core) simp
  from rescans_only_trans [OF this] show ?thesis
    by (auto simp: rescan_to_def emit_rescan_def intro!: wpI dest!: minted_rescan)
qed

section \<open>A loss\<close>

lemma rescans_only_steps [simp]: "mo_roots (set_state w ns st) = mo_roots st" "mo_roots (forget_enumerate r st) = mo_roots st"
    "mo_roots (upd_node w f st) = mo_roots st" "mo_events (set_state w ns st) = mo_events st"
    "mo_events (forget_enumerate r st) = mo_events st" "mo_events (upd_node w f st) = mo_events st"
  by (simp_all add: set_state_def forget_enumerate_def latent_remove_def upd_node_def rearm_pending_inc_def
      rearm_pending_dec_def acquired_coverage_work_def bridge_fresh_rearm_def bridge_set_def Let_def split: option.split)

lemma reads_only_append: "wp (queue_enumerate w k a st) (rescans_only st)"
    "wp (queue_watch w t msk st) (rescans_only st)"
  by (auto simp: queue_enumerate_def queue_watch_def arm_node_def next_req_id_def next_arm_attempt_def Let_def
      intro!: wpI rescans_only_same split: option.splits node_state.splits bind_splits)

lemma rescans_only_reinstall: "wp (queue_reinstall w s st) (rescans_only st)"
proof -
  have m: "rescans_only st x \<Longrightarrow> rescans_only st (x\<lparr>mo_reprove_stamps := g\<rparr>)" for x g
    by (erule rescans_only_trans) (simp add: rescans_only_same)
  show ?thesis
    using reads_only_append(2)
    by (auto simp: queue_reinstall_def queue_slot_arm_def wp_bind intro!: m wp_mono [OF reads_only_append(2)]
        split: option.split)
qed

lemma rescans_only_start: "wp (start_rearm w st) (\<lambda>z. rescans_only st (snd z))" "wp (start_reinstall w st) (rescans_only st)"
proof -
  have s: "rescans_only st x \<Longrightarrow> wp (queue_reinstall w s x) (rescans_only st)" for s x
    by (rule wp_mono [OF rescans_only_reinstall]) (rule rescans_only_trans)
  show "wp (start_rearm w st) (\<lambda>z. rescans_only st (snd z))"
    by (auto simp: start_rearm_def latent_cold_insert_def acquired_coverage_work_def Let_def reads_only_append
        intro!: rescans_only_same split: option.split node_state.split enum_kind.split)
  show "wp (start_reinstall w st) (rescans_only st)"
    by (auto simp: start_reinstall_def Let_def intro!: s rescans_only_same split: option.split node_state.split)
qed

lemma rescans_only_settle: "wp (settle_bridges st) (rescans_only st)"
proof -
  have one: "wp (settle_bridge s x) (rescans_only x)" for s x
  proof -
    have b: "rescans_only y (bridge_remove s y)" for y by (rule rescans_only_core) simp
    have "wp (rescan_to s location_new x) (\<lambda>y. rescans_only x (bridge_remove s y))"
      by (rule wp_mono [OF rescan_to_covers]) (blast intro: rescans_only_trans b)
    then show ?thesis using b by (auto simp: settle_bridge_def wp_bind)
  qed
  have "rescans_only st y \<Longrightarrow> wp (fold_opt settle_bridge ss y) (rescans_only st)" for ss y
  proof (induction ss arbitrary: y)
    case (Cons s ss)
    show ?case
    proof (rule wpI)
      fix z assume "fold_opt settle_bridge (s # ss) y = Some z"
      then obtain x where x: "settle_bridge s y = Some x" "fold_opt settle_bridge ss x = Some z"
        by (auto split: option.splits)
      from Cons.IH [OF rescans_only_trans [OF Cons.prems wpD [OF one x(1)]]] x(2) show "rescans_only st z" by (rule wpD)
    qed
  qed simp
  then show ?thesis by (simp add: settle_bridges_def)
qed

lemma root_location: "monitor_ok st \<Longrightarrow> root_of st s = Some w \<Longrightarrow> location_of st w = location_new"
proof -
  assume "monitor_ok st" "root_of st s = Some w"
  then have t: "tree_ok st" by (simp add: monitor_ok_def)
  from tree_genD(4) [OF t] \<open>root_of st s = Some w\<close> obtain n where n: "node_of st w = Some n" "wn_parent n = None" by blast
  with tree_genD(14) [OF t] have "wn_name n = None" by blast
  moreover have "length (mo_nodes st) \<noteq> 0" using n(1) by (auto simp: node_of_def)
  then obtain k where "length (mo_nodes st) = Suc k" using not0_implies_Suc by blast
  moreover have "location_walk k st None segs = segs" for segs by (cases k) simp_all
  ultimately show ?thesis using n by (simp add: location_of_def location_new_def)
qed

lemma overflow_root_appends: "wp (overflow_root e st) (rescans_only st)"
proof -
  have l: "wp (scope_loss_recovery s w x) (rescans_only st)" if c: "core x = core st" for s w x
  proof -
    have one: "wp (rescan_to s loc y) (rescans_only st)" if "core y = core st" for loc y
      by (rule wp_mono [OF rescan_to_covers]) (blast intro: rescans_only_trans [OF rescans_only_core [OF that]])
    have two: "wp (start_rearm w y) (\<lambda>z. rescans_only st (snd z))" "wp (start_reinstall w y) (rescans_only st)"
      if "rescans_only st y" for y
      using that by (auto intro: wp_mono [OF rescans_only_start(1)] wp_mono [OF rescans_only_start(2)] rescans_only_trans)
    show ?thesis
      using c by (auto simp: scope_loss_recovery_def rescan_and_rearm_def Let_def wp_bind intro!: wp_mono [OF one] two)
  qed
  show ?thesis unfolding overflow_root_def by (rule l) simp
qed

lemma overflow_root_covers:
  assumes k: "monitor_ok st" and r: "root_of st s = Some w"
  shows "wp (overflow_root (s, w) st) (\<lambda>st'. monitor_ok st' \<and> rescans_only st st' \<and> covered s location_new st')"
proof -
  have "wp (overflow_root (s, w) st) monitor_ok" by (rule wf.keep_overflow_root [OF k])
  moreover have "wp (overflow_root (s, w) st) (\<lambda>st'. rescans_only st st' \<and> covered s location_new st')"
  proof -
    have one: "wp (rescan_to s (location_of x w) x) (\<lambda>y. rescans_only st y \<and> covered s location_new y)"
      if c: "core x = core st" for x
    proof -
      have "monitor_ok x" using wf.cong [OF c [symmetric] k] .
      moreover have "root_of x s = Some w" using r core_readings [OF c] by simp
      ultimately have "location_of x w = location_new" by (rule root_location)
      with rescan_to_covers [of s location_new x] rescans_only_trans [OF rescans_only_core [OF c]]
      show ?thesis by (auto elim: wp_mono)
    qed
    have two: "wp (start_rearm w y) (\<lambda>z. rescans_only st (snd z) \<and> covered s location_new (snd z))"
        "wp (start_reinstall w y) (\<lambda>z. rescans_only st z \<and> covered s location_new z)"
      if "rescans_only st y \<and> covered s location_new y" for y
      using that by (auto intro: wp_mono [OF rescans_only_start(1)] wp_mono [OF rescans_only_start(2)]
          rescans_only_trans covered_more)
    show ?thesis
      unfolding overflow_root_def scope_loss_recovery_def rescan_and_rearm_def fst_conv snd_conv Let_def
      by (auto simp: wp_bind intro!: wp_mono [OF one] two)
  qed
  ultimately show ?thesis by (cases "overflow_root (s, w) st") simp_all
qed

lemma overflow_roots_append: "wp (fold_opt overflow_root rs st) (rescans_only st)"
proof (induction rs arbitrary: st)
  case (Cons e rs)
  show ?case
    using overflow_root_appends [of e st] Cons.IH
    by (cases "overflow_root e st") (auto intro: wp_mono rescans_only_trans)
qed simp

text \<open>An overflow of all scopes covers each of them, in whatever order the roots are visited.\<close>

lemma overflow_roots_cover:
  "monitor_ok st \<Longrightarrow> root_of st s = Some w \<Longrightarrow> (s, w) \<in> set rs \<Longrightarrow> wp (fold_opt overflow_root rs st) (covered s location_new)"
proof (induction rs arbitrary: st)
  case (Cons e rs)
  show ?case
  proof (rule wpI)
    fix z assume "fold_opt overflow_root (e # rs) st = Some z"
    then obtain x where x: "overflow_root e st = Some x" "fold_opt overflow_root rs x = Some z"
      by (auto split: option.splits)
    show "covered s location_new z"
    proof (cases "e = (s, w)")
      case True
      from wpD [OF overflow_root_covers [OF Cons.prems(1,2)] x(1) [unfolded True]] covered_more
        wpD [OF overflow_roots_append x(2)] show ?thesis by blast
    next
      case False
      have "monitor_ok x" by (rule wpD [OF wf.keep_overflow_root [OF Cons.prems(1)] x(1)])
      moreover have "root_of x s = Some w"
        using wpD [OF overflow_root_appends x(1)] Cons.prems(2) by (simp add: root_of_def rescans_only_def)
      ultimately show ?thesis using Cons.IH x(2) Cons.prems(3) False by (auto dest: wpD)
    qed
  qed
qed simp

end
