(* ===== verification/Fs_Transport.thy ===== *)
theory Fs_Transport
  imports Prelude
begin

text \<open>
  The transport between a producer of the operating system and the driver task of \<open>tributary-fs\<close>
  (\<open>os/transport/mod.rs\<close>), with the resume points of its journals (\<open>ResumeToken\<close> in \<open>os/mod.rs\<close>).

  One serial producer puts batches, overflow signals and one fatal message on a queue; the driver takes them off
  at its own pace, and its drops of permits and acknowledgements race the producer. \<open>forward_batch_resuming\<close>,
  \<open>signal_loss\<close> and \<open>signal_fatal_once\<close> are the functions of the code over an arbitrary \<open>send\<close>. For the races,
  \<open>flow_step\<close> splits them at their atomic operations and lets the driver act in between; of the queue it
  keeps only the log of messages accepted, so that nothing is assumed of the channel.
\<close>

section \<open>Resume points\<close>

datatype resume_token =
    FsEventsToken u64 "8 word list option"
  | UsnToken u64 "64 word" u64

fun same_scope :: "resume_token \<Rightarrow> resume_token \<Rightarrow> bool" where
  "same_scope (FsEventsToken _ left) (FsEventsToken _ right) \<longleftrightarrow> left = right"
| "same_scope (UsnToken lj _ lv) (UsnToken rj _ rv) \<longleftrightarrow> lj = rj \<and> lv = rv"
| "same_scope _ _ \<longleftrightarrow> False"

fun token_reaches :: "resume_token \<Rightarrow> resume_token \<Rightarrow> bool" where
  "token_reaches (FsEventsToken new _) (FsEventsToken old _) \<longleftrightarrow> old \<le> new"
| "token_reaches (UsnToken _ new _) (UsnToken _ old _) \<longleftrightarrow> sint old \<le> sint new"
| "token_reaches _ _ \<longleftrightarrow> False"

fun fsevents_since :: "resume_token \<Rightarrow> 8 word list option \<Rightarrow> u64 option" where
  "fsevents_since (FsEventsToken last_good (Some minted)) (Some current) = (if minted = current then Some last_good else None)"
| "fsevents_since _ _ = None"

fun usn_cursor :: "resume_token \<Rightarrow> u64 \<Rightarrow> u64 \<Rightarrow> 64 word option" where
  "usn_cursor (UsnToken minted_journal next_usn minted_volume) journal volume =
     (if minted_journal = journal \<and> minted_volume = volume then Some next_usn else None)"
| "usn_cursor _ _ _ = None"

definition publish_resume :: "resume_token \<Rightarrow> resume_token option \<Rightarrow> resume_token option" where
  "publish_resume token slot =
     (case slot of
        Some current \<Rightarrow> if same_scope current token \<and> \<not> token_reaches token current then slot else Some token
      | None \<Rightarrow> Some token)"

section \<open>The shared state\<close>

record transport_state =
  tp_in_flight :: u64
  tp_budget :: u64
  tp_overflow_gen :: u64
  tp_fatal_sent :: bool

definition transport_new :: "u64 \<Rightarrow> transport_state" where
  "transport_new budget = \<lparr>tp_in_flight = 0, tp_budget = budget, tp_overflow_gen = 0, tp_fatal_sent = False\<rparr>"

definition acquire :: "transport_state \<Rightarrow> transport_state option" where
  "acquire tp = (if tp_in_flight tp < tp_budget tp then Some (tp\<lparr>tp_in_flight := tp_in_flight tp + 1\<rparr>) else None)"

definition permit_dropped :: "transport_state \<Rightarrow> transport_state" where
  "permit_dropped tp = tp\<lparr>tp_in_flight := tp_in_flight tp - 1\<rparr>"

definition batch_superseded_pending_overflow :: "transport_state \<Rightarrow> transport_state" where
  "batch_superseded_pending_overflow tp =
     (if tp_overflow_gen tp AND 1 = 1 then tp\<lparr>tp_overflow_gen := tp_overflow_gen tp + 1\<rparr> else tp)"

definition elect :: "transport_state \<Rightarrow> (u64 \<times> transport_state) option" where
  "elect tp =
     (if tp_overflow_gen tp AND 1 = 0
      then Some (tp_overflow_gen tp + 1, tp\<lparr>tp_overflow_gen := tp_overflow_gen tp + 1\<rparr>) else None)"

definition ack_dropped :: "u64 \<Rightarrow> transport_state \<Rightarrow> transport_state" where
  "ack_dropped elected tp = (if tp_overflow_gen tp = elected then tp\<lparr>tp_overflow_gen := elected + 1\<rparr> else tp)"

section \<open>The producer\<close>

record 'e batch_payload =
  bp_events :: "'e list"
  bp_resume :: "resume_token option"

datatype ('e, 'x) source_message =
    MsgBatch "'e batch_payload"
  | MsgOverflow u64
  | MsgFatal 'x

text \<open>A refused send drops the message: its permit or acknowledgement goes with it.\<close>

definition signal_loss ::
  "(('e, 'x) source_message \<Rightarrow> 'q \<Rightarrow> bool \<times> 'q) \<Rightarrow> transport_state \<Rightarrow> 'q \<Rightarrow> transport_state \<times> 'q" where
  "signal_loss send tp q =
     (case elect tp of
        None \<Rightarrow> (tp, q)
      | Some (elected, tp1) \<Rightarrow>
          (case send (MsgOverflow elected) q of
             (True, q1) \<Rightarrow> (tp1, q1)
           | (False, q1) \<Rightarrow> (ack_dropped elected tp1, q1)))"

definition forward_batch_resuming ::
  "(('e, 'x) source_message \<Rightarrow> 'q \<Rightarrow> bool \<times> 'q) \<Rightarrow> 'e list \<Rightarrow> bool \<Rightarrow> resume_token option
     \<Rightarrow> transport_state \<Rightarrow> 'q \<Rightarrow> transport_state \<times> 'q" where
  "forward_batch_resuming send events lossy resume tp q =
     (if events = [] then (if lossy then signal_loss send tp q else (tp, q))
      else case acquire tp of
          None \<Rightarrow> signal_loss send tp q
        | Some tp1 \<Rightarrow>
            (case send (MsgBatch \<lparr>bp_events = events, bp_resume = (if lossy then None else resume)\<rparr>) q of
               (False, q1) \<Rightarrow> (permit_dropped tp1, q1)
             | (True, q1) \<Rightarrow>
                 (let tp2 = batch_superseded_pending_overflow tp1
                  in if lossy then signal_loss send tp2 q1 else (tp2, q1))))"

definition forward_batch ::
  "(('e, 'x) source_message \<Rightarrow> 'q \<Rightarrow> bool \<times> 'q) \<Rightarrow> 'e list \<Rightarrow> bool \<Rightarrow> transport_state \<Rightarrow> 'q \<Rightarrow> transport_state \<times> 'q" where
  "forward_batch send events lossy tp q = forward_batch_resuming send events lossy None tp q"

definition signal_fatal_once ::
  "(('e, 'x) source_message \<Rightarrow> 'q \<Rightarrow> bool \<times> 'q) \<Rightarrow> 'x \<Rightarrow> transport_state \<Rightarrow> 'q \<Rightarrow> transport_state \<times> 'q" where
  "signal_fatal_once send err tp q =
     (if tp_fatal_sent tp then (tp, q) else (tp\<lparr>tp_fatal_sent := True\<rparr>, snd (send (MsgFatal err) q)))"

section \<open>The race\<close>

text \<open>Where the producer stands between two atomic operations.\<close>

datatype ('e, 'x) stage =
    Idle
  | Placing "'e batch_payload" bool
  | Landed bool
  | Losing
  | Elected u64
  | Dying 'x

record ('e, 'x) transport_flow =
  fl_tp :: transport_state
  fl_stage :: "('e, 'x) stage"
  fl_log :: "('e, 'x) source_message list"
  fl_live :: "'e batch_payload list"
  fl_acks :: "u64 list"
  fl_published :: "resume_token option"

definition flow_new :: "u64 \<Rightarrow> ('e, 'x) transport_flow" where
  "flow_new budget = \<lparr>fl_tp = transport_new budget, fl_stage = Idle, fl_log = [], fl_live = [], fl_acks = [],
     fl_published = None\<rparr>"

fun producer_step :: "bool \<Rightarrow> ('e, 'x) transport_flow \<Rightarrow> ('e, 'x) transport_flow option" where
  "producer_step accepted fl =
     (case fl_stage fl of
        Idle \<Rightarrow> None
      | Placing p lossy \<Rightarrow> Some (if accepted
          then fl\<lparr>fl_stage := Landed lossy, fl_log := fl_log fl @ [MsgBatch p], fl_live := fl_live fl @ [p]\<rparr>
          else fl\<lparr>fl_stage := Idle, fl_tp := permit_dropped (fl_tp fl)\<rparr>)
      | Landed lossy \<Rightarrow> Some (fl\<lparr>fl_stage := if lossy then Losing else Idle,
          fl_tp := batch_superseded_pending_overflow (fl_tp fl)\<rparr>)
      | Losing \<Rightarrow> Some (case elect (fl_tp fl) of
            None \<Rightarrow> fl\<lparr>fl_stage := Idle\<rparr>
          | Some (elected, tp) \<Rightarrow> fl\<lparr>fl_stage := Elected elected, fl_tp := tp\<rparr>)
      | Elected e \<Rightarrow> Some (if accepted
          then fl\<lparr>fl_stage := Idle, fl_log := fl_log fl @ [MsgOverflow e], fl_acks := fl_acks fl @ [e]\<rparr>
          else fl\<lparr>fl_stage := Idle, fl_tp := ack_dropped e (fl_tp fl)\<rparr>)
      | Dying x \<Rightarrow> Some (if accepted
          then fl\<lparr>fl_stage := Idle, fl_log := fl_log fl @ [MsgFatal x]\<rparr> else fl\<lparr>fl_stage := Idle\<rparr>))"

datatype ('e, 'x) flow_op =
    Forward "'e list" bool "resume_token option"
  | Lose
  | Die 'x
  | Advance bool
  | Acknowledge nat
  | DropBatch nat
  | DropAck nat

definition without :: "nat \<Rightarrow> 'a list \<Rightarrow> 'a list" where
  "without i xs = take i xs @ drop (Suc i) xs"

fun flow_step :: "('e, 'x) flow_op \<Rightarrow> ('e, 'x) transport_flow \<Rightarrow> ('e, 'x) transport_flow option" where
  "flow_step (Forward events lossy resume) fl =
     (if fl_stage fl \<noteq> Idle then None
      else Some (if events = [] then fl\<lparr>fl_stage := if lossy then Losing else Idle\<rparr>
        else case acquire (fl_tp fl) of
            None \<Rightarrow> fl\<lparr>fl_stage := Losing\<rparr>
          | Some tp \<Rightarrow> fl\<lparr>fl_tp := tp, fl_stage := Placing
              \<lparr>bp_events = events, bp_resume = (if lossy then None else resume)\<rparr> lossy\<rparr>))"
| "flow_step Lose fl = (if fl_stage fl \<noteq> Idle then None else Some (fl\<lparr>fl_stage := Losing\<rparr>))"
| "flow_step (Die x) fl =
     (if fl_stage fl \<noteq> Idle then None
      else Some (if tp_fatal_sent (fl_tp fl) then fl
        else fl\<lparr>fl_tp := (fl_tp fl)\<lparr>tp_fatal_sent := True\<rparr>, fl_stage := Dying x\<rparr>))"
| "flow_step (Advance accepted) fl = producer_step accepted fl"
| "flow_step (Acknowledge i) fl =
     (if i < length (fl_live fl)
      then Some (case bp_resume (fl_live fl ! i) of
          None \<Rightarrow> fl
        | Some t \<Rightarrow> fl\<lparr>fl_published := publish_resume t (fl_published fl),
            fl_live := (fl_live fl)[i := (fl_live fl ! i)\<lparr>bp_resume := None\<rparr>]\<rparr>)
      else None)"
| "flow_step (DropBatch i) fl =
     (if i < length (fl_live fl)
      then Some (fl\<lparr>fl_live := without i (fl_live fl), fl_tp := permit_dropped (fl_tp fl)\<rparr>) else None)"
| "flow_step (DropAck i) fl =
     (if i < length (fl_acks fl)
      then Some (fl\<lparr>fl_acks := without i (fl_acks fl), fl_tp := ack_dropped (fl_acks fl ! i) (fl_tp fl)\<rparr>) else None)"

definition flow_run :: "('e, 'x) flow_op list \<Rightarrow> ('e, 'x) transport_flow \<Rightarrow> ('e, 'x) transport_flow option" where
  "flow_run ops fl = fold_opt flow_step ops fl"


section \<open>Budget\<close>

text \<open>The counter counts the batches that hold a permit: those the driver has not dropped, and the one in hand.\<close>

definition in_hand :: "('e, 'x) transport_flow \<Rightarrow> nat" where
  "in_hand fl = (case fl_stage fl of Placing _ _ \<Rightarrow> 1 | _ \<Rightarrow> 0)"

definition permits_ok :: "u64 \<Rightarrow> ('e, 'x) transport_flow \<Rightarrow> bool" where
  "permits_ok budget fl \<longleftrightarrow> tp_budget (fl_tp fl) = budget \<and>
     unat (tp_in_flight (fl_tp fl)) = length (fl_live fl) + in_hand fl \<and> length (fl_live fl) + in_hand fl \<le> unat budget"

lemma length_without [simp]: "i < length xs \<Longrightarrow> length (without i xs) = length xs - 1"
  by (auto simp: without_def)

lemma set_without: "set (without i xs) \<subseteq> set xs"
  by (auto simp: without_def dest: in_set_takeD in_set_dropD)

lemma set_without_distinct: "distinct xs \<Longrightarrow> i < length xs \<Longrightarrow> set (without i xs) = set xs - {xs ! i}"
proof -
  assume d: "distinct xs" and i: "i < length xs"
  then have e: "xs = take i xs @ xs ! i # drop (Suc i) xs" by (simp add: id_take_nth_drop)
  with d have "distinct (take i xs @ xs ! i # drop (Suc i) xs)" by simp
  then show ?thesis using arg_cong [OF e, of set] by (auto simp: without_def)
qed

lemma distinct_without: "distinct xs \<Longrightarrow> distinct (without i xs)"
  using set_take_disj_set_drop_if_distinct [of xs i "Suc i"] by (simp add: without_def)

lemma acquire_Some: "acquire tp = Some tp' \<Longrightarrow> unat (tp_in_flight tp') = Suc (unat (tp_in_flight tp)) \<and>
    unat (tp_in_flight tp) < unat (tp_budget tp) \<and> tp_budget tp' = tp_budget tp \<and>
    tp_overflow_gen tp' = tp_overflow_gen tp \<and> tp_fatal_sent tp' = tp_fatal_sent tp"
proof -
  assume "acquire tp = Some tp'"
  then have l: "unat (tp_in_flight tp) < unat (tp_budget tp)" and t: "tp' = tp\<lparr>tp_in_flight := tp_in_flight tp + 1\<rparr>"
    by (auto simp: acquire_def word_less_nat_alt split: if_splits)
  have "unat (tp_in_flight tp + 1) = Suc (unat (tp_in_flight tp))"
    using l unat_u64_lt [of "tp_budget tp"] by (subst unat_plus_u64) simp_all
  with l show ?thesis by (simp add: t)
qed

lemma elect_Some: "elect tp = Some (e, tp') \<Longrightarrow> even (tp_overflow_gen tp) \<and> e = tp_overflow_gen tp + 1 \<and>
    tp' = tp\<lparr>tp_overflow_gen := e\<rparr>"
  by (auto simp: elect_def and_one_eq even_iff_mod_2_eq_zero split: if_splits)

lemma elect_None: "elect tp = None \<Longrightarrow> odd (tp_overflow_gen tp)"
  by (auto simp: elect_def and_one_eq even_iff_mod_2_eq_zero split: if_splits)

lemma superseded: "batch_superseded_pending_overflow tp =
    (if odd (tp_overflow_gen tp) then tp\<lparr>tp_overflow_gen := tp_overflow_gen tp + 1\<rparr> else tp)"
  by (simp add: batch_superseded_pending_overflow_def and_one_eq odd_iff_mod_2_eq_one)

lemma signals_keep_permits [simp]: "tp_in_flight (batch_superseded_pending_overflow tp) = tp_in_flight tp"
    "tp_budget (batch_superseded_pending_overflow tp) = tp_budget tp"
    "tp_in_flight (ack_dropped e tp) = tp_in_flight tp" "tp_budget (ack_dropped e tp) = tp_budget tp"
    "tp_fatal_sent (batch_superseded_pending_overflow tp) = tp_fatal_sent tp" "tp_fatal_sent (ack_dropped e tp) = tp_fatal_sent tp"
    "tp_fatal_sent (permit_dropped tp) = tp_fatal_sent tp" "tp_overflow_gen (permit_dropped tp) = tp_overflow_gen tp"
    "tp_budget (permit_dropped tp) = tp_budget tp"
  by (simp_all add: batch_superseded_pending_overflow_def ack_dropped_def permit_dropped_def)

lemma permit_drop:
  assumes "unat (tp_in_flight tp) = m" and "0 < m"
  shows "unat (tp_in_flight (permit_dropped tp)) = m - 1"
proof -
  from assms have "tp_in_flight tp \<noteq> 0" by auto
  with assms(1) show ?thesis by (simp add: permit_dropped_def unat_minus_one)
qed

text \<open>Every way a step can go.\<close>

lemma flow_step_cases:
  assumes "flow_step op fl = Some fl'"
  obtains (skip) "fl' = fl"
  | (turn) sg where "fl' = fl\<lparr>fl_stage := sg\<rparr>" "sg = Idle \<or> sg = Losing"
      "fl_stage fl = Idle \<or> (\<exists>x. fl_stage fl = Dying x) \<or> (fl_stage fl = Losing \<and> elect (fl_tp fl) = None)"
  | (claim) tp p l where "fl_stage fl = Idle" "acquire (fl_tp fl) = Some tp" "fl' = fl\<lparr>fl_tp := tp, fl_stage := Placing p l\<rparr>"
  | (place) p l where "fl_stage fl = Placing p l"
      "fl' = fl\<lparr>fl_stage := Landed l, fl_log := fl_log fl @ [MsgBatch p], fl_live := fl_live fl @ [p]\<rparr>"
  | (unplace) p l where "fl_stage fl = Placing p l" "fl' = fl\<lparr>fl_stage := Idle, fl_tp := permit_dropped (fl_tp fl)\<rparr>"
  | (land) l where "fl_stage fl = Landed l"
      "fl' = fl\<lparr>fl_stage := if l then Losing else Idle, fl_tp := batch_superseded_pending_overflow (fl_tp fl)\<rparr>"
  | (vote) e tp where "fl_stage fl = Losing" "elect (fl_tp fl) = Some (e, tp)" "fl' = fl\<lparr>fl_stage := Elected e, fl_tp := tp\<rparr>"
  | (signal) e where "fl_stage fl = Elected e"
      "fl' = fl\<lparr>fl_stage := Idle, fl_log := fl_log fl @ [MsgOverflow e], fl_acks := fl_acks fl @ [e]\<rparr>"
  | (unsignal) e where "fl_stage fl = Elected e" "fl' = fl\<lparr>fl_stage := Idle, fl_tp := ack_dropped e (fl_tp fl)\<rparr>"
  | (doom) x where "fl_stage fl = Idle" "\<not> tp_fatal_sent (fl_tp fl)"
      "fl' = fl\<lparr>fl_tp := (fl_tp fl)\<lparr>tp_fatal_sent := True\<rparr>, fl_stage := Dying x\<rparr>"
  | (die) x where "fl_stage fl = Dying x" "fl' = fl\<lparr>fl_stage := Idle, fl_log := fl_log fl @ [MsgFatal x]\<rparr>"
  | (settle) i t where "i < length (fl_live fl)" "bp_resume (fl_live fl ! i) = Some t"
      "fl' = fl\<lparr>fl_published := publish_resume t (fl_published fl),
         fl_live := (fl_live fl)[i := (fl_live fl ! i)\<lparr>bp_resume := None\<rparr>]\<rparr>"
  | (dropped) i where "i < length (fl_live fl)"
      "fl' = fl\<lparr>fl_live := without i (fl_live fl), fl_tp := permit_dropped (fl_tp fl)\<rparr>"
  | (acked) i where "i < length (fl_acks fl)"
      "fl' = fl\<lparr>fl_acks := without i (fl_acks fl), fl_tp := ack_dropped (fl_acks fl ! i) (fl_tp fl)\<rparr>"
proof (cases op)
  case (Forward events lossy resume)
  with assms show thesis by (auto split: if_splits option.splits intro: claim turn)
next
  case (Advance a)
  with assms show thesis
    by (auto split: stage.splits if_splits option.splits prod.splits
        intro: place unplace land vote signal unsignal die turn)
next
  case (Acknowledge i)
  with assms show thesis by (auto split: if_splits option.splits intro: skip settle)
next
  case Lose
  with assms show thesis by (auto split: if_splits intro: turn)
next
  case (Die x)
  with assms show thesis by (auto split: if_splits intro: skip doom)
next
  case (DropBatch i)
  with assms show thesis by (auto split: if_splits intro: dropped)
next
  case (DropAck i)
  with assms show thesis by (auto split: if_splits intro: acked)
qed

lemma permits_step:
  assumes k: "permits_ok b fl" and f: "flow_step op fl = Some fl'"
  shows "permits_ok b fl'"
  using f
proof (cases rule: flow_step_cases)
  case (unplace p l)
  then have "unat (tp_in_flight (permit_dropped (fl_tp fl))) = length (fl_live fl) + 1 - 1"
    using k by (intro permit_drop) (simp_all add: permits_ok_def in_hand_def)
  with unplace k show ?thesis by (simp add: permits_ok_def in_hand_def)
next
  case (dropped i)
  have h: "in_hand fl' = in_hand fl" by (simp add: dropped in_hand_def)
  have "unat (tp_in_flight (permit_dropped (fl_tp fl))) = length (fl_live fl) + in_hand fl - 1"
    by (rule permit_drop) (use k dropped(1) in \<open>auto simp: permits_ok_def\<close>)
  then show ?thesis using k dropped(1) h unfolding permits_ok_def by (auto simp: dropped(2))
next
  case (claim tp p l)
  with k acquire_Some [OF claim(2)] show ?thesis by (simp add: permits_ok_def in_hand_def)
next
  case (vote e tp)
  with k elect_Some [OF vote(2)] show ?thesis by (simp add: permits_ok_def in_hand_def)
qed (use k in \<open>auto simp: permits_ok_def in_hand_def\<close>)

section \<open>Signals\<close>

fun is_batch :: "('e, 'x) source_message \<Rightarrow> bool" where
  "is_batch (MsgBatch _) = True"
| "is_batch _ = False"

text \<open>
  The overflow \<open>e\<close> was accepted, its acknowledgement is not dropped, and no batch was accepted after it (but
  for the one whose landing the producer has not recorded yet).
\<close>

definition stands :: "u64 \<Rightarrow> ('e, 'x) source_message list \<Rightarrow> u64 list \<Rightarrow> bool" where
  "stands e log acks \<longleftrightarrow> e \<in> set acks \<and>
     (\<exists>before later. log = before @ MsgOverflow e # later \<and> list_all (Not \<circ> is_batch) later)"

definition settled_log :: "('e, 'x) transport_flow \<Rightarrow> ('e, 'x) source_message list" where
  "settled_log fl = (case fl_stage fl of Landed _ \<Rightarrow> butlast (fl_log fl) | _ \<Rightarrow> fl_log fl)"

text \<open>After \<open>n\<close> steps the generation is at most \<open>n\<close>, so that below the width of the word it never wraps.\<close>

definition signals_ok :: "nat \<Rightarrow> ('e, 'x) transport_flow \<Rightarrow> bool" where
  "signals_ok n fl \<longleftrightarrow> (let gen = tp_overflow_gen (fl_tp fl) in
     unat gen \<le> n \<and> distinct (fl_acks fl) \<and> (\<forall>e \<in> set (fl_acks fl). odd e \<and> e \<le> gen) \<and>
     (case fl_stage fl of Elected e \<Rightarrow> e = gen \<and> odd gen \<and> e \<notin> set (fl_acks fl)
      | _ \<Rightarrow> odd gen \<longrightarrow> stands gen (settled_log fl) (fl_acks fl)))"

lemma unat_next: "unat g \<le> n \<Longrightarrow> Suc n < 2 ^ 64 \<Longrightarrow> unat (g + 1 :: u64) = Suc (unat g)"
  by (subst unat_plus_u64) simp_all

lemma signals_stage: "signals_ok n fl \<Longrightarrow> unat (tp_overflow_gen (fl_tp fl)) \<le> n"
    "signals_ok n fl \<Longrightarrow> distinct (fl_acks fl)"
    "signals_ok n fl \<Longrightarrow> e \<in> set (fl_acks fl) \<Longrightarrow> odd e \<and> e \<le> tp_overflow_gen (fl_tp fl)"
    "signals_ok n fl \<Longrightarrow> fl_stage fl = Elected e \<Longrightarrow> e = tp_overflow_gen (fl_tp fl) \<and> odd e \<and> e \<notin> set (fl_acks fl)"
    "signals_ok n fl \<Longrightarrow> \<forall>e. fl_stage fl \<noteq> Elected e \<Longrightarrow> odd (tp_overflow_gen (fl_tp fl)) \<Longrightarrow>
       stands (tp_overflow_gen (fl_tp fl)) (settled_log fl) (fl_acks fl)"
  by (auto simp: signals_ok_def Let_def split: stage.splits)

lemma signalsI:
  assumes "unat (tp_overflow_gen (fl_tp fl)) \<le> n" "distinct (fl_acks fl)"
    "\<And>e. e \<in> set (fl_acks fl) \<Longrightarrow> odd e \<and> e \<le> tp_overflow_gen (fl_tp fl)"
    "\<And>e. fl_stage fl = Elected e \<Longrightarrow> e = tp_overflow_gen (fl_tp fl) \<and> odd e \<and> e \<notin> set (fl_acks fl)"
    "\<forall>e. fl_stage fl \<noteq> Elected e \<Longrightarrow> odd (tp_overflow_gen (fl_tp fl)) \<Longrightarrow>
       stands (tp_overflow_gen (fl_tp fl)) (settled_log fl) (fl_acks fl)"
  shows "signals_ok n fl"
  using assms by (auto simp: signals_ok_def Let_def split: stage.splits)

lemma stands_more: "stands e log acks \<Longrightarrow> list_all (Not \<circ> is_batch) ms \<Longrightarrow> stands e (log @ ms) acks"
proof -
  assume "stands e log acks" and ms: "list_all (Not \<circ> is_batch) ms"
  then obtain before later where "log = before @ MsgOverflow e # later" "list_all (Not \<circ> is_batch) later" "e \<in> set acks"
    by (auto simp: stands_def)
  with ms show ?thesis unfolding stands_def by (intro conjI exI [of _ before] exI [of _ "later @ ms"]) simp_all
qed

lemma signals_still:
  assumes k: "signals_ok n fl" and e: "\<forall>e. fl_stage fl \<noteq> Elected e" "\<forall>e. fl_stage fl' \<noteq> Elected e"
    and g: "tp_overflow_gen (fl_tp fl') = tp_overflow_gen (fl_tp fl)" "fl_acks fl' = fl_acks fl"
    and l: "settled_log fl' = settled_log fl @ ms" "list_all (Not \<circ> is_batch) ms"
  shows "signals_ok (Suc n) fl'"
proof (rule signalsI)
  assume "odd (tp_overflow_gen (fl_tp fl'))"
  with signals_stage(5) [OF k e(1)] show "stands (tp_overflow_gen (fl_tp fl')) (settled_log fl') (fl_acks fl')"
    unfolding g l(1) by (intro stands_more [OF _ l(2)])
qed (use signals_stage(1-3) [OF k] e(2) g in auto)

lemma signals_even:
  assumes "even (tp_overflow_gen (fl_tp fl'))" "unat (tp_overflow_gen (fl_tp fl')) \<le> n" "distinct (fl_acks fl')"
    and "\<And>e. e \<in> set (fl_acks fl') \<Longrightarrow> odd e \<and> unat e \<le> unat (tp_overflow_gen (fl_tp fl'))" "\<forall>e. fl_stage fl' \<noteq> Elected e"
  shows "signals_ok n fl'"
  using assms by (intro signalsI) (auto simp: word_le_nat_alt)

lemma signals_step:
  assumes k: "signals_ok n fl" and n: "Suc n < 2 ^ 64" and f: "flow_step op fl = Some fl'"
  shows "signals_ok (Suc n) fl'"
proof -
  note s = signals_stage(1-3) [OF k]
  have odd: "odd e" "unat e \<le> unat (tp_overflow_gen (fl_tp fl))" if "e \<in> set (fl_acks fl)" for e
    using s(3) [OF that] by (simp_all add: word_le_nat_alt)
  have g: "unat (tp_overflow_gen (fl_tp fl) + 1) = Suc (unat (tp_overflow_gen (fl_tp fl)))" by (rule unat_next [OF s(1) n])
  show ?thesis
    using f
  proof (cases rule: flow_step_cases)
    case (turn sg)
    then show ?thesis by (intro signals_still [OF k, of _ "[]"]) (auto simp: settled_log_def)
  next
    case (claim tp p l)
    with acquire_Some [OF claim(2)] show ?thesis by (intro signals_still [OF k, of _ "[]"]) (auto simp: settled_log_def)
  next
    case (place p l)
    then show ?thesis by (intro signals_still [OF k, of _ "[]"]) (auto simp: settled_log_def)
  next
    case (unplace p l)
    then show ?thesis by (intro signals_still [OF k, of _ "[]"]) (auto simp: settled_log_def)
  next
    case (land l)
    then show ?thesis using s(1,2) odd g by (intro signals_even) (auto simp: superseded intro: le_SucI)
  next
    case (vote e tp)
    note e = elect_Some [OF vote(2)]
    show ?thesis
    proof (rule signalsI)
      fix d assume "d \<in> set (fl_acks fl')"
      with odd [of d] e g show "odd d \<and> d \<le> tp_overflow_gen (fl_tp fl')" by (simp add: vote(3) word_le_nat_alt)
    next
      fix d assume d: "fl_stage fl' = Elected d"
      have "e \<notin> set (fl_acks fl)" "odd e" using odd(2) [of e] e g by auto
      with d e show "d = tp_overflow_gen (fl_tp fl') \<and> odd d \<and> d \<notin> set (fl_acks fl')" by (auto simp: vote(3))
    qed (use s e g in \<open>simp_all add: vote(3)\<close>)
  next
    case (signal e)
    note e = signals_stage(4) [OF k signal(1)]
    show ?thesis
    proof (rule signalsI)
      show "stands (tp_overflow_gen (fl_tp fl')) (settled_log fl') (fl_acks fl')"
        using e unfolding stands_def settled_log_def
        by (intro conjI exI [of _ "fl_log fl"] exI [of _ "[]"]) (simp_all add: signal(2))
    qed (use s e in \<open>auto simp: signal(2)\<close>)
  next
    case (unsignal e)
    with signals_stage(4) [OF k unsignal(1)] s(1,2) odd g show ?thesis
      by (intro signals_even) (auto simp: ack_dropped_def intro: le_SucI)
  next
    case (acked i)
    have a: "set (fl_acks fl') = set (fl_acks fl) - {fl_acks fl ! i}"
      by (simp add: acked(2) set_without_distinct [OF s(2) acked(1)])
    have d: "distinct (fl_acks fl')" by (simp add: acked(2) distinct_without s(2))
    show ?thesis
    proof (cases "fl_acks fl ! i = tp_overflow_gen (fl_tp fl)")
      case True
      have "fl_stage fl \<noteq> Elected e" for e
        using signals_stage(4) [OF k, of e] nth_mem [OF acked(1)] True by auto
      moreover have "odd (tp_overflow_gen (fl_tp fl))" using odd(1) nth_mem [OF acked(1)] True by metis
      moreover have g': "tp_overflow_gen (fl_tp fl') = tp_overflow_gen (fl_tp fl) + 1" "fl_stage fl' = fl_stage fl"
        by (simp_all add: acked(2) ack_dropped_def True)
      ultimately show ?thesis using s(1) a d odd g by (intro signals_even) (auto simp: g' intro: le_SucI)
    next
      case False
      then have g': "fl_tp fl' = fl_tp fl" "fl_stage fl' = fl_stage fl" "settled_log fl' = settled_log fl"
        by (auto simp: acked(2) ack_dropped_def settled_log_def split: stage.split)
      show ?thesis
      proof (rule signalsI)
        assume "\<forall>e. fl_stage fl' \<noteq> Elected e" "odd (tp_overflow_gen (fl_tp fl'))"
        then have "stands (tp_overflow_gen (fl_tp fl)) (settled_log fl) (fl_acks fl)" using signals_stage(5) [OF k] g' by simp
        with False show "stands (tp_overflow_gen (fl_tp fl')) (settled_log fl') (fl_acks fl')"
          by (auto simp: g' a stands_def)
      qed (use s a d g' signals_stage(4) [OF k] in auto)
    qed
  next
    case (die x)
    then show ?thesis by (intro signals_still [OF k, of _ "[MsgFatal x]"]) (auto simp: settled_log_def)
  next
    case (doom x)
    then show ?thesis by (intro signals_still [OF k, of _ "[]"]) (auto simp: settled_log_def)
  next
    case (settle i t)
    then have "settled_log fl' = settled_log fl" by (simp add: settled_log_def split: stage.split)
    with k show ?thesis by (auto simp: signals_ok_def Let_def settle split: stage.splits)
  next
    case (dropped i)
    then have "settled_log fl' = settled_log fl" by (simp add: settled_log_def split: stage.split)
    with k show ?thesis by (auto simp: signals_ok_def Let_def dropped split: stage.splits)
  next
    case skip
    with k show ?thesis by (auto simp: signals_ok_def Let_def split: stage.splits)
  qed
qed

section \<open>Resume points and the end\<close>

definition carried :: "resume_token \<Rightarrow> ('e, 'x) transport_flow \<Rightarrow> bool" where
  "carried t fl \<longleftrightarrow> (\<exists>p. MsgBatch p \<in> set (fl_log fl) \<and> bp_resume p = Some t)"

definition resume_ok :: "('e, 'x) transport_flow \<Rightarrow> bool" where
  "resume_ok fl \<longleftrightarrow> (\<forall>t. fl_published fl = Some t \<longrightarrow> carried t fl) \<and>
     (\<forall>p t. p \<in> set (fl_live fl) \<and> bp_resume p = Some t \<longrightarrow> carried t fl)"

lemma log_grows: "flow_step op fl = Some fl' \<Longrightarrow> set (fl_log fl) \<subseteq> set (fl_log fl')"
  by (erule flow_step_cases) auto

lemma carried_grows: "carried t fl \<Longrightarrow> set (fl_log fl) \<subseteq> set (fl_log fl') \<Longrightarrow> carried t fl'"
  by (auto simp: carried_def)

lemma publish_resume_cases: "publish_resume t slot = slot \<or> publish_resume t slot = Some t"
  by (auto simp: publish_resume_def split: option.split)

lemma resume_step:
  assumes k: "resume_ok fl" and f: "flow_step op fl = Some fl'"
  shows "resume_ok fl'"
proof -
  note c = carried_grows [OF _ log_grows [OF f]]
  have "(\<forall>p t. p \<in> set (fl_live fl') \<and> bp_resume p = Some t \<longrightarrow> carried t fl') \<and>
      (fl_published fl' = fl_published fl \<or> (\<exists>t. fl_published fl' = Some t \<and> carried t fl'))"
    using f
  proof (cases rule: flow_step_cases)
    case (place p l)
    have "carried t fl'" if "q \<in> set (fl_live fl')" "bp_resume q = Some t" for q t
    proof (cases "q = p")
      case True
      with that(2) show ?thesis by (auto simp: carried_def place)
    next
      case False
      with that k c show ?thesis by (auto simp: resume_ok_def place)
    qed
    moreover have "fl_published fl' = fl_published fl" by (simp add: place)
    ultimately show ?thesis by blast
  next
    case (settle i t)
    have "carried t fl" using k nth_mem [OF settle(1)] settle(2) unfolding resume_ok_def by blast
    moreover have "carried u fl' = carried u fl" for u by (simp add: settle carried_def)
    ultimately show ?thesis
      using k publish_resume_cases [of t "fl_published fl"]
      by (auto simp: resume_ok_def settle dest!: set_update_subset_insert [THEN subsetD])
  next
    case (dropped i)
    then show ?thesis using k set_without [of i "fl_live fl"] by (auto simp: resume_ok_def carried_def)
  qed (use k in \<open>auto simp: resume_ok_def carried_def\<close>)
  then show ?thesis using k c unfolding resume_ok_def by auto
qed

fun is_fatal :: "('e, 'x) source_message \<Rightarrow> bool" where
  "is_fatal (MsgFatal _) = True"
| "is_fatal _ = False"

definition fatal_ok :: "('e, 'x) transport_flow \<Rightarrow> bool" where
  "fatal_ok fl \<longleftrightarrow> length (filter is_fatal (fl_log fl)) + (case fl_stage fl of Dying _ \<Rightarrow> 1 | _ \<Rightarrow> 0)
     \<le> (if tp_fatal_sent (fl_tp fl) then 1 else 0)"

lemma fatal_step: "fatal_ok fl \<Longrightarrow> flow_step op fl = Some fl' \<Longrightarrow> fatal_ok fl'"
proof (erule flow_step_cases)
  fix tp p l
  assume "fatal_ok fl" "fl_stage fl = Idle" "acquire (fl_tp fl) = Some tp" "fl' = fl\<lparr>fl_tp := tp, fl_stage := Placing p l\<rparr>"
  with acquire_Some [of "fl_tp fl" tp] show "fatal_ok fl'" by (simp add: fatal_ok_def split: if_splits)
next
  fix e tp
  assume "fatal_ok fl" "fl_stage fl = Losing" "elect (fl_tp fl) = Some (e, tp)" "fl' = fl\<lparr>fl_stage := Elected e, fl_tp := tp\<rparr>"
  with elect_Some [of "fl_tp fl" e tp] show "fatal_ok fl'" by (simp add: fatal_ok_def split: if_splits)
qed (auto simp: fatal_ok_def split: if_splits)

section \<open>Properties\<close>

lemma flow_new_ok: "permits_ok budget (flow_new budget)" "signals_ok 0 (flow_new budget)" "resume_ok (flow_new budget)"
    "fatal_ok (flow_new budget)"
  by (simp_all add: flow_new_def transport_new_def permits_ok_def in_hand_def signals_ok_def resume_ok_def fatal_ok_def)

lemma flow_signals: "flow_run ops (flow_new budget) = Some fl \<Longrightarrow> length ops < 2 ^ 64 \<Longrightarrow> signals_ok (length ops) fl"
  using fold_opt_counted [of signals_ok "2 ^ 64 - 1" flow_step 0 "flow_new budget" ops fl] signals_step flow_new_ok(2)
  unfolding flow_run_def by fastforce

lemma flow_kept:
  assumes "flow_run ops (flow_new budget) = Some fl"
  shows "permits_ok budget fl \<and> resume_ok fl \<and> fatal_ok fl"
  using fold_opt_counted [of "\<lambda>_ fl. permits_ok budget fl \<and> resume_ok fl \<and> fatal_ok fl" "length ops" flow_step 0 "flow_new budget" ops fl]
    permits_step resume_step fatal_step flow_new_ok assms unfolding flow_run_def by fastforce

text \<open>
  Property C35. However the driver's acknowledgements race the producer, a loss it signals is covered where it
  happened: when the signal is done and its send was not refused, the log holds an overflow the driver has not
  acknowledged yet, with no batch accepted after it. The generation would have to wrap its 64 bits to fail.
\<close>

theorem every_loss_is_covered:
  assumes "flow_run ops (flow_new budget) = Some fl" and "length ops < 2 ^ 64 - 1"
    and "fl_stage fl = Losing \<or> fl_stage fl = Elected e"
    and "flow_step (Advance True) fl = Some fl'" and "fl_stage fl' = Idle"
  shows "\<exists>e before later. e \<in> set (fl_acks fl') \<and> fl_log fl' = before @ MsgOverflow e # later \<and>
    list_all (Not \<circ> is_batch) later"
proof -
  have k: "signals_ok (length ops) fl" using flow_signals [OF assms(1)] assms(2) by simp
  have k': "signals_ok (Suc (length ops)) fl'" by (rule signals_step [OF k _ assms(4)]) (use assms(2) in simp)
  have "odd (tp_overflow_gen (fl_tp fl'))"
    using assms(3)
  proof
    assume l: "fl_stage fl = Losing"
    with assms(4,5) have "elect (fl_tp fl) = None" "fl_tp fl' = fl_tp fl" by (auto split: option.splits)
    with elect_None show ?thesis by auto
  next
    assume e: "fl_stage fl = Elected e"
    with assms(4) have "fl_tp fl' = fl_tp fl" by auto
    with signals_stage(4) [OF k e] show ?thesis by auto
  qed
  from signals_stage(5) [OF k' _ this] assms(5) show ?thesis by (auto simp: settled_log_def stands_def)
qed

text \<open>A batch lands behind an unacknowledged overflow; a loss after it must be signalled afresh.\<close>

definition busy :: "(nat, unit) flow_op list" where
  "busy = [Lose, Advance True, Advance True, Forward [7] True None, Advance True, Advance True, Advance True]"

definition busy_flow :: "(nat, unit) transport_flow" where
  "busy_flow = the (flow_run busy (flow_new 4))"

lemma busy_run: "flow_run busy (flow_new 4) = Some busy_flow" "length busy = 7" "fl_stage busy_flow = Elected 3"
    "\<exists>fl. flow_step (Advance True) busy_flow = Some fl \<and> fl_stage fl = Idle \<and> length (fl_log fl) = 3"
  by (simp_all add: busy_flow_def busy_def flow_run_def flow_new_def transport_new_def acquire_def elect_def
      batch_superseded_pending_overflow_def)

theorem every_loss_is_covered_witness:
  "\<exists>fl. flow_step (Advance True) busy_flow = Some fl \<and> length (fl_log fl) = 3 \<and>
    (\<exists>e before later. e \<in> set (fl_acks fl) \<and> fl_log fl = before @ MsgOverflow e # later \<and> list_all (Not \<circ> is_batch) later)"
proof -
  from busy_run(4) obtain fl where fl: "flow_step (Advance True) busy_flow = Some fl" "fl_stage fl = Idle" "length (fl_log fl) = 3"
    by blast
  from every_loss_is_covered [OF busy_run(1) _ disjI2 [OF busy_run(3)] fl(1,2)] fl show ?thesis by (auto simp: busy_run(2))
qed

text \<open>
  Property C36. The budget is exact and cannot leak: at every moment the counter is the number of batches the
  driver still holds plus the one in the producer's hand, and never exceeds the budget; and at most one fatal
  message is ever accepted.
\<close>

theorem budget_is_exact:
  assumes "flow_run ops (flow_new budget) = Some fl"
  shows "unat (tp_in_flight (fl_tp fl)) = length (fl_live fl) + in_hand fl \<and>
    length (fl_live fl) + in_hand fl \<le> unat budget \<and> length (filter is_fatal (fl_log fl)) \<le> 1"
  using flow_kept [OF assms] by (auto simp: permits_ok_def fatal_ok_def split: if_splits)

theorem budget_is_exact_witness:
  "unat (tp_in_flight (fl_tp busy_flow)) = length (fl_live busy_flow) + in_hand busy_flow \<and>
    length (fl_live busy_flow) + in_hand busy_flow \<le> 4 \<and> length (filter is_fatal (fl_log busy_flow)) \<le> 1"
  using budget_is_exact [OF busy_run(1)] by simp

text \<open>
  Property C37. The published resume point is one that rode a batch the channel accepted, and it never moves
  backward within the scope of one journal.
\<close>

theorem resume_point_is_earned:
  assumes "flow_run ops (flow_new budget) = Some fl" and "flow_step op fl = Some fl'"
    and "fl_published fl = Some old" and "fl_published fl' = Some new"
  shows "(\<exists>p. MsgBatch p \<in> set (fl_log fl') \<and> bp_resume p = Some new) \<and>
    (new = old \<or> \<not> same_scope old new \<or> token_reaches new old)"
proof -
  have "resume_ok fl'" using resume_step [OF _ assms(2)] flow_kept [OF assms(1)] by blast
  moreover have "fl_published fl' = fl_published fl \<or> (\<exists>t. fl_published fl' = publish_resume t (fl_published fl))"
    using assms(2) by (rule flow_step_cases) auto
  ultimately show ?thesis using assms(3,4) by (auto simp: resume_ok_def carried_def publish_resume_def split: if_splits)
qed

definition journal :: "(nat, unit) flow_op list" where
  "journal = [Forward [1] False (Some (UsnToken 1 5 1)), Advance True, Advance True, Acknowledge 0,
     Forward [2] False (Some (UsnToken 1 9 1)), Advance True, Advance True]"

definition journal_flow :: "(nat, unit) transport_flow" where
  "journal_flow = the (flow_run journal (flow_new 4))"

lemma journal_run: "flow_run journal (flow_new 4) = Some journal_flow" "fl_published journal_flow = Some (UsnToken 1 5 1)"
    "\<exists>fl. flow_step (Acknowledge 1) journal_flow = Some fl \<and> fl_published fl = Some (UsnToken 1 9 1)"
  by (simp_all add: journal_flow_def journal_def flow_run_def flow_new_def transport_new_def acquire_def publish_resume_def
      batch_superseded_pending_overflow_def)

theorem resume_point_is_earned_witness:
  "\<exists>fl. flow_step (Acknowledge 1) journal_flow = Some fl \<and> (\<exists>p. MsgBatch p \<in> set (fl_log fl) \<and> bp_resume p = Some (UsnToken 1 9 1))"
  using journal_run(3) resume_point_is_earned [OF journal_run(1) _ journal_run(2)] by blast

section \<open>The functions of the code are runs\<close>

text \<open>A \<open>send\<close> that answers from a script and logs what it accepts.\<close>

fun scripted :: "('e, 'x) source_message \<Rightarrow> bool list \<times> ('e, 'x) source_message list
    \<Rightarrow> bool \<times> (bool list \<times> ('e, 'x) source_message list)" where
  "scripted m (answers, log) = (hd answers, (tl answers, if hd answers then log @ [m] else log))"

lemma flow_run_append: "flow_run (a @ b) fl = (case flow_run a fl of None \<Rightarrow> None | Some x \<Rightarrow> flow_run b x)"
  by (simp add: flow_run_def fold_opt_append split: option.split)

lemma signal_runs:
  assumes "fl_stage fl = Losing" and "signal_loss scripted (fl_tp fl) (answers, fl_log fl) = (tp, (answers', log))"
  shows "\<exists>as fl'. flow_run (map Advance as) fl = Some fl' \<and> fl_stage fl' = Idle \<and> fl_tp fl' = tp \<and> fl_log fl' = log"
proof (cases "elect (fl_tp fl)")
  case None
  with assms show ?thesis by (intro exI [of _ "[True]"]) (auto simp: signal_loss_def flow_run_def)
next
  case (Some z)
  with assms show ?thesis
    by (intro exI [of _ "[True, hd answers]"]) (auto simp: signal_loss_def flow_run_def split: prod.splits if_splits bool.splits)
qed

text \<open>
  Property C38. Refinement. The functions the producers call are runs of the fine-grained system without
  interference: whatever the channel answers, forwarding a batch ends idle, with the shared state and the
  accepted messages that \<open>forward_batch_resuming\<close> computes.
\<close>

theorem forwarding_is_a_run:
  assumes "fl_stage fl = Idle"
    and "forward_batch_resuming scripted events lossy resume (fl_tp fl) (answers, fl_log fl) = (tp, (answers', log))"
  shows "\<exists>as fl'. flow_run (Forward events lossy resume # map Advance as) fl = Some fl' \<and>
    fl_stage fl' = Idle \<and> fl_tp fl' = tp \<and> fl_log fl' = log"
proof -
  have run: "\<exists>as fl'. flow_run (Forward events lossy resume # map Advance as) fl = Some fl' \<and> fl_stage fl' = Idle \<and>
      fl_tp fl' = tp \<and> fl_log fl' = log"
    if "flow_run (Forward events lossy resume # map Advance bs) fl = Some x" "fl_stage x = Losing"
      "signal_loss scripted (fl_tp x) (rest, fl_log x) = (tp, (answers', log))" for bs x rest
  proof -
    from signal_runs [OF that(2,3)] obtain as fl' where "flow_run (map Advance as) x = Some fl'" "fl_stage fl' = Idle"
      "fl_tp fl' = tp" "fl_log fl' = log" by blast
    then have "flow_run ((Forward events lossy resume # map Advance bs) @ map Advance as) fl = Some fl'"
      by (simp only: flow_run_append that(1) option.case)
    then show ?thesis
      using \<open>fl_stage fl' = Idle\<close> \<open>fl_tp fl' = tp\<close> \<open>fl_log fl' = log\<close>
      by (intro exI [of _ "bs @ as"] exI [of _ fl']) simp
  qed
  show ?thesis
  proof (cases "events = [] \<or> acquire (fl_tp fl) = None")
    case True
    show ?thesis
    proof (cases "events = [] \<and> \<not> lossy")
      case True
      with assms show ?thesis by (intro exI [of _ "[]"]) (auto simp: flow_run_def forward_batch_resuming_def)
    next
      case False
      with True assms show ?thesis
        by (intro run [of "[]" "fl\<lparr>fl_stage := Losing\<rparr>" answers])
          (auto simp: flow_run_def forward_batch_resuming_def split: if_splits option.splits)
    qed
  next
    case False
    then obtain tp1 where tp1: "acquire (fl_tp fl) = Some tp1" and e: "events \<noteq> []" by auto
    define p where "p = \<lparr>bp_events = events, bp_resume = (if lossy then None else resume)\<rparr>"
    show ?thesis
    proof (cases "hd answers \<and> lossy")
      case True
      define x where "x = fl\<lparr>fl_tp := batch_superseded_pending_overflow tp1, fl_stage := Losing,
        fl_log := fl_log fl @ [MsgBatch p], fl_live := fl_live fl @ [p]\<rparr>"
      from True assms tp1 e show ?thesis
        by (intro run [of "[True, True]" x "tl answers"])
          (auto simp: flow_run_def forward_batch_resuming_def x_def p_def Let_def)
    next
      case False
      with assms tp1 e show ?thesis
        by (intro exI [of _ "if hd answers then [True, True] else [False]"])
          (auto simp: flow_run_def forward_batch_resuming_def Let_def split: if_splits)
    qed
  qed
qed

theorem forwarding_is_a_run_witness:
  "\<exists>as fl'. flow_run (Forward [7] True None # map Advance as) (flow_new 4 :: (nat, unit) transport_flow) = Some fl' \<and>
    fl_stage fl' = Idle \<and> length (fl_log fl') = 2"
proof -
  define r where "r = forward_batch_resuming scripted [7] True None (fl_tp (flow_new 4 :: (nat, unit) transport_flow))
    ([True, True], fl_log (flow_new 4 :: (nat, unit) transport_flow))"
  obtain tp as' log where r': "r = (tp, (as', log))" by (cases r) auto
  have i: "fl_stage (flow_new 4 :: (nat, unit) transport_flow) = Idle" by (simp add: flow_new_def)
  have "length log = 2"
    using r' by (auto simp: r_def forward_batch_resuming_def flow_new_def transport_new_def acquire_def Let_def signal_loss_def
        batch_superseded_pending_overflow_def elect_def)
  with forwarding_is_a_run [OF i r' [unfolded r_def]] show ?thesis by auto
qed

end
