(* ===== verification/Fs_Bytes.thy ===== *)
theory Fs_Bytes
  imports Prelude
begin

text \<open>
  Buffers of bytes as the decoders of \<open>tributary-fs\<close> read them: slices and the integers laid out in them
  (\<open>from_ne_bytes\<close>, \<open>from_le_bytes\<close>), with the layout they invert.
\<close>

type_synonym u32 = "32 word"

fun le_u32 :: "8 word list \<Rightarrow> u32" where
  "le_u32 [a, b, c, d] = ucast a OR push_bit 8 (ucast b) OR push_bit 16 (ucast c) OR push_bit 24 (ucast d)"
| "le_u32 _ = 0"

definition ne_u32 :: "bool \<Rightarrow> 8 word list \<Rightarrow> u32" where
  "ne_u32 little bs = le_u32 (if little then bs else rev bs)"

definition slice :: "nat \<Rightarrow> nat \<Rightarrow> 'a list \<Rightarrow> 'a list" where
  "slice i j xs = take (j - i) (drop i xs)"

definition get_range :: "nat \<Rightarrow> nat \<Rightarrow> 'a list \<Rightarrow> 'a list option" where
  "get_range i j xs = (if i \<le> j \<and> j \<le> length xs then Some (slice i j xs) else None)"

definition le_u64 :: "8 word list \<Rightarrow> u64" where
  "le_u64 bs = ucast (le_u32 (take 4 bs)) OR push_bit 32 (ucast (le_u32 (drop 4 bs)))"

fun le_u16s :: "8 word list \<Rightarrow> 16 word list" where
  "le_u16s (a # b # bs) = (ucast a OR push_bit 8 (ucast b)) # le_u16s bs"
| "le_u16s _ = []"

section \<open>Layout\<close>

definition wire_u32 :: "bool \<Rightarrow> u32 \<Rightarrow> 8 word list" where
  "wire_u32 little w = (let bs = [ucast w, ucast (drop_bit 8 w), ucast (drop_bit 16 w), ucast (drop_bit 24 w)]
     in if little then bs else rev bs)"

lemma length_wire_u32 [simp]: "length (wire_u32 little w) = 4"
  by (simp add: wire_u32_def Let_def)

lemma ne_wire [simp]: "ne_u32 little (wire_u32 little w) = w"
proof -
  have "le_u32 [ucast w, ucast (drop_bit 8 w), ucast (drop_bit 16 w), ucast (drop_bit 24 w)] = w"
  proof (rule bit_word_eqI)
    fix n assume n: "n < LENGTH(32)"
    consider "n < 8" | "8 \<le> n" "n < 16" | "16 \<le> n" "n < 24" | "24 \<le> n" by linarith
    then show "bit (le_u32 [ucast w, ucast (drop_bit 8 w), ucast (drop_bit 16 w), ucast (drop_bit 24 w)]) n = bit w n"
      by cases (use n in \<open>auto simp: bit_simps\<close>)
  qed
  then show ?thesis by (simp add: ne_u32_def wire_u32_def Let_def)
qed

lemma slice_mid: "length a = i \<Longrightarrow> length b = j - i \<Longrightarrow> i \<le> j \<Longrightarrow> slice i j (a @ b @ c) = b"
  by (simp add: slice_def)

definition wire_u64 :: "u64 \<Rightarrow> 8 word list" where
  "wire_u64 w = wire_u32 True (ucast w) @ wire_u32 True (ucast (drop_bit 32 w))"

fun wire_u16s :: "16 word list \<Rightarrow> 8 word list" where
  "wire_u16s [] = []"
| "wire_u16s (w # ws) = ucast w # ucast (drop_bit 8 w) # wire_u16s ws"

lemma length_wire_u64 [simp]: "length (wire_u64 w) = 8"
  by (simp add: wire_u64_def)

lemma length_wire_u16s [simp]: "length (wire_u16s ws) = 2 * length ws"
  by (induction ws) simp_all

lemma le_wire_u32 [simp]: "le_u32 (wire_u32 True w) = w"
  using ne_wire [of True w] by (simp add: ne_u32_def)

lemma le_wire_u64 [simp]: "le_u64 (wire_u64 w) = w"
proof -
  have "ucast (ucast w :: u32) OR push_bit 32 (ucast (ucast (drop_bit 32 w) :: u32)) = w"
  proof (rule bit_word_eqI)
    fix n assume "n < LENGTH(64)"
    then show "bit (ucast (ucast w :: u32) OR push_bit 32 (ucast (ucast (drop_bit 32 w) :: u32)) :: u64) n = bit w n"
      by (cases "n < 32") (auto simp: bit_simps)
  qed
  then show ?thesis by (simp add: le_u64_def wire_u64_def)
qed

lemma le_wire_u16s [simp]: "le_u16s (wire_u16s ws) = ws"
proof (induction ws)
  case (Cons w ws)
  have "(ucast (ucast w :: 8 word) OR push_bit 8 (ucast (ucast (drop_bit 8 w) :: 8 word)) :: 16 word) = w"
  proof (rule bit_word_eqI)
    fix n assume "n < LENGTH(16)"
    then show "bit (ucast (ucast w :: 8 word) OR push_bit 8 (ucast (ucast (drop_bit 8 w) :: 8 word)) :: 16 word) n = bit w n"
      by (cases "n < 8") (auto simp: bit_simps)
  qed
  with Cons show ?case by simp
qed simp

text \<open>A slice that starts inside a block, and one that stays inside it.\<close>

lemma slice_skip: "length a \<le> i \<Longrightarrow> slice i j (a @ b) = slice (i - length a) (j - length a) b"
  by (cases "i \<le> j") (simp_all add: slice_def)

lemma slice_inside: "j \<le> length a \<Longrightarrow> slice i j (a @ b) = slice i j a"
  by (cases "i \<le> j") (simp_all add: slice_def)

end
