(* ===== verification/Fs_Rdcw.thy ===== *)
theory Fs_Rdcw
  imports Fs_Bytes
begin

text \<open>
  The \<open>ReadDirectoryChangesW\<close> backend of \<open>tributary-fs\<close>, below the system calls: the decoder of a completion
  buffer (\<open>os/windows/rdcw/decode.rs\<close>) and the state machine that pairs the halves of a rename
  (\<open>os/windows/rdcw/pairing.rs\<close>).

  A \<open>String\<close> is the list of its scalar values. The largest \<open>usize\<close> is an argument.
\<close>

type_synonym u16 = "16 word"
type_synonym scalars = "nat list"

section \<open>Names\<close>

datatype rdcw_action =
    ActAdded | ActRemoved | ActModified | ActRenamedOld | ActRenamedNew
  | ActStreamAdded | ActStreamRemoved | ActStreamModified | ActUnknown u32

definition action_from_word :: "u32 \<Rightarrow> rdcw_action" where
  "action_from_word w =
     (if w = 1 then ActAdded else if w = 2 then ActRemoved else if w = 3 then ActModified
      else if w = 4 then ActRenamedOld else if w = 5 then ActRenamedNew else if w = 6 then ActStreamAdded
      else if w = 7 then ActStreamRemoved else if w = 8 then ActStreamModified else ActUnknown w)"

definition is_stream :: "rdcw_action \<Rightarrow> bool" where
  "is_stream a \<longleftrightarrow> a = ActStreamAdded \<or> a = ActStreamRemoved \<or> a = ActStreamModified"

datatype rdcw_name = Utf8Name "scalars list" | EscalateName "scalars list"

fun split_on :: "'a \<Rightarrow> 'a list \<Rightarrow> 'a list list" where
  "split_on s [] = [[]]"
| "split_on s (x # xs) = (if x = s then [] # split_on s xs
     else case split_on s xs of [] \<Rightarrow> [[x]] | p # ps \<Rightarrow> (x # p) # ps)"

definition rsplit_once :: "'a \<Rightarrow> 'a list \<Rightarrow> ('a list \<times> 'a list) option" where
  "rsplit_once s xs =
     (let tail = rev (takeWhile (\<lambda>x. x \<noteq> s) (rev xs))
      in if length tail = length xs then None else Some (take (length xs - length tail - 1) xs, tail))"

text \<open>Scalar values: \<open>a\<close> to \<open>z\<close> are 97 to 122, the digits 48 to 57, the dot 46, the tilde 126.\<close>

definition short_base :: "scalars \<Rightarrow> bool" where
  "short_base base \<longleftrightarrow> (case rsplit_once 126 base of None \<Rightarrow> False
     | Some (head, tail) \<Rightarrow> head \<noteq> [] \<and> tail \<noteq> [] \<and> list_all (\<lambda>b. 48 \<le> b \<and> b \<le> 57) tail)"

definition is_short_name_alias :: "scalars \<Rightarrow> bool" where
  "is_short_name_alias component \<longleftrightarrow> \<not> list_ex (\<lambda>c. 97 \<le> c \<and> c \<le> 122) component \<and>
     (case split_on 46 component of
        [base] \<Rightarrow> 1 \<le> length base \<and> length base \<le> 8 \<and> short_base base
      | [base, ext] \<Rightarrow> 1 \<le> length base \<and> length base \<le> 8 \<and> length ext \<le> 3 \<and> short_base base
      | _ \<Rightarrow> False)"

fun decode_utf16 :: "u16 list \<Rightarrow> scalars option" where
  "decode_utf16 [] = Some []"
| "decode_utf16 (u # us) =
     (if u < 0xD800 \<or> 0xE000 \<le> u then map_option (\<lambda>cs. unat u # cs) (decode_utf16 us)
      else if 0xDC00 \<le> u then None
      else case us of
          [] \<Rightarrow> None
        | l # us' \<Rightarrow> if 0xDC00 \<le> l \<and> l < 0xE000
            then map_option (\<lambda>cs. (0x10000 + (unat u - 0xD800) * 0x400 + (unat l - 0xDC00)) # cs) (decode_utf16 us')
            else None)"

definition name_is_possible :: "u16 list \<Rightarrow> bool" where
  "name_is_possible units \<longleftrightarrow> 0 \<notin> set units"

text \<open>The components left, behind those already decoded; the fold of a stream record touches the last alone.\<close>

fun decode_components :: "bool \<Rightarrow> scalars list \<Rightarrow> u16 list list \<Rightarrow> rdcw_name" where
  "decode_components stream components [] = Utf8Name components"
| "decode_components stream components (raw # rest) =
     (let component = (if stream \<and> rest = [] then takeWhile (\<lambda>u. u \<noteq> 0x3A) raw else raw)
      in if component = [] then decode_components stream components rest
         else case decode_utf16 component of
             None \<Rightarrow> EscalateName components
           | Some decoded \<Rightarrow> if is_short_name_alias decoded then EscalateName components
               else decode_components stream (components @ [decoded]) rest)"

definition decode_name :: "u16 list \<Rightarrow> bool \<Rightarrow> rdcw_name" where
  "decode_name units stream = decode_components stream [] (filter (\<lambda>c. c \<noteq> []) (split_on 0x5C units))"

section \<open>Records\<close>

record rdcw_record =
  rr_action :: rdcw_action
  rr_name :: rdcw_name
  rr_file_id :: "u64 option"
  rr_parent_id :: "u64 option"
  rr_attributes :: "u32 option"
  rr_reparse_tag :: "u32 option"

definition rr_is_dir :: "rdcw_record \<Rightarrow> bool option" where
  "rr_is_dir r = map_option (\<lambda>attrs. attrs AND 0x10 \<noteq> 0) (rr_attributes r)"

record decoded_buffer =
  db_records :: "rdcw_record list"
  db_lossy :: bool

definition BASIC_HEADER :: nat where "BASIC_HEADER = 12"
definition EXTENDED_HEADER :: nat where "EXTENDED_HEADER = 84"
definition EXTENDED_ALIGN :: nat where "EXTENDED_ALIGN = 8"
definition EXTENDED_TERMINAL_SLACK :: nat where "EXTENDED_TERMINAL_SLACK = EXTENDED_ALIGN - 4"

definition header_len :: "bool \<Rightarrow> nat" where
  "header_len extended = (if extended then EXTENDED_HEADER else BASIC_HEADER)"

definition round4 :: "nat \<Rightarrow> nat" where
  "round4 n = (n + 3) div 4 * 4"

definition padded_extent :: "nat \<Rightarrow> nat \<Rightarrow> nat \<Rightarrow> nat option" where
  "padded_extent usize_max header name_len =
     (if usize_max < header + name_len \<or> usize_max < round4 (header + name_len) then None
      else Some (round4 (header + name_len)))"

definition load_u32 :: "8 word list \<Rightarrow> nat \<Rightarrow> u32" where
  "load_u32 buf at = le_u32 (slice at (at + 4) buf)"

definition load_u64 :: "8 word list \<Rightarrow> nat \<Rightarrow> u64" where
  "load_u64 buf at = le_u64 (slice at (at + 8) buf)"

definition name_len_at :: "bool \<Rightarrow> nat \<Rightarrow> nat" where
  "name_len_at extended at = (if extended then at + 80 else at + 8)"

definition name_len :: "bool \<Rightarrow> 8 word list \<Rightarrow> nat \<Rightarrow> nat" where
  "name_len extended buf at = unat (load_u32 buf (name_len_at extended at))"

definition name_units :: "bool \<Rightarrow> 8 word list \<Rightarrow> nat \<Rightarrow> u16 list" where
  "name_units extended buf at =
     (let name_at = at + header_len extended in le_u16s (slice name_at (name_at + name_len extended buf at) buf))"

text \<open>The record whose fixed prefix starts at \<open>at\<close>.\<close>

definition record_at :: "bool \<Rightarrow> 8 word list \<Rightarrow> nat \<Rightarrow> rdcw_record" where
  "record_at extended buf at =
     (let action = action_from_word (load_u32 buf (at + 4))
      in \<lparr>rr_action = action, rr_name = decode_name (name_units extended buf at) (is_stream action),
          rr_file_id = (if extended then Some (load_u64 buf (at + 64)) else None),
          rr_parent_id = (if extended then Some (load_u64 buf (at + 72)) else None),
          rr_attributes = (if extended then Some (load_u32 buf (at + 56)) else None),
          rr_reparse_tag = (if extended then Some (load_u32 buf (at + 60)) else None)\<rparr>)"

text \<open>The link of a record: refused (\<open>None\<close>), the end of the chain, or the next record's position.\<close>

definition read_link :: "nat \<Rightarrow> bool \<Rightarrow> 8 word list \<Rightarrow> nat \<Rightarrow> nat \<Rightarrow> nat option option" where
  "read_link usize_max extended buf at padded_end =
     (let next_offset = unat (load_u32 buf at)
      in if next_offset = 0
         then (let stranded = (if usize_max < at + padded_end then 0 else length buf - (at + padded_end))
               in if (if extended then stranded \<le> EXTENDED_TERMINAL_SLACK else stranded = 0) then Some None else None)
         else if usize_max < at + next_offset then None
         else (let next_at = at + next_offset;
                   strides = padded_end \<le> next_offset \<and>
                     (if extended then next_offset - padded_end < header_len extended else next_offset - padded_end = 0)
               in if \<not> 4 dvd next_offset \<or> \<not> strides \<or> length buf \<le> next_at then None else Some (Some next_at)))"

definition rdcw_one :: "nat \<Rightarrow> bool \<Rightarrow> 8 word list \<Rightarrow> nat \<Rightarrow> (rdcw_record \<times> nat option) option" where
  "rdcw_one usize_max extended buf at =
     (let end_of_header = at + header_len extended
      in if usize_max < end_of_header \<or> length buf < end_of_header then None
         else case padded_extent usize_max (header_len extended) (name_len extended buf at) of
             None \<Rightarrow> None
           | Some padded_end \<Rightarrow>
               (case read_link usize_max extended buf at padded_end of
                  None \<Rightarrow> None
                | Some next_at \<Rightarrow>
                    (let extent = (case next_at of Some n \<Rightarrow> n | None \<Rightarrow> length buf);
                         name_end = end_of_header + name_len extended buf at
                     in if \<not> (even (name_len extended buf at) \<and> name_end \<le> usize_max \<and> name_end \<le> extent)
                           \<or> \<not> name_is_possible (name_units extended buf at)
                        then None else Some (record_at extended buf at, next_at))))"

lemma read_link_advances: "read_link m ext buf at p = Some (Some n) \<Longrightarrow> at < n \<and> n < length buf"
  by (auto simp: read_link_def Let_def split: if_splits)

lemma rdcw_one_advances: "rdcw_one m ext buf at = Some (r, Some n) \<Longrightarrow> at < n \<and> n < length buf"
  by (auto simp: rdcw_one_def Let_def split: if_splits option.splits dest: read_link_advances)

function rdcw_from :: "nat \<Rightarrow> bool \<Rightarrow> 8 word list \<Rightarrow> nat \<Rightarrow> decoded_buffer" where
  "rdcw_from usize_max extended buf at =
     (case rdcw_one usize_max extended buf at of
        None \<Rightarrow> \<lparr>db_records = [], db_lossy = True\<rparr>
      | Some (r, None) \<Rightarrow> \<lparr>db_records = [r], db_lossy = False\<rparr>
      | Some (r, Some next_at) \<Rightarrow>
          (let rest = rdcw_from usize_max extended buf next_at in rest\<lparr>db_records := r # db_records rest\<rparr>))"
  by auto

termination
  by (relation "measure (\<lambda>(_, _, buf, at). length buf - at)") (use rdcw_one_advances in fastforce)+

declare rdcw_from.simps [simp del]

definition decode_records :: "nat \<Rightarrow> 8 word list \<Rightarrow> bool \<Rightarrow> decoded_buffer" where
  "decode_records usize_max buf extended = rdcw_from usize_max extended buf 0"

section \<open>Pairing\<close>

datatype rdcw_event = SingleEv rdcw_record | RenamedEv rdcw_record rdcw_record | WidowOld rdcw_record | WidowNew rdcw_record

record rdcw_pairer =
  rp_pending_old :: "rdcw_record option"

definition pairer_new :: rdcw_pairer where
  "pairer_new = \<lparr>rp_pending_old = None\<rparr>"

definition pairer_flush :: "rdcw_pairer \<times> rdcw_event list \<Rightarrow> rdcw_pairer \<times> rdcw_event list" where
  "pairer_flush s = (case s of (p, out) \<Rightarrow> (case rp_pending_old p of
     Some old \<Rightarrow> (p\<lparr>rp_pending_old := None\<rparr>, out @ [WidowOld old]) | None \<Rightarrow> (p, out)))"

definition ids_disagree :: "rdcw_record \<Rightarrow> rdcw_record \<Rightarrow> bool" where
  "ids_disagree old new = (case (rr_file_id old, rr_file_id new) of (Some a, Some b) \<Rightarrow> a \<noteq> b | _ \<Rightarrow> False)"

definition pairer_push :: "rdcw_record \<Rightarrow> rdcw_pairer \<times> rdcw_event list \<Rightarrow> rdcw_pairer \<times> rdcw_event list" where
  "pairer_push r s =
     (case rr_action r of
        ActRenamedOld \<Rightarrow> (case pairer_flush s of (p, out) \<Rightarrow> (p\<lparr>rp_pending_old := Some r\<rparr>, out))
      | ActRenamedNew \<Rightarrow> (case s of (p, out) \<Rightarrow> (case rp_pending_old p of
            Some old \<Rightarrow> (p\<lparr>rp_pending_old := None\<rparr>,
              out @ (if ids_disagree old r then [WidowOld old, WidowNew r] else [RenamedEv old r]))
          | None \<Rightarrow> (p, out @ [WidowNew r])))
      | _ \<Rightarrow> (case pairer_flush s of (p, out) \<Rightarrow> (p, out @ [SingleEv r])))"

definition holds_old :: "rdcw_pairer \<Rightarrow> bool" where
  "holds_old p \<longleftrightarrow> rp_pending_old p \<noteq> None"

section \<open>The decoder skips nothing\<close>

definition entry_end :: "bool \<Rightarrow> 8 word list \<Rightarrow> nat \<Rightarrow> nat" where
  "entry_end extended buf at = at + header_len extended + name_len extended buf at"

definition padded_end :: "bool \<Rightarrow> 8 word list \<Rightarrow> nat \<Rightarrow> nat" where
  "padded_end extended buf at = at + round4 (header_len extended + name_len extended buf at)"

text \<open>The record at \<open>at\<close> ends before \<open>next\<close>, and between its padding and \<open>next\<close> no fixed prefix would fit.\<close>

definition adjoins :: "bool \<Rightarrow> 8 word list \<Rightarrow> nat \<Rightarrow> nat \<Rightarrow> bool" where
  "adjoins extended buf at next \<longleftrightarrow> entry_end extended buf at \<le> next \<and> next \<le> length buf \<and>
     next - padded_end extended buf at < (if extended then EXTENDED_HEADER else 1)"

lemma header_len_pos [simp]: "0 < header_len extended"
  by (simp add: header_len_def EXTENDED_HEADER_def BASIC_HEADER_def)

lemma rdcw_one_reads:
  assumes "rdcw_one m ext buf at = Some (r, link)" and m: "length buf \<le> m"
  shows "r = record_at ext buf at \<and> name_is_possible (name_units ext buf at) \<and>
    adjoins ext buf at (case link of Some n \<Rightarrow> n | None \<Rightarrow> length buf)"
proof -
  let ?p = "round4 (header_len ext + name_len ext buf at)"
  from assms(1) obtain l: "read_link m ext buf at ?p = Some link" and r: "r = record_at ext buf at"
    and e: "at + header_len ext + name_len ext buf at \<le> (case link of Some n \<Rightarrow> n | None \<Rightarrow> length buf)"
      "name_is_possible (name_units ext buf at)" "padded_extent m (header_len ext) (name_len ext buf at) = Some ?p"
      "at + header_len ext + name_len ext buf at \<le> m" "length buf \<ge> at + header_len ext"
    by (auto simp: rdcw_one_def Let_def padded_extent_def split: if_splits option.splits)
  show ?thesis
  proof (cases link)
    case None
    have "length buf - (at + ?p) \<le> (if ext then 4 else 0)"
    proof (cases "m < at + ?p")
      case True
      with m show ?thesis by simp
    next
      case False
      with l None show ?thesis
        by (auto simp: read_link_def Let_def EXTENDED_TERMINAL_SLACK_def EXTENDED_ALIGN_def split: if_splits)
    qed
    then show ?thesis using e None r
      by (auto simp: adjoins_def entry_end_def padded_end_def EXTENDED_HEADER_def)
  next
    case (Some n)
    with l have "n - (at + ?p) < (if ext then EXTENDED_HEADER else 1)" "n < length buf"
      by (auto simp: read_link_def Let_def header_len_def split: if_splits)
    with e Some r show ?thesis by (auto simp: adjoins_def entry_end_def padded_end_def)
  qed
qed

text \<open>The positions a walk visits, one for each record it keeps.\<close>

fun walks :: "bool \<Rightarrow> 8 word list \<Rightarrow> bool \<Rightarrow> nat list \<Rightarrow> bool" where
  "walks extended buf lossy [] \<longleftrightarrow> lossy"
| "walks extended buf lossy [p] \<longleftrightarrow> name_is_possible (name_units extended buf p) \<and> (lossy \<or> adjoins extended buf p (length buf))"
| "walks extended buf lossy (p # q # ps) \<longleftrightarrow>
     name_is_possible (name_units extended buf p) \<and> adjoins extended buf p q \<and> walks extended buf lossy (q # ps)"

lemma walks_nth:
  "walks ext buf lossy ps \<Longrightarrow> i < length ps \<Longrightarrow> Suc i < length ps \<or> \<not> lossy \<Longrightarrow>
   name_is_possible (name_units ext buf (ps ! i)) \<and> adjoins ext buf (ps ! i) ((ps @ [length buf]) ! Suc i)"
proof (induction ext buf lossy ps arbitrary: i rule: walks.induct)
  case (3 ext buf lossy p q ps)
  then show ?case by (cases i) auto
qed auto

lemma rdcw_from_walk:
  "length buf \<le> m \<Longrightarrow> \<exists>ps. db_records (rdcw_from m ext buf at) = map (record_at ext buf) ps \<and>
    (ps \<noteq> [] \<longrightarrow> hd ps = at) \<and> walks ext buf (db_lossy (rdcw_from m ext buf at)) ps"
proof (induction m ext buf at rule: rdcw_from.induct)
  case (1 m ext buf at)
  note u = rdcw_from.simps [of m ext buf at]
  show ?case
  proof (cases "rdcw_one m ext buf at")
    case None
    then show ?thesis by (simp add: u)
  next
    case (Some rl)
    obtain r link where rl: "rl = (r, link)" by fastforce
    note one = rdcw_one_reads [OF Some [unfolded rl] 1(2)]
    show ?thesis
    proof (cases link)
      case None
      with Some rl one show ?thesis by (intro exI [of _ "[at]"]) (simp add: u)
    next
      case link: (Some n)
      from 1(1) [OF Some rl [symmetric] link 1(2)] obtain ps where ps: "db_records (rdcw_from m ext buf n) = map (record_at ext buf) ps"
        "ps \<noteq> [] \<longrightarrow> hd ps = n" "walks ext buf (db_lossy (rdcw_from m ext buf n)) ps" by blast
      then have "walks ext buf (db_lossy (rdcw_from m ext buf n)) (at # ps)"
        using one link by (cases ps) auto
      with Some rl one link ps(1) show ?thesis by (intro exI [of _ "at # ps"]) (simp add: u Let_def)
    qed
  qed
qed

text \<open>
  A buffer the decoder does not report as lossy is accounted for to the last byte: its records
  start at positions of which the first is 0, each holds its whole name, the next starts behind its padding with
  no room for a fixed prefix between (none at all in the basic layout), and the last one ends the buffer. So no
  record the chain may have skipped is lost under a clean decode.
\<close>

theorem clean_decode_skips_nothing:
  assumes "decode_records usize_max buf extended = \<lparr>db_records = rs, db_lossy = False\<rparr>" and "length buf \<le> usize_max"
  shows "\<exists>ps. rs = map (record_at extended buf) ps \<and> ps \<noteq> [] \<and> hd ps = 0 \<and>
    (\<forall>i < length ps. name_is_possible (name_units extended buf (ps ! i)) \<and>
       adjoins extended buf (ps ! i) ((ps @ [length buf]) ! Suc i))"
proof -
  obtain ps where ps: "rs = map (record_at extended buf) ps" "ps \<noteq> [] \<longrightarrow> hd ps = 0" "walks extended buf False ps"
    using rdcw_from_walk [OF assms(2), of extended 0] assms(1) by (auto simp: decode_records_def)
  then have "ps \<noteq> []" by auto
  with ps walks_nth [OF ps(3)] show ?thesis by blast
qed

section \<open>What a well-formed buffer decodes to\<close>

record rdcw_entry =
  en_action :: u32
  en_times :: "8 word list"
  en_attributes :: u32
  en_reparse :: u32
  en_file :: u64
  en_parent :: u64
  en_name :: "u16 list"
  en_align8 :: bool

definition entry_len :: "bool \<Rightarrow> rdcw_entry \<Rightarrow> nat" where
  "entry_len extended e = round4 (header_len extended + 2 * length (en_name e)) + (if extended \<and> en_align8 e then 4 else 0)"

definition wire_prefix :: "bool \<Rightarrow> u32 \<Rightarrow> rdcw_entry \<Rightarrow> 8 word list" where
  "wire_prefix extended next e = wire_u32 True next @ wire_u32 True (en_action e) @
     (if extended then en_times e @ wire_u32 True (en_attributes e) @ wire_u32 True (en_reparse e) @
        wire_u64 (en_file e) @ wire_u64 (en_parent e) else []) @
     wire_u32 True (of_nat (2 * length (en_name e)))"

definition wire_entry :: "bool \<Rightarrow> bool \<Rightarrow> rdcw_entry \<Rightarrow> 8 word list" where
  "wire_entry extended final e = wire_prefix extended (if final then 0 else of_nat (entry_len extended e)) e @
     wire_u16s (en_name e) @
     replicate (entry_len extended e - (header_len extended + 2 * length (en_name e))) 0"

fun wire_entries :: "bool \<Rightarrow> rdcw_entry list \<Rightarrow> 8 word list" where
  "wire_entries extended [] = []"
| "wire_entries extended (e # es) = wire_entry extended (es = []) e @ wire_entries extended es"

definition entry_ok :: "bool \<Rightarrow> rdcw_entry \<Rightarrow> bool" where
  "entry_ok extended e \<longleftrightarrow> length (en_times e) = 48 \<and> 0 \<notin> set (en_name e) \<and> entry_len extended e < 2 ^ 32"

definition entry_record :: "bool \<Rightarrow> rdcw_entry \<Rightarrow> rdcw_record" where
  "entry_record extended e =
     (let action = action_from_word (en_action e)
      in \<lparr>rr_action = action, rr_name = decode_name (en_name e) (is_stream action),
          rr_file_id = (if extended then Some (en_file e) else None),
          rr_parent_id = (if extended then Some (en_parent e) else None),
          rr_attributes = (if extended then Some (en_attributes e) else None),
          rr_reparse_tag = (if extended then Some (en_reparse e) else None)\<rparr>)"

lemma length_prefix: "entry_ok ext e \<Longrightarrow> length (wire_prefix ext n e) = header_len ext"
  by (simp add: wire_prefix_def entry_ok_def header_len_def BASIC_HEADER_def EXTENDED_HEADER_def)

lemma round4_bounds: "n \<le> round4 n" "round4 n < n + 4" "4 dvd round4 n"
  by (simp_all add: round4_def)

lemma length_wire_entry: "entry_ok ext e \<Longrightarrow> length (wire_entry ext l e) = entry_len ext e"
  using round4_bounds(1) [of "header_len ext + 2 * length (en_name e)"]
  by (simp add: wire_entry_def length_prefix entry_len_def)

text \<open>The fields of the prefix, wherever it stands in a buffer.\<close>

lemma load_skip: "length before \<le> at \<Longrightarrow> load_u32 (before @ buf) at = load_u32 buf (at - length before)"
    "length before \<le> at \<Longrightarrow> load_u64 (before @ buf) at = load_u64 buf (at - length before)"
  by (simp_all add: load_u32_def load_u64_def slice_skip)

lemma load_here: "load_u32 (wire_u32 True w @ rest) 0 = w" "load_u64 (wire_u64 v @ rest) 0 = v"
  by (simp_all add: load_u32_def load_u64_def slice_def)

lemma prefix_fields:
  assumes "entry_ok ext e"
  shows "load_u32 (wire_prefix ext n e @ rest) 0 = n" "load_u32 (wire_prefix ext n e @ rest) 4 = en_action e"
    "load_u32 (wire_prefix ext n e @ rest) (name_len_at ext 0) = of_nat (2 * length (en_name e))"
    "ext \<Longrightarrow> load_u32 (wire_prefix ext n e @ rest) 56 = en_attributes e"
    "ext \<Longrightarrow> load_u32 (wire_prefix ext n e @ rest) 60 = en_reparse e"
    "ext \<Longrightarrow> load_u64 (wire_prefix ext n e @ rest) 64 = en_file e"
    "ext \<Longrightarrow> load_u64 (wire_prefix ext n e @ rest) 72 = en_parent e"
  using assms by (simp_all add: wire_prefix_def load_skip load_here entry_ok_def name_len_at_def)

lemma entry_reads:
  assumes ok: "entry_ok ext e" and b: "buf = before @ wire_entry ext l e @ rest"
  shows "load_u32 buf (length before) = (if l then 0 else of_nat (entry_len ext e))"
    "name_len ext buf (length before) = 2 * length (en_name e)" "name_units ext buf (length before) = en_name e"
    "record_at ext buf (length before) = entry_record ext e"
proof -
  define n where "n = (if l then 0 else of_nat (entry_len ext e) :: u32)"
  define pad where "pad = replicate (entry_len ext e - (header_len ext + 2 * length (en_name e))) (0 :: 8 word)"
  have b: "buf = before @ wire_prefix ext n e @ wire_u16s (en_name e) @ pad @ rest"
    by (simp add: b wire_entry_def n_def pad_def)
  note f = prefix_fields [OF ok, of n] load_skip
  show "load_u32 buf (length before) = (if l then 0 else of_nat (entry_len ext e))"
    using f(1) by (simp add: b load_skip n_def)
  have "2 * length (en_name e) < 2 ^ 32"
    using ok round4_bounds(1) [of "header_len ext + 2 * length (en_name e)"] by (simp add: entry_ok_def entry_len_def)
  then have u: "unat (of_nat (2 * length (en_name e)) :: u32) = 2 * length (en_name e)"
    by (simp only: unsigned_of_nat take_bit_nat_eq_self) (simp add: take_bit_nat_eq_self)
  show nl: "name_len ext buf (length before) = 2 * length (en_name e)"
    using f(3) u by (cases ext) (simp_all add: b name_len_def load_skip name_len_at_def)
  show nu: "name_units ext buf (length before) = en_name e"
    unfolding name_units_def Let_def nl
    by (simp add: b slice_skip length_prefix [OF ok]) (simp add: slice_def)
  show "record_at ext buf (length before) = entry_record ext e"
    unfolding record_at_def entry_record_def nu using f by (simp add: b load_skip Let_def)
qed

lemma entry_decodes:
  assumes ok: "entry_ok ext e" and b: "buf = before @ wire_entry ext (rest = []) e @ rest" and m: "length buf \<le> m"
  shows "rdcw_one m ext buf (length before) =
    Some (entry_record ext e, if rest = [] then None else Some (length before + entry_len ext e))"
proof -
  note rd = entry_reads [OF ok b]
  let ?k = "header_len ext + 2 * length (en_name e)"
  note r4 = round4_bounds [of ?k]
  have len: "length buf = length before + entry_len ext e + length rest" by (simp add: b length_wire_entry [OF ok])
  have el: "?k \<le> entry_len ext e" "round4 ?k \<le> entry_len ext e" "entry_len ext e < 2 ^ 32" "4 dvd entry_len ext e" "0 < entry_len ext e"
      "entry_len ext e - round4 ?k = (if ext \<and> en_align8 e then 4 else 0)"
    using r4 ok header_len_pos [of ext] less_le_trans [OF _ r4(1), of 0] by (auto simp: entry_len_def entry_ok_def)
  have u: "unat (of_nat (entry_len ext e) :: u32) = entry_len ext e"
    using el(3) by (simp add: unsigned_of_nat take_bit_nat_eq_self)
  have p: "padded_extent m (header_len ext) (name_len ext buf (length before)) = Some (round4 ?k)"
    using el len m by (simp add: padded_extent_def rd)
  have h: "4 < header_len ext" by (simp add: header_len_def EXTENDED_HEADER_def BASIC_HEADER_def)
  have "read_link m ext buf (length before) (round4 ?k) =
      Some (if rest = [] then None else Some (length before + entry_len ext e))"
  proof (cases "rest = []")
    case True
    then have "length buf - (length before + round4 ?k) = (if ext \<and> en_align8 e then 4 else 0)"
      using len el(6) by simp
    with True show ?thesis by (simp add: read_link_def rd(1) EXTENDED_TERMINAL_SLACK_def EXTENDED_ALIGN_def)
  next
    case False
    then have n: "length before + entry_len ext e < length buf" using len by simp
    have x: "load_u32 buf (length before) = of_nat (entry_len ext e)" using rd(1) False by simp
    have g: "entry_len ext e - round4 ?k < (if ext then header_len ext else 1)"
      unfolding el(6) using h by (cases ext) simp_all
    show ?thesis unfolding read_link_def Let_def x u using False n m el g by (cases ext) simp_all
  qed
  moreover have "name_is_possible (en_name e)" using ok by (simp add: name_is_possible_def entry_ok_def)
  ultimately show ?thesis
    using el len m by (cases "rest = []") (simp_all add: rdcw_one_def p [unfolded rd(2)] rd)
qed

lemma entries_decode:
  "list_all (entry_ok ext) es \<Longrightarrow> es \<noteq> [] \<Longrightarrow> length (before @ wire_entries ext es) \<le> m \<Longrightarrow>
   rdcw_from m ext (before @ wire_entries ext es) (length before) =
     \<lparr>db_records = map (entry_record ext) es, db_lossy = False\<rparr>"
proof (induction es arbitrary: before)
  case (Cons e es)
  have ok: "entry_ok ext e" "list_all (entry_ok ext) es" using Cons.prems(1) by simp_all
  have ne: "wire_entries ext es = [] \<longleftrightarrow> es = []"
  proof (cases es)
    case (Cons f fs)
    have "0 < entry_len ext f" using round4_bounds(1) [of "header_len ext + 2 * length (en_name f)"] header_len_pos [of ext]
      by (simp add: entry_len_def del: header_len_pos)
    with Cons ok show ?thesis by (auto simp: length_wire_entry length_0_conv [symmetric] simp del: length_0_conv)
  qed simp
  have one: "rdcw_one m ext (before @ wire_entries ext (e # es)) (length before) =
      Some (entry_record ext e, if es = [] then None else Some (length before + entry_len ext e))"
    using entry_decodes [OF ok(1) _ Cons.prems(3), of before "wire_entries ext es"] ne by simp
  show ?case
  proof (cases "es = []")
    case True
    with one show ?thesis by (subst rdcw_from.simps) simp
  next
    case False
    have "rdcw_from m ext (before @ wire_entries ext (e # es)) (length before + entry_len ext e) =
        \<lparr>db_records = map (entry_record ext) es, db_lossy = False\<rparr>"
      using Cons.IH [OF ok(2) False, of "before @ wire_entry ext False e"] Cons.prems(3) False
      by (simp add: length_wire_entry [OF ok(1)])
    with one False show ?thesis by (subst rdcw_from.simps) (simp add: Let_def)
  qed
qed simp

text \<open>
  A completion laid out as documented, in either layout and with either alignment of the extended
  one, is never refused: it decodes to its records in kernel order, each with its action, its name and (in the
  extended layout) its identities and attributes.
\<close>

theorem completion_decodes:
  assumes "list_all (entry_ok extended) es" and "es \<noteq> []" and "length (wire_entries extended es) \<le> usize_max"
  shows "decode_records usize_max (wire_entries extended es) extended =
    \<lparr>db_records = map (entry_record extended) es, db_lossy = False\<rparr>"
  using entries_decode [OF assms(1,2), of "[]"] assms(3) by (simp add: decode_records_def)

text \<open>A directory is renamed and a file is written: two extended records, the first padded to 8 bytes.\<close>

definition sample_entries :: "rdcw_entry list" where
  "sample_entries =
     [\<lparr>en_action = 4, en_times = replicate 48 0, en_attributes = 16, en_reparse = 0, en_file = 7, en_parent = 3,
        en_name = [0x61, 0x5C, 0x62], en_align8 = True\<rparr>,
      \<lparr>en_action = 3, en_times = replicate 48 0, en_attributes = 32, en_reparse = 0, en_file = 9, en_parent = 3,
        en_name = [0x63], en_align8 = False\<rparr>]"

lemma sample_ok: "list_all (entry_ok True) sample_entries" "length (wire_entries True sample_entries) \<le> 1000"
    "sample_entries \<noteq> []"
  by (simp_all add: sample_entries_def entry_ok_def entry_len_def round4_def header_len_def EXTENDED_HEADER_def
      wire_entry_def wire_prefix_def)

theorem completion_decodes_witness:
  "decode_records 1000 (wire_entries True sample_entries) True =
    \<lparr>db_records = map (entry_record True) sample_entries, db_lossy = False\<rparr>"
  by (rule completion_decodes [OF sample_ok(1,3,2)])

lemma sample_decodes: "decode_records 1000 (wire_entries True sample_entries) True =
    \<lparr>db_records = map (entry_record True) sample_entries, db_lossy = False\<rparr>"
  using entries_decode [OF sample_ok(1,3), of "[]"] sample_ok(2) by (simp add: decode_records_def)

theorem clean_decode_skips_nothing_witness:
  "\<exists>ps. map (entry_record True) sample_entries = map (record_at True (wire_entries True sample_entries)) ps \<and> hd ps = 0 \<and>
    adjoins True (wire_entries True sample_entries) (last ps) (length (wire_entries True sample_entries))"
proof -
  let ?buf = "wire_entries True sample_entries"
  obtain ps where ps: "map (entry_record True) sample_entries = map (record_at True ?buf) ps" "ps \<noteq> []" "hd ps = 0"
      "\<forall>i < length ps. name_is_possible (name_units True ?buf (ps ! i)) \<and> adjoins True ?buf (ps ! i) ((ps @ [length ?buf]) ! Suc i)"
    using clean_decode_skips_nothing [OF sample_decodes sample_ok(2)] by blast
  have "length ps - 1 < length ps" using ps(2) by simp
  with ps(4) have "adjoins True ?buf (ps ! (length ps - 1)) ((ps @ [length ?buf]) ! Suc (length ps - 1))" by blast
  moreover have "(ps @ [length ?buf]) ! Suc (length ps - 1) = length ?buf" using ps(2) by (simp add: nth_append)
  ultimately have "adjoins True ?buf (last ps) (length ?buf)" using ps(2) by (simp add: last_conv_nth)
  with ps show ?thesis by blast
qed

section \<open>Pairing by adjacency\<close>

text \<open>What the pairing means: an old half and the new half right behind it are one rename, all else stands alone.\<close>

fun pair_all :: "rdcw_record list \<Rightarrow> rdcw_event list" where
  "pair_all [] = []"
| "pair_all [r] = [if rr_action r = ActRenamedOld then WidowOld r
     else if rr_action r = ActRenamedNew then WidowNew r else SingleEv r]"
| "pair_all (r # n # rs) =
     (if rr_action r = ActRenamedOld
      then if rr_action n = ActRenamedNew \<and> \<not> ids_disagree r n then RenamedEv r n # pair_all rs
           else WidowOld r # pair_all (n # rs)
      else if rr_action r = ActRenamedNew then WidowNew r # pair_all (n # rs)
      else SingleEv r # pair_all (n # rs))"

datatype pump_op = Feed "rdcw_record list" | FlushCarry

fun pump_step :: "pump_op \<Rightarrow> rdcw_pairer \<times> rdcw_event list \<Rightarrow> rdcw_pairer \<times> rdcw_event list" where
  "pump_step (Feed rs) s = fold pairer_push rs s"
| "pump_step FlushCarry s = pairer_flush s"

definition pump_run :: "pump_op list \<Rightarrow> rdcw_pairer \<times> rdcw_event list" where
  "pump_run ops = fold pump_step ops (pairer_new, [])"

text \<open>The stretches between two flushes, whatever buffers they came in.\<close>

fun stretches :: "pump_op list \<Rightarrow> rdcw_record list list" where
  "stretches [] = [[]]"
| "stretches (FlushCarry # ops) = [] # stretches ops"
| "stretches (Feed rs # ops) = (case stretches ops of [] \<Rightarrow> [rs] | s # ss \<Rightarrow> (rs @ s) # ss)"

definition carry :: "rdcw_pairer \<Rightarrow> rdcw_record list" where
  "carry p = (case rp_pending_old p of Some r \<Rightarrow> [r] | None \<Rightarrow> [])"

definition carry_ok :: "rdcw_pairer \<Rightarrow> bool" where
  "carry_ok p \<longleftrightarrow> (\<forall>r. rp_pending_old p = Some r \<longrightarrow> rr_action r = ActRenamedOld)"

lemma pair_all_other: "rr_action r \<noteq> ActRenamedOld \<Longrightarrow>
    pair_all (r # rs) = (if rr_action r = ActRenamedNew then WidowNew r else SingleEv r) # pair_all rs"
  by (cases rs) simp_all

lemma push_steps:
  assumes "carry_ok p" and "pairer_push r (p, out) = (p', out')"
  shows "carry_ok p' \<and> (\<exists>evs. out' = out @ evs \<and> (\<forall>rs. pair_all (carry p @ r # rs) = evs @ pair_all (carry p' @ rs)))"
proof (cases "rp_pending_old p")
  case None
  with assms(2) show ?thesis
    by (cases "rr_action r") (auto simp: pairer_push_def pairer_flush_def carry_ok_def carry_def pair_all_other)
next
  case (Some old)
  then have o: "rr_action old = ActRenamedOld" using assms(1) by (simp add: carry_ok_def)
  show ?thesis
    using assms(2) Some o
    by (cases "rr_action r") (auto simp: pairer_push_def pairer_flush_def carry_ok_def carry_def pair_all_other split: if_splits)
qed

lemma feed_steps:
  assumes "carry_ok p" and "fold pairer_push rs (p, out) = (p', out')"
  shows "carry_ok p' \<and> (\<exists>evs. out' = out @ evs \<and> (\<forall>more. pair_all (carry p @ rs @ more) = evs @ pair_all (carry p' @ more)))"
  using assms
proof (induction rs arbitrary: p out)
  case (Cons r rs)
  obtain p1 out1 where 1: "pairer_push r (p, out) = (p1, out1)" by fastforce
  from push_steps [OF Cons.prems(1) 1] obtain evs where e: "carry_ok p1" "out1 = out @ evs"
    "\<forall>rs. pair_all (carry p @ r # rs) = evs @ pair_all (carry p1 @ rs)" by blast
  from Cons.IH [OF e(1), of out1] Cons.prems(2) 1 obtain evs' where "carry_ok p'" "out' = out1 @ evs'"
    "\<forall>more. pair_all (carry p1 @ rs @ more) = evs' @ pair_all (carry p' @ more)" by auto
  with e show ?case by (intro conjI exI [of _ "evs @ evs'"]) simp_all
qed simp

lemma flush_step: "carry_ok p \<Longrightarrow> pairer_flush (p, out) = (p\<lparr>rp_pending_old := None\<rparr>, out @ pair_all (carry p))"
  by (cases p) (auto simp: pairer_flush_def carry_def carry_ok_def split: option.split)

lemma stretches_ne [simp]: "stretches ops \<noteq> []"
  by (induction ops rule: stretches.induct) (auto split: list.split)

lemma pump_steps:
  assumes "carry_ok p" and "fold pump_step ops (p, out) = (p', out')"
  shows "out' @ pair_all (carry p') =
    out @ (case stretches ops of s # ss \<Rightarrow> pair_all (carry p @ s) @ concat (map pair_all ss) | [] \<Rightarrow> []) \<and> carry_ok p'"
  using assms
proof (induction ops arbitrary: p out)
  case (Cons op ops)
  obtain s ss where ss: "stretches ops = s # ss" by (cases "stretches ops") simp_all
  obtain p1 out1 where 1: "pump_step op (p, out) = (p1, out1)" by fastforce
  show ?case
  proof (cases op)
    case (Feed rs)
    from feed_steps [OF Cons.prems(1), of rs out p1 out1] 1 Feed obtain evs where "carry_ok p1" "out1 = out @ evs"
      "\<forall>more. pair_all (carry p @ rs @ more) = evs @ pair_all (carry p1 @ more)" by auto
    with Cons.IH [of p1 out1] Cons.prems(2) 1 Feed ss show ?thesis by simp
  next
    case FlushCarry
    with 1 flush_step [OF Cons.prems(1)] have "p1 = p\<lparr>rp_pending_old := None\<rparr>" "out1 = out @ pair_all (carry p)" by simp_all
    with Cons.IH [of p1 out1] Cons.prems(2) 1 FlushCarry ss show ?thesis by (simp add: carry_ok_def carry_def)
  qed
qed simp

lemma pump_events: "snd (pairer_flush (pump_run ops)) = concat (map pair_all (stretches ops))"
proof -
  obtain p out where r: "pump_run ops = (p, out)" by fastforce
  have "carry_ok pairer_new" "carry pairer_new = []" by (simp_all add: carry_ok_def carry_def pairer_new_def)
  with pump_steps [of pairer_new ops "[]" p out] r show ?thesis
    by (cases "stretches ops") (simp_all add: pump_run_def flush_step)
qed

text \<open>
  However the kernel cuts its records into buffers and wherever the pump flushes the carry, the
  events put out, once the carry is flushed, are those of pairing by adjacency each stretch between two flushes:
  an old half becomes a rename exactly when the very next record of its stretch is a new half that no file
  identity contradicts; every other record is reported alone, in kernel order.
\<close>

theorem pairing_is_adjacency:
  "snd (pairer_flush (pump_run ops)) = concat (map pair_all (stretches ops))"
  by (rule pump_events)

end
