(* ===== verification/Fs_Inotify.thy ===== *)
theory Fs_Inotify
  imports Vocabulary Fs_Bytes
begin

text \<open>
  The inotify backend of \<open>tributary-fs\<close>: the decoder of the kernel's event buffer
  (\<open>os/linux/inotify/decode.rs\<close>) and the table that attributes watch descriptors to the watches of the
  engine (\<open>os/linux/inotify/table.rs\<close>).

  The byte order of the machine (\<open>from_ne_bytes\<close>) and the largest \<open>usize\<close> are arguments. The debug assertions of
  the table, which state what its caller guarantees, are the predicate \<open>table_legal\<close>.
\<close>

section \<open>Masks\<close>

definition IN_CREATE :: u32 where "IN_CREATE = 0x100"
definition IN_DELETE :: u32 where "IN_DELETE = 0x200"
definition IN_DELETE_SELF :: u32 where "IN_DELETE_SELF = 0x400"
definition IN_MODIFY :: u32 where "IN_MODIFY = 0x2"
definition IN_ATTRIB :: u32 where "IN_ATTRIB = 0x4"
definition IN_MOVE_SELF :: u32 where "IN_MOVE_SELF = 0x800"
definition IN_MOVED_FROM :: u32 where "IN_MOVED_FROM = 0x40"
definition IN_MOVED_TO :: u32 where "IN_MOVED_TO = 0x80"
definition IN_UNMOUNT :: u32 where "IN_UNMOUNT = 0x2000"
definition IN_Q_OVERFLOW :: u32 where "IN_Q_OVERFLOW = 0x4000"
definition IN_IGNORED :: u32 where "IN_IGNORED = 0x8000"
definition IN_ISDIR :: u32 where "IN_ISDIR = 0x40000000"
definition IN_ONLYDIR :: u32 where "IN_ONLYDIR = 0x1000000"
definition IN_DONT_FOLLOW :: u32 where "IN_DONT_FOLLOW = 0x2000000"
definition IN_EXCL_UNLINK :: u32 where "IN_EXCL_UNLINK = 0x4000000"
definition IN_MASK_CREATE :: u32 where "IN_MASK_CREATE = 0x10000000"

definition WATCH_MASK :: u32 where
  "WATCH_MASK = IN_ATTRIB OR IN_CREATE OR IN_DELETE OR IN_DELETE_SELF OR IN_MODIFY OR IN_MOVE_SELF OR IN_MOVED_FROM
     OR IN_MOVED_TO OR IN_ONLYDIR OR IN_DONT_FOLLOW OR IN_EXCL_UNLINK OR IN_MASK_CREATE"

definition mask_has :: "u32 \<Rightarrow> u32 \<Rightarrow> bool" where
  "mask_has bits m \<longleftrightarrow> m AND bits \<noteq> 0"

section \<open>Decoding\<close>

record raw_inotify_event =
  ie_wd :: u32
  ie_mask :: u32
  ie_cookie :: u32
  ie_name :: "8 word list option"

record decode_outcome =
  do_events :: "raw_inotify_event list"
  do_lossy :: bool

definition HEADER :: nat where
  "HEADER = 16"

definition trimmed_name :: "8 word list \<Rightarrow> 8 word list option" where
  "trimmed_name bs = (let t = rev (dropWhile (\<lambda>b. b = 0) (rev bs)) in if t = [] then None else Some t)"

text \<open>One record at position \<open>at\<close>, with the position behind it; \<open>None\<close> is the early stop.\<close>

definition decode_one :: "bool \<Rightarrow> nat \<Rightarrow> 8 word list \<Rightarrow> nat \<Rightarrow> (raw_inotify_event \<times> nat) option" where
  "decode_one little usize_max buf at =
     (case get_range at (at + HEADER) buf of
        None \<Rightarrow> None
      | Some header \<Rightarrow>
          (let name_start = at + HEADER;
               name_end = name_start + unat (ne_u32 little (slice 12 16 header))
           in if usize_max < name_start \<or> usize_max < name_end then None
              else map_option (\<lambda>name_bytes.
                (\<lparr>ie_wd = ne_u32 little (slice 0 4 header), ie_mask = ne_u32 little (slice 4 8 header),
                  ie_cookie = ne_u32 little (slice 8 12 header), ie_name = trimmed_name name_bytes\<rparr>, name_end))
                (get_range name_start name_end buf)))"

lemma decode_one_advances: "decode_one little m buf at = Some (e, at') \<Longrightarrow> at < at' \<and> at' \<le> length buf"
  by (auto simp: decode_one_def get_range_def HEADER_def Let_def split: if_splits)

function decode_from :: "bool \<Rightarrow> nat \<Rightarrow> 8 word list \<Rightarrow> nat \<Rightarrow> decode_outcome" where
  "decode_from little usize_max buf at =
     (if length buf \<le> at then \<lparr>do_events = [], do_lossy = False\<rparr>
      else case decode_one little usize_max buf at of
          None \<Rightarrow> \<lparr>do_events = [], do_lossy = True\<rparr>
        | Some (e, at') \<Rightarrow>
            (let rest = decode_from little usize_max buf at' in rest\<lparr>do_events := e # do_events rest\<rparr>))"
  by auto

termination
  by (relation "measure (\<lambda>(_, _, buf, at). length buf - at)") (use decode_one_advances in fastforce)+

declare decode_from.simps [simp del]

definition decode_events :: "bool \<Rightarrow> nat \<Rightarrow> 8 word list \<Rightarrow> decode_outcome" where
  "decode_events little usize_max buf = decode_from little usize_max buf 0"

section \<open>Attribution\<close>

datatype drain_decision = RemoveWd int | KeepWd

record wd_entry =
  we_live :: "watch_id list"
  we_draining :: bool

record wd_table =
  wt_entries :: "int \<rightharpoonup> wd_entry"
  wt_by_anchor :: "watch_id \<rightharpoonup> int"

definition wd_entry_default :: wd_entry where
  "wd_entry_default = \<lparr>we_live = [], we_draining = False\<rparr>"

definition wd_table_new :: wd_table where
  "wd_table_new = \<lparr>wt_entries = Map.empty, wt_by_anchor = Map.empty\<rparr>"

definition wd_of :: "wd_table \<Rightarrow> watch_id \<Rightarrow> int option" where
  "wd_of t anchor = wt_by_anchor t anchor"

definition entry_or_default :: "wd_table \<Rightarrow> int \<Rightarrow> wd_entry" where
  "entry_or_default t wd = (case wt_entries t wd of Some e \<Rightarrow> e | None \<Rightarrow> wd_entry_default)"

definition wd_register :: "int \<Rightarrow> watch_id \<Rightarrow> wd_table \<Rightarrow> wd_table" where
  "wd_register wd anchor t =
     (let e = entry_or_default t wd
      in t\<lparr>wt_entries := (wt_entries t)(wd \<mapsto> e\<lparr>we_live := we_live e @ [anchor]\<rparr>),
           wt_by_anchor := (wt_by_anchor t)(anchor \<mapsto> wd)\<rparr>)"

definition wd_alias :: "int \<Rightarrow> watch_id \<Rightarrow> wd_table \<Rightarrow> wd_table" where
  "wd_alias wd anchor t =
     (let e = entry_or_default t wd;
          e' = (if anchor \<in> set (we_live e) then e else e\<lparr>we_live := we_live e @ [anchor]\<rparr>)
      in t\<lparr>wt_entries := (wt_entries t)(wd \<mapsto> e'), wt_by_anchor := (wt_by_anchor t)(anchor \<mapsto> wd)\<rparr>)"

definition attribute :: "wd_table \<Rightarrow> int \<Rightarrow> watch_id list" where
  "attribute t wd = (case wt_entries t wd of Some e \<Rightarrow> we_live e | None \<Rightarrow> [])"

definition wd_contains :: "wd_table \<Rightarrow> int \<Rightarrow> bool" where
  "wd_contains t wd \<longleftrightarrow> wt_entries t wd \<noteq> None"

definition is_live_wd :: "wd_table \<Rightarrow> int \<Rightarrow> bool" where
  "is_live_wd t wd \<longleftrightarrow> (case wt_entries t wd of Some e \<Rightarrow> \<not> we_draining e | None \<Rightarrow> False)"

definition begin_drain :: "watch_id \<Rightarrow> wd_table \<Rightarrow> drain_decision \<times> wd_table" where
  "begin_drain anchor t =
     (case wt_by_anchor t anchor of
        None \<Rightarrow> (KeepWd, t)
      | Some wd \<Rightarrow>
          (let t1 = t\<lparr>wt_by_anchor := (wt_by_anchor t)(anchor := None)\<rparr>
           in case wt_entries t1 wd of
                None \<Rightarrow> (KeepWd, t1)
              | Some e \<Rightarrow>
                  (let e1 = e\<lparr>we_live := filter (\<lambda>a. a \<noteq> anchor) (we_live e)\<rparr>
                   in if we_live e1 = [] \<and> \<not> we_draining e1
                      then (RemoveWd wd, t1\<lparr>wt_entries := (wt_entries t1)(wd \<mapsto> e1\<lparr>we_draining := True\<rparr>)\<rparr>)
                      else (KeepWd, t1\<lparr>wt_entries := (wt_entries t1)(wd \<mapsto> e1)\<rparr>))))"

definition wd_on_ignored :: "int \<Rightarrow> wd_table \<Rightarrow> watch_id list \<times> wd_table" where
  "wd_on_ignored wd t =
     (case wt_entries t wd of
        None \<Rightarrow> ([], t)
      | Some e \<Rightarrow> (we_live e, t\<lparr>wt_entries := (wt_entries t)(wd := None),
          wt_by_anchor := (\<lambda>a. if a \<in> set (we_live e) then None else wt_by_anchor t a)\<rparr>))"

definition wd_on_loss :: "wd_table \<Rightarrow> wd_table" where
  "wd_on_loss t = t\<lparr>wt_entries := (\<lambda>wd. case wt_entries t wd of
     Some e \<Rightarrow> if we_draining e then None else Some e | None \<Rightarrow> None)\<rparr>"

definition erase_dead :: "int \<Rightarrow> wd_table \<Rightarrow> wd_table" where
  "erase_dead wd t = t\<lparr>wt_entries := (wt_entries t)(wd := None)\<rparr>"

section \<open>The kernel's layout\<close>

text \<open>How the kernel lays an event out: three words, the padded length, the name, and zeros up to that length.\<close>

definition name_bytes :: "raw_inotify_event \<Rightarrow> 8 word list" where
  "name_bytes e = (case ie_name e of None \<Rightarrow> [] | Some n \<Rightarrow> n)"

definition wire_event :: "bool \<Rightarrow> raw_inotify_event \<times> nat \<Rightarrow> 8 word list" where
  "wire_event little ep = (case ep of (e, pad) \<Rightarrow>
     wire_u32 little (ie_wd e) @ wire_u32 little (ie_mask e) @ wire_u32 little (ie_cookie e) @
     wire_u32 little (of_nat (length (name_bytes e) + pad)) @ name_bytes e @ replicate pad 0)"

definition wire_ok :: "raw_inotify_event \<times> nat \<Rightarrow> bool" where
  "wire_ok ep = (case ep of (e, pad) \<Rightarrow> (case ie_name e of None \<Rightarrow> True | Some n \<Rightarrow> n \<noteq> [] \<and> last n \<noteq> 0) \<and>
     length (name_bytes e) + pad < 2 ^ 32)"

lemma trimmed_padded: "wire_ok (e, pad) \<Longrightarrow> trimmed_name (name_bytes e @ replicate pad 0) = ie_name e"
proof (cases "ie_name e")
  case None
  then show ?thesis by (simp add: name_bytes_def trimmed_name_def dropWhile_eq_Nil_conv)
next
  case (Some n)
  assume "wire_ok (e, pad)"
  with Some have n: "n \<noteq> []" "last n \<noteq> 0" by (simp_all add: wire_ok_def)
  then obtain m b where "n = m @ [b]" "b \<noteq> 0" by (metis append_butlast_last_id)
  with Some show ?thesis by (simp add: name_bytes_def trimmed_name_def dropWhile_append3 dropWhile_append)
qed

lemma length_wire: "length (wire_event little (e, pad)) = HEADER + (length (name_bytes e) + pad)"
  by (simp add: wire_event_def HEADER_def)

lemma decode_one_wire:
  assumes ok: "wire_ok (e, pad)" and m: "length before + length (wire_event little (e, pad)) \<le> usize_max"
  shows "decode_one little usize_max (before @ wire_event little (e, pad) @ rest) (length before) =
    Some (e, length before + length (wire_event little (e, pad)))"
proof -
  define len where "len = length (name_bytes e) + pad"
  define hd where "hd = wire_u32 little (ie_wd e) @ wire_u32 little (ie_mask e) @ wire_u32 little (ie_cookie e) @
    wire_u32 little (of_nat len)"
  define nm where "nm = name_bytes e @ replicate pad 0"
  have w: "wire_event little (e, pad) = hd @ nm" by (simp add: wire_event_def hd_def nm_def len_def)
  have l: "length hd = 16" "length nm = len" by (simp_all add: hd_def nm_def len_def)
  have "len < 2 ^ 32" using ok by (simp add: wire_ok_def len_def)
  then have len: "unat (of_nat len :: u32) = len" by (simp add: unsigned_of_nat take_bit_nat_eq_self)
  have h: "get_range (length before) (length before + HEADER) (before @ hd @ nm @ rest) = Some hd"
    using l by (simp add: get_range_def slice_def HEADER_def)
  have n: "get_range (length before + HEADER) (length before + HEADER + len) (before @ hd @ nm @ rest) = Some nm"
    using l by (simp add: get_range_def slice_def HEADER_def)
  have f: "ne_u32 little (slice 0 4 hd) = ie_wd e" "ne_u32 little (slice 4 8 hd) = ie_mask e"
    "ne_u32 little (slice 8 12 hd) = ie_cookie e" "ne_u32 little (slice 12 16 hd) = of_nat len"
    by (simp_all add: hd_def slice_def)
  have t: "trimmed_name nm = ie_name e" unfolding nm_def by (rule trimmed_padded [OF ok])
  have s: "length (wire_event little (e, pad)) = HEADER + len" by (simp add: length_wire len_def)
  show ?thesis using m unfolding s unfolding w by (simp add: decode_one_def h n f len t Let_def add.assoc [symmetric])
qed

lemma decode_wires:
  assumes "list_all wire_ok es" and "length before + length (concat (map (wire_event little) es)) \<le> usize_max"
  shows "decode_from little usize_max (before @ concat (map (wire_event little) es) @ rest) (length before) =
    (let out = decode_from little usize_max (before @ concat (map (wire_event little) es) @ rest)
       (length before + length (concat (map (wire_event little) es)))
     in out\<lparr>do_events := map fst es @ do_events out\<rparr>)"
  using assms
proof (induction es arbitrary: before)
  case (Cons ep es)
  obtain e pad where ep: "ep = (e, pad)" by fastforce
  let ?w = "wire_event little (e, pad)" and ?ws = "concat (map (wire_event little) es)"
  have ok: "wire_ok (e, pad)" "list_all wire_ok es" using Cons.prems(1) by (simp_all add: ep)
  have one: "decode_one little usize_max (before @ ?w @ ?ws @ rest) (length before) = Some (e, length before + length ?w)"
    by (rule decode_one_wire [OF ok(1)]) (use Cons.prems(2) in \<open>simp add: ep\<close>)
  have "0 < length ?w" by (simp add: length_wire HEADER_def)
  then have "decode_from little usize_max (before @ ?w @ ?ws @ rest) (length before) =
      (let out = decode_from little usize_max (before @ ?w @ ?ws @ rest) (length before + length ?w)
       in out\<lparr>do_events := e # do_events out\<rparr>)"
    by (subst decode_from.simps) (simp add: one)
  with Cons.IH [OF ok(2), of "before @ ?w"] Cons.prems(2) show ?case by (simp add: ep Let_def add.assoc)
qed simp

text \<open>
  What is left of a buffer that ends inside a record: less than a header, or a header whose name range the
  buffer does not hold to its end.
\<close>

definition torn :: "bool \<Rightarrow> 8 word list \<Rightarrow> bool" where
  "torn little rest \<longleftrightarrow> length rest < HEADER \<or> length rest < HEADER + unat (ne_u32 little (slice 12 16 rest))"

lemma torn_stops:
  assumes "torn little rest"
  shows "decode_one little usize_max (ws @ rest) (length ws) = None"
proof (cases "length rest < HEADER")
  case True
  then show ?thesis by (simp add: decode_one_def get_range_def)
next
  case False
  then have "slice 12 16 (slice (length ws) (length ws + HEADER) (ws @ rest)) = slice 12 16 rest"
    by (simp add: slice_def HEADER_def drop_take)
  then show ?thesis using assms False by (auto simp: decode_one_def get_range_def torn_def Let_def)
qed

text \<open>
  Property C39. Decoding reads back exactly what the kernel wrote, in either byte order: every event with its
  words and its name without the padding, in order; and when the buffer ends in a torn record, short of a
  header or of the name its header declares, the events before it are all kept and the loss is reported.
\<close>

theorem decode_reads_the_wire:
  assumes "list_all wire_ok es" and "torn little rest"
    and "length (concat (map (wire_event little) es)) \<le> usize_max"
  shows "decode_events little usize_max (concat (map (wire_event little) es) @ rest) =
    \<lparr>do_events = map fst es, do_lossy = (rest \<noteq> [])\<rparr>"
proof -
  let ?ws = "concat (map (wire_event little) es)"
  have "decode_from little usize_max (?ws @ rest) (length ?ws) = \<lparr>do_events = [], do_lossy = (rest \<noteq> [])\<rparr>"
    by (subst decode_from.simps) (simp add: torn_stops [OF assms(2)])
  with decode_wires [OF assms(1), of "[]" little usize_max rest] assms(3) show ?thesis
    by (simp add: decode_events_def Let_def)
qed

text \<open>The second record declares a name of sixteen bytes, of which the buffer holds three.\<close>

theorem decode_reads_the_wire_witness:
  "decode_events True 1000 (concat (map (wire_event True)
      [(\<lparr>ie_wd = 1, ie_mask = IN_CREATE, ie_cookie = 0, ie_name = Some [97, 98]\<rparr>, 6)]) @
      wire_u32 True 1 @ wire_u32 True 2 @ wire_u32 True 0 @ wire_u32 True 16 @ [97, 98, 99]) =
    \<lparr>do_events = [\<lparr>ie_wd = 1, ie_mask = IN_CREATE, ie_cookie = 0, ie_name = Some [97, 98]\<rparr>], do_lossy = True\<rparr>"
proof -
  have "torn True (wire_u32 True 1 @ wire_u32 True 2 @ wire_u32 True 0 @ wire_u32 True 16 @ [97, 98, 99])"
    by (simp add: torn_def slice_skip slice_inside HEADER_def) (simp add: slice_def)
  then show ?thesis
    by (subst decode_reads_the_wire) (simp_all add: wire_ok_def name_bytes_def HEADER_def wire_event_def)
qed

section \<open>Histories of the table\<close>

datatype wd_op = WdRegister int watch_id | WdAlias int watch_id | WdDrain watch_id | WdIgnored int | WdLoss | WdErase int

text \<open>The table with the highest descriptor granted so far and the removals it has asked for.\<close>

record wd_history =
  wh_table :: wd_table
  wh_granted :: int
  wh_removed :: "int list"

definition wd_history_new :: wd_history where
  "wd_history_new = \<lparr>wh_table = wd_table_new, wh_granted = 0, wh_removed = []\<rparr>"

text \<open>
  What the reader guarantees: a fresh descriptor lies above all granted before (the instance is rebuilt before
  the kernel would wrap), a re-added watch is live, an anchor is drained before it is bound elsewhere, and only a
  drained entry is erased.
\<close>

fun table_legal :: "wd_op \<Rightarrow> wd_history \<Rightarrow> bool" where
  "table_legal (WdRegister wd a) h \<longleftrightarrow> wh_granted h < wd \<and> wt_by_anchor (wh_table h) a = None"
| "table_legal (WdAlias wd a) h \<longleftrightarrow> is_live_wd (wh_table h) wd \<and> wt_by_anchor (wh_table h) a \<in> {None, Some wd}"
| "table_legal (WdErase wd) h \<longleftrightarrow>
     (case wt_entries (wh_table h) wd of Some e \<Rightarrow> we_draining e \<and> we_live e = [] | None \<Rightarrow> False)"
| "table_legal _ h \<longleftrightarrow> True"

fun wd_step :: "wd_op \<Rightarrow> wd_history \<Rightarrow> wd_history option" where
  "wd_step op h =
     (if \<not> table_legal op h then None
      else Some (case op of
          WdRegister wd a \<Rightarrow> h\<lparr>wh_table := wd_register wd a (wh_table h), wh_granted := wd\<rparr>
        | WdAlias wd a \<Rightarrow> h\<lparr>wh_table := wd_alias wd a (wh_table h)\<rparr>
        | WdDrain a \<Rightarrow> (case begin_drain a (wh_table h) of
              (RemoveWd wd, t) \<Rightarrow> h\<lparr>wh_table := t, wh_removed := wh_removed h @ [wd]\<rparr>
            | (KeepWd, t) \<Rightarrow> h\<lparr>wh_table := t\<rparr>)
        | WdIgnored wd \<Rightarrow> h\<lparr>wh_table := snd (wd_on_ignored wd (wh_table h))\<rparr>
        | WdLoss \<Rightarrow> h\<lparr>wh_table := wd_on_loss (wh_table h)\<rparr>
        | WdErase wd \<Rightarrow> h\<lparr>wh_table := erase_dead wd (wh_table h)\<rparr>))"

definition table_ok :: "wd_table \<Rightarrow> bool" where
  "table_ok t \<longleftrightarrow> (\<forall>a wd. wt_by_anchor t a = Some wd \<longleftrightarrow> a \<in> set (attribute t wd)) \<and>
     (\<forall>wd e. wt_entries t wd = Some e \<longrightarrow> distinct (we_live e) \<and> (we_live e = [] \<longleftrightarrow> we_draining e))"

definition history_ok :: "wd_history \<Rightarrow> bool" where
  "history_ok h \<longleftrightarrow> table_ok (wh_table h) \<and> distinct (wh_removed h) \<and>
     (\<forall>wd. wd_contains (wh_table h) wd \<or> wd \<in> set (wh_removed h) \<longrightarrow> wd \<le> wh_granted h) \<and>
     (\<forall>wd \<in> set (wh_removed h). attribute (wh_table h) wd = [])"

lemma table_okD: "table_ok t \<Longrightarrow> wt_by_anchor t a = Some wd \<longleftrightarrow> a \<in> set (attribute t wd)"
    "table_ok t \<Longrightarrow> wt_entries t wd = Some e \<Longrightarrow> distinct (we_live e) \<and> (we_live e = [] \<longleftrightarrow> we_draining e)"
  by (simp_all add: table_ok_def)

lemma attribute_upd: "attribute (t\<lparr>wt_entries := (wt_entries t)(wd \<mapsto> e), wt_by_anchor := b\<rparr>) v =
    (if v = wd then we_live e else attribute t v)"
  by (simp add: attribute_def)

lemma attribute_mem: "a \<in> set (attribute t wd) \<longleftrightarrow> (\<exists>e. wt_entries t wd = Some e \<and> a \<in> set (we_live e))"
  by (cases "wt_entries t wd") (simp_all add: attribute_def)

lemma ok_register:
  assumes k: "table_ok t" and w: "\<not> wd_contains t wd" and a: "wt_by_anchor t a = None"
  shows "table_ok (wd_register wd a t)"
proof -
  have e: "entry_or_default t wd = wd_entry_default" using w by (simp add: entry_or_default_def wd_contains_def)
  have n: "a \<notin> set (attribute t v)" for v using table_okD(1) [OF k, of a v] a by simp
  have d: "attribute t wd = []" using w by (simp add: attribute_def wd_contains_def)
  show ?thesis
    unfolding table_ok_def wd_register_def Let_def attribute_upd
    using k n d by (auto simp: e wd_entry_default_def table_ok_def)
qed

lemma ok_alias:
  assumes k: "table_ok t" and w: "is_live_wd t wd" and a: "wt_by_anchor t a \<in> {None, Some wd}"
  shows "table_ok (wd_alias wd a t)"
proof -
  from w obtain e where e: "wt_entries t wd = Some e" "\<not> we_draining e" by (auto simp: is_live_wd_def split: option.splits)
  have l: "attribute t wd = we_live e" by (simp add: attribute_def e)
  have n: "a \<in> set (attribute t v) \<Longrightarrow> v = wd" for v using table_okD(1) [OF k, of a v] a by auto
  have x: "entry_or_default t wd = e" by (simp add: entry_or_default_def e)
  show ?thesis
    unfolding table_ok_def wd_alias_def Let_def x attribute_upd
    using k n l e table_okD(2) [OF k e(1)] by (auto simp: table_ok_def)
qed

lemma ok_drain:
  assumes k: "table_ok t" and d: "begin_drain a t = (r, t')"
  shows "table_ok t' \<and> (\<forall>v. wd_contains t' v = wd_contains t v) \<and> (\<forall>v. set (attribute t' v) \<subseteq> set (attribute t v)) \<and>
    (\<forall>wd. r = RemoveWd wd \<longrightarrow> attribute t wd \<noteq> [] \<and> attribute t' wd = [])"
proof (cases "wt_by_anchor t a")
  case None
  with d k show ?thesis by (auto simp: begin_drain_def)
next
  case (Some wd)
  then have m: "a \<in> set (attribute t wd)" using table_okD(1) [OF k] by simp
  then obtain e where e: "wt_entries t wd = Some e" "a \<in> set (we_live e)" by (auto simp: attribute_mem)
  note ed = table_okD(2) [OF k e(1)]
  define live where "live = filter (\<lambda>x. x \<noteq> a) (we_live e)"
  define e' where "e' = (if live = [] then e\<lparr>we_live := live, we_draining := True\<rparr> else e\<lparr>we_live := live\<rparr>)"
  have nd: "\<not> we_draining e" using ed e(2) by auto
  then have e': "we_live e' = live" "we_draining e' \<longleftrightarrow> live = []" "distinct live" "set live = set (we_live e) - {a}"
    using ed by (auto simp: e'_def live_def)
  from nd have t': "t' = t\<lparr>wt_entries := (wt_entries t)(wd \<mapsto> e'), wt_by_anchor := (wt_by_anchor t)(a := None)\<rparr>"
    and r: "r = (if live = [] then RemoveWd wd else KeepWd)"
    using d by (auto simp: begin_drain_def Some e e'_def live_def Let_def split: if_splits)
  have n: "a \<in> set (attribute t v) \<Longrightarrow> v = wd" for v using table_okD(1) [OF k, of a v] Some by simp
  have l: "attribute t wd = we_live e" by (simp add: attribute_def e)
  have u: "attribute t' v = (if v = wd then live else attribute t v)" for v unfolding t' attribute_upd by (simp add: e'(1))
  have b: "wt_by_anchor t' x = (if x = a then None else wt_by_anchor t x)" for x by (simp add: t')
  have "(wt_by_anchor t' x = Some v) = (x \<in> set (attribute t' v))" for x v
    using table_okD(1) [OF k, of x v] n [of v] l e'(4) unfolding u b by (cases "x = a") auto
  moreover have "distinct (we_live f) \<and> (we_live f = [] \<longleftrightarrow> we_draining f)" if "wt_entries t' v = Some f" for v f
    using that table_okD(2) [OF k, of v f] e' by (auto simp: t' split: if_splits)
  ultimately have "table_ok t'" unfolding table_ok_def by blast
  moreover have "wd_contains t' v = wd_contains t v" for v using e by (simp add: t' wd_contains_def)
  moreover have "set (attribute t' v) \<subseteq> set (attribute t v)" for v unfolding u using l e'(4) by simp
  moreover have "attribute t wd \<noteq> []" using m by auto
  moreover have "r = RemoveWd v \<Longrightarrow> v = wd \<and> attribute t' wd = []" for v by (simp add: r u split: if_splits)
  ultimately show ?thesis by blast
qed

lemma ok_ignored:
  assumes k: "table_ok t"
  shows "table_ok (snd (wd_on_ignored wd t))"
proof (cases "wt_entries t wd")
  case (Some e)
  have l: "attribute t wd = we_live e" by (simp add: attribute_def Some)
  have u: "attribute (t\<lparr>wt_entries := (wt_entries t)(wd := None), wt_by_anchor := b\<rparr>) v = (if v = wd then [] else attribute t v)"
    for v b by (simp add: attribute_def)
  have n: "a \<in> set (attribute t v) \<Longrightarrow> a \<in> set (we_live e) \<Longrightarrow> v = wd" for a v
    using table_okD(1) [OF k, of a v] table_okD(1) [OF k, of a wd] l by simp
  show ?thesis using k n unfolding table_ok_def wd_on_ignored_def Some by (auto simp: u l [symmetric])
qed (simp add: wd_on_ignored_def k)

lemma ok_loss: "table_ok t \<Longrightarrow> table_ok (wd_on_loss t) \<and> attribute (wd_on_loss t) = attribute t"
proof -
  assume k: "table_ok t"
  have a: "attribute (wd_on_loss t) v = attribute t v" for v
    using table_okD(2) [OF k, of v] by (auto simp: attribute_def wd_on_loss_def split: option.split)
  have "wt_by_anchor (wd_on_loss t) = wt_by_anchor t" by (simp add: wd_on_loss_def)
  with k a show ?thesis by (auto simp: table_ok_def) (auto simp: wd_on_loss_def split: option.splits if_splits)
qed

lemma ok_erase:
  assumes k: "table_ok t" and e: "wt_entries t wd = Some e" "we_live e = []"
  shows "table_ok (erase_dead wd t) \<and> attribute (erase_dead wd t) = attribute t"
proof -
  have a: "attribute (erase_dead wd t) v = attribute t v" for v using e by (simp add: attribute_def erase_dead_def)
  have "wt_by_anchor (erase_dead wd t) = wt_by_anchor t" by (simp add: erase_dead_def)
  with k a show ?thesis by (auto simp: table_ok_def) (auto simp: erase_dead_def split: if_splits)
qed

lemma history_step: "history_ok h \<Longrightarrow> wd_step op h = Some h' \<Longrightarrow> history_ok h'"
proof -
  assume k: "history_ok h" and s: "wd_step op h = Some h'"
  then have t: "table_ok (wh_table h)" and legal: "table_legal op h" by (auto simp: history_ok_def split: if_splits)
  have fresh: "\<not> wd_contains (wh_table h) wd" "wd \<notin> set (wh_removed h)" if "wh_granted h < wd" for wd
    using k that by (auto simp: history_ok_def)
  show ?thesis
  proof (cases op)
    case (WdRegister wd a)
    with legal have l: "wh_granted h < wd" "wt_by_anchor (wh_table h) a = None" by simp_all
    have a: "attribute (wd_register wd a (wh_table h)) v = (if v = wd then [a] else attribute (wh_table h) v)" for v
      using fresh(1) [OF l(1)] by (simp add: wd_register_def Let_def attribute_upd entry_or_default_def wd_entry_default_def wd_contains_def)
    have c: "wd_contains (wd_register wd a (wh_table h)) v = (v = wd \<or> wd_contains (wh_table h) v)" for v
      by (simp add: wd_contains_def wd_register_def Let_def)
    have h': "h' = h\<lparr>wh_table := wd_register wd a (wh_table h), wh_granted := wd\<rparr>" using s legal by (simp add: WdRegister)
    show ?thesis using k fresh [OF l(1)] ok_register [OF t fresh(1) [OF l(1)] l(2)] l(1)
      unfolding history_ok_def by (fastforce simp: h' a c)
  next
    case (WdAlias wd a)
    with legal have l: "is_live_wd (wh_table h) wd" "wt_by_anchor (wh_table h) a \<in> {None, Some wd}" by simp_all
    from l(1) obtain e where e: "wt_entries (wh_table h) wd = Some e" "\<not> we_draining e" by (auto simp: is_live_wd_def split: option.splits)
    have ne: "attribute (wh_table h) wd \<noteq> []" using table_okD(2) [OF t e(1)] e by (simp add: attribute_def)
    then have nr: "wd \<notin> set (wh_removed h)" using k by (auto simp: history_ok_def)
    have a: "attribute (wd_alias wd a (wh_table h)) v = attribute (wh_table h) v" if "v \<noteq> wd" for v
      using that by (simp add: wd_alias_def Let_def attribute_upd)
    have c: "wd_contains (wd_alias wd a (wh_table h)) v = wd_contains (wh_table h) v" for v
      using e by (simp add: wd_contains_def wd_alias_def Let_def)
    have h': "h' = h\<lparr>wh_table := wd_alias wd a (wh_table h)\<rparr>" using s legal by (auto simp: WdAlias split: if_splits)
    show ?thesis using k nr ok_alias [OF t l] a unfolding history_ok_def h' by (auto simp: c) metis
  next
    case (WdDrain a)
    obtain r t' where d: "begin_drain a (wh_table h) = (r, t')" by fastforce
    have h': "h' = h\<lparr>wh_table := t', wh_removed := wh_removed h @ (case r of RemoveWd wd \<Rightarrow> [wd] | KeepWd \<Rightarrow> [])\<rparr>"
      using s by (simp add: WdDrain d split: drain_decision.splits)
    note o = ok_drain [OF t d]
    have e: "attribute (wh_table h) v = [] \<Longrightarrow> attribute t' v = []" for v using o by (metis set_empty subset_empty)
    have "wd_contains (wh_table h) v" if "attribute (wh_table h) v \<noteq> []" for v
      using that by (auto simp: attribute_def wd_contains_def split: option.splits)
    with k o e show ?thesis unfolding history_ok_def h' by (cases r) auto
  next
    case (WdIgnored wd)
    have c: "wd_contains (snd (wd_on_ignored wd (wh_table h))) v \<Longrightarrow> wd_contains (wh_table h) v" for v
      by (auto simp: wd_contains_def wd_on_ignored_def split: option.splits if_splits)
    have a: "attribute (wh_table h) v = [] \<Longrightarrow> attribute (snd (wd_on_ignored wd (wh_table h))) v = []" for v
      by (auto simp: attribute_def wd_on_ignored_def split: option.splits)
    have h': "h' = h\<lparr>wh_table := snd (wd_on_ignored wd (wh_table h))\<rparr>" using s by (simp add: WdIgnored)
    show ?thesis using k ok_ignored [OF t, of wd] a c unfolding history_ok_def h' by auto
  next
    case WdLoss
    have c: "wd_contains (wd_on_loss (wh_table h)) v \<Longrightarrow> wd_contains (wh_table h) v" for v
      by (auto simp: wd_contains_def wd_on_loss_def split: option.splits)
    have h': "h' = h\<lparr>wh_table := wd_on_loss (wh_table h)\<rparr>" using s by (simp add: WdLoss)
    show ?thesis using k ok_loss [OF t] c unfolding history_ok_def h' by auto
  next
    case (WdErase wd)
    with legal obtain e where e: "wt_entries (wh_table h) wd = Some e" "we_live e = []" by (auto split: option.splits)
    have c: "wd_contains (erase_dead wd (wh_table h)) v \<Longrightarrow> wd_contains (wh_table h) v" for v
      by (auto simp: wd_contains_def erase_dead_def split: if_splits)
    have h': "h' = h\<lparr>wh_table := erase_dead wd (wh_table h)\<rparr>" using s legal by (simp add: WdErase)
    show ?thesis using k ok_erase [OF t e] c unfolding history_ok_def h' by auto
  qed
qed

lemma history_runs: "fold_opt wd_step ops h = Some h' \<Longrightarrow> history_ok h \<Longrightarrow> history_ok h'"
  by (induction ops arbitrary: h) (auto split: option.splits if_splits intro: history_step simp del: wd_step.simps)

text \<open>
  Property C40. Along every history the reader may produce, records are attributed truthfully (an anchor is bound
  to a descriptor exactly when that descriptor's records reach it, once), the kernel watch of a descriptor is
  removed at most once, only after its last anchor left, and a descriptor with no anchor left is being drained.
\<close>

theorem descriptors_are_attributed:
  assumes "fold_opt wd_step ops wd_history_new = Some h"
  shows "(wd_of (wh_table h) a = Some wd \<longleftrightarrow> a \<in> set (attribute (wh_table h) wd)) \<and> distinct (attribute (wh_table h) wd) \<and>
    distinct (wh_removed h) \<and> (is_live_wd (wh_table h) wd \<longleftrightarrow> attribute (wh_table h) wd \<noteq> []) \<and>
    \<not> (wd \<in> set (wh_removed h) \<and> is_live_wd (wh_table h) wd)"
proof -
  have "history_ok wd_history_new"
    by (simp add: history_ok_def wd_history_new_def wd_table_new_def table_ok_def attribute_def wd_contains_def)
  with history_runs [OF assms] have k: "history_ok h" .
  then have t: "table_ok (wh_table h)" by (simp add: history_ok_def)
  have l: "is_live_wd (wh_table h) wd \<longleftrightarrow> attribute (wh_table h) wd \<noteq> []" "distinct (attribute (wh_table h) wd)"
    using table_okD(2) [OF t, of wd] by (auto simp: is_live_wd_def attribute_def split: option.split)
  with k table_okD(1) [OF t] show ?thesis by (auto simp: history_ok_def wd_of_def)
qed

theorem descriptors_are_attributed_witness:
  "\<exists>h. fold_opt wd_step [WdRegister 1 7, WdAlias 1 8, WdDrain 7, WdRegister 2 7, WdDrain 8, WdIgnored 1] wd_history_new = Some h \<and>
    wh_removed h = [1] \<and> (wd_of (wh_table h) 7 = Some 2 \<longleftrightarrow> 7 \<in> set (attribute (wh_table h) 2))"
proof -
  have "\<exists>h. fold_opt wd_step [WdRegister 1 7, WdAlias 1 8, WdDrain 7, WdRegister 2 7, WdDrain 8, WdIgnored 1] wd_history_new = Some h \<and>
      wh_removed h = [1]"
    by (simp add: wd_history_new_def wd_table_new_def wd_register_def entry_or_default_def wd_entry_default_def wd_alias_def
        is_live_wd_def begin_drain_def wd_on_ignored_def)
  with descriptors_are_attributed show ?thesis by blast
qed

end
