(* ===== verification/Fs_Lower.thy ===== *)
theory Fs_Lower
  imports Fs_Rdcw Fs_Inotify Monitor_State
begin

text \<open>
  The lowerings of \<open>tributary-fs\<close> (\<open>core/compile\<close>): what each backend's raw events become as inputs of the
  reconciliation engine, with the placing of an absolute path under its root (\<open>lower\<close> in \<open>core/mod.rs\<close>).

  A path is its bytes, a segment the bytes of its UTF-8. A lowering that mints a cookie threads the counter of
  the core; \<open>None\<close> is a panic (a counter that runs out, or a debug assertion about the layer below).
\<close>

section \<open>Paths and names\<close>

definition utf8_cont :: "8 word \<Rightarrow> bool" where
  "utf8_cont b \<longleftrightarrow> 0x80 \<le> b \<and> b \<le> 0xBF"

definition utf8_second :: "8 word \<Rightarrow> 8 word \<Rightarrow> bool" where
  "utf8_second b c \<longleftrightarrow> utf8_cont c \<and> (b = 0xE0 \<longrightarrow> 0xA0 \<le> c) \<and> (b = 0xED \<longrightarrow> c \<le> 0x9F) \<and>
     (b = 0xF0 \<longrightarrow> 0x90 \<le> c) \<and> (b = 0xF4 \<longrightarrow> c \<le> 0x8F)"

fun utf8_valid :: "8 word list \<Rightarrow> bool" where
  "utf8_valid [] = True"
| "utf8_valid (b # bs) =
     (if b < 0x80 then utf8_valid bs
      else case bs of [] \<Rightarrow> False | c # cs \<Rightarrow>
        if 0xC2 \<le> b \<and> b \<le> 0xDF then utf8_cont c \<and> utf8_valid cs
        else case cs of [] \<Rightarrow> False | d # ds \<Rightarrow>
          if 0xE0 \<le> b \<and> b \<le> 0xEF then utf8_second b c \<and> utf8_cont d \<and> utf8_valid ds
          else case ds of [] \<Rightarrow> False | e # es \<Rightarrow>
            0xF0 \<le> b \<and> b \<le> 0xF4 \<and> utf8_second b c \<and> utf8_cont d \<and> utf8_cont e \<and> utf8_valid es)"

definition segment_of_bytes :: "8 word list \<Rightarrow> segment" where
  "segment_of_bytes bs = Segment (map (\<lambda>b. char_of (unat b)) bs)"

definition utf8_char :: "nat \<Rightarrow> 8 word list" where
  "utf8_char c = map of_nat
     (if c < 0x80 then [c]
      else if c < 0x800 then [0xC0 + c div 0x40, 0x80 + c mod 0x40]
      else if c < 0x10000 then [0xE0 + c div 0x1000, 0x80 + c div 0x40 mod 0x40, 0x80 + c mod 0x40]
      else [0xF0 + c div 0x40000, 0x80 + c div 0x1000 mod 0x40, 0x80 + c div 0x40 mod 0x40, 0x80 + c mod 0x40])"

definition segment_of_scalars :: "scalars \<Rightarrow> segment" where
  "segment_of_scalars cs = segment_of_bytes (concat (map utf8_char cs))"

datatype lowered = LoweredRoot | LoweredTarget location | LoweredOutside

fun lower_parts :: "location \<Rightarrow> 8 word list list \<Rightarrow> lowered" where
  "lower_parts segments [] = (if segments = [] then LoweredRoot else LoweredTarget segments)"
| "lower_parts segments (part # parts) =
     (if part = [] then lower_parts segments parts
      else if utf8_valid part then lower_parts (segments @ [segment_of_bytes part]) parts
      else LoweredOutside)"

text \<open>The separator is the byte 47.\<close>

definition lower :: "8 word list option \<Rightarrow> 8 word list \<Rightarrow> lowered" where
  "lower root bytes =
     (case root of
        None \<Rightarrow> LoweredOutside
      | Some root_bytes \<Rightarrow>
          if \<not> prefix root_bytes bytes then LoweredOutside
          else (case drop (length root_bytes) bytes of
              [] \<Rightarrow> LoweredRoot
            | b # tail \<Rightarrow>
                if b = 47 then lower_parts [] (split_on 47 tail)
                else if root_bytes = [47] then lower_parts [] (split_on 47 (b # tail))
                else LoweredOutside))"

section \<open>Planned inputs\<close>

datatype planned_input = PlannedRec os_record | PlannedOver scope | PlannedDominated scope

definition located :: "watch_id \<Rightarrow> location option \<Rightarrow> scope" where
  "located watch target = SubtreeScope \<lparr>sub_watch = watch, sub_descent = (case target of Some l \<Rightarrow> l | None \<Rightarrow> location_new)\<rparr>"

definition evidence_primary :: "evidence \<Rightarrow> record_kind option" where
  "evidence_primary e = (if pv_created e then Some RkCreated else if pv_removed e then Some RkRemoved
     else if pv_modified e then Some RkModified else if pv_attrib e then Some RkAttrib else None)"

definition os_record_proved :: "watch_id \<Rightarrow> evidence \<Rightarrow> os_record option" where
  "os_record_proved watch e =
     map_option (\<lambda>k. (os_record_new watch k)\<lparr>rec_evidence := e\<rparr>) (evidence_primary e)"

definition also_proved :: "evidence \<Rightarrow> os_record \<Rightarrow> os_record" where
  "also_proved extra r = r\<lparr>rec_evidence := evidence_union (rec_evidence r) extra\<rparr>"

definition with_class :: "bool option \<Rightarrow> os_record \<Rightarrow> os_record" where
  "with_class is_dir r = (case is_dir of Some d \<Rightarrow> r\<lparr>rec_is_dir := Some d\<rparr> | None \<Rightarrow> r)"

definition next_cookie :: "u64 \<Rightarrow> (move_cookie \<times> u64) option" where
  "next_cookie seq = (if seq = - 1 then None else Some (seq + 1, seq + 1))"

definition paired_rename :: "watch_id \<Rightarrow> location \<Rightarrow> location \<Rightarrow> bool option \<Rightarrow> u64 \<Rightarrow> (planned_input list \<times> u64) option" where
  "paired_rename watch from to is_dir seq =
     (case next_cookie seq of
        None \<Rightarrow> None
      | Some (cookie, seq') \<Rightarrow> Some
          ([PlannedRec (with_class is_dir ((os_record_new watch RkMovedFrom)\<lparr>rec_target := Some from, rec_cookie := Some cookie\<rparr>)),
            PlannedRec (with_class is_dir ((os_record_new watch RkMovedTo)\<lparr>rec_target := Some to, rec_cookie := Some cookie\<rparr>))],
           seq'))"

text \<open>
  A batch: one list of inputs for each event, in order. The other fields of the items and of the batch these
  backends produce are constant (no probe, nothing awaited).
\<close>

fun compile_batch :: "('e \<Rightarrow> u64 \<Rightarrow> (planned_input list \<times> u64) option) \<Rightarrow> 'e list \<Rightarrow> u64 \<Rightarrow> (planned_input list list \<times> u64) option" where
  "compile_batch plan [] seq = Some ([], seq)"
| "compile_batch plan (e # es) seq =
     (case plan e seq of
        None \<Rightarrow> None
      | Some (item, seq1) \<Rightarrow> map_option (\<lambda>(items, seq2). (item # items, seq2)) (compile_batch plan es seq1))"

section \<open>ReadDirectoryChangesW\<close>

datatype resolved = ResolvedRoot | ResolvedTarget location | ResolvedEscalate "location option"

definition name_location :: "scalars list \<Rightarrow> location" where
  "name_location cs = map segment_of_scalars cs"

fun resolve :: "rdcw_name \<Rightarrow> resolved" where
  "resolve (Utf8Name components) = (if components = [] then ResolvedRoot else ResolvedTarget (name_location components))"
| "resolve (EscalateName pre) = ResolvedEscalate (if pre = [] then None else Some (name_location pre))"

definition agreed_class :: "bool option \<Rightarrow> bool option \<Rightarrow> bool option option" where
  "agreed_class old new = (case (old, new) of
       (Some o', Some n) \<Rightarrow> if o' \<noteq> n then None else Some (Some o')
     | (Some c, None) \<Rightarrow> Some (Some c)
     | (None, Some c) \<Rightarrow> Some (Some c)
     | (None, None) \<Rightarrow> Some None)"

definition common_parent :: "location \<Rightarrow> location \<Rightarrow> location" where
  "common_parent from to = take (length (takeWhile (\<lambda>(f, t). f = t) (zip from to))) from"

definition plan_single :: "watch_id \<Rightarrow> scope_id \<Rightarrow> rdcw_record \<Rightarrow> evidence \<Rightarrow> planned_input list" where
  "plan_single watch scope record proven =
     (case (resolve (rr_name record), os_record_proved watch proven) of
        (ResolvedRoot, _) \<Rightarrow> [PlannedOver (RootScope scope)]
      | (ResolvedTarget location, Some rec) \<Rightarrow> [PlannedRec (with_class (rr_is_dir record) (rec\<lparr>rec_target := Some location\<rparr>))]
      | (ResolvedTarget location, None) \<Rightarrow> [PlannedOver (located watch (Some location))]
      | (ResolvedEscalate location, _) \<Rightarrow> [PlannedOver (located watch location)])"

definition plan_half :: "watch_id \<Rightarrow> scope_id \<Rightarrow> rdcw_record \<Rightarrow> record_kind \<Rightarrow> planned_input list" where
  "plan_half watch scope record kind =
     (case resolve (rr_name record) of
        ResolvedRoot \<Rightarrow> [PlannedOver (RootScope scope)]
      | ResolvedTarget location \<Rightarrow>
          [PlannedRec (with_class (rr_is_dir record) ((os_record_new watch kind)\<lparr>rec_target := Some location\<rparr>))]
      | ResolvedEscalate location \<Rightarrow> [PlannedOver (located watch location)])"

fun cover_end :: "watch_id \<Rightarrow> scope_id \<Rightarrow> resolved \<Rightarrow> planned_input" where
  "cover_end watch scope ResolvedRoot = PlannedOver (RootScope scope)"
| "cover_end watch scope (ResolvedTarget location) = PlannedOver (located watch (Some location))"
| "cover_end watch scope (ResolvedEscalate location) = PlannedOver (located watch location)"

definition plan_rdcw_rename ::
  "watch_id \<Rightarrow> scope_id \<Rightarrow> rdcw_record \<Rightarrow> rdcw_record \<Rightarrow> u64 \<Rightarrow> (planned_input list \<times> u64) option" where
  "plan_rdcw_rename watch scope old new seq =
     (case (resolve (rr_name old), resolve (rr_name new)) of
        (ResolvedTarget from, ResolvedTarget to) \<Rightarrow>
          (case agreed_class (rr_is_dir old) (rr_is_dir new) of
             None \<Rightarrow> Some ([PlannedOver (located watch (Some (common_parent from to)))], seq)
           | Some is_dir \<Rightarrow> paired_rename watch from to is_dir seq)
      | (o', n) \<Rightarrow> Some ([cover_end watch scope o', cover_end watch scope n], seq))"

definition both_facts :: evidence where
  "both_facts = evidence_new\<lparr>pv_modified := True, pv_attrib := True\<rparr>"

fun plan_rdcw :: "watch_id \<Rightarrow> scope_id \<Rightarrow> rdcw_event \<Rightarrow> u64 \<Rightarrow> (planned_input list \<times> u64) option" where
  "plan_rdcw watch scope (RenamedEv old new) seq = plan_rdcw_rename watch scope old new seq"
| "plan_rdcw watch scope (WidowOld record) seq = Some (plan_half watch scope record RkMovedFrom, seq)"
| "plan_rdcw watch scope (WidowNew record) seq = Some (plan_half watch scope record RkMovedTo, seq)"
| "plan_rdcw watch scope (SingleEv record) seq =
     (case rr_action record of
        ActAdded \<Rightarrow> Some (plan_single watch scope record (evidence_of RkCreated), seq)
      | ActRemoved \<Rightarrow> Some (plan_single watch scope record (evidence_of RkRemoved), seq)
      | ActModified \<Rightarrow> Some (plan_single watch scope record both_facts, seq)
      | ActStreamAdded \<Rightarrow> Some (plan_single watch scope record both_facts, seq)
      | ActStreamRemoved \<Rightarrow> Some (plan_single watch scope record both_facts, seq)
      | ActStreamModified \<Rightarrow> Some (plan_single watch scope record both_facts, seq)
      | ActRenamedOld \<Rightarrow> None
      | ActRenamedNew \<Rightarrow> None
      | ActUnknown _ \<Rightarrow> Some ([cover_end watch scope (resolve (rr_name record))], seq))"

definition compile_rdcw :: "watch_id \<Rightarrow> scope_id \<Rightarrow> rdcw_event list \<Rightarrow> u64 \<Rightarrow> (planned_input list list \<times> u64) option" where
  "compile_rdcw watch scope events seq = compile_batch (plan_rdcw watch scope) events seq"

section \<open>fanotify\<close>

definition FAN_MODIFY :: u64 where "FAN_MODIFY = 0x2"
definition FAN_ATTRIB :: u64 where "FAN_ATTRIB = 0x4"
definition FAN_CREATE :: u64 where "FAN_CREATE = 0x100"
definition FAN_DELETE :: u64 where "FAN_DELETE = 0x200"
definition FAN_DELETE_SELF :: u64 where "FAN_DELETE_SELF = 0x400"
definition FAN_MOVE_SELF :: u64 where "FAN_MOVE_SELF = 0x800"
definition FAN_RENAME :: u64 where "FAN_RENAME = 0x10000000"
definition FAN_ONDIR :: u64 where "FAN_ONDIR = 0x40000000"

definition fan_has :: "u64 \<Rightarrow> u64 \<Rightarrow> bool" where
  "fan_has flag m \<longleftrightarrow> m AND flag \<noteq> 0"

definition structural_verbs :: "u64 \<Rightarrow> nat" where
  "structural_verbs m = of_bool (fan_has FAN_CREATE m) + of_bool (fan_has FAN_DELETE m) +
     of_bool (fan_has FAN_DELETE_SELF m) + of_bool (fan_has FAN_MOVE_SELF m) + of_bool (fan_has FAN_RENAME m)"

definition multi_structural :: "u64 \<Rightarrow> bool" where
  "multi_structural m \<longleftrightarrow> 2 \<le> structural_verbs m"

record admitted_event =
  ad_mask :: u64
  ad_path :: "8 word list option"
  ad_rename :: "(8 word list \<times> 8 word list) option"

definition fan_proven :: "u64 \<Rightarrow> evidence" where
  "fan_proven m = \<lparr>pv_created = fan_has FAN_CREATE m, pv_removed = fan_has FAN_DELETE m,
     pv_modified = fan_has FAN_MODIFY m, pv_attrib = fan_has FAN_ATTRIB m, pv_moved = False\<rparr>"

definition plan_rename :: "watch_id \<Rightarrow> 8 word list option \<Rightarrow> scope_id \<Rightarrow> 8 word list \<Rightarrow> 8 word list \<Rightarrow> bool option
    \<Rightarrow> u64 \<Rightarrow> (planned_input list \<times> u64) option" where
  "plan_rename watch root scope old_path new_path is_dir seq =
     (let old = lower root old_path; new = lower root new_path
      in if old = LoweredRoot \<or> new = LoweredRoot then Some ([PlannedRec (os_record_new watch RkIgnored)], seq)
         else case (old, new) of
             (LoweredTarget from, LoweredTarget to) \<Rightarrow> paired_rename watch from to is_dir seq
           | (LoweredTarget inside, _) \<Rightarrow> Some ([PlannedOver (located watch (Some inside))], seq)
           | (_, LoweredTarget inside) \<Rightarrow> Some ([PlannedOver (located watch (Some inside))], seq)
           | _ \<Rightarrow> Some ([PlannedOver (RootScope scope)], seq))"

definition cover_lowered :: "watch_id \<Rightarrow> scope_id \<Rightarrow> lowered \<Rightarrow> planned_input" where
  "cover_lowered watch scope l = (case l of LoweredRoot \<Rightarrow> PlannedOver (RootScope scope)
     | LoweredTarget location \<Rightarrow> PlannedOver (located watch (Some location)) | LoweredOutside \<Rightarrow> PlannedOver (RootScope scope))"

definition plan_fan_self :: "watch_id \<Rightarrow> scope_id \<Rightarrow> u64 \<Rightarrow> lowered \<Rightarrow> planned_input" where
  "plan_fan_self watch scope bits l = (case l of
       LoweredRoot \<Rightarrow> PlannedRec (os_record_new watch (if fan_has FAN_DELETE_SELF bits then RkDeleteSelf else RkMoveSelf))
     | LoweredTarget location \<Rightarrow> PlannedOver (located watch (Some location))
     | LoweredOutside \<Rightarrow> PlannedOver (RootScope scope))"

definition plan_fan_dirent :: "watch_id \<Rightarrow> scope_id \<Rightarrow> u64 \<Rightarrow> lowered \<Rightarrow> planned_input list" where
  "plan_fan_dirent watch scope bits l =
     (if l = LoweredOutside then [PlannedOver (RootScope scope)]
      else case os_record_proved watch (fan_proven bits) of
          None \<Rightarrow> []
        | Some rec \<Rightarrow>
            (let rec' = rec\<lparr>rec_is_dir := Some (fan_has FAN_ONDIR bits)\<rparr>
             in [PlannedRec (case l of LoweredTarget location \<Rightarrow> rec'\<lparr>rec_target := Some location\<rparr> | _ \<Rightarrow> rec')]))"

definition plan_fanotify :: "watch_id \<Rightarrow> 8 word list option \<Rightarrow> scope_id \<Rightarrow> admitted_event \<Rightarrow> u64
    \<Rightarrow> (planned_input list \<times> u64) option" where
  "plan_fanotify watch root scope event seq =
     (let bits = ad_mask event
      in case ad_rename event of
          Some (old_path, new_path) \<Rightarrow> plan_rename watch root scope old_path new_path (Some (fan_has FAN_ONDIR bits)) seq
        | None \<Rightarrow>
            (case ad_path event of
               None \<Rightarrow> None
             | Some path \<Rightarrow>
                 if multi_structural bits
                 then (if fan_has FAN_CREATE bits \<and> fan_has FAN_DELETE bits \<and> \<not> fan_has FAN_ONDIR bits
                       then Some ([cover_lowered watch scope (lower root path)], seq) else None)
                 else if fan_has FAN_DELETE_SELF bits \<or> fan_has FAN_MOVE_SELF bits
                 then Some ([plan_fan_self watch scope bits (lower root path)], seq)
                 else Some (plan_fan_dirent watch scope bits (lower root path), seq)))"

definition compile_fanotify :: "watch_id \<Rightarrow> 8 word list option \<Rightarrow> scope_id \<Rightarrow> admitted_event list \<Rightarrow> u64
    \<Rightarrow> (planned_input list list \<times> u64) option" where
  "compile_fanotify watch root scope events seq = compile_batch (plan_fanotify watch root scope) events seq"

section \<open>The USN journal\<close>

text \<open>The reason bits of module \<open>reason\<close>; the unions list them in the order of the code.\<close>

definition USN_MODIFY :: u32 where
  "USN_MODIFY = 0x1 OR 0x2 OR 0x4"

definition USN_ATTRIB :: u32 where
  "USN_ATTRIB = 0x400 OR 0x800 OR 0x8000 OR 0x20000 OR 0x40000 OR 0x800000 OR 0x4000 OR 0x1000000
     OR 0x10 OR 0x20 OR 0x40 OR 0x200000"

definition USN_FILE_CREATE :: u32 where "USN_FILE_CREATE = 0x100"
definition USN_FILE_DELETE :: u32 where "USN_FILE_DELETE = 0x200"
definition USN_RENAME_OLD_NAME :: u32 where "USN_RENAME_OLD_NAME = 0x1000"
definition USN_RENAME_NEW_NAME :: u32 where "USN_RENAME_NEW_NAME = 0x2000"
definition USN_HARD_LINK_CHANGE :: u32 where "USN_HARD_LINK_CHANGE = 0x10000"
definition USN_REPARSE_POINT_CHANGE :: u32 where "USN_REPARSE_POINT_CHANGE = 0x100000"

datatype usn_target = UsnResolved "scalars list" | UsnEscalateAt "scalars list"

datatype usn_admitted =
    UsnSingle u32 usn_target bool
  | UsnRenamed usn_target u32 usn_target u32 bool
  | UsnRootDeath
  | UsnMovedInSubtree "128 word" "scalars list"
  | UsnMapOverflow
  | UsnMapInconsistent

definition rename_content :: "u32 \<Rightarrow> evidence" where
  "rename_content content = evidence_new\<lparr>pv_modified := content AND USN_MODIFY \<noteq> 0, pv_attrib := content AND USN_ATTRIB \<noteq> 0\<rparr>"

definition usn_proven :: "u32 \<Rightarrow> evidence" where
  "usn_proven delta = \<lparr>pv_created = delta AND USN_FILE_CREATE \<noteq> 0, pv_removed = delta AND USN_FILE_DELETE \<noteq> 0,
     pv_modified = delta AND USN_MODIFY \<noteq> 0, pv_attrib = delta AND (USN_ATTRIB OR USN_REPARSE_POINT_CHANGE) \<noteq> 0,
     pv_moved = delta AND (USN_RENAME_OLD_NAME OR USN_RENAME_NEW_NAME) \<noteq> 0\<rparr>"

definition cover_usn_end :: "watch_id \<Rightarrow> scope_id \<Rightarrow> usn_target \<Rightarrow> planned_input" where
  "cover_usn_end watch scope t = (case t of
       UsnResolved c \<Rightarrow> if c = [] then PlannedOver (RootScope scope) else PlannedOver (located watch (Some (name_location c)))
     | UsnEscalateAt c \<Rightarrow> PlannedOver (located watch (if c = [] then None else Some (name_location c))))"

definition plan_usn_single :: "watch_id \<Rightarrow> u32 \<Rightarrow> usn_target \<Rightarrow> bool \<Rightarrow> planned_input list" where
  "plan_usn_single watch delta target is_dir =
     (case target of
        UsnEscalateAt c \<Rightarrow> [PlannedOver (located watch (if c = [] then None else Some (name_location c)))]
      | UsnResolved c \<Rightarrow>
          (let location = (if c = [] then None else Some (name_location c))
           in if delta AND USN_HARD_LINK_CHANGE \<noteq> 0 then [PlannedOver (located watch location)]
              else case os_record_proved watch (usn_proven delta) of
                  None \<Rightarrow> []
                | Some rec \<Rightarrow> [PlannedRec (rec\<lparr>rec_is_dir := Some is_dir, rec_target := location\<rparr>)]))"

fun plan_usn :: "watch_id \<Rightarrow> scope_id \<Rightarrow> usn_admitted \<Rightarrow> u64 \<Rightarrow> (planned_input list \<times> u64) option" where
  "plan_usn watch scope UsnRootDeath seq = Some ([PlannedRec (os_record_new watch RkDeleteSelf)], seq)"
| "plan_usn watch scope UsnMapOverflow seq = Some ([PlannedOver (RootScope scope)], seq)"
| "plan_usn watch scope UsnMapInconsistent seq = Some ([PlannedOver (RootScope scope)], seq)"
| "plan_usn watch scope (UsnMovedInSubtree frn target) seq = Some ([PlannedOver (located watch (Some (name_location target)))], seq)"
| "plan_usn watch scope (UsnRenamed old old_content new new_content is_dir) seq =
     (case (old, new) of
        (UsnResolved old_c, UsnResolved new_c) \<Rightarrow>
          (case next_cookie seq of
             None \<Rightarrow> None
           | Some (cookie, seq') \<Rightarrow> Some
               ([PlannedRec (also_proved (rename_content old_content) ((os_record_new watch RkMovedFrom)
                   \<lparr>rec_target := Some (name_location old_c), rec_cookie := Some cookie, rec_is_dir := Some is_dir\<rparr>)),
                 PlannedRec (also_proved (rename_content new_content) ((os_record_new watch RkMovedTo)
                   \<lparr>rec_target := Some (name_location new_c), rec_cookie := Some cookie, rec_is_dir := Some is_dir\<rparr>))], seq'))
      | _ \<Rightarrow> Some ([cover_usn_end watch scope old, cover_usn_end watch scope new], seq))"
| "plan_usn watch scope (UsnSingle delta target is_dir) seq = Some (plan_usn_single watch delta target is_dir, seq)"

definition compile_usn :: "watch_id \<Rightarrow> scope_id \<Rightarrow> usn_admitted list \<Rightarrow> u64 \<Rightarrow> (planned_input list list \<times> u64) option" where
  "compile_usn watch scope events seq = compile_batch (plan_usn watch scope) events seq"

section \<open>inotify\<close>

datatype taint_cause = RootDeath record_kind | Loss | UnmintableIdentity | UnprovableChain

record pending_widen =
  pw_reserved :: watch_id
  pw_tainted :: "taint_cause option"
  pw_benign :: u32

definition taint :: "taint_cause \<Rightarrow> pending_widen \<Rightarrow> pending_widen" where
  "taint cause p = (case pw_tainted p of None \<Rightarrow> p\<lparr>pw_tainted := Some cause\<rparr> | Some _ \<Rightarrow> p)"

definition saturating_inc :: "u32 \<Rightarrow> u32" where
  "saturating_inc n = (if n = - 1 then n else n + 1)"

definition inotify_proven :: "u32 \<Rightarrow> evidence" where
  "inotify_proven m = \<lparr>pv_created = mask_has IN_CREATE m, pv_removed = mask_has IN_DELETE m,
     pv_modified = mask_has IN_MODIFY m, pv_attrib = mask_has IN_ATTRIB m,
     pv_moved = mask_has IN_MOVED_FROM m \<or> mask_has IN_MOVED_TO m\<rparr>"

definition inotify_verb :: "u32 \<Rightarrow> record_kind option" where
  "inotify_verb m = (if mask_has IN_CREATE m then Some RkCreated else if mask_has IN_DELETE m then Some RkRemoved
     else if mask_has IN_MOVED_FROM m then Some RkMovedFrom else if mask_has IN_MOVED_TO m then Some RkMovedTo
     else if mask_has IN_MODIFY m then Some RkModified else if mask_has IN_ATTRIB m then Some RkAttrib else None)"

definition is_move_half :: "record_kind \<Rightarrow> bool" where
  "is_move_half k \<longleftrightarrow> k = RkMovedFrom \<or> k = RkMovedTo"

text \<open>The record leg of a pending widen: a record of its reserved root is consumed here.\<close>

definition consume_reserved :: "u32 \<Rightarrow> pending_widen \<Rightarrow> pending_widen" where
  "consume_reserved m p =
     (if mask_has IN_IGNORED m \<or> mask_has IN_UNMOUNT m then taint (RootDeath RkIgnored) p
      else if mask_has IN_MOVE_SELF m then taint (RootDeath RkMoveSelf) p
      else if mask_has IN_DELETE_SELF m then taint (RootDeath RkDeleteSelf) p
      else p\<lparr>pw_benign := saturating_inc (pw_benign p)\<rparr>)"

definition plan_anchor :: "raw_inotify_event \<Rightarrow> watch_id \<Rightarrow> planned_input list" where
  "plan_anchor event anchor =
     (let m = ie_mask event
      in if mask_has IN_IGNORED m \<or> mask_has IN_UNMOUNT m then [PlannedRec (os_record_new anchor RkIgnored)]
         else if mask_has IN_MOVE_SELF m then [PlannedRec (os_record_new anchor RkMoveSelf)]
         else if mask_has IN_DELETE_SELF m then [PlannedRec (os_record_new anchor RkDeleteSelf)]
         else case inotify_verb m of
             None \<Rightarrow> []
           | Some kind \<Rightarrow>
               if (\<exists>bytes \<in> set_option (ie_name event). \<not> utf8_valid bytes) then [PlannedOver (located anchor None)]
               else [PlannedRec ((also_proved (inotify_proven m)
                       ((os_record_new anchor kind)\<lparr>rec_is_dir := Some (mask_has IN_ISDIR m)\<rparr>))
                     \<lparr>rec_target := map_option (\<lambda>bytes. [segment_of_bytes bytes]) (ie_name event),
                      rec_cookie := (if is_move_half kind \<and> ie_cookie event \<noteq> 0 then Some (ucast (ie_cookie event)) else None)\<rparr>)])"

fun plan_anchors :: "raw_inotify_event \<Rightarrow> watch_id list \<Rightarrow> pending_widen option \<Rightarrow> planned_input list \<times> pending_widen option" where
  "plan_anchors event [] pending = ([], pending)"
| "plan_anchors event (anchor # anchors) pending =
     (case pending of
        Some p \<Rightarrow>
          if pw_reserved p = anchor then plan_anchors event anchors (Some (consume_reserved (ie_mask event) p))
          else (case plan_anchors event anchors pending of (ps, q) \<Rightarrow> (plan_anchor event anchor @ ps, q))
      | None \<Rightarrow> (case plan_anchors event anchors pending of (ps, q) \<Rightarrow> (plan_anchor event anchor @ ps, q)))"

definition plan_inotify :: "watch_id list \<Rightarrow> raw_inotify_event \<Rightarrow> pending_widen option
    \<Rightarrow> (planned_input list \<times> pending_widen option) option" where
  "plan_inotify anchors event pending =
     (if mask_has IN_Q_OVERFLOW (ie_mask event) then None else Some (plan_anchors event anchors pending))"

text \<open>A batch: the event with its anchors, the items in order.\<close>

fun compile_inotify :: "(watch_id list \<times> raw_inotify_event) list \<Rightarrow> pending_widen option
    \<Rightarrow> (planned_input list list \<times> pending_widen option) option" where
  "compile_inotify [] pending = Some ([], pending)"
| "compile_inotify ((anchors, event) # events) pending =
     (case plan_inotify anchors event pending of
        None \<Rightarrow> None
      | Some (item, pending1) \<Rightarrow> map_option (\<lambda>(items, q). (item # items, q)) (compile_inotify events pending1))"

section \<open>Answers\<close>

text \<open>A scope, and a planned input, that stands for a location of the root watched by \<open>watch\<close>.\<close>

fun spans :: "watch_id \<Rightarrow> scope_id \<Rightarrow> scope \<Rightarrow> location \<Rightarrow> bool" where
  "spans watch scope AllScope loc = True"
| "spans watch scope (RootScope s) loc \<longleftrightarrow> s = scope"
| "spans watch scope (SubtreeScope sub) loc \<longleftrightarrow> sub_watch sub = watch \<and> prefix (sub_descent sub) loc"

fun rescans_at :: "watch_id \<Rightarrow> scope_id \<Rightarrow> location \<Rightarrow> planned_input \<Rightarrow> bool" where
  "rescans_at watch scope loc (PlannedOver s) \<longleftrightarrow> spans watch scope s loc"
| "rescans_at watch scope loc _ \<longleftrightarrow> False"

definition reports_at :: "watch_id \<Rightarrow> location \<Rightarrow> evidence \<Rightarrow> planned_input \<Rightarrow> bool" where
  "reports_at watch loc facts p \<longleftrightarrow> (\<exists>r. p = PlannedRec r \<and> rec_watch r = watch \<and> rec_target r = Some loc \<and> rec_evidence r = facts)"

lemma spans_located [simp]: "spans w s (located w (Some l)) loc \<longleftrightarrow> prefix l loc" "spans w s (located w None) loc"
  by (simp_all add: located_def location_new_def)

lemma next_cookie_more: "unat seq + 1 < 2 ^ 64 \<Longrightarrow> next_cookie seq = Some (seq + 1, seq + 1) \<and> unat (seq + 1) = unat seq + 1"
proof -
  assume u: "unat seq + 1 < 2 ^ 64"
  then have "seq \<noteq> - 1" by (auto simp: unsigned_minus_1_eq_mask mask_eq_exp_minus_1)
  moreover have "unat (seq + 1) = unat seq + 1" using u by (subst unat_plus_u64) simp_all
  ultimately show ?thesis by (simp add: next_cookie_def)
qed

lemma with_class_simps [simp]: "rec_watch (with_class d r) = rec_watch r" "rec_target (with_class d r) = rec_target r"
    "rec_evidence (with_class d r) = rec_evidence r" "rec_cookie (with_class d r) = rec_cookie r" "rec_kind (with_class d r) = rec_kind r"
  by (simp_all add: with_class_def split: option.split)

lemma paired_renames:
  assumes "unat seq + 1 < 2 ^ 64"
  shows "\<exists>p q. paired_rename w from to d seq = Some ([p, q], seq + 1) \<and>
    reports_at w from (evidence_of RkMovedFrom) p \<and> reports_at w to (evidence_of RkMovedTo) q"
  using next_cookie_more [OF assms] by (auto simp: paired_rename_def reports_at_def os_record_new_def)

text \<open>A batch is planned event by event; it needs at most one cookie for each.\<close>

lemma compile_batch_plans:
  assumes "\<And>e seq. e \<in> set es \<Longrightarrow> unat seq + 1 < 2 ^ 64 \<Longrightarrow>
      \<exists>item seq'. plan e seq = Some (item, seq') \<and> unat seq' \<le> unat seq + 1 \<and> P e item"
    and "unat seq + length es < 2 ^ 64"
  shows "\<exists>items seq'. compile_batch plan es seq = Some (items, seq') \<and> list_all2 P es items"
  using assms
proof (induction es arbitrary: seq)
  case (Cons e es)
  from Cons.prems(1) [of e seq] Cons.prems(2) obtain item seq1
    where 1: "plan e seq = Some (item, seq1)" "unat seq1 \<le> unat seq + 1" "P e item" by auto
  from Cons.IH [of seq1] Cons.prems 1(2) obtain items seq2
    where "compile_batch plan es seq1 = Some (items, seq2)" "list_all2 P es items" by fastforce
  with 1 show ?case by simp
qed simp

section \<open>ReadDirectoryChangesW: from the completion to the engine\<close>

fun action_facts :: "rdcw_action \<Rightarrow> evidence" where
  "action_facts ActAdded = evidence_of RkCreated"
| "action_facts ActRemoved = evidence_of RkRemoved"
| "action_facts ActRenamedOld = evidence_of RkMovedFrom"
| "action_facts ActRenamedNew = evidence_of RkMovedTo"
| "action_facts (ActUnknown _) = evidence_new"
| "action_facts _ = both_facts"

text \<open>
  What a record is owed: a report at its location with everything its action proves, or a rescan over it; for a
  name that could not be published, a rescan over the part of it that could.
\<close>

definition answers_record :: "watch_id \<Rightarrow> scope_id \<Rightarrow> rdcw_record \<Rightarrow> planned_input \<Rightarrow> bool" where
  "answers_record watch scope r p \<longleftrightarrow> (case rr_name r of
     Utf8Name cs \<Rightarrow> reports_at watch (name_location cs) (action_facts (rr_action r)) p \<or> rescans_at watch scope (name_location cs) p
   | EscalateName pre \<Rightarrow> rescans_at watch scope (name_location pre) p)"

fun halves :: "rdcw_event \<Rightarrow> rdcw_record list" where
  "halves (SingleEv r) = [r]"
| "halves (RenamedEv old new) = [old, new]"
| "halves (WidowOld r) = [r]"
| "halves (WidowNew r) = [r]"

fun event_ok :: "rdcw_event \<Rightarrow> bool" where
  "event_ok (SingleEv r) \<longleftrightarrow> rr_action r \<noteq> ActRenamedOld \<and> rr_action r \<noteq> ActRenamedNew"
| "event_ok (RenamedEv old new) \<longleftrightarrow> rr_action old = ActRenamedOld \<and> rr_action new = ActRenamedNew"
| "event_ok (WidowOld r) \<longleftrightarrow> rr_action r = ActRenamedOld"
| "event_ok (WidowNew r) \<longleftrightarrow> rr_action r = ActRenamedNew"

lemma pair_all_halves: "concat (map halves (pair_all rs)) = rs \<and> list_all event_ok (pair_all rs)"
  by (induction rs rule: pair_all.induct) auto

lemma cover_end_answers: "answers_record w s r (cover_end w s (resolve (rr_name r)))"
  by (cases "rr_name r") (simp_all add: answers_record_def name_location_def)

lemma proved_facts: "os_record_proved w e = Some rec \<Longrightarrow> rec_watch rec = w \<and> rec_evidence rec = e"
  by (auto simp: os_record_proved_def os_record_new_def)

lemma plan_single_answers:
  "action_facts (rr_action r) = facts \<Longrightarrow> \<exists>p. plan_single w s r facts = [p] \<and> answers_record w s r p"
  by (cases "rr_name r") (auto simp: plan_single_def answers_record_def reports_at_def name_location_def
      split: option.split dest: proved_facts)

lemma plan_half_answers:
  "action_facts (rr_action r) = evidence_of kind \<Longrightarrow> \<exists>p. plan_half w s r kind = [p] \<and> answers_record w s r p"
  by (cases "rr_name r") (auto simp: plan_half_def answers_record_def reports_at_def name_location_def os_record_new_def)

lemma common_parent_prefix: "prefix (common_parent from to) from" "prefix (common_parent from to) to"
proof -
  have "take (length (takeWhile (\<lambda>(f, t). f = t) (zip a b))) a = take (length (takeWhile (\<lambda>(f, t). f = t) (zip a b))) b" for a b :: location
  proof (induction a arbitrary: b)
    case (Cons x xs)
    then show ?case by (cases b) auto
  qed simp
  then show "prefix (common_parent from to) from" "prefix (common_parent from to) to"
    unfolding common_parent_def by (metis take_is_prefix)+
qed

definition item_answers :: "watch_id \<Rightarrow> scope_id \<Rightarrow> rdcw_event \<Rightarrow> planned_input list \<Rightarrow> bool" where
  "item_answers w s ev item \<longleftrightarrow> (\<forall>r \<in> set (halves ev). \<exists>p \<in> set item. answers_record w s r p)"

lemma plan_rdcw_rename_answers:
  assumes "rr_action old = ActRenamedOld" "rr_action new = ActRenamedNew" and "unat seq + 1 < 2 ^ 64"
  shows "\<exists>item seq'. plan_rdcw_rename w s old new seq = Some (item, seq') \<and> unat seq' \<le> unat seq + 1 \<and>
    item_answers w s (RenamedEv old new) item"
proof (cases "\<exists>src dst. resolve (rr_name old) = ResolvedTarget src \<and> resolve (rr_name new) = ResolvedTarget dst")
  case True
  then obtain src dst where r: "resolve (rr_name old) = ResolvedTarget src" "resolve (rr_name new) = ResolvedTarget dst" by blast
  then have n: "\<exists>cs. rr_name old = Utf8Name cs \<and> src = name_location cs" "\<exists>cs. rr_name new = Utf8Name cs \<and> dst = name_location cs"
    by (cases "rr_name old"; cases "rr_name new"; auto split: if_splits)+
  show ?thesis
  proof (cases "agreed_class (rr_is_dir old) (rr_is_dir new)")
    case None
    with r n common_parent_prefix [of src dst] show ?thesis
      by (auto simp: plan_rdcw_rename_def item_answers_def answers_record_def)
  next
    case (Some d)
    obtain p q where "paired_rename w src dst d seq = Some ([p, q], seq + 1)"
      "reports_at w src (evidence_of RkMovedFrom) p" "reports_at w dst (evidence_of RkMovedTo) q"
      using paired_renames [OF assms(3)] by blast
    with Some r n assms(1,2) next_cookie_more [OF assms(3)] show ?thesis
      by (auto simp: plan_rdcw_rename_def item_answers_def answers_record_def)
  qed
next
  case False
  then have "plan_rdcw_rename w s old new seq = Some ([cover_end w s (resolve (rr_name old)), cover_end w s (resolve (rr_name new))], seq)"
    by (auto simp: plan_rdcw_rename_def split: resolved.split)
  with cover_end_answers show ?thesis by (auto simp: item_answers_def)
qed

lemma plan_rdcw_answers:
  assumes "event_ok ev" and "unat seq + 1 < 2 ^ 64"
  shows "\<exists>item seq'. plan_rdcw w s ev seq = Some (item, seq') \<and> unat seq' \<le> unat seq + 1 \<and> item_answers w s ev item"
proof (cases ev)
  case (SingleEv r)
  with assms(1) show ?thesis
    using plan_single_answers [of r _ w s] cover_end_answers [of w s r]
    by (cases "rr_action r") (fastforce simp: item_answers_def)+
next
  case (RenamedEv old new)
  with assms plan_rdcw_rename_answers [of old new seq w s] show ?thesis by simp
next
  case (WidowOld r)
  with assms(1) plan_half_answers [of r RkMovedFrom w s] show ?thesis by (auto simp: item_answers_def)
next
  case (WidowNew r)
  with assms(1) plan_half_answers [of r RkMovedTo w s] show ?thesis by (auto simp: item_answers_def)
qed

definition fed :: "pump_op list \<Rightarrow> rdcw_record list" where
  "fed ops = concat (map (\<lambda>op. case op of Feed rs \<Rightarrow> rs | FlushCarry \<Rightarrow> []) ops)"

lemma stretches_fed: "concat (stretches ops) = fed ops"
  by (induction ops rule: stretches.induct) (auto simp: fed_def split: list.split)

lemma pumped_events:
  "concat (map halves (snd (pairer_flush (pump_run ops)))) = fed ops \<and> list_all event_ok (snd (pairer_flush (pump_run ops)))"
proof -
  have "concat (map halves (concat (map pair_all ss))) = concat ss \<and> list_all event_ok (concat (map pair_all ss))" for ss
    by (induction ss) (use pair_all_halves in auto)
  then show ?thesis by (simp add: pump_events stretches_fed)
qed

text \<open>
  From the completion to the engine nothing the kernel reported is dropped: whatever records the
  pump was fed, in whatever buffers, once it has flushed the lowering of its events succeeds, and every record is
  answered: by an input at its location that carries everything its action proves, or by a rescan over it (over
  the nameable part of its path when its own name cannot be published). Only the counter of cookies, 64 bits
  wide, must not run out.
\<close>

theorem rdcw_loses_nothing_silently:
  assumes "unat seq + length (snd (pairer_flush (pump_run ops))) < 2 ^ 64"
  shows "\<exists>items seq'. compile_rdcw w s (snd (pairer_flush (pump_run ops))) seq = Some (items, seq') \<and>
    (\<forall>r \<in> set (fed ops). \<exists>p \<in> set (concat items). answers_record w s r p)"
proof -
  let ?evs = "snd (pairer_flush (pump_run ops))"
  have ok: "list_all event_ok ?evs" using pumped_events by blast
  obtain items seq' where c: "compile_rdcw w s ?evs seq = Some (items, seq')" "list_all2 (item_answers w s) ?evs items"
    using compile_batch_plans [OF _ assms, of "plan_rdcw w s" "item_answers w s"] plan_rdcw_answers ok
    unfolding compile_rdcw_def by (fastforce simp: list_all_iff)
  have "\<exists>p \<in> set (concat items). answers_record w s r p" if "r \<in> set (fed ops)" for r
  proof -
    have "r \<in> set (concat (map halves ?evs))" using that pumped_events [of ops] by simp
    then obtain ev where "ev \<in> set ?evs" "r \<in> set (halves ev)" by auto
    then obtain item where "item \<in> set items" "item_answers w s ev item"
      using c(2) by (metis list_all2_conv_all_nth in_set_conv_nth)
    with \<open>r \<in> set (halves ev)\<close> show ?thesis unfolding item_answers_def set_concat by blast
  qed
  with c(1) show ?thesis by blast
qed

text \<open>A rename whose halves arrive in two buffers, then a write; the second file's name is a short alias.\<close>

definition plain_record :: "rdcw_action \<Rightarrow> rdcw_name \<Rightarrow> rdcw_record" where
  "plain_record a n = \<lparr>rr_action = a, rr_name = n, rr_file_id = None, rr_parent_id = None, rr_attributes = None, rr_reparse_tag = None\<rparr>"

definition sample_ops :: "pump_op list" where
  "sample_ops = [Feed [plain_record ActRenamedOld (Utf8Name [[97]])], Feed [plain_record ActRenamedNew (Utf8Name [[98]]),
     plain_record ActModified (EscalateName [[99]])], FlushCarry]"

theorem rdcw_loses_nothing_silently_witness:
  "\<exists>items seq'. compile_rdcw 1 1 (snd (pairer_flush (pump_run sample_ops))) 0 = Some (items, seq') \<and>
    (\<exists>p \<in> set (concat items). answers_record 1 1 (plain_record ActRenamedNew (Utf8Name [[98]])) p)"
proof -
  have "length (snd (pairer_flush (pump_run sample_ops))) = 2"
    by (simp add: pump_events sample_ops_def plain_record_def ids_disagree_def)
  then have "unat (0 :: u64) + length (snd (pairer_flush (pump_run sample_ops))) < 2 ^ 64" by simp
  from rdcw_loses_nothing_silently [OF this, of 1 1] obtain items seq'
    where "compile_rdcw 1 1 (snd (pairer_flush (pump_run sample_ops))) 0 = Some (items, seq')"
      "\<forall>r \<in> set (fed sample_ops). \<exists>p \<in> set (concat items). answers_record 1 1 r p" by blast
  moreover have "plain_record ActRenamedNew (Utf8Name [[98]]) \<in> set (fed sample_ops)" by (simp add: fed_def sample_ops_def)
  ultimately show ?thesis by blast
qed

section \<open>The other backends\<close>

text \<open>
  What the layers below guarantee: an admitted fanotify event has a path or a rename, and of the merged masks
  only a file's create-and-delete; a journal delta with a rename bit also names the membership it was reduced to.
\<close>

definition admitted_ok :: "admitted_event \<Rightarrow> bool" where
  "admitted_ok ev \<longleftrightarrow> ad_rename ev \<noteq> None \<or> (ad_path ev \<noteq> None \<and> (multi_structural (ad_mask ev) \<longrightarrow>
     fan_has FAN_CREATE (ad_mask ev) \<and> fan_has FAN_DELETE (ad_mask ev) \<and> \<not> fan_has FAN_ONDIR (ad_mask ev)))"

definition fan_self :: "u64 \<Rightarrow> bool" where
  "fan_self m \<longleftrightarrow> fan_has FAN_DELETE_SELF m \<or> fan_has FAN_MOVE_SELF m"

text \<open>A place of the root: a report of the facts there or a rescan over it; outside the root, a rescan of it all.\<close>

fun answers_place :: "watch_id \<Rightarrow> scope_id \<Rightarrow> evidence \<Rightarrow> lowered \<Rightarrow> planned_input \<Rightarrow> bool" where
  "answers_place w s facts (LoweredTarget loc) p \<longleftrightarrow> reports_at w loc facts p \<or> rescans_at w s loc p"
| "answers_place w s facts LoweredOutside p \<longleftrightarrow> p = PlannedOver (RootScope s)"
| "answers_place w s facts LoweredRoot p \<longleftrightarrow> rescans_at w s [] p \<or>
     (\<exists>r. p = PlannedRec r \<and> rec_watch r = w \<and> rec_target r = None \<and> (rec_evidence r = facts \<or> is_self_event (rec_kind r)))"

definition rename_end_answered :: "watch_id \<Rightarrow> scope_id \<Rightarrow> record_kind \<Rightarrow> lowered \<Rightarrow> planned_input list \<Rightarrow> bool" where
  "rename_end_answered w s kind l item \<longleftrightarrow> l = LoweredOutside \<or> (\<exists>p \<in> set item. answers_place w s (evidence_of kind) l p)"

definition fan_answered :: "watch_id \<Rightarrow> scope_id \<Rightarrow> 8 word list option \<Rightarrow> admitted_event \<Rightarrow> planned_input list \<Rightarrow> bool" where
  "fan_answered w s root ev item \<longleftrightarrow> (case ad_rename ev of
     Some (old, new) \<Rightarrow> item \<noteq> [] \<and>
       (if lower root old = LoweredRoot \<or> lower root new = LoweredRoot then item = [PlannedRec (os_record_new w RkIgnored)]
        else rename_end_answered w s RkMovedFrom (lower root old) item \<and> rename_end_answered w s RkMovedTo (lower root new) item)
   | None \<Rightarrow> (fan_proven (ad_mask ev) \<noteq> evidence_new \<or> fan_self (ad_mask ev)) \<longrightarrow>
       (\<exists>p \<in> set item. answers_place w s (fan_proven (ad_mask ev)) (lower root (the (ad_path ev))) p))"

lemma plan_rename_answers:
  assumes "unat seq + 1 < 2 ^ 64"
  shows "\<exists>item seq'. plan_rename w root s old new d seq = Some (item, seq') \<and> unat seq' \<le> unat seq + 1 \<and> item \<noteq> [] \<and>
    (if lower root old = LoweredRoot \<or> lower root new = LoweredRoot then item = [PlannedRec (os_record_new w RkIgnored)]
     else rename_end_answered w s RkMovedFrom (lower root old) item \<and> rename_end_answered w s RkMovedTo (lower root new) item)"
proof -
  have "\<exists>p q. paired_rename w src dst d seq = Some ([p, q], seq + 1) \<and>
      reports_at w src (evidence_of RkMovedFrom) p \<and> reports_at w dst (evidence_of RkMovedTo) q" for src dst
    by (rule paired_renames [OF assms])
  with next_cookie_more [OF assms] show ?thesis
    by (cases "lower root old"; cases "lower root new")
      (fastforce simp: plan_rename_def rename_end_answered_def)+
qed

lemma evidence_primary_None: "evidence_primary e = None \<longleftrightarrow> \<not> pv_created e \<and> \<not> pv_removed e \<and> \<not> pv_modified e \<and> \<not> pv_attrib e"
  by (simp add: evidence_primary_def)

lemma fan_dirent_answers:
  assumes "fan_proven m \<noteq> evidence_new"
  shows "\<exists>p \<in> set (plan_fan_dirent w s m l). answers_place w s (fan_proven m) l p"
proof -
  have "evidence_primary (fan_proven m) \<noteq> None"
    using assms unfolding evidence_primary_None by (auto simp: fan_proven_def evidence_new_def)
  then obtain k where "evidence_primary (fan_proven m) = Some k" by blast
  then obtain r where r: "os_record_proved w (fan_proven m) = Some r" by (simp add: os_record_proved_def)
  with proved_facts [OF r] show ?thesis
    by (cases l) (auto simp: plan_fan_dirent_def reports_at_def os_record_proved_def os_record_new_def)
qed

lemma plan_fanotify_answers:
  assumes "admitted_ok ev" and "unat seq + 1 < 2 ^ 64"
  shows "\<exists>item seq'. plan_fanotify w root s ev seq = Some (item, seq') \<and> unat seq' \<le> unat seq + 1 \<and> fan_answered w s root ev item"
proof (cases "ad_rename ev")
  case (Some r)
  obtain old new where "r = (old, new)" by fastforce
  with Some plan_rename_answers [OF assms(2), of w root s old new] show ?thesis
    by (simp add: plan_fanotify_def fan_answered_def)
next
  case None
  then obtain path where p: "ad_path ev = Some path" using assms(1) by (auto simp: admitted_ok_def)
  let ?m = "ad_mask ev" and ?l = "lower root path"
  have c: "answers_place w s facts ?l (cover_lowered w s ?l)" for facts by (cases ?l) (simp_all add: cover_lowered_def)
  have t: "answers_place w s facts ?l (plan_fan_self w s ?m ?l)" for facts
    by (cases ?l) (simp_all add: plan_fan_self_def os_record_new_def is_self_event_def)
  show ?thesis
  proof (cases "multi_structural ?m")
    case True
    with assms(1) None p c show ?thesis by (auto simp: plan_fanotify_def fan_answered_def admitted_ok_def)
  next
    case False
    with None p t fan_dirent_answers [of ?m w s ?l] show ?thesis
      by (cases "fan_self ?m") (auto simp: plan_fanotify_def fan_answered_def fan_self_def)
  qed
qed

text \<open>
  No admitted fanotify event is dropped and no fact of it is lost: a batch lowers completely, each
  event is answered at the place its path has under the root, by an input that carries exactly the facts its
  mask proves or by a rescan over it; both in-root ends of a rename are answered, the death of the root is
  passed on as such, and what does not lie under the root costs a rescan of it all.
\<close>

theorem fanotify_answers_every_event:
  assumes "list_all admitted_ok evs" and "unat seq + length evs < 2 ^ 64"
  shows "\<exists>items seq'. compile_fanotify w root s evs seq = Some (items, seq') \<and> list_all2 (fan_answered w s root) evs items"
  using compile_batch_plans [OF _ assms(2), of "plan_fanotify w root s" "fan_answered w s root"] plan_fanotify_answers assms(1)
  unfolding compile_fanotify_def list_all_iff by blast

definition usn_ok :: "usn_admitted \<Rightarrow> bool" where
  "usn_ok ev \<longleftrightarrow> (case ev of UsnSingle delta _ _ \<Rightarrow> pv_moved (usn_proven delta) \<longrightarrow>
     pv_created (usn_proven delta) \<or> pv_removed (usn_proven delta) | _ \<Rightarrow> True)"

definition sample_admitted :: "admitted_event list" where
  "sample_admitted =
     [\<lparr>ad_mask = 0x102, ad_path = Some [47, 114, 47, 97], ad_rename = None\<rparr>,
      \<lparr>ad_mask = 0x50000000, ad_path = None, ad_rename = Some ([47, 114, 47, 97], [47, 120])\<rparr>]"

lemma sample_admitted_ok: "list_all admitted_ok sample_admitted" "unat (0 :: u64) + length sample_admitted < 2 ^ 64"
  by (simp_all add: sample_admitted_def admitted_ok_def multi_structural_def structural_verbs_def fan_has_def FAN_CREATE_def
      FAN_DELETE_def FAN_DELETE_SELF_def FAN_MOVE_SELF_def FAN_RENAME_def FAN_ONDIR_def)

theorem fanotify_answers_every_event_witness:
  "\<exists>items seq'. compile_fanotify 1 (Some [47, 114]) 1 sample_admitted 0 = Some (items, seq') \<and>
    list_all2 (fan_answered 1 1 (Some [47, 114])) sample_admitted items"
  by (rule fanotify_answers_every_event [OF sample_admitted_ok])

definition usn_place :: "usn_target \<Rightarrow> location" where
  "usn_place t = (case t of UsnResolved c \<Rightarrow> name_location c | UsnEscalateAt c \<Rightarrow> name_location c)"

text \<open>A report of a resolved subject with at least these facts, or a rescan over the place the journal could name.\<close>

definition answers_target :: "watch_id \<Rightarrow> scope_id \<Rightarrow> evidence \<Rightarrow> usn_target \<Rightarrow> planned_input \<Rightarrow> bool" where
  "answers_target w s facts t p \<longleftrightarrow> rescans_at w s (usn_place t) p \<or>
     (\<exists>c r. t = UsnResolved c \<and> p = PlannedRec r \<and> rec_watch r = w \<and> evidence_union (rec_evidence r) facts = rec_evidence r \<and>
        (case rec_target r of None \<Rightarrow> c = [] | Some loc \<Rightarrow> loc = name_location c))"

definition usn_answered :: "watch_id \<Rightarrow> scope_id \<Rightarrow> usn_admitted \<Rightarrow> planned_input list \<Rightarrow> bool" where
  "usn_answered w s ev item \<longleftrightarrow> (case ev of
     UsnSingle delta t _ \<Rightarrow> usn_proven delta \<noteq> evidence_new \<or> delta AND USN_HARD_LINK_CHANGE \<noteq> 0 \<longrightarrow>
       (\<exists>p \<in> set item. answers_target w s (usn_proven delta) t p)
   | UsnRenamed old oc new nc _ \<Rightarrow>
       (\<exists>p \<in> set item. answers_target w s (evidence_union (evidence_of RkMovedFrom) (rename_content oc)) old p) \<and>
       (\<exists>p \<in> set item. answers_target w s (evidence_union (evidence_of RkMovedTo) (rename_content nc)) new p)
   | UsnRootDeath \<Rightarrow> item = [PlannedRec (os_record_new w RkDeleteSelf)]
   | UsnMovedInSubtree _ target \<Rightarrow> list_ex (rescans_at w s (name_location target)) item
   | _ \<Rightarrow> item = [PlannedOver (RootScope s)])"

lemma evidence_union_idem [simp]: "evidence_union e e = e" "evidence_union (evidence_union a b) (evidence_union a b) = evidence_union a b"
  by (simp_all add: evidence_union_def)

lemma cover_usn_end_answers: "answers_target w s facts t (cover_usn_end w s t)"
  by (cases t) (simp_all add: answers_target_def cover_usn_end_def usn_place_def)

lemma plan_usn_answers:
  assumes "usn_ok ev" and "unat seq + 1 < 2 ^ 64"
  shows "\<exists>item seq'. plan_usn w s ev seq = Some (item, seq') \<and> unat seq' \<le> unat seq + 1 \<and> usn_answered w s ev item"
proof (cases ev)
  case (UsnSingle delta t d)
  let ?f = "usn_proven delta"
  have "\<exists>p \<in> set (plan_usn_single w delta t d). answers_target w s ?f t p"
    if f: "?f \<noteq> evidence_new \<or> delta AND USN_HARD_LINK_CHANGE \<noteq> 0"
  proof (cases "\<exists>c. t = UsnResolved c \<and> delta AND USN_HARD_LINK_CHANGE = 0")
    case True
    then obtain c where t: "t = UsnResolved c" "delta AND USN_HARD_LINK_CHANGE = 0" by blast
    have "pv_created ?f \<or> pv_removed ?f \<or> pv_modified ?f \<or> pv_attrib ?f"
      using f t(2) assms(1) UsnSingle by (cases ?f) (auto simp: evidence_new_def usn_ok_def)
    then obtain k where "evidence_primary ?f = Some k" using evidence_primary_None [of ?f] by blast
    then obtain r where r: "os_record_proved w ?f = Some r" by (simp add: os_record_proved_def)
    with proved_facts [OF r] t show ?thesis by (simp add: plan_usn_single_def answers_target_def Let_def)
  next
    case False
    then show ?thesis by (cases t) (auto simp: plan_usn_single_def answers_target_def usn_place_def Let_def)
  qed
  with UsnSingle show ?thesis by (simp add: usn_answered_def)
next
  case (UsnRenamed old oc new nc d)
  show ?thesis
  proof (cases "\<exists>a b. old = UsnResolved a \<and> new = UsnResolved b")
    case True
    with UsnRenamed next_cookie_more [OF assms(2)] show ?thesis
      by (auto simp: usn_answered_def answers_target_def also_proved_def os_record_new_def)
  next
    case False
    then have "plan_usn w s ev seq = Some ([cover_usn_end w s old, cover_usn_end w s new], seq)"
      by (auto simp: UsnRenamed split: usn_target.split)
    with cover_usn_end_answers UsnRenamed show ?thesis by (auto simp: usn_answered_def)
  qed
qed (auto simp: usn_answered_def)

text \<open>
  No admitted journal event is dropped and no fact of it is lost: a batch lowers completely; every
  fresh reason bit the vocabulary knows reaches the engine at its subject, or a rescan covers the place the
  journal could still name; both ends of a rename are answered with the content their own records proved; the
  death of the root, and a map that can no longer be trusted, are passed on as such.
\<close>

theorem usn_answers_every_event:
  assumes "list_all usn_ok evs" and "unat seq + length evs < 2 ^ 64"
  shows "\<exists>items seq'. compile_usn w s evs seq = Some (items, seq') \<and> list_all2 (usn_answered w s) evs items"
  using compile_batch_plans [OF _ assms(2), of "plan_usn w s" "usn_answered w s"] plan_usn_answers assms(1)
  unfolding compile_usn_def list_all_iff by blast

theorem usn_answers_every_event_witness:
  "\<exists>items seq'. compile_usn 1 1 [UsnSingle 0x1100 (UsnResolved [[97]]) False, UsnRenamed (UsnResolved [[97]]) 1 (UsnEscalateAt []) 0 True] 0 =
      Some (items, seq') \<and>
    list_all2 (usn_answered 1 1) [UsnSingle 0x1100 (UsnResolved [[97]]) False, UsnRenamed (UsnResolved [[97]]) 1 (UsnEscalateAt []) 0 True] items"
  by (rule usn_answers_every_event) (simp_all add: usn_ok_def usn_proven_def USN_FILE_CREATE_def)

definition self_mask :: "u32 \<Rightarrow> bool" where
  "self_mask m \<longleftrightarrow> mask_has IN_IGNORED m \<or> mask_has IN_UNMOUNT m \<or> mask_has IN_MOVE_SELF m \<or> mask_has IN_DELETE_SELF m"

definition reserved :: "pending_widen option \<Rightarrow> watch_id \<Rightarrow> bool" where
  "reserved pending a \<longleftrightarrow> (\<exists>p. pending = Some p \<and> pw_reserved p = a)"

text \<open>The watch an input is about.\<close>

definition concerns :: "watch_id \<Rightarrow> planned_input \<Rightarrow> bool" where
  "concerns a p \<longleftrightarrow> (case p of PlannedRec r \<Rightarrow> rec_watch r = a | PlannedOver (SubtreeScope sub) \<Rightarrow> sub_watch sub = a | _ \<Rightarrow> True)"

definition anchor_answered :: "raw_inotify_event \<Rightarrow> watch_id \<Rightarrow> planned_input \<Rightarrow> bool" where
  "anchor_answered ev a p \<longleftrightarrow> p = PlannedOver (located a None) \<or>
     (\<exists>r. p = PlannedRec r \<and> rec_watch r = a \<and> (if self_mask (ie_mask ev) then is_self_event (rec_kind r)
        else rec_evidence r = inotify_proven (ie_mask ev) \<and> rec_target r = map_option (\<lambda>n. [segment_of_bytes n]) (ie_name ev)))"

lemma plan_anchor_concerns: "p \<in> set (plan_anchor ev a) \<Longrightarrow> concerns b p \<Longrightarrow> a = b"
  by (auto simp: plan_anchor_def concerns_def located_def also_proved_def os_record_new_def Let_def split: if_splits option.splits)

lemma plan_anchor_answers:
  assumes "self_mask (ie_mask ev) \<or> inotify_proven (ie_mask ev) \<noteq> evidence_new"
  shows "\<exists>p \<in> set (plan_anchor ev a). anchor_answered ev a p"
proof (cases "self_mask (ie_mask ev)")
  case True
  then show ?thesis
    by (auto simp: plan_anchor_def anchor_answered_def self_mask_def os_record_new_def is_self_event_def Let_def)
next
  case False
  let ?m = "ie_mask ev"
  have "inotify_verb ?m = None \<Longrightarrow> inotify_proven ?m = evidence_new"
    by (auto simp: inotify_proven_def evidence_new_def inotify_verb_def split: if_splits)
  with assms False obtain k where k: "inotify_verb ?m = Some k" by blast
  then have "evidence_union (evidence_of k) (inotify_proven ?m) = inotify_proven ?m"
    by (auto simp: inotify_verb_def evidence_union_def inotify_proven_def evidence_new_def split: if_splits)
  with k False show ?thesis
    by (auto simp: plan_anchor_def anchor_answered_def self_mask_def also_proved_def os_record_new_def Let_def)
qed

lemma taint_kept: "pw_reserved (taint c p) = pw_reserved p" "pw_tainted (taint c p) \<noteq> None"
    "pw_tainted p \<noteq> None \<Longrightarrow> taint c p = p"
  by (auto simp: taint_def split: option.split)

lemma consume_kept: "pw_reserved (consume_reserved m p) = pw_reserved p"
    "self_mask m \<or> pw_tainted p \<noteq> None \<Longrightarrow> pw_tainted (consume_reserved m p) \<noteq> None"
    "pw_tainted p \<noteq> None \<Longrightarrow> pw_tainted (consume_reserved m p) = pw_tainted p"
  by (simp_all add: consume_reserved_def taint_kept self_mask_def del: not_None_eq) blast

lemma reserved_consumed [simp]: "reserved (Some (consume_reserved m p)) a = reserved (Some p) a"
  by (simp add: reserved_def consume_kept)

definition tainted :: "pending_widen option \<Rightarrow> bool" where
  "tainted pending \<longleftrightarrow> (\<exists>p. pending = Some p \<and> pw_tainted p \<noteq> None)"

lemma plan_anchors_facts:
  "plan_anchors ev anchors pending = (ps, pending') \<Longrightarrow>
   (\<forall>a. reserved pending a \<longrightarrow> list_all (\<lambda>x. \<not> concerns a x) ps) \<and>
   (tainted pending \<longrightarrow> tainted pending') \<and>
   (\<forall>a \<in> set anchors. reserved pending a \<longrightarrow> self_mask (ie_mask ev) \<longrightarrow> tainted pending') \<and>
   (\<forall>a \<in> set anchors. \<not> reserved pending a \<longrightarrow> self_mask (ie_mask ev) \<or> inotify_proven (ie_mask ev) \<noteq> evidence_new \<longrightarrow>
      list_ex (anchor_answered ev a) ps)"
proof (induction ev anchors pending arbitrary: ps rule: plan_anchors.induct)
  case (2 ev a anchors pending)
  show ?case
  proof (cases "reserved pending a")
    case True
    then obtain p where p: "pending = Some p" "pw_reserved p = a" by (auto simp: reserved_def)
    with 2(4) have "plan_anchors ev anchors (Some (consume_reserved (ie_mask ev) p)) = (ps, pending')" by simp
    note ih = 2(2) [OF p this]
    have t: "self_mask (ie_mask ev) \<or> tainted pending \<Longrightarrow> tainted (Some (consume_reserved (ie_mask ev) p))"
      using consume_kept(2) [of "ie_mask ev" p] by (auto simp: tainted_def p)
    show ?thesis using ih t True unfolding reserved_consumed p(1) [symmetric] by auto
  next
    case False
    obtain qs q where q: "plan_anchors ev anchors pending = (qs, q)" by fastforce
    with 2(4) False have r: "ps = plan_anchor ev a @ qs" "pending' = q" by (auto simp: reserved_def split: option.splits if_splits)
    have ih: "(\<forall>b. reserved pending b \<longrightarrow> list_all (\<lambda>x. \<not> concerns b x) qs) \<and> (tainted pending \<longrightarrow> tainted q) \<and>
        (\<forall>b \<in> set anchors. reserved pending b \<longrightarrow> self_mask (ie_mask ev) \<longrightarrow> tainted q) \<and>
        (\<forall>b \<in> set anchors. \<not> reserved pending b \<longrightarrow> self_mask (ie_mask ev) \<or> inotify_proven (ie_mask ev) \<noteq> evidence_new \<longrightarrow>
          list_ex (anchor_answered ev b) qs)"
    proof (cases pending)
      case None
      with 2(1) q r(2) show ?thesis by simp
    next
      case (Some p)
      with False 2(3) [OF Some] q r(2) show ?thesis by (simp add: reserved_def)
    qed
    have "reserved pending b \<Longrightarrow> list_all (\<lambda>x. \<not> concerns b x) (plan_anchor ev a)" for b
      using False plan_anchor_concerns [of _ ev a b] by (auto simp: list_all_iff)
    with ih False plan_anchor_answers [of ev a] show ?thesis unfolding r by (auto simp: list_ex_iff)
  qed
qed simp

text \<open>
  An inotify record reaches every watch its descriptor stands for: a self event as the death of that
  watch, any other with every fact of its mask and its name, or as a rescan of the directory when the name is not
  UTF-8. A record of the root a pending widen has reserved is planned for nothing; one that ends that root taints
  the window, and nothing takes the taint away.
\<close>

theorem inotify_answers_every_anchor:
  assumes "plan_inotify anchors ev pending = Some (ps, pending')" and "a \<in> set anchors"
  shows "if reserved pending a
    then list_all (\<lambda>x. \<not> concerns a x) ps \<and> (self_mask (ie_mask ev) \<or> tainted pending \<longrightarrow> tainted pending')
    else (self_mask (ie_mask ev) \<or> inotify_proven (ie_mask ev) \<noteq> evidence_new \<longrightarrow> list_ex (anchor_answered ev a) ps)"
  using assms plan_anchors_facts [of ev anchors pending ps pending'] by (auto simp: plan_inotify_def split: if_splits)

theorem inotify_answers_every_anchor_witness:
  "list_ex (anchor_answered \<lparr>ie_wd = 1, ie_mask = 0x104, ie_cookie = 0, ie_name = Some [97]\<rparr> 8)
    (plan_anchor \<lparr>ie_wd = 1, ie_mask = 0x104, ie_cookie = 0, ie_name = Some [97]\<rparr> 8)"
proof -
  let ?ev = "\<lparr>ie_wd = 1, ie_mask = 0x104, ie_cookie = 0, ie_name = Some [97]\<rparr> :: raw_inotify_event"
  let ?p = "\<lparr>pw_reserved = 7, pw_tainted = None, pw_benign = 0\<rparr>"
  have p: "plan_inotify [7, 8] ?ev (Some ?p) = Some (plan_anchor ?ev 8, Some (consume_reserved 0x104 ?p))"
    by (simp add: plan_inotify_def mask_has_def IN_Q_OVERFLOW_def consume_kept)
  have "inotify_proven 0x104 \<noteq> evidence_new"
    by (simp add: inotify_proven_def evidence_new_def mask_has_def IN_CREATE_def)
  with inotify_answers_every_anchor [OF p, of 8] show ?thesis by (simp add: reserved_def)
qed

section \<open>Placing a path\<close>

lemma split_on_free: "x \<notin> set c \<Longrightarrow> split_on x c = [c]"
  by (induction c) auto

lemma split_on_head: "x \<notin> set c \<Longrightarrow> split_on x (c @ x # rest) = c # split_on x rest"
  by (induction c) auto

fun slashed :: "8 word list list \<Rightarrow> 8 word list" where
  "slashed [] = []"
| "slashed [c] = c"
| "slashed (c # d # cs) = c @ 47 # slashed (d # cs)"

definition path_under :: "8 word list \<Rightarrow> 8 word list list \<Rightarrow> 8 word list" where
  "path_under root comps = (if comps = [] then root else if root = [47] then 47 # slashed comps else root @ 47 # slashed comps)"

definition component_ok :: "8 word list \<Rightarrow> bool" where
  "component_ok c \<longleftrightarrow> c \<noteq> [] \<and> 47 \<notin> set c \<and> utf8_valid c"

lemma split_slashed: "list_all component_ok comps \<Longrightarrow> comps \<noteq> [] \<Longrightarrow> split_on 47 (slashed comps) = comps"
  by (induction comps rule: slashed.induct) (auto simp: component_ok_def split_on_free split_on_head)

lemma lower_parts_ok: "list_all component_ok comps \<Longrightarrow> lower_parts acc comps =
    (if acc = [] \<and> comps = [] then LoweredRoot else LoweredTarget (acc @ map segment_of_bytes comps))"
  by (induction comps arbitrary: acc) (auto simp: component_ok_def)

lemma lower_under: "list_all component_ok comps \<Longrightarrow> lower (Some root) (path_under root comps) =
    (if comps = [] then LoweredRoot else LoweredTarget (map segment_of_bytes comps))"
proof (cases comps)
  case (Cons c cs)
  assume ok: "list_all component_ok comps"
  then obtain b bs where c: "c = b # bs" "b \<noteq> 47" by (cases c) (auto simp: Cons component_ok_def)
  have "\<exists>tail. slashed comps = b # tail" by (cases cs) (simp_all add: Cons c)
  with ok Cons c(2) show ?thesis
    using split_slashed [OF ok] lower_parts_ok [OF ok, of "[]"] by (auto simp: lower_def path_under_def)
qed (simp add: lower_def path_under_def)

lemma inj_segment_of_bytes: "inj segment_of_bytes"
proof (rule injI)
  fix a b assume "segment_of_bytes a = segment_of_bytes b"
  then have "map (of_char \<circ> char_of \<circ> unat) a = (map (of_char \<circ> char_of \<circ> unat) b :: nat list)"
    by (simp add: segment_of_bytes_def flip: map_map) (simp add: comp_def)
  moreover have "(of_char (char_of (unat w)) :: nat) = unat w" for w :: "8 word"
    using unsigned_less [of w, where ?'a = nat] by (simp add: take_bit_nat_eq_self)
  ultimately have "map unat a = map unat b" by (simp add: comp_def)
  then show "a = b" by (rule map_injective) (simp add: inj_def word_unat_eq_iff)
qed

text \<open>
  Placing a path finds exactly where it lies: a path below the root (also below \<open>/\<close>) gets the list of
  its components, the root itself is recognised, a sibling whose name merely starts with the root's is outside,
  and two different paths never get the same place.
\<close>

theorem lower_finds_the_place:
  assumes "list_all component_ok comps"
  shows "lower (Some root) (path_under root comps) = (if comps = [] then LoweredRoot else LoweredTarget (map segment_of_bytes comps)) \<and>
    (\<forall>b rest. root \<noteq> [47] \<and> b \<noteq> 47 \<longrightarrow> lower (Some root) (root @ b # rest) = LoweredOutside) \<and>
    (\<forall>other. list_all component_ok other \<and> lower (Some root) (path_under root other) = lower (Some root) (path_under root comps)
       \<longrightarrow> other = comps)"
proof (intro conjI allI impI)
  show "lower (Some root) (root @ b # rest) = LoweredOutside" if "root \<noteq> [47] \<and> b \<noteq> 47" for b rest
    using that by (simp add: lower_def)
  show "other = comps"
    if "list_all component_ok other \<and> lower (Some root) (path_under root other) = lower (Some root) (path_under root comps)" for other
    using that lower_under [OF assms, of root] lower_under [of other root] inj_segment_of_bytes
    by (auto simp: inj_map_eq_map split: if_splits)
qed (rule lower_under [OF assms])

theorem lower_finds_the_place_witness:
  "lower (Some [47, 114]) (path_under [47, 114] [[97], [98, 99]]) = LoweredTarget [segment_of_bytes [97], segment_of_bytes [98, 99]] \<and>
    lower (Some [47, 114]) [47, 114, 115] = LoweredOutside"
proof -
  have ok: "list_all component_ok [[97], [98, 99]]" by (simp add: component_ok_def)
  from lower_finds_the_place [OF ok, of "[47, 114]"] have
    "lower (Some [47, 114]) (path_under [47, 114] [[97], [98, 99]]) = LoweredTarget [segment_of_bytes [97], segment_of_bytes [98, 99]]"
    "lower (Some [47, 114]) ([47, 114] @ 115 # []) = LoweredOutside" by auto
  then show ?thesis by simp
qed

end
