(* ===== verification/Spec2Isabelle.thy ===== *)
theory Spec2Isabelle
  imports Coalescer_Settle Subsumer_Coverage Owner_Answers Demux Monitor_Props Fs_Transport Fs_Lower
begin

text \<open>
  A verification development for \<open>tributaries\<close>, a library that watches file trees: many callers
  subscribe to keys (canonical paths), a source arms as few disjoint roots as cover them, and each raw
  event of the source is routed to the subscriptions of its root, settled, and delivered over a bounded
  channel. A consumer that falls behind loses no information silently: what cannot be sent is replaced by a
  rescan, an instruction to enumerate a subtree again.

  \<^bold>\<open>The program.\<close> The workspace has three crates. \<open>tributary-proto\<close> holds the vocabulary (paths, handles,
  epochs, scopes, changes). \<open>tributaries\<close>, the umbrella, holds the routing, the coalescer, the
  subsumption engine, the epoch ledger, the filters and the owner task that composes them
  (\<open>driver/mod.rs\<close>). \<open>tributary-fs\<close> is a source: it drives the operating system. The owner task is the
  only writer of all umbrella state. Callers send it commands (watch, unwatch, sync, clean-up) and read
  events from the channel; the source hands it raw events and answers its calls.

  \<^bold>\<open>The theories,\<close> in the order of the code they model.

  \<^item> \<open>Prelude\<close>: words of 64 bits with saturating and checked addition, positions in slices, sorted maps
    (\<open>BTreeMap\<close>), and generic lemmas. \<open>Vocabulary\<close>: \<open>tributary-proto\<close>'s data. \<open>Umbrella_Event\<close>: the
    subscription handle, the delivered event, the source's raw event and the delivery mask
    (\<open>subscription.rs\<close>, \<open>event\<close>, \<open>source\<close>, \<open>interest\<close>).
  \<^item> \<open>Route\<close> (\<open>route/mod.rs\<close>): \<open>fan_out\<close>, over the trait as a record of operations, and the production
    adapter, which meets the trait's contract (locale \<open>routable_event\<close>).
  \<^item> \<open>Epoch_Ledger\<close> (\<open>driver/epoch/mod.rs\<close>): the stamps of each subscription; an abstract account of a
    monotone stream (locale \<open>dominance\<close>) interpreted on it.
  \<^item> \<open>Coalescer\<close> (\<open>coalesce/mod.rs\<close>); \<open>Coalescer_Correct\<close> its invariant and its closed forms,
    \<open>Coalescer_Settle\<close> its properties over histories, \<open>Coalescer_Flow\<close> what it does to the multiset of
    held events, as the driver needs it.
  \<^item> \<open>Radix\<close>: the radix tree the engine and the view keep their maps in, a third-party crate, as the
    locale of its documented map laws, interpreted on association lists.
  \<^item> \<open>Subsumer\<close> (\<open>subsume/mod.rs\<close>, \<open>view/mod.rs\<close>): the engine; \<open>Subsumer_Correct\<close> and \<open>Subsumer_Steps\<close>
    its invariant and one lemma per operation, \<open>Subsumer_History\<close> its state machine, \<open>Subsumer_Coverage\<close>
    covers, attribution and the lock-free view.
  \<^item> \<open>World\<close>: what surrounds the owner (channel, clock, source, runtime) as a record of calls on an
    environment state with the laws of locale \<open>world\<close>; \<open>script_ops\<close> is a concrete world.
  \<^item> \<open>Admission\<close> (\<open>filter/mod.rs\<close> and the gates of the driver), \<open>Parked\<close> (the parked rescans, in the
    order \<open>flush\<close> offers them) and \<open>Owner\<close> (the synchronous operations of the owner), \<open>Reconcile\<close> (watch, with
    its calls of the source, roll-back, re-arming and restoring), \<open>Run\<close> (one turn of the loop, the loop
    and the teardown).
  \<^item> \<open>Owner_Inv\<close>: the owner's invariant and the account of events. \<open>Owner_Emit\<close>, \<open>Owner_Push\<close>,
    \<open>Owner_Flush\<close>, \<open>Owner_Steps\<close>, \<open>Owner_Retire\<close>, \<open>Owner_Consume\<close>, \<open>Owner_Rebase\<close>, \<open>Owner_Watch\<close>,
    \<open>Owner_Run\<close>, \<open>Owner_Drain\<close>, \<open>Owner_Ends\<close>: the lemmas of the operations, in that order.
    \<open>Owner_Example\<close>: a concrete owner on which all laws are discharged. \<open>Owner_Props\<close>,
    \<open>Owner_Promises\<close>, \<open>Owner_Answers\<close>: the properties of the owner.
  \<^item> \<open>Demux\<close> (\<open>demux/mod.rs\<close>): the demultiplexer that splits the delivered stream into one lane per
    subscription, its router loop, and its account of what each lane received.
  \<^item> \<open>Monitor_State\<close> (\<open>action/mod.rs\<close>, \<open>record/mod.rs\<close> and the state of \<open>monitor/mod.rs\<close>),
    \<open>Monitor_Base\<close> (ledgers, clocks, emission, arms, re-arms, dropping a subtree, adoptions),
    \<open>Monitor_Slots\<close> (children, stats, enumerations, acknowledgements, pending moves) and \<open>Monitor\<close> (every
    operation a driver can call, and histories of them): the Sans-I/O reconciliation engine of
    \<open>tributary-proto\<close>, which turns the records of the operating system into changes.
  \<^item> \<open>Monitor_Core\<close>: the part of that state the invariants read, what each step leaves of it, and the walks
    toward the root. \<open>Monitor_Inv\<close> and \<open>Monitor_Keeps\<close>: the locale \<open>monitor_invariant\<close>, the laws an invariant
    owes to the elementary steps, and its preservation by every operation. \<open>Monitor_Tree\<close> (the forest of
    watches) and \<open>Monitor_Books\<close> (re-arm account, register of reads) meet it together; \<open>Monitor_Stream\<close> (order
    and permanence of what is emitted) extends it to the queue of changes. \<open>Monitor_Run\<close>: histories.
    \<open>Monitor_Cover\<close>: coalescing and losses. \<open>Monitor_Props\<close>: the properties of the engine.
  \<^item> \<open>Fs_Transport\<close> (\<open>os/transport/mod.rs\<close> of \<open>tributary-fs\<close>): the budget, the overflow signal and the
    resume points between an operating-system producer and the driver task, with their races.
  \<^item> \<open>Fs_Bytes\<close>: integers and slices in buffers of bytes. \<open>Fs_Inotify\<close> (\<open>os/linux/inotify\<close>): the decoder of
    the event buffer and the table of watch descriptors. \<open>Fs_Rdcw\<close> (\<open>os/windows/rdcw/decode.rs\<close>,
    \<open>pairing.rs\<close>): the decoder of a \<open>ReadDirectoryChangesW\<close> completion and the pairing of rename halves.
    \<open>Fs_Lower\<close> (\<open>core/compile\<close>, \<open>lower\<close> in \<open>core/mod.rs\<close>): what the events of \<open>ReadDirectoryChangesW\<close>,
    fanotify, the USN journal and inotify become as inputs of the reconciliation engine.

  \<^bold>\<open>What the lemmas show.\<close> The central account is \<open>lost\<close>-free delivery. An event is settled when it was
  sent, or a rescan covering its location with a higher stamp was sent or is owed, or it sits in the
  coalescer. \<open>no_event_is_lost\<close> says of every run of the loop that whatever its turns fanned out to a
  subscription, and did not release since, is settled in the end or was merged by the coalescer into
  something that is; what the turns fan out and release is computed from them in order (\<open>loop_labels\<close>,
  \<open>due\<close>). \<open>rescans_dominate_the_stream\<close> says that each rescan stands above all that was sent before it. Each handler has its own contract
  (consuming, watching, widening, retiring, releasing, claiming, flushing, answering a barrier, draining),
  and the loops of the watch path end:
  planning because each further round retires a root, restoring because all its roots share one budget
  (\<open>restore_naps\<close> logs its sleeps). A barrier's verdict is tied to the meters of loss read at its
  admission (\<open>delivered_means_delivered\<close>, with \<open>metered\<close>). The component properties below them (the coalescer conserves and
  bounds, the engine keeps disjoint roots and truthful attribution, the ledger dominates, routing stays
  inside the subscriber's subtree) are what the owner's proofs use.
  The reconciliation engine has its own account: along every history its watches form a forest of registered
  roots, so that the bounded walks never stop short (\<open>watches_form_a_forest\<close>); its hand-kept books agree with
  the nodes (\<open>books_are_truthful\<close>); its stream is ordered and never withdrawn; a change that is not queued
  already stands; and an overflow, of everything, of a root or of a subtree, leaves a rescan over the place
  of the loss (\<open>loss_place\<close>). The one thing asked of the driver is that an
  identifier it hands to \<open>widen_root\<close> was reserved and is not held by a pending move.
  Below it, the transport loses nothing silently either: however the driver's acknowledgements race the
  producer, a signalled loss ends with an unacknowledged overflow that no batch follows
  (\<open>every_loss_is_covered\<close>), and the functions of the code are runs of the race (\<open>forwarding_is_a_run\<close>). Of
  its channel only the log of accepted messages is kept; its generation counter is assumed not to wrap. The
  decoders and lowerings below the engine lose nothing silently: a buffer the kernel laid out reads back
  exactly and a torn one is reported as a loss (\<open>decode_reads_the_wire\<close>, \<open>completion_decodes\<close>); a completion
  decoded without a loss is accounted for to its last byte (\<open>clean_decode_skips_nothing\<close>); the pairing is
  adjacency, however the records are cut into buffers (\<open>pairing_is_adjacency\<close>); each record, event or
  anchor is answered by an input that carries all its facts or by a rescan over its place
  (\<open>rdcw_loses_nothing_silently\<close>, \<open>fanotify_answers_every_event\<close>, \<open>usn_answers_every_event\<close>,
  \<open>inotify_answers_every_anchor\<close>), and a path is placed where it lies (\<open>lower_finds_the_place\<close>).

  \<^bold>\<open>How code becomes definitions.\<close>

  \<^item> \<open>u64\<close> counters are 64-bit words; an addition that saturates or is checked is written out. Instants
    are natural numbers of nanoseconds, and additions to an \<open>Instant\<close> go through the clock's largest
    representable instant.
  \<^item> A \<open>HashMap\<close> is a partial function (its iteration order is never used where the code sorts), a
    \<open>BTreeMap\<close> or \<open>BTreeSet\<close> a sorted list, a \<open>Vec\<close> a list.
  \<^item> A panic (\<open>expect\<close>, \<open>unreachable!\<close>, a debug assertion that the state breaks, a minter that has run out of handles) is \<open>None\<close>. An unwind that
    the code catches is a value of the outcome (\<open>Unwinds\<close>, the disposal verdicts).
  \<^item> An \<open>await\<close> that races several futures is one call of the world that answers which one won.
  \<^item> Loops over finite state are structural. \<open>flush_loop\<close> carries a bound, the size of the plane at the
    start of the pass, which is the bound of the code. \<open>plan_live\<close>, \<open>rearm_disarmed_root\<close> and the two
    outermost loops are partial functions; \<open>planning_ends\<close> and \<open>restoring_ends\<close> show that the first two
    return. The outer loop is meant to run for ever; its turns are total.

  \<^bold>\<open>Parameters.\<close> The radix tree, the event channel, the clock, the source and the predicates of the callers'
  filters are arguments, and so are the lanes of the demultiplexer (locale \<open>lanes\<close>). Their laws are the locales \<open>radix\<close>, \<open>world\<close> and \<open>paced_world\<close>, gathered in
  \<open>delivery\<close>; all are interpreted together on \<open>script_site\<close>, on which the witnesses run.

  \<^bold>\<open>Not modelled.\<close> The \<open>Salvage\<close> bundles and other code that decides only where a caller's value is
  dropped; the futures on the caller's side of the channel (\<open>Tributaries\<close>, \<open>WatchGrant\<close>), which send a
  command and await the reply; the join of the closing source and the owner's destructor;
  parsing and serialisation of options; the compilation of globs; the debug assertions and the read-only
  accessors of the \<open>Monitor\<close>; of \<open>tributary-fs\<close> its driver, the bookkeeping of scopes, probes,
  mounts and covers in \<open>core/mod.rs\<close>, the FSEvents lowering, the directory maps of fanotify and the USN
  journal with their decoders, and the system calls of all backends. In its lowerings a release build covers
  what a debug assertion excludes; the model stops there (\<open>None\<close>).

  \<^bold>\<open>Findings.\<close> The emission order that the coalescer documents holds within one drain but not across two
  (\<open>epochs_can_go_backwards_across_drains\<close>). The drain at shutdown drops every buffered event of a
  subscription that has a parked rescan, but a parked rescan may be located and then does not cover its
  siblings (\<open>drain_loses_behind_a_located_rescan\<close>).
\<close>

end
